(* ===== verification/Prelude.thy ===== *)
theory Prelude
  imports Main "HOL-Library.Word" "HOL-Library.Monad_Syntax"
begin

text \<open>
  Shared vocabulary of the development: the CORBA integer types as machine words, memory blocks
  as lists of octets with checked reads and writes, the little-endian image of a word, and the
  generic lemmas on lists, options and words that the component theories use.

  A run of the program that stops (a failed \<open>assert\<close>, an access outside an allocated block) is
  \<open>None\<close>; a run that goes on is \<open>Some\<close> of its result. So a lemma of the form
  \<open>\<exists>r. f x = Some r\<close> says that \<open>f\<close> neither aborts nor touches memory it does not own.
\<close>

section \<open>Types\<close>

type_synonym octet = "8 word"
type_synonym ushort = "16 word"
type_synonym ulong = "32 word"
type_synonym ulonglong = "64 word"

section \<open>Collections used by the component theories\<close>

named_theorems mem_simps \<open>reads and writes of memory blocks\<close>
named_theorems nowrap \<open>unsigned additions that do not wrap\<close>

section \<open>Failed assertions\<close>

abbreviation require :: "bool \<Rightarrow> unit option" where
  "require P \<equiv> (if P then Some () else None)"

lemma bind_require [simp]:
  "Option.bind (require P) f = (if P then f () else None)"
  by simp

lemma bind_cases:
  assumes "Option.bind m f = Some r"
  obtains x where "m = Some x" and "f x = Some r"
  using assms by (cases m) auto

section \<open>Memory blocks\<close>

text \<open>\<open>memcpy\<close> of \<open>n\<close> octets out of a block, and into a block, at offset \<open>i\<close>.\<close>

definition mem_read :: "'a list \<Rightarrow> nat \<Rightarrow> nat \<Rightarrow> 'a list option" where
  "mem_read m i n = (if i + n \<le> length m then Some (take n (drop i m)) else None)"

definition mem_write :: "'a list \<Rightarrow> nat \<Rightarrow> 'a list \<Rightarrow> 'a list option" where
  "mem_write m i xs =
     (if i + length xs \<le> length m
      then Some (take i m @ xs @ drop (i + length xs) m) else None)"

lemma mem_read_ok [mem_simps]:
  "i + n \<le> length m \<Longrightarrow> mem_read m i n = Some (take n (drop i m))"
  by (simp add: mem_read_def)

lemma mem_read_SomeD: "mem_read m i n = Some xs \<Longrightarrow> length xs = n \<and> i + n \<le> length m"
  by (auto simp: mem_read_def split: if_splits)

lemma mem_write_ok [mem_simps]:
  "i + length xs \<le> length m \<Longrightarrow>
   mem_write m i xs = Some (take i m @ xs @ drop (i + length xs) m)"
  by (simp add: mem_write_def)

lemma length_mem_write: "mem_write m i xs = Some m' \<Longrightarrow> length m' = length m"
  by (auto simp: mem_write_def split: if_splits)

lemma mem_write_SomeD: "mem_write m i xs = Some m' \<Longrightarrow> i + length xs \<le> length m"
  by (simp add: mem_write_def split: if_splits)

lemma take_drop_split:
  "i \<le> j \<Longrightarrow> j \<le> length m \<Longrightarrow> take i m @ take (j - i) (drop i m) = take j m"
  by (metis le_add_diff_inverse take_add)

lemma take_eq_appendD:
  "xs = ys @ zs \<Longrightarrow> take (length ys) xs = ys \<and> drop (length ys) xs = zs"
  by simp

section \<open>Unsigned additions that do not wrap\<close>

lemma unat_add_nowrap [nowrap]:
  fixes x y :: "'a::len word"
  shows "unat x + unat y < 2 ^ LENGTH('a) \<Longrightarrow> unat (x + y) = unat x + unat y"
  using unat_add_lem by blast

lemma unat_of_nat_small [nowrap]:
  "n < 2 ^ LENGTH('a) \<Longrightarrow> unat (word_of_nat n :: 'a::len word) = n"
  by (simp add: unat_of_nat take_bit_nat_eq_self)

lemma unat_ulong_lt [simp]: "unat (x :: ulong) < 4294967296"
  using unsigned_less [of x] by simp

lemma unat_octet_lt [simp]: "unat (x :: octet) < 256"
  using unsigned_less [of x] by simp

lemma unat_ulong_add [nowrap]:
  fixes x y :: ulong
  shows "unat x + unat y < 4294967296 \<Longrightarrow> unat (x + y) = unat x + unat y"
  using unat_add_nowrap [of x y] by simp

lemma unat_ulong_of_nat [nowrap]:
  "n < 4294967296 \<Longrightarrow> unat (word_of_nat n :: ulong) = n"
  using unat_of_nat_small [where 'a = 32, of n] by simp

lemma unat_ulong_minus [nowrap]:
  fixes x y :: ulong
  shows "y \<le> x \<Longrightarrow> unat (x - y) = unat x - unat y"
  by (rule unat_sub)

text \<open>A 32-bit word read as a signed number.\<close>

lemma sint_ulong_small:
  assumes "unat (l :: ulong) < 2147483648"
  shows "sint l = int (unat l)"
proof -
  have "int (unat l) < int 2147483648" using assms by (simp only: of_nat_less_iff)
  then have u: "uint l < 2147483648" by simp
  have n: "- 2147483648 \<le> uint l" by (rule order_trans [of _ 0]) simp_all
  have "signed_take_bit 31 (uint l) = uint l"
    using u n by (intro signed_take_bit_int_eq_self) simp_all
  then show ?thesis by (simp add: sint_uint)
qed

lemma sint_ulong_big:
  assumes a: "2147483648 \<le> unat (l :: ulong)"
  shows "sint l = int (unat l) - 4294967296"
proof -
  have "int 2147483648 \<le> int (unat l)" using assms by (simp only: of_nat_le_iff)
  then have u: "2147483648 \<le> uint l" by simp
  have lt: "uint l < 4294967296" using uint_lt2p [of l] by simp
  have "signed_take_bit 31 (uint l) = signed_take_bit 31 (uint l - 4294967296)"
    by (simp add: signed_take_bit_eq_iff_take_bit_eq take_bit_eq_mod)
  also have "\<dots> = uint l - 4294967296"
    using u lt by (intro signed_take_bit_int_eq_self) simp_all
  finally show ?thesis by (simp add: sint_uint)
qed

lemma sint_ulong_neg_iff: "sint (l :: ulong) < 0 \<longleftrightarrow> 2147483648 \<le> unat l"
proof (cases "unat l < 2147483648")
  case True
  then show ?thesis by (simp only: sint_ulong_small) simp
next
  case False
  then have "int (unat l) < 4294967296" using unat_ulong_lt [of l] by linarith
  with False show ?thesis by (simp only: sint_ulong_big) simp
qed

section \<open>The octets of a word\<close>

text \<open>
  The little-endian image of a natural number in \<open>n\<close> octets, and the number an image stands for.
\<close>

fun nat_octets :: "nat \<Rightarrow> nat \<Rightarrow> octet list" where
  "nat_octets 0 v = []"
| "nat_octets (Suc n) v = word_of_nat v # nat_octets n (v div 256)"

fun octets_nat :: "octet list \<Rightarrow> nat" where
  "octets_nat [] = 0"
| "octets_nat (o1 # os) = unat o1 + 256 * octets_nat os"

lemma length_nat_octets [simp]: "length (nat_octets n v) = n"
  by (induction n arbitrary: v) auto

lemma unat_octet_of_nat [simp]: "unat (word_of_nat v :: octet) = v mod 256"
  by (simp add: unat_of_nat)

lemma octets_nat_octets: "octets_nat (nat_octets n v) = v mod 256 ^ n"
proof (induction n arbitrary: v)
  case (Suc n)
  have "v mod 256 + 256 * (v div 256 mod 256 ^ n) = v mod (256 * 256 ^ n)"
    by (simp add: mod_mult2_eq)
  with Suc show ?case by simp
qed simp

lemma octets_nat_bound: "octets_nat os < 256 ^ length os"
proof (induction os)
  case (Cons o1 os)
  have "unat o1 < 256" using unsigned_less [of o1] by simp
  then have "unat o1 + 256 * octets_nat os < 256 + 256 * octets_nat os" by simp
  also have "\<dots> = 256 * Suc (octets_nat os)" by simp
  also have "\<dots> \<le> 256 * 256 ^ length os" using Cons by (intro mult_le_mono2) simp
  finally show ?case by simp
qed simp

lemma nat_octets_nat: "nat_octets (length os) (octets_nat os) = os"
proof (induction os)
  case (Cons o1 os)
  have u: "unat o1 < 256" using unsigned_less [of o1] by simp
  have "word_of_nat (unat o1 + 256 * octets_nat os) = o1"
    using u by (simp add: word_unat_eq_iff del: of_nat_add of_nat_mult)
  moreover have "(unat o1 + 256 * octets_nat os) div 256 = octets_nat os"
    using u by simp
  ultimately show ?case using Cons by simp
qed simp

end
