(* ===== verification/Octet_Channel.thy ===== *)
theory Octet_Channel
  imports Prelude
begin

text \<open>
  The contract between the codecs and the buffer below them, as an interface: octets appended
  with \<open>put\<close> come back from \<open>get\<close> in the same order. \<open>room\<close> is how many octets still fit
  below the 32-bit write position; \<open>None\<close> inside a result is the FALSE of a read past the end.
\<close>

fun put_blocks :: "(octet list \<Rightarrow> 'c \<Rightarrow> 'c option) \<Rightarrow> octet list list \<Rightarrow> 'c \<Rightarrow> 'c option" where
  "put_blocks p [] c = Some c"
| "put_blocks p (xs # xss) c = do { c \<leftarrow> p xs c; put_blocks p xss c }"

fun get_blocks :: "(nat \<Rightarrow> 'c \<Rightarrow> (octet list option \<times> 'c) option) \<Rightarrow> nat list \<Rightarrow> 'c \<Rightarrow>
    (octet list list option \<times> 'c) option" where
  "get_blocks g [] c = Some (Some [], c)"
| "get_blocks g (n # ns) c = do {
     (r, c) \<leftarrow> g n c;
     case r of None \<Rightarrow> Some (None, c)
     | Some xs \<Rightarrow> do {
         (rs, c) \<leftarrow> get_blocks g ns c;
         Some (map_option ((#) xs) rs, c)
       }
   }"

locale octet_channel =
  fixes inv :: "'c \<Rightarrow> bool"
    and room :: "'c \<Rightarrow> nat"
    and contents :: "'c \<Rightarrow> octet list"
    and put :: "octet list \<Rightarrow> 'c \<Rightarrow> 'c option"
    and get :: "nat \<Rightarrow> 'c \<Rightarrow> (octet list option \<times> 'c) option"
  assumes put_law: "inv c \<Longrightarrow> length xs \<le> room c \<Longrightarrow>
      \<exists>c'. put xs c = Some c' \<and> inv c' \<and> contents c' = contents c @ xs \<and>
           room c' + length xs = room c"
    and get_law: "inv c \<Longrightarrow> n \<le> length (contents c) \<Longrightarrow>
      \<exists>c'. get n c = Some (Some (take n (contents c)), c') \<and> inv c' \<and>
           contents c' = drop n (contents c)"
    and short_law: "inv c \<Longrightarrow> length (contents c) < n \<Longrightarrow> n < 4294967296 \<Longrightarrow>
      get n c = Some (None, c)"
begin

lemma put_blocks_contents:
  "inv c \<Longrightarrow> sum_list (map length xss) \<le> room c \<Longrightarrow>
   \<exists>c'. put_blocks put xss c = Some c' \<and> inv c' \<and> contents c' = contents c @ concat xss"
proof (induction xss arbitrary: c)
  case (Cons xs xss)
  then obtain d where d: "put xs c = Some d" "inv d" "contents d = contents c @ xs"
    "room d + length xs = room c"
    using put_law [of c xs] by auto
  then obtain e where "put_blocks put xss d = Some e" "inv e"
    "contents e = contents d @ concat xss"
    using Cons.IH [of d] Cons.prems by auto
  with d show ?case by simp
qed simp

lemma get_blocks_contents:
  "inv c \<Longrightarrow> contents c = concat xss @ rest \<Longrightarrow>
   \<exists>c'. get_blocks get (map length xss) c = Some (Some xss, c') \<and> inv c' \<and> contents c' = rest"
proof (induction xss arbitrary: c)
  case (Cons xs xss)
  then obtain d where d: "get (length xs) c = Some (Some xs, d)" "inv d"
    "contents d = concat xss @ rest"
    using get_law [of c "length xs"] by auto
  then obtain e where "get_blocks get (map length xss) d = Some (Some xss, e)" "inv e"
    "contents e = rest"
    using Cons.IH [of d] by auto
  with d show ?case by simp
qed simp

text \<open>First in, first out: what was put comes back, block by block, and nothing is left.\<close>

lemma fifo:
  assumes "inv c" and "contents c = []" and "sum_list (map length xss) \<le> room c"
  shows "\<exists>c' c''. put_blocks put xss c = Some c' \<and>
     get_blocks get (map length xss) c' = Some (Some xss, c'') \<and> contents c'' = []"
proof -
  obtain c' where "put_blocks put xss c = Some c'" "inv c'" "contents c' = concat xss @ []"
    using put_blocks_contents [OF assms(1,3)] assms(2) by auto
  then show ?thesis using get_blocks_contents by metis
qed

text \<open>One octet more than was put is refused, and the refused read takes nothing.\<close>

lemma no_more:
  assumes "inv c" and "contents c = []" and "length xs \<le> room c" and "length xs < 4294967295"
  shows "\<exists>c'. put xs c = Some c' \<and> get (Suc (length xs)) c' = Some (None, c')"
  using put_law [OF assms(1,3)] short_law assms(2,4) by fastforce

end

end
