(* ===== verification/Octet_Buffer.thy ===== *)
theory Octet_Buffer
  imports Octet_Channel
begin

text \<open>
  \<open>CORBA::Buffer\<close> (orb/buffer.cc, include/mico/buffer.h): the octet buffer below every encoder
  and decoder. The record has the class's fields; \<open>_buf\<close> is the list of the octets of the
  allocated block, and \<open>fresh\<close> is the octet that uninitialised memory holds (any octet: a
  parameter of the model). \<open>malloc\<close> and \<open>realloc\<close> are taken to succeed. All positions are
  32-bit \<open>ULong\<close>s whose arithmetic wraps as in the code. Reads return \<open>None\<close> inside the
  result where the code returns FALSE; the outer \<open>None\<close> is a failed assertion or an access
  outside the block. Where \<open>get2\<close>..\<open>get16\<close> and \<open>put2\<close>..\<open>put16\<close> choose between a word copy
  and an octet-by-octet copy from the alignment of the pointers, both copy the same octets in the
  same order, so the model has the one effect.
\<close>

section \<open>State\<close>

record buffer =
  readonly :: bool
  rptr :: ulong
  wptr :: ulong
  ralignbase :: ulong
  walignbase :: ulong
  blen :: ulong
  mem :: "octet list"
  fresh :: octet

definition MINSIZE :: ulong where "MINSIZE = 128"
definition RESIZE_THRESH :: ulong where "RESIZE_THRESH = 10000"
definition RESIZE_INCREMENT :: ulong where "RESIZE_INCREMENT = 10000"

section \<open>Allocation and constructors\<close>

definition buf_alloc :: "octet \<Rightarrow> ulong \<Rightarrow> octet list" where
  "buf_alloc f sz = replicate (unat sz) f"

definition buf_realloc :: "octet \<Rightarrow> octet list \<Rightarrow> ulong \<Rightarrow> octet list" where
  "buf_realloc f m nsz = take (unat nsz) (m @ replicate (unat nsz - length m) f)"

text \<open>\<open>Buffer (void *b)\<close>: read-only, the contents are the caller's memory.\<close>

definition buffer_readonly :: "octet list \<Rightarrow> buffer" where
  "buffer_readonly m =
     \<lparr>readonly = True, rptr = 0, wptr = 0x7fffffff, ralignbase = 0, walignbase = 0,
      blen = 0x7fffffff, mem = m, fresh = 0\<rparr>"

definition buffer_new :: "octet \<Rightarrow> ulong \<Rightarrow> buffer" where
  "buffer_new f sz =
     (let sz = (if sz < MINSIZE then MINSIZE else sz)
      in \<lparr>readonly = False, rptr = 0, wptr = 0, ralignbase = 0, walignbase = 0,
          blen = sz, mem = buf_alloc f sz, fresh = f\<rparr>)"

definition buffer_copy :: "buffer \<Rightarrow> buffer option" where
  "buffer_copy b = do {
     m \<leftarrow> mem_read (mem b) 0 (unat (blen b));
     Some (b\<lparr>mem := m, readonly := False\<rparr>)
   }"

text \<open>\<open>operator=\<close> for two different buffers (the code leaves \<open>*this\<close> alone otherwise).\<close>

definition buffer_assign :: "buffer \<Rightarrow> buffer \<Rightarrow> buffer option" where
  "buffer_assign this b = do {
     require (\<not> readonly this \<and> \<not> readonly b);
     m \<leftarrow> mem_read (mem b) 0 (unat (blen b));
     Some (this\<lparr>mem := m, blen := blen b, rptr := rptr b, wptr := wptr b,
                ralignbase := ralignbase b, walignbase := walignbase b\<rparr>)
   }"

definition buf_length :: "buffer \<Rightarrow> ulong" where
  "buf_length b = wptr b - rptr b"

text \<open>The octets \<open>memcmp\<close> and \<open>put_buffer\<close> see: \<open>length ()\<close> of them from \<open>data ()\<close>.\<close>

definition buf_data :: "buffer \<Rightarrow> octet list option" where
  "buf_data b = mem_read (mem b) (unat (rptr b)) (unat (buf_length b))"

definition buffer_eq :: "buffer \<Rightarrow> buffer \<Rightarrow> bool option" where
  "buffer_eq this b = do {
     require (\<not> readonly this \<and> \<not> readonly b);
     if buf_length this \<noteq> buf_length b then Some False
     else do {
       xs \<leftarrow> buf_data this;
       ys \<leftarrow> buf_data b;
       Some (xs = ys)
     }
   }"

definition buf_reset :: "ulong \<Rightarrow> buffer \<Rightarrow> buffer" where
  "buf_reset sz b =
     (let b = b\<lparr>rptr := 0, ralignbase := 0, walignbase := 0\<rparr>
      in if readonly b then b
         else let b = b\<lparr>wptr := 0\<rparr>;
                  sz = (if sz < MINSIZE then MINSIZE else sz)
              in if blen b < sz then b\<lparr>mem := buf_alloc (fresh b) sz, blen := sz\<rparr> else b)"

definition doresize :: "ulong \<Rightarrow> buffer \<Rightarrow> buffer option" where
  "doresize needed b = do {
     require (\<not> readonly b);
     if wptr b + needed > blen b
     then let nlen = (if blen b < RESIZE_THRESH then 2 * blen b else blen b + RESIZE_INCREMENT);
              nlen = (if wptr b + needed > nlen then wptr b + needed else nlen)
          in Some (b\<lparr>mem := buf_realloc (fresh b) (mem b) nlen, blen := nlen\<rparr>)
     else Some b
   }"

definition resize :: "ulong \<Rightarrow> buffer \<Rightarrow> buffer option" where
  "resize needed b = (if wptr b + needed > blen b then doresize needed b else Some b)"

section \<open>Reading\<close>

text \<open>\<open>rseek_rel (Long)\<close>: adding the signed offset is adding its 32-bit image.\<close>

definition rseek_rel :: "ulong \<Rightarrow> buffer \<Rightarrow> bool \<times> buffer" where
  "rseek_rel offs b =
     (if rptr b + offs > wptr b then (False, b) else (True, b\<lparr>rptr := rptr b + offs\<rparr>))"

definition rseek_beg :: "ulong \<Rightarrow> buffer \<Rightarrow> bool \<times> buffer" where
  "rseek_beg offs b = (if offs > wptr b then (False, b) else (True, b\<lparr>rptr := offs\<rparr>))"

definition rseek_end :: "ulong \<Rightarrow> buffer \<Rightarrow> bool \<times> buffer" where
  "rseek_end offs b =
     (if offs > blen b \<or> blen b - offs > wptr b then (False, b)
      else (True, b\<lparr>rptr := blen b - offs\<rparr>))"

definition ralign :: "ulong \<Rightarrow> buffer \<Rightarrow> (bool \<times> buffer) option" where
  "ralign alignment b = do {
     require (alignment \<ge> 1);
     require (rptr b \<ge> ralignbase b);
     let r = alignment - ((rptr b - ralignbase b) mod alignment);
     if r \<noteq> alignment
     then let b = b\<lparr>rptr := rptr b + r\<rparr>
          in if rptr b > wptr b then Some (False, b\<lparr>rptr := rptr b - r\<rparr>) else Some (True, b)
     else Some (True, b)
   }"

definition peek :: "ulong \<Rightarrow> buffer \<Rightarrow> (octet list option) option" where
  "peek n b =
     (if wptr b - rptr b < n then Some None
      else map_option Some (mem_read (mem b) (unat (rptr b)) (unat n)))"

definition peek_octet :: "buffer \<Rightarrow> (octet option) option" where
  "peek_octet b =
     (if wptr b = rptr b then Some None
      else do { xs \<leftarrow> mem_read (mem b) (unat (rptr b)) 1; Some (Some (hd xs)) })"

text \<open>Copy the next \<open>n\<close> octets out and advance, as every \<open>get\<close> does once its test has passed.\<close>

definition take_octets :: "nat \<Rightarrow> buffer \<Rightarrow> (octet list \<times> buffer) option" where
  "take_octets n b = do {
     xs \<leftarrow> mem_read (mem b) (unat (rptr b)) n;
     Some (xs, b\<lparr>rptr := rptr b + word_of_nat n\<rparr>)
   }"

definition get :: "ulong \<Rightarrow> buffer \<Rightarrow> (octet list option \<times> buffer) option" where
  "get l b =
     (if wptr b - rptr b < l then Some (None, b)
      else do { (xs, b) \<leftarrow> take_octets (unat l) b; Some (Some xs, b) })"

definition get_octet_buf :: "buffer \<Rightarrow> (octet option \<times> buffer) option" where
  "get_octet_buf b =
     (if wptr b = rptr b then Some (None, b)
      else do { (xs, b) \<leftarrow> take_octets 1 b; Some (Some (hd xs), b) })"

definition get1 :: "buffer \<Rightarrow> (octet list option \<times> buffer) option" where
  "get1 b =
     (if wptr b = rptr b then Some (None, b)
      else do { (xs, b) \<leftarrow> take_octets 1 b; Some (Some xs, b) })"

definition get2 :: "buffer \<Rightarrow> (octet list option \<times> buffer) option" where
  "get2 b =
     (if rptr b + 2 > wptr b then Some (None, b)
      else do { (xs, b) \<leftarrow> take_octets 2 b; Some (Some xs, b) })"

definition get4 :: "buffer \<Rightarrow> (octet list option \<times> buffer) option" where
  "get4 b =
     (if rptr b + 4 > wptr b then Some (None, b)
      else do { (xs, b) \<leftarrow> take_octets 4 b; Some (Some xs, b) })"

definition get8 :: "buffer \<Rightarrow> (octet list option \<times> buffer) option" where
  "get8 b =
     (if rptr b + 8 > wptr b then Some (None, b)
      else do { (xs, b) \<leftarrow> take_octets 8 b; Some (Some xs, b) })"

definition get16 :: "buffer \<Rightarrow> (octet list option \<times> buffer) option" where
  "get16 b =
     (if rptr b + 16 > wptr b then Some (None, b)
      else do { (xs, b) \<leftarrow> take_octets 16 b; Some (Some xs, b) })"

section \<open>Writing\<close>

definition wseek_rel :: "ulong \<Rightarrow> buffer \<Rightarrow> buffer option" where
  "wseek_rel offs b = do {
     require (\<not> readonly b);
     require (wptr b + offs \<ge> rptr b \<and> wptr b + offs \<le> blen b);
     Some (b\<lparr>wptr := wptr b + offs\<rparr>)
   }"

definition wseek_beg :: "ulong \<Rightarrow> buffer \<Rightarrow> buffer option" where
  "wseek_beg offs b = do {
     require (\<not> readonly b);
     require (offs \<ge> rptr b \<and> offs \<le> blen b);
     Some (b\<lparr>wptr := offs\<rparr>)
   }"

definition wseek_end :: "ulong \<Rightarrow> buffer \<Rightarrow> buffer option" where
  "wseek_end offs b = do {
     require (\<not> readonly b);
     require (blen b - offs \<ge> rptr b);
     Some (b\<lparr>wptr := blen b - offs\<rparr>)
   }"

definition wpos :: "buffer \<Rightarrow> ulong option" where
  "wpos b = do { require (\<not> readonly b); Some (wptr b) }"

text \<open>Store octets at the write position and advance.\<close>

definition store_octets :: "octet list \<Rightarrow> buffer \<Rightarrow> buffer option" where
  "store_octets xs b = do {
     m \<leftarrow> mem_write (mem b) (unat (wptr b)) xs;
     Some (b\<lparr>mem := m, wptr := wptr b + word_of_nat (length xs)\<rparr>)
   }"

text \<open>The loop \<open>while (w--) _buf[_wptr++] = 0\<close>.\<close>

fun zero_fill :: "nat \<Rightarrow> buffer \<Rightarrow> buffer option" where
  "zero_fill 0 b = Some b"
| "zero_fill (Suc w) b = do { b \<leftarrow> store_octets [0] b; zero_fill w b }"

definition walign :: "ulong \<Rightarrow> buffer \<Rightarrow> buffer option" where
  "walign alignment b = do {
     require (\<not> readonly b);
     require (alignment \<ge> 1);
     require (wptr b \<ge> walignbase b);
     let w = alignment - ((wptr b - walignbase b) mod alignment);
     if w \<noteq> alignment then do { b \<leftarrow> resize w b; zero_fill (unat w) b } else Some b
   }"

definition replace :: "octet list \<Rightarrow> buffer \<Rightarrow> buffer option" where
  "replace o1 b = do {
     require (\<not> readonly b);
     let b = buf_reset (word_of_nat (length o1)) b;
     store_octets o1 b
   }"

definition replace_octet :: "octet \<Rightarrow> buffer \<Rightarrow> buffer option" where
  "replace_octet o1 b = do {
     require (\<not> readonly b);
     let b = buf_reset 1 b;
     store_octets [o1] b
   }"

text \<open>\<open>put (const void *, ULong l)\<close>: \<open>src\<close> is the memory the source pointer can read.\<close>

definition put :: "octet list \<Rightarrow> ulong \<Rightarrow> buffer \<Rightarrow> buffer option" where
  "put src l b = do {
     require (\<not> readonly b);
     b \<leftarrow> resize l b;
     xs \<leftarrow> mem_read src 0 (unat l);
     store_octets xs b
   }"

definition put_octet_buf :: "octet \<Rightarrow> buffer \<Rightarrow> buffer option" where
  "put_octet_buf o1 b = do {
     require (\<not> readonly b);
     b \<leftarrow> resize 1 b;
     store_octets [o1] b
   }"

definition put1 :: "octet \<Rightarrow> buffer \<Rightarrow> buffer option" where
  "put1 p b = do {
     require (\<not> readonly b);
     b \<leftarrow> resize 1 b;
     store_octets [p] b
   }"

text \<open>
  The four fixed-width stores. \<open>_wptr\<close> is recomputed from the store address, with an
  \<open>assert (t < UINT_MAX)\<close>.
\<close>

definition store_checked :: "octet list \<Rightarrow> buffer \<Rightarrow> buffer option" where
  "store_checked xs b = do {
     m \<leftarrow> mem_write (mem b) (unat (wptr b)) xs;
     require (unat (wptr b) + length xs < 4294967295);
     Some (b\<lparr>mem := m, wptr := word_of_nat (unat (wptr b) + length xs)\<rparr>)
   }"

definition put2 :: "octet list \<Rightarrow> buffer \<Rightarrow> buffer option" where
  "put2 p b = do {
     require (\<not> readonly b \<and> wptr b \<ge> walignbase b);
     b \<leftarrow> resize 2 b;
     xs \<leftarrow> mem_read p 0 2;
     store_checked xs b
   }"

definition put4 :: "octet list \<Rightarrow> buffer \<Rightarrow> buffer option" where
  "put4 p b = do {
     require (\<not> readonly b \<and> wptr b \<ge> walignbase b);
     b \<leftarrow> resize 4 b;
     xs \<leftarrow> mem_read p 0 4;
     store_checked xs b
   }"

definition put8 :: "octet list \<Rightarrow> buffer \<Rightarrow> buffer option" where
  "put8 p b = do {
     require (\<not> readonly b \<and> wptr b \<ge> walignbase b);
     b \<leftarrow> resize 8 b;
     xs \<leftarrow> mem_read p 0 8;
     store_checked xs b
   }"

definition put16 :: "octet list \<Rightarrow> buffer \<Rightarrow> buffer option" where
  "put16 p b = do {
     require (\<not> readonly b \<and> wptr b \<ge> walignbase b);
     b \<leftarrow> resize 16 b;
     xs \<leftarrow> mem_read p 0 16;
     store_checked xs b
   }"

section \<open>Invariant and abstract contents\<close>

text \<open>
  A well-formed read/write buffer: read position, write position and size are ordered, and the
  block has the recorded size. Its contents are the octets between the two positions.
\<close>

definition buf_wf :: "buffer \<Rightarrow> bool" where
  "buf_wf b \<longleftrightarrow> \<not> readonly b \<and> rptr b \<le> wptr b \<and> wptr b \<le> blen b \<and>
     length (mem b) = unat (blen b)"

definition octets :: "buffer \<Rightarrow> octet list" where
  "octets b = drop (unat (rptr b)) (take (unat (wptr b)) (mem b))"

text \<open>\<open>writes b xs b'\<close>: \<open>b'\<close> is \<open>b\<close> with \<open>xs\<close> appended; \<open>reads b xs b'\<close>: with \<open>xs\<close> consumed.\<close>

definition writes :: "buffer \<Rightarrow> octet list \<Rightarrow> buffer \<Rightarrow> bool" where
  "writes b xs b' \<longleftrightarrow> buf_wf b' \<and> octets b' = octets b @ xs \<and>
     unat (wptr b') = unat (wptr b) + length xs \<and> rptr b' = rptr b \<and>
     ralignbase b' = ralignbase b \<and> walignbase b' = walignbase b \<and> fresh b' = fresh b \<and>
     blen b \<le> blen b' \<and> take (unat (wptr b)) (mem b') = take (unat (wptr b)) (mem b)"

definition reads :: "buffer \<Rightarrow> octet list \<Rightarrow> buffer \<Rightarrow> bool" where
  "reads b xs b' \<longleftrightarrow> buf_wf b' \<and> octets b = xs @ octets b' \<and>
     unat (rptr b') = unat (rptr b) + length xs \<and> (\<exists>r. b' = b\<lparr>rptr := r\<rparr>)"

lemma buf_wfD:
  assumes "buf_wf b"
  shows "\<not> readonly b" "unat (rptr b) \<le> unat (wptr b)" "unat (wptr b) \<le> unat (blen b)"
    "length (mem b) = unat (blen b)" "unat (wptr b) \<le> length (mem b)"
  using assms by (auto simp: buf_wf_def word_le_nat_alt)

lemma length_octets [simp]:
  "buf_wf b \<Longrightarrow> length (octets b) = unat (wptr b) - unat (rptr b)"
  using buf_wfD [of b] by (simp add: octets_def)

lemma unat_buf_length: "buf_wf b \<Longrightarrow> unat (buf_length b) = length (octets b)"
  by (simp add: buf_length_def buf_wf_def nowrap)

lemma buf_data_octets: "buf_wf b \<Longrightarrow> buf_data b = Some (octets b)"
  using buf_wfD [of b]
  by (simp add: buf_data_def unat_buf_length mem_simps octets_def drop_take)

lemma writes_trans [trans]:
  assumes "writes b xs c" and "writes c ys d"
  shows "writes b (xs @ ys) d"
proof -
  have le: "unat (wptr b) \<le> unat (wptr c)" using assms(1) by (simp add: writes_def)
  have t: "take (unat (wptr c)) (mem d) = take (unat (wptr c)) (mem c)"
    using assms(2) by (simp add: writes_def)
  have "take (unat (wptr b)) (mem d) = take (unat (wptr b)) (take (unat (wptr c)) (mem d))"
    using le by (simp add: min_absorb1)
  also have "\<dots> = take (unat (wptr b)) (mem c)"
    using le by (simp only: t) (simp add: min_absorb1)
  also have "\<dots> = take (unat (wptr b)) (mem b)"
    using assms(1) by (simp add: writes_def)
  finally show ?thesis using assms by (auto simp: writes_def)
qed

lemma reads_trans [trans]:
  "reads b xs c \<Longrightarrow> reads c ys d \<Longrightarrow> reads b (xs @ ys) d"
  by (auto simp: reads_def)

lemma writes_refl [simp]: "writes b [] b \<longleftrightarrow> buf_wf b"
  by (simp add: writes_def)

lemma reads_refl [simp]: "reads b [] b \<longleftrightarrow> buf_wf b"
  by (auto simp: reads_def intro: exI [of _ "rptr b"])

lemma writes_wf [dest]: "writes b xs b' \<Longrightarrow> buf_wf b'"
  by (simp add: writes_def)

lemma reads_wf [dest]: "reads b xs b' \<Longrightarrow> buf_wf b'"
  by (simp add: reads_def)

section \<open>The primitives\<close>

lemma take_octets_reads:
  assumes wf: "buf_wf b" and n: "n \<le> length (octets b)"
  shows "\<exists>b'. take_octets n b = Some (take n (octets b), b') \<and> reads b (take n (octets b)) b'"
proof -
  note w = buf_wfD [OF wf]
  let ?b = "b\<lparr>rptr := rptr b + word_of_nat n\<rparr>"
  from n wf w have n': "unat (rptr b) + n \<le> unat (wptr b)" by simp
  also have "\<dots> < 4294967296" by simp
  finally have lt: "unat (rptr b) + n < 4294967296" .
  then have "n < 4294967296" by simp
  then have r: "unat (rptr b + word_of_nat n) = unat (rptr b) + n"
    using lt by (simp add: nowrap)
  have "buf_wf ?b"
    using wf n' by (simp add: buf_wf_def word_le_nat_alt r)
  moreover have "octets b = take n (octets b) @ octets ?b"
  proof -
    have "octets ?b = drop n (octets b)"
      by (simp add: octets_def r add.commute [of n "unat (rptr b)"])
    then show ?thesis by simp
  qed
  moreover have "take n (octets b) = take n (drop (unat (rptr b)) (mem b))"
    using n' by (simp add: octets_def drop_take min_def)
  moreover have "length (take n (octets b)) = n" using n by simp
  ultimately show ?thesis
    using n' w r by (auto simp: take_octets_def reads_def mem_simps)
qed

lemma take_octets_fault:
  assumes "buf_wf b" and "length (octets b) < n" and "unat (blen b) < unat (rptr b) + n"
  shows "take_octets n b = None"
  using buf_wfD [OF assms(1)] assms(3) by (simp add: take_octets_def mem_read_def)

lemma take_octets_wf:
  assumes "buf_wf b" and "take_octets n b = Some (xs, b')" and "n \<le> length (octets b)"
  shows "reads b xs b'"
  using take_octets_reads [OF assms(1,3)] assms(2) by auto

lemma store_octets_writes:
  assumes wf: "buf_wf b" and n: "unat (wptr b) + length xs \<le> unat (blen b)"
  shows "\<exists>b'. store_octets xs b = Some b' \<and> writes b xs b' \<and> blen b' = blen b"
proof -
  note w = buf_wfD [OF wf]
  let ?m = "take (unat (wptr b)) (mem b) @ xs @ drop (unat (wptr b) + length xs) (mem b)"
  let ?b = "b\<lparr>mem := ?m, wptr := wptr b + word_of_nat (length xs)\<rparr>"
  have "unat (blen b) < 4294967296" by simp
  with n have lt: "unat (wptr b) + length xs < 4294967296" by linarith
  then have p: "unat (wptr b + word_of_nat (length xs)) = unat (wptr b) + length xs"
    by (simp add: nowrap)
  have s: "store_octets xs b = Some ?b"
    using n w by (simp add: store_octets_def mem_simps)
  have "buf_wf ?b"
    using wf n w by (simp add: buf_wf_def word_le_nat_alt p)
  moreover have "octets ?b = octets b @ xs"
    using w by (simp add: octets_def p)
  ultimately have "writes b xs ?b"
    using w by (simp add: writes_def p)
  with s show ?thesis by auto
qed

lemma store_octets_bound:
  assumes "buf_wf b" and "store_octets xs b = Some b'"
  shows "writes b xs b'"
proof -
  from assms(2) have "unat (wptr b) + length xs \<le> length (mem b)"
    by (auto simp: store_octets_def dest: mem_write_SomeD elim!: bind_cases)
  with buf_wfD [OF assms(1)] have "unat (wptr b) + length xs \<le> unat (blen b)" by simp
  with store_octets_writes [OF assms(1)] assms(2) show ?thesis by fastforce
qed

lemma store_checked_eq:
  assumes "buf_wf b"
  shows "store_checked xs b =
     (if unat (wptr b) + length xs < 4294967295 then store_octets xs b else None)"
proof (cases "unat (wptr b) + length xs \<le> length (mem b)")
  case True
  then show ?thesis
    by (auto simp: store_checked_def store_octets_def mem_simps
        word_unat_eq_iff unat_of_nat nowrap take_bit_nat_eq_self)
next
  case False
  then show ?thesis by (simp add: store_checked_def store_octets_def mem_write_def)
qed

lemma zero_fill_eq:
  "buf_wf b \<Longrightarrow> unat (wptr b) + n \<le> unat (blen b) \<Longrightarrow>
   \<exists>b'. zero_fill n b = Some b' \<and> writes b (replicate n 0) b' \<and> blen b' = blen b"
proof (induction n arbitrary: b)
  case (Suc n)
  obtain c where c: "store_octets [0] b = Some c" "writes b [0] c" "blen c = blen b"
    using store_octets_writes [of b "[0]"] Suc.prems by auto
  then have "buf_wf c" "unat (wptr c) + n \<le> unat (blen c)"
    using Suc.prems by (auto simp: writes_def)
  then obtain d where "zero_fill n c = Some d" "writes c (replicate n 0) d" "blen d = blen c"
    using Suc.IH by blast
  with c show ?case using writes_trans [OF c(2)] by auto
qed simp

lemma resize_grows:
  assumes wf: "buf_wf b"
  shows "\<exists>b'. resize n b = Some b' \<and> writes b [] b' \<and> wptr b + n \<le> blen b'"
proof (cases "wptr b + n > blen b")
  case False
  then show ?thesis
    using wf by (auto simp: resize_def not_less)
next
  case True
  note w = buf_wfD [OF wf]
  define l0 where "l0 = (if blen b < RESIZE_THRESH then 2 * blen b else blen b + RESIZE_INCREMENT)"
  define nl where "nl = (if wptr b + n > l0 then wptr b + n else l0)"
  let ?b = "b\<lparr>mem := buf_realloc (fresh b) (mem b) nl, blen := nl\<rparr>"
  have r: "resize n b = Some ?b"
    using True w by (simp add: resize_def doresize_def l0_def nl_def Let_def)
  have ge: "wptr b + n \<le> nl" by (simp add: nl_def not_less)
  with True have lt: "blen b \<le> nl" by simp
  have len: "length (buf_realloc (fresh b) (mem b) nl) = unat nl"
    using lt w by (simp add: buf_realloc_def word_le_nat_alt)
  have tk: "take (unat (wptr b)) (buf_realloc (fresh b) (mem b) nl) = take (unat (wptr b)) (mem b)"
    using lt w by (simp add: buf_realloc_def word_le_nat_alt min_def)
  have "buf_wf ?b"
    using wf lt len by (auto simp: buf_wf_def)
  moreover have "octets ?b = octets b"
    by (simp add: octets_def tk)
  ultimately show ?thesis
    using r lt tk ge by (auto simp: writes_def)
qed

lemma resize_writes:
  assumes wf: "buf_wf b" and n: "unat (wptr b) + unat n < 4294967296"
  shows "\<exists>b'. resize n b = Some b' \<and> writes b [] b' \<and>
     unat (wptr b) + unat n \<le> unat (blen b')"
  using resize_grows [OF wf, of n] n by (auto simp: word_le_nat_alt nowrap)

section \<open>What each operation does\<close>

lemma short_iff: "buf_wf b \<Longrightarrow> wptr b - rptr b < l \<longleftrightarrow> length (octets b) < unat l"
  by (simp add: word_less_nat_alt unat_buf_length [unfolded buf_length_def])

lemma get_reads:
  assumes "buf_wf b" and "unat l \<le> length (octets b)"
  shows "\<exists>b'. get l b = Some (Some (take (unat l) (octets b)), b') \<and>
     reads b (take (unat l) (octets b)) b'"
proof -
  obtain b' where "take_octets (unat l) b = Some (take (unat l) (octets b), b')"
    "reads b (take (unat l) (octets b)) b'"
    using take_octets_reads [OF assms] by auto
  with assms show ?thesis by (simp add: get_def short_iff not_less)
qed

lemma get_short:
  "buf_wf b \<Longrightarrow> length (octets b) < unat l \<Longrightarrow> get l b = Some (None, b)"
  by (simp add: get_def short_iff)

lemma peek_eq:
  assumes "buf_wf b"
  shows "peek l b = Some (if length (octets b) < unat l then None
     else Some (take (unat l) (octets b)))"
proof -
  have "mem_read (mem b) (unat (rptr b)) (unat l) = Some (take (unat l) (octets b))"
    if "unat l \<le> length (octets b)"
    using that take_octets_reads [OF assms that] by (auto simp: take_octets_def elim!: bind_cases)
  then show ?thesis using assms by (auto simp: peek_def short_iff)
qed

lemma overrun_iff:
  assumes "buf_wf b" and "unat (rptr b) + unat k < 4294967296"
  shows "rptr b + k > wptr b \<longleftrightarrow> wptr b - rptr b < k"
proof -
  have "unat (wptr b - rptr b) = unat (wptr b) - unat (rptr b)"
    using assms(1) by (simp add: buf_wf_def nowrap)
  then show ?thesis
    using assms buf_wfD [OF assms(1)] by (auto simp: word_less_nat_alt nowrap)
qed

text \<open>
  The fixed-width reads agree with the general \<open>get\<close> wherever \<open>_rptr + k\<close> does not wrap.
\<close>

lemma get1_eq: "buf_wf b \<Longrightarrow> get1 b = get 1 b"
proof -
  assume w: "buf_wf b"
  have "length (octets b) < 1 \<longleftrightarrow> wptr b = rptr b"
    using w buf_wfD [OF w] by (auto simp: word_unat_eq_iff)
  with w show ?thesis by (simp add: get1_def get_def short_iff)
qed

lemma get_fixed_eq:
  assumes "buf_wf b"
  shows "unat (rptr b) + 2 < 4294967296 \<Longrightarrow> get2 b = get 2 b"
    and "unat (rptr b) + 4 < 4294967296 \<Longrightarrow> get4 b = get 4 b"
    and "unat (rptr b) + 8 < 4294967296 \<Longrightarrow> get8 b = get 8 b"
    and "unat (rptr b) + 16 < 4294967296 \<Longrightarrow> get16 b = get 16 b"
  using overrun_iff [OF assms, of 2] overrun_iff [OF assms, of 4]
    overrun_iff [OF assms, of 8] overrun_iff [OF assms, of 16]
  by (simp_all add: get2_def get4_def get8_def get16_def get_def)

lemma put_writes:
  assumes wf: "buf_wf b" and n: "unat (wptr b) + unat l < 4294967296" and "unat l \<le> length src"
  shows "\<exists>b'. put src l b = Some b' \<and> writes b (take (unat l) src) b'"
proof -
  obtain c where c: "resize l b = Some c" "writes b [] c"
    "unat (wptr b) + unat l \<le> unat (blen c)"
    using resize_writes [OF wf n] by auto
  then have "buf_wf c" "unat (wptr c) + length (take (unat l) src) \<le> unat (blen c)"
    using assms(3) by (auto simp: writes_def)
  then obtain d where "store_octets (take (unat l) src) c = Some d"
    "writes c (take (unat l) src) d"
    using store_octets_writes by blast
  with c wf assms(3) writes_trans [OF c(2)] show ?thesis
    by (auto simp: put_def mem_simps buf_wf_def)
qed

text \<open>The common body of \<open>put1\<close>, \<open>put2\<close>, \<open>put4\<close>, \<open>put8\<close>, \<open>put16\<close> and \<open>put (Octet)\<close>.\<close>

lemma resize_store:
  assumes wf: "buf_wf b" and n: "unat (wptr b) + length xs < 4294967295"
    and k: "unat k = length xs"
  shows "\<exists>b'. Option.bind (resize k b) (store_octets xs) = Some b' \<and>
     Option.bind (resize k b) (store_checked xs) = Some b' \<and> writes b xs b'"
proof -
  obtain c where c: "resize k b = Some c" "writes b [] c"
    "unat (wptr b) + unat k \<le> unat (blen c)"
    using resize_writes [OF wf, of k] n k by auto
  then have "buf_wf c" "unat (wptr c) + length xs \<le> unat (blen c)"
    using k by (auto simp: writes_def)
  then obtain d where d: "store_octets xs c = Some d" "writes c xs d"
    using store_octets_writes by blast
  moreover have "unat (wptr c) = unat (wptr b)" using c(2) by (simp add: writes_def)
  ultimately show ?thesis
    using c n store_checked_eq [of c xs] writes_trans [OF c(2) d(2)] \<open>buf_wf c\<close> by auto
qed

lemma put_one_writes:
  assumes "buf_wf b" and "unat (wptr b) + 1 < 4294967295"
  shows "\<exists>b'. put1 x b = Some b' \<and> put_octet_buf x b = Some b' \<and> writes b [x] b'"
  using resize_store [of b "[x]" 1] assms buf_wfD(1) [OF assms(1)]
  by (auto simp: put1_def put_octet_buf_def)

lemma put_fixed_writes:
  assumes wf: "buf_wf b" and al: "walignbase b \<le> wptr b"
    and n: "unat (wptr b) + length xs < 4294967295"
  shows "length xs = 2 \<Longrightarrow> \<exists>b'. put2 xs b = Some b' \<and> writes b xs b'"
    and "length xs = 4 \<Longrightarrow> \<exists>b'. put4 xs b = Some b' \<and> writes b xs b'"
    and "length xs = 8 \<Longrightarrow> \<exists>b'. put8 xs b = Some b' \<and> writes b xs b'"
    and "length xs = 16 \<Longrightarrow> \<exists>b'. put16 xs b = Some b' \<and> writes b xs b'"
  using resize_store [OF wf n, of 2] resize_store [OF wf n, of 4]
    resize_store [OF wf n, of 8] resize_store [OF wf n, of 16] al buf_wfD(1) [OF wf]
  by (auto simp: put2_def put4_def put8_def put16_def mem_simps)

section \<open>Alignment\<close>

text \<open>The padding that brings offset \<open>p\<close> to a multiple of \<open>a\<close>.\<close>

definition padlen :: "nat \<Rightarrow> nat \<Rightarrow> nat" where
  "padlen p a = (a - p mod a) mod a"

lemma padlen_less: "0 < a \<Longrightarrow> padlen p a < a"
  by (simp add: padlen_def)

lemma padlen_mod: "0 < a \<Longrightarrow> (p + padlen p a) mod a = 0"
proof -
  assume a: "0 < a"
  then have "(p + (a - p mod a)) mod a = 0"
    by (metis add.commute le_add_diff_inverse2 less_imp_le mod_add_right_eq mod_less_divisor mod_self)
  then show ?thesis by (simp add: padlen_def mod_add_right_eq)
qed

lemma padlen_one [simp]: "padlen p 1 = 0" "padlen p (Suc 0) = 0"
  by (simp_all add: padlen_def)

lemma pad_word:
  fixes p a :: ulong
  assumes "1 \<le> a"
  shows "a - p mod a \<noteq> a \<longleftrightarrow> 0 < unat p mod unat a"
    and "0 < unat p mod unat a \<Longrightarrow> unat (a - p mod a) = padlen (unat p) (unat a)"
    and "unat p mod unat a = 0 \<Longrightarrow> padlen (unat p) (unat a) = 0"
proof -
  have a: "0 < unat a" using assms by (simp add: word_le_nat_alt)
  have m: "unat (p mod a) = unat p mod unat a" by (rule unat_mod)
  show "a - p mod a \<noteq> a \<longleftrightarrow> 0 < unat p mod unat a"
    by (simp add: diff_eq_eq m [symmetric]) (simp add: word_unat_eq_iff)
  have "p mod a \<le> a" by (simp add: word_le_nat_alt m a less_imp_le)
  then show "unat (a - p mod a) = padlen (unat p) (unat a)" if "0 < unat p mod unat a"
    using that a by (simp add: nowrap m padlen_def)
  show "padlen (unat p) (unat a) = 0" if "unat p mod unat a = 0"
    using that a by (simp add: padlen_def)
qed

definition woff :: "buffer \<Rightarrow> nat" where "woff b = unat (wptr b - walignbase b)"
definition roff :: "buffer \<Rightarrow> nat" where "roff b = unat (rptr b - ralignbase b)"

lemma walign_writes:
  assumes wf: "buf_wf b" and base: "walignbase b \<le> wptr b" and al: "1 \<le> al"
    and n: "unat (wptr b) + unat al < 4294967296"
  shows "\<exists>b'. walign al b = Some b' \<and> writes b (replicate (padlen (woff b) (unat al)) 0) b'"
proof (cases "0 < woff b mod unat al")
  case False
  then show ?thesis
    using wf base al pad_word [OF al, of "wptr b - walignbase b"]
    by (auto simp: walign_def woff_def buf_wf_def Let_def)
next
  case True
  define w where "w = al - (wptr b - walignbase b) mod al"
  have w: "w \<noteq> al" "unat w = padlen (woff b) (unat al)"
    using True pad_word [OF al, of "wptr b - walignbase b"] by (auto simp: w_def woff_def)
  have "unat w < unat al"
    using al padlen_less [of "unat al" "woff b"] by (simp add: w word_le_nat_alt)
  with n have n': "unat (wptr b) + unat w < 4294967296" by simp
  obtain c where c: "resize w b = Some c" "writes b [] c"
    "unat (wptr b) + unat w \<le> unat (blen c)"
    using resize_writes [OF wf n'] by auto
  then obtain d where d: "zero_fill (unat w) c = Some d" "writes c (replicate (unat w) 0) d"
    using zero_fill_eq [of c "unat w"] by (auto simp: writes_def)
  have "walign al b = Some d"
    using wf base al w(1) c(1) d(1) by (simp add: walign_def w_def buf_wf_def Let_def)
  then show ?thesis using writes_trans [OF c(2) d(2)] by (simp add: w)
qed

lemma ralign_reads:
  assumes wf: "buf_wf b" and base: "ralignbase b \<le> rptr b" and al: "1 \<le> al"
    and n: "padlen (roff b) (unat al) \<le> length (octets b)"
  shows "\<exists>b'. ralign al b = Some (True, b') \<and>
     reads b (take (padlen (roff b) (unat al)) (octets b)) b'"
proof (cases "0 < roff b mod unat al")
  case False
  then show ?thesis
    using wf base al pad_word [OF al, of "rptr b - ralignbase b"]
    by (auto simp: ralign_def roff_def Let_def)
next
  case True
  define r where "r = al - (rptr b - ralignbase b) mod al"
  have r: "r \<noteq> al" "unat r = padlen (roff b) (unat al)"
    using True pad_word [OF al, of "rptr b - ralignbase b"] by (auto simp: r_def roff_def)
  obtain b' where b': "take_octets (unat r) b = Some (take (unat r) (octets b), b')"
    "reads b (take (unat r) (octets b)) b'"
    using take_octets_reads [OF wf, of "unat r"] n r by auto
  then have e: "b' = b\<lparr>rptr := rptr b + r\<rparr>"
    by (auto simp: take_octets_def elim!: bind_cases)
  with b'(2) have "rptr b + r \<le> wptr b" by (auto simp: reads_def buf_wf_def)
  then have "ralign al b = Some (True, b')"
    using base al r(1) e by (simp add: ralign_def r_def Let_def)
  with b'(2) show ?thesis by (simp add: r)
qed

lemma ralign_short:
  assumes wf: "buf_wf b" and base: "ralignbase b \<le> rptr b" and al: "1 \<le> al"
    and n: "length (octets b) < padlen (roff b) (unat al)"
    and lt: "unat (rptr b) + unat al < 4294967296"
  shows "ralign al b = Some (False, b)"
proof -
  define r where "r = al - (rptr b - ralignbase b) mod al"
  have True: "0 < roff b mod unat al"
    using n pad_word(3) [OF al, of "rptr b - ralignbase b"] by (auto simp: roff_def)
  have r: "r \<noteq> al" "unat r = padlen (roff b) (unat al)"
    using True pad_word [OF al, of "rptr b - ralignbase b"] by (auto simp: r_def roff_def)
  have "unat r < unat al"
    using al padlen_less [of "unat al" "roff b"] by (simp add: r word_le_nat_alt)
  with lt have "unat (rptr b) + unat r < 4294967296" by simp
  then have "rptr b + r > wptr b"
    using n wf by (simp add: overrun_iff short_iff r)
  then show ?thesis
    using base al r(1) by (simp add: ralign_def r_def Let_def)
qed

section \<open>Every operation keeps the invariant\<close>

lemma resize_keeps: "buf_wf b \<Longrightarrow> resize n b = Some c \<Longrightarrow> writes b [] c"
  using resize_grows [of b n] by auto

lemma take_octets_keeps:
  assumes wf: "buf_wf b" and t: "take_octets n b = Some (xs, b')"
    and le: "rptr b + word_of_nat n \<le> wptr b"
  shows "buf_wf b'"
proof -
  from t have b': "b' = b\<lparr>rptr := rptr b + word_of_nat n\<rparr>"
    by (auto simp: take_octets_def elim!: bind_cases)
  with wf le show ?thesis by (auto simp: buf_wf_def)
qed

lemma get_keeps: "buf_wf b \<Longrightarrow> get l b = Some (r, b') \<Longrightarrow> buf_wf b'"
  using get_reads [of b l] get_short [of b l] by (cases "unat l \<le> length (octets b)") auto

lemma get_fixed_keeps:
  assumes "buf_wf b"
  shows "get1 b = Some (r, b') \<Longrightarrow> buf_wf b'" and "get2 b = Some (r, b') \<Longrightarrow> buf_wf b'"
    and "get4 b = Some (r, b') \<Longrightarrow> buf_wf b'" and "get8 b = Some (r, b') \<Longrightarrow> buf_wf b'"
    and "get16 b = Some (r, b') \<Longrightarrow> buf_wf b'"
  using assms get_keeps [of b 1 r b']
  by (auto simp: get1_eq get2_def get4_def get8_def get16_def not_less
      split: if_splits elim!: bind_cases intro: take_octets_keeps [OF assms])

lemma store_octets_keeps: "buf_wf b \<Longrightarrow> store_octets xs b = Some b' \<Longrightarrow> buf_wf b'"
  using store_octets_bound by blast

lemma store_checked_keeps: "buf_wf b \<Longrightarrow> store_checked xs b = Some b' \<Longrightarrow> buf_wf b'"
  using store_octets_bound [of b xs b'] by (auto simp: store_checked_eq split: if_splits)

lemma zero_fill_keeps: "buf_wf b \<Longrightarrow> zero_fill n b = Some b' \<Longrightarrow> buf_wf b'"
  by (induction n arbitrary: b) (auto elim!: bind_cases dest: store_octets_keeps)

lemma reset_keeps: "buf_wf b \<Longrightarrow> buf_wf (buf_reset sz b)"
  by (auto simp: buf_reset_def buf_wf_def buf_alloc_def Let_def)

lemmas wf_keeps = writes_wf [OF resize_keeps] store_octets_keeps store_checked_keeps
  zero_fill_keeps

lemma put_keeps:
  assumes "buf_wf b"
  shows "put src l b = Some b' \<Longrightarrow> buf_wf b'" and "put1 x b = Some b' \<Longrightarrow> buf_wf b'"
    and "put_octet_buf x b = Some b' \<Longrightarrow> buf_wf b'" and "put2 p b = Some b' \<Longrightarrow> buf_wf b'"
    and "put4 p b = Some b' \<Longrightarrow> buf_wf b'" and "put8 p b = Some b' \<Longrightarrow> buf_wf b'"
    and "put16 p b = Some b' \<Longrightarrow> buf_wf b'" and "replace p b = Some b' \<Longrightarrow> buf_wf b'"
    and "replace_octet x b = Some b' \<Longrightarrow> buf_wf b'"
  by (auto simp: put_def put1_def put_octet_buf_def put2_def put4_def put8_def put16_def
      replace_def replace_octet_def Let_def split: if_splits elim!: bind_cases
      dest: wf_keeps [OF assms] wf_keeps [OF reset_keeps [OF assms]] wf_keeps)

lemma walign_keeps: "buf_wf b \<Longrightarrow> walign al b = Some b' \<Longrightarrow> buf_wf b'"
  by (auto simp: walign_def Let_def split: if_splits elim!: bind_cases dest: wf_keeps)

lemma ralign_keeps: "buf_wf b \<Longrightarrow> ralign al b = Some (r, b') \<Longrightarrow> buf_wf b'"
  by (auto simp: ralign_def Let_def buf_wf_def not_less split: if_splits)

text \<open>
  One step of a client of the class: any public operation, whatever it returns. Seeking from the
  end needs the offset to stay inside the block; every other call is unrestricted.
\<close>

inductive buf_step :: "buffer \<Rightarrow> buffer \<Rightarrow> bool" where
  "buf_step b (buf_reset sz b)"
| "resize n b = Some b' \<Longrightarrow> buf_step b b'"
| "buffer_copy b = Some b' \<Longrightarrow> buf_step b b'"
| "rseek_rel offs b = (r, b') \<Longrightarrow> buf_step b b'"
| "rseek_beg offs b = (r, b') \<Longrightarrow> buf_step b b'"
| "rseek_end offs b = (r, b') \<Longrightarrow> buf_step b b'"
| "buf_step b (b\<lparr>ralignbase := p\<rparr>)"
| "ralign al b = Some (r, b') \<Longrightarrow> buf_step b b'"
| "get l b = Some (s, b') \<Longrightarrow> buf_step b b'"
| "get1 b = Some (s, b') \<Longrightarrow> buf_step b b'"
| "get2 b = Some (s, b') \<Longrightarrow> buf_step b b'"
| "get4 b = Some (s, b') \<Longrightarrow> buf_step b b'"
| "get8 b = Some (s, b') \<Longrightarrow> buf_step b b'"
| "get16 b = Some (s, b') \<Longrightarrow> buf_step b b'"
| "wseek_rel offs b = Some b' \<Longrightarrow> buf_step b b'"
| "wseek_beg offs b = Some b' \<Longrightarrow> buf_step b b'"
| "offs \<le> blen b \<Longrightarrow> wseek_end offs b = Some b' \<Longrightarrow> buf_step b b'"
| "buf_step b (b\<lparr>walignbase := p\<rparr>)"
| "walign al b = Some b' \<Longrightarrow> buf_step b b'"
| "replace src b = Some b' \<Longrightarrow> buf_step b b'"
| "replace_octet x b = Some b' \<Longrightarrow> buf_step b b'"
| "put src l b = Some b' \<Longrightarrow> buf_step b b'"
| "put_octet_buf x b = Some b' \<Longrightarrow> buf_step b b'"
| "put1 x b = Some b' \<Longrightarrow> buf_step b b'"
| "put2 src b = Some b' \<Longrightarrow> buf_step b b'"
| "put4 src b = Some b' \<Longrightarrow> buf_step b b'"
| "put8 src b = Some b' \<Longrightarrow> buf_step b b'"
| "put16 src b = Some b' \<Longrightarrow> buf_step b b'"

inductive buf_reachable :: "octet \<Rightarrow> ulong \<Rightarrow> buffer \<Rightarrow> bool" for f sz where
  buf_start: "buf_reachable f sz (buffer_new f sz)"
| buf_next: "buf_reachable f sz b \<Longrightarrow> buf_step b b' \<Longrightarrow> buf_reachable f sz b'"

lemma buffer_new_wf: "buf_wf (buffer_new f sz)" "octets (buffer_new f sz) = []"
  by (auto simp: buffer_new_def buf_wf_def buf_alloc_def octets_def Let_def)

lemma seek_keeps:
  assumes "buf_wf b"
  shows "rseek_rel offs b = (r, b') \<Longrightarrow> buf_wf b'" and "rseek_beg offs b = (r, b') \<Longrightarrow> buf_wf b'"
    and "rseek_end offs b = (r, b') \<Longrightarrow> buf_wf b'" and "wseek_rel offs b = Some c \<Longrightarrow> buf_wf c"
    and "wseek_beg offs b = Some c \<Longrightarrow> buf_wf c"
    and "offs \<le> blen b \<Longrightarrow> wseek_end offs b = Some c \<Longrightarrow> buf_wf c"
  using assms
  by (auto simp: rseek_rel_def rseek_beg_def rseek_end_def wseek_rel_def wseek_beg_def
      wseek_end_def buf_wf_def not_less word_le_nat_alt nowrap split: if_splits)

lemma copy_keeps: "buf_wf b \<Longrightarrow> buffer_copy b = Some b' \<Longrightarrow> b' = b"
  by (auto simp: buffer_copy_def mem_read_def buf_wf_def split: if_splits elim!: bind_cases)

lemma base_keeps [simp]:
  "buf_wf (b\<lparr>ralignbase := p\<rparr>) = buf_wf b" "buf_wf (b\<lparr>walignbase := p\<rparr>) = buf_wf b"
  by (simp_all add: buf_wf_def)

lemma buf_step_keeps: "buf_step b b' \<Longrightarrow> buf_wf b \<Longrightarrow> buf_wf b'"
proof (induction rule: buf_step.induct)
  case (3 b b')
  then show ?case using copy_keeps by blast
qed (simp add: base_keeps; fail | blast intro: reset_keeps get_keeps get_fixed_keeps put_keeps
      walign_keeps ralign_keeps seek_keeps writes_wf [OF resize_keeps])+

section \<open>The buffer is an octet channel\<close>

text \<open>\<open>put\<close> and \<open>get\<close> with the length of the block as the \<open>ULong\<close> argument.\<close>

definition put_block :: "octet list \<Rightarrow> buffer \<Rightarrow> buffer option" where
  "put_block xs b = put xs (word_of_nat (length xs)) b"

definition get_block :: "nat \<Rightarrow> buffer \<Rightarrow> (octet list option \<times> buffer) option" where
  "get_block n b = get (word_of_nat n) b"

definition buf_room :: "buffer \<Rightarrow> nat" where
  "buf_room b = 4294967295 - unat (wptr b)"

lemma reads_take_contents: "reads b (take n (octets b)) b' \<Longrightarrow> octets b' = drop n (octets b)"
  by (metis append_eq_conv_conj append_take_drop_id reads_def same_append_eq)

lemma octets_lt: "buf_wf b \<Longrightarrow> length (octets b) < 4294967296"
proof -
  assume "buf_wf b"
  moreover have "unat (wptr b) - unat (rptr b) < 4294967296"
    by (rule order.strict_trans1 [of _ "unat (wptr b)"]) simp_all
  ultimately show ?thesis by simp
qed

interpretation chan: octet_channel buf_wf buf_room octets put_block get_block
proof
  fix b :: buffer and xs :: "octet list"
  assume b: "buf_wf b" and n: "length xs \<le> buf_room b"
  have w: "unat (wptr b) < 4294967296" by simp
  then have u: "unat (word_of_nat (length xs) :: ulong) = length xs"
    using n by (simp add: nowrap buf_room_def)
  have "unat (wptr b) + length xs < 4294967296"
    using n w unfolding buf_room_def by linarith
  then obtain b' where "put_block xs b = Some b'" "writes b xs b'"
    using put_writes [OF b, of "word_of_nat (length xs)" xs] u
    by (auto simp: put_block_def)
  then show "\<exists>c'. put_block xs b = Some c' \<and> buf_wf c' \<and> octets c' = octets b @ xs \<and>
      buf_room c' + length xs = buf_room b"
    using n by (auto simp: writes_def buf_room_def)
next
  fix b :: buffer and n :: nat
  assume b: "buf_wf b" and n: "n \<le> length (octets b)"
  then have "unat (word_of_nat n :: ulong) = n"
    using octets_lt [OF b] by (simp add: nowrap)
  with get_reads [OF b, of "word_of_nat n"] n
  obtain b' where b': "get_block n b = Some (Some (take n (octets b)), b')"
    "reads b (take n (octets b)) b'"
    by (auto simp: get_block_def)
  then show "\<exists>c'. get_block n b = Some (Some (take n (octets b)), c') \<and> buf_wf c' \<and>
      octets c' = drop n (octets b)"
    using b'(1) reads_take_contents [OF b'(2)] reads_wf [OF b'(2)] by blast
next
  fix b :: buffer and n :: nat
  assume b: "buf_wf b" and n: "length (octets b) < n" "n < 4294967296"
  then show "get_block n b = Some (None, b)"
    using get_short [OF b, of "word_of_nat n"] by (simp add: get_block_def nowrap)
qed

section \<open>Properties\<close>



text \<open>C22: A buffer is a first-in first-out channel: after any sequence of blocks is put into a
  new buffer, reading blocks of the same lengths returns exactly those blocks and leaves nothing,
  as long as the total stays below the 32-bit position limit.\<close>

theorem buffer_fifo:
  assumes "sum_list (map length xss) < 4294967296"
  shows "\<exists>c c'. put_blocks put_block xss (buffer_new f sz) = Some c \<and>
     get_blocks get_block (map length xss) c = Some (Some xss, c') \<and> octets c' = []"
proof (rule chan.fifo)
  show "sum_list (map length xss) \<le> buf_room (buffer_new f sz)"
    using assms by (simp add: buf_room_def buffer_new_def Let_def)
qed (simp_all add: buffer_new_wf)

theorem buffer_fifo_witness:
  "\<exists>c c'. put_blocks put_block [[1, 2], [], [3]] (buffer_new 0 0) = Some c \<and>
     get_blocks get_block [2, 0, 1] c = Some (Some [[1, 2], [], [3]], c') \<and> octets c' = []"
proof -
  have h: "sum_list (map length [[1, 2], [], [3 :: octet]]) < 4294967296" by simp
  have l: "map length [[1, 2], [], [3 :: octet]] = [2, 0, 1]" by simp
  show ?thesis using buffer_fifo [OF h, of 0 0] unfolding l .
qed

text \<open>The fixed-width reads \<open>get1\<close>, \<open>get2\<close>, \<open>get4\<close>, \<open>get8\<close> and \<open>get16\<close> are the general
  \<open>get\<close> at their width, for every well-formed buffer whose read position is more than 16 below
  the 32-bit limit.\<close>

theorem fixed_reads_are_get:
  assumes "buf_wf b" and "unat (rptr b) + 16 < 4294967296"
  shows "get1 b = get 1 b \<and> get2 b = get 2 b \<and> get4 b = get 4 b \<and> get8 b = get 8 b \<and>
     get16 b = get 16 b"
  using assms get1_eq get_fixed_eq [OF assms(1)] by simp

theorem fixed_reads_are_get_witness:
  "get2 (buffer_new 0 0) = get 2 (buffer_new 0 0) \<and> get2 (buffer_new 0 0) = Some (None, buffer_new 0 0)"
  using fixed_reads_are_get [of "buffer_new 0 0"] buffer_new_wf(1) [of 0 0]
  by (simp add: get2_def buffer_new_def Let_def)

text \<open>Memory safety. On a well-formed buffer no read ever leaves the allocated block or
  aborts, and a write of \<open>l\<close> octets (growing the block as needed) succeeds whenever source memory
  holds them and the write position stays below the 32-bit limit; a read that would pass the
  write position is refused and changes nothing.\<close>

theorem buffer_safe:
  assumes "buf_wf b"
  shows "get l b \<noteq> None \<and> peek l b \<noteq> None \<and>
     (length (octets b) < unat l \<longrightarrow> get l b = Some (None, b)) \<and>
     (unat l \<le> length src \<and> unat (wptr b) + unat l < 4294967296 \<longrightarrow>
       (\<exists>b'. put src l b = Some b' \<and> octets b' = octets b @ take (unat l) src))"
proof (intro conjI)
  show "get l b \<noteq> None"
    using get_reads [OF assms, of l] get_short [OF assms, of l]
    by (cases "unat l \<le> length (octets b)") auto
  show "peek l b \<noteq> None" by (simp add: peek_eq [OF assms])
  show "length (octets b) < unat l \<longrightarrow> get l b = Some (None, b)"
    by (simp add: get_short [OF assms])
  show "unat l \<le> length src \<and> unat (wptr b) + unat l < 4294967296 \<longrightarrow>
       (\<exists>b'. put src l b = Some b' \<and> octets b' = octets b @ take (unat l) src)"
    using put_writes [OF assms, of l src] by (auto simp: writes_def)
qed

theorem buffer_safe_witness:
  "\<exists>b'. put [5, 6, 7] 2 (buffer_new 0 0) = Some b' \<and> octets b' = [5, 6]"
proof -
  have "unat (wptr (buffer_new 0 0)) = 0" by (simp add: buffer_new_def Let_def)
  then show ?thesis
    using buffer_safe [OF buffer_new_wf(1) [of 0 0], of 2 "[5, 6, 7]"]
    by (simp add: buffer_new_wf(2))
qed

text \<open>Where the position arithmetic wraps the guards fail. \<open>get2\<close> at the top of a
  full-size block reads outside it although nothing is left to read (the general \<open>get\<close> refuses
  correctly), and \<open>wseek_end\<close> with an offset past the block passes its assertion and leaves the
  write position beyond the allocated size.\<close>

theorem buffer_wrap_faults:
  assumes "buf_wf b" and "rptr b = 0xfffffffe" and "wptr b = 0xfffffffe"
    and "buf_wf c" and "blen c < offs" and "rptr c = 0"
  shows "get2 b = None \<and> get 2 b = Some (None, b) \<and>
     (\<exists>c'. wseek_end offs c = Some c' \<and> blen c' < wptr c')"
proof (intro conjI)
  have "unat (rptr b) + 2 > length (mem b)"
    using assms(1,2) unat_ulong_lt [of "blen b"] by (simp add: buf_wf_def)
  with assms(2,3) show "get2 b = None"
    by (simp add: get2_def take_octets_def mem_read_def)
  show "get 2 b = Some (None, b)" using assms(2,3) by (simp add: get_def)
  have lt: "unat (blen c) < unat offs" using assms(5) by (simp add: word_less_nat_alt)
  have "blen c - offs > blen c"
  proof -
    have "uint (blen c - offs) = uint (blen c) - uint offs + 2 ^ 32"
      using assms(5) by (simp add: uint_sub_if' word_less_def)
    then show ?thesis
      using unsigned_less [of offs] by (simp add: word_less_def)
  qed
  then show "\<exists>c'. wseek_end offs c = Some c' \<and> blen c' < wptr c'"
    using assms(4,6) by (auto simp: wseek_end_def buf_wf_def)
qed

theorem buffer_wrap_faults_witness:
  "let b = \<lparr>readonly = False, rptr = 0xfffffffe, wptr = 0xfffffffe, ralignbase = 0,
       walignbase = 0, blen = 0xfffffffe, mem = replicate 0xfffffffe 0, fresh = 0\<rparr>
   in get2 b = None \<and> (\<exists>c'. wseek_end 200 (buffer_new 0 0) = Some c' \<and> blen c' < wptr c')"
  unfolding Let_def
  using buffer_wrap_faults [of "\<lparr>readonly = False, rptr = 0xfffffffe, wptr = 0xfffffffe,
      ralignbase = 0, walignbase = 0, blen = 0xfffffffe, mem = replicate 0xfffffffe 0,
      fresh = 0\<rparr>" "buffer_new 0 0" 200] buffer_new_wf(1) [of 0 0]
  by (simp add: buf_wf_def buffer_new_def MINSIZE_def Let_def)

end
