(* ===== verification/CDR_Core.thy ===== *)
theory CDR_Core
  imports Octet_Buffer
begin

text \<open>
  The CDR encoder and decoder of orb/codec.cc (\<open>MICO::CDREncoder\<close>, \<open>MICO::CDRDecoder\<close>) without a
  code set converter (\<open>conv == 0\<close>): byte order, swapping, the primitive types, and the chunk test
  every aligned read makes. Integers are words (a signed and an unsigned type of one width have
  the same operations), floating point values are their IEEE images (the \<open>HAVE_IEEE_FP\<close> branch,
  with a 16-octet long double).
\<close>

section \<open>Byte order and images\<close>

datatype byteorder = BigEndian | LittleEndian | DefaultEndian

text \<open>The octets of a value at ascending addresses, in a given byte order.\<close>

definition image :: "byteorder \<Rightarrow> nat \<Rightarrow> nat \<Rightarrow> octet list" where
  "image bo n v = (if bo = LittleEndian then nat_octets n v else rev (nat_octets n v))"

definition image_nat :: "byteorder \<Rightarrow> octet list \<Rightarrow> nat" where
  "image_nat bo xs = octets_nat (if bo = LittleEndian then xs else rev xs)"

text \<open>A word in memory, and the word a memory image holds, on a machine of byte order \<open>bo\<close>.\<close>

definition word_image :: "byteorder \<Rightarrow> nat \<Rightarrow> 'a::len word \<Rightarrow> octet list" where
  "word_image bo n w = image bo n (unat w)"

definition image_word :: "byteorder \<Rightarrow> octet list \<Rightarrow> 'a::len word" where
  "image_word bo xs = word_of_nat (image_nat bo xs)"

definition swap2 :: "octet list \<Rightarrow> octet list" where
  "swap2 s = [s ! 1, s ! 0]"

definition swap4 :: "octet list \<Rightarrow> octet list" where
  "swap4 s = [s ! 3, s ! 2, s ! 1, s ! 0]"

definition swap8 :: "octet list \<Rightarrow> octet list" where
  "swap8 s = [s ! 7, s ! 6, s ! 5, s ! 4, s ! 3, s ! 2, s ! 1, s ! 0]"

definition swap_16 :: "octet list \<Rightarrow> octet list" where
  "swap_16 s = [s ! 15, s ! 14, s ! 13, s ! 12, s ! 11, s ! 10, s ! 9, s ! 8,
                s ! 7, s ! 6, s ! 5, s ! 4, s ! 3, s ! 2, s ! 1, s ! 0]"

section \<open>Encoder state\<close>

record enc_vstate =
  chunk_level :: ulong
  enc_nesting :: ulong
  tag_pos :: ulong

record encoder =
  ebuf :: buffer
  e_data_bo :: byteorder
  e_mach_bo :: byteorder
  e_vstate :: "enc_vstate option"

text \<open>\<open>CDREncoder (b, bo, ..)\<close> on a machine of byte order \<open>mach\<close>.\<close>

definition new_encoder :: "byteorder \<Rightarrow> buffer \<Rightarrow> byteorder \<Rightarrow> encoder" where
  "new_encoder mach b bo =
     \<lparr>ebuf = b, e_data_bo = (if bo = DefaultEndian then mach else bo), e_mach_bo = mach,
      e_vstate = None\<rparr>"

definition enc_byteorder :: "encoder \<Rightarrow> byteorder" where
  "enc_byteorder e = e_data_bo e"

definition enc_set_byteorder :: "byteorder \<Rightarrow> encoder \<Rightarrow> encoder" where
  "enc_set_byteorder bo e = e\<lparr>e_data_bo := bo\<rparr>"

definition on_ebuf :: "(buffer \<Rightarrow> buffer option) \<Rightarrow> encoder \<Rightarrow> encoder option" where
  "on_ebuf f e = do { b \<leftarrow> f (ebuf e); Some (e\<lparr>ebuf := b\<rparr>) }"

text \<open>
  The tail of every fixed-width put: store the machine image of the value, swapped when the data
  byte order is not the machine's.
\<close>

definition put_ordered ::
    "(octet list \<Rightarrow> buffer \<Rightarrow> buffer option) \<Rightarrow> (octet list \<Rightarrow> octet list) \<Rightarrow> octet list \<Rightarrow>
     encoder \<Rightarrow> encoder option" where
  "put_ordered putk swapk p e =
     (if e_mach_bo e = e_data_bo e then on_ebuf (putk p) e else on_ebuf (putk (swapk p)) e)"

definition put_short :: "ushort \<Rightarrow> encoder \<Rightarrow> encoder option" where
  "put_short s e = do {
     e \<leftarrow> on_ebuf (walign 2) e;
     put_ordered put2 swap2 (word_image (e_mach_bo e) 2 s) e
   }"

definition put_ushort :: "ushort \<Rightarrow> encoder \<Rightarrow> encoder option" where
  "put_ushort us e = do {
     e \<leftarrow> on_ebuf (walign 2) e;
     put_ordered put2 swap2 (word_image (e_mach_bo e) 2 us) e
   }"

definition put_long :: "ulong \<Rightarrow> encoder \<Rightarrow> encoder option" where
  "put_long l e = do {
     e \<leftarrow> on_ebuf (walign 4) e;
     put_ordered put4 swap4 (word_image (e_mach_bo e) 4 l) e
   }"

definition put_longlong :: "ulonglong \<Rightarrow> encoder \<Rightarrow> encoder option" where
  "put_longlong l e = do {
     e \<leftarrow> on_ebuf (walign 8) e;
     put_ordered put8 swap8 (word_image (e_mach_bo e) 8 l) e
   }"

definition put_ulong :: "ulong \<Rightarrow> encoder \<Rightarrow> encoder option" where
  "put_ulong ul e = do {
     e \<leftarrow> on_ebuf (walign 4) e;
     put_ordered put4 swap4 (word_image (e_mach_bo e) 4 ul) e
   }"

definition put_ulonglong :: "ulonglong \<Rightarrow> encoder \<Rightarrow> encoder option" where
  "put_ulonglong ul e = do {
     e \<leftarrow> on_ebuf (walign 8) e;
     put_ordered put8 swap8 (word_image (e_mach_bo e) 8 ul) e
   }"

definition put_float :: "ulong \<Rightarrow> encoder \<Rightarrow> encoder option" where
  "put_float f e = do {
     e \<leftarrow> on_ebuf (walign 4) e;
     put_ordered put4 swap4 (word_image (e_mach_bo e) 4 f) e
   }"

definition put_double :: "ulonglong \<Rightarrow> encoder \<Rightarrow> encoder option" where
  "put_double d e = do {
     e \<leftarrow> on_ebuf (walign 8) e;
     put_ordered put8 swap8 (word_image (e_mach_bo e) 8 d) e
   }"

definition put_longdouble :: "128 word \<Rightarrow> encoder \<Rightarrow> encoder option" where
  "put_longdouble d e = do {
     e \<leftarrow> on_ebuf (walign 8) e;
     put_ordered put16 swap_16 (word_image (e_mach_bo e) 16 d) e
   }"

definition put_char :: "octet \<Rightarrow> encoder \<Rightarrow> encoder option" where
  "put_char c e = on_ebuf (put1 c) e"

definition put_char_raw :: "octet \<Rightarrow> encoder \<Rightarrow> encoder option" where
  "put_char_raw c e = on_ebuf (put1 c) e"

text \<open>Without a converter a wide character goes out as its 4-octet machine image.\<close>

definition put_wchar :: "ulong \<Rightarrow> encoder \<Rightarrow> encoder option" where
  "put_wchar c e = on_ebuf (Octet_Buffer.put (word_image (e_mach_bo e) 4 c) 4) e"

definition put_octet :: "octet \<Rightarrow> encoder \<Rightarrow> encoder option" where
  "put_octet o1 e = on_ebuf (put1 o1) e"

definition put_boolean :: "octet \<Rightarrow> encoder \<Rightarrow> encoder option" where
  "put_boolean b e = on_ebuf (put1 b) e"

section \<open>Decoder state\<close>

record dec_state1 =
  chunking :: bool
  nesting_level :: ulong
  saved_pos :: ulong
  end_of_chunk :: ulong

definition dec_state1_init :: dec_state1 where
  "dec_state1_init = \<lparr>chunking = False, nesting_level = 0, saved_pos = -1, end_of_chunk = -1\<rparr>"

record dec_vstate =
  cur :: dec_state1
  skipped :: "ulong \<rightharpoonup> dec_state1"

definition dec_vstate_init :: dec_vstate where
  "dec_vstate_init = \<lparr>cur = dec_state1_init, skipped = Map.empty\<rparr>"

record decoder =
  dbuf :: buffer
  d_data_bo :: byteorder
  d_mach_bo :: byteorder
  d_vstate :: "dec_vstate option"

definition new_decoder :: "byteorder \<Rightarrow> buffer \<Rightarrow> byteorder \<Rightarrow> dec_vstate option \<Rightarrow> decoder" where
  "new_decoder mach b bo vs =
     \<lparr>dbuf = b, d_data_bo = (if bo = DefaultEndian then mach else bo), d_mach_bo = mach,
      d_vstate = vs\<rparr>"

text \<open>\<open>CDREncoder::decoder ()\<close>: a decoder over a copy of the buffer, in the encoder's byte order.\<close>

definition enc_decoder :: "encoder \<Rightarrow> decoder option" where
  "enc_decoder e = do {
     b \<leftarrow> buffer_copy (ebuf e);
     Some (new_decoder (e_mach_bo e) b (e_data_bo e) None)
   }"

definition dec_byteorder :: "decoder \<Rightarrow> byteorder" where
  "dec_byteorder d = d_data_bo d"

definition dec_set_byteorder :: "byteorder \<Rightarrow> decoder \<Rightarrow> decoder" where
  "dec_set_byteorder bo d = d\<lparr>d_data_bo := bo\<rparr>"

text \<open>
  A decoding step: \<open>None\<close> when the run stops, \<open>Some (None, d)\<close> for the return value FALSE (with the
  state it leaves), \<open>Some (Some v, d)\<close> for TRUE with the out parameter \<open>v\<close>.
\<close>

type_synonym 'a dec = "decoder \<Rightarrow> ('a option \<times> decoder) option"

definition dret :: "'a \<Rightarrow> 'a dec" where "dret v d = Some (Some v, d)"
definition dfail :: "'a dec" where "dfail d = Some (None, d)"

definition dbind :: "'a dec \<Rightarrow> ('a \<Rightarrow> 'b dec) \<Rightarrow> 'b dec" where
  "dbind m f d = (case m d of None \<Rightarrow> None
     | Some (None, d') \<Rightarrow> Some (None, d')
     | Some (Some v, d') \<Rightarrow> f v d')"

definition on_dbuf :: "(buffer \<Rightarrow> ('a option \<times> buffer) option) \<Rightarrow> 'a dec" where
  "on_dbuf f d = do { (r, b) \<leftarrow> f (dbuf d); Some (r, d\<lparr>dbuf := b\<rparr>) }"

definition dec_ralign :: "ulong \<Rightarrow> unit dec" where
  "dec_ralign al d = do {
     (ok, b) \<leftarrow> ralign al (dbuf d);
     Some (if ok then Some () else None, d\<lparr>dbuf := b\<rparr>)
   }"

definition dec_rseek_beg :: "ulong \<Rightarrow> unit dec" where
  "dec_rseek_beg p d =
     (let (ok, b) = rseek_beg p (dbuf d) in Some (if ok then Some () else None, d\<lparr>dbuf := b\<rparr>))"

text \<open>The read of a fixed-width image, swapped into machine order.\<close>

definition get_ordered ::
    "(buffer \<Rightarrow> (octet list option \<times> buffer) option) \<Rightarrow> (octet list \<Rightarrow> octet list) \<Rightarrow>
     'a::len word dec" where
  "get_ordered getk swapk d =
     dbind (on_dbuf getk)
       (\<lambda>xs. dret (image_word (d_mach_bo d) (if d_data_bo d = d_mach_bo d then xs else swapk xs))) d"

section \<open>Chunk bookkeeping of reads\<close>

definition with_cur :: "(dec_state1 \<Rightarrow> dec_state1) \<Rightarrow> decoder \<Rightarrow> decoder" where
  "with_cur f d = d\<lparr>d_vstate := map_option (\<lambda>v. v\<lparr>cur := f (cur v)\<rparr>) (d_vstate d)\<rparr>"

definition dec_cur :: "decoder \<Rightarrow> dec_state1 option" where
  "dec_cur d = map_option cur (d_vstate d)"

definition end_chunk :: "unit dec" where
  "end_chunk d = do {
     s \<leftarrow> dec_cur d;
     require (chunking s);
     if end_of_chunk s = -1 then dret () d
     else dbind (dec_rseek_beg (end_of_chunk s))
            (\<lambda>_ d. dret () (with_cur (\<lambda>s. s\<lparr>end_of_chunk := -1\<rparr>) d)) d
   }"

text \<open>The test of \<open>begin_chunk\<close> on the length it has read, and its update.\<close>

definition open_chunk :: "ulong \<Rightarrow> unit dec" where
  "open_chunk len d =
     (if sint len < 0 \<or> len > buf_length (dbuf d) then dfail d
      else dret () (with_cur (\<lambda>s. s\<lparr>end_of_chunk := rptr (dbuf d) + len\<rparr>) d))"

text \<open>
  \<open>check_chunk\<close> calls \<open>end_chunk\<close> and then \<open>begin_chunk\<close>, which reads a \<open>long\<close> and so comes back to
  \<open>check_chunk\<close>; but \<open>end_chunk\<close> has set \<open>end_of_chunk\<close> to -1, so that inner test is TRUE at once.
  \<open>begin_chunk_inner\<close> is \<open>begin_chunk\<close> with the inner test resolved; that the two agree there is
  lemma \<open>begin_chunk_inner_eq\<close> of theory CDR_Value.
\<close>

definition begin_chunk_inner :: "unit dec" where
  "begin_chunk_inner d = do {
     s \<leftarrow> dec_cur d;
     require (chunking s);
     dbind (dec_ralign 4) (\<lambda>_. dbind (get_ordered get4 swap4) open_chunk) d
   }"

definition check_chunk :: "unit dec" where
  "check_chunk d =
     (case dec_cur d of
        None \<Rightarrow> dret () d
      | Some s \<Rightarrow>
          if \<not> chunking s \<or> end_of_chunk s = -1 then dret () d
          else if sint (end_of_chunk s) \<ge> 0 \<and> rptr (dbuf d) \<ge> end_of_chunk s
          then dbind end_chunk (\<lambda>_. begin_chunk_inner) d
          else dret () d)"

section \<open>Primitive reads\<close>

definition get_short :: "ushort dec" where
  "get_short = dbind (dec_ralign 2) (\<lambda>_. dbind check_chunk (\<lambda>_. get_ordered get2 swap2))"

definition get_ushort :: "ushort dec" where
  "get_ushort = dbind (dec_ralign 2) (\<lambda>_. dbind check_chunk (\<lambda>_. get_ordered get2 swap2))"

definition get_long :: "ulong dec" where
  "get_long = dbind (dec_ralign 4) (\<lambda>_. dbind check_chunk (\<lambda>_. get_ordered get4 swap4))"

definition get_longlong :: "ulonglong dec" where
  "get_longlong = dbind (dec_ralign 8) (\<lambda>_. dbind check_chunk (\<lambda>_. get_ordered get8 swap8))"

definition get_ulong :: "ulong dec" where
  "get_ulong = dbind (dec_ralign 4) (\<lambda>_. dbind check_chunk (\<lambda>_. get_ordered get4 swap4))"

definition get_ulonglong :: "ulonglong dec" where
  "get_ulonglong = dbind (dec_ralign 8) (\<lambda>_. dbind check_chunk (\<lambda>_. get_ordered get8 swap8))"

definition get_float :: "ulong dec" where
  "get_float = dbind (dec_ralign 4) (\<lambda>_. dbind check_chunk (\<lambda>_. get_ordered get4 swap4))"

definition get_double :: "ulonglong dec" where
  "get_double = dbind (dec_ralign 8) (\<lambda>_. dbind check_chunk (\<lambda>_. get_ordered get8 swap8))"

definition get_longdouble :: "128 word dec" where
  "get_longdouble = dbind (dec_ralign 8) (\<lambda>_. dbind check_chunk (\<lambda>_. get_ordered get16 swap_16))"

definition get_char :: "octet dec" where
  "get_char = dbind (on_dbuf get1) (\<lambda>xs. dret (hd xs))"

definition get_char_raw :: "octet dec" where
  "get_char_raw = dbind (on_dbuf get1) (\<lambda>xs. dret (hd xs))"

definition get_wchar :: "ulong dec" where
  "get_wchar d = dbind (on_dbuf (Octet_Buffer.get 4)) (\<lambda>xs. dret (image_word (d_mach_bo d) xs)) d"

definition get_octet :: "octet dec" where
  "get_octet = dbind (on_dbuf get1) (\<lambda>xs. dret (hd xs))"

definition get_boolean :: "octet dec" where
  "get_boolean = dbind (on_dbuf get1) (\<lambda>xs. dret (hd xs))"

definition begin_chunk :: "unit dec" where
  "begin_chunk d = do {
     s \<leftarrow> dec_cur d;
     require (chunking s);
     dbind get_long open_chunk d
   }"

end
