(* ===== verification/CDR_Scalar.thy ===== *)
theory CDR_Scalar
  imports CDR_Core
begin

text \<open>
  What the primitive puts and gets of the CDR codec promise, as an interface: a put appends the
  alignment padding and the image of the value in the data byte order, whatever the machine's byte
  order is; a get of such octets returns the value. The interface's client lemmas are the round
  trip of one value and of a sequence of values; every primitive type of the codec is an
  interpretation.
\<close>

section \<open>Images and swaps\<close>

lemma length_image [simp]: "length (image bo n v) = n"
  by (simp add: image_def)

lemma image_nat_image [simp]: "image_nat bo (image bo n v) = v mod 256 ^ n"
  by (simp add: image_def image_nat_def octets_nat_octets)

lemma length_word_image [simp]: "length (word_image bo n w) = n"
  by (simp add: word_image_def)

lemma swap_rev:
  "length s = 2 \<Longrightarrow> swap2 s = rev s"
  "length s = 4 \<Longrightarrow> swap4 s = rev s"
  "length s = 8 \<Longrightarrow> swap8 s = rev s"
  "length s = 16 \<Longrightarrow> swap_16 s = rev s"
  by (auto simp: swap2_def swap4_def swap8_def swap_16_def numeral_eq_Suc length_Suc_conv)

definition real_bo :: "byteorder \<Rightarrow> bool" where
  "real_bo bo \<longleftrightarrow> bo \<noteq> DefaultEndian"

lemma rev_image:
  "real_bo a \<Longrightarrow> real_bo b \<Longrightarrow> a \<noteq> b \<Longrightarrow> rev (image a n v) = image b n v"
  by (cases a; cases b) (auto simp: image_def real_bo_def)

lemma image_word_image:
  fixes w :: "'a::len word"
  assumes "2 ^ LENGTH('a) \<le> (256 :: nat) ^ n"
  shows "image_word bo (image bo n (unat w)) = w"
proof -
  have "unat w < 256 ^ n" using unsigned_less [of w] assms by (rule order.strict_trans2)
  then show ?thesis by (simp add: image_word_def)
qed

section \<open>Appending and consuming octets\<close>

definition enc_ok :: "encoder \<Rightarrow> bool" where
  "enc_ok e \<longleftrightarrow> buf_wf (ebuf e) \<and> walignbase (ebuf e) \<le> wptr (ebuf e) \<and>
     real_bo (e_mach_bo e) \<and> real_bo (e_data_bo e)"

definition dec_ok :: "decoder \<Rightarrow> bool" where
  "dec_ok d \<longleftrightarrow> buf_wf (dbuf d) \<and> ralignbase (dbuf d) \<le> rptr (dbuf d) \<and>
     real_bo (d_mach_bo d) \<and> real_bo (d_data_bo d)"

definition emits :: "encoder \<Rightarrow> octet list \<Rightarrow> encoder \<Rightarrow> bool" where
  "emits e xs e' \<longleftrightarrow> (\<exists>b. e' = e\<lparr>ebuf := b\<rparr> \<and> writes (ebuf e) xs b)"

definition consumes :: "decoder \<Rightarrow> octet list \<Rightarrow> decoder \<Rightarrow> bool" where
  "consumes d xs d' \<longleftrightarrow> (\<exists>b. d' = d\<lparr>dbuf := b\<rparr> \<and> reads (dbuf d) xs b)"

text \<open>Room for \<open>n\<close> more octets below the position limit, and \<open>n\<close> octets without a chunk boundary.\<close>

definition has_room :: "nat \<Rightarrow> encoder \<Rightarrow> bool" where
  "has_room n e \<longleftrightarrow> unat (wptr (ebuf e)) + n < 4294967295"

definition calm :: "nat \<Rightarrow> decoder \<Rightarrow> bool" where
  "calm n d \<longleftrightarrow> (case dec_cur d of None \<Rightarrow> True
     | Some s \<Rightarrow> \<not> chunking s \<or> end_of_chunk s = -1 \<or>
         unat (rptr (dbuf d)) + n \<le> unat (end_of_chunk s))"

abbreviation woffe :: "encoder \<Rightarrow> nat" where "woffe e \<equiv> woff (ebuf e)"
abbreviation roffd :: "decoder \<Rightarrow> nat" where "roffd d \<equiv> roff (dbuf d)"

definition pad :: "nat \<Rightarrow> nat \<Rightarrow> octet list" where
  "pad p al = replicate (padlen p al) 0"

lemma length_pad [simp]: "length (pad p al) = padlen p al"
  by (simp add: pad_def)

lemma pad_one [simp]: "pad p 1 = []" "pad p (Suc 0) = []"
  by (simp_all add: pad_def)

lemma emits_refl [simp]: "enc_ok e \<Longrightarrow> emits e [] e"
  by (auto simp: emits_def enc_ok_def intro: exI [of _ "ebuf e"])

lemma emits_trans [trans]: "emits e xs f \<Longrightarrow> emits f ys g \<Longrightarrow> emits e (xs @ ys) g"
  unfolding emits_def using writes_trans by fastforce

lemma consumes_trans [trans]: "consumes d xs e \<Longrightarrow> consumes e ys f \<Longrightarrow> consumes d (xs @ ys) f"
  unfolding consumes_def using reads_trans by fastforce

lemma consumes_refl [simp]: "dec_ok d \<Longrightarrow> consumes d [] d"
  by (auto simp: consumes_def dec_ok_def intro: exI [of _ "dbuf d"])

lemma consumes_fields:
  assumes "consumes d xs d'"
  shows "d_data_bo d' = d_data_bo d" "d_mach_bo d' = d_mach_bo d" "d_vstate d' = d_vstate d"
    "dec_cur d' = dec_cur d" "octets (dbuf d) = xs @ octets (dbuf d')"
    "unat (rptr (dbuf d')) = unat (rptr (dbuf d)) + length xs"
    "ralignbase (dbuf d') = ralignbase (dbuf d)" "wptr (dbuf d') = wptr (dbuf d)"
    "buf_wf (dbuf d')"
  using assms by (auto simp: consumes_def reads_def dec_cur_def)

lemma emits_fields:
  assumes "emits e xs e'"
  shows "e_data_bo e' = e_data_bo e" "e_mach_bo e' = e_mach_bo e" "e_vstate e' = e_vstate e"
    "octets (ebuf e') = octets (ebuf e) @ xs"
    "unat (wptr (ebuf e')) = unat (wptr (ebuf e)) + length xs"
    "walignbase (ebuf e') = walignbase (ebuf e)" "rptr (ebuf e') = rptr (ebuf e)"
    "ralignbase (ebuf e') = ralignbase (ebuf e)" "buf_wf (ebuf e')"
  using assms by (auto simp: emits_def writes_def)

lemma emits_ok: "emits e xs e' \<Longrightarrow> enc_ok e \<Longrightarrow> enc_ok e'"
  by (auto simp: emits_def writes_def enc_ok_def word_le_nat_alt)

lemma consumes_ok: "consumes d xs d' \<Longrightarrow> dec_ok d \<Longrightarrow> dec_ok d'"
  by (auto simp: consumes_def reads_def dec_ok_def word_le_nat_alt)

lemma has_room_emits: "emits e xs e' \<Longrightarrow> has_room (length xs + n) e \<Longrightarrow> has_room n e'"
  by (auto simp: has_room_def emits_def writes_def)

lemma has_room_mono: "has_room n e \<Longrightarrow> m \<le> n \<Longrightarrow> has_room m e"
  by (simp add: has_room_def)

lemma calm_consumes: "consumes d xs d' \<Longrightarrow> calm (length xs + n) d \<Longrightarrow> calm n d'"
  by (auto simp: calm_def consumes_def reads_def dec_cur_def split: option.splits)

lemma calm_mono: "calm n d \<Longrightarrow> m \<le> n \<Longrightarrow> calm m d"
  by (auto simp: calm_def split: option.splits)

text \<open>Offsets from the alignment base, which positions only grow away from.\<close>

lemma woffe_emits: "emits e xs e' \<Longrightarrow> enc_ok e \<Longrightarrow> woffe e' = woffe e + length xs"
  by (frule emits_ok) (auto simp: emits_def writes_def enc_ok_def woff_def nowrap word_le_nat_alt)

lemma roffd_consumes: "consumes d xs d' \<Longrightarrow> dec_ok d \<Longrightarrow> roffd d' = roffd d + length xs"
  by (frule consumes_ok) (auto simp: consumes_def reads_def dec_ok_def roff_def nowrap word_le_nat_alt)

section \<open>Steps of the codec\<close>

lemma dbind_ret [simp]: "dbind (dret v) f = f v"
  by (simp add: dbind_def dret_def fun_eq_iff)

lemma dbind_step: "m d = Some (Some v, d') \<Longrightarrow> dbind m f d = f v d'"
  by (simp add: dbind_def)

lemma dbind_stop: "m d = Some (None, d') \<Longrightarrow> dbind m f d = Some (None, d')"
  by (simp add: dbind_def)

lemma walign_emits:
  assumes "enc_ok e" and "1 \<le> al" and "has_room (unat al) e"
  shows "\<exists>e'. on_ebuf (walign al) e = Some e' \<and> emits e (pad (woffe e) (unat al)) e'"
proof -
  have "unat (wptr (ebuf e)) + unat al < 4294967296" using assms(3) by (simp add: has_room_def)
  then obtain b where "walign al (ebuf e) = Some b"
    "writes (ebuf e) (pad (woffe e) (unat al)) b"
    using walign_writes [of "ebuf e" al] assms by (auto simp: enc_ok_def pad_def)
  then show ?thesis by (auto simp: on_ebuf_def emits_def)
qed

lemma put_ordered_emits:
  assumes ok: "enc_ok e" and room: "has_room n e"
    and putk: "\<And>b xs. buf_wf b \<Longrightarrow> walignbase b \<le> wptr b \<Longrightarrow> unat (wptr b) + length xs < 4294967295 \<Longrightarrow>
      length xs = n \<Longrightarrow> \<exists>b'. putk xs b = Some b' \<and> writes b xs b'"
    and swapk: "\<And>xs. length xs = n \<Longrightarrow> swapk xs = rev xs"
  shows "\<exists>e'. put_ordered putk swapk (word_image (e_mach_bo e) n w) e = Some e' \<and>
     emits e (word_image (e_data_bo e) n w) e'"
proof -
  let ?xs = "word_image (e_data_bo e) n w"
  have *: "(if e_mach_bo e = e_data_bo e then word_image (e_mach_bo e) n w
       else swapk (word_image (e_mach_bo e) n w)) = ?xs"
    using ok by (simp add: swapk) (simp add: word_image_def rev_image enc_ok_def)
  obtain b where "putk ?xs (ebuf e) = Some b" "writes (ebuf e) ?xs b"
    using putk [of "ebuf e" ?xs] ok room by (auto simp: enc_ok_def has_room_def)
  then show ?thesis
    using * by (cases "e_mach_bo e = e_data_bo e")
      (auto simp: put_ordered_def on_ebuf_def emits_def)
qed

lemma aligned_put_emits:
  assumes ok: "enc_ok e" and room: "has_room (unat al + n) e" and al: "1 \<le> al"
    and putk: "\<And>b xs. buf_wf b \<Longrightarrow> walignbase b \<le> wptr b \<Longrightarrow> unat (wptr b) + length xs < 4294967295 \<Longrightarrow>
      length xs = n \<Longrightarrow> \<exists>b'. putk xs b = Some b' \<and> writes b xs b'"
    and swapk: "\<And>xs. length xs = n \<Longrightarrow> swapk xs = rev xs"
  shows "\<exists>e'. Option.bind (on_ebuf (walign al) e)
       (\<lambda>e. put_ordered putk swapk (word_image (e_mach_bo e) n w) e) = Some e' \<and>
     emits e (pad (woffe e) (unat al) @ word_image (e_data_bo e) n w) e'"
proof -
  obtain f where f: "on_ebuf (walign al) e = Some f" "emits e (pad (woffe e) (unat al)) f"
    using walign_emits [OF ok al] room has_room_mono by (metis le_add1)
  have "padlen (woffe e) (unat al) < unat al"
    using al by (intro padlen_less) (simp add: word_le_nat_alt)
  then have "has_room (padlen (woffe e) (unat al) + n) e"
    by (intro has_room_mono [OF room]) simp
  then have room': "has_room n f"
    using has_room_emits [OF f(2)] by simp
  from put_ordered_emits [OF emits_ok [OF f(2) ok] room' putk swapk, of w]
  obtain g where g: "put_ordered putk swapk (word_image (e_mach_bo f) n w) f = Some g"
    "emits f (word_image (e_data_bo f) n w) g"
    by auto
  then show ?thesis
    using f emits_trans [OF f(2) g(2)] by (simp add: emits_fields(1) [OF f(2)])
qed

lemma put1_emits:
  assumes "enc_ok e" and "has_room 1 e"
  shows "\<exists>e'. on_ebuf (put1 x) e = Some e' \<and> emits e [x] e'"
proof -
  obtain b where "put1 x (ebuf e) = Some b" "writes (ebuf e) [x] b"
    using put_one_writes [of "ebuf e" x] assms by (auto simp: enc_ok_def has_room_def)
  then show ?thesis by (auto simp: on_ebuf_def emits_def)
qed

lemma ralign_consumes:
  assumes ok: "dec_ok d" and al: "1 \<le> al"
    and oct: "octets (dbuf d) = ps @ rest" and ps: "length ps = padlen (roffd d) (unat al)"
  shows "\<exists>d'. dec_ralign al d = Some (Some (), d') \<and> consumes d ps d'"
proof -
  obtain b where "ralign al (dbuf d) = Some (True, b)" "reads (dbuf d) ps b"
    using ralign_reads [of "dbuf d" al] ok al oct ps by (auto simp: dec_ok_def)
  then show ?thesis by (auto simp: dec_ralign_def consumes_def)
qed

lemma check_chunk_calm: "calm n d \<Longrightarrow> 0 < n \<Longrightarrow> check_chunk d = Some (Some (), d)"
  by (auto simp: calm_def check_chunk_def dret_def not_le word_le_nat_alt split: option.splits)

lemma get_ordered_consumes:
  fixes w :: "'a::len word"
  assumes ok: "dec_ok d" and oct: "octets (dbuf d) = word_image (d_data_bo d) n w @ rest"
    and getk: "\<And>b xs ys. buf_wf b \<Longrightarrow> octets b = xs @ ys \<Longrightarrow> length xs = n \<Longrightarrow>
      \<exists>b'. getk b = Some (Some xs, b') \<and> reads b xs b'"
    and swapk: "\<And>xs. length xs = n \<Longrightarrow> swapk xs = rev xs"
    and len: "2 ^ LENGTH('a) \<le> (256 :: nat) ^ n"
  shows "\<exists>d'. get_ordered getk swapk d = Some (Some w, d') \<and>
     consumes d (word_image (d_data_bo d) n w) d'"
proof -
  let ?xs = "word_image (d_data_bo d) n w"
  obtain b where b: "getk (dbuf d) = Some (Some ?xs, b)" "reads (dbuf d) ?xs b"
    using getk [of "dbuf d" ?xs rest] ok oct by (auto simp: dec_ok_def)
  have "(if d_data_bo d = d_mach_bo d then ?xs else swapk ?xs) = word_image (d_mach_bo d) n w"
    using ok by (simp add: swapk) (simp add: word_image_def rev_image dec_ok_def)
  then have "image_word (d_mach_bo d) (if d_data_bo d = d_mach_bo d then ?xs else swapk ?xs) = w"
    by (simp only: word_image_def image_word_image [OF len])
  with b show ?thesis
    by (auto simp: get_ordered_def dbind_def on_dbuf_def dret_def consumes_def)
qed

lemma aligned_get_consumes:
  fixes w :: "'a::len word"
  assumes ok: "dec_ok d" and al: "1 \<le> al"
    and oct: "octets (dbuf d) = ps @ word_image (d_data_bo d) n w @ rest"
    and ps: "length ps = padlen (roffd d) (unat al)"
    and calm: "calm (length ps + n) d" and n: "0 < n"
    and getk: "\<And>b xs ys. buf_wf b \<Longrightarrow> octets b = xs @ ys \<Longrightarrow> length xs = n \<Longrightarrow>
      \<exists>b'. getk b = Some (Some xs, b') \<and> reads b xs b'"
    and swapk: "\<And>xs. length xs = n \<Longrightarrow> swapk xs = rev xs"
    and len: "2 ^ LENGTH('a) \<le> (256 :: nat) ^ n"
  shows "\<exists>d'. dbind (dec_ralign al) (\<lambda>_. dbind check_chunk (\<lambda>_. get_ordered getk swapk)) d
       = Some (Some w, d') \<and> consumes d (ps @ word_image (d_data_bo d) n w) d'"
proof -
  obtain f where f: "dec_ralign al d = Some (Some (), f)" "consumes d ps f"
    using ralign_consumes [OF ok al oct ps] by auto
  have "calm n f" using calm_consumes [OF f(2), of n] calm by simp
  note c = check_chunk_calm [OF this n]
  have "octets (dbuf f) = word_image (d_data_bo f) n w @ rest"
    using consumes_fields(5) [OF f(2)] oct by (simp add: consumes_fields(1) [OF f(2)])
  then have "\<exists>g. get_ordered getk swapk f = Some (Some w, g) \<and>
      consumes f (word_image (d_data_bo f) n w) g"
    by (rule get_ordered_consumes [OF consumes_ok [OF f(2) ok] _ getk swapk len])
  then obtain g where g: "get_ordered getk swapk f = Some (Some w, g)"
    "consumes f (word_image (d_data_bo f) n w) g"
    by blast
  have "dbind (dec_ralign al) (\<lambda>_. dbind check_chunk (\<lambda>_. get_ordered getk swapk)) d =
      Some (Some w, g)"
    by (simp add: dbind_def f(1) c g(1))
  moreover have "consumes d (ps @ word_image (d_data_bo d) n w) g"
    using consumes_trans [OF f(2) g(2)] unfolding consumes_fields(1) [OF f(2)] .
  ultimately show ?thesis by blast
qed

text \<open>The fixed-width reads of the buffer, where the octets are there.\<close>

lemma get_fixed_consumes:
  assumes wf: "buf_wf b" and oct: "octets b = xs @ ys"
  shows "length xs = 1 \<Longrightarrow> \<exists>b'. get1 b = Some (Some xs, b') \<and> reads b xs b'"
    and "length xs = 2 \<Longrightarrow> \<exists>b'. get2 b = Some (Some xs, b') \<and> reads b xs b'"
    and "length xs = 4 \<Longrightarrow> \<exists>b'. get4 b = Some (Some xs, b') \<and> reads b xs b'"
    and "length xs = 8 \<Longrightarrow> \<exists>b'. get8 b = Some (Some xs, b') \<and> reads b xs b'"
    and "length xs = 16 \<Longrightarrow> \<exists>b'. get16 b = Some (Some xs, b') \<and> reads b xs b'"
proof -
  have "length xs \<le> unat (wptr b) - unat (rptr b)"
    using length_octets [OF wf] oct by (metis length_append le_add1)
  then have le: "unat (rptr b) + length xs < 4294967296"
    using buf_wfD(2) [OF wf] unat_ulong_lt [of "wptr b"] by linarith
  have g: "\<exists>b'. get l b = Some (Some xs, b') \<and> reads b xs b'" if "unat l = length xs" for l
    using get_reads [OF wf, of l] oct that by auto
  show "length xs = 1 \<Longrightarrow> \<exists>b'. get1 b = Some (Some xs, b') \<and> reads b xs b'"
    using g [of 1] by (simp add: get1_eq [OF wf])
  show "length xs = 2 \<Longrightarrow> \<exists>b'. get2 b = Some (Some xs, b') \<and> reads b xs b'"
    and "length xs = 4 \<Longrightarrow> \<exists>b'. get4 b = Some (Some xs, b') \<and> reads b xs b'"
    and "length xs = 8 \<Longrightarrow> \<exists>b'. get8 b = Some (Some xs, b') \<and> reads b xs b'"
    and "length xs = 16 \<Longrightarrow> \<exists>b'. get16 b = Some (Some xs, b') \<and> reads b xs b'"
    using le g [of 2] g [of 4] g [of 8] g [of 16] get_fixed_eq [OF wf] by simp_all
qed

section \<open>The interface of a primitive type\<close>

text \<open>Loops of one put or get, and the octets such a loop lays out from offset \<open>p\<close>.\<close>

fun enc_loop :: "('v \<Rightarrow> encoder \<Rightarrow> encoder option) \<Rightarrow> 'v list \<Rightarrow> encoder \<Rightarrow> encoder option" where
  "enc_loop pt [] e = Some e"
| "enc_loop pt (v # vs) e = do { e \<leftarrow> pt v e; enc_loop pt vs e }"

fun dec_loop :: "'v dec \<Rightarrow> nat \<Rightarrow> 'v list dec" where
  "dec_loop gt 0 = dret []"
| "dec_loop gt (Suc n) = dbind gt (\<lambda>v. dbind (dec_loop gt n) (\<lambda>vs. dret (v # vs)))"

fun layout :: "nat \<Rightarrow> ('v \<Rightarrow> octet list) \<Rightarrow> nat \<Rightarrow> 'v list \<Rightarrow> octet list" where
  "layout al im p [] = []"
| "layout al im p (v # vs) =
     (let xs = pad p al @ im v in xs @ layout al im (p + length xs) vs)"

locale cdr_scalar =
  fixes al n :: nat
    and img :: "byteorder \<Rightarrow> 'v \<Rightarrow> octet list"
    and pt :: "'v \<Rightarrow> encoder \<Rightarrow> encoder option"
    and gt :: "'v dec"
  assumes al_pos: "0 < al" and n_pos: "0 < n"
    and img_length: "length (img bo v) = n"
    and put_law: "enc_ok e \<Longrightarrow> has_room (al + n) e \<Longrightarrow>
      \<exists>e'. pt v e = Some e' \<and> emits e (pad (woffe e) al @ img (e_data_bo e) v) e'"
    and get_law: "dec_ok d \<Longrightarrow> octets (dbuf d) = ps @ img (d_data_bo d) v @ rest \<Longrightarrow>
      length ps = padlen (roffd d) al \<Longrightarrow> calm (length ps + n) d \<Longrightarrow>
      \<exists>d'. gt d = Some (Some v, d') \<and> consumes d (ps @ img (d_data_bo d) v) d'"
begin

lemma one_length: "length (pad p al @ img bo v) \<le> al + n"
  using padlen_less [OF al_pos, of p] by (simp add: img_length)

lemma put_seq:
  "enc_ok e \<Longrightarrow> has_room ((al + n) * length vs) e \<Longrightarrow>
   \<exists>e'. enc_loop pt vs e = Some e' \<and> emits e (layout al (img (e_data_bo e)) (woffe e) vs) e'"
proof (induction vs arbitrary: e)
  case (Cons v vs)
  let ?xs = "pad (woffe e) al @ img (e_data_bo e) v"
  have "has_room (al + n) e" using Cons.prems(2) by (rule has_room_mono) simp
  then obtain f where f: "pt v e = Some f" "emits e ?xs f"
    using put_law Cons.prems(1) by blast
  note ff = emits_fields [OF f(2)]
  have "has_room (length ?xs + (al + n) * length vs) e"
    using Cons.prems(2) one_length [of "woffe e"] by (auto intro: has_room_mono)
  then have "has_room ((al + n) * length vs) f" by (rule has_room_emits [OF f(2)])
  then obtain g where "enc_loop pt vs f = Some g"
    "emits f (layout al (img (e_data_bo f)) (woffe f) vs) g"
    using Cons.IH emits_ok [OF f(2) Cons.prems(1)] by blast
  then show ?case
    using f emits_trans [OF f(2)] woffe_emits [OF f(2) Cons.prems(1)]
    by (auto simp: ff(1) Let_def)
qed simp

lemma get_seq:
  "dec_ok d \<Longrightarrow> octets (dbuf d) = layout al (img (d_data_bo d)) (roffd d) vs @ rest \<Longrightarrow>
   calm (length (layout al (img (d_data_bo d)) (roffd d) vs)) d \<Longrightarrow>
   \<exists>d'. dec_loop gt (length vs) d = Some (Some vs, d') \<and>
     consumes d (layout al (img (d_data_bo d)) (roffd d) vs) d'"
proof (induction vs arbitrary: d)
  case Nil
  then show ?case by (simp add: dret_def)
next
  case (Cons v vs)
  let ?xs = "pad (roffd d) al @ img (d_data_bo d) v"
  let ?ys = "layout al (img (d_data_bo d)) (roffd d + length ?xs) vs"
  have oct: "octets (dbuf d) = pad (roffd d) al @ img (d_data_bo d) v @ (?ys @ rest)"
    and calm: "calm (length ?xs + length ?ys) d"
    using Cons.prems(2,3) by (simp_all add: Let_def add.assoc)
  have "calm (length (pad (roffd d) al) + n) d" using calm by (rule calm_mono) (simp add: img_length)
  then obtain f where f: "gt d = Some (Some v, f)" "consumes d ?xs f"
    using get_law [OF Cons.prems(1) oct] by auto
  note ff = consumes_fields [OF f(2)]
  have r: "roffd f = roffd d + length ?xs" by (rule roffd_consumes [OF f(2) Cons.prems(1)])
  have "octets (dbuf f) = ?ys @ rest" using ff(5) oct by simp
  moreover have "calm (length ?ys) f" using calm by (rule calm_consumes [OF f(2)])
  ultimately obtain g where g: "dec_loop gt (length vs) f = Some (Some vs, g)"
    "consumes f ?ys g"
    using Cons.IH [OF consumes_ok [OF f(2) Cons.prems(1)]] by (auto simp: ff(1) r)
  have "dec_loop gt (length (v # vs)) d = Some (Some (v # vs), g)"
    by (simp add: dbind_def f(1) g(1) dret_def)
  moreover have "consumes d (?xs @ ?ys) g" by (rule consumes_trans [OF f(2) g(2)])
  ultimately show ?case by (auto simp: Let_def)
qed

text \<open>
  What one machine writes into a new buffer, any other machine reads back, whatever the byte
  orders of the two machines and of the data are.
\<close>

lemma seq_roundtrip:
  assumes "real_bo m1" and "real_bo m2" and "real_bo bo" and "(al + n) * length vs < 4294967295"
  shows "\<exists>e d. enc_loop pt vs (new_encoder m1 (buffer_new f sz) bo) = Some e \<and>
     dec_loop gt (length vs) (new_decoder m2 (ebuf e) bo None) = Some (Some vs, d) \<and>
     octets (dbuf d) = []"
proof -
  let ?e = "new_encoder m1 (buffer_new f sz) bo"
  have b: "walignbase (buffer_new f sz) = 0" "wptr (buffer_new f sz) = 0"
    "ralignbase (buffer_new f sz) = 0" "rptr (buffer_new f sz) = 0"
    by (simp_all add: buffer_new_def Let_def)
  have e: "enc_ok ?e" "has_room ((al + n) * length vs) ?e" "woffe ?e = 0" "e_data_bo ?e = bo"
    using assms buffer_new_wf(1) [of f sz]
    by (simp_all add: enc_ok_def new_encoder_def has_room_def woff_def b real_bo_def)
  from put_seq [OF e(1,2)] obtain g where g: "enc_loop pt vs ?e = Some g"
    "emits ?e (layout al (img bo) 0 vs) g"
    by (auto simp: e)
  let ?d = "new_decoder m2 (ebuf g) bo None"
  note gf = emits_fields [OF g(2)]
  have gb: "rptr (ebuf g) = 0" "ralignbase (ebuf g) = 0" "ebuf ?e = buffer_new f sz"
    by (simp_all add: gf new_encoder_def b)
  have "dec_ok ?d" "roffd ?d = 0" "calm m ?d" "d_data_bo ?d = bo"
    "octets (dbuf ?d) = layout al (img bo) 0 vs @ []" for m
    using assms emits_ok [OF g(2) e(1)] gf(4)
    by (simp_all add: dec_ok_def new_decoder_def enc_ok_def roff_def gb calm_def dec_cur_def
        real_bo_def buffer_new_wf(2))
  then obtain d where "dec_loop gt (length vs) ?d = Some (Some vs, d)"
    "consumes ?d (layout al (img bo) 0 vs) d"
    using get_seq [of ?d vs "[]"] by auto
  moreover from this(2) have "octets (dbuf d) = []"
    using consumes_fields(5) \<open>octets (dbuf ?d) = layout al (img bo) 0 vs @ []\<close> by fastforce
  ultimately show ?thesis using g(1) by blast
qed

end

section \<open>The primitive types of the codec\<close>

abbreviation word_img :: "nat \<Rightarrow> byteorder \<Rightarrow> 'a::len word \<Rightarrow> octet list" where
  "word_img n bo w \<equiv> word_image bo n w"

lemmas codec_put = put_fixed_writes
lemmas codec_get = get_fixed_consumes

lemma put_aligned_laws:
  assumes "enc_ok e"
  shows "has_room (2 + 2) e \<Longrightarrow> \<exists>e'. put_ushort v2 e = Some e' \<and>
      emits e (pad (woffe e) 2 @ word_image (e_data_bo e) 2 v2) e'"
    and "has_room (4 + 4) e \<Longrightarrow> \<exists>e'. put_ulong v4 e = Some e' \<and>
      emits e (pad (woffe e) 4 @ word_image (e_data_bo e) 4 v4) e'"
    and "has_room (8 + 8) e \<Longrightarrow> \<exists>e'. put_ulonglong v8 e = Some e' \<and>
      emits e (pad (woffe e) 8 @ word_image (e_data_bo e) 8 v8) e'"
    and "has_room (8 + 16) e \<Longrightarrow> \<exists>e'. put_longdouble v16 e = Some e' \<and>
      emits e (pad (woffe e) 8 @ word_image (e_data_bo e) 16 v16) e'"
  using aligned_put_emits [OF assms, of 2 2 put2 swap2 v2]
    aligned_put_emits [OF assms, of 4 4 put4 swap4 v4]
    aligned_put_emits [OF assms, of 8 8 put8 swap8 v8]
    aligned_put_emits [OF assms, of 8 16 put16 swap_16 v16]
  by (simp_all add: put_ushort_def put_ulong_def put_ulonglong_def put_longdouble_def
      codec_put swap_rev)

lemma get_aligned_laws:
  assumes "dec_ok d"
  shows "octets (dbuf d) = ps @ word_image (d_data_bo d) 2 v2 @ rest \<Longrightarrow>
      length ps = padlen (roffd d) 2 \<Longrightarrow> calm (length ps + 2) d \<Longrightarrow>
      \<exists>d'. get_ushort d = Some (Some v2, d') \<and> consumes d (ps @ word_image (d_data_bo d) 2 v2) d'"
    and "octets (dbuf d) = ps @ word_image (d_data_bo d) 4 v4 @ rest \<Longrightarrow>
      length ps = padlen (roffd d) 4 \<Longrightarrow> calm (length ps + 4) d \<Longrightarrow>
      \<exists>d'. get_ulong d = Some (Some v4, d') \<and> consumes d (ps @ word_image (d_data_bo d) 4 v4) d'"
    and "octets (dbuf d) = ps @ word_image (d_data_bo d) 8 v8 @ rest \<Longrightarrow>
      length ps = padlen (roffd d) 8 \<Longrightarrow> calm (length ps + 8) d \<Longrightarrow>
      \<exists>d'. get_ulonglong d = Some (Some v8, d') \<and> consumes d (ps @ word_image (d_data_bo d) 8 v8) d'"
    and "octets (dbuf d) = ps @ word_image (d_data_bo d) 16 v16 @ rest \<Longrightarrow>
      length ps = padlen (roffd d) 8 \<Longrightarrow> calm (length ps + 16) d \<Longrightarrow>
      \<exists>d'. get_longdouble d = Some (Some v16, d') \<and>
        consumes d (ps @ word_image (d_data_bo d) 16 v16) d'"
  using aligned_get_consumes [OF assms(1), of 2 ps 2 v2 rest get2 swap2]
    aligned_get_consumes [OF assms(1), of 4 ps 4 v4 rest get4 swap4]
    aligned_get_consumes [OF assms(1), of 8 ps 8 v8 rest get8 swap8]
    aligned_get_consumes [OF assms(1), of 8 ps 16 v16 rest get16 swap_16]
  by (simp_all add: get_ushort_def get_ulong_def get_ulonglong_def get_longdouble_def
      codec_get swap_rev)

lemma octet_laws:
  shows "enc_ok e \<Longrightarrow> has_room 2 e \<Longrightarrow> \<exists>e'. put_octet x e = Some e' \<and> emits e [x] e'"
    and "dec_ok d \<Longrightarrow> octets (dbuf d) = x # rest \<Longrightarrow>
      \<exists>d'. get_octet d = Some (Some x, d') \<and> consumes d [x] d'"
proof -
  show "enc_ok e \<Longrightarrow> has_room 2 e \<Longrightarrow> \<exists>e'. put_octet x e = Some e' \<and> emits e [x] e'"
    using put1_emits [of e x] has_room_mono [of 2 e 1] by (simp add: put_octet_def)
  assume d: "dec_ok d" "octets (dbuf d) = x # rest"
  then obtain b where "get1 (dbuf d) = Some (Some [x], b)" "reads (dbuf d) [x] b"
    using codec_get(1) [of "dbuf d" "[x]" rest] by (auto simp: dec_ok_def)
  then show "\<exists>d'. get_octet d = Some (Some x, d') \<and> consumes d [x] d'"
    by (auto simp: get_octet_def dbind_def on_dbuf_def dret_def consumes_def)
qed

interpretation ushort: cdr_scalar 2 2 "word_img 2" put_ushort get_ushort
  by unfold_locales (simp_all add: put_aligned_laws get_aligned_laws)

interpretation short: cdr_scalar 2 2 "word_img 2" put_short get_short
  by unfold_locales
    (simp_all add: put_aligned_laws get_aligned_laws put_short_def get_short_def
      put_ushort_def [symmetric] get_ushort_def [symmetric])

interpretation ulong: cdr_scalar 4 4 "word_img 4" put_ulong get_ulong
  by unfold_locales (simp_all add: put_aligned_laws get_aligned_laws)

interpretation long: cdr_scalar 4 4 "word_img 4" put_long get_long
  by unfold_locales
    (simp_all add: put_aligned_laws get_aligned_laws put_long_def get_long_def
      put_ulong_def [symmetric] get_ulong_def [symmetric])

interpretation float: cdr_scalar 4 4 "word_img 4" put_float get_float
  by unfold_locales
    (simp_all add: put_aligned_laws get_aligned_laws put_float_def get_float_def
      put_ulong_def [symmetric] get_ulong_def [symmetric])

interpretation ulonglong: cdr_scalar 8 8 "word_img 8" put_ulonglong get_ulonglong
  by unfold_locales (simp_all add: put_aligned_laws get_aligned_laws)

interpretation longlong: cdr_scalar 8 8 "word_img 8" put_longlong get_longlong
  by unfold_locales
    (simp_all add: put_aligned_laws get_aligned_laws put_longlong_def get_longlong_def
      put_ulonglong_def [symmetric] get_ulonglong_def [symmetric])

interpretation double: cdr_scalar 8 8 "word_img 8" put_double get_double
  by unfold_locales
    (simp_all add: put_aligned_laws get_aligned_laws put_double_def get_double_def
      put_ulonglong_def [symmetric] get_ulonglong_def [symmetric])

interpretation longdouble: cdr_scalar 8 16 "word_img 16" put_longdouble get_longdouble
  by unfold_locales (simp_all add: put_aligned_laws get_aligned_laws)

interpretation octet: cdr_scalar 1 1 "\<lambda>_ x. [x]" put_octet get_octet
  by unfold_locales (simp_all add: octet_laws numeral_2_eq_2)

interpretation boolean: cdr_scalar 1 1 "\<lambda>_ x. [x]" put_boolean get_boolean
  by unfold_locales
    (simp_all add: octet_laws numeral_2_eq_2 put_boolean_def get_boolean_def
      put_octet_def [symmetric] get_octet_def [symmetric])

interpretation char: cdr_scalar 1 1 "\<lambda>_ x. [x]" put_char get_char
  by unfold_locales
    (simp_all add: octet_laws numeral_2_eq_2 put_char_def get_char_def
      put_octet_def [symmetric] get_octet_def [symmetric])

end
