(* ===== verification/CDR_Arrays.thy ===== *)
theory CDR_Arrays
  imports CDR_Scalar
begin

text \<open>
  The composite operations of the CDR codec (orb/codec.cc): arrays of the primitive types with
  their two paths (one block copy when the data byte order is the machine's, an in-place swap
  loop otherwise), octet blocks, strings, wide strings and fixed-point digits. A pointer argument
  is the memory it can read: the images of an array's elements, the octets of a C string with its
  terminating zero.
\<close>

section \<open>Arrays\<close>

text \<open>
  The number of rounds of \<open>for (Long i = l; --i >= 0; ..)\<close>: the count as a signed 32-bit number,
  none when it is negative; at the least \<open>Long\<close> the decrement overflows.
\<close>

definition loop_count :: "ulong \<Rightarrow> nat option" where
  "loop_count l = (if l = 0x80000000 then None else Some (nat (sint l)))"

fun swap_store :: "(octet list \<Rightarrow> octet list) \<Rightarrow> octet list list \<Rightarrow> nat \<Rightarrow> octet list \<Rightarrow>
    octet list option" where
  "swap_store swapk [] at m = Some m"
| "swap_store swapk (x # xs) at m = do {
     m \<leftarrow> mem_write m at (swapk x);
     swap_store swapk xs (at + length (swapk x)) m
   }"

definition put_elems ::
    "ulong \<Rightarrow> (octet list \<Rightarrow> octet list) \<Rightarrow> octet list list \<Rightarrow> ulong \<Rightarrow> encoder \<Rightarrow> encoder option" where
  "put_elems k swapk p l e =
     (if e_mach_bo e = e_data_bo e then on_ebuf (Octet_Buffer.put (concat p) (k * l)) e
      else do {
        e \<leftarrow> on_ebuf (resize (k * l)) e;
        n \<leftarrow> loop_count l;
        xs \<leftarrow> mem_read p 0 n;
        m \<leftarrow> swap_store swapk xs (unat (wptr (ebuf e))) (mem (ebuf e));
        on_ebuf (wseek_rel (k * l)) (e\<lparr>ebuf := (ebuf e)\<lparr>mem := m\<rparr>\<rparr>)
      })"

definition put_array ::
    "ulong \<Rightarrow> ulong \<Rightarrow> (octet list \<Rightarrow> octet list) \<Rightarrow> octet list list \<Rightarrow> ulong \<Rightarrow> encoder \<Rightarrow>
     encoder option" where
  "put_array al k swapk p l e = do { e \<leftarrow> on_ebuf (walign al) e; put_elems k swapk p l e }"

definition put_shorts :: "ushort list \<Rightarrow> ulong \<Rightarrow> encoder \<Rightarrow> encoder option" where
  "put_shorts p l e = put_array 2 2 swap2 (map (word_image (e_mach_bo e) 2) p) l e"

definition put_ushorts :: "ushort list \<Rightarrow> ulong \<Rightarrow> encoder \<Rightarrow> encoder option" where
  "put_ushorts p l e = put_array 2 2 swap2 (map (word_image (e_mach_bo e) 2) p) l e"

definition put_longs :: "ulong list \<Rightarrow> ulong \<Rightarrow> encoder \<Rightarrow> encoder option" where
  "put_longs p l e = put_array 4 4 swap4 (map (word_image (e_mach_bo e) 4) p) l e"

definition put_longlongs :: "ulonglong list \<Rightarrow> ulong \<Rightarrow> encoder \<Rightarrow> encoder option" where
  "put_longlongs p l e = put_array 8 8 swap8 (map (word_image (e_mach_bo e) 8) p) l e"

definition put_ulongs :: "ulong list \<Rightarrow> ulong \<Rightarrow> encoder \<Rightarrow> encoder option" where
  "put_ulongs p l e = put_array 4 4 swap4 (map (word_image (e_mach_bo e) 4) p) l e"

definition put_ulonglongs :: "ulonglong list \<Rightarrow> ulong \<Rightarrow> encoder \<Rightarrow> encoder option" where
  "put_ulonglongs p l e = put_array 8 8 swap8 (map (word_image (e_mach_bo e) 8) p) l e"

text \<open>Arrays of floating point values go out one by one.\<close>

definition put_floats :: "ulong list \<Rightarrow> ulong \<Rightarrow> encoder \<Rightarrow> encoder option" where
  "put_floats p l e = do {
     n \<leftarrow> loop_count l; xs \<leftarrow> mem_read p 0 n; enc_loop put_float xs e }"

definition put_doubles :: "ulonglong list \<Rightarrow> ulong \<Rightarrow> encoder \<Rightarrow> encoder option" where
  "put_doubles p l e = do {
     n \<leftarrow> loop_count l; xs \<leftarrow> mem_read p 0 n; enc_loop put_double xs e }"

definition put_longdoubles :: "128 word list \<Rightarrow> ulong \<Rightarrow> encoder \<Rightarrow> encoder option" where
  "put_longdoubles p l e = do {
     n \<leftarrow> loop_count l; xs \<leftarrow> mem_read p 0 n; enc_loop put_longdouble xs e }"

definition put_chars :: "octet list \<Rightarrow> ulong \<Rightarrow> encoder \<Rightarrow> encoder option" where
  "put_chars p l e = on_ebuf (Octet_Buffer.put p l) e"

definition put_chars_raw :: "octet list \<Rightarrow> ulong \<Rightarrow> encoder \<Rightarrow> encoder option" where
  "put_chars_raw p l e = on_ebuf (Octet_Buffer.put p l) e"

definition put_wchars :: "ulong list \<Rightarrow> ulong \<Rightarrow> encoder \<Rightarrow> encoder option" where
  "put_wchars p l e =
     on_ebuf (Octet_Buffer.put (concat (map (word_image (e_mach_bo e) 4) p)) (l * 4)) e"

definition put_booleans :: "octet list \<Rightarrow> ulong \<Rightarrow> encoder \<Rightarrow> encoder option" where
  "put_booleans p l e = on_ebuf (Octet_Buffer.put p l) e"

definition put_octets :: "octet list \<Rightarrow> ulong \<Rightarrow> encoder \<Rightarrow> encoder option" where
  "put_octets data len e = on_ebuf (Octet_Buffer.put data len) e"

definition put_buffer :: "buffer \<Rightarrow> encoder \<Rightarrow> encoder option" where
  "put_buffer b e = do { xs \<leftarrow> buf_data b; on_ebuf (Octet_Buffer.put xs (buf_length b)) e }"

text \<open>Reading an array: the elements the call stores through its pointer.\<close>

fun group :: "nat \<Rightarrow> nat \<Rightarrow> octet list \<Rightarrow> octet list list" where
  "group k 0 xs = []"
| "group k (Suc n) xs = take k xs # group k n (drop k xs)"

definition get_block_dec :: "ulong \<Rightarrow> octet list dec" where
  "get_block_dec l = on_dbuf (Octet_Buffer.get l)"

definition get_elems ::
    "nat \<Rightarrow> (octet list \<Rightarrow> octet list) \<Rightarrow> ulong \<Rightarrow> 'a::len word list dec" where
  "get_elems k swapk l d =
     (let bytes = word_of_nat k * l in
      if d_data_bo d = d_mach_bo d
      then dbind (get_block_dec bytes)
             (\<lambda>xs. dret (map (image_word (d_mach_bo d)) (group k (length xs div k) xs))) d
      else if buf_length (dbuf d) < bytes then dfail d
      else do {
        n \<leftarrow> loop_count l;
        xs \<leftarrow> mem_read (mem (dbuf d)) (unat (rptr (dbuf d))) (k * n);
        dret (map (\<lambda>x. image_word (d_mach_bo d) (swapk x)) (group k n xs))
          (d\<lparr>dbuf := snd (rseek_rel bytes (dbuf d))\<rparr>)
      })"

definition get_array ::
    "ulong \<Rightarrow> nat \<Rightarrow> (octet list \<Rightarrow> octet list) \<Rightarrow> ulong \<Rightarrow> 'a::len word list dec" where
  "get_array al k swapk l =
     dbind (dec_ralign al) (\<lambda>_. dbind check_chunk (\<lambda>_. get_elems k swapk l))"

definition get_shorts :: "ulong \<Rightarrow> ushort list dec" where
  "get_shorts = get_array 2 2 swap2"

definition get_ushorts :: "ulong \<Rightarrow> ushort list dec" where
  "get_ushorts = get_array 2 2 swap2"

definition get_longs :: "ulong \<Rightarrow> ulong list dec" where
  "get_longs = get_array 4 4 swap4"

definition get_longlongs :: "ulong \<Rightarrow> ulonglong list dec" where
  "get_longlongs = get_array 8 8 swap8"

definition get_ulongs :: "ulong \<Rightarrow> ulong list dec" where
  "get_ulongs = get_array 4 4 swap4"

definition get_ulonglongs :: "ulong \<Rightarrow> ulonglong list dec" where
  "get_ulonglongs = get_array 8 8 swap8"

text \<open>Floating point arrays: a block copy in machine order, otherwise one by one.\<close>

definition get_fparray ::
    "ulong \<Rightarrow> nat \<Rightarrow> 'a::len word dec \<Rightarrow> ulong \<Rightarrow> 'a word list dec" where
  "get_fparray al k one l =
     dbind (dec_ralign al) (\<lambda>_. dbind check_chunk (\<lambda>_ d.
       if d_data_bo d = d_mach_bo d
       then dbind (get_block_dec (word_of_nat k * l))
              (\<lambda>xs. dret (map (image_word (d_mach_bo d)) (group k (length xs div k) xs))) d
       else do { n \<leftarrow> loop_count l; dec_loop one n d }))"

definition get_floats :: "ulong \<Rightarrow> ulong list dec" where
  "get_floats = get_fparray 4 4 get_float"

definition get_doubles :: "ulong \<Rightarrow> ulonglong list dec" where
  "get_doubles = get_fparray 8 8 get_double"

definition get_longdoubles :: "ulong \<Rightarrow> 128 word list dec" where
  "get_longdoubles = get_fparray 8 16 get_longdouble"

definition get_chars :: "ulong \<Rightarrow> octet list dec" where
  "get_chars l = get_block_dec l"

definition get_chars_raw :: "ulong \<Rightarrow> octet list dec" where
  "get_chars_raw l = get_block_dec l"

definition get_wchars :: "ulong \<Rightarrow> ulong list dec" where
  "get_wchars l d =
     dbind (get_block_dec (l * 4))
       (\<lambda>xs. dret (map (image_word (d_mach_bo d)) (group 4 (length xs div 4) xs))) d"

definition get_booleans :: "ulong \<Rightarrow> octet list dec" where
  "get_booleans l = get_block_dec l"

definition get_octets :: "ulong \<Rightarrow> octet list dec" where
  "get_octets len = get_block_dec len"

section \<open>Strings\<close>

text \<open>\<open>strlen\<close>: the octets before the first zero; without one it runs out of the memory.\<close>

definition strlen :: "octet list \<Rightarrow> nat option" where
  "strlen s = (if 0 \<in> set s then Some (length (takeWhile (\<lambda>c. c \<noteq> 0) s)) else None)"

definition c_string :: "octet list \<Rightarrow> octet list option" where
  "c_string s = (if 0 \<in> set s then Some (takeWhile (\<lambda>c. c \<noteq> 0) s) else None)"

definition put_string :: "octet list \<Rightarrow> encoder \<Rightarrow> encoder option" where
  "put_string s e = do {
     slen \<leftarrow> strlen s;
     require (slen < 4294967295);
     let len = word_of_nat slen + 1;
     e \<leftarrow> put_ulong len e;
     put_octets s len e
   }"

definition put_string_raw :: "octet list \<Rightarrow> encoder \<Rightarrow> encoder option" where
  "put_string_raw s e = do {
     slen \<leftarrow> strlen s;
     require (slen < 4294967295);
     let len = word_of_nat slen + 1;
     e \<leftarrow> put_ulong len e;
     put_octets s len e
   }"

text \<open>The \<open>std::string\<close> overloads pass \<open>c_str ()\<close>.\<close>

definition put_string_stl :: "octet list \<Rightarrow> encoder \<Rightarrow> encoder option" where
  "put_string_stl s e = put_string (s @ [0]) e"

definition put_string_raw_stl :: "octet list \<Rightarrow> encoder \<Rightarrow> encoder option" where
  "put_string_raw_stl s e = put_string_raw (s @ [0]) e"

text \<open>The result is the allocated array: \<open>len\<close> octets, with or without a zero in them.\<close>

definition get_string :: "octet list dec" where
  "get_string =
     dbind get_ulong (\<lambda>len d.
       if len = 0 \<or> len > buf_length (dbuf d) then dfail d
       else on_dbuf (Octet_Buffer.get len) d)"

definition get_string_raw :: "octet list dec" where
  "get_string_raw =
     dbind get_ulong (\<lambda>len d.
       if len = 0 \<or> len > buf_length (dbuf d) then dfail d
       else dbind (on_dbuf (Octet_Buffer.get len)) (\<lambda>s.
         if s ! (unat len - 1) \<noteq> 0 then dfail else dret s) d)"

definition get_string_stl :: "octet list dec" where
  "get_string_stl =
     dbind get_string (\<lambda>s d. do { str \<leftarrow> c_string s; dret str d })"

definition get_string_raw_stl :: "octet list dec" where
  "get_string_raw_stl =
     dbind get_string_raw (\<lambda>s d. do { str \<leftarrow> c_string s; dret str d })"

text \<open>Wide strings: memory of 32-bit characters; each goes out as an \<open>unsigned short\<close>.\<close>

definition wcslen :: "ulong list \<Rightarrow> nat option" where
  "wcslen s = (if 0 \<in> set s then Some (length (takeWhile (\<lambda>c. c \<noteq> 0) s)) else None)"

definition put_wstring :: "ulong list \<Rightarrow> encoder \<Rightarrow> encoder option" where
  "put_wstring s e = do {
     slen \<leftarrow> wcslen s;
     require (slen < 4294967295);
     let len = (word_of_nat slen + 1 :: ulong);
     e \<leftarrow> put_ulong len e;
     xs \<leftarrow> mem_read s 0 (unat len);
     enc_loop put_ushort (map ucast xs) e
   }"

definition get_wstring :: "ulong list dec" where
  "get_wstring =
     dbind get_ulong (\<lambda>len d.
       if len = 0 \<or> unat len * 2 > unat (buf_length (dbuf d)) then dfail d
       else dbind (dec_loop get_ushort (unat len)) (\<lambda>us.
         let p = map ucast us
         in if p ! (unat len - 1) \<noteq> 0 then dfail else dret p) d)"

section \<open>Fixed-point digits\<close>

text \<open>
  \<open>value\<close> holds the digits, most significant first, and the sign last. The loop packs two digits
  per octet; the last digit shares its octet with the sign.
\<close>

fun put_digit_pairs :: "octet list \<Rightarrow> encoder \<Rightarrow> encoder option" where
  "put_digit_pairs [d, s] e = put_octet (or (push_bit 4 d) (if s \<noteq> 0 then 0xd else 0xc)) e"
| "put_digit_pairs (a # b # v) e = do {
     e \<leftarrow> put_octet (or (push_bit 4 a) b) e;
     put_digit_pairs v e
   }"
| "put_digit_pairs _ e = None"

definition put_fixed :: "octet list \<Rightarrow> ushort \<Rightarrow> ushort \<Rightarrow> encoder \<Rightarrow> encoder option" where
  "put_fixed v digits scale e = do {
     require (length v = unat digits + 1);
     let n = length v;
     if n = 1 then put_octet (if v ! 0 \<noteq> 0 then 0xd else 0xc) e
     else if odd n then do { e \<leftarrow> put_octet (v ! 0) e; put_digit_pairs (drop 1 v) e }
     else put_digit_pairs v e
   }"

fun get_digit_pairs :: "nat \<Rightarrow> octet list dec" where
  "get_digit_pairs 0 = dbind get_octet (\<lambda>o1.
     dret [and (drop_bit 4 o1) 0xf, (if and o1 0xf = 0xd then 1 else 0)])"
| "get_digit_pairs (Suc n) = dbind get_octet (\<lambda>o1. dbind (get_digit_pairs n) (\<lambda>v.
     dret (and (drop_bit 4 o1) 0xf # and o1 0xf # v)))"

definition get_fixed :: "ushort \<Rightarrow> ushort \<Rightarrow> octet list dec" where
  "get_fixed digits scale =
     (let n = unat digits + 1 in
      if n = 1 then dbind get_octet (\<lambda>o1. dret [if and o1 0xf = 0xd then 1 else 0])
      else if odd n
      then dbind get_octet (\<lambda>o1. dbind (get_digit_pairs ((n - 1) div 2 - 1)) (\<lambda>v.
             dret (and o1 0xf # v)))
      else get_digit_pairs (n div 2 - 1))"

section \<open>What the array operations do\<close>

lemma loop_count_small: "unat l < 2147483648 \<Longrightarrow> loop_count l = Some (unat l)"
  using sint_ulong_small [of l] by (auto simp: loop_count_def simp del: of_nat_unat)

lemma unat_mult_nowrap:
  fixes k l :: ulong
  shows "unat k * unat l < 4294967296 \<Longrightarrow> unat (k * l) = unat k * unat l"
  using unat_mult_lem [of k l] by simp

lemma length_concat_const: "(\<And>x. x \<in> set xs \<Longrightarrow> length x = k) \<Longrightarrow> length (concat xs) = k * length xs"
  by (induction xs) auto

lemma swap_store_eq:
  "at + length (concat (map swapk xs)) \<le> length m \<Longrightarrow>
   swap_store swapk xs at m = mem_write m at (concat (map swapk xs))"
proof (induction xs arbitrary: at m)
  case (Cons x xs)
  let ?y = "swapk x" and ?ys = "concat (map swapk xs)"
  let ?m = "take at m @ ?y @ drop (at + length ?y) m"
  from Cons.prems have len: "length ?m = length m" by simp
  have "swap_store swapk (x # xs) at m = swap_store swapk xs (at + length ?y) ?m"
    using Cons.prems by (simp add: mem_simps)
  also have "\<dots> = mem_write ?m (at + length ?y) ?ys"
    using Cons.prems len by (intro Cons.IH) simp
  also have "\<dots> = Some (take at m @ ?y @ ?ys @ drop (at + length ?y + length ?ys) m)"
    using Cons.prems by (simp add: mem_simps add.commute add.left_commute)
  finally show ?case using Cons.prems by (simp add: mem_simps add.assoc)
qed (simp add: mem_write_def)

lemma swap_path_writes:
  assumes wf: "buf_wf b" and n: "unat (wptr b) + length ys < 4294967295"
    and k: "unat kl = length ys"
  shows "\<exists>c m b'. resize kl b = Some c \<and> mem_write (mem c) (unat (wptr c)) ys = Some m \<and>
     wseek_rel kl (c\<lparr>mem := m\<rparr>) = Some b' \<and> writes b ys b'"
proof -
  obtain c where c: "resize kl b = Some c" "writes b [] c"
    "unat (wptr b) + unat kl \<le> unat (blen c)"
    using resize_writes [OF wf, of kl] n k by auto
  then have wc: "buf_wf c" and wp: "unat (wptr c) = unat (wptr b)" by (auto simp: writes_def)
  then obtain b' where b': "store_octets ys c = Some b'" "writes c ys b'"
    using store_octets_writes [OF wc, of ys] c(3) k by auto
  then obtain m where m: "mem_write (mem c) (unat (wptr c)) ys = Some m"
    and e: "b' = c\<lparr>mem := m, wptr := wptr c + word_of_nat (length ys)\<rparr>"
    by (auto simp: store_octets_def elim!: bind_cases)
  have kl: "word_of_nat (length ys) = kl" unfolding k [symmetric] by simp
  have "wseek_rel kl (c\<lparr>mem := m\<rparr>) = Some b'"
  proof -
    have "buf_wf b'" using b'(2) by auto
    then show ?thesis using e by (simp add: wseek_rel_def buf_wf_def kl)
  qed
  with c m writes_trans [OF c(2) b'(2)] show ?thesis by auto
qed

lemma length_images [simp]:
  "length (concat (map (word_image bo k) vs)) = k * length vs"
  by (subst length_concat_const [of _ k]) auto

lemma put_elems_emits:
  fixes vs :: "'a::len word list"
  assumes ok: "enc_ok e" and l: "unat l = length vs" and small: "length vs < 2147483648"
    and room: "has_room (unat k * length vs) e"
    and swapk: "\<And>xs. length xs = unat k \<Longrightarrow> swapk xs = rev xs"
  shows "\<exists>e'. put_elems k swapk (map (word_image (e_mach_bo e) (unat k)) vs) l e = Some e' \<and>
     emits e (concat (map (word_image (e_data_bo e) (unat k)) vs)) e'"
proof -
  let ?p = "map (word_image (e_mach_bo e) (unat k)) vs"
  let ?ys = "concat (map (word_image (e_data_bo e) (unat k)) vs)"
  have lt: "unat (wptr (ebuf e)) + unat k * length vs < 4294967295"
    using room by (simp add: has_room_def)
  then have kl: "unat (k * l) = unat k * length vs"
    using l unat_mult_nowrap [of k l] by simp
  have wf: "buf_wf (ebuf e)" using ok by (simp add: enc_ok_def)
  show ?thesis
  proof (cases "e_mach_bo e = e_data_bo e")
    case True
    obtain b where "Octet_Buffer.put (concat ?p) (k * l) (ebuf e) = Some b"
      "writes (ebuf e) (concat ?p) b"
      using put_writes [OF wf, of "k * l" "concat ?p"] lt kl by auto
    with True show ?thesis by (auto simp: put_elems_def on_ebuf_def emits_def)
  next
    case False
    have "swapk (word_image (e_mach_bo e) (unat k) v) = word_image (e_data_bo e) (unat k) v" for v :: "'a word"
      using False ok by (simp add: swapk) (simp add: word_image_def rev_image enc_ok_def)
    then have sw: "concat (map swapk ?p) = ?ys" by (simp add: comp_def)
    obtain c m b' where c: "resize (k * l) (ebuf e) = Some c"
      "mem_write (mem c) (unat (wptr c)) ?ys = Some m"
      "wseek_rel (k * l) (c\<lparr>mem := m\<rparr>) = Some b'" "writes (ebuf e) ?ys b'"
      using swap_path_writes [OF wf, of ?ys "k * l"] lt kl by auto
    have "swap_store swapk ?p (unat (wptr c)) (mem c) = Some m"
      using mem_write_SomeD [OF c(2)] c(2) by (simp only: sw swap_store_eq)
    moreover have "loop_count l = Some (length vs)"
      using l small loop_count_small [of l] by simp
    moreover have "mem_read ?p 0 (length vs) = Some ?p" by (simp add: mem_read_def)
    ultimately show ?thesis using False c
      by (auto simp: put_elems_def on_ebuf_def emits_def)
  qed
qed

lemma put_array_emits:
  fixes vs :: "'a::len word list"
  assumes ok: "enc_ok e" and al: "1 \<le> al"
    and l: "unat l = length vs" and small: "length vs < 2147483648"
    and room: "has_room (unat al + unat k * length vs) e"
    and swapk: "\<And>xs. length xs = unat k \<Longrightarrow> swapk xs = rev xs"
  shows "\<exists>e'. put_array al k swapk (map (word_image (e_mach_bo e) (unat k)) vs) l e = Some e' \<and>
     emits e (pad (woffe e) (unat al) @ concat (map (word_image (e_data_bo e) (unat k)) vs)) e'"
proof -
  obtain f where f: "on_ebuf (walign al) e = Some f" "emits e (pad (woffe e) (unat al)) f"
    using walign_emits [OF ok al] room has_room_mono by (metis le_add1)
  note ff = emits_fields [OF f(2)]
  have "padlen (woffe e) (unat al) < unat al"
    using al by (intro padlen_less) (simp add: word_le_nat_alt)
  then have "has_room (unat k * length vs) f"
    using room by (intro has_room_emits [OF f(2)]) (auto intro: has_room_mono)
  from put_elems_emits [OF emits_ok [OF f(2) ok] l small this swapk]
  obtain g where "put_elems k swapk (map (word_image (e_mach_bo e) (unat k)) vs) l f = Some g"
    "emits f (concat (map (word_image (e_data_bo e) (unat k)) vs)) g"
    by (auto simp: ff(1,2))
  then show ?thesis using f(1) emits_trans [OF f(2)] by (auto simp: put_array_def)
qed

lemma group_concat:
  "(\<And>x. x \<in> set xs \<Longrightarrow> length x = k) \<Longrightarrow> group k (length xs) (concat xs @ rest) = xs"
  by (induction xs) auto

lemma map_image_word:
  fixes vs :: "'a::len word list"
  assumes "2 ^ LENGTH('a) \<le> (256 :: nat) ^ k"
  shows "map (image_word bo) (map (word_image bo k) vs) = vs"
  using image_word_image [OF assms] by (induction vs) (auto simp: word_image_def)

lemma group_images:
  "group k (length vs) (concat (map (word_image bo k) vs)) = map (word_image bo k) vs"
  using group_concat [of "map (word_image bo k) vs" k "[]"] by fastforce

lemma get_elems_consumes:
  fixes vs :: "'a::len word list"
  assumes ok: "dec_ok d" and l: "unat l = length vs" and small: "length vs < 2147483648"
    and k: "0 < k" "k < 256"
    and oct: "octets (dbuf d) = concat (map (word_image (d_data_bo d) k) vs) @ rest"
    and swapk: "\<And>xs. length xs = k \<Longrightarrow> swapk xs = rev xs"
    and len: "2 ^ LENGTH('a) \<le> (256 :: nat) ^ k"
  shows "\<exists>d'. get_elems k swapk l d = Some (Some vs, d') \<and>
     consumes d (concat (map (word_image (d_data_bo d) k) vs)) d'"
proof -
  let ?ys = "concat (map (word_image (d_data_bo d) k) vs)"
  have wf: "buf_wf (dbuf d)" using ok by (simp add: dec_ok_def)
  have "k * length vs < 4294967296" using octets_lt [OF wf] oct by simp
  then have kl: "unat (word_of_nat k * l) = k * length vs"
    using unat_mult_nowrap [of "word_of_nat k" l] l k by (simp add: nowrap)
  obtain b where b: "Octet_Buffer.get (word_of_nat k * l) (dbuf d) = Some (Some ?ys, b)"
    "reads (dbuf d) ?ys b"
    using get_reads [OF wf, of "word_of_nat k * l"] oct kl by auto
  show ?thesis
  proof (cases "d_data_bo d = d_mach_bo d")
    case True
    have "map (image_word (d_mach_bo d)) (group k (length ?ys div k) ?ys) = vs"
      using k map_image_word [OF len, of "d_mach_bo d" vs] True by (simp add: group_images)
    with True b show ?thesis
      by (auto simp: get_elems_def dbind_def Let_def get_block_dec_def on_dbuf_def dret_def
          consumes_def)
  next
    case False
    have wl: "word_of_nat (length vs) = l" unfolding l [symmetric] by simp
    have e: "b = (dbuf d)\<lparr>rptr := rptr (dbuf d) + word_of_nat k * l\<rparr>"
      and tk: "mem_read (mem (dbuf d)) (unat (rptr (dbuf d))) (k * length vs) = Some ?ys"
      using b(1) kl by (auto simp: wl Octet_Buffer.get_def take_octets_def split: if_splits elim!: bind_cases)
    have "rptr (dbuf d) + word_of_nat k * l \<le> wptr (dbuf d)"
      using b(2) e by (auto simp: reads_def buf_wf_def)
    then have b': "snd (rseek_rel (word_of_nat k * l) (dbuf d)) = b"
      using e by (simp add: rseek_rel_def not_less)
    have nshort: "\<not> buf_length (dbuf d) < word_of_nat k * l"
      using oct kl by (simp add: word_less_nat_alt unat_buf_length [OF wf])
    have "swapk (word_image (d_data_bo d) k v) = word_image (d_mach_bo d) k v" for v :: "'a word"
      using False ok by (simp add: swapk) (simp add: word_image_def rev_image dec_ok_def)
    then have "map (\<lambda>x. image_word (d_mach_bo d) (swapk x)) (group k (length vs) ?ys) = vs"
      using map_image_word [OF len, of "d_mach_bo d" vs] by (simp add: group_images comp_def)
    moreover have lc: "loop_count l = Some (length vs)"
      using l small loop_count_small [of l] by simp
    ultimately have "get_elems k swapk l d = Some (Some vs, d\<lparr>dbuf := b\<rparr>)"
      using False nshort by (simp add: get_elems_def Let_def dret_def lc tk b' del: of_nat_mult)
    moreover have "consumes d ?ys (d\<lparr>dbuf := b\<rparr>)"
      unfolding consumes_def using b(2) by blast
    ultimately show ?thesis by blast
  qed
qed

lemma get_array_consumes:
  fixes vs :: "'a::len word list"
  assumes ok: "dec_ok d" and al: "1 \<le> al"
    and l: "unat l = length vs" and small: "length vs < 2147483648"
    and k: "0 < k" "k < 256"
    and oct: "octets (dbuf d) = ps @ concat (map (word_image (d_data_bo d) k) vs) @ rest"
    and ps: "length ps = padlen (roffd d) (unat al)" and calm: "calm (length ps + 1) d"
    and swapk: "\<And>xs. length xs = k \<Longrightarrow> swapk xs = rev xs"
    and len: "2 ^ LENGTH('a) \<le> (256 :: nat) ^ k"
  shows "\<exists>d'. get_array al k swapk l d = Some (Some vs, d') \<and>
     consumes d (ps @ concat (map (word_image (d_data_bo d) k) vs)) d'"
proof -
  obtain f where f: "dec_ralign al d = Some (Some (), f)" "consumes d ps f"
    using ralign_consumes [OF ok al oct ps] by auto
  note ff = consumes_fields [OF f(2)]
  have "calm 1 f" using calm_consumes [OF f(2), of 1] calm by simp
  then have c: "check_chunk f = Some (Some (), f)" by (rule check_chunk_calm) simp
  have "octets (dbuf f) = concat (map (word_image (d_data_bo f) k) vs) @ rest"
    using ff(5) oct by (simp add: ff(1))
  then have "\<exists>g. get_elems k swapk l f = Some (Some vs, g) \<and>
      consumes f (concat (map (word_image (d_data_bo f) k) vs)) g"
    by (rule get_elems_consumes [OF consumes_ok [OF f(2) ok] l small k _ swapk len])
  then obtain g where g: "get_elems k swapk l f = Some (Some vs, g)"
    "consumes f (concat (map (word_image (d_data_bo d) k) vs)) g"
    by (auto simp: ff(1))
  have "get_array al k swapk l d = Some (Some vs, g)"
    by (simp add: get_array_def dbind_def f(1) c g(1))
  then show ?thesis using consumes_trans [OF f(2) g(2)] by blast
qed

section \<open>Strings\<close>

text \<open>A string without a zero octet, followed by its terminator.\<close>

lemma takeWhile_terminated:
  "0 \<notin> set s \<Longrightarrow> takeWhile (\<lambda>c. c \<noteq> 0) (s @ 0 # rest) = (s :: 'a::zero list)"
  by (induction s) auto

lemma strlen_terminated: "0 \<notin> set s \<Longrightarrow> strlen (s @ [0]) = Some (length s)"
  by (simp add: strlen_def takeWhile_terminated)

lemma c_string_terminated: "0 \<notin> set s \<Longrightarrow> c_string (s @ 0 # rest) = Some s"
  by (simp add: c_string_def takeWhile_terminated)

lemma put_octets_emits:
  assumes "enc_ok e" and "unat l = length xs" and "has_room (length xs) e"
  shows "\<exists>e'. put_octets xs l e = Some e' \<and> emits e xs e'"
proof -
  obtain b where "Octet_Buffer.put xs l (ebuf e) = Some b" "writes (ebuf e) xs b"
    using put_writes [of "ebuf e" l xs] assms by (auto simp: enc_ok_def has_room_def)
  then show ?thesis by (auto simp: put_octets_def on_ebuf_def emits_def)
qed

definition string_image :: "byteorder \<Rightarrow> octet list \<Rightarrow> octet list" where
  "string_image bo s = word_image bo 4 (word_of_nat (length s + 1) :: ulong) @ s @ [0]"

lemma put_string_emits:
  assumes ok: "enc_ok e" and s: "0 \<notin> set s" and room: "has_room (9 + length s) e"
  shows "\<exists>e'. put_string (s @ [0]) e = Some e' \<and>
      emits e (pad (woffe e) 4 @ string_image (e_data_bo e) s) e'"
    and "put_string_raw = put_string"
proof -
  have lt: "length s + 9 < 4294967295" using room by (simp add: has_room_def)
  let ?len = "word_of_nat (length s) + 1 :: ulong"
  have len: "?len = word_of_nat (length s + 1)" by (simp add: add.commute)
  have ul: "unat ?len = length (s @ [0])"
    using lt by (simp add: len nowrap del: of_nat_add of_nat_Suc)
  have "has_room (4 + 4) e" using room by (rule has_room_mono) simp
  then obtain f where f: "put_ulong ?len e = Some f"
    "emits e (pad (woffe e) 4 @ word_image (e_data_bo e) 4 ?len) f"
    using ulong.put_law [OF ok] by blast
  have "padlen (woffe e) 4 < 4" by (rule padlen_less) simp
  then have "has_room (length (s @ [0])) f"
    by (intro has_room_emits [OF f(2)] has_room_mono [OF room]) simp
  then obtain g where g: "put_octets (s @ [0]) ?len f = Some g" "emits f (s @ [0]) g"
    using put_octets_emits [OF emits_ok [OF f(2) ok] ul] by auto
  have "put_string (s @ [0]) e = Some g"
    using lt by (simp add: put_string_def strlen_terminated [OF s] f(1) g(1) Let_def)
  then show "\<exists>e'. put_string (s @ [0]) e = Some e' \<and>
      emits e (pad (woffe e) 4 @ string_image (e_data_bo e) s) e'"
    using emits_trans [OF f(2) g(2)] by (auto simp: string_image_def len)
  show "put_string_raw = put_string" by (simp add: fun_eq_iff put_string_def put_string_raw_def)
qed

text \<open>What the two string reads do with an announced length and that many octets.\<close>

lemma get_string_consumes:
  assumes ok: "dec_ok d" and ps: "length ps = padlen (roffd d) 4" and calm: "calm (length ps + 4) d"
    and oct: "octets (dbuf d) = ps @ word_image (d_data_bo d) 4 (len :: ulong) @ xs @ rest"
    and len: "unat len = length xs" "xs \<noteq> []"
  shows "\<exists>d'. get_string d = Some (Some xs, d') \<and>
      get_string_raw d = Some (if last xs = 0 then Some xs else None, d') \<and>
      consumes d (ps @ word_image (d_data_bo d) 4 len @ xs) d'"
proof -
  obtain f where f: "get_ulong d = Some (Some len, f)"
    "consumes d (ps @ word_image (d_data_bo d) 4 len) f"
    using ulong.get_law [OF ok oct ps calm] by blast
  have octf: "octets (dbuf f) = xs @ rest" using consumes_fields(5) [OF f(2)] oct by simp
  have wf: "buf_wf (dbuf f)" by (rule consumes_fields(9) [OF f(2)])
  obtain b where b: "Octet_Buffer.get len (dbuf f) = Some (Some xs, b)" "reads (dbuf f) xs b"
    using get_reads [OF wf, of len] octf len by auto
  have nz: "len \<noteq> 0" "\<not> len > buf_length (dbuf f)"
    using len octf by (auto simp: word_less_nat_alt unat_buf_length [OF wf])
  have "consumes f xs (f\<lparr>dbuf := b\<rparr>)" using b(2) by (auto simp: consumes_def)
  from consumes_trans [OF f(2) this] show ?thesis
    using nz b(1) len by (auto simp: get_string_def get_string_raw_def dbind_def f(1)
        on_dbuf_def dret_def dfail_def last_conv_nth)
qed

section \<open>Fixed-point digits\<close>

lemma nibble_bits: "(a :: octet) < 16 \<Longrightarrow> bit a n \<Longrightarrow> n < 4"
proof -
  assume a: "a < 16" "bit a n"
  then have "take_bit 4 a = a"
    using less_mask_eq [of a 4] by (simp add: take_bit_eq_mask)
  then show ?thesis using a(2) by (metis bit_take_bit_iff)
qed

lemma nibbles:
  assumes "(a :: octet) < 16" and "b < 16"
  shows "and (drop_bit 4 (or (push_bit 4 a) b)) 0xf = a" and "and (or (push_bit 4 a) b) 0xf = b"
    and "and a 0xf = a"
proof -
  have m: "(0xf :: octet) = mask 4" by (simp add: mask_eq_exp_minus_1)
  note n = nibble_bits [OF assms(1)] nibble_bits [OF assms(2)]
  show "and (drop_bit 4 (or (push_bit 4 a) b)) 0xf = a"
    unfolding m by (rule bit_word_eqI) (auto simp: bit_simps not_le dest: n)
  show "and (or (push_bit 4 a) b) 0xf = b"
    unfolding m by (rule bit_word_eqI) (auto simp: bit_simps not_le dest: n)
  show "and a 0xf = a"
    unfolding m by (rule bit_word_eqI) (auto simp: bit_simps not_le dest: n)
qed

text \<open>Digits below 16 with a sign of 0 or 1 at the end, and the octets that hold them.\<close>

definition fixed_value :: "octet list \<Rightarrow> bool" where
  "fixed_value v \<longleftrightarrow> v \<noteq> [] \<and> (\<forall>x \<in> set v. x < 16) \<and> (last v = 0 \<or> last v = 1)"

fun digit_pairs :: "octet list \<Rightarrow> octet list" where
  "digit_pairs [d, s] = [or (push_bit 4 d) (if s \<noteq> 0 then 0xd else 0xc)]"
| "digit_pairs (a # b # v) = or (push_bit 4 a) b # digit_pairs v"
| "digit_pairs _ = []"

definition fixed_image :: "octet list \<Rightarrow> octet list" where
  "fixed_image v =
     (if length v = 1 then [if v ! 0 \<noteq> 0 then 0xd else 0xc]
      else if odd (length v) then v ! 0 # digit_pairs (drop 1 v) else digit_pairs v)"

lemma length_digit_pairs: "length (digit_pairs v) \<le> length v"
  by (induction v rule: digit_pairs.induct) auto

lemma length_fixed_image: "v \<noteq> [] \<Longrightarrow> length (fixed_image v) \<le> length v"
  using length_digit_pairs [of v] length_digit_pairs [of "drop 1 v"]
  by (cases v) (auto simp: fixed_image_def)

lemma put_digit_pairs_emits:
  "enc_ok e \<Longrightarrow> even (length v) \<Longrightarrow> v \<noteq> [] \<Longrightarrow> has_room (2 + length v) e \<Longrightarrow>
   \<exists>e'. put_digit_pairs v e = Some e' \<and> emits e (digit_pairs v) e'"
proof (induction v arbitrary: e rule: digit_pairs.induct)
  case (1 d s)
  have "has_room 2 e" using 1(4) by (rule has_room_mono) simp
  then show ?case using octet_laws(1) [OF 1(1)] by simp
next
  case (2 a b c v)
  have "has_room 2 e" using 2(5) by (rule has_room_mono) simp
  then obtain f where f: "put_octet (or (push_bit 4 a) b) e = Some f"
    "emits e [or (push_bit 4 a) b] f"
    using octet_laws(1) [OF 2(2)] by blast
  have "has_room (2 + length (c # v)) f"
    by (rule has_room_emits [OF f(2)], rule has_room_mono [OF 2(5)]) simp
  moreover have "even (length (c # v))" using 2(3) by simp
  ultimately obtain g where "put_digit_pairs (c # v) f = Some g"
    "emits f (digit_pairs (c # v)) g"
    using 2(1) [OF emits_ok [OF f(2) 2(2)]] by blast
  then show ?case using f(1) emits_trans [OF f(2)] by fastforce
qed auto

lemma get_digit_pairs_consumes:
  "dec_ok d \<Longrightarrow> octets (dbuf d) = digit_pairs v @ rest \<Longrightarrow> length v = 2 * n + 2 \<Longrightarrow>
   fixed_value v \<Longrightarrow>
   \<exists>d'. get_digit_pairs n d = Some (Some v, d') \<and> consumes d (digit_pairs v) d'"
proof (induction n arbitrary: v d)
  case 0
  then obtain a s where v: "v = [a, s]" by (auto simp: numeral_2_eq_2 length_Suc_conv)
  let ?x = "or (push_bit 4 a) (if s \<noteq> 0 then 0xd else 0xc)"
  have a: "a < 16" and s: "s = 0 \<or> s = 1" using 0 v by (auto simp: fixed_value_def)
  obtain f where "get_octet d = Some (Some ?x, f)" "consumes d [?x] f"
    using octet_laws(2) [OF 0(1)] 0(2) v by fastforce
  then show ?case using s nibbles [OF a] by (auto simp: v dbind_def dret_def)
next
  case (Suc n)
  then obtain a b v' where v: "v = a # b # v'" and n: "length v' = 2 * n + 2"
    by (cases v; cases "tl v") auto
  then obtain c w where c: "v' = c # w" by (cases v') auto
  define x where "x = or (push_bit 4 a) b"
  have dp: "digit_pairs v = x # digit_pairs v'" by (simp add: v c x_def)
  have "a < 16" "b < 16" using Suc.prems(4) v by (auto simp: fixed_value_def)
  note ab = nibbles [OF this, folded x_def]
  obtain f where f: "get_octet d = Some (Some x, f)" "consumes d [x] f"
    using octet_laws(2) [OF Suc.prems(1)] Suc.prems(2) dp by fastforce
  have "octets (dbuf f) = digit_pairs v' @ rest"
    using consumes_fields(5) [OF f(2)] Suc.prems(2) by (simp add: dp)
  moreover have "fixed_value v'" using Suc.prems(4) v c by (auto simp: fixed_value_def)
  ultimately obtain g where g: "get_digit_pairs n f = Some (Some v', g)"
    "consumes f (digit_pairs v') g"
    using Suc.IH [OF consumes_ok [OF f(2) Suc.prems(1)] _ n] by blast
  have "get_digit_pairs (Suc n) d = Some (Some v, g)"
    by (simp add: dbind_def f(1) g(1) ab(1,2) dret_def v)
  then show ?case using consumes_trans [OF f(2) g(2)] by (auto simp: dp)
qed

lemma put_fixed_emits:
  assumes ok: "enc_ok e" and v: "fixed_value v" "length v = unat digits + 1"
    and room: "has_room (3 + length v) e"
  shows "\<exists>e'. put_fixed v digits scale e = Some e' \<and> emits e (fixed_image v) e'"
proof (cases "length v = 1 \<or> even (length v)")
  case True
  have "has_room 2 e" "has_room (2 + length v) e" using room by (auto intro: has_room_mono)
  with True show ?thesis
    using v octet_laws(1) [OF ok] put_digit_pairs_emits [OF ok, of v]
    by (auto simp: put_fixed_def fixed_image_def fixed_value_def)
next
  case False
  then obtain a w where vw: "v = a # w" "w \<noteq> []" "even (length w)" by (cases v) auto
  have "has_room 2 e" using room by (rule has_room_mono) simp
  then obtain f where f: "put_octet a e = Some f" "emits e [a] f"
    using octet_laws(1) [OF ok] by blast
  have "has_room (2 + length w) f"
    by (rule has_room_emits [OF f(2)], rule has_room_mono [OF room]) (simp add: vw)
  then obtain g where g: "put_digit_pairs w f = Some g" "emits f (digit_pairs w) g"
    using put_digit_pairs_emits [OF emits_ok [OF f(2) ok]] vw by blast
  have "put_fixed v digits scale e = Some g"
    using v(2) vw f(1) g(1) by (cases w) (simp_all add: put_fixed_def)
  moreover have "fixed_image v = [a] @ digit_pairs w" using vw by (simp add: fixed_image_def)
  ultimately show ?thesis using emits_trans [OF f(2) g(2)] by simp
qed

lemma get_fixed_consumes_image:
  assumes ok: "dec_ok d" and v: "fixed_value v" "length v = unat digits + 1"
    and oct: "octets (dbuf d) = fixed_image v @ rest"
  shows "\<exists>d'. get_fixed digits scale d = Some (Some v, d') \<and> consumes d (fixed_image v) d'"
proof (cases "odd (length v)")
  case False
  then obtain n where n: "length v = 2 * n + 2" using v by (cases v; cases "tl v") (auto elim!: evenE oddE)
  then have "get_fixed digits scale = get_digit_pairs n"
    using v(2) by (auto simp: get_fixed_def Let_def)
  moreover have "fixed_image v = digit_pairs v" using False n by (simp add: fixed_image_def)
  ultimately show ?thesis using get_digit_pairs_consumes [OF ok _ n v(1)] oct by simp
next
  case True
  then obtain a w where vw: "v = a # w" "even (length w)" by (cases v) auto
  define x where "x = (if w = [] then if a \<noteq> 0 then 0xd else 0xc else a)"
  have fi: "fixed_image v = x # (if w = [] then [] else digit_pairs w)"
    using vw by (auto simp: fixed_image_def x_def)
  obtain f where f: "get_octet d = Some (Some x, f)" "consumes d [x] f"
    using octet_laws(2) [OF ok] oct by (auto simp: fi)
  show ?thesis
  proof (cases "w = []")
    case True
    then have "a = 0 \<or> a = 1" using v(1) vw by (auto simp: fixed_value_def)
    then show ?thesis using True f v(2) vw fi
      by (auto simp: get_fixed_def Let_def dbind_def dret_def x_def)
  next
    case False
    obtain n where n: "length w = 2 * n + 2"
      using False vw(2) by (cases w; cases "tl w") (auto elim!: evenE oddE)
    have "fixed_value w" "a < 16" using v(1) vw(1) False by (auto simp: fixed_value_def)
    moreover have "octets (dbuf f) = digit_pairs w @ rest"
      using consumes_fields(5) [OF f(2)] oct False by (simp add: fi)
    ultimately obtain g where g: "get_digit_pairs n f = Some (Some w, g)"
      "consumes f (digit_pairs w) g"
      using get_digit_pairs_consumes [OF consumes_ok [OF f(2) ok] _ n] by blast
    have "unat digits = 2 * n + 2" using v(2) vw(1) n by simp
    then have "get_fixed digits scale d = Some (Some v, g)"
      using f(1) g(1) nibbles(3) [OF \<open>a < 16\<close> \<open>a < 16\<close>] False vw(1)
      by (simp add: get_fixed_def Let_def dbind_def dret_def x_def)
    then show ?thesis using consumes_trans [OF f(2) g(2)] False by (auto simp: fi)
  qed
qed

end
