(* ===== verification/CDR_Sequences.thy ===== *)
theory CDR_Sequences
  imports CDR_Arrays
begin

text \<open>
  The array operations of the CDR codec as an interface over the primitive types: an array put
  lays out what the loop of single puts lays out, and an array get reads it, so arrays written
  either way are read either way. Every array pair of the codec is an interpretation. The
  properties of arrays, strings and fixed-point values close the theory.
\<close>

section \<open>Layout of aligned elements\<close>

lemma padlen_dvd: "0 < al \<Longrightarrow> al dvd p \<Longrightarrow> padlen p al = 0"
  by (simp add: padlen_def)

lemma padlen_aligned: "0 < al \<Longrightarrow> al dvd n \<Longrightarrow> al dvd p + padlen p al + n"
  using padlen_mod [of al p] by (metis dvd_add mod_eq_0_iff_dvd)

lemma layout_aligned:
  assumes "0 < al" and "al dvd n" and "\<And>v. length (im v) = n"
  shows "al dvd p \<Longrightarrow> layout al im p vs = concat (map im vs)"
  by (induction vs arbitrary: p) (simp_all add: Let_def pad_def padlen_dvd assms)

lemma layout_first:
  assumes "0 < al" and "al dvd n" and "\<And>v. length (im v) = n" and "vs \<noteq> []"
  shows "layout al im p vs = pad p al @ concat (map im vs)"
proof -
  obtain v us where vs: "vs = v # us" using assms(4) by (cases vs) auto
  have "al dvd p + (padlen p al + n)" using padlen_aligned [OF assms(1,2), of p] by (simp add: add.assoc)
  then have "layout al im (p + (padlen p al + n)) us = concat (map im us)"
    by (rule layout_aligned [OF assms(1-3)])
  then show ?thesis using assms(3) by (simp add: vs Let_def)
qed

lemma length_images_const: "(\<And>v. length (im v) = n) \<Longrightarrow> length (concat (map im vs)) = n * length vs"
  by (induction vs) auto

section \<open>The interface of an array\<close>

locale cdr_array = cdr_scalar al n img pt gt
  for al n :: nat
    and img :: "byteorder \<Rightarrow> 'v \<Rightarrow> octet list"
    and pt :: "'v \<Rightarrow> encoder \<Rightarrow> encoder option"
    and gt :: "'v dec" +
  fixes pa :: "'v list \<Rightarrow> ulong \<Rightarrow> encoder \<Rightarrow> encoder option"
    and ga :: "ulong \<Rightarrow> 'v list dec"
  assumes al_dvd: "al dvd n"
    and pa_law: "enc_ok e \<Longrightarrow> vs \<noteq> [] \<Longrightarrow> unat l = length vs \<Longrightarrow> length vs < 2147483648 \<Longrightarrow>
      has_room ((al + n) * length vs) e \<Longrightarrow>
      \<exists>e'. pa vs l e = Some e' \<and>
        emits e (pad (woffe e) al @ concat (map (img (e_data_bo e)) vs)) e'"
    and ga_law: "dec_ok d \<Longrightarrow> vs \<noteq> [] \<Longrightarrow> unat l = length vs \<Longrightarrow> length vs < 2147483648 \<Longrightarrow>
      octets (dbuf d) = pad (roffd d) al @ concat (map (img (d_data_bo d)) vs) @ rest \<Longrightarrow>
      calm (length (pad (roffd d) al @ concat (map (img (d_data_bo d)) vs))) d \<Longrightarrow>
      \<exists>d'. ga l d = Some (Some vs, d') \<and>
        consumes d (pad (roffd d) al @ concat (map (img (d_data_bo d)) vs)) d'"
begin

lemma layout_eq: "vs \<noteq> [] \<Longrightarrow> layout al (img bo) p vs = pad p al @ concat (map (img bo) vs)"
  by (rule layout_first [OF al_pos al_dvd img_length])

text \<open>The array put is the loop of single puts, octet for octet.\<close>

lemma put_is_loop:
  assumes "enc_ok e" and "vs \<noteq> []" and "unat l = length vs" and "length vs < 2147483648"
    and "has_room ((al + n) * length vs) e"
  shows "\<exists>e1 e2 xs. pa vs l e = Some e1 \<and> enc_loop pt vs e = Some e2 \<and>
     emits e xs e1 \<and> emits e xs e2"
  using pa_law [OF assms] put_seq [OF assms(1,5)] layout_eq [OF assms(2)] by fastforce

text \<open>Octets of such an array are read alike by the array get and by the loop of single gets.\<close>

lemma get_is_loop:
  assumes "dec_ok d" and "vs \<noteq> []" and "unat l = length vs" and "length vs < 2147483648"
    and "octets (dbuf d) = layout al (img (d_data_bo d)) (roffd d) vs @ rest"
    and "calm (length (layout al (img (d_data_bo d)) (roffd d) vs)) d"
  shows "\<exists>d1 d2. ga l d = Some (Some vs, d1) \<and> dec_loop gt (unat l) d = Some (Some vs, d2) \<and>
     octets (dbuf d1) = rest \<and> octets (dbuf d2) = rest"
proof -
  let ?xs = "layout al (img (d_data_bo d)) (roffd d) vs"
  obtain d1 where 1: "ga l d = Some (Some vs, d1)" "consumes d ?xs d1"
    using ga_law [OF assms(1-4)] assms(5,6) by (auto simp: layout_eq [OF assms(2)])
  obtain d2 where 2: "dec_loop gt (length vs) d = Some (Some vs, d2)" "consumes d ?xs d2"
    using get_seq [OF assms(1,5,6)] by blast
  show ?thesis
    using 1(1) 2(1) assms(3,5) consumes_fields(5) [OF 1(2)] consumes_fields(5) [OF 2(2)]
    by auto
qed

end

section \<open>The arrays of the codec\<close>

lemma array_room: "vs \<noteq> [] \<Longrightarrow> has_room ((al + n) * length vs) e \<Longrightarrow> has_room (al + n * length vs) e"
  by (erule has_room_mono) (cases vs; simp add: algebra_simps)

lemma put_swapped_law:
  fixes vs :: "'a::len word list"
  assumes "enc_ok e" and "vs \<noteq> []" and "unat l = length vs" and "length vs < 2147483648"
    and "has_room ((unat al + unat k) * length vs) e" and "1 \<le> al"
    and "\<And>xs. length xs = unat k \<Longrightarrow> swapk xs = rev xs"
  shows "\<exists>e'. put_array al k swapk (map (word_image (e_mach_bo e) (unat k)) vs) l e = Some e' \<and>
     emits e (pad (woffe e) (unat al) @ concat (map (word_img (unat k) (e_data_bo e)) vs)) e'"
  using put_array_emits [OF assms(1,6,3,4) array_room [OF assms(2,5)] assms(7)] by simp

lemma get_swapped_law:
  fixes vs :: "'a::len word list"
  assumes "dec_ok d" and "unat l = length vs" and "length vs < 2147483648"
    and "vs \<noteq> []"
    and "octets (dbuf d) = pad (roffd d) (unat al) @ concat (map (word_img k (d_data_bo d)) vs) @ rest"
    and "calm (length (pad (roffd d) (unat al) @ concat (map (word_img k (d_data_bo d)) vs))) d"
    and "1 \<le> al" and "0 < k" and "k < 256"
    and "\<And>xs. length xs = k \<Longrightarrow> swapk xs = rev xs" and "2 ^ LENGTH('a) \<le> (256 :: nat) ^ k"
  shows "\<exists>d'. get_array al k swapk l d = Some (Some vs, d') \<and>
     consumes d (pad (roffd d) (unat al) @ concat (map (word_img k (d_data_bo d)) vs)) d'"
proof -
  have "calm (length (pad (roffd d) (unat al)) + 1) d"
    using assms(4) assms(8) by (intro calm_mono [OF assms(6)]) (cases vs; simp)
  then show ?thesis
    using get_array_consumes [OF assms(1,7,2,3,8,9,5) _ _ assms(10,11)] by simp
qed

lemma get_fp_law:
  fixes vs :: "'a::len word list"
  assumes ok: "dec_ok d" and ne: "vs \<noteq> []" and l: "unat l = length vs" and small: "length vs < 2147483648"
    and oct: "octets (dbuf d) = pad (roffd d) (unat al) @ concat (map (word_img k (d_data_bo d)) vs) @ rest"
    and calm: "calm (length (pad (roffd d) (unat al) @ concat (map (word_img k (d_data_bo d)) vs))) d"
    and al: "1 \<le> al" and k: "0 < k" "k < 256" and dvd: "unat al dvd k"
    and len: "2 ^ LENGTH('a) \<le> (256 :: nat) ^ k"
    and loop: "\<And>f. dec_ok f \<Longrightarrow>
      octets (dbuf f) = layout (unat al) (word_img k (d_data_bo f)) (roffd f) vs @ rest \<Longrightarrow>
      calm (length (layout (unat al) (word_img k (d_data_bo f)) (roffd f) vs)) f \<Longrightarrow>
      \<exists>f'. dec_loop one (length vs) f = Some (Some vs, f') \<and>
        consumes f (layout (unat al) (word_img k (d_data_bo f)) (roffd f) vs) f'"
  shows "\<exists>d'. get_fparray al k one l d = Some (Some vs, d') \<and>
     consumes d (pad (roffd d) (unat al) @ concat (map (word_img k (d_data_bo d)) vs)) d'"
proof -
  let ?ps = "pad (roffd d) (unat al)" and ?xs = "concat (map (word_img k (d_data_bo d)) vs)"
  have a: "0 < unat al" using al by (simp add: word_le_nat_alt)
  obtain f where f: "dec_ralign al d = Some (Some (), f)" "consumes d ?ps f"
    using ralign_consumes [OF ok al oct] by auto
  note ff = consumes_fields [OF f(2)]
  have c0: "calm (length ?xs) f" using calm_consumes [OF f(2)] calm by simp
  have "0 < length ?xs" using ne k(1) by (cases vs) simp_all
  then have c: "check_chunk f = Some (Some (), f)" by (rule check_chunk_calm [OF c0])
  have octf: "octets (dbuf f) = ?xs @ rest" using ff(5) oct by simp
  have wf: "buf_wf (dbuf f)" by (rule ff(9))
  have al0: "unat al dvd roffd f"
    using padlen_aligned [OF a, of 0 "roffd d"] by (simp add: roffd_consumes [OF f(2) ok])
  have lay: "layout (unat al) (word_img k (d_data_bo f)) (roffd f) vs = ?xs"
    using layout_aligned [OF a dvd, of "word_img k (d_data_bo f)" "roffd f" vs] al0 by (simp add: ff(1))
  obtain f' where loop': "dec_loop one (length vs) f = Some (Some vs, f')" "consumes f ?xs f'"
    using loop [OF consumes_ok [OF f(2) ok]] octf c0 by (auto simp: lay)
  have "k * length vs < 4294967296" using octets_lt [OF wf] octf by simp
  then have kl: "unat (word_of_nat k * l) = k * length vs"
    using unat_mult_nowrap [of "word_of_nat k" l] l k by (simp add: nowrap)
  obtain b where b: "Octet_Buffer.get (word_of_nat k * l) (dbuf f) = Some (Some ?xs, b)"
    "reads (dbuf f) ?xs b"
    using get_reads [OF wf, of "word_of_nat k * l"] octf kl by auto
  have g: "map (image_word (d_data_bo d)) (group k (length ?xs div k) ?xs) = vs"
    using k map_image_word [OF len, of "d_data_bo d" vs] by (simp add: group_images)
  have lc: "loop_count l = Some (length vs)" using l small loop_count_small [of l] by simp
  have cb: "consumes f ?xs (f\<lparr>dbuf := b\<rparr>)" unfolding consumes_def using b(2) by blast
  have "\<exists>d'. get_fparray al k one l d = Some (Some vs, d') \<and> consumes f ?xs d'"
  proof (cases "d_data_bo f = d_mach_bo f")
    case True
    then have "get_fparray al k one l d = Some (Some vs, f\<lparr>dbuf := b\<rparr>)"
      using b(1) g by (simp add: get_fparray_def dbind_def f(1) c ff(1) get_block_dec_def
          on_dbuf_def dret_def flip: ff(2))
    with cb show ?thesis by blast
  next
    case False
    then have "get_fparray al k one l d = Some (Some vs, f')"
      by (simp add: get_fparray_def dbind_def f(1) c lc loop'(1))
    with loop'(2) show ?thesis by blast
  qed
  then show ?thesis using consumes_trans [OF f(2)] by blast
qed

lemma put_loop_law:
  assumes "unat l = length vs" and "length vs < 2147483648"
  shows "(do { n \<leftarrow> loop_count l; xs \<leftarrow> mem_read vs 0 n; enc_loop one xs e }) = enc_loop one vs e"
  using assms loop_count_small [of l] by (simp add: mem_read_def)

lemma block_laws:
  assumes l: "unat l = length xs"
  shows "enc_ok e \<Longrightarrow> has_room ((1 + 1) * length xs) e \<Longrightarrow>
      \<exists>e'. put_octets xs l e = Some e' \<and> emits e xs e'"
    and "dec_ok d \<Longrightarrow> octets (dbuf d) = xs @ rest \<Longrightarrow>
      \<exists>d'. get_octets l d = Some (Some xs, d') \<and> consumes d xs d'"
proof -
  show "\<exists>e'. put_octets xs l e = Some e' \<and> emits e xs e'"
    if "enc_ok e" "has_room ((1 + 1) * length xs) e"
    using put_octets_emits [OF that(1) l] has_room_mono [OF that(2)] by simp
  assume d: "dec_ok d" "octets (dbuf d) = xs @ rest"
  then obtain b where "Octet_Buffer.get l (dbuf d) = Some (Some xs, b)" "reads (dbuf d) xs b"
    using get_reads [of "dbuf d" l] l by (auto simp: dec_ok_def)
  then show "\<exists>d'. get_octets l d = Some (Some xs, d') \<and> consumes d xs d'"
    by (auto simp: get_octets_def get_block_dec_def on_dbuf_def consumes_def)
qed

interpretation ushorts: cdr_array 2 2 "word_img 2" put_ushort get_ushort put_ushorts get_ushorts
  using put_swapped_law [where 'a = 16 and al = 2 and k = 2 and swapk = swap2]
    get_swapped_law [where 'a = 16 and al = 2 and k = 2 and swapk = swap2]
  by unfold_locales (simp_all add: put_ushorts_def get_ushorts_def swap_rev)

interpretation shorts: cdr_array 2 2 "word_img 2" put_short get_short put_shorts get_shorts
  using put_swapped_law [where 'a = 16 and al = 2 and k = 2 and swapk = swap2]
    get_swapped_law [where 'a = 16 and al = 2 and k = 2 and swapk = swap2]
  by unfold_locales (simp_all add: put_shorts_def get_shorts_def swap_rev)

interpretation ulongs: cdr_array 4 4 "word_img 4" put_ulong get_ulong put_ulongs get_ulongs
  using put_swapped_law [where 'a = 32 and al = 4 and k = 4 and swapk = swap4]
    get_swapped_law [where 'a = 32 and al = 4 and k = 4 and swapk = swap4]
  by unfold_locales (simp_all add: put_ulongs_def get_ulongs_def swap_rev)

interpretation longs: cdr_array 4 4 "word_img 4" put_long get_long put_longs get_longs
  using put_swapped_law [where 'a = 32 and al = 4 and k = 4 and swapk = swap4]
    get_swapped_law [where 'a = 32 and al = 4 and k = 4 and swapk = swap4]
  by unfold_locales (simp_all add: put_longs_def get_longs_def swap_rev)

interpretation ulonglongs: cdr_array 8 8 "word_img 8" put_ulonglong get_ulonglong put_ulonglongs get_ulonglongs
  using put_swapped_law [where 'a = 64 and al = 8 and k = 8 and swapk = swap8]
    get_swapped_law [where 'a = 64 and al = 8 and k = 8 and swapk = swap8]
  by unfold_locales (simp_all add: put_ulonglongs_def get_ulonglongs_def swap_rev)

interpretation longlongs: cdr_array 8 8 "word_img 8" put_longlong get_longlong put_longlongs get_longlongs
  using put_swapped_law [where 'a = 64 and al = 8 and k = 8 and swapk = swap8]
    get_swapped_law [where 'a = 64 and al = 8 and k = 8 and swapk = swap8]
  by unfold_locales (simp_all add: put_longlongs_def get_longlongs_def swap_rev)

interpretation floats: cdr_array 4 4 "word_img 4" put_float get_float put_floats get_floats
proof
  fix e :: encoder and vs :: "ulong list" and l :: ulong
  assume "enc_ok e" "vs \<noteq> []" "unat l = length vs" "length vs < 2147483648"
    "has_room ((4 + 4) * length vs) e"
  then show "\<exists>e'. put_floats vs l e = Some e' \<and>
      emits e (pad (woffe e) 4 @ concat (map (word_img 4 (e_data_bo e)) vs)) e'"
    using float.put_seq [of e vs] layout_first [of 4 4 "word_img 4 (e_data_bo e)" vs "woffe e"]
    by (simp add: put_floats_def put_loop_law)
next
  fix d :: decoder and vs :: "ulong list" and l :: ulong and rest
  assume "dec_ok d" "vs \<noteq> []" "unat l = length vs" "length vs < 2147483648"
    "octets (dbuf d) = pad (roffd d) 4 @ concat (map (word_img 4 (d_data_bo d)) vs) @ rest"
    "calm (length (pad (roffd d) 4 @ concat (map (word_img 4 (d_data_bo d)) vs))) d"
  then show "\<exists>d'. get_floats l d = Some (Some vs, d') \<and>
      consumes d (pad (roffd d) 4 @ concat (map (word_img 4 (d_data_bo d)) vs)) d'"
    using get_fp_law [of d vs l 4 4 rest get_float] float.get_seq [of _ vs rest]
    by (simp add: get_floats_def)
qed simp

interpretation doubles: cdr_array 8 8 "word_img 8" put_double get_double put_doubles get_doubles
proof
  fix e :: encoder and vs :: "ulonglong list" and l :: ulong
  assume "enc_ok e" "vs \<noteq> []" "unat l = length vs" "length vs < 2147483648"
    "has_room ((8 + 8) * length vs) e"
  then show "\<exists>e'. put_doubles vs l e = Some e' \<and>
      emits e (pad (woffe e) 8 @ concat (map (word_img 8 (e_data_bo e)) vs)) e'"
    using double.put_seq [of e vs] layout_first [of 8 8 "word_img 8 (e_data_bo e)" vs "woffe e"]
    by (simp add: put_doubles_def put_loop_law)
next
  fix d :: decoder and vs :: "ulonglong list" and l :: ulong and rest
  assume "dec_ok d" "vs \<noteq> []" "unat l = length vs" "length vs < 2147483648"
    "octets (dbuf d) = pad (roffd d) 8 @ concat (map (word_img 8 (d_data_bo d)) vs) @ rest"
    "calm (length (pad (roffd d) 8 @ concat (map (word_img 8 (d_data_bo d)) vs))) d"
  then show "\<exists>d'. get_doubles l d = Some (Some vs, d') \<and>
      consumes d (pad (roffd d) 8 @ concat (map (word_img 8 (d_data_bo d)) vs)) d'"
    using get_fp_law [of d vs l 8 8 rest get_double] double.get_seq [of _ vs rest]
    by (simp add: get_doubles_def)
qed simp

interpretation longdoubles: cdr_array 8 16 "word_img 16" put_longdouble get_longdouble put_longdoubles get_longdoubles
proof
  fix e :: encoder and vs :: "128 word list" and l :: ulong
  assume "enc_ok e" "vs \<noteq> []" "unat l = length vs" "length vs < 2147483648"
    "has_room ((8 + 16) * length vs) e"
  then show "\<exists>e'. put_longdoubles vs l e = Some e' \<and>
      emits e (pad (woffe e) 8 @ concat (map (word_img 16 (e_data_bo e)) vs)) e'"
    using longdouble.put_seq [of e vs] layout_first [of 8 16 "word_img 16 (e_data_bo e)" vs "woffe e"]
    by (simp add: put_longdoubles_def put_loop_law)
next
  fix d :: decoder and vs :: "128 word list" and l :: ulong and rest
  assume "dec_ok d" "vs \<noteq> []" "unat l = length vs" "length vs < 2147483648"
    "octets (dbuf d) = pad (roffd d) 8 @ concat (map (word_img 16 (d_data_bo d)) vs) @ rest"
    "calm (length (pad (roffd d) 8 @ concat (map (word_img 16 (d_data_bo d)) vs))) d"
  then show "\<exists>d'. get_longdoubles l d = Some (Some vs, d') \<and>
      consumes d (pad (roffd d) 8 @ concat (map (word_img 16 (d_data_bo d)) vs)) d'"
    using get_fp_law [of d vs l 8 16 rest get_longdouble] longdouble.get_seq [of _ vs rest]
    by (simp add: get_longdoubles_def)
qed simp

interpretation octet_block: cdr_array 1 1 "\<lambda>_ x. [x]" put_octet get_octet put_octets get_octets
  using block_laws by unfold_locales (simp_all add: pad_def)

interpretation booleans: cdr_array 1 1 "\<lambda>_ x. [x]" put_boolean get_boolean put_booleans get_booleans
  using block_laws by unfold_locales (simp_all add: put_booleans_def get_booleans_def put_octets_def [symmetric] get_octets_def [symmetric] pad_def)

interpretation chars: cdr_array 1 1 "\<lambda>_ x. [x]" put_char get_char put_chars get_chars
  using block_laws by unfold_locales (simp_all add: put_chars_def get_chars_def put_octets_def [symmetric] get_octets_def [symmetric] pad_def)

end
