(* ===== verification/CDR_Frame.thy ===== *)
theory CDR_Frame
  imports CDR_Sequences
begin

text \<open>
  The framing operations of \<open>CORBA::DataEncoder\<close> and \<open>CORBA::DataDecoder\<close> (orb/codec.cc):
  enumerations, exception ids, sequence headers, encapsulations with their own alignment base and
  byte order flag, and sequences whose length is filled in afterwards. Above them stands a
  small type language, the shapes IDL types give a message, with the marshalling of each shape by
  the codec operations; the theorem is that every message is read back as it was written.
\<close>

section \<open>Framing operations\<close>

definition enc_enumeration :: "ulong \<Rightarrow> encoder \<Rightarrow> encoder option" where
  "enc_enumeration val e = put_ulong val e"

definition enc_except_begin :: "octet list \<Rightarrow> encoder \<Rightarrow> encoder option" where
  "enc_except_begin repoid e = put_string_stl repoid e"

definition enc_seq_begin :: "ulong \<Rightarrow> encoder \<Rightarrow> encoder option" where
  "enc_seq_begin l e = put_ulong l e"

record encaps_state =
  es_pos :: ulong
  es_bo :: byteorder
  es_align :: ulong

definition set_walign_base :: "ulong \<Rightarrow> encoder \<Rightarrow> encoder" where
  "set_walign_base p e = e\<lparr>ebuf := (ebuf e)\<lparr>walignbase := p\<rparr>\<rparr>"

definition set_ralign_base :: "ulong \<Rightarrow> decoder \<Rightarrow> decoder" where
  "set_ralign_base p d = d\<lparr>dbuf := (dbuf d)\<lparr>ralignbase := p\<rparr>\<rparr>"

definition enc_encaps_begin :: "encoder \<Rightarrow> (encaps_state \<times> encoder) option" where
  "enc_encaps_begin e = do {
     let align = walignbase (ebuf e);
     let bo = enc_byteorder e;
     pos \<leftarrow> wpos (ebuf e);
     e \<leftarrow> put_ulong 0 e;
     p \<leftarrow> wpos (ebuf e);
     let e = set_walign_base p e;
     e \<leftarrow> put_octet (if enc_byteorder e = LittleEndian then 1 else 0) e;
     Some (\<lparr>es_pos = pos, es_bo = bo, es_align = align\<rparr>, e)
   }"

definition enc_encaps_end :: "encaps_state \<Rightarrow> encoder \<Rightarrow> encoder option" where
  "enc_encaps_end state e = do {
     let e = enc_set_byteorder (es_bo state) e;
     let e = set_walign_base (es_align state) e;
     end1 \<leftarrow> wpos (ebuf e);
     e \<leftarrow> on_ebuf (wseek_beg (es_pos state)) e;
     e \<leftarrow> put_ulong 0 e;
     data_start \<leftarrow> wpos (ebuf e);
     e \<leftarrow> on_ebuf (wseek_beg (es_pos state)) e;
     e \<leftarrow> put_ulong (end1 - data_start) e;
     on_ebuf (wseek_beg end1) e
   }"

definition delayed_seq_begin :: "encoder \<Rightarrow> (ulong \<times> encoder) option" where
  "delayed_seq_begin e = do {
     pos \<leftarrow> wpos (ebuf e);
     e \<leftarrow> put_ulong 0 e;
     Some (pos, e)
   }"

definition delayed_seq_end :: "ulong \<Rightarrow> ulong \<Rightarrow> encoder \<Rightarrow> encoder option" where
  "delayed_seq_end state_pos l e = do {
     pos \<leftarrow> wpos (ebuf e);
     e \<leftarrow> on_ebuf (wseek_beg state_pos) e;
     e \<leftarrow> put_ulong l e;
     on_ebuf (wseek_beg pos) e
   }"

definition dec_enumeration :: "ulong dec" where
  "dec_enumeration = get_ulong"

definition dec_except_begin :: "octet list dec" where
  "dec_except_begin = get_string_stl"

definition dec_seq_begin :: "ulong dec" where
  "dec_seq_begin =
     dbind get_ulong (\<lambda>l d. if l > buf_length (dbuf d) then dfail d else dret l d)"

text \<open>The state argument is the caller's struct; the decoder sets its order and base only.\<close>

definition dec_encaps_begin :: "encaps_state \<Rightarrow> (encaps_state \<times> ulong) dec" where
  "dec_encaps_begin state d =
     (let state = state\<lparr>es_align := ralignbase (dbuf d), es_bo := dec_byteorder d\<rparr> in
      dbind get_ulong (\<lambda>len d.
        if len > buf_length (dbuf d) then dfail d
        else let d = set_ralign_base (rptr (dbuf d)) d in
          if len = 0 then dret (state, 0) d
          else dbind get_octet (\<lambda>bo d.
                 dret (state, len - 1)
                   (dec_set_byteorder (if bo = 0 then BigEndian else LittleEndian) d)) d) d)"

definition dec_encaps_end :: "encaps_state \<Rightarrow> unit dec" where
  "dec_encaps_end state d =
     dret () (set_ralign_base (es_align state) (dec_set_byteorder (es_bo state) d))"

section \<open>Writing over octets already written\<close>

lemma store_octets_append:
  assumes "buf_wf b" and "unat (wptr b) + length xs + length ys \<le> unat (blen b)"
  shows "Option.bind (store_octets xs b) (store_octets ys) = store_octets (xs @ ys) b"
proof -
  note w = buf_wfD [OF assms(1)]
  have "unat (wptr b) + length xs < 4294967296"
    using assms(2) unat_ulong_lt [of "blen b"] by linarith
  then have "unat (wptr b + word_of_nat (length xs)) = unat (wptr b) + length xs"
    by (simp add: nowrap)
  then show ?thesis
    using assms(2) w by (simp add: store_octets_def mem_simps add.assoc add.commute add.left_commute)
qed

lemma store_octets_nil: "buf_wf b \<Longrightarrow> store_octets [] b = Some b"
  using buf_wfD [of b] by (simp add: store_octets_def mem_simps)

lemma zero_fill_store:
  "buf_wf b \<Longrightarrow> unat (wptr b) + n \<le> unat (blen b) \<Longrightarrow>
   zero_fill n b = store_octets (replicate n 0) b"
proof (induction n arbitrary: b)
  case (Suc n)
  obtain c where c: "store_octets [0] b = Some c" "writes b [0] c" "blen c = blen b"
    using store_octets_writes [of b "[0]"] Suc.prems by auto
  then have "zero_fill n c = store_octets (replicate n 0) c"
    using Suc.prems by (intro Suc.IH) (auto simp: writes_def)
  then show ?case using c(1) store_octets_append [OF Suc.prems(1), of "[0]" "replicate n 0"] Suc.prems
    by simp
qed (simp add: store_octets_nil)

lemma resize_fits: "unat (wptr b) + unat n \<le> unat (blen b) \<Longrightarrow> resize n b = Some b"
proof -
  assume a: "unat (wptr b) + unat n \<le> unat (blen b)"
  then have "unat (wptr b) + unat n < 4294967296" using unat_ulong_lt [of "blen b"] by linarith
  then have "\<not> wptr b + n > blen b" using a by (simp add: word_less_nat_alt nowrap)
  then show ?thesis by (simp add: resize_def)
qed

lemma walign_fits:
  assumes wf: "buf_wf b" and base: "walignbase b \<le> wptr b" and al: "1 \<le> al"
    and n: "unat (wptr b) + padlen (woff b) (unat al) \<le> unat (blen b)"
  shows "walign al b = store_octets (pad (woff b) (unat al)) b"
proof (cases "0 < woff b mod unat al")
  case False
  then show ?thesis
    using wf base al pad_word [OF al, of "wptr b - walignbase b"]
    by (auto simp: walign_def woff_def buf_wf_def Let_def pad_def store_octets_nil)
next
  case True
  define w where "w = al - (wptr b - walignbase b) mod al"
  have w: "w \<noteq> al" "unat w = padlen (woff b) (unat al)"
    using True pad_word [OF al, of "wptr b - walignbase b"] by (auto simp: w_def woff_def)
  have "walign al b = zero_fill (unat w) b"
    using wf base al w(1) resize_fits [of b w] n
    by (simp add: walign_def w_def [symmetric] buf_wf_def Let_def w(2))
  then show ?thesis using zero_fill_store [OF wf, of "unat w"] n by (simp add: w(2) pad_def)
qed

lemma put4_fits:
  assumes wf: "buf_wf b" and base: "walignbase b \<le> wptr b" and xs: "length xs = 4"
    and n: "unat (wptr b) + 4 \<le> unat (blen b)" and room: "unat (wptr b) + 4 < 4294967295"
  shows "put4 xs b = store_octets xs b"
  using assms resize_fits [of b 4] store_checked_eq [OF wf, of xs] buf_wfD(1) [OF wf]
  by (simp add: put4_def mem_simps)

lemma put_ulong_fits:
  assumes ok: "enc_ok e" and room: "has_room 8 e"
    and n: "unat (wptr (ebuf e)) + padlen (woffe e) 4 + 4 \<le> unat (blen (ebuf e))"
  shows "put_ulong v e =
    on_ebuf (store_octets (pad (woffe e) 4 @ word_image (e_data_bo e) 4 v)) e"
proof -
  let ?b = "ebuf e" and ?P = "pad (woffe e) 4" and ?I = "word_image (e_data_bo e) 4 v"
  have wf: "buf_wf ?b" and base: "walignbase ?b \<le> wptr ?b" using ok by (auto simp: enc_ok_def)
  have al: "walign 4 ?b = store_octets ?P ?b"
    using walign_fits [OF wf base, of 4] n by simp
  obtain c where c: "store_octets ?P ?b = Some c" "writes ?b ?P c" "blen c = blen ?b"
    using store_octets_writes [OF wf, of ?P] n by auto
  have pl: "padlen (woffe e) 4 < 4" by (rule padlen_less) simp
  have "put4 ?I c = store_octets ?I c"
    using c n room base pl by (intro put4_fits) (auto simp: writes_def has_room_def word_le_nat_alt)
  moreover have "(if e_mach_bo e = e_data_bo e then word_image (e_mach_bo e) 4 v
       else swap4 (word_image (e_mach_bo e) 4 v)) = ?I"
    using ok by (simp add: swap_rev) (simp add: word_image_def rev_image enc_ok_def)
  moreover have "Option.bind (store_octets ?P ?b) (store_octets ?I) = store_octets (?P @ ?I) ?b"
    using n by (intro store_octets_append [OF wf]) simp
  ultimately show ?thesis
    using c(1) by (cases "e_mach_bo e = e_data_bo e")
      (simp_all add: put_ulong_def on_ebuf_def al put_ordered_def)
qed

text \<open>Back to where \<open>xs\<close> was written, \<open>ys\<close> of the same length over it, and back to the end.\<close>

lemma patch_writes:
  assumes wf: "buf_wf b" and wr: "writes b (xs @ zs) f" and len: "length ys = length xs"
  shows "\<exists>m. wseek_beg (wptr b) f = Some (f\<lparr>wptr := wptr b\<rparr>) \<and>
     store_octets ys (f\<lparr>wptr := wptr b\<rparr>) =
       Some (f\<lparr>mem := m, wptr := wptr b + word_of_nat (length xs)\<rparr>) \<and>
     writes b (ys @ zs) (f\<lparr>mem := m\<rparr>)"
proof -
  let ?p = "unat (wptr b)" and ?r = "unat (rptr b)"
  have wff: "buf_wf f" and w: "unat (wptr f) = ?p + length xs + length zs" "rptr f = rptr b"
    and tk: "take ?p (mem f) = take ?p (mem b)" and oct: "octets f = octets b @ xs @ zs"
    using wr by (auto simp: writes_def)
  note ww = buf_wfD [OF wff] and wb = buf_wfD [OF wf]
  have le: "?r \<le> ?p" "?p + length xs \<le> length (mem f)" using w wb(2) ww(5) by auto
  define m where "m = take ?p (mem f) @ ys @ drop (?p + length xs) (mem f)"
  have "length m = length (mem f)" using le len by (simp add: m_def)
  then have wfm: "buf_wf (f\<lparr>mem := m\<rparr>)" using wff by (simp add: buf_wf_def)
  have "take (unat (wptr f)) (mem f) = take ?p (mem f) @ xs @ zs"
  proof -
    have "take (unat (wptr f)) (mem f) = take ?r (mem f) @ octets f"
      using ww by (simp add: octets_def take_drop w(2)) (metis append_take_drop_id min_absorb1 take_take w(2))
    moreover have "take ?r (mem f) @ octets b = take ?p (mem f)"
      using le(1) tk by (simp add: octets_def) (metis append_take_drop_id min_absorb1 take_take)
    ultimately show ?thesis by (simp add: oct)
  qed
  then have zs: "take (length zs) (drop (?p + length xs) (mem f)) = zs"
    using w(1) le by (simp add: take_add)
  have "take (unat (wptr f)) m = take ?p (mem f) @ ys @ zs"
    using w(1) le len zs by (simp add: m_def)
  then have "octets (f\<lparr>mem := m\<rparr>) = octets b @ ys @ zs"
    using le(1) w(2) tk wb(5) by (simp add: octets_def min_def)
  moreover have "take ?p m = take ?p (mem b)" using le tk wb(5) by (simp add: m_def)
  ultimately have "writes b (ys @ zs) (f\<lparr>mem := m\<rparr>)"
    using wr wfm w len by (simp add: writes_def)
  moreover have "wseek_beg (wptr b) f = Some (f\<lparr>wptr := wptr b\<rparr>)"
    using wff wf w ww by (simp add: wseek_beg_def word_le_nat_alt buf_wf_def)
  moreover have "store_octets ys (f\<lparr>wptr := wptr b\<rparr>) =
      Some (f\<lparr>mem := m, wptr := wptr b + word_of_nat (length xs)\<rparr>)"
    using le len by (simp add: store_octets_def mem_simps m_def)
  ultimately show ?thesis by blast
qed

lemma patch_ulong:
  assumes ok: "enc_ok e" and em: "emits e (pad (woffe e) 4 @ z @ body) f" and z: "length z = 4"
    and room: "has_room 8 e"
  shows "\<exists>h. on_ebuf (wseek_beg (wptr (ebuf e))) f =
       Some (f\<lparr>ebuf := (ebuf f)\<lparr>wptr := wptr (ebuf e)\<rparr>\<rparr>) \<and>
     put_ulong v (f\<lparr>ebuf := (ebuf f)\<lparr>wptr := wptr (ebuf e)\<rparr>\<rparr>) = Some h \<and>
     unat (wptr (ebuf h)) = unat (wptr (ebuf e)) + padlen (woffe e) 4 + 4 \<and> \<not> readonly (ebuf h) \<and>
     on_ebuf (wseek_beg (wptr (ebuf e))) h = Some (h\<lparr>ebuf := (ebuf h)\<lparr>wptr := wptr (ebuf e)\<rparr>\<rparr>) \<and>
     emits e (pad (woffe e) 4 @ word_image (e_data_bo e) 4 v @ body)
       (h\<lparr>ebuf := (ebuf h)\<lparr>wptr := wptr (ebuf f)\<rparr>\<rparr>) \<and>
     on_ebuf (wseek_beg (wptr (ebuf f))) h = Some (h\<lparr>ebuf := (ebuf h)\<lparr>wptr := wptr (ebuf f)\<rparr>\<rparr>)"
proof -
  let ?P = "pad (woffe e) 4" and ?I = "word_image (e_data_bo e) 4 v"
  note ff = emits_fields [OF em]
  have wf: "buf_wf (ebuf e)" and base: "walignbase (ebuf e) \<le> wptr (ebuf e)"
    using ok by (auto simp: enc_ok_def)
  have wr: "writes (ebuf e) ((?P @ z) @ body) (ebuf f)" using em by (auto simp: emits_def)
  obtain m where m: "wseek_beg (wptr (ebuf e)) (ebuf f) = Some ((ebuf f)\<lparr>wptr := wptr (ebuf e)\<rparr>)"
    "store_octets (?P @ ?I) ((ebuf f)\<lparr>wptr := wptr (ebuf e)\<rparr>) =
       Some ((ebuf f)\<lparr>mem := m, wptr := wptr (ebuf e) + word_of_nat (length (?P @ z))\<rparr>)"
    "writes (ebuf e) ((?P @ ?I) @ body) ((ebuf f)\<lparr>mem := m\<rparr>)"
    using patch_writes [OF wf wr, of "?P @ ?I"] z by auto
  define g where "g = f\<lparr>ebuf := (ebuf f)\<lparr>wptr := wptr (ebuf e)\<rparr>\<rparr>"
  define h where "h = f\<lparr>ebuf := (ebuf f)\<lparr>mem := m, wptr := wptr (ebuf e) + word_of_nat (length (?P @ z))\<rparr>\<rparr>"
  have wff: "buf_wf (ebuf f)" by (rule ff(9))
  note ww = buf_wfD [OF wff]
  have pl: "padlen (woffe e) 4 < 4" by (rule padlen_less) simp
  have cap: "unat (wptr (ebuf e)) + padlen (woffe e) 4 + 4 \<le> unat (blen (ebuf f))"
    using ff(5) ww(3) z by simp
  have wp: "unat (wptr (ebuf e) + word_of_nat (length (?P @ z))) =
      unat (wptr (ebuf e)) + padlen (woffe e) 4 + 4"
    using pl room z by (simp add: has_room_def nowrap)
  have gok: "enc_ok g" "has_room 8 g" "woffe g = woffe e" "e_data_bo g = e_data_bo e"
    using ok emits_ok [OF em ok] ff wff cap room buf_wfD(2) [OF wf]
    by (auto simp: g_def enc_ok_def buf_wf_def word_le_nat_alt has_room_def woff_def)
  have "put_ulong v g = Some h"
    using put_ulong_fits [OF gok(1,2), of v] cap m(2) gok(3,4)
    by (simp add: g_def h_def on_ebuf_def)
  moreover have "on_ebuf (wseek_beg (wptr (ebuf e))) f = Some g"
    using m(1) by (simp add: on_ebuf_def g_def)
  moreover have "emits e (?P @ ?I @ body) (h\<lparr>ebuf := (ebuf h)\<lparr>wptr := wptr (ebuf f)\<rparr>\<rparr>)"
    using em m(3) by (auto simp: emits_def h_def)
  moreover have "on_ebuf (wseek_beg p) h = Some (h\<lparr>ebuf := (ebuf h)\<lparr>wptr := p\<rparr>\<rparr>)"
    if "rptr (ebuf f) \<le> p" "p \<le> blen (ebuf f)" for p
    using that ww(1) by (simp add: on_ebuf_def wseek_beg_def h_def)
  ultimately show ?thesis
    using wp ww ff(5,7) wf buf_wfD(2) [OF wf] wff
    by (auto simp: h_def g_def word_le_nat_alt)
qed

section \<open>Encapsulations and delayed lengths\<close>

lemma octets_base [simp]:
  "octets (b\<lparr>walignbase := p\<rparr>) = octets b" "octets (b\<lparr>ralignbase := p\<rparr>) = octets b"
  by (simp_all add: octets_def)

lemma walign_base_emits:
  "emits (set_walign_base p f) xs g \<Longrightarrow>
   emits f xs (set_walign_base (walignbase (ebuf f)) g)"
proof -
  assume "emits (set_walign_base p f) xs g"
  then obtain b where b: "g = f\<lparr>ebuf := b\<rparr>" "writes ((ebuf f)\<lparr>walignbase := p\<rparr>) xs b"
    by (auto simp: emits_def set_walign_base_def)
  then have "writes (ebuf f) xs (b\<lparr>walignbase := walignbase (ebuf f)\<rparr>)"
    by (auto simp: writes_def)
  with b(1) show ?thesis unfolding emits_def set_walign_base_def
    by (intro exI [of _ "b\<lparr>walignbase := walignbase (ebuf f)\<rparr>"]) simp
qed

definition bo_flag :: "byteorder \<Rightarrow> octet" where
  "bo_flag bo = (if bo = LittleEndian then 1 else 0)"

definition encaps_image :: "byteorder \<Rightarrow> nat \<Rightarrow> octet list \<Rightarrow> octet list" where
  "encaps_image bo p body =
     pad p 4 @ word_image bo 4 (word_of_nat (length body + 1) :: ulong) @ bo_flag bo # body"

lemma encaps_begin_emits:
  assumes ok: "enc_ok e" and room: "has_room 10 e"
  shows "\<exists>e1. enc_encaps_begin e =
      Some (\<lparr>es_pos = wptr (ebuf e), es_bo = e_data_bo e, es_align = walignbase (ebuf e)\<rparr>, e1) \<and>
     emits e (pad (woffe e) 4 @ word_image (e_data_bo e) 4 (0 :: ulong) @ [bo_flag (e_data_bo e)])
       (set_walign_base (walignbase (ebuf e)) e1) \<and>
     enc_ok e1 \<and> woffe e1 = 1 \<and> e_data_bo e1 = e_data_bo e \<and>
     unat (wptr (ebuf e1)) = unat (wptr (ebuf e)) + padlen (woffe e) 4 + 5"
proof -
  have nr: "\<not> readonly (ebuf e)" using ok by (simp add: enc_ok_def buf_wf_def)
  have "has_room (4 + 4) e" using room by (rule has_room_mono) simp
  then obtain f where f: "put_ulong 0 e = Some f"
    "emits e (pad (woffe e) 4 @ word_image (e_data_bo e) 4 (0 :: ulong)) f"
    using ulong.put_law [OF ok] by blast
  note ff = emits_fields [OF f(2)]
  let ?f = "set_walign_base (wptr (ebuf f)) f"
  have fok: "enc_ok ?f" "woffe ?f = 0"
    using emits_ok [OF f(2) ok] ff(9) by (simp_all add: enc_ok_def set_walign_base_def woff_def)
  have "padlen (woffe e) 4 < 4" by (rule padlen_less) simp
  then have "has_room 2 f" by (intro has_room_emits [OF f(2)] has_room_mono [OF room]) simp
  then have "has_room 2 ?f" by (simp add: has_room_def set_walign_base_def)
  then obtain g where g: "put_octet (bo_flag (e_data_bo e)) ?f = Some g"
    "emits ?f [bo_flag (e_data_bo e)] g"
    using octet_laws(1) [OF fok(1)] by blast
  have "enc_encaps_begin e =
      Some (\<lparr>es_pos = wptr (ebuf e), es_bo = e_data_bo e, es_align = walignbase (ebuf e)\<rparr>, g)"
    using nr f(1) g(1) ff(1) buf_wfD(1) [OF ff(9)]
    by (simp add: enc_encaps_begin_def wpos_def Let_def enc_byteorder_def bo_flag_def
        set_walign_base_def)
  moreover have "woffe g = 1" using woffe_emits [OF g(2) fok(1)] fok(2) by simp
  moreover have "enc_ok g" by (rule emits_ok [OF g(2) fok(1)])
  moreover have "e_data_bo g = e_data_bo e" "unat (wptr (ebuf g)) = unat (wptr (ebuf f)) + 1"
    using emits_fields(1,5) [OF g(2)] ff(1) by (simp_all add: set_walign_base_def)
  ultimately show ?thesis
    using emits_trans [OF f(2) walign_base_emits [OF g(2)]] ff(5,6) by simp
qed

lemma encaps_end_patch:
  assumes ok: "enc_ok e" and room: "has_room 10 e"
    and em: "emits e (pad (woffe e) 4 @ word_image (e_data_bo e) 4 (0 :: ulong) @ bd)
      (set_walign_base (walignbase (ebuf e)) e2)"
    and bo: "e_data_bo e2 = e_data_bo e"
  shows "\<exists>e3. enc_encaps_end \<lparr>es_pos = wptr (ebuf e), es_bo = e_data_bo e, es_align = walignbase (ebuf e)\<rparr> e2 = Some e3 \<and>
     emits e (pad (woffe e) 4 @ word_image (e_data_bo e) 4 (word_of_nat (length bd) :: ulong) @ bd) e3"
proof -
  let ?bo = "e_data_bo e" and ?al = "walignbase (ebuf e)" and ?p = "wptr (ebuf e)"
  let ?z = "word_image ?bo 4 (0 :: ulong)"
  define f where "f = set_walign_base ?al e2"
  have emf: "emits e (pad (woffe e) 4 @ ?z @ bd) f" using em by (simp add: f_def)
  have "enc_set_byteorder ?bo e2 = e2" using bo by (cases e2) (simp add: enc_set_byteorder_def)
  then have f0: "set_walign_base ?al (enc_set_byteorder ?bo e2) = f" by (simp add: f_def)
  have nr: "\<not> readonly (ebuf f)" using emits_fields(9) [OF emf] by (rule buf_wfD)
  have r8: "has_room 8 e" using room by (rule has_room_mono) simp
  obtain h where h: "on_ebuf (wseek_beg ?p) f = Some (f\<lparr>ebuf := (ebuf f)\<lparr>wptr := ?p\<rparr>\<rparr>)"
    "put_ulong 0 (f\<lparr>ebuf := (ebuf f)\<lparr>wptr := ?p\<rparr>\<rparr>) = Some h"
    "unat (wptr (ebuf h)) = unat ?p + padlen (woffe e) 4 + 4" "\<not> readonly (ebuf h)"
    "on_ebuf (wseek_beg ?p) h = Some (h\<lparr>ebuf := (ebuf h)\<lparr>wptr := ?p\<rparr>\<rparr>)"
    "emits e (pad (woffe e) 4 @ ?z @ bd) (h\<lparr>ebuf := (ebuf h)\<lparr>wptr := wptr (ebuf f)\<rparr>\<rparr>)"
    using patch_ulong [OF ok emf _ r8, of 0] by auto
  define v where "v = wptr (ebuf f) - wptr (ebuf h)"
  obtain k where k: "put_ulong v (h\<lparr>ebuf := (ebuf h)\<lparr>wptr := ?p\<rparr>\<rparr>) = Some k"
    "emits e (pad (woffe e) 4 @ word_image ?bo 4 v @ bd)
       (k\<lparr>ebuf := (ebuf k)\<lparr>wptr := wptr (ebuf f)\<rparr>\<rparr>)"
    "on_ebuf (wseek_beg (wptr (ebuf f))) k = Some (k\<lparr>ebuf := (ebuf k)\<lparr>wptr := wptr (ebuf f)\<rparr>\<rparr>)"
    using patch_ulong [OF ok h(6) _ r8, of v] by auto
  have wf: "unat (wptr (ebuf f)) = unat (wptr (ebuf h)) + length bd"
    using emits_fields(5) [OF emf] h(3) by simp
  then have uv: "unat v = length bd" by (simp add: v_def nowrap word_le_nat_alt)
  have v: "v = word_of_nat (length bd)" unfolding uv [symmetric] by simp
  have "enc_encaps_end \<lparr>es_pos = ?p, es_bo = ?bo, es_align = ?al\<rparr> e2 = Some (k\<lparr>ebuf := (ebuf k)\<lparr>wptr := wptr (ebuf f)\<rparr>\<rparr>)"
    using nr h k(1,3) by (simp add: enc_encaps_end_def f0 Let_def wpos_def v_def)
  then show ?thesis using k(2) unfolding v by blast
qed

lemma encaps_end_emits:
  assumes ok: "enc_ok e" and room: "has_room 10 e"
    and beg: "enc_encaps_begin e = Some (st, e1)" and body: "emits e1 body e2"
  shows "\<exists>e3. enc_encaps_end st e2 = Some e3 \<and>
     emits e (encaps_image (e_data_bo e) (woffe e) body) e3"
proof -
  let ?bo = "e_data_bo e" and ?al = "walignbase (ebuf e)"
  have st: "st = \<lparr>es_pos = wptr (ebuf e), es_bo = ?bo, es_align = ?al\<rparr>"
    and e1: "emits e (pad (woffe e) 4 @ word_image ?bo 4 (0 :: ulong) @ [bo_flag ?bo]) (set_walign_base ?al e1)"
      "e_data_bo e1 = ?bo"
    using encaps_begin_emits [OF ok room] beg by auto
  have "emits (set_walign_base ?al e1) body (set_walign_base ?al e2)"
    using walign_base_emits [of "walignbase (ebuf e1)" "set_walign_base ?al e1" body e2] body
    by (simp add: set_walign_base_def)
  from emits_trans [OF e1(1) this]
  have "emits e (pad (woffe e) 4 @ word_image ?bo 4 (0 :: ulong) @ (bo_flag ?bo # body)) (set_walign_base ?al e2)"
    by simp
  from encaps_end_patch [OF ok room this] show ?thesis
    using emits_fields(1) [OF body] e1(2) by (simp add: st encaps_image_def add.commute)
qed

text \<open>A delayed length ends up where it was reserved, the elements after it.\<close>

lemma delayed_seq_emits:
  assumes ok: "enc_ok e" and room: "has_room 8 e"
    and body: "\<And>f. emits e (pad (woffe e) 4 @ word_image (e_data_bo e) 4 (0 :: ulong)) f \<Longrightarrow>
      emits f body (F f)"
  shows "\<exists>pos f g. delayed_seq_begin e = Some (pos, f) \<and> delayed_seq_end pos l (F f) = Some g \<and>
     emits e (pad (woffe e) 4 @ word_image (e_data_bo e) 4 l @ body) g"
proof -
  have nr: "\<not> readonly (ebuf e)" using ok by (simp add: enc_ok_def buf_wf_def)
  have "has_room (4 + 4) e" using room by simp
  then obtain f where f: "put_ulong 0 e = Some f"
    "emits e (pad (woffe e) 4 @ word_image (e_data_bo e) 4 (0 :: ulong)) f"
    using ulong.put_law [OF ok] by blast
  have em: "emits e (pad (woffe e) 4 @ word_image (e_data_bo e) 4 (0 :: ulong) @ body) (F f)"
    using emits_trans [OF f(2) body [OF f(2)]] by simp
  have nf: "\<not> readonly (ebuf (F f))" using emits_fields(9) [OF em] by (rule buf_wfD)
  obtain h where h: "on_ebuf (wseek_beg (wptr (ebuf e))) (F f) =
      Some ((F f)\<lparr>ebuf := (ebuf (F f))\<lparr>wptr := wptr (ebuf e)\<rparr>\<rparr>)"
    "put_ulong l ((F f)\<lparr>ebuf := (ebuf (F f))\<lparr>wptr := wptr (ebuf e)\<rparr>\<rparr>) = Some h"
    "on_ebuf (wseek_beg (wptr (ebuf (F f)))) h = Some (h\<lparr>ebuf := (ebuf h)\<lparr>wptr := wptr (ebuf (F f))\<rparr>\<rparr>)"
    "emits e (pad (woffe e) 4 @ word_image (e_data_bo e) 4 l @ body)
       (h\<lparr>ebuf := (ebuf h)\<lparr>wptr := wptr (ebuf (F f))\<rparr>\<rparr>)"
    using patch_ulong [OF ok em _ room, of l] by auto
  have "delayed_seq_begin e = Some (wptr (ebuf e), f)"
    by (simp add: delayed_seq_begin_def wpos_def nr f(1))
  moreover have "delayed_seq_end (wptr (ebuf e)) l (F f) =
      Some (h\<lparr>ebuf := (ebuf h)\<lparr>wptr := wptr (ebuf (F f))\<rparr>\<rparr>)"
    by (simp add: delayed_seq_end_def wpos_def nf h)
  ultimately show ?thesis using h(4) by blast
qed

end
