(* ===== verification/Static_Types.thy ===== *)
theory Static_Types
  imports CDR_Frame
begin

text \<open>
  The built-in \<open>StaticTypeInfo\<close> classes of orb/static.cc: a sequence type marshals its length with
  \<open>seq_begin\<close> and, when there is an element, its elements with the array operation of the codec.
  What both directions do is proved once for any array of the codec.
\<close>

section \<open>Sequences of basic types\<close>

definition seq_marshal ::
    "('v list \<Rightarrow> ulong \<Rightarrow> encoder \<Rightarrow> encoder option) \<Rightarrow> 'v list \<Rightarrow> encoder \<Rightarrow> encoder option" where
  "seq_marshal pa v ec = do {
     let len = word_of_nat (length v);
     ec \<leftarrow> enc_seq_begin len ec;
     if len > 0 then pa v len ec else Some ec
   }"

definition seq_demarshal :: "(ulong \<Rightarrow> 'v list dec) \<Rightarrow> 'v list dec" where
  "seq_demarshal ga = dbind dec_seq_begin (\<lambda>len. if len > 0 then ga len else dret [])"

definition TCSeqShort_marshal :: "ushort list \<Rightarrow> encoder \<Rightarrow> encoder option" where
  "TCSeqShort_marshal = seq_marshal put_shorts"

definition TCSeqShort_demarshal :: "ushort list dec" where
  "TCSeqShort_demarshal = seq_demarshal get_shorts"

definition TCSeqUShort_marshal :: "ushort list \<Rightarrow> encoder \<Rightarrow> encoder option" where
  "TCSeqUShort_marshal = seq_marshal put_ushorts"

definition TCSeqUShort_demarshal :: "ushort list dec" where
  "TCSeqUShort_demarshal = seq_demarshal get_ushorts"

definition TCSeqLong_marshal :: "ulong list \<Rightarrow> encoder \<Rightarrow> encoder option" where
  "TCSeqLong_marshal = seq_marshal put_longs"

definition TCSeqLong_demarshal :: "ulong list dec" where
  "TCSeqLong_demarshal = seq_demarshal get_longs"

definition TCSeqULong_marshal :: "ulong list \<Rightarrow> encoder \<Rightarrow> encoder option" where
  "TCSeqULong_marshal = seq_marshal put_ulongs"

definition TCSeqULong_demarshal :: "ulong list dec" where
  "TCSeqULong_demarshal = seq_demarshal get_ulongs"

definition TCSeqLongLong_marshal :: "ulonglong list \<Rightarrow> encoder \<Rightarrow> encoder option" where
  "TCSeqLongLong_marshal = seq_marshal put_longlongs"

definition TCSeqLongLong_demarshal :: "ulonglong list dec" where
  "TCSeqLongLong_demarshal = seq_demarshal get_longlongs"

definition TCSeqULongLong_marshal :: "ulonglong list \<Rightarrow> encoder \<Rightarrow> encoder option" where
  "TCSeqULongLong_marshal = seq_marshal put_ulonglongs"

definition TCSeqULongLong_demarshal :: "ulonglong list dec" where
  "TCSeqULongLong_demarshal = seq_demarshal get_ulonglongs"

definition TCSeqFloat_marshal :: "ulong list \<Rightarrow> encoder \<Rightarrow> encoder option" where
  "TCSeqFloat_marshal = seq_marshal put_floats"

definition TCSeqFloat_demarshal :: "ulong list dec" where
  "TCSeqFloat_demarshal = seq_demarshal get_floats"

definition TCSeqDouble_marshal :: "ulonglong list \<Rightarrow> encoder \<Rightarrow> encoder option" where
  "TCSeqDouble_marshal = seq_marshal put_doubles"

definition TCSeqDouble_demarshal :: "ulonglong list dec" where
  "TCSeqDouble_demarshal = seq_demarshal get_doubles"

definition TCSeqLongDouble_marshal :: "128 word list \<Rightarrow> encoder \<Rightarrow> encoder option" where
  "TCSeqLongDouble_marshal = seq_marshal put_longdoubles"

definition TCSeqLongDouble_demarshal :: "128 word list dec" where
  "TCSeqLongDouble_demarshal = seq_demarshal get_longdoubles"

definition TCSeqChar_marshal :: "octet list \<Rightarrow> encoder \<Rightarrow> encoder option" where
  "TCSeqChar_marshal = seq_marshal put_chars"

definition TCSeqChar_demarshal :: "octet list dec" where
  "TCSeqChar_demarshal = seq_demarshal get_chars"

definition TCSeqBoolean_marshal :: "octet list \<Rightarrow> encoder \<Rightarrow> encoder option" where
  "TCSeqBoolean_marshal = seq_marshal put_booleans"

definition TCSeqBoolean_demarshal :: "octet list dec" where
  "TCSeqBoolean_demarshal = seq_demarshal get_booleans"

definition TCSeqOctet_marshal :: "octet list \<Rightarrow> encoder \<Rightarrow> encoder option" where
  "TCSeqOctet_marshal = seq_marshal put_octets"

definition TCSeqOctet_demarshal :: "octet list dec" where
  "TCSeqOctet_demarshal = seq_demarshal get_octets"

section \<open>Lengths before elements\<close>

text \<open>A word of \<open>n\<close> octets at offset \<open>p\<close>, after its alignment padding.\<close>

definition word_at :: "nat \<Rightarrow> nat \<Rightarrow> byteorder \<Rightarrow> nat \<Rightarrow> 'a::len word \<Rightarrow> octet list" where
  "word_at al n bo p w = pad p al @ word_image bo n w"

lemma put_sequence_emits:
  assumes ok: "enc_ok e" and room: "has_room (8 + n) e"
    and rest: "\<And>f. emits e (word_at 4 4 (e_data_bo e) (woffe e) l) f \<Longrightarrow> enc_ok f \<Longrightarrow> has_room n f \<Longrightarrow>
      4 dvd woffe f \<Longrightarrow> \<exists>g. F f = Some g \<and> emits f xs g"
  shows "\<exists>g. Option.bind (put_ulong l e) F = Some g \<and>
     emits e (word_at 4 4 (e_data_bo e) (woffe e) l @ xs) g"
proof -
  have "has_room (4 + 4) e" using room by (rule has_room_mono) simp
  then obtain f where f: "put_ulong l e = Some f" "emits e (word_at 4 4 (e_data_bo e) (woffe e) l) f"
    using ulong.put_law [OF ok] unfolding word_at_def by blast
  have "padlen (woffe e) 4 < 4" by (rule padlen_less) simp
  then have "has_room n f"
    by (intro has_room_emits [OF f(2)] has_room_mono [OF room]) (simp add: word_at_def)
  moreover have "4 dvd woffe f"
    using woffe_emits [OF f(2) ok] padlen_aligned [of 4 4 "woffe e"] by (simp add: word_at_def add.assoc)
  ultimately obtain g where "F f = Some g" "emits f xs g"
    using rest [OF f(2) emits_ok [OF f(2) ok]] by blast
  then show ?thesis using f(1) emits_trans [OF f(2)] by auto
qed

lemma get_length_consumes:
  assumes ok: "dec_ok d" and oct: "octets (dbuf d) = word_at 4 4 (d_data_bo d) (roffd d) (l :: ulong) @ xs @ rest"
    and calm: "calm (length (word_at 4 4 (d_data_bo d) (roffd d) l) + n) d"
  shows "\<exists>f. get_ulong d = Some (Some l, f) \<and> consumes d (word_at 4 4 (d_data_bo d) (roffd d) l) f \<and>
     dec_ok f \<and> octets (dbuf f) = xs @ rest \<and> calm n f \<and> 4 dvd roffd f \<and>
     d_data_bo f = d_data_bo d \<and> unat (buf_length (dbuf f)) = length xs + length rest"
proof -
  let ?ps = "pad (roffd d) 4" and ?l = "word_image (d_data_bo d) 4 l"
  have o: "octets (dbuf d) = ?ps @ ?l @ (xs @ rest)" using oct by (simp add: word_at_def)
  have "calm (length ?ps + 4) d" using calm by (rule calm_mono) (simp add: word_at_def)
  then obtain f where f: "get_ulong d = Some (Some l, f)" "consumes d (?ps @ ?l) f"
    using ulong.get_law [OF ok o] by auto
  note ff = consumes_fields [OF f(2)]
  have oct': "octets (dbuf f) = xs @ rest" using ff(5) o by simp
  moreover have "calm n f"
    by (rule calm_consumes [OF f(2)]) (use calm in \<open>simp add: word_at_def\<close>)
  moreover have "4 dvd roffd f"
    using roffd_consumes [OF f(2) ok] padlen_aligned [of 4 4 "roffd d"] by (simp add: add.assoc)
  moreover have "unat (buf_length (dbuf f)) = length xs + length rest"
    using unat_buf_length [OF ff(9)] oct' by simp
  ultimately show ?thesis
    using f consumes_ok [OF f(2) ok] ff(1) by (auto simp: word_at_def)
qed

definition dec_map :: "('a \<Rightarrow> 'b) \<Rightarrow> 'a dec \<Rightarrow> 'b dec" where
  "dec_map f m = dbind m (\<lambda>v. dret (f v))"

context cdr_scalar begin

lemma get_item:
  assumes ok: "dec_ok d"
    and oct: "take (length (pad (roffd d) al @ img (d_data_bo d) v)) (octets (dbuf d)) =
      pad (roffd d) al @ img (d_data_bo d) v"
    and calm: "calm (length (pad (roffd d) al @ img (d_data_bo d) v)) d"
  shows "\<exists>d'. dec_map f gt d = Some (Some (f v), d') \<and>
     consumes d (pad (roffd d) al @ img (d_data_bo d) v) d'"
proof -
  let ?xs = "pad (roffd d) al @ img (d_data_bo d) v"
  have "octets (dbuf d) = ?xs @ drop (length ?xs) (octets (dbuf d))"
    using oct by (metis append_take_drop_id)
  then have o: "octets (dbuf d) = pad (roffd d) al @ img (d_data_bo d) v @ drop (length ?xs) (octets (dbuf d))"
    by simp
  have "calm (length (pad (roffd d) al) + n) d" using calm by (simp add: img_length)
  then obtain d' where "gt d = Some (Some v, d')" "consumes d ?xs d'"
    using get_law [OF ok o] by auto
  then show ?thesis by (simp add: dec_map_def dbind_def dret_def)
qed

end

lemma dec_map_step: "m d = Some (Some v, d') \<Longrightarrow> dec_map f m d = Some (Some (f v), d')"
  by (simp add: dec_map_def dbind_def dret_def)

lemma pad_dvd: "0 < al \<Longrightarrow> al dvd p \<Longrightarrow> pad p al = []"
  by (simp add: pad_def padlen_dvd)

lemma length_word_mod: "has_room (n + length xs) e \<Longrightarrow> unat (word_of_nat (length xs) :: ulong) = length xs"
  by (simp add: has_room_def nowrap)

section \<open>What a sequence type does\<close>

definition seq_image :: "nat \<Rightarrow> ('v \<Rightarrow> octet list) \<Rightarrow> byteorder \<Rightarrow> nat \<Rightarrow> 'v list \<Rightarrow> octet list" where
  "seq_image al im bo p vs =
     (let h = word_at 4 4 bo p (word_of_nat (length vs) :: ulong)
      in h @ layout al im (p + length h) vs)"

context cdr_array begin

lemma layout_length: "length (layout al (img bo) p vs) \<le> (al + n) * length vs"
proof (cases "vs = []")
  case False
  have "padlen p al \<le> al" using padlen_less [OF al_pos, of p] by simp
  then show ?thesis
    using False by (simp add: layout_eq length_images_const [OF img_length] algebra_simps)
      (cases vs; simp)
qed simp

lemma seq_image_length:
  "4 \<le> length (seq_image al (img bo) bo p vs)"
  "length (seq_image al (img bo) bo p vs) \<le> 8 + (al + n) * length vs"
proof -
  have "padlen p 4 < 4" by (rule padlen_less) simp
  then show "4 \<le> length (seq_image al (img bo) bo p vs)"
    "length (seq_image al (img bo) bo p vs) \<le> 8 + (al + n) * length vs"
    using layout_length [of bo "p + (padlen p 4 + 4)" vs] by (simp_all add: seq_image_def word_at_def)
qed

lemma seq_marshal_emits:
  assumes ok: "enc_ok e" and room: "has_room (8 + (al + n) * length vs) e"
  shows "\<exists>e'. seq_marshal pa vs e = Some e' \<and>
     emits e (seq_image al (img (e_data_bo e)) (e_data_bo e) (woffe e) vs) e'"
proof -
  let ?l = "word_of_nat (length vs) :: ulong"
  let ?h = "word_at 4 4 (e_data_bo e) (woffe e) ?l"
  have "2 * length vs \<le> (al + n) * length vs" using al_pos n_pos by (intro mult_le_mono1) simp
  also have "\<dots> < 4294967295" using room unfolding has_room_def by linarith
  finally have lt: "length vs < 2147483648" by simp
  then have ul: "unat ?l = length vs" by (simp add: nowrap)
  then have pos: "?l > 0 \<longleftrightarrow> vs \<noteq> []" by (simp add: word_less_nat_alt)
  have "\<exists>g. (if ?l > 0 then pa vs ?l f else Some f) = Some g \<and>
      emits f (layout al (img (e_data_bo e)) (woffe e + length ?h) vs) g"
    if f: "emits e ?h f" "enc_ok f" "has_room ((al + n) * length vs) f" for f
  proof (cases "vs = []")
    case True
    then show ?thesis using pos f(2) by simp
  next
    case False
    then show ?thesis
      using pos pa_law [OF f(2) False ul lt f(3)] layout_eq [OF False] emits_fields(1) [OF f(1)]
        woffe_emits [OF f(1) ok] by simp
  qed
  from put_sequence_emits [OF ok room, of ?l "\<lambda>ec. if ?l > 0 then pa vs ?l ec else Some ec"] this
  show ?thesis by (simp add: seq_marshal_def Let_def enc_seq_begin_def seq_image_def)
qed

lemma seq_demarshal_item:
  assumes ok: "dec_ok d" and lt: "length vs < 2147483648"
    and oct: "take (length (seq_image al (img (d_data_bo d)) (d_data_bo d) (roffd d) vs)) (octets (dbuf d)) =
      seq_image al (img (d_data_bo d)) (d_data_bo d) (roffd d) vs"
    and calm: "calm (length (seq_image al (img (d_data_bo d)) (d_data_bo d) (roffd d) vs)) d"
  shows "\<exists>d'. dec_map f (seq_demarshal ga) d = Some (Some (f vs), d') \<and>
     consumes d (seq_image al (img (d_data_bo d)) (d_data_bo d) (roffd d) vs) d'"
proof -
  let ?xs = "seq_image al (img (d_data_bo d)) (d_data_bo d) (roffd d) vs"
  let ?l = "word_of_nat (length vs) :: ulong"
  let ?h = "word_at 4 4 (d_data_bo d) (roffd d) ?l"
  let ?ys = "layout al (img (d_data_bo d)) (roffd d + length ?h) vs"
  define rest where "rest = drop (length ?xs) (octets (dbuf d))"
  have xs: "?xs = ?h @ ?ys" by (simp only: seq_image_def Let_def)
  have o: "octets (dbuf d) = ?h @ ?ys @ rest"
    using oct append_take_drop_id [of "length ?xs" "octets (dbuf d)"] by (simp add: xs rest_def)
  obtain g where g: "get_ulong d = Some (Some ?l, g)" "consumes d ?h g" "dec_ok g"
    "octets (dbuf g) = ?ys @ rest" "calm (length ?ys) g" "d_data_bo g = d_data_bo d"
    "unat (buf_length (dbuf g)) = length ?ys + length rest"
    using get_length_consumes [OF ok o, of "length ?ys"] calm unfolding xs by auto
  have r: "roffd g = roffd d + length ?h" by (rule roffd_consumes [OF g(2) ok])
  have ul: "unat ?l = length vs" using lt by (simp add: nowrap)
  then have pos: "?l > 0 \<longleftrightarrow> vs \<noteq> []" by (simp add: word_less_nat_alt)
  have ll: "length vs \<le> length ?ys"
  proof (cases "vs = []")
    case False
    have "1 * length vs \<le> n * length vs" using n_pos by (intro mult_le_mono1) simp
    then have "length vs \<le> n * length vs" by simp
    then show ?thesis
      unfolding layout_eq [OF False] length_append length_images_const [OF img_length]
      by (simp add: trans_le_add2)
  qed simp
  have nl: "\<not> ?l > buf_length (dbuf g)" using ul ll g(7) by (simp add: word_less_nat_alt)
  have "\<exists>h. (if ?l > 0 then ga ?l else dret []) g = Some (Some vs, h) \<and> consumes g ?ys h"
  proof (cases "vs = []")
    case True
    then show ?thesis using pos g(3) by (simp add: dret_def)
  next
    case False
    then show ?thesis
      using pos ga_law [OF g(3) False ul lt, of rest] g(4,5,6) r layout_eq [OF False] by simp
  qed
  then obtain h where h: "(if ?l > 0 then ga ?l else dret []) g = Some (Some vs, h)"
    "consumes g ?ys h" by blast
  have "seq_demarshal ga d = Some (Some vs, h)"
    using g(1) nl h(1) by (simp add: seq_demarshal_def dec_seq_begin_def dbind_def dret_def)
  then show ?thesis using consumes_trans [OF g(2) h(2)] unfolding xs by (simp add: dec_map_step)
qed

end

end
