(* ===== verification/CDR_Message.thy ===== *)
theory CDR_Message
  imports Static_Types
begin

text \<open>
  Messages: values of the shapes that IDL types give, marshalled the way the generated code does,
  through the \<open>StaticTypeInfo\<close> of each type (orb/static.cc) and the framing operations of the
  codec. A primitive item is one value of a basic type, a string, a wide string, a fixed-point
  value, an exception id or a sequence of a basic type; items nest in structs, sequences and
  encapsulations. A string is its memory with the terminator. The theorem of this theory is that a
  message written by one machine is read back by any other, and that nothing is left over.
\<close>

section \<open>Primitive items\<close>

datatype prim =
    P_octet octet | P_boolean octet | P_char octet
  | P_short ushort | P_ushort ushort | P_long ulong
  | P_ulong ulong | P_longlong ulonglong | P_ulonglong ulonglong
  | P_float ulong | P_double ulonglong | P_longdouble "128 word"
  | P_enum ulong | P_string "octet list" | P_wstring "ulong list"
  | P_except "octet list" | P_fixed ushort "octet list" | P_seq_short "ushort list"
  | P_seq_ushort "ushort list" | P_seq_long "ulong list" | P_seq_ulong "ulong list"
  | P_seq_longlong "ulonglong list" | P_seq_ulonglong "ulonglong list" | P_seq_float "ulong list"
  | P_seq_double "ulonglong list" | P_seq_longdouble "128 word list" | P_seq_char "octet list"
  | P_seq_boolean "octet list" | P_seq_octet "octet list"

datatype pkind =
    Octet | Boolean | Char | Short | UShort | Long
  | ULong | LongLong | ULongLong | Float | Double | LongDouble
  | Enum | String | WString | Except | Fixed ushort | SeqShort
  | SeqUShort | SeqLong | SeqULong | SeqLongLong | SeqULongLong | SeqFloat
  | SeqDouble | SeqLongDouble | SeqChar | SeqBoolean | SeqOctet

fun prim_kind :: "prim \<Rightarrow> pkind" where
  "prim_kind (P_octet x) = Octet"
| "prim_kind (P_boolean x) = Boolean"
| "prim_kind (P_char x) = Char"
| "prim_kind (P_short x) = Short"
| "prim_kind (P_ushort x) = UShort"
| "prim_kind (P_long x) = Long"
| "prim_kind (P_ulong x) = ULong"
| "prim_kind (P_longlong x) = LongLong"
| "prim_kind (P_ulonglong x) = ULongLong"
| "prim_kind (P_float x) = Float"
| "prim_kind (P_double x) = Double"
| "prim_kind (P_longdouble x) = LongDouble"
| "prim_kind (P_enum x) = Enum"
| "prim_kind (P_string s) = String"
| "prim_kind (P_wstring s) = WString"
| "prim_kind (P_except s) = Except"
| "prim_kind (P_fixed n v) = Fixed n"
| "prim_kind (P_seq_short xs) = SeqShort"
| "prim_kind (P_seq_ushort xs) = SeqUShort"
| "prim_kind (P_seq_long xs) = SeqLong"
| "prim_kind (P_seq_ulong xs) = SeqULong"
| "prim_kind (P_seq_longlong xs) = SeqLongLong"
| "prim_kind (P_seq_ulonglong xs) = SeqULongLong"
| "prim_kind (P_seq_float xs) = SeqFloat"
| "prim_kind (P_seq_double xs) = SeqDouble"
| "prim_kind (P_seq_longdouble xs) = SeqLongDouble"
| "prim_kind (P_seq_char xs) = SeqChar"
| "prim_kind (P_seq_boolean xs) = SeqBoolean"
| "prim_kind (P_seq_octet xs) = SeqOctet"

text \<open>
  What the code requires of a value: one zero at the end of a string, none in a \<open>std::string\<close>,
  wide characters that fit 16 bits, digits in a fixed value, and a count below \<open>2 ^ 31\<close>.
\<close>

definition terminated :: "'a::zero list \<Rightarrow> bool" where
  "terminated s \<longleftrightarrow> s \<noteq> [] \<and> last s = 0 \<and> 0 \<notin> set (butlast s)"

fun prim_ok :: "prim \<Rightarrow> bool" where
  "prim_ok (P_string s) = terminated s"
| "prim_ok (P_wstring s) = (terminated s \<and> list_all (\<lambda>c. c < 0x10000) s)"
| "prim_ok (P_except s) = (0 \<notin> set s)"
| "prim_ok (P_fixed n v) = (fixed_value v \<and> length v = unat n + 1)"
| "prim_ok (P_seq_short xs) = (length xs < 2147483648)"
| "prim_ok (P_seq_ushort xs) = (length xs < 2147483648)"
| "prim_ok (P_seq_long xs) = (length xs < 2147483648)"
| "prim_ok (P_seq_ulong xs) = (length xs < 2147483648)"
| "prim_ok (P_seq_longlong xs) = (length xs < 2147483648)"
| "prim_ok (P_seq_ulonglong xs) = (length xs < 2147483648)"
| "prim_ok (P_seq_float xs) = (length xs < 2147483648)"
| "prim_ok (P_seq_double xs) = (length xs < 2147483648)"
| "prim_ok (P_seq_longdouble xs) = (length xs < 2147483648)"
| "prim_ok (P_seq_char xs) = (length xs < 2147483648)"
| "prim_ok (P_seq_boolean xs) = (length xs < 2147483648)"
| "prim_ok (P_seq_octet xs) = (length xs < 2147483648)"
| "prim_ok _ = True"

text \<open>\<open>marshal\<close> of each type, and \<open>demarshal\<close>.\<close>

fun put_prim :: "prim \<Rightarrow> encoder \<Rightarrow> encoder option" where
  "put_prim (P_octet x) e = put_octet x e"
| "put_prim (P_boolean x) e = put_boolean x e"
| "put_prim (P_char x) e = put_char x e"
| "put_prim (P_short x) e = put_short x e"
| "put_prim (P_ushort x) e = put_ushort x e"
| "put_prim (P_long x) e = put_long x e"
| "put_prim (P_ulong x) e = put_ulong x e"
| "put_prim (P_longlong x) e = put_longlong x e"
| "put_prim (P_ulonglong x) e = put_ulonglong x e"
| "put_prim (P_float x) e = put_float x e"
| "put_prim (P_double x) e = put_double x e"
| "put_prim (P_longdouble x) e = put_longdouble x e"
| "put_prim (P_enum x) e = enc_enumeration x e"
| "put_prim (P_string s) e = put_string s e"
| "put_prim (P_wstring s) e = put_wstring s e"
| "put_prim (P_except s) e = enc_except_begin s e"
| "put_prim (P_fixed n v) e = put_fixed v n 0 e"
| "put_prim (P_seq_short xs) e = TCSeqShort_marshal xs e"
| "put_prim (P_seq_ushort xs) e = TCSeqUShort_marshal xs e"
| "put_prim (P_seq_long xs) e = TCSeqLong_marshal xs e"
| "put_prim (P_seq_ulong xs) e = TCSeqULong_marshal xs e"
| "put_prim (P_seq_longlong xs) e = TCSeqLongLong_marshal xs e"
| "put_prim (P_seq_ulonglong xs) e = TCSeqULongLong_marshal xs e"
| "put_prim (P_seq_float xs) e = TCSeqFloat_marshal xs e"
| "put_prim (P_seq_double xs) e = TCSeqDouble_marshal xs e"
| "put_prim (P_seq_longdouble xs) e = TCSeqLongDouble_marshal xs e"
| "put_prim (P_seq_char xs) e = TCSeqChar_marshal xs e"
| "put_prim (P_seq_boolean xs) e = TCSeqBoolean_marshal xs e"
| "put_prim (P_seq_octet xs) e = TCSeqOctet_marshal xs e"

fun get_prim :: "pkind \<Rightarrow> prim dec" where
  "get_prim Octet = dec_map P_octet get_octet"
| "get_prim Boolean = dec_map P_boolean get_boolean"
| "get_prim Char = dec_map P_char get_char"
| "get_prim Short = dec_map P_short get_short"
| "get_prim UShort = dec_map P_ushort get_ushort"
| "get_prim Long = dec_map P_long get_long"
| "get_prim ULong = dec_map P_ulong get_ulong"
| "get_prim LongLong = dec_map P_longlong get_longlong"
| "get_prim ULongLong = dec_map P_ulonglong get_ulonglong"
| "get_prim Float = dec_map P_float get_float"
| "get_prim Double = dec_map P_double get_double"
| "get_prim LongDouble = dec_map P_longdouble get_longdouble"
| "get_prim Enum = dec_map P_enum dec_enumeration"
| "get_prim String = dec_map P_string get_string"
| "get_prim WString = dec_map P_wstring get_wstring"
| "get_prim Except = dec_map P_except dec_except_begin"
| "get_prim (Fixed digits) = dec_map (P_fixed digits) (get_fixed digits 0)"
| "get_prim SeqShort = dec_map P_seq_short TCSeqShort_demarshal"
| "get_prim SeqUShort = dec_map P_seq_ushort TCSeqUShort_demarshal"
| "get_prim SeqLong = dec_map P_seq_long TCSeqLong_demarshal"
| "get_prim SeqULong = dec_map P_seq_ulong TCSeqULong_demarshal"
| "get_prim SeqLongLong = dec_map P_seq_longlong TCSeqLongLong_demarshal"
| "get_prim SeqULongLong = dec_map P_seq_ulonglong TCSeqULongLong_demarshal"
| "get_prim SeqFloat = dec_map P_seq_float TCSeqFloat_demarshal"
| "get_prim SeqDouble = dec_map P_seq_double TCSeqDouble_demarshal"
| "get_prim SeqLongDouble = dec_map P_seq_longdouble TCSeqLongDouble_demarshal"
| "get_prim SeqChar = dec_map P_seq_char TCSeqChar_demarshal"
| "get_prim SeqBoolean = dec_map P_seq_boolean TCSeqBoolean_demarshal"
| "get_prim SeqOctet = dec_map P_seq_octet TCSeqOctet_demarshal"

text \<open>The octets of an item at offset \<open>p\<close>, and a bound on their number with slack for the buffer.\<close>

definition wchar_octets :: "byteorder \<Rightarrow> ulong \<Rightarrow> octet list" where
  "wchar_octets bo c = word_image bo 2 (ucast c :: ushort)"

fun prim_image :: "byteorder \<Rightarrow> nat \<Rightarrow> prim \<Rightarrow> octet list" where
  "prim_image bo p (P_octet x) = [x]"
| "prim_image bo p (P_boolean x) = [x]"
| "prim_image bo p (P_char x) = [x]"
| "prim_image bo p (P_short x) = word_at 2 2 bo p x"
| "prim_image bo p (P_ushort x) = word_at 2 2 bo p x"
| "prim_image bo p (P_long x) = word_at 4 4 bo p x"
| "prim_image bo p (P_ulong x) = word_at 4 4 bo p x"
| "prim_image bo p (P_longlong x) = word_at 8 8 bo p x"
| "prim_image bo p (P_ulonglong x) = word_at 8 8 bo p x"
| "prim_image bo p (P_float x) = word_at 4 4 bo p x"
| "prim_image bo p (P_double x) = word_at 8 8 bo p x"
| "prim_image bo p (P_longdouble x) = word_at 8 16 bo p x"
| "prim_image bo p (P_enum x) = word_at 4 4 bo p x"
| "prim_image bo p (P_string s) = word_at 4 4 bo p (word_of_nat (length s) :: ulong) @ s"
| "prim_image bo p (P_wstring s) =
     word_at 4 4 bo p (word_of_nat (length s) :: ulong) @ concat (map (wchar_octets bo) s)"
| "prim_image bo p (P_except s) = word_at 4 4 bo p (word_of_nat (length (s @ [0])) :: ulong) @ s @ [0]"
| "prim_image bo p (P_fixed n v) = fixed_image v"
| "prim_image bo p (P_seq_short xs) = seq_image 2 (word_img 2 bo) bo p xs"
| "prim_image bo p (P_seq_ushort xs) = seq_image 2 (word_img 2 bo) bo p xs"
| "prim_image bo p (P_seq_long xs) = seq_image 4 (word_img 4 bo) bo p xs"
| "prim_image bo p (P_seq_ulong xs) = seq_image 4 (word_img 4 bo) bo p xs"
| "prim_image bo p (P_seq_longlong xs) = seq_image 8 (word_img 8 bo) bo p xs"
| "prim_image bo p (P_seq_ulonglong xs) = seq_image 8 (word_img 8 bo) bo p xs"
| "prim_image bo p (P_seq_float xs) = seq_image 4 (word_img 4 bo) bo p xs"
| "prim_image bo p (P_seq_double xs) = seq_image 8 (word_img 8 bo) bo p xs"
| "prim_image bo p (P_seq_longdouble xs) = seq_image 8 (word_img 16 bo) bo p xs"
| "prim_image bo p (P_seq_char xs) = seq_image 1 (\<lambda>x. [x]) bo p xs"
| "prim_image bo p (P_seq_boolean xs) = seq_image 1 (\<lambda>x. [x]) bo p xs"
| "prim_image bo p (P_seq_octet xs) = seq_image 1 (\<lambda>x. [x]) bo p xs"

fun prim_size :: "prim \<Rightarrow> nat" where
  "prim_size (P_string s) = 8 + length s"
| "prim_size (P_wstring s) = 8 + 4 * length s"
| "prim_size (P_except s) = 9 + length s"
| "prim_size (P_fixed n v) = 3 + length v"
| "prim_size (P_seq_short xs) = 8 + 4 * length xs"
| "prim_size (P_seq_ushort xs) = 8 + 4 * length xs"
| "prim_size (P_seq_long xs) = 8 + 8 * length xs"
| "prim_size (P_seq_ulong xs) = 8 + 8 * length xs"
| "prim_size (P_seq_longlong xs) = 8 + 16 * length xs"
| "prim_size (P_seq_ulonglong xs) = 8 + 16 * length xs"
| "prim_size (P_seq_float xs) = 8 + 8 * length xs"
| "prim_size (P_seq_double xs) = 8 + 16 * length xs"
| "prim_size (P_seq_longdouble xs) = 8 + 24 * length xs"
| "prim_size (P_seq_char xs) = 8 + 2 * length xs"
| "prim_size (P_seq_boolean xs) = 8 + 2 * length xs"
| "prim_size (P_seq_octet xs) = 8 + 2 * length xs"
| "prim_size _ = 24"

lemma length_wchars: "length (concat (map (wchar_octets bo) s)) = 2 * length s"
  by (rule length_images_const) (simp add: wchar_octets_def)

lemma fixed_image_bounds:
  "v \<noteq> [] \<Longrightarrow> 1 \<le> length (fixed_image v) \<and> length (fixed_image v) \<le> 3 + length v"
  using length_fixed_image [of v]
  by (cases v; cases "tl v"; cases "tl (tl v)") (auto simp: fixed_image_def)

lemma prim_image_bounds:
  assumes "prim_ok x"
  shows "1 \<le> length (prim_image bo p x) \<and> length (prim_image bo p x) \<le> prim_size x"
proof (cases x)
  case (P_fixed n v)
  then show ?thesis using assms fixed_image_bounds [of v] by (simp add: fixed_value_def)
next
  case (P_seq_short xs)
  then show ?thesis using shorts.seq_image_length [of bo p xs] by simp
next
  case (P_seq_ushort xs)
  then show ?thesis using ushorts.seq_image_length [of bo p xs] by simp
next
  case (P_seq_long xs)
  then show ?thesis using longs.seq_image_length [of bo p xs] by simp
next
  case (P_seq_ulong xs)
  then show ?thesis using ulongs.seq_image_length [of bo p xs] by simp
next
  case (P_seq_longlong xs)
  then show ?thesis using longlongs.seq_image_length [of bo p xs] by simp
next
  case (P_seq_ulonglong xs)
  then show ?thesis using ulonglongs.seq_image_length [of bo p xs] by simp
next
  case (P_seq_float xs)
  then show ?thesis using floats.seq_image_length [of bo p xs] by simp
next
  case (P_seq_double xs)
  then show ?thesis using doubles.seq_image_length [of bo p xs] by simp
next
  case (P_seq_longdouble xs)
  then show ?thesis using longdoubles.seq_image_length [of bo p xs] by simp
next
  case (P_seq_char xs)
  then show ?thesis using chars.seq_image_length [of bo p xs] by simp
next
  case (P_seq_boolean xs)
  then show ?thesis using booleans.seq_image_length [of bo p xs] by simp
next
  case (P_seq_octet xs)
  then show ?thesis using octet_block.seq_image_length [of bo p xs] by simp
qed (use padlen_less [of 2 p] padlen_less [of 4 p] padlen_less [of 8 p] length_wchars in
  \<open>auto simp: word_at_def\<close>)

section \<open>Each item is appended, and read back\<close>

lemma put_wstring_emits:
  assumes ok: "enc_ok e" and s: "0 \<notin> set s" "list_all (\<lambda>c. c < 0x10000) s" and room: "has_room (12 + 4 * length s) e"
  shows "\<exists>e'. put_wstring (s @ [0]) e = Some e' \<and>
     emits e (prim_image (e_data_bo e) (woffe e) (P_wstring (s @ [0]))) e'"
proof -
  let ?len = "word_of_nat (length s) + 1 :: ulong" and ?us = "map ucast (s @ [0]) :: ushort list"
  let ?xs = "concat (map (\<lambda>c. word_image (e_data_bo e) 2 (ucast c :: ushort)) (s @ [0]))"
  have lt: "length s + 1 < 4294967295" using room by (simp add: has_room_def)
  have len: "?len = word_of_nat (length s + 1)" by (simp add: add.commute)
  have ul: "unat ?len = length (s @ [0])"
    using lt by (simp add: len nowrap del: of_nat_add of_nat_Suc)
  have wl: "wcslen (s @ [0]) = Some (length s)"
    using s by (auto simp: wcslen_def takeWhile_terminated)
  have "\<exists>g. enc_loop put_ushort ?us f = Some g \<and> emits f ?xs g"
    if f: "emits e (word_at 4 4 (e_data_bo e) (woffe e) ?len) f" "enc_ok f"
      "has_room (4 + 4 * length s) f" "4 dvd woffe f" for f
  proof -
    have "2 dvd woffe f" using f(4) by (rule dvd_trans [rotated]) simp
    then have "layout 2 (word_img 2 (e_data_bo f)) (woffe f) ?us = ?xs"
      using layout_aligned [of 2 2 "word_img 2 (e_data_bo f) :: ushort \<Rightarrow> _" "woffe f" ?us]
      by (simp add: comp_def emits_fields(1) [OF f(1)])
    then show ?thesis using ushort.put_seq [OF f(2), of ?us] f(3) by simp
  qed
  moreover have "has_room (8 + (4 + 4 * length s)) e" using room by simp
  ultimately have "\<exists>g. Option.bind (put_ulong ?len e) (enc_loop put_ushort ?us) = Some g \<and>
      emits e (word_at 4 4 (e_data_bo e) (woffe e) ?len @ ?xs) g"
    using put_sequence_emits [OF ok, of "4 + 4 * length s" ?len "enc_loop put_ushort ?us" ?xs] by blast
  moreover have "put_wstring (s @ [0]) e = Option.bind (put_ulong ?len e) (enc_loop put_ushort ?us)"
    using lt by (simp add: put_wstring_def wl ul mem_read_def Let_def)
  ultimately show ?thesis by (simp add: len wchar_octets_def [abs_def])
qed

lemma get_wstring_consumes:
  assumes ok: "dec_ok d" and s: "0 \<notin> set s" "list_all (\<lambda>c. c < 0x10000) s"
    and oct: "octets (dbuf d) = prim_image (d_data_bo d) (roffd d) (P_wstring (s @ [0])) @ rest"
    and calm: "calm (length (prim_image (d_data_bo d) (roffd d) (P_wstring (s @ [0])))) d"
  shows "\<exists>d'. get_wstring d = Some (Some (s @ [0]), d') \<and>
     consumes d (prim_image (d_data_bo d) (roffd d) (P_wstring (s @ [0]))) d'"
proof -
  define len where "len = (word_of_nat (length s + 1) :: ulong)"
  let ?us = "map ucast (s @ [0]) :: ushort list"
  let ?xs = "concat (map (\<lambda>c. word_image (d_data_bo d) 2 (ucast c :: ushort)) (s @ [0]))"
  have xs: "length ?xs = 2 * (length s + 1)"
    using length_images_const [of "\<lambda>c :: ulong. word_image (d_data_bo d) 2 (ucast c :: ushort)" 2 "s @ [0]"]
    by simp
  have im: "prim_image (d_data_bo d) (roffd d) (P_wstring (s @ [0])) =
      word_at 4 4 (d_data_bo d) (roffd d) len @ ?xs" by (simp add: len_def wchar_octets_def [abs_def])
  obtain f where f: "get_ulong d = Some (Some len, f)"
    "consumes d (word_at 4 4 (d_data_bo d) (roffd d) len) f" "dec_ok f"
    "octets (dbuf f) = ?xs @ rest" "calm (length ?xs) f" "4 dvd roffd f"
    "d_data_bo f = d_data_bo d" "unat (buf_length (dbuf f)) = length ?xs + length rest"
    using get_length_consumes [OF ok, of len ?xs rest "length ?xs"] oct calm unfolding im by auto
  have "length s + 1 \<le> unat (buf_length (dbuf f))" using f(8) xs by simp
  then have lt: "length s + 1 < 4294967296" by (rule order.strict_trans1) simp
  then have ul: "unat len = length s + 1" by (simp add: len_def nowrap del: of_nat_add of_nat_Suc)
  have "2 dvd roffd f" using f(6) by (rule dvd_trans [rotated]) simp
  then have lay: "layout 2 (word_img 2 (d_data_bo f)) (roffd f) ?us = ?xs"
    using layout_aligned [of 2 2 "word_img 2 (d_data_bo f) :: ushort \<Rightarrow> _" "roffd f" ?us]
    by (simp add: comp_def f(7))
  then obtain g where g: "dec_loop get_ushort (length ?us) f = Some (Some ?us, g)" "consumes f ?xs g"
    using ushort.get_seq [OF f(3), of ?us rest] f(4,5) by auto
  have uc: "ucast (ucast c :: ushort) = c" if "c < 0x10000" for c :: ulong
  proof -
    have "take_bit 16 c = c" using less_mask_eq [of c 16] that by (simp add: take_bit_eq_mask)
    then show ?thesis by (simp add: word_unat_eq_iff unsigned_ucast_eq)
  qed
  have bk: "map ucast ?us = s @ [0]" using s by (auto simp: uc list_all_iff intro: map_idI)
  have "len \<noteq> 0" using ul by auto
  moreover have "\<not> unat len * 2 > unat (buf_length (dbuf f))" using f(8) xs ul by simp
  moreover have "(s @ [0]) ! (unat len - 1) = 0" by (simp add: ul nth_append)
  ultimately have "get_wstring d = Some (Some (s @ [0]), g)"
    using f(1) g(1) ul bk
    by (simp add: get_wstring_def dbind_def Let_def dret_def del: map_append map_map)
  then show ?thesis using consumes_trans [OF f(2) g(2)] unfolding im by blast
qed

lemma terminated_split: "terminated m \<Longrightarrow> \<exists>s. m = s @ [0] \<and> 0 \<notin> set s"
  unfolding terminated_def by (metis append_butlast_last_id)

lemma put_prim_emits:
  assumes ok: "enc_ok e" and x: "prim_ok x" and room: "has_room (prim_size x) e"
  shows "\<exists>e'. put_prim x e = Some e' \<and> emits e (prim_image (e_data_bo e) (woffe e) x) e'"
proof (cases x)
  case (P_string m)
  then obtain s where s: "m = s @ [0]" "0 \<notin> set s" using x terminated_split by auto
  then show ?thesis using put_string_emits(1) [OF ok s(2)] P_string room
    by (simp add: string_image_def word_at_def)
next
  case (P_except s)
  then show ?thesis using put_string_emits(1) [OF ok, of s] x room
    by (simp add: enc_except_begin_def put_string_stl_def string_image_def word_at_def)
next
  case (P_wstring m)
  then obtain s where s: "m = s @ [0]" "0 \<notin> set s" using x terminated_split by auto
  then show ?thesis using put_wstring_emits [OF ok s(2)] P_wstring x room by simp
next
  case (P_fixed n v)
  then show ?thesis using put_fixed_emits [OF ok, of v n] x room P_fixed by simp
next
  case (P_seq_short xs)
  then show ?thesis
    using shorts.seq_marshal_emits [OF ok, of xs] room by (simp add: TCSeqShort_marshal_def)
next
  case (P_seq_ushort xs)
  then show ?thesis
    using ushorts.seq_marshal_emits [OF ok, of xs] room by (simp add: TCSeqUShort_marshal_def)
next
  case (P_seq_long xs)
  then show ?thesis
    using longs.seq_marshal_emits [OF ok, of xs] room by (simp add: TCSeqLong_marshal_def)
next
  case (P_seq_ulong xs)
  then show ?thesis
    using ulongs.seq_marshal_emits [OF ok, of xs] room by (simp add: TCSeqULong_marshal_def)
next
  case (P_seq_longlong xs)
  then show ?thesis
    using longlongs.seq_marshal_emits [OF ok, of xs] room by (simp add: TCSeqLongLong_marshal_def)
next
  case (P_seq_ulonglong xs)
  then show ?thesis
    using ulonglongs.seq_marshal_emits [OF ok, of xs] room by (simp add: TCSeqULongLong_marshal_def)
next
  case (P_seq_float xs)
  then show ?thesis
    using floats.seq_marshal_emits [OF ok, of xs] room by (simp add: TCSeqFloat_marshal_def)
next
  case (P_seq_double xs)
  then show ?thesis
    using doubles.seq_marshal_emits [OF ok, of xs] room by (simp add: TCSeqDouble_marshal_def)
next
  case (P_seq_longdouble xs)
  then show ?thesis
    using longdoubles.seq_marshal_emits [OF ok, of xs] room by (simp add: TCSeqLongDouble_marshal_def)
next
  case (P_seq_char xs)
  then show ?thesis
    using chars.seq_marshal_emits [OF ok, of xs] room by (simp add: add.commute TCSeqChar_marshal_def)
next
  case (P_seq_boolean xs)
  then show ?thesis
    using booleans.seq_marshal_emits [OF ok, of xs] room by (simp add: add.commute TCSeqBoolean_marshal_def)
next
  case (P_seq_octet xs)
  then show ?thesis
    using octet_block.seq_marshal_emits [OF ok, of xs] room by (simp add: add.commute TCSeqOctet_marshal_def)
qed (use room octet.put_law [OF ok] boolean.put_law [OF ok] char.put_law [OF ok]
    short.put_law [OF ok] ushort.put_law [OF ok] long.put_law [OF ok] ulong.put_law [OF ok]
    longlong.put_law [OF ok] ulonglong.put_law [OF ok] float.put_law [OF ok]
    double.put_law [OF ok] longdouble.put_law [OF ok] in
  \<open>simp add: word_at_def enc_enumeration_def has_room_mono [of 24]\<close>)+

lemma get_string_item:
  assumes ok: "dec_ok d" and m: "m \<noteq> []" "last m = 0"
    and oct: "octets (dbuf d) = word_at 4 4 (d_data_bo d) (roffd d) (word_of_nat (length m) :: ulong) @ m @ rest"
    and calm: "calm (length (word_at 4 4 (d_data_bo d) (roffd d) (word_of_nat (length m) :: ulong) @ m)) d"
  shows "\<exists>d'. get_string d = Some (Some m, d') \<and>
     consumes d (word_at 4 4 (d_data_bo d) (roffd d) (word_of_nat (length m) :: ulong) @ m) d'"
proof -
  define len where "len = (word_of_nat (length m) :: ulong)"
  have o: "octets (dbuf d) = pad (roffd d) 4 @ word_image (d_data_bo d) 4 len @ m @ rest"
    using oct by (simp add: word_at_def len_def)
  have "length m \<le> length (octets (dbuf d))" by (simp add: o)
  also have "\<dots> < 4294967296" using ok by (intro octets_lt) (simp add: dec_ok_def)
  finally have ul: "unat len = length m" by (simp add: len_def nowrap)
  have "calm (length (pad (roffd d) 4) + 4) d"
    using calm by (auto simp: word_at_def intro: calm_mono)
  then show ?thesis
    using get_string_consumes [OF ok _ _ o ul m(1)] by (auto simp: word_at_def len_def)
qed

lemma get_prim_consumes:
  assumes ok: "dec_ok d" and x: "prim_ok x"
    and oct: "octets (dbuf d) = prim_image (d_data_bo d) (roffd d) x @ rest"
    and calm: "calm (length (prim_image (d_data_bo d) (roffd d) x)) d"
  shows "\<exists>d'. get_prim (prim_kind x) d = Some (Some x, d') \<and>
     consumes d (prim_image (d_data_bo d) (roffd d) x) d'"
proof (cases x)
  case (P_string m)
  then show ?thesis using get_string_item [OF ok, of m rest] x oct calm
    by (auto simp: terminated_def dec_map_def dbind_def dret_def)
next
  case (P_except s)
  then obtain d' where d': "get_string d = Some (Some (s @ [0]), d')"
    "consumes d (prim_image (d_data_bo d) (roffd d) x) d'"
    using get_string_item [OF ok, of "s @ [0]" rest] oct calm by auto
  have "get_string_stl d = Some (Some s, d')"
    using x P_except d'(1) c_string_terminated [of s "[]"]
    by (simp add: get_string_stl_def dbind_def dret_def)
  then show ?thesis using d'(2) P_except by (simp add: dec_map_step dec_except_begin_def)
next
  case (P_wstring m)
  then obtain s where s: "m = s @ [0]" "0 \<notin> set s" using x terminated_split by auto
  then show ?thesis
    using get_wstring_consumes [OF ok s(2), of rest] P_wstring x oct calm
    by (auto simp: dec_map_def dbind_def dret_def simp del: prim_image.simps)
next
  case (P_fixed n v)
  then show ?thesis
    using get_fixed_consumes_image [OF ok, where v = v and rest = rest and digits = n and scale = 0] x oct P_fixed
    by (auto simp: dec_map_def dbind_def dret_def)
next
  case (P_seq_short xs)
  then show ?thesis
    using shorts.seq_demarshal_item [OF ok, of xs P_seq_short] x oct calm
    by (simp add: TCSeqShort_demarshal_def)
next
  case (P_seq_ushort xs)
  then show ?thesis
    using ushorts.seq_demarshal_item [OF ok, of xs P_seq_ushort] x oct calm
    by (simp add: TCSeqUShort_demarshal_def)
next
  case (P_seq_long xs)
  then show ?thesis
    using longs.seq_demarshal_item [OF ok, of xs P_seq_long] x oct calm
    by (simp add: TCSeqLong_demarshal_def)
next
  case (P_seq_ulong xs)
  then show ?thesis
    using ulongs.seq_demarshal_item [OF ok, of xs P_seq_ulong] x oct calm
    by (simp add: TCSeqULong_demarshal_def)
next
  case (P_seq_longlong xs)
  then show ?thesis
    using longlongs.seq_demarshal_item [OF ok, of xs P_seq_longlong] x oct calm
    by (simp add: TCSeqLongLong_demarshal_def)
next
  case (P_seq_ulonglong xs)
  then show ?thesis
    using ulonglongs.seq_demarshal_item [OF ok, of xs P_seq_ulonglong] x oct calm
    by (simp add: TCSeqULongLong_demarshal_def)
next
  case (P_seq_float xs)
  then show ?thesis
    using floats.seq_demarshal_item [OF ok, of xs P_seq_float] x oct calm
    by (simp add: TCSeqFloat_demarshal_def)
next
  case (P_seq_double xs)
  then show ?thesis
    using doubles.seq_demarshal_item [OF ok, of xs P_seq_double] x oct calm
    by (simp add: TCSeqDouble_demarshal_def)
next
  case (P_seq_longdouble xs)
  then show ?thesis
    using longdoubles.seq_demarshal_item [OF ok, of xs P_seq_longdouble] x oct calm
    by (simp add: TCSeqLongDouble_demarshal_def)
next
  case (P_seq_char xs)
  then show ?thesis
    using chars.seq_demarshal_item [OF ok, of xs P_seq_char] x oct calm
    by (simp add: TCSeqChar_demarshal_def)
next
  case (P_seq_boolean xs)
  then show ?thesis
    using booleans.seq_demarshal_item [OF ok, of xs P_seq_boolean] x oct calm
    by (simp add: TCSeqBoolean_demarshal_def)
next
  case (P_seq_octet xs)
  then show ?thesis
    using octet_block.seq_demarshal_item [OF ok, of xs P_seq_octet] x oct calm
    by (simp add: TCSeqOctet_demarshal_def)
next
  case (P_octet v)
  then show ?thesis
    using octet.get_item [OF ok, of v P_octet] oct calm by (simp add: word_at_def)
next
  case (P_boolean v)
  then show ?thesis
    using boolean.get_item [OF ok, of v P_boolean] oct calm by (simp add: word_at_def)
next
  case (P_char v)
  then show ?thesis
    using char.get_item [OF ok, of v P_char] oct calm by (simp add: word_at_def)
next
  case (P_short v)
  then show ?thesis
    using short.get_item [OF ok, of v P_short] oct calm by (simp add: word_at_def)
next
  case (P_ushort v)
  then show ?thesis
    using ushort.get_item [OF ok, of v P_ushort] oct calm by (simp add: word_at_def)
next
  case (P_long v)
  then show ?thesis
    using long.get_item [OF ok, of v P_long] oct calm by (simp add: word_at_def)
next
  case (P_ulong v)
  then show ?thesis
    using ulong.get_item [OF ok, of v P_ulong] oct calm by (simp add: word_at_def)
next
  case (P_longlong v)
  then show ?thesis
    using longlong.get_item [OF ok, of v P_longlong] oct calm by (simp add: word_at_def)
next
  case (P_ulonglong v)
  then show ?thesis
    using ulonglong.get_item [OF ok, of v P_ulonglong] oct calm by (simp add: word_at_def)
next
  case (P_float v)
  then show ?thesis
    using float.get_item [OF ok, of v P_float] oct calm by (simp add: word_at_def)
next
  case (P_double v)
  then show ?thesis
    using double.get_item [OF ok, of v P_double] oct calm by (simp add: word_at_def)
next
  case (P_longdouble v)
  then show ?thesis
    using longdouble.get_item [OF ok, of v P_longdouble] oct calm by (simp add: word_at_def)
next
  case (P_enum v)
  then show ?thesis
    using ulong.get_item [OF ok, of v P_enum] oct calm by (simp add: word_at_def dec_enumeration_def)
qed

section \<open>Reading an encapsulation\<close>

lemma ralign_base_consumes:
  assumes "consumes (set_ralign_base p f) xs g"
  shows "consumes f xs (set_ralign_base (ralignbase (dbuf f)) g)"
proof -
  obtain b where b: "g = f\<lparr>dbuf := b\<rparr>" "reads ((dbuf f)\<lparr>ralignbase := p\<rparr>) xs b"
    using assms by (auto simp: consumes_def set_ralign_base_def)
  then obtain r where r: "b = (dbuf f)\<lparr>ralignbase := p, rptr := r\<rparr>" by (auto simp: reads_def)
  then have "reads (dbuf f) xs (b\<lparr>ralignbase := ralignbase (dbuf f)\<rparr>)"
    using b(2) by (auto simp: reads_def octets_def buf_wf_def)
  with b(1) show ?thesis unfolding consumes_def set_ralign_base_def
    by (intro exI [of _ "b\<lparr>ralignbase := ralignbase (dbuf f)\<rparr>"]) simp
qed

lemma dec_encaps_begin_consumes:
  assumes ok: "dec_ok d"
    and oct: "octets (dbuf d) = encaps_image (d_data_bo d) (roffd d) body @ rest"
    and calm: "calm (length (encaps_image (d_data_bo d) (roffd d) body)) d"
  shows "\<exists>d1. dec_encaps_begin st d =
      Some (Some (st\<lparr>es_align := ralignbase (dbuf d), es_bo := d_data_bo d\<rparr>, word_of_nat (length body)), d1) \<and>
     dec_ok d1 \<and> roffd d1 = 1 \<and> d_data_bo d1 = d_data_bo d \<and> octets (dbuf d1) = body @ rest \<and>
     calm (length body) d1 \<and> d_vstate d1 = d_vstate d \<and>
     (\<forall>d2. consumes d1 body d2 \<longrightarrow>
        consumes d (encaps_image (d_data_bo d) (roffd d) body) (set_ralign_base (ralignbase (dbuf d)) d2))"
proof -
  define len where "len = (word_of_nat (length body + 1) :: ulong)"
  let ?bo = "d_data_bo d" and ?fl = "bo_flag (d_data_bo d)"
  have im: "encaps_image ?bo (roffd d) body = word_at 4 4 ?bo (roffd d) len @ ?fl # body"
    by (simp add: encaps_image_def word_at_def len_def)
  obtain f where f: "get_ulong d = Some (Some len, f)"
    "consumes d (word_at 4 4 ?bo (roffd d) len) f" "dec_ok f"
    "octets (dbuf f) = (?fl # body) @ rest" "calm (1 + length body) f" "d_data_bo f = ?bo"
    "unat (buf_length (dbuf f)) = length (?fl # body) + length rest"
    using get_length_consumes [OF ok, of len "?fl # body" rest "1 + length body"] oct calm
    unfolding im by auto
  have "length body + 1 \<le> unat (buf_length (dbuf f))" using f(7) by simp
  then have "length body + 1 < 4294967296" by (rule order.strict_trans1) simp
  then have ul: "unat len = length body + 1" by (simp add: len_def nowrap del: of_nat_add of_nat_Suc)
  have nz: "len \<noteq> 0" "\<not> len > buf_length (dbuf f)"
    using ul f(7) by (auto simp: word_less_nat_alt)
  have l1: "len - 1 = word_of_nat (length body)" by (simp add: len_def)
  let ?g = "set_ralign_base (rptr (dbuf f)) f"
  have gok: "dec_ok ?g" "octets (dbuf ?g) = ?fl # (body @ rest)" "calm (1 + length body) ?g"
    "roffd ?g = 0"
    using f(3,4,5)
    by (auto simp: dec_ok_def set_ralign_base_def calm_def dec_cur_def roff_def split: option.splits)
  obtain h where h: "get_octet ?g = Some (Some ?fl, h)" "consumes ?g [?fl] h"
    using octet_laws(2) [OF gok(1,2)] by auto
  note hh = consumes_fields [OF h(2)]
  have bo: "dec_set_byteorder (if ?fl = 0 then BigEndian else LittleEndian) h = h"
    using ok hh(1) f(6)
    by (cases "?bo") (auto simp: dec_ok_def real_bo_def bo_flag_def dec_set_byteorder_def set_ralign_base_def)
  have "dec_encaps_begin st d =
      Some (Some (st\<lparr>es_align := ralignbase (dbuf d), es_bo := ?bo\<rparr>, word_of_nat (length body)), h)"
    using f(1) nz h(1) bo l1
    by (simp add: dec_encaps_begin_def dbind_def Let_def dret_def dec_byteorder_def)
  moreover have "dec_ok h" by (rule consumes_ok [OF h(2) gok(1)])
  moreover have "roffd h = 1" using roffd_consumes [OF h(2) gok(1)] gok(4) by simp
  moreover have "d_data_bo h = ?bo" using hh(1) f(6) by (simp add: set_ralign_base_def)
  moreover have "octets (dbuf h) = body @ rest" using hh(5) gok(2) by simp
  moreover have "calm (length body) h" using calm_consumes [OF h(2)] gok(3) by simp
  moreover have "d_vstate h = d_vstate d"
    using hh(3) consumes_fields(3) [OF f(2)] by (simp add: set_ralign_base_def)
  moreover have "consumes d (encaps_image ?bo (roffd d) body) (set_ralign_base (ralignbase (dbuf d)) d2)"
    if "consumes h body d2" for d2
  proof -
    have "consumes ?g (?fl # body) d2" using consumes_trans [OF h(2) that] by simp
    from consumes_trans [OF f(2) ralign_base_consumes [OF this]] show ?thesis
      unfolding im by (simp add: consumes_fields(7) [OF f(2)])
  qed
  ultimately show ?thesis by blast
qed

section \<open>Messages\<close>

datatype kind = K_prim pkind | K_struct "kind list" | K_seq kind | K_encaps "kind list"

datatype item = I_prim prim | I_struct "item list" | I_seq kind "item list" | I_encaps "item list"

fun kind_of :: "item \<Rightarrow> kind" where
  "kind_of (I_prim x) = K_prim (prim_kind x)"
| "kind_of (I_struct xs) = K_struct (map kind_of xs)"
| "kind_of (I_seq k xs) = K_seq k"
| "kind_of (I_encaps xs) = K_encaps (map kind_of xs)"

text \<open>A struct has a member; the elements of a sequence have its element type.\<close>

fun item_ok :: "item \<Rightarrow> bool" where
  "item_ok (I_prim x) = prim_ok x"
| "item_ok (I_struct xs) = (xs \<noteq> [] \<and> list_all item_ok xs)"
| "item_ok (I_seq k xs) = list_all (\<lambda>x. item_ok x \<and> kind_of x = k) xs"
| "item_ok (I_encaps xs) = list_all item_ok xs"

fun put_item :: "item \<Rightarrow> encoder \<Rightarrow> encoder option"
  and put_items :: "item list \<Rightarrow> encoder \<Rightarrow> encoder option" where
  "put_item (I_prim x) e = put_prim x e"
| "put_item (I_struct xs) e = put_items xs e"
| "put_item (I_seq k xs) e = do {
     e \<leftarrow> enc_seq_begin (word_of_nat (length xs)) e;
     put_items xs e
   }"
| "put_item (I_encaps xs) e = do {
     (st, e) \<leftarrow> enc_encaps_begin e;
     e \<leftarrow> put_items xs e;
     enc_encaps_end st e
   }"
| "put_items [] e = Some e"
| "put_items (x # xs) e = do { e \<leftarrow> put_item x e; put_items xs e }"

definition no_encaps :: encaps_state where
  "no_encaps = \<lparr>es_pos = 0, es_bo = DefaultEndian, es_align = 0\<rparr>"

fun get_item :: "kind \<Rightarrow> item dec" and get_items :: "kind list \<Rightarrow> item list dec" where
  "get_item (K_prim k) = dec_map I_prim (get_prim k)"
| "get_item (K_struct ks) = dec_map I_struct (get_items ks)"
| "get_item (K_seq k) =
     dec_map (I_seq k) (dbind dec_seq_begin (\<lambda>l. dec_loop (get_item k) (unat l)))"
| "get_item (K_encaps ks) =
     dbind (dec_encaps_begin no_encaps) (\<lambda>(st, len). dbind (get_items ks) (\<lambda>xs.
       dbind (dec_encaps_end st) (\<lambda>_. dret (I_encaps xs))))"
| "get_items [] = dret []"
| "get_items (k # ks) = dbind (get_item k) (\<lambda>x. dbind (get_items ks) (\<lambda>xs. dret (x # xs)))"

fun item_size :: "item \<Rightarrow> nat" where
  "item_size (I_prim x) = prim_size x"
| "item_size (I_struct xs) = sum_list (map item_size xs)"
| "item_size (I_seq k xs) = 8 + sum_list (map item_size xs)"
| "item_size (I_encaps xs) = 10 + sum_list (map item_size xs)"

fun item_image :: "byteorder \<Rightarrow> nat \<Rightarrow> item \<Rightarrow> octet list"
  and items_image :: "byteorder \<Rightarrow> nat \<Rightarrow> item list \<Rightarrow> octet list" where
  "item_image bo p (I_prim x) = prim_image bo p x"
| "item_image bo p (I_struct xs) = items_image bo p xs"
| "item_image bo p (I_seq k xs) =
     (let h = word_at 4 4 bo p (word_of_nat (length xs) :: ulong)
      in h @ items_image bo (p + length h) xs)"
| "item_image bo p (I_encaps xs) = encaps_image bo p (items_image bo 1 xs)"
| "items_image bo p [] = []"
| "items_image bo p (x # xs) =
     (let im = item_image bo p x in im @ items_image bo (p + length im) xs)"

lemma items_image_bounds:
  assumes "\<And>x p. x \<in> set xs \<Longrightarrow> item_ok x \<Longrightarrow>
      1 \<le> length (item_image bo p x) \<and> length (item_image bo p x) \<le> item_size x"
  shows "list_all item_ok xs \<Longrightarrow> length xs \<le> length (items_image bo p xs) \<and>
     length (items_image bo p xs) \<le> sum_list (map item_size xs)"
  using assms
proof (induction xs arbitrary: p)
  case (Cons x xs)
  then have "1 \<le> length (item_image bo p x) \<and> length (item_image bo p x) \<le> item_size x" by simp
  moreover have "length xs \<le> length (items_image bo (p + length (item_image bo p x)) xs) \<and>
     length (items_image bo (p + length (item_image bo p x)) xs) \<le> sum_list (map item_size xs)"
    using Cons by simp
  ultimately show ?case by (simp add: Let_def)
qed simp

lemma item_image_bounds:
  "item_ok x \<Longrightarrow> 1 \<le> length (item_image bo p x) \<and> length (item_image bo p x) \<le> item_size x"
proof (induction x arbitrary: p)
  case (I_prim x)
  then show ?case using prim_image_bounds by simp
next
  case (I_struct xs)
  then show ?case using items_image_bounds [of xs bo p] by (cases xs) auto
next
  case (I_seq k xs)
  have "padlen p 4 < 4" by (rule padlen_less) simp
  moreover have "list_all item_ok xs" using I_seq.prems by (simp add: list_all_iff)
  ultimately show ?case
    using items_image_bounds [of xs bo "p + (padlen p 4 + 4)"] I_seq.IH
    by (simp add: Let_def word_at_def)
next
  case (I_encaps xs)
  have "padlen p 4 < 4" by (rule padlen_less) simp
  then show ?case using items_image_bounds [of xs bo 1] I_encaps
    by (auto simp: encaps_image_def)
qed

section \<open>Messages are appended, and read back\<close>

lemma put_items_emits:
  assumes "\<And>x e. x \<in> set xs \<Longrightarrow> enc_ok e \<Longrightarrow> item_ok x \<Longrightarrow> has_room (item_size x) e \<Longrightarrow>
      \<exists>e'. put_item x e = Some e' \<and> emits e (item_image (e_data_bo e) (woffe e) x) e'"
  shows "enc_ok e \<Longrightarrow> list_all item_ok xs \<Longrightarrow> has_room (sum_list (map item_size xs)) e \<Longrightarrow>
     \<exists>e'. put_items xs e = Some e' \<and> emits e (items_image (e_data_bo e) (woffe e) xs) e'"
  using assms
proof (induction xs arbitrary: e)
  case (Cons x xs)
  let ?im = "item_image (e_data_bo e) (woffe e) x"
  have x: "item_ok x" "length ?im \<le> item_size x"
    using Cons.prems(2) item_image_bounds [of x] by auto
  have "has_room (item_size x) e" using Cons.prems(3) by (rule has_room_mono) simp
  then obtain f where f: "put_item x e = Some f" "emits e ?im f"
    using Cons.prems(4) [of x e] Cons.prems(1) x(1) by auto
  note fok = emits_ok [OF f(2) Cons.prems(1)]
  have "has_room (sum_list (map item_size xs)) f"
    by (rule has_room_emits [OF f(2)], rule has_room_mono [OF Cons.prems(3)]) (use x(2) in simp)
  moreover have "list_all item_ok xs" using Cons.prems(2) by simp
  moreover have "x' \<in> set xs \<Longrightarrow> x' \<in> set (x # xs)" for x' by simp
  ultimately obtain g where g: "put_items xs f = Some g"
    "emits f (items_image (e_data_bo f) (woffe f) xs) g"
    using Cons.IH [OF fok] Cons.prems(4) by blast
  have "emits e (?im @ items_image (e_data_bo e) (woffe e + length ?im) xs) g"
    using emits_trans [OF f(2) g(2)] woffe_emits [OF f(2) Cons.prems(1)]
    by (simp add: emits_fields(1) [OF f(2)])
  then show ?case using f(1) g(1) by (auto simp: Let_def)
qed simp

lemma put_item_emits:
  "enc_ok e \<Longrightarrow> item_ok x \<Longrightarrow> has_room (item_size x) e \<Longrightarrow>
   \<exists>e'. put_item x e = Some e' \<and> emits e (item_image (e_data_bo e) (woffe e) x) e'"
proof (induction x arbitrary: e)
  case (I_prim x)
  then show ?case using put_prim_emits by simp
next
  case (I_struct xs)
  then show ?case using put_items_emits [of xs e] by auto
next
  case (I_seq k xs)
  let ?l = "word_of_nat (length xs) :: ulong"
  let ?h = "word_at 4 4 (e_data_bo e) (woffe e) ?l"
  have ok: "list_all item_ok xs" using I_seq.prems(2) by (simp add: list_all_iff)
  have "\<exists>g. put_items xs f = Some g \<and> emits f (items_image (e_data_bo e) (woffe e + length ?h) xs) g"
    if f: "emits e ?h f" "enc_ok f" "has_room (sum_list (map item_size xs)) f" for f
    using put_items_emits [OF I_seq.IH f(2) ok f(3)] woffe_emits [OF f(1) I_seq.prems(1)]
    by (simp add: emits_fields(1) [OF f(1)])
  moreover have "has_room (8 + sum_list (map item_size xs)) e" using I_seq.prems(3) by simp
  ultimately show ?case
    using put_sequence_emits [OF I_seq.prems(1), of "sum_list (map item_size xs)" ?l "put_items xs"]
    by (simp add: enc_seq_begin_def Let_def)
next
  case (I_encaps xs)
  let ?body = "items_image (e_data_bo e) 1 xs"
  have room: "has_room 10 e" using I_encaps.prems(3) by (rule has_room_mono) simp
  have xs: "list_all item_ok xs" using I_encaps.prems(2) by simp
  obtain st e1 where e1: "enc_encaps_begin e = Some (st, e1)" "enc_ok e1" "woffe e1 = 1"
    "e_data_bo e1 = e_data_bo e"
    "unat (wptr (ebuf e1)) = unat (wptr (ebuf e)) + padlen (woffe e) 4 + 5"
    using encaps_begin_emits [OF I_encaps.prems(1) room] by blast
  have "padlen (woffe e) 4 < 4" by (rule padlen_less) simp
  then have "has_room (sum_list (map item_size xs)) e1"
    using I_encaps.prems(3) e1(5) by (simp add: has_room_def)
  then obtain e2 where e2: "put_items xs e1 = Some e2" "emits e1 ?body e2"
    using put_items_emits [OF I_encaps.IH e1(2) xs] e1(3,4) by auto
  obtain e3 where "enc_encaps_end st e2 = Some e3"
    "emits e (encaps_image (e_data_bo e) (woffe e) ?body) e3"
    using encaps_end_emits [OF I_encaps.prems(1) room e1(1) e2(2)] by blast
  then show ?case using e1(1) e2(1) by simp
qed

lemma get_items_consumes:
  assumes "\<And>x d rest. x \<in> set xs \<Longrightarrow> dec_ok d \<Longrightarrow> item_ok x \<Longrightarrow>
      octets (dbuf d) = item_image (d_data_bo d) (roffd d) x @ rest \<Longrightarrow>
      calm (length (item_image (d_data_bo d) (roffd d) x)) d \<Longrightarrow>
      \<exists>d'. get_item (kind_of x) d = Some (Some x, d') \<and>
        consumes d (item_image (d_data_bo d) (roffd d) x) d'"
  shows "dec_ok d \<Longrightarrow> list_all item_ok xs \<Longrightarrow>
     octets (dbuf d) = items_image (d_data_bo d) (roffd d) xs @ rest \<Longrightarrow>
     calm (length (items_image (d_data_bo d) (roffd d) xs)) d \<Longrightarrow>
     \<exists>d'. get_items (map kind_of xs) d = Some (Some xs, d') \<and>
       consumes d (items_image (d_data_bo d) (roffd d) xs) d'"
  using assms
proof (induction xs arbitrary: d)
  case Nil
  then show ?case by (simp add: dret_def)
next
  case (Cons x xs)
  let ?im = "item_image (d_data_bo d) (roffd d) x"
  let ?ims = "items_image (d_data_bo d) (roffd d + length ?im) xs"
  have oct: "octets (dbuf d) = ?im @ ?ims @ rest" and calm: "calm (length ?im + length ?ims) d"
    and ok: "item_ok x" "list_all item_ok xs"
    using Cons.prems(2-4) by (simp_all add: Let_def)
  have "calm (length ?im) d" using calm by (rule calm_mono) simp
  then obtain f where f: "get_item (kind_of x) d = Some (Some x, f)" "consumes d ?im f"
    using Cons.prems(5) [of x d "?ims @ rest"] Cons.prems(1) ok(1) oct by auto
  note ff = consumes_fields [OF f(2)] and fok = consumes_ok [OF f(2) Cons.prems(1)]
  have r: "roffd f = roffd d + length ?im" by (rule roffd_consumes [OF f(2) Cons.prems(1)])
  have "octets (dbuf f) = items_image (d_data_bo f) (roffd f) xs @ rest"
    using ff(5) oct by (simp add: r ff(1))
  moreover have "calm (length (items_image (d_data_bo f) (roffd f) xs)) f"
    using calm_consumes [OF f(2) calm] by (simp add: r ff(1))
  ultimately obtain g where g: "get_items (map kind_of xs) f = Some (Some xs, g)"
    "consumes f ?ims g"
    using Cons.IH [OF fok ok(2)] Cons.prems(5) by (auto simp: r ff(1))
  have "get_items (map kind_of (x # xs)) d = Some (Some (x # xs), g)"
    by (simp add: dbind_def f(1) g(1) dret_def)
  then show ?case using consumes_trans [OF f(2) g(2)] by (auto simp: Let_def)
qed

lemma get_items_replicate: "get_items (replicate n k) = dec_loop (get_item k) n"
  by (induction n) simp_all

lemma get_item_consumes:
  "dec_ok d \<Longrightarrow> item_ok x \<Longrightarrow> octets (dbuf d) = item_image (d_data_bo d) (roffd d) x @ rest \<Longrightarrow>
   calm (length (item_image (d_data_bo d) (roffd d) x)) d \<Longrightarrow>
   \<exists>d'. get_item (kind_of x) d = Some (Some x, d') \<and>
     consumes d (item_image (d_data_bo d) (roffd d) x) d'"
proof (induction x arbitrary: d rest)
  case (I_prim x)
  then obtain d' where "get_prim (prim_kind x) d = Some (Some x, d')"
    "consumes d (prim_image (d_data_bo d) (roffd d) x) d'"
    using get_prim_consumes [of d x rest] by auto
  then show ?case by (simp add: dec_map_step)
next
  case (I_struct xs)
  then obtain d' where "get_items (map kind_of xs) d = Some (Some xs, d')"
    "consumes d (items_image (d_data_bo d) (roffd d) xs) d'"
    using get_items_consumes [of xs d rest] by auto
  then show ?case by (simp add: dec_map_step)
next
  case (I_seq k xs)
  let ?l = "word_of_nat (length xs) :: ulong"
  let ?h = "word_at 4 4 (d_data_bo d) (roffd d) ?l"
  let ?ims = "items_image (d_data_bo d) (roffd d + length ?h) xs"
  have ok: "list_all item_ok xs" and ks: "map kind_of xs = replicate (length xs) k"
    using I_seq.prems(2) by (auto simp: list_all_iff intro!: replicate_eqI)
  obtain f where f: "get_ulong d = Some (Some ?l, f)" "consumes d ?h f" "dec_ok f"
    "octets (dbuf f) = ?ims @ rest" "calm (length ?ims) f" "d_data_bo f = d_data_bo d"
    "unat (buf_length (dbuf f)) = length ?ims + length rest"
    using get_length_consumes [OF I_seq.prems(1), of ?l ?ims rest "length ?ims"] I_seq.prems(3,4)
    by (auto simp: Let_def)
  have r: "roffd f = roffd d + length ?h" by (rule roffd_consumes [OF f(2) I_seq.prems(1)])
  have "length xs \<le> length ?ims"
    using items_image_bounds [OF item_image_bounds ok, of "d_data_bo d"] by auto
  then have le: "length xs \<le> unat (buf_length (dbuf f))" using f(7) by simp
  then have "length xs < 4294967296" by (rule order.strict_trans1) simp
  then have ul: "unat ?l = length xs" by (simp add: nowrap)
  have "\<exists>g. get_items (map kind_of xs) f = Some (Some xs, g) \<and>
      consumes f (items_image (d_data_bo f) (roffd f) xs) g"
    by (rule get_items_consumes [where rest = rest, OF _ f(3) ok], rule I_seq.IH)
      (use f(4,5,6) r in auto)
  then obtain g where g: "get_items (map kind_of xs) f = Some (Some xs, g)" "consumes f ?ims g"
    using f(6) r by auto
  have "\<not> ?l > buf_length (dbuf f)" using ul le by (simp add: word_less_nat_alt)
  then have "dbind dec_seq_begin (\<lambda>l. dec_loop (get_item k) (unat l)) d = Some (Some xs, g)"
    using f(1) g(1) ul ks by (simp add: dec_seq_begin_def dbind_def dret_def get_items_replicate)
  then show ?case using consumes_trans [OF f(2) g(2)] by (simp add: dec_map_step Let_def)
next
  case (I_encaps xs)
  let ?body = "items_image (d_data_bo d) 1 xs"
  let ?st = "no_encaps\<lparr>es_align := ralignbase (dbuf d), es_bo := d_data_bo d\<rparr>"
  have ok: "list_all item_ok xs" using I_encaps.prems(2) by simp
  obtain d1 where d1: "dec_encaps_begin no_encaps d = Some (Some (?st, word_of_nat (length ?body)), d1)"
    "dec_ok d1" "roffd d1 = 1" "d_data_bo d1 = d_data_bo d" "octets (dbuf d1) = ?body @ rest"
    "calm (length ?body) d1"
    "\<And>d2. consumes d1 ?body d2 \<Longrightarrow> consumes d (encaps_image (d_data_bo d) (roffd d) ?body)
       (set_ralign_base (ralignbase (dbuf d)) d2)"
    using dec_encaps_begin_consumes [OF I_encaps.prems(1), of ?body rest no_encaps] I_encaps.prems(3,4)
    by auto
  have "\<exists>g. get_items (map kind_of xs) d1 = Some (Some xs, g) \<and>
      consumes d1 (items_image (d_data_bo d1) (roffd d1) xs) g"
    by (rule get_items_consumes [where rest = rest, OF _ d1(2) ok], rule I_encaps.IH)
      (use d1(3-6) in auto)
  then obtain d2 where d2: "get_items (map kind_of xs) d1 = Some (Some xs, d2)" "consumes d1 ?body d2"
    using d1(3,4) by auto
  have "dec_set_byteorder (d_data_bo d) d2 = d2"
    using consumes_fields(1) [OF d2(2)] d1(4) by (simp add: dec_set_byteorder_def)
  then have "get_item (kind_of (I_encaps xs)) d =
      Some (Some (I_encaps xs), set_ralign_base (ralignbase (dbuf d)) d2)"
    using d1(1) d2(1) by (simp add: dbind_def dec_encaps_end_def dret_def)
  then show ?case using d1(7) [OF d2(2)] by simp
qed

section \<open>Two machines\<close>

lemma new_encoder_facts:
  assumes "real_bo m" and "real_bo bo"
  shows "enc_ok (new_encoder m (buffer_new f sz) bo)" and "woffe (new_encoder m (buffer_new f sz) bo) = 0"
    and "e_data_bo (new_encoder m (buffer_new f sz) bo) = bo"
    and "octets (ebuf (new_encoder m (buffer_new f sz) bo)) = []"
  using assms buffer_new_wf [of f sz]
  by (simp_all add: enc_ok_def new_encoder_def real_bo_def woff_def buffer_new_def Let_def)

lemma new_encoder_room: "has_room n (new_encoder m (buffer_new f sz) bo) \<longleftrightarrow> n < 4294967295"
  by (simp add: new_encoder_def has_room_def buffer_new_def Let_def)

lemma emits_same:
  "emits e xs e1 \<Longrightarrow> emits e xs e2 \<Longrightarrow> octets (ebuf e1) = octets (ebuf e2) \<and> wptr (ebuf e1) = wptr (ebuf e2)"
  using emits_fields(4,5) by (simp add: word_unat_eq_iff)

text \<open>A decoder over what such an encoder has written.\<close>

lemma new_decoder_facts:
  assumes em: "emits (new_encoder m1 (buffer_new f sz) bo) xs g"
    and bo: "real_bo m1" "real_bo m2" "real_bo bo"
  shows "dec_ok (new_decoder m2 (ebuf g) bo None)" and "roffd (new_decoder m2 (ebuf g) bo None) = 0"
    and "d_data_bo (new_decoder m2 (ebuf g) bo None) = bo"
    and "calm n (new_decoder m2 (ebuf g) bo None)"
    and "octets (dbuf (new_decoder m2 (ebuf g) bo None)) = xs"
proof -
  note gf = emits_fields [OF em]
  have z: "rptr (buffer_new f sz) = 0" "ralignbase (buffer_new f sz) = 0"
    by (simp_all add: buffer_new_def Let_def)
  show "dec_ok (new_decoder m2 (ebuf g) bo None)" "roffd (new_decoder m2 (ebuf g) bo None) = 0"
    "d_data_bo (new_decoder m2 (ebuf g) bo None) = bo" "calm n (new_decoder m2 (ebuf g) bo None)"
    "octets (dbuf (new_decoder m2 (ebuf g) bo None)) = xs"
    using gf bo z buffer_new_wf(2) [of f sz]
    by (simp_all add: dec_ok_def new_decoder_def new_encoder_def real_bo_def roff_def calm_def dec_cur_def)
qed

lemma message_run:
  assumes bo: "real_bo m1" "real_bo m2" "real_bo bo"
    and ok: "list_all item_ok msg" and size: "sum_list (map item_size msg) < 4294967295"
  shows "\<exists>e d. put_items msg (new_encoder m1 (buffer_new f sz) bo) = Some e \<and>
     octets (ebuf e) = items_image bo 0 msg \<and>
     get_items (map kind_of msg) (new_decoder m2 (ebuf e) bo None) = Some (Some msg, d) \<and>
     octets (dbuf d) = []"
proof -
  note n = new_encoder_facts [OF bo(1,3), of f sz]
  obtain e where e: "put_items msg (new_encoder m1 (buffer_new f sz) bo) = Some e"
    "emits (new_encoder m1 (buffer_new f sz) bo) (items_image bo 0 msg) e"
    using put_items_emits [OF put_item_emits n(1) ok] size n(2,3) by (auto simp: new_encoder_room)
  note nd = new_decoder_facts [OF e(2) bo]
  have "\<exists>d. get_items (map kind_of msg) (new_decoder m2 (ebuf e) bo None) = Some (Some msg, d) \<and>
      consumes (new_decoder m2 (ebuf e) bo None) (items_image bo 0 msg) d"
    using get_items_consumes [where rest = "[]" and d = "new_decoder m2 (ebuf e) bo None",
        OF get_item_consumes nd(1) ok] nd by simp
  then obtain d where d: "get_items (map kind_of msg) (new_decoder m2 (ebuf e) bo None) = Some (Some msg, d)"
    "consumes (new_decoder m2 (ebuf e) bo None) (items_image bo 0 msg) d" by blast
  have "octets (dbuf d) = []" using consumes_fields(5) [OF d(2)] nd(5) by simp
  moreover have "octets (ebuf e) = items_image bo 0 msg" using emits_fields(4) [OF e(2)] n(4) by simp
  ultimately show ?thesis using e(1) d(1) by blast
qed

section \<open>Properties\<close>







text \<open>A sequence whose length is filled in afterwards looks the same on the wire as one
  whose length is written first: from any encoder state, \<open>delayed_seq_begin\<close>, the elements and
  \<open>delayed_seq_end\<close> leave the octets of \<open>seq_begin\<close> and the elements, and the write position behind
  the last element.\<close>

theorem delayed_sequence:
  assumes "enc_ok e" and "list_all item_ok xs" and "has_room (8 + sum_list (map item_size xs)) e"
  shows "\<exists>pos f g h. delayed_seq_begin e = Some (pos, f) \<and> put_items xs f = Some g \<and>
     delayed_seq_end pos (word_of_nat (length xs)) g = Some h \<and>
     (\<exists>e'. put_item (I_seq k xs) e = Some e' \<and> octets (ebuf h) = octets (ebuf e') \<and>
        wptr (ebuf h) = wptr (ebuf e'))"
proof -
  let ?l = "word_of_nat (length xs) :: ulong"
  let ?h = "pad (woffe e) 4 @ word_image (e_data_bo e) 4 (0 :: ulong)"
  let ?ims = "items_image (e_data_bo e) (woffe e + (padlen (woffe e) 4 + 4)) xs"
  have pl: "padlen (woffe e) 4 < 4" by (rule padlen_less) simp
  have body: "\<exists>g. put_items xs f = Some g \<and> emits f ?ims g" if f: "emits e h f" "length h = padlen (woffe e) 4 + 4" for f h
  proof -
    have "has_room (sum_list (map item_size xs)) f"
      by (rule has_room_emits [OF f(1)], rule has_room_mono [OF assms(3)]) (use f(2) pl in simp)
    then show ?thesis
      using put_items_emits [OF put_item_emits emits_ok [OF f(1) assms(1)] assms(2)]
        woffe_emits [OF f(1) assms(1)] f(2) by (simp add: emits_fields(1) [OF f(1)])
  qed
  have r8: "has_room 8 e" using assms(3) by (rule has_room_mono) simp
  have "emits f ?ims (the (put_items xs f))" if "emits e ?h f" for f using body [OF that] by auto
  note delayed_seq_emits [OF assms(1) r8 this, of ?l]
  then obtain pos f g where d: "delayed_seq_begin e = Some (pos, f)"
    "delayed_seq_end pos ?l (the (put_items xs f)) = Some g"
    "emits e (pad (woffe e) 4 @ word_image (e_data_bo e) 4 ?l @ ?ims) g" by auto
  have "emits e ?h f"
    using d(1) ulong.put_law [OF assms(1), of 0] r8 by (auto simp: delayed_seq_begin_def elim!: bind_cases)
  then obtain fb where fb: "put_items xs f = Some fb" using body by fastforce
  obtain s where s: "put_ulong ?l e = Some s" "emits e (pad (woffe e) 4 @ word_image (e_data_bo e) 4 ?l) s"
    using ulong.put_law [OF assms(1)] r8 by fastforce
  obtain e' where e': "put_items xs s = Some e'" "emits s ?ims e'" using body [OF s(2)] by auto
  have "put_item (I_seq k xs) e = Some e'" using s(1) e'(1) by (simp add: enc_seq_begin_def)
  moreover have "emits e (pad (woffe e) 4 @ word_image (e_data_bo e) 4 ?l @ ?ims) e'"
    using emits_trans [OF s(2) e'(2)] by simp
  then have "octets (ebuf g) = octets (ebuf e') \<and> wptr (ebuf g) = wptr (ebuf e')"
    using emits_fields(4,5) [OF d(3)] emits_fields(4,5) by (simp add: word_unat_eq_iff)
  ultimately show ?thesis using d(1,2) fb by auto
qed

theorem delayed_sequence_witness:
  "\<exists>pos f g h. delayed_seq_begin (new_encoder LittleEndian (buffer_new 0 0) BigEndian) = Some (pos, f) \<and>
     put_items [I_prim (P_octet 9)] f = Some g \<and> delayed_seq_end pos 1 g = Some h \<and>
     (\<exists>e'. put_item (I_seq (K_prim Octet) [I_prim (P_octet 9)])
          (new_encoder LittleEndian (buffer_new 0 0) BigEndian) = Some e' \<and>
        octets (ebuf h) = octets (ebuf e') \<and> wptr (ebuf h) = wptr (ebuf e'))"
  using delayed_sequence [of "new_encoder LittleEndian (buffer_new 0 0) BigEndian" "[I_prim (P_octet 9)]" "K_prim Octet"]
    new_encoder_facts(1) [of LittleEndian BigEndian 0 0]
  by (simp add: real_bo_def new_encoder_room del: put_items.simps put_item.simps)

end
