(* ===== verification/CDR_Robust.thy ===== *)
theory CDR_Robust
  imports CDR_Message
begin

text \<open>
  Decoding of octets that no encoder wrote. A decoding step is safe when, on any decoder over any
  contents, it returns TRUE or FALSE, never leaves the buffer's block, keeps the decoder
  well-formed and only moves forward. Safety is closed under the combinators of the decoder, so
  it follows for every message shape; the exception is the conversion of a string to
  \<open>std::string\<close>, which trusts a terminator that \<open>get_string\<close> does not check.
\<close>

named_theorems safe_intros \<open>safe decoding steps\<close>

text \<open>A decoder outside value types whose buffer holds less than 256 megabytes.\<close>

definition dec_fine :: "decoder \<Rightarrow> bool" where
  "dec_fine d \<longleftrightarrow> dec_ok d \<and> d_vstate d = None \<and> unat (wptr (dbuf d)) < 268435456"

definition moves :: "decoder \<Rightarrow> decoder \<Rightarrow> bool" where
  "moves d d' \<longleftrightarrow> dec_fine d' \<and> wptr (dbuf d') = wptr (dbuf d) \<and> rptr (dbuf d) \<le> rptr (dbuf d')"

definition safe :: "'a dec \<Rightarrow> bool" where
  "safe m \<longleftrightarrow> (\<forall>d. dec_fine d \<longrightarrow> (\<exists>r d'. m d = Some (r, d') \<and> moves d d' \<and>
     (r \<noteq> None \<longrightarrow> ralignbase (dbuf d') = ralignbase (dbuf d) \<and> d_data_bo d' = d_data_bo d)))"

lemma safeD:
  assumes "safe m" and "dec_fine d"
  obtains r d' where "m d = Some (r, d')" and "moves d d'"
    and "r \<noteq> None \<Longrightarrow> ralignbase (dbuf d') = ralignbase (dbuf d) \<and> d_data_bo d' = d_data_bo d"
  using assms unfolding safe_def by blast

lemma moves_refl: "dec_fine d \<Longrightarrow> moves d d"
  by (simp add: moves_def)

lemma moves_trans: "moves d e \<Longrightarrow> moves e f \<Longrightarrow> moves d f"
  by (auto simp: moves_def)

lemma safe_dret [safe_intros]: "safe (dret v)"
  by (auto simp: safe_def dret_def moves_refl)

lemma safe_dfail [safe_intros]: "safe dfail"
  by (auto simp: safe_def dfail_def moves_refl)

lemma safe_dbind [safe_intros]:
  assumes m: "safe m" and f: "\<And>v. safe (f v)"
  shows "safe (dbind m f)"
  unfolding safe_def
proof (intro allI impI)
  fix d assume d: "dec_fine d"
  obtain r e where e: "m d = Some (r, e)" "moves d e"
    "r \<noteq> None \<Longrightarrow> ralignbase (dbuf e) = ralignbase (dbuf d) \<and> d_data_bo e = d_data_bo d"
    using safeD [OF m d] by metis
  show "\<exists>r d'. dbind m f d = Some (r, d') \<and> moves d d' \<and>
     (r \<noteq> None \<longrightarrow> ralignbase (dbuf d') = ralignbase (dbuf d) \<and> d_data_bo d' = d_data_bo d)"
  proof (cases r)
    case None
    then show ?thesis using e by (simp add: dbind_def)
  next
    case (Some v)
    have "dec_fine e" using e(2) by (simp add: moves_def)
    then obtain s d' where s: "f v e = Some (s, d')" "moves e d'"
      "s \<noteq> None \<Longrightarrow> ralignbase (dbuf d') = ralignbase (dbuf e) \<and> d_data_bo d' = d_data_bo e"
      using safeD [OF f [of v]] by metis
    then show ?thesis using e Some moves_trans [OF e(2) s(2)] by (auto simp: dbind_def)
  qed
qed

lemma safe_if [safe_intros]: "safe m \<Longrightarrow> safe n \<Longrightarrow> safe (\<lambda>d. if P d then m d else n d)"
  by (auto simp: safe_def)

lemma safe_if_const [safe_intros]: "(P \<Longrightarrow> safe m) \<Longrightarrow> (\<not> P \<Longrightarrow> safe n) \<Longrightarrow> safe (if P then m else n)"
  by simp

lemma safe_cong: "safe m \<Longrightarrow> (\<And>d. dec_fine d \<Longrightarrow> n d = m d) \<Longrightarrow> safe n"
  by (simp add: safe_def)

lemma safe_dec_map [safe_intros]: "safe m \<Longrightarrow> safe (dec_map f m)"
  unfolding dec_map_def by (intro safe_intros)

lemma safe_dec_loop [safe_intros]: "safe m \<Longrightarrow> safe (dec_loop m n)"
  by (induction n) (auto intro: safe_intros)

section \<open>The reads of the buffer\<close>

lemma consumes_moves: "consumes d xs d' \<Longrightarrow> dec_fine d \<Longrightarrow> moves d d'"
  using consumes_ok [of d xs d']
  by (auto simp: moves_def dec_fine_def consumes_fields word_le_nat_alt)

lemma safe_consumes:
  assumes "\<And>d. dec_fine d \<Longrightarrow> m d = Some (None, d) \<or> (\<exists>v xs d'. m d = Some (Some v, d') \<and> consumes d xs d')"
  shows "safe m"
  unfolding safe_def
proof (intro allI impI)
  fix d assume d: "dec_fine d"
  consider "m d = Some (None, d)"
    | v xs d' where "m d = Some (Some v, d')" "consumes d xs d'"
    using assms [OF d] by blast
  then show "\<exists>r d'. m d = Some (r, d') \<and> moves d d' \<and>
     (r \<noteq> None \<longrightarrow> ralignbase (dbuf d') = ralignbase (dbuf d) \<and> d_data_bo d' = d_data_bo d)"
  proof cases
    case 1
    then show ?thesis using moves_refl [OF d] by simp
  next
    case 2
    then show ?thesis using consumes_moves [OF 2(2) d] by (simp add: consumes_fields [OF 2(2)])
  qed
qed

lemma safe_on_dbuf:
  assumes "\<And>b. buf_wf b \<Longrightarrow> unat (wptr b) < 268435456 \<Longrightarrow>
    f b = Some (None, b) \<or> (\<exists>v xs b'. f b = Some (Some v, b') \<and> reads b xs b')"
  shows "safe (on_dbuf f)"
proof (rule safe_consumes)
  fix d assume "dec_fine d"
  then show "on_dbuf f d = Some (None, d) \<or>
      (\<exists>v xs d'. on_dbuf f d = Some (Some v, d') \<and> consumes d xs d')"
    using assms [of "dbuf d"] by (auto simp: on_dbuf_def consumes_def dec_fine_def dec_ok_def)
qed

lemma get_cases: "buf_wf b \<Longrightarrow> Octet_Buffer.get l b = Some (None, b) \<or>
    (\<exists>v xs b'. Octet_Buffer.get l b = Some (Some v, b') \<and> reads b xs b')"
  using get_reads [of b l] get_short [of b l] by (cases "unat l \<le> length (octets b)") auto

lemma safe_get [safe_intros]: "safe (on_dbuf (Octet_Buffer.get l))"
  by (rule safe_on_dbuf) (rule get_cases)

lemma safe_get_fixed [safe_intros]:
  "safe (on_dbuf get1)" "safe (on_dbuf get2)" "safe (on_dbuf get4)" "safe (on_dbuf get8)"
  "safe (on_dbuf get16)"
proof -
  have eq: "get1 b = Octet_Buffer.get 1 b \<and> get2 b = Octet_Buffer.get 2 b \<and> get4 b = Octet_Buffer.get 4 b \<and>
      get8 b = Octet_Buffer.get 8 b \<and> get16 b = Octet_Buffer.get 16 b"
    if "buf_wf b" "unat (wptr b) < 268435456" for b
  proof -
    have "unat (rptr b) < 268435456" using buf_wfD(2) [OF that(1)] that(2) by simp
    then show ?thesis using that(1) by (simp add: get_fixed_eq get1_eq)
  qed
  show "safe (on_dbuf get1)" "safe (on_dbuf get2)" "safe (on_dbuf get4)" "safe (on_dbuf get8)"
    "safe (on_dbuf get16)"
    by (rule safe_on_dbuf; use eq get_cases in metis)+
qed

lemma safe_ralign [safe_intros]:
  assumes "1 \<le> al" and "unat al < 1000"
  shows "safe (dec_ralign al)"
proof (rule safe_consumes)
  fix d assume d: "dec_fine d"
  then have b: "buf_wf (dbuf d)" "ralignbase (dbuf d) \<le> rptr (dbuf d)"
    and lt: "unat (rptr (dbuf d)) + unat al < 4294967296"
    using buf_wfD(2) [of "dbuf d"] assms(2) by (auto simp: dec_fine_def dec_ok_def)
  show "dec_ralign al d = Some (None, d) \<or>
      (\<exists>v xs d'. dec_ralign al d = Some (Some v, d') \<and> consumes d xs d')"
  proof (cases "padlen (roffd d) (unat al) \<le> length (octets (dbuf d))")
    case True
    then show ?thesis using ralign_reads [OF b assms(1)] by (auto simp: dec_ralign_def consumes_def)
  next
    case False
    then show ?thesis using ralign_short [OF b assms(1) _ lt] by (simp add: dec_ralign_def)
  qed
qed

lemma safe_check_chunk [safe_intros]: "safe check_chunk"
  by (rule safe_cong [OF safe_dret]) (simp add: dec_fine_def check_chunk_def dec_cur_def)

lemma safe_state: "(\<And>c. safe (m c)) \<Longrightarrow> safe (\<lambda>d. m d d)"
  by (simp add: safe_def)

lemma safe_get_ordered [safe_intros]: "safe (on_dbuf getk) \<Longrightarrow> safe (get_ordered getk swapk :: 'a::len word dec)"
proof -
  assume s: "safe (on_dbuf getk)"
  have eq: "(get_ordered getk swapk :: 'a word dec) = (\<lambda>d. dbind (on_dbuf getk) (\<lambda>xs. dret (image_word (d_mach_bo d)
        (if d_data_bo d = d_mach_bo d then xs else swapk xs))) d)"
    by (rule ext) (simp add: get_ordered_def)
  show ?thesis unfolding eq by (rule safe_state) (intro safe_intros s)
qed

lemma safe_primitives [safe_intros]:
  "safe get_short" "safe get_ushort" "safe get_long" "safe get_ulong" "safe get_longlong"
  "safe get_ulonglong" "safe get_float" "safe get_double" "safe get_longdouble"
  "safe get_octet" "safe get_boolean" "safe get_char"
  unfolding get_short_def get_ushort_def get_long_def get_ulong_def get_longlong_def
    get_ulonglong_def get_float_def get_double_def get_longdouble_def get_octet_def
    get_boolean_def get_char_def
  by (intro safe_intros; simp)+

section \<open>Composite reads\<close>

lemma safe_get_string_raw [safe_intros]: "safe get_string" "safe get_string_raw"
  unfolding get_string_def get_string_raw_def by (intro safe_intros)+

lemma safe_get_wstring [safe_intros]: "safe get_wstring"
  unfolding get_wstring_def Let_def by (intro safe_intros)

lemma safe_get_digit_pairs [safe_intros]: "safe (get_digit_pairs n)"
  by (induction n) (auto intro: safe_intros)

lemma safe_get_fixed_digits [safe_intros]: "safe (get_fixed digits scale)"
  unfolding get_fixed_def Let_def by (intro safe_intros)

lemma safe_get_octets [safe_intros]: "safe (get_octets l)"
  unfolding get_octets_def get_block_dec_def by (intro safe_intros)

text \<open>An array read is safe for a count that does not make the octet count wrap.\<close>

lemma safe_get_elems:
  assumes l: "k * unat l < 4294967296" "unat l < 2147483648" and k: "0 < k" "k < 256"
  shows "safe (get_elems k swapk l :: 'a::len word list dec)"
proof (rule safe_consumes)
  fix d assume d: "dec_fine d"
  define bytes where "bytes = (word_of_nat k * l :: ulong)"
  have kl: "unat bytes = k * unat l"
    using l(1) k unat_mult_nowrap [of "word_of_nat k" l] by (simp add: bytes_def nowrap)
  have lc: "loop_count l = Some (unat l)" by (rule loop_count_small [OF l(2)])
  have wf: "buf_wf (dbuf d)" using d(1) by (simp add: dec_fine_def dec_ok_def)
  show "get_elems k swapk l d = Some (None, d) \<or>
      (\<exists>(v :: 'a word list) xs d'. get_elems k swapk l d = Some (Some v, d') \<and> consumes d xs d')"
  proof (cases "unat bytes \<le> length (octets (dbuf d))")
    case False
    then have "buf_length (dbuf d) < bytes" using unat_buf_length [OF wf] by (simp add: word_less_nat_alt)
    moreover have "Octet_Buffer.get bytes (dbuf d) = Some (None, dbuf d)"
      using False by (intro get_short [OF wf]) simp
    ultimately show ?thesis
      by (simp add: get_elems_def get_block_dec_def dbind_def on_dbuf_def dfail_def Let_def flip: bytes_def)
  next
    case True
    let ?xs = "take (unat bytes) (octets (dbuf d))"
    obtain b where b: "Octet_Buffer.get bytes (dbuf d) = Some (Some ?xs, b)" "reads (dbuf d) ?xs b"
      using get_reads [OF wf True] by auto
    have e: "b = (dbuf d)\<lparr>rptr := rptr (dbuf d) + bytes\<rparr>"
      and tk: "mem_read (mem (dbuf d)) (unat (rptr (dbuf d))) (k * unat l) = Some ?xs"
      using b(1) by (auto simp: Octet_Buffer.get_def take_octets_def simp flip: kl
          split: if_splits elim!: bind_cases)
    have "rptr (dbuf d) + bytes \<le> wptr (dbuf d)" using b(2) e by (auto simp: reads_def buf_wf_def)
    then have s: "snd (rseek_rel bytes (dbuf d)) = b" using e by (simp add: rseek_rel_def not_less)
    have nl: "\<not> buf_length (dbuf d) < bytes"
      using True unat_buf_length [OF wf] by (simp add: word_less_nat_alt)
    have c: "consumes d ?xs (d\<lparr>dbuf := b\<rparr>)" unfolding consumes_def using b(2) by blast
    have "\<exists>v. get_elems k swapk l d = Some (Some v :: 'a word list option, d\<lparr>dbuf := b\<rparr>)"
      by (simp add: get_elems_def get_block_dec_def dbind_def on_dbuf_def dret_def Let_def b(1) nl lc tk s
          flip: bytes_def)
    with c show ?thesis by blast
  qed
qed

lemma safe_get_fparray:
  fixes one :: "'a::len word dec"
  assumes "safe one" and "1 \<le> al" and "unat al < 1000" and "unat l < 2147483648"
  shows "safe (get_fparray al k one l)"
proof -
  have lc: "loop_count l = Some (unat l)" by (rule loop_count_small [OF assms(4)])
  have block: "safe (dbind (get_block_dec (word_of_nat k * l))
      (\<lambda>xs. dret (map (image_word mb) (group k (length xs div k) xs) :: 'a word list)))" for mb
    unfolding get_block_dec_def by (intro safe_intros)
  have "safe (\<lambda>d. if d_data_bo d = d_mach_bo d
      then dbind (get_block_dec (word_of_nat k * l))
        (\<lambda>xs. dret (map (image_word (d_mach_bo d)) (group k (length xs div k) xs) :: 'a word list)) d
      else dec_loop one (unat l) d)"
    by (rule safe_state [where m = "\<lambda>c e. if d_data_bo c = d_mach_bo c
        then dbind (get_block_dec (word_of_nat k * l))
          (\<lambda>xs. dret (map (image_word (d_mach_bo c)) (group k (length xs div k) xs))) e
        else dec_loop one (unat l) e"])
      (intro safe_if block safe_dec_loop assms(1))
  then show ?thesis
    unfolding get_fparray_def lc Option.bind.bind_lunit
    by (intro safe_dbind safe_ralign safe_check_chunk assms(2,3)) simp
qed

text \<open>Every array read of the codec, for a count that a decoder of that size can hold.\<close>

lemma safe_arrays [safe_intros]:
  assumes "unat l < 268435456"
  shows "safe (get_shorts l)" "safe (get_ushorts l)" "safe (get_longs l)" "safe (get_ulongs l)"
    "safe (get_longlongs l)" "safe (get_ulonglongs l)" "safe (get_floats l)" "safe (get_doubles l)"
    "safe (get_longdoubles l)" "safe (get_chars l)" "safe (get_booleans l)"
  unfolding get_shorts_def get_ushorts_def get_longs_def get_ulongs_def get_longlongs_def
    get_ulonglongs_def get_floats_def get_doubles_def get_longdoubles_def get_chars_def
    get_booleans_def get_array_def get_block_dec_def
  by (intro safe_intros safe_get_elems safe_get_fparray; use assms in simp)+

text \<open>The count a sequence header gives is bounded by the octets left in the message.\<close>

lemma safe_seq [safe_intros]:
  assumes "\<And>l. unat l < 268435456 \<Longrightarrow> safe (f l)"
  shows "safe (dbind dec_seq_begin f)"
proof -
  have eq: "dbind dec_seq_begin f d =
      dbind get_ulong (\<lambda>l d. if l > buf_length (dbuf d) then dfail d else f l d) d" for d
    by (auto simp: dbind_def dec_seq_begin_def dret_def dfail_def split: option.splits)
  have "safe (\<lambda>d. if l > buf_length (dbuf d) then dfail d else f l d)" for l
  proof (cases "unat l < 268435456")
    case True
    then show ?thesis by (intro safe_intros assms)
  next
    case False
    have "safe (dfail :: 'b dec)" by (rule safe_dfail)
    then show ?thesis
    proof (rule safe_cong)
      fix d assume d: "dec_fine d"
      have wf: "buf_wf (dbuf d)" "unat (wptr (dbuf d)) < 268435456"
        using d by (auto simp: dec_fine_def dec_ok_def)
      then have "unat (buf_length (dbuf d)) < 268435456" by (simp add: unat_buf_length)
      then have "l > buf_length (dbuf d)" using False by (simp add: word_less_nat_alt)
      then show "(if l > buf_length (dbuf d) then dfail d else f l d) = dfail d" by simp
    qed
  qed
  then have "safe (dbind get_ulong (\<lambda>l d. if l > buf_length (dbuf d) then dfail d else f l d))"
    by (rule safe_dbind [OF safe_primitives(4)])
  then show ?thesis by (rule safe_cong) (simp add: eq)
qed

lemma safe_seq_begin: "safe dec_seq_begin" "safe dec_enumeration"
  unfolding dec_seq_begin_def dec_enumeration_def by (intro safe_intros)+

lemma safe_get_prim: "k \<noteq> Except \<Longrightarrow> safe (get_prim k)"
  by (cases k)
    (auto intro!: safe_intros simp: dec_enumeration_def seq_demarshal_def
      TCSeqShort_demarshal_def TCSeqUShort_demarshal_def TCSeqLong_demarshal_def
      TCSeqULong_demarshal_def TCSeqLongLong_demarshal_def TCSeqULongLong_demarshal_def
      TCSeqFloat_demarshal_def TCSeqDouble_demarshal_def TCSeqLongDouble_demarshal_def
      TCSeqChar_demarshal_def TCSeqBoolean_demarshal_def TCSeqOctet_demarshal_def)

text \<open>An encapsulation changes the alignment base and the byte order, and puts them back.\<close>

lemma safe_encaps:
  assumes "safe (m :: 'a dec)"
  shows "safe (dbind (dec_encaps_begin s) (\<lambda>(st, len). dbind m (\<lambda>v.
     dbind (dec_encaps_end st) (\<lambda>_. dret (f v)))))" (is "safe ?M")
  unfolding safe_def
proof (intro allI impI)
  fix d assume d: "dec_fine d"
  let ?goal = "\<exists>r d'. ?M d = Some (r, d') \<and> moves d d' \<and>
     (r \<noteq> None \<longrightarrow> ralignbase (dbuf d') = ralignbase (dbuf d) \<and> d_data_bo d' = d_data_bo d)"
  let ?st = "s\<lparr>es_align := ralignbase (dbuf d), es_bo := d_data_bo d\<rparr>"
  obtain r e where e: "get_ulong d = Some (r, e)" "moves d e"
    using safeD [OF safe_primitives(4) d] by metis
  have body: ?goal if g: "dec_encaps_begin s d = Some (Some (?st, len), g)" "dec_fine g"
    "wptr (dbuf g) = wptr (dbuf d)" "rptr (dbuf d) \<le> rptr (dbuf g)" for g len
  proof -
    obtain q h where h: "m g = Some (q, h)" "moves g h" using safeD [OF assms g(2)] by metis
    have "rptr (dbuf d) \<le> rptr (dbuf h)" using h(2) g(4) by (auto simp: moves_def)
    moreover have "ralignbase (dbuf d) \<le> rptr (dbuf d)" using d by (simp add: dec_fine_def dec_ok_def)
    ultimately have "ralignbase (dbuf d) \<le> rptr (dbuf h)" by simp
    then have fine: "dec_fine (set_ralign_base (ralignbase (dbuf d)) (dec_set_byteorder (d_data_bo d) h))"
      using h(2) d by (auto simp: moves_def dec_fine_def dec_ok_def set_ralign_base_def dec_set_byteorder_def)
    then show ?thesis
      using g h \<open>rptr (dbuf d) \<le> rptr (dbuf h)\<close>
      by (cases q) (auto simp: dbind_def dec_encaps_end_def dret_def moves_def set_ralign_base_def
          dec_set_byteorder_def)
  qed
  show ?goal
  proof (cases "r = None \<or> (the r > buf_length (dbuf e))")
    case True
    then show ?thesis using e
      by (cases r) (auto simp: dbind_def dec_encaps_begin_def Let_def dfail_def)
  next
    case False
    then obtain len where len: "r = Some len" "\<not> len > buf_length (dbuf e)" by auto
    let ?e = "set_ralign_base (rptr (dbuf e)) e"
    have fe: "dec_fine ?e" using e(2) by (auto simp: moves_def dec_fine_def dec_ok_def set_ralign_base_def)
    have we: "wptr (dbuf ?e) = wptr (dbuf d)" "rptr (dbuf d) \<le> rptr (dbuf ?e)"
      using e(2) by (auto simp: moves_def set_ralign_base_def)
    show ?thesis
    proof (cases "len = 0")
      case True
      then show ?thesis using body [of 0 ?e] fe we e(1) len
        by (simp add: dec_encaps_begin_def dbind_def dret_def Let_def dec_byteorder_def)
    next
      case False
      obtain q h where h: "get_octet ?e = Some (q, h)" "moves ?e h"
        using safeD [OF safe_primitives(10) fe] by metis
      show ?thesis
      proof (cases q)
        case None
        then show ?thesis using e(1) len False h moves_trans [of d ?e h] we fe
          by (auto simp: dec_encaps_begin_def dbind_def dret_def Let_def moves_def)
      next
        case (Some bo)
        let ?h = "dec_set_byteorder (if bo = 0 then BigEndian else LittleEndian) h"
        have "dec_fine ?h" using h(2)
          by (auto simp: moves_def dec_fine_def dec_ok_def dec_set_byteorder_def real_bo_def)
        moreover have "wptr (dbuf ?h) = wptr (dbuf d)" "rptr (dbuf d) \<le> rptr (dbuf ?h)"
          using h(2) we by (auto simp: moves_def dec_set_byteorder_def)
        moreover have "dec_encaps_begin s d = Some (Some (?st, len - 1), ?h)"
          using e(1) len False h(1) Some
          by (simp add: dec_encaps_begin_def dbind_def dret_def Let_def dec_byteorder_def)
        ultimately show ?thesis by (rule body [rotated])
      qed
    qed
  qed
qed

section \<open>Every message shape\<close>

fun no_except :: "kind \<Rightarrow> bool" where
  "no_except (K_prim k) = (k \<noteq> Except)"
| "no_except (K_struct ks) = list_all no_except ks"
| "no_except (K_seq k) = no_except k"
| "no_except (K_encaps ks) = list_all no_except ks"

lemma safe_get_item:
  "no_except k \<Longrightarrow> safe (get_item k)" "list_all no_except ks \<Longrightarrow> safe (get_items ks)"
proof (induction k and ks rule: get_item_get_items.induct)
  case (1 k)
  then show ?case using safe_get_prim by (auto intro: safe_intros)
next
  case (4 ks)
  then show ?case using safe_encaps [of "get_items ks" no_encaps I_encaps] by simp
qed (auto intro: safe_intros)

section \<open>Properties\<close>


text \<open>A concrete decoder on a little-endian machine, over given octets.\<close>

definition over_octets :: "octet list \<Rightarrow> decoder" where
  "over_octets xs = new_decoder LittleEndian
     (the (Octet_Buffer.put xs (word_of_nat (length xs)) (buffer_new 0 0))) LittleEndian None"

lemma over_octets_facts:
  assumes "length xs < 1000"
  shows "dec_fine (over_octets xs)" and "octets (dbuf (over_octets xs)) = xs"
    and "roffd (over_octets xs) = 0" and "d_data_bo (over_octets xs) = LittleEndian"
    and "d_vstate (over_octets xs) = None" and "calm n (over_octets xs)"
proof -
  have u: "unat (word_of_nat (length xs) :: ulong) = length xs" using assms by (simp add: nowrap)
  have z: "wptr (buffer_new 0 0) = 0" "rptr (buffer_new 0 0) = 0" "ralignbase (buffer_new 0 0) = 0"
    by (simp_all add: buffer_new_def Let_def)
  obtain b where b: "Octet_Buffer.put xs (word_of_nat (length xs)) (buffer_new 0 0) = Some b"
    "writes (buffer_new 0 0) xs b"
    using put_writes [OF buffer_new_wf(1) [of 0 0], of "word_of_nat (length xs)" xs] assms u z by auto
  have d: "over_octets xs = new_decoder LittleEndian b LittleEndian None"
    by (simp add: over_octets_def b(1))
  show "dec_fine (over_octets xs)" "octets (dbuf (over_octets xs)) = xs"
    "roffd (over_octets xs) = 0" "d_data_bo (over_octets xs) = LittleEndian"
    "d_vstate (over_octets xs) = None" "calm n (over_octets xs)"
    using b(2) z assms buffer_new_wf(2) [of 0 0] unfolding d
    by (auto simp: writes_def dec_fine_def dec_ok_def new_decoder_def real_bo_def roff_def
        calm_def dec_cur_def)
qed


text \<open>An unterminated string. For a length followed by that many octets none of which is
  zero, \<open>get_string\<close> reports success where \<open>get_string_raw\<close> refuses, and \<open>get_string_stl\<close>, which
  copies the result as a C string, reads past the end of the allocation.\<close>

theorem string_terminator_unchecked:
  assumes "dec_ok d" and "length ps = padlen (roffd d) 4" and "calm (length ps + 4) d"
    and "octets (dbuf d) = ps @ word_image (d_data_bo d) 4 (len :: ulong) @ xs @ rest"
    and "unat len = length xs" and "xs \<noteq> []" and "0 \<notin> set xs"
  shows "\<exists>d'. get_string d = Some (Some xs, d') \<and> get_string_raw d = Some (None, d') \<and>
     get_string_stl d = None"
proof -
  have "last xs \<noteq> 0" using assms(6,7) last_in_set [of xs] by metis
  then obtain d' where "get_string d = Some (Some xs, d')" "get_string_raw d = Some (None, d')"
    using get_string_consumes [OF assms(1-6)] by auto
  then show ?thesis using assms(7) by (simp add: get_string_stl_def dbind_def c_string_def)
qed

theorem string_terminator_unchecked_witness:
  "get_string_stl (over_octets [2, 0, 0, 0, 65, 66, 0]) = None"
proof -
  let ?d = "over_octets [2, 0, 0, 0, 65, 66, 0]"
  have im: "word_image LittleEndian 4 (2 :: ulong) = [2, 0, 0, 0]" by code_simp
  have "octets (dbuf ?d) = [] @ word_image (d_data_bo ?d) 4 (2 :: ulong) @ [65, 66] @ [0]"
    by (simp add: over_octets_facts im)
  moreover have "dec_ok ?d" using over_octets_facts(1) by (simp add: dec_fine_def)
  ultimately show ?thesis
    using string_terminator_unchecked [of ?d "[]" 2 "[65, 66]" "[0]"]
    by (auto simp: over_octets_facts padlen_def)
qed

end
