(* ===== verification/CDR_Value.thy ===== *)
theory CDR_Value
  imports CDR_Robust
begin

text \<open>
  Value types (\<open>value_begin\<close>, \<open>value_end\<close> and \<open>value_ref\<close> of orb/codec.cc): the value header with
  its tag, code base url and repository ids, indirections to earlier values, and chunks, whose
  length is written behind the encoder and tested before every aligned read of the decoder. The
  state struct that the operations take is the coder's own (the calls without a state argument
  pass it), so it is the field \<open>e_vstate\<close> or \<open>d_vstate\<close>. The maps \<open>visited\<close> of the two states,
  which only \<open>ValueBase\<close> uses, are not part of the model.
\<close>

section \<open>Encoder\<close>

definition enc_vstate_init :: enc_vstate where
  "enc_vstate_init = \<lparr>chunk_level = 0x7fffffff, enc_nesting = 0, tag_pos = -1\<rparr>"

text \<open>Close the chunk whose length tag is at \<open>tag\<close>: drop an empty one, else write its length.\<close>

definition close_chunk :: "ulong \<Rightarrow> encoder \<Rightarrow> encoder option" where
  "close_chunk tag e = do {
     pos \<leftarrow> wpos (ebuf e);
     if unat tag + 4 = unat pos then on_ebuf (wseek_beg tag) e
     else do {
       e \<leftarrow> on_ebuf (wseek_beg tag) e;
       e \<leftarrow> put_long (pos - tag - 4) e;
       on_ebuf (wseek_beg pos) e
     }
   }"

definition value_tag_of :: "octet list \<Rightarrow> octet list list \<Rightarrow> bool \<Rightarrow> ulong" where
  "value_tag_of url repoids chunk =
     (let value_tag = 0x7fffff00;
          value_tag = (if length url > 0 then or value_tag 0x01 else value_tag);
          value_tag = (if length repoids = 1 then or value_tag 0x02
                       else if length repoids > 1 then or value_tag 0x06 else value_tag)
      in if chunk then or value_tag 0x08 else value_tag)"

definition put_repoids :: "octet list list \<Rightarrow> encoder \<Rightarrow> encoder option" where
  "put_repoids repoids e =
     (if length repoids = 1 then put_string_stl (repoids ! 0) e
      else if length repoids > 1 then do {
        require (length repoids < 4294967295);
        e \<leftarrow> enc_seq_begin (word_of_nat (length repoids)) e;
        enc_loop put_string_stl repoids e
      } else Some e)"

definition enc_value_begin ::
    "octet list \<Rightarrow> octet list list \<Rightarrow> bool \<Rightarrow> encoder \<Rightarrow> (ulong \<times> encoder) option" where
  "enc_value_begin url repoids chunked e = do {
     state \<leftarrow> e_vstate e;
     e \<leftarrow> (if sint (chunk_level state) \<le> sint (enc_nesting state) \<and> sint (tag_pos state) \<ge> 0
          then close_chunk (tag_pos state) e else Some e);
     let state = state\<lparr>enc_nesting := enc_nesting state + 1\<rparr>;
     let state = (if chunked \<and> sint (chunk_level state) > sint (enc_nesting state)
                  then state\<lparr>chunk_level := enc_nesting state\<rparr> else state);
     let chunk = (sint (chunk_level state) \<le> sint (enc_nesting state));
     e \<leftarrow> put_long (value_tag_of url repoids chunk) e;
     pos \<leftarrow> wpos (ebuf e);
     let value_id = pos - 4 + 1;
     e \<leftarrow> (if length url > 0 then put_string_stl url e else Some e);
     e \<leftarrow> put_repoids repoids e;
     if chunk then do {
       e \<leftarrow> put_long 0 e;
       pos \<leftarrow> wpos (ebuf e);
       Some (value_id, e\<lparr>e_vstate := Some (state\<lparr>tag_pos := pos - 4\<rparr>)\<rparr>)
     } else Some (value_id, e\<lparr>e_vstate := Some state\<rparr>)
   }"

definition enc_value_end :: "encoder \<Rightarrow> encoder option" where
  "enc_value_end e = do {
     state \<leftarrow> e_vstate e;
     require (sint (enc_nesting state) > 0);
     if \<not> sint (chunk_level state) \<le> sint (enc_nesting state)
     then Some (e\<lparr>e_vstate := Some (state\<lparr>enc_nesting := enc_nesting state - 1\<rparr>)\<rparr>)
     else do {
       e \<leftarrow> (if sint (tag_pos state) \<ge> 0 then close_chunk (tag_pos state) e else Some e);
       e \<leftarrow> put_long (- enc_nesting state) e;
       let state = state\<lparr>enc_nesting := enc_nesting state - 1\<rparr>;
       if sint (enc_nesting state) > 0 \<and> sint (chunk_level state) \<le> sint (enc_nesting state)
       then do {
         e \<leftarrow> put_long 0 e;
         pos \<leftarrow> wpos (ebuf e);
         Some (e\<lparr>e_vstate := Some (state\<lparr>tag_pos := pos - 4\<rparr>)\<rparr>)
       } else Some (e\<lparr>e_vstate := Some (state\<lparr>chunk_level := 0x7fffffff, tag_pos := -1\<rparr>)\<rparr>)
     }
   }"

definition enc_value_ref :: "ulong \<Rightarrow> encoder \<Rightarrow> encoder option" where
  "enc_value_ref value_id e =
     (if value_id = 0 then put_long 0 e
      else do {
        e \<leftarrow> put_long 0xffffffff e;
        pos \<leftarrow> wpos (ebuf e);
        put_long (value_id - 1 - pos) e
      })"

section \<open>Decoder\<close>

definition dec_rpos :: "ulong dec" where
  "dec_rpos d = Some (Some (rptr (dbuf d)), d)"

text \<open>\<open>buf->rseek_beg (p)\<close> with its result ignored.\<close>

definition dec_seek :: "ulong \<Rightarrow> unit dec" where
  "dec_seek p d = Some (Some (), d\<lparr>dbuf := snd (rseek_beg p (dbuf d))\<rparr>)"

definition get_indirect :: "'a dec \<Rightarrow> 'a dec" where
  "get_indirect body =
     dbind dec_rpos (\<lambda>rpos. dbind get_ulong (\<lambda>tag.
       if tag = 0xffffffff
       then dbind dec_rpos (\<lambda>rpos. dbind get_long (\<lambda>indir. dbind dec_rpos (\<lambda>back1.
              dbind (dec_rseek_beg (indir + rpos)) (\<lambda>_. dbind body (\<lambda>s.
                dbind (dec_seek back1) (\<lambda>_. dret s))))))
       else dbind (dec_seek rpos) (\<lambda>_. body)))"

definition get_indirect_string :: "octet list dec" where
  "get_indirect_string = get_indirect get_string_stl"

definition get_indirect_string_seq :: "octet list list dec" where
  "get_indirect_string_seq =
     get_indirect (dbind dec_seq_begin (\<lambda>len. dec_loop get_string_stl (unat len)))"

text \<open>What \<open>value_begin\<close> stores through its arguments; \<open>None\<close> where it leaves them alone.\<close>

record value_head =
  vh_url :: "octet list option"
  vh_repoids :: "octet list list option"
  vh_id :: ulong
  vh_is_ref :: bool

definition value_header :: "ulong \<Rightarrow> ulong \<Rightarrow> value_head dec" where
  "value_header value_tag value_id =
     dbind (if and value_tag 0x01 \<noteq> 0 then dec_map Some get_indirect_string else dret None) (\<lambda>url.
     dbind (if and value_tag 0x06 = 0x02 then dec_map (\<lambda>s. [s]) get_indirect_string
            else if and value_tag 0x06 = 0x06 then get_indirect_string_seq
            else dret []) (\<lambda>repoids d.
       let d = (if and value_tag 0x08 \<noteq> 0 then with_cur (\<lambda>s. s\<lparr>chunking := True\<rparr>) d else d);
           r = dret \<lparr>vh_url = url, vh_repoids = Some repoids, vh_id = value_id, vh_is_ref = False\<rparr>
       in do {
         s \<leftarrow> dec_cur d;
         if chunking s
         then dbind begin_chunk (\<lambda>_. r) (with_cur (\<lambda>s. s\<lparr>nesting_level := nesting_level s + 1\<rparr>) d)
         else r d
       }))"

text \<open>\<open>fuel\<close> counts the values decoded anew behind indirections, which recurse.\<close>

fun dec_value_begin :: "nat \<Rightarrow> value_head dec" where
  "dec_value_begin 0 d = None"
| "dec_value_begin (Suc fuel) d =
     (case d_vstate d of None \<Rightarrow> None | Some _ \<Rightarrow>
      dbind get_ulong (\<lambda>value_tag.
        if value_tag = 0xffffffff
        then dbind get_long (\<lambda>indir d. do {
            state \<leftarrow> d_vstate d;
            let value_id = rptr (dbuf d) - 4 + indir + 1;
            let ref = \<lparr>vh_url = None, vh_repoids = None, vh_id = value_id, vh_is_ref = True\<rparr>;
            case skipped state value_id of
              None \<Rightarrow> dret ref d
            | Some s1 \<Rightarrow>
                if sint (saved_pos s1) < 0
                then let tmp_state = (cur state)\<lparr>saved_pos := rptr (dbuf d)\<rparr>;
                         d = d\<lparr>d_vstate := Some (state\<lparr>cur := s1,
                               skipped := (skipped state)(value_id \<mapsto> tmp_state)\<rparr>)\<rparr>
                     in dbind (dec_seek (value_id - 1)) (\<lambda>_. dec_value_begin fuel) d
                else dret ref d
          })
        else if value_tag = 0
        then dret \<lparr>vh_url = None, vh_repoids = None, vh_id = 0, vh_is_ref = True\<rparr>
        else if \<not> (0x7fffff00 \<le> value_tag \<and> value_tag \<le> 0x7fffffff) then dfail
        else dbind dec_rpos (\<lambda>pos. value_header value_tag (pos - 4 + 1))) d)"

text \<open>
  The end of \<open>value_end\<close>: step back before an end tag that closes an outer value as well, and
  leave one level.
\<close>

definition leave_value :: "ulong \<Rightarrow> ulong \<Rightarrow> unit dec" where
  "leave_value level pos d = do {
     s \<leftarrow> dec_cur d;
     let d = (if sint level < sint (nesting_level s)
              then d\<lparr>dbuf := snd (rseek_beg pos (dbuf d))\<rparr> else d);
     let n = nesting_level s - 1;
     dret () (with_cur (\<lambda>s. s\<lparr>nesting_level := n, chunking := (if n = 0 then False else chunking s)\<rparr>) d)
   }"

text \<open>
  \<open>value_end\<close> and its loop over what is left of the value: \<open>fuel\<close> bounds the tags it meets.
\<close>

fun dec_value_end :: "nat \<Rightarrow> ulong \<Rightarrow> unit dec"
  and skip_tags :: "nat \<Rightarrow> ulong \<Rightarrow> ulong \<Rightarrow> unit dec" where
  "dec_value_end 0 finished_value_id d = None"
| "dec_value_end (Suc fuel) finished_value_id d = do {
     state \<leftarrow> d_vstate d;
     let rest = (if chunking (cur state)
                 then dbind end_chunk (\<lambda>_ d. do {
                        s \<leftarrow> dec_cur d;
                        skip_tags fuel (nesting_level s + 1) 0 d
                      }) d
                 else dret () d);
     case skipped state finished_value_id of
       None \<Rightarrow> rest
     | Some s1 \<Rightarrow>
         if sint (saved_pos s1) \<ge> 0
         then let d = d\<lparr>dbuf := snd (rseek_beg (saved_pos s1) (dbuf d)),
                        d_vstate := Some (state\<lparr>cur := s1\<lparr>saved_pos := -1\<rparr>,
                          skipped := (skipped state)(finished_value_id := None)\<rparr>)\<rparr>
              in dret () d
         else rest
   }"
| "skip_tags 0 level pos d = None"
| "skip_tags (Suc fuel) level pos d = do {
     s \<leftarrow> dec_cur d;
     if sint level > sint (nesting_level s)
     then dbind dec_rpos (\<lambda>pos. dbind get_long (\<lambda>tag.
            if 0 < sint tag \<and> sint tag < 0x7fffff00
            then dbind (dec_seek pos) (\<lambda>_. dbind begin_chunk (\<lambda>_. dbind end_chunk (\<lambda>_.
                   skip_tags fuel level pos)))
            else if sint tag < 0 then skip_tags fuel (- tag) pos
            else dbind (dec_seek pos) (\<lambda>_ d. do {
                   saved_state \<leftarrow> dec_cur d;
                   dbind (dec_value_begin (Suc fuel)) (\<lambda>h.
                     if vh_is_ref h then skip_tags fuel level pos
                     else dbind (dec_value_end fuel (vh_id h)) (\<lambda>_ d. do {
                            state \<leftarrow> d_vstate d;
                            skip_tags fuel level pos (d\<lparr>d_vstate := Some (state\<lparr>skipped :=
                              (skipped state)(vh_id h \<mapsto> saved_state\<lparr>saved_pos := -1\<rparr>)\<rparr>)\<rparr>)
                          })) d
                 }))) d
     else leave_value level pos d
   }"

section \<open>Chunk bookkeeping\<close>

text \<open>The inner test of \<open>begin_chunk\<close> resolved: with no chunk open it is TRUE.\<close>

lemma begin_chunk_inner_eq:
  assumes "\<And>s. dec_cur d = Some s \<Longrightarrow> end_of_chunk s = -1"
  shows "begin_chunk d = begin_chunk_inner d"
proof -
  have "check_chunk e = Some (Some (), e)" if "dec_ralign 4 d = Some (Some (), e)" for e
  proof -
    have "dec_cur e = dec_cur d" using that by (auto simp: dec_ralign_def dec_cur_def split: if_splits elim!: bind_cases)
    then show ?thesis using assms by (auto simp: check_chunk_def dret_def split: option.splits)
  qed
  then have "get_long d = dbind (dec_ralign 4) (\<lambda>_. get_ordered get4 swap4) d"
    by (auto simp: get_long_def dbind_def split: option.splits)
  moreover have "dbind (dbind (dec_ralign 4) (\<lambda>_. get_ordered get4 swap4)) f d =
      dbind (dec_ralign 4) (\<lambda>_. dbind (get_ordered get4 swap4) f) d" for f :: "ulong \<Rightarrow> unit dec"
    by (auto simp: dbind_def split: option.splits)
  ultimately show ?thesis
    by (auto simp: begin_chunk_def begin_chunk_inner_def dbind_def split: option.splits)
qed

lemma calm_idle: "dec_cur d = Some s \<Longrightarrow> \<not> chunking s \<or> end_of_chunk s = -1 \<Longrightarrow> calm n d"
  by (auto simp: calm_def)

lemma consumes_cur [simp]: "consumes d xs d' \<Longrightarrow> d_vstate d' = d_vstate d"
  by (rule consumes_fields)

lemma put_long_eq: "put_long = put_ulong"
  by (rule ext)+ (simp add: put_long_def put_ulong_def)

lemma get_long_eq: "get_long = get_ulong"
  by (simp add: get_long_def get_ulong_def)

text \<open>A word is put at the next aligned position: from there on the alignment adds nothing.\<close>

lemma put_ulong_aligned:
  assumes ok: "enc_ok e" and room: "has_room 8 e"
  shows "\<exists>e1. emits e (pad (woffe e) 4) e1 \<and> pad (woffe e1) 4 = [] \<and> enc_ok e1 \<and> has_room 4 e1 \<and>
     (\<forall>v. put_ulong v e = put_ulong v e1)"
proof -
  have "has_room (unat (4 :: ulong)) e" using room by (rule has_room_mono) simp
  then obtain e1 where e1: "on_ebuf (walign 4) e = Some e1" "emits e (pad (woffe e) 4) e1"
    using walign_emits [OF ok, of 4] by auto
  note ok1 = emits_ok [OF e1(2) ok]
  have al: "4 dvd woffe e1"
    using woffe_emits [OF e1(2) ok] padlen_aligned [of 4 0 "woffe e"] by simp
  have wf: "buf_wf (ebuf e1)" "walignbase (ebuf e1) \<le> wptr (ebuf e1)" using ok1 by (auto simp: enc_ok_def)
  have "walign 4 (ebuf e1) = Some (ebuf e1)"
    using walign_fits [OF wf, of 4] al buf_wfD(3) [OF wf(1)]
    by (simp add: padlen_dvd pad_dvd store_octets_nil [OF wf(1)])
  then have "on_ebuf (walign 4) e1 = Some e1" by (simp add: on_ebuf_def)
  then have "put_ulong v e = put_ulong v e1" for v by (simp add: put_ulong_def e1(1))
  moreover have "has_room 4 e1"
    using padlen_less [of 4 "woffe e"] by (intro has_room_emits [OF e1(2)] has_room_mono [OF room]) simp
  ultimately show ?thesis using e1(2) ok1 al by (auto simp: pad_dvd)
qed

text \<open>Closing a chunk that holds data writes its length where the tag was reserved.\<close>

lemma close_chunk_emits:
  assumes ok: "enc_ok e" and al: "pad (woffe e) 4 = []" and room: "has_room 8 e"
    and em: "emits e (z @ body) f" and z: "length z = 4" and ne: "body \<noteq> []"
  shows "\<exists>g. close_chunk (wptr (ebuf e)) f = Some g \<and>
     emits e (word_image (e_data_bo e) 4 (word_of_nat (length body) :: ulong) @ body) g"
proof -
  note ff = emits_fields [OF em]
  have emf: "emits e (pad (woffe e) 4 @ z @ body) f" using em by (simp add: al)
  define v where "v = wptr (ebuf f) - wptr (ebuf e) - 4"
  obtain h where h: "on_ebuf (wseek_beg (wptr (ebuf e))) f =
      Some (f\<lparr>ebuf := (ebuf f)\<lparr>wptr := wptr (ebuf e)\<rparr>\<rparr>)"
    "put_ulong v (f\<lparr>ebuf := (ebuf f)\<lparr>wptr := wptr (ebuf e)\<rparr>\<rparr>) = Some h"
    "emits e (pad (woffe e) 4 @ word_image (e_data_bo e) 4 v @ body)
       (h\<lparr>ebuf := (ebuf h)\<lparr>wptr := wptr (ebuf f)\<rparr>\<rparr>)"
    "on_ebuf (wseek_beg (wptr (ebuf f))) h = Some (h\<lparr>ebuf := (ebuf h)\<lparr>wptr := wptr (ebuf f)\<rparr>\<rparr>)"
    using patch_ulong [OF ok emf z room, of v] by blast
  have w: "unat (wptr (ebuf f)) = unat (wptr (ebuf e)) + (4 + length body)" using ff(5) z by simp
  then have "unat (wptr (ebuf f) - wptr (ebuf e)) = 4 + length body" by (simp add: nowrap word_le_nat_alt)
  moreover from this have "(4 :: ulong) \<le> wptr (ebuf f) - wptr (ebuf e)" by (simp add: word_le_nat_alt)
  ultimately have uv: "unat v = length body" by (simp add: v_def nowrap)
  have v: "v = word_of_nat (length body)" unfolding uv [symmetric] by simp
  have "\<not> readonly (ebuf f)" using ff(9) by (rule buf_wfD)
  moreover have "unat (wptr (ebuf e)) + 4 \<noteq> unat (wptr (ebuf f))" using w ne by simp
  ultimately have "close_chunk (wptr (ebuf e)) f = Some (h\<lparr>ebuf := (ebuf h)\<lparr>wptr := wptr (ebuf f)\<rparr>\<rparr>)"
    using h(1,2,4) by (simp add: close_chunk_def wpos_def put_long_eq v_def)
  then show ?thesis using h(3) by (auto simp: al v)
qed

text \<open>Stepping back to the start of what a read has consumed undoes the read.\<close>

lemma seek_undo:
  assumes "consumes d xs f"
  shows "dec_seek (rptr (dbuf d)) f = Some (Some (), d)"
proof -
  obtain b where fb: "f = d\<lparr>dbuf := b\<rparr>" "reads (dbuf d) xs b"
    using assms unfolding consumes_def by blast
  then obtain r where b: "f = d\<lparr>dbuf := b\<rparr>" "b = (dbuf d)\<lparr>rptr := r\<rparr>" "reads (dbuf d) xs b"
    unfolding reads_def by blast
  have "rptr (dbuf d) \<le> wptr (dbuf d)"
    using b by (auto simp: reads_def buf_wf_def word_le_nat_alt)
  then show ?thesis using b(1,2) by (simp add: dec_seek_def rseek_beg_def not_less)
qed

lemma get_indirect_direct:
  assumes "get_ulong d = Some (Some tag, f)" and "consumes d xs f" and "tag \<noteq> 0xffffffff"
  shows "get_indirect body d = body d"
  using assms seek_undo [OF assms(2)] by (simp add: get_indirect_def dbind_def dec_rpos_def)

section \<open>The image of a value\<close>

abbreviation str_item :: "octet list \<Rightarrow> item" where
  "str_item s \<equiv> I_prim (P_string (s @ [0]))"

definition hdr_items :: "octet list \<Rightarrow> octet list list \<Rightarrow> item list" where
  "hdr_items url repoids =
     (if url = [] then [] else [str_item url]) @
     (case repoids of [] \<Rightarrow> [] | [r] \<Rightarrow> [str_item r]
      | _ \<Rightarrow> [I_seq (K_prim String) (map str_item repoids)])"

definition value_image ::
    "byteorder \<Rightarrow> nat \<Rightarrow> octet list \<Rightarrow> octet list list \<Rightarrow> bool \<Rightarrow> item list \<Rightarrow> octet list" where
  "value_image bo p url repoids chunk msg =
     (let t = word_at 4 4 bo p (value_tag_of url repoids chunk);
          h = items_image bo (p + length t) (hdr_items url repoids);
          q = p + length t + length h
      in if chunk
         then let r = q + (padlen q 4 + 4); b = items_image bo r msg
              in t @ h @ word_at 4 4 bo q (word_of_nat (length b) :: ulong) @ b @
                 word_at 4 4 bo (r + length b) (-1 :: ulong)
         else t @ h @ items_image bo q msg)"

definition header_ok :: "octet list \<Rightarrow> octet list list \<Rightarrow> bool" where
  "header_ok url repoids \<longleftrightarrow> 0 \<notin> set url \<and> list_all (\<lambda>r. 0 \<notin> set r) repoids"

definition header_size :: "octet list \<Rightarrow> octet list list \<Rightarrow> nat" where
  "header_size url repoids = sum_list (map item_size (hdr_items url repoids))"

lemma terminated_str [simp]: "terminated (s @ [0]) \<longleftrightarrow> 0 \<notin> set s"
  by (auto simp: terminated_def)

lemma hdr_items_ok: "header_ok url repoids \<Longrightarrow> list_all item_ok (hdr_items url repoids)"
  by (cases repoids; cases "tl repoids") (auto simp: header_ok_def hdr_items_def list_all_iff)

lemma put_none [simp]: "put_items [] = Some" "enc_loop pt [] = Some"
  by (simp_all add: fun_eq_iff)

lemma put_str_items: "put_items (map str_item rs) = enc_loop put_string_stl rs"
proof (induction rs)
  case (Cons r rs)
  show ?case by (rule ext) (simp add: Cons.IH put_string_stl_def)
qed simp

lemma put_hdr_items:
  assumes "length repoids < 4294967295"
  shows "Option.bind (if length url > 0 then put_string_stl url e else Some e) (put_repoids repoids) =
     put_items (hdr_items url repoids) e"
proof -
  have "put_repoids repoids f = put_items (hdr_items [] repoids) f" for f
  proof (cases repoids)
    case (Cons r rs)
    then show ?thesis
    proof (cases rs)
      case (Cons s ss)
      with \<open>repoids = r # rs\<close> have "length repoids > 1" by simp
      then have "hdr_items [] repoids = [I_seq (K_prim String) (map str_item repoids)]"
        and "put_repoids repoids f = Option.bind (enc_seq_begin (word_of_nat (length repoids)) f)
          (enc_loop put_string_stl repoids)"
        using assms Cons \<open>repoids = r # rs\<close> by (simp_all add: hdr_items_def put_repoids_def)
      then show ?thesis by (simp add: put_str_items)
    qed (simp add: put_repoids_def hdr_items_def put_string_stl_def)
  qed (simp add: put_repoids_def hdr_items_def)
  then have r: "put_repoids repoids = put_items (hdr_items [] repoids)" by (rule ext)
  have "url \<noteq> [] \<Longrightarrow> hdr_items url repoids = str_item url # hdr_items [] repoids"
    by (simp add: hdr_items_def)
  then show ?thesis by (cases "url = []") (simp_all add: r put_string_stl_def)
qed

lemma header_length:
  assumes "header_size url repoids < 2147483648"
  shows "length repoids < 4294967295"
proof -
  have "length rs \<le> sum_list (map item_size (map str_item rs))" for rs by (induction rs) simp_all
  then have "length repoids \<le> header_size url repoids"
    by (auto simp: header_size_def hdr_items_def split: list.splits intro: trans_le_add2)
      (metis (no_types, lifting) Suc_le_mono le_trans length_Cons list.simps(9) trans_le_add2)
  with assms show ?thesis by simp
qed

lemma emits_vstate: "emits e xs f \<Longrightarrow> emits (e\<lparr>e_vstate := s\<rparr>) xs (f\<lparr>e_vstate := s\<rparr>)"
  unfolding emits_def by (elim exE) (rule exI, auto)

lemma vstate_simps [simp]:
  "enc_ok (e\<lparr>e_vstate := s\<rparr>) = enc_ok e" "has_room n (e\<lparr>e_vstate := s\<rparr>) = has_room n e"
  by (simp_all add: enc_ok_def has_room_def)

lemma vstate_same: "emits (e\<lparr>e_vstate := s\<rparr>) xs f \<Longrightarrow> e_vstate e = s \<Longrightarrow> emits e xs f"
  by (cases e) simp

lemma vstate_back:
  assumes "emits (e\<lparr>e_vstate := s\<rparr>) xs f" and "e_vstate e = s'"
  shows "emits e xs (f\<lparr>e_vstate := s'\<rparr>)"
proof -
  have "(e\<lparr>e_vstate := s\<rparr>)\<lparr>e_vstate := s'\<rparr> = e\<lparr>e_vstate := s'\<rparr>" by simp
  with emits_vstate [OF assms(1), of s'] have "emits (e\<lparr>e_vstate := s'\<rparr>) xs (f\<lparr>e_vstate := s'\<rparr>)" by argo
  then show ?thesis by (rule vstate_same) (rule assms(2))
qed

lemma put_word_emits:
  assumes "enc_ok e" and "has_room 8 e"
  shows "\<exists>f. put_ulong v e = Some f \<and> emits e (word_at 4 4 (e_data_bo e) (woffe e) v) f"
  using ulong.put_law [OF assms(1)] assms(2) by (simp add: word_at_def)

lemma length_word_at: "length (word_at al n bo p w) = padlen p al + n"
  by (simp add: word_at_def)

section \<open>Writing a value\<close>

lemma write_value:
  assumes ok: "enc_ok e" and st: "e_vstate e = Some enc_vstate_init"
    and hdr: "header_ok url repoids" and msg: "list_all item_ok msg" and ne: "chunked \<Longrightarrow> msg \<noteq> []"
    and size: "unat (wptr (ebuf e)) + header_size url repoids + sum_list (map item_size msg) + 100 < 2147483648"
  shows "\<exists>e1 e2 e3.
     enc_value_begin url repoids chunked e =
       Some (word_of_nat (unat (wptr (ebuf e)) + padlen (woffe e) 4 + 1), e1) \<and>
     put_items msg e1 = Some e2 \<and> enc_value_end e2 = Some e3 \<and>
     emits e (value_image (e_data_bo e) (woffe e) url repoids chunked msg) e3"
proof -
  let ?bo = "e_data_bo e" and ?p = "unat (wptr (ebuf e))" and ?p4 = "padlen (woffe e) 4"
  let ?tag = "value_tag_of url repoids chunked"
  let ?t = "word_at 4 4 ?bo (woffe e) ?tag"
  let ?h = "items_image ?bo (woffe e + length ?t) (hdr_items url repoids)"
  let ?hs = "header_size url repoids" and ?ms = "sum_list (map item_size msg)"
  let ?id = "word_of_nat (?p + ?p4 + 1) :: ulong"
  let ?st = "\<lambda>c. enc_vstate_init\<lparr>enc_nesting := 1, chunk_level := (if c then 1 else 0x7fffffff)\<rparr>"
  have pl: "padlen k 4 < 4" for k by (rule padlen_less) simp
  have hl: "length ?h \<le> ?hs"
    using items_image_bounds [OF item_image_bounds hdr_items_ok [OF hdr]] by (auto simp: header_size_def)
  have ml: "length (items_image ?bo q msg) \<le> ?ms" for q
    using items_image_bounds [OF item_image_bounds msg] by auto
  have rl: "length repoids < 4294967295" using header_length [where url = url and repoids = repoids] size by simp
  have "has_room 8 e" using size by (simp add: has_room_def)
  then obtain g where g: "put_ulong ?tag e = Some g" "emits e ?t g"
    using put_word_emits [OF ok] by blast
  note gok = emits_ok [OF g(2) ok] and gw = emits_fields(5) [OF g(2)]
  have rg: "has_room ?hs g" using size pl [of "woffe e"] gw by (simp add: has_room_def length_word_at)
  obtain e1 where e1: "put_items (hdr_items url repoids) g = Some e1" "emits g ?h e1"
    using put_items_emits [OF put_item_emits gok hdr_items_ok [OF hdr]] rg
      woffe_emits [OF g(2) ok] emits_fields(1) [OF g(2)] by (auto simp: header_size_def)
  have eh: "emits e (?t @ ?h) e1" by (rule emits_trans [OF g(2) e1(2)])
  note e1ok = emits_ok [OF eh ok]
  have w1: "unat (wptr (ebuf e1)) = ?p + length ?t + length ?h" using emits_fields(5) [OF eh] by simp
  have nrg: "\<not> readonly (ebuf g)" using emits_fields(9) [OF g(2)] by (rule buf_wfD)
  have idg: "wptr (ebuf g) - 4 + 1 = ?id"
  proof -
    have "unat (wptr (ebuf g) - 4) = ?p + ?p4"
      using gw by (simp add: length_word_at nowrap word_le_nat_alt)
    moreover define w where "w = wptr (ebuf g) - 4"
    moreover have "?p + ?p4 + 1 < 4294967296" using size pl [of "woffe e"] by simp
    ultimately have "w + 1 = ?id" by (simp add: word_unat_eq_iff nowrap del: of_nat_add of_nat_Suc)
    then show ?thesis by (simp only: w_def)
  qed
  have beg: "enc_value_begin url repoids chunked e = (if chunked
      then do { f \<leftarrow> put_ulong 0 e1; pos \<leftarrow> wpos (ebuf f);
                Some (?id, f\<lparr>e_vstate := Some ((?st True)\<lparr>tag_pos := pos - 4\<rparr>)\<rparr>) }
      else Some (?id, e1\<lparr>e_vstate := Some (?st False)\<rparr>))"
  proof -
    have h: "url = [] \<Longrightarrow> put_repoids repoids g = Some e1"
      "url \<noteq> [] \<Longrightarrow> \<exists>s. put_string_stl url g = Some s \<and> put_repoids repoids s = Some e1"
      using put_hdr_items [OF rl, where e = g and url = url] e1(1) by (auto elim: bind_cases)
    show ?thesis
      using h g(1) nrg idg
      by (cases "url = []") (auto simp: enc_value_begin_def st enc_vstate_init_def put_long_eq wpos_def Let_def)
  qed
  show ?thesis
  proof (cases chunked)
    case False
    have "has_room ?ms (e1\<lparr>e_vstate := Some (?st False)\<rparr>)"
      using size w1 hl pl [of "woffe e"] by (simp add: has_room_def length_word_at)
    then obtain e2 where e2: "put_items msg (e1\<lparr>e_vstate := Some (?st False)\<rparr>) = Some e2"
      "emits (e1\<lparr>e_vstate := Some (?st False)\<rparr>) (items_image ?bo (woffe e1) msg) e2"
      using put_items_emits [OF put_item_emits _ msg, of "e1\<lparr>e_vstate := Some (?st False)\<rparr>"] e1ok
        emits_fields(1) [OF eh] by auto
    have v2: "e_vstate e2 = Some (?st False)" using emits_fields(3) [OF e2(2)] by simp
    then have fin: "enc_value_end e2 = Some (e2\<lparr>e_vstate := Some enc_vstate_init\<rparr>)"
      by (simp add: enc_value_end_def enc_vstate_init_def)
    have "emits e1 (items_image ?bo (woffe e1) msg) (e2\<lparr>e_vstate := Some enc_vstate_init\<rparr>)"
      by (rule vstate_same) (use emits_vstate [OF e2(2)] emits_fields(3) [OF eh] st in auto)
    from emits_trans [OF eh this]
    have "emits e (value_image ?bo (woffe e) url repoids chunked msg) (e2\<lparr>e_vstate := Some enc_vstate_init\<rparr>)"
      using False woffe_emits [OF eh ok] by (simp add: value_image_def Let_def add.assoc)
    moreover have "enc_value_begin url repoids chunked e = Some (?id, e1\<lparr>e_vstate := Some (?st False)\<rparr>)"
      using beg False by (simp only: if_False)
    ultimately show ?thesis using e2(1) fin by blast
  next
    case True
    then have mne: "msg \<noteq> []" using ne by simp
    have r8: "has_room 8 e1" using size w1 hl pl [of "woffe e"] by (simp add: has_room_def length_word_at)
    obtain a where a: "emits e1 (pad (woffe e1) 4) a" "pad (woffe a) 4 = []" "enc_ok a"
      "\<And>v. put_ulong v e1 = put_ulong v a"
      using put_ulong_aligned [OF e1ok r8] by blast
    note aw = emits_fields(5) [OF a(1)]
    let ?s = "(?st True)\<lparr>tag_pos := wptr (ebuf a)\<rparr>" and ?z = "word_image ?bo 4 (0 :: ulong)"
    have bo: "e_data_bo a = ?bo" using emits_fields(1) [OF a(1)] emits_fields(1) [OF eh] by simp
    have ra: "has_room 8 a" using size w1 hl pl [of "woffe e"] pl [of "woffe e1"] aw
      by (simp add: has_room_def length_word_at)
    obtain f where f: "put_ulong 0 a = Some f" "emits a ?z f"
      using put_word_emits [OF a(3) ra, of 0] a(2) bo by (auto simp: word_at_def)
    note fok = emits_ok [OF f(2) a(3)] and fw = emits_fields(5) [OF f(2)]
    have nrf: "\<not> readonly (ebuf f)" using emits_fields(9) [OF f(2)] by (rule buf_wfD)
    have tp: "wptr (ebuf f) - 4 = wptr (ebuf a)"
      using fw by (simp add: word_unat_eq_iff nowrap word_le_nat_alt)
    let ?av = "a\<lparr>e_vstate := Some ?s\<rparr>" and ?fv = "f\<lparr>e_vstate := Some ?s\<rparr>"
    have beg': "enc_value_begin url repoids chunked e = Some (?id, ?fv)"
      using beg True a(4) f(1) nrf tp by (simp add: wpos_def)
    let ?b = "items_image ?bo (woffe f) msg"
    have "has_room ?ms ?fv" using size w1 hl pl [of "woffe e"] pl [of "woffe e1"] aw fw
      by (simp add: has_room_def length_word_at)
    then obtain e2 where e2: "put_items msg ?fv = Some e2" "emits ?fv ?b e2"
      using put_items_emits [OF put_item_emits _ msg, of ?fv] fok emits_fields(1) [OF f(2)] bo by auto
    have em2: "emits ?av (?z @ ?b) e2" by (rule emits_trans [OF emits_vstate [OF f(2)] e2(2)])
    have "length msg \<le> length ?b" using items_image_bounds [OF item_image_bounds msg] by auto
    then have bne: "?b \<noteq> []" using mne by auto
    have "has_room 8 ?av" using ra by simp
    moreover have "enc_ok ?av" using a(3) by simp
    ultimately obtain c where c: "close_chunk (wptr (ebuf ?av)) e2 = Some c"
      "emits ?av (word_image ?bo 4 (word_of_nat (length ?b) :: ulong) @ ?b) c"
      using close_chunk_emits [OF _ _ _ em2 _ bne] a(2) bo by auto
    have cok: "enc_ok c" using emits_ok [OF c(2)] a(3) by simp
    have cw: "unat (wptr (ebuf c)) = unat (wptr (ebuf a)) + 4 + length ?b" using emits_fields(5) [OF c(2)] by simp
    have "has_room 8 c" using size w1 hl pl [of "woffe e"] pl [of "woffe e1"] aw cw ml [of "woffe f"]
      by (simp add: has_room_def length_word_at)
    then obtain k where k: "put_ulong (-1) c = Some k" "emits c (word_at 4 4 ?bo (woffe c) (-1 :: ulong)) k"
      using put_word_emits [OF cok, of "-1"] emits_fields(1) [OF c(2)] bo by auto
    have v2: "e_vstate e2 = Some ?s" "e_vstate k = Some ?s"
      using emits_fields(3) [OF e2(2)] emits_fields(3) [OF c(2)] emits_fields(3) [OF k(2)] by simp_all
    have small: "unat (wptr (ebuf a)) < 2147483648"
      using size w1 hl pl [of "woffe e"] pl [of "woffe e1"] aw by (simp add: length_word_at)
    then have "0 \<le> sint (wptr (ebuf a))" by (simp add: sint_ulong_small)
    then have fin: "enc_value_end e2 = Some (k\<lparr>e_vstate := Some enc_vstate_init\<rparr>)"
      using v2 c(1) k(1) by (simp add: enc_value_end_def put_long_eq enc_vstate_init_def Let_def)
    have "emits ?av ((word_image ?bo 4 (word_of_nat (length ?b) :: ulong) @ ?b) @
        word_at 4 4 ?bo (woffe c) (-1 :: ulong)) k"
      by (rule emits_trans [OF c(2) k(2)])
    then have "emits a ((word_image ?bo 4 (word_of_nat (length ?b) :: ulong) @ ?b) @
        word_at 4 4 ?bo (woffe c) (-1 :: ulong)) (k\<lparr>e_vstate := Some enc_vstate_init\<rparr>)"
      by (rule vstate_back) (simp add: emits_fields(3) [OF a(1)] emits_fields(3) [OF eh] st)
    from emits_trans [OF emits_trans [OF eh a(1)] this]
    have "emits e (value_image ?bo (woffe e) url repoids chunked msg) (k\<lparr>e_vstate := Some enc_vstate_init\<rparr>)"
      using True woffe_emits [OF eh ok] woffe_emits [OF a(1) e1ok] woffe_emits [OF f(2) a(3)]
        woffe_emits [OF c(2)] a(3)
      by (simp add: value_image_def Let_def word_at_def add.assoc)
    then show ?thesis using beg' e2(1) fin by blast
  qed
qed

end
