(* ===== verification/CDR_Image.thy ===== *)
theory CDR_Image
  imports CDR_Robust
begin

text \<open>
  A calculus for marshalling code above the coder. An image says which octets a value has at an
  offset in a byte order; \<open>appends\<close> says that a writer appends an image, \<open>takes\<close> that a reader
  given the image consumes it and returns the value. Both are closed under sequencing, loops and
  encapsulations, so a pair of writer and reader is proved by following its code. The locale
  \<open>marshalled\<close> is the contract of such a pair, with what two machines get from it.
\<close>

section \<open>Images\<close>

type_synonym image_at = "byteorder \<Rightarrow> nat \<Rightarrow> octet list"

definition im_nil :: image_at where "im_nil = (\<lambda>_ _. [])"

definition im_seq :: "image_at \<Rightarrow> image_at \<Rightarrow> image_at" where
  "im_seq im jm = (\<lambda>bo p. im bo p @ jm bo (p + length (im bo p)))"

definition im_octets :: "octet list \<Rightarrow> image_at" where "im_octets xs = (\<lambda>_ _. xs)"

definition im_ulong :: "ulong \<Rightarrow> image_at" where "im_ulong w = (\<lambda>bo p. word_at 4 4 bo p w)"

definition im_ushort :: "ushort \<Rightarrow> image_at" where "im_ushort w = (\<lambda>bo p. word_at 2 2 bo p w)"

definition im_string :: "octet list \<Rightarrow> image_at" where
  "im_string s = (\<lambda>bo p. pad p 4 @ string_image bo s)"

definition im_pad :: "nat \<Rightarrow> image_at" where "im_pad al = (\<lambda>_ p. pad p al)"

definition im_encaps :: "image_at \<Rightarrow> image_at" where
  "im_encaps im = (\<lambda>bo p. encaps_image bo p (im bo 1))"

fun im_list :: "('a \<Rightarrow> image_at) \<Rightarrow> 'a list \<Rightarrow> image_at" where
  "im_list f [] = im_nil"
| "im_list f (x # xs) = im_seq (f x) (im_list f xs)"

text \<open>A counted list, as sequences and octet strings are written.\<close>

definition im_seq_of :: "('a \<Rightarrow> image_at) \<Rightarrow> 'a list \<Rightarrow> image_at" where
  "im_seq_of f xs = im_seq (im_ulong (word_of_nat (length xs))) (im_list f xs)"

definition im_blob :: "octet list \<Rightarrow> image_at" where
  "im_blob xs = im_seq (im_ulong (word_of_nat (length xs))) (im_octets xs)"

lemma im_seq_nil [simp]: "im_seq im im_nil = im" "im_seq im_nil im = im"
  by (simp_all add: im_seq_def im_nil_def)

lemma im_seq_assoc [simp]: "im_seq (im_seq im jm) km = im_seq im (im_seq jm km)"
  by (simp add: im_seq_def add.assoc)

lemma length_im_list:
  "(\<And>x bo p. x \<in> set xs \<Longrightarrow> 1 \<le> length (im x bo p)) \<Longrightarrow> length xs \<le> length (im_list im xs bo p)"
proof (induction xs arbitrary: p)
  case (Cons x xs)
  have "1 \<le> length (im x bo p)" "length xs \<le> length (im_list im xs bo (p + length (im x bo p)))"
    using Cons by auto
  then show ?case by (simp add: im_seq_def)
qed simp

section \<open>Writers\<close>

definition appends :: "(encoder \<Rightarrow> encoder option) \<Rightarrow> image_at \<Rightarrow> nat \<Rightarrow> bool" where
  "appends f im n \<longleftrightarrow> (\<forall>bo p. length (im bo p) \<le> n) \<and>
     (\<forall>e. enc_ok e \<longrightarrow> has_room n e \<longrightarrow> (\<exists>e'. f e = Some e' \<and> emits e (im (e_data_bo e) (woffe e)) e'))"

named_theorems appends_rules

lemma appendsI:
  assumes "\<And>bo p. length (im bo p) \<le> n"
    and "\<And>e. enc_ok e \<Longrightarrow> has_room n e \<Longrightarrow> \<exists>e'. f e = Some e' \<and> emits e (im (e_data_bo e) (woffe e)) e'"
  shows "appends f im n"
  using assms by (simp add: appends_def)

lemma appends_length: "appends f im n \<Longrightarrow> length (im bo p) \<le> n"
  by (simp add: appends_def)

lemma appendsE:
  assumes "appends f im n" and "enc_ok e" and "has_room n e"
  obtains e' where "f e = Some e'" and "emits e (im (e_data_bo e) (woffe e)) e'"
  using assms by (auto simp: appends_def)

lemma appends_mono: "appends f im m \<Longrightarrow> m \<le> n \<Longrightarrow> appends f im n"
  unfolding appends_def using has_room_mono order_trans by blast

lemma appends_done [appends_rules]: "appends Some im_nil 0"
  by (rule appendsI) (simp_all add: im_nil_def)

lemma appends_bind [appends_rules]:
  assumes f: "appends f im m" and g: "appends g jm n"
  shows "appends (\<lambda>e. Option.bind (f e) g) (im_seq im jm) (m + n)"
proof (rule appendsI)
  show "length (im_seq im jm bo p) \<le> m + n" for bo p
    using appends_length [OF f] appends_length [OF g] by (simp add: im_seq_def add_mono)
next
  fix e assume e: "enc_ok e" "has_room (m + n) e"
  have "has_room m e" using e(2) by (rule has_room_mono) simp
  then obtain e1 where e1: "f e = Some e1" "emits e (im (e_data_bo e) (woffe e)) e1"
    by (rule appendsE [OF f e(1)])
  have "has_room n e1"
    by (rule has_room_emits [OF e1(2)], rule has_room_mono [OF e(2)]) (simp add: appends_length [OF f])
  then obtain e2 where e2: "g e1 = Some e2" "emits e1 (jm (e_data_bo e1) (woffe e1)) e2"
    by (rule appendsE [OF g emits_ok [OF e1(2) e(1)]])
  show "\<exists>e'. Option.bind (f e) g = Some e' \<and> emits e (im_seq im jm (e_data_bo e) (woffe e)) e'"
    using e1(1) e2(1) emits_trans [OF e1(2) e2(2)] woffe_emits [OF e1(2) e(1)]
    by (simp add: im_seq_def emits_fields(1) [OF e1(2)])
qed

lemma appends_octet [appends_rules]: "appends (put_octet x) (im_octets [x]) 2"
  by (rule appendsI) (simp_all add: im_octets_def octet_laws(1))

lemma appends_ulong [appends_rules]: "appends (put_ulong w) (im_ulong w) 8"
proof (rule appendsI)
  show "length (im_ulong w bo p) \<le> 8" for bo p
    using padlen_less [of 4 p] by (simp add: im_ulong_def word_at_def)
qed (use ulong.put_law in \<open>simp add: im_ulong_def word_at_def\<close>)

lemma appends_long [appends_rules]: "appends (put_long w) (im_ulong w) 8"
proof (rule appendsI)
  show "length (im_ulong w bo p) \<le> 8" for bo p
    using padlen_less [of 4 p] by (simp add: im_ulong_def word_at_def)
qed (use long.put_law in \<open>simp add: im_ulong_def word_at_def\<close>)

lemma appends_ushort [appends_rules]: "appends (put_ushort w) (im_ushort w) 4"
proof (rule appendsI)
  show "length (im_ushort w bo p) \<le> 4" for bo p
    using padlen_less [of 2 p] by (simp add: im_ushort_def word_at_def)
qed (use ushort.put_law in \<open>simp add: im_ushort_def word_at_def\<close>)

lemma appends_string [appends_rules]: "0 \<notin> set s \<Longrightarrow> appends (put_string_raw (s @ [0])) (im_string s) (9 + length s)"
proof (rule appendsI)
  show "length (im_string s bo p) \<le> 9 + length s" for bo p
    using padlen_less [of 4 p] by (simp add: im_string_def string_image_def)
qed (use put_string_emits in \<open>simp add: im_string_def\<close>)

lemma appends_octets [appends_rules]:
  "length xs < 4294967296 \<Longrightarrow> appends (put_octets xs (word_of_nat (length xs))) (im_octets xs) (length xs)"
  by (rule appendsI) (use put_octets_emits in \<open>simp_all add: im_octets_def nowrap\<close>)

lemma appends_blob:
  assumes "length xs < 4294967296"
  shows "appends (\<lambda>e. Option.bind (put_ulong (word_of_nat (length xs)) e) (put_octets xs (word_of_nat (length xs))))
     (im_blob xs) (8 + length xs)"
  unfolding im_blob_def by (rule appends_bind [OF appends_ulong appends_octets [OF assms]])

lemma appends_pad: "1 \<le> al \<Longrightarrow> appends (on_ebuf (walign al)) (im_pad (unat al)) (unat al)"
proof (rule appendsI)
  assume "1 \<le> al"
  then show "length (im_pad (unat al) bo p) \<le> unat al" for bo p
    using padlen_less [of "unat al" p] by (simp add: im_pad_def word_le_nat_alt)
qed (use walign_emits in \<open>simp add: im_pad_def\<close>)

lemma appends_loop:
  "(\<And>x. x \<in> set xs \<Longrightarrow> appends (pt x) (im x) (sz x)) \<Longrightarrow>
   appends (enc_loop pt xs) (im_list im xs) (sum_list (map sz xs))"
proof (induction xs)
  case Nil
  then show ?case using appends_done by (simp add: fun_eq_iff [of "enc_loop pt []" Some, symmetric] fun_eq_iff)
next
  case (Cons x xs)
  have "appends (\<lambda>e. Option.bind (pt x e) (enc_loop pt xs)) (im_seq (im x) (im_list im xs)) (sz x + sum_list (map sz xs))"
    by (rule appends_bind) (use Cons in simp_all)
  moreover have "enc_loop pt (x # xs) = (\<lambda>e. Option.bind (pt x e) (enc_loop pt xs))" by (simp add: fun_eq_iff)
  ultimately show ?case by simp
qed

text \<open>An encapsulation around what a writer appends.\<close>

lemma appends_encaps:
  assumes f: "appends f im n"
  shows "appends (\<lambda>e. do { (st, e) \<leftarrow> enc_encaps_begin e; e \<leftarrow> f e; enc_encaps_end st e }) (im_encaps im) (10 + n)"
proof (rule appendsI)
  show "length (im_encaps im bo p) \<le> 10 + n" for bo p
    using padlen_less [of 4 p] appends_length [OF f, of bo 1] by (simp add: im_encaps_def encaps_image_def)
next
  fix e assume e: "enc_ok e" "has_room (10 + n) e"
  have room: "has_room 10 e" using e(2) by (rule has_room_mono) simp
  obtain st e1 where e1: "enc_encaps_begin e = Some (st, e1)" "enc_ok e1" "woffe e1 = 1"
    "e_data_bo e1 = e_data_bo e" "unat (wptr (ebuf e1)) = unat (wptr (ebuf e)) + padlen (woffe e) 4 + 5"
    using encaps_begin_emits [OF e(1) room] by auto
  have "has_room n e1" using e(2) e1(5) padlen_less [of 4 "woffe e"] by (simp add: has_room_def)
  then obtain e2 where e2: "f e1 = Some e2" "emits e1 (im (e_data_bo e1) (woffe e1)) e2"
    by (rule appendsE [OF f e1(2)])
  then show "\<exists>e'. do { (st, e) \<leftarrow> enc_encaps_begin e; e \<leftarrow> f e; enc_encaps_end st e } = Some e' \<and>
      emits e (im_encaps im (e_data_bo e) (woffe e)) e'"
    using encaps_end_emits [OF e(1) room e1(1) e2(2)] e1 by (simp add: im_encaps_def)
qed

section \<open>Readers\<close>

text \<open>A decoder that is not inside the chunks of a value.\<close>

definition quiet :: "decoder \<Rightarrow> bool" where
  "quiet d \<longleftrightarrow> (case dec_cur d of None \<Rightarrow> True | Some s \<Rightarrow> \<not> chunking s)"

lemma quiet_calm: "quiet d \<Longrightarrow> calm n d"
  by (auto simp: quiet_def calm_def split: option.splits)

lemma quiet_consumes: "consumes d xs d' \<Longrightarrow> quiet d \<Longrightarrow> quiet d'"
  by (simp add: quiet_def consumes_fields(4))

definition takes :: "'a dec \<Rightarrow> 'a \<Rightarrow> image_at \<Rightarrow> bool" where
  "takes m v im \<longleftrightarrow> (\<forall>d rest. dec_ok d \<longrightarrow> quiet d \<longrightarrow> octets (dbuf d) = im (d_data_bo d) (roffd d) @ rest \<longrightarrow>
     (\<exists>d'. m d = Some (Some v, d') \<and> consumes d (im (d_data_bo d) (roffd d)) d'))"

named_theorems takes_rules

lemma takesI:
  assumes "\<And>d rest. dec_ok d \<Longrightarrow> quiet d \<Longrightarrow> octets (dbuf d) = im (d_data_bo d) (roffd d) @ rest \<Longrightarrow>
     \<exists>d'. m d = Some (Some v, d') \<and> consumes d (im (d_data_bo d) (roffd d)) d'"
  shows "takes m v im"
  using assms by (simp add: takes_def)

lemma takesE:
  assumes "takes m v im" and "dec_ok d" and "quiet d" and "octets (dbuf d) = im (d_data_bo d) (roffd d) @ rest"
  obtains d' where "m d = Some (Some v, d')" and "consumes d (im (d_data_bo d) (roffd d)) d'"
    and "dec_ok d'" and "quiet d'" and "octets (dbuf d') = rest"
    and "d_data_bo d' = d_data_bo d" and "roffd d' = roffd d + length (im (d_data_bo d) (roffd d))"
proof -
  obtain d' where d': "m d = Some (Some v, d')" "consumes d (im (d_data_bo d) (roffd d)) d'"
    using assms by (auto simp: takes_def)
  show thesis
    using that [OF d' consumes_ok [OF d'(2) assms(2)] quiet_consumes [OF d'(2) assms(3)]] assms(4)
      consumes_fields [OF d'(2)] roffd_consumes [OF d'(2) assms(2)] by simp
qed

lemma takes_ret [takes_rules]: "takes (dret v) v im_nil"
  by (rule takesI) (simp add: dret_def im_nil_def)

lemma takes_bind:
  assumes m: "takes m v im" and k: "takes (k v) w jm"
  shows "takes (dbind m k) w (im_seq im jm)"
proof (rule takesI)
  fix d rest
  assume d: "dec_ok d" "quiet d" "octets (dbuf d) = im_seq im jm (d_data_bo d) (roffd d) @ rest"
  then have "octets (dbuf d) = im (d_data_bo d) (roffd d) @
      (jm (d_data_bo d) (roffd d + length (im (d_data_bo d) (roffd d))) @ rest)"
    by (simp add: im_seq_def)
  from takesE [OF m d(1,2) this] obtain d1 where d1: "m d = Some (Some v, d1)"
    "consumes d (im (d_data_bo d) (roffd d)) d1" "dec_ok d1" "quiet d1"
    "octets (dbuf d1) = jm (d_data_bo d) (roffd d + length (im (d_data_bo d) (roffd d))) @ rest"
    "d_data_bo d1 = d_data_bo d" "roffd d1 = roffd d + length (im (d_data_bo d) (roffd d))" by blast
  from d1(5) have "octets (dbuf d1) = jm (d_data_bo d1) (roffd d1) @ rest" by (simp only: d1(6,7))
  from takesE [OF k d1(3,4) this] obtain d2 where d2: "k v d1 = Some (Some w, d2)"
    "consumes d1 (jm (d_data_bo d1) (roffd d1)) d2" by blast
  show "\<exists>d'. dbind m k d = Some (Some w, d') \<and> consumes d (im_seq im jm (d_data_bo d) (roffd d)) d'"
    using consumes_trans [OF d1(2) d2(2)] d1(1,6,7) d2(1) by (simp add: dbind_def im_seq_def)
qed

lemma takes_octet [takes_rules]: "takes get_octet x (im_octets [x])"
  by (rule takesI) (use octet_laws(2) in \<open>simp add: im_octets_def\<close>)

lemma takes_ulong [takes_rules]: "takes get_ulong w (im_ulong w)"
  by (rule takesI) (use ulong.get_law quiet_calm in \<open>simp add: im_ulong_def word_at_def\<close>)

lemma takes_long [takes_rules]: "takes get_long w (im_ulong w)"
  by (rule takesI) (use long.get_law quiet_calm in \<open>simp add: im_ulong_def word_at_def\<close>)

lemma takes_ushort [takes_rules]: "takes get_ushort w (im_ushort w)"
  by (rule takesI) (use ushort.get_law quiet_calm in \<open>simp add: im_ushort_def word_at_def\<close>)

text \<open>An octet count read by \<open>seq_begin\<close> is checked against the octets that are left.\<close>

lemma takes_seq_begin:
  assumes "\<And>bo p. unat l \<le> length (im bo p)" and "takes (k l) w im"
  shows "takes (dbind dec_seq_begin k) w (im_seq (im_ulong l) im)"
proof (rule takesI)
  fix d rest
  assume d: "dec_ok d" "quiet d" "octets (dbuf d) = im_seq (im_ulong l) im (d_data_bo d) (roffd d) @ rest"
  let ?jm = "im (d_data_bo d) (roffd d + length (im_ulong l (d_data_bo d) (roffd d)))"
  have "octets (dbuf d) = im_ulong l (d_data_bo d) (roffd d) @ (?jm @ rest)" using d(3) by (simp add: im_seq_def)
  from takesE [OF takes_ulong d(1,2) this] obtain d1 where d1: "get_ulong d = Some (Some l, d1)"
    "consumes d (im_ulong l (d_data_bo d) (roffd d)) d1" "dec_ok d1" "quiet d1" "octets (dbuf d1) = ?jm @ rest"
    "d_data_bo d1 = d_data_bo d" "roffd d1 = roffd d + length (im_ulong l (d_data_bo d) (roffd d))" by blast
  have "unat (buf_length (dbuf d1)) = length (?jm @ rest)"
    using unat_buf_length [OF consumes_fields(9) [OF d1(2)]] d1(5) by simp
  then have nf: "\<not> l > buf_length (dbuf d1)"
    using assms(1) [of "d_data_bo d" "roffd d + length (im_ulong l (d_data_bo d) (roffd d))"]
    by (simp add: word_less_nat_alt)
  from d1(5) have "octets (dbuf d1) = im (d_data_bo d1) (roffd d1) @ rest" by (simp only: d1(6,7))
  from takesE [OF assms(2) d1(3,4) this] obtain d2 where d2: "k l d1 = Some (Some w, d2)"
    "consumes d1 (im (d_data_bo d1) (roffd d1)) d2" by blast
  show "\<exists>d'. dbind dec_seq_begin k d = Some (Some w, d') \<and>
      consumes d (im_seq (im_ulong l) im (d_data_bo d) (roffd d)) d'"
    using consumes_trans [OF d1(2) d2(2)] d1(1,6,7) d2(1) nf
    by (simp add: dec_seq_begin_def dbind_def dret_def im_seq_def)
qed

lemma takes_octets [takes_rules]:
  assumes "length xs < 4294967296"
  shows "takes (get_octets (word_of_nat (length xs))) xs (im_octets xs)"
proof (rule takesI)
  fix d rest
  assume d: "dec_ok d" "octets (dbuf d) = im_octets xs (d_data_bo d) (roffd d) @ rest"
  have wf: "buf_wf (dbuf d)" using d(1) by (simp add: dec_ok_def)
  obtain b where b: "Octet_Buffer.get (word_of_nat (length xs)) (dbuf d) = Some (Some xs, b)" "reads (dbuf d) xs b"
    using get_reads [OF wf, of "word_of_nat (length xs)"] d(2) assms by (auto simp: im_octets_def nowrap)
  show "\<exists>d'. get_octets (word_of_nat (length xs)) d = Some (Some xs, d') \<and>
      consumes d (im_octets xs (d_data_bo d) (roffd d)) d'"
    using b by (auto simp: get_octets_def get_block_dec_def on_dbuf_def im_octets_def consumes_def)
qed

lemma takes_string [takes_rules]:
  assumes "0 \<notin> set s" and "length s < 4294967295"
  shows "takes get_string_raw (s @ [0]) (im_string s)"
    and "takes get_string_raw_stl s (im_string s)"
proof -
  have ul: "unat (word_of_nat (length s + 1) :: ulong) = length (s @ [0])"
    using assms(2) by (simp add: nowrap del: of_nat_add of_nat_Suc)
  show 1: "takes get_string_raw (s @ [0]) (im_string s)"
  proof (rule takesI)
    fix d rest
    assume d: "dec_ok d" "quiet d" "octets (dbuf d) = im_string s (d_data_bo d) (roffd d) @ rest"
    have "octets (dbuf d) = pad (roffd d) 4 @ word_image (d_data_bo d) 4 (word_of_nat (length s + 1) :: ulong) @ (s @ [0]) @ rest"
      using d(3) by (simp add: im_string_def string_image_def)
    from get_string_consumes [OF d(1) _ quiet_calm [OF d(2)] this ul]
    show "\<exists>d'. get_string_raw d = Some (Some (s @ [0]), d') \<and> consumes d (im_string s (d_data_bo d) (roffd d)) d'"
      by (auto simp: im_string_def string_image_def)
  qed
  have "takes (\<lambda>d. do { str \<leftarrow> c_string (s @ [0]); dret str d }) s im_nil"
    using takes_ret [of s] c_string_terminated [OF assms(1), of "[]"] by simp
  from takes_bind [OF 1, where k = "\<lambda>s d. do { str \<leftarrow> c_string s; dret str d }", OF this]
  show "takes get_string_raw_stl s (im_string s)" by (simp add: get_string_raw_stl_def)
qed

lemma takes_loop:
  "(\<And>x. x \<in> set xs \<Longrightarrow> takes gt x (im x)) \<Longrightarrow> takes (dec_loop gt (length xs)) xs (im_list im xs)"
proof (induction xs)
  case Nil
  then show ?case using takes_ret [of "[]"] by simp
next
  case (Cons x xs)
  have "takes (dbind (dec_loop gt (length xs)) (\<lambda>vs. dret (x # vs))) (x # xs) (im_seq (im_list im xs) im_nil)"
    by (rule takes_bind [OF Cons.IH takes_ret]) (use Cons.prems in simp)
  then have "takes (dbind (dec_loop gt (length xs)) (\<lambda>vs. dret (x # vs))) (x # xs) (im_list im xs)" by simp
  from takes_bind [OF Cons.prems [of x], where k = "\<lambda>v. dbind (dec_loop gt (length xs)) (\<lambda>vs. dret (v # vs))", OF _ this]
  show ?case by simp
qed

lemma set_ralign_base_end:
  "d_data_bo d2 = d_data_bo d \<Longrightarrow>
   dec_encaps_end (st\<lparr>es_align := a, es_bo := d_data_bo d\<rparr>) d2 = Some (Some (), set_ralign_base a d2)"
proof -
  assume "d_data_bo d2 = d_data_bo d"
  then have "d2\<lparr>d_data_bo := d_data_bo d\<rparr> = d2" by (cases d2) simp
  then show ?thesis by (simp add: dec_encaps_end_def dret_def dec_set_byteorder_def)
qed

text \<open>Inside an encapsulation the reader starts at offset 1, behind the order flag.\<close>

lemma takes_encaps:
  assumes k: "\<And>bo d1 rest. dec_ok d1 \<Longrightarrow> quiet d1 \<Longrightarrow> roffd d1 = 1 \<Longrightarrow> octets (dbuf d1) = im (d_data_bo d1) 1 @ rest \<Longrightarrow>
      \<exists>d2. k (st\<lparr>es_align := a, es_bo := d_data_bo d1\<rparr>, word_of_nat (length (im (d_data_bo d1) 1))) d1 =
          Some (Some v, set_ralign_base a d2) \<and> consumes d1 (im (d_data_bo d1) 1) d2"
  shows "dec_ok d \<Longrightarrow> quiet d \<Longrightarrow> ralignbase (dbuf d) = a \<Longrightarrow> octets (dbuf d) = im_encaps im (d_data_bo d) (roffd d) @ rest \<Longrightarrow>
    \<exists>d'. dbind (dec_encaps_begin st) k d = Some (Some v, d') \<and> consumes d (im_encaps im (d_data_bo d) (roffd d)) d'"
proof -
  assume d: "dec_ok d" "quiet d" "ralignbase (dbuf d) = a"
    "octets (dbuf d) = im_encaps im (d_data_bo d) (roffd d) @ rest"
  obtain d1 where d1: "dec_encaps_begin st d =
      Some (Some (st\<lparr>es_align := ralignbase (dbuf d), es_bo := d_data_bo d\<rparr>, word_of_nat (length (im (d_data_bo d) 1))), d1)"
    "dec_ok d1" "roffd d1 = 1" "d_data_bo d1 = d_data_bo d" "octets (dbuf d1) = im (d_data_bo d) 1 @ rest"
    "d_vstate d1 = d_vstate d"
    and en: "\<And>d2. consumes d1 (im (d_data_bo d) 1) d2 \<Longrightarrow>
        consumes d (encaps_image (d_data_bo d) (roffd d) (im (d_data_bo d) 1)) (set_ralign_base (ralignbase (dbuf d)) d2)"
    using dec_encaps_begin_consumes [OF d(1), of "im (d_data_bo d) 1" rest st] d(4) quiet_calm [OF d(2)]
    by (auto simp: im_encaps_def)
  have "quiet d1" using d(2) d1(6) by (simp add: quiet_def dec_cur_def)
  from k [OF d1(2) this d1(3), of rest] d1(4,5)
  obtain d2 where d2: "k (st\<lparr>es_align := a, es_bo := d_data_bo d\<rparr>, word_of_nat (length (im (d_data_bo d) 1))) d1 =
      Some (Some v, set_ralign_base a d2)" "consumes d1 (im (d_data_bo d) 1) d2" by auto
  show ?thesis
    using d1(1) d2(1) en [OF d2(2)] d(3) by (auto simp: dbind_def im_encaps_def)
qed

lemma takes_encapsI:
  assumes "\<And>a d1 rest. dec_ok d1 \<Longrightarrow> quiet d1 \<Longrightarrow> roffd d1 = 1 \<Longrightarrow> octets (dbuf d1) = im (d_data_bo d1) 1 @ rest \<Longrightarrow>
      \<exists>d2. k (st\<lparr>es_align := a, es_bo := d_data_bo d1\<rparr>, word_of_nat (length (im (d_data_bo d1) 1))) d1 =
          Some (Some v, set_ralign_base a d2) \<and> consumes d1 (im (d_data_bo d1) 1) d2"
  shows "takes (dbind (dec_encaps_begin st) k) v (im_encaps im)"
proof (rule takesI)
  fix d rest
  assume d: "dec_ok d" "quiet d" "octets (dbuf d) = im_encaps im (d_data_bo d) (roffd d) @ rest"
  show "\<exists>d'. dbind (dec_encaps_begin st) k d = Some (Some v, d') \<and> consumes d (im_encaps im (d_data_bo d) (roffd d)) d'"
    by (rule takes_encaps [where a = "ralignbase (dbuf d)", OF _ d(1,2) refl d(3)]) (rule assms)
qed

text \<open>Octets behind a count, taken from the memory of the buffer.\<close>

lemma octets_fit:
  assumes "buf_wf b" and "octets b = xs @ rest"
  shows "unat (rptr b) + length xs \<le> unat (wptr b)"
proof -
  have "length (octets b) = unat (wptr b) - unat (rptr b)"
    using buf_wfD [OF assms(1)] by (simp add: octets_def min_def)
  then show ?thesis using assms(2) buf_wfD(2) [OF assms(1)] by simp
qed

lemma mem_read_octets:
  assumes "buf_wf b" and "octets b = xs @ rest"
  shows "mem_read (mem b) (unat (rptr b)) (length xs) = Some xs"
proof -
  note w = buf_wfD [OF assms(1)]
  have l: "unat (rptr b) + length xs \<le> unat (wptr b)"
    by (rule octets_fit [OF assms(1,2)])
  have "take (length xs) (drop (unat (rptr b)) (mem b)) = take (length xs) (octets b)"
    using l by (simp add: octets_def drop_take)
  also have "\<dots> = xs" by (simp add: assms(2))
  finally show ?thesis using l w(5) by (simp add: mem_simps)
qed

lemma rseek_rel_reads:
  assumes "buf_wf b" and "octets b = xs @ rest" and "unat n = length xs"
  shows "\<exists>b'. rseek_rel n b = (True, b') \<and> reads b xs b'"
proof -
  note w = buf_wfD [OF assms(1)]
  have l: "unat (rptr b) + length xs \<le> unat (wptr b)"
    by (rule octets_fit [OF assms(1,2)])
  then have "unat (rptr b) + unat n < 4294967296"
    using assms(3) unat_ulong_lt [of "wptr b"] by linarith
  then have u: "unat (rptr b + n) = unat (rptr b) + length xs" using assms(3) by (simp add: nowrap)
  have "octets (b\<lparr>rptr := rptr b + n\<rparr>) = rest"
    using assms(2) by (simp add: octets_def u) (metis add.commute append_eq_conv_conj drop_drop)
  then show ?thesis using assms l u
    by (auto simp: rseek_rel_def reads_def word_less_nat_alt word_le_nat_alt buf_wf_def)
qed

section \<open>The contract of a marshalled type\<close>

locale marshalled =
  fixes ok :: "'v \<Rightarrow> bool"
    and pt :: "'v \<Rightarrow> encoder \<Rightarrow> encoder option"
    and gt :: "'v dec"
    and im :: "'v \<Rightarrow> image_at"
    and sz :: "'v \<Rightarrow> nat"
  assumes put_im: "ok v \<Longrightarrow> appends (pt v) (im v) (sz v)"
    and get_im: "ok v \<Longrightarrow> takes gt v (im v)"
begin

lemma put_list: "list_all ok vs \<Longrightarrow> appends (enc_loop pt vs) (im_list im vs) (sum_list (map sz vs))"
  by (rule appends_loop) (simp add: put_im list_all_iff)

lemma get_list: "list_all ok vs \<Longrightarrow> takes (dec_loop gt (length vs)) vs (im_list im vs)"
  by (rule takes_loop) (simp add: get_im list_all_iff)

text \<open>What one machine writes into a new buffer another reads, and nothing is left over.\<close>

lemma two_machines:
  assumes bo: "real_bo m1" "real_bo m2" "real_bo bo" and v: "ok v" and room: "sz v < 4294967295"
  shows "\<exists>e d. pt v (new_encoder m1 (buffer_new f z) bo) = Some e \<and> octets (ebuf e) = im v bo 0 \<and>
     gt (new_decoder m2 (ebuf e) bo None) = Some (Some v, d) \<and> octets (dbuf d) = []"
proof -
  note n = new_encoder_facts [OF bo(1,3), of f z]
  have "has_room (sz v) (new_encoder m1 (buffer_new f z) bo)" using room by (simp add: new_encoder_room)
  from appendsE [OF put_im [OF v] n(1) this] obtain e where e: "pt v (new_encoder m1 (buffer_new f z) bo) = Some e"
    "emits (new_encoder m1 (buffer_new f z) bo) (im v bo 0) e" by (auto simp: n)
  note nd = new_decoder_facts [OF e(2) bo]
  have q: "quiet (new_decoder m2 (ebuf e) bo None)" by (simp add: quiet_def dec_cur_def new_decoder_def)
  have "octets (dbuf (new_decoder m2 (ebuf e) bo None)) =
      im v (d_data_bo (new_decoder m2 (ebuf e) bo None)) (roffd (new_decoder m2 (ebuf e) bo None)) @ []"
    using nd by simp
  from takesE [OF get_im [OF v] nd(1) q this] show ?thesis
    using e emits_fields(4) [OF e(2)] n(4) by auto
qed

end

end
