(* ===== verification/Value_Codec.thy ===== *)
theory Value_Codec
  imports CDR_Value CDR_Image
begin

text \<open>
  Value types on the wire: what \<open>value_begin\<close>, the marshalling of the state and \<open>value_end\<close> of one machine
  write, those of another read. A chunked value can be read by one that knows only the first fields: the end
  of the value skips the others.
\<close>

section \<open>The header\<close>

lemma im_string_head: "im_string s = im_seq (im_ulong (word_of_nat (length s + 1))) (im_octets (s @ [0]))"
  by (simp add: im_string_def im_seq_def im_ulong_def im_octets_def string_image_def word_at_def fun_eq_iff)

lemma takes_string_stl:
  assumes "0 \<notin> set s"
  shows "takes get_string_stl s (im_string s)"
proof -
  have "takes get_string (s @ [0]) (im_string s)"
  proof (rule takesI)
    fix d rest
    assume d: "dec_ok d" "quiet d" "octets (dbuf d) = im_string s (d_data_bo d) (roffd d) @ rest"
    let ?xs = "word_at 4 4 (d_data_bo d) (roffd d) (word_of_nat (length (s @ [0])) :: ulong) @ s @ [0]"
    have im: "im_string s (d_data_bo d) (roffd d) = ?xs" by (simp add: im_string_def string_image_def word_at_def)
    have "octets (dbuf d) = ?xs @ rest" using d(3) im by simp
    then have "octets (dbuf d) = word_at 4 4 (d_data_bo d) (roffd d) (word_of_nat (length (s @ [0])) :: ulong) @ (s @ [0]) @ rest"
      by simp
    from get_string_item [OF d(1) _ _ this quiet_calm [OF d(2)]]
    show "\<exists>d'. get_string d = Some (Some (s @ [0]), d') \<and> consumes d (im_string s (d_data_bo d) (roffd d)) d'"
      unfolding im by simp
  qed
  moreover have "takes (\<lambda>d. do { str \<leftarrow> c_string (s @ [0]); dret str d }) s im_nil"
    using takes_ret [of s] c_string_terminated [OF assms, of "[]"] by simp
  ultimately have "takes (dbind get_string (\<lambda>s d. do { str \<leftarrow> c_string s; dret str d })) s (im_seq (im_string s) im_nil)"
    by (rule takes_bind)
  then show ?thesis by (simp add: get_string_stl_def)
qed

lemma takes_indirect:
  assumes g: "takes g v (im_seq (im_ulong tag) jm)" and tag: "tag \<noteq> 0xffffffff"
  shows "takes (get_indirect g) v (im_seq (im_ulong tag) jm)"
proof (rule takesI)
  fix d rest
  assume d: "dec_ok d" "quiet d" "octets (dbuf d) = im_seq (im_ulong tag) jm (d_data_bo d) (roffd d) @ rest"
  then obtain r where "octets (dbuf d) = im_ulong tag (d_data_bo d) (roffd d) @ r"
    by (simp add: im_seq_def)
  from takesE [OF takes_ulong d(1,2) this] obtain f where f: "get_ulong d = Some (Some tag, f)"
    "consumes d (im_ulong tag (d_data_bo d) (roffd d)) f" by blast
  show "\<exists>d'. get_indirect g d = Some (Some v, d') \<and> consumes d (im_seq (im_ulong tag) jm (d_data_bo d) (roffd d)) d'"
    unfolding get_indirect_direct [OF f tag] by (rule takesE [OF g d]) blast
qed

lemma count_not_indirect: "n < 4294967295 \<Longrightarrow> (word_of_nat n :: ulong) \<noteq> 0xffffffff"
  by (auto simp: word_unat_eq_iff nowrap)

lemma takes_indirect_string:
  assumes "0 \<notin> set s" and "length s + 1 < 4294967295"
  shows "takes get_indirect_string s (im_string s)"
  unfolding get_indirect_string_def im_string_head
  by (rule takes_indirect [OF _ count_not_indirect]) (use takes_string_stl [OF assms(1)] assms(2) in \<open>simp_all add: im_string_head\<close>)

lemma takes_indirect_seq:
  assumes "list_all (\<lambda>s. 0 \<notin> set s) rs" and "length rs < 4294967295"
  shows "takes get_indirect_string_seq rs (im_seq_of im_string rs)"
  unfolding get_indirect_string_seq_def im_seq_of_def
proof (rule takes_indirect)
  have u: "unat (word_of_nat (length rs) :: ulong) = length rs" using assms(2) by (simp add: nowrap)
  show "takes (dbind dec_seq_begin (\<lambda>len. dec_loop get_string_stl (unat len))) rs
      (im_seq (im_ulong (word_of_nat (length rs))) (im_list im_string rs))"
  proof (rule takes_seq_begin)
    show "unat (word_of_nat (length rs) :: ulong) \<le> length (im_list im_string rs bo p)" for bo p
      unfolding u by (rule length_im_list) (simp add: im_string_def string_image_def)
    show "takes (dec_loop get_string_stl (unat (word_of_nat (length rs) :: ulong))) rs (im_list im_string rs)"
      unfolding u by (rule takes_loop, rule takes_string_stl) (use assms(1) in \<open>simp add: list_all_iff\<close>)
  qed
  show "(word_of_nat (length rs) :: ulong) \<noteq> 0xffffffff" by (rule count_not_indirect [OF assms(2)])
qed

definition im_url :: "octet list \<Rightarrow> image_at" where
  "im_url url = (if url = [] then im_nil else im_string url)"

definition im_repoids :: "octet list list \<Rightarrow> image_at" where
  "im_repoids repoids = (case repoids of [] \<Rightarrow> im_nil | [r] \<Rightarrow> im_string r | _ \<Rightarrow> im_seq_of im_string repoids)"

lemma str_items_image: "items_image bo p (map str_item rs) = im_list im_string rs bo p"
  by (induction rs arbitrary: p) (simp_all add: im_nil_def im_seq_def im_string_def string_image_def word_at_def Let_def)

lemma hdr_items_image: "items_image bo p (hdr_items url repoids) = im_seq (im_url url) (im_repoids repoids) bo p"
  by (cases repoids; cases "tl repoids")
    (auto simp: hdr_items_def im_url_def im_repoids_def im_seq_def im_nil_def im_string_def string_image_def word_at_def
      im_seq_of_def im_ulong_def str_items_image [symmetric] Let_def)

lemma value_tag_bits:
  "and (value_tag_of url repoids chunk) 1 \<noteq> 0 \<longleftrightarrow> url \<noteq> []"
  "and (value_tag_of url repoids chunk) 6 = 2 \<longleftrightarrow> length repoids = 1"
  "and (value_tag_of url repoids chunk) 6 = 6 \<longleftrightarrow> 1 < length repoids"
  "and (value_tag_of url repoids chunk) 8 \<noteq> 0 \<longleftrightarrow> chunk"
  "0x7fffff00 \<le> value_tag_of url repoids chunk" "value_tag_of url repoids chunk \<le> 0x7fffffff"
  by (auto simp: value_tag_of_def Let_def)

lemma items_image_app:
  "items_image bo p (xs @ ys) = items_image bo p xs @ items_image bo (p + length (items_image bo p xs)) ys"
  by (induction xs arbitrary: p) (simp_all add: Let_def add.assoc)

text \<open>Skipping forward to a position reads what lies before it.\<close>

lemma rseek_beg_reads:
  assumes "buf_wf b" and "octets b = xs @ rest" and "unat e = unat (rptr b) + length xs"
  shows "rseek_beg e b = (True, b\<lparr>rptr := e\<rparr>)" and "reads b xs (b\<lparr>rptr := e\<rparr>)"
proof -
  have "unat (rptr b) + length xs \<le> unat (wptr b)" by (rule octets_fit [OF assms(1,2)])
  then show "rseek_beg e b = (True, b\<lparr>rptr := e\<rparr>)" using assms(3) by (simp add: rseek_beg_def not_less word_le_nat_alt)
  have u: "unat (e - rptr b) = length xs" "rptr b + (e - rptr b) = e"
    using assms(3) by (simp_all add: nowrap word_le_nat_alt)
  from rseek_rel_reads [OF assms(1,2) u(1)] obtain b' where "rseek_rel (e - rptr b) b = (True, b')" "reads b xs b'" by blast
  then show "reads b xs (b\<lparr>rptr := e\<rparr>)" using u(2) by (auto simp: rseek_rel_def split: if_splits)
qed

lemma header_parts:
  assumes hdr: "header_ok url repoids" and size: "header_size url repoids < 2147483648"
  shows "takes (if and (value_tag_of url repoids chunk) 1 \<noteq> 0 then dec_map Some get_indirect_string else dret None)
      (if url = [] then None else Some url) (im_url url)"
    and "takes (if and (value_tag_of url repoids chunk) 6 = 2 then dec_map (\<lambda>s. [s]) get_indirect_string
        else if and (value_tag_of url repoids chunk) 6 = 6 then get_indirect_string_seq else dret [])
      repoids (im_repoids repoids)"
proof -
  have str: "takes get_indirect_string s (im_string s)" if "str_item s \<in> set (hdr_items url repoids)" "0 \<notin> set s" for s
  proof (rule takes_indirect_string [OF that(2)])
    have "item_size (str_item s) \<le> header_size url repoids"
      unfolding header_size_def by (rule member_le_sum_list, unfold set_map, rule imageI [OF that(1)], simp)
    then show "length s + 1 < 4294967295" using size by simp
  qed
  have map: "takes (dec_map f g) (f v) im" if "takes g v im" for f :: "octet list \<Rightarrow> 'a" and g v im
    using takes_bind [OF that, where k = "\<lambda>v. dret (f v)", OF takes_ret] by (simp add: dec_map_def)
  show "takes (if and (value_tag_of url repoids chunk) 1 \<noteq> 0 then dec_map Some get_indirect_string else dret None)
      (if url = [] then None else Some url) (im_url url)"
    unfolding value_tag_bits
    using map [OF str [of url], of Some] hdr takes_ret by (auto simp: im_url_def header_ok_def hdr_items_def)
  have n: "length repoids < 4294967295" by (rule header_length [OF size])
  show "takes (if and (value_tag_of url repoids chunk) 6 = 2 then dec_map (\<lambda>s. [s]) get_indirect_string
        else if and (value_tag_of url repoids chunk) 6 = 6 then get_indirect_string_seq else dret [])
      repoids (im_repoids repoids)"
    unfolding value_tag_bits
    using map [OF str [of "hd repoids"], of "\<lambda>s. [s]"] takes_indirect_seq [OF _ n] hdr takes_ret [of "[]"]
    by (cases repoids; cases "tl repoids") (auto simp: im_repoids_def header_ok_def hdr_items_def)
qed

text \<open>What is left of \<open>value_begin\<close> behind the header.\<close>

definition after_header :: "bool \<Rightarrow> value_head \<Rightarrow> value_head dec" where
  "after_header chunk h d =
     (let d = (if chunk then with_cur (\<lambda>s. s\<lparr>chunking := True\<rparr>) d else d)
      in do {
        s \<leftarrow> dec_cur d;
        if chunking s
        then dbind begin_chunk (\<lambda>_. dret h) (with_cur (\<lambda>s. s\<lparr>nesting_level := nesting_level s + 1\<rparr>) d)
        else dret h d
      })"

definition read_head :: "octet list \<Rightarrow> octet list list \<Rightarrow> ulong \<Rightarrow> value_head" where
  "read_head url repoids value_id =
     \<lparr>vh_url = (if url = [] then None else Some url), vh_repoids = Some repoids, vh_id = value_id, vh_is_ref = False\<rparr>"

lemma read_header:
  assumes d: "dec_ok d" "quiet d" and hdr: "header_ok url repoids" and size: "header_size url repoids < 2147483648"
    and vs: "d_vstate d \<noteq> None"
    and oct: "octets (dbuf d) = word_at 4 4 (d_data_bo d) (roffd d) (value_tag_of url repoids chunk) @
        items_image (d_data_bo d) (roffd d + (padlen (roffd d) 4 + 4)) (hdr_items url repoids) @ rest"
  shows "\<exists>f. dec_value_begin (Suc n) d =
      after_header chunk (read_head url repoids (word_of_nat (unat (rptr (dbuf d)) + padlen (roffd d) 4 + 1))) f \<and>
     consumes d (word_at 4 4 (d_data_bo d) (roffd d) (value_tag_of url repoids chunk) @
        items_image (d_data_bo d) (roffd d + (padlen (roffd d) 4 + 4)) (hdr_items url repoids)) f \<and>
     dec_ok f \<and> quiet f \<and> octets (dbuf f) = rest"
proof -
  let ?tag = "value_tag_of url repoids chunk"
  let ?t = "word_at 4 4 (d_data_bo d) (roffd d) ?tag"
  have "octets (dbuf d) = im_ulong ?tag (d_data_bo d) (roffd d) @
      (items_image (d_data_bo d) (roffd d + (padlen (roffd d) 4 + 4)) (hdr_items url repoids) @ rest)"
    using oct by (simp add: im_ulong_def)
  from takesE [OF takes_ulong d this] obtain d1 where d1: "get_ulong d = Some (Some ?tag, d1)" "consumes d ?t d1"
    "dec_ok d1" "quiet d1" "d_data_bo d1 = d_data_bo d" "roffd d1 = roffd d + (padlen (roffd d) 4 + 4)"
    "octets (dbuf d1) = items_image (d_data_bo d) (roffd d + (padlen (roffd d) 4 + 4)) (hdr_items url repoids) @ rest"
    by (auto simp: im_ulong_def length_word_at)
  from d1(7) have "octets (dbuf d1) = im_url url (d_data_bo d1) (roffd d1) @
      (im_repoids repoids (d_data_bo d1) (roffd d1 + length (im_url url (d_data_bo d1) (roffd d1))) @ rest)"
    by (simp add: hdr_items_image d1(5,6) im_seq_def)
  from takesE [OF header_parts(1) [OF hdr size, of chunk] d1(3,4) this] obtain d2 where
    d2: "(if and ?tag 1 \<noteq> 0 then dec_map Some get_indirect_string else dret None) d1 =
        Some (Some (if url = [] then None else Some url), d2)" "consumes d1 (im_url url (d_data_bo d1) (roffd d1)) d2"
    "dec_ok d2" "quiet d2" "d_data_bo d2 = d_data_bo d1"
    "roffd d2 = roffd d1 + length (im_url url (d_data_bo d1) (roffd d1))"
    "octets (dbuf d2) = im_repoids repoids (d_data_bo d1) (roffd d1 + length (im_url url (d_data_bo d1) (roffd d1))) @ rest"
    by metis
  from d2(7) have "octets (dbuf d2) = im_repoids repoids (d_data_bo d2) (roffd d2) @ rest" by (simp only: d2(5,6))
  from takesE [OF header_parts(2) [OF hdr size, of chunk] d2(3,4) this] obtain f where
    f: "(if and ?tag 6 = 2 then dec_map (\<lambda>s. [s]) get_indirect_string
        else if and ?tag 6 = 6 then get_indirect_string_seq else dret []) d2 = Some (Some repoids, f)"
    "consumes d2 (im_repoids repoids (d_data_bo d2) (roffd d2)) f" "dec_ok f" "quiet f" "octets (dbuf f) = rest"
    by metis
  have con: "consumes d (?t @ items_image (d_data_bo d) (roffd d + (padlen (roffd d) 4 + 4)) (hdr_items url repoids)) f"
    using consumes_trans [OF d1(2) consumes_trans [OF d2(2) f(2)]]
    by (simp add: hdr_items_image d1(5,6) d2(5,6) im_seq_def)
  have nt: "?tag \<noteq> 0xffffffff" "?tag \<noteq> 0" using value_tag_bits(5,6) [of url repoids chunk] by auto
  have id: "rptr (dbuf d1) - 4 + 1 = word_of_nat (unat (rptr (dbuf d)) + padlen (roffd d) 4 + 1)"
  proof -
    have r: "unat (rptr (dbuf d1)) = unat (rptr (dbuf d)) + padlen (roffd d) 4 + 4"
      using consumes_fields(6) [OF d1(2)] by (simp add: length_word_at)
    have "rptr (dbuf d1) = word_of_nat (unat (rptr (dbuf d)) + padlen (roffd d) 4 + 4)"
      unfolding r [symmetric] by simp
    then show ?thesis by simp
  qed
  have "dec_value_begin (Suc n) d = value_header ?tag (word_of_nat (unat (rptr (dbuf d)) + padlen (roffd d) 4 + 1)) d1"
    using vs d1(1) nt value_tag_bits(5,6) [of url repoids chunk] id
    by (auto simp: dbind_def dec_rpos_def)
  also have "\<dots> = after_header chunk (read_head url repoids (word_of_nat (unat (rptr (dbuf d)) + padlen (roffd d) 4 + 1))) f"
    unfolding value_header_def dbind_def d2(1) option.case prod.case f(1) value_tag_bits(4)
    by (simp add: dbind_def after_header_def read_head_def Let_def cong: if_cong)
  finally show ?thesis using con f(3,4,5) by blast
qed

section \<open>Chunks\<close>

definition in_chunk :: "dec_vstate \<Rightarrow> ulong \<Rightarrow> dec_vstate" where
  "in_chunk st e = st\<lparr>cur := \<lparr>chunking = True, nesting_level = 1, saved_pos = -1, end_of_chunk = e\<rparr>\<rparr>"

lemma dec_ok_vstate [simp]: "dec_ok (d\<lparr>d_vstate := v\<rparr>) = dec_ok d"
  by (simp add: dec_ok_def)

lemma consumes_vstate: "consumes (d\<lparr>d_vstate := v\<rparr>) xs f \<Longrightarrow> \<exists>g. f = g\<lparr>d_vstate := v\<rparr> \<and> consumes d xs g"
  unfolding consumes_def by (elim exE conjE) (rule exI, auto)

lemma get_long_consumes:
  assumes "dec_ok d" and "calm (padlen (roffd d) 4 + 4) d"
    and "octets (dbuf d) = word_at 4 4 (d_data_bo d) (roffd d) w @ rest"
  shows "\<exists>f. get_long d = Some (Some w, f) \<and> consumes d (word_at 4 4 (d_data_bo d) (roffd d) w) f"
  using long.get_law [OF assms(1), of "pad (roffd d) 4" w rest] assms(2,3) by (simp add: word_at_def)

lemma open_value:
  assumes ok: "dec_ok f" and st: "d_vstate f = Some st" "cur st = dec_state1_init"
    and oct: "octets (dbuf f) = word_at 4 4 (d_data_bo f) (roffd f) (word_of_nat n :: ulong) @ r" and n: "n \<le> length r" "n < 2147483648"
  shows "\<exists>g. after_header True h f =
       Some (Some h, g\<lparr>d_vstate := Some (in_chunk st (word_of_nat (unat (rptr (dbuf g)) + n)))\<rparr>) \<and>
     consumes f (word_at 4 4 (d_data_bo f) (roffd f) (word_of_nat n :: ulong)) g \<and> octets (dbuf g) = r"
proof -
  let ?v = "Some (in_chunk st (-1))"
  let ?f = "f\<lparr>d_vstate := ?v\<rparr>"
  have "with_cur (\<lambda>s. s\<lparr>nesting_level := nesting_level s + 1\<rparr>) (with_cur (\<lambda>s. s\<lparr>chunking := True\<rparr>) f) = ?f"
    using st by (simp add: with_cur_def in_chunk_def dec_state1_init_def)
  then have "after_header True h f = dbind begin_chunk (\<lambda>_. dret h) ?f"
    using st by (simp add: after_header_def dec_cur_def with_cur_def)
  also have "\<dots> = dbind (dbind get_long open_chunk) (\<lambda>_. dret h) ?f"
    by (simp add: begin_chunk_def dbind_def dec_cur_def in_chunk_def)
  finally have a: "after_header True h f = dbind (dbind get_long open_chunk) (\<lambda>_. dret h) ?f" .
  have "calm k ?f" for k by (simp add: calm_def dec_cur_def in_chunk_def)
  then obtain g' where g': "get_long ?f = Some (Some (word_of_nat n :: ulong), g')"
    "consumes ?f (word_at 4 4 (d_data_bo f) (roffd f) (word_of_nat n :: ulong)) g'"
    using get_long_consumes [of ?f "word_of_nat n" r] ok oct by auto
  from consumes_vstate [OF g'(2)] obtain g where g: "g' = g\<lparr>d_vstate := ?v\<rparr>"
    "consumes f (word_at 4 4 (d_data_bo f) (roffd f) (word_of_nat n :: ulong)) g" by blast
  have r: "octets (dbuf g) = r" using consumes_fields(5) [OF g(2)] oct by simp
  have u: "unat (word_of_nat n :: ulong) = n" using n(2) by (simp add: nowrap)
  have "unat (buf_length (dbuf g)) = length r" using unat_buf_length [OF consumes_fields(9) [OF g(2)]] r by simp
  then have "\<not> word_of_nat n > buf_length (dbuf g)" using n(1) u by (simp add: word_less_nat_alt)
  moreover have "\<not> sint (word_of_nat n :: ulong) < 0" using n(2) u by (simp add: sint_ulong_small)
  moreover have "rptr (dbuf g) + word_of_nat n = word_of_nat (unat (rptr (dbuf g)) + n)" by simp
  ultimately have "open_chunk (word_of_nat n) g' =
      Some (Some (), g\<lparr>d_vstate := Some (in_chunk st (word_of_nat (unat (rptr (dbuf g)) + n)))\<rparr>)"
    by (simp add: open_chunk_def g(1) dret_def with_cur_def in_chunk_def)
  then show ?thesis using a g'(1) g(2) r by (auto simp: dbind_def dret_def)
qed

text \<open>The end of a value skips what is left of its chunk and reads the end tag.\<close>

lemma close_value:
  assumes ok: "dec_ok g" and st: "cur st = dec_state1_init" "skipped st i = None"
    and oct: "octets (dbuf g) = xs @ word_at 4 4 (d_data_bo g) (roffd g + length xs) (-1 :: ulong) @ rest"
    and e: "unat e = unat (rptr (dbuf g)) + length xs"
  shows "\<exists>k. dec_value_end (Suc (Suc (Suc n))) i (g\<lparr>d_vstate := Some (in_chunk st e)\<rparr>) =
       Some (Some (), k\<lparr>d_vstate := Some st\<rparr>) \<and>
     consumes g (xs @ word_at 4 4 (d_data_bo g) (roffd g + length xs) (-1 :: ulong)) k"
proof (cases "e = -1")
  case True
  have "e = 0xffffffff" using True by simp
  then have "unat e = 4294967295" by simp
  moreover have "unat (rptr (dbuf g)) + (length xs + 4) < 4294967296"
  proof -
    have "unat (rptr (dbuf g)) + length (octets (dbuf g)) \<le> unat (wptr (dbuf g))"
      by (rule octets_fit [where rest = "[]"]) (use ok in \<open>simp_all add: dec_ok_def\<close>)
    moreover have "unat (wptr (dbuf g)) < 4294967296" by (rule unat_ulong_lt)
    ultimately show ?thesis unfolding oct length_append length_word_at by linarith
  qed
  ultimately show ?thesis using e by simp
next
  case False
  let ?v = "Some (in_chunk st (-1))" and ?w = "word_at 4 4 (d_data_bo g) (roffd g + length xs) (-1 :: ulong)"
  have wf: "buf_wf (dbuf g)" using ok by (simp add: dec_ok_def)
  note sk = rseek_beg_reads [OF wf oct e]
  let ?h = "g\<lparr>dbuf := (dbuf g)\<lparr>rptr := e\<rparr>\<rparr>"
  have h: "consumes g xs ?h" using sk(2) by (auto simp: consumes_def)
  have "end_chunk (g\<lparr>d_vstate := Some (in_chunk st e)\<rparr>) = Some (Some (), ?h\<lparr>d_vstate := ?v\<rparr>)"
    using False sk(1) by (simp add: end_chunk_def dec_cur_def in_chunk_def dbind_def dec_rseek_beg_def dret_def with_cur_def)
  note ec = this
  have hb: "d_data_bo ?h = d_data_bo g" "roffd ?h = roffd g + length xs"
    using consumes_fields(1) [OF h] roffd_consumes [OF h ok] by simp_all
  have "octets (dbuf ?h) = ?w @ rest" using consumes_fields(5) [OF h] oct by simp
  moreover have "calm j (?h\<lparr>d_vstate := ?v\<rparr>)" for j by (simp add: calm_def dec_cur_def in_chunk_def)
  ultimately obtain k' where k': "get_long (?h\<lparr>d_vstate := ?v\<rparr>) = Some (Some (-1), k')" "consumes (?h\<lparr>d_vstate := ?v\<rparr>) ?w k'"
    using get_long_consumes [of "?h\<lparr>d_vstate := ?v\<rparr>" "-1" rest] consumes_ok [OF h ok] hb by auto
  from consumes_vstate [OF k'(2)] obtain k where k: "k' = k\<lparr>d_vstate := ?v\<rparr>" "consumes ?h ?w k" by blast
  have lv: "leave_value 1 p (k\<lparr>d_vstate := ?v\<rparr>) = Some (Some (), k\<lparr>d_vstate := Some st\<rparr>)" for p
    using st(1) by (cases st) (simp add: leave_value_def dec_cur_def in_chunk_def dret_def with_cur_def dec_state1_init_def)
  have "skip_tags (Suc (Suc n)) 2 0 (?h\<lparr>d_vstate := ?v\<rparr>) = Some (Some (), k\<lparr>d_vstate := Some st\<rparr>)"
    using k'(1) lv by (simp add: dec_cur_def in_chunk_def dbind_def dec_rpos_def k(1))
  then have "dec_value_end (Suc (Suc (Suc n))) i (g\<lparr>d_vstate := Some (in_chunk st e)\<rparr>) =
      Some (Some (), k\<lparr>d_vstate := Some st\<rparr>)"
    using st(2) ec by (simp add: dbind_def dec_cur_def in_chunk_def del: skip_tags.simps)
  then show ?thesis using consumes_trans [OF h k(2)] by blast
qed

section \<open>Reading a value\<close>

text \<open>A reader that knows the first fields of a chunked value, or all of a value.\<close>

lemma read_fields:
  assumes "dec_ok d" and "list_all item_ok xs" and "octets (dbuf d) = items_image (d_data_bo d) (roffd d) xs @ rest"
    and "calm (length (items_image (d_data_bo d) (roffd d) xs)) d"
  obtains f where "get_items (map kind_of xs) d = Some (Some xs, f)" and "consumes d (items_image (d_data_bo d) (roffd d) xs) f"
proof -
  have "\<exists>f. get_items (map kind_of xs) d = Some (Some xs, f) \<and> consumes d (items_image (d_data_bo d) (roffd d) xs) f"
    by (rule get_items_consumes [where rest = rest, OF _ assms(1,2,3,4)], rule get_item_consumes)
  then show thesis using that by blast
qed

lemma read_value:
  assumes ok: "dec_ok d" and st: "d_vstate d = Some st" "cur st = dec_state1_init"
    and i: "i = word_of_nat (unat (rptr (dbuf d)) + padlen (roffd d) 4 + 1)" "skipped st i = None"
    and hdr: "header_ok url repoids" "header_size url repoids < 2147483648"
    and msg: "list_all item_ok known" "chunked \<or> extra = []"
    and q0: "q0 = (let q = roffd d + (padlen (roffd d) 4 + 4) in q + length (items_image (d_data_bo d) q (hdr_items url repoids)))"
    and chunk_size: "chunked \<Longrightarrow> length (items_image (d_data_bo d) (q0 + (padlen q0 4 + 4)) (known @ extra)) < 2147483648"
    and oct: "octets (dbuf d) = value_image (d_data_bo d) (roffd d) url repoids chunked (known @ extra) @ rest"
  shows "\<exists>d1 d2 d3. dec_value_begin (Suc n) d = Some (Some (read_head url repoids i), d1) \<and>
     get_items (map kind_of known) d1 = Some (Some known, d2) \<and>
     dec_value_end (Suc (Suc (Suc m))) i d2 = Some (Some (), d3) \<and>
     consumes d (value_image (d_data_bo d) (roffd d) url repoids chunked (known @ extra)) d3"
proof -
  let ?bo = "d_data_bo d" and ?p = "roffd d" and ?h = "read_head url repoids i"
  let ?t = "word_at 4 4 ?bo ?p (value_tag_of url repoids chunked)"
  let ?hs = "items_image ?bo (?p + (padlen ?p 4 + 4)) (hdr_items url repoids)"
  obtain r where im: "value_image ?bo ?p url repoids chunked (known @ extra) = ?t @ ?hs @ r"
    and r: "r = (if chunked
         then let s = q0 + (padlen q0 4 + 4); b = items_image ?bo s (known @ extra)
              in word_at 4 4 ?bo q0 (word_of_nat (length b) :: ulong) @ b @ word_at 4 4 ?bo (s + length b) (-1 :: ulong)
         else items_image ?bo q0 (known @ extra))"
    unfolding q0 by (auto simp: value_image_def Let_def length_word_at add.assoc)
  have qu: "quiet d" using st by (simp add: quiet_def dec_cur_def dec_state1_init_def)
  have vs: "d_vstate d \<noteq> None" using st by simp
  have "octets (dbuf d) = ?t @ ?hs @ (r @ rest)" using oct im by simp
  from read_header [OF ok qu hdr vs this] obtain f where f: "dec_value_begin (Suc n) d = after_header chunked ?h f"
    "consumes d (?t @ ?hs) f" "dec_ok f" "quiet f" "octets (dbuf f) = r @ rest" unfolding i(1) by blast
  have fv: "d_vstate f = Some st" "d_data_bo f = ?bo" using consumes_fields(1,3) [OF f(2)] st by simp_all
  have fo: "roffd f = q0" using roffd_consumes [OF f(2) ok] unfolding q0 by (simp add: Let_def length_word_at add.assoc)
  show ?thesis
  proof (cases chunked)
    case False
    then have ex: "extra = []" using msg(2) by simp
    have ah: "after_header False ?h f = Some (Some ?h, f)"
      using fv st by (simp add: after_header_def dec_cur_def dec_state1_init_def dret_def)
    have "octets (dbuf f) = items_image (d_data_bo f) (roffd f) known @ rest" using f(5) r False ex fv fo by simp
    then obtain g where g: "get_items (map kind_of known) f = Some (Some known, g)"
      "consumes f (items_image ?bo q0 known) g"
      using read_fields [OF f(3) msg(1) _ quiet_calm [OF f(4)]] fv fo by metis
    have "d_vstate g = Some st" using fv g(2) by simp
    then have "dec_value_end (Suc (Suc (Suc m))) i g = Some (Some (), g)"
      using st i(2) by (simp add: dret_def dec_state1_init_def)
    then show ?thesis using f(1) ah False g(1) consumes_trans [OF f(2) g(2)] im r ex by auto
  next
    case True
    let ?s = "q0 + (padlen q0 4 + 4)"
    let ?k = "items_image ?bo ?s known" and ?x = "items_image ?bo (?s + length (items_image ?bo ?s known)) extra"
    let ?l = "length (?k @ ?x)"
    have b: "items_image ?bo ?s (known @ extra) = ?k @ ?x" by (rule items_image_app)
    let ?w = "word_at 4 4 ?bo q0 (word_of_nat ?l :: ulong)" and ?e = "word_at 4 4 ?bo (?s + ?l) (-1 :: ulong)"
    have rr: "r = ?w @ (?k @ ?x) @ ?e" using True r b by (simp add: Let_def)
    have "octets (dbuf f) = word_at 4 4 (d_data_bo f) (roffd f) (word_of_nat ?l :: ulong) @ (?k @ ?x @ ?e @ rest)"
      using f(5) rr fv fo by simp
    from open_value [OF f(3) fv(1) st(2) this, of ?h] obtain g where
      g: "after_header True ?h f = Some (Some ?h, g\<lparr>d_vstate := Some (in_chunk st (word_of_nat (unat (rptr (dbuf g)) + ?l)))\<rparr>)"
        "consumes f ?w g" "octets (dbuf g) = ?k @ ?x @ ?e @ rest"
      using chunk_size [OF True] b fv fo by auto
    note gok = consumes_ok [OF g(2) f(3)]
    define e where "e = (word_of_nat (unat (rptr (dbuf g)) + ?l) :: ulong)"
    have "buf_wf (dbuf g)" using gok by (simp add: dec_ok_def)
    moreover have "octets (dbuf g) = (?k @ ?x) @ ?e @ rest" using g(3) by simp
    ultimately have "unat (rptr (dbuf g)) + ?l < 4294967296"
      using octets_fit [of "dbuf g"] unat_ulong_lt [of "wptr (dbuf g)"] le_less_trans by blast
    then have ue: "unat e = unat (rptr (dbuf g)) + ?l" unfolding e_def by (rule nowrap)
    let ?g = "g\<lparr>d_vstate := Some (in_chunk st e)\<rparr>"
    have gf: "d_data_bo g = ?bo" "roffd g = ?s"
      using consumes_fields(1) [OF g(2)] roffd_consumes [OF g(2) f(3)] fv fo by (simp_all add: length_word_at)
    have "calm (length ?k) ?g" using ue by (simp add: calm_def dec_cur_def in_chunk_def)
    moreover have "octets (dbuf ?g) = items_image (d_data_bo ?g) (roffd ?g) known @ (?x @ ?e @ rest)" using g(3) gf by simp
    moreover have "dec_ok ?g" using gok by simp
    ultimately obtain j' where j': "get_items (map kind_of known) ?g = Some (Some known, j')" "consumes ?g ?k j'"
      using read_fields [of ?g known "?x @ ?e @ rest"] msg(1) gf by auto
    from consumes_vstate [OF j'(2)] obtain j where j: "j' = j\<lparr>d_vstate := Some (in_chunk st e)\<rparr>" "consumes g ?k j" by blast
    have jf: "d_data_bo j = ?bo" "roffd j = ?s + length ?k"
      using consumes_fields(1) [OF j(2)] roffd_consumes [OF j(2) gok] gf by simp_all
    have jo: "octets (dbuf j) = ?x @ word_at 4 4 (d_data_bo j) (roffd j + length ?x) (-1 :: ulong) @ rest"
      using consumes_fields(5) [OF j(2)] g(3) jf by (simp add: add.assoc)
    have "unat e = unat (rptr (dbuf j)) + length ?x" using ue consumes_fields(6) [OF j(2)] by simp
    from close_value [OF consumes_ok [OF j(2) gok] st(2) i(2) jo this, of m] obtain k where
      k: "dec_value_end (Suc (Suc (Suc m))) i j' = Some (Some (), k\<lparr>d_vstate := Some st\<rparr>)" "consumes j (?x @ ?e) k"
      using jf j(1) by (auto simp: add.assoc)
    have c: "consumes d ((?t @ ?hs) @ (?w @ ?k @ (?x @ ?e))) k"
      by (rule consumes_trans [OF f(2) consumes_trans [OF g(2) consumes_trans [OF j(2) k(2)]]])
    have "k\<lparr>d_vstate := Some st\<rparr> = k" using consumes_fields(3) [OF c] st by (cases k) simp
    then show ?thesis using f(1) g(1) True j'(1) k(1) c im rr unfolding e_def by auto
  qed
qed

section \<open>A value between two machines\<close>

lemma read_value_and_more:
  assumes d: "dec_ok d" "d_vstate d = Some dec_vstate_init" "roffd d = 0" "rptr (dbuf d) = 0" "d_data_bo d = bo"
    and oct: "octets (dbuf d) = vi @ items_image bo (length vi) tail" "vi = value_image bo 0 url repoids chunked (known @ extra)"
    and hdr: "header_ok url repoids" and msg: "list_all item_ok (known @ extra)" "list_all item_ok tail"
    and ex: "if chunked then known @ extra \<noteq> [] else extra = []"
    and size: "header_size url repoids + sum_list (map item_size (known @ extra)) < 2147483648"
  obtains d1 d2 d3 d4 where "dec_value_begin (Suc n) d = Some (Some (read_head url repoids 1), d1)"
    and "get_items (map kind_of known) d1 = Some (Some known, d2)"
    and "dec_value_end (Suc (Suc (Suc m))) 1 d2 = Some (Some (), d3)"
    and "get_items (map kind_of tail) d3 = Some (Some tail, d4)" and "octets (dbuf d4) = []"
proof -
  have id: "1 = (word_of_nat (unat (rptr (dbuf d)) + padlen (roffd d) 4 + 1) :: ulong)"
    unfolding d(3,4) by (simp add: padlen_dvd)
  have st: "cur dec_vstate_init = dec_state1_init" "skipped dec_vstate_init 1 = None" by (simp_all add: dec_vstate_init_def)
  have ml: "length (items_image b p (known @ extra)) \<le> sum_list (map item_size (known @ extra))" for b p
    using items_image_bounds [OF item_image_bounds msg(1)] by blast
  have sizes: "header_size url repoids < 2147483648" "length (items_image b p (known @ extra)) < 2147483648" for b p
    using size ml [of b p] by simp_all
  have mk: "list_all item_ok known" "chunked \<or> extra = []" using msg(1) ex by (auto split: if_splits)
  have "octets (dbuf d) = value_image (d_data_bo d) (roffd d) url repoids chunked (known @ extra) @ items_image bo (length vi) tail"
    using oct d(3,5) by simp
  from read_value [OF d(1,2) st(1) id st(2) hdr sizes(1) mk refl sizes(2) this, of n m] obtain d1 d2 d3 where
    r: "dec_value_begin (Suc n) d = Some (Some (read_head url repoids 1), d1)" "get_items (map kind_of known) d1 = Some (Some known, d2)"
      "dec_value_end (Suc (Suc (Suc m))) 1 d2 = Some (Some (), d3)" "consumes d vi d3"
    unfolding d(3,5) oct(2) [symmetric] by blast
  note d3 = consumes_fields [OF r(4)] and ok = consumes_ok [OF r(4) d(1)]
  have q: "quiet d3" using d3(3) d(2) by (simp add: quiet_def dec_cur_def dec_vstate_init_def dec_state1_init_def)
  have ro: "roffd d3 = length vi" using roffd_consumes [OF r(4) d(1)] d(3) by simp
  have o3: "octets (dbuf d3) = items_image (d_data_bo d3) (roffd d3) tail @ []" using d3(1,5) d(5) oct(1) ro by simp
  obtain d4 where g: "get_items (map kind_of tail) d3 = Some (Some tail, d4)"
    "consumes d3 (items_image (d_data_bo d3) (roffd d3) tail) d4"
    by (rule read_fields [OF ok msg(2) o3 quiet_calm [OF q]])
  have "octets (dbuf d4) = []" using consumes_fields(5) [OF g(2)] o3 by simp
  with r g show thesis by (blast intro: that)
qed



section \<open>Values in chunked values\<close>

text \<open>C40: A reader that has reached the end of a chunk cannot read a value that begins there: \<open>value_begin\<close> reads the
  tag with \<open>get_ulong\<close>, whose chunk test takes it for the length of the next chunk, which is more than the
  buffer holds. The encoder ends the chunk before a nested value, so this is where every such value begins.\<close>

theorem nested_value_unreadable:
  assumes "dec_ok d" and "d_vstate d = Some v" and "chunking (cur v)" and "end_of_chunk (cur v) = rptr (dbuf d)"
    and "unat (rptr (dbuf d)) < 2147483648" and "tag \<ge> 0x7fffff00" and "length (octets (dbuf d)) < 0x7fffff00"
    and "octets (dbuf d) = word_at 4 4 (d_data_bo d) (roffd d) (tag :: ulong) @ rest"
  shows "\<exists>d'. dec_value_begin (Suc n) d = Some (None, d')"
proof -
  have "octets (dbuf d) = pad (roffd d) 4 @ (word_image (d_data_bo d) 4 tag @ rest)"
    using assms(8) by (simp add: word_at_def)
  from ralign_consumes [OF assms(1) _ this, of 4] obtain f where f: "dec_ralign 4 d = Some (Some (), f)" "consumes d (pad (roffd d) 4) f"
    by auto
  note ff = consumes_fields [OF f(2)]
  let ?v = "Some (v\<lparr>cur := (cur v)\<lparr>end_of_chunk := -1\<rparr>\<rparr>)"
  let ?d = "d\<lparr>d_vstate := ?v\<rparr>"
  have "rptr (dbuf d) \<noteq> -1"
  proof
    assume "rptr (dbuf d) = -1"
    then have "rptr (dbuf d) = 0xffffffff" by simp
    then have "unat (rptr (dbuf d)) = 4294967295" by simp
    then show False using assms(5) by simp
  qed
  then have "end_chunk f = Some (Some (), ?d)"
    using seek_undo [OF f(2)] ff(3) assms(2,3,4) f(2)
    by (auto simp: end_chunk_def dec_cur_def dbind_def dec_rseek_beg_def dret_def with_cur_def dec_seek_def consumes_def reads_def
        rseek_beg_def buf_wf_def word_le_nat_alt not_less)
  moreover have "begin_chunk ?d = begin_chunk_inner ?d"
    by (rule begin_chunk_inner_eq) (simp add: dec_cur_def)
  moreover have "\<exists>g. begin_chunk ?d = Some (None, g)"
  proof -
    have "calm k ?d" for k by (simp add: calm_def dec_cur_def)
    then obtain g where g: "get_long ?d = Some (Some tag, g)" "consumes ?d (word_at 4 4 (d_data_bo d) (roffd d) tag) g"
      using get_long_consumes [of ?d tag rest] assms(1,8) by auto
    have "unat (buf_length (dbuf g)) < 0x7fffff00"
      using unat_buf_length [OF consumes_fields(9) [OF g(2)]] consumes_fields(5) [OF g(2)] assms(7) by simp
    then have "tag > buf_length (dbuf g)" using assms(6) by (simp add: word_less_nat_alt word_le_nat_alt)
    then show ?thesis using g(1) assms(3) by (simp add: begin_chunk_def dec_cur_def dbind_def open_chunk_def dfail_def)
  qed
  moreover have "check_chunk f = dbind end_chunk (\<lambda>_. begin_chunk_inner) f"
    using ff(3,6) assms(2,3,4,5) \<open>rptr (dbuf d) \<noteq> -1\<close> by (simp add: check_chunk_def dec_cur_def sint_ulong_small word_le_nat_alt)
  ultimately have "\<exists>g. check_chunk f = Some (None, g)" by (simp add: dbind_def)
  then have "\<exists>g. get_ulong d = Some (None, g)" using f(1) by (auto simp: get_ulong_def dbind_def)
  then show ?thesis using assms(2) by (auto simp: dbind_def)
qed

lemma over_octets_rptr:
  assumes "length xs < 1000"
  shows "rptr (dbuf (over_octets xs)) = 0"
proof -
  have u: "unat (word_of_nat (length xs) :: ulong) = length xs" using assms by (simp add: nowrap)
  have z: "wptr (buffer_new 0 0) = 0" "rptr (buffer_new 0 0) = 0" by (simp_all add: buffer_new_def Let_def)
  obtain b where "Octet_Buffer.put xs (word_of_nat (length xs)) (buffer_new 0 0) = Some b" "writes (buffer_new 0 0) xs b"
    using put_writes [OF buffer_new_wf(1) [of 0 0], of "word_of_nat (length xs)" xs] assms u z by auto
  then show ?thesis using z(2) by (auto simp: over_octets_def new_decoder_def writes_def)
qed

theorem nested_value_unreadable_witness:
  "\<exists>d'. dec_value_begin 1 ((over_octets [8, 255, 255, 127, 4, 0, 0, 0])\<lparr>d_vstate := Some (in_chunk dec_vstate_init 0)\<rparr>) = Some (None, d')"
proof -
  define b where "b = over_octets [8, 255, 255, 127, 4, 0, 0, 0]"
  have o: "dec_ok b" "octets (dbuf b) = [8, 255, 255, 127, 4, 0, 0, 0]" "roffd b = 0" "d_data_bo b = LittleEndian" "rptr (dbuf b) = 0"
    using over_octets_facts [of "[8, 255, 255, 127, 4, 0, 0, 0]"] over_octets_rptr [of "[8, 255, 255, 127, 4, 0, 0, 0]"]
    by (simp_all add: b_def dec_fine_def)
  have w: "word_at 4 4 LittleEndian 0 (0x7fffff08 :: ulong) = [8, 255, 255, 127]"
  proof -
    have "(4 :: nat) = Suc (Suc (Suc (Suc 0)))" by simp
    then have "nat_octets 4 v = [word_of_nat v, word_of_nat (v div 256), word_of_nat (v div 256 div 256),
        word_of_nat (v div 256 div 256 div 256)]" for v
      by (simp only: nat_octets.simps)
    then show ?thesis by (simp add: word_at_def word_image_def image_def pad_dvd)
  qed
  have "\<exists>d'. dec_value_begin (Suc 0) (b\<lparr>d_vstate := Some (in_chunk dec_vstate_init 0)\<rparr>) = Some (None, d')"
    by (rule nested_value_unreadable [where v = "in_chunk dec_vstate_init 0" and tag = "0x7fffff08" and rest = "[4, 0, 0, 0]"])
      (simp_all add: o w in_chunk_def)
  then show ?thesis by (simp add: b_def del: dec_value_begin.simps)
qed

end
