(* ===== verification/Std_Map.thy ===== *)
theory Std_Map
  imports Prelude "HOL-Library.Char_ord" "HOL-Library.List_Lexorder"
begin

text \<open>
  \<open>std::map\<close> as the program uses it: \<open>find\<close>, \<open>operator[]\<close> assignment, \<open>erase\<close>, \<open>size\<close> and iteration
  in key order. A map is the list of its entries in the order of iteration. Clients rely only on
  the laws of the locale \<open>ordered_table\<close>; its interpretation on the entry list discharges them once
  for all key types. C strings are lists of characters without NUL, compared like \<open>strcmp\<close>.
\<close>

section \<open>Operations\<close>

type_synonym ('k, 'v) std_map = "('k \<times> 'v) list"

definition map_ok :: "('k::linorder, 'v) std_map \<Rightarrow> bool" where
  "map_ok m \<longleftrightarrow> sorted_wrt (<) (map fst m)"

definition map_find :: "'k::linorder \<Rightarrow> ('k, 'v) std_map \<Rightarrow> 'v option" where
  "map_find k m = map_of m k"

fun map_put :: "'k::linorder \<Rightarrow> 'v \<Rightarrow> ('k, 'v) std_map \<Rightarrow> ('k, 'v) std_map" where
  "map_put k v [] = [(k, v)]"
| "map_put k v ((a, b) # m) =
     (if k < a then (k, v) # (a, b) # m else if k = a then (k, v) # m else (a, b) # map_put k v m)"

definition map_erase :: "'k::linorder \<Rightarrow> ('k, 'v) std_map \<Rightarrow> ('k, 'v) std_map" where
  "map_erase k m = filter (\<lambda>e. fst e \<noteq> k) m"

section \<open>The interface\<close>

text \<open>
  What a client may assume of an ordered table: a lookup after an insertion or an erasure, and an
  iteration that visits every entry once, in the order of the keys.
\<close>

locale ordered_table =
  fixes ok :: "'t \<Rightarrow> bool" and empty :: 't
    and find :: "'k::linorder \<Rightarrow> 't \<Rightarrow> 'v option"
    and ins :: "'k \<Rightarrow> 'v \<Rightarrow> 't \<Rightarrow> 't" and del :: "'k \<Rightarrow> 't \<Rightarrow> 't"
    and entries :: "'t \<Rightarrow> ('k \<times> 'v) list"
  assumes ok_empty: "ok empty" and find_empty: "find k empty = None"
    and ok_ins: "ok t \<Longrightarrow> ok (ins k v t)" and ok_del: "ok t \<Longrightarrow> ok (del k t)"
    and find_ins: "ok t \<Longrightarrow> find k' (ins k v t) = (if k' = k then Some v else find k' t)"
    and find_del: "ok t \<Longrightarrow> find k' (del k t) = (if k' = k then None else find k' t)"
    and entries_sorted: "ok t \<Longrightarrow> sorted_wrt (<) (map fst (entries t))"
    and entries_find: "ok t \<Longrightarrow> (k, v) \<in> set (entries t) \<longleftrightarrow> find k t = Some v"
    and entries_inj: "entries t = entries t' \<Longrightarrow> t = t'"
begin

lemma entries_distinct: "ok t \<Longrightarrow> distinct (map fst (entries t))"
  using entries_sorted strict_sorted_iff by blast

lemma find_None_iff: "ok t \<Longrightarrow> find k t = None \<longleftrightarrow> k \<notin> fst ` set (entries t)"
  using entries_find [of t k] by (cases "find k t") (force intro: rev_image_eqI)+

lemma find_map_of: "ok t \<Longrightarrow> find k t = map_of (entries t) k"
proof (cases "find k t")
  case None
  then show "ok t \<Longrightarrow> ?thesis" by (metis find_None_iff map_of_eq_None_iff)
next
  case (Some v)
  then show "ok t \<Longrightarrow> ?thesis" using entries_find entries_distinct map_of_is_SomeI by fastforce
qed

text \<open>Two tables with the same lookups are the same table.\<close>

lemma table_eqI:
  assumes "ok t" and "ok t'" and "\<And>k. find k t = find k t'"
  shows "t = t'"
proof (rule entries_inj)
  have s: "set (entries t) = set (entries t')"
    using assms entries_find by (auto simp: set_eq_iff)
  have "inj_on fst (set (entries t) \<union> set (entries t'))"
    using entries_distinct [OF assms(1)] by (simp add: distinct_map flip: s)
  then show "entries t = entries t'"
    using entries_sorted [OF assms(1)] entries_sorted [OF assms(2)] s
    by (intro map_sorted_distinct_set_unique) (auto simp: strict_sorted_iff)
qed

lemma ins_ins: "ok t \<Longrightarrow> ins k v (ins k w t) = ins k v t"
  by (rule table_eqI) (simp_all add: ok_ins find_ins)

lemma ins_commute: "ok t \<Longrightarrow> k \<noteq> l \<Longrightarrow> ins k v (ins l w t) = ins l w (ins k v t)"
  by (rule table_eqI) (simp_all add: ok_ins find_ins)

lemma del_ins: "ok t \<Longrightarrow> find k t = None \<Longrightarrow> del k (ins k v t) = t"
  by (rule table_eqI) (simp_all add: ok_ins ok_del find_ins find_del)

lemma ins_same: "ok t \<Longrightarrow> find k t = Some v \<Longrightarrow> ins k v t = t"
  by (rule table_eqI) (simp_all add: ok_ins find_ins)

lemma dom_ins: "ok t \<Longrightarrow> {k. find k (ins l v t) \<noteq> None} = insert l {k. find k t \<noteq> None}"
  by (auto simp: find_ins)

end

section \<open>The entry list provides it\<close>

lemma map_ok_simps [simp]:
  "map_ok []" "map_ok ((k, v) # m) \<longleftrightarrow> (\<forall>a \<in> fst ` set m. k < a) \<and> map_ok m"
  by (auto simp: map_ok_def)

lemma keys_map_put: "fst ` set (map_put k v m) = insert k (fst ` set m)"
  by (induction k v m rule: map_put.induct) (simp_all add: insert_commute)

lemma map_ok_put: "map_ok m \<Longrightarrow> map_ok (map_put k v m)"
  by (induction k v m rule: map_put.induct) (auto simp: keys_map_put order.strict_trans neq_iff)

lemma map_ok_erase: "map_ok m \<Longrightarrow> map_ok (map_erase k m)"
  by (induction m) (auto simp: map_erase_def)

lemma map_find_put: "map_ok m \<Longrightarrow> map_find l (map_put k v m) = (if l = k then Some v else map_find l m)"
  by (induction m) (auto simp: map_find_def)

lemma map_find_erase: "map_find l (map_erase k m) = (if l = k then None else map_find l m)"
  by (induction m) (auto simp: map_find_def map_erase_def)

lemma map_find_entries: "map_ok m \<Longrightarrow> (k, v) \<in> set m \<longleftrightarrow> map_find k m = Some v"
  unfolding map_find_def map_ok_def strict_sorted_iff by auto

interpretation std_map: ordered_table map_ok "[]" map_find map_put map_erase "\<lambda>m. m"
  by unfold_locales
    (auto simp: map_find_put map_find_erase map_find_entries intro: map_ok_put map_ok_erase,
     simp_all add: map_find_def map_ok_def)

lemmas std_map_simps =
  map_ok_put map_ok_erase map_find_put map_find_erase std_map.find_empty

end
