(* ===== verification/Url_Text.thy ===== *)
theory Url_Text
  imports Std_Map
begin

text \<open>
  Text helpers of orb/util.cc and include/mico/util.h: hexadecimal digits, the URL encoding that
  names object ids in the naming database and in \<open>corbaname:\<close> references, and the string hash.
  An octet and a C character are the same byte: \<open>to_chr\<close> and \<open>to_octet\<close> are the casts between them.
\<close>

section \<open>Characters and octets\<close>

definition to_chr :: "octet \<Rightarrow> char" where "to_chr x = char_of (unat x)"

definition to_octet :: "char \<Rightarrow> octet" where "to_octet c = word_of_nat (of_char c)"

lemma to_octet_chr [simp]: "to_octet (to_chr x) = x"
  using unat_octet_lt [of x] by (simp add: to_octet_def to_chr_def)

lemma to_chr_octet [simp]: "to_chr (to_octet c) = c"
  by (simp add: to_octet_def to_chr_def)

lemma to_chr_inject [simp]: "to_chr x = to_chr y \<longleftrightarrow> x = y"
  by (metis to_octet_chr)

section \<open>Hexadecimal digits\<close>

definition isdigit :: "char \<Rightarrow> bool" where
  "isdigit c \<longleftrightarrow> CHR ''0'' \<le> c \<and> c \<le> CHR ''9''"

definition isxdigit :: "char \<Rightarrow> bool" where
  "isxdigit c \<longleftrightarrow> isdigit c \<or> (CHR ''a'' \<le> c \<and> c \<le> CHR ''f'') \<or> (CHR ''A'' \<le> c \<and> c \<le> CHR ''F'')"

definition tolower :: "char \<Rightarrow> char" where
  "tolower c = (if CHR ''A'' \<le> c \<and> c \<le> CHR ''Z'' then char_of (of_char c + 32 :: nat) else c)"

definition mico_from_xdigit :: "char \<Rightarrow> octet option" where
  "mico_from_xdigit c =
     (let c = tolower c in
      do {
        require (isxdigit c);
        Some (if isdigit c then to_octet c - to_octet (CHR ''0'')
              else to_octet c - to_octet (CHR ''a'') + 10)
      })"

definition mico_to_xdigit :: "octet \<Rightarrow> char option" where
  "mico_to_xdigit x = do { require (x < 16); Some (''0123456789abcdef'' ! unat x) }"

section \<open>URL encoding\<close>

definition url_alnum :: "char \<Rightarrow> bool" where
  "url_alnum c \<longleftrightarrow> (CHR ''a'' \<le> c \<and> c \<le> CHR ''z'') \<or> (CHR ''A'' \<le> c \<and> c \<le> CHR ''Z'') \<or>
     (CHR ''0'' \<le> c \<and> c \<le> CHR ''9'')"

definition url_safe :: "char \<Rightarrow> bool" where
  "url_safe c \<longleftrightarrow> c \<in> set '';/:?@&=+$,-.!~*'' \<or> c \<in> {CHR 0x27, CHR ''('', CHR '')''}"

definition url_encode_octet :: "octet \<Rightarrow> string option" where
  "url_encode_octet x =
     (if url_alnum (to_chr x) then Some [to_chr x]
      else if url_safe (to_chr x) then Some [to_chr x]
      else do {
        h \<leftarrow> mico_to_xdigit (drop_bit 4 x);
        l \<leftarrow> mico_to_xdigit (and x 15);
        Some [CHR ''%'', h, l]
      })"

fun url_encode_loop :: "octet list \<Rightarrow> string \<Rightarrow> string option" where
  "url_encode_loop [] res = Some res"
| "url_encode_loop (x # xs) res = do {
     s \<leftarrow> url_encode_octet x;
     url_encode_loop xs (res @ s)
   }"

definition mico_url_encode :: "octet list \<Rightarrow> ulong \<Rightarrow> string option" where
  "mico_url_encode ptr len = do {
     xs \<leftarrow> mem_read ptr 0 (unat len);
     url_encode_loop xs []
   }"

text \<open>
  \<open>mico_url_decode\<close>: the block it allocates holds one octet per character, so no write leaves it.
  The outer option is the run, the inner one the NULL result of a bad escape.
\<close>

fun url_decode_loop :: "string \<Rightarrow> octet list option option" where
  "url_decode_loop [] = Some (Some [])"
| "url_decode_loop (c # ptr) =
     (if c = CHR ''%''
      then case ptr of
             h # l # ptr \<Rightarrow>
               if \<not> isxdigit h \<or> \<not> isxdigit l then Some None
               else do {
                 a \<leftarrow> mico_from_xdigit h;
                 b \<leftarrow> mico_from_xdigit l;
                 res \<leftarrow> url_decode_loop ptr;
                 Some (map_option ((#) (or (push_bit 4 a) b)) res)
               }
           | _ \<Rightarrow> Some None
      else do {
        res \<leftarrow> url_decode_loop ptr;
        Some (map_option ((#) (to_octet c)) res)
      })"

definition mico_url_decode :: "string \<Rightarrow> (octet list \<times> ulong) option option" where
  "mico_url_decode ptr = do {
     require (length ptr < 4294967295);
     res \<leftarrow> url_decode_loop ptr;
     Some (map_option (\<lambda>xs. (xs, word_of_nat (length xs))) res)
   }"

section \<open>String hash\<close>

text \<open>A \<open>char\<close> is signed and is sign extended when it is added.\<close>

definition hash_step :: "ulong \<Rightarrow> char \<Rightarrow> ulong" where
  "hash_step v c =
     (let v = push_bit 4 v + scast (to_octet c); g = and v 0xf0000000
      in if g \<noteq> 0 then xor (xor v (drop_bit 24 g)) g else v)"

definition mico_string_hash :: "string \<Rightarrow> ulong \<Rightarrow> ulong" where
  "mico_string_hash s m = (if m = 0 then 0 else foldl hash_step 0 s mod m)"

section \<open>Encoding and decoding\<close>

definition hex :: "nat \<Rightarrow> char" where "hex n = ''0123456789abcdef'' ! n"

lemma hex_digits:
  assumes "n < 16"
  shows "isxdigit (hex n)" and "mico_from_xdigit (hex n) = Some (word_of_nat n)" and "url_alnum (hex n)"
proof -
  have "list_all (\<lambda>n. url_alnum (hex n) \<and> isxdigit (hex n) \<and> mico_from_xdigit (hex n) = Some (word_of_nat n)) [0..<16]"
    by code_simp
  with assms show "isxdigit (hex n)" and "mico_from_xdigit (hex n) = Some (word_of_nat n)" and "url_alnum (hex n)"
    by (auto simp: list_all_iff)
qed

text \<open>The two digits of an octet, and the octet of two digits.\<close>

lemma hex_octet:
  obtains h l a b where "mico_to_xdigit (drop_bit 4 x) = Some h" and "mico_to_xdigit (and x 15) = Some l"
    and "isxdigit h" and "isxdigit l" and "url_alnum h" and "url_alnum l"
    and "mico_from_xdigit h = Some a" and "mico_from_xdigit l = Some b" and "or (push_bit 4 a) b = x"
proof -
  define h l where "h = unat x div 16" and "l = unat x mod 16"
  have "unat x < 16 * 16" using unat_octet_lt [of x] by simp
  then have lt: "h < 16" "l < 16" unfolding h_def l_def by (simp only: less_mult_imp_div_less) simp
  have uh: "unat (drop_bit 4 x) = h" by (simp only: unat_drop_bit_eq h_def) (simp add: drop_bit_eq_div)
  have "and x 15 = take_bit 4 x" by (simp add: take_bit_eq_mask mask_eq_exp_minus_1)
  then have ul: "unat (and x 15) = l" by (simp only: unsigned_take_bit_eq l_def) (simp add: take_bit_eq_mod)
  have "word_of_nat h = drop_bit 4 x" "word_of_nat l = take_bit 4 x"
    unfolding uh [symmetric] ul [symmetric] by (simp_all add: take_bit_eq_mask mask_eq_exp_minus_1)
  moreover have "or (push_bit 4 (drop_bit 4 x)) (take_bit 4 x) = x"
    by (rule bit_word_eqI) (auto simp: bit_simps)
  ultimately have "or (push_bit 4 (word_of_nat h)) (word_of_nat l) = x" by simp
  moreover have "mico_to_xdigit (drop_bit 4 x) = Some (hex h)" "mico_to_xdigit (and x 15) = Some (hex l)"
    using lt by (simp_all add: mico_to_xdigit_def word_less_nat_alt uh ul hex_def)
  ultimately show thesis using that hex_digits [OF lt(1)] hex_digits [OF lt(2)] by blast
qed

lemma bind_Some: "Option.bind m (\<lambda>x. Some (f x)) = map_option f m"
  by (cases m) simp_all

text \<open>One octet: what the encoder writes for it, the decoder reads back.\<close>

lemma url_octet:
  "\<exists>s. url_encode_octet x = Some s \<and> s \<noteq> [] \<and> (\<forall>c\<in>set s. c = CHR ''%'' \<or> url_alnum c \<or> url_safe c) \<and>
     length s \<le> 3 \<and>
     (\<forall>r. url_decode_loop (s @ r) = map_option (map_option ((#) x)) (url_decode_loop r))"
proof (cases "url_alnum (to_chr x) \<or> url_safe (to_chr x)")
  case True
  have "\<not> (url_alnum (CHR ''%'') \<or> url_safe (CHR ''%''))" by code_simp
  with True have "to_chr x \<noteq> CHR ''%''" by metis
  with True show ?thesis by (auto simp: url_encode_octet_def bind_Some)
next
  case False
  obtain h l a b where "mico_to_xdigit (drop_bit 4 x) = Some h" "mico_to_xdigit (and x 15) = Some l"
    "isxdigit h" "isxdigit l" "url_alnum h" "url_alnum l"
    "mico_from_xdigit h = Some a" "mico_from_xdigit l = Some b" "or (push_bit 4 a) b = x"
    by (rule hex_octet)
  with False show ?thesis by (simp add: url_encode_octet_def bind_Some)
qed

lemma url_loops:
  "\<exists>s. url_encode_loop xs res = Some (res @ s) \<and> length s \<le> 3 * length xs \<and>
     (\<forall>c\<in>set s. c = CHR ''%'' \<or> url_alnum c \<or> url_safe c) \<and>
     (xs \<noteq> [] \<longrightarrow> s \<noteq> []) \<and> url_decode_loop s = Some (Some xs)"
proof (induction xs arbitrary: res)
  case (Cons x xs)
  obtain s where s: "url_encode_octet x = Some s" "s \<noteq> []" "length s \<le> 3"
    "\<forall>c\<in>set s. c = CHR ''%'' \<or> url_alnum c \<or> url_safe c"
    "\<And>r. url_decode_loop (s @ r) = map_option (map_option ((#) x)) (url_decode_loop r)"
    using url_octet [of x] by auto
  obtain r where r: "url_encode_loop xs (res @ s) = Some ((res @ s) @ r)" "length r \<le> 3 * length xs"
    "\<forall>c\<in>set r. c = CHR ''%'' \<or> url_alnum c \<or> url_safe c" "url_decode_loop r = Some (Some xs)"
    using Cons [of "res @ s"] by blast
  have "url_encode_loop (x # xs) res = Some (res @ s @ r)" using s(1) r(1) by simp
  moreover have "url_decode_loop (s @ r) = Some (Some (x # xs))" using s(5) r(4) by simp
  moreover have "length (s @ r) \<le> 3 * length (x # xs)" using s(3) r(2) by simp
  moreover have "\<forall>c\<in>set (s @ r). c = CHR ''%'' \<or> url_alnum c \<or> url_safe c" using s(4) r(3) by auto
  ultimately show ?case using s(2) by blast
qed simp

section \<open>Properties\<close>

text \<open>URL encoding is lossless and clean. Every octet sequence below a third of the 32-bit limit,
  whatever its contents, is encoded into unreserved and escape characters only (so without NUL,
  blank, newline or \<open>#\<close>), and decoding the text gives back the octets and their number.\<close>

theorem url_roundtrip:
  assumes "3 * length xs < 4294967295"
  shows "\<exists>s. mico_url_encode xs (word_of_nat (length xs)) = Some s \<and>
     set s \<subseteq> {c. c = CHR ''%'' \<or> url_alnum c \<or> url_safe c} \<and>
     mico_url_decode s = Some (Some (xs, word_of_nat (length xs)))"
proof -
  obtain s where "url_encode_loop xs [] = Some s" "length s \<le> 3 * length xs"
    "\<forall>c\<in>set s. c = CHR ''%'' \<or> url_alnum c \<or> url_safe c" "url_decode_loop s = Some (Some xs)"
    using url_loops [of xs "[]"] by auto
  with assms show ?thesis
    by (auto simp: mico_url_encode_def mico_url_decode_def mem_read_def nowrap)
qed

theorem url_roundtrip_witness:
  "\<exists>s. mico_url_encode [0, 65, 37, 255] 4 = Some s \<and> mico_url_decode s = Some (Some ([0, 65, 37, 255], 4))"
  using url_roundtrip [of "[0, 65, 37, 255]"] by auto

end
