(* ===== verification/Name_Syntax.thy ===== *)
theory Name_Syntax
  imports Url_Text
begin

text \<open>
  Names and their textual form (class \<open>NamingContextExt_impl\<close> of coss/naming/Naming_impl.cc).
  A name is a list of components; a C string is a list of characters without NUL, whose
  terminator is read at the index of its length. \<open>ScanComponent\<close> is modelled with its pointers:
  \<open>ptr\<close> scans, \<open>bp\<close> stays at the start of the field and copies it into a block of \<open>count\<close> octets.
\<close>

section \<open>Names\<close>

datatype name_component = NameComponent (nc_id: string) (nc_kind: string)

type_synonym name = "name_component list"

text \<open>The order of the binding table, \<open>str_less\<close>: by id, then by kind.\<close>

instantiation name_component :: linorder
begin

definition less_name_component :: "name_component \<Rightarrow> name_component \<Rightarrow> bool" where
  "s1 < s2 \<longleftrightarrow> (if nc_id s1 \<noteq> nc_id s2 then nc_id s1 < nc_id s2 else nc_kind s1 < nc_kind s2)"

definition less_eq_name_component :: "name_component \<Rightarrow> name_component \<Rightarrow> bool" where
  "s1 \<le> s2 \<longleftrightarrow> s1 = s2 \<or> s1 < (s2 :: name_component)"

instance
proof
  fix x y z :: name_component
  show "x < y \<longleftrightarrow> x \<le> y \<and> \<not> y \<le> x"
    by (auto simp: less_eq_name_component_def less_name_component_def split: if_splits)
  show "x \<le> x" by (simp add: less_eq_name_component_def)
  show "x \<le> y \<Longrightarrow> y \<le> z \<Longrightarrow> x \<le> z"
    by (auto simp: less_eq_name_component_def less_name_component_def split: if_splits)
  show "x \<le> y \<Longrightarrow> y \<le> x \<Longrightarrow> x = y"
    by (auto simp: less_eq_name_component_def less_name_component_def split: if_splits)
  show "x \<le> y \<or> y \<le> x"
    by (cases x; cases y) (auto simp: less_eq_name_component_def less_name_component_def)
qed

end

text \<open>The user exceptions of \<open>CosNaming::NamingContext\<close>, and the system exception of a call to
  a servant that is gone.\<close>

datatype not_found_reason = missing_node | not_context | not_object

datatype naming_exn =
    NotFound not_found_reason name | CannotProceed | InvalidName | AlreadyBound | NotEmpty
  | OBJECT_NOT_EXIST

section \<open>From names to text\<close>

fun StringifyEscape :: "string \<Rightarrow> string" where
  "StringifyEscape [] = []"
| "StringifyEscape (c # str) =
     (if c \<in> {CHR ''/'', CHR ''.'', CHR 0x5C} then [CHR 0x5C] else []) @ c # StringifyEscape str"

definition StringifyComponent :: "name_component \<Rightarrow> string" where
  "StringifyComponent nc =
     (let res = StringifyEscape (nc_id nc) in
      if nc_kind nc = [] \<and> nc_id nc \<noteq> [] then res
      else res @ ''.'' @ StringifyEscape (nc_kind nc))"

fun to_string_loop :: "bool \<Rightarrow> name \<Rightarrow> string \<Rightarrow> string" where
  "to_string_loop i [] res = res"
| "to_string_loop i (nc # name) res =
     to_string_loop True name ((if i then res @ ''/'' else res) @ StringifyComponent nc)"

definition to_string :: "name \<Rightarrow> string" where
  "to_string name = to_string_loop False name []"

section \<open>From text to names\<close>

definition chr_at :: "string \<Rightarrow> nat \<Rightarrow> char option" where
  "chr_at s i = (if i < length s then Some (s ! i) else if i = length s then Some (CHR 0x00) else None)"

text \<open>The copying loop: what it writes to \<open>data\<close>, and \<open>bp\<close> afterwards.\<close>

function copy_field :: "string \<Rightarrow> nat \<Rightarrow> nat \<Rightarrow> (string \<times> nat) option" where
  "copy_field s bp ptr =
     (if bp < ptr
      then do {
        c \<leftarrow> chr_at s bp;
        let bp = (if c = CHR 0x5C then bp + 1 else bp);
        d \<leftarrow> chr_at s bp;
        (data, bp) \<leftarrow> copy_field s (bp + 1) ptr;
        Some (d # data, bp)
      } else Some ([], bp))"
  by pat_completeness auto
termination by (relation "measure (\<lambda>(s, bp, ptr). ptr - bp)") auto

declare copy_field.simps [simp del]

text \<open>
  \<open>data\<close> is a block of \<open>count + 1\<close> characters, terminated at \<open>count\<close>. Fewer written characters
  would leave uninitialised ones in the string, more would be a write past the block.
\<close>

definition field_of :: "ulong \<Rightarrow> string \<Rightarrow> string option" where
  "field_of count data = do {
     require (unat count \<le> length data \<and> length data \<le> unat count + 1);
     Some (take (unat count) data)
   }"

text \<open>The outer option is the run, the inner one the result \<open>false\<close>.\<close>

function scan_loop ::
    "string \<Rightarrow> nat \<Rightarrow> nat \<Rightarrow> ulong \<Rightarrow> bool \<Rightarrow> bool \<Rightarrow> name_component \<Rightarrow>
     (nat \<times> name_component) option option" where
  "scan_loop s ptr bp count inid escaped nc =
     (case chr_at s ptr of None \<Rightarrow> None | Some c \<Rightarrow>
        if escaped
        then if c = CHR 0x00 then Some None
             else scan_loop s (ptr + 1) bp (count + 1) inid False nc
        else if c = CHR 0x5C then scan_loop s (ptr + 1) bp count inid True nc
        else if c = CHR ''.'' \<and> \<not> inid then Some None
        else if c = CHR 0x00 \<or> c = CHR ''.'' \<or> c = CHR ''/''
        then case copy_field s bp ptr of None \<Rightarrow> None | Some (xs, bp) \<Rightarrow>
             case field_of count xs of None \<Rightarrow> None | Some data \<Rightarrow>
               if inid
               then let nc = NameComponent data (nc_kind nc) in
                    if c = CHR ''.'' then scan_loop s (ptr + 1) (bp + 1) 0 False False nc
                    else Some (Some (ptr, NameComponent (nc_id nc) ''''))
               else Some (Some (ptr, NameComponent (nc_id nc) data))
        else scan_loop s (ptr + 1) bp (count + 1) inid False nc)"
  by pat_completeness auto
termination
  by (relation "measure (\<lambda>(s, ptr, _). length s + 1 - ptr)")
    (auto simp: chr_at_def split: if_splits)

declare scan_loop.simps [simp del]

definition ScanComponent :: "string \<Rightarrow> nat \<Rightarrow> name_component \<Rightarrow> (nat \<times> name_component) option option" where
  "ScanComponent s ptr nc = scan_loop s ptr ptr 0 True False nc"

lemma scan_loop_forward: "scan_loop s ptr bp count inid escaped nc = Some (Some (p, nc')) \<Longrightarrow> ptr \<le> p"
proof (induction s ptr bp count inid escaped nc rule: scan_loop.induct)
  case (1 s ptr bp count inid escaped nc)
  from 1(5) show ?case
    by (subst (asm) scan_loop.simps)
      (fastforce simp: Let_def dest: 1(1-4) split: option.splits if_splits prod.splits)
qed

function to_name_loop :: "string \<Rightarrow> nat \<Rightarrow> name \<Rightarrow> (naming_exn + name) option" where
  "to_name_loop s sn res =
     (case chr_at s sn of None \<Rightarrow> None | Some c \<Rightarrow>
        if c = CHR 0x00 then Some (Inr res)
        else case ScanComponent s sn (NameComponent '''' '''') of
          None \<Rightarrow> None
        | Some None \<Rightarrow> Some (Inl InvalidName)
        | Some (Some (sn', nc)) \<Rightarrow>
            (case chr_at s sn' of None \<Rightarrow> None | Some d \<Rightarrow>
               if d \<noteq> CHR 0x00 \<and> d \<noteq> CHR ''/'' then Some (Inl InvalidName)
               else if d = CHR ''/'' then to_name_loop s (sn' + 1) (res @ [nc])
               else Some (Inr (res @ [nc]))))"
  by pat_completeness auto
termination
  by (relation "measure (\<lambda>(s, sn, _). length s + 1 - sn)")
    (auto simp: chr_at_def ScanComponent_def dest!: scan_loop_forward split: if_splits)

declare to_name_loop.simps [simp del]

definition to_name :: "string \<Rightarrow> (naming_exn + name) option" where
  "to_name sn = to_name_loop sn 0 []"

definition to_url :: "string \<Rightarrow> string \<Rightarrow> string option" where
  "to_url addr sn = do {
     require (length sn < 4294967295);
     uesn \<leftarrow> mico_url_encode (map to_octet sn) (word_of_nat (length sn));
     Some (''corbaname:'' @ addr @ ''#'' @ uesn)
   }"

section \<open>A structural reader\<close>

text \<open>
  The same syntax read off the remaining text with accumulators instead of pointers: the reference
  the pointer code is compared with.
\<close>

abbreviation finish :: "string \<Rightarrow> string option \<Rightarrow> name_component" where
  "finish acc i \<equiv> (case i of None \<Rightarrow> NameComponent acc '''' | Some i \<Rightarrow> NameComponent i acc)"

fun read_component :: "string \<Rightarrow> string \<Rightarrow> string option \<Rightarrow> (string \<times> name_component) option" where
  "read_component [] acc i = Some ([], finish acc i)"
| "read_component (c # r) acc i =
     (if c = CHR 0x5C then (case r of [] \<Rightarrow> None | d # r \<Rightarrow> read_component r (acc @ [d]) i)
      else if c = CHR ''/'' then Some (c # r, finish acc i)
      else if c = CHR ''.'' then (case i of None \<Rightarrow> read_component r [] (Some acc) | Some _ \<Rightarrow> None)
      else read_component r (acc @ [c]) i)"

lemma read_component_shrinks: "read_component s acc i = Some (r, nc) \<Longrightarrow> length r \<le> length s"
  by (induction s acc i rule: read_component.induct) (auto split: if_splits list.splits option.splits)

function read_name :: "string \<Rightarrow> name option" where
  "read_name s =
     (if s = [] then Some []
      else case read_component s [] None of
        None \<Rightarrow> None
      | Some (r, nc) \<Rightarrow> if r = [] then Some [nc] else map_option ((#) nc) (read_name (tl r)))"
  by pat_completeness auto
termination
proof (relation "measure length", goal_cases)
  case (2 s x r nc)
  then have "length r \<le> length s" using read_component_shrinks by fastforce
  with 2 show ?case by (cases r) auto
qed simp

declare read_name.simps [simp del]

abbreviation c_str :: "string \<Rightarrow> bool" where
  "c_str s \<equiv> CHR 0x00 \<notin> set s"

section \<open>The pointer code and the structural reader\<close>

text \<open>A piece of text that stands for a field: one plain or escaped character per character.\<close>

inductive stands_for :: "string \<Rightarrow> string \<Rightarrow> bool" where
  sf_nil: "stands_for [] []"
| sf_esc: "stands_for t f \<Longrightarrow> stands_for (CHR 0x5C # c # t) (c # f)"
| sf_plain: "c \<noteq> CHR 0x5C \<Longrightarrow> stands_for t f \<Longrightarrow> stands_for (c # t) (c # f)"

lemma stands_for_append: "stands_for t f \<Longrightarrow> stands_for u g \<Longrightarrow> stands_for (t @ u) (f @ g)"
  by (induction rule: stands_for.induct) (auto intro: stands_for.intros)

lemma stands_for_length: "stands_for t f \<Longrightarrow> length f \<le> length t"
  by (induction rule: stands_for.induct) auto

lemma chr_at_append [simp]: "chr_at (pre @ c # r) (length pre) = Some c"
  by (simp add: chr_at_def)

lemma chr_at_end [simp]: "chr_at pre (length pre) = Some (CHR 0x00)"
  by (simp add: chr_at_def)

lemma copy_field_stands:
  "stands_for t f \<Longrightarrow>
   copy_field (pre @ t @ post) (length pre) (length pre + length t) = Some (f, length pre + length t)"
proof (induction arbitrary: pre rule: stands_for.induct)
  case sf_nil
  then show ?case by (simp add: copy_field.simps)
next
  case (sf_esc t f c)
  have "chr_at (pre @ CHR 0x5C # c # t @ post) (Suc (length pre)) = Some c"
    by (simp add: chr_at_def nth_append)
  with sf_esc.IH [of "pre @ [CHR 0x5C, c]"] show ?case by (subst copy_field.simps) simp
next
  case (sf_plain c t f)
  with sf_plain.IH [of "pre @ [c]"] show ?case by (subst copy_field.simps) simp
qed

lemma field_of_all: "length f < 4294967296 \<Longrightarrow> field_of (word_of_nat (length f)) f = Some f"
  by (simp add: field_of_def nowrap)

lemma scan_loop_reads:
  assumes "stands_for t f" and "c_str (pre @ t @ r)" and "length (pre @ t @ r) < 4294967295"
    and "i = (if inid then None else Some (nc_id nc))"
  shows "scan_loop (pre @ t @ r) (length pre + length t) (length pre) (word_of_nat (length f)) inid False nc =
     Some (map_option (\<lambda>(r', nc'). (length (pre @ t @ r) - length r', nc')) (read_component r f i))"
  using assms
proof (induction r f i arbitrary: pre t inid nc rule: read_component.induct)
  case (1 acc i)
  have "length acc < 4294967296" using stands_for_length [OF 1(1)] 1(3) by simp
  then show ?case
    using copy_field_stands [OF 1(1), of pre "[]"] chr_at_end [of "pre @ t"] 1(4)
    by (subst scan_loop.simps) (simp add: field_of_all)
next
  case (2 c r acc i)
  note sf = "2.prems"(1) and cs = "2.prems"(2) and len = "2.prems"(3) and i = "2.prems"(4)
  let ?s = "pre @ t @ c # r"
  have at: "chr_at ?s (length pre + length t) = Some c" using chr_at_append [of "pre @ t" c r] by simp
  have lacc: "length acc < 4294967295" using stands_for_length [OF sf] len by simp
  note f = field_of_all [of acc] copy_field_stands [OF sf, of pre "c # r"]
  have n0: "c \<noteq> CHR 0x00" using cs by auto
  have one: "word_of_nat (length acc) + 1 = (word_of_nat (Suc (length acc)) :: ulong)" by simp
  consider "c = CHR 0x5C" "r = []" | d r' where "c = CHR 0x5C" "r = d # r'" | "c = CHR ''/''"
    | "c = CHR ''.''" | "c \<notin> {CHR 0x5C, CHR ''/'', CHR ''.''}"
    by (cases r) auto
  then show ?case
  proof cases
    case 1
    have "chr_at ?s (Suc (length pre + length t)) = Some (CHR 0x00)"
      using chr_at_end [of ?s] 1 by simp
    then have "scan_loop ?s (Suc (length pre + length t)) b k n True nc = Some None" for b k n
      by (subst scan_loop.simps) simp
    then show ?thesis using at 1 by (subst scan_loop.simps) simp
  next
    case (2 d r')
    have "chr_at ?s (Suc (length pre + length t)) = Some d" using 2 by (simp add: chr_at_def nth_append)
    moreover have "d \<noteq> CHR 0x00" using 2 cs by auto
    ultimately have e: "scan_loop ?s (Suc (length pre + length t)) b k n True nc =
        scan_loop ?s (Suc (Suc (length pre + length t))) b (k + 1) n False nc" for b k n
      by (subst scan_loop.simps) simp
    have "stands_for (t @ [c, d]) (acc @ [d])"
      using sf 2 by (auto intro!: stands_for_append stands_for.intros)
    from "2.IH"(1) [OF 2 this, of pre inid nc] 2 cs len i
    show ?thesis using at e by (subst scan_loop.simps) (simp add: one del: of_nat_Suc)
  next
    case 3
    then show ?thesis using at f lacc i by (subst scan_loop.simps) simp
  next
    case 4
    show ?thesis
    proof (cases inid)
      case True
      have "stands_for [] []" by (rule sf_nil)
      from "2.IH"(2) [OF _ _ 4 _ this, of "pre @ t @ [c]" False "NameComponent acc (nc_kind nc)"] 4 True cs len i
      show ?thesis using at f lacc by (subst scan_loop.simps) simp
    next
      case False
      then show ?thesis using at 4 i by (subst scan_loop.simps) simp
    qed
  next
    case 5
    have "stands_for (t @ [c]) (acc @ [c])"
      using sf 5 by (auto intro!: stands_for_append stands_for.intros)
    from "2.IH"(3) [OF _ _ _ this, of pre inid nc] 5 cs len i
    show ?thesis using at n0 by (subst scan_loop.simps) (simp add: one del: of_nat_Suc)
  qed
qed

lemma ScanComponent_reads:
  assumes "c_str (pre @ r)" and "length (pre @ r) < 4294967295"
  shows "ScanComponent (pre @ r) (length pre) nc =
     Some (map_option (\<lambda>(r', nc'). (length (pre @ r) - length r', nc')) (read_component r [] None))"
  using scan_loop_reads [OF sf_nil, of pre r None True nc] assms by (simp add: ScanComponent_def)

lemma read_component_rest:
  "read_component s acc i = Some (r, nc) \<Longrightarrow>
   \<exists>t. s = t @ r \<and> (r = [] \<or> hd r = CHR ''/'')"
proof (induction s acc i rule: read_component.induct)
  case (2 c s acc i)
  then show ?case
    by (auto split: if_splits list.splits option.splits)
qed simp

lemma to_name_loop_reads:
  "c_str (pre @ r) \<Longrightarrow> length (pre @ r) < 4294967295 \<Longrightarrow>
   to_name_loop (pre @ r) (length pre) res =
     Some (case read_name r of None \<Rightarrow> Inl InvalidName | Some n \<Rightarrow> Inr (res @ n))"
proof (induction r arbitrary: pre res rule: read_name.induct)
  case (1 s)
  show ?case
  proof (cases s)
    case Nil
    then show ?thesis using chr_at_end [of pre] by (subst to_name_loop.simps) (simp add: read_name.simps)
  next
    case (Cons c s')
    have at: "chr_at (pre @ s) (length pre) = Some c" "c \<noteq> CHR 0x00" using Cons 1(2) by auto
    show ?thesis
    proof (cases "read_component s [] None")
      case None
      then show ?thesis using at Cons ScanComponent_reads [OF 1(2,3)]
        by (subst to_name_loop.simps, subst read_name.simps) simp
    next
      case (Some p)
      obtain r nc where p: "p = (r, nc)" by fastforce
      obtain t where t: "s = t @ r" "r = [] \<or> hd r = CHR ''/''"
        using read_component_rest Some p by blast
      note sc = ScanComponent_reads [OF 1(2,3), of "NameComponent '''' ''''"]
      show ?thesis
      proof (cases r)
        case Nil
        then show ?thesis using at Cons sc Some p chr_at_end [of "pre @ s"]
          by (subst to_name_loop.simps, subst read_name.simps) simp
      next
        case (Cons d r')
        then have d: "d = CHR ''/''" using t(2) by simp
        have e: "pre @ s = (pre @ t @ [d]) @ r'" using t(1) Cons by simp
        have "length (pre @ s) - length r = length (pre @ t)" using t(1) by simp
        moreover have "chr_at (pre @ s) (length (pre @ t)) = Some d"
          using chr_at_append [of "pre @ t" d r'] t(1) Cons by simp
        moreover have "to_name_loop (pre @ s) (length (pre @ t) + 1) (res @ [nc]) =
            Some (case read_name r' of None \<Rightarrow> Inl InvalidName | Some n \<Rightarrow> Inr ((res @ [nc]) @ n))"
          using 1(1) [OF _ Some p [symmetric], of "pre @ t @ [d]" "res @ [nc]"] 1(2,3) [unfolded e]
            Cons \<open>s = c # s'\<close> unfolding e by (simp cong: option.case_cong)
        ultimately show ?thesis using at \<open>s = c # s'\<close> sc Some p d Cons
          by (subst to_name_loop.simps, subst read_name.simps) (simp split: option.splits)
      qed
    qed
  qed
qed

section \<open>Writing and reading back\<close>

lemma read_escape: "read_component (StringifyEscape t @ r) acc i = read_component r (acc @ t) i"
  by (induction t arbitrary: acc) auto

lemma read_stringified:
  assumes "r = [] \<or> (\<exists>s. r = CHR ''/'' # s)"
  shows "read_component (StringifyComponent nc @ r) [] None = Some (r, nc)"
  using assms by (cases nc) (auto simp: StringifyComponent_def read_escape Let_def)

lemma StringifyComponent_nonempty: "StringifyComponent nc \<noteq> []"
  by (cases "nc_id nc") (auto simp: StringifyComponent_def Let_def)

fun joined :: "name \<Rightarrow> string" where
  "joined [] = []"
| "joined (nc # n) = StringifyComponent nc @ (if n = [] then [] else CHR ''/'' # joined n)"

lemma to_string_loop_joined:
  "to_string_loop i n res = (if n = [] then res else (if i then res @ ''/'' else res) @ joined n)"
  by (induction n arbitrary: i res) auto

lemma to_string_joined: "to_string n = joined n"
  by (simp add: to_string_def to_string_loop_joined)

lemma read_name_joined: "read_name (joined n) = Some n"
proof (induction n)
  case (Cons nc n)
  have "joined n \<noteq> []" if "n \<noteq> []" using that by (cases n) (simp_all add: StringifyComponent_nonempty)
  with Cons read_stringified [of "if n = [] then [] else CHR ''/'' # joined n" nc] show ?case
    by (subst read_name.simps) (auto simp: StringifyComponent_nonempty)
qed (simp add: read_name.simps)

fun component_ok :: "name_component \<Rightarrow> bool" where
  "component_ok (NameComponent i k) \<longleftrightarrow> c_str i \<and> c_str k"

lemma c_str_escape [simp]: "c_str (StringifyEscape t) \<longleftrightarrow> c_str t"
  by (induction t) auto

lemma c_str_component: "component_ok nc \<Longrightarrow> c_str (StringifyComponent nc)"
  by (cases nc) (auto simp: StringifyComponent_def Let_def)

lemma c_str_joined: "list_all component_ok n \<Longrightarrow> c_str (joined n)"
  by (induction n) (auto simp: c_str_component)

section \<open>Properties\<close>

text \<open>C26: The pointer code of \<open>to_name\<close> and \<open>ScanComponent\<close> (two pointers into the text, a count, a
  block per field) computes what the structural reader computes, or raises \<open>InvalidName\<close> where the
  reader has no result. In particular it always returns, and on no text does it read past the
  terminator, write past a field's block or leave part of a field uninitialised.\<close>

theorem to_name_reads:
  assumes "c_str s" and "length s < 4294967295"
  shows "to_name s = Some (case read_name s of None \<Rightarrow> Inl InvalidName | Some n \<Rightarrow> Inr n)"
  using to_name_loop_reads [of "[]" s "[]"] assms by (simp add: to_name_def cong: option.case_cong)

theorem to_name_reads_witness:
  "to_name ''a.b/c.d.e'' = Some (Inl InvalidName) \<and>
   to_name [CHR ''a'', CHR 0x5C, CHR ''/'', CHR ''b'', CHR ''.'', CHR ''k'', CHR ''/''] =
     Some (Inr [NameComponent ''a/b'' ''k''])"
  by (subst (1 2) to_name_reads) (simp_all add: read_name.simps)

text \<open>C25: Names survive their textual form. Every name, whatever slashes, dots, backslashes and empty
  fields its components hold, is read back unchanged from the text that \<open>to_string\<close> gives it.\<close>

theorem name_text_roundtrip:
  assumes "list_all component_ok n" and "length (to_string n) < 4294967295"
  shows "to_name (to_string n) = Some (Inr n)"
  using to_name_loop_reads [of "[]" "to_string n" "[]"] assms
  by (simp add: to_name_def to_string_joined c_str_joined read_name_joined)

theorem name_text_roundtrip_witness:
  "to_name (to_string [NameComponent ''a/b'' ''c.d'', NameComponent '''' '''', NameComponent ''x'' '''']) =
     Some (Inr [NameComponent ''a/b'' ''c.d'', NameComponent '''' '''', NameComponent ''x'' ''''])"
  by (rule name_text_roundtrip) (simp_all add: to_string_joined StringifyComponent_def)

text \<open>A \<open>corbaname:\<close> reference carries its name. \<open>to_url\<close> of the text of a name puts after the
  address a fragment without \<open>#\<close>, whose decoding is the text, which \<open>to_name\<close> reads back as the
  name.\<close>

theorem url_name_roundtrip:
  assumes "list_all component_ok n" and "3 * length (to_string n) < 4294967295"
  shows "\<exists>u xs l. to_url addr (to_string n) = Some (''corbaname:'' @ addr @ ''#'' @ u) \<and> CHR ''#'' \<notin> set u \<and>
     mico_url_decode u = Some (Some (xs, l)) \<and> to_name (map to_chr xs) = Some (Inr n)"
proof -
  let ?s = "to_string n"
  obtain u s where u: "url_encode_loop (map to_octet ?s) [] = Some u" "u = s"
    "\<forall>c\<in>set s. c = CHR ''%'' \<or> url_alnum c \<or> url_safe c"
    "url_decode_loop s = Some (Some (map to_octet ?s))" "length s \<le> 3 * length ?s"
    using url_loops [of "map to_octet ?s" "[]"] by auto
  have "\<not> (CHR ''#'' = CHR ''%'' \<or> url_alnum (CHR ''#'') \<or> url_safe (CHR ''#''))" by code_simp
  then have "CHR ''#'' \<notin> set u" using u(2,3) by metis
  moreover have "to_url addr ?s = Some (''corbaname:'' @ addr @ ''#'' @ u)"
    using u(1) assms(2) by (simp add: to_url_def mico_url_encode_def mem_read_def nowrap)
  moreover have "mico_url_decode u = Some (Some (map to_octet ?s, word_of_nat (length ?s)))"
    using u(2,4,5) assms(2) by (simp add: mico_url_decode_def)
  moreover have "to_name (map to_chr (map to_octet ?s)) = Some (Inr n)"
    using to_name_loop_reads [of "[]" ?s "[]"] assms
    by (simp add: to_name_def to_string_joined c_str_joined read_name_joined comp_def)
  ultimately show ?thesis by blast
qed

theorem url_name_roundtrip_witness:
  "\<exists>u xs l. to_url ''::host'' (to_string [NameComponent ''a b'' ''c'']) = Some (''corbaname:'' @ ''::host'' @ ''#'' @ u) \<and>
     CHR ''#'' \<notin> set u \<and> mico_url_decode u = Some (Some (xs, l)) \<and>
     to_name (map to_chr xs) = Some (Inr [NameComponent ''a b'' ''c''])"
  by (rule url_name_roundtrip) (simp_all add: to_string_joined StringifyComponent_def)

end
