(* ===== verification/Name_Balance.thy ===== *)
theory Name_Balance
  imports Name_Syntax
begin

text \<open>
  Load balancing of the naming service (\<open>FindNameComponent\<close>, \<open>AddLoadBalanceEntry\<close>,
  \<open>RemoveLoadBalanceEntry\<close>, \<open>RoundRobinResolve\<close> and \<open>RandomResolve\<close> of
  coss/naming/Naming_impl.cc). Per kind the service keeps the bound components in a \<open>std::map\<close>
  whose keys are numbers assigned to a \<open>std::string\<close>. That assignment is the one from a \<open>char\<close>: the
  key is one character, the number modulo 256. The promise is a rotation over the bound components
  of a kind; it holds up to 255 of them.
\<close>

section \<open>Data\<close>

record load_balance_data =
  iCount :: int
  iCurrentNumber :: int
  tbSubTable :: "(string, name_component) std_map"

type_synonym name_kind_table = "(string, load_balance_data) std_map"

text \<open>\<open>sNumber = i\<close> for an \<open>int\<close>, and \<open>NULL_NUMBER\<close>.\<close>

definition number_string :: "int \<Rightarrow> string" where
  "number_string i = [char_of (nat (i mod 256))]"

definition NULL_NUMBER :: int where "NULL_NUMBER = -1"

section \<open>Operations\<close>

function find_loop :: "name_component \<Rightarrow> load_balance_data \<Rightarrow> int \<Rightarrow> string" where
  "find_loop nc d i =
     (if i \<le> iCount d - 1
      then let sNumber = number_string i in
           (case map_find sNumber (tbSubTable d) of
              Some c \<Rightarrow> if nc_id c = nc_id nc \<and> nc_kind c = nc_kind nc then sNumber else find_loop nc d (i + 1)
            | None \<Rightarrow> find_loop nc d (i + 1))
      else number_string NULL_NUMBER)"
  by pat_completeness auto
termination by (relation "measure (\<lambda>(nc, d, i). nat (iCount d - i))") auto

declare find_loop.simps [simp del]

definition FindNameComponent :: "name_component \<Rightarrow> load_balance_data \<Rightarrow> string" where
  "FindNameComponent nc d = find_loop nc d 0"

definition AddLoadBalanceEntry :: "name_component \<Rightarrow> name_kind_table \<Rightarrow> name_kind_table" where
  "AddLoadBalanceEntry nc t =
     (let sKind = nc_kind nc;
          t = (if map_find sKind t = None
               then map_put sKind \<lparr>iCount = 0, iCurrentNumber = 0, tbSubTable = []\<rparr> t else t);
          d = the (map_find sKind t);
          sNumber = FindNameComponent nc d;
          (sNumber, d) = (if sNumber = number_string NULL_NUMBER
                          then (number_string (iCount d), d\<lparr>iCount := iCount d + 1\<rparr>)
                          else (sNumber, d))
      in map_put sKind (d\<lparr>tbSubTable := map_put sNumber nc (tbSubTable d)\<rparr>) t)"

text \<open>A dereferenced iterator must not be \<open>end ()\<close>.\<close>

definition RemoveLoadBalanceEntry :: "name_component \<Rightarrow> name_kind_table \<Rightarrow> name_kind_table option" where
  "RemoveLoadBalanceEntry nc t =
     (let sKind = nc_kind nc in
      case map_find sKind t of None \<Rightarrow> Some t | Some d \<Rightarrow>
        let sNumber = FindNameComponent nc d in
        if sNumber = number_string NULL_NUMBER then Some t
        else do {
          let sMaximumNumber = number_string (iCount d - 1);
          last \<leftarrow> map_find sMaximumNumber (tbSubTable d);
          let sub = (if sNumber = sMaximumNumber then map_erase sNumber (tbSubTable d)
                     else map_erase sMaximumNumber (map_put sNumber last (tbSubTable d)));
          Some (map_put sKind (d\<lparr>tbSubTable := sub, iCount := iCount d - 1\<rparr>) t)
        })"

definition RoundRobinResolve ::
    "name_component \<Rightarrow> name_kind_table \<Rightarrow> ((naming_exn + name_component) \<times> name_kind_table) option" where
  "RoundRobinResolve nc t =
     (let sKind = nc_kind nc in
      case map_find sKind t of None \<Rightarrow> Some (Inl (NotFound missing_node []), t) | Some d \<Rightarrow>
        if iCount d > 0
        then do {
          let d = (if iCurrentNumber d \<le> iCount d - 1 then d else d\<lparr>iCurrentNumber := 0\<rparr>);
          let iTargetNumber = iCurrentNumber d;
          let d = d\<lparr>iCurrentNumber := iCurrentNumber d + 1\<rparr>;
          c \<leftarrow> map_find (number_string iTargetNumber) (tbSubTable d);
          Some (Inr c, map_put sKind d t)
        } else Some (Inl (NotFound missing_node []), t))"

text \<open>\<open>r\<close> is what \<open>rand ()\<close> returns: a number that is not negative.\<close>

definition RandomResolve ::
    "nat \<Rightarrow> name_component \<Rightarrow> name_kind_table \<Rightarrow> (naming_exn + name_component) option" where
  "RandomResolve r nc t =
     (case map_find (nc_kind nc) t of None \<Rightarrow> Some (Inl (NotFound missing_node [])) | Some d \<Rightarrow>
        if iCount d > 0
        then do {
          let iTargetNumber = int r mod iCount d;
          c \<leftarrow> map_find (number_string iTargetNumber) (tbSubTable d);
          Some (Inr c)
        } else Some (Inl (NotFound missing_node [])))"

section \<open>The list a kind stands for\<close>

definition lb_list :: "load_balance_data \<Rightarrow> name_component list \<Rightarrow> bool" where
  "lb_list d ms \<longleftrightarrow> iCount d = int (length ms) \<and> length ms \<le> 255 \<and> distinct ms \<and> 0 \<le> iCurrentNumber d \<and>
     map_ok (tbSubTable d) \<and>
     (\<forall>k. map_find k (tbSubTable d) =
        (if length k = 1 \<and> of_char (hd k) < length ms then Some (ms ! of_char (hd k)) else None))"

lemma number_string_inject [simp]:
  "i < 256 \<Longrightarrow> j < 256 \<Longrightarrow> number_string (int i) = number_string (int j) \<longleftrightarrow> i = j"
  by (auto simp: number_string_def nat_mod_distrib char_of_eq_iff take_bit_eq_mod)

lemma number_string_index [simp]:
  "length (number_string n) = 1" "i < 256 \<Longrightarrow> of_char (hd (number_string (int i))) = i"
  by (simp_all add: number_string_def nat_mod_distrib)

lemma number_string_key:
  "i < 256 \<Longrightarrow> k = number_string (int i) \<longleftrightarrow> length k = 1 \<and> of_char (hd k) = i"
  by (cases k) (auto simp: number_string_def nat_mod_distrib)

lemma number_string_NULL [simp]: "i < 255 \<Longrightarrow> number_string (int i) \<noteq> number_string NULL_NUMBER"
  by (simp add: number_string_def NULL_NUMBER_def nat_mod_distrib char_of_eq_iff take_bit_eq_mod)

lemma number_string_255: "number_string 255 = number_string NULL_NUMBER"
  by (simp add: number_string_def NULL_NUMBER_def)

lemma lb_listD:
  assumes "lb_list d ms"
  shows "iCount d = int (length ms)" and "length ms \<le> 255" and "distinct ms" and "0 \<le> iCurrentNumber d"
    and "map_ok (tbSubTable d)"
    and "i < length ms \<Longrightarrow> map_find (number_string (int i)) (tbSubTable d) = Some (ms ! i)"
  using assms by (auto simp: lb_list_def)

definition pos :: "name_component \<Rightarrow> name_component list \<Rightarrow> nat" where
  "pos nc ms = length (takeWhile (\<lambda>c. c \<noteq> nc) ms)"

lemma pos_less: "nc \<in> set ms \<Longrightarrow> pos nc ms < length ms \<and> ms ! pos nc ms = nc"
  unfolding pos_def by (induction ms) auto

lemma pos_first: "i < pos nc ms \<Longrightarrow> ms ! i \<noteq> nc"
  unfolding pos_def by (metis (mono_tags, lifting) nth_mem set_takeWhileD takeWhile_nth)

lemma component_eq: "nc_id c = nc_id nc \<and> nc_kind c = nc_kind nc \<longleftrightarrow> c = nc"
  by (cases c; cases nc) simp

lemma find_loop_list:
  assumes d: "lb_list d ms"
  shows "i \<le> (if nc \<in> set ms then pos nc ms else length ms) \<Longrightarrow>
    find_loop nc d (int i) = number_string (if nc \<in> set ms then int (pos nc ms) else NULL_NUMBER)"
proof (induction "length ms - i" arbitrary: i)
  case 0
  then have "\<not> nc \<in> set ms" "i = length ms" using pos_less [of nc ms] by (auto split: if_splits)
  then show ?case using lb_listD(1) [OF d] by (subst find_loop.simps) simp
next
  case (Suc k)
  then have lt: "i < length ms" by simp
  note f = lb_listD(1) [OF d] lb_listD(6) [OF d lt]
  show ?case
  proof (cases "ms ! i = nc")
    case True
    then have "nc \<in> set ms" using lt by auto
    moreover from this have "i = pos nc ms" using Suc.prems pos_first [of i nc ms] pos_less [of nc ms] True
      lb_listD(3) [OF d] lt by (metis nth_eq_iff_index_eq)
    ultimately show ?thesis using f True lt by (subst find_loop.simps) simp
  next
    case False
    have "Suc i \<le> (if nc \<in> set ms then pos nc ms else length ms)"
      using Suc.prems lt False pos_less [of nc ms] by (auto split: if_splits simp: Suc_le_eq le_less)
    then have "find_loop nc d (int (Suc i)) = number_string (if nc \<in> set ms then int (pos nc ms) else NULL_NUMBER)"
      using Suc.hyps by (intro Suc.hyps(1)) simp_all
    then show ?thesis using f False lt by (subst find_loop.simps) (simp add: component_eq Let_def add.commute)
  qed
qed

lemma FindNameComponent_list:
  "lb_list d ms \<Longrightarrow> FindNameComponent nc d =
     number_string (if nc \<in> set ms then int (pos nc ms) else NULL_NUMBER)"
  using find_loop_list [of d ms 0 nc] by (simp add: FindNameComponent_def)

section \<open>What the operations do to the list\<close>

text \<open>Removal fills the gap with the last component.\<close>

definition swap_remove :: "name_component \<Rightarrow> name_component list \<Rightarrow> name_component list" where
  "swap_remove nc ms = butlast (ms[pos nc ms := last ms])"

lemma lb_extend:
  assumes d: "lb_list d ms" and "nc \<notin> set ms" and "length ms < 255"
  shows "lb_list (d\<lparr>iCount := iCount d + 1,
     tbSubTable := map_put (number_string (iCount d)) nc (tbSubTable d)\<rparr>) (ms @ [nc])"
  using assms
  by (auto simp: lb_list_def std_map_simps number_string_key nth_append less_Suc_eq)

lemma lb_overwrite:
  assumes "lb_list d ms" and "nc \<in> set ms"
  shows "map_put (number_string (int (pos nc ms))) nc (tbSubTable d) = tbSubTable d"
  using lb_listD(5,6) [OF assms(1)] pos_less [OF assms(2)] by (simp add: std_map.ins_same)

lemma set_swap_remove:
  assumes "distinct ms" and "nc \<in> set ms"
  shows "distinct (swap_remove nc ms)" and "set (swap_remove nc ms) = set ms - {nc}"
    and "length (swap_remove nc ms) = length ms - 1"
proof -
  obtain xs y where ms: "ms = xs @ [y]" using assms(2) by (cases ms rule: rev_cases) auto
  let ?p = "pos nc ms"
  have p: "?p < length ms" "ms ! ?p = nc" using pos_less [OF assms(2)] by auto
  have "distinct (swap_remove nc ms) \<and> set (swap_remove nc ms) = set ms - {nc}"
  proof (cases "?p = length xs")
    case True
    then have "nc = y" using p ms by simp
    then show ?thesis using True ms assms(1) by (simp add: swap_remove_def)
  next
    case False
    then have "?p < length xs" using p ms by simp
    then obtain q where q: "q < length xs" "xs ! q = nc" "swap_remove nc ms = xs[q := y]"
      using p by (auto simp: swap_remove_def ms list_update_append nth_append)
    have "distinct xs" "y \<notin> set xs" using assms(1) ms by auto
    then have "distinct (xs[q := y]) \<and> set (xs[q := y]) = set (xs @ [y]) - {nc}"
      using q(1,2) nth_mem [OF q(1)] by (auto simp: distinct_list_update set_update_distinct)
    then show ?thesis by (simp only: q(3)) (simp add: ms)
  qed
  then show "distinct (swap_remove nc ms)" "set (swap_remove nc ms) = set ms - {nc}" by auto
  show "length (swap_remove nc ms) = length ms - 1" by (simp add: swap_remove_def)
qed

lemma swap_remove_nth:
  assumes "nc \<in> set ms" and "i < length ms - 1"
  shows "swap_remove nc ms ! i = (if i = pos nc ms then last ms else ms ! i)"
  using assms pos_less [OF assms(1)] by (simp add: swap_remove_def nth_butlast nth_list_update)

text \<open>Both branches of the removal (the last entry, or another one) come to the same list.\<close>

lemma lb_shrink:
  assumes d: "lb_list d ms" and nc: "nc \<in> set ms"
  shows "\<exists>last. map_find (number_string (iCount d - 1)) (tbSubTable d) = Some last \<and>
     lb_list (d\<lparr>tbSubTable :=
         (if number_string (int (pos nc ms)) = number_string (iCount d - 1)
          then map_erase (number_string (int (pos nc ms))) (tbSubTable d)
          else map_erase (number_string (iCount d - 1)) (map_put (number_string (int (pos nc ms))) last (tbSubTable d))),
       iCount := iCount d - 1\<rparr>) (swap_remove nc ms)"
proof -
  note lb = lb_listD [OF d] and p = pos_less [OF nc] and sw = set_swap_remove [OF lb(3) nc]
  define n where "n = length ms - 1"
  have n: "length ms = Suc n" "n < 255" using p lb(2) by (auto simp: n_def)
  have cnt: "iCount d - 1 = int n" using lb(1) n by simp
  have last: "last ms = ms ! n" using n by (metis last_conv_nth length_0_conv Zero_not_Suc n_def)
  have find: "map_find k (tbSubTable d) =
      (if length k = 1 \<and> of_char (hd k) < Suc n then Some (ms ! of_char (hd k)) else None)" for k
    using d n by (simp add: lb_list_def)
  let ?p = "pos nc ms"
  have lt: "?p < 256" "n < 256" "?p \<le> n" using p n by simp_all
  let ?sub = "if number_string (int ?p) = number_string (int n)
          then map_erase (number_string (int ?p)) (tbSubTable d)
          else map_erase (number_string (int n)) (map_put (number_string (int ?p)) (ms ! n) (tbSubTable d))"
  have "map_find k ?sub = (if length k = 1 \<and> of_char (hd k) < n then Some (swap_remove nc ms ! of_char (hd k)) else None)" for k
    using lt n lb(5) swap_remove_nth [OF nc, of "of_char (hd k)"]
    by (auto simp: std_map_simps find number_string_key last)
  moreover have "map_ok ?sub" using lb(5) by (auto intro: map_ok_erase map_ok_put)
  moreover have "map_find (number_string (int n)) (tbSubTable d) = Some (ms ! n)"
    using lb(6) [of n] n by simp
  ultimately show ?thesis unfolding cnt using sw lb(4) n by (auto simp: lb_list_def)
qed

section \<open>The table and the set of bound components\<close>

definition of_kind :: "string \<Rightarrow> name_component set \<Rightarrow> name_component set" where
  "of_kind k B = {c \<in> B. nc_kind c = k}"

definition balance_ok :: "name_kind_table \<Rightarrow> name_component set \<Rightarrow> bool" where
  "balance_ok t B \<longleftrightarrow> map_ok t \<and>
     (\<forall>k. case map_find k t of
            None \<Rightarrow> of_kind k B = {}
          | Some d \<Rightarrow> \<exists>ms. lb_list d ms \<and> set ms = of_kind k B)"

lemma balance_okD:
  assumes "balance_ok t B"
  shows "map_ok t" and "map_find k t = None \<Longrightarrow> of_kind k B = {}"
    and "map_find k t = Some d \<Longrightarrow> \<exists>ms. lb_list d ms \<and> set ms = of_kind k B"
  using assms unfolding balance_ok_def by (auto dest!: spec [of _ k])

lemma balance_ok_put:
  assumes t: "balance_ok t B" and ms: "lb_list d ms" "set ms = of_kind k B'"
    and other: "\<And>l. l \<noteq> k \<Longrightarrow> of_kind l B' = of_kind l B"
  shows "balance_ok (map_put k d t) B'"
  unfolding balance_ok_def
proof (intro conjI allI)
  show "map_ok (map_put k d t)" using balance_okD(1) [OF t] by (rule map_ok_put)
  fix l
  show "case map_find l (map_put k d t) of None \<Rightarrow> of_kind l B' = {}
      | Some d \<Rightarrow> \<exists>ms. lb_list d ms \<and> set ms = of_kind l B'"
    using ms other [of l] balance_okD(2,3) [OF t, of l]
    by (cases "l = k") (auto simp: std_map_simps balance_okD(1) [OF t] split: option.splits)
qed

lemma balance_ok_empty: "balance_ok [] {}"
  by (simp add: balance_ok_def map_find_def of_kind_def)

lemma of_kind_simps [simp]:
  "of_kind l {} = {}"
  "of_kind l (insert c B) = (if nc_kind c = l then insert c (of_kind l B) else of_kind l B)"
  "of_kind l (B - {c}) = of_kind l B - {c}"
  "c \<in> of_kind l B \<longleftrightarrow> c \<in> B \<and> nc_kind c = l"
  by (auto simp: of_kind_def)

lemma lb_list_new: "lb_list \<lparr>iCount = 0, iCurrentNumber = 0, tbSubTable = []\<rparr> []"
  by (simp add: lb_list_def map_find_def)

lemma lb_list_card: "lb_list d ms \<Longrightarrow> set ms = S \<Longrightarrow> length ms = card S"
  using lb_listD(3) distinct_card by fastforce

lemma AddLoadBalanceEntry_ok:
  assumes t: "balance_ok t B" and room: "nc \<in> B \<or> card (of_kind (nc_kind nc) B) < 255"
  shows "balance_ok (AddLoadBalanceEntry nc t) (insert nc B)"
proof -
  let ?k = "nc_kind nc"
  define t1 where "t1 = (if map_find ?k t = None
      then map_put ?k \<lparr>iCount = 0, iCurrentNumber = 0, tbSubTable = []\<rparr> t else t)"
  have ok1: "balance_ok t1 B"
    using t balance_okD(2) [OF t, of ?k] balance_ok_put [OF t lb_list_new, of ?k B] by (auto simp: t1_def)
  have "map_find ?k t1 \<noteq> None" using balance_okD(1) [OF t] by (simp add: t1_def std_map_simps)
  then obtain d ms where d: "map_find ?k t1 = Some d" "lb_list d ms" "set ms = of_kind ?k B"
    using balance_okD(3) [OF ok1, of ?k] by auto
  note lb = lb_listD [OF d(2)] and put = balance_ok_put [OF ok1, where B' = "insert nc B" and k = ?k]
  show ?thesis
  proof (cases "nc \<in> set ms")
    case True
    then have "pos nc ms < 255" using pos_less [OF True] lb(2) by simp
    then have "AddLoadBalanceEntry nc t = map_put ?k d t1"
      using True d lb_overwrite [OF d(2) True]
      by (simp add: AddLoadBalanceEntry_def FindNameComponent_list Let_def flip: t1_def)
    then show ?thesis using put [OF d(2)] d(3) True by (auto simp: insert_absorb)
  next
    case False
    then have "length ms < 255" using room d(3) lb_list_card [OF d(2,3)] by auto
    then have "lb_list (d\<lparr>iCount := iCount d + 1,
        tbSubTable := map_put (number_string (iCount d)) nc (tbSubTable d)\<rparr>) (ms @ [nc])"
      using lb_extend [OF d(2) False] by blast
    moreover have "AddLoadBalanceEntry nc t = map_put ?k (d\<lparr>iCount := iCount d + 1,
        tbSubTable := map_put (number_string (iCount d)) nc (tbSubTable d)\<rparr>) t1"
      using False d by (simp add: AddLoadBalanceEntry_def FindNameComponent_list Let_def flip: t1_def)
    ultimately show ?thesis using put d(3) by auto
  qed
qed

lemma RemoveLoadBalanceEntry_ok:
  assumes t: "balance_ok t B"
  shows "\<exists>t'. RemoveLoadBalanceEntry nc t = Some t' \<and> balance_ok t' (B - {nc})"
proof (cases "map_find (nc_kind nc) t")
  case None
  then have "B - {nc} = B" using balance_okD(2) [OF t] by (auto simp: of_kind_def)
  then show ?thesis using None t by (simp add: RemoveLoadBalanceEntry_def Let_def)
next
  case (Some d)
  let ?k = "nc_kind nc"
  obtain ms where ms: "lb_list d ms" "set ms = of_kind ?k B" using balance_okD(3) [OF t Some] by auto
  show ?thesis
  proof (cases "nc \<in> set ms")
    case False
    then have "B - {nc} = B" using ms(2) by auto
    then show ?thesis using False Some t ms(1) by (simp add: RemoveLoadBalanceEntry_def FindNameComponent_list Let_def)
  next
    case True
    then have p: "pos nc ms < 255" using pos_less [OF True] lb_listD(2) [OF ms(1)] by simp
    obtain last where last: "map_find (number_string (iCount d - 1)) (tbSubTable d) = Some last"
      "lb_list (d\<lparr>tbSubTable :=
         (if number_string (int (pos nc ms)) = number_string (iCount d - 1)
          then map_erase (number_string (int (pos nc ms))) (tbSubTable d)
          else map_erase (number_string (iCount d - 1)) (map_put (number_string (int (pos nc ms))) last (tbSubTable d))),
       iCount := iCount d - 1\<rparr>) (swap_remove nc ms)"
      using lb_shrink [OF ms(1) True] by blast
    have s: "set (swap_remove nc ms) = of_kind ?k (B - {nc})"
      using set_swap_remove(2) [OF lb_listD(3) [OF ms(1)] True] ms(2) by simp
    have "of_kind l (B - {nc}) = of_kind l B" if "l \<noteq> ?k" for l using that by (auto simp: of_kind_def)
    from balance_ok_put [OF t last(2) s this] show ?thesis
      using True Some last(1) p ms(1)
      by (simp add: RemoveLoadBalanceEntry_def FindNameComponent_list Let_def)
  qed
qed

text \<open>Where the rotation of a list stands, and one step of it.\<close>

definition turn :: "load_balance_data \<Rightarrow> nat" where
  "turn d = (if iCurrentNumber d \<le> iCount d - 1 then nat (iCurrentNumber d) else 0)"

lemma RoundRobinResolve_list:
  assumes t: "balance_ok t B" and find: "map_find (nc_kind nc) t = Some d" and ms: "lb_list d ms" and ne: "ms \<noteq> []"
  shows "\<exists>d'. RoundRobinResolve nc t = Some (Inr (ms ! turn d), map_put (nc_kind nc) d' t) \<and> lb_list d' ms \<and>
     turn d < length ms \<and> turn d' = Suc (turn d) mod length ms"
proof -
  note lb = lb_listD [OF ms]
  define d1 where "d1 = (if iCurrentNumber d \<le> iCount d - 1 then d else d\<lparr>iCurrentNumber := 0\<rparr>)"
  have cur: "iCurrentNumber d1 = int (turn d)" "iCount d1 = int (length ms)" "tbSubTable d1 = tbSubTable d"
    using lb(1,4) by (auto simp: d1_def turn_def)
  have lt: "turn d < length ms" using lb(1,4) ne by (auto simp: turn_def)
  let ?d = "d1\<lparr>iCurrentNumber := iCurrentNumber d1 + 1\<rparr>"
  have "RoundRobinResolve nc t = Some (Inr (ms ! turn d), map_put (nc_kind nc) ?d t)"
    using find lb(1) lb(6) [OF lt] ne cur
    by (cases "iCurrentNumber d \<le> iCount d - 1") (simp_all add: RoundRobinResolve_def d1_def Let_def)
  moreover have "lb_list ?d ms" using ms cur by (auto simp: lb_list_def)
  moreover have "turn ?d = Suc (turn d) mod length ms"
    using lt cur by (cases "Suc (turn d) = length ms") (auto simp: turn_def)
  ultimately show ?thesis using lt by blast
qed

lemma RoundRobinResolve_ok:
  assumes t: "balance_ok t B"
  shows "if of_kind (nc_kind nc) B = {} then RoundRobinResolve nc t = Some (Inl (NotFound missing_node []), t)
     else \<exists>c t'. RoundRobinResolve nc t = Some (Inr c, t') \<and> c \<in> of_kind (nc_kind nc) B \<and> balance_ok t' B"
proof (cases "map_find (nc_kind nc) t")
  case None
  then show ?thesis using balance_okD(2) [OF t None] by (simp add: RoundRobinResolve_def)
next
  case (Some d)
  obtain ms where ms: "lb_list d ms" "set ms = of_kind (nc_kind nc) B" using balance_okD(3) [OF t Some] by auto
  show ?thesis
  proof (cases "ms = []")
    case True
    then have "iCount d = 0" using lb_listD(1) [OF ms(1)] by simp
    with True show ?thesis using ms(2) Some by (simp add: RoundRobinResolve_def Let_def)
  next
    case False
    obtain d' where d': "RoundRobinResolve nc t = Some (Inr (ms ! turn d), map_put (nc_kind nc) d' t)"
      "lb_list d' ms" "turn d < length ms"
      using RoundRobinResolve_list [OF t Some ms(1) False] by blast
    then have "ms ! turn d \<in> of_kind (nc_kind nc) B" using ms(2) by (metis nth_mem)
    then show ?thesis using d'(1) balance_ok_put [OF t d'(2) ms(2)] by auto
  qed
qed

lemma RandomResolve_ok:
  assumes t: "balance_ok t B"
  shows "if of_kind (nc_kind nc) B = {} then RandomResolve r nc t = Some (Inl (NotFound missing_node []))
     else \<exists>c. RandomResolve r nc t = Some (Inr c) \<and> c \<in> of_kind (nc_kind nc) B"
proof (cases "map_find (nc_kind nc) t")
  case None
  then show ?thesis using balance_okD(2) [OF t None] by (simp add: RandomResolve_def)
next
  case (Some d)
  obtain ms where ms: "lb_list d ms" "set ms = of_kind (nc_kind nc) B" using balance_okD(3) [OF t Some] by auto
  note lb = lb_listD [OF ms(1)]
  show ?thesis
  proof (cases "ms = []")
    case True
    then show ?thesis using ms(2) Some lb(1) by (simp add: RandomResolve_def)
  next
    case False
    then have lt: "r mod length ms < length ms" by simp
    have "int r mod iCount d = int (r mod length ms)" by (simp add: lb(1) zmod_int)
    then have "RandomResolve r nc t = Some (Inr (ms ! (r mod length ms)))"
      using Some lb(1) lb(6) [OF lt] False by (simp add: RandomResolve_def Let_def)
    moreover have "ms ! (r mod length ms) \<in> of_kind (nc_kind nc) B" using ms(2) lt by (metis nth_mem)
    ultimately show ?thesis using False ms(2) by auto
  qed
qed

section \<open>The interface the naming contexts rely on\<close>

datatype lb_op = Bound name_component | Unbound name_component | Pick name_component

fun op_component :: "lb_op \<Rightarrow> name_component" where
  "op_component (Bound c) = c"
| "op_component (Unbound c) = c"
| "op_component (Pick c) = c"

text \<open>A sequence of calls, with the results of the picks.\<close>

fun lb_run ::
    "(name_component \<Rightarrow> 't \<Rightarrow> 't) \<Rightarrow> (name_component \<Rightarrow> 't \<Rightarrow> 't option) \<Rightarrow>
     (name_component \<Rightarrow> 't \<Rightarrow> ((naming_exn + name_component) \<times> 't) option) \<Rightarrow>
     lb_op list \<Rightarrow> 't \<Rightarrow> ((naming_exn + name_component) list \<times> 't) option" where
  "lb_run add remove pick [] t = Some ([], t)"
| "lb_run add remove pick (Bound c # ops) t = lb_run add remove pick ops (add c t)"
| "lb_run add remove pick (Unbound c # ops) t = do { t \<leftarrow> remove c t; lb_run add remove pick ops t }"
| "lb_run add remove pick (Pick c # ops) t = do {
     (r, t) \<leftarrow> pick c t;
     (rs, t) \<leftarrow> lb_run add remove pick ops t;
     Some (r # rs, t)
   }"

text \<open>The bound components after a sequence, and the picks that are right for it.\<close>

fun bound_after :: "lb_op list \<Rightarrow> name_component set \<Rightarrow> name_component set" where
  "bound_after [] B = B"
| "bound_after (Bound c # ops) B = bound_after ops (insert c B)"
| "bound_after (Unbound c # ops) B = bound_after ops (B - {c})"
| "bound_after (Pick c # ops) B = bound_after ops B"

fun picks_right :: "lb_op list \<Rightarrow> name_component set \<Rightarrow> (naming_exn + name_component) list \<Rightarrow> bool" where
  "picks_right [] B rs = (rs = [])"
| "picks_right (Bound c # ops) B rs = picks_right ops (insert c B) rs"
| "picks_right (Unbound c # ops) B rs = picks_right ops (B - {c}) rs"
| "picks_right (Pick c # ops) B rs =
     (case rs of [] \<Rightarrow> False
      | Inl e # rs \<Rightarrow> e = NotFound missing_node [] \<and> of_kind (nc_kind c) B = {} \<and> picks_right ops B rs
      | Inr p # rs \<Rightarrow> p \<in> B \<and> nc_kind p = nc_kind c \<and> picks_right ops B rs)"

locale balancer =
  fixes ok :: "'t \<Rightarrow> name_component set \<Rightarrow> bool"
    and add :: "name_component \<Rightarrow> 't \<Rightarrow> 't" and remove :: "name_component \<Rightarrow> 't \<Rightarrow> 't option"
    and pick :: "name_component \<Rightarrow> 't \<Rightarrow> ((naming_exn + name_component) \<times> 't) option"
  assumes add_ok: "ok t B \<Longrightarrow> nc \<in> B \<or> card (of_kind (nc_kind nc) B) < 255 \<Longrightarrow> ok (add nc t) (insert nc B)"
    and remove_ok: "ok t B \<Longrightarrow> \<exists>t'. remove nc t = Some t' \<and> ok t' (B - {nc})"
    and pick_none: "ok t B \<Longrightarrow> of_kind (nc_kind nc) B = {} \<Longrightarrow> pick nc t = Some (Inl (NotFound missing_node []), t)"
    and pick_some: "ok t B \<Longrightarrow> of_kind (nc_kind nc) B \<noteq> {} \<Longrightarrow>
      \<exists>c t'. pick nc t = Some (Inr c, t') \<and> c \<in> of_kind (nc_kind nc) B \<and> ok t' B"
begin

lemma run_ok:
  assumes "ok t B" and "finite U" and "card U \<le> 255" and "B \<subseteq> U" and "op_component ` set ops \<subseteq> U"
  shows "\<exists>rs t'. lb_run add remove pick ops t = Some (rs, t') \<and> picks_right ops B rs \<and> ok t' (bound_after ops B)"
  using assms(1,4,5)
proof (induction ops arbitrary: t B)
  case (Cons p ops)
  have fin: "finite B" using Cons.prems(2) assms(2) finite_subset by blast
  show ?case
  proof (cases p)
    case (Bound c)
    have "c \<in> B \<or> card (of_kind (nc_kind c) B) < 255"
    proof (cases "c \<in> B")
      case False
      then have "of_kind (nc_kind c) B \<subset> U" using Cons.prems(2,3) Bound by (auto simp: of_kind_def)
      then have "card (of_kind (nc_kind c) B) < card U" by (rule psubset_card_mono [OF assms(2)])
      then show ?thesis using assms(3) by simp
    qed simp
    from add_ok [OF Cons.prems(1) this] Cons.IH [of "add c t" "insert c B"] Cons.prems Bound
    show ?thesis by auto
  next
    case (Unbound c)
    obtain t' where "remove c t = Some t'" "ok t' (B - {c})" using remove_ok [OF Cons.prems(1)] by blast
    with Cons.IH [of t' "B - {c}"] Cons.prems Unbound show ?thesis by auto
  next
    case (Pick c)
    show ?thesis
    proof (cases "of_kind (nc_kind c) B = {}")
      case True
      with pick_none [OF Cons.prems(1) True] Cons.IH [of t B] Cons.prems Pick show ?thesis by auto
    next
      case False
      obtain q t' where "pick c t = Some (Inr q, t')" "q \<in> of_kind (nc_kind c) B" "ok t' B"
        using pick_some [OF Cons.prems(1) False] by blast
      with Cons.IH [of t' B] Cons.prems Pick show ?thesis by auto
    qed
  qed
qed auto

end

interpretation round_robin: balancer balance_ok AddLoadBalanceEntry RemoveLoadBalanceEntry RoundRobinResolve
proof
  show "\<exists>c t'. RoundRobinResolve nc t = Some (Inr c, t') \<and> c \<in> of_kind (nc_kind nc) B \<and> balance_ok t' B"
    if "balance_ok t B" "of_kind (nc_kind nc) B \<noteq> {}" for t B nc
    using RoundRobinResolve_ok [OF that(1), of nc] that(2) by simp
  show "RoundRobinResolve nc t = Some (Inl (NotFound missing_node []), t)"
    if "balance_ok t B" "of_kind (nc_kind nc) B = {}" for t B nc
    using RoundRobinResolve_ok [OF that(1), of nc] that(2) by simp
qed (simp_all add: AddLoadBalanceEntry_ok RemoveLoadBalanceEntry_ok)

text \<open>The random approach picks from the same table and leaves it as it is.\<close>

definition random_pick ::
    "nat \<Rightarrow> name_component \<Rightarrow> name_kind_table \<Rightarrow> ((naming_exn + name_component) \<times> name_kind_table) option" where
  "random_pick r nc t = map_option (\<lambda>c. (c, t)) (RandomResolve r nc t)"

interpretation random: balancer balance_ok AddLoadBalanceEntry RemoveLoadBalanceEntry "random_pick r" for r
proof
  show "\<exists>c t'. random_pick r nc t = Some (Inr c, t') \<and> c \<in> of_kind (nc_kind nc) B \<and> balance_ok t' B"
    if "balance_ok t B" "of_kind (nc_kind nc) B \<noteq> {}" for t B nc
    using RandomResolve_ok [OF that(1), of nc r] that by (auto simp: random_pick_def)
  show "random_pick r nc t = Some (Inl (NotFound missing_node []), t)"
    if "balance_ok t B" "of_kind (nc_kind nc) B = {}" for t B nc
    using RandomResolve_ok [OF that(1), of nc r] that(2) by (simp add: random_pick_def)
qed (simp_all add: AddLoadBalanceEntry_ok RemoveLoadBalanceEntry_ok)

section \<open>A full turn\<close>

fun rr_picks :: "nat \<Rightarrow> name_component \<Rightarrow> name_kind_table \<Rightarrow> (name_component list \<times> name_kind_table) option" where
  "rr_picks 0 nc t = Some ([], t)"
| "rr_picks (Suc n) nc t = do {
     (r, t) \<leftarrow> RoundRobinResolve nc t;
     case r of Inl _ \<Rightarrow> None | Inr c \<Rightarrow> do {
       (cs, t) \<leftarrow> rr_picks n nc t;
       Some (c # cs, t)
     }
   }"

lemma rr_picks_rotation:
  assumes "balance_ok t B" and "map_find (nc_kind nc) t = Some d" and "lb_list d ms" and "ms \<noteq> []"
    and "set ms = of_kind (nc_kind nc) B"
  shows "\<exists>t'. rr_picks n nc t = Some (map (\<lambda>i. ms ! ((turn d + i) mod length ms)) [0..<n], t')"
  using assms
proof (induction n arbitrary: t d)
  case (Suc n)
  obtain d' where d': "RoundRobinResolve nc t = Some (Inr (ms ! turn d), map_put (nc_kind nc) d' t)"
    "lb_list d' ms" "turn d < length ms" "turn d' = Suc (turn d) mod length ms"
    using RoundRobinResolve_list [OF Suc.prems(1-4)] by blast
  let ?t = "map_put (nc_kind nc) d' t"
  have "balance_ok ?t B" by (rule balance_ok_put [OF Suc.prems(1) d'(2) Suc.prems(5)]) simp
  moreover have "map_find (nc_kind nc) ?t = Some d'"
    using balance_okD(1) [OF Suc.prems(1)] by (simp add: std_map_simps)
  ultimately obtain t' where
    "rr_picks n nc ?t = Some (map (\<lambda>i. ms ! ((turn d' + i) mod length ms)) [0..<n], t')"
    using Suc.IH [OF _ _ d'(2) Suc.prems(4,5)] by blast
  moreover have "map (\<lambda>i. ms ! ((turn d + i) mod length ms)) [0..<Suc n] =
      ms ! turn d # map (\<lambda>i. ms ! ((turn d' + i) mod length ms)) [0..<n]"
    using d'(3,4) by (simp add: upt_conv_Cons mod_add_left_eq map_Suc_upt [symmetric] comp_def del: upt_Suc)
  ultimately show ?case using d'(1) by simp
qed simp

section \<open>Properties\<close>

text \<open>C27: Load balancing follows the bindings. Over any sequence of bindings, removals and picks that
  involves at most 255 components, starting from the empty table, no iterator at the end of a map
  is dereferenced; every round-robin pick is a component of the asked kind that is bound at that
  moment, or \<open>NotFound\<close> exactly when there is none; and the random picks are as right.\<close>

theorem balance_follows_bindings:
  assumes "card (op_component ` set ops) \<le> 255"
  shows "(\<exists>rs t. lb_run AddLoadBalanceEntry RemoveLoadBalanceEntry RoundRobinResolve ops [] = Some (rs, t) \<and>
       picks_right ops {} rs) \<and>
     (\<exists>rs t. lb_run AddLoadBalanceEntry RemoveLoadBalanceEntry (random_pick r) ops [] = Some (rs, t) \<and>
       picks_right ops {} rs)"
  using round_robin.run_ok [OF balance_ok_empty _ assms _ subset_refl]
    random.run_ok [OF balance_ok_empty _ assms _ subset_refl] by (metis finite_imageI List.finite_set empty_subsetI)

theorem balance_follows_bindings_witness:
  "\<exists>rs t. lb_run AddLoadBalanceEntry RemoveLoadBalanceEntry RoundRobinResolve
       [Bound (NameComponent ''a'' ''k''), Pick (NameComponent '''' ''k'')] [] = Some (rs, t) \<and>
     picks_right [Bound (NameComponent ''a'' ''k''), Pick (NameComponent '''' ''k'')] {} rs"
  using balance_follows_bindings [of "[Bound (NameComponent ''a'' ''k''), Pick (NameComponent '''' ''k'')]"]
  by (simp del: lb_run.simps picks_right.simps)

text \<open>C28: Round robin is fair. With \<open>n\<close> components of a kind bound, any \<open>n\<close> consecutive resolutions of
  that kind return each of them exactly once.\<close>

theorem round_robin_fair:
  assumes "balance_ok t B" and "of_kind (nc_kind nc) B \<noteq> {}"
  shows "\<exists>cs t'. rr_picks (card (of_kind (nc_kind nc) B)) nc t = Some (cs, t') \<and>
     distinct cs \<and> set cs = of_kind (nc_kind nc) B"
proof -
  obtain d where d: "map_find (nc_kind nc) t = Some d"
    using balance_okD(2) [OF assms(1)] assms(2) by (cases "map_find (nc_kind nc) t") auto
  obtain ms where ms: "lb_list d ms" "set ms = of_kind (nc_kind nc) B" using balance_okD(3) [OF assms(1) d] by auto
  define k where "k = turn d"
  have ne: "ms \<noteq> []" using ms(2) assms(2) by auto
  have "map (\<lambda>i. ms ! ((k + i) mod length ms)) [0..<length ms] = rotate k ms"
    by (rule nth_equalityI) (simp_all add: nth_rotate add.commute)
  moreover have "length ms = card (of_kind (nc_kind nc) B)" by (rule lb_list_card [OF ms])
  ultimately obtain t' where "rr_picks (card (of_kind (nc_kind nc) B)) nc t = Some (rotate k ms, t')"
    using rr_picks_rotation [OF assms(1) d ms(1) ne ms(2), of "length ms"] by (auto simp: k_def)
  then show ?thesis using lb_listD(3) [OF ms(1)] ms(2) by simp
qed

theorem round_robin_fair_witness:
  "\<exists>cs t'. rr_picks 2 (NameComponent '''' ''k'')
       (AddLoadBalanceEntry (NameComponent ''b'' ''k'') (AddLoadBalanceEntry (NameComponent ''a'' ''k'') [])) = Some (cs, t') \<and>
     distinct cs \<and> set cs = {NameComponent ''a'' ''k'', NameComponent ''b'' ''k''}"
proof -
  let ?a = "NameComponent ''a'' ''k''" and ?b = "NameComponent ''b'' ''k''"
  have k: "of_kind ''k'' {?b, ?a} = {?a, ?b}" by (auto simp: of_kind_def)
  have "balance_ok (AddLoadBalanceEntry ?a []) {?a}"
    by (rule AddLoadBalanceEntry_ok [OF balance_ok_empty]) (simp add: of_kind_def)
  then have "balance_ok (AddLoadBalanceEntry ?b (AddLoadBalanceEntry ?a [])) {?b, ?a}"
    by (rule AddLoadBalanceEntry_ok) (simp add: card_insert_if)
  from round_robin_fair [OF this, of "NameComponent '''' ''k''"] show ?thesis
    by (simp add: k card_insert_if insert_commute numeral_2_eq_2 del: rr_picks.simps)
qed

text \<open>The 256th component of a kind cannot be removed. Its number is 255, whose one-character
  string is the string of \<open>NULL_NUMBER\<close>, so the removal takes it for not found and leaves the table
  unchanged: from then on the service keeps picking a component that is not bound.\<close>

theorem balance_255_stuck:
  assumes "balance_ok t B" and "card (of_kind (nc_kind nc) B) = 255" and "nc \<notin> B"
  shows "RemoveLoadBalanceEntry nc (AddLoadBalanceEntry nc t) = Some (AddLoadBalanceEntry nc t)"
proof -
  let ?k = "nc_kind nc" and ?t = "AddLoadBalanceEntry nc t"
  have "of_kind ?k B \<noteq> {}" using assms(2) by auto
  then obtain d where d: "map_find ?k t = Some d"
    using balance_okD(2) [OF assms(1)] by (cases "map_find ?k t") auto
  obtain ms where ms: "lb_list d ms" "set ms = of_kind ?k B" using balance_okD(3) [OF assms(1) d] by auto
  note lb = lb_listD [OF ms(1)]
  have n: "length ms = 255" using lb_list_card [OF ms] assms(2) by simp
  have new: "nc \<notin> set ms" using ms(2) assms(3) by simp
  let ?d = "d\<lparr>iCount := 256, tbSubTable := map_put (number_string 255) nc (tbSubTable d)\<rparr>"
  have add: "?t = map_put ?k ?d t"
    using d new lb(1) n by (simp add: AddLoadBalanceEntry_def FindNameComponent_list [OF ms(1)] Let_def)
  have "find_loop nc ?d (int i) = number_string NULL_NUMBER" if "i \<le> 255" for i
    using that
  proof (induction "255 - i" arbitrary: i)
    case 0
    then have "map_find (number_string (int i)) (tbSubTable ?d) = Some nc" using lb(5) by (simp add: std_map_simps)
    then show ?case using 0 number_string_255 by (subst find_loop.simps) (simp add: Let_def)
  next
    case (Suc k)
    then have i: "i < 255" by simp
    then have "map_find (number_string (int i)) (tbSubTable ?d) = Some (ms ! i)"
      using lb(5) lb(6) [of i] n number_string_inject [of i 255] by (simp add: std_map_simps del: number_string_inject)
    moreover have "ms ! i \<noteq> nc" using new i n by (metis nth_mem)
    moreover have "find_loop nc ?d (int (Suc i)) = number_string NULL_NUMBER" using Suc i by (intro Suc.hyps(1)) auto
    ultimately show ?case using i by (subst find_loop.simps) (simp add: component_eq Let_def add.commute)
  qed
  from this [of 0] have "FindNameComponent nc ?d = number_string NULL_NUMBER" by (simp add: FindNameComponent_def)
  moreover have "map_find ?k ?t = Some ?d" using balance_okD(1) [OF assms(1)] by (simp add: add std_map_simps)
  ultimately show ?thesis by (simp add: RemoveLoadBalanceEntry_def Let_def)
qed

text \<open>A table with many components of one kind.\<close>

definition numbered :: "nat \<Rightarrow> name_component" where
  "numbered i = NameComponent (replicate i (CHR ''x'')) ''k''"

lemma balance_ok_all:
  "balance_ok t B \<Longrightarrow> card (set cs \<union> B) \<le> 255 \<Longrightarrow> finite B \<Longrightarrow>
   balance_ok (foldl (\<lambda>t c. AddLoadBalanceEntry c t) t cs) (set cs \<union> B)"
proof (induction cs arbitrary: t B)
  case (Cons c cs)
  have "c \<in> B \<or> card (of_kind (nc_kind c) B) < 255"
  proof (cases "c \<in> B")
    case False
    then have "of_kind (nc_kind c) B \<subset> set (c # cs) \<union> B" by (auto simp: of_kind_def)
    then have "card (of_kind (nc_kind c) B) < card (set (c # cs) \<union> B)"
      by (rule psubset_card_mono [rotated]) (simp add: Cons.prems(3))
    then show ?thesis using Cons.prems(2) by simp
  qed simp
  from Cons.IH [OF AddLoadBalanceEntry_ok [OF Cons.prems(1) this]] Cons.prems show ?case by simp
qed simp

theorem balance_255_stuck_witness:
  "let t = foldl (\<lambda>t c. AddLoadBalanceEntry c t) [] (map numbered [0..<255])
   in RemoveLoadBalanceEntry (numbered 300) (AddLoadBalanceEntry (numbered 300) t) =
        Some (AddLoadBalanceEntry (numbered 300) t)"
  unfolding Let_def
proof (rule balance_255_stuck)
  let ?S = "numbered ` {0..<255}"
  have inj: "inj numbered" by (rule injI) (simp add: numbered_def)
  then have card: "card ?S = 255" by (simp add: card_image inj_on_subset)
  show "balance_ok (foldl (\<lambda>t c. AddLoadBalanceEntry c t) [] (map numbered [0..<255])) ?S"
    using balance_ok_all [OF balance_ok_empty, of "map numbered [0..<255]"] card by simp
  have "of_kind (nc_kind (numbered 300)) ?S = ?S" by (auto simp: of_kind_def numbered_def)
  then show "card (of_kind (nc_kind (numbered 300)) ?S) = 255" using card by simp
  show "numbered 300 \<notin> ?S" using inj by (auto simp: inj_eq)
qed

end
