(* ===== verification/Naming.thy ===== *)
theory Naming
  imports Name_Balance
begin

text \<open>
  The naming contexts of coss/naming/Naming_impl.cc. The server's state is the map of its active
  servants (the root context, and the child contexts by object id), the set \<open>svmap\<close> of the child
  servants in the order of their addresses, and the load balancing approach. A context reference
  names a servant; a call to a servant that is gone raises \<open>OBJECT_NOT_EXIST\<close>. Contexts of other
  servers are not modelled, and the locks are left out: one call runs at a time.
\<close>

section \<open>State\<close>

type_synonym oid = "octet list"

datatype ctx = Root | Child oid

datatype objref = Nil_ref | Context_ref ctx | Object_ref nat

datatype binding_type = nobject | ncontext

record nm_ctx_binding =
  btype :: binding_type
  obj :: objref

record naming_context =
  table :: "(name_component, nm_ctx_binding) std_map"
  tbLoadBalanceTable :: name_kind_table

datatype load_balance_approach = ROUND_ROBIN | RANDOM | NONE

record naming =
  servants :: "ctx \<Rightarrow> naming_context option"
  svmap :: "(nat, oid) std_map"
  approach :: load_balance_approach

type_synonym 'a call = "naming \<Rightarrow> ((naming_exn + 'a) \<times> naming) option"

definition new_naming_context :: naming_context where
  "new_naming_context = \<lparr>table = [], tbLoadBalanceTable = []\<rparr>"

definition new_root :: "load_balance_approach \<Rightarrow> naming" where
  "new_root eLoadBalanceApproach =
     \<lparr>servants = [Root \<mapsto> new_naming_context], svmap = [], approach = eLoadBalanceApproach\<rparr>"

abbreviation raise :: "naming_exn \<Rightarrow> 'a call" where
  "raise e s \<equiv> Some (Inl e, s)"

abbreviation put_context :: "ctx \<Rightarrow> naming_context \<Rightarrow> naming \<Rightarrow> naming" where
  "put_context c nci s \<equiv> s\<lparr>servants := (servants s)(c \<mapsto> nci)\<rparr>"

text \<open>A call reaches the servant of a context.\<close>

definition invoke :: "ctx \<Rightarrow> (naming_context \<Rightarrow> 'a call) \<Rightarrow> 'a call" where
  "invoke c f s = (case servants s c of None \<Rightarrow> raise OBJECT_NOT_EXIST s | Some nci \<Rightarrow> f nci s)"

text \<open>\<open>_narrow\<close> to a naming context, and the assertion that it is not nil.\<close>

fun narrow :: "objref \<Rightarrow> ctx option" where
  "narrow (Context_ref c) = Some c"
| "narrow _ = None"

section \<open>Binding\<close>

text \<open>
  \<open>_force_local\<close>: the root is served by another POA, so only a child reference is looked up in the
  active object map, and a child that is not active fails the assertion.
\<close>

fun force_local :: "objref \<Rightarrow> naming \<Rightarrow> objref option" where
  "force_local (Context_ref (Child oid)) s =
     (if servants s (Child oid) \<noteq> None then Some (Context_ref (Child oid)) else None)"
| "force_local nc_in s = Some nc_in"

definition bind_entry ::
    "name_component \<Rightarrow> objref \<Rightarrow> binding_type \<Rightarrow> load_balance_approach \<Rightarrow> naming_context \<Rightarrow> naming_context" where
  "bind_entry x ob bt eLoadBalanceApproach nci =
     (let nci = nci\<lparr>table := map_put x \<lparr>btype = bt, obj = ob\<rparr> (table nci)\<rparr>
      in if eLoadBalanceApproach \<noteq> NONE
         then nci\<lparr>tbLoadBalanceTable := AddLoadBalanceEntry x (tbLoadBalanceTable nci)\<rparr> else nci)"

fun do_bind :: "ctx \<Rightarrow> name \<Rightarrow> objref \<Rightarrow> binding_type \<Rightarrow> bool \<Rightarrow> unit call" where
  "do_bind c [] ob bt rebind s = invoke c (\<lambda>nci. raise InvalidName) s"
| "do_bind c (x # rest) ob bt rebind s = invoke c (\<lambda>nci s.
     let i = map_find x (table nci) in
     if rest = []
     then if i \<noteq> None \<and> \<not> rebind then raise AlreadyBound s
          else Some (Inr (), put_context c (bind_entry x ob bt (approach s) nci) s)
     else case i of None \<Rightarrow> raise (NotFound missing_node (x # rest)) s | Some binding \<Rightarrow>
       if btype binding \<noteq> ncontext then raise CannotProceed s
       else do {
         nc \<leftarrow> narrow (obj binding);
         case bt of
           nobject \<Rightarrow> do_bind nc rest ob bt rebind s
         | ncontext \<Rightarrow> invoke nc (\<lambda>_ s. do {
             nc2 \<leftarrow> force_local ob s;
             do_bind nc rest nc2 bt rebind s
           }) s
       }) s"

definition bind :: "ctx \<Rightarrow> name \<Rightarrow> objref \<Rightarrow> unit call" where
  "bind c n ob = do_bind c n ob nobject False"

definition rebind :: "ctx \<Rightarrow> name \<Rightarrow> objref \<Rightarrow> unit call" where
  "rebind c n ob = do_bind c n ob nobject True"

definition bind_context :: "ctx \<Rightarrow> name \<Rightarrow> objref \<Rightarrow> unit call" where
  "bind_context c n nc = invoke c (\<lambda>_ s. do { nc \<leftarrow> force_local nc s; do_bind c n nc ncontext False s })"

definition rebind_context :: "ctx \<Rightarrow> name \<Rightarrow> objref \<Rightarrow> unit call" where
  "rebind_context c n nc = invoke c (\<lambda>_ s. do { nc \<leftarrow> force_local nc s; do_bind c n nc ncontext True s })"

section \<open>Resolving\<close>

text \<open>The component that load balancing puts in place of the last one; \<open>r\<close> is what \<open>rand ()\<close> gives.\<close>

definition balanced ::
    "nat \<Rightarrow> load_balance_approach \<Rightarrow> name_component \<Rightarrow> naming_context \<Rightarrow>
     ((naming_exn + name_component) \<times> naming_context) option" where
  "balanced r a x nci =
     (case a of
        NONE \<Rightarrow> Some (Inr x, nci)
      | ROUND_ROBIN \<Rightarrow> do {
          (res, t) \<leftarrow> RoundRobinResolve x (tbLoadBalanceTable nci);
          Some (res, nci\<lparr>tbLoadBalanceTable := t\<rparr>)
        }
      | RANDOM \<Rightarrow> do {
          res \<leftarrow> RandomResolve r x (tbLoadBalanceTable nci);
          Some (res, nci)
        })"

fun resolve :: "nat \<Rightarrow> ctx \<Rightarrow> name \<Rightarrow> objref call" where
  "resolve r c [] s = invoke c (\<lambda>nci. raise InvalidName) s"
| "resolve r c (x # rest) s = invoke c (\<lambda>nci s.
     if rest = []
     then do {
       (res, nci) \<leftarrow> balanced r (approach s) x nci;
       let s = put_context c nci s;
       case res of Inl e \<Rightarrow> raise e s | Inr x \<Rightarrow>
         (case map_find x (table nci) of
            None \<Rightarrow> raise (NotFound missing_node [x]) s
          | Some binding \<Rightarrow> Some (Inr (obj binding), s))
     }
     else case map_find x (table nci) of
       None \<Rightarrow> raise (NotFound missing_node (x # rest)) s
     | Some binding \<Rightarrow>
         if btype binding \<noteq> ncontext then raise CannotProceed s
         else do {
           nc \<leftarrow> narrow (obj binding);
           resolve r nc rest s
         }) s"

definition resolve_str :: "nat \<Rightarrow> ctx \<Rightarrow> string \<Rightarrow> objref call" where
  "resolve_str r c sn = invoke c (\<lambda>_ s. do {
     n \<leftarrow> to_name sn;
     case n of Inl e \<Rightarrow> raise e s | Inr n \<Rightarrow> resolve r c n s
   })"

section \<open>Unbinding\<close>

fun unbind :: "ctx \<Rightarrow> name \<Rightarrow> unit call" where
  "unbind c [] s = invoke c (\<lambda>nci. raise InvalidName) s"
| "unbind c (x # rest) s = invoke c (\<lambda>nci s.
     case map_find x (table nci) of
       None \<Rightarrow> raise (NotFound missing_node (x # rest)) s
     | Some binding \<Rightarrow>
         if rest = []
         then do {
           let nci = nci\<lparr>table := map_erase x (table nci)\<rparr>;
           t \<leftarrow> (if approach s \<noteq> NONE then RemoveLoadBalanceEntry x (tbLoadBalanceTable nci)
                else Some (tbLoadBalanceTable nci));
           Some (Inr (), put_context c (nci\<lparr>tbLoadBalanceTable := t\<rparr>) s)
         }
         else if btype binding \<noteq> ncontext then raise CannotProceed s
         else do {
           nc \<leftarrow> narrow (obj binding);
           unbind nc rest s
         }) s"

section \<open>Contexts come and go\<close>

text \<open>
  The POA gives a new servant an object id that no active object has, and the allocator an address
  that no live object has: both are arguments.
\<close>

definition activate_context :: "oid \<Rightarrow> nat \<Rightarrow> naming \<Rightarrow> naming" where
  "activate_context oid addr s =
     s\<lparr>servants := (servants s)(Child oid \<mapsto> new_naming_context), svmap := map_put addr oid (svmap s)\<rparr>"

definition new_context :: "ctx \<Rightarrow> oid \<Rightarrow> nat \<Rightarrow> objref call" where
  "new_context c oid addr = invoke c (\<lambda>_ s. Some (Inr (Context_ref (Child oid)), activate_context oid addr s))"

definition bind_new_context :: "ctx \<Rightarrow> name \<Rightarrow> oid \<Rightarrow> nat \<Rightarrow> objref call" where
  "bind_new_context c n oid addr = invoke c (\<lambda>_ s. do {
     let s = activate_context oid addr s;
     (res, s) \<leftarrow> bind_context c n (Context_ref (Child oid)) s;
     case res of Inl e \<Rightarrow> raise e s | Inr _ \<Rightarrow> Some (Inr (Context_ref (Child oid)), s)
   })"

text \<open>\<open>svmap.erase (this)\<close> finds nothing for the root.\<close>

definition destroy :: "ctx \<Rightarrow> unit call" where
  "destroy c = invoke c (\<lambda>nci s.
     if length (table nci) > 0 then raise NotEmpty s
     else Some (Inr (), s\<lparr>servants := (servants s)(c := None),
       svmap := filter (\<lambda>e. c \<noteq> Child (snd e)) (svmap s)\<rparr>))"

section \<open>Listing\<close>

record listed =
  binding_name :: name
  binding_type :: binding_type

record binding_iterator =
  idx :: ulong
  blist :: "listed list"

definition listed_of :: "name_component \<times> nm_ctx_binding \<Rightarrow> listed" where
  "listed_of i = \<lparr>binding_name = [fst i], binding_type = btype (snd i)\<rparr>"

definition list_bindings :: "ulong \<Rightarrow> naming_context \<Rightarrow> (listed list \<times> binding_iterator option) option" where
  "list_bindings how_many nci = do {
     let size = length (table nci);
     require (size < 4294967295);
     let num = (if word_of_nat size < how_many then word_of_nat size else how_many);
     let bl = map listed_of (take (unat num) (table nci));
     if unat how_many < size
     then let rn = word_of_nat (size - unat how_many) :: ulong;
              rest = map listed_of (take (unat rn) (drop (unat num) (table nci)))
          in Some (bl, Some \<lparr>idx = 0, blist = rest\<rparr>)
     else Some (bl, None)
   }"

definition list_context :: "ctx \<Rightarrow> ulong \<Rightarrow> (listed list \<times> binding_iterator option) call" where
  "list_context c how_many = invoke c (\<lambda>nci s. do {
     res \<leftarrow> list_bindings how_many nci;
     Some (Inr res, s)
   })"

definition next_one :: "binding_iterator \<Rightarrow> (bool \<times> listed) \<times> binding_iterator" where
  "next_one it =
     (if idx it < word_of_nat (length (blist it))
      then ((True, blist it ! unat (idx it)), it\<lparr>idx := idx it + 1\<rparr>)
      else ((False, \<lparr>binding_name = [], binding_type = nobject\<rparr>), it))"

definition next_n :: "ulong \<Rightarrow> binding_iterator \<Rightarrow> (bool \<times> listed list) \<times> binding_iterator" where
  "next_n how_many it =
     (let rlen = word_of_nat (length (blist it)) - idx it in
      if rlen > 0
      then let num = (if how_many < rlen then how_many else rlen)
           in ((True, take (unat num) (drop (unat (idx it)) (blist it))), it\<lparr>idx := idx it + num\<rparr>)
      else ((False, []), it))"

section \<open>The naming graph\<close>

text \<open>
  What the service promises, without tables, servants or recursion over calls: a graph whose nodes
  are the active contexts and whose edges are the bindings. A name is walked to its last context,
  and the operation then concerns one edge of it.
\<close>

type_synonym graph = "ctx \<Rightarrow> (name_component \<Rightarrow> nm_ctx_binding option) option"

definition edges :: "naming_context \<Rightarrow> name_component \<Rightarrow> nm_ctx_binding option" where
  "edges nci x = map_find x (table nci)"

definition graph_of :: "naming \<Rightarrow> graph" where
  "graph_of s c = map_option edges (servants s c)"

fun walk :: "graph \<Rightarrow> ctx \<Rightarrow> name \<Rightarrow> (naming_exn + ctx \<times> name_component) option" where
  "walk g c [] = Some (Inl (if g c = None then OBJECT_NOT_EXIST else InvalidName))"
| "walk g c (x # rest) =
     (case g c of None \<Rightarrow> Some (Inl OBJECT_NOT_EXIST) | Some es \<Rightarrow>
        if rest = [] then Some (Inr (c, x))
        else case es x of None \<Rightarrow> Some (Inl (NotFound missing_node (x # rest))) | Some b \<Rightarrow>
          if btype b \<noteq> ncontext then Some (Inl CannotProceed)
          else case narrow (obj b) of None \<Rightarrow> None | Some nc \<Rightarrow> walk g nc rest)"

text \<open>An operation on the graph: an exception, or a result and a changed edge.\<close>

definition at_end ::
    "(ctx \<Rightarrow> name_component \<Rightarrow> graph \<Rightarrow> (naming_exn + 'a) \<times> graph) \<Rightarrow> ctx \<Rightarrow> name \<Rightarrow> graph \<Rightarrow>
     ((naming_exn + 'a) \<times> graph) option" where
  "at_end f c n g =
     (case walk g c n of None \<Rightarrow> None | Some (Inl e) \<Rightarrow> Some (Inl e, g) | Some (Inr (d, x)) \<Rightarrow> Some (f d x g))"

definition edge :: "graph \<Rightarrow> ctx \<Rightarrow> name_component \<Rightarrow> nm_ctx_binding option" where
  "edge g d x = Option.bind (g d) (\<lambda>es. es x)"

definition set_edge :: "ctx \<Rightarrow> name_component \<Rightarrow> nm_ctx_binding option \<Rightarrow> graph \<Rightarrow> graph" where
  "set_edge d x b g = g(d := map_option (\<lambda>es. es(x := b)) (g d))"

definition graph_bind :: "objref \<Rightarrow> binding_type \<Rightarrow> bool \<Rightarrow> ctx \<Rightarrow> name_component \<Rightarrow> graph \<Rightarrow> (naming_exn + unit) \<times> graph" where
  "graph_bind ob bt rb d x g =
     (if edge g d x \<noteq> None \<and> \<not> rb then (Inl AlreadyBound, g)
      else (Inr (), set_edge d x (Some \<lparr>btype = bt, obj = ob\<rparr>) g))"

definition graph_resolve :: "ctx \<Rightarrow> name_component \<Rightarrow> graph \<Rightarrow> (naming_exn + objref) \<times> graph" where
  "graph_resolve d x g =
     ((case edge g d x of None \<Rightarrow> Inl (NotFound missing_node [x]) | Some b \<Rightarrow> Inr (obj b)), g)"

definition graph_unbind :: "ctx \<Rightarrow> name_component \<Rightarrow> graph \<Rightarrow> (naming_exn + unit) \<times> graph" where
  "graph_unbind d x g =
     (if edge g d x = None then (Inl (NotFound missing_node [x]), g) else (Inr (), set_edge d x None g))"

section \<open>Well-formed states\<close>

definition bound :: "naming_context \<Rightarrow> name_component set" where
  "bound nci = {x. map_find x (table nci) \<noteq> None}"

definition context_ok :: "load_balance_approach \<Rightarrow> naming_context \<Rightarrow> bool" where
  "context_ok a nci \<longleftrightarrow> map_ok (table nci) \<and> (a \<noteq> NONE \<longrightarrow> balance_ok (tbLoadBalanceTable nci) (bound nci)) \<and>
     (\<forall>x b. map_find x (table nci) = Some b \<longrightarrow> btype b = ncontext \<longrightarrow> narrow (obj b) \<noteq> None)"

definition naming_ok :: "naming \<Rightarrow> bool" where
  "naming_ok s \<longleftrightarrow> (\<forall>c nci. servants s c = Some nci \<longrightarrow> context_ok (approach s) nci) \<and>
     map_ok (svmap s) \<and> distinct (map snd (svmap s)) \<and>
     (\<forall>oid. servants s (Child oid) \<noteq> None \<longleftrightarrow> oid \<in> snd ` set (svmap s))"

lemma naming_okD:
  assumes "naming_ok s" and "servants s c = Some nci"
  shows "context_ok (approach s) nci" and "map_ok (table nci)"
    and "approach s \<noteq> NONE \<Longrightarrow> balance_ok (tbLoadBalanceTable nci) (bound nci)"
    and "map_find x (table nci) = Some b \<Longrightarrow> btype b = ncontext \<Longrightarrow> narrow (obj b) \<noteq> None"
  using assms unfolding naming_ok_def context_ok_def by blast+

lemma graph_of_simps:
  "servants s c = None \<Longrightarrow> graph_of s c = None"
  "servants s c = Some nci \<Longrightarrow> graph_of s c = Some (edges nci)"
  by (simp_all add: graph_of_def)

lemma edge_graph_of: "servants s c = Some nci \<Longrightarrow> edge (graph_of s) c x = map_find x (table nci)"
  by (simp add: edge_def graph_of_def edges_def)

lemma graph_of_put_context:
  assumes "servants s d = Some nci" and "edges nci' = (edges nci)(x := b)"
  shows "graph_of (put_context d nci' s) = set_edge d x b (graph_of s)"
  using assms by (auto simp: graph_of_def set_edge_def)

lemma graph_of_same: "servants s d = Some nci \<Longrightarrow> table nci' = table nci \<Longrightarrow> graph_of (put_context d nci' s) = graph_of s"
  by (auto simp: graph_of_def edges_def fun_eq_iff)

lemma edges_bind_entry:
  "map_ok (table nci) \<Longrightarrow> edges (bind_entry x ob bt a nci) = (edges nci)(x := Some \<lparr>btype = bt, obj = ob\<rparr>)"
  by (auto simp: edges_def bind_entry_def Let_def std_map_simps)

section \<open>The operations are operations on the graph\<close>

text \<open>The observation of a call: its result and the graph it leaves.\<close>

definition observe :: "(('e + 'a) \<times> naming) option \<Rightarrow> (('e + 'a) \<times> graph) option" where
  "observe = map_option (\<lambda>(r, s). (r, graph_of s))"

lemma observe_simps [simp]: "observe None = None" "observe (Some (r, s)) = Some (r, graph_of s)"
  by (simp_all add: observe_def)

definition can_bind :: "objref \<Rightarrow> binding_type \<Rightarrow> naming \<Rightarrow> bool" where
  "can_bind ob bt s \<longleftrightarrow> bt = ncontext \<longrightarrow> force_local ob s = Some ob"

lemma do_bind_graph:
  assumes "naming_ok s" and "can_bind ob bt s"
  shows "observe (do_bind c n ob bt rb s) = at_end (graph_bind ob bt rb) c n (graph_of s)"
proof (induction n arbitrary: c)
  case Nil
  then show ?case by (cases "servants s c") (simp_all add: invoke_def at_end_def graph_of_simps)
next
  case (Cons x rest)
  show ?case
  proof (cases "servants s c")
    case None
    then show ?thesis by (simp add: invoke_def at_end_def graph_of_simps)
  next
    case (Some nci)
    note e = edge_graph_of [OF Some] and g = graph_of_simps(2) [OF Some] and ok = naming_okD [OF assms(1) Some]
    show ?thesis
    proof (cases "rest = []")
      case True
      then show ?thesis
        using Some graph_of_put_context [OF Some edges_bind_entry [OF ok(2)]]
        by (simp add: invoke_def at_end_def graph_bind_def g e Let_def)
    next
      case rest: False
      show ?thesis
      proof (cases "map_find x (table nci)")
        case None
        then show ?thesis using rest Some by (simp add: invoke_def at_end_def g edges_def)
      next
        case b: (Some b)
        show ?thesis
        proof (cases "narrow (obj b)")
          case None
          then show ?thesis using rest Some b by (auto simp: invoke_def at_end_def g edges_def)
        next
          case nc: (Some nc)
          have "do_bind nc rest ob bt rb s = raise OBJECT_NOT_EXIST s" if "servants s nc = None"
            using that rest by (cases rest) (simp_all add: invoke_def)
          then have "(case bt of nobject \<Rightarrow> do_bind nc rest ob bt rb s
              | ncontext \<Rightarrow> invoke nc (\<lambda>_ s. Option.bind (force_local ob s) (\<lambda>nc2. do_bind nc rest nc2 bt rb s)) s) =
              do_bind nc rest ob bt rb s"
            using assms(2) by (auto simp: can_bind_def invoke_def split: binding_type.splits option.splits)
          then show ?thesis using rest Some b nc Cons.IH [of nc]
            by (simp add: invoke_def at_end_def g edges_def)
        qed
      qed
    qed
  qed
qed

lemma resolve_graph:
  assumes "naming_ok s" and "approach s = NONE"
  shows "observe (resolve r c n s) = at_end graph_resolve c n (graph_of s)"
proof (induction n arbitrary: c)
  case Nil
  then show ?case by (cases "servants s c") (simp_all add: invoke_def at_end_def graph_of_simps)
next
  case (Cons x rest)
  show ?case
  proof (cases "servants s c")
    case None
    then show ?thesis by (simp add: invoke_def at_end_def graph_of_simps)
  next
    case (Some nci)
    note e = edge_graph_of [OF Some] and g = graph_of_simps(2) [OF Some]
    have same: "put_context c nci s = s" using Some by (cases s) (simp add: fun_upd_idem)
    then show ?thesis
      using Some assms(2) Cons.IH
      by (auto simp: invoke_def at_end_def graph_resolve_def balanced_def g e edges_def same split: option.splits)
  qed
qed

lemma unbind_graph:
  assumes "naming_ok s"
  shows "observe (unbind c n s) = at_end graph_unbind c n (graph_of s)"
proof (induction n arbitrary: c)
  case Nil
  then show ?case by (cases "servants s c") (simp_all add: invoke_def at_end_def graph_of_simps)
next
  case (Cons x rest)
  show ?case
  proof (cases "servants s c")
    case None
    then show ?thesis by (simp add: invoke_def at_end_def graph_of_simps)
  next
    case (Some nci)
    note e = edge_graph_of [OF Some] and g = graph_of_simps(2) [OF Some] and ok = naming_okD [OF assms Some]
    obtain t where t: "(if approach s \<noteq> NONE then RemoveLoadBalanceEntry x (tbLoadBalanceTable nci)
        else Some (tbLoadBalanceTable nci)) = Some t"
      using RemoveLoadBalanceEntry_ok [OF ok(3), of x] by (cases "approach s = NONE") auto
    let ?nci = "nci\<lparr>table := map_erase x (table nci), tbLoadBalanceTable := t\<rparr>"
    have "edges ?nci = (edges nci)(x := None)" using ok(2) by (auto simp: edges_def map_find_erase)
    note put = graph_of_put_context [OF Some this]
    show ?thesis
    proof (cases "rest = []")
      case True
      then show ?thesis using Some t put
        by (auto simp: invoke_def at_end_def graph_unbind_def g e Let_def split: option.splits if_splits)
    next
      case False
      then show ?thesis using Some Cons.IH
        by (auto simp: invoke_def at_end_def g edges_def split: option.splits)
    qed
  qed
qed

section \<open>Every operation keeps states well-formed\<close>

definition room :: "naming \<Rightarrow> bool" where
  "room s \<longleftrightarrow> approach s = NONE \<or> (\<forall>c nci. servants s c = Some nci \<longrightarrow> length (table nci) < 255)"

lemma bound_keys: "bound nci = fst ` set (table nci)"
  by (auto simp: bound_def map_find_def map_of_eq_None_iff)

lemma card_bound: "card (bound nci) \<le> length (table nci)"
  unfolding bound_keys by (metis card_image_le card_length finite_set le_trans)

lemma context_ok_bind_entry:
  assumes "context_ok a nci" and "a = NONE \<or> length (table nci) < 255"
    and "bt = ncontext \<Longrightarrow> narrow ob \<noteq> None"
  shows "context_ok a (bind_entry x ob bt a nci)"
proof -
  note t = assms(1) [unfolded context_ok_def]
  have b: "bound (bind_entry x ob bt a nci) = insert x (bound nci)"
    using t by (auto simp: bound_def bind_entry_def Let_def std_map_simps)
  have "balance_ok (AddLoadBalanceEntry x (tbLoadBalanceTable nci)) (insert x (bound nci))" if "a \<noteq> NONE"
  proof (rule AddLoadBalanceEntry_ok)
    show "balance_ok (tbLoadBalanceTable nci) (bound nci)" using t that by simp
    have "of_kind (nc_kind x) (bound nci) \<subseteq> bound nci" by (auto simp: of_kind_def)
    then have "card (of_kind (nc_kind x) (bound nci)) \<le> card (bound nci)"
      by (intro card_mono) (simp_all add: bound_keys)
    then show "x \<in> bound nci \<or> card (of_kind (nc_kind x) (bound nci)) < 255"
      using card_bound [of nci] assms(2) that by simp
  qed
  then show ?thesis
    using t assms(3) by (simp add: context_ok_def b) (auto simp: bind_entry_def Let_def std_map_simps)
qed

lemma put_context_ok:
  assumes "naming_ok s" and "servants s c = Some nci" and "context_ok (approach s) nci'"
  shows "naming_ok (put_context c nci' s)"
proof -
  have "(servants (put_context c nci' s) (Child oid) \<noteq> None) = (servants s (Child oid) \<noteq> None)" for oid
    using assms(2) by auto
  then show ?thesis using assms unfolding naming_ok_def by simp
qed

lemma force_local_same: "force_local ob s = Some ob' \<Longrightarrow> ob' = ob"
  by (induction ob s rule: force_local.induct) (auto split: if_splits)

lemma do_bind_ok:
  assumes "naming_ok s" and "room s" and "bt = ncontext \<Longrightarrow> narrow ob \<noteq> None"
    and "do_bind c n ob bt rb s = Some (r, s')"
  shows "naming_ok s'"
  using assms(4)
proof (induction n arbitrary: c)
  case Nil
  then show ?case using assms(1) by (auto simp: invoke_def split: option.splits)
next
  case (Cons x rest)
  show ?case
  proof (cases "servants s c")
    case None
    then show ?thesis using Cons.prems assms(1) by (simp add: invoke_def)
  next
    case (Some nci)
    have "context_ok (approach s) (bind_entry x ob bt (approach s) nci)"
      using assms(2,3) Some by (intro context_ok_bind_entry naming_okD(1) [OF assms(1) Some]) (auto simp: room_def)
    note put = put_context_ok [OF assms(1) Some this]
    show ?thesis
    proof (cases "rest = []")
      case True
      then show ?thesis using Some Cons.prems put assms(1) by (auto simp: invoke_def Let_def split: if_splits)
    next
      case False
      then show ?thesis using Some Cons.prems Cons.IH assms(1)
        by (auto simp: invoke_def Let_def dest!: force_local_same elim!: bind_cases
            split: option.splits if_splits binding_type.splits)
    qed
  qed
qed

lemma balanced_ok:
  assumes "context_ok a nci" and "balanced r a x nci = Some (res, nci')"
  shows "context_ok a nci' \<and> table nci' = table nci"
proof (cases a)
  case ROUND_ROBIN
  then have "balance_ok (tbLoadBalanceTable nci) (bound nci)" using assms(1) by (simp add: context_ok_def)
  from RoundRobinResolve_ok [OF this, of x] show ?thesis
    using assms ROUND_ROBIN by (auto simp: balanced_def context_ok_def bound_def split: if_splits)
next
  case RANDOM
  then show ?thesis using assms by (auto simp: balanced_def elim!: bind_cases)
qed (use assms in \<open>auto simp: balanced_def\<close>)

lemma resolve_ok: "naming_ok s \<Longrightarrow> resolve r c n s = Some (res, s') \<Longrightarrow> naming_ok s'"
proof (induction n arbitrary: c)
  case (Cons x rest)
  show ?case
  proof (cases "servants s c")
    case (Some nci)
    have put: "naming_ok (put_context c nci' s)" if "balanced r (approach s) x nci = Some (res', nci')" for res' nci'
      using balanced_ok [OF naming_okD(1) [OF Cons.prems(1) Some] that] put_context_ok [OF Cons.prems(1) Some] by blast
    show ?thesis using Some Cons.prems Cons.IH put
      by (auto simp: invoke_def Let_def elim!: bind_cases split: option.splits if_splits sum.splits)
  qed (use Cons.prems in \<open>simp add: invoke_def\<close>)
qed (auto simp: invoke_def split: option.splits)

lemma context_ok_unbind:
  assumes "context_ok a nci"
    and "(if a \<noteq> NONE then RemoveLoadBalanceEntry x (tbLoadBalanceTable nci) else Some (tbLoadBalanceTable nci)) = Some t"
  shows "context_ok a (nci\<lparr>table := map_erase x (table nci), tbLoadBalanceTable := t\<rparr>)"
proof -
  note ok = assms(1) [unfolded context_ok_def]
  have "bound (nci\<lparr>table := map_erase x (table nci), tbLoadBalanceTable := t\<rparr>) = bound nci - {x}"
    by (auto simp: bound_def map_find_erase)
  then show ?thesis
    using ok assms(2) RemoveLoadBalanceEntry_ok [of "tbLoadBalanceTable nci" "bound nci" x]
    by (auto simp: context_ok_def map_find_erase intro: map_ok_erase split: if_splits)
qed

lemma unbind_ok: "naming_ok s \<Longrightarrow> unbind c n s = Some (res, s') \<Longrightarrow> naming_ok s'"
proof (induction n arbitrary: c)
  case (Cons x rest)
  show ?case
  proof (cases "servants s c")
    case (Some nci)
    have put: "naming_ok (put_context c (nci\<lparr>table := map_erase x (table nci), tbLoadBalanceTable := t\<rparr>) s)"
      if "(if approach s \<noteq> NONE then RemoveLoadBalanceEntry x (tbLoadBalanceTable nci)
          else Some (tbLoadBalanceTable nci)) = Some t" for t
      by (rule put_context_ok [OF Cons.prems(1) Some context_ok_unbind [OF naming_okD(1) [OF Cons.prems(1) Some] that]])
    show ?thesis
    proof (cases "rest = []")
      case True
      then show ?thesis using Some Cons.prems put
        by (cases "approach s = NONE") (auto simp: invoke_def Let_def elim!: bind_cases split: option.splits)
    next
      case False
      then show ?thesis using Some Cons.prems Cons.IH
        by (auto simp: invoke_def elim!: bind_cases split: option.splits if_splits)
    qed
  qed (use Cons.prems in \<open>simp add: invoke_def\<close>)
qed (auto simp: invoke_def split: option.splits)

lemma new_naming_context_ok: "context_ok a new_naming_context"
  by (simp add: context_ok_def new_naming_context_def bound_def map_find_def balance_ok_empty)

definition fresh_for :: "oid \<Rightarrow> nat \<Rightarrow> naming \<Rightarrow> bool" where
  "fresh_for oid addr s \<longleftrightarrow> servants s (Child oid) = None \<and> map_find addr (svmap s) = None"

lemma map_put_new:
  "map_find k m = None \<Longrightarrow> set (map_put k v m) = insert (k, v) (set m) \<and>
     (distinct (map snd (map_put k v m)) \<longleftrightarrow> v \<notin> snd ` set m \<and> distinct (map snd m))"
  by (induction k v m rule: map_put.induct) (auto simp: map_find_def split: if_splits)

lemma activate_context_ok:
  assumes "naming_ok s" and "fresh_for oid addr s"
  shows "naming_ok (activate_context oid addr s)"
proof -
  have new: "map_find addr (svmap s) = None" "oid \<notin> snd ` set (svmap s)"
    using assms unfolding fresh_for_def naming_ok_def by blast+
  note put = map_put_new [OF new(1), of oid]
  show ?thesis
    using assms new_naming_context_ok put new(2) unfolding naming_ok_def activate_context_def
    by (auto intro: map_ok_put)
qed

lemma destroy_ok: "naming_ok s \<Longrightarrow> destroy c s = Some (res, s') \<Longrightarrow> naming_ok s'"
proof -
  assume s: "naming_ok s" and d: "destroy c s = Some (res, s')"
  let ?m = "filter (\<lambda>e. c \<noteq> Child (snd e)) (svmap s)"
  have "map_ok ?m" "distinct (map snd ?m)"
    using s by (auto simp: naming_ok_def map_ok_def sorted_wrt_map distinct_map_filter intro: sorted_wrt_filter)
  moreover have "snd ` set ?m = {oid \<in> snd ` set (svmap s). c \<noteq> Child oid}" by auto
  ultimately have "naming_ok (s\<lparr>servants := (servants s)(c := None), svmap := ?m\<rparr>)"
    using s by (simp add: naming_ok_def)
  then show ?thesis using s d by (auto simp: destroy_def invoke_def split: option.splits if_splits)
qed

lemma new_root_ok: "naming_ok (new_root a)"
  by (auto simp: naming_ok_def new_root_def new_naming_context_ok)

end
