(* ===== verification/Naming_Service.thy ===== *)
theory Naming_Service
  imports Naming
begin

text \<open>
  The naming service as a state machine: a step is one call of a client. The theorems say that
  every reachable state is well-formed, that no call on it fails an assertion, and what binding,
  resolving, unbinding and listing promise to a client.
\<close>

section \<open>Steps\<close>

text \<open>
  A reference that a client may bind as a context: the root or an active child. With load
  balancing on, a binding is a step while every table has fewer than 255 entries.
\<close>

definition live_context :: "naming \<Rightarrow> objref \<Rightarrow> bool" where
  "live_context s nc \<longleftrightarrow> (\<exists>c. nc = Context_ref c \<and> servants s c \<noteq> None)"

inductive naming_step :: "naming \<Rightarrow> naming \<Rightarrow> bool" where
  step_bind: "room s \<Longrightarrow> bind c n ob s = Some (r, s') \<Longrightarrow> naming_step s s'"
| step_rebind: "room s \<Longrightarrow> rebind c n ob s = Some (r, s') \<Longrightarrow> naming_step s s'"
| step_bind_context:
    "room s \<Longrightarrow> live_context s nc \<Longrightarrow> bind_context c n nc s = Some (r, s') \<Longrightarrow> naming_step s s'"
| step_rebind_context:
    "room s \<Longrightarrow> live_context s nc \<Longrightarrow> rebind_context c n nc s = Some (r, s') \<Longrightarrow> naming_step s s'"
| step_resolve: "resolve v c n s = Some (res, s') \<Longrightarrow> naming_step s s'"
| step_resolve_str: "resolve_str v c sn s = Some (res, s') \<Longrightarrow> naming_step s s'"
| step_unbind: "unbind c n s = Some (r, s') \<Longrightarrow> naming_step s s'"
| step_new_context: "fresh_for oid addr s \<Longrightarrow> new_context c oid addr s = Some (res, s') \<Longrightarrow> naming_step s s'"
| step_bind_new_context:
    "room s \<Longrightarrow> fresh_for oid addr s \<Longrightarrow> bind_new_context c n oid addr s = Some (res, s') \<Longrightarrow> naming_step s s'"
| step_destroy: "destroy c s = Some (r, s') \<Longrightarrow> naming_step s s'"
| step_list: "list_context c k s = Some (bl, s') \<Longrightarrow> naming_step s s'"

inductive_cases naming_stepE: "naming_step s s'"

inductive naming_reachable :: "load_balance_approach \<Rightarrow> naming \<Rightarrow> bool" for a where
  reach_start: "naming_reachable a (new_root a)"
| reach_step: "naming_reachable a s \<Longrightarrow> naming_step s s' \<Longrightarrow> naming_reachable a s'"

lemma invoke_okE:
  assumes "invoke c f s = Some (r, s')" and "naming_ok s"
    and "\<And>nci. servants s c = Some nci \<Longrightarrow> f nci s = Some (r, s') \<Longrightarrow> naming_ok s'"
  shows "naming_ok s'"
  using assms by (auto simp: invoke_def split: option.splits)

lemma bind_context_ok:
  assumes "naming_ok s" and "room s" and "narrow nc \<noteq> None"
  shows "bind_context c n nc s = Some (r, s') \<Longrightarrow> naming_ok s'"
    and "rebind_context c n nc s = Some (r, s') \<Longrightarrow> naming_ok s'"
  using do_bind_ok [OF assms(1,2), of ncontext nc] assms(1,3)
  by (auto simp: bind_context_def rebind_context_def elim!: invoke_okE bind_cases dest!: force_local_same)

lemma room_activate: "room s \<Longrightarrow> room (activate_context oid addr s)"
  by (auto simp: room_def activate_context_def new_naming_context_def)

lemma naming_step_ok:
  assumes "naming_ok s" and "naming_step s s'"
  shows "naming_ok s'"
  using assms(2)
proof cases
  case (step_bind c n ob r)
  then show ?thesis using do_bind_ok [OF assms(1), of nobject] by (simp add: bind_def)
next
  case (step_rebind c n ob r)
  then show ?thesis using do_bind_ok [OF assms(1), of nobject] by (simp add: rebind_def)
next
  case (step_bind_context nc c n r)
  then show ?thesis using bind_context_ok(1) [OF assms(1), of nc] by (auto simp: live_context_def)
next
  case (step_rebind_context nc c n r)
  then show ?thesis using bind_context_ok(2) [OF assms(1), of nc] by (auto simp: live_context_def)
next
  case (step_resolve v c n res)
  then show ?thesis by (blast intro: resolve_ok [OF assms(1)])
next
  case (step_resolve_str v c sn res)
  then show ?thesis using resolve_ok [OF assms(1)] assms(1)
    by (auto simp: resolve_str_def elim!: invoke_okE bind_cases split: sum.splits)
next
  case (step_unbind c n r)
  then show ?thesis by (blast intro: unbind_ok [OF assms(1)])
next
  case (step_new_context oid addr c res)
  then show ?thesis using activate_context_ok [OF assms(1)] assms(1)
    by (auto simp: new_context_def elim!: invoke_okE)
next
  case (step_bind_new_context oid addr c n res)
  note a = activate_context_ok [OF assms(1) step_bind_new_context(2)]
  show ?thesis using step_bind_new_context(3) assms(1) bind_context_ok(1) [OF a room_activate [OF step_bind_new_context(1)],
      of "Context_ref (Child oid)"]
    by (auto simp: bind_new_context_def Let_def elim!: invoke_okE bind_cases split: sum.splits)
next
  case (step_destroy c r)
  then show ?thesis by (blast intro: destroy_ok [OF assms(1)])
next
  case (step_list c k bl)
  then show ?thesis using assms(1) by (auto simp: list_context_def elim!: invoke_okE bind_cases)
qed

lemma reachable_ok: "naming_reachable a s \<Longrightarrow> naming_ok s"
  by (induction rule: naming_reachable.induct) (auto intro: new_root_ok naming_step_ok)

section \<open>No call aborts\<close>

lemma walk_total: "naming_ok s \<Longrightarrow> walk (graph_of s) c n \<noteq> None"
proof (induction n arbitrary: c)
  case (Cons x rest)
  show ?case
  proof (cases "servants s c")
    case (Some nci)
    with Cons naming_okD(4) [OF Cons.prems Some, of x] show ?thesis
      by (auto simp: graph_of_def edges_def split: option.splits)
  qed (simp add: graph_of_def)
qed simp

lemma at_end_total: "naming_ok s \<Longrightarrow> at_end f c n (graph_of s) \<noteq> None"
  using walk_total by (fastforce simp: at_end_def split: option.splits sum.splits)

lemma observe_None: "observe m = None \<longleftrightarrow> m = None"
  by (simp add: observe_def)

lemma do_bind_total: "naming_ok s \<Longrightarrow> can_bind ob bt s \<Longrightarrow> do_bind c n ob bt rb s \<noteq> None"
  using do_bind_graph at_end_total observe_None by metis

lemma unbind_total: "naming_ok s \<Longrightarrow> unbind c n s \<noteq> None"
  using unbind_graph at_end_total observe_None by metis

lemma live_force_local: "live_context s nc \<Longrightarrow> force_local nc s = Some nc"
  by (induction nc s rule: force_local.induct) (auto simp: live_context_def)

lemma bind_context_total:
  assumes "naming_ok s" and "live_context s nc"
  shows "bind_context c n nc s \<noteq> None" and "rebind_context c n nc s \<noteq> None"
  using do_bind_total [OF assms(1), of nc ncontext] live_force_local [OF assms(2)]
  by (auto simp: bind_context_def rebind_context_def invoke_def can_bind_def split: option.splits)

lemma balanced_total:
  assumes "context_ok a nci"
  shows "balanced r a x nci \<noteq> None"
proof (cases a)
  case ROUND_ROBIN
  with assms RoundRobinResolve_ok [of "tbLoadBalanceTable nci" "bound nci" x] show ?thesis
    by (auto simp: balanced_def context_ok_def split: if_splits)
next
  case RANDOM
  with assms RandomResolve_ok [of "tbLoadBalanceTable nci" "bound nci" x r] show ?thesis
    by (auto simp: balanced_def context_ok_def split: if_splits)
qed (simp add: balanced_def)

lemma resolve_total: "naming_ok s \<Longrightarrow> resolve r c n s \<noteq> None"
proof (induction n arbitrary: c)
  case (Cons x rest)
  show ?case
  proof (cases "servants s c")
    case (Some nci)
    obtain res nci' where "balanced r (approach s) x nci = Some (res, nci')"
      using balanced_total [OF naming_okD(1) [OF Cons.prems Some], of r x] by auto
    with Some Cons naming_okD(4) [OF Cons.prems Some, of x] show ?thesis
      by (auto simp: invoke_def Let_def split: option.splits sum.splits)
  qed (simp add: invoke_def)
qed (simp add: invoke_def split: option.splits)

section \<open>Bindings that do not disturb each other\<close>

lemma set_edge_apply: "set_edge d x b g c = (if c = d then map_option (\<lambda>es. es(x := b)) (g d) else g c)"
  by (simp add: set_edge_def)

lemma edge_set_edge:
  "edge (set_edge d x b g) c y = (if c = d \<and> y = x \<and> g d \<noteq> None then b else edge g c y)"
  by (cases "g d") (auto simp: edge_def set_edge_apply)

text \<open>A new edge changes no walk that succeeded without it, and neither does removing it again.\<close>

lemma walk_set_edge:
  assumes "edge g d x = None"
  shows "walk g c n = Some (Inr p) \<Longrightarrow> walk (set_edge d x (Some b) g) c n = Some (Inr p)"
proof (induction n arbitrary: c)
  case (Cons y rest)
  obtain es where es: "g c = Some es" using Cons.prems by (auto split: option.splits)
  show ?case
  proof (cases "rest = []")
    case True
    then show ?thesis using Cons.prems es by (auto simp: set_edge_apply)
  next
    case False
    with Cons.prems es obtain b' nc where b': "es y = Some b'" "btype b' = ncontext" "narrow (obj b') = Some nc"
      "walk g nc rest = Some (Inr p)"
      by (auto split: option.splits if_splits)
    moreover have "\<not> (c = d \<and> y = x)" using assms es b'(1) by (auto simp: edge_def)
    ultimately show ?thesis using Cons.IH [OF b'(4)] es False by (auto simp: set_edge_apply)
  qed
qed simp

lemma walk_node: "walk g c n = Some (Inr (d, x)) \<Longrightarrow> g d \<noteq> None"
  by (induction g c n rule: walk.induct) (auto split: option.splits if_splits)

lemma observeD: "observe m = Some (r, g) \<Longrightarrow> \<exists>s. m = Some (r, s) \<and> graph_of s = g"
  by (auto simp: observe_def)

lemma at_endD:
  assumes "at_end f c n g = Some (Inr v, g')"
  shows "\<exists>d x. walk g c n = Some (Inr (d, x)) \<and> f d x g = (Inr v, g')"
  using assms by (auto simp: at_end_def split: option.splits sum.splits)

lemma resolve_same:
  "approach s = NONE \<Longrightarrow> resolve r c n s = Some (res, s') \<Longrightarrow> s' = s"
proof (induction n arbitrary: c)
  case (Cons x rest)
  show ?case
  proof (cases "servants s c")
    case (Some nci)
    then have "put_context c nci s = s" by (cases s) (simp add: fun_upd_idem)
    then show ?thesis using Some Cons
      by (auto simp: invoke_def balanced_def elim!: bind_cases split: option.splits if_splits)
  qed (use Cons.prems in \<open>simp add: invoke_def\<close>)
qed (auto simp: invoke_def split: option.splits)

lemma do_bind_approach: "do_bind c n ob bt rb s = Some (r, s') \<Longrightarrow> approach s' = approach s"
proof (induction n arbitrary: c ob)
  case (Cons x rest)
  then show ?case
    by (cases "servants s c")
      (auto simp: invoke_def Let_def elim!: bind_cases split: option.splits if_splits binding_type.splits)
qed (auto simp: invoke_def split: option.splits)

lemma resolve_at:
  assumes "naming_ok s" and "approach s = NONE" and "walk (graph_of s) c n = Some (Inr (d, x))"
    and "edge (graph_of s) d x = Some b"
  shows "resolve r c n s = Some (Inr (obj b), s)"
proof -
  have "observe (resolve r c n s) = Some (Inr (obj b), graph_of s)"
    using assms(3,4) by (simp add: resolve_graph [OF assms(1,2)] at_end_def graph_resolve_def)
  then show ?thesis using resolve_same [OF assms(2)] by (auto dest!: observeD)
qed

lemma resolveD:
  assumes "naming_ok s" and "approach s = NONE" and "resolve r c n s = Some (Inr ob, s')"
  shows "\<exists>d x b. walk (graph_of s) c n = Some (Inr (d, x)) \<and> edge (graph_of s) d x = Some b \<and> obj b = ob"
proof -
  have "at_end graph_resolve c n (graph_of s) = Some (Inr ob, graph_of s')"
    using resolve_graph [OF assms(1,2), of r c n] assms(3) by simp
  from at_endD [OF this] show ?thesis by (auto simp: graph_resolve_def split: option.splits)
qed

section \<open>Properties\<close>

text \<open>C4: The operations are operations on the naming graph. On a well-formed state \<open>bind\<close>,
  \<open>rebind\<close>, \<open>bind_context\<close> and \<open>rebind_context\<close> of a live context, \<open>unbind\<close>, and without load balancing
  \<open>resolve\<close>, however the calls recurse from context to context, return and leave exactly what the
  one-edge operation at the end of the walk of the name gives, exceptions included.\<close>

theorem naming_refines_graph:
  assumes "naming_ok s"
  shows "observe (bind c n ob s) = at_end (graph_bind ob nobject False) c n (graph_of s) \<and>
     observe (rebind c n ob s) = at_end (graph_bind ob nobject True) c n (graph_of s) \<and>
     (live_context s nc \<and> servants s c \<noteq> None \<longrightarrow>
        observe (bind_context c n nc s) = at_end (graph_bind nc ncontext False) c n (graph_of s) \<and>
        observe (rebind_context c n nc s) = at_end (graph_bind nc ncontext True) c n (graph_of s)) \<and>
     observe (unbind c n s) = at_end graph_unbind c n (graph_of s) \<and>
     (approach s = NONE \<longrightarrow> observe (resolve r c n s) = at_end graph_resolve c n (graph_of s))"
proof (intro conjI impI)
  show "observe (bind c n ob s) = at_end (graph_bind ob nobject False) c n (graph_of s)"
    and "observe (rebind c n ob s) = at_end (graph_bind ob nobject True) c n (graph_of s)"
    by (simp_all add: bind_def rebind_def do_bind_graph [OF assms] can_bind_def)
  show "observe (unbind c n s) = at_end graph_unbind c n (graph_of s)" by (rule unbind_graph [OF assms])
  show "approach s = NONE \<Longrightarrow> observe (resolve r c n s) = at_end graph_resolve c n (graph_of s)"
    by (rule resolve_graph [OF assms])
  assume nc: "live_context s nc \<and> servants s c \<noteq> None"
  then show "observe (bind_context c n nc s) = at_end (graph_bind nc ncontext False) c n (graph_of s)"
    and "observe (rebind_context c n nc s) = at_end (graph_bind nc ncontext True) c n (graph_of s)"
    using do_bind_graph [OF assms, of nc ncontext] live_force_local [of s nc]
    by (auto simp: bind_context_def rebind_context_def invoke_def can_bind_def)
qed

theorem naming_refines_graph_witness:
  "observe (bind Root [NameComponent ''a'' ''''] (Object_ref 7) (new_root NONE)) =
     Some (Inr (), set_edge Root (NameComponent ''a'' '''') (Some \<lparr>btype = nobject, obj = Object_ref 7\<rparr>) (graph_of (new_root NONE)))"
  using naming_refines_graph [OF new_root_ok [of NONE]]
  by (simp add: at_end_def graph_bind_def edge_def graph_of_def new_root_def new_naming_context_def edges_def map_find_def)

text \<open>C12: Every state the service reaches, under any interleaving of clients' calls and any load
  balancing approach, is well-formed: each table is in strict key order, each load balancing table
  holds exactly the bound components, and \<open>svmap\<close> lists exactly the active child contexts.\<close>

theorem naming_invariant:
  assumes "naming_reachable a s"
  shows "(\<forall>c nci. servants s c = Some nci \<longrightarrow> sorted_wrt (<) (map fst (table nci)) \<and>
        (approach s \<noteq> NONE \<longrightarrow> balance_ok (tbLoadBalanceTable nci) (fst ` set (table nci)))) \<and>
     (\<forall>oid. servants s (Child oid) \<noteq> None \<longleftrightarrow> oid \<in> snd ` set (svmap s))"
  using reachable_ok [OF assms] by (auto simp: naming_ok_def context_ok_def map_ok_def simp flip: bound_keys)

theorem naming_invariant_witness:
  "\<forall>oid. servants (activate_context [1] 0 (new_root RANDOM)) (Child oid) \<noteq> None \<longleftrightarrow>
     oid \<in> snd ` set (svmap (activate_context [1] 0 (new_root RANDOM)))"
proof -
  have "fresh_for [1] 0 (new_root RANDOM)" by (simp add: fresh_for_def new_root_def map_find_def)
  moreover have "new_context Root [1] 0 (new_root RANDOM) =
      Some (Inr (Context_ref (Child [1])), activate_context [1] 0 (new_root RANDOM))"
    by (simp add: new_context_def invoke_def new_root_def)
  ultimately have "naming_reachable RANDOM (activate_context [1] 0 (new_root RANDOM))"
    by (intro reach_step [OF reach_start]) (rule step_new_context)
  from naming_invariant [OF this] show ?thesis by blast
qed



text \<open>C23: What is bound is found, and nothing else is lost. After a successful \<open>bind\<close> (no load
  balancing) the name resolves to the object, every name that resolved before, from any context,
  still resolves to the same object, and \<open>unbind\<close> of the name gives back the naming graph that was
  there before.\<close>

theorem bind_then_resolve:
  assumes "naming_ok s" and "approach s = NONE" and "room s"
    and "bind c n ob s = Some (Inr (), s')"
  shows "resolve r c n s' = Some (Inr ob, s') \<and>
     (\<forall>d m o1. resolve r d m s = Some (Inr o1, s) \<longrightarrow> resolve r d m s' = Some (Inr o1, s')) \<and>
     (\<exists>s''. unbind c n s' = Some (Inr (), s'') \<and> graph_of s'' = graph_of s)"
proof -
  have ok': "naming_ok s'" using do_bind_ok [OF assms(1,3), of nobject] assms(4) by (simp add: bind_def)
  have a': "approach s' = NONE" using do_bind_approach assms(2,4) by (auto simp: bind_def)
  have "at_end (graph_bind ob nobject False) c n (graph_of s) = Some (Inr (), graph_of s')"
    using do_bind_graph [OF assms(1), of ob nobject c n False] assms(4) by (simp add: bind_def can_bind_def)
  from at_endD [OF this] obtain d x where w: "walk (graph_of s) c n = Some (Inr (d, x))"
    "edge (graph_of s) d x = None" "graph_of s' = set_edge d x (Some \<lparr>btype = nobject, obj = ob\<rparr>) (graph_of s)"
    by (auto simp: graph_bind_def split: if_splits)
  note walk' = walk_set_edge [OF w(2), where b = "\<lparr>btype = nobject, obj = ob\<rparr>", folded w(3)]
  have edge': "edge (graph_of s') e y = (if e = d \<and> y = x then Some \<lparr>btype = nobject, obj = ob\<rparr> else edge (graph_of s) e y)" for e y
    using walk_node [OF w(1)] by (auto simp: w(3) edge_set_edge)
  have "resolve r c n s' = Some (Inr ob, s')"
    using resolve_at [OF ok' a' walk' [OF w(1)], of "\<lparr>btype = nobject, obj = ob\<rparr>"] by (simp add: edge')
  moreover have "resolve r e m s' = Some (Inr o1, s')" if q: "resolve r e m s = Some (Inr o1, s)" for e m o1
  proof -
    obtain f y b where f: "walk (graph_of s) e m = Some (Inr (f, y))" "edge (graph_of s) f y = Some b" "obj b = o1"
      using resolveD [OF assms(1,2) q] by blast
    then have "edge (graph_of s') f y = Some b" using w(2) by (auto simp: edge')
    from resolve_at [OF ok' a' walk' [OF f(1)] this] f(3) show ?thesis by simp
  qed
  moreover have "\<exists>s''. unbind c n s' = Some (Inr (), s'') \<and> graph_of s'' = graph_of s"
  proof -
    have "set_edge d x None (graph_of s') = graph_of s"
      using w(2) by (cases "graph_of s d") (auto simp: w(3) set_edge_def edge_def fun_eq_iff)
    moreover have "edge (graph_of s') d x \<noteq> None" by (simp add: edge')
    ultimately have "observe (unbind c n s') = Some (Inr (), graph_of s)"
      using walk' [OF w(1)] by (simp add: unbind_graph [OF ok'] at_end_def graph_unbind_def)
    then show ?thesis by (auto dest: observeD)
  qed
  ultimately show ?thesis by blast
qed

theorem bind_then_resolve_witness:
  "\<exists>s'. bind Root [NameComponent ''a'' ''''] (Object_ref 7) (new_root NONE) = Some (Inr (), s') \<and>
     resolve 0 Root [NameComponent ''a'' ''''] s' = Some (Inr (Object_ref 7), s')"
proof -
  obtain s' where s': "bind Root [NameComponent ''a'' ''''] (Object_ref 7) (new_root NONE) = Some (Inr (), s')"
    by (simp add: bind_def invoke_def new_root_def new_naming_context_def map_find_def)
  from bind_then_resolve [OF new_root_ok _ _ this, of 0] s' show ?thesis by (simp add: new_root_def room_def)
qed

section \<open>Failed calls\<close>

lemma do_bind_exn: "do_bind c n ob bt rb s = Some (Inl e, s') \<Longrightarrow> s' = s"
proof (induction n arbitrary: c ob)
  case (Cons x rest)
  then show ?case
    by (cases "servants s c")
      (auto simp: invoke_def Let_def elim!: bind_cases split: option.splits if_splits binding_type.splits)
qed (auto simp: invoke_def split: option.splits)

lemma unbind_exn: "unbind c n s = Some (Inl e, s') \<Longrightarrow> s' = s"
proof (induction n arbitrary: c)
  case (Cons x rest)
  then show ?case
    by (cases "servants s c") (auto simp: invoke_def Let_def elim!: bind_cases split: option.splits if_splits)
qed (auto simp: invoke_def split: option.splits)

lemma bind_context_exn:
  "bind_context c n nc s = Some (Inl e, s') \<Longrightarrow> s' = s"
  "rebind_context c n nc s = Some (Inl e, s') \<Longrightarrow> s' = s"
  using do_bind_exn
  by (auto simp: bind_context_def rebind_context_def invoke_def elim!: bind_cases split: option.splits)

text \<open>A call that raises an exception changes nothing: \<open>bind\<close>, \<open>rebind\<close>, \<open>bind_context\<close>,
  \<open>rebind_context\<close>, \<open>unbind\<close> and \<open>destroy\<close> leave the state as it was, at whatever depth of the
  name the exception was raised. The exception to the rule is \<open>bind_new_context\<close>: when its binding
  fails, the context it has created stays active and in \<open>svmap\<close>, bound nowhere.\<close>

theorem failed_calls_change_nothing:
  "(bind c n ob s = Some (Inl e, s') \<or> rebind c n ob s = Some (Inl e, s') \<or>
      bind_context c n ob s = Some (Inl e, s') \<or> rebind_context c n ob s = Some (Inl e, s') \<or>
      unbind c n s = Some (Inl e, s') \<or> destroy c s = Some (Inl e, s') \<longrightarrow> s' = s) \<and>
   (bind_new_context c n oid addr s = Some (Inl e, s') \<and> servants s c \<noteq> None \<longrightarrow>
      s' = activate_context oid addr s)"
proof (intro conjI impI)
  assume "bind c n ob s = Some (Inl e, s') \<or> rebind c n ob s = Some (Inl e, s') \<or>
      bind_context c n ob s = Some (Inl e, s') \<or> rebind_context c n ob s = Some (Inl e, s') \<or>
      unbind c n s = Some (Inl e, s') \<or> destroy c s = Some (Inl e, s')"
  moreover have "destroy c s = Some (Inl e, s') \<Longrightarrow> s' = s"
    by (auto simp: destroy_def invoke_def split: option.splits if_splits)
  ultimately show "s' = s"
    using do_bind_exn unbind_exn bind_context_exn by (auto simp: bind_def rebind_def)
next
  assume "bind_new_context c n oid addr s = Some (Inl e, s') \<and> servants s c \<noteq> None"
  then show "s' = activate_context oid addr s"
    using bind_context_exn(1) by (auto simp: bind_new_context_def invoke_def Let_def elim!: bind_cases split: sum.splits)
qed

theorem failed_calls_change_nothing_witness:
  "unbind Root [NameComponent ''a'' ''''] (new_root NONE) =
     Some (Inl (NotFound missing_node [NameComponent ''a'' '''']), new_root NONE) \<and>
   (\<exists>s'. bind_new_context Root [] [1] 0 (new_root NONE) = Some (Inl InvalidName, s') \<and>
      s' = activate_context [1] 0 (new_root NONE))"
proof
  have u: "unbind Root [NameComponent ''a'' ''''] (new_root NONE) =
      Some (Inl (NotFound missing_node [NameComponent ''a'' '''']), the (map_option snd (unbind Root [NameComponent ''a'' ''''] (new_root NONE))))"
    by (simp add: invoke_def new_root_def new_naming_context_def map_find_def)
  with failed_calls_change_nothing [of Root "[NameComponent ''a'' '''']" Nil_ref "new_root NONE"
      "NotFound missing_node [NameComponent ''a'' '''']"]
  show "unbind Root [NameComponent ''a'' ''''] (new_root NONE) =
     Some (Inl (NotFound missing_node [NameComponent ''a'' '''']), new_root NONE)" by metis
  obtain s' where s': "bind_new_context Root [] [1] 0 (new_root NONE) = Some (Inl InvalidName, s')"
    by (simp add: bind_new_context_def bind_context_def invoke_def new_root_def activate_context_def Let_def)
  moreover have "servants (new_root NONE) Root \<noteq> None" by (simp add: new_root_def)
  ultimately show "\<exists>s'. bind_new_context Root [] [1] 0 (new_root NONE) = Some (Inl InvalidName, s') \<and>
      s' = activate_context [1] 0 (new_root NONE)"
    using failed_calls_change_nothing [of Root "[]" Nil_ref "new_root NONE" InvalidName s' "[1]" 0] by blast
qed

text \<open>Binding a context that has been destroyed stops the server. \<open>_force_local\<close> looks a child
  reference up in the active object map and asserts that it is there; a client that still holds the
  reference of a destroyed context and binds it makes the assertion fail.\<close>

theorem bind_destroyed_context_aborts:
  assumes "servants s c \<noteq> None" and "destroy (Child oid) s = Some (Inr (), s')" and "c \<noteq> Child oid"
  shows "bind_context c n (Context_ref (Child oid)) s' = None \<and> rebind_context c n (Context_ref (Child oid)) s' = None"
  using assms by (auto simp: destroy_def bind_context_def rebind_context_def invoke_def split: option.splits if_splits)

theorem bind_destroyed_context_aborts_witness:
  "\<exists>s'. destroy (Child [1]) (activate_context [1] 0 (new_root NONE)) = Some (Inr (), s') \<and>
     bind_context Root [NameComponent ''a'' ''''] (Context_ref (Child [1])) s' = None"
proof -
  obtain s' where s': "destroy (Child [1]) (activate_context [1] 0 (new_root NONE)) = Some (Inr (), s')"
    by (simp add: destroy_def invoke_def activate_context_def new_naming_context_def)
  moreover have "servants (activate_context [1] 0 (new_root NONE)) Root \<noteq> None"
    by (simp add: activate_context_def new_root_def)
  ultimately show ?thesis using bind_destroyed_context_aborts by blast
qed

section \<open>Resolving with load balancing\<close>

lemma balanced_none:
  assumes "context_ok a nci" and "a \<noteq> NONE" and "of_kind (nc_kind x) (bound nci) = {}"
  shows "balanced r a x nci = Some (Inl (NotFound missing_node []), nci)"
proof -
  have b: "balance_ok (tbLoadBalanceTable nci) (bound nci)" using assms by (simp add: context_ok_def)
  show ?thesis
    using RoundRobinResolve_ok [OF b, of x] RandomResolve_ok [OF b, of x r] assms(2,3)
    by (cases a) (simp_all add: balanced_def)
qed

lemma balanced_some:
  assumes "context_ok a nci" and "a \<noteq> NONE" and "of_kind (nc_kind x) (bound nci) \<noteq> {}"
  shows "\<exists>y nci' b. balanced r a x nci = Some (Inr y, nci') \<and> table nci' = table nci \<and>
     map_find y (table nci) = Some b \<and> nc_kind y = nc_kind x"
proof -
  have b: "balance_ok (tbLoadBalanceTable nci) (bound nci)" using assms by (simp add: context_ok_def)
  show ?thesis
  proof (cases a)
    case ROUND_ROBIN
    obtain y t' where "RoundRobinResolve x (tbLoadBalanceTable nci) = Some (Inr y, t')" "y \<in> of_kind (nc_kind x) (bound nci)"
      using RoundRobinResolve_ok [OF b, of x] assms(3) by auto
    then show ?thesis using ROUND_ROBIN by (auto simp: balanced_def bound_def)
  next
    case RANDOM
    obtain y where "RandomResolve r x (tbLoadBalanceTable nci) = Some (Inr y)" "y \<in> of_kind (nc_kind x) (bound nci)"
      using RandomResolve_ok [OF b, of x r] assms(3) by auto
    then show ?thesis using RANDOM by (auto simp: balanced_def bound_def)
  qed (use assms(2) in simp)
qed

text \<open>With load balancing on, resolving a one-component name in a context of a reachable state
  returns the object of some component of the same kind that is bound there, and raises
  \<open>NotFound\<close> exactly when no component of that kind is bound; the bindings stay as they are.\<close>

theorem balanced_resolve:
  assumes "naming_reachable a s" and "approach s \<noteq> NONE" and "servants s c = Some nci"
  shows "\<exists>res s'. resolve r c [x] s = Some (res, s') \<and> graph_of s' = graph_of s \<and>
     (case res of
        Inl e \<Rightarrow> e = NotFound missing_node [] \<and> (\<forall>y b. map_find y (table nci) = Some b \<longrightarrow> nc_kind y \<noteq> nc_kind x)
      | Inr ob \<Rightarrow> \<exists>y b. map_find y (table nci) = Some b \<and> nc_kind y = nc_kind x \<and> obj b = ob)"
proof -
  note ok = naming_okD(1) [OF reachable_ok [OF assms(1)] assms(3)]
  have same: "put_context c nci s = s" using assms(3) by (cases s) (simp add: fun_upd_idem)
  show ?thesis
  proof (cases "of_kind (nc_kind x) (bound nci) = {}")
    case True
    then have "resolve r c [x] s = raise (NotFound missing_node []) s"
      using balanced_none [OF ok assms(2) True] assms(3) same by (simp add: invoke_def)
    moreover have "nc_kind y \<noteq> nc_kind x" if "map_find y (table nci) = Some b" for y b
      using True that unfolding of_kind_def bound_def by fastforce
    ultimately show ?thesis by auto
  next
    case False
    then obtain y nci' b where y: "balanced r (approach s) x nci = Some (Inr y, nci')"
      "table nci' = table nci" "map_find y (table nci) = Some b" "nc_kind y = nc_kind x"
      using balanced_some [OF ok assms(2)] by blast
    have "resolve r c [x] s = Some (Inr (obj b), put_context c nci' s)"
      using y(1-3) assms(3) by (simp add: invoke_def)
    then show ?thesis using y(3,4) graph_of_same [OF assms(3) y(2)] by auto
  qed
qed

theorem balanced_resolve_witness:
  "\<exists>s'. resolve 0 Root [NameComponent '''' ''printer''] (new_root RANDOM) = Some (Inl (NotFound missing_node []), s')"
proof -
  have "servants (new_root RANDOM) Root = Some new_naming_context" "approach (new_root RANDOM) \<noteq> NONE"
    by (simp_all add: new_root_def)
  from balanced_resolve [OF reach_start this(2,1), of 0 "NameComponent '''' ''printer''"]
  obtain res s' where r: "resolve 0 Root [NameComponent '''' ''printer''] (new_root RANDOM) = Some (res, s')"
    "case res of Inl e \<Rightarrow> e = NotFound missing_node [] \<and> (\<forall>y b. map_find y (table new_naming_context) = Some b \<longrightarrow>
         nc_kind y \<noteq> nc_kind (NameComponent '''' ''printer''))
     | Inr ob \<Rightarrow> \<exists>y b. map_find y (table new_naming_context) = Some b \<and>
         nc_kind y = nc_kind (NameComponent '''' ''printer'') \<and> obj b = ob"
    by blast
  then show ?thesis by (cases res) (auto simp: new_naming_context_def map_find_def simp del: resolve.simps)
qed

section \<open>Listing and iterating\<close>

text \<open>Draining an iterator with \<open>next_n\<close>, or with \<open>next_one\<close>, until it returns FALSE.\<close>

fun drain :: "nat \<Rightarrow> ulong \<Rightarrow> binding_iterator \<Rightarrow> listed list" where
  "drain 0 m it = []"
| "drain (Suc fuel) m it =
     (case next_n m it of ((ok, bs), it) \<Rightarrow> if ok then bs @ drain fuel m it else [])"

fun drain_one :: "nat \<Rightarrow> binding_iterator \<Rightarrow> listed list" where
  "drain_one 0 it = []"
| "drain_one (Suc fuel) it =
     (case next_one it of ((ok, b), it) \<Rightarrow> if ok then b # drain_one fuel it else [])"

definition iterator_ok :: "binding_iterator \<Rightarrow> bool" where
  "iterator_ok it \<longleftrightarrow> length (blist it) < 4294967296 \<and> unat (idx it) \<le> length (blist it)"

lemma next_n_drop:
  assumes "iterator_ok it" and "m > 0"
  shows "let rest = drop (unat (idx it)) (blist it) in
     \<exists>it'. next_n m it = ((rest \<noteq> [], take (unat m) rest), it') \<and> iterator_ok it' \<and> blist it' = blist it \<and>
       drop (unat (idx it')) (blist it') = drop (unat m) rest"
proof -
  define l where "l = (word_of_nat (length (blist it)) :: ulong)"
  have l: "unat l = length (blist it)" "idx it \<le> l"
    using assms(1) by (simp_all add: l_def iterator_ok_def nowrap word_le_nat_alt)
  then have rlen: "unat (l - idx it) = length (blist it) - unat (idx it)" by (simp add: nowrap)
  define num where "num = (if m < l - idx it then m else l - idx it)"
  have num: "unat num = min (unat m) (length (blist it) - unat (idx it))"
    by (simp add: num_def rlen word_less_nat_alt min_def)
  have "unat (idx it) + unat num \<le> length (blist it)"
    using num assms(1) [unfolded iterator_ok_def] by (auto simp: min_def)
  then have "unat (idx it) + unat num < 4294967296"
    by (rule order.strict_trans1) (use assms(1) in \<open>simp add: iterator_ok_def\<close>)
  then have idx': "unat (idx it + num) = unat (idx it) + unat num" by (simp add: nowrap)
  have "0 < l - idx it \<longleftrightarrow> unat (idx it) < length (blist it)"
    using rlen by (simp add: word_less_nat_alt)
  moreover have "next_n m it = (if 0 < l - idx it
      then ((True, take (unat num) (drop (unat (idx it)) (blist it))), it\<lparr>idx := idx it + num\<rparr>) else ((False, []), it))"
    by (simp only: next_n_def Let_def l_def num_def)
  moreover have "num = 0" if "\<not> 0 < l - idx it"
    using that by (simp add: num_def word_less_nat_alt word_unat_eq_iff)
  moreover have "take (unat num) (drop (unat (idx it)) (blist it)) = take (unat m) (drop (unat (idx it)) (blist it))"
    by (simp add: num min_def)
  ultimately have "next_n m it = ((drop (unat (idx it)) (blist it) \<noteq> [], take (unat m) (drop (unat (idx it)) (blist it))),
      it\<lparr>idx := idx it + num\<rparr>)"
    by (cases it) auto
  moreover have "iterator_ok (it\<lparr>idx := idx it + num\<rparr>)"
    using assms(1) idx' \<open>unat (idx it) + unat num \<le> length (blist it)\<close> by (simp add: iterator_ok_def)
  moreover have "drop (unat (idx it + num)) (blist it) = drop (unat m) (drop (unat (idx it)) (blist it))"
    by (simp only: idx' drop_drop num min_def) (simp add: add.commute)
  ultimately show ?thesis by (simp add: Let_def)
qed

lemma drain_all:
  "iterator_ok it \<Longrightarrow> m > 0 \<Longrightarrow> length (drop (unat (idx it)) (blist it)) \<le> fuel \<Longrightarrow>
   drain fuel m it = drop (unat (idx it)) (blist it)"
proof (induction fuel arbitrary: it)
  case (Suc fuel)
  let ?r = "drop (unat (idx it)) (blist it)"
  obtain it' where it': "next_n m it = ((?r \<noteq> [], take (unat m) ?r), it')" "iterator_ok it'"
    "drop (unat (idx it')) (blist it') = drop (unat m) ?r"
    using next_n_drop [OF Suc.prems(1,2)] by (auto simp: Let_def)
  have "0 < unat m" using Suc.prems(2) by (simp add: word_less_nat_alt)
  then have "drain fuel m it' = drop (unat m) ?r"
    using Suc.IH [OF it'(2) Suc.prems(2)] Suc.prems(3) unfolding it'(3) by simp
  then show ?case using it'(1) by (simp add: append_take_drop_id [of "unat m" ?r] del: drop_drop)
qed simp

lemma next_one_is_next_n:
  assumes "iterator_ok it"
  shows "case next_one it of ((ok, b), it') \<Rightarrow> next_n 1 it = ((ok, if ok then [b] else []), it')"
proof -
  obtain it' where it': "next_n 1 it = ((drop (unat (idx it)) (blist it) \<noteq> [], take 1 (drop (unat (idx it)) (blist it))), it')"
    using next_n_drop [OF assms, of 1] by (auto simp: Let_def)
  show ?thesis
  proof (cases "unat (idx it) < length (blist it)")
    case True
    then have "idx it < word_of_nat (length (blist it))"
      using assms by (simp add: iterator_ok_def word_less_nat_alt nowrap)
    moreover have "take 1 (drop (unat (idx it)) (blist it)) = [blist it ! unat (idx it)]"
      using True by (simp add: take_Suc_conv_app_nth)
    moreover have "it' = it\<lparr>idx := idx it + 1\<rparr>"
    proof -
      have "(0 :: ulong) < word_of_nat (length (blist it)) - idx it"
        using True assms by (simp add: iterator_ok_def word_less_nat_alt nowrap word_le_nat_alt)
      then have "\<not> 1 < word_of_nat (length (blist it)) - idx it \<Longrightarrow> word_of_nat (length (blist it)) - idx it = (1 :: ulong)"
        by (simp add: word_less_nat_alt word_unat_eq_iff)
      then show ?thesis using it' \<open>0 < word_of_nat (length (blist it)) - idx it\<close>
        by (auto simp: next_n_def Let_def split: if_splits)
    qed
    ultimately show ?thesis using it' True by (simp add: next_one_def)
  next
    case False
    then have "idx it = word_of_nat (length (blist it))"
      using assms by (simp add: iterator_ok_def word_unat_eq_iff nowrap)
    then show ?thesis by (simp add: next_one_def next_n_def)
  qed
qed

lemma drain_one_drain: "iterator_ok it \<Longrightarrow> drain_one fuel it = drain fuel 1 it"
proof (induction fuel arbitrary: it)
  case (Suc fuel)
  obtain ok b it' where n: "next_one it = ((ok, b), it')" by (metis prod.collapse)
  then have "next_n 1 it = ((ok, if ok then [b] else []), it')"
    using next_one_is_next_n [OF Suc.prems] by simp
  moreover have "iterator_ok it'"
    using next_n_drop [OF Suc.prems, of 1] calculation by (auto simp: Let_def)
  ultimately show ?case using n Suc.IH by simp
qed simp

text \<open>Listing is complete. For any chunk size, what \<open>list\<close> returns directly together with what
  its iterator yields, drained by \<open>next_n\<close> of any size or by \<open>next_one\<close>, is every binding of the
  context exactly once, in key order; the direct part has the asked length if there are that many,
  and there is an iterator exactly when something is left.\<close>

theorem list_complete:
  assumes "naming_ok s" and "servants s c = Some nci" and "length (table nci) < 4294967295" and "m > 0"
  shows "\<exists>bl it. list_context c how_many s = Some (Inr (bl, it), s) \<and>
     length bl = min (unat how_many) (length (table nci)) \<and>
     (it = None \<longleftrightarrow> length (table nci) \<le> unat how_many) \<and>
     (let rest = case it of None \<Rightarrow> [] | Some it \<Rightarrow> drain (length (table nci)) m it in
        bl @ rest = map listed_of (table nci) \<and>
        rest = (case it of None \<Rightarrow> [] | Some it \<Rightarrow> drain_one (length (table nci)) it)) \<and>
     sorted_wrt (<) (map fst (table nci))"
proof -
  let ?t = "table nci" and ?h = "unat how_many"
  define num where "num = (if word_of_nat (length ?t) < how_many then word_of_nat (length ?t) else how_many)"
  have num: "unat num = min (length ?t) ?h"
    using assms(3) by (simp add: num_def word_less_nat_alt nowrap min_def)
  have sorted: "sorted_wrt (<) (map fst ?t)" using naming_okD(2) [OF assms(1,2)] by (simp add: map_ok_def)
  have bl: "map listed_of (take (unat num) ?t) = take ?h (map listed_of ?t)"
    by (simp add: num take_map min_def)
  show ?thesis
  proof (cases "?h < length ?t")
    case False
    then have "list_context c how_many s = Some (Inr (map listed_of (take (unat num) ?t), None), s)"
      using assms(2,3) by (simp add: list_context_def list_bindings_def invoke_def Let_def flip: num_def)
    then show ?thesis using False sorted num by (simp add: Let_def min_def)
  next
    case True
    let ?it = "\<lparr>idx = 0, blist = drop ?h (map listed_of ?t)\<rparr>"
    have rn: "unat (word_of_nat (length ?t - ?h) :: ulong) = length ?t - ?h" using assms(3) by (simp add: nowrap)
    have "list_context c how_many s = Some (Inr (map listed_of (take (unat num) ?t), Some ?it), s)"
      using assms(2,3) True num rn
      by (simp add: list_context_def list_bindings_def invoke_def Let_def drop_map flip: num_def)
    moreover have "iterator_ok ?it" using assms(3) by (simp add: iterator_ok_def)
    then have "drain (length ?t) m ?it = drop ?h (map listed_of ?t)"
      "drain_one (length ?t) ?it = drop ?h (map listed_of ?t)"
      using drain_all [of ?it m "length ?t"] drain_all [of ?it 1 "length ?t"] assms(4) drain_one_drain [of ?it] by simp_all
    ultimately show ?thesis using True sorted num bl by (simp add: Let_def min_def)
  qed
qed

theorem list_complete_witness:
  "list_context Root 5 (new_root NONE) = Some (Inr ([], None), new_root NONE)"
proof -
  have "servants (new_root NONE) Root = Some new_naming_context" by (simp add: new_root_def)
  from list_complete [OF new_root_ok this, of 1 5] show ?thesis
    by (auto simp: new_naming_context_def)
qed

end
