(* ===== verification/Property_Set.thy ===== *)
theory Property_Set
  imports Url_Text
begin

text \<open>
  The property service (coss/property/PropertyService_impl.cc): property sets with their
  constraints, and property sets with modes. A set is the vector of its definitions in the order
  they were made. A type code is compared with \<open>TypeCode::equal\<close> only, which is equality here. The
  outer option of a result is a failed assertion or an index outside the vector.
\<close>

section \<open>Data\<close>

type_synonym typecode = nat

datatype any = Any (any_type: typecode) (any_value: "octet list")

text \<open>A default \<open>CORBA::Any\<close> has the null type and no value.\<close>

definition new_any :: any where "new_any = Any 0 []"

datatype property_mode_type = normal | read_only | fixed_normal | fixed_readonly | undefined_mode

record property_def =
  property_name :: string
  property_value :: any
  property_mode :: property_mode_type

record property_set =
  mv_properties :: "property_def list"
  mv_allowed_property_types :: "typecode list"
  mv_allowed_properties :: "property_def list"

datatype property_exn =
    InvalidPropertyName | ConflictingProperty | PropertyNotFound | UnsupportedTypeCode
  | UnsupportedProperty | UnsupportedMode | FixedProperty | ReadOnlyProperty | ConstraintNotSupported
  | MultipleExceptions "(exception_reason \<times> string) list"
and exception_reason =
    invalid_property_name | conflicting_property | property_not_found | unsupported_type_code
  | unsupported_property | unsupported_mode | fixed_property | read_only_property

type_synonym 'a property_call = "property_set \<Rightarrow> ((property_exn + 'a) \<times> property_set) option"

abbreviation throw :: "property_exn \<Rightarrow> 'a property_call" where
  "throw e s \<equiv> Some (Inl e, s)"

abbreviation done_with :: "'a \<Rightarrow> 'a property_call" where
  "done_with x s \<equiv> Some (Inr x, s)"

section \<open>Protected methods\<close>

definition get_number_of_properties :: "property_set \<Rightarrow> ulong" where
  "get_number_of_properties s = word_of_nat (length (mv_properties s))"

fun index_of :: "string \<Rightarrow> property_def list \<Rightarrow> nat option" where
  "index_of n [] = None"
| "index_of n (p # ps) = (if property_name p = n then Some 0 else map_option Suc (index_of n ps))"

text \<open>The count is a \<open>UShort\<close>, so the search covers the number of properties modulo 65536.\<close>

definition get_index :: "string \<Rightarrow> property_set \<Rightarrow> nat option" where
  "get_index n s =
     (let m = ucast (get_number_of_properties s) :: ushort
      in index_of n (take (unat m) (mv_properties s)))"

definition property_at :: "nat \<Rightarrow> property_set \<Rightarrow> property_def option" where
  "property_at idx s = (if idx < length (mv_properties s) then Some (mv_properties s ! idx) else None)"

definition is_property_name_valid :: "string \<Rightarrow> bool" where
  "is_property_name_valid n \<longleftrightarrow> n \<noteq> []"

definition is_property_type_allowed :: "typecode \<Rightarrow> property_set \<Rightarrow> bool" where
  "is_property_type_allowed t s \<longleftrightarrow>
     mv_allowed_property_types s = [] \<or> list_ex (\<lambda>a. t = a) (mv_allowed_property_types s)"

definition is_property_allowed :: "string \<Rightarrow> any \<Rightarrow> property_mode_type \<Rightarrow> property_set \<Rightarrow> bool" where
  "is_property_allowed n v m s \<longleftrightarrow>
     mv_allowed_properties s = [] \<or>
     list_ex (\<lambda>a. n = property_name a \<and> any_type v = any_type (property_value a) \<and>
        (property_mode a = m \<or> property_mode a = undefined_mode)) (mv_allowed_properties s)"

definition is_readonly :: "property_def \<Rightarrow> bool" where
  "is_readonly p \<longleftrightarrow> property_mode p = read_only \<or> property_mode p = fixed_readonly"

definition is_fixed :: "property_def \<Rightarrow> bool" where
  "is_fixed p \<longleftrightarrow> property_mode p = fixed_normal \<or> property_mode p = fixed_readonly"

definition def_prop :: "string \<Rightarrow> any \<Rightarrow> property_mode_type \<Rightarrow> unit property_call" where
  "def_prop n v m s =
     (if \<not> is_property_name_valid n then throw InvalidPropertyName s
      else if \<not> is_property_type_allowed (any_type v) s then throw UnsupportedTypeCode s
      else if \<not> is_property_allowed n v m s then throw UnsupportedProperty s
      else case get_index n s of
        Some idx \<Rightarrow> do {
          p \<leftarrow> property_at idx s;
          if is_readonly p then throw ReadOnlyProperty s
          else if any_type (property_value p) \<noteq> any_type v then throw ConflictingProperty s
          else done_with () (s\<lparr>mv_properties := (mv_properties s)[idx := p\<lparr>property_value := v\<rparr>]\<rparr>)
        }
      | None \<Rightarrow> done_with () (s\<lparr>mv_properties := mv_properties s @
           [\<lparr>property_name = n, property_value = v, property_mode = m\<rparr>]\<rparr>))"

text \<open>\<open>MULTIPLE_EXCEPTIONS_CATCH\<close>: the exceptions it catches, and the loops that collect them.\<close>

fun reason_of :: "property_exn \<Rightarrow> exception_reason option" where
  "reason_of InvalidPropertyName = Some invalid_property_name"
| "reason_of ConflictingProperty = Some conflicting_property"
| "reason_of PropertyNotFound = Some property_not_found"
| "reason_of UnsupportedTypeCode = Some unsupported_type_code"
| "reason_of UnsupportedProperty = Some unsupported_property"
| "reason_of UnsupportedMode = Some unsupported_mode"
| "reason_of FixedProperty = Some fixed_property"
| "reason_of ReadOnlyProperty = Some read_only_property"
| "reason_of _ = None"

fun collect_loop ::
    "('i \<Rightarrow> unit property_call) \<Rightarrow> ('i \<Rightarrow> string) \<Rightarrow> 'i list \<Rightarrow> (exception_reason \<times> string) list \<Rightarrow> unit property_call" where
  "collect_loop f name [] exns s = (if exns \<noteq> [] then throw (MultipleExceptions exns) s else done_with () s)"
| "collect_loop f name (i # is) exns s = do {
     (r, s) \<leftarrow> f i s;
     case r of
       Inr _ \<Rightarrow> collect_loop f name is exns s
     | Inl e \<Rightarrow> (case reason_of e of
         Some why \<Rightarrow> collect_loop f name is (exns @ [(why, name i)]) s
       | None \<Rightarrow> throw e s)
   }"

definition collect :: "('i \<Rightarrow> unit property_call) \<Rightarrow> ('i \<Rightarrow> string) \<Rightarrow> 'i list \<Rightarrow> unit property_call" where
  "collect f name is s = do { require (is \<noteq> []); collect_loop f name is [] s }"

definition def_props :: "(string \<times> any) list \<Rightarrow> property_mode_type \<Rightarrow> unit property_call" where
  "def_props ps m = collect (\<lambda>(n, v). def_prop n v m) fst ps"

section \<open>\<open>PropertySet\<close>\<close>

definition define_property :: "string \<Rightarrow> any \<Rightarrow> unit property_call" where
  "define_property n v = def_prop n v normal"

definition define_properties :: "(string \<times> any) list \<Rightarrow> unit property_call" where
  "define_properties ps = def_props ps normal"

definition get_property_value :: "string \<Rightarrow> any property_call" where
  "get_property_value n s =
     (if \<not> is_property_name_valid n then throw InvalidPropertyName s
      else case get_index n s of
        Some idx \<Rightarrow> do { p \<leftarrow> property_at idx s; done_with (property_value p) s }
      | None \<Rightarrow> throw PropertyNotFound s)"

fun get_loop :: "string list \<Rightarrow> (string \<times> any) list \<Rightarrow> bool \<Rightarrow> property_set \<Rightarrow> (bool \<times> (string \<times> any) list) option" where
  "get_loop [] acc stat s = Some (stat, acc)"
| "get_loop (n # ns) acc stat s = do {
     (r, _) \<leftarrow> get_property_value n s;
     case r of
       Inr v \<Rightarrow> get_loop ns (acc @ [(n, v)]) stat s
     | Inl _ \<Rightarrow> get_loop ns (acc @ [(n, new_any)]) False s
   }"

definition get_properties :: "string list \<Rightarrow> (bool \<times> (string \<times> any) list) property_call" where
  "get_properties ns s = do {
     require (ns \<noteq> []);
     res \<leftarrow> get_loop ns [] True s;
     done_with res s
   }"

definition delete_property :: "string \<Rightarrow> unit property_call" where
  "delete_property n s =
     (if \<not> is_property_name_valid n then throw InvalidPropertyName s
      else case get_index n s of
        Some idx \<Rightarrow> do {
          p \<leftarrow> property_at idx s;
          if is_fixed p then throw FixedProperty s
          else done_with () (s\<lparr>mv_properties := take idx (mv_properties s) @ drop (idx + 1) (mv_properties s)\<rparr>)
        }
      | None \<Rightarrow> throw PropertyNotFound s)"

definition delete_properties :: "string list \<Rightarrow> unit property_call" where
  "delete_properties ns = collect delete_property id ns"

text \<open>The loop runs from the last index down; \<open>k\<close> is the index after the next one.\<close>

fun delete_all_loop :: "nat \<Rightarrow> bool \<Rightarrow> bool property_call" where
  "delete_all_loop 0 success s = done_with success s"
| "delete_all_loop (Suc idx) success s = do {
     p \<leftarrow> property_at idx s;
     if \<not> is_fixed p
     then delete_all_loop idx success
            (s\<lparr>mv_properties := take idx (mv_properties s) @ drop (idx + 1) (mv_properties s)\<rparr>)
     else delete_all_loop idx False s
   }"

definition delete_all_properties :: "bool property_call" where
  "delete_all_properties s =
     (let idx = sint (get_number_of_properties s - 1)
      in delete_all_loop (nat (idx + 1)) True s)"

definition is_property_defined :: "string \<Rightarrow> bool property_call" where
  "is_property_defined n s =
     (if \<not> is_property_name_valid n then throw InvalidPropertyName s
      else done_with (get_index n s \<noteq> None) s)"

section \<open>\<open>PropertySetDef\<close>\<close>

definition get_allowed_property_types :: "typecode list property_call" where
  "get_allowed_property_types s = done_with (mv_allowed_property_types s) s"

definition get_allowed_properties :: "property_def list property_call" where
  "get_allowed_properties s = done_with (mv_allowed_properties s) s"

definition define_property_with_mode :: "string \<Rightarrow> any \<Rightarrow> property_mode_type \<Rightarrow> unit property_call" where
  "define_property_with_mode n v m s =
     (if m = undefined_mode then throw UnsupportedMode s else def_prop n v m s)"

definition define_properties_with_modes :: "property_def list \<Rightarrow> unit property_call" where
  "define_properties_with_modes ps =
     collect (\<lambda>p. define_property_with_mode (property_name p) (property_value p) (property_mode p)) property_name ps"

definition get_property_mode :: "string \<Rightarrow> property_mode_type property_call" where
  "get_property_mode n s =
     (if \<not> is_property_name_valid n then throw InvalidPropertyName s
      else case get_index n s of
        Some idx \<Rightarrow> do { p \<leftarrow> property_at idx s; done_with (property_mode p) s }
      | None \<Rightarrow> throw PropertyNotFound s)"

fun modes_loop ::
    "string list \<Rightarrow> (string \<times> property_mode_type) list \<Rightarrow> bool \<Rightarrow> property_set \<Rightarrow>
     (bool \<times> (string \<times> property_mode_type) list) option" where
  "modes_loop [] acc stat s = Some (stat, acc)"
| "modes_loop (n # ns) acc stat s = do {
     (r, _) \<leftarrow> get_property_mode n s;
     case r of
       Inr m \<Rightarrow> modes_loop ns (acc @ [(n, m)]) stat s
     | Inl _ \<Rightarrow> modes_loop ns (acc @ [(n, undefined_mode)]) False s
   }"

definition get_property_modes :: "string list \<Rightarrow> (bool \<times> (string \<times> property_mode_type) list) property_call" where
  "get_property_modes ns s = do {
     require (ns \<noteq> []);
     res \<leftarrow> modes_loop ns [] True s;
     done_with res s
   }"

definition set_property_mode :: "string \<Rightarrow> property_mode_type \<Rightarrow> unit property_call" where
  "set_property_mode n m s =
     (if \<not> is_property_name_valid n then throw InvalidPropertyName s
      else if m = undefined_mode then throw UnsupportedMode s
      else case get_index n s of
        None \<Rightarrow> throw PropertyNotFound s
      | Some idx \<Rightarrow> do {
          p \<leftarrow> property_at idx s;
          if \<not> is_property_allowed n (property_value p) m s then throw UnsupportedMode s
          else done_with () (s\<lparr>mv_properties := (mv_properties s)[idx := p\<lparr>property_mode := m\<rparr>]\<rparr>)
        })"

definition set_property_modes :: "(string \<times> property_mode_type) list \<Rightarrow> unit property_call" where
  "set_property_modes ms = collect (\<lambda>(n, m). set_property_mode n m) fst ms"

section \<open>Factories\<close>

definition new_property_set :: property_set where
  "new_property_set = \<lparr>mv_properties = [], mv_allowed_property_types = [], mv_allowed_properties = []\<rparr>"

text \<open>
  The constraint loop of the two constructors; \<open>md\<close> is the mode an allowed property is stored
  with, \<open>undefined\<close> for a plain set and its own for a set with modes.
\<close>

fun constrain_loop ::
    "(property_def \<Rightarrow> property_mode_type) \<Rightarrow> property_def list \<Rightarrow> property_set \<Rightarrow> property_exn + property_set" where
  "constrain_loop md [] s = Inr s"
| "constrain_loop md (a # as) s =
     (if \<not> is_property_name_valid (property_name a) then Inl InvalidPropertyName
      else if \<not> is_property_type_allowed (any_type (property_value a)) s then Inl UnsupportedTypeCode
      else constrain_loop md as (s\<lparr>mv_allowed_properties := mv_allowed_properties s @
             [\<lparr>property_name = property_name a, property_value = property_value a, property_mode = md a\<rparr>]\<rparr>))"

definition create_constrained ::
    "(property_def \<Rightarrow> property_mode_type) \<Rightarrow> typecode list \<Rightarrow> property_def list \<Rightarrow> property_exn + property_set" where
  "create_constrained md types as =
     (case constrain_loop md as (new_property_set\<lparr>mv_allowed_property_types := types\<rparr>) of
        Inl _ \<Rightarrow> Inl ConstraintNotSupported | Inr s \<Rightarrow> Inr s)"

definition create_constrained_propertyset :: "typecode list \<Rightarrow> (string \<times> any) list \<Rightarrow> property_exn + property_set" where
  "create_constrained_propertyset types as = create_constrained (\<lambda>_. undefined_mode) types
     (map (\<lambda>(n, v). \<lparr>property_name = n, property_value = v, property_mode = undefined_mode\<rparr>) as)"

definition create_constrained_propertysetdef :: "typecode list \<Rightarrow> property_def list \<Rightarrow> property_exn + property_set" where
  "create_constrained_propertysetdef types as = create_constrained property_mode types as"

definition created :: "((property_exn + unit) \<times> property_set) option \<Rightarrow> (property_exn + property_set) option" where
  "created r = map_option (\<lambda>(r, s). case r of Inl e \<Rightarrow> Inl e | Inr _ \<Rightarrow> Inr s) r"

definition create_initial_propertyset :: "(string \<times> any) list \<Rightarrow> (property_exn + property_set) option" where
  "create_initial_propertyset ps = created (def_props ps fixed_normal new_property_set)"

definition create_initial_propertysetdef :: "property_def list \<Rightarrow> (property_exn + property_set) option" where
  "create_initial_propertysetdef ps = created (define_properties_with_modes ps new_property_set)"

section \<open>A property set as a map from names\<close>

definition names :: "property_set \<Rightarrow> string list" where
  "names s = map property_name (mv_properties s)"

definition pmap :: "property_set \<Rightarrow> string \<Rightarrow> property_def option" where
  "pmap s = map_of (map (\<lambda>p. (property_name p, p)) (mv_properties s))"

text \<open>Well-formed: names are valid and distinct, the constraints hold, and the count fits a \<open>UShort\<close>.\<close>

definition satisfies :: "property_set \<Rightarrow> property_def \<Rightarrow> bool" where
  "satisfies s p \<longleftrightarrow> is_property_name_valid (property_name p) \<and>
     is_property_type_allowed (any_type (property_value p)) s \<and>
     is_property_allowed (property_name p) (property_value p) (property_mode p) s"

definition pset_ok :: "property_set \<Rightarrow> bool" where
  "pset_ok s \<longleftrightarrow> distinct (names s) \<and> list_all (satisfies s) (mv_properties s) \<and> length (mv_properties s) < 65536"

lemma index_of_Some:
  "index_of n ps = Some i \<Longrightarrow> i < length ps \<and> property_name (ps ! i) = n \<and>
     map_of (map (\<lambda>p. (property_name p, p)) ps) n = Some (ps ! i)"
  by (induction ps arbitrary: i) (auto split: if_splits)

lemma index_of_None:
  "index_of n ps = None \<longleftrightarrow> n \<notin> property_name ` set ps"
  by (induction ps) (auto split: if_splits)

lemma get_index_eq:
  assumes "length (mv_properties s) < 65536"
  shows "get_index n s = index_of n (mv_properties s)"
proof -
  have "unat (ucast (word_of_nat (length (mv_properties s)) :: ulong) :: ushort) = length (mv_properties s)"
    using assms by (simp add: unsigned_ucast_eq unat_of_nat take_bit_eq_mod)
  then show ?thesis by (simp add: get_index_def get_number_of_properties_def Let_def)
qed

lemma get_index_cases:
  assumes "pset_ok s"
  obtains "get_index n s = None" and "pmap s n = None" and "n \<notin> set (names s)"
  | i p where "get_index n s = Some i" and "pmap s n = Some p" and "property_at i s = Some p"
      and "i < length (mv_properties s)" and "mv_properties s ! i = p" and "property_name p = n"
proof -
  have e: "get_index n s = index_of n (mv_properties s)" using assms get_index_eq by (simp add: pset_ok_def)
  show thesis
  proof (cases "get_index n s")
    case None
    then have "n \<notin> set (names s)" using index_of_None [of n "mv_properties s"] by (auto simp: e names_def)
    moreover from this have "pmap s n = None"
      by (auto simp: pmap_def names_def map_of_eq_None_iff)
    ultimately show thesis using that(1) None by blast
  next
    case (Some i)
    then show thesis using that(2) index_of_Some [of n "mv_properties s" i]
      by (auto simp: e pmap_def property_at_def)
  qed
qed

lemma pmap_update:
  "distinct (map property_name ps) \<Longrightarrow> i < length ps \<Longrightarrow> property_name q = property_name (ps ! i) \<Longrightarrow>
   map_of (map (\<lambda>p. (property_name p, p)) (ps[i := q])) =
     (map_of (map (\<lambda>p. (property_name p, p)) ps))(property_name q \<mapsto> q)"
proof (induction ps arbitrary: i)
  case (Cons p ps)
  show ?case
  proof (cases i)
    case 0
    then show ?thesis using Cons.prems by (auto simp: fun_eq_iff)
  next
    case (Suc j)
    then have "property_name (ps ! j) \<in> property_name ` set ps" using Cons.prems by simp
    then have "property_name (ps ! j) \<noteq> property_name p" using Cons.prems by auto
    then show ?thesis using Suc Cons by (auto simp: fun_eq_iff)
  qed
qed simp

lemma pmap_delete:
  "distinct (map property_name ps) \<Longrightarrow> i < length ps \<Longrightarrow>
   map_of (map (\<lambda>p. (property_name p, p)) (take i ps @ drop (Suc i) ps)) =
     (map_of (map (\<lambda>p. (property_name p, p)) ps))(property_name (ps ! i) := None)"
proof (induction ps arbitrary: i)
  case (Cons p ps)
  show ?case
  proof (cases i)
    case 0
    have "map_of (map (\<lambda>p. (property_name p, p)) ps) (property_name p) = None"
      using Cons.prems by (simp add: map_of_eq_None_iff image_image)
    then show ?thesis using 0 by (auto simp: fun_eq_iff)
  next
    case (Suc j)
    then have "property_name (ps ! j) \<in> property_name ` set ps" using Cons.prems by simp
    then have "property_name (ps ! j) \<noteq> property_name p" using Cons.prems by auto
    then show ?thesis using Suc Cons by (auto simp: fun_eq_iff)
  qed
qed simp

lemma pmap_append:
  "property_name q \<notin> property_name ` set ps \<Longrightarrow>
   map_of (map (\<lambda>p. (property_name p, p)) (ps @ [q])) =
     (map_of (map (\<lambda>p. (property_name p, p)) ps))(property_name q \<mapsto> q)"
  by (induction ps) (auto simp: fun_eq_iff)

section \<open>Every operation keeps property sets well-formed\<close>

lemma satisfies_cong:
  "mv_allowed_property_types t = mv_allowed_property_types s \<Longrightarrow> mv_allowed_properties t = mv_allowed_properties s \<Longrightarrow>
   satisfies t = satisfies s"
  by (auto simp: satisfies_def is_property_type_allowed_def is_property_allowed_def fun_eq_iff)

lemma satisfies_mv [simp]: "satisfies (s\<lparr>mv_properties := ps\<rparr>) = satisfies s"
  by (rule satisfies_cong) simp_all

lemma pset_ok_update:
  assumes "pset_ok s" and "i < length (mv_properties s)" and "satisfies s q"
    and "property_name q = property_name (mv_properties s ! i)"
  shows "pset_ok (s\<lparr>mv_properties := (mv_properties s)[i := q]\<rparr>)"
    and "pmap (s\<lparr>mv_properties := (mv_properties s)[i := q]\<rparr>) = (pmap s)(property_name q \<mapsto> q)"
proof -
  have "names (s\<lparr>mv_properties := (mv_properties s)[i := q]\<rparr>) = names s"
    using assms(2,4) by (simp add: names_def map_update list_update_same_conv)
  then show "pset_ok (s\<lparr>mv_properties := (mv_properties s)[i := q]\<rparr>)"
    using assms by (auto simp: pset_ok_def list_all_iff dest!: set_update_subset_insert [THEN subsetD])
  show "pmap (s\<lparr>mv_properties := (mv_properties s)[i := q]\<rparr>) = (pmap s)(property_name q \<mapsto> q)"
    using pmap_update [OF _ assms(2,4)] assms(1) by (simp add: pset_ok_def names_def pmap_def)
qed

lemma pset_ok_append:
  assumes "pset_ok s" and "length (mv_properties s) < 65535" and "satisfies s q" and "property_name q \<notin> set (names s)"
  shows "pset_ok (s\<lparr>mv_properties := mv_properties s @ [q]\<rparr>)"
    and "pmap (s\<lparr>mv_properties := mv_properties s @ [q]\<rparr>) = (pmap s)(property_name q \<mapsto> q)"
  using assms pmap_append [of q "mv_properties s"] by (auto simp: pset_ok_def names_def pmap_def)

lemma pset_ok_delete:
  assumes "pset_ok s" and "i < length (mv_properties s)"
  shows "pset_ok (s\<lparr>mv_properties := take i (mv_properties s) @ drop (Suc i) (mv_properties s)\<rparr>)"
    and "pmap (s\<lparr>mv_properties := take i (mv_properties s) @ drop (Suc i) (mv_properties s)\<rparr>) =
       (pmap s)(property_name (mv_properties s ! i) := None)"
proof -
  have "mv_properties s = take i (mv_properties s) @ mv_properties s ! i # drop (Suc i) (mv_properties s)"
    using assms(2) by (rule id_take_nth_drop)
  then obtain xs x ys where d: "mv_properties s = xs @ x # ys" "take i (mv_properties s) = xs"
    "drop (Suc i) (mv_properties s) = ys" by metis
  show "pset_ok (s\<lparr>mv_properties := take i (mv_properties s) @ drop (Suc i) (mv_properties s)\<rparr>)"
    using assms(1) unfolding d(2,3) by (auto simp: pset_ok_def names_def d(1))
  show "pmap (s\<lparr>mv_properties := take i (mv_properties s) @ drop (Suc i) (mv_properties s)\<rparr>) =
       (pmap s)(property_name (mv_properties s ! i) := None)"
    using pmap_delete [OF _ assms(2)] assms(1) by (simp add: pset_ok_def names_def pmap_def)
qed

section \<open>The operations on the map\<close>

text \<open>
  What a client sees: the operations as operations on a map from names to definitions. The set \<open>c\<close>
  gives the constraints.
\<close>

type_synonym properties = "string \<Rightarrow> property_def option"

definition map_def_prop :: "property_set \<Rightarrow> string \<Rightarrow> any \<Rightarrow> property_mode_type \<Rightarrow> properties \<Rightarrow> (property_exn + unit) \<times> properties" where
  "map_def_prop c n v m ps =
     (if n = [] then (Inl InvalidPropertyName, ps)
      else if \<not> is_property_type_allowed (any_type v) c then (Inl UnsupportedTypeCode, ps)
      else if \<not> is_property_allowed n v m c then (Inl UnsupportedProperty, ps)
      else case ps n of
        None \<Rightarrow> (Inr (), ps(n \<mapsto> \<lparr>property_name = n, property_value = v, property_mode = m\<rparr>))
      | Some p \<Rightarrow>
          if is_readonly p then (Inl ReadOnlyProperty, ps)
          else if any_type (property_value p) \<noteq> any_type v then (Inl ConflictingProperty, ps)
          else (Inr (), ps(n \<mapsto> p\<lparr>property_value := v\<rparr>)))"

definition map_look :: "(property_def \<Rightarrow> 'a) \<Rightarrow> string \<Rightarrow> properties \<Rightarrow> (property_exn + 'a) \<times> properties" where
  "map_look f n ps =
     (if n = [] then (Inl InvalidPropertyName, ps)
      else case ps n of None \<Rightarrow> (Inl PropertyNotFound, ps) | Some p \<Rightarrow> (Inr (f p), ps))"

definition map_delete :: "string \<Rightarrow> properties \<Rightarrow> (property_exn + unit) \<times> properties" where
  "map_delete n ps =
     (if n = [] then (Inl InvalidPropertyName, ps)
      else case ps n of None \<Rightarrow> (Inl PropertyNotFound, ps) | Some p \<Rightarrow>
        if is_fixed p then (Inl FixedProperty, ps) else (Inr (), ps(n := None)))"

definition map_set_mode :: "property_set \<Rightarrow> string \<Rightarrow> property_mode_type \<Rightarrow> properties \<Rightarrow> (property_exn + unit) \<times> properties" where
  "map_set_mode c n m ps =
     (if n = [] then (Inl InvalidPropertyName, ps)
      else if m = undefined_mode then (Inl UnsupportedMode, ps)
      else case ps n of None \<Rightarrow> (Inl PropertyNotFound, ps) | Some p \<Rightarrow>
        if \<not> is_property_allowed n (property_value p) m c then (Inl UnsupportedMode, ps)
        else (Inr (), ps(n \<mapsto> p\<lparr>property_mode := m\<rparr>)))"

definition seen :: "((property_exn + 'a) \<times> property_set) option \<Rightarrow> ((property_exn + 'a) \<times> properties) option" where
  "seen = map_option (\<lambda>(r, s). (r, pmap s))"

lemma seen_simps [simp]: "seen None = None" "seen (Some (r, s)) = Some (r, pmap s)"
  by (simp_all add: seen_def)

text \<open>A step from a well-formed set to a well-formed set with the same constraints, and with an
  exception of those that are collected, if any, only when nothing has changed.\<close>

definition clean :: "property_set \<Rightarrow> ((property_exn + 'a) \<times> property_set) option \<Rightarrow> bool" where
  "clean s m \<longleftrightarrow> (\<exists>r s'. m = Some (r, s') \<and> pset_ok s' \<and>
     mv_allowed_property_types s' = mv_allowed_property_types s \<and> mv_allowed_properties s' = mv_allowed_properties s \<and>
     length (mv_properties s') \<le> length (mv_properties s) + 1 \<and>
     (case r of Inl e \<Rightarrow> s' = s \<and> reason_of e \<noteq> None | Inr _ \<Rightarrow> True))"

lemma clean_throw: "pset_ok s \<Longrightarrow> reason_of e \<noteq> None \<Longrightarrow> clean s (Some (Inl e, s))"
  by (simp add: clean_def)

lemma clean_same: "pset_ok s \<Longrightarrow> clean s (Some (Inr x, s))"
  by (simp add: clean_def)

lemma member_satisfies:
  assumes "pset_ok s" and "i < length (mv_properties s)"
  shows "satisfies s (mv_properties s ! i)"
  using assms by (simp add: pset_ok_def list_all_length)

lemma def_prop_map:
  assumes ok: "pset_ok s" and room: "length (mv_properties s) < 65535"
  shows "clean s (def_prop n v m s)" and "seen (def_prop n v m s) = Some (map_def_prop s n v m (pmap s))"
proof -
  have "clean s (def_prop n v m s) \<and> seen (def_prop n v m s) = Some (map_def_prop s n v m (pmap s))"
  proof (cases "n = [] \<or> \<not> is_property_type_allowed (any_type v) s \<or> \<not> is_property_allowed n v m s")
    case True
    then show ?thesis using ok
      by (auto simp: def_prop_def map_def_prop_def is_property_name_valid_def intro: clean_throw)
  next
    case valid: False
    show ?thesis
    proof (rule get_index_cases [OF ok, of n])
      assume n: "get_index n s = None" "pmap s n = None" "n \<notin> set (names s)"
      let ?q = "\<lparr>property_name = n, property_value = v, property_mode = m\<rparr>"
      have q: "satisfies s ?q" "property_name ?q \<notin> set (names s)"
        using valid n(3) by (simp_all add: satisfies_def is_property_name_valid_def)
      show ?thesis using valid n pset_ok_append [OF ok room q]
        by (simp add: def_prop_def map_def_prop_def is_property_name_valid_def clean_def)
    next
      fix i p
      assume p: "get_index n s = Some i" "pmap s n = Some p" "property_at i s = Some p"
        "i < length (mv_properties s)" "mv_properties s ! i = p" "property_name p = n"
      show ?thesis
      proof (cases "is_readonly p \<or> any_type (property_value p) \<noteq> any_type v")
        case True
        then show ?thesis using valid p ok
          by (auto simp: def_prop_def map_def_prop_def is_property_name_valid_def intro: clean_throw)
      next
        case False
        have "satisfies s p" using member_satisfies [OF ok p(4)] p(5) by simp
        then have q: "satisfies s (p\<lparr>property_value := v\<rparr>)"
          using False by (simp add: satisfies_def is_property_allowed_def)
        show ?thesis using valid p False pset_ok_update [OF ok p(4) q]
          by (simp add: def_prop_def map_def_prop_def is_property_name_valid_def clean_def)
      qed
    qed
  qed
  then show "clean s (def_prop n v m s)" "seen (def_prop n v m s) = Some (map_def_prop s n v m (pmap s))" by auto
qed

lemma delete_property_map:
  assumes ok: "pset_ok s"
  shows "clean s (delete_property n s)" and "seen (delete_property n s) = Some (map_delete n (pmap s))"
proof -
  have "clean s (delete_property n s) \<and> seen (delete_property n s) = Some (map_delete n (pmap s))"
  proof (rule get_index_cases [OF ok, of n])
    assume "get_index n s = None" "pmap s n = None"
    then show ?thesis using ok
      by (auto simp: delete_property_def map_delete_def is_property_name_valid_def intro: clean_throw)
  next
    fix i p
    assume p: "get_index n s = Some i" "pmap s n = Some p" "property_at i s = Some p"
      "i < length (mv_properties s)" "mv_properties s ! i = p" "property_name p = n"
    then show ?thesis using ok pset_ok_delete [OF ok p(4)]
      by (auto simp: delete_property_def map_delete_def is_property_name_valid_def clean_def)
  qed
  then show "clean s (delete_property n s)" "seen (delete_property n s) = Some (map_delete n (pmap s))" by auto
qed

lemma set_property_mode_map:
  assumes ok: "pset_ok s"
  shows "clean s (set_property_mode n m s)" and "seen (set_property_mode n m s) = Some (map_set_mode s n m (pmap s))"
proof -
  have "clean s (set_property_mode n m s) \<and> seen (set_property_mode n m s) = Some (map_set_mode s n m (pmap s))"
  proof (rule get_index_cases [OF ok, of n])
    assume "get_index n s = None" "pmap s n = None"
    then show ?thesis using ok
      by (auto simp: set_property_mode_def map_set_mode_def is_property_name_valid_def intro: clean_throw)
  next
    fix i p
    assume p: "get_index n s = Some i" "pmap s n = Some p" "property_at i s = Some p"
      "i < length (mv_properties s)" "mv_properties s ! i = p" "property_name p = n"
    show ?thesis
    proof (cases "n = [] \<or> m = undefined_mode \<or> \<not> is_property_allowed n (property_value p) m s")
      case True
      then show ?thesis using ok p
        by (auto simp: set_property_mode_def map_set_mode_def is_property_name_valid_def intro: clean_throw)
    next
      case False
      have "satisfies s p" using member_satisfies [OF ok p(4)] p(5) by simp
      then have q: "satisfies s (p\<lparr>property_mode := m\<rparr>)"
        using False p(6) by (simp add: satisfies_def)
      show ?thesis using False p pset_ok_update [OF ok p(4) q]
        by (simp add: set_property_mode_def map_set_mode_def is_property_name_valid_def clean_def)
    qed
  qed
  then show "clean s (set_property_mode n m s)" "seen (set_property_mode n m s) = Some (map_set_mode s n m (pmap s))" by auto
qed

lemma look_map:
  assumes ok: "pset_ok s"
  shows "get_property_value n s = Some (fst (map_look property_value n (pmap s)), s)"
    and "get_property_mode n s = Some (fst (map_look property_mode n (pmap s)), s)"
    and "is_property_defined n s = Some (if n = [] then Inl InvalidPropertyName else Inr (pmap s n \<noteq> None), s)"
  by (rule get_index_cases [OF ok, of n];
      auto simp: get_property_value_def get_property_mode_def is_property_defined_def map_look_def is_property_name_valid_def)+

end
