(* ===== verification/Property_Service.thy ===== *)
theory Property_Service
  imports Property_Set
begin

text \<open>
  What property sets promise. The four operations that work through a list and report every
  failure in one exception share an interface, the locale \<open>collected_call\<close>, and are interpreted on
  the single operations. The iterators of coss/property/PropertyService_impl.cc follow, with what
  they yield and where they stop the server.
\<close>

section \<open>Operations on many properties\<close>

text \<open>The single operations one after the other, with all their results.\<close>

fun run_each :: "('i \<Rightarrow> unit property_call) \<Rightarrow> 'i list \<Rightarrow> property_set \<Rightarrow> ((property_exn + unit) list \<times> property_set) option" where
  "run_each f [] s = Some ([], s)"
| "run_each f (i # is) s = do {
     (r, s) \<leftarrow> f i s;
     (rs, s) \<leftarrow> run_each f is s;
     Some (r # rs, s)
   }"

definition failures :: "('i \<Rightarrow> string) \<Rightarrow> ('i \<times> (property_exn + unit)) list \<Rightarrow> (exception_reason \<times> string) list" where
  "failures name irs =
     concat (map (\<lambda>(i, r). case r of Inl e \<Rightarrow> [(the (reason_of e), name i)] | Inr _ \<Rightarrow> []) irs)"

definition outcome :: "(exception_reason \<times> string) list \<Rightarrow> property_exn + unit" where
  "outcome exns = (if exns = [] then Inr () else Inl (MultipleExceptions exns))"

definition same_constraints :: "property_set \<Rightarrow> property_set \<Rightarrow> bool" where
  "same_constraints s s' \<longleftrightarrow> mv_allowed_property_types s' = mv_allowed_property_types s \<and>
     mv_allowed_properties s' = mv_allowed_properties s"

lemma clean_step: "clean s m \<Longrightarrow> m = Some (r, s') \<Longrightarrow> pset_ok s' \<and> same_constraints s s'"
  by (auto simp: clean_def same_constraints_def)

text \<open>
  A call that may be collected: it adds at most \<open>growth\<close> properties and, when there is room for
  them, it either succeeds or fails with an exception that is collected and changes nothing.
\<close>

locale collected_call =
  fixes call :: "'i \<Rightarrow> unit property_call" and growth :: nat
  assumes call_clean: "pset_ok s \<Longrightarrow> length (mv_properties s) + growth < 65536 \<Longrightarrow> clean s (call i s)"
    and call_growth: "call i s = Some (r, s') \<Longrightarrow> length (mv_properties s') \<le> length (mv_properties s) + growth"
begin

lemma collect_loop_all:
  assumes "pset_ok s" and "length (mv_properties s) + growth * length is < 65536"
  shows "\<exists>rs s'. run_each call is s = Some (rs, s') \<and> length rs = length is \<and> pset_ok s' \<and> same_constraints s s' \<and>
     collect_loop call name is exns s = Some (outcome (exns @ failures name (zip is rs)), s')"
  using assms
proof (induction "is" arbitrary: s exns)
  case (Cons i "is")
  have room: "length (mv_properties s) + growth < 65536" using Cons.prems(2) by simp
  have clean: "clean s (call i s)" by (rule call_clean [OF Cons.prems(1) room])
  then obtain r s1 where r: "call i s = Some (r, s1)"
    and e: "case r of Inl e \<Rightarrow> s1 = s \<and> reason_of e \<noteq> None | Inr _ \<Rightarrow> True"
    unfolding clean_def by blast
  have s1: "pset_ok s1" "same_constraints s s1" using clean_step [OF clean r] by simp_all
  have len: "length (mv_properties s1) + growth * length is < 65536"
    using call_growth [OF r] Cons.prems(2) by simp
  show ?case
  proof (cases r)
    case (Inr u)
    from Cons.IH [OF s1(1) len, of exns] r s1(2) Inr show ?thesis by (auto simp: failures_def same_constraints_def)
  next
    case (Inl e)
    with e obtain why where "reason_of e = Some why" by auto
    with Cons.IH [OF s1(1) len, of "exns @ [(why, name i)]"] r s1(2) Inl show ?thesis
      by (auto simp: failures_def same_constraints_def)
  qed
qed (simp add: failures_def outcome_def same_constraints_def)

lemma collect_all:
  assumes "pset_ok s" and "length (mv_properties s) + growth * length is < 65536" and "is \<noteq> []"
  shows "\<exists>rs s'. run_each call is s = Some (rs, s') \<and> length rs = length is \<and>
     collect call name is s = Some (outcome (failures name (zip is rs)), s')"
  using collect_loop_all [OF assms(1,2), of name "[]"] assms(3) by (auto simp: collect_def)

lemma collect_step:
  assumes "pset_ok s" and "length (mv_properties s) + growth * length is < 65536" and "collect call name is s = Some (r, s')"
  shows "pset_ok s' \<and> same_constraints s s'"
  using collect_loop_all [OF assms(1,2), of name "[]"] assms(3) by (auto simp: collect_def split: if_splits)

end

lemma define_property_with_mode_clean:
  "pset_ok s \<Longrightarrow> length (mv_properties s) < 65535 \<Longrightarrow> clean s (define_property_with_mode n v m s)"
  using def_prop_map(1) by (auto simp: define_property_with_mode_def intro: clean_throw)

lemma def_prop_growth:
  "def_prop n v m s = Some (r, s') \<Longrightarrow> length (mv_properties s') \<le> length (mv_properties s) + 1"
  by (auto simp: def_prop_def property_at_def split: if_splits option.splits)

lemma define_property_with_mode_growth:
  "define_property_with_mode n v m s = Some (r, s') \<Longrightarrow> length (mv_properties s') \<le> length (mv_properties s) + 1"
  by (auto simp: define_property_with_mode_def split: if_splits dest: def_prop_growth)

lemma delete_property_growth:
  "delete_property n s = Some (r, s') \<Longrightarrow> length (mv_properties s') \<le> length (mv_properties s)"
  by (auto simp: delete_property_def property_at_def split: if_splits option.splits)

lemma set_property_mode_growth:
  "set_property_mode n m s = Some (r, s') \<Longrightarrow> length (mv_properties s') \<le> length (mv_properties s)"
  by (auto simp: set_property_mode_def property_at_def split: if_splits option.splits)

interpretation defs: collected_call "\<lambda>(n, v). def_prop n v m" 1 for m
  by unfold_locales (auto intro: def_prop_map(1) dest: def_prop_growth)

interpretation defs_with_modes: collected_call
    "\<lambda>p. define_property_with_mode (property_name p) (property_value p) (property_mode p)" 1
  by unfold_locales (auto intro: define_property_with_mode_clean dest: define_property_with_mode_growth)

interpretation deletions: collected_call delete_property 0
  by unfold_locales (auto intro: delete_property_map(1) dest: delete_property_growth)

interpretation mode_settings: collected_call "\<lambda>(n, m). set_property_mode n m" 0
  by unfold_locales (auto intro: set_property_mode_map(1) dest: set_property_mode_growth)

section \<open>Deleting everything\<close>

lemma delete_all_loop_filter:
  "k \<le> length (mv_properties s) \<Longrightarrow>
   delete_all_loop k b s = Some (Inr (b \<and> list_all (\<lambda>p. \<not> is_fixed p) (take k (mv_properties s))),
     s\<lparr>mv_properties := filter is_fixed (take k (mv_properties s)) @ drop k (mv_properties s)\<rparr>)"
proof (induction k arbitrary: b s)
  case (Suc k)
  let ?ps = "mv_properties s" and ?p = "mv_properties s ! k"
  have k: "k < length ?ps" using Suc.prems by simp
  have t: "take (Suc k) ?ps = take k ?ps @ [?p]" using k by (rule take_Suc_conv_app_nth)
  have d: "drop k ?ps = ?p # drop (Suc k) ?ps" using k by (simp add: Cons_nth_drop_Suc)
  show ?case
  proof (cases "is_fixed ?p")
    case True
    then show ?thesis using k Suc.IH [of s False] by (simp add: property_at_def t d)
  next
    case False
    let ?s = "s\<lparr>mv_properties := take k ?ps @ drop (Suc k) ?ps\<rparr>"
    have "delete_all_loop k b ?s = Some (Inr (b \<and> list_all (\<lambda>p. \<not> is_fixed p) (take k ?ps)),
        ?s\<lparr>mv_properties := filter is_fixed (take k ?ps) @ drop (Suc k) ?ps\<rparr>)"
      using Suc.IH [of ?s b] k by simp
    then show ?thesis using k False by (simp add: property_at_def t)
  qed
qed simp

section \<open>Iterators\<close>

text \<open>
  An iterator points to its property set, or to nothing. Names and properties are iterated by the
  same code: \<open>f\<close> is what is copied of a property. The results of \<open>next_n\<close> are the sequence whose
  length is set first and whose elements are then filled in; \<open>d\<close> is a default element.
\<close>

record property_iterator =
  mp_property_set :: bool
  m_index :: ulong

definition new_iterator :: property_iterator where
  "new_iterator = \<lparr>mp_property_set = False, m_index = 0\<rparr>"

definition new_iterator_at :: "ulong \<Rightarrow> property_iterator" where
  "new_iterator_at idx = \<lparr>mp_property_set = True, m_index = idx\<rparr>"

definition iterator_reset :: "property_iterator \<Rightarrow> property_iterator option" where
  "iterator_reset it = do { require (mp_property_set it); Some (it\<lparr>m_index := 0\<rparr>) }"

definition iterator_next_one ::
    "(property_def \<Rightarrow> 'a) \<Rightarrow> 'a \<Rightarrow> property_set \<Rightarrow> property_iterator \<Rightarrow> ((bool \<times> 'a) \<times> property_iterator) option" where
  "iterator_next_one f d s it = do {
     require (mp_property_set it);
     if m_index it \<ge> get_number_of_properties s then Some ((False, d), it)
     else do {
       p \<leftarrow> property_at (unat (m_index it)) s;
       Some ((True, f p), it\<lparr>m_index := m_index it + 1\<rparr>)
     }
   }"

definition iterator_next_n ::
    "(property_def \<Rightarrow> 'a) \<Rightarrow> 'a \<Rightarrow> property_set \<Rightarrow> ulong \<Rightarrow> property_iterator \<Rightarrow>
     ((bool \<times> 'a list) \<times> property_iterator) option" where
  "iterator_next_n f d s how_many it = do {
     require (mp_property_set it);
     let len = get_number_of_properties s;
     if m_index it \<ge> len \<or> how_many = 0 then Some ((False, []), it)
     else do {
       let size = (if m_index it + how_many \<le> len then how_many else len - m_index it);
       let last = (if m_index it + how_many < len then m_index it + how_many else len);
       let start = m_index it;
       let copied = map f (take (unat last - unat start) (drop (unat start) (mv_properties s)));
       require (length copied \<le> unat size);
       Some ((True, copied @ replicate (unat size - length copied) d),
             it\<lparr>m_index := (if start < last then last else start)\<rparr>)
     }
   }"

definition iterator_destroy :: "property_iterator \<Rightarrow> property_iterator" where
  "iterator_destroy it = \<lparr>mp_property_set = False, m_index = 0\<rparr>"

definition get_all ::
    "(property_def \<Rightarrow> 'a) \<Rightarrow> ulong \<Rightarrow> property_set \<Rightarrow> 'a list \<times> property_iterator" where
  "get_all f how_many s =
     (let len = get_number_of_properties s;
          xs = map f (take (unat (if how_many < len then how_many else len)) (mv_properties s))
      in if how_many \<ge> len then (xs, new_iterator) else (xs, new_iterator_at how_many))"

definition get_all_property_names :: "ulong \<Rightarrow> property_set \<Rightarrow> string list \<times> property_iterator" where
  "get_all_property_names = get_all property_name"

definition get_all_properties :: "ulong \<Rightarrow> property_set \<Rightarrow> (string \<times> any) list \<times> property_iterator" where
  "get_all_properties = get_all (\<lambda>p. (property_name p, property_value p))"

text \<open>The iterators of coss/property/PropertyService_impl.cc: one over names, one over properties.\<close>

definition PropertyNamesIterator_next_one ::
    "property_set \<Rightarrow> property_iterator \<Rightarrow> ((bool \<times> string) \<times> property_iterator) option" where
  "PropertyNamesIterator_next_one = iterator_next_one property_name []"

definition PropertyNamesIterator_next_n ::
    "property_set \<Rightarrow> ulong \<Rightarrow> property_iterator \<Rightarrow> ((bool \<times> string list) \<times> property_iterator) option" where
  "PropertyNamesIterator_next_n = iterator_next_n property_name []"

definition PropertiesIterator_next_one ::
    "property_set \<Rightarrow> property_iterator \<Rightarrow> ((bool \<times> (string \<times> any)) \<times> property_iterator) option" where
  "PropertiesIterator_next_one = iterator_next_one (\<lambda>p. (property_name p, property_value p)) ([], new_any)"

definition PropertiesIterator_next_n ::
    "property_set \<Rightarrow> ulong \<Rightarrow> property_iterator \<Rightarrow> ((bool \<times> (string \<times> any) list) \<times> property_iterator) option" where
  "PropertiesIterator_next_n = iterator_next_n (\<lambda>p. (property_name p, property_value p)) ([], new_any)"

text \<open>A client that asks an iterator for several lists of given lengths.\<close>

fun next_ns ::
    "(property_set \<Rightarrow> ulong \<Rightarrow> property_iterator \<Rightarrow> ((bool \<times> 'a list) \<times> property_iterator) option) \<Rightarrow> property_set \<Rightarrow>
     ulong list \<Rightarrow> property_iterator \<Rightarrow> ('a list \<times> property_iterator) option" where
  "next_ns next s [] it = Some ([], it)"
| "next_ns next s (k # ks) it = do {
     ((_, xs), it) \<leftarrow> next s k it;
     (ys, it) \<leftarrow> next_ns next s ks it;
     Some (xs @ ys, it)
   }"

lemma unat_number_of_properties:
  "length (mv_properties s) < 2147483648 \<Longrightarrow> unat (get_number_of_properties s) = length (mv_properties s)"
  by (simp add: get_number_of_properties_def unat_ulong_of_nat)

lemma iterator_next_n_takes:
  assumes l: "length (mv_properties s) < 2147483648" and it: "mp_property_set it"
    and at: "unat (m_index it) \<le> length (mv_properties s)" and k: "unat k < 2147483648"
  shows "\<exists>it'. iterator_next_n f d s k it =
      Some ((unat (m_index it) < length (mv_properties s) \<and> k \<noteq> 0,
             map f (take (unat k) (drop (unat (m_index it)) (mv_properties s)))), it')
    \<and> mp_property_set it' \<and> unat (m_index it') = min (length (mv_properties s)) (unat (m_index it) + unat k)"
proof -
  let ?ps = "mv_properties s"
  define len where "len = get_number_of_properties s"
  define i where "i = m_index it"
  have n: "unat len = length ?ps" using unat_number_of_properties [OF l] by (simp add: len_def)
  have i: "unat i \<le> length ?ps" using at by (simp add: i_def)
  have sum: "unat (i + k) = unat i + unat k" using i l k by (simp add: unat_ulong_add)
  consider "len \<le> i \<or> k = 0" | "i < len" "k \<noteq> 0" "i + k \<le> len" | "i < len" "k \<noteq> 0" "\<not> i + k \<le> len" by fastforce
  then show ?thesis
  proof cases
    case 1
    have u: "length ?ps \<le> unat i \<or> unat k = 0" using 1 n by (auto simp: word_le_nat_alt)
    have b: "\<not> (unat i < length ?ps \<and> k \<noteq> 0)" using 1 n by (auto simp: word_le_nat_alt)
    have e: "iterator_next_n f d s k it = Some ((False, []), it)"
      using 1 it by (simp add: iterator_next_n_def Let_def flip: len_def i_def)
    have "take (unat k) (drop (unat i) ?ps) = []" using u by auto
    moreover have "unat i = min (length ?ps) (unat i + unat k)" using u i by auto
    ultimately show ?thesis using b it unfolding e by (simp add: flip: i_def)
  next
    case 2
    have u: "unat i < length ?ps" "unat i + unat k \<le> length ?ps" "0 < unat k"
      using 2 n sum by (auto simp: word_le_nat_alt word_less_nat_alt unat_gt_0)
    have w: "\<not> len \<le> i" "i < i + k" using 2(1) u(3) sum by (auto simp: word_less_nat_alt word_le_nat_alt)
    have last: "(if i + k < len then i + k else len) = i + k" using 2(3) by auto
    have full: "i + k = len \<Longrightarrow> unat k = length ?ps - unat i" using sum n by auto
    have lt: "i < len" using 2(1) .
    have e: "iterator_next_n f d s k it =
        Some ((True, map f (take (unat k) (drop (unat i) ?ps))), it\<lparr>m_index := i + k\<rparr>)"
      using it w 2(2,3) u full lt by (auto simp: iterator_next_n_def Let_def sum n simp flip: len_def i_def)
    show ?thesis unfolding e using u it 2(2) sum by (simp add: flip: i_def)
  next
    case 3
    have u: "unat i < length ?ps" "length ?ps < unat i + unat k"
      using 3 n sum by (auto simp: word_le_nat_alt word_less_nat_alt)
    have w: "\<not> len \<le> i" "i < len" using 3(1) by (auto simp: not_le)
    have last: "(if i + k < len then i + k else len) = len" using 3(3) by auto
    have sz: "unat (len - i) = length ?ps - unat i" using 3(1) n by (simp add: unat_sub_if' word_less_nat_alt)
    have e: "iterator_next_n f d s k it =
        Some ((True, map f (take (unat k) (drop (unat i) ?ps))), it\<lparr>m_index := len\<rparr>)"
      using it w 3(2,3) u by (simp add: iterator_next_n_def Let_def last sz n flip: len_def i_def)
    show ?thesis unfolding e using u it 3(2) n by (simp add: flip: i_def)
  qed
qed

lemma next_ns_takes:
  assumes "length (mv_properties s) < 2147483648" and "mp_property_set it"
    and "unat (m_index it) \<le> length (mv_properties s)" and "list_all (\<lambda>k. unat k < 2147483648) ks"
  shows "\<exists>it'. next_ns (iterator_next_n f d) s ks it =
      Some (map f (take (sum_list (map unat ks)) (drop (unat (m_index it)) (mv_properties s))), it')"
  using assms
proof (induction ks arbitrary: it)
  case (Cons k ks)
  have k: "unat k < 2147483648" and ks: "list_all (\<lambda>k. unat k < 2147483648) ks" using Cons.prems(4) by simp_all
  obtain it1 where one: "iterator_next_n f d s k it =
      Some ((unat (m_index it) < length (mv_properties s) \<and> k \<noteq> 0,
             map f (take (unat k) (drop (unat (m_index it)) (mv_properties s)))), it1)"
    and it1: "mp_property_set it1" "unat (m_index it1) = min (length (mv_properties s)) (unat (m_index it) + unat k)"
    using iterator_next_n_takes [OF Cons.prems(1-3) k, of f d] by blast
  have at: "unat (m_index it1) \<le> length (mv_properties s)" using it1(2) by simp
  obtain it2 where rest: "next_ns (iterator_next_n f d) s ks it1 =
      Some (map f (take (sum_list (map unat ks)) (drop (unat (m_index it1)) (mv_properties s))), it2)"
    using Cons.IH [OF Cons.prems(1) it1(1) at ks] by blast
  have d: "drop (unat (m_index it1)) (mv_properties s) = drop (unat (m_index it) + unat k) (mv_properties s)"
    using it1(2) by (cases "length (mv_properties s) \<le> unat (m_index it) + unat k") simp_all
  have "next_ns (iterator_next_n f d) s (k # ks) it =
      Some (map f (take (unat k) (drop (unat (m_index it)) (mv_properties s))) @
            map f (take (sum_list (map unat ks)) (drop (unat (m_index it) + unat k) (mv_properties s))), it2)"
    by (simp add: one rest d)
  then show ?case by (simp add: take_add add.commute flip: map_append)
qed simp

section \<open>What clients rely on\<close>

text \<open>C9: A property set is a map from names to definitions: defining a property (with and without a mode), deleting it, setting
  its mode, and asking for its value, its mode or its existence have the result of the operation on the map - every exception included, in the
  order the checks are made - and leave the set that represents the resulting map; no name occurs twice and no index outside the
  vector is used.\<close>

theorem property_set_refines_map:
  assumes "pset_ok s" and "length (mv_properties s) < 65535"
  shows "seen (define_property n v s) = Some (map_def_prop s n v normal (pmap s))
    \<and> seen (define_property_with_mode n v m s) =
        Some (if m = undefined_mode then (Inl UnsupportedMode, pmap s) else map_def_prop s n v m (pmap s))
    \<and> seen (delete_property n s) = Some (map_delete n (pmap s))
    \<and> seen (set_property_mode n m s) = Some (map_set_mode s n m (pmap s))
    \<and> seen (get_property_value n s) = Some (map_look property_value n (pmap s))
    \<and> seen (get_property_mode n s) = Some (map_look property_mode n (pmap s))
    \<and> is_property_defined n s = Some (if n = [] then Inl InvalidPropertyName else Inr (pmap s n \<noteq> None), s)"
proof -
  have "(fst (map_look f n (pmap s)), pmap s) = map_look f n (pmap s)" for f :: "property_def \<Rightarrow> 'b"
    by (simp add: map_look_def split: option.split)
  moreover have "(fst (map_look f n (pmap s)), pmap s) = map_look f n (pmap s)" for f :: "property_def \<Rightarrow> 'c"
    by (simp add: map_look_def split: option.split)
  ultimately show ?thesis
    using def_prop_map(2) [OF assms] delete_property_map(2) [OF assms(1)]
      set_property_mode_map(2) [OF assms(1)] look_map [OF assms(1)]
    by (simp add: define_property_def define_property_with_mode_def map_look_def split: option.split)
qed

theorem property_set_refines_map_witness:
  "seen (define_property ''size'' (Any 3 [1]) new_property_set) =
     Some (map_def_prop new_property_set ''size'' (Any 3 [1]) normal (pmap new_property_set))"
proof -
  have "pset_ok new_property_set" "length (mv_properties new_property_set) < 65535"
    by (simp_all add: pset_ok_def new_property_set_def names_def)
  from property_set_refines_map [OF this, of "''size''" "Any 3 [1]" normal] show ?thesis by blast
qed

subsection \<open>Reachable property sets\<close>

text \<open>
  The sets the factories make, and the changes clients make to them. A set is kept below 65536
  properties: beyond that the count of \<open>get_index\<close> wraps.
\<close>

inductive pset_new :: "property_set \<Rightarrow> bool" where
  empty: "pset_new new_property_set"
| constrained: "create_constrained_propertyset types as = Inr s \<Longrightarrow> pset_new s"
| constrained_def: "create_constrained_propertysetdef types defs = Inr s \<Longrightarrow> pset_new s"
| initial: "length ps < 65536 \<Longrightarrow> create_initial_propertyset ps = Some (Inr s) \<Longrightarrow> pset_new s"
| initial_def: "length defs < 65536 \<Longrightarrow> create_initial_propertysetdef defs = Some (Inr s) \<Longrightarrow> pset_new s"

inductive pset_step :: "property_set \<Rightarrow> property_set \<Rightarrow> bool" where
  define_one: "length (mv_properties s) < 65535 \<Longrightarrow> define_property n v s = Some (r, s') \<Longrightarrow> pset_step s s'"
| define_list: "length (mv_properties s) + length ps < 65536 \<Longrightarrow> define_properties ps s = Some (r, s') \<Longrightarrow> pset_step s s'"
| define_mode: "length (mv_properties s) < 65535 \<Longrightarrow> define_property_with_mode n v m s = Some (r, s') \<Longrightarrow> pset_step s s'"
| define_modes: "length (mv_properties s) + length defs < 65536 \<Longrightarrow>
    define_properties_with_modes defs s = Some (r, s') \<Longrightarrow> pset_step s s'"
| delete: "delete_property n s = Some (r, s') \<Longrightarrow> pset_step s s'"
| deletes: "delete_properties ns s = Some (r, s') \<Longrightarrow> pset_step s s'"
| delete_all: "delete_all_properties s = Some (r', s') \<Longrightarrow> pset_step s s'"
| mode: "set_property_mode n m s = Some (r, s') \<Longrightarrow> pset_step s s'"
| modes: "set_property_modes ms s = Some (r, s') \<Longrightarrow> pset_step s s'"


lemma delete_all_properties_filter:
  assumes "length (mv_properties s) < 2147483648"
  shows "delete_all_properties s = Some (Inr (list_all (\<lambda>p. \<not> is_fixed p) (mv_properties s)),
     s\<lparr>mv_properties := filter is_fixed (mv_properties s)\<rparr>)"
proof -
  define l where "l = get_number_of_properties s"
  have l: "unat l = length (mv_properties s)" using unat_number_of_properties [OF assms] by (simp add: l_def)
  have "nat (sint (l - 1) + 1) = length (mv_properties s)"
  proof (cases "l = 0")
    case True
    then show ?thesis using l by simp
  next
    case False
    then have "unat (l - 1) = length (mv_properties s) - 1" "0 < length (mv_properties s)"
      using l by (auto simp: unat_minus_one unat_gt_0 simp flip: l)
    then show ?thesis using sint_ulong_small [of "l - 1"] assms by (simp del: length_0_conv length_greater_0_conv)
  qed
  then show ?thesis using delete_all_loop_filter [of "length (mv_properties s)" s True]
    by (simp add: delete_all_properties_def Let_def flip: l_def)
qed

lemma pset_ok_filter: "pset_ok s \<Longrightarrow> pset_ok (s\<lparr>mv_properties := filter P (mv_properties s)\<rparr>)"
  using le_less_trans [OF length_filter_le [of P "mv_properties s"]]
  by (auto simp: pset_ok_def names_def list_all_iff distinct_map inj_on_def)

lemma pset_step_ok: "pset_step s s' \<Longrightarrow> pset_ok s \<Longrightarrow> pset_ok s' \<and> same_constraints s s'"
proof (induction rule: pset_step.induct)
  case (define_one s n v r s')
  then show ?case by (metis clean_step def_prop_map(1) define_property_def)
next
  case (define_list s ps r s')
  then show ?case using defs.collect_step [of s ps normal fst r s'] by (simp add: define_properties_def def_props_def)
next
  case (define_mode s n v m r s')
  then show ?case using clean_step define_property_with_mode_clean by blast
next
  case (define_modes s ps r s')
  then show ?case using defs_with_modes.collect_step [of s ps property_name r s']
    by (simp add: define_properties_with_modes_def)
next
  case (delete n s r s')
  then show ?case using clean_step delete_property_map(1) by blast
next
  case (deletes ns s r s')
  moreover have "length (mv_properties s) < 65536" using deletes(2) by (simp add: pset_ok_def)
  ultimately show ?case using deletions.collect_step [of s ns id r s'] by (simp add: delete_properties_def)
next
  case (delete_all s r' s')
  moreover have "length (mv_properties s) < 65536" using delete_all(2) by (simp add: pset_ok_def)
  ultimately show ?case using delete_all_properties_filter [of s] pset_ok_filter by (auto simp: same_constraints_def)
next
  case (mode n m s r s')
  then show ?case using clean_step set_property_mode_map(1) by blast
next
  case (modes ms s r s')
  moreover have "length (mv_properties s) < 65536" using modes(2) by (simp add: pset_ok_def)
  ultimately show ?case using mode_settings.collect_step [of s ms fst r s'] by (simp add: set_property_modes_def)
qed

lemma new_property_set_ok: "pset_ok new_property_set"
  by (simp add: pset_ok_def new_property_set_def names_def)

lemma constrain_loop_ok:
  "constrain_loop md as s = Inr s' \<Longrightarrow> mv_properties s = [] \<Longrightarrow> mv_properties s' = []"
  by (induction md as s rule: constrain_loop.induct) (auto split: if_splits)

lemma created_InrD: "created m = Some (Inr s) \<Longrightarrow> m = Some (Inr (), s)"
  by (cases m) (auto simp: created_def split: sum.splits prod.splits)

lemma pset_new_ok: "pset_new s \<Longrightarrow> pset_ok s"
proof (induction rule: pset_new.induct)
  case (initial ps s)
  then have "def_props ps fixed_normal new_property_set = Some (Inr (), s)"
    using created_InrD by (auto simp: create_initial_propertyset_def)
  then show ?case using defs.collect_step [of new_property_set ps fixed_normal fst "Inr ()" s]
      new_property_set_ok initial(1) by (simp add: def_props_def new_property_set_def)
next
  case (initial_def ps s)
  then have "define_properties_with_modes ps new_property_set = Some (Inr (), s)"
    using created_InrD by (auto simp: create_initial_propertysetdef_def)
  then show ?case using defs_with_modes.collect_step [of new_property_set ps property_name "Inr ()" s]
      new_property_set_ok initial_def(1) by (simp add: define_properties_with_modes_def new_property_set_def)
qed (use new_property_set_ok in \<open>auto simp: create_constrained_propertyset_def create_constrained_propertysetdef_def
  create_constrained_def new_property_set_def pset_ok_def names_def split: sum.splits dest!: constrain_loop_ok\<close>)

text \<open>C29: In every property set a client can reach from the factories - plain, with constraints, with initial properties, with or without
  modes - through the operations of both interfaces, property names are non-empty and pairwise distinct, every property satisfies the
  set's constraints on types and on (name, type, mode), and the constraints are those the set was made with.\<close>

theorem property_set_invariant:
  assumes "pset_new s\<^sub>0" and "pset_step\<^sup>*\<^sup>* s\<^sub>0 s"
  shows "distinct (names s) \<and> [] \<notin> set (names s) \<and> list_all (satisfies s\<^sub>0) (mv_properties s) \<and> same_constraints s\<^sub>0 s"
proof -
  have "pset_ok s \<and> same_constraints s\<^sub>0 s"
    using assms(2)
  proof (induction rule: rtranclp_induct)
    case base
    then show ?case using pset_new_ok [OF assms(1)] by (simp add: same_constraints_def)
  next
    case (step s s')
    then show ?case using pset_step_ok [OF step(2)] by (auto simp: same_constraints_def)
  qed
  moreover from this have "satisfies s\<^sub>0 = satisfies s"
    by (intro satisfies_cong) (auto simp: same_constraints_def)
  ultimately show ?thesis
    by (auto simp: pset_ok_def list_all_iff satisfies_def is_property_name_valid_def names_def)
qed

theorem property_set_invariant_witness:
  "\<exists>s. pset_step\<^sup>*\<^sup>* new_property_set s \<and> names s = [''size''] \<and> distinct (names s) \<and> [] \<notin> set (names s)"
proof -
  let ?s = "\<lparr>mv_properties = [\<lparr>property_name = ''size'', property_value = Any 3 [1], property_mode = normal\<rparr>],
    mv_allowed_property_types = [], mv_allowed_properties = []\<rparr>"
  have "define_property ''size'' (Any 3 [1]) new_property_set = Some (Inr (), ?s)" by code_simp
  then have "pset_step new_property_set ?s" by (intro pset_step.define_one) (simp_all add: new_property_set_def)
  then have "pset_step\<^sup>*\<^sup>* new_property_set ?s" by blast
  from property_set_invariant [OF pset_new.empty this] this show ?thesis by (auto simp: names_def)
qed

subsection \<open>Operations on lists\<close>

text \<open>
  An operation on a list reports failures: it does what the single operation does for each element
  in turn, and throws the one exception that lists the failed elements with their reasons, in order,
  when some failed.
\<close>

definition reports_failures ::
    "('i list \<Rightarrow> unit property_call) \<Rightarrow> ('i \<Rightarrow> unit property_call) \<Rightarrow> ('i \<Rightarrow> string) \<Rightarrow> 'i list \<Rightarrow> property_set \<Rightarrow> bool" where
  "reports_failures many one name is s \<longleftrightarrow> (\<exists>rs s'. run_each one is s = Some (rs, s') \<and> length rs = length is \<and>
     many is s = Some (outcome (failures name (zip is rs)), s'))"

text \<open>Defining several properties, defining them with modes, deleting them and setting their modes do for each element, in order,
  exactly what the single operation does; elements that fail are skipped, the others take effect, and one \<open>MultipleExceptions\<close> lists
  exactly the failures with their reasons and names - none when every element succeeded.\<close>

theorem list_operations_report_failures:
  assumes "pset_ok s"
  shows "(ps \<noteq> [] \<longrightarrow> length (mv_properties s) + length ps < 65536 \<longrightarrow>
            reports_failures define_properties (\<lambda>(n, v). define_property n v) fst ps s)
    \<and> (defs \<noteq> [] \<longrightarrow> length (mv_properties s) + length defs < 65536 \<longrightarrow>
            reports_failures define_properties_with_modes
              (\<lambda>p. define_property_with_mode (property_name p) (property_value p) (property_mode p)) property_name defs s)
    \<and> (ns \<noteq> [] \<longrightarrow> reports_failures delete_properties delete_property id ns s)
    \<and> (ms \<noteq> [] \<longrightarrow> reports_failures set_property_modes (\<lambda>(n, m). set_property_mode n m) fst ms s)"
  using defs.collect_all [of s ps normal fst] defs_with_modes.collect_all [of s defs property_name]
    deletions.collect_all [of s ns id] mode_settings.collect_all [of s ms fst] assms
  by (simp add: reports_failures_def define_properties_def def_props_def define_property_def
      define_properties_with_modes_def delete_properties_def set_property_modes_def pset_ok_def)

theorem list_operations_report_failures_witness:
  "reports_failures define_properties (\<lambda>(n, v). define_property n v) fst [(''a'', Any 3 [1]), ('''', Any 3 [2])] new_property_set
   \<and> define_properties [(''a'', Any 3 [1]), ('''', Any 3 [2])] new_property_set =
      Some (Inl (MultipleExceptions [(invalid_property_name, '''')]),
        new_property_set\<lparr>mv_properties := [\<lparr>property_name = ''a'', property_value = Any 3 [1], property_mode = normal\<rparr>]\<rparr>)"
proof -
  have "define_properties [(''a'', Any 3 [1]), ('''', Any 3 [2])] new_property_set =
      Some (Inl (MultipleExceptions [(invalid_property_name, '''')]),
        new_property_set\<lparr>mv_properties := [\<lparr>property_name = ''a'', property_value = Any 3 [1], property_mode = normal\<rparr>]\<rparr>)"
    by code_simp
  moreover have "length (mv_properties new_property_set) + length [(''a'', Any 3 [1]), ('''', Any 3 [2])] < 65536"
    by (simp add: new_property_set_def)
  ultimately show ?thesis
    using list_operations_report_failures [OF new_property_set_ok, of "[(''a'', Any 3 [1]), ('''', Any 3 [2])]"] by simp
qed

text \<open>\<open>delete_all_properties\<close> removes exactly the properties that are not fixed, keeps the fixed ones in their order, never uses an
  index outside the vector although it erases while it counts down, and returns true exactly when nothing was left behind.\<close>

theorem delete_all_keeps_fixed:
  assumes "length (mv_properties s) < 2147483648"
  shows "\<exists>s'. delete_all_properties s = Some (Inr (mv_properties s' = []), s')
    \<and> mv_properties s' = filter is_fixed (mv_properties s) \<and> same_constraints s s'"
  using delete_all_properties_filter [OF assms]
  by (simp add: filter_empty_conv list_all_iff same_constraints_def)

theorem delete_all_keeps_fixed_witness:
  "\<exists>s'. delete_all_properties (new_property_set\<lparr>mv_properties :=
        [\<lparr>property_name = ''a'', property_value = Any 3 [1], property_mode = fixed_normal\<rparr>,
         \<lparr>property_name = ''b'', property_value = Any 3 [1], property_mode = normal\<rparr>]\<rparr>) = Some (Inr False, s')
     \<and> names s' = [''a'']"
  using delete_all_keeps_fixed [of "new_property_set\<lparr>mv_properties :=
        [\<lparr>property_name = ''a'', property_value = Any 3 [1], property_mode = fixed_normal\<rparr>,
         \<lparr>property_name = ''b'', property_value = Any 3 [1], property_mode = normal\<rparr>]\<rparr>"]
  by (auto simp: names_def is_fixed_def)

subsection \<open>Listing\<close>

text \<open>Listing the names of a set in parts yields every name once and in order: the names returned
  by \<open>get_all_property_names\<close> followed by those of the iterator, whatever part sizes the client asks for, are the first of the set's names, as many as
  were asked for; and the same for the properties with their values.\<close>

theorem listing_complete:
  assumes "length (mv_properties s) < 2147483648" and "unat k < length (mv_properties s)"
    and "list_all (\<lambda>k. unat k < 2147483648) ks"
  shows "(\<exists>xs it it'. get_all_property_names k s = (xs, it)
      \<and> (\<exists>ys. next_ns PropertyNamesIterator_next_n s ks it = Some (ys, it')
          \<and> xs @ ys = take (unat k + sum_list (map unat ks)) (names s)))
    \<and> (\<exists>xs it it'. get_all_properties k s = (xs, it)
      \<and> (\<exists>ys. next_ns PropertiesIterator_next_n s ks it = Some (ys, it')
          \<and> xs @ ys = take (unat k + sum_list (map unat ks)) (map (\<lambda>p. (property_name p, property_value p)) (mv_properties s))))"
proof -
  have n: "unat (get_number_of_properties s) = length (mv_properties s)" by (rule unat_number_of_properties [OF assms(1)])
  then have k: "k < get_number_of_properties s" "\<not> get_number_of_properties s \<le> k"
    using assms(2) by (auto simp: word_less_nat_alt word_le_nat_alt)
  have it: "mp_property_set (new_iterator_at k)" "unat (m_index (new_iterator_at k)) = unat k"
    by (simp_all add: new_iterator_at_def)
  have "\<exists>xs it it'. get_all_property_names k s = (xs, it)
      \<and> (\<exists>ys. next_ns PropertyNamesIterator_next_n s ks it = Some (ys, it')
          \<and> xs @ ys = take (unat k + sum_list (map unat ks)) (names s))"
    using next_ns_takes [OF assms(1) it(1) _ assms(3), of property_name "[]"] it(2) assms(2) k
    by (auto simp: get_all_property_names_def get_all_def Let_def PropertyNamesIterator_next_n_def names_def take_add
        drop_map take_map)
  moreover have "\<exists>xs it it'. get_all_properties k s = (xs, it)
      \<and> (\<exists>ys. next_ns PropertiesIterator_next_n s ks it = Some (ys, it')
          \<and> xs @ ys = take (unat k + sum_list (map unat ks)) (map (\<lambda>p. (property_name p, property_value p)) (mv_properties s)))"
    using next_ns_takes [OF assms(1) it(1) _ assms(3), of "\<lambda>p. (property_name p, property_value p)" "([], new_any)"]
      it(2) assms(2) k
    by (auto simp: get_all_properties_def get_all_def Let_def PropertiesIterator_next_n_def take_add drop_map take_map)
  ultimately show ?thesis ..
qed

definition three_properties :: property_set where
  "three_properties = new_property_set\<lparr>mv_properties :=
     [\<lparr>property_name = ''a'', property_value = Any 3 [1], property_mode = normal\<rparr>,
      \<lparr>property_name = ''b'', property_value = Any 3 [2], property_mode = normal\<rparr>,
      \<lparr>property_name = ''c'', property_value = Any 3 [3], property_mode = normal\<rparr>]\<rparr>"

theorem listing_complete_witness:
  "\<exists>xs it it' ys. get_all_property_names 1 three_properties = (xs, it) \<and>
     next_ns PropertyNamesIterator_next_n three_properties [1, 5] it = Some (ys, it') \<and> xs @ ys = [''a'', ''b'', ''c'']"
  using listing_complete [of three_properties 1 "[1, 5]"] by (auto simp: three_properties_def names_def)

text \<open>When the names listed are all there are, the iterator handed back is attached to no property set: asking it for one
  name, for several, or to start again fails its assertion, so a client that drains every listing the same way stops the server.\<close>

theorem complete_listing_iterator_aborts:
  assumes "get_number_of_properties s \<le> k"
  shows "\<exists>xs it. get_all_property_names k s = (xs, it) \<and> PropertyNamesIterator_next_one s it = None
    \<and> PropertyNamesIterator_next_n s j it = None \<and> iterator_reset it = None"
  using assms by (simp add: get_all_property_names_def get_all_def Let_def new_iterator_def iterator_reset_def
      PropertyNamesIterator_next_one_def iterator_next_one_def PropertyNamesIterator_next_n_def iterator_next_n_def)

theorem complete_listing_iterator_aborts_witness:
  "\<exists>it. get_all_property_names 10 three_properties = ([''a'', ''b'', ''c''], it) \<and>
     PropertyNamesIterator_next_one three_properties it = None"
proof -
  have n: "get_number_of_properties three_properties \<le> 10"
    by (simp add: get_number_of_properties_def three_properties_def)
  have "fst (get_all_property_names 10 three_properties) = [''a'', ''b'', ''c'']" by code_simp
  then show ?thesis using complete_listing_iterator_aborts [OF n, of 1] by auto
qed

text \<open>\<open>next_n\<close> adds the requested number to its position in 32 bits. When the sum wraps to at most the number of properties, it answers that it
  returned as many names as were asked for although it copied none: every name is empty and the position has not moved.\<close>

theorem next_n_wraps_to_nothing:
  assumes "mp_property_set it" and "m_index it < get_number_of_properties s"
    and "2 ^ 32 \<le> unat (m_index it) + unat k"
  shows "PropertyNamesIterator_next_n s k it = Some ((True, replicate (unat k) []), it)"
proof -
  define i where "i = m_index it"
  have b: "unat i < 4294967296" "unat k < 4294967296" "4294967296 \<le> unat i + unat k"
    using assms(3) by (simp_all add: i_def)
  have sum: "unat (i + k) = unat i + unat k - 4294967296"
  proof -
    have "(a + c) mod m = a + c - m" if "a < m" "c < m" "m \<le> a + c" for a c m :: nat
      using that by (simp add: le_mod_geq)
    from this [OF b] show ?thesis by (simp add: unat_word_ariths)
  qed
  have k: "unat k \<noteq> 0" using b by linarith
  have "unat i + unat k - 4294967296 < unat i" using b by linarith
  then have "i + k < i" using sum by (simp add: word_less_nat_alt)
  then have le: "i + k \<le> get_number_of_properties s" "i + k < get_number_of_properties s" "\<not> i < i + k"
    using assms(2) by (auto simp: i_def)
  have nz: "k \<noteq> 0" "\<not> get_number_of_properties s \<le> i" using k assms(2) by (auto simp: i_def)
  have z: "unat (i + k) - unat i = 0" using le(3) by (simp add: word_less_nat_alt)
  have "iterator_next_n property_name [] s k it = Some ((True, replicate (unat k) []), it\<lparr>m_index := i\<rparr>)"
    using assms(1) le nz z by (simp add: iterator_next_n_def Let_def flip: i_def)
  then show ?thesis by (simp add: PropertyNamesIterator_next_n_def i_def)
qed

theorem next_n_wraps_to_nothing_witness:
  "PropertyNamesIterator_next_n three_properties (- 1) (new_iterator_at 2) =
     Some ((True, replicate 4294967295 []), new_iterator_at 2)"
proof -
  have "m_index (new_iterator_at 2) < get_number_of_properties three_properties"
    by (simp add: new_iterator_at_def get_number_of_properties_def three_properties_def)
  from next_n_wraps_to_nothing [OF _ this, of "- 1"] show ?thesis
    by (simp add: new_iterator_at_def unsigned_minus_1_eq_mask mask_eq_exp_minus_1)
qed

text \<open>A set of 65536 properties - which the operations allow - finds none of them, because the search counts in 16 bits:
  the value of a property that is there is not found, and defining it again adds a second property of the same name.\<close>

theorem full_property_set_finds_nothing:
  assumes "length (mv_properties s) = 65536" and "n \<in> set (names s)" and "n \<noteq> []"
    and "mv_allowed_property_types s = []" and "mv_allowed_properties s = []"
  shows "get_property_value n s = Some (Inl PropertyNotFound, s)
    \<and> (\<exists>s'. define_property n v s = Some (Inr (), s') \<and> names s' = names s @ [n] \<and> \<not> distinct (names s'))"
proof -
  have "unat (ucast (word_of_nat (length (mv_properties s)) :: ulong) :: ushort) = 0"
    by (simp add: assms(1) unsigned_ucast_eq)
  then have i: "get_index n s = None" by (simp add: get_index_def get_number_of_properties_def Let_def)
  show ?thesis using assms(2-5) i
    by (simp add: get_property_value_def is_property_name_valid_def define_property_def def_prop_def
        is_property_type_allowed_def is_property_allowed_def names_def)
qed

definition many_properties :: property_set where
  "many_properties = new_property_set\<lparr>mv_properties :=
     map (\<lambda>i. \<lparr>property_name = replicate (Suc i) CHR ''x'', property_value = new_any, property_mode = normal\<rparr>) [0..<65536]\<rparr>"

theorem full_property_set_finds_nothing_witness:
  "get_property_value ''x'' many_properties = Some (Inl PropertyNotFound, many_properties) \<and> ''x'' \<in> set (names many_properties)"
proof -
  have l: "length (mv_properties many_properties) = 65536" by (simp add: many_properties_def)
  have n: "names many_properties = map (\<lambda>i. replicate (Suc i) CHR ''x'') [0..<65536]"
    by (simp add: many_properties_def names_def)
  have "''x'' = replicate (Suc 0) CHR ''x''" "0 \<in> set [0..<65536]" by simp_all
  then have m: "''x'' \<in> set (names many_properties)" unfolding n set_map by (rule image_eqI)
  from full_property_set_finds_nothing [OF l m] m show ?thesis by (simp add: many_properties_def new_property_set_def)
qed

end
