(* ===== verification/IOR.thy ===== *)
theory IOR
  imports CDR_Image Url_Text
begin

text \<open>
  Object references (orb/ior.cc): an IOR is a repository id and profiles, kept in order; a profile
  is the address of an object by one protocol, an IIOP profile with components that describe it.
  IORs travel inside messages and as text. Strings are octets without a zero. An internet address is
  held by its host name; \<open>resolve\<close> stands for the name service of the system
  (\<open>inet_addr\<close>, \<open>gethostbyname\<close>), which the comparison of addresses asks.
\<close>

section \<open>Data\<close>

datatype component =
    UnknownComponent ulong "octet list"
  | CodesetComponent ulong ulong "ulong list" "ulong list"

datatype family = STREAM | DGRAM

record inet_address =
  host :: "octet list"
  port :: ushort
  family :: family

datatype profile =
    LocalProfile ulong "octet list" ulong "octet list"
  | IIOPProfile ulong ushort inet_address "octet list" "component list"
  | UIOPProfile ulong ushort "octet list" "octet list" "octet list" "component list"
  | MultiCompProfile ulong "component list"
  | UnknownProfile ulong "octet list"

record ior =
  oid :: "octet list"
  tags :: "profile list"

definition TAG_INTERNET_IOP :: ulong where "TAG_INTERNET_IOP = 0"
definition TAG_MULTIPLE_COMPONENTS :: ulong where "TAG_MULTIPLE_COMPONENTS = 1"
definition TAG_LOCAL :: ulong where "TAG_LOCAL = 20000"
definition TAG_UNIX_IOP :: ulong where "TAG_UNIX_IOP = 20002"
definition TAG_UDP_IOP :: ulong where "TAG_UDP_IOP = 20004"
definition TAG_CODE_SETS :: ulong where "TAG_CODE_SETS = 1"

fun component_id :: "component \<Rightarrow> ulong" where
  "component_id (UnknownComponent tag _) = tag"
| "component_id (CodesetComponent _ _ _ _) = TAG_CODE_SETS"

fun profile_id :: "profile \<Rightarrow> ulong" where
  "profile_id (LocalProfile tag _ _ _) = tag"
| "profile_id (IIOPProfile tag _ _ _ _) = tag"
| "profile_id (UIOPProfile tag _ _ _ _ _) = tag"
| "profile_id (MultiCompProfile tag _) = tag"
| "profile_id (UnknownProfile tag _) = tag"

section \<open>Comparison\<close>

text \<open>
  A comparison returns a \<open>Long\<close>, \<open>None\<close> when an assertion fails. \<open>mico_vec_compare\<close> asserts that the
  difference of two unsigned sizes is below \<open>INT_MAX\<close>, which it is not when the first is smaller.
\<close>

fun vec_compare :: "'a::len word list \<Rightarrow> 'a word list \<Rightarrow> int option" where
  "vec_compare [] [] = Some 0"
| "vec_compare [] (y # ys) = None"
| "vec_compare (x # xs) [] =
     (if length (x # xs) < 2147483647 then Some (int (length (x # xs))) else None)"
| "vec_compare (x # xs) (y # ys) =
     (if x < y then Some (- 1) else if y < x then Some 1 else vec_compare xs ys)"

fun key_compare :: "nat \<Rightarrow> octet list \<Rightarrow> octet list \<Rightarrow> int option" where
  "key_compare 0 k1 k2 = Some 0"
| "key_compare (Suc n) (x # k1) (y # k2) = (if x \<noteq> y then Some (uint x - uint y) else key_compare n k1 k2)"
| "key_compare (Suc n) _ _ = None"

text \<open>\<open>std::string::compare\<close>, by its sign.\<close>

fun str_compare :: "octet list \<Rightarrow> octet list \<Rightarrow> int" where
  "str_compare [] [] = 0"
| "str_compare [] (y # ys) = - 1"
| "str_compare (x # xs) [] = 1"
| "str_compare (x # xs) (y # ys) = (if x < y then - 1 else if y < x then 1 else str_compare xs ys)"

text \<open>The difference of two 32-bit values as a \<open>Long\<close>; the next comparison when the first is 0.\<close>

definition long_diff :: "ulong \<Rightarrow> ulong \<Rightarrow> int" where
  "long_diff a b = sint (a - b)"

definition then_compare :: "int option \<Rightarrow> int option \<Rightarrow> int option" where
  "then_compare r s = do { r \<leftarrow> r; if r \<noteq> 0 then Some r else s }"

definition codeset_compare ::
    "ulong \<times> ulong \<times> ulong list \<times> ulong list \<Rightarrow> ulong \<times> ulong \<times> ulong list \<times> ulong list \<Rightarrow> int option" where
  "codeset_compare = (\<lambda>(n1, w1, c1, d1) (n2, w2, c2, d2).
     if n1 \<noteq> n2 then Some (long_diff n1 n2)
     else if w1 \<noteq> w2 then Some (long_diff w1 w2)
     else then_compare (vec_compare c1 c2) (vec_compare d1 d2))"

definition unknown_compare :: "ulong \<Rightarrow> octet list \<Rightarrow> ulong \<Rightarrow> octet list \<Rightarrow> int option" where
  "unknown_compare a xs b ys = (if a \<noteq> b then Some (long_diff a b) else vec_compare xs ys)"

fun component_compare :: "component \<Rightarrow> component \<Rightarrow> int option" where
  "component_compare (UnknownComponent a xs) (UnknownComponent b ys) = unknown_compare a xs b ys"
| "component_compare (CodesetComponent n1 w1 c1 d1) (CodesetComponent n2 w2 c2 d2) =
     codeset_compare (n1, w1, c1, d1) (n2, w2, c2, d2)"
| "component_compare c d =
     (if component_id c \<noteq> component_id d then Some (long_diff (component_id c) (component_id d)) else None)"

fun multi_compare :: "component list \<Rightarrow> component list \<Rightarrow> int option" where
  "multi_compare (c # cs) (d # ds) = then_compare (component_compare c d) (multi_compare cs ds)"
| "multi_compare cs ds = Some (int (length cs) - int (length ds))"

definition resolve_ip :: "(octet list \<Rightarrow> octet list option) \<Rightarrow> inet_address \<Rightarrow> octet list option" where
  "resolve_ip resolve a = (if host a = [] then None else resolve (host a))"

definition inet_compare ::
    "(octet list \<Rightarrow> octet list option) \<Rightarrow> inet_address \<Rightarrow> inet_address \<Rightarrow> int option" where
  "inet_compare resolve a b =
     (if family a \<noteq> family b then Some (if family a = STREAM then - 1 else 1)
      else if port a \<noteq> port b then Some (uint (port a) - uint (port b))
      else case (resolve_ip resolve a, resolve_ip resolve b) of
             (None, None) \<Rightarrow> Some 0
           | (None, Some _) \<Rightarrow> Some (- 1)
           | (Some _, None) \<Rightarrow> Some 1
           | (Some x, Some y) \<Rightarrow> vec_compare x y)"

text \<open>The lengths of two object keys, then their octets as far as a \<open>Long\<close> counts.\<close>

definition objkey_compare :: "octet list \<Rightarrow> octet list \<Rightarrow> int option" where
  "objkey_compare k1 k2 =
     (let l1 = word_of_nat (length k1) :: ulong; l2 = word_of_nat (length k2) :: ulong
      in if l1 \<noteq> l2 then Some (long_diff l1 l2) else key_compare (nat (sint l1)) k1 k2)"

definition local_compare ::
    "ulong \<times> octet list \<times> ulong \<times> octet list \<Rightarrow> ulong \<times> octet list \<times> ulong \<times> octet list \<Rightarrow> int option" where
  "local_compare = (\<lambda>(a, h1, pid1, k1) (b, h2, pid2, k2).
     if a \<noteq> b then Some (long_diff a b)
     else if pid1 \<noteq> pid2 then Some (long_diff pid1 pid2)
     else then_compare (objkey_compare k1 k2) (Some (str_compare h1 h2)))"

definition iiop_compare ::
    "(octet list \<Rightarrow> octet list option) \<Rightarrow> ulong \<times> ushort \<times> inet_address \<times> octet list \<times> component list \<Rightarrow>
     ulong \<times> ushort \<times> inet_address \<times> octet list \<times> component list \<Rightarrow> int option" where
  "iiop_compare resolve = (\<lambda>(a, v1, addr1, k1, c1) (b, v2, addr2, k2, c2).
     if a \<noteq> b then Some (long_diff a b)
     else then_compare (objkey_compare k1 k2)
            (then_compare (Some (uint v1 - uint v2))
              (then_compare (inet_compare resolve addr1 addr2) (multi_compare c1 c2))))"

definition uiop_compare ::
    "ulong \<times> ushort \<times> octet list \<times> octet list \<times> octet list \<times> component list \<Rightarrow>
     ulong \<times> ushort \<times> octet list \<times> octet list \<times> octet list \<times> component list \<Rightarrow> int option" where
  "uiop_compare = (\<lambda>(a, v1, h1, f1, k1, c1) (b, v2, h2, f2, k2, c2).
     if a \<noteq> b then Some (long_diff a b)
     else then_compare (objkey_compare k1 k2)
            (then_compare (Some (uint v1 - uint v2))
              (then_compare (Some (str_compare h1 h2))
                (then_compare (Some (str_compare f1 f2)) (multi_compare c1 c2)))))"

definition multi_profile_compare :: "ulong \<Rightarrow> component list \<Rightarrow> ulong \<Rightarrow> component list \<Rightarrow> int option" where
  "multi_profile_compare a c1 b c2 = (if a \<noteq> b then Some (long_diff a b) else multi_compare c1 c2)"

text \<open>Profiles of the same id are of the same class.\<close>

fun profile_compare :: "(octet list \<Rightarrow> octet list option) \<Rightarrow> profile \<Rightarrow> profile \<Rightarrow> int option" where
  "profile_compare resolve (LocalProfile a h1 pid1 k1) (LocalProfile b h2 pid2 k2) =
     local_compare (a, h1, pid1, k1) (b, h2, pid2, k2)"
| "profile_compare resolve (IIOPProfile a v1 addr1 k1 c1) (IIOPProfile b v2 addr2 k2 c2) =
     iiop_compare resolve (a, v1, addr1, k1, c1) (b, v2, addr2, k2, c2)"
| "profile_compare resolve (UIOPProfile a v1 h1 f1 k1 c1) (UIOPProfile b v2 h2 f2 k2 c2) =
     uiop_compare (a, v1, h1, f1, k1, c1) (b, v2, h2, f2, k2, c2)"
| "profile_compare resolve (MultiCompProfile a c1) (MultiCompProfile b c2) = multi_profile_compare a c1 b c2"
| "profile_compare resolve (UnknownProfile a xs) (UnknownProfile b ys) = unknown_compare a xs b ys"
| "profile_compare resolve p q =
     (if profile_id p \<noteq> profile_id q then Some (long_diff (profile_id p) (profile_id q)) else None)"

text \<open>\<open>IOR::compare\<close> ignores the repository ids.\<close>

fun profiles_compare :: "(octet list \<Rightarrow> octet list option) \<Rightarrow> profile list \<Rightarrow> profile list \<Rightarrow> int option" where
  "profiles_compare resolve (p # ps) (q # qs) =
     then_compare (profile_compare resolve p q) (profiles_compare resolve ps qs)"
| "profiles_compare resolve [] (q # qs) = None"
| "profiles_compare resolve ps [] =
     (if length ps < 2147483647 then Some (int (length ps)) else None)"

definition ior_compare :: "(octet list \<Rightarrow> octet list option) \<Rightarrow> ior \<Rightarrow> ior \<Rightarrow> int option" where
  "ior_compare resolve a b = profiles_compare resolve (tags a) (tags b)"

text \<open>Insertion from the back: \<open>xs\<close> is the list reversed.\<close>

fun insert_back :: "('a \<Rightarrow> 'a \<Rightarrow> int option) \<Rightarrow> 'a \<Rightarrow> 'a list \<Rightarrow> 'a list option" where
  "insert_back cmp x [] = Some [x]"
| "insert_back cmp x (y # ys) = do {
     r \<leftarrow> cmp x y;
     if r < 0 then map_option ((#) y) (insert_back cmp x ys) else Some (x # y # ys)
   }"

definition add_ordered :: "('a \<Rightarrow> 'a \<Rightarrow> int option) \<Rightarrow> 'a \<Rightarrow> 'a list \<Rightarrow> 'a list option" where
  "add_ordered cmp x xs = do {
     require (length xs < 2147483647);
     map_option rev (insert_back cmp x (rev xs))
   }"

definition add_component :: "component \<Rightarrow> component list \<Rightarrow> component list option" where
  "add_component = add_ordered component_compare"

definition add_profile ::
    "(octet list \<Rightarrow> octet list option) \<Rightarrow> profile \<Rightarrow> profile list \<Rightarrow> profile list option" where
  "add_profile resolve = add_ordered (profile_compare resolve)"

section \<open>Encoding\<close>

text \<open>Raw data of an unknown tag starts with its order flag, over the one already written.\<close>

definition encode_unknown :: "octet list \<Rightarrow> encoder \<Rightarrow> encoder option" where
  "encode_unknown tagdata e = do {
     e \<leftarrow> on_ebuf (wseek_rel (- 1)) e;
     require (length tagdata < 4294967295);
     put_octets tagdata (word_of_nat (length tagdata)) e
   }"

definition encode_ulongs :: "ulong list \<Rightarrow> encoder \<Rightarrow> encoder option" where
  "encode_ulongs xs e = do {
     require (length xs < 4294967295);
     e \<leftarrow> enc_seq_begin (word_of_nat (length xs)) e;
     enc_loop put_ulong xs e
   }"

definition encode_codeset :: "ulong \<Rightarrow> ulong \<Rightarrow> ulong list \<Rightarrow> ulong list \<Rightarrow> encoder \<Rightarrow> encoder option" where
  "encode_codeset native_cs native_wcs conv_cs conv_wcs e = do {
     e \<leftarrow> put_ulong native_cs e;
     e \<leftarrow> encode_ulongs conv_cs e;
     e \<leftarrow> put_ulong native_wcs e;
     encode_ulongs conv_wcs e
   }"

fun encode_component :: "component \<Rightarrow> encoder \<Rightarrow> encoder option" where
  "encode_component (UnknownComponent tag tagdata) e = encode_unknown tagdata e"
| "encode_component (CodesetComponent native_cs native_wcs conv_cs conv_wcs) e =
     encode_codeset native_cs native_wcs conv_cs conv_wcs e"

text \<open>A component or profile: its id, and its encoding in an encapsulation.\<close>

definition encode_tagged :: "ulong \<Rightarrow> (encoder \<Rightarrow> encoder option) \<Rightarrow> encoder \<Rightarrow> encoder option" where
  "encode_tagged tag encode e = do {
     e \<leftarrow> put_ulong tag e;
     (state, e) \<leftarrow> enc_encaps_begin e;
     e \<leftarrow> encode e;
     enc_encaps_end state e
   }"

definition encode_multi :: "component list \<Rightarrow> encoder \<Rightarrow> encoder option" where
  "encode_multi comps e = do {
     require (length comps < 4294967295);
     e \<leftarrow> enc_seq_begin (word_of_nat (length comps)) e;
     enc_loop (\<lambda>c. encode_tagged (component_id c) (encode_component c)) comps e
   }"

definition encode_key :: "octet list \<Rightarrow> encoder \<Rightarrow> encoder option" where
  "encode_key objkey e = do {
     e \<leftarrow> enc_seq_begin (word_of_nat (length objkey)) e;
     put_octets objkey (word_of_nat (length objkey)) e
   }"

definition encode_local :: "octet list \<Rightarrow> ulong \<Rightarrow> octet list \<Rightarrow> encoder \<Rightarrow> encoder option" where
  "encode_local h pid objkey e = do {
     e \<leftarrow> put_string_raw (h @ [0]) e;
     e \<leftarrow> put_long pid e;
     encode_key objkey e
   }"

text \<open>\<open>InetAddress::host\<close> asserts that the address has a host name.\<close>

definition encode_iiop :: "ushort \<Rightarrow> inet_address \<Rightarrow> octet list \<Rightarrow> component list \<Rightarrow> encoder \<Rightarrow> encoder option" where
  "encode_iiop version addr objkey comps e = do {
     e \<leftarrow> put_octet (ucast (drop_bit 8 version)) e;
     e \<leftarrow> put_octet (ucast version) e;
     require (host addr \<noteq> []);
     e \<leftarrow> put_string_raw (host addr @ [0]) e;
     e \<leftarrow> put_ushort (port addr) e;
     e \<leftarrow> encode_key objkey e;
     if version \<ge> 0x0101 then encode_multi comps e else Some e
   }"

definition encode_uiop ::
    "ushort \<Rightarrow> octet list \<Rightarrow> octet list \<Rightarrow> octet list \<Rightarrow> component list \<Rightarrow> encoder \<Rightarrow> encoder option" where
  "encode_uiop version h filename objkey comps e = do {
     e \<leftarrow> put_octet (ucast (drop_bit 8 version)) e;
     e \<leftarrow> put_octet (ucast version) e;
     e \<leftarrow> put_string_raw (h @ [0]) e;
     e \<leftarrow> put_string_raw (filename @ [0]) e;
     e \<leftarrow> encode_key objkey e;
     if version \<ge> 0x0101 then encode_multi comps e else Some e
   }"

fun encode_profile :: "profile \<Rightarrow> encoder \<Rightarrow> encoder option" where
  "encode_profile (LocalProfile tag h pid objkey) e = encode_local h pid objkey e"
| "encode_profile (IIOPProfile tag version addr objkey comps) e = encode_iiop version addr objkey comps e"
| "encode_profile (UIOPProfile tag version h filename objkey comps) e = encode_uiop version h filename objkey comps e"
| "encode_profile (MultiCompProfile tag comps) e = encode_multi comps e"
| "encode_profile (UnknownProfile tag tagdata) e = encode_unknown tagdata e"

definition ior_encode :: "ior \<Rightarrow> encoder \<Rightarrow> encoder option" where
  "ior_encode i e = do {
     e \<leftarrow> put_string_raw (oid i @ [0]) e;
     require (length (tags i) < 4294967295);
     e \<leftarrow> enc_seq_begin (word_of_nat (length (tags i))) e;
     enc_loop (\<lambda>p. encode_tagged (profile_id p) (encode_profile p)) (tags i) e
   }"

section \<open>Decoding\<close>

text \<open>The tail of the component and profile decoders: octets taken from the buffer's memory.\<close>

definition dec_skip :: "ulong \<Rightarrow> decoder \<Rightarrow> decoder" where
  "dec_skip len d = d\<lparr>dbuf := snd (rseek_rel len (dbuf d))\<rparr>"

definition decode_unknown :: "ulong \<Rightarrow> octet list dec" where
  "decode_unknown len d =
     (if len > 10000 then dfail d
      else if buf_length (dbuf d) < len then dfail d
      else do {
        require (1 \<le> rptr (dbuf d));
        tagdata \<leftarrow> mem_read (mem (dbuf d)) (unat (rptr (dbuf d)) - 1) (unat len + 1);
        dret tagdata (dec_skip len d)
      })"

definition decode_key :: "octet list dec" where
  "decode_key = dbind dec_seq_begin (\<lambda>len d.
     if buf_length (dbuf d) \<ge> len then do {
       objkey \<leftarrow> mem_read (mem (dbuf d)) (unat (rptr (dbuf d))) (unat len);
       dret objkey (dec_skip len d)
     } else dfail d)"

definition decode_codeset :: "component dec" where
  "decode_codeset =
     dbind get_ulong (\<lambda>native_cs.
     dbind dec_seq_begin (\<lambda>len.
     dbind (dec_loop get_ulong (unat len)) (\<lambda>conv_cs.
     dbind get_ulong (\<lambda>native_wcs.
     dbind dec_seq_begin (\<lambda>len.
     dbind (dec_loop get_ulong (unat len)) (\<lambda>conv_wcs.
       dret (CodesetComponent native_cs native_wcs conv_cs conv_wcs)))))))"

definition component_body :: "ulong \<Rightarrow> ulong \<Rightarrow> component dec" where
  "component_body pid len =
     (if pid = TAG_CODE_SETS then decode_codeset
      else dbind (decode_unknown len) (\<lambda>tagdata. dret (UnknownComponent pid tagdata)))"

text \<open>
  \<open>Component::decode\<close> and \<open>IORProfile::decode\<close>: the body may leave octets of the encapsulation
  unread, and the position is set behind them before the body's result is looked at.
\<close>

definition decode_tagged :: "(ulong \<Rightarrow> ulong \<Rightarrow> 'a dec) \<Rightarrow> 'a dec" where
  "decode_tagged body =
     dbind get_ulong (\<lambda>pid.
     dbind (dec_encaps_begin no_encaps) (\<lambda>(state, len) d.
       let next_pos = rptr (dbuf d) + len in do {
         (p, d) \<leftarrow> body pid len d;
         dbind (dec_rseek_beg next_pos) (\<lambda>_.
           case p of
             None \<Rightarrow> dfail
           | Some v \<Rightarrow> dbind (dec_encaps_end state) (\<lambda>_. dret v)) d
       }))"

definition component_decode :: "component dec" where
  "component_decode = decode_tagged component_body"

text \<open>The loops of \<open>MultiComponent::decode\<close> and \<open>IOR::decode\<close>.\<close>

fun decode_each :: "'a dec \<Rightarrow> ('a \<Rightarrow> 'a list \<Rightarrow> 'a list option) \<Rightarrow> nat \<Rightarrow> 'a list \<Rightarrow> 'a list dec" where
  "decode_each gt add 0 xs = dret xs"
| "decode_each gt add (Suc n) xs =
     dbind gt (\<lambda>x d. do { xs \<leftarrow> add x xs; decode_each gt add n xs d })"

definition decode_multi :: "component list dec" where
  "decode_multi = dbind dec_seq_begin (\<lambda>len. decode_each component_decode add_component (unat len) [])"

text \<open>The constructors raise version 1.0 to 1.1 when there are components.\<close>

definition profile_version :: "ushort \<Rightarrow> component list \<Rightarrow> ushort" where
  "profile_version ver mc = (if ver < 0x0101 \<and> mc \<noteq> [] then 0x0101 else ver)"

definition join_version :: "octet \<Rightarrow> octet \<Rightarrow> ushort" where
  "join_version major minor = or (push_bit 8 (ucast major)) (ucast minor)"

definition decode_local :: "profile dec" where
  "decode_local =
     dbind get_string_raw_stl (\<lambda>h.
     dbind get_long (\<lambda>pid.
     dbind decode_key (\<lambda>objkey.
       dret (LocalProfile TAG_LOCAL h pid objkey))))"

definition decode_iiop :: "ulong \<Rightarrow> family \<Rightarrow> profile dec" where
  "decode_iiop tagid fam =
     dbind get_octet (\<lambda>major.
     dbind get_octet (\<lambda>minor.
     dbind get_string_raw_stl (\<lambda>h.
     dbind get_ushort (\<lambda>prt.
     dbind decode_key (\<lambda>objkey.
     dbind (if major > 1 \<or> minor > 0 then decode_multi else dret []) (\<lambda>comps.
       dret (IIOPProfile tagid (profile_version (join_version major minor) comps)
         \<lparr>host = h, port = prt, family = fam\<rparr> objkey comps)))))))"

definition decode_uiop :: "profile dec" where
  "decode_uiop =
     dbind get_octet (\<lambda>major.
     dbind get_octet (\<lambda>minor.
     if join_version major minor > 0x0102 then dfail
     else dbind get_string_raw_stl (\<lambda>h.
     dbind get_string_raw_stl (\<lambda>filename.
     dbind decode_key (\<lambda>objkey.
     dbind (if major > 1 \<or> minor > 0 then decode_multi else dret []) (\<lambda>comps.
       dret (UIOPProfile TAG_UNIX_IOP (profile_version (join_version major minor) comps)
         h filename objkey comps)))))))"

text \<open>The registered decoders, by the ids they answer to.\<close>

definition profile_body :: "ulong \<Rightarrow> ulong \<Rightarrow> profile dec" where
  "profile_body pid len =
     (if pid = TAG_LOCAL then decode_local
      else if pid = TAG_INTERNET_IOP then decode_iiop TAG_INTERNET_IOP STREAM
      else if pid = TAG_UDP_IOP then decode_iiop TAG_UDP_IOP DGRAM
      else if pid = TAG_UNIX_IOP then decode_uiop
      else if pid = TAG_MULTIPLE_COMPONENTS then dbind decode_multi (\<lambda>comps. dret (MultiCompProfile pid comps))
      else dbind (decode_unknown len) (\<lambda>tagdata. dret (UnknownProfile pid tagdata)))"

definition profile_decode :: "profile dec" where
  "profile_decode = decode_tagged profile_body"

definition ior_decode :: "(octet list \<Rightarrow> octet list option) \<Rightarrow> ior dec" where
  "ior_decode resolve =
     dbind get_string_raw_stl (\<lambda>oid.
     dbind dec_seq_begin (\<lambda>len.
     dbind (decode_each profile_decode (add_profile resolve) (unat len) []) (\<lambda>tags.
       dret \<lparr>oid = oid, tags = tags\<rparr>)))"

section \<open>Text\<close>

fun hex_loop :: "nat \<Rightarrow> buffer \<Rightarrow> string \<Rightarrow> string option" where
  "hex_loop 0 b s = Some s"
| "hex_loop (Suc n) b s = do {
     (r, b) \<leftarrow> get_octet_buf b;
     let x = (case r of Some x \<Rightarrow> x | None \<Rightarrow> 0);
     h \<leftarrow> mico_to_xdigit (and (drop_bit 4 x) 0xf);
     l \<leftarrow> mico_to_xdigit (and x 0xf);
     hex_loop n b (s @ [h, l])
   }"

definition stringify :: "byteorder \<Rightarrow> octet \<Rightarrow> ior \<Rightarrow> string option" where
  "stringify mach f i = do {
     let e = new_encoder mach (buffer_new f 0) DefaultEndian;
     e \<leftarrow> put_octet (if enc_byteorder e = BigEndian then 0 else 1) e;
     e \<leftarrow> ior_encode i e;
     hex_loop (nat (sint (buf_length (ebuf e)))) (ebuf e) ''IOR:''
   }"

text \<open>The octets of the text; the inner option is a character that is no digit.\<close>

fun from_hex :: "string \<Rightarrow> buffer \<Rightarrow> buffer option option" where
  "from_hex (h # l # s) b =
     (if \<not> isxdigit h \<or> \<not> isxdigit l then Some None
      else do {
        x \<leftarrow> mico_from_xdigit h;
        y \<leftarrow> mico_from_xdigit l;
        b \<leftarrow> put_octet_buf (or (push_bit 4 x) y) b;
        from_hex s b
      })"
| "from_hex _ b = Some (Some b)"

definition from_string :: "(octet list \<Rightarrow> octet list option) \<Rightarrow> byteorder \<Rightarrow> octet \<Rightarrow> string \<Rightarrow> ior option option" where
  "from_string resolve mach f s =
     (if take 4 s \<noteq> ''IOR:'' then Some None
      else do {
        require (length s < 4294967295);
        if odd (length s - 4) then Some None
        else do {
          r \<leftarrow> from_hex (drop 4 s) (buffer_new f 0);
          case r of
            None \<Rightarrow> Some None
          | Some b \<Rightarrow> do {
              (i, _) \<leftarrow> dbind get_octet (\<lambda>bo d.
                ior_decode resolve (dec_set_byteorder (if bo \<noteq> 0 then LittleEndian else BigEndian) d))
                (new_decoder mach b DefaultEndian None);
              Some i
            }
        }
      })"

text \<open>The class of a component or profile unfolds to its operations.\<close>

lemmas class_ops [simp] = codeset_compare_def unknown_compare_def local_compare_def iiop_compare_def uiop_compare_def
  multi_profile_compare_def encode_codeset_def encode_local_def encode_iiop_def encode_uiop_def

end
