(* ===== verification/IOR_Codec.thy ===== *)
theory IOR_Codec
  imports IOR
begin

text \<open>
  What the encoding of object references promises: components, profiles and whole references are
  marshalled types, and the text of a reference names it. A profile of an unknown tag passes through
  unchanged, whatever its byte order.
\<close>

section \<open>Data of unknown tags\<close>

lemma writes_back:
  assumes wf: "buf_wf b" and w: "writes b (xs @ [x]) c"
  shows "writes b xs (c\<lparr>wptr := wptr c - 1\<rparr>)" and "unat (wptr c - 1) = unat (wptr b) + length xs"
proof -
  note wb = buf_wfD [OF wf]
  have wc: "unat (wptr c) = unat (wptr b) + length xs + 1" "rptr c = rptr b" "buf_wf c"
    using w by (simp_all add: writes_def)
  then have "wptr c \<noteq> 0" by auto
  then show n: "unat (wptr c - 1) = unat (wptr b) + length xs" using wc(1) by (simp add: unat_minus_one)
  have "octets (c\<lparr>wptr := wptr c - 1\<rparr>) = butlast (octets c)"
    using n wc(1) buf_wfD(5) [OF wc(3)] by (simp add: octets_def drop_butlast [symmetric] butlast_take)
  also have "\<dots> = octets b @ xs" using w by (simp add: writes_def butlast_append)
  finally have "octets (c\<lparr>wptr := wptr c - 1\<rparr>) = octets b @ xs" .
  then show "writes b xs (c\<lparr>wptr := wptr c - 1\<rparr>)"
    using w wc n wb by (auto simp: writes_def buf_wf_def word_le_nat_alt)
qed

lemma emits_other: "emits e xs f \<Longrightarrow> writes (ebuf e) ys y \<Longrightarrow> emits e ys (f\<lparr>ebuf := y\<rparr>)"
  by (auto simp: emits_def)

lemma encode_unknown_emits:
  assumes ok: "enc_ok e" and data: "data \<noteq> []" and room: "has_room (10 + length data) e"
  shows "\<exists>e'. do { (st, e) \<leftarrow> enc_encaps_begin e; e \<leftarrow> encode_unknown data e; enc_encaps_end st e } = Some e' \<and>
     emits e (im_blob data (e_data_bo e) (woffe e)) e'"
proof -
  let ?P = "pad (woffe e) 4 @ word_image (e_data_bo e) 4 (0 :: ulong)" and ?al = "walignbase (ebuf e)"
  have room10: "has_room 10 e" using room by (rule has_room_mono) simp
  obtain st e1 where e1: "enc_encaps_begin e = Some (st, e1)"
    "st = \<lparr>es_pos = wptr (ebuf e), es_bo = e_data_bo e, es_align = ?al\<rparr>"
    "emits e (?P @ [bo_flag (e_data_bo e)]) (set_walign_base ?al e1)"
    "enc_ok e1" "woffe e1 = 1" "e_data_bo e1 = e_data_bo e"
    "unat (wptr (ebuf e1)) = unat (wptr (ebuf e)) + padlen (woffe e) 4 + 5"
    using encaps_begin_emits [OF ok room10] by auto
  have wf: "buf_wf (ebuf e)" using ok by (simp add: enc_ok_def)
  define e2 where "e2 = e1\<lparr>ebuf := (ebuf e1)\<lparr>wptr := wptr (ebuf e1) - 1\<rparr>\<rparr>"
  have w: "writes (ebuf e) (?P @ [bo_flag (e_data_bo e)]) (ebuf (set_walign_base ?al e1))"
    using e1(3) by (auto simp: emits_def)
  note bk = writes_back [OF wf w]
  have em2: "emits e ?P (set_walign_base ?al e2)"
  proof -
    have "b\<lparr>walignbase := p, wptr := q\<rparr> = b\<lparr>wptr := q, walignbase := p\<rparr>" for b :: buffer and p q by simp
    with emits_other [OF e1(3) bk(1)] show ?thesis by (simp only: e2_def set_walign_base_def) simp
  qed
  have base: "unat (walignbase (ebuf e1)) = unat (wptr (ebuf e1)) - 1"
    using e1(4,5) by (auto simp: woff_def enc_ok_def nowrap)
  have n1: "unat (wptr (ebuf e1) - 1) = unat (wptr (ebuf e1)) - 1"
    using bk(2) e1(7) by (simp add: set_walign_base_def)
  have rw: "rptr (ebuf e1) = rptr (ebuf e)" using emits_fields(7) [OF e1(3)] by (simp add: set_walign_base_def)
  have seek: "on_ebuf (wseek_rel (- 1)) e1 = Some e2"
    using e1(4) n1 e1(7) rw buf_wfD [OF wf] buf_wfD [of "ebuf e1"]
    by (auto simp: on_ebuf_def wseek_rel_def e2_def enc_ok_def word_le_nat_alt)
  have ok2: "enc_ok e2"
    using e1(4) em2 base n1 emits_fields(9) [OF em2]
    by (auto simp: enc_ok_def e2_def set_walign_base_def word_le_nat_alt buf_wf_def)
  have len: "length data < 4294967295" using room by (simp add: has_room_def)
  have "has_room (length data) e2"
    using room e1(7) n1 padlen_less [of 4 "woffe e"] by (simp add: has_room_def e2_def)
  then obtain e3 where e3: "put_octets data (word_of_nat (length data)) e2 = Some e3" "emits e2 data e3"
    using put_octets_emits [OF ok2, of "word_of_nat (length data)" data] len by (auto simp: nowrap)
  have "emits (set_walign_base ?al e2) data (set_walign_base ?al e3)"
    using walign_base_emits [of "walignbase (ebuf e2)" "set_walign_base ?al e2" data e3] e3(2)
    by (simp add: set_walign_base_def)
  from emits_trans [OF em2 this]
  have "emits e (pad (woffe e) 4 @ word_image (e_data_bo e) 4 (0 :: ulong) @ data) (set_walign_base ?al e3)" by simp
  moreover have "e_data_bo e3 = e_data_bo e" using emits_fields(1) [OF e3(2)] e1(6) by (simp add: e2_def)
  ultimately obtain e4 where "enc_encaps_end st e3 = Some e4"
    "emits e (pad (woffe e) 4 @ word_image (e_data_bo e) 4 (word_of_nat (length data) :: ulong) @ data) e4"
    using encaps_end_patch [OF ok room10] by (auto simp: e1(2))
  then show ?thesis
    using e1(1) seek e3(1) len
    by (simp add: encode_unknown_def im_blob_def im_seq_def im_ulong_def im_octets_def word_at_def)
qed

lemma encode_tagged_eq:
  "encode_tagged tag enc =
     (\<lambda>e. Option.bind (put_ulong tag e) (\<lambda>e. do { (st, e) \<leftarrow> enc_encaps_begin e; e \<leftarrow> enc e; enc_encaps_end st e }))"
  by (simp add: fun_eq_iff encode_tagged_def)

lemma appends_unknown:
  assumes "data \<noteq> []"
  shows "appends (encode_tagged tag (encode_unknown data)) (im_seq (im_ulong tag) (im_blob data)) (18 + length data)"
proof -
  have "appends (\<lambda>e. do { (st, e) \<leftarrow> enc_encaps_begin e; e \<leftarrow> encode_unknown data e; enc_encaps_end st e })
      (im_blob data) (10 + length data)"
  proof (rule appendsI)
    show "length (im_blob data bo p) \<le> 10 + length data" for bo p
      using padlen_less [of 4 p] by (simp add: im_blob_def im_seq_def im_ulong_def im_octets_def word_at_def)
  qed (rule encode_unknown_emits [OF _ assms])
  from appends_bind [OF appends_ulong [of tag] this] show ?thesis by (simp add: encode_tagged_eq)
qed

lemma appends_tagged:
  assumes "appends enc im n"
  shows "appends (encode_tagged tag enc) (im_seq (im_ulong tag) (im_encaps im)) (18 + n)"
  using appends_bind [OF appends_ulong [of tag] appends_encaps [OF assms]] by (simp add: encode_tagged_eq)

text \<open>The order flag of such data need not be the writer's.\<close>

lemma dec_encaps_begin_raw:
  assumes d: "dec_ok d" "quiet d" "octets (dbuf d) = im_blob (x # xs) (d_data_bo d) (roffd d) @ rest"
    and len: "length xs < 4294967295"
  shows "\<exists>d1. dec_encaps_begin st d =
      Some (Some (st\<lparr>es_align := ralignbase (dbuf d), es_bo := d_data_bo d\<rparr>, word_of_nat (length xs)), d1) \<and>
     buf_wf (dbuf d1) \<and> 1 \<le> unat (rptr (dbuf d1)) \<and> octets (dbuf d1) = xs @ rest \<and>
     mem_read (mem (dbuf d1)) (unat (rptr (dbuf d1)) - 1) (length xs + 1) = Some (x # xs) \<and>
     (\<forall>b2. reads (dbuf d1) xs b2 \<longrightarrow> consumes d (im_blob (x # xs) (d_data_bo d) (roffd d))
        (set_ralign_base (ralignbase (dbuf d)) (dec_set_byteorder (d_data_bo d) (d1\<lparr>dbuf := b2\<rparr>))))"
proof -
  define l where "l = (word_of_nat (length xs + 1) :: ulong)"
  have ul: "unat l = length xs + 1" using len by (simp add: l_def nowrap del: of_nat_add of_nat_Suc)
  have oct: "octets (dbuf d) = im_ulong l (d_data_bo d) (roffd d) @ (x # xs @ rest)"
    using d(3) by (simp add: im_blob_def im_seq_def im_octets_def l_def add.commute)
  from takesE [OF takes_ulong d(1,2) oct]
  obtain f where f: "get_ulong d = Some (Some l, f)" "consumes d (im_ulong l (d_data_bo d) (roffd d)) f"
    "dec_ok f" "octets (dbuf f) = x # xs @ rest" "d_data_bo f = d_data_bo d" by blast
  have "unat (buf_length (dbuf f)) = length (x # xs @ rest)"
    using unat_buf_length [OF consumes_fields(9) [OF f(2)]] f(4) by simp
  then have nl: "\<not> l > buf_length (dbuf f)" "l \<noteq> 0" using ul by (auto simp: word_less_nat_alt)
  define g where "g = set_ralign_base (rptr (dbuf f)) f"
  have gok: "dec_ok g" "octets (dbuf g) = x # xs @ rest"
    using f(3,4) by (auto simp: dec_ok_def g_def set_ralign_base_def)
  obtain h where h: "get_octet g = Some (Some x, h)" "consumes g [x] h"
    using octet_laws(2) [OF gok] by blast
  note hh = consumes_fields [OF h(2)]
  let ?bo = "if x = 0 then BigEndian else LittleEndian"
  let ?d1 = "dec_set_byteorder ?bo h"
  have l1: "l - 1 = word_of_nat (length xs)" by (simp add: l_def)
  have run: "dec_encaps_begin st d =
      Some (Some (st\<lparr>es_align := ralignbase (dbuf d), es_bo := d_data_bo d\<rparr>, word_of_nat (length xs)), ?d1)"
    using f(1) nl h(1) l1
    by (simp add: dec_encaps_begin_def dbind_def Let_def dret_def dec_byteorder_def flip: g_def)
  have rp: "unat (rptr (dbuf h)) = unat (rptr (dbuf g)) + 1" "mem (dbuf h) = mem (dbuf g)"
    using hh(6) h(2) by (auto simp: consumes_def reads_def)
  have wfg: "buf_wf (dbuf g)" using gok(1) by (simp add: dec_ok_def)
  have rd: "mem_read (mem (dbuf g)) (unat (rptr (dbuf g))) (length (x # xs)) = Some (x # xs)"
    by (rule mem_read_octets [OF wfg, of _ rest]) (simp add: gok(2))
  have fin: "consumes d (im_blob (x # xs) (d_data_bo d) (roffd d))
      (set_ralign_base (ralignbase (dbuf d)) (dec_set_byteorder (d_data_bo d) (?d1\<lparr>dbuf := b2\<rparr>)))"
    if "reads (dbuf h) xs b2" for b2
  proof -
    have "consumes h xs (h\<lparr>dbuf := b2\<rparr>)" using that by (auto simp: consumes_def)
    from consumes_trans [OF h(2) this] have "consumes g (x # xs) (h\<lparr>dbuf := b2\<rparr>)" by simp
    from consumes_trans [OF f(2) ralign_base_consumes [OF this [unfolded g_def]]]
    have "consumes d (im_ulong l (d_data_bo d) (roffd d) @ x # xs)
        (set_ralign_base (ralignbase (dbuf d)) (h\<lparr>dbuf := b2\<rparr>))"
      by (simp add: consumes_fields(7) [OF f(2)])
    moreover have "dec_set_byteorder (d_data_bo d) (?d1\<lparr>dbuf := b2\<rparr>) = h\<lparr>dbuf := b2\<rparr>"
      using hh(1) f(5) by (cases h) (simp add: dec_set_byteorder_def g_def set_ralign_base_def)
    ultimately show ?thesis
      by (simp add: im_blob_def im_seq_def im_octets_def l_def add.commute)
  qed
  show ?thesis
    using run hh(5,9) gok(2) rp rd fin by (intro exI [of _ ?d1]) (simp add: dec_set_byteorder_def)
qed
text \<open>The reader of a tag and an encapsulation whose body does not look at the announced length.\<close>

lemma position_after:
  fixes q r :: ulong
  shows "unat q = unat r + n \<Longrightarrow> r + word_of_nat n = q"
proof -
  assume "unat q = unat r + n"
  then have "word_of_nat (unat q) = (word_of_nat (unat r + n) :: ulong)" by simp
  then show ?thesis by simp
qed

lemma takes_tagged:
  assumes body: "\<And>len. takes (body tag len) v im"
  shows "takes (decode_tagged body) v (im_seq (im_ulong tag) (im_encaps im))"
  unfolding decode_tagged_def
proof (rule takes_bind [OF takes_ulong], rule takes_encapsI)
  fix a d1 rest
  assume d1: "dec_ok d1" "quiet d1" "roffd d1 = 1" "octets (dbuf d1) = im (d_data_bo d1) 1 @ rest"
  let ?len = "word_of_nat (length (im (d_data_bo d1) 1)) :: ulong"
  let ?st = "no_encaps\<lparr>es_align := a, es_bo := d_data_bo d1\<rparr>"
  from d1(4) have "octets (dbuf d1) = im (d_data_bo d1) (roffd d1) @ rest" by (simp only: d1(3))
  from takesE [OF body [of ?len] d1(1,2) this] obtain d2 where d2: "body tag ?len d1 = Some (Some v, d2)"
    "consumes d1 (im (d_data_bo d1) 1) d2" "d_data_bo d2 = d_data_bo d1" unfolding d1(3) by blast
  note f = consumes_fields [OF d2(2)]
  have "rptr (dbuf d1) + ?len = rptr (dbuf d2)" using f(6) by (rule position_after)
  moreover have "rseek_beg (rptr (dbuf d2)) (dbuf d2) = (True, dbuf d2)"
    using buf_wfD(2) [OF f(9)] by (simp add: rseek_beg_def word_less_nat_alt not_less)
  ultimately show "\<exists>d2. (case (?st, ?len) of (state, len) \<Rightarrow> \<lambda>d.
       let next_pos = rptr (dbuf d) + len in do {
         (p, d) \<leftarrow> body tag len d;
         dbind (dec_rseek_beg next_pos) (\<lambda>_.
           case p of None \<Rightarrow> dfail | Some v \<Rightarrow> dbind (dec_encaps_end state) (\<lambda>_. dret v)) d
       }) d1 = Some (Some v, set_ralign_base a d2) \<and> consumes d1 (im (d_data_bo d1) 1) d2"
    using d2 set_ralign_base_end [OF d2(3), where st = no_encaps and a = a]
    by (intro exI [of _ d2]) (simp add: dec_rseek_beg_def dbind_def dret_def)
qed

lemma takes_unknown:
  assumes body: "\<And>len. body tag len = dbind (decode_unknown len) (\<lambda>xs. dret (C xs))"
    and data: "data \<noteq> []" "length data \<le> 10001"
  shows "takes (decode_tagged body) (C data) (im_seq (im_ulong tag) (im_blob data))"
  unfolding decode_tagged_def
proof (rule takes_bind [OF takes_ulong], rule takesI)
  fix d rest
  obtain x xs where x: "data = x # xs" using data(1) by (cases data) auto
  have lt: "length xs < 4294967295" and small: "length xs \<le> 10000" using data(2) by (simp_all add: x)
  assume d: "dec_ok d" "quiet d" "octets (dbuf d) = im_blob data (d_data_bo d) (roffd d) @ rest"
  let ?len = "word_of_nat (length xs) :: ulong"
  have ul: "unat ?len = length xs" using lt by (simp add: nowrap)
  obtain d1 where d1: "dec_encaps_begin no_encaps d =
      Some (Some (no_encaps\<lparr>es_align := ralignbase (dbuf d), es_bo := d_data_bo d\<rparr>, ?len), d1)"
    "buf_wf (dbuf d1)" "1 \<le> unat (rptr (dbuf d1))" "octets (dbuf d1) = xs @ rest"
    "mem_read (mem (dbuf d1)) (unat (rptr (dbuf d1)) - 1) (length xs + 1) = Some (x # xs)"
    and en: "\<And>b2. reads (dbuf d1) xs b2 \<Longrightarrow> consumes d (im_blob (x # xs) (d_data_bo d) (roffd d))
        (set_ralign_base (ralignbase (dbuf d)) (dec_set_byteorder (d_data_bo d) (d1\<lparr>dbuf := b2\<rparr>)))"
    using dec_encaps_begin_raw [OF d(1,2) d(3) [unfolded x] lt, of no_encaps] by blast
  obtain b2 where b2: "rseek_rel ?len (dbuf d1) = (True, b2)" "reads (dbuf d1) xs b2"
    using rseek_rel_reads [OF d1(2,4) ul] by blast
  have "unat (buf_length (dbuf d1)) = length (xs @ rest)" using unat_buf_length [OF d1(2)] d1(4) by simp
  then have nl: "\<not> ?len > 10000" "\<not> buf_length (dbuf d1) < ?len" using ul small by (auto simp: word_less_nat_alt)
  have r1: "1 \<le> rptr (dbuf d1)" using d1(3) by (simp add: word_le_nat_alt)
  have body1: "body tag ?len d1 = Some (Some (C data), d1\<lparr>dbuf := b2\<rparr>)"
    using nl r1 d1(5) ul b2(1) by (simp add: body decode_unknown_def dbind_def dret_def dec_skip_def x)
  have wf2: "buf_wf b2" and r2: "unat (rptr b2) = unat (rptr (dbuf d1)) + length xs"
    using b2(2) by (simp_all add: reads_def)
  have "rptr (dbuf d1) + ?len = rptr b2" using r2 by (rule position_after)
  moreover have "rseek_beg (rptr b2) b2 = (True, b2)"
    using buf_wfD(2) [OF wf2] by (simp add: rseek_beg_def word_less_nat_alt not_less)
  ultimately show "\<exists>d'. dbind (dec_encaps_begin no_encaps) (\<lambda>(state, len) d.
       let next_pos = rptr (dbuf d) + len in do {
         (p, d) \<leftarrow> body tag len d;
         dbind (dec_rseek_beg next_pos) (\<lambda>_.
           case p of None \<Rightarrow> dfail | Some v \<Rightarrow> dbind (dec_encaps_end state) (\<lambda>_. dret v)) d
       }) d = Some (Some (C data), d') \<and> consumes d (im_blob data (d_data_bo d) (roffd d)) d'"
    using d1(1) body1 en [OF b2(2)]
    by (simp add: dec_rseek_beg_def dbind_def dret_def dec_encaps_end_def x)
qed

lemma takes_key: "length key < 4294967296 \<Longrightarrow> takes decode_key key (im_blob key)"
  unfolding decode_key_def im_blob_def
proof (rule takes_seq_begin)
  assume len: "length key < 4294967296"
  then have ul: "unat (word_of_nat (length key) :: ulong) = length key" by (simp add: nowrap)
  then show "unat (word_of_nat (length key) :: ulong) \<le> length (im_octets key bo p)" for bo p by (simp add: im_octets_def)
  show "takes (\<lambda>d. if word_of_nat (length key) \<le> buf_length (dbuf d)
       then do { objkey \<leftarrow> mem_read (mem (dbuf d)) (unat (rptr (dbuf d))) (unat (word_of_nat (length key) :: ulong));
                 dret objkey (dec_skip (word_of_nat (length key)) d) }
       else dfail d) key (im_octets key)"
  proof (rule takesI)
    fix d rest
    assume d: "dec_ok d" "octets (dbuf d) = im_octets key (d_data_bo d) (roffd d) @ rest"
    have wf: "buf_wf (dbuf d)" using d(1) by (simp add: dec_ok_def)
    have oct: "octets (dbuf d) = key @ rest" using d(2) by (simp add: im_octets_def)
    have "unat (buf_length (dbuf d)) = length (key @ rest)" using unat_buf_length [OF wf] oct by simp
    then have "word_of_nat (length key) \<le> buf_length (dbuf d)" using ul by (simp add: word_le_nat_alt)
    moreover obtain b where "rseek_rel (word_of_nat (length key)) (dbuf d) = (True, b)" "reads (dbuf d) key b"
      using rseek_rel_reads [OF wf oct ul] by blast
    ultimately show "\<exists>d'. (if word_of_nat (length key) \<le> buf_length (dbuf d)
         then do { objkey \<leftarrow> mem_read (mem (dbuf d)) (unat (rptr (dbuf d))) (unat (word_of_nat (length key) :: ulong));
                   dret objkey (dec_skip (word_of_nat (length key)) d) }
         else dfail d) = Some (Some key, d') \<and> consumes d (im_octets key (d_data_bo d) (roffd d)) d'"
      using mem_read_octets [OF wf oct] ul
      by (auto simp: dret_def dec_skip_def im_octets_def consumes_def)
  qed
qed

lemma appends_key: "length key < 4294967296 \<Longrightarrow> appends (encode_key key) (im_blob key) (8 + length key)"
  using appends_blob [of key] by (simp add: encode_key_def [abs_def] enc_seq_begin_def)

lemma appends_ulongs:
  "length xs < 4294967295 \<Longrightarrow> appends (encode_ulongs xs) (im_seq_of im_ulong xs) (8 + 8 * length xs)"
proof -
  assume "length xs < 4294967295"
  then have "encode_ulongs xs = (\<lambda>e. Option.bind (put_ulong (word_of_nat (length xs)) e) (enc_loop put_ulong xs))"
    by (simp add: encode_ulongs_def enc_seq_begin_def fun_eq_iff)
  moreover have "appends (enc_loop put_ulong xs) (im_list im_ulong xs) (sum_list (map (\<lambda>_. 8) xs))"
    by (rule appends_loop) (rule appends_ulong)
  ultimately show ?thesis
    using appends_bind [OF appends_ulong, of "enc_loop put_ulong xs"]
    by (simp add: im_seq_of_def sum_list_triv mult.commute)
qed

lemma length_im_ulong: "4 \<le> length (im_ulong w bo p)"
  by (simp add: im_ulong_def word_at_def)

text \<open>A counted loop, where each element has at least one octet.\<close>

lemma takes_counted:
  assumes len: "length xs < 4294967296" and one: "\<And>x bo p. x \<in> set xs \<Longrightarrow> 1 \<le> length (im x bo p)"
    and k: "takes (k (word_of_nat (length xs))) w (im_seq (im_list im xs) jm)"
  shows "takes (dbind dec_seq_begin k) w (im_seq (im_seq_of im xs) jm)"
proof -
  have u: "unat (word_of_nat (length xs) :: ulong) \<le> length (im_seq (im_list im xs) jm bo p)" for bo p
    using length_im_list [of xs im bo p] one len by (simp add: nowrap im_seq_def)
  show ?thesis unfolding im_seq_of_def im_seq_assoc by (rule takes_seq_begin) (rule u, rule k)
qed

lemma takes_ulongs:
  assumes "length xs < 4294967296" and "takes (k xs) w jm"
  shows "takes (dbind dec_seq_begin (\<lambda>len. dbind (dec_loop get_ulong (unat len)) k)) w (im_seq (im_seq_of im_ulong xs) jm)"
proof (rule takes_counted [OF assms(1)])
  show "1 \<le> length (im_ulong x bo p)" for x bo p using length_im_ulong [of x bo p] by linarith
  have u: "unat (word_of_nat (length xs) :: ulong) = length xs" using assms(1) by (simp add: nowrap)
  show "takes (dbind (dec_loop get_ulong (unat (word_of_nat (length xs) :: ulong))) k) w (im_seq (im_list im_ulong xs) jm)"
    unfolding u by (rule takes_bind [OF takes_loop]) (use takes_ulong assms(2) in auto)
qed

section \<open>Ordered lists\<close>

text \<open>A list in the order \<open>add_component\<close> and \<open>add_profile\<close> keep: no element before its predecessor.\<close>

fun in_order :: "('a \<Rightarrow> 'a \<Rightarrow> int option) \<Rightarrow> 'a list \<Rightarrow> bool" where
  "in_order cmp (x # y # zs) \<longleftrightarrow> (case cmp y x of Some r \<Rightarrow> 0 \<le> r | None \<Rightarrow> False) \<and> in_order cmp (y # zs)"
| "in_order cmp _ \<longleftrightarrow> True"

lemma in_order_mid: "in_order cmp (us @ y # z # zs) \<Longrightarrow> \<exists>r. cmp z y = Some r \<and> 0 \<le> r"
proof (induction us)
  case Nil
  then show ?case by (auto split: option.splits)
next
  case (Cons u us)
  then show ?case by (cases us) auto
qed

lemma add_last:
  assumes "in_order cmp (ys @ z # zs)" and "length ys < 2147483647"
  shows "add_ordered cmp z ys = Some (ys @ [z])"
proof (cases ys rule: rev_cases)
  case Nil
  then show ?thesis by (simp add: add_ordered_def)
next
  case (snoc us y)
  then obtain r where "cmp z y = Some r" "0 \<le> r" using in_order_mid [of cmp us y z zs] assms(1) by auto
  then show ?thesis using assms(2) snoc by (simp add: add_ordered_def)
qed

lemma takes_each:
  assumes "\<And>x. x \<in> set xs \<Longrightarrow> takes gt x (im x)" and "in_order cmp (acc @ xs)" and "length (acc @ xs) < 2147483648"
  shows "takes (decode_each gt (add_ordered cmp) (length xs) acc) (acc @ xs) (im_list im xs)"
  using assms
proof (induction xs arbitrary: acc)
  case Nil
  then show ?case by (simp add: takes_ret)
next
  case (Cons x xs)
  have ih: "takes (decode_each gt (add_ordered cmp) (length xs) (acc @ [x])) ((acc @ [x]) @ xs) (im_list im xs)"
    by (rule Cons.IH) (use Cons.prems in simp_all)
  have "add_ordered cmp x acc = Some (acc @ [x])"
    by (rule add_last [of cmp acc x xs]) (use Cons.prems in simp_all)
  with ih have "takes (\<lambda>d. do { ys \<leftarrow> add_ordered cmp x acc; decode_each gt (add_ordered cmp) (length xs) ys d })
      (acc @ x # xs) (im_list im xs)" by simp
  from takes_bind [OF Cons.prems(1) [of x], where k = "\<lambda>x d. do { ys \<leftarrow> add_ordered cmp x acc;
      decode_each gt (add_ordered cmp) (length xs) ys d }", OF _ this]
  show ?case by simp
qed

section \<open>Components\<close>

fun component_ok :: "component \<Rightarrow> bool" where
  "component_ok (UnknownComponent tag xs) \<longleftrightarrow> tag \<noteq> TAG_CODE_SETS \<and> xs \<noteq> [] \<and> length xs \<le> 10001"
| "component_ok (CodesetComponent _ _ c d) \<longleftrightarrow> length c < 4294967295 \<and> length d < 4294967295"

fun component_image :: "component \<Rightarrow> image_at" where
  "component_image (UnknownComponent tag xs) = im_seq (im_ulong tag) (im_blob xs)"
| "component_image (CodesetComponent n w c d) = im_seq (im_ulong TAG_CODE_SETS) (im_encaps
     (im_seq (im_ulong n) (im_seq (im_seq_of im_ulong c) (im_seq (im_ulong w) (im_seq_of im_ulong d)))))"

fun component_size :: "component \<Rightarrow> nat" where
  "component_size (UnknownComponent tag xs) = 18 + length xs"
| "component_size (CodesetComponent n w c d) = 50 + 8 * length c + 8 * length d"

lemma codeset_marshalled:
  assumes "length c < 4294967295" and "length d < 4294967295"
  shows "appends (encode_component (CodesetComponent n w c d))
      (im_seq (im_ulong n) (im_seq (im_seq_of im_ulong c) (im_seq (im_ulong w) (im_seq_of im_ulong d))))
      (8 + ((8 + 8 * length c) + (8 + (8 + 8 * length d))))"
    and "takes decode_codeset (CodesetComponent n w c d)
      (im_seq (im_ulong n) (im_seq (im_seq_of im_ulong c) (im_seq (im_ulong w) (im_seq_of im_ulong d))))"
proof -
  have "encode_component (CodesetComponent n w c d) = (\<lambda>e. Option.bind (put_ulong n e) (\<lambda>e. Option.bind (encode_ulongs c e)
      (\<lambda>e. Option.bind (put_ulong w e) (encode_ulongs d))))" by (simp add: fun_eq_iff)
  then show "appends (encode_component (CodesetComponent n w c d))
      (im_seq (im_ulong n) (im_seq (im_seq_of im_ulong c) (im_seq (im_ulong w) (im_seq_of im_ulong d))))
      (8 + ((8 + 8 * length c) + (8 + (8 + 8 * length d))))"
    using appends_bind [OF appends_ulong appends_bind [OF appends_ulongs [OF assms(1)]
        appends_bind [OF appends_ulong appends_ulongs [OF assms(2)]]]] by simp
  have l: "length c < 4294967296" "length d < 4294967296" using assms by simp_all
  have d: "takes (dbind dec_seq_begin (\<lambda>len. dbind (dec_loop get_ulong (unat len)) (\<lambda>ds. dret (CodesetComponent n w c ds))))
      (CodesetComponent n w c d) (im_seq_of im_ulong d)"
    using takes_ulongs [OF l(2), where k = "\<lambda>ds. dret (CodesetComponent n w c ds)", OF takes_ret] by simp
  show "takes decode_codeset (CodesetComponent n w c d)
      (im_seq (im_ulong n) (im_seq (im_seq_of im_ulong c) (im_seq (im_ulong w) (im_seq_of im_ulong d))))"
    unfolding decode_codeset_def
    by (rule takes_bind [OF takes_ulong], rule takes_ulongs [OF l(1)], rule takes_bind [OF takes_ulong], rule d)
qed

interpretation component: marshalled component_ok "\<lambda>c. encode_tagged (component_id c) (encode_component c)"
  component_decode component_image component_size
proof
  fix c assume ok: "component_ok c"
  show "appends (encode_tagged (component_id c) (encode_component c)) (component_image c) (component_size c)"
  proof (cases c)
    case (UnknownComponent tag xs)
    moreover have "encode_component (UnknownComponent tag xs) = encode_unknown xs" by (simp add: fun_eq_iff)
    ultimately show ?thesis using ok appends_unknown [of xs tag] by simp
  next
    case (CodesetComponent n w cs ds)
    with ok have l: "length cs < 4294967295" "length ds < 4294967295" by simp_all
    from appends_tagged [OF codeset_marshalled(1) [OF l], of TAG_CODE_SETS n w] show ?thesis
      by (simp add: CodesetComponent add.assoc)
  qed
  show "takes component_decode c (component_image c)"
  proof (cases c)
    case (UnknownComponent tag xs)
    then show ?thesis using ok takes_unknown [of component_body tag "UnknownComponent tag" xs]
      by (simp add: component_decode_def component_body_def)
  next
    case (CodesetComponent n w cs ds)
    with ok have l: "length cs < 4294967295" "length ds < 4294967295" by simp_all
    from takes_tagged [of component_body TAG_CODE_SETS c] codeset_marshalled(2) [OF l, of n w] show ?thesis
      by (simp add: CodesetComponent component_decode_def component_body_def)
  qed
qed

lemma length_tagged: "1 \<le> length (im_seq (im_ulong t) jm bo p)"
  using length_im_ulong [of t bo p] by (simp add: im_seq_def)

lemma component_image_length: "1 \<le> length (component_image c bo p)"
  by (cases c) (simp_all only: component_image.simps length_tagged)

definition multi_ok :: "component list \<Rightarrow> bool" where
  "multi_ok cs \<longleftrightarrow> list_all component_ok cs \<and> length cs < 2147483648 \<and> in_order component_compare cs"

definition multi_size :: "component list \<Rightarrow> nat" where
  "multi_size cs = 8 + sum_list (map component_size cs)"

interpretation multi: marshalled multi_ok encode_multi decode_multi "im_seq_of component_image" multi_size
proof
  fix cs assume ok: "multi_ok cs"
  then have len: "length cs < 4294967295" by (simp add: multi_ok_def)
  then have "encode_multi cs = (\<lambda>e. Option.bind (put_ulong (word_of_nat (length cs)) e)
      (enc_loop (\<lambda>c. encode_tagged (component_id c) (encode_component c)) cs))"
    by (simp add: encode_multi_def enc_seq_begin_def fun_eq_iff)
  then show "appends (encode_multi cs) (im_seq_of component_image cs) (multi_size cs)"
    using appends_bind [OF appends_ulong component.put_list] ok
    by (simp add: multi_ok_def multi_size_def im_seq_of_def)
  have u: "unat (word_of_nat (length cs) :: ulong) = length cs" using len by (simp add: nowrap)
  have "takes (decode_each component_decode add_component (unat (word_of_nat (length cs) :: ulong)) []) cs
      (im_seq (im_list component_image cs) im_nil)"
    using takes_each [of cs component_decode component_image component_compare "[]"] ok component.get_im
    by (simp add: u add_component_def multi_ok_def list_all_iff)
  then have "takes (dbind dec_seq_begin (\<lambda>len. decode_each component_decode add_component (unat len) [])) cs
      (im_seq (im_seq_of component_image cs) im_nil)"
    by (intro takes_counted component_image_length) (use len in simp_all)
  then show "takes decode_multi cs (im_seq_of component_image cs)" by (simp add: decode_multi_def)
qed

section \<open>Profiles\<close>

lemma join_split: "join_version (ucast (drop_bit 8 v)) (ucast v) = v"
  unfolding join_version_def by (rule bit_word_eqI) (auto simp: bit_simps)

lemma version_octets:
  assumes "0x0100 \<le> (v :: ushort)"
  shows "ucast (drop_bit 8 v) > (1 :: octet) \<or> ucast v > (0 :: octet) \<longleftrightarrow> 0x0101 \<le> v"
proof -
  have lt: "unat v < 65536" using unsigned_less [of v] by simp
  have d: "unat (drop_bit 8 v) = unat v div 256" by (simp only: unat_drop_bit_eq) (simp add: drop_bit_eq_div)
  have u: "unat (ucast (drop_bit 8 v) :: octet) = unat v div 256" "unat (ucast v :: octet) = unat v mod 256"
    using lt by (simp_all add: unsigned_ucast_eq take_bit_eq_mod d)
  have "256 \<le> unat v" using assms by (simp add: word_le_nat_alt)
  define q r where "q = unat v div 256" and "r = unat v mod 256"
  have "unat v = 256 * q + r" "r < 256" by (simp_all add: q_def r_def)
  with \<open>256 \<le> unat v\<close> have "1 < q \<or> 0 < r \<longleftrightarrow> 257 \<le> unat v" by presburger
  moreover have "ucast (drop_bit 8 v) > (1 :: octet) \<longleftrightarrow> 1 < q" "ucast v > (0 :: octet) \<longleftrightarrow> 0 < r"
    using u by (simp_all only: word_less_nat_alt q_def r_def) simp_all
  ultimately show ?thesis by (simp add: word_le_nat_alt)
qed

definition c_octets :: "octet list \<Rightarrow> bool" where
  "c_octets s \<longleftrightarrow> 0 \<notin> set s \<and> length s < 4294967295"

fun profile_ok :: "profile \<Rightarrow> bool" where
  "profile_ok (LocalProfile tag h pid key) \<longleftrightarrow> tag = TAG_LOCAL \<and> c_octets h \<and> length key < 4294967296"
| "profile_ok (IIOPProfile tag v addr key comps) \<longleftrightarrow>
     (tag = TAG_INTERNET_IOP \<and> family addr = STREAM \<or> tag = TAG_UDP_IOP \<and> family addr = DGRAM) \<and>
     0x0100 \<le> v \<and> (v = 0x0100 \<longrightarrow> comps = []) \<and> host addr \<noteq> [] \<and> c_octets (host addr) \<and>
     length key < 4294967296 \<and> multi_ok comps"
| "profile_ok (UIOPProfile tag v h filename key comps) \<longleftrightarrow>
     tag = TAG_UNIX_IOP \<and> 0x0100 \<le> v \<and> v \<le> 0x0102 \<and> (v = 0x0100 \<longrightarrow> comps = []) \<and>
     c_octets h \<and> c_octets filename \<and> length key < 4294967296 \<and> multi_ok comps"
| "profile_ok (MultiCompProfile tag comps) \<longleftrightarrow> tag = TAG_MULTIPLE_COMPONENTS \<and> multi_ok comps"
| "profile_ok (UnknownProfile tag xs) \<longleftrightarrow>
     tag \<notin> {TAG_LOCAL, TAG_INTERNET_IOP, TAG_UDP_IOP, TAG_UNIX_IOP, TAG_MULTIPLE_COMPONENTS} \<and>
     xs \<noteq> [] \<and> length xs \<le> 10001"

definition im_comps :: "ushort \<Rightarrow> component list \<Rightarrow> image_at" where
  "im_comps v comps = (if 0x0101 \<le> v then im_seq_of component_image comps else im_nil)"

fun body_image :: "profile \<Rightarrow> image_at" where
  "body_image (LocalProfile tag h pid key) = im_seq (im_string h) (im_seq (im_ulong pid) (im_blob key))"
| "body_image (IIOPProfile tag v addr key comps) =
     im_seq (im_octets [ucast (drop_bit 8 v)]) (im_seq (im_octets [ucast v])
       (im_seq (im_string (host addr)) (im_seq (im_ushort (port addr)) (im_seq (im_blob key) (im_comps v comps)))))"
| "body_image (UIOPProfile tag v h filename key comps) =
     im_seq (im_octets [ucast (drop_bit 8 v)]) (im_seq (im_octets [ucast v])
       (im_seq (im_string h) (im_seq (im_string filename) (im_seq (im_blob key) (im_comps v comps)))))"
| "body_image (MultiCompProfile tag comps) = im_seq_of component_image comps"
| "body_image (UnknownProfile tag xs) = im_nil"

fun body_size :: "profile \<Rightarrow> nat" where
  "body_size (LocalProfile tag h pid key) = (9 + length h) + (8 + (8 + length key))"
| "body_size (IIOPProfile tag v addr key comps) =
     2 + (2 + ((9 + length (host addr)) + (4 + ((8 + length key) + multi_size comps))))"
| "body_size (UIOPProfile tag v h filename key comps) =
     2 + (2 + ((9 + length h) + ((9 + length filename) + ((8 + length key) + multi_size comps))))"
| "body_size (MultiCompProfile tag comps) = multi_size comps"
| "body_size (UnknownProfile tag xs) = length xs"

definition profile_image :: "profile \<Rightarrow> image_at" where
  "profile_image p = im_seq (im_ulong (profile_id p))
     (case p of UnknownProfile tag xs \<Rightarrow> im_blob xs | _ \<Rightarrow> im_encaps (body_image p))"

definition profile_size :: "profile \<Rightarrow> nat" where
  "profile_size p = 18 + body_size p"

lemma appends_comps:
  assumes "multi_ok comps"
  shows "appends (\<lambda>e. if 0x0101 \<le> v then encode_multi comps e else Some e) (im_comps v comps) (multi_size comps)"
  using multi.put_im [OF assms] appends_mono [OF appends_done] by (simp add: im_comps_def)

lemma takes_comps:
  assumes "multi_ok comps" and "0x0100 \<le> v" and "v = 0x0100 \<longrightarrow> comps = []"
  shows "takes (if ucast (drop_bit 8 v) > (1 :: octet) \<or> ucast v > (0 :: octet) then decode_multi else dret [])
     comps (im_comps v comps)"
proof (cases "0x0101 \<le> v")
  case True
  then show ?thesis using multi.get_im [OF assms(1)] version_octets [OF assms(2)] by (simp add: im_comps_def)
next
  case False
  then have "unat v = 256" using assms(2) by (auto simp: word_le_nat_alt)
  then have "v = 0x0100" by (simp add: word_unat_eq_iff)
  then show ?thesis using False assms(3) version_octets [OF assms(2)] takes_ret [of "[]"] by (simp add: im_comps_def)
qed

lemma version_kept: "0x0100 \<le> v \<Longrightarrow> (v = 0x0100 \<longrightarrow> comps = []) \<Longrightarrow> profile_version v comps = v"
proof -
  assume v: "0x0100 \<le> v" "v = 0x0100 \<longrightarrow> comps = []"
  have "\<not> (v < 0x0101 \<and> comps \<noteq> [])"
  proof
    assume lt: "v < 0x0101 \<and> comps \<noteq> []"
    then have "unat v = 256" using v(1) by (auto simp: word_le_nat_alt word_less_nat_alt)
    then have "v = 0x0100" by (simp add: word_unat_eq_iff)
    then show False using v(2) lt by simp
  qed
  then show ?thesis unfolding profile_version_def by (rule if_not_P)
qed

lemma appends_local:
  assumes "profile_ok (LocalProfile tag h pid key)"
  shows "appends (encode_profile (LocalProfile tag h pid key)) (body_image (LocalProfile tag h pid key))
     (body_size (LocalProfile tag h pid key))"
proof -
  have "encode_profile (LocalProfile tag h pid key) = (\<lambda>e. Option.bind (put_string_raw (h @ [0]) e)
      (\<lambda>e. Option.bind (put_long pid e) (encode_key key)))" by (simp add: fun_eq_iff)
  then show ?thesis using assms
    appends_bind [OF appends_string appends_bind [OF appends_long appends_key], of h key pid]
    by (simp add: c_octets_def)
qed

lemma appends_iiop:
  assumes "profile_ok (IIOPProfile tag v addr key comps)"
  shows "appends (encode_profile (IIOPProfile tag v addr key comps)) (body_image (IIOPProfile tag v addr key comps))
     (body_size (IIOPProfile tag v addr key comps))"
proof -
  have "encode_profile (IIOPProfile tag v addr key comps) =
      (\<lambda>e. Option.bind (put_octet (ucast (drop_bit 8 v)) e) (\<lambda>e. Option.bind (put_octet (ucast v) e)
        (\<lambda>e. Option.bind (put_string_raw (host addr @ [0]) e) (\<lambda>e. Option.bind (put_ushort (port addr) e)
          (\<lambda>e. Option.bind (encode_key key e) (\<lambda>e. if 0x0101 \<le> v then encode_multi comps e else Some e))))))"
    using assms by (simp add: fun_eq_iff)
  then show ?thesis
    using assms appends_bind [OF appends_octet [of "ucast (drop_bit 8 v)"] appends_bind [OF appends_octet [of "ucast v"]
      appends_bind [OF appends_string [of "host addr"] appends_bind [OF appends_ushort [of "port addr"]
        appends_bind [OF appends_key [of key] appends_comps [of comps v]]]]]]
    by (simp add: c_octets_def)
qed

lemma appends_uiop:
  assumes "profile_ok (UIOPProfile tag v h filename key comps)"
  shows "appends (encode_profile (UIOPProfile tag v h filename key comps))
     (body_image (UIOPProfile tag v h filename key comps)) (body_size (UIOPProfile tag v h filename key comps))"
proof -
  have "encode_profile (UIOPProfile tag v h filename key comps) =
      (\<lambda>e. Option.bind (put_octet (ucast (drop_bit 8 v)) e) (\<lambda>e. Option.bind (put_octet (ucast v) e)
        (\<lambda>e. Option.bind (put_string_raw (h @ [0]) e) (\<lambda>e. Option.bind (put_string_raw (filename @ [0]) e)
          (\<lambda>e. Option.bind (encode_key key e) (\<lambda>e. if 0x0101 \<le> v then encode_multi comps e else Some e))))))"
    by (simp add: fun_eq_iff)
  then show ?thesis
    using assms appends_bind [OF appends_octet [of "ucast (drop_bit 8 v)"] appends_bind [OF appends_octet [of "ucast v"]
      appends_bind [OF appends_string [of h] appends_bind [OF appends_string [of filename]
        appends_bind [OF appends_key [of key] appends_comps [of comps v]]]]]]
    by (simp add: c_octets_def)
qed

lemma takes_local:
  assumes "profile_ok (LocalProfile tag h pid key)"
  shows "takes decode_local (LocalProfile tag h pid key) (body_image (LocalProfile tag h pid key))"
proof -
  have h: "0 \<notin> set h" "length h < 4294967295" "length key < 4294967296" "tag = TAG_LOCAL"
    using assms by (simp_all add: c_octets_def)
  have "takes decode_local (LocalProfile TAG_LOCAL h pid key)
      (im_seq (im_string h) (im_seq (im_ulong pid) (im_seq (im_blob key) im_nil)))"
    unfolding decode_local_def
    by (rule takes_bind [OF takes_string(2) [OF h(1,2)]], rule takes_bind [OF takes_long],
        rule takes_bind [OF takes_key [OF h(3)]], rule takes_ret)
  then show ?thesis by (simp add: h(4))
qed

lemma takes_iiop:
  assumes "profile_ok (IIOPProfile tag v addr key comps)"
  shows "takes (decode_iiop tag (family addr)) (IIOPProfile tag v addr key comps) (body_image (IIOPProfile tag v addr key comps))"
proof -
  have h: "0 \<notin> set (host addr)" "length (host addr) < 4294967295" "length key < 4294967296" "multi_ok comps"
    "0x0100 \<le> v" "v = 0x0100 \<longrightarrow> comps = []"
    using assms by (simp_all add: c_octets_def)
  have r: "dret (IIOPProfile tag (profile_version (join_version (ucast (drop_bit 8 v)) (ucast v)) comps)
      \<lparr>host = host addr, port = port addr, family = family addr\<rparr> key comps) = dret (IIOPProfile tag v addr key comps)"
    using version_kept [OF h(5,6)] by (cases addr) (simp add: join_split)
  have "takes (decode_iiop tag (family addr)) (IIOPProfile tag v addr key comps)
      (im_seq (im_octets [ucast (drop_bit 8 v)]) (im_seq (im_octets [ucast v])
       (im_seq (im_string (host addr)) (im_seq (im_ushort (port addr)) (im_seq (im_blob key)
         (im_seq (im_comps v comps) im_nil))))))"
    unfolding decode_iiop_def
    by (rule takes_bind [OF takes_octet], rule takes_bind [OF takes_octet],
        rule takes_bind [OF takes_string(2) [OF h(1,2)]], rule takes_bind [OF takes_ushort],
        rule takes_bind [OF takes_key [OF h(3)]], rule takes_bind [OF takes_comps [OF h(4-6)]],
        unfold r, rule takes_ret)
  then show ?thesis by simp
qed

lemma takes_uiop:
  assumes "profile_ok (UIOPProfile tag v h filename key comps)"
  shows "takes decode_uiop (UIOPProfile tag v h filename key comps) (body_image (UIOPProfile tag v h filename key comps))"
proof -
  have h: "0 \<notin> set h" "length h < 4294967295" "0 \<notin> set filename" "length filename < 4294967295"
    "length key < 4294967296" "multi_ok comps" "0x0100 \<le> v" "v = 0x0100 \<longrightarrow> comps = []" "tag = TAG_UNIX_IOP"
    using assms by (simp_all add: c_octets_def)
  have j: "join_version (ucast (drop_bit 8 v)) (ucast v) = v" by (rule join_split)
  have le: "\<not> join_version (ucast (drop_bit 8 v)) (ucast v) > 0x0102" using assms by (simp add: j not_less)
  have r: "dret (UIOPProfile TAG_UNIX_IOP (profile_version (join_version (ucast (drop_bit 8 v)) (ucast v)) comps)
      h filename key comps) = dret (UIOPProfile tag v h filename key comps)"
    using version_kept [OF h(7,8)] by (simp add: j h(9))
  have "takes decode_uiop (UIOPProfile tag v h filename key comps)
      (im_seq (im_octets [ucast (drop_bit 8 v)]) (im_seq (im_octets [ucast v])
       (im_seq (im_string h) (im_seq (im_string filename) (im_seq (im_blob key)
         (im_seq (im_comps v comps) im_nil))))))"
    unfolding decode_uiop_def
    by (rule takes_bind [OF takes_octet], rule takes_bind [OF takes_octet], unfold if_not_P [OF le],
        rule takes_bind [OF takes_string(2) [OF h(1,2)]], rule takes_bind [OF takes_string(2) [OF h(3,4)]],
        rule takes_bind [OF takes_key [OF h(5)]], rule takes_bind [OF takes_comps [OF h(6-8)]],
        unfold r, rule takes_ret)
  then show ?thesis by simp
qed

lemma body_marshalled:
  assumes "profile_ok p" and "\<And>tag xs. p \<noteq> UnknownProfile tag xs"
  shows "appends (encode_profile p) (body_image p) (body_size p)"
    and "takes (profile_body (profile_id p) len) p (body_image p)"
proof -
  show "appends (encode_profile p) (body_image p) (body_size p)"
  proof (cases p)
    case (MultiCompProfile tag comps)
    then have "encode_profile p = encode_multi comps" by (simp add: fun_eq_iff)
    then show ?thesis using assms(1) multi.put_im MultiCompProfile by simp
  qed (use assms appends_local appends_iiop appends_uiop in auto)
  note ids = TAG_LOCAL_def TAG_INTERNET_IOP_def TAG_UDP_IOP_def TAG_UNIX_IOP_def TAG_MULTIPLE_COMPONENTS_def
  show "takes (profile_body (profile_id p) len) p (body_image p)"
  proof (cases p)
    case (LocalProfile tag h pid key)
    then show ?thesis using assms(1) takes_local by (simp add: profile_body_def)
  next
    case (IIOPProfile tag v addr key comps)
    then have "profile_body (profile_id p) len = decode_iiop tag (family addr)"
      using assms(1) by (auto simp: profile_body_def ids)
    then show ?thesis using assms(1) takes_iiop IIOPProfile by simp
  next
    case (UIOPProfile tag v h filename key comps)
    then have "profile_body (profile_id p) len = decode_uiop"
      using assms(1) by (auto simp: profile_body_def ids)
    then show ?thesis using assms(1) takes_uiop UIOPProfile by simp
  next
    case (MultiCompProfile tag comps)
    then have "profile_body (profile_id p) len = dbind decode_multi (\<lambda>comps. dret (MultiCompProfile tag comps))"
      using assms(1) by (auto simp: profile_body_def ids)
    moreover have "takes (dbind decode_multi (\<lambda>comps. dret (MultiCompProfile tag comps))) p
        (im_seq (im_seq_of component_image comps) im_nil)"
      unfolding MultiCompProfile by (rule takes_bind [OF multi.get_im takes_ret]) (use assms(1) MultiCompProfile in simp)
    ultimately show ?thesis by (simp add: MultiCompProfile)
  qed (use assms(2) in blast)
qed

interpretation profile: marshalled profile_ok "\<lambda>p. encode_tagged (profile_id p) (encode_profile p)"
  profile_decode profile_image profile_size
proof
  fix p assume ok: "profile_ok p"
  show "appends (encode_tagged (profile_id p) (encode_profile p)) (profile_image p) (profile_size p)"
  proof (cases "\<exists>tag xs. p = UnknownProfile tag xs")
    case True
    then obtain tag xs where p: "p = UnknownProfile tag xs" by blast
    have "encode_profile p = encode_unknown xs" by (simp add: p fun_eq_iff)
    then show ?thesis using ok appends_unknown [of xs tag] by (simp add: p profile_image_def profile_size_def)
  next
    case False
    then have "profile_image p = im_seq (im_ulong (profile_id p)) (im_encaps (body_image p))"
      by (simp add: profile_image_def split: profile.split)
    then show ?thesis using appends_tagged [OF body_marshalled(1) [OF ok], of "profile_id p"] False
      by (simp add: profile_size_def)
  qed
  show "takes profile_decode p (profile_image p)"
  proof (cases "\<exists>tag xs. p = UnknownProfile tag xs")
    case True
    then obtain tag xs where p: "p = UnknownProfile tag xs" by blast
    have "profile_body tag len = dbind (decode_unknown len) (\<lambda>xs. dret (UnknownProfile tag xs))" for len
      using ok by (simp add: p profile_body_def)
    from takes_unknown [where body = profile_body, OF this, of xs] ok show ?thesis
      by (simp add: p profile_image_def profile_decode_def)
  next
    case False
    then have "profile_image p = im_seq (im_ulong (profile_id p)) (im_encaps (body_image p))"
      by (simp add: profile_image_def split: profile.split)
    moreover have "takes (profile_body (profile_id p) len) p (body_image p)" for len
      by (rule body_marshalled(2) [OF ok]) (use False in blast)
    ultimately show ?thesis using takes_tagged [where body = profile_body and tag = "profile_id p"] by (simp add: profile_decode_def)
  qed
qed

section \<open>References\<close>

definition ior_ok :: "(octet list \<Rightarrow> octet list option) \<Rightarrow> ior \<Rightarrow> bool" where
  "ior_ok resolve i \<longleftrightarrow> c_octets (oid i) \<and> list_all profile_ok (tags i) \<and> length (tags i) < 2147483648 \<and>
     in_order (profile_compare resolve) (tags i)"

definition ior_image :: "ior \<Rightarrow> image_at" where
  "ior_image i = im_seq (im_string (oid i)) (im_seq_of profile_image (tags i))"

definition ior_size :: "ior \<Rightarrow> nat" where
  "ior_size i = (9 + length (oid i)) + (8 + sum_list (map profile_size (tags i)))"

interpretation ior: marshalled "ior_ok resolve" ior_encode "ior_decode resolve" ior_image ior_size for resolve
proof
  fix i assume ok: "ior_ok resolve i"
  then have len: "length (tags i) < 4294967295" and oid: "0 \<notin> set (oid i)" "length (oid i) < 4294967295"
    and ps: "list_all profile_ok (tags i)" "in_order (profile_compare resolve) (tags i)" "length (tags i) < 2147483648"
    by (simp_all add: ior_ok_def c_octets_def)
  have "ior_encode i = (\<lambda>e. Option.bind (put_string_raw (oid i @ [0]) e) (\<lambda>e.
      Option.bind (put_ulong (word_of_nat (length (tags i))) e)
        (enc_loop (\<lambda>p. encode_tagged (profile_id p) (encode_profile p)) (tags i))))"
    using len by (simp add: ior_encode_def enc_seq_begin_def fun_eq_iff)
  then show "appends (ior_encode i) (ior_image i) (ior_size i)"
    using appends_bind [OF appends_string [OF oid(1)] appends_bind [OF appends_ulong profile.put_list [OF ps(1)]]]
    by (simp add: ior_image_def ior_size_def im_seq_of_def)
  have u: "unat (word_of_nat (length (tags i)) :: ulong) = length (tags i)" using len by (simp add: nowrap)
  have ts: "takes (decode_each profile_decode (add_profile resolve) (unat (word_of_nat (length (tags i)) :: ulong)) [])
      (tags i) (im_list profile_image (tags i))"
    using takes_each [of "tags i" profile_decode profile_image "profile_compare resolve" "[]"] ps profile.get_im
    by (simp add: u add_profile_def [abs_def] list_all_iff)
  have one: "1 \<le> length (profile_image p bo q)" for p bo q
    by (simp only: profile_image_def length_tagged)
  have r: "dret \<lparr>oid = oid i, tags = tags i\<rparr> = dret i" by (cases i) simp
  have "takes (ior_decode resolve) i (im_seq (im_string (oid i)) (im_seq (im_seq_of profile_image (tags i)) im_nil))"
    unfolding ior_decode_def
    by (rule takes_bind [OF takes_string(2) [OF oid]], rule takes_counted [OF _ one], use len in simp,
        rule takes_bind [OF ts], unfold r, rule takes_ret)
  then show "takes (ior_decode resolve) i (ior_image i)" by (simp add: ior_image_def)
qed

end
