(* ===== verification/IOR_Text.thy ===== *)
theory IOR_Text
  imports IOR_Codec
begin

text \<open>
  The text of an object reference, and what becomes of references whose profiles \<open>IOR::decode\<close>
  cannot compare.
\<close>

section \<open>Hexadecimal text of a buffer\<close>

lemma get_octet_buf_reads:
  assumes "buf_wf b" and "octets b = x # rest"
  shows "\<exists>b'. get_octet_buf b = Some (Some x, b') \<and> reads b [x] b'"
proof -
  have ne: "wptr b \<noteq> rptr b" using assms(2) by (auto simp: octets_def)
  obtain b' where "take_octets 1 b = Some (take 1 (octets b), b')" "reads b (take 1 (octets b)) b'"
    using take_octets_reads [OF assms(1), of 1] assms(2) by auto
  then show ?thesis using ne assms(2) by (simp add: get_octet_buf_def)
qed

lemma hex_text:
  assumes "buf_wf b" and "octets b = xs @ rest"
  shows "\<exists>t. hex_loop (length xs) b s = Some (s @ t) \<and> length t = 2 * length xs \<and>
     (\<forall>c. buf_wf c \<longrightarrow> unat (wptr c) + length xs < 4294967295 \<longrightarrow>
        (\<exists>c'. from_hex t c = Some (Some c') \<and> writes c xs c'))"
  using assms
proof (induction xs arbitrary: b s)
  case Nil
  have "writes c [] c" if "buf_wf c" for c using that by (simp add: writes_def)
  then show ?case by simp
next
  case (Cons x xs)
  obtain b1 where b1: "get_octet_buf b = Some (Some x, b1)" "reads b [x] b1"
    using get_octet_buf_reads [OF Cons.prems(1)] Cons.prems(2) by auto
  obtain h l u v where hl: "mico_to_xdigit (drop_bit 4 x) = Some h" "mico_to_xdigit (and x 15) = Some l"
    "isxdigit h" "isxdigit l" "mico_from_xdigit h = Some u" "mico_from_xdigit l = Some v"
    "or (push_bit 4 u) v = x" by (rule hex_octet)
  have nib: "and (drop_bit 4 x) 15 = drop_bit 4 x"
  proof -
    have "(15 :: octet) = mask 4" by (simp add: mask_eq_exp_minus_1)
    then have "and (drop_bit 4 x) 15 = take_bit 4 (drop_bit 4 x)" by (simp only: take_bit_eq_mask)
    also have "\<dots> = drop_bit 4 x" by (rule bit_word_eqI) (auto simp: bit_simps dest: bit_imp_le_length)
    finally show ?thesis .
  qed
  have "buf_wf b1" "octets b1 = xs @ rest" using b1(2) Cons.prems(2) by (auto simp: reads_def)
  then obtain t where t: "hex_loop (length xs) b1 (s @ [h, l]) = Some ((s @ [h, l]) @ t)" "length t = 2 * length xs"
    "\<And>c. buf_wf c \<Longrightarrow> unat (wptr c) + length xs < 4294967295 \<Longrightarrow> \<exists>c'. from_hex t c = Some (Some c') \<and> writes c xs c'"
    using Cons.IH [of b1 "s @ [h, l]"] by blast
  have "\<exists>c'. from_hex (h # l # t) c = Some (Some c') \<and> writes c (x # xs) c'"
    if c: "buf_wf c" "unat (wptr c) + length (x # xs) < 4294967295" for c
  proof -
    have "unat (wptr c) + 1 < 4294967295" using c(2) by simp
    then obtain c1 where c1: "put_octet_buf x c = Some c1" "writes c [x] c1"
      using put_one_writes [OF c(1)] by blast
    have "buf_wf c1" "unat (wptr c1) + length xs < 4294967295" using c1(2) c(2) by (auto simp: writes_def)
    then obtain c2 where c2: "from_hex t c1 = Some (Some c2)" "writes c1 xs c2" using t(3) by blast
    show ?thesis using hl c1(1) c2(1) writes_trans [OF c1(2) c2(2)] by simp
  qed
  moreover have "hex_loop (length (x # xs)) b s = Some (s @ [h, l] @ t)"
    using b1(1) hl nib t(1) by simp
  ultimately show ?case using t(2) by (intro exI [of _ "[h, l] @ t"]) simp
qed

text \<open>Octets read from their text by a machine: the decoder over them.\<close>

lemma text_decoder:
  assumes m: "real_bo m" and t: "\<And>c. buf_wf c \<Longrightarrow> unat (wptr c) + length xs < 4294967295 \<Longrightarrow>
      \<exists>c'. from_hex t c = Some (Some c') \<and> writes c xs c'"
    and len: "length xs < 4294967295"
  shows "\<exists>c. from_hex t (buffer_new f 0) = Some (Some c) \<and>
     dec_ok (new_decoder m c DefaultEndian None) \<and> quiet (new_decoder m c DefaultEndian None) \<and>
     roffd (new_decoder m c DefaultEndian None) = 0 \<and> octets (dbuf (new_decoder m c DefaultEndian None)) = xs"
proof -
  have "buf_wf (buffer_new f 0)" "unat (wptr (buffer_new f 0)) = 0"
    using buffer_new_wf [of f 0] by (simp_all add: buffer_new_def Let_def)
  then obtain c where c: "from_hex t (buffer_new f 0) = Some (Some c)" "writes (buffer_new f 0) xs c"
    using t [of "buffer_new f 0"] len by auto
  let ?e = "new_encoder m (buffer_new f 0) m"
  have "ebuf ?e = buffer_new f 0" by (simp add: new_encoder_def)
  then have "emits ?e xs (?e\<lparr>ebuf := c\<rparr>)" using c(2) by (auto simp: emits_def)
  note nd = new_decoder_facts [OF this m m m]
  have "new_decoder m c DefaultEndian None = new_decoder m c m None"
    by (simp add: new_decoder_def)
  moreover have "quiet (new_decoder m c m None)" by (simp add: quiet_def dec_cur_def new_decoder_def)
  ultimately show ?thesis using c(1) nd by simp
qed

lemma stringify_text:
  assumes m: "real_bo m" and enc: "appends (ior_encode i) im n" and len: "n < 2147483646"
  shows "\<exists>t xs. stringify m f i = Some (''IOR:'' @ t) \<and> xs = bo_flag m # im m 1 \<and> length t = 2 * length xs \<and>
     length xs < 2147483648 \<and>
     (\<forall>c. buf_wf c \<longrightarrow> unat (wptr c) + length xs < 4294967295 \<longrightarrow>
        (\<exists>c'. from_hex t c = Some (Some c') \<and> writes c xs c'))"
proof -
  let ?xs = "bo_flag m # im m 1" and ?e0 = "new_encoder m (buffer_new f 0) m"
  have e0: "new_encoder m (buffer_new f 0) DefaultEndian = ?e0" by (simp add: new_encoder_def)
  have fl: "(if enc_byteorder ?e0 = BigEndian then 0 else 1) = bo_flag m"
    using m by (cases m) (simp_all add: enc_byteorder_def new_encoder_def bo_flag_def real_bo_def)
  note n = new_encoder_facts [OF m m, of f 0]
  have ap: "appends (\<lambda>e. Option.bind (put_octet (bo_flag m) e) (ior_encode i)) (im_seq (im_octets [bo_flag m]) im) (2 + n)"
    by (rule appends_bind [OF appends_octet enc])
  have "has_room (2 + n) ?e0" using len by (simp add: new_encoder_room)
  then obtain e where e: "Option.bind (put_octet (bo_flag m) ?e0) (ior_encode i) = Some e" "emits ?e0 ?xs e"
    by (rule appendsE [OF ap n(1)]) (simp add: n im_seq_def im_octets_def)
  have oct: "octets (ebuf e) = ?xs @ []" using emits_fields(4) [OF e(2)] n(4) by simp
  have wf: "buf_wf (ebuf e)" by (rule emits_fields(9) [OF e(2)])
  have l: "length ?xs < 2147483648" using appends_length [OF ap, of m 0] len by (simp add: im_seq_def im_octets_def)
  have "unat (buf_length (ebuf e)) = length ?xs" using unat_buf_length [OF wf] oct by simp
  then have cnt: "nat (sint (buf_length (ebuf e))) = length ?xs" using l by (simp add: sint_ulong_small)
  obtain t where t: "hex_loop (length ?xs) (ebuf e) ''IOR:'' = Some (''IOR:'' @ t)" "length t = 2 * length ?xs"
    "\<forall>c. buf_wf c \<longrightarrow> unat (wptr c) + length ?xs < 4294967295 \<longrightarrow>
        (\<exists>c'. from_hex t c = Some (Some c') \<and> writes c ?xs c')"
    using hex_text [OF wf oct, of "''IOR:''"] by blast
  obtain e1 where e1: "put_octet (bo_flag m) ?e0 = Some e1" "ior_encode i e1 = Some e"
    using e(1) by (auto elim: bind_cases)
  have "stringify m f i = Some (''IOR:'' @ t)"
    unfolding stringify_def e0 Let_def fl using e1 t(1) cnt by simp
  then show ?thesis using t(2,3) l by blast
qed

text \<open>The text read by a machine: after the order flag, the octets of the reference in that order.\<close>

lemma from_text:
  assumes m: "real_bo m1" "real_bo m2"
    and t: "\<And>c. buf_wf c \<Longrightarrow> unat (wptr c) + length xs < 4294967295 \<Longrightarrow> \<exists>c'. from_hex t c = Some (Some c') \<and> writes c xs c'"
    and xs: "xs = bo_flag m1 # ys" "length xs < 2147483645" and len: "length t = 2 * length xs"
  shows "\<exists>d. dec_ok d \<and> quiet d \<and> roffd d = 1 \<and> d_data_bo d = m1 \<and> octets (dbuf d) = ys \<and>
     from_string resolve m2 f (''IOR:'' @ t) = do { (i, _) \<leftarrow> ior_decode resolve d; Some i }"
proof -
  have "length xs < 4294967295" using xs(2) by simp
  then obtain c where c: "from_hex t (buffer_new f 0) = Some (Some c)" "dec_ok (new_decoder m2 c DefaultEndian None)"
    "quiet (new_decoder m2 c DefaultEndian None)" "roffd (new_decoder m2 c DefaultEndian None) = 0"
    "octets (dbuf (new_decoder m2 c DefaultEndian None)) = xs"
    using text_decoder [OF m(2) t, where f = f] by blast
  let ?d0 = "new_decoder m2 c DefaultEndian None"
  have o: "octets (dbuf ?d0) = bo_flag m1 # ys" using c(5) xs(1) by simp
  obtain d1 where d1: "get_octet ?d0 = Some (Some (bo_flag m1), d1)" "consumes ?d0 [bo_flag m1] d1"
    using octet_laws(2) [OF c(2) o] by blast
  let ?d = "dec_set_byteorder m1 d1"
  have bo: "(if bo_flag m1 \<noteq> 0 then LittleEndian else BigEndian) = m1"
    using m(1) by (cases m1) (simp_all add: bo_flag_def real_bo_def)
  have "from_string resolve m2 f (''IOR:'' @ t) = do { (i, _) \<leftarrow> ior_decode resolve ?d; Some i }"
    using c(1) d1(1) len xs(2) bo by (simp add: from_string_def dbind_def)
  moreover have "dec_ok ?d" using consumes_ok [OF d1(2) c(2)] m(1) by (simp add: dec_ok_def dec_set_byteorder_def)
  moreover have "quiet ?d" using quiet_consumes [OF d1(2) c(3)] by (simp add: quiet_def dec_cur_def dec_set_byteorder_def)
  moreover have "roffd ?d = 1" using roffd_consumes [OF d1(2) c(2)] c(4) by (simp add: dec_set_byteorder_def)
  moreover have "octets (dbuf ?d) = ys" using consumes_fields(5) [OF d1(2)] o by (simp add: dec_set_byteorder_def)
  ultimately show ?thesis by (intro exI [of _ ?d]) (simp add: dec_set_byteorder_def)
qed

section \<open>References travel unchanged\<close>


definition sample_ior :: ior where
  "sample_ior = \<lparr>oid = [73], tags =
     [IIOPProfile TAG_INTERNET_IOP 0x0102 \<lparr>host = [104], port = 2809, family = STREAM\<rparr> [1, 2, 3]
        [CodesetComponent 0x00010001 0x00010109 [0x05010001] []],
      UnknownProfile 7 [1, 9, 9]]\<rparr>"


section \<open>Profiles that cannot be compared\<close>

definition aborts :: "'a dec \<Rightarrow> image_at \<Rightarrow> bool" where
  "aborts m im \<longleftrightarrow> (\<forall>d rest. dec_ok d \<longrightarrow> quiet d \<longrightarrow> octets (dbuf d) = im (d_data_bo d) (roffd d) @ rest \<longrightarrow> m d = None)"

lemma aborts_bind:
  assumes m: "takes m v im" and k: "aborts (k v) jm"
  shows "aborts (dbind m k) (im_seq im jm)"
  unfolding aborts_def
proof (intro allI impI)
  fix d rest
  assume d: "dec_ok d" "quiet d" "octets (dbuf d) = im_seq im jm (d_data_bo d) (roffd d) @ rest"
  then have "octets (dbuf d) = im (d_data_bo d) (roffd d) @
      (jm (d_data_bo d) (roffd d + length (im (d_data_bo d) (roffd d))) @ rest)"
    by (simp add: im_seq_def)
  from takesE [OF m d(1,2) this] obtain d1 where d1: "m d = Some (Some v, d1)" "dec_ok d1" "quiet d1"
    "octets (dbuf d1) = jm (d_data_bo d) (roffd d + length (im (d_data_bo d) (roffd d))) @ rest"
    "d_data_bo d1 = d_data_bo d" "roffd d1 = roffd d + length (im (d_data_bo d) (roffd d))" by blast
  from d1(4) have "octets (dbuf d1) = jm (d_data_bo d1) (roffd d1) @ rest" by (simp only: d1(5,6))
  with k d1(2,3) have "k v d1 = None" unfolding aborts_def by blast
  then show "dbind m k d = None" by (simp add: dbind_def d1(1))
qed

lemma aborts_bind_first: "aborts m im \<Longrightarrow> aborts (dbind m k) im"
  by (simp add: aborts_def dbind_def)

lemma vec_compare_prefix: "vec_compare xs (xs @ y # ys) = None"
  by (induction xs) auto

lemma takes_count:
  assumes "\<And>bo p. unat l \<le> length (im bo p)" and "aborts (k l) im"
  shows "aborts (dbind dec_seq_begin k) (im_seq (im_ulong l) im)"
  unfolding aborts_def
proof (intro allI impI)
  fix d rest
  assume d: "dec_ok d" "quiet d" "octets (dbuf d) = im_seq (im_ulong l) im (d_data_bo d) (roffd d) @ rest"
  let ?jm = "im (d_data_bo d) (roffd d + length (im_ulong l (d_data_bo d) (roffd d)))"
  have "octets (dbuf d) = im_ulong l (d_data_bo d) (roffd d) @ (?jm @ rest)" using d(3) by (simp add: im_seq_def)
  from takesE [OF takes_ulong d(1,2) this] obtain d1 where d1: "get_ulong d = Some (Some l, d1)"
    "consumes d (im_ulong l (d_data_bo d) (roffd d)) d1" "dec_ok d1" "quiet d1" "octets (dbuf d1) = ?jm @ rest"
    "d_data_bo d1 = d_data_bo d" "roffd d1 = roffd d + length (im_ulong l (d_data_bo d) (roffd d))" by blast
  have "unat (buf_length (dbuf d1)) = length (?jm @ rest)"
    using unat_buf_length [OF consumes_fields(9) [OF d1(2)]] d1(5) by simp
  then have nf: "\<not> l > buf_length (dbuf d1)"
    using assms(1) [of "d_data_bo d" "roffd d + length (im_ulong l (d_data_bo d) (roffd d))"]
    by (simp add: word_less_nat_alt)
  from d1(5) have "octets (dbuf d1) = im (d_data_bo d1) (roffd d1) @ rest" by (simp only: d1(6,7))
  with assms(2) d1(3,4) have "k l d1 = None" unfolding aborts_def by blast
  then show "dbind dec_seq_begin k d = None" using d1(1) nf by (simp add: dec_seq_begin_def dbind_def dret_def)
qed

text \<open>The text of a reference can stop whoever reads it. When it has two profiles of one unknown tag and the data of the second are
  a proper beginning of those of the first, \<open>add_profile\<close> compares them while it keeps the profiles in order, and the
  assertion in \<open>mico_vec_compare\<close> on the difference of the two sizes, taken unsigned, fails.\<close>

theorem prefix_profiles_abort:
  assumes "real_bo m1" and "real_bo m2" and "c_octets repo" and "profile_ok (UnknownProfile tag (xs @ y # ys))"
    and "profile_ok (UnknownProfile tag xs)" and "length repo < 2147400000"
  shows "\<exists>s. stringify m1 f1 \<lparr>oid = repo, tags = [UnknownProfile tag (xs @ y # ys), UnknownProfile tag xs]\<rparr> = Some s
    \<and> from_string resolve m2 f2 s = None"
proof -
  let ?p = "UnknownProfile tag (xs @ y # ys)" and ?q = "UnknownProfile tag xs"
  let ?i = "\<lparr>oid = repo, tags = [?p, ?q]\<rparr>"
  let ?ps = "im_seq (profile_image ?p) (profile_image ?q)"
  have s: "0 \<notin> set repo" "length repo < 4294967295" using assms(3) by (simp_all add: c_octets_def)
  have enc: "appends (ior_encode ?i) (ior_image ?i) (ior_size ?i)"
  proof -
    have "ior_encode ?i = (\<lambda>e. Option.bind (put_string_raw (repo @ [0]) e) (\<lambda>e.
        Option.bind (put_ulong (word_of_nat (length [?p, ?q])) e)
          (enc_loop (\<lambda>p. encode_tagged (profile_id p) (encode_profile p)) [?p, ?q])))"
      by (simp add: ior_encode_def enc_seq_begin_def fun_eq_iff del: enc_loop.simps)
    then show ?thesis
      using appends_bind [OF appends_string [OF s(1)] appends_bind [OF appends_ulong profile.put_list [of "[?p, ?q]"]]] assms(4,5)
      by (simp add: ior_image_def ior_size_def im_seq_of_def del: enc_loop.simps)
  qed
  have sz: "ior_size ?i < 2147483640"
    using assms(4-6) by (simp add: ior_size_def profile_size_def)
  then have "ior_size ?i < 2147483646" by simp
  from stringify_text [OF assms(1) enc this, of f1]
  obtain t zs where t: "stringify m1 f1 ?i = Some (''IOR:'' @ t)" "zs = bo_flag m1 # ior_image ?i m1 1"
    "length t = 2 * length zs"
    "\<And>c. buf_wf c \<Longrightarrow> unat (wptr c) + length zs < 4294967295 \<Longrightarrow> \<exists>c'. from_hex t c = Some (Some c') \<and> writes c zs c'"
    by blast
  have "length zs < 2147483645" using appends_length [OF enc, of m1 1] sz t(2) by simp
  from from_text [OF assms(1,2) t(4,2) this t(3)]
  obtain d where d: "dec_ok d" "quiet d" "roffd d = 1" "d_data_bo d = m1" "octets (dbuf d) = ior_image ?i m1 1"
    "from_string resolve m2 f2 (''IOR:'' @ t) = do { (i, _) \<leftarrow> ior_decode resolve d; Some i }" by blast
  have "profile_compare resolve ?q ?p = None" by (simp add: vec_compare_prefix)
  then have "aborts (\<lambda>d. do { zs \<leftarrow> add_profile resolve ?q [?p]; decode_each profile_decode (add_profile resolve) 0 zs d }) im_nil"
    by (simp add: aborts_def add_profile_def add_ordered_def)
  from aborts_bind [OF profile.get_im [OF assms(5)], where k = "\<lambda>q d. do { zs \<leftarrow> add_profile resolve q [?p];
      decode_each profile_decode (add_profile resolve) 0 zs d }", OF this]
  have "aborts (decode_each profile_decode (add_profile resolve) 1 [?p]) (profile_image ?q)" by simp
  then have "aborts (\<lambda>d. do { zs \<leftarrow> add_profile resolve ?p []; decode_each profile_decode (add_profile resolve) 1 zs d })
      (profile_image ?q)"
    by (simp add: add_profile_def add_ordered_def)
  from aborts_bind [OF profile.get_im [OF assms(4)], where k = "\<lambda>q d. do { zs \<leftarrow> add_profile resolve q [];
      decode_each profile_decode (add_profile resolve) 1 zs d }", OF this]
  moreover have u2: "unat (2 :: ulong) = Suc (Suc 0)" by simp
  ultimately have "aborts (decode_each profile_decode (add_profile resolve) (unat (2 :: ulong)) []) ?ps"
    unfolding u2 by simp
  note ab = aborts_bind_first [OF this]
  have one: "1 \<le> length (profile_image p bo q)" for p bo q by (simp only: profile_image_def length_tagged)
  have two: "unat (2 :: ulong) \<le> length (?ps bo p)" for bo p
    using one [of ?p bo p] one [of ?q bo "p + length (profile_image ?p bo p)"] by (simp add: im_seq_def)
  have "aborts (ior_decode resolve) (im_seq (im_string repo) (im_seq (im_ulong 2) ?ps))"
    unfolding ior_decode_def by (rule aborts_bind [OF takes_string(2) [OF s]], rule takes_count [OF two]) (rule ab)
  moreover have "ior_image ?i = im_seq (im_string repo) (im_seq (im_ulong 2) ?ps)"
    by (simp add: ior_image_def im_seq_of_def)
  moreover have "octets (dbuf d) = ior_image ?i (d_data_bo d) (roffd d) @ []" using d(3-5) by simp
  ultimately have "ior_decode resolve d = None" using d(1,2) unfolding aborts_def by metis
  then show ?thesis using t(1) d(6) by auto
qed

theorem prefix_profiles_abort_witness:
  "\<exists>s. stringify BigEndian 0 \<lparr>oid = [73], tags = [UnknownProfile 7 [1, 2], UnknownProfile 7 [1]]\<rparr> = Some s
    \<and> from_string (\<lambda>_. None) LittleEndian 0 s = None"
  using prefix_profiles_abort [of BigEndian LittleEndian "[73]" 7 "[1]" 2 "[]" 0 "\<lambda>_. None" 0]
  by (simp add: real_bo_def c_octets_def TAG_INTERNET_IOP_def
        TAG_LOCAL_def TAG_UDP_IOP_def TAG_UNIX_IOP_def TAG_MULTIPLE_COMPONENTS_def)

end
