(* ===== verification/Transport.thy ===== *)
theory Transport
  imports Octet_Buffer
begin

text \<open>
  The socket transport (orb/transport/tcp.cc, orb/transport.cc): the loops of
  \<open>MICO::TCPTransport::read\<close> and \<open>write\<close> over the socket, and the two operations of
  \<open>CORBA::Transport\<close> that read into and write from a buffer. The socket is the operating system's:
  it is given by the list of what its next reads yield and the list of what its next writes accept,
  whatever they are. A negative result is \<open>False\<close>, with the octets that were copied before it.
\<close>

section \<open>The socket\<close>

datatype sock_error = EINTR | EWOULDBLOCK | EOTHER

datatype incoming = Arrived "octet list" | InError sock_error | Ended

datatype outgoing = Accepts nat | OutError sock_error

record transport =
  sopen :: bool
  ateof :: bool
  bad :: bool
  arriving :: "incoming list"
  accepting :: "outgoing list"
  sent :: "octet list"

text \<open>\<open>OSNet::sock_read\<close>: with nothing to report the call would block; an end stays an end.\<close>

fun sock_read :: "nat \<Rightarrow> incoming list \<Rightarrow> (sock_error + octet list) \<times> incoming list" where
  "sock_read n [] = (Inl EWOULDBLOCK, [])"
| "sock_read n (Arrived xs # es) =
     (if xs = [] then sock_read n es
      else (Inr (take n xs), if length xs \<le> n then es else Arrived (drop n xs) # es))"
| "sock_read n (InError k # es) = (Inl k, es)"
| "sock_read n (Ended # es) = (Inr [], Ended # es)"

fun sock_write :: "nat \<Rightarrow> outgoing list \<Rightarrow> (sock_error + nat) \<times> outgoing list" where
  "sock_write n [] = (Inl EWOULDBLOCK, [])"
| "sock_write n (Accepts k # es) =
     (Inr (min n k), if k \<le> n then es else Accepts (k - n) # es)"
| "sock_write n (OutError k # es) = (Inl k, es)"

text \<open>How much a socket still has to report, which every pass of the loops reduces.\<close>

fun in_weight :: "incoming list \<Rightarrow> nat" where
  "in_weight [] = 0"
| "in_weight (Arrived xs # es) = Suc (length xs) + in_weight es"
| "in_weight (InError k # es) = Suc (in_weight es)"
| "in_weight (Ended # es) = in_weight es"

fun out_weight :: "outgoing list \<Rightarrow> nat" where
  "out_weight [] = 0"
| "out_weight (Accepts k # es) = Suc k + out_weight es"
| "out_weight (OutError k # es) = Suc (out_weight es)"

lemma sock_read_weight:
  "sock_read n es = (r, es') \<Longrightarrow> in_weight es' \<le> in_weight es \<and>
     (r = Inl k \<longrightarrow> k \<noteq> EWOULDBLOCK \<longrightarrow> in_weight es' < in_weight es) \<and>
     (r = Inr xs \<longrightarrow> length xs \<le> n \<and> (0 < n \<longrightarrow> xs \<noteq> [] \<longrightarrow> in_weight es' < in_weight es))"
  by (induction n es rule: sock_read.induct) (auto split: if_splits)

lemma sock_write_weight:
  "sock_write n es = (r, es') \<Longrightarrow> out_weight es' \<le> out_weight es \<and>
     (r = Inl k \<longrightarrow> k \<noteq> EWOULDBLOCK \<longrightarrow> out_weight es' < out_weight es) \<and>
     (r = Inr m \<longrightarrow> m \<le> n \<and> (0 < n \<longrightarrow> 0 < m \<longrightarrow> out_weight es' < out_weight es))"
  by (induction n es rule: sock_write.induct) (auto split: if_splits)

section \<open>The loops of the TCP transport\<close>

text \<open>\<open>len\<close> is what the caller asked for, \<open>todo\<close> what is missing and \<open>got\<close> what has been copied.\<close>

function read_loop ::
    "nat \<Rightarrow> nat \<Rightarrow> octet list \<Rightarrow> transport \<Rightarrow> bool \<times> octet list \<times> transport" where
  "read_loop len todo got t =
     (if todo = 0 then (True, got, t)
      else case sock_read todo (arriving t) of
        (Inl k, es) \<Rightarrow>
          (let t = t\<lparr>arriving := es\<rparr> in
           if \<not> sopen t then (False, got, t)
           else if k = EINTR then read_loop len todo got t
           else if k = EWOULDBLOCK \<or> todo \<noteq> len then (True, got, t)
           else (False, got, t\<lparr>bad := True\<rparr>))
      | (Inr xs, es) \<Rightarrow>
          (let t = t\<lparr>arriving := es\<rparr> in
           if xs = [] then (True, got, t\<lparr>ateof := True\<rparr>)
           else read_loop len (todo - length xs) (got @ xs) t))"
  by pat_completeness auto

termination
  by (relation "measure (\<lambda>(len, todo, got, t). in_weight (arriving t))")
    (auto dest!: sock_read_weight [where k = EINTR, OF sym] sock_read_weight [OF sym])

function write_loop :: "nat \<Rightarrow> octet list \<Rightarrow> transport \<Rightarrow> bool \<times> octet list \<times> transport" where
  "write_loop len xs t =
     (if xs = [] then (True, xs, t)
      else case sock_write (length xs) (accepting t) of
        (Inl k, es) \<Rightarrow>
          (let t = t\<lparr>accepting := es\<rparr> in
           if \<not> sopen t then (False, xs, t)
           else if k = EINTR then write_loop len xs t
           else if k = EWOULDBLOCK \<or> length xs \<noteq> len then (True, xs, t)
           else (False, xs, t\<lparr>bad := True\<rparr>))
      | (Inr n, es) \<Rightarrow>
          (let t = t\<lparr>accepting := es\<rparr> in
           if n = 0 then (True, xs, t)
           else write_loop len (drop n xs) (t\<lparr>sent := sent t @ take n xs\<rparr>)))"
  by pat_completeness auto

termination
  by (relation "measure (\<lambda>(len, xs, t). out_weight (accepting t))")
    (auto dest!: sock_write_weight [where k = EINTR, OF sym] sock_write_weight [OF sym])

declare read_loop.simps [simp del] write_loop.simps [simp del]

text \<open>The argument is a signed \<open>Long\<close>: for a negative one the loops do not start.\<close>

definition tcp_read :: "ulong \<Rightarrow> transport \<Rightarrow> bool \<times> octet list \<times> transport" where
  "tcp_read len t = read_loop (nat (sint len)) (nat (sint len)) [] t"

definition tcp_write :: "octet list \<Rightarrow> transport \<Rightarrow> bool \<times> octet list \<times> transport" where
  "tcp_write xs t = write_loop (length xs) xs t"

section \<open>Reading into and writing from a buffer\<close>

definition transport_read :: "ulong \<Rightarrow> buffer \<Rightarrow> transport \<Rightarrow> (int \<times> buffer \<times> transport) option" where
  "transport_read len b t = do {
     b \<leftarrow> resize len b;
     let (ok, xs, t) = tcp_read len t;
     m \<leftarrow> mem_write (mem b) (unat (wptr b)) xs;
     let b = b\<lparr>mem := m\<rparr>;
     let r = (if ok then int (length xs) else - 1);
     b \<leftarrow> (if r > 0 then wseek_rel (word_of_int r) b else Some b);
     Some (r, b, t)
   }"

definition transport_write :: "ulong \<Rightarrow> bool \<Rightarrow> buffer \<Rightarrow> transport \<Rightarrow> (int \<times> buffer \<times> transport) option" where
  "transport_write len eat b t = do {
     require (0 \<le> sint len);
     require (len \<le> buf_length b);
     xs \<leftarrow> mem_read (mem b) (unat (rptr b)) (unat len);
     let (ok, rest, t) = tcp_write xs t;
     let r = (if ok then int (length xs - length rest) else - 1);
     let b = (if r > 0 \<and> eat then snd (rseek_rel (word_of_int r) b) else b);
     Some (r, b, t)
   }"

end
