(* ===== verification/GIOP.thy ===== *)
theory GIOP
  imports IOR_Codec
begin

text \<open>
  The messages of GIOP 1.0, 1.1 and 1.2 (orb/iop.cc, \<open>MICO::GIOPCodec\<close>): headers, service contexts,
  targets, requests, replies, locate and bind messages, both ways. The codec has a state of its own,
  the version agreed on and the code sets, which reading a message may change even where it fails.
  Code set converters are values without behaviour: what this module writes and reads through them
  is the text of bind requests only, which is modelled for coders without converter. \<open>isok\<close> says
  whether the converter of a pair of code sets exists and \<open>disabled\<close> is \<open>-ORBNoCodesets\<close>.
\<close>

section \<open>State\<close>

definition Request :: octet where "Request = 0"
definition Reply :: octet where "Reply = 1"
definition CancelRequest :: octet where "CancelRequest = 2"
definition LocateRequest :: octet where "LocateRequest = 3"
definition LocateReply :: octet where "LocateReply = 4"
definition CloseConnection :: octet where "CloseConnection = 5"
definition MessageError :: octet where "MessageError = 6"
definition Fragment :: octet where "Fragment = 7"

definition NO_EXCEPTION :: ulong where "NO_EXCEPTION = 0"
definition USER_EXCEPTION :: ulong where "USER_EXCEPTION = 1"
definition SYSTEM_EXCEPTION :: ulong where "SYSTEM_EXCEPTION = 2"
definition LOCATION_FORWARD :: ulong where "LOCATION_FORWARD = 3"
definition LOCATION_FORWARD_PERM :: ulong where "LOCATION_FORWARD_PERM = 4"
definition NEEDS_ADDRESSING_MODE :: ulong where "NEEDS_ADDRESSING_MODE = 5"

definition UNKNOWN_OBJECT :: ulong where "UNKNOWN_OBJECT = 0"
definition OBJECT_HERE :: ulong where "OBJECT_HERE = 1"
definition OBJECT_FORWARD :: ulong where "OBJECT_FORWARD = 2"
definition OBJECT_FORWARD_PERM :: ulong where "OBJECT_FORWARD_PERM = 3"
definition LOC_SYSTEM_EXCEPTION :: ulong where "LOC_SYSTEM_EXCEPTION = 4"
definition LOC_NEEDS_ADDRESSING_MODE :: ulong where "LOC_NEEDS_ADDRESSING_MODE = 5"

definition KeyAddr :: ushort where "KeyAddr = 0"
definition ProfileAddr :: ushort where "ProfileAddr = 1"
definition ReferenceAddr :: ushort where "ReferenceAddr = 2"

definition CodeSets :: ulong where "CodeSets = 1"
definition GIOP_BYTEORDER_BIT :: octet where "GIOP_BYTEORDER_BIT = 1"
definition GIOP_FRAGMENT_BIT :: octet where "GIOP_FRAGMENT_BIT = 2"

datatype codeset_coder =
    GIOP_1_0_CodeSetCoder
  | GIOP_1_1_CodeSetCoder ulong
  | GIOP_1_2_CodeSetCoder ulong ulong

record codec =
  giop_ver :: ushort
  headerlen :: ulong
  size_offset :: ulong
  conv :: "codeset_coder option"
  csid :: ulong
  wcsid :: ulong
  codesets_sent :: bool

record service_context =
  context_id :: ulong
  context_data :: "octet list"

text \<open>
  What the codec asks of a request: its marshalling is the business of the caller. The byte orders
  are those of a request relayed from another connection (a \<open>GIOPRequest\<close>).
\<close>

record request =
  op_name :: "octet list"
  svc_context :: "service_context list"
  input_byteorder :: "byteorder option"
  output_byteorder :: "byteorder option"
  get_in_args :: "encoder \<Rightarrow> (bool \<times> encoder) option"
  get_out_args :: "encoder \<Rightarrow> (bool \<times> encoder) option"

text \<open>An object as \<open>put_target\<close> sees it: its reference, the profile in use, the way to address it.\<close>

record target_ref =
  ior_fwd :: ior
  active_profile :: "profile option"
  active_index :: ulong
  addressing_disposition :: ushort

text \<open>The object key of a profile; one of an unknown tag has none to give.\<close>

fun objectkey :: "profile \<Rightarrow> octet list option" where
  "objectkey (LocalProfile _ _ _ k) = Some k"
| "objectkey (IIOPProfile _ _ _ k _) = Some k"
| "objectkey (UIOPProfile _ _ _ _ k _) = Some k"
| "objectkey (MultiCompProfile _ _) = Some []"
| "objectkey (UnknownProfile _ _) = None"

section \<open>Writing\<close>

definition giop_magic :: "octet list" where
  "giop_magic = map of_char ''GIOP''"

definition order_octet :: "codec \<Rightarrow> encoder \<Rightarrow> octet" where
  "order_octet c e =
     (if giop_ver c = 0x0100 then if enc_byteorder e = LittleEndian then 1 else 0
      else if enc_byteorder e = LittleEndian then GIOP_BYTEORDER_BIT else 0)"

definition put_header :: "codec \<Rightarrow> octet \<Rightarrow> encoder \<Rightarrow> (ulong \<times> encoder) option" where
  "put_header c mt e = do {
     e \<leftarrow> put_chars_raw giop_magic 4 e;
     e \<leftarrow> put_octet (ucast (drop_bit 8 (giop_ver c))) e;
     e \<leftarrow> put_octet (ucast (giop_ver c)) e;
     e \<leftarrow> (if giop_ver c = 0x0100 then put_boolean (order_octet c e) e else put_octet (order_octet c e) e);
     e \<leftarrow> put_octet mt e;
     key \<leftarrow> wpos (ebuf e);
     e \<leftarrow> put_ulong 0 e;
     Some (key, e)
   }"

text \<open>The constructor measures a header; \<open>u\<close> and \<open>v\<close> are the code set ids it leaves unset.\<close>

definition new_codec :: "byteorder \<Rightarrow> octet \<Rightarrow> ulong \<Rightarrow> ulong \<Rightarrow> ushort \<Rightarrow> codec option" where
  "new_codec mach f u v ver = do {
     let c = \<lparr>giop_ver = (if ver > 0x0102 then 0x0102 else ver), headerlen = 0, size_offset = 0,
       conv = None, csid = u, wcsid = v, codesets_sent = False\<rparr>;
     (key, e) \<leftarrow> put_header c Request (new_encoder mach (buffer_new f 0) DefaultEndian);
     Some (c\<lparr>size_offset := key, headerlen := buf_length (ebuf e)\<rparr>)
   }"

definition put_context :: "service_context \<Rightarrow> encoder \<Rightarrow> encoder option" where
  "put_context x e = do {
     let len = word_of_nat (length (context_data x));
     e \<leftarrow> put_ulong (context_id x) e;
     e \<leftarrow> enc_seq_begin len e;
     if length (context_data x) > 0 then put_octets (context_data x) len e else Some e
   }"

definition put_contextlist :: "bool \<Rightarrow> codec \<Rightarrow> service_context list \<Rightarrow> bool \<Rightarrow> encoder \<Rightarrow> encoder option" where
  "put_contextlist disabled c ctx codesets e = do {
     let codesets = codesets \<and> \<not> disabled;
     e \<leftarrow> enc_seq_begin (word_of_nat (length ctx) + (if codesets then 1 else 0)) e;
     e \<leftarrow> enc_loop put_context ctx e;
     if codesets
     then encode_tagged CodeSets (\<lambda>e. do { e \<leftarrow> put_ulong (csid c) e; put_ulong (wcsid c) e }) e
     else Some e
   }"

definition put_target :: "codec \<Rightarrow> target_ref \<Rightarrow> encoder \<Rightarrow> encoder option" where
  "put_target c obj e = do {
     prof \<leftarrow> active_profile obj;
     if giop_ver c < 0x0102 then do { key \<leftarrow> objectkey prof; encode_key key e }
     else let kind = addressing_disposition obj in
       if kind = KeyAddr then do {
         e \<leftarrow> put_short kind e;
         key \<leftarrow> objectkey prof;
         encode_key key e
       } else if kind = ProfileAddr then do {
         e \<leftarrow> put_short kind e;
         encode_profile prof e
       } else if kind = ReferenceAddr then do {
         e \<leftarrow> put_short kind e;
         e \<leftarrow> put_ulong (active_index obj) e;
         ior_encode (ior_fwd obj) e
       } else None
   }"

definition put_size :: "codec \<Rightarrow> ulong \<Rightarrow> encoder \<Rightarrow> encoder option" where
  "put_size c key e = do {
     end_pos \<leftarrow> wpos (ebuf e);
     e \<leftarrow> on_ebuf (wseek_beg key) e;
     e \<leftarrow> put_ulong (end_pos - rptr (ebuf e) - headerlen c) e;
     on_ebuf (wseek_beg end_pos) e
   }"

definition put_principal :: "octet list \<Rightarrow> encoder \<Rightarrow> encoder option" where
  "put_principal rep e = do {
     let len = word_of_nat (length rep);
     e \<leftarrow> enc_seq_begin len e;
     if length rep > 0 then do { require (length rep < 4294967295); put_octets rep len e } else Some e
   }"

text \<open>The start of a body in version 1.2.\<close>

definition align_put :: "codec \<Rightarrow> encoder \<Rightarrow> encoder option" where
  "align_put c e = (if giop_ver c \<ge> 0x0102 then on_ebuf (walign 8) e else Some e)"

definition put_reserved :: "codec \<Rightarrow> encoder \<Rightarrow> encoder option" where
  "put_reserved c e = (if giop_ver c \<noteq> 0x0100 then put_octets [0, 0, 0] 3 e else Some e)"

definition put_args :: "(encoder \<Rightarrow> (bool \<times> encoder) option) \<Rightarrow> ulong \<Rightarrow> byteorder \<Rightarrow> codec \<Rightarrow> encoder \<Rightarrow> (bool \<times> encoder) option" where
  "put_args args key bo c e = do {
     (ok, e) \<leftarrow> args e;
     if \<not> ok then Some (False, enc_set_byteorder bo e)
     else do { e \<leftarrow> put_size c key e; Some (True, enc_set_byteorder bo e) }
   }"

definition request_head ::
    "bool \<Rightarrow> octet list \<Rightarrow> ulong \<Rightarrow> octet \<Rightarrow> target_ref \<Rightarrow> request \<Rightarrow> octet list option \<Rightarrow> bool \<Rightarrow> codec \<Rightarrow> encoder \<Rightarrow> encoder option" where
  "request_head disabled peer_info req_id response_flags obj req pr send_codesets c e =
     (if giop_ver c < 0x0102 then do {
        e \<leftarrow> put_contextlist disabled c (svc_context req) send_codesets e;
        e \<leftarrow> put_ulong req_id e;
        e \<leftarrow> put_boolean (and response_flags 0x01) e;
        e \<leftarrow> put_reserved c e;
        e \<leftarrow> put_target c obj e;
        e \<leftarrow> put_string_raw (op_name req @ [0]) e;
        put_principal (case pr of Some p \<Rightarrow> p | None \<Rightarrow> peer_info) e
      } else do {
        e \<leftarrow> put_ulong req_id e;
        e \<leftarrow> put_octet (if and response_flags 0x01 \<noteq> 0 then 0x03 else 0) e;
        e \<leftarrow> put_octets [0, 0, 0] 3 e;
        e \<leftarrow> put_target c obj e;
        e \<leftarrow> put_string_raw (op_name req @ [0]) e;
        put_contextlist disabled c (svc_context req) send_codesets e
      })"

definition put_invoke_request ::
    "bool \<Rightarrow> octet list \<Rightarrow> ulong \<Rightarrow> octet \<Rightarrow> target_ref \<Rightarrow> request \<Rightarrow> octet list option \<Rightarrow> codec \<Rightarrow> encoder \<Rightarrow>
     ((bool \<times> codec) \<times> encoder) option" where
  "put_invoke_request disabled peer_info req_id response_flags obj req pr c e = do {
     let bo = enc_byteorder e;
     let e = (case input_byteorder req of Some b \<Rightarrow> enc_set_byteorder b e | None \<Rightarrow> e);
     (key, e) \<leftarrow> put_header c Request e;
     let send_codesets = (\<not> codesets_sent c \<and> conv c \<noteq> None \<and> giop_ver c \<ge> 0x0101);
     let c = (if send_codesets then c\<lparr>codesets_sent := True\<rparr> else c);
     e \<leftarrow> request_head disabled peer_info req_id response_flags obj req pr send_codesets c e;
     e \<leftarrow> align_put c e;
     (ok, e) \<leftarrow> put_args (get_in_args req) key bo c e;
     Some ((ok, c), e)
   }"

text \<open>Where \<open>put_invoke_reply\<close> would put the arguments of a version before 1.2, for a request that keeps its reply.\<close>

definition put_invoke_reply_offset :: "bool \<Rightarrow> request \<Rightarrow> codec \<Rightarrow> encoder \<Rightarrow> encoder option" where
  "put_invoke_reply_offset disabled req c e = do {
     e \<leftarrow> on_ebuf (wseek_rel (headerlen c)) e;
     e \<leftarrow> put_contextlist disabled c (svc_context req) False e;
     e \<leftarrow> put_ulong 0 e;
     enc_enumeration 0 e
   }"

definition reply_head :: "bool \<Rightarrow> ulong \<Rightarrow> ulong \<Rightarrow> service_context list \<Rightarrow> codec \<Rightarrow> encoder \<Rightarrow> encoder option" where
  "reply_head disabled req_id stat ctx c e =
     (if giop_ver c < 0x0102 then do {
        e \<leftarrow> put_contextlist disabled c ctx False e;
        e \<leftarrow> put_ulong req_id e;
        enc_enumeration stat e
      } else do {
        e \<leftarrow> put_ulong req_id e;
        e \<leftarrow> enc_enumeration stat e;
        put_contextlist disabled c ctx False e
      })"

definition put_invoke_reply ::
    "bool \<Rightarrow> ulong \<Rightarrow> ulong \<Rightarrow> ior \<Rightarrow> request \<Rightarrow> ushort \<Rightarrow> codec \<Rightarrow> encoder \<Rightarrow> (bool \<times> encoder) option" where
  "put_invoke_reply disabled req_id stat obj req ad c e = do {
     let bo = enc_byteorder e;
     let e = (case output_byteorder req of Some b \<Rightarrow> enc_set_byteorder b e | None \<Rightarrow> e);
     (key, e) \<leftarrow> put_header c Reply e;
     e \<leftarrow> reply_head disabled req_id stat (svc_context req) c e;
     if stat \<in> {NO_EXCEPTION, USER_EXCEPTION, SYSTEM_EXCEPTION} then do {
       e \<leftarrow> align_put c e;
       put_args (get_out_args req) key bo c e
     } else if stat \<in> {LOCATION_FORWARD, LOCATION_FORWARD_PERM} then
       put_args (\<lambda>e. do { e \<leftarrow> ior_encode obj e; Some (True, e) }) key bo c e
     else if stat = NEEDS_ADDRESSING_MODE then
       put_args (\<lambda>e. do { e \<leftarrow> put_short ad e; Some (True, e) }) key bo c e
     else None
   }"

definition put_cancel_request :: "ulong \<Rightarrow> codec \<Rightarrow> encoder \<Rightarrow> encoder option" where
  "put_cancel_request req_id c e = do {
     (key, e) \<leftarrow> put_header c CancelRequest e;
     e \<leftarrow> put_ulong req_id e;
     put_size c key e
   }"

definition put_locate_request :: "ulong \<Rightarrow> target_ref \<Rightarrow> codec \<Rightarrow> encoder \<Rightarrow> encoder option" where
  "put_locate_request req_id obj c e = do {
     (key, e) \<leftarrow> put_header c LocateRequest e;
     e \<leftarrow> put_ulong req_id e;
     e \<leftarrow> put_target c obj e;
     put_size c key e
   }"

definition put_locate_reply :: "ulong \<Rightarrow> ulong \<Rightarrow> ior \<Rightarrow> ushort \<Rightarrow> codec \<Rightarrow> encoder \<Rightarrow> encoder option" where
  "put_locate_reply req_id stat obj ad c e = do {
     (key, e) \<leftarrow> put_header c LocateReply e;
     e \<leftarrow> put_ulong req_id e;
     e \<leftarrow> enc_enumeration stat e;
     e \<leftarrow> (if stat \<in> {OBJECT_FORWARD, OBJECT_FORWARD_PERM} then ior_encode obj e
         else if stat = LOC_NEEDS_ADDRESSING_MODE then put_short ad e
         else Some e);
     put_size c key e
   }"

definition bind_op :: "octet list" where "bind_op = map of_char ''_bind'' @ [0]"

definition put_bind_request ::
    "bool \<Rightarrow> octet list \<Rightarrow> ulong \<Rightarrow> octet list \<Rightarrow> octet list \<Rightarrow> codec \<Rightarrow> encoder \<Rightarrow> encoder option" where
  "put_bind_request disabled peer_info req_id repoid tag c e = do {
     (key, e) \<leftarrow> put_header c Request e;
     e \<leftarrow> (if giop_ver c < 0x0102 then do {
         e \<leftarrow> put_contextlist disabled c [] False e;
         e \<leftarrow> put_ulong req_id e;
         e \<leftarrow> put_boolean 1 e;
         e \<leftarrow> put_reserved c e;
         e \<leftarrow> put_ulong 0 e;
         e \<leftarrow> put_string bind_op e;
         put_principal peer_info e
       } else do {
         e \<leftarrow> put_ulong req_id e;
         e \<leftarrow> put_octet 0x03 e;
         e \<leftarrow> put_octets [0, 0, 0] 3 e;
         e \<leftarrow> put_short KeyAddr e;
         e \<leftarrow> put_ulong 0 e;
         e \<leftarrow> put_string bind_op e;
         put_contextlist disabled c [] False e
       });
     e \<leftarrow> align_put c e;
     e \<leftarrow> put_string (repoid @ [0]) e;
     e \<leftarrow> enc_seq_begin (word_of_nat (length tag)) e;
     e \<leftarrow> (if length tag > 0 then put_octets tag (word_of_nat (length tag)) e else Some e);
     put_size c key e
   }"

definition put_bind_reply :: "bool \<Rightarrow> ulong \<Rightarrow> ulong \<Rightarrow> ior \<Rightarrow> codec \<Rightarrow> encoder \<Rightarrow> encoder option" where
  "put_bind_reply disabled req_id stat obj c e = do {
     (key, e) \<leftarrow> put_header c Reply e;
     e \<leftarrow> reply_head disabled req_id NO_EXCEPTION [] c e;
     e \<leftarrow> align_put c e;
     e \<leftarrow> enc_enumeration stat e;
     e \<leftarrow> ior_encode (if stat = OBJECT_HERE then obj else \<lparr>oid = [], tags = []\<rparr>) e;
     put_size c key e
   }"

definition put_close_msg :: "codec \<Rightarrow> encoder \<Rightarrow> encoder option" where
  "put_close_msg c e = do { (key, e) \<leftarrow> put_header c CloseConnection e; put_size c key e }"

definition put_error_msg :: "codec \<Rightarrow> encoder \<Rightarrow> encoder option" where
  "put_error_msg c e = do { (key, e) \<leftarrow> put_header c MessageError e; put_size c key e }"

section \<open>Reading\<close>

text \<open>
  A reader with the state of the codec, which it returns also where it fails: a decoder whose value
  is the result and the new state.
\<close>

type_synonym 'a cdec = "codec \<Rightarrow> ('a option \<times> codec) dec"

definition cret :: "'a \<Rightarrow> 'a cdec" where "cret v c = dret (Some v, c)"

definition cfail :: "'a cdec" where "cfail c = dret (None, c)"

definition clift :: "'a dec \<Rightarrow> 'a cdec" where
  "clift m c d = do { (r, d) \<leftarrow> m d; dret (r, c) d }"

definition cbind :: "'a cdec \<Rightarrow> ('a \<Rightarrow> 'b cdec) \<Rightarrow> 'b cdec" where
  "cbind m k c = dbind (m c) (\<lambda>(r, c). case r of None \<Rightarrow> cfail c | Some v \<Rightarrow> k v c)"

definition cif :: "(codec \<Rightarrow> bool) \<Rightarrow> 'a cdec \<Rightarrow> 'a cdec \<Rightarrow> 'a cdec" where
  "cif P m1 m2 c = (if P c then m1 c else m2 c)"

text \<open>A version above the codec's is refused, a lower one with major number 1 adopted.\<close>

definition check_version :: "octet \<Rightarrow> octet \<Rightarrow> unit cdec" where
  "check_version maj mnr c =
     (let ver = join_version maj mnr in
      if ver < giop_ver c \<and> maj = 1 then cret () (c\<lparr>giop_ver := ver\<rparr>)
      else if ver > giop_ver c then cfail c
      else cret () c)"

definition get_flags :: "octet cdec" where
  "get_flags = cif (\<lambda>c. giop_ver c = 0x0100)
     (clift (dbind get_boolean (\<lambda>b d.
        dret (if b \<noteq> 0 then 1 else 0) (dec_set_byteorder (if b \<noteq> 0 then LittleEndian else BigEndian) d))))
     (clift (dbind get_octet (\<lambda>flags d.
        dret flags (dec_set_byteorder
          (if and flags GIOP_BYTEORDER_BIT \<noteq> 0 then LittleEndian else BigEndian) d))))"

text \<open>The type of a message, the size of its body and its flags.\<close>

definition get_header :: "(octet \<times> ulong \<times> octet) cdec" where
  "get_header =
     cbind (clift (get_chars_raw 4)) (\<lambda>magic.
     if magic \<noteq> giop_magic then cfail
     else cbind (clift get_octet) (\<lambda>maj.
     cbind (clift get_octet) (\<lambda>mnr.
     cbind (check_version maj mnr) (\<lambda>_.
     cbind get_flags (\<lambda>flags.
     cbind (clift get_octet) (\<lambda>mt.
     cbind (clift get_ulong) (\<lambda>sz.
       cret (mt, sz, flags))))))))"

definition check_header :: "(octet \<times> ulong \<times> octet) cdec" where
  "check_header c d = do {
     let pos = rptr (dbuf d);
     (r, d) \<leftarrow> get_header c d;
     Some (r, d\<lparr>dbuf := snd (rseek_beg pos (dbuf d))\<rparr>)
   }"

text \<open>The service contexts, and the code sets when one of the contexts names them.\<close>

fun context_loop ::
    "bool \<Rightarrow> nat \<Rightarrow> service_context list \<Rightarrow> (ulong \<times> ulong) option \<Rightarrow>
     (service_context list \<times> (ulong \<times> ulong) option) dec" where
  "context_loop disabled 0 ctx got = dret (ctx, got)"
| "context_loop disabled (Suc n) ctx got =
     dbind get_ulong (\<lambda>cid.
       if cid = CodeSets \<and> \<not> disabled
       then dbind (dec_encaps_begin no_encaps) (\<lambda>(state, len).
            dbind get_ulong (\<lambda>cs.
            dbind get_ulong (\<lambda>wcs.
            dbind (dec_encaps_end state) (\<lambda>_.
              context_loop disabled n ctx (Some (cs, wcs))))))
       else dbind dec_seq_begin (\<lambda>len.
            dbind (if len > 0 then get_octets len else dret []) (\<lambda>xs.
              context_loop disabled n (ctx @ [\<lparr>context_id = cid, context_data = xs\<rparr>]) got)))"

definition setup_codesets ::
    "(codeset_coder \<Rightarrow> bool) \<Rightarrow> bool \<Rightarrow> (ulong \<times> ulong) option \<Rightarrow> codec \<Rightarrow> (bool \<times> codec) option" where
  "setup_codesets isok disabled got c =
     (if conv c \<noteq> None \<or> disabled then Some (True, c)
      else case got of
        None \<Rightarrow> Some (True, c\<lparr>conv := Some GIOP_1_0_CodeSetCoder\<rparr>)
      | Some (cs, wcs) \<Rightarrow>
          if giop_ver c = 0x0100 then Some (True, c\<lparr>conv := Some GIOP_1_0_CodeSetCoder\<rparr>)
          else do {
            k \<leftarrow> (if giop_ver c = 0x0101 then Some (GIOP_1_1_CodeSetCoder cs)
                 else if giop_ver c \<ge> 0x0102 then Some (GIOP_1_2_CodeSetCoder cs wcs)
                 else None);
            let c = c\<lparr>conv := Some k\<rparr>;
            if isok k then Some (True, c\<lparr>csid := cs, wcsid := wcs\<rparr>) else Some (False, c)
          })"

definition get_contextlist :: "(codeset_coder \<Rightarrow> bool) \<Rightarrow> bool \<Rightarrow> bool \<Rightarrow> service_context list cdec" where
  "get_contextlist isok disabled codesets =
     cbind (clift (dbind dec_seq_begin (\<lambda>len. context_loop disabled (unat len) [] None))) (\<lambda>(ctx, got) c d.
       if \<not> codesets then cret ctx c d
       else do {
         (ok, c) \<leftarrow> setup_codesets isok disabled got c;
         (if ok then cret ctx else cfail) c d
       })"

text \<open>What a target is, to the server: an object key, a profile, or a reference.\<close>

datatype target =
    TargetKey "octet list"
  | TargetProfile profile
  | TargetReference ior

definition get_target :: "(octet list \<Rightarrow> octet list option) \<Rightarrow> target cdec" where
  "get_target resolve = cif (\<lambda>c. giop_ver c < 0x0102)
     (clift (dbind decode_key (\<lambda>key. dret (TargetKey key))))
     (clift (dbind get_short (\<lambda>kind.
        if kind = KeyAddr then dbind decode_key (\<lambda>key. dret (TargetKey key))
        else if kind = ProfileAddr then dbind profile_decode (\<lambda>p. dret (TargetProfile p))
        else if kind = ReferenceAddr then dbind get_ulong (\<lambda>_. dbind (ior_decode resolve) (\<lambda>i. dret (TargetReference i)))
        else dfail)))"

definition get_principal :: "octet list dec" where
  "get_principal = dbind dec_seq_begin (\<lambda>len d.
     if len = 0 then dret [] d
     else if buf_length (dbuf d) < len then dfail d
     else do {
       rep \<leftarrow> mem_read (mem (dbuf d)) (unat (rptr (dbuf d))) (unat len);
       dret rep (dec_skip len d)
     })"

text \<open>Aligning before a body, where nothing need follow.\<close>

definition align_get :: "unit cdec" where
  "align_get c d =
     (if giop_ver c \<ge> 0x0102
      then do { (_, b) \<leftarrow> ralign 8 (dbuf d); cret () c (d\<lparr>dbuf := b\<rparr>) }
      else cret () c d)"

record invocation =
  inv_id :: ulong
  inv_flags :: octet
  inv_target :: target
  inv_op :: "octet list"
  inv_context :: "service_context list"
  inv_principal :: "octet list option"

definition get_reserved :: "unit cdec" where
  "get_reserved = cif (\<lambda>c. giop_ver c \<noteq> 0x0100)
     (cbind (clift (get_octets 3)) (\<lambda>_. cret ())) (cret ())"

text \<open>The operation name keeps its terminating zero.\<close>

definition request_head_get ::
    "(octet list \<Rightarrow> octet list option) \<Rightarrow> (codeset_coder \<Rightarrow> bool) \<Rightarrow> bool \<Rightarrow> invocation cdec" where
  "request_head_get resolve isok disabled = cif (\<lambda>c. giop_ver c < 0x0102)
     (cbind (get_contextlist isok disabled True) (\<lambda>ctx.
      cbind (clift get_ulong) (\<lambda>req_id.
      cbind (clift get_boolean) (\<lambda>response_flags.
      cbind get_reserved (\<lambda>_.
      cbind (get_target resolve) (\<lambda>obj.
      cbind (clift get_string_raw) (\<lambda>opname.
      cbind (clift get_principal) (\<lambda>pr.
        cret \<lparr>inv_id = req_id, inv_flags = response_flags, inv_target = obj, inv_op = opname,
          inv_context = ctx, inv_principal = Some pr\<rparr>))))))))
     (cbind (clift get_ulong) (\<lambda>req_id.
      cbind (clift get_octet) (\<lambda>response_flags.
      cbind (clift (get_octets 3)) (\<lambda>_.
      cbind (get_target resolve) (\<lambda>obj.
      cbind (clift get_string_raw) (\<lambda>opname.
      cbind (get_contextlist isok disabled True) (\<lambda>ctx.
        cret \<lparr>inv_id = req_id, inv_flags = (if and response_flags 0x02 \<noteq> 0 then 1 else 0), inv_target = obj,
          inv_op = opname, inv_context = ctx, inv_principal = None\<rparr>)))))))"

definition get_invoke_request ::
    "(octet list \<Rightarrow> octet list option) \<Rightarrow> (codeset_coder \<Rightarrow> bool) \<Rightarrow> bool \<Rightarrow> invocation cdec" where
  "get_invoke_request resolve isok disabled =
     cbind (request_head_get resolve isok disabled) (\<lambda>inv. cbind align_get (\<lambda>_. cret inv))"

definition reply_head_get :: "(codeset_coder \<Rightarrow> bool) \<Rightarrow> bool \<Rightarrow> (ulong \<times> ulong \<times> service_context list) cdec" where
  "reply_head_get isok disabled = cif (\<lambda>c. giop_ver c < 0x0102)
     (cbind (get_contextlist isok disabled False) (\<lambda>ctx.
      cbind (clift get_ulong) (\<lambda>req_id.
      cbind (clift dec_enumeration) (\<lambda>k.
        cret (req_id, k, ctx)))))
     (cbind (clift get_ulong) (\<lambda>req_id.
      cbind (clift dec_enumeration) (\<lambda>k.
      cbind (get_contextlist isok disabled False) (\<lambda>ctx.
        cret (req_id, k, ctx)))))"

definition get_invoke_reply1 :: "(codeset_coder \<Rightarrow> bool) \<Rightarrow> bool \<Rightarrow> (ulong \<times> ulong \<times> service_context list) cdec" where
  "get_invoke_reply1 isok disabled =
     cbind (reply_head_get isok disabled) (\<lambda>(req_id, stat, ctx).
     cif (\<lambda>c. stat \<in> {NO_EXCEPTION, USER_EXCEPTION, SYSTEM_EXCEPTION, LOCATION_FORWARD} \<or>
            stat \<in> {LOCATION_FORWARD_PERM, NEEDS_ADDRESSING_MODE} \<and> giop_ver c \<ge> 0x0102)
       (cbind align_get (\<lambda>_. cret (req_id, stat, ctx)))
       cfail)"

text \<open>
  The body of a reply: arguments or an exception are handed to the caller (\<open>set_out_args\<close> is a
  parameter), the others are read here.
\<close>

datatype 'a reply_body =
    ReplyArgs bool 'a
  | ReplyForward ior
  | ReplyAddressing ushort

definition get_invoke_reply2 ::
    "(octet list \<Rightarrow> octet list option) \<Rightarrow> ulong \<Rightarrow> (bool \<Rightarrow> 'a dec) \<Rightarrow> 'a reply_body dec" where
  "get_invoke_reply2 resolve stat set_out_args =
     (if stat = NO_EXCEPTION then dbind (set_out_args False) (\<lambda>v. dret (ReplyArgs False v))
      else if stat \<in> {USER_EXCEPTION, SYSTEM_EXCEPTION} then dbind (set_out_args True) (\<lambda>v. dret (ReplyArgs True v))
      else if stat \<in> {LOCATION_FORWARD, LOCATION_FORWARD_PERM} then dbind (ior_decode resolve) (\<lambda>i. dret (ReplyForward i))
      else if stat = NEEDS_ADDRESSING_MODE then dbind get_short (\<lambda>ad. dret (ReplyAddressing ad))
      else dfail)"

definition get_cancel_request :: "ulong dec" where
  "get_cancel_request = get_ulong"

definition get_locate_request :: "(octet list \<Rightarrow> octet list option) \<Rightarrow> (ulong \<times> target) cdec" where
  "get_locate_request resolve =
     cbind (clift get_ulong) (\<lambda>req_id. cbind (get_target resolve) (\<lambda>obj. cret (req_id, obj)))"

datatype locate_body = LocateNothing | LocateForward ior | LocateAddressing ushort

definition get_locate_reply :: "(octet list \<Rightarrow> octet list option) \<Rightarrow> (ulong \<times> ulong \<times> locate_body) dec" where
  "get_locate_reply resolve =
     dbind get_ulong (\<lambda>req_id.
     dbind dec_enumeration (\<lambda>stat.
     dbind (if stat \<in> {UNKNOWN_OBJECT, OBJECT_HERE} then dret LocateNothing
            else if stat \<in> {OBJECT_FORWARD, OBJECT_FORWARD_PERM}
            then dbind (ior_decode resolve) (\<lambda>i. dret (LocateForward i))
            else if stat = LOC_NEEDS_ADDRESSING_MODE then dbind get_short (\<lambda>ad. dret (LocateAddressing ad))
            else dfail) (\<lambda>body.
       dret (req_id, stat, body))))"

definition get_bind_request :: "(octet list \<times> octet list) dec" where
  "get_bind_request =
     dbind get_string (\<lambda>repoid.
     dbind dec_seq_begin (\<lambda>l.
     dbind (if l > 0 then get_octets l else dret []) (\<lambda>tag.
       dret (repoid, tag))))"

definition get_bind_reply :: "(octet list \<Rightarrow> octet list option) \<Rightarrow> (ulong \<times> ior) dec" where
  "get_bind_reply resolve =
     dbind dec_enumeration (\<lambda>stat.
     dbind (ior_decode resolve) (\<lambda>i.
       if stat \<in> {UNKNOWN_OBJECT, OBJECT_HERE, OBJECT_FORWARD, OBJECT_FORWARD_PERM, LOC_NEEDS_ADDRESSING_MODE}
       then dret (stat, i) else dfail))"

text \<open>The id of a fragment, which fragments of version 1.1 do not have.\<close>

definition get_fragment_header :: "ulong option cdec" where
  "get_fragment_header = cif (\<lambda>c. giop_ver c < 0x0102)
     (cret None) (cbind (clift get_ulong) (\<lambda>req_id. cret (Some req_id)))"

end
