(* ===== verification/GIOP_Codec.thy ===== *)
theory GIOP_Codec
  imports GIOP
begin

text \<open>
  What GIOP messages promise: the parts of a message are marshalled types, a header carries the
  version, the byte order and the size of what follows, and a request or reply put together by one codec
  is taken apart by another of the same or a higher version, up to the arguments, which start
  where their writer put them. The alignment of the body of a forwarding reply is not the same on both sides.
\<close>

section \<open>Readers with codec state\<close>

lemma takes_clift: "takes m v im \<Longrightarrow> takes (clift m c) (Some v, c) im"
  unfolding takes_def clift_def dret_def by (metis (mono_tags, lifting) Option.bind.bind_lunit case_prod_conv)

lemma takes_cret: "takes (cret v c) (Some v, c) im_nil"
  by (simp add: cret_def takes_ret)

lemma takes_cbind:
  assumes m: "takes (m c) (Some v, c1) im" and k: "takes (k v c1) w jm"
  shows "takes (cbind m k c) w (im_seq im jm)"
  unfolding cbind_def by (rule takes_bind [OF m]) (simp add: k)

lemma takes_cif:
  "P c \<Longrightarrow> takes (m1 c) w im \<Longrightarrow> takes (cif P m1 m2 c) w im"
  "\<not> P c \<Longrightarrow> takes (m2 c) w im \<Longrightarrow> takes (cif P m1 m2 c) w im"
  by (simp_all add: cif_def)

lemma takes_boolean: "takes get_boolean x (im_octets [x])"
  using takes_octet [of x] by (simp add: get_boolean_def get_octet_def)

lemma takes_enumeration: "takes dec_enumeration w (im_ulong w)"
  by (simp add: dec_enumeration_def takes_ulong)

lemma takes_short: "takes get_short w (im_ushort w)"
  by (rule takesI) (use short.get_law quiet_calm in \<open>simp add: im_ushort_def word_at_def\<close>)

lemma appends_short: "appends (put_short w) (im_ushort w) 4"
proof (rule appendsI)
  show "length (im_ushort w bo p) \<le> 4" for bo p
    using padlen_less [of 2 p] by (simp add: im_ushort_def word_at_def)
qed (use short.put_law in \<open>simp add: im_ushort_def word_at_def\<close>)

lemma appends_boolean: "appends (put_boolean x) (im_octets [x]) 2"
  using appends_octet [of x] by (simp add: put_boolean_def [abs_def] put_octet_def [abs_def])

lemma appends_enumeration: "appends (enc_enumeration w) (im_ulong w) 8"
  using appends_ulong [of w] by (simp add: enc_enumeration_def [abs_def])

lemma appends_reserved: "appends (put_octets [0, 0, 0] 3) (im_octets [0, 0, 0]) 3"
  using appends_mono [OF appends_octets [of "[0, 0, 0]"], of 3] by simp

lemma takes_reserved: "takes (get_octets 3) [0, 0, 0] (im_octets [0, 0, 0])"
  using takes_octets [of "[0, 0, 0]"] by simp

lemma dbind_assoc: "dbind (dbind m f) g = dbind m (\<lambda>v. dbind (f v) g)"
  by (rule ext) (auto simp: dbind_def split: option.splits Option.bind_splits)

text \<open>An encapsulation, and what is read behind it.\<close>

lemma takes_encaps_then:
  assumes m: "takes m v im" and k: "takes (k v) w jm"
  shows "takes (dbind (dec_encaps_begin st) (\<lambda>(state, len). dbind m (\<lambda>v. dbind (dec_encaps_end state) (\<lambda>_. k v)))) w
     (im_seq (im_encaps im) jm)"
proof -
  have "takes (dbind (dec_encaps_begin st) (\<lambda>(state, len). dbind m (\<lambda>v. dbind (dec_encaps_end state) (\<lambda>_. dret v)))) v
      (im_encaps im)"
  proof (rule takes_encapsI)
    fix a d1 rest
    assume d1: "dec_ok d1" "quiet d1" "roffd d1 = 1" "octets (dbuf d1) = im (d_data_bo d1) 1 @ rest"
    from d1(4) have "octets (dbuf d1) = im (d_data_bo d1) (roffd d1) @ rest" by (simp only: d1(3))
    from takesE [OF m d1(1,2) this] obtain d2 where d2: "m d1 = Some (Some v, d2)"
      "consumes d1 (im (d_data_bo d1) 1) d2" "d_data_bo d2 = d_data_bo d1" unfolding d1(3) by blast
    show "\<exists>d2. (case (st\<lparr>es_align := a, es_bo := d_data_bo d1\<rparr>, word_of_nat (length (im (d_data_bo d1) 1))) of
         (state, len) \<Rightarrow> dbind m (\<lambda>v. dbind (dec_encaps_end state) (\<lambda>_. dret v))) d1 =
           Some (Some v, set_ralign_base a d2) \<and> consumes d1 (im (d_data_bo d1) 1) d2"
      using d2 set_ralign_base_end [OF d2(3), where st = st and a = a]
      by (intro exI [of _ d2]) (simp add: dbind_def dret_def)
  qed
  from takes_bind [where k = k, OF this k] show ?thesis by (simp add: dbind_assoc case_prod_unfold)
qed

section \<open>Service contexts\<close>

definition context_image :: "service_context \<Rightarrow> image_at" where
  "context_image x = im_seq (im_ulong (context_id x)) (im_blob (context_data x))"

definition codesets_image :: "(ulong \<times> ulong) option \<Rightarrow> image_at" where
  "codesets_image got = (case got of None \<Rightarrow> im_nil
     | Some (cs, wcs) \<Rightarrow> im_seq (im_ulong CodeSets) (im_encaps (im_seq (im_ulong cs) (im_ulong wcs))))"

definition ctx_image :: "service_context list \<Rightarrow> (ulong \<times> ulong) option \<Rightarrow> image_at" where
  "ctx_image ctx got = im_seq (im_ulong (word_of_nat (length ctx) + (if got \<noteq> None then 1 else 0)))
     (im_seq (im_list context_image ctx) (codesets_image got))"

definition ctx_size :: "service_context list \<Rightarrow> nat" where
  "ctx_size ctx = 8 + (sum_list (map (\<lambda>x. 16 + length (context_data x)) ctx) + 34)"

text \<open>A context of the caller must not pass for the codec's own.\<close>

definition context_ok :: "bool \<Rightarrow> service_context \<Rightarrow> bool" where
  "context_ok disabled x \<longleftrightarrow> length (context_data x) < 4294967296 \<and> (context_id x = CodeSets \<longrightarrow> disabled)"

lemma appends_context: "length (context_data x) < 4294967296 \<Longrightarrow> appends (put_context x) (context_image x) (16 + length (context_data x))"
proof -
  assume len: "length (context_data x) < 4294967296"
  have *: "appends (\<lambda>e. if length (context_data x) > 0 then put_octets (context_data x) (word_of_nat (length (context_data x))) e else Some e)
      (im_octets (context_data x)) (length (context_data x))"
    using appends_octets [OF len] appends_done
    by (cases "context_data x") (simp_all add: im_octets_def im_nil_def)
  have "put_context x = (\<lambda>e. Option.bind (put_ulong (context_id x) e) (\<lambda>e. Option.bind (put_ulong (word_of_nat (length (context_data x))) e)
      (\<lambda>e. if length (context_data x) > 0 then put_octets (context_data x) (word_of_nat (length (context_data x))) e else Some e)))"
    by (simp add: fun_eq_iff put_context_def Let_def enc_seq_begin_def)
  then show ?thesis
    using appends_bind [OF appends_ulong appends_bind [OF appends_ulong *], of "context_id x" "word_of_nat (length (context_data x))"]
    by (simp add: context_image_def im_blob_def)
qed

lemma appends_codesets:
  "appends (\<lambda>e. if sets \<and> \<not> disabled
       then encode_tagged CodeSets (\<lambda>e. Option.bind (put_ulong (csid c) e) (put_ulong (wcsid c))) e else Some e)
     (codesets_image (if sets \<and> \<not> disabled then Some (csid c, wcsid c) else None)) 34"
proof (cases "sets \<and> \<not> disabled")
  case True
  then show ?thesis
    using appends_tagged [OF appends_bind [OF appends_ulong appends_ulong], of CodeSets "csid c" "wcsid c"]
    by (simp add: codesets_image_def)
next
  case False
  then have "(\<lambda>e. if sets \<and> \<not> disabled
       then encode_tagged CodeSets (\<lambda>e. Option.bind (put_ulong (csid c) e) (put_ulong (wcsid c))) e else Some e) = Some"
    by (simp only: if_False)
  then show ?thesis using appends_mono [OF appends_done, of 34] False
    by (simp only: if_False codesets_image_def option.case)
qed

lemma appends_contextlist:
  assumes "list_all (context_ok dis) ctx"
  shows "appends (put_contextlist disabled c ctx sets)
     (ctx_image ctx (if sets \<and> \<not> disabled then Some (csid c, wcsid c) else None)) (ctx_size ctx)"
proof -
  let ?n = "word_of_nat (length ctx) + (if sets \<and> \<not> disabled then 1 else 0) :: ulong"
  have "put_contextlist disabled c ctx sets = (\<lambda>e. Option.bind (put_ulong ?n e) (\<lambda>e. Option.bind (enc_loop put_context ctx e)
      (\<lambda>e. if sets \<and> \<not> disabled
       then encode_tagged CodeSets (\<lambda>e. Option.bind (put_ulong (csid c) e) (put_ulong (wcsid c))) e else Some e)))"
    by (simp add: fun_eq_iff put_contextlist_def Let_def enc_seq_begin_def)
  moreover have "appends (enc_loop put_context ctx) (im_list context_image ctx) (sum_list (map (\<lambda>x. 16 + length (context_data x)) ctx))"
    by (rule appends_loop, rule appends_context) (use assms in \<open>auto simp: list_all_iff context_ok_def\<close>)
  from appends_bind [OF appends_ulong appends_bind [OF this appends_codesets]]
  have "appends (\<lambda>e. Option.bind (put_ulong ?n e) (\<lambda>e. Option.bind (enc_loop put_context ctx e)
      (\<lambda>e. if sets \<and> \<not> disabled
       then encode_tagged CodeSets (\<lambda>e. Option.bind (put_ulong (csid c) e) (put_ulong (wcsid c))) e else Some e)))
     (im_seq (im_ulong ?n) (im_seq (im_list context_image ctx)
       (codesets_image (if sets \<and> \<not> disabled then Some (csid c, wcsid c) else None)))) (ctx_size ctx)"
    unfolding ctx_size_def .
  moreover have "(if (if sets \<and> \<not> disabled then Some (csid c, wcsid c) else None) \<noteq> None then 1 else 0 :: ulong) =
      (if sets \<and> \<not> disabled then 1 else 0)" by simp
  ultimately show ?thesis by (simp only: ctx_image_def)
qed

lemma takes_context_data:
  assumes "length xs < 4294967296" and "takes (k xs) w jm"
  shows "takes (dbind dec_seq_begin (\<lambda>len. dbind (if len > 0 then get_octets len else dret []) k)) w (im_seq (im_blob xs) jm)"
proof -
  let ?l = "word_of_nat (length xs) :: ulong"
  have u: "unat ?l = length xs" using assms(1) by (simp add: nowrap)
  have "takes (if ?l > 0 then get_octets ?l else dret []) xs (im_octets xs)"
  proof (cases xs)
    case Nil
    then show ?thesis using takes_ret [of "[]"] by (simp add: im_octets_def im_nil_def)
  next
    case (Cons x ys)
    then have "?l > 0" using u by (simp add: word_less_nat_alt)
    then show ?thesis using takes_octets [OF assms(1)] by simp
  qed
  from takes_bind [where k = k, OF this assms(2)]
  have t: "takes (dbind (if ?l > 0 then get_octets ?l else dret []) k) w (im_seq (im_octets xs) jm)" .
  have fit: "unat ?l \<le> length (im_seq (im_octets xs) jm bo p)" for bo p by (simp add: u im_seq_def im_octets_def)
  show ?thesis unfolding im_blob_def im_seq_assoc
    by (rule takes_seq_begin [where k = "\<lambda>len. dbind (if len > 0 then get_octets len else dret []) k"]) (rule fit, rule t)
qed

lemma takes_contexts:
  assumes "list_all (context_ok disabled) ctx" and "takes (context_loop disabled k (acc @ ctx) got) w jm"
  shows "takes (context_loop disabled (length ctx + k) acc got) w (im_seq (im_list context_image ctx) jm)"
  using assms
proof (induction ctx arbitrary: acc)
  case Nil
  then show ?case by simp
next
  case (Cons x ctx)
  have x: "length (context_data x) < 4294967296" "\<not> (context_id x = CodeSets \<and> \<not> disabled)"
    using Cons.prems(1) by (auto simp: context_ok_def)
  have "takes (context_loop disabled (length ctx + k) (acc @ [x]) got) w (im_seq (im_list context_image ctx) jm)"
    by (rule Cons.IH) (use Cons.prems in simp_all)
  then have "takes (context_loop disabled (length ctx + k) (acc @ [\<lparr>context_id = context_id x, context_data = context_data x\<rparr>]) got) w
      (im_seq (im_list context_image ctx) jm)" by (cases x) simp
  note step = this
  have "takes (context_loop disabled (Suc (length ctx + k)) acc got) w
      (im_seq (im_ulong (context_id x)) (im_seq (im_blob (context_data x)) (im_seq (im_list context_image ctx) jm)))"
    unfolding context_loop.simps
    by (rule takes_bind [OF takes_ulong], unfold if_not_P [OF x(2)], rule takes_context_data [OF x(1)], rule step)
  then show ?case by (simp add: context_image_def [of x] del: context_loop.simps)
qed

lemma takes_contextlist_raw:
  assumes "list_all (context_ok disabled) ctx" and "length ctx < 4294967295" and "got \<noteq> None \<longrightarrow> \<not> disabled"
  shows "takes (dbind dec_seq_begin (\<lambda>len. context_loop disabled (unat len) [] None)) (ctx, got) (ctx_image ctx got)"
proof -
  let ?n = "word_of_nat (length ctx) + (if got \<noteq> None then 1 else 0) :: ulong"
  define k where "k = (if got \<noteq> None then 1 else 0 :: nat)"
  have u: "unat ?n = length ctx + k" using assms(2) by (simp add: k_def nowrap)
  have tail: "takes (context_loop disabled k ctx None) (ctx, got) (codesets_image got)"
  proof (cases got)
    case None
    then show ?thesis by (simp add: k_def codesets_image_def takes_ret)
  next
    case (Some p)
    obtain cs wcs where p: "got = Some (cs, wcs)" using Some by (cases p) simp
    have nd: "CodeSets = CodeSets \<and> \<not> disabled" using assms(3) p by simp
    have "takes (dbind get_ulong (\<lambda>cs. dbind get_ulong (\<lambda>wcs. dret (cs, wcs)))) (cs, wcs) (im_seq (im_ulong cs) (im_seq (im_ulong wcs) im_nil))"
      by (rule takes_bind [OF takes_ulong], rule takes_bind [OF takes_ulong], rule takes_ret)
    from takes_encaps_then [OF this, where k = "\<lambda>v. dret (ctx, Some v)", OF takes_ret, of no_encaps]
    have "takes (dbind (dec_encaps_begin no_encaps) (\<lambda>(state, len). dbind get_ulong (\<lambda>cs. dbind get_ulong (\<lambda>wcs.
        dbind (dec_encaps_end state) (\<lambda>_. dret (ctx, Some (cs, wcs))))))) (ctx, Some (cs, wcs))
        (im_encaps (im_seq (im_ulong cs) (im_ulong wcs)))"
      by (simp add: dbind_assoc)
    note enc = this
    have "takes (context_loop disabled (Suc 0) ctx None) (ctx, Some (cs, wcs))
        (im_seq (im_ulong CodeSets) (im_encaps (im_seq (im_ulong cs) (im_ulong wcs))))"
      unfolding context_loop.simps by (rule takes_bind [OF takes_ulong], unfold if_P [OF nd], rule enc)
    then show ?thesis by (simp add: k_def codesets_image_def p del: context_loop.simps)
  qed
  have "takes (context_loop disabled (length ctx + k) [] None) (ctx, got) (im_seq (im_list context_image ctx) (codesets_image got))"
    by (rule takes_contexts [OF assms(1)]) (simp add: tail)
  then have "takes (context_loop disabled (unat ?n) [] None) (ctx, got) (im_seq (im_list context_image ctx) (codesets_image got))"
    by (simp only: u)
  note loop = this
  have one: "1 \<le> length (context_image x bo p)" for x bo p
    by (simp add: context_image_def im_seq_def im_blob_def im_ulong_def word_at_def)
  have "unat ?n \<le> length (im_seq (im_list context_image ctx) (codesets_image got) bo p)" for bo p
  proof -
    have "length ctx \<le> length (im_list context_image ctx bo p)" by (rule length_im_list) (rule one)
    moreover have "k \<le> length (codesets_image got bo q)" for q
      by (auto simp: k_def codesets_image_def im_seq_def im_ulong_def word_at_def split: option.splits)
    ultimately show ?thesis unfolding u im_seq_def by (simp add: add_mono)
  qed
  then show ?thesis unfolding ctx_image_def
    by (rule takes_seq_begin [where k = "\<lambda>len. context_loop disabled (unat len) [] None", OF _ loop])
qed

lemma takes_contextlist:
  assumes "list_all (context_ok disabled) ctx" and "length ctx < 4294967295" and "got \<noteq> None \<longrightarrow> \<not> disabled"
    and "sets \<longrightarrow> setup_codesets isok disabled got c = Some (True, c')" and "\<not> sets \<longrightarrow> c' = c"
  shows "takes (get_contextlist isok disabled sets c) (Some ctx, c') (ctx_image ctx got)"
proof -
  have "takes (\<lambda>d. if \<not> sets then cret ctx c d
       else do { (ok, c) \<leftarrow> setup_codesets isok disabled got c; (if ok then cret ctx else cfail) c d }) (Some ctx, c') im_nil"
    using assms(4,5) takes_cret [of ctx c'] by (cases sets) (simp_all add: eta_contract_eq)
  note fin = this
  have "takes (get_contextlist isok disabled sets c) (Some ctx, c') (im_seq (ctx_image ctx got) im_nil)"
    unfolding get_contextlist_def
    by (rule takes_cbind [OF takes_clift [OF takes_contextlist_raw [OF assms(1-3)]]]) (simp only: prod.case fin)
  then show ?thesis by simp
qed

section \<open>Targets\<close>

fun read_target :: "codec \<Rightarrow> target_ref \<Rightarrow> target option" where
  "read_target c obj = (case active_profile obj of None \<Rightarrow> None
     | Some p \<Rightarrow>
         if giop_ver c < 0x0102 \<or> addressing_disposition obj = KeyAddr then map_option TargetKey (objectkey p)
         else if addressing_disposition obj = ReferenceAddr then Some (TargetReference (ior_fwd obj))
         else None)"

definition target_body :: "target_ref \<Rightarrow> target \<Rightarrow> image_at" where
  "target_body obj t = (case t of TargetKey k \<Rightarrow> im_blob k | TargetProfile p \<Rightarrow> profile_image p
     | TargetReference i \<Rightarrow> im_seq (im_ulong (active_index obj)) (ior_image i))"

definition target_image :: "codec \<Rightarrow> target_ref \<Rightarrow> target \<Rightarrow> image_at" where
  "target_image c obj t =
     (if giop_ver c < 0x0102 then target_body obj t
      else im_seq (im_ushort (addressing_disposition obj)) (target_body obj t))"

fun target_ok :: "(octet list \<Rightarrow> octet list option) \<Rightarrow> target \<Rightarrow> bool" where
  "target_ok resolve (TargetKey k) \<longleftrightarrow> length k < 4294967296"
| "target_ok resolve (TargetProfile p) \<longleftrightarrow> profile_ok p"
| "target_ok resolve (TargetReference i) \<longleftrightarrow> ior_ok resolve i"

fun target_size :: "target \<Rightarrow> nat" where
  "target_size (TargetKey k) = 12 + length k"
| "target_size (TargetProfile p) = 12 + profile_size p"
| "target_size (TargetReference i) = 12 + ior_size i"

lemma appends_target:
  assumes "read_target c obj = Some t" and "target_ok resolve t"
  shows "appends (put_target c obj) (target_image c obj t) (target_size t)"
proof -
  obtain p where p: "active_profile obj = Some p" using assms(1) by (auto split: option.splits)
  show ?thesis
  proof (cases t)
    case (TargetKey k)
    then have k: "objectkey p = Some k" "giop_ver c < 0x0102 \<or> addressing_disposition obj = KeyAddr"
      using assms(1) p by (auto split: if_splits)
    have len: "length k < 4294967296" using assms(2) TargetKey by simp
    show ?thesis
    proof (cases "giop_ver c < 0x0102")
      case True
      then have "put_target c obj = encode_key k" by (simp add: fun_eq_iff put_target_def p k(1))
      then show ?thesis using appends_mono [OF appends_key [OF len]] True TargetKey
        by (simp add: target_image_def target_body_def)
    next
      case False
      then have "put_target c obj = (\<lambda>e. Option.bind (put_short KeyAddr e) (encode_key k))"
        using k by (simp add: fun_eq_iff put_target_def p)
      then show ?thesis using appends_bind [OF appends_short appends_key [OF len], of KeyAddr] False TargetKey k(2)
        by (simp add: target_image_def target_body_def)
    qed
  next
    case (TargetReference i)
    then have k: "i = ior_fwd obj" "\<not> giop_ver c < 0x0102" "addressing_disposition obj = ReferenceAddr"
      using assms(1) p by (auto split: if_splits)
    have "put_target c obj = (\<lambda>e. Option.bind (put_short ReferenceAddr e) (\<lambda>e. Option.bind (put_ulong (active_index obj) e) (ior_encode i)))"
      using k by (simp add: fun_eq_iff put_target_def p Let_def KeyAddr_def ProfileAddr_def ReferenceAddr_def)
    moreover have "ior_ok resolve i" using assms(2) TargetReference by simp
    ultimately show ?thesis
      using appends_bind [OF appends_short appends_bind [OF appends_ulong ior.put_im], of resolve i ReferenceAddr "active_index obj"]
        TargetReference k by (simp add: target_image_def target_body_def)
  qed (use assms(1) p in \<open>auto split: if_splits\<close>)
qed

lemma takes_target:
  assumes "read_target c0 obj = Some t" and "target_ok resolve t" and "giop_ver c = giop_ver c0"
  shows "takes (get_target resolve c) (Some t, c) (target_image c0 obj t)"
proof -
  obtain p where p: "active_profile obj = Some p" using assms(1) by (auto split: option.splits)
  have key: "takes (dbind decode_key (\<lambda>key. dret (TargetKey key))) (TargetKey k) (im_blob k)" if "length k < 4294967296" for k
    using takes_bind [OF takes_key [OF that], where k = "\<lambda>key. dret (TargetKey key)", OF takes_ret] by simp
  show ?thesis
  proof (cases "giop_ver c < 0x0102")
    case True
    then obtain k where "t = TargetKey k" "length k < 4294967296" using assms p by auto
    then show ?thesis unfolding get_target_def
      using takes_cif(1) [where P = "\<lambda>c. giop_ver c < 0x0102", OF True takes_clift [OF key]] True assms(3)
      by (simp add: target_image_def target_body_def)
  next
    case False
    have "takes (if kind = KeyAddr then dbind decode_key (\<lambda>key. dret (TargetKey key))
        else if kind = ProfileAddr then dbind profile_decode (\<lambda>p. dret (TargetProfile p))
        else if kind = ReferenceAddr then dbind get_ulong (\<lambda>_. dbind (ior_decode resolve) (\<lambda>i. dret (TargetReference i)))
        else dfail) t (target_body obj t)" if "kind = addressing_disposition obj" for kind
    proof (cases "kind = KeyAddr")
      case True
      then have "addressing_disposition obj = KeyAddr" using that by simp
      then obtain k where "t = TargetKey k" "length k < 4294967296" using assms p by auto
      then show ?thesis using key True by (simp add: target_body_def)
    next
      case nk: False
      then have k: "kind = ReferenceAddr" "t = TargetReference (ior_fwd obj)"
        using assms(1,3) p False that by (auto split: if_splits)
      have "takes (dbind get_ulong (\<lambda>_. dbind (ior_decode resolve) (\<lambda>i. dret (TargetReference i)))) t
          (im_seq (im_ulong (active_index obj)) (im_seq (ior_image (ior_fwd obj)) im_nil))"
        unfolding k(2) by (rule takes_bind [OF takes_ulong], rule takes_bind [OF ior.get_im], use assms(2) k(2) in simp, rule takes_ret)
      then show ?thesis using k by (simp add: target_body_def KeyAddr_def ProfileAddr_def ReferenceAddr_def)
    qed
    note body = this [OF refl]
    have "takes (get_target resolve c) (Some t, c) (im_seq (im_ushort (addressing_disposition obj)) (target_body obj t))"
      unfolding get_target_def
      by (rule takes_cif(2), rule False, rule takes_clift, rule takes_bind [OF takes_short], rule body)
    then show ?thesis using False assms(3) by (simp add: target_image_def)
  qed
qed

section \<open>Requests and replies\<close>

lemma appends_principal:
  "length rep < 4294967295 \<Longrightarrow> appends (put_principal rep) (im_blob rep) (8 + length rep)"
proof -
  assume len: "length rep < 4294967295"
  have "appends (\<lambda>e. if length rep > 0 then Option.bind (require (length rep < 4294967295)) (\<lambda>_. put_octets rep (word_of_nat (length rep)) e)
      else Some e) (im_octets rep) (length rep)"
    using appends_octets [of rep] appends_done len by (cases rep) (simp_all add: im_octets_def im_nil_def)
  moreover have "put_principal rep = (\<lambda>e. Option.bind (put_ulong (word_of_nat (length rep)) e)
      (\<lambda>e. if length rep > 0 then Option.bind (require (length rep < 4294967295)) (\<lambda>_. put_octets rep (word_of_nat (length rep)) e)
      else Some e))" by (simp add: fun_eq_iff put_principal_def enc_seq_begin_def Let_def)
  ultimately show ?thesis unfolding im_blob_def by (simp only: appends_bind [OF appends_ulong])
qed

lemma get_principal_is_key: "length rep < 4294967296 \<Longrightarrow> takes get_principal rep (im_blob rep)"
proof -
  assume len: "length rep < 4294967296"
  let ?l = "word_of_nat (length rep) :: ulong"
  have ul: "unat ?l = length rep" using len by (simp add: nowrap)
  have "takes (\<lambda>d. if ?l = 0 then dret [] d else if buf_length (dbuf d) < ?l then dfail d
       else do { rep \<leftarrow> mem_read (mem (dbuf d)) (unat (rptr (dbuf d))) (unat ?l); dret rep (dec_skip ?l d) }) rep (im_octets rep)"
  proof (rule takesI)
    fix d rest
    assume d: "dec_ok d" "octets (dbuf d) = im_octets rep (d_data_bo d) (roffd d) @ rest"
    have wf: "buf_wf (dbuf d)" using d(1) by (simp add: dec_ok_def)
    have oct: "octets (dbuf d) = rep @ rest" using d(2) by (simp add: im_octets_def)
    have "unat (buf_length (dbuf d)) = length (rep @ rest)" using unat_buf_length [OF wf] oct by simp
    then have nl: "\<not> buf_length (dbuf d) < ?l" using ul by (simp add: word_less_nat_alt)
    obtain b where b: "rseek_rel ?l (dbuf d) = (True, b)" "reads (dbuf d) rep b"
      using rseek_rel_reads [OF wf oct ul] by blast
    have z: "?l = 0 \<longleftrightarrow> rep = []" using ul by (metis length_0_conv unat_eq_zero)
    show "\<exists>d'. (if ?l = 0 then dret [] d else if buf_length (dbuf d) < ?l then dfail d
       else do { rep \<leftarrow> mem_read (mem (dbuf d)) (unat (rptr (dbuf d))) (unat ?l); dret rep (dec_skip ?l d) }) = Some (Some rep, d')
       \<and> consumes d (im_octets rep (d_data_bo d) (roffd d)) d'"
    proof (cases "rep = []")
      case True
      then show ?thesis using consumes_refl [OF d(1)] by (auto simp: dret_def im_octets_def)
    next
      case False
      then have "?l \<noteq> 0" using z by simp
      then show ?thesis using nl mem_read_octets [OF wf oct] ul b
        by (auto simp: dret_def dec_skip_def im_octets_def consumes_def)
    qed
  qed
  note body = this
  have fit: "unat ?l \<le> length (im_octets rep bo p)" for bo p by (simp add: ul im_octets_def)
  show ?thesis unfolding get_principal_def im_blob_def by (rule takes_seq_begin) (rule fit, rule body)
qed

definition align_image :: "codec \<Rightarrow> image_at" where
  "align_image c = (if giop_ver c \<ge> 0x0102 then im_pad 8 else im_nil)"

lemma appends_align: "appends (align_put c) (align_image c) 8"
  using appends_pad [of 8] appends_mono [OF appends_done, of 8]
  by (cases "giop_ver c \<ge> 0x0102") (simp_all add: align_put_def [abs_def] align_image_def)

lemma takes_align: "takes (align_get c) (Some (), c) (align_image c)"
proof (cases "giop_ver c \<ge> 0x0102")
  case False
  then show ?thesis using takes_cret [of "()" c] by (simp add: align_get_def [abs_def] align_image_def)
next
  case True
  show ?thesis
  proof (rule takesI)
    fix d rest
    assume d: "dec_ok d" "octets (dbuf d) = align_image c (d_data_bo d) (roffd d) @ rest"
    have oct: "octets (dbuf d) = pad (roffd d) 8 @ rest" using d(2) True by (simp add: align_image_def im_pad_def)
    have "take (padlen (roffd d) 8) (octets (dbuf d)) = pad (roffd d) 8" by (simp add: oct)
    moreover have wf: "buf_wf (dbuf d)" "ralignbase (dbuf d) \<le> rptr (dbuf d)" using d(1) by (simp_all add: dec_ok_def)
    moreover have "padlen (roffd d) (unat (8 :: ulong)) \<le> length (octets (dbuf d))" by (simp add: oct)
    ultimately obtain b where "ralign 8 (dbuf d) = Some (True, b)" "reads (dbuf d) (pad (roffd d) 8) b"
      using ralign_reads [of "dbuf d" 8] by auto
    then show "\<exists>d'. align_get c d = Some (Some (Some (), c), d') \<and> consumes d (align_image c (d_data_bo d) (roffd d)) d'"
      using True by (auto simp: align_get_def cret_def dret_def align_image_def im_pad_def consumes_def)
  qed
qed

definition reserved_image :: "codec \<Rightarrow> image_at" where
  "reserved_image c = (if giop_ver c \<noteq> 0x0100 then im_octets [0, 0, 0] else im_nil)"

lemma appends_put_reserved: "appends (put_reserved c) (reserved_image c) 3"
  using appends_reserved appends_mono [OF appends_done, of 3]
  by (cases "giop_ver c = 0x0100") (simp_all add: put_reserved_def [abs_def] reserved_image_def)

lemma takes_get_reserved: "takes (get_reserved c) (Some (), c) (reserved_image c)"
proof (cases "giop_ver c = 0x0100")
  case True
  then show ?thesis unfolding get_reserved_def using takes_cret [of "()" c] by (simp add: cif_def reserved_image_def)
next
  case False
  have "takes (cbind (clift (get_octets 3)) (\<lambda>_. cret ()) c) (Some (), c) (im_seq (im_octets [0, 0, 0]) im_nil)"
    by (rule takes_cbind [OF takes_clift [OF takes_reserved] takes_cret])
  then show ?thesis unfolding get_reserved_def using False by (simp add: cif_def reserved_image_def)
qed

text \<open>The head of a request, and what the server reads of it.\<close>

definition request_image ::
    "codec \<Rightarrow> ulong \<Rightarrow> octet \<Rightarrow> target_ref \<Rightarrow> target \<Rightarrow> request \<Rightarrow> octet list \<Rightarrow> (ulong \<times> ulong) option \<Rightarrow> image_at" where
  "request_image c req_id flags obj t req pr got =
     (if giop_ver c < 0x0102
      then im_seq (ctx_image (svc_context req) got) (im_seq (im_ulong req_id) (im_seq (im_octets [and flags 1])
        (im_seq (reserved_image c) (im_seq (target_image c obj t) (im_seq (im_string (op_name req)) (im_blob pr))))))
      else im_seq (im_ulong req_id) (im_seq (im_octets [if and flags 1 \<noteq> 0 then 3 else 0]) (im_seq (im_octets [0, 0, 0])
        (im_seq (target_image c obj t) (im_seq (im_string (op_name req)) (ctx_image (svc_context req) got))))))"

definition request_size :: "target \<Rightarrow> request \<Rightarrow> octet list \<Rightarrow> nat" where
  "request_size t req pr = ctx_size (svc_context req) + (8 + (2 + (3 + (target_size t + ((9 + length (op_name req)) + (8 + length pr))))))"

definition read_request :: "codec \<Rightarrow> ulong \<Rightarrow> octet \<Rightarrow> target \<Rightarrow> request \<Rightarrow> octet list \<Rightarrow> invocation" where
  "read_request c req_id flags t req pr =
     \<lparr>inv_id = req_id, inv_flags = and flags 1, inv_target = t, inv_op = op_name req @ [0],
      inv_context = svc_context req, inv_principal = (if giop_ver c < 0x0102 then Some pr else None)\<rparr>"

lemma appends_request_head:
  assumes "read_target c obj = Some t" and "target_ok resolve t" and "c_octets (op_name req)"
    and "list_all (context_ok dis) (svc_context req)" and "length (case pr of Some p \<Rightarrow> p | None \<Rightarrow> peer_info) < 4294967295"
  shows "appends (request_head disabled peer_info req_id flags obj req pr sets c)
     (request_image c req_id flags obj t req (case pr of Some p \<Rightarrow> p | None \<Rightarrow> peer_info)
        (if sets \<and> \<not> disabled then Some (csid c, wcsid c) else None))
     (request_size t req (case pr of Some p \<Rightarrow> p | None \<Rightarrow> peer_info))"
proof -
  have op: "0 \<notin> set (op_name req)" using assms(3) by (simp add: c_octets_def)
  note target = appends_target [OF assms(1,2)] and ctx = appends_contextlist [OF assms(4), of disabled c sets]
  show ?thesis
  proof (cases "giop_ver c < 0x0102")
    case True
    let ?p = "case pr of Some p \<Rightarrow> p | None \<Rightarrow> peer_info"
    have "request_head disabled peer_info req_id flags obj req pr sets c =
        (\<lambda>e. Option.bind (put_contextlist disabled c (svc_context req) sets e) (\<lambda>e. Option.bind (put_ulong req_id e)
          (\<lambda>e. Option.bind (put_boolean (and flags 1) e) (\<lambda>e. Option.bind (put_reserved c e)
            (\<lambda>e. Option.bind (put_target c obj e) (\<lambda>e. Option.bind (put_string_raw (op_name req @ [0]) e) (put_principal ?p)))))))"
      using True by (simp add: fun_eq_iff request_head_def)
    then show ?thesis
      using appends_bind [OF ctx appends_bind [OF appends_ulong [of req_id] appends_bind [OF appends_boolean [of "and flags 1"]
        appends_bind [OF appends_put_reserved [of c] appends_bind [OF target appends_bind [OF appends_string [OF op]
          appends_principal [OF assms(5)]]]]]]] True
      by (simp add: request_image_def request_size_def)
  next
    case False
    let ?f = "if and flags 1 \<noteq> 0 then 3 else 0 :: octet"
    have "request_head disabled peer_info req_id flags obj req pr sets c =
        (\<lambda>e. Option.bind (put_ulong req_id e) (\<lambda>e. Option.bind (put_octet ?f e) (\<lambda>e. Option.bind (put_octets [0, 0, 0] 3 e)
          (\<lambda>e. Option.bind (put_target c obj e) (\<lambda>e. Option.bind (put_string_raw (op_name req @ [0]) e)
            (put_contextlist disabled c (svc_context req) sets))))))"
      using False by (simp add: fun_eq_iff request_head_def)
    note eq = this
    have "appends (request_head disabled peer_info req_id flags obj req pr sets c)
        (request_image c req_id flags obj t req (case pr of Some p \<Rightarrow> p | None \<Rightarrow> peer_info)
          (if sets \<and> \<not> disabled then Some (csid c, wcsid c) else None))
        (8 + (2 + (3 + (target_size t + ((9 + length (op_name req)) + ctx_size (svc_context req))))))"
      using appends_bind [OF appends_ulong [of req_id] appends_bind [OF appends_octet [of ?f]
        appends_bind [OF appends_reserved appends_bind [OF target appends_bind [OF appends_string [OF op] ctx]]]]] False
      by (simp only: eq request_image_def if_False)
    then show ?thesis by (rule appends_mono) (simp add: request_size_def)
  qed
qed

lemma flag_bits: "and (f :: octet) 1 = (if and (if and f 1 \<noteq> 0 then 3 else 0) 2 \<noteq> (0 :: octet) then 1 else 0)"
  by (cases "odd f") (simp_all add: and_one_eq odd_iff_mod_2_eq_one)

lemma takes_request:
  assumes t: "read_target c0 obj = Some t" "target_ok resolve t" "giop_ver c = giop_ver c0"
    and op: "c_octets (op_name req)" and pr: "length pr < 4294967295"
    and ctx: "list_all (context_ok disabled) (svc_context req)" "length (svc_context req) < 4294967295"
      "got \<noteq> None \<longrightarrow> \<not> disabled"
    and sets: "setup_codesets isok disabled got c = Some (True, c')" "giop_ver c' = giop_ver c"
  shows "takes (get_invoke_request resolve isok disabled c) (Some (read_request c0 req_id flags t req pr), c')
     (im_seq (request_image c0 req_id flags obj t req pr got) (align_image c0))"
proof -
  have o: "0 \<notin> set (op_name req)" "length (op_name req) < 4294967295" using op by (simp_all add: c_octets_def)
  have p: "length pr < 4294967296" using pr by simp
  have t': "giop_ver c' = giop_ver c0" using t(3) sets(2) by simp
  have im: "reserved_image c' = reserved_image c0" "align_image c' = align_image c0"
    using t' by (simp_all add: reserved_image_def align_image_def)
  have cl: "takes (get_contextlist isok disabled True c) (Some (svc_context req), c') (ctx_image (svc_context req) got)"
    by (rule takes_contextlist [OF ctx]) (simp_all add: sets(1))
  have "takes (request_head_get resolve isok disabled c) (Some (read_request c0 req_id flags t req pr), c')
      (request_image c0 req_id flags obj t req pr got)"
  proof (cases "giop_ver c < 0x0102")
    case True
    have "takes (request_head_get resolve isok disabled c) (Some (read_request c0 req_id flags t req pr), c')
        (im_seq (ctx_image (svc_context req) got) (im_seq (im_ulong req_id) (im_seq (im_octets [and flags 1])
        (im_seq (reserved_image c') (im_seq (target_image c0 obj t) (im_seq (im_string (op_name req)) (im_seq (im_blob pr) im_nil)))))))"
      unfolding request_head_get_def
      apply (rule takes_cif(1), rule True)
      apply (rule takes_cbind, rule cl)
      apply (rule takes_cbind [OF takes_clift [OF takes_ulong]])
      apply (rule takes_cbind [OF takes_clift [OF takes_boolean]])
      apply (rule takes_cbind, rule takes_get_reserved)
      apply (rule takes_cbind, rule takes_target [OF t(1,2) t'])
      apply (rule takes_cbind [OF takes_clift [OF takes_string(1) [OF o]]])
      apply (rule takes_cbind [OF takes_clift [OF get_principal_is_key [OF p]]])
      using takes_cret [of "read_request c0 req_id flags t req pr" c'] True t(3)
      apply (simp add: read_request_def)
      done
    then show ?thesis using True t(3) by (simp add: request_image_def im)
  next
    case False
    have "takes (request_head_get resolve isok disabled c) (Some (read_request c0 req_id flags t req pr), c')
        (im_seq (im_ulong req_id) (im_seq (im_octets [if and flags 1 \<noteq> 0 then 3 else 0]) (im_seq (im_octets [0, 0, 0])
        (im_seq (target_image c0 obj t) (im_seq (im_string (op_name req)) (im_seq (ctx_image (svc_context req) got) im_nil))))))"
      unfolding request_head_get_def
      apply (rule takes_cif(2), rule False)
      apply (rule takes_cbind [OF takes_clift [OF takes_ulong]])
      apply (rule takes_cbind [OF takes_clift [OF takes_octet]])
      apply (rule takes_cbind [OF takes_clift [OF takes_reserved]])
      apply (rule takes_cbind, rule takes_target [OF t])
      apply (rule takes_cbind [OF takes_clift [OF takes_string(1) [OF o]]])
      apply (rule takes_cbind, rule cl)
      using takes_cret [of "read_request c0 req_id flags t req pr" c'] False t(3)
      apply (simp only: read_request_def flag_bits [of flags, symmetric]) 
      apply simp
      done
    then show ?thesis using False t(3) by (simp add: request_image_def)
  qed
  note head = this
  have "takes (cbind align_get (\<lambda>_. cret (read_request c0 req_id flags t req pr)) c') (Some (read_request c0 req_id flags t req pr), c')
      (im_seq (align_image c') im_nil)"
    by (rule takes_cbind [OF takes_align takes_cret])
  note last = this
  show ?thesis unfolding get_invoke_request_def
    by (rule takes_cbind, rule head) (use last in \<open>simp add: im\<close>)
qed

section \<open>Headers and sizes\<close>

definition versions :: "ushort set" where
  "versions = {0x0100, 0x0101, 0x0102}"

definition header_octets :: "codec \<Rightarrow> octet \<Rightarrow> byteorder \<Rightarrow> octet list" where
  "header_octets c mt bo = giop_magic @ [ucast (drop_bit 8 (giop_ver c)), ucast (giop_ver c), bo_flag bo, mt]"

lemma length_header [simp]: "length (header_octets c mt bo) = 8"
  by (simp add: header_octets_def giop_magic_def)

lemma appends_magic: "appends (put_chars_raw giop_magic 4) (im_octets giop_magic) 4"
  using appends_mono [OF appends_octets [of giop_magic], of 4] by (simp add: put_chars_raw_def [abs_def] put_octets_def [abs_def] giop_magic_def)

lemma takes_magic: "takes (get_chars_raw 4) giop_magic (im_octets giop_magic)"
  using takes_octets [of giop_magic] by (simp add: get_chars_raw_def get_octets_def giop_magic_def)

lemma im_octets_seq: "im_seq (im_octets xs) (im_octets ys) = im_octets (xs @ ys)"
  by (simp add: im_seq_def im_octets_def)

lemma appends_run:
  "appends f im n \<Longrightarrow> enc_ok e \<Longrightarrow> has_room n e \<Longrightarrow> \<exists>e'. f e = Some e' \<and> emits e (im (e_data_bo e) (woffe e)) e'"
  by (simp add: appends_def)

lemma order_octet_flag: "order_octet c e = bo_flag (e_data_bo e)"
  by (simp add: order_octet_def enc_byteorder_def bo_flag_def GIOP_BYTEORDER_BIT_def)

lemma put_header_emits:
  assumes ok: "enc_ok e" and base: "woffe e = 0" and room: "has_room 20 e"
  shows "\<exists>h e1. put_header c mt e = Some (wptr (ebuf h), e1) \<and>
     emits e (header_octets c mt (e_data_bo e)) h \<and> emits h (word_image (e_data_bo e) 4 (0 :: ulong)) e1"
proof -
  let ?fl = "bo_flag (e_data_bo e)"
  have fl: "order_octet c e1 = ?fl" if "emits e xs e1" for xs e1
    using emits_fields(1) [OF that] by (simp add: order_octet_flag)
  have "appends (\<lambda>e. do { e \<leftarrow> put_chars_raw giop_magic 4 e; e \<leftarrow> put_octet (ucast (drop_bit 8 (giop_ver c))) e; put_octet (ucast (giop_ver c)) e })
      (im_seq (im_octets giop_magic) (im_seq (im_octets [ucast (drop_bit 8 (giop_ver c))]) (im_octets [ucast (giop_ver c)]))) (4 + (2 + 2))"
    by (rule appends_bind [OF appends_magic appends_bind [OF appends_octet appends_octet]])
  note ap = this
  have "has_room (4 + (2 + 2)) e" using room by (rule has_room_mono) simp
  then obtain f where f: "do { e \<leftarrow> put_chars_raw giop_magic 4 e; e \<leftarrow> put_octet (ucast (drop_bit 8 (giop_ver c))) e; put_octet (ucast (giop_ver c)) e } = Some f"
    "emits e (giop_magic @ [ucast (drop_bit 8 (giop_ver c)), ucast (giop_ver c)]) f"
    using appends_run [OF ap ok] by (auto simp: im_seq_def im_octets_def)
  have fok: "enc_ok f" by (rule emits_ok [OF f(2) ok])
  have r2: "has_room (2 + 2) f" by (rule has_room_emits [OF f(2)], rule has_room_mono [OF room]) (simp add: giop_magic_def)
  have "appends (\<lambda>e. Option.bind (put_octet ?fl e) (put_octet mt)) (im_seq (im_octets [?fl]) (im_octets [mt])) (2 + 2)"
    by (rule appends_bind [OF appends_octet appends_octet])
  from appends_run [OF this fok r2] obtain h where h: "Option.bind (put_octet ?fl f) (put_octet mt) = Some h" "emits f [?fl, mt] h"
    by (auto simp: im_seq_def im_octets_def)
  have eh: "emits e (header_octets c mt (e_data_bo e)) h"
    using emits_trans [OF f(2) h(2)] by (simp add: header_octets_def)
  have hok: "enc_ok h" "woffe h = 8" using emits_ok [OF eh ok] woffe_emits [OF eh ok] base by simp_all
  have "has_room (4 + 4) h" by (rule has_room_emits [OF eh], rule has_room_mono [OF room]) simp
  then obtain e1 where e1: "put_ulong 0 h = Some e1" "emits h (pad (woffe h) 4 @ word_image (e_data_bo h) 4 (0 :: ulong)) e1"
    using ulong.put_law [OF hok(1)] by blast
  have "pad (woffe h) 4 = []" by (simp add: hok(2) pad_def padlen_def)
  then have em1: "emits h (word_image (e_data_bo e) 4 (0 :: ulong)) e1"
    using e1(2) emits_fields(1) [OF eh] by simp
  have wp: "wpos (ebuf h) = Some (wptr (ebuf h))" using hok(1) by (simp add: wpos_def enc_ok_def buf_wf_def)
  have flag: "(if giop_ver c = 0x0100 then put_boolean (order_octet c f) f else put_octet (order_octet c f) f) = put_octet ?fl f"
    using fl [OF f(2)] by (simp add: put_boolean_def put_octet_def)
  have "put_header c mt e = do { f \<leftarrow> do { e \<leftarrow> put_chars_raw giop_magic 4 e; e \<leftarrow> put_octet (ucast (drop_bit 8 (giop_ver c))) e; put_octet (ucast (giop_ver c)) e };
      e \<leftarrow> (if giop_ver c = 0x0100 then put_boolean (order_octet c f) f else put_octet (order_octet c f) f);
      e \<leftarrow> put_octet mt e; key \<leftarrow> wpos (ebuf e); e \<leftarrow> put_ulong 0 e; Some (key, e) }"
    by (simp add: put_header_def)
  also have "\<dots> = do { e \<leftarrow> Option.bind (put_octet ?fl f) (put_octet mt); key \<leftarrow> wpos (ebuf e); e \<leftarrow> put_ulong 0 e; Some (key, e) }"
    by (simp add: f(1) flag)
  also have "\<dots> = Some (wptr (ebuf h), e1)" by (simp only: h(1) wp e1(1) Option.bind.bind_lunit)
  finally show ?thesis using eh em1 by blast
qed

text \<open>A header, a body, and the size of the body patched into the header.\<close>

lemma message_emits:
  assumes ok: "enc_ok e" and base: "woffe e = 0" and empty: "octets (ebuf e) = []" and c: "headerlen c = 12"
    and body: "appends body im n" and room: "has_room (20 + n) e"
  shows "\<exists>key e1 e2 e3. put_header c mt e = Some (key, e1) \<and> body e1 = Some e2 \<and> put_size c key e2 = Some e3 \<and>
     emits e (header_octets c mt (e_data_bo e) @ word_image (e_data_bo e) 4 (word_of_nat (length (im (e_data_bo e) 12)) :: ulong)
        @ im (e_data_bo e) 12) e3"
proof -
  let ?bo = "e_data_bo e"
  have "has_room 20 e" using room by (rule has_room_mono) simp
  then obtain h e1 where h: "put_header c mt e = Some (wptr (ebuf h), e1)"
    "emits e (header_octets c mt ?bo) h" "emits h (word_image ?bo 4 (0 :: ulong)) e1"
    using put_header_emits [OF ok base] by blast
  have hok: "enc_ok h" "woffe h = 8" "e_data_bo h = ?bo"
    using emits_ok [OF h(2) ok] woffe_emits [OF h(2) ok] base emits_fields(1) [OF h(2)] by simp_all
  have e1: "enc_ok e1" "woffe e1 = 12" "e_data_bo e1 = ?bo"
    using emits_ok [OF h(3) hok(1)] woffe_emits [OF h(3) hok(1)] hok emits_fields(1) [OF h(3)] by simp_all
  have "has_room n e1" by (rule has_room_emits [OF emits_trans [OF h(2,3)]], rule has_room_mono [OF room]) simp
  then obtain e2 where e2: "body e1 = Some e2" "emits e1 (im ?bo 12) e2"
    using e1 by (auto intro: appendsE [OF body e1(1)])
  have pd: "pad (woffe h) 4 = []" by (simp add: hok(2) pad_def padlen_def)
  have em: "emits h (pad (woffe h) 4 @ word_image ?bo 4 (0 :: ulong) @ im ?bo 12) e2"
    using emits_trans [OF h(3) e2(2)] pd by simp
  have rh: "has_room 8 h" by (rule has_room_emits [OF h(2)], rule has_room_mono [OF room]) simp
  have e2ok: "enc_ok e2" by (rule emits_ok [OF e2(2) e1(1)])
  have all: "emits e (header_octets c mt ?bo @ word_image ?bo 4 (0 :: ulong) @ im ?bo 12) e2"
    using emits_trans [OF h(2) emits_trans [OF h(3) e2(2)]] by simp
  have len: "length (im ?bo 12) \<le> n" by (rule appends_length [OF body])
  have wf: "buf_wf (ebuf e)" using ok by (simp add: enc_ok_def)
  have rw: "unat (rptr (ebuf e)) = unat (wptr (ebuf e))"
    using empty buf_wfD [OF wf] by (simp add: octets_def)
  have w2: "unat (wptr (ebuf e2)) = unat (rptr (ebuf e)) + (12 + length (im ?bo 12))"
    using emits_fields(5) [OF all] rw by simp
  have sz: "wptr (ebuf e2) - rptr (ebuf e) - 12 = word_of_nat (length (im ?bo 12))"
  proof -
    have "wptr (ebuf e2) = rptr (ebuf e) + word_of_nat (12 + length (im ?bo 12))"
      using position_after [OF w2] by simp
    then show ?thesis by simp
  qed
  let ?v = "word_of_nat (length (im ?bo 12)) :: ulong"
  obtain p where p: "on_ebuf (wseek_beg (wptr (ebuf h))) e2 = Some (e2\<lparr>ebuf := (ebuf e2)\<lparr>wptr := wptr (ebuf h)\<rparr>\<rparr>)"
    "put_ulong ?v (e2\<lparr>ebuf := (ebuf e2)\<lparr>wptr := wptr (ebuf h)\<rparr>\<rparr>) = Some p"
    "emits h (word_image ?bo 4 ?v @ im ?bo 12) (p\<lparr>ebuf := (ebuf p)\<lparr>wptr := wptr (ebuf e2)\<rparr>\<rparr>)"
    "on_ebuf (wseek_beg (wptr (ebuf e2))) p = Some (p\<lparr>ebuf := (ebuf p)\<lparr>wptr := wptr (ebuf e2)\<rparr>\<rparr>)"
    using patch_ulong [OF hok(1) em _ rh, of ?v] pd hok(3) by auto
  have "wpos (ebuf e2) = Some (wptr (ebuf e2))" using e2ok by (simp add: wpos_def enc_ok_def buf_wf_def)
  moreover have "rptr (ebuf e2) = rptr (ebuf e)" using emits_fields(7) [OF all] by simp
  ultimately have "put_size c (wptr (ebuf h)) e2 = Some (p\<lparr>ebuf := (ebuf p)\<lparr>wptr := wptr (ebuf e2)\<rparr>\<rparr>)"
    using p sz by (simp add: put_size_def c)
  then show ?thesis using h(1) e2(1) emits_trans [OF h(2) p(3)] by auto
qed

lemma new_encoder_start:
  assumes "real_bo m" and "real_bo bo"
  shows "enc_ok (new_encoder m (buffer_new f z) bo)" "woffe (new_encoder m (buffer_new f z) bo) = 0"
    "octets (ebuf (new_encoder m (buffer_new f z) bo)) = []" "e_data_bo (new_encoder m (buffer_new f z) bo) = bo"
  using new_encoder_facts [OF assms, of f z] by simp_all

text \<open>Reading the header: the reader adopts the version and the byte order of the writer.\<close>

lemma version_major: "v \<in> versions \<Longrightarrow> ucast (drop_bit 8 v) = (1 :: octet)"
  by (auto simp: versions_def)

lemma get_header_reads:
  assumes d: "dec_ok d" "quiet d" "roffd d = 0" and bo: "real_bo bo"
    and ver: "giop_ver c0 \<in> versions" "giop_ver c0 \<le> giop_ver c"
    and oct: "octets (dbuf d) = header_octets c0 mt bo @ word_image bo 4 sz @ rest"
  shows "\<exists>d'. get_header c d = Some (Some (Some (mt, sz, bo_flag bo), c\<lparr>giop_ver := giop_ver c0\<rparr>), d') \<and> dec_ok d' \<and> quiet d' \<and>
     d_data_bo d' = bo \<and> roffd d' = 12 \<and> octets (dbuf d') = rest \<and> rptr (dbuf d') = rptr (dbuf d) + 12 \<and>
     mem (dbuf d') = mem (dbuf d) \<and> wptr (dbuf d') = wptr (dbuf d)"
proof -
  let ?c = "c\<lparr>giop_ver := giop_ver c0\<rparr>"
  let ?A = "giop_magic @ [ucast (drop_bit 8 (giop_ver c0)), ucast (giop_ver c0)]"
  define k where "k = (\<lambda>_ :: unit. cbind get_flags (\<lambda>flags. cbind (clift get_octet) (\<lambda>mt.
     cbind (clift get_ulong) (\<lambda>sz. cret (mt, sz, flags)))))"
  have keep: "c\<lparr>giop_ver := giop_ver c0\<rparr> = c" if "giop_ver c0 = giop_ver c" using that by (cases c) simp
  have cv: "check_version (ucast (drop_bit 8 (giop_ver c0))) (ucast (giop_ver c0)) c = cret () ?c"
    using ver keep join_split [of "giop_ver c0"] unfolding check_version_def Let_def version_major [OF ver(1)]
    by (cases "giop_ver c0 = giop_ver c") (simp_all add: order_less_le)
  have eq: "get_header c d = do { (r, d) \<leftarrow> cbind (clift (get_chars_raw 4)) (\<lambda>magic. if magic \<noteq> giop_magic then cfail
      else cbind (clift get_octet) (\<lambda>maj. cbind (clift get_octet) (\<lambda>mnr. cbind (check_version maj mnr) cret))) c d;
      case r of None \<Rightarrow> Some (None, d) | Some (None, c) \<Rightarrow> Some (Some (None, c), d) | Some (Some u, c) \<Rightarrow> k u c d }"
    by (auto simp: get_header_def cbind_def dbind_def clift_def dret_def cret_def cfail_def k_def split: option.splits Option.bind_splits prod.splits)
  have "takes (cbind (clift (get_chars_raw 4)) (\<lambda>magic. if magic \<noteq> giop_magic then cfail
      else cbind (clift get_octet) (\<lambda>maj. cbind (clift get_octet) (\<lambda>mnr. cbind (check_version maj mnr) cret))) c)
      (Some (), ?c) (im_seq (im_octets giop_magic) (im_seq (im_octets [ucast (drop_bit 8 (giop_ver c0))])
        (im_seq (im_octets [ucast (giop_ver c0)]) im_nil)))"
    apply (rule takes_cbind, rule takes_clift, rule takes_magic)
    apply (simp only: not_True_eq_False if_False refl simp_thms)
    apply (rule takes_cbind, rule takes_clift, rule takes_octet)
    apply (rule takes_cbind, rule takes_clift, rule takes_octet)
    using takes_cret [of "()" ?c] by (simp add: cbind_def cv cret_def)
  then have tk: "takes (cbind (clift (get_chars_raw 4)) (\<lambda>magic. if magic \<noteq> giop_magic then cfail
      else cbind (clift get_octet) (\<lambda>maj. cbind (clift get_octet) (\<lambda>mnr. cbind (check_version maj mnr) cret))) c)
      (Some (), ?c) (im_octets ?A)" by (simp add: im_octets_seq)
  have "octets (dbuf d) = im_octets ?A (d_data_bo d) (roffd d) @ ([bo_flag bo, mt] @ word_image bo 4 sz @ rest)"
    using oct by (simp add: header_octets_def im_octets_def)
  from takesE [OF tk d(1,2) this] obtain d1 where d1: "cbind (clift (get_chars_raw 4)) (\<lambda>magic. if magic \<noteq> giop_magic then cfail
      else cbind (clift get_octet) (\<lambda>maj. cbind (clift get_octet) (\<lambda>mnr. cbind (check_version maj mnr) cret))) c d = Some (Some (Some (), ?c), d1)"
    "consumes d ?A d1" "dec_ok d1" "quiet d1" "octets (dbuf d1) = [bo_flag bo, mt] @ word_image bo 4 sz @ rest"
    by (auto simp: im_octets_def)
  obtain d2 where d2: "get_octet d1 = Some (Some (bo_flag bo), d2)" "consumes d1 [bo_flag bo] d2"
    using octet_laws(2) [OF d1(3), of "bo_flag bo"] d1(5) by auto
  let ?d2 = "dec_set_byteorder bo d2"
  have fl: "(if bo_flag bo \<noteq> 0 then LittleEndian else BigEndian) = bo"
    "(if and (bo_flag bo) GIOP_BYTEORDER_BIT \<noteq> 0 then LittleEndian else BigEndian) = bo"
    "(if bo_flag bo \<noteq> 0 then 1 else 0) = bo_flag bo"
    using bo by (cases bo; simp add: bo_flag_def real_bo_def GIOP_BYTEORDER_BIT_def)+
  have gf: "get_flags ?c d1 = Some (Some (Some (bo_flag bo), ?c), ?d2)"
    using d2(1) fl by (simp add: get_flags_def cif_def clift_def dbind_def dret_def get_boolean_def get_octet_def split: Option.bind_splits)
  have ok2: "dec_ok ?d2" "quiet ?d2" "octets (dbuf ?d2) = [mt] @ word_image bo 4 sz @ rest"
    using consumes_ok [OF d2(2) d1(3)] quiet_consumes [OF d2(2) d1(4)] consumes_fields(5) [OF d2(2)] d1(5) bo
    by (simp_all add: dec_ok_def dec_set_byteorder_def quiet_def dec_cur_def)
  have ro2: "roffd ?d2 = 7"
    using roffd_consumes [OF d2(2) d1(3)] roffd_consumes [OF d1(2) d(1)] d(3)
    by (simp add: dec_set_byteorder_def giop_magic_def)
  have "takes (cbind (clift get_octet) (\<lambda>mt. cbind (clift get_ulong) (\<lambda>sz. cret (mt, sz, bo_flag bo))) ?c) (Some (mt, sz, bo_flag bo), ?c)
      (im_seq (im_octets [mt]) (im_seq (im_ulong sz) im_nil))"
    by (rule takes_cbind, rule takes_clift, rule takes_octet, rule takes_cbind, rule takes_clift, rule takes_ulong, rule takes_cret)
  then have tk2: "takes (cbind (clift get_octet) (\<lambda>mt. cbind (clift get_ulong) (\<lambda>sz. cret (mt, sz, bo_flag bo))) ?c) (Some (mt, sz, bo_flag bo), ?c)
      (im_seq (im_octets [mt]) (im_ulong sz))" by simp
  have im8: "im_seq (im_octets [mt]) (im_ulong sz) bo 7 = [mt] @ word_image bo 4 sz"
    by (simp add: im_seq_def im_octets_def im_ulong_def word_at_def pad_def padlen_def)
  have "octets (dbuf ?d2) = im_seq (im_octets [mt]) (im_ulong sz) (d_data_bo ?d2) (roffd ?d2) @ rest"
    using ok2(3) ro2 im8 by (simp add: dec_set_byteorder_def)
  from takesE [OF tk2 ok2(1,2) this] obtain d3 where d3: "cbind (clift get_octet) (\<lambda>mt. cbind (clift get_ulong) (\<lambda>sz. cret (mt, sz, bo_flag bo))) ?c ?d2 =
      Some (Some (Some (mt, sz, bo_flag bo), ?c), d3)"
    "consumes ?d2 (im_seq (im_octets [mt]) (im_ulong sz) (d_data_bo ?d2) (roffd ?d2)) d3" "dec_ok d3" "quiet d3" "octets (dbuf d3) = rest"
    "d_data_bo d3 = d_data_bo ?d2" "roffd d3 = roffd ?d2 + length (im_seq (im_octets [mt]) (im_ulong sz) (d_data_bo ?d2) (roffd ?d2))"
    by blast
  have im9: "im_seq (im_octets [mt]) (im_ulong sz) (d_data_bo ?d2) (roffd ?d2) = [mt] @ word_image bo 4 sz"
    using im8 ro2 by (simp add: dec_set_byteorder_def)
  have "get_header c d = Some (Some (Some (mt, sz, bo_flag bo), ?c), d3)"
    using d3(1) by (simp add: eq d1(1) k_def cbind_def [of get_flags] dbind_def [of "get_flags _"] gf)
  moreover have "roffd d3 = 12" "d_data_bo d3 = bo"
    using d3(6,7) ro2 im9 by (simp_all add: dec_set_byteorder_def)
  moreover have "rptr (dbuf d3) = rptr (dbuf d) + 12"
  proof -
    have "unat (rptr (dbuf d3)) = unat (rptr (dbuf d)) + 12"
      using consumes_fields(6) [OF d1(2)] consumes_fields(6) [OF d2(2)] consumes_fields(6) [OF d3(2)]
      unfolding im9 by (simp add: dec_set_byteorder_def giop_magic_def)
    from position_after [OF this] show ?thesis by simp
  qed
  moreover have "mem (dbuf d3) = mem (dbuf d)" "wptr (dbuf d3) = wptr (dbuf d)"
    using d1(2) d2(2) d3(2) by (auto simp: consumes_def reads_def dec_set_byteorder_def)
  ultimately show ?thesis using d3(3-5) by blast
qed

end
