(* ===== verification/GIOP_Conn.thy ===== *)
theory GIOP_Conn
  imports Transport GIOP_Codec Std_Map
begin

text \<open>
  A GIOP connection (orb/iop.cc, \<open>MICO::GIOPConn\<close>, without threads): the state machine that cuts the
  octets of a transport into messages and puts fragmented messages together, and the queue of the
  messages that wait to be written.

  A buffer that has been received is handed to the callback of the owner (the client's or the
  server's side of the protocol), which is a parameter: \<open>up b\<close> is its answer, FALSE when it has shut
  the connection down. \<open>delivered\<close> records what it was handed. \<open>closed\<close> records that the connection
  was shut down, after which it is not used any more; \<open>reading\<close> that it is registered for reading.
  Logging is left out.
\<close>

section \<open>State\<close>

record conn =
  transp :: transport
  inbuf :: buffer
  inlen :: ulong
  inflags :: octet
  infrag :: "buffer option"
  inbufs :: "buffer option"
  inctx :: decoder
  gcodec :: codec
  max_message_size :: ulong
  total_fragsize :: ulong
  fragments :: "(ulong, buffer) std_map"
  outbufs :: "buffer list"
  refcnt :: int
  idle_tmout :: int
  have_tmout :: bool
  have_wselect :: bool
  reading :: bool
  closed :: bool
  delivered :: "buffer list"

text \<open>\<open>new CORBA::Buffer\<close>; what its memory holds is that of the buffer before it.\<close>

definition next_buffer :: "conn \<Rightarrow> buffer" where
  "next_buffer c = buffer_new (fresh (inbuf c)) 0"

definition check_idle :: "conn \<Rightarrow> conn" where
  "check_idle c =
     (let c = (if idle_tmout c > 0 \<and> refcnt c = 0 \<and> outbufs c = [] then c\<lparr>have_tmout := True\<rparr> else c)
      in if have_wselect c \<and> outbufs c = [] then c\<lparr>have_wselect := False\<rparr> else c)"

definition check_busy :: "conn \<Rightarrow> conn" where
  "check_busy c =
     (let c = (if have_tmout c \<and> (refcnt c > 0 \<or> outbufs c \<noteq> []) then c\<lparr>have_tmout := False\<rparr> else c)
      in if \<not> have_wselect c \<and> outbufs c \<noteq> [] then c\<lparr>have_wselect := True\<rparr> else c)"

definition new_conn ::
    "byteorder \<Rightarrow> octet \<Rightarrow> transport \<Rightarrow> codec \<Rightarrow> int \<Rightarrow> ulong \<Rightarrow> conn" where
  "new_conn mach f t cd tmout max_size =
     check_idle \<lparr>transp = t, inbuf = buffer_new f 0, inlen = headerlen cd, inflags = 0, infrag = None,
       inbufs = None, inctx = new_decoder mach (buffer_new f 0) DefaultEndian None, gcodec = cd,
       max_message_size = max_size, total_fragsize = 0, fragments = [], outbufs = [], refcnt = 0,
       idle_tmout = tmout, have_tmout = False, have_wselect = False, reading = True, closed = False,
       delivered = []\<rparr>"

definition ref :: "conn \<Rightarrow> conn" where
  "ref c = check_busy (c\<lparr>refcnt := refcnt c + 1\<rparr>)"

definition deref :: "bool \<Rightarrow> conn \<Rightarrow> (bool \<times> conn) option" where
  "deref everything c = do {
     let c = c\<lparr>refcnt := (if everything then 0 else refcnt c - 1)\<rparr>;
     require (refcnt c \<ge> 0);
     let c = check_idle c;
     Some (refcnt c \<le> 0, c)
   }"

section \<open>Reading\<close>

text \<open>The connection leaves the dispatcher and its owner is told that it is closed.\<close>

definition close_connection :: "conn \<Rightarrow> conn" where
  "close_connection c = c\<lparr>reading := False, closed := True\<rparr>"

definition input :: "conn \<Rightarrow> (buffer \<times> conn) option" where
  "input c = do { b \<leftarrow> inbufs c; Some (b, c\<lparr>inbufs := None\<rparr>) }"

definition input_ready :: "(buffer \<Rightarrow> bool) \<Rightarrow> conn \<Rightarrow> (bool \<times> conn) option" where
  "input_ready up c = do {
     (b, c) \<leftarrow> input c;
     let c = c\<lparr>delivered := delivered c @ [b]\<rparr>;
     Some (up b, if up b then c else close_connection c)
   }"

text \<open>Each part of the loop body answers whether the loop goes on.\<close>

definition stop :: "conn \<Rightarrow> (bool \<times> conn) option" where
  "stop c = Some (False, close_connection c)"

definition over_limit :: "conn \<Rightarrow> ulong \<Rightarrow> bool" where
  "over_limit c n \<longleftrightarrow> max_message_size c > 0 \<and> n > max_message_size c"

text \<open>The header is there: how much follows, and whether it may.\<close>

definition header_step :: "(buffer \<Rightarrow> bool) \<Rightarrow> conn \<Rightarrow> (bool \<times> conn) option" where
  "header_step up c = do {
     require (inlen c = 0);
     (r, d) \<leftarrow> check_header (gcodec c) ((inctx c)\<lparr>dbuf := inbuf c\<rparr>);
     (h, cd) \<leftarrow> r;
     let c = c\<lparr>inctx := d, inbuf := dbuf d, gcodec := cd\<rparr>;
     case h of
       None \<Rightarrow> do {
         require (inbufs c = None);
         let c = c\<lparr>inbufs := Some (inbuf c), inbuf := next_buffer c, inlen := headerlen (gcodec c),
           reading := False\<rparr>;
         (_, c) \<leftarrow> input_ready up c;
         Some (False, c)
       }
     | Some (mt, sz, flags) \<Rightarrow> do {
         let c = c\<lparr>inlen := sz, inflags := flags\<rparr>;
         if over_limit c (inlen c) then stop c
         else if (mt = Fragment \<or> and (inflags c) GIOP_FRAGMENT_BIT \<noteq> 0) \<and>
             over_limit c (inlen c + total_fragsize c) then stop c
         else if mt = Fragment \<and> giop_ver (gcodec c) = 0x0101 then
           (case infrag c of
             None \<Rightarrow> stop c
           | Some b \<Rightarrow> Some (True, c\<lparr>inbuf := b, infrag := None\<rparr>))
         else Some (True, c)
       }
   }"

text \<open>The request identifier at offset 12, in the byte order of the machine.\<close>

definition fragment_id :: "conn \<Rightarrow> (ulong \<times> conn) option" where
  "fragment_id c = do {
     (r, b) \<leftarrow> get4 (snd (rseek_beg 12 (inbuf c)));
     xs \<leftarrow> r;
     Some (image_word (d_mach_bo (inctx c)) xs, c\<lparr>inbuf := b\<rparr>)
   }"

text \<open>A further fragment of version 1.2, and a first fragment.\<close>

definition next_fragment :: "(buffer \<Rightarrow> bool) \<Rightarrow> bool \<Rightarrow> conn \<Rightarrow> (bool \<times> conn) option" where
  "next_fragment up brk c =
     (if buf_length (inbuf c) < 16 then stop c
      else do {
        (reqid, c) \<leftarrow> fragment_id c;
        case map_find reqid (fragments c) of
          None \<Rightarrow> stop c
        | Some fragbuf \<Rightarrow> do {
            xs \<leftarrow> buf_data (inbuf c);
            fragbuf \<leftarrow> put xs (buf_length (inbuf c)) fragbuf;
            let c = c\<lparr>fragments := map_put reqid fragbuf (fragments c),
              total_fragsize := total_fragsize c + buf_length (inbuf c)\<rparr>;
            let c = c\<lparr>inbuf := buf_reset MINSIZE (inbuf c), inlen := headerlen (gcodec c)\<rparr>;
            if and (inflags c) GIOP_FRAGMENT_BIT \<noteq> 0 then Some (True, c)
            else do {
              require (inbufs c = None);
              let c = c\<lparr>fragments := map_erase reqid (fragments c), inbufs := Some fragbuf\<rparr>;
              require (buf_length (inbuf c) < total_fragsize c);
              let c = c\<lparr>total_fragsize := total_fragsize c - buf_length (inbuf c)\<rparr>;
              (more, c) \<leftarrow> input_ready up c;
              Some (more \<and> \<not> brk, c)
            }
          }
      })"

definition first_fragment :: "conn \<Rightarrow> (bool \<times> conn) option" where
  "first_fragment c =
     (if giop_ver (gcodec c) \<ge> 0x0102 then
        if buf_length (inbuf c) < 16 then stop c
        else if over_limit c (buf_length (inbuf c) + total_fragsize c) then stop c
        else do {
          (reqid, c) \<leftarrow> fragment_id c;
          if map_find reqid (fragments c) \<noteq> None then stop c
          else do {
            let c = c\<lparr>inbuf := snd (rseek_beg 0 (inbuf c))\<rparr>;
            Some (True, c\<lparr>fragments := map_put reqid (inbuf c) (fragments c),
              total_fragsize := total_fragsize c + buf_length (inbuf c),
              inbuf := next_buffer c, inlen := headerlen (gcodec c)\<rparr>)
          }
        }
      else if infrag c \<noteq> None then stop c
      else Some (True, c\<lparr>infrag := Some (inbuf c), inbuf := next_buffer c,
        inlen := headerlen (gcodec c)\<rparr>))"

definition whole_message :: "(buffer \<Rightarrow> bool) \<Rightarrow> bool \<Rightarrow> conn \<Rightarrow> (bool \<times> conn) option" where
  "whole_message up brk c = do {
     require (inbufs c = None);
     let c = c\<lparr>inbufs := Some (inbuf c), inbuf := next_buffer c, inlen := headerlen (gcodec c)\<rparr>;
     (more, c) \<leftarrow> input_ready up c;
     Some (more \<and> \<not> brk, c)
   }"

text \<open>Everything the header announced is there.\<close>

definition message_step :: "(buffer \<Rightarrow> bool) \<Rightarrow> bool \<Rightarrow> conn \<Rightarrow> (bool \<times> conn) option" where
  "message_step up brk c = do {
     (r, b) \<leftarrow> get1 (snd (rseek_beg 7 (inbuf c)));
     mt \<leftarrow> r;
     let c = c\<lparr>inbuf := snd (rseek_beg 0 b)\<rparr>;
     if mt = [Fragment] \<and> giop_ver (gcodec c) = 0x0102 then next_fragment up brk c
     else if and (inflags c) GIOP_FRAGMENT_BIT \<noteq> 0 then first_fragment c
     else whole_message up brk c
   }"

definition conn_read :: "conn \<Rightarrow> (int \<times> conn) option" where
  "conn_read c = do {
     (r, b, t) \<leftarrow> transport_read (inlen c) (inbuf c) (transp c);
     Some (r, c\<lparr>inbuf := b, transp := t\<rparr>)
   }"

definition received :: "(buffer \<Rightarrow> bool) \<Rightarrow> bool \<Rightarrow> conn \<Rightarrow> (bool \<times> conn) option" where
  "received up brk c = do {
     (go, c) \<leftarrow> (if buf_length (inbuf c) = headerlen (gcodec c) then header_step up c else Some (True, c));
     if go \<and> inlen c = 0 then message_step up brk c else Some (go, c)
   }"

text \<open>A failed read is tried again once.\<close>

definition conn_read_again :: "conn \<Rightarrow> (int \<times> conn) option" where
  "conn_read_again c = do {
     (r, c) \<leftarrow> conn_read c;
     if r < 0 then conn_read c else Some (r, c)
   }"

text \<open>One pass of the loop of \<open>do_read\<close>.\<close>

definition read_step :: "(buffer \<Rightarrow> bool) \<Rightarrow> bool \<Rightarrow> conn \<Rightarrow> (bool \<times> conn) option" where
  "read_step up brk c = do {
     require (inlen c > 0);
     (r, c) \<leftarrow> conn_read_again c;
     if r < 0 \<or> (r = 0 \<and> ateof (transp c)) then stop c
     else if r > 0 then received up brk (c\<lparr>inlen := inlen c - word_of_int r\<rparr>)
     else Some (False, c)
   }"

section \<open>The reading loop ends\<close>

lemma input_ready_transp: "input_ready up c = Some (m, c') \<Longrightarrow> transp c' = transp c"
  by (auto simp: input_ready_def input_def close_connection_def Let_def elim!: bind_cases)

lemma stop_transp: "stop c = Some (m, c') \<Longrightarrow> transp c' = transp c"
  by (auto simp: stop_def close_connection_def)

lemma fragment_id_transp: "fragment_id c = Some (i, c') \<Longrightarrow> transp c' = transp c"
  by (auto simp: fragment_id_def elim!: bind_cases)

lemma header_step_transp: "header_step up c = Some (m, c') \<Longrightarrow> transp c' = transp c"
  by (auto simp: header_step_def Let_def split: option.splits if_splits elim!: bind_cases
      dest!: input_ready_transp stop_transp)

lemma message_step_transp: "message_step up brk c = Some (m, c') \<Longrightarrow> transp c' = transp c"
  by (auto simp: message_step_def next_fragment_def first_fragment_def whole_message_def Let_def
      split: option.splits if_splits elim!: bind_cases
      dest!: input_ready_transp stop_transp fragment_id_transp)

lemma received_transp: "received up brk c = Some (m, c') \<Longrightarrow> transp c' = transp c"
  by (auto simp: received_def split: if_splits elim!: bind_cases
      dest!: header_step_transp message_step_transp)

lemma read_loop_weight:
  "read_loop len todo got t = (ok, xs, t') \<Longrightarrow> in_weight (arriving t') \<le> in_weight (arriving t) \<and>
     length got \<le> length xs \<and>
     (length got < length xs \<longrightarrow> in_weight (arriving t') < in_weight (arriving t))"
proof (induction len todo got t arbitrary: ok xs t' rule: read_loop.induct)
  case (1 len todo got t)
  show ?case
  proof (cases "todo = 0")
    case True
    then show ?thesis using 1 by (auto simp: read_loop.simps)
  next
    case False
    obtain r es where s: "sock_read todo (arriving t) = (r, es)" by (cases "sock_read todo (arriving t)")
    note w = sock_read_weight [OF s]
    show ?thesis
    proof (cases r)
      case (Inl k)
      with 1(1) [OF False s [symmetric] Inl] 1(3) False s w show ?thesis
        by (fastforce simp: read_loop.simps [of len todo] Let_def split: if_splits)
    next
      case (Inr ys)
      with 1(2) [OF False s [symmetric] Inr] 1(3) False s w show ?thesis
        by (fastforce simp: read_loop.simps [of len todo] Let_def split: if_splits)
    qed
  qed
qed

lemma transport_read_weight:
  assumes "transport_read len b t = Some (r, b', t')"
  shows "in_weight (arriving t') \<le> in_weight (arriving t) \<and>
     (r > 0 \<longrightarrow> in_weight (arriving t') < in_weight (arriving t))"
proof -
  obtain ok xs u where t: "tcp_read len t = (ok, xs, u)" by (cases "tcp_read len t") auto
  with assms have "u = t'" "r = (if ok then int (length xs) else - 1)"
    by (auto simp: transport_read_def Let_def split: if_splits elim!: bind_cases)
  with read_loop_weight [OF t [unfolded tcp_read_def]] show ?thesis by (auto split: if_splits)
qed

lemma conn_read_weight:
  assumes "conn_read c = Some (r, c')"
  shows "in_weight (arriving (transp c')) \<le> in_weight (arriving (transp c)) \<and>
     (r > 0 \<longrightarrow> in_weight (arriving (transp c')) < in_weight (arriving (transp c)))"
proof -
  obtain b t where "transport_read (inlen c) (inbuf c) (transp c) = Some (r, b, t)" "transp c' = t"
    using assms by (auto simp: conn_read_def elim!: bind_cases)
  then show ?thesis using transport_read_weight by blast
qed

lemma conn_read_again_weight:
  assumes "conn_read_again c = Some (r, c')"
  shows "r > 0 \<longrightarrow> in_weight (arriving (transp c')) < in_weight (arriving (transp c))"
proof -
  obtain s d where d: "conn_read c = Some (s, d)"
    using assms by (cases "conn_read c") (auto simp: conn_read_again_def)
  then have e: "(if s < 0 then conn_read d else Some (s, d)) = Some (r, c')"
    using assms by (simp add: conn_read_again_def)
  show ?thesis
  proof (cases "s < 0")
    case True
    then show ?thesis using conn_read_weight [OF d] conn_read_weight [of d r c'] e by fastforce
  next
    case False
    then show ?thesis using conn_read_weight [OF d] e by simp
  qed
qed

lemma read_step_eq:
  assumes "inlen c > 0" and "conn_read_again c = Some (r, d)"
  shows "r < 0 \<or> (r = 0 \<and> ateof (transp d)) \<Longrightarrow> read_step up brk c = stop d"
    and "r > 0 \<Longrightarrow>
      read_step up brk c = received up brk (d\<lparr>inlen := inlen d - word_of_int r\<rparr>)"
    and "r = 0 \<Longrightarrow> \<not> ateof (transp d) \<Longrightarrow> read_step up brk c = Some (False, d)"
  using assms by (auto simp: read_step_def)

lemma read_step_weight:
  assumes "read_step up brk c = Some (True, c')"
  shows "in_weight (arriving (transp c')) < in_weight (arriving (transp c))"
proof -
  have p: "inlen c > 0"
  proof (rule ccontr)
    assume "\<not> inlen c > 0"
    then have "read_step up brk c = None" by (simp add: read_step_def)
    then show False using assms by simp
  qed
  obtain r d where d: "conn_read_again c = Some (r, d)"
  proof (cases "conn_read_again c")
    case None
    then have "read_step up brk c = None" by (simp add: read_step_def)
    then show ?thesis using assms by simp
  next
    case (Some a)
    then show ?thesis using that by (cases a) simp
  qed
  note e = read_step_eq [OF p d, of up brk]
  have s: "r > 0"
  proof (rule ccontr)
    assume "\<not> r > 0"
    then consider "r < 0 \<or> (r = 0 \<and> ateof (transp d))" | "r = 0" "\<not> ateof (transp d)" by linarith
    then show False
    proof cases
      case 1
      then show False using e(1) assms unfolding stop_def by simp
    next
      case 2
      then show False using e(3) assms by simp
    qed
  qed
  have "received up brk (d\<lparr>inlen := inlen d - word_of_int r\<rparr>) = Some (True, c')"
    using assms unfolding e(2) [OF s] .
  from received_transp [OF this] have "transp c' = transp d" by simp
  then show ?thesis using conn_read_again_weight [OF d] s by simp
qed

text \<open>\<open>do_read\<close>: until there is nothing left to read, or the connection is shut down.\<close>

function do_read :: "(buffer \<Rightarrow> bool) \<Rightarrow> bool \<Rightarrow> conn \<Rightarrow> conn option" where
  "do_read up brk c =
     (case read_step up brk c of
       None \<Rightarrow> None
     | Some (go, c') \<Rightarrow> if go then do_read up brk c' else Some c')"
  by pat_completeness auto

termination
  by (relation "measure (\<lambda>(up, brk, c). in_weight (arriving (transp c)))")
    (auto dest: read_step_weight)

declare do_read.simps [simp del]

section \<open>Writing\<close>

text \<open>One pass of the loop of \<open>do_write\<close>: the oldest message, as much of it as the socket takes.\<close>

definition write_step :: "conn \<Rightarrow> (bool \<times> conn) option" where
  "write_step c =
     (case outbufs c of
       [] \<Rightarrow> None
     | b # bs \<Rightarrow> do {
         (r, b, t) \<leftarrow> transport_write (buf_length b) True b (transp c);
         let c = c\<lparr>transp := t, outbufs := b # bs\<rparr>;
         if r > 0 then
           if buf_length b = 0 then
             let c = c\<lparr>outbufs := bs\<rparr> in Some (bs \<noteq> [], if bs = [] then check_idle c else c)
           else Some (True, c)
         else if r < 0 then stop c
         else Some (False, c)
       })"

lemma write_loop_weight:
  "write_loop len xs t = (ok, ys, t') \<Longrightarrow> out_weight (accepting t') \<le> out_weight (accepting t) \<and>
     length ys \<le> length xs \<and>
     (length ys < length xs \<longrightarrow> out_weight (accepting t') < out_weight (accepting t))"
proof (induction len xs t arbitrary: ok ys t' rule: write_loop.induct)
  case (1 len xs t)
  show ?case
  proof (cases "xs = []")
    case True
    then show ?thesis using 1 by (auto simp: write_loop.simps)
  next
    case False
    obtain r es where s: "sock_write (length xs) (accepting t) = (r, es)"
      by (cases "sock_write (length xs) (accepting t)")
    note w = sock_write_weight [OF s]
    show ?thesis
    proof (cases r)
      case (Inl k)
      with 1(1) [OF False s [symmetric] Inl] 1(3) False s w show ?thesis
        by (fastforce simp: write_loop.simps [of len xs] Let_def split: if_splits)
    next
      case (Inr n)
      show ?thesis
      proof (cases "n = 0")
        case True
        with Inr 1(3) False s w show ?thesis
          by (auto simp: write_loop.simps [of len xs])
      next
        case n: False
        have "write_loop len (drop n xs) (t\<lparr>accepting := es, sent := sent t @ take n xs\<rparr>) = (ok, ys, t')"
          using 1(3) False s Inr n by (simp add: write_loop.simps [of len xs])
        from 1(2) [OF False s [symmetric] Inr refl n, of ok ys t'] this w [THEN conjunct1] w [of _ n] Inr n False
        show ?thesis by auto
      qed
    qed
  qed
qed

lemma transport_write_weight:
  assumes "transport_write len eat b t = Some (r, b', t')" and "r > 0"
  shows "out_weight (accepting t') < out_weight (accepting t)"
proof -
  obtain xs where xs: "mem_read (mem b) (unat (rptr b)) (unat len) = Some xs"
    using assms(1) by (auto simp: transport_write_def split: if_splits elim!: bind_cases)
  obtain ok ys u where w: "tcp_write xs t = (ok, ys, u)" by (cases "tcp_write xs t") auto
  from assms(1) xs w have "u = t'" "r = (if ok then int (length xs - length ys) else - 1)"
    by (auto simp: transport_write_def Let_def split: if_splits elim!: bind_cases)
  with write_loop_weight [OF w [unfolded tcp_write_def]] assms(2) show ?thesis
    by (auto split: if_splits)
qed

lemma check_idle_transp [simp]: "transp (check_idle c) = transp c"
  by (simp add: check_idle_def Let_def)

lemma write_step_eq:
  assumes "outbufs c = b # bs"
    and "transport_write (buf_length b) True b (transp c) = Some (r, d, t)"
  shows "r > 0 \<Longrightarrow> buf_length d \<noteq> 0 \<Longrightarrow>
      write_step c = Some (True, c\<lparr>transp := t, outbufs := d # bs\<rparr>)"
    and "r > 0 \<Longrightarrow> buf_length d = 0 \<Longrightarrow> bs \<noteq> [] \<Longrightarrow>
      write_step c = Some (True, c\<lparr>transp := t, outbufs := bs\<rparr>)"
    and "r > 0 \<Longrightarrow> buf_length d = 0 \<Longrightarrow> bs = [] \<Longrightarrow>
      write_step c = Some (False, check_idle (c\<lparr>transp := t, outbufs := []\<rparr>))"
    and "r = 0 \<Longrightarrow> write_step c = Some (False, c\<lparr>transp := t, outbufs := d # bs\<rparr>)"
    and "r < 0 \<Longrightarrow>
      write_step c = Some (False, close_connection (c\<lparr>transp := t, outbufs := d # bs\<rparr>))"
  unfolding write_step_def assms(1) by (simp_all add: assms(2) stop_def)

lemma write_step_cases:
  assumes "write_step c = Some (go, c')"
  obtains b bs r d t where "outbufs c = b # bs"
    and "transport_write (buf_length b) True b (transp c) = Some (r, d, t)"
proof (cases "outbufs c")
  case Nil
  then have "write_step c = None" by (simp add: write_step_def)
  then show ?thesis using assms by simp
next
  case (Cons b bs)
  show ?thesis
  proof (cases "transport_write (buf_length b) True b (transp c)")
    case None
    then have "write_step c = None" by (simp add: write_step_def Cons)
    then show ?thesis using assms by simp
  next
    case (Some a)
    then show ?thesis using that Cons by (cases a) simp
  qed
qed

lemma write_step_weight:
  assumes w: "write_step c = Some (True, c')"
  shows "out_weight (accepting (transp c')) < out_weight (accepting (transp c))"
proof -
  from write_step_cases [OF w] obtain b bs r d t where o: "outbufs c = b # bs"
    and t: "transport_write (buf_length b) True b (transp c) = Some (r, d, t)" .
  note e = write_step_eq [OF o t]
  consider "r > 0" "buf_length d \<noteq> 0" | "r > 0" "buf_length d = 0" "bs \<noteq> []"
    | "r > 0" "buf_length d = 0" "bs = []" | "r = 0" | "r < 0" by linarith
  then have "r > 0 \<and> transp c' = t"
  proof cases
    case 1
    then show ?thesis using w e(1) by auto
  next
    case 2
    then show ?thesis using w e(2) by auto
  next
    case 3
    then show ?thesis using w e(3) by simp
  next
    case 4
    then show ?thesis using w e(4) by simp
  next
    case 5
    then show ?thesis using w e(5) by simp
  qed
  then show ?thesis using transport_write_weight [OF t] by simp
qed

text \<open>\<open>do_write\<close>, which asserts that there is something to write.\<close>

function do_write :: "conn \<Rightarrow> conn option" where
  "do_write c =
     (case write_step c of
       None \<Rightarrow> None
     | Some (go, c') \<Rightarrow> if go then do_write c' else Some c')"
  by pat_completeness auto

termination
  by (relation "measure (\<lambda>c. out_weight (accepting (transp c)))") (auto dest: write_step_weight)

declare do_write.simps [simp del]

definition output_handler :: "buffer \<Rightarrow> conn \<Rightarrow> conn option" where
  "output_handler b c =
     (if outbufs c = [] then do {
        (_, b, t) \<leftarrow> transport_write (buf_length b) True b (transp c);
        let c = c\<lparr>transp := t\<rparr>;
        if buf_length b = 0 then Some c else Some (check_busy (c\<lparr>outbufs := [b]\<rparr>))
      }
      else do {
        c \<leftarrow> do_write (c\<lparr>outbufs := outbufs c @ [b]\<rparr>);
        Some (check_busy c)
      })"

text \<open>\<open>flush\<close>, with the socket in blocking mode; what a write leaves of a message is dropped.\<close>

fun flush_loop :: "buffer list \<Rightarrow> transport \<Rightarrow> transport option" where
  "flush_loop [] t = Some t"
| "flush_loop (b # bs) t = do {
     (_, _, t) \<leftarrow> transport_write (buf_length b) True b t;
     flush_loop bs t
   }"

definition flush :: "conn \<Rightarrow> conn option" where
  "flush c = do { t \<leftarrow> flush_loop (outbufs c) (transp c); Some (c\<lparr>transp := t, outbufs := []\<rparr>) }"

section \<open>Callbacks of the dispatcher\<close>

datatype event = ReadEvent | WriteEvent | TimerEvent

text \<open>\<open>blocking\<close> is what the dispatcher answers to \<open>isblocking\<close>.\<close>

definition conn_callback :: "(buffer \<Rightarrow> bool) \<Rightarrow> bool \<Rightarrow> event \<Rightarrow> conn \<Rightarrow> conn option" where
  "conn_callback up blocking ev c =
     (case ev of
       ReadEvent \<Rightarrow> do_read up blocking c
     | WriteEvent \<Rightarrow> do_write c
     | TimerEvent \<Rightarrow> Some (close_connection c))"

end
