(* ===== verification/GIOP_Messages.thy ===== *)
theory GIOP_Messages
  imports GIOP_Codec
begin

text \<open>
  GIOP messages between two machines: what one codec writes the other reads, over versions, byte
  orders and code set agreements, and where the two sides of this codec do not agree with each other.
\<close>

section \<open>A message on its way\<close>

lemma fresh_decoder:
  assumes "writes (buffer_new f z) xs b" and "real_bo m"
  shows "dec_ok (new_decoder m b DefaultEndian None)" and "quiet (new_decoder m b DefaultEndian None)"
    and "roffd (new_decoder m b DefaultEndian None) = 0" and "octets (dbuf (new_decoder m b DefaultEndian None)) = xs"
proof -
  let ?e = "new_encoder m (buffer_new f z) m"
  have "emits ?e xs (?e\<lparr>ebuf := b\<rparr>)" using assms(1) by (auto simp: emits_def new_encoder_def)
  note nd = new_decoder_facts [OF this assms(2) assms(2) assms(2)]
  have "new_decoder m b DefaultEndian None = new_decoder m b m None" by (simp add: new_decoder_def)
  then show "dec_ok (new_decoder m b DefaultEndian None)" and "roffd (new_decoder m b DefaultEndian None) = 0"
    and "octets (dbuf (new_decoder m b DefaultEndian None)) = xs"
    using nd by simp_all
  show "quiet (new_decoder m b DefaultEndian None)" by (simp add: quiet_def dec_cur_def new_decoder_def)
qed

text \<open>The header, and what stands behind it: the reader is at the body, in the byte order of the writer.\<close>

lemma message_travels:
  assumes m: "real_bo m1" "real_bo m2" "real_bo bo" and c: "headerlen c1 = 12"
    and ver: "giop_ver c1 \<in> versions" "giop_ver c1 \<le> giop_ver c2"
    and body: "appends body im n" and size: "n < 4294967200"
  shows "\<exists>key e1 e2 e3 d. put_header c1 mt (new_encoder m1 (buffer_new f z) bo) = Some (key, e1) \<and> body e1 = Some e2 \<and>
     put_size c1 key e2 = Some e3 \<and> e_data_bo e3 = bo \<and> length (octets (ebuf e3)) = 12 + length (im bo 12) \<and>
     get_header c2 (new_decoder m2 (ebuf e3) DefaultEndian None) =
       Some (Some (Some (mt, word_of_nat (length (octets (ebuf e3)) - 12), bo_flag bo), c2\<lparr>giop_ver := giop_ver c1\<rparr>), d) \<and>
     dec_ok d \<and> quiet d \<and> d_data_bo d = bo \<and> roffd d = 12 \<and> octets (dbuf d) = im bo 12"
proof -
  let ?e = "new_encoder m1 (buffer_new f z) bo"
  note e = new_encoder_start [OF m(1,3), of f z]
  have "has_room (20 + n) ?e" using size by (simp add: new_encoder_room)
  from message_emits [OF e(1-3) c body this, of mt] obtain key e1 e2 e3 where x:
    "put_header c1 mt ?e = Some (key, e1)" "body e1 = Some e2" "put_size c1 key e2 = Some e3"
    "emits ?e (header_octets c1 mt bo @ word_image bo 4 (word_of_nat (length (im bo 12)) :: ulong) @ im bo 12) e3"
    by (auto simp: e(4))
  have "writes (buffer_new f z) (header_octets c1 mt bo @ word_image bo 4 (word_of_nat (length (im bo 12)) :: ulong) @ im bo 12) (ebuf e3)"
    using x(4) by (auto simp: emits_def new_encoder_def)
  note d = fresh_decoder [OF this m(2)]
  from get_header_reads [OF d(1-3) m(3) ver d(4)] obtain d' where d':
    "get_header c2 (new_decoder m2 (ebuf e3) DefaultEndian None) =
       Some (Some (Some (mt, word_of_nat (length (im bo 12)), bo_flag bo), c2\<lparr>giop_ver := giop_ver c1\<rparr>), d')"
    "dec_ok d'" "quiet d'" "d_data_bo d' = bo" "roffd d' = 12" "octets (dbuf d') = im bo 12" by blast
  have "length (octets (ebuf e3)) = 12 + length (im bo 12)" "e_data_bo e3 = bo"
    using emits_fields(1,4) [OF x(4)] e(3,4) by simp_all
  then show ?thesis using x(1-3) d' by (intro exI [of _ key] exI [of _ e1] exI [of _ e2] exI [of _ e3] exI [of _ d']) simp
qed

text \<open>A reader of a message: its header, then a body by \<open>k\<close>.\<close>

definition read_message :: "'a cdec \<Rightarrow> (octet \<times> ulong \<times> 'a) cdec" where
  "read_message k = cbind get_header (\<lambda>(mt, sz, flags). cbind k (\<lambda>v. cret (mt, sz, v)))"

lemma message_read:
  assumes h: "get_header c2 d0 = Some (Some (Some (mt, sz, fl), c3), d)" and d: "dec_ok d" "quiet d"
    and k: "takes (k c3) (Some v, c4) im" and oct: "octets (dbuf d) = im (d_data_bo d) (roffd d) @ rest"
  shows "\<exists>d'. read_message k c2 d0 = Some (Some (Some (mt, sz, v), c4), d') \<and> octets (dbuf d') = rest \<and> dec_ok d' \<and> quiet d' \<and>
     d_data_bo d' = d_data_bo d \<and> roffd d' = roffd d + length (im (d_data_bo d) (roffd d))"
proof -
  from takesE [OF k d oct] obtain d' where d': "k c3 d = Some (Some (Some v, c4), d')" "dec_ok d'" "quiet d'" "octets (dbuf d') = rest"
    "d_data_bo d' = d_data_bo d" "roffd d' = roffd d + length (im (d_data_bo d) (roffd d))" by blast
  then show ?thesis using h by (auto simp: read_message_def cbind_def dbind_def cret_def dret_def)
qed

section \<open>Requests\<close>

text \<open>Whether a request carries the code sets of its codec, and the codec afterwards.\<close>

definition announces :: "codec \<Rightarrow> bool" where
  "announces c \<longleftrightarrow> \<not> codesets_sent c \<and> conv c \<noteq> None \<and> giop_ver c \<ge> 0x0101"

definition announced :: "bool \<Rightarrow> codec \<Rightarrow> (ulong \<times> ulong) option" where
  "announced disabled c = (if announces c \<and> \<not> disabled then Some (csid c, wcsid c) else None)"

definition after_request :: "codec \<Rightarrow> codec" where
  "after_request c = (if announces c then c\<lparr>codesets_sent := True\<rparr> else c)"

lemma after_request_fields [simp]:
  "giop_ver (after_request c) = giop_ver c" "headerlen (after_request c) = headerlen c"
  "csid (after_request c) = csid c" "wcsid (after_request c) = wcsid c"
  by (simp_all add: after_request_def)

lemma put_header_ver: "giop_ver c = giop_ver c' \<Longrightarrow> put_header c = put_header c'"
proof -
  assume v: "giop_ver c = giop_ver c'"
  then have "order_octet c = order_octet c'" by (simp add: order_octet_def fun_eq_iff)
  then show ?thesis using v by (simp add: put_header_def fun_eq_iff cong: if_cong)
qed

lemma setup_codesets_ver: "setup_codesets isok disabled got c = Some (ok, c') \<Longrightarrow> giop_ver c' = giop_ver c"
  by (auto simp: setup_codesets_def Let_def split: if_splits option.splits elim!: bind_cases)

lemma read_target_ver: "giop_ver c = giop_ver c' \<Longrightarrow> read_target c obj = read_target c' obj"
  by (simp split: option.splits)

lemma request_image_ver: "giop_ver c = giop_ver c' \<Longrightarrow> request_image c = request_image c'"
  by (simp add: request_image_def fun_eq_iff reserved_image_def target_image_def)

definition relay_order :: "byteorder \<Rightarrow> byteorder option \<Rightarrow> byteorder" where
  "relay_order bo r = (case r of None \<Rightarrow> bo | Some b \<Rightarrow> b)"

lemma relay_encoder:
  "(case r of Some b \<Rightarrow> enc_set_byteorder b (new_encoder m buf bo) | None \<Rightarrow> new_encoder m buf bo) =
    new_encoder m buf (relay_order bo r)" if "real_bo bo" "real_bo (relay_order bo r)"
  using that by (cases r) (auto simp: relay_order_def new_encoder_def enc_set_byteorder_def real_bo_def)

lemma list_size_ctx: "length ctx \<le> ctx_size ctx"
  by (induction ctx) (simp_all add: ctx_size_def)


section \<open>Replies\<close>

definition reply_image :: "codec \<Rightarrow> ulong \<Rightarrow> ulong \<Rightarrow> service_context list \<Rightarrow> image_at" where
  "reply_image c req_id stat ctx =
     (if giop_ver c < 0x0102 then im_seq (ctx_image ctx None) (im_seq (im_ulong req_id) (im_ulong stat))
      else im_seq (im_ulong req_id) (im_seq (im_ulong stat) (ctx_image ctx None)))"

lemma appends_reply_head:
  assumes "list_all (context_ok dis) ctx"
  shows "appends (reply_head disabled req_id stat ctx c) (reply_image c req_id stat ctx) (ctx_size ctx + 16)"
proof -
  note cl = appends_contextlist [OF assms, of disabled c False]
  show ?thesis
  proof (cases "giop_ver c < 0x0102")
    case True
    then have eq: "reply_head disabled req_id stat ctx c = (\<lambda>e. Option.bind (put_contextlist disabled c ctx False e)
        (\<lambda>e. Option.bind (put_ulong req_id e) (enc_enumeration stat)))" by (simp add: fun_eq_iff reply_head_def)
    have "appends (reply_head disabled req_id stat ctx c) (reply_image c req_id stat ctx) (ctx_size ctx + (8 + 8))"
      using appends_bind [OF cl appends_bind [OF appends_ulong [of req_id] appends_enumeration [of stat]]] True
      by (simp add: eq reply_image_def)
    then show ?thesis by (rule appends_mono) simp
  next
    case False
    then have eq: "reply_head disabled req_id stat ctx c = (\<lambda>e. Option.bind (put_ulong req_id e)
        (\<lambda>e. Option.bind (enc_enumeration stat e) (put_contextlist disabled c ctx False)))" by (simp add: fun_eq_iff reply_head_def)
    have "appends (reply_head disabled req_id stat ctx c) (reply_image c req_id stat ctx) (8 + (8 + ctx_size ctx))"
      using appends_bind [OF appends_ulong [of req_id] appends_bind [OF appends_enumeration [of stat] cl]] False
      by (simp add: eq reply_image_def)
    then show ?thesis by (rule appends_mono) simp
  qed
qed

lemma takes_reply_head:
  assumes ctx: "list_all (context_ok disabled) ctx" "length ctx < 4294967295" and ver: "giop_ver c = giop_ver c0"
  shows "takes (reply_head_get isok disabled c) (Some (req_id, stat, ctx), c) (reply_image c0 req_id stat ctx)"
proof -
  have cl: "takes (get_contextlist isok disabled False c) (Some ctx, c) (ctx_image ctx None)"
    by (rule takes_contextlist [OF ctx]) simp_all
  show ?thesis
  proof (cases "giop_ver c < 0x0102")
    case True
    have "takes (reply_head_get isok disabled c) (Some (req_id, stat, ctx), c)
        (im_seq (ctx_image ctx None) (im_seq (im_ulong req_id) (im_seq (im_ulong stat) im_nil)))"
      unfolding reply_head_get_def
      by (rule takes_cif(1), rule True, rule takes_cbind, rule cl, rule takes_cbind, rule takes_clift, rule takes_ulong,
          rule takes_cbind, rule takes_clift, rule takes_enumeration, rule takes_cret)
    then show ?thesis using True ver by (simp add: reply_image_def)
  next
    case False
    have "takes (reply_head_get isok disabled c) (Some (req_id, stat, ctx), c)
        (im_seq (im_ulong req_id) (im_seq (im_ulong stat) (im_seq (ctx_image ctx None) im_nil)))"
      unfolding reply_head_get_def
      by (rule takes_cif(2), rule False, rule takes_cbind, rule takes_clift, rule takes_ulong,
          rule takes_cbind, rule takes_clift, rule takes_enumeration, rule takes_cbind, rule cl, rule takes_cret)
    then show ?thesis using False ver by (simp add: reply_image_def)
  qed
qed

definition exceptions :: "ulong set" where
  "exceptions = {NO_EXCEPTION, USER_EXCEPTION, SYSTEM_EXCEPTION}"

definition forwards :: "ulong set" where
  "forwards = {LOCATION_FORWARD, LOCATION_FORWARD_PERM}"

text \<open>The statuses a version has.\<close>

definition reply_status_ok :: "codec \<Rightarrow> ulong \<Rightarrow> bool" where
  "reply_status_ok c stat \<longleftrightarrow>
     stat \<in> exceptions \<union> {LOCATION_FORWARD} \<or> giop_ver c \<ge> 0x0102 \<and> stat \<in> {LOCATION_FORWARD_PERM, NEEDS_ADDRESSING_MODE}"

definition reply_body :: "ulong \<Rightarrow> ior \<Rightarrow> ushort \<Rightarrow> (bool \<Rightarrow> 'a) \<Rightarrow> 'a reply_body" where
  "reply_body stat obj ad v =
     (if stat = NO_EXCEPTION then ReplyArgs False (v False) else if stat \<in> exceptions then ReplyArgs True (v True)
      else if stat \<in> forwards then ReplyForward obj else ReplyAddressing ad)"

definition reply_body_image :: "ulong \<Rightarrow> ior \<Rightarrow> ushort \<Rightarrow> image_at \<Rightarrow> image_at" where
  "reply_body_image stat obj ad im =
     (if stat \<in> exceptions then im else if stat \<in> forwards then ior_image obj else im_ushort ad)"

definition reply_pad :: "codec \<Rightarrow> ulong \<Rightarrow> image_at" where
  "reply_pad c stat = (if stat \<in> exceptions then align_image c else im_nil)"

lemma statuses:
  "NO_EXCEPTION = 0" "USER_EXCEPTION = 1" "SYSTEM_EXCEPTION = 2" "LOCATION_FORWARD = 3" "LOCATION_FORWARD_PERM = 4" "NEEDS_ADDRESSING_MODE = 5"
  by (simp_all add: NO_EXCEPTION_def USER_EXCEPTION_def SYSTEM_EXCEPTION_def LOCATION_FORWARD_def LOCATION_FORWARD_PERM_def NEEDS_ADDRESSING_MODE_def)

lemma takes_reply1:
  assumes ctx: "list_all (context_ok disabled) ctx" "length ctx < 4294967295" and ver: "giop_ver c = giop_ver c0"
    and st: "reply_status_ok c0 stat"
  shows "takes (get_invoke_reply1 isok disabled c) (Some (req_id, stat, ctx), c)
     (im_seq (reply_image c0 req_id stat ctx) (align_image c0))"
proof -
  have al: "align_image c = align_image c0" using ver by (simp add: align_image_def)
  have cond: "stat \<in> {NO_EXCEPTION, USER_EXCEPTION, SYSTEM_EXCEPTION, LOCATION_FORWARD} \<or>
      stat \<in> {LOCATION_FORWARD_PERM, NEEDS_ADDRESSING_MODE} \<and> giop_ver c \<ge> 0x0102"
    using st ver by (auto simp: reply_status_ok_def exceptions_def)
  have "takes (cbind align_get (\<lambda>_. cret (req_id, stat, ctx)) c) (Some (req_id, stat, ctx), c) (im_seq (align_image c) im_nil)"
    by (rule takes_cbind, rule takes_align, rule takes_cret)
  then have tail: "takes (cbind align_get (\<lambda>_. cret (req_id, stat, ctx)) c) (Some (req_id, stat, ctx), c) (align_image c0)"
    by (simp add: al)
  show ?thesis unfolding get_invoke_reply1_def
    by (rule takes_cbind, rule takes_reply_head [OF ctx ver], simp only: prod.case, rule takes_cif(1), rule cond, rule tail)
qed

lemma takes_reply2:
  assumes st: "reply_status_ok c0 stat" and i: "stat \<in> forwards \<Longrightarrow> ior_ok resolve obj"
    and v: "\<And>ex. stat \<in> exceptions \<Longrightarrow> takes (set_out ex) (v ex) im"
  shows "takes (get_invoke_reply2 resolve stat set_out) (reply_body stat obj ad v) (reply_body_image stat obj ad im)"
proof -
  have b: "takes (dbind m (\<lambda>v. dret (C v))) (C w) jm" if "takes m w jm" for m and w :: 'b and C :: "'b \<Rightarrow> 'a reply_body" and jm
    using takes_bind [where k = "\<lambda>v. dret (C v)", OF that takes_ret] by simp
  have b': "takes (dbind m (\<lambda>v. dret (C v))) (C w) jm" if "takes m w jm" for m and w :: ior and C :: "ior \<Rightarrow> 'a reply_body" and jm
    using takes_bind [where k = "\<lambda>v. dret (C v)", OF that takes_ret] by simp
  have b'': "takes (dbind m (\<lambda>v. dret (C v))) (C w) jm" if "takes m w jm" for m and w :: ushort and C :: "ushort \<Rightarrow> 'a reply_body" and jm
    using takes_bind [where k = "\<lambda>v. dret (C v)", OF that takes_ret] by simp
  have args: "takes (dbind (set_out ex) (\<lambda>v. dret (ReplyArgs ex v))) (ReplyArgs ex (v ex)) im" if "stat \<in> exceptions" for ex
    using takes_bind [where k = "\<lambda>v. dret (ReplyArgs ex v)", OF v [OF that] takes_ret] by simp
  consider "stat = NO_EXCEPTION" | "stat \<in> {USER_EXCEPTION, SYSTEM_EXCEPTION}" | "stat \<in> forwards" | "stat = NEEDS_ADDRESSING_MODE"
    using st by (auto simp: reply_status_ok_def exceptions_def forwards_def)
  then show ?thesis
  proof cases
    case 1
    then show ?thesis using args [of False] by (simp add: get_invoke_reply2_def reply_body_def reply_body_image_def exceptions_def)
  next
    case 2
    then show ?thesis using args [of True]
      by (auto simp: get_invoke_reply2_def reply_body_def reply_body_image_def exceptions_def statuses)
  next
    case 3
    then show ?thesis using b' [OF ior.get_im [OF i [OF 3]], of ReplyForward]
      by (auto simp: get_invoke_reply2_def reply_body_def reply_body_image_def exceptions_def forwards_def statuses)
  next
    case 4
    then show ?thesis using b'' [OF takes_short [of ad], of ReplyAddressing]
      by (simp add: get_invoke_reply2_def reply_body_def reply_body_image_def exceptions_def forwards_def statuses)
  qed
qed

text \<open>Reading a reply to the end.\<close>

definition get_reply ::
    "(octet list \<Rightarrow> octet list option) \<Rightarrow> (codeset_coder \<Rightarrow> bool) \<Rightarrow> bool \<Rightarrow> (bool \<Rightarrow> 'a dec) \<Rightarrow>
     (ulong \<times> ulong \<times> service_context list \<times> 'a reply_body) cdec" where
  "get_reply resolve isok disabled set_out =
     cbind (get_invoke_reply1 isok disabled) (\<lambda>(req_id, stat, ctx).
     cbind (clift (get_invoke_reply2 resolve stat set_out)) (\<lambda>b. cret (req_id, stat, ctx, b)))"

text \<open>Where the body of a reply starts, behind the head.\<close>

definition body_offset :: "codec \<Rightarrow> ulong \<Rightarrow> ulong \<Rightarrow> service_context list \<Rightarrow> byteorder \<Rightarrow> nat" where
  "body_offset c req_id stat ctx bo = 12 + length (reply_image c req_id stat ctx bo 12)"

lemma put_reply_written:
  assumes m: "real_bo m1" "real_bo m2" "real_bo bo" "real_bo (relay_order bo (output_byteorder req))"
    and c: "headerlen c1 = 12" "giop_ver c1 \<in> versions" "giop_ver c1 \<le> giop_ver c2"
    and st: "reply_status_ok c1 stat" and ctx: "list_all (context_ok disabled) (svc_context req)"
    and i: "stat \<in> forwards \<Longrightarrow> ior_ok resolve obj"
    and args: "stat \<in> exceptions \<Longrightarrow> get_out_args req = (\<lambda>e. map_option (Pair True) (pt e))" "stat \<in> exceptions \<Longrightarrow> appends pt im n"
    and size: "ctx_size (svc_context req) + ior_size obj + n < 4294967000"
  shows "\<exists>e d. put_invoke_reply disabled req_id stat obj req ad c1 (new_encoder m1 (buffer_new f z) bo) = Some (True, e) \<and>
     enc_byteorder e = bo \<and>
     get_header c2 (new_decoder m2 (ebuf e) DefaultEndian None) =
       Some (Some (Some (Reply, word_of_nat (length (octets (ebuf e)) - 12), bo_flag (relay_order bo (output_byteorder req))),
         c2\<lparr>giop_ver := giop_ver c1\<rparr>), d) \<and>
     dec_ok d \<and> quiet d \<and> d_data_bo d = relay_order bo (output_byteorder req) \<and> roffd d = 12 \<and>
     octets (dbuf d) = im_seq (reply_image c1 req_id stat (svc_context req)) (im_seq (reply_pad c1 stat) (reply_body_image stat obj ad im))
       (relay_order bo (output_byteorder req)) 12"
proof -
  let ?bo = "relay_order bo (output_byteorder req)" and ?head = "reply_head disabled req_id stat (svc_context req) c1"
  define tl where "tl = (if stat \<in> exceptions then (\<lambda>e. Option.bind (align_put c1 e) pt)
    else if stat \<in> forwards then ior_encode obj else put_short ad)"
  have tail: "appends tl (im_seq (reply_pad c1 stat) (reply_body_image stat obj ad im)) (8 + (ior_size obj + n) + 4)"
  proof -
    consider "stat \<in> exceptions" | "stat \<notin> exceptions" "stat \<in> forwards" | "stat \<notin> exceptions" "stat \<notin> forwards" by blast
    then show ?thesis
    proof cases
      case 1
      have "appends tl (im_seq (reply_pad c1 stat) (reply_body_image stat obj ad im)) (8 + n)"
        using appends_bind [OF appends_align [of c1] args(2) [OF 1]] 1 by (simp add: tl_def reply_pad_def reply_body_image_def)
      then show ?thesis by (rule appends_mono) simp
    next
      case 2
      have "appends tl (im_seq (reply_pad c1 stat) (reply_body_image stat obj ad im)) (ior_size obj)"
        using ior.put_im [OF i [OF 2(2)]] 2 by (simp add: tl_def reply_pad_def reply_body_image_def)
      then show ?thesis by (rule appends_mono) simp
    next
      case 3
      have "appends tl (im_seq (reply_pad c1 stat) (reply_body_image stat obj ad im)) 4"
        using appends_short [of ad] 3 by (simp add: tl_def reply_pad_def reply_body_image_def)
      then show ?thesis by (rule appends_mono) simp
    qed
  qed
  note body = appends_bind [OF appends_reply_head [OF ctx, of disabled req_id stat c1] tail]
  have sz: "ctx_size (svc_context req) + 16 + (8 + (ior_size obj + n) + 4) < 4294967200" using size by simp
  from message_travels [OF m(1,2,4) c body sz, of Reply f z] obtain key e1 e2 e3 d where x:
    "put_header c1 Reply (new_encoder m1 (buffer_new f z) ?bo) = Some (key, e1)"
    "Option.bind (?head e1) tl = Some e2" "put_size c1 key e2 = Some e3"
    "get_header c2 (new_decoder m2 (ebuf e3) DefaultEndian None) =
       Some (Some (Some (Reply, word_of_nat (length (octets (ebuf e3)) - 12), bo_flag ?bo), c2\<lparr>giop_ver := giop_ver c1\<rparr>), d)"
    "dec_ok d" "quiet d" "d_data_bo d = ?bo" "roffd d = 12"
    "octets (dbuf d) = im_seq (reply_image c1 req_id stat (svc_context req)) (im_seq (reply_pad c1 stat) (reply_body_image stat obj ad im)) ?bo 12"
    by blast
  obtain e1' where y: "?head e1 = Some e1'" "tl e1' = Some e2" using x(2) by (auto elim!: bind_cases)
  have "enc_byteorder (new_encoder m1 (buffer_new f z) bo) = bo"
    using m(3) by (simp add: enc_byteorder_def new_encoder_def real_bo_def)
  moreover have "stat \<in> exceptions \<or> stat \<in> forwards \<or> stat = NEEDS_ADDRESSING_MODE"
    using st by (auto simp: reply_status_ok_def forwards_def)
  moreover have apart: "forwards \<inter> exceptions = {}" "NEEDS_ADDRESSING_MODE \<notin> exceptions \<union> forwards"
    by (auto simp: exceptions_def forwards_def statuses)
  ultimately have run: "put_invoke_reply disabled req_id stat obj req ad c1 (new_encoder m1 (buffer_new f z) bo) = Some (True, enc_set_byteorder bo e3)"
    unfolding put_invoke_reply_def Let_def relay_encoder [OF m(3,4)] exceptions_def [symmetric] forwards_def [symmetric]
    using x(1,3) y args(1) apart by (auto simp: put_args_def tl_def elim!: bind_cases)
  then show ?thesis using x(4-9)
    by (intro exI [of _ "enc_set_byteorder bo e3"] exI [of _ d]) (simp add: enc_set_byteorder_def enc_byteorder_def)
qed

text \<open>C19: A reply arrives as it was sent, whether it carries results, an exception, another address for the object or the
  wish to be addressed differently - provided that in version 1.2 the head of one of the last two kinds ends at a multiple of eight octets.\<close>

theorem reply_roundtrip:
  assumes m: "real_bo m1" "real_bo m2" "real_bo bo" "real_bo (relay_order bo (output_byteorder req))"
    and c: "headerlen c1 = 12" "giop_ver c1 \<in> versions" "giop_ver c1 \<le> giop_ver c2"
    and st: "reply_status_ok c1 stat" and ctx: "list_all (context_ok disabled) (svc_context req)"
    and i: "stat \<in> forwards \<Longrightarrow> ior_ok resolve obj"
    and args: "stat \<in> exceptions \<Longrightarrow> get_out_args req = (\<lambda>e. map_option (Pair True) (pt e))"
      "stat \<in> exceptions \<Longrightarrow> appends pt im n" "\<And>ex. stat \<in> exceptions \<Longrightarrow> takes (set_out ex) (v ex) im"
    and al: "giop_ver c1 = 0x0102 \<Longrightarrow> stat \<notin> exceptions \<Longrightarrow>
      8 dvd body_offset c1 req_id stat (svc_context req) (relay_order bo (output_byteorder req))"
    and size: "ctx_size (svc_context req) + ior_size obj + n < 4294967000"
  shows "\<exists>e d. put_invoke_reply disabled req_id stat obj req ad c1 (new_encoder m1 (buffer_new f z) bo) = Some (True, e) \<and>
     read_message (get_reply resolve isok disabled set_out) c2 (new_decoder m2 (ebuf e) DefaultEndian None) =
       Some (Some (Some (Reply, word_of_nat (length (octets (ebuf e)) - 12),
         req_id, stat, svc_context req, reply_body stat obj ad v), c2\<lparr>giop_ver := giop_ver c1\<rparr>), d) \<and>
     octets (dbuf d) = []"
proof -
  let ?bo = "relay_order bo (output_byteorder req)" and ?c2 = "c2\<lparr>giop_ver := giop_ver c1\<rparr>"
  let ?R = "reply_image c1 req_id stat (svc_context req)" and ?B = "reply_body_image stat obj ad im"
  from put_reply_written [OF m c st ctx i args(1) args(2) size, of req_id ad f z] obtain e d where x:
    "put_invoke_reply disabled req_id stat obj req ad c1 (new_encoder m1 (buffer_new f z) bo) = Some (True, e)"
    "get_header c2 (new_decoder m2 (ebuf e) DefaultEndian None) =
       Some (Some (Some (Reply, word_of_nat (length (octets (ebuf e)) - 12), bo_flag ?bo), ?c2), d)"
    "dec_ok d" "quiet d" "d_data_bo d = ?bo" "roffd d = 12"
    "octets (dbuf d) = im_seq ?R (im_seq (reply_pad c1 stat) ?B) ?bo 12" by blast
  have ctxn: "length (svc_context req) < 4294967295" using list_size_ctx [of "svc_context req"] size by simp
  have "takes (cbind (clift (get_invoke_reply2 resolve stat set_out)) (\<lambda>b. cret (req_id, stat, svc_context req, b)) ?c2)
      (Some (req_id, stat, svc_context req, reply_body stat obj ad v), ?c2) (im_seq ?B im_nil)"
    by (rule takes_cbind, rule takes_clift, rule takes_reply2 [OF st], erule i, erule args(3), rule takes_cret)
  then have t2: "takes (cbind (clift (get_invoke_reply2 resolve stat set_out)) (\<lambda>b. cret (req_id, stat, svc_context req, b)) ?c2)
      (Some (req_id, stat, svc_context req, reply_body stat obj ad v), ?c2) ?B" by simp
  have ver: "giop_ver ?c2 = giop_ver c1" by simp
  have "takes (get_reply resolve isok disabled set_out ?c2) (Some (req_id, stat, svc_context req, reply_body stat obj ad v), ?c2)
      (im_seq (im_seq ?R (align_image c1)) ?B)"
    unfolding get_reply_def
    by (rule takes_cbind, rule takes_reply1 [OF ctx ctxn ver st], simp only: prod.case, rule t2)
  then have tk: "takes (get_reply resolve isok disabled set_out ?c2) (Some (req_id, stat, svc_context req, reply_body stat obj ad v), ?c2)
      (im_seq ?R (im_seq (align_image c1) ?B))" by simp
  have "im_seq ?R (im_seq (align_image c1) ?B) ?bo 12 = im_seq ?R (im_seq (reply_pad c1 stat) ?B) ?bo 12"
  proof (cases "stat \<in> exceptions \<or> giop_ver c1 \<noteq> 0x0102")
    case True
    then have "align_image c1 = reply_pad c1 stat" using c(2)
      by (auto simp: reply_pad_def align_image_def versions_def)
    then show ?thesis by simp
  next
    case False
    with al have "8 dvd 12 + length (?R ?bo 12)" by (simp add: body_offset_def)
    then have "padlen (12 + length (?R ?bo 12)) 8 = 0" by (simp add: padlen_def dvd_eq_mod_eq_0)
    then show ?thesis using False by (simp add: im_seq_def reply_pad_def align_image_def im_pad_def im_nil_def pad_def)
  qed
  then have oct: "octets (dbuf d) = im_seq ?R (im_seq (align_image c1) ?B) (d_data_bo d) (roffd d) @ []"
    using x(5-7) by simp
  from message_read [where k = "get_reply resolve isok disabled set_out", OF x(2-4) tk oct] show ?thesis using x(1) by blast
qed

section \<open>A forwarding reply out of step\<close>

lemma four_octets:
  assumes "length xs = 4" and "0 \<notin> set xs"
  shows "word_image bo 4 (image_word bo xs :: ulong) = xs" and "16777216 \<le> unat (image_word bo xs :: ulong)"
proof -
  let ?ys = "if bo = LittleEndian then xs else rev xs"
  have l: "length ?ys = 4" "0 \<notin> set ?ys" using assms by auto
  have lt: "octets_nat ?ys < 4294967296" using octets_nat_bound [of ?ys] l(1) by simp
  then have u: "unat (image_word bo xs :: ulong) = octets_nat ?ys" by (simp add: image_word_def image_nat_def nowrap)
  have "nat_octets 4 (octets_nat ?ys) = ?ys" using nat_octets_nat [of ?ys] l(1) by simp
  then show "word_image bo 4 (image_word bo xs :: ulong) = xs"
    unfolding word_image_def image_def u by (cases "bo = LittleEndian") simp_all
  obtain a b c d where ys: "?ys = [a, b, c, d]" using l(1) by (auto simp: numeral_eq_Suc length_Suc_conv)
  then have "d \<noteq> 0" using l(2) by auto
  then have "1 \<le> unat d" using unat_gt_0 [of d] by simp
  then show "16777216 \<le> unat (image_word bo xs :: ulong)" unfolding u ys by simp
qed

lemma get_string_too_long:
  assumes d: "dec_ok d" "quiet d" "4 dvd roffd d" and oct: "octets (dbuf d) = word_image (d_data_bo d) 4 (len :: ulong) @ rest"
    and len: "length rest < unat len"
  shows "\<exists>d'. get_string_raw d = Some (None, d')"
proof -
  have pd: "pad (roffd d) 4 = []" using d(3) by (simp add: pad_def padlen_def dvd_eq_mod_eq_0)
  have "octets (dbuf d) = im_ulong len (d_data_bo d) (roffd d) @ rest"
    using oct pd by (simp add: im_ulong_def word_at_def)
  from takesE [OF takes_ulong d(1,2) this] obtain f where f: "get_ulong d = Some (Some len, f)"
    "consumes d (im_ulong len (d_data_bo d) (roffd d)) f" "octets (dbuf f) = rest" by blast
  have "unat (buf_length (dbuf f)) = length rest"
    using unat_buf_length [OF consumes_fields(9) [OF f(2)]] f(3) by simp
  then have "len > buf_length (dbuf f)" using len by (simp add: word_less_nat_alt)
  then show ?thesis using f(1) by (simp add: get_string_raw_def dbind_def dfail_def)
qed


section \<open>Examples\<close>

definition sample_codec :: "codeset_coder option \<Rightarrow> codec" where
  "sample_codec k = \<lparr>giop_ver = 0x0102, headerlen = 12, size_offset = 8, conv = k, csid = 0x05010001, wcsid = 0x00010109,
     codesets_sent = False\<rparr>"

definition sample_request :: request where
  "sample_request = \<lparr>op_name = [97, 100, 100], svc_context = [\<lparr>context_id = 17, context_data = [1, 2, 3, 4]\<rparr>],
     input_byteorder = Some LittleEndian, output_byteorder = None,
     get_in_args = (\<lambda>e. map_option (Pair True) (put_ulong 7 e)), get_out_args = (\<lambda>e. map_option (Pair True) (put_ulong 8 e))\<rparr>"

definition sample_object :: target_ref where
  "sample_object = \<lparr>ior_fwd = \<lparr>oid = [73, 68, 76, 58], tags = []\<rparr>, active_profile = Some (LocalProfile TAG_LOCAL [104] 1 [9, 9]),
     active_index = 0, addressing_disposition = KeyAddr\<rparr>"


definition sample_forward :: ior where
  "sample_forward = \<lparr>oid = [73, 68, 76, 58, 88], tags = [LocalProfile TAG_LOCAL [104] 1 [9, 9]]\<rparr>"

lemma length_ulong_image: "length (im_ulong w bo p) = padlen p 4 + 4"
  by (simp add: im_ulong_def word_at_def)

lemma padlen_four: "padlen 12 4 = 0" "padlen 16 4 = 0" "padlen 20 4 = 0" "padlen 24 4 = 0" "padlen 28 4 = 0"
  by (simp_all add: padlen_def)

lemma sample_ver: "\<not> giop_ver (sample_codec k) < 0x0102"
  by (simp add: sample_codec_def)

lemma sample_forward_ok: "ior_ok resolve sample_forward" "ior_size sample_forward < 1000"
  by (simp_all add: sample_forward_def ior_ok_def c_octets_def ior_size_def profile_size_def)

theorem reply_roundtrip_witness:
  "\<exists>e d. put_invoke_reply False 5 LOCATION_FORWARD sample_forward (sample_request\<lparr>svc_context := []\<rparr>) 0 (sample_codec None)
       (new_encoder BigEndian (buffer_new 0 0) BigEndian) = Some (True, e) \<and>
     read_message (get_reply (\<lambda>_. None) (\<lambda>_. True) False (\<lambda>_. get_ulong)) (sample_codec None) (new_decoder LittleEndian (ebuf e) DefaultEndian None) =
       Some (Some (Some (Reply, word_of_nat (length (octets (ebuf e)) - 12), 5, LOCATION_FORWARD, [], ReplyForward sample_forward),
         sample_codec None), d) \<and>
     octets (dbuf d) = []"
proof -
  have up: "(sample_codec None)\<lparr>giop_ver := giop_ver (sample_codec None)\<rparr> = sample_codec None" by (simp add: sample_codec_def)
  have b: "reply_body LOCATION_FORWARD sample_forward 0 (\<lambda>_. 8 :: ulong) = ReplyForward sample_forward"
    by (simp add: reply_body_def exceptions_def forwards_def statuses)
  have al: "8 dvd body_offset (sample_codec None) 5 LOCATION_FORWARD [] BigEndian"
    unfolding body_offset_def reply_image_def if_not_P [OF sample_ver]
    by (simp add: im_seq_def length_ulong_image padlen_four ctx_image_def codesets_image_def im_nil_def)
  show ?thesis
    using reply_roundtrip [of BigEndian LittleEndian BigEndian "sample_request\<lparr>svc_context := []\<rparr>" "sample_codec None" "sample_codec None"
      LOCATION_FORWARD False "\<lambda>_. None" sample_forward "put_ulong 8" "im_ulong 8" 8 "\<lambda>_. get_ulong" "\<lambda>_. 8" 5 0 0 0 "\<lambda>_. True"]
      al sample_forward_ok appends_ulong [of 8] takes_ulong [of 8]
    unfolding up b
    by (simp add: relay_order_def sample_request_def real_bo_def ctx_size_def)
      (simp add: sample_codec_def versions_def reply_status_ok_def)
qed


section \<open>Locating and cancelling\<close>

definition locate_body :: "ulong \<Rightarrow> ior \<Rightarrow> ushort \<Rightarrow> locate_body" where
  "locate_body stat obj ad =
     (if stat \<in> {OBJECT_FORWARD, OBJECT_FORWARD_PERM} then LocateForward obj
      else if stat = LOC_NEEDS_ADDRESSING_MODE then LocateAddressing ad else LocateNothing)"

definition locate_image :: "ulong \<Rightarrow> ior \<Rightarrow> ushort \<Rightarrow> image_at" where
  "locate_image stat obj ad =
     (if stat \<in> {OBJECT_FORWARD, OBJECT_FORWARD_PERM} then ior_image obj
      else if stat = LOC_NEEDS_ADDRESSING_MODE then im_ushort ad else im_nil)"

lemma locate_statuses:
  "UNKNOWN_OBJECT = 0" "OBJECT_HERE = 1" "OBJECT_FORWARD = 2" "OBJECT_FORWARD_PERM = 3" "LOC_SYSTEM_EXCEPTION = 4"
  "LOC_NEEDS_ADDRESSING_MODE = 5"
  by (simp_all add: UNKNOWN_OBJECT_def OBJECT_HERE_def OBJECT_FORWARD_def OBJECT_FORWARD_PERM_def LOC_SYSTEM_EXCEPTION_def
      LOC_NEEDS_ADDRESSING_MODE_def)

definition locate_status_ok :: "ulong \<Rightarrow> bool" where
  "locate_status_ok stat \<longleftrightarrow> stat \<in> {UNKNOWN_OBJECT, OBJECT_HERE, OBJECT_FORWARD, OBJECT_FORWARD_PERM, LOC_NEEDS_ADDRESSING_MODE}"

lemma takes_locate_reply:
  assumes st: "locate_status_ok stat" and i: "stat \<in> {OBJECT_FORWARD, OBJECT_FORWARD_PERM} \<Longrightarrow> ior_ok resolve obj"
  shows "takes (get_locate_reply resolve) (req_id, stat, locate_body stat obj ad)
     (im_seq (im_ulong req_id) (im_seq (im_ulong stat) (locate_image stat obj ad)))"
proof -
  let ?m = "if stat \<in> {UNKNOWN_OBJECT, OBJECT_HERE} then dret LocateNothing
            else if stat \<in> {OBJECT_FORWARD, OBJECT_FORWARD_PERM} then dbind (ior_decode resolve) (\<lambda>i. dret (LocateForward i))
            else if stat = LOC_NEEDS_ADDRESSING_MODE then dbind get_short (\<lambda>ad. dret (LocateAddressing ad))
            else dfail"
  consider "stat \<in> {UNKNOWN_OBJECT, OBJECT_HERE}" | "stat \<in> {OBJECT_FORWARD, OBJECT_FORWARD_PERM}" | "stat = LOC_NEEDS_ADDRESSING_MODE"
    using st by (auto simp: locate_status_ok_def)
  then have m: "takes ?m (locate_body stat obj ad) (locate_image stat obj ad)"
  proof cases
    case 1
    then show ?thesis using takes_ret [of LocateNothing] by (auto simp: locate_body_def locate_image_def locate_statuses)
  next
    case 2
    from takes_bind [where k = "\<lambda>i. dret (LocateForward i)", OF ior.get_im [OF i [OF 2]] takes_ret] show ?thesis
      using 2 by (auto simp: locate_body_def locate_image_def locate_statuses)
  next
    case 3
    from takes_bind [where k = "\<lambda>i. dret (LocateAddressing i)", OF takes_short [of ad] takes_ret] show ?thesis
      using 3 by (simp add: locate_body_def locate_image_def locate_statuses)
  qed
  have "takes (get_locate_reply resolve) (req_id, stat, locate_body stat obj ad)
      (im_seq (im_ulong req_id) (im_seq (im_ulong stat) (im_seq (locate_image stat obj ad) im_nil)))"
    unfolding get_locate_reply_def
    by (rule takes_bind, rule takes_ulong, rule takes_bind, rule takes_enumeration, rule takes_bind, rule m, rule takes_ret)
  then show ?thesis by simp
qed

text \<open>Any message whose writer and reader of the body agree.\<close>

lemma plain_message:
  assumes m: "real_bo m1" "real_bo m2" "real_bo bo"
    and c: "headerlen c1 = 12" "giop_ver c1 \<in> versions" "giop_ver c1 \<le> giop_ver c2"
    and body: "appends body im n" and size: "n < 4294967200"
    and k: "takes (k (c2\<lparr>giop_ver := giop_ver c1\<rparr>)) (Some v, c3) im"
    and put: "\<And>e. pt e = do { (key, e) \<leftarrow> put_header c1 mt e; e \<leftarrow> body e; put_size c1 key e }"
  shows "\<exists>e d. pt (new_encoder m1 (buffer_new f z) bo) = Some e \<and>
     read_message k c2 (new_decoder m2 (ebuf e) DefaultEndian None) =
       Some (Some (Some (mt, word_of_nat (length (octets (ebuf e)) - 12), v), c3), d) \<and> octets (dbuf d) = []"
proof -
  from message_travels [OF m c body size, of mt f z] obtain key e1 e2 e3 d where x:
    "put_header c1 mt (new_encoder m1 (buffer_new f z) bo) = Some (key, e1)" "body e1 = Some e2" "put_size c1 key e2 = Some e3"
    "get_header c2 (new_decoder m2 (ebuf e3) DefaultEndian None) =
       Some (Some (Some (mt, word_of_nat (length (octets (ebuf e3)) - 12), bo_flag bo), c2\<lparr>giop_ver := giop_ver c1\<rparr>), d)"
    "dec_ok d" "quiet d" "d_data_bo d = bo" "roffd d = 12" "octets (dbuf d) = im bo 12" by blast
  have "octets (dbuf d) = im (d_data_bo d) (roffd d) @ []" using x(7-9) by simp
  from message_read [where k = k, OF x(4-6) k this] show ?thesis using x(1-3) by (auto simp: put)
qed

text \<open>Cancelling, locating and closing messages are read as they were written, nothing left over: a cancelled request id, a request to
  locate a target, the answer with its status and what the status brings with it, and the two messages without a body.\<close>

theorem control_roundtrip:
  assumes m: "real_bo m1" "real_bo m2" "real_bo bo"
    and c: "headerlen c1 = 12" "giop_ver c1 \<in> versions" "giop_ver c1 \<le> giop_ver c2"
    and t: "read_target c1 obj = Some t" "target_ok resolve t" "target_size t < 4294967000"
    and st: "locate_status_ok stat" and i: "ior_ok resolve fwd" "ior_size fwd < 4294967000"
  shows "(\<exists>e d. put_cancel_request req_id c1 (new_encoder m1 (buffer_new f z) bo) = Some e \<and>
       read_message (clift get_cancel_request) c2 (new_decoder m2 (ebuf e) DefaultEndian None) =
         Some (Some (Some (CancelRequest, word_of_nat (length (octets (ebuf e)) - 12), req_id), c2\<lparr>giop_ver := giop_ver c1\<rparr>), d) \<and> octets (dbuf d) = [])
    \<and> (\<exists>e d. put_locate_request req_id obj c1 (new_encoder m1 (buffer_new f z) bo) = Some e \<and>
       read_message (get_locate_request resolve) c2 (new_decoder m2 (ebuf e) DefaultEndian None) =
         Some (Some (Some (LocateRequest, word_of_nat (length (octets (ebuf e)) - 12), req_id, t), c2\<lparr>giop_ver := giop_ver c1\<rparr>), d) \<and> octets (dbuf d) = [])
    \<and> (\<exists>e d. put_locate_reply req_id stat fwd ad c1 (new_encoder m1 (buffer_new f z) bo) = Some e \<and>
       read_message (clift (get_locate_reply resolve)) c2 (new_decoder m2 (ebuf e) DefaultEndian None) =
         Some (Some (Some (LocateReply, word_of_nat (length (octets (ebuf e)) - 12), req_id, stat, locate_body stat fwd ad),
           c2\<lparr>giop_ver := giop_ver c1\<rparr>), d) \<and> octets (dbuf d) = [])
    \<and> (\<exists>e d. put_close_msg c1 (new_encoder m1 (buffer_new f z) bo) = Some e \<and>
       read_message (cret ()) c2 (new_decoder m2 (ebuf e) DefaultEndian None) =
         Some (Some (Some (CloseConnection, word_of_nat (length (octets (ebuf e)) - 12), ()), c2\<lparr>giop_ver := giop_ver c1\<rparr>), d) \<and> octets (dbuf d) = [])
    \<and> (\<exists>e d. put_error_msg c1 (new_encoder m1 (buffer_new f z) bo) = Some e \<and>
       read_message (cret ()) c2 (new_decoder m2 (ebuf e) DefaultEndian None) =
         Some (Some (Some (MessageError, word_of_nat (length (octets (ebuf e)) - 12), ()), c2\<lparr>giop_ver := giop_ver c1\<rparr>), d) \<and> octets (dbuf d) = [])"
    (is "?cancel \<and> ?lreq \<and> ?lrep \<and> ?close \<and> ?err")
proof (intro conjI)
  let ?c2 = "c2\<lparr>giop_ver := giop_ver c1\<rparr>"
  have t8: "8 < (4294967200 :: nat)" "0 < (4294967200 :: nat)" by simp_all
  show ?cancel
    by (rule plain_message [OF m c appends_ulong [of req_id] t8(1)])
      (simp_all add: put_cancel_request_def get_cancel_request_def takes_clift takes_ulong)
  show ?close
    by (rule plain_message [OF m c appends_done t8(2)]) (simp_all add: put_close_msg_def takes_cret)
  show ?err
    by (rule plain_message [OF m c appends_done t8(2)]) (simp_all add: put_error_msg_def takes_cret)
  have s: "8 + target_size t < 4294967200" using t(3) by simp
  have ver: "giop_ver ?c2 = giop_ver c1" by simp
  have "takes (get_locate_request resolve ?c2) (Some (req_id, t), ?c2) (im_seq (im_ulong req_id) (im_seq (target_image c1 obj t) im_nil))"
    unfolding get_locate_request_def
    by (rule takes_cbind, rule takes_clift, rule takes_ulong, rule takes_cbind, rule takes_target [OF t(1,2) ver], rule takes_cret)
  then have k: "takes (get_locate_request resolve ?c2) (Some (req_id, t), ?c2) (im_seq (im_ulong req_id) (target_image c1 obj t))" by simp
  show ?lreq
    by (rule plain_message [where k = "get_locate_request resolve", OF m c appends_bind [OF appends_ulong [of req_id] appends_target [OF t(1,2)]] s k])
      (simp add: put_locate_request_def)
  let ?w = "\<lambda>e. if stat \<in> {OBJECT_FORWARD, OBJECT_FORWARD_PERM} then ior_encode fwd e
         else if stat = LOC_NEEDS_ADDRESSING_MODE then put_short ad e else Some e"
  have w: "appends ?w (locate_image stat fwd ad) (4 + ior_size fwd)"
  proof -
    consider "stat \<in> {OBJECT_FORWARD, OBJECT_FORWARD_PERM}" | "stat \<notin> {OBJECT_FORWARD, OBJECT_FORWARD_PERM}" "stat = LOC_NEEDS_ADDRESSING_MODE"
      | "stat \<notin> {OBJECT_FORWARD, OBJECT_FORWARD_PERM}" "stat \<noteq> LOC_NEEDS_ADDRESSING_MODE" by blast
    then show ?thesis
    proof cases
      case 1
      then have "appends ?w (locate_image stat fwd ad) (ior_size fwd)" using ior.put_im [OF i(1)] by (simp only: if_True locate_image_def)
      then show ?thesis by (rule appends_mono) simp
    next
      case 2
      then have "appends ?w (locate_image stat fwd ad) 4"
        unfolding locate_image_def if_not_P [OF 2(1)] if_P [OF 2(2)] by (intro appends_short)
      then show ?thesis by (rule appends_mono) simp
    next
      case 3
      then have "appends ?w (locate_image stat fwd ad) 0"
        unfolding locate_image_def if_not_P [OF 3(1)] if_not_P [OF 3(2)] by (intro appends_done)
      then show ?thesis by (rule appends_mono) simp
    qed
  qed
  have s': "8 + (8 + (4 + ior_size fwd)) < 4294967200" using i(2) by simp
  note kr = takes_clift [OF takes_locate_reply [OF st, of resolve fwd req_id ad], of ?c2]
  show ?lrep
    by (rule plain_message [where k = "clift (get_locate_reply resolve)",
        OF m c appends_bind [OF appends_ulong [of req_id] appends_bind [OF appends_enumeration [of stat] w]] s' kr])
      (simp_all add: put_locate_reply_def i(1))
qed

theorem control_roundtrip_witness:
  "\<exists>e d. put_locate_reply 5 OBJECT_FORWARD sample_forward 0 (sample_codec None) (new_encoder BigEndian (buffer_new 0 0) BigEndian) = Some e \<and>
       read_message (clift (get_locate_reply (\<lambda>_. None))) (sample_codec None) (new_decoder LittleEndian (ebuf e) DefaultEndian None) =
         Some (Some (Some (LocateReply, word_of_nat (length (octets (ebuf e)) - 12), 5, OBJECT_FORWARD, LocateForward sample_forward),
           sample_codec None), d) \<and> octets (dbuf d) = []"
proof -
  have up: "(sample_codec None)\<lparr>giop_ver := giop_ver (sample_codec None)\<rparr> = sample_codec None" by (simp add: sample_codec_def)
  have b: "locate_body OBJECT_FORWARD sample_forward 0 = LocateForward sample_forward" by (simp add: locate_body_def)
  have v: "headerlen (sample_codec None) = 12" "giop_ver (sample_codec None) \<in> versions" by (simp_all add: sample_codec_def versions_def)
  have t: "read_target (sample_codec None) sample_object = Some (TargetKey [9, 9])" by (simp add: sample_object_def)
  have st: "locate_status_ok OBJECT_FORWARD" by (simp add: locate_status_ok_def)
  have s: "target_size (TargetKey [9, 9]) < 4294967000" "target_ok (\<lambda>_. None) (TargetKey [9, 9])" "ior_size sample_forward < 4294967000"
    using sample_forward_ok(2) by simp_all
  have r: "real_bo BigEndian" "real_bo LittleEndian" by (simp_all add: real_bo_def)
  from control_roundtrip [OF r(1) r(2) r(1) v order_refl t s(2,1) st sample_forward_ok(1) s(3), of 5 0 0 0] show ?thesis
    unfolding up b by blast
qed

section \<open>Replies kept by a request\<close>

lemma reply_image_length: "length (reply_image c i s ctx bo p) = length (reply_image c j t ctx bo p)"
  by (simp add: reply_image_def im_seq_def im_ulong_def word_at_def)

text \<open>The results of a relayed request are stored at the offset they will have in the reply:
  \<open>put_invoke_reply_offset\<close> ends where the head that \<open>put_invoke_reply\<close> writes ends, so that the alignment of what is
  copied from one to the other is right.\<close>

theorem reply_offset_agrees:
  assumes m: "real_bo m1" "real_bo m2" "real_bo bo1" "real_bo bo2" and c: "headerlen c = 12" "giop_ver c < 0x0102"
    and ctx: "list_all (context_ok disabled) (svc_context req)" and size: "ctx_size (svc_context req) < 4294967000"
  shows "\<exists>e1 e2. put_invoke_reply_offset disabled req c (new_encoder m1 (buffer_new f1 z1) bo1) = Some e1 \<and>
     (do { (key, e) \<leftarrow> put_header c Reply (new_encoder m2 (buffer_new f2 z2) bo2);
           reply_head disabled req_id stat (svc_context req) c e }) = Some e2 \<and>
     wptr (ebuf e1) = wptr (ebuf e2)"
proof -
  let ?e = "new_encoder m1 (buffer_new f1 z1) bo1" and ?h = "new_encoder m2 (buffer_new f2 z2) bo2"
  note e = new_encoder_start [OF m(1,3), of f1 z1] and h = new_encoder_start [OF m(2,4), of f2 z2]
  define b where "b = (ebuf ?e)\<lparr>wptr := 12\<rparr>"
  define g where "g = ?e\<lparr>ebuf := b\<rparr>"
  have ge: "12 \<le> blen (buffer_new f1 z1)" by (simp add: buffer_new_def Let_def MINSIZE_def word_le_nat_alt word_less_nat_alt)
  have seek: "on_ebuf (wseek_rel 12) ?e = Some g"
    using ge by (simp add: on_ebuf_def wseek_rel_def g_def b_def new_encoder_def buffer_new_def Let_def)
  have gok: "enc_ok g" "woffe g = 12" "e_data_bo g = bo1"
    using e(1,4) ge m by (auto simp: g_def b_def enc_ok_def new_encoder_def buffer_new_def buf_wf_def woff_def Let_def)
  have ver: "reply_head disabled 0 0 (svc_context req) c = (\<lambda>e. Option.bind (put_contextlist disabled c (svc_context req) False e)
      (\<lambda>e. Option.bind (put_ulong 0 e) (enc_enumeration 0)))" using c(2) by (simp add: reply_head_def fun_eq_iff)
  have room: "has_room (ctx_size (svc_context req) + 16) g" using size by (simp add: has_room_def g_def b_def)
  obtain e1 where e1: "reply_head disabled 0 0 (svc_context req) c g = Some e1"
    "emits g (reply_image c 0 0 (svc_context req) bo1 12) e1"
    using appends_run [OF appends_reply_head [OF ctx] gok(1) room, of disabled 0 0 c] gok(2,3) by auto
  have run1: "put_invoke_reply_offset disabled req c ?e = Some e1"
    using e1(1) by (simp add: put_invoke_reply_offset_def c(1) seek ver)
  have "has_room 20 ?h" by (simp add: new_encoder_room)
  then obtain k e2 where k: "put_header c Reply ?h = Some (wptr (ebuf k), e2)"
    "emits ?h (header_octets c Reply bo2) k" "emits k (word_image bo2 4 (0 :: ulong)) e2"
    using put_header_emits [OF h(1,2), of c Reply] h(4) by auto
  have em: "emits ?h (header_octets c Reply bo2 @ word_image bo2 4 (0 :: ulong)) e2" by (rule emits_trans [OF k(2,3)])
  have e2: "enc_ok e2" "woffe e2 = 12" "e_data_bo e2 = bo2" "unat (wptr (ebuf e2)) = 12"
    using emits_ok [OF em h(1)] woffe_emits [OF em h(1)] emits_fields(1,5) [OF em] h(2,4)
    by (simp_all add: new_encoder_def buffer_new_def Let_def)
  have "has_room (ctx_size (svc_context req) + 16) e2" using size e2(4) by (simp add: has_room_def)
  then obtain e3 where e3: "reply_head disabled req_id stat (svc_context req) c e2 = Some e3"
    "emits e2 (reply_image c req_id stat (svc_context req) bo2 12) e3"
    using appends_run [OF appends_reply_head [OF ctx] e2(1), of disabled req_id stat c] e2(2,3) by auto
  have len: "length (reply_image c 0 0 (svc_context req) bo1 12) = length (reply_image c req_id stat (svc_context req) bo2 12)"
  proof -
    have xs: "length (im_list context_image xs bo1 p) = length (im_list context_image xs bo2 p)" for xs p
      by (induction xs arbitrary: p) (simp_all add: im_nil_def im_seq_def context_image_def im_blob_def im_ulong_def im_octets_def word_at_def)
    show ?thesis using c(2) xs by (simp add: reply_image_def im_seq_def im_ulong_def word_at_def ctx_image_def codesets_image_def im_nil_def)
  qed
  have "unat (wptr (ebuf e1)) = unat (wptr (ebuf e3))"
    using emits_fields(5) [OF e1(2)] emits_fields(5) [OF e3(2)] e2(4) len by (simp add: g_def b_def)
  then show ?thesis using run1 k(1) e3(1) by (simp add: word_unat_eq_iff)
qed

theorem reply_offset_agrees_witness:
  "\<exists>e1 e2. put_invoke_reply_offset False sample_request ((sample_codec None)\<lparr>giop_ver := 0x0100\<rparr>) (new_encoder BigEndian (buffer_new 0 0) BigEndian) = Some e1 \<and>
     (do { (key, e) \<leftarrow> put_header ((sample_codec None)\<lparr>giop_ver := 0x0100\<rparr>) Reply (new_encoder LittleEndian (buffer_new 0 0) LittleEndian);
           reply_head False 5 0 (svc_context sample_request) ((sample_codec None)\<lparr>giop_ver := 0x0100\<rparr>) e }) = Some e2 \<and>
     wptr (ebuf e1) = wptr (ebuf e2)"
  by (rule reply_offset_agrees)
    (simp_all add: real_bo_def sample_codec_def sample_request_def context_ok_def CodeSets_def ctx_size_def)

text \<open>The constructor measures the header the other lemmas assume.\<close>

lemma new_codec_measures:
  assumes "real_bo m"
  shows "\<exists>c. new_codec m f u v ver = Some c \<and> headerlen c = 12 \<and> size_offset c = 8 \<and> conv c = None \<and>
     giop_ver c = (if ver > 0x0102 then 0x0102 else ver)"
proof -
  let ?c = "\<lparr>giop_ver = (if ver > 0x0102 then 0x0102 else ver), headerlen = 0, size_offset = 0,
       conv = None, csid = u, wcsid = v, codesets_sent = False\<rparr>"
  let ?h = "new_encoder m (buffer_new f 0) m"
  have d: "new_encoder m (buffer_new f 0) DefaultEndian = ?h" by (simp add: new_encoder_def)
  note h = new_encoder_start [OF assms assms, of f 0]
  have "has_room 20 ?h" by (simp add: new_encoder_room)
  then obtain k e2 where k: "put_header ?c Request ?h = Some (wptr (ebuf k), e2)"
    "emits ?h (header_octets ?c Request m) k" "emits k (word_image m 4 (0 :: ulong)) e2"
    using put_header_emits [OF h(1,2), of ?c Request] h(4) by auto
  have "unat (wptr (ebuf k)) = 8" using emits_fields(5) [OF k(2)] by (simp add: new_encoder_def buffer_new_def Let_def)
  then have w: "wptr (ebuf k) = 8" by (simp add: word_unat_eq_iff)
  have em: "emits ?h (header_octets ?c Request m @ word_image m 4 (0 :: ulong)) e2" by (rule emits_trans [OF k(2,3)])
  have "unat (buf_length (ebuf e2)) = 12"
    using unat_buf_length [OF emits_fields(9) [OF em]] emits_fields(4) [OF em] h(3) by simp
  then have "buf_length (ebuf e2) = 12" by (simp add: word_unat_eq_iff)
  then show ?thesis using k(1) w by (simp add: new_codec_def d)
qed

end
