(* ===== verification/GIOP_Stream.thy ===== *)
theory GIOP_Stream
  imports GIOP_Conn GIOP_Messages
begin

text \<open>
  What the reading side of a connection makes of a stream of octets. First any twelve octets as a
  header: \<open>parse_header\<close> is the function \<open>check_header\<close> computes, on every input. Then the two
  results the connection owes its owner: it does not matter in which pieces the octets arrive, and
  the messages come out as the stream spells them.
\<close>

section \<open>Any twelve octets as a header\<close>

definition header_version :: "ushort \<Rightarrow> octet list \<Rightarrow> ushort option" where
  "header_version ver h =
     (let v = join_version (h ! 4) (h ! 5) in
      if v < ver \<and> h ! 4 = 1 then Some v else if v > ver then None else Some ver)"

definition header_flags :: "ushort \<Rightarrow> octet list \<Rightarrow> octet" where
  "header_flags w h = (if w = 0x0100 then if h ! 6 \<noteq> 0 then 1 else 0 else h ! 6)"

definition header_order :: "ushort \<Rightarrow> octet list \<Rightarrow> byteorder" where
  "header_order w h =
     (if (if w = 0x0100 then h ! 6 \<noteq> 0 else and (h ! 6) GIOP_BYTEORDER_BIT \<noteq> 0)
      then LittleEndian else BigEndian)"

definition parse_header :: "ushort \<Rightarrow> octet list \<Rightarrow> (octet \<times> ulong \<times> octet \<times> ushort) option" where
  "parse_header ver h =
     (if take 4 h \<noteq> giop_magic then None
      else map_option (\<lambda>w. (h ! 7, image_word (header_order w h) (drop 8 h), header_flags w h, w))
        (header_version ver h))"

definition header_result :: "codec \<Rightarrow> octet list \<Rightarrow> (octet \<times> ulong \<times> octet) option \<times> codec" where
  "header_result c h =
     (case parse_header (giop_ver c) h of
       None \<Rightarrow> (None, c)
     | Some (mt, sz, fl, w) \<Rightarrow> (Some (mt, sz, fl), c\<lparr>giop_ver := w\<rparr>))"

lemma word_image_of:
  assumes "length xs = 4"
  shows "word_image bo 4 (image_word bo xs :: ulong) = xs"
proof -
  let ?ys = "if bo = LittleEndian then xs else rev xs"
  have l: "length ?ys = 4" using assms by auto
  have lt: "octets_nat ?ys < 4294967296" using octets_nat_bound [of ?ys] l by simp
  then have u: "unat (image_word bo xs :: ulong) = octets_nat ?ys"
    by (simp add: image_word_def image_nat_def nowrap)
  have "nat_octets 4 (octets_nat ?ys) = ?ys" using nat_octets_nat [of ?ys] l by simp
  then show ?thesis
    unfolding word_image_def image_def u by (cases "bo = LittleEndian") simp_all
qed

lemma check_version_eq:
  "check_version (h ! 4) (h ! 5) c =
     (case header_version (giop_ver c) h of None \<Rightarrow> cfail c | Some w \<Rightarrow> cret () (c\<lparr>giop_ver := w\<rparr>))"
proof -
  have same: "c\<lparr>giop_ver := giop_ver c\<rparr> = c" by (cases c) simp
  define v where "v = join_version (h ! 4) (h ! 5)"
  show ?thesis
    unfolding check_version_def header_version_def v_def [symmetric] Let_def
    by (cases "v < giop_ver c \<and> h ! 4 = 1"; cases "v > giop_ver c") (simp_all only: if_True if_False option.case same simp_thms)
qed

lemma get_flags_eq:
  assumes "get_octet d = Some (Some (h ! 6), d')"
  shows "get_flags c d = Some (Some (Some (header_flags (giop_ver c) h), c),
     dec_set_byteorder (header_order (giop_ver c) h) d')"
  using assms
  by (simp add: get_flags_def cif_def clift_def dbind_def dret_def get_boolean_def get_octet_def
      header_flags_def header_order_def split: Option.bind_splits)

lemma get_size_reads:
  assumes "dec_ok d" and "quiet d" and "roffd d = 8" and "octets (dbuf d) = xs" and "length xs = 4"
  shows "\<exists>d'. get_ulong d = Some (Some (image_word (d_data_bo d) xs), d') \<and> consumes d xs d'"
proof -
  let ?w = "image_word (d_data_bo d) xs :: ulong"
  have "im_ulong ?w (d_data_bo d) (roffd d) = xs"
    using assms(3) word_image_of [OF assms(5)] by (simp add: im_ulong_def word_at_def pad_def padlen_def)
  then show ?thesis using takes_ulong [of ?w] assms unfolding takes_def by (metis append_Nil2)
qed

lemma get_header_parse:
  assumes d: "dec_ok d" "quiet d" "roffd d = 0" and oct: "octets (dbuf d) = h" and len: "length h = 12"
  shows "\<exists>d'. get_header c d = Some (Some (header_result c h), d') \<and> (\<exists>r. dbuf d' = (dbuf d)\<lparr>rptr := r\<rparr>) \<and>
     d_mach_bo d' = d_mach_bo d \<and> d_vstate d' = d_vstate d \<and> real_bo (d_data_bo d')"
proof -
  obtain m ma mi fl mt xs where h: "h = m @ [ma, mi, fl, mt] @ xs" "length m = 4" "length xs = 4"
  proof -
    have "h = take 4 h @ [h ! 4, h ! 5, h ! 6, h ! 7] @ drop 8 h"
      using len by (auto simp: numeral_eq_Suc length_Suc_conv)
    then show ?thesis using that [of "take 4 h" "h ! 4" "h ! 5" "h ! 6" "h ! 7" "drop 8 h"] len by simp
  qed
  have sel: "h ! 4 = ma" "h ! 5 = mi" "h ! 6 = fl" "h ! 7 = mt" "take 4 h = m" "drop 8 h = xs"
    using h by (simp_all add: nth_append)
  have "takes (get_chars_raw 4) m (im_octets m)"
    using takes_octets [of m] h(2) by (simp add: get_chars_raw_def get_octets_def)
  moreover have "octets (dbuf d) = im_octets m (d_data_bo d) (roffd d) @ [ma, mi, fl, mt] @ xs"
    using oct h by (simp add: im_octets_def)
  ultimately obtain d1 where d1: "get_chars_raw 4 d = Some (Some m, d1)" "consumes d m d1"
    using d unfolding takes_def im_octets_def by blast
  have c1: "dec_ok d1" "quiet d1" "octets (dbuf d1) = [ma, mi, fl, mt] @ xs" "roffd d1 = 4"
    using consumes_ok [OF d1(2) d(1)] quiet_consumes [OF d1(2) d(2)] consumes_fields(5) [OF d1(2)]
      roffd_consumes [OF d1(2) d(1)] oct h d(3) by simp_all
  obtain d2 where d2: "get_octet d1 = Some (Some ma, d2)" "consumes d1 [ma] d2"
    using octet_laws(2) [OF c1(1)] c1(3) by auto
  obtain d3 where d3: "get_octet d2 = Some (Some mi, d3)" "consumes d2 [mi] d3"
    using octet_laws(2) [of d2 mi "[fl, mt] @ xs"] consumes_ok [OF d2(2) c1(1)] consumes_fields(5) [OF d2(2)] c1(3)
    by auto
  have c13: "consumes d1 [ma, mi] d3" using consumes_trans [OF d2(2) d3(2)] by simp
  have c3: "dec_ok d3" "quiet d3" "octets (dbuf d3) = [fl, mt] @ xs" "roffd d3 = 6" "consumes d (m @ [ma, mi]) d3"
    using consumes_ok [OF c13 c1(1)] quiet_consumes [OF c13 c1(2)] consumes_fields(5) [OF c13] c1(3,4)
      roffd_consumes [OF c13 c1(1)] consumes_trans [OF d1(2) c13] by simp_all
  have kept: "(\<exists>r. dbuf e = (dbuf d)\<lparr>rptr := r\<rparr>) \<and> d_mach_bo e = d_mach_bo d \<and> d_vstate e = d_vstate d \<and>
      real_bo (d_data_bo e)" if "consumes d ys e" for ys e
    using that consumes_ok [OF that d(1)] by (auto simp: consumes_def reads_def dec_ok_def)
  show ?thesis
  proof (cases "m = giop_magic")
    case False
    then have "get_header c d = Some (Some (header_result c h), d1)"
      using d1(1) sel by (simp add: get_header_def cbind_def clift_def dbind_def dret_def cfail_def
          header_result_def parse_header_def)
    then show ?thesis using kept [OF d1(2)] by blast
  next
    case m: True
    show ?thesis
    proof (cases "header_version (giop_ver c) h")
      case None
      then have "check_version ma mi c = cfail c" using check_version_eq [of h c] sel by simp
      then have "get_header c d = Some (Some (header_result c h), d3)"
        using d1(1) d2(1) d3(1) m None sel by (simp add: get_header_def cbind_def clift_def dbind_def dret_def
            cfail_def header_result_def parse_header_def)
      then show ?thesis using kept [OF c3(5)] by blast
    next
      case (Some w)
      let ?c = "c\<lparr>giop_ver := w\<rparr>" and ?bo = "header_order w h"
      have cv: "check_version ma mi c = cret () ?c" using check_version_eq [of h c] sel Some by simp
      obtain d4 where d4: "get_octet d3 = Some (Some fl, d4)" "consumes d3 [fl] d4"
        using octet_laws(2) [OF c3(1)] c3(3) by auto
      let ?d4 = "dec_set_byteorder ?bo d4"
      have gf: "get_flags ?c d3 = Some (Some (Some (header_flags w h), ?c), ?d4)"
        using get_flags_eq [of d3 h d4 ?c] d4(1) sel(3) by simp
      have rbo: "real_bo ?bo" by (simp add: header_order_def real_bo_def)
      have c4: "dec_ok ?d4" "quiet ?d4" "octets (dbuf ?d4) = mt # xs" "roffd ?d4 = 7" "d_data_bo ?d4 = ?bo"
        using consumes_ok [OF d4(2) c3(1)] quiet_consumes [OF d4(2) c3(2)] consumes_fields(5) [OF d4(2)] c3(3,4)
          roffd_consumes [OF d4(2) c3(1)] rbo
        by (simp_all add: dec_ok_def dec_set_byteorder_def quiet_def dec_cur_def)
      obtain d5 where d5: "get_octet ?d4 = Some (Some mt, d5)" "consumes ?d4 [mt] d5"
        using octet_laws(2) [OF c4(1,3)] by auto
      have c5: "dec_ok d5" "quiet d5" "octets (dbuf d5) = xs" "roffd d5 = 8" "d_data_bo d5 = ?bo"
        using consumes_ok [OF d5(2) c4(1)] quiet_consumes [OF d5(2) c4(2)] consumes_fields(1,5) [OF d5(2)] c4(3-5)
          roffd_consumes [OF d5(2) c4(1)] by simp_all
      obtain d6 where d6: "get_ulong d5 = Some (Some (image_word ?bo xs), d6)" "consumes d5 xs d6"
        using get_size_reads [OF c5(1,2,4,3) h(3)] c5(5) by auto
      have "get_header c d = Some (Some (header_result c h), d6)"
        using d1(1) d2(1) d3(1) m Some sel cv gf d5(1) d6(1)
        by (simp add: get_header_def cbind_def clift_def dbind_def dret_def cret_def header_result_def parse_header_def)
      moreover have c46: "consumes ?d4 (mt # xs) d6" using consumes_trans [OF d5(2) d6(2)] by simp
      have "(\<exists>r. dbuf d6 = (dbuf d)\<lparr>rptr := r\<rparr>) \<and> d_mach_bo d6 = d_mach_bo d \<and> d_vstate d6 = d_vstate d \<and>
          real_bo (d_data_bo d6)"
        using consumes_trans [OF c3(5) d4(2)] c46 rbo
        by (auto simp: consumes_def reads_def dec_set_byteorder_def)
      ultimately show ?thesis by blast
    qed
  qed
qed

section \<open>A connection between two messages and inside one\<close>

definition ctx_ok :: "decoder \<Rightarrow> bool" where
  "ctx_ok d \<longleftrightarrow> real_bo (d_mach_bo d) \<and> real_bo (d_data_bo d) \<and> quiet d"

definition in_ok :: "buffer \<Rightarrow> bool" where
  "in_ok b \<longleftrightarrow> buf_wf b \<and> rptr b = 0 \<and> ralignbase b = 0"

definition settled :: "conn \<Rightarrow> bool" where
  "settled c \<longleftrightarrow> ctx_ok (inctx c) \<and> headerlen (gcodec c) = 12 \<and> in_ok (inbuf c) \<and> inbufs c = None \<and>
     reading c \<and> (\<forall>b. infrag c = Some b \<longrightarrow> in_ok b \<and> 12 \<le> length (octets b))"

definition awaiting :: "conn \<Rightarrow> bool" where
  "awaiting c \<longleftrightarrow> settled c \<and> inlen c \<noteq> 0 \<and>
     (length (octets (inbuf c)) + unat (inlen c) = 12 \<or> 12 \<le> length (octets (inbuf c)))"

lemma in_ok_octets: "in_ok b \<Longrightarrow> octets b = take (unat (wptr b)) (mem b)"
  "in_ok b \<Longrightarrow> length (octets b) = unat (wptr b)"
  by (simp_all add: in_ok_def octets_def buf_wfD)

lemma in_ok_length: "in_ok b \<Longrightarrow> unat (buf_length b) = length (octets b)"
  by (simp add: in_ok_def unat_buf_length)

lemma in_ok_length_word: "in_ok b \<Longrightarrow> buf_length b = word_of_nat (length (octets b))"
  by (simp flip: in_ok_length)

lemma in_ok_reset: "buf_wf b \<Longrightarrow> in_ok (buf_reset MINSIZE b) \<and> octets (buf_reset MINSIZE b) = []"
  using reset_keeps [of b MINSIZE] by (auto simp: in_ok_def buf_reset_def Let_def octets_def buf_wf_def)

lemma in_ok_next: "in_ok (next_buffer c)" "octets (next_buffer c) = []"
  using buffer_new_wf [of "fresh (inbuf c)" 0] by (simp_all add: next_buffer_def in_ok_def buffer_new_def Let_def)

lemma check_header_parse:
  assumes d: "ctx_ok d" and b: "in_ok b" "length (octets b) = 12"
  shows "\<exists>d'. check_header c (d\<lparr>dbuf := b\<rparr>) = Some (Some (header_result c (octets b)), d') \<and>
     dbuf d' = b \<and> ctx_ok d' \<and> d_mach_bo d' = d_mach_bo d"
proof -
  have ok: "dec_ok (d\<lparr>dbuf := b\<rparr>)" "quiet (d\<lparr>dbuf := b\<rparr>)" "roffd (d\<lparr>dbuf := b\<rparr>) = 0"
    using d b by (simp_all add: ctx_ok_def dec_ok_def in_ok_def quiet_def dec_cur_def roff_def)
  obtain d' where d': "get_header c (d\<lparr>dbuf := b\<rparr>) = Some (Some (header_result c (octets b)), d')"
    "\<exists>r. dbuf d' = b\<lparr>rptr := r\<rparr>" "d_mach_bo d' = d_mach_bo d" "d_vstate d' = d_vstate d" "real_bo (d_data_bo d')"
    using get_header_parse [OF ok _ b(2), of c] by auto
  have "snd (rseek_beg 0 (dbuf d')) = b" using d'(2) b(1) by (auto simp: rseek_beg_def in_ok_def)
  then show ?thesis
    using d' d b(1) by (auto simp: check_header_def in_ok_def ctx_ok_def quiet_def dec_cur_def)
qed

text \<open>The type of the message and the request identifier, at their places.\<close>

lemma peek_type:
  assumes b: "in_ok b" "12 \<le> length (octets b)"
  shows "\<exists>b'. get1 (snd (rseek_beg 7 b)) = Some (Some [octets b ! 7], b') \<and> snd (rseek_beg 0 b') = b"
proof -
  note o = in_ok_octets [OF b(1)]
  have w: "12 \<le> unat (wptr b)" using b(2) o(2) by simp
  let ?c = "b\<lparr>rptr := 7\<rparr>"
  have c: "buf_wf ?c" "snd (rseek_beg 7 b) = ?c"
    using b(1) w by (auto simp: in_ok_def buf_wf_def rseek_beg_def word_le_nat_alt word_less_nat_alt)
  have oc: "octets ?c = drop 7 (octets b)" using o(1) by (simp add: octets_def)
  have one: "unat (1 :: ulong) \<le> length (octets ?c)" using oc b(2) by simp
  obtain b' where b': "get1 ?c = Some (Some (take 1 (octets ?c)), b')" "reads ?c (take 1 (octets ?c)) b'"
    using get_reads [OF c(1) one] get1_eq [OF c(1)] by auto
  have "take 1 (octets ?c) = [octets b ! 7]" using oc b(2) by (simp add: take_Suc_conv_app_nth hd_drop_conv_nth take_Suc)
  moreover have "snd (rseek_beg 0 b') = b" using b'(2) b(1) by (auto simp: reads_def rseek_beg_def in_ok_def)
  ultimately show ?thesis using b'(1) c(2) by auto
qed

definition id_of :: "byteorder \<Rightarrow> octet list \<Rightarrow> ulong" where
  "id_of m h = image_word m (take 4 (drop 12 h))"

lemma fragment_id_reads:
  assumes b: "in_ok (inbuf c)" "16 \<le> length (octets (inbuf c))"
  shows "fragment_id c = Some (id_of (d_mach_bo (inctx c)) (octets (inbuf c)), c\<lparr>inbuf := (inbuf c)\<lparr>rptr := 16\<rparr>\<rparr>)"
    "buf_wf ((inbuf c)\<lparr>rptr := 16\<rparr>)" "octets ((inbuf c)\<lparr>rptr := 16\<rparr>) = drop 16 (octets (inbuf c))"
proof -
  note o = in_ok_octets [OF b(1)]
  have w: "16 \<le> unat (wptr (inbuf c))" using b(2) o(2) by simp
  show "buf_wf ((inbuf c)\<lparr>rptr := 16\<rparr>)" "octets ((inbuf c)\<lparr>rptr := 16\<rparr>) = drop 16 (octets (inbuf c))"
    using b(1) w o(1) by (simp_all add: in_ok_def buf_wf_def word_le_nat_alt octets_def)
  let ?c = "(inbuf c)\<lparr>rptr := 12\<rparr>"
  have c: "buf_wf ?c" "snd (rseek_beg 12 (inbuf c)) = ?c"
    using b(1) w by (auto simp: in_ok_def buf_wf_def rseek_beg_def word_le_nat_alt word_less_nat_alt)
  have oc: "octets ?c = drop 12 (octets (inbuf c))" using o(1) by (simp add: octets_def)
  have four: "unat (4 :: ulong) \<le> length (octets ?c)" using oc b(2) by simp
  obtain b' where b': "get4 ?c = Some (Some (take 4 (octets ?c)), b')" "reads ?c (take 4 (octets ?c)) b'"
    using get_reads [OF c(1) four] get_fixed_eq(2) [OF c(1)] by auto
  have "unat (rptr b') = 12 + 4" using b'(2) oc b(2) by (simp add: reads_def)
  then have "rptr b' = 16" using word_unat_eq_iff [of "rptr b'" 16] by simp
  then have "b' = (inbuf c)\<lparr>rptr := 16\<rparr>" using b'(2) by (auto simp: reads_def)
  then show "fragment_id c = Some (id_of (d_mach_bo (inctx c)) (octets (inbuf c)), c\<lparr>inbuf := (inbuf c)\<lparr>rptr := 16\<rparr>\<rparr>)"
    using b'(1) c(2) oc by (simp add: fragment_id_def id_of_def)
qed

definition handed :: "(buffer \<Rightarrow> bool) \<Rightarrow> buffer \<Rightarrow> conn \<Rightarrow> conn" where
  "handed up b c =
     (let c = c\<lparr>inbufs := None, delivered := delivered c @ [b]\<rparr> in if up b then c else close_connection c)"

lemma input_ready_eq:
  "inbufs c = Some b \<Longrightarrow> input_ready up c = Some (up b, handed up b c)"
  by (simp add: input_ready_def input_def handed_def Let_def)

text \<open>What the connection makes of a complete header.\<close>

definition after_header :: "(buffer \<Rightarrow> bool) \<Rightarrow> decoder \<Rightarrow> conn \<Rightarrow> bool \<times> conn" where
  "after_header up d c =
     (case parse_header (giop_ver (gcodec c)) (octets (inbuf c)) of
       None \<Rightarrow> (False, handed up (inbuf c) (c\<lparr>inctx := d, inbuf := next_buffer c,
         inlen := headerlen (gcodec c), reading := False\<rparr>))
     | Some (mt, sz, fl, w) \<Rightarrow>
         (let c = c\<lparr>inctx := d, gcodec := (gcodec c)\<lparr>giop_ver := w\<rparr>, inlen := sz, inflags := fl\<rparr> in
          if over_limit c sz \<or> (mt = Fragment \<or> and fl GIOP_FRAGMENT_BIT \<noteq> 0) \<and> over_limit c (sz + total_fragsize c)
            \<or> mt = Fragment \<and> w = 0x0101 \<and> infrag c = None
          then (False, close_connection c)
          else if mt = Fragment \<and> w = 0x0101 then (True, c\<lparr>inbuf := the (infrag c), infrag := None\<rparr>)
          else (True, c)))"

lemma header_step_eq:
  assumes s: "settled c" and n: "inlen c = 0" and len: "length (octets (inbuf c)) = 12"
  shows "\<exists>d. ctx_ok d \<and> d_mach_bo d = d_mach_bo (inctx c) \<and> header_step up c = Some (after_header up d c)"
proof -
  obtain d where d: "check_header (gcodec c) ((inctx c)\<lparr>dbuf := inbuf c\<rparr>) =
      Some (Some (header_result (gcodec c) (octets (inbuf c))), d)"
    "dbuf d = inbuf c" "ctx_ok d" "d_mach_bo d = d_mach_bo (inctx c)"
    using check_header_parse [of "inctx c" "inbuf c" "gcodec c"] s len by (auto simp: settled_def)
  have "header_step up c = Some (after_header up d c)"
  proof (cases "parse_header (giop_ver (gcodec c)) (octets (inbuf c))")
    case None
    have "c\<lparr>inctx := d, inbuf := inbuf c, gcodec := gcodec c\<rparr> = c\<lparr>inctx := d\<rparr>" by simp
    then show ?thesis
      using n d s None
      by (simp add: header_step_def header_result_def after_header_def settled_def input_ready_eq next_buffer_def handed_def)
  next
    case (Some p)
    obtain mt sz fl w where p: "p = (mt, sz, fl, w)" by (cases p)
    show ?thesis
      using n d(1,2) Some
      by (cases "infrag c") (simp_all add: p header_step_def header_result_def after_header_def stop_def Let_def)
  qed
  then show ?thesis using d by blast
qed

lemma stop_result: "stop c = Some (go, c') \<longleftrightarrow> \<not> go \<and> c' = close_connection c"
  by (auto simp: stop_def)

lemma close_not_reading [simp]: "\<not> reading (close_connection c)"
  by (simp add: close_connection_def)

lemma after_header_keeps:
  assumes s: "settled c" and len: "length (octets (inbuf c)) = 12" and d: "ctx_ok d"
    and a: "after_header up d c = (go, c')"
  shows "go \<Longrightarrow> settled c' \<and> 12 \<le> length (octets (inbuf c')) \<and> reading c' \<and> transp c' = transp c"
    and "\<not> go \<Longrightarrow> \<not> reading c'"
proof -
  show "go \<Longrightarrow> settled c' \<and> 12 \<le> length (octets (inbuf c')) \<and> reading c' \<and> transp c' = transp c"
    using a s len d by (auto simp: after_header_def settled_def Let_def split: option.splits if_splits)
  show "\<not> go \<Longrightarrow> \<not> reading c'"
    using a by (auto simp: after_header_def handed_def Let_def split: option.splits if_splits)
qed

text \<open>What the connection makes of a complete message, by the kind of the message.\<close>

lemma message_step_eq:
  assumes s: "settled c" and len: "12 \<le> length (octets (inbuf c))"
  shows "message_step up brk c =
     (if octets (inbuf c) ! 7 = Fragment \<and> giop_ver (gcodec c) = 0x0102 then next_fragment up brk c
      else if and (inflags c) GIOP_FRAGMENT_BIT \<noteq> 0 then first_fragment c else whole_message up brk c)"
proof -
  obtain b where "get1 (snd (rseek_beg 7 (inbuf c))) = Some (Some [octets (inbuf c) ! 7], b)"
    "snd (rseek_beg 0 b) = inbuf c"
    using peek_type [of "inbuf c"] s len by (auto simp: settled_def)
  then show ?thesis by (simp add: message_step_def)
qed

text \<open>Back between two messages.\<close>

definition idle :: "conn \<Rightarrow> bool" where
  "idle c \<longleftrightarrow> settled c \<and> octets (inbuf c) = [] \<and> inlen c = 12"

lemma idle_awaiting: "idle c \<Longrightarrow> awaiting c"
  by (simp add: idle_def awaiting_def)

lemma whole_message_eq:
  assumes "settled c"
  shows "whole_message up brk c =
     Some (up (inbuf c) \<and> \<not> brk, handed up (inbuf c) (c\<lparr>inbuf := next_buffer c, inlen := 12\<rparr>))"
  using assms by (simp add: whole_message_def input_ready_eq settled_def handed_def)

lemma whole_message_keeps:
  assumes s: "settled c" and w: "whole_message up False c = Some (go, c')"
  shows "go \<Longrightarrow> idle c' \<and> transp c' = transp c" and "\<not> go \<Longrightarrow> \<not> reading c'"
  using w s in_ok_next
  by (auto simp: whole_message_eq [OF s] handed_def settled_def idle_def Let_def split: if_splits)

lemma first_fragment_keeps:
  assumes s: "settled c" and len: "12 \<le> length (octets (inbuf c))"
    and w: "first_fragment c = Some (go, c')"
  shows "go \<Longrightarrow> idle c' \<and> transp c' = transp c" and "\<not> go \<Longrightarrow> \<not> reading c'"
proof -
  have l16: "16 \<le> length (octets (inbuf c))" if "\<not> buf_length (inbuf c) < 16"
    using that s by (simp add: settled_def word_less_nat_alt in_ok_length)
  show "go \<Longrightarrow> idle c' \<and> transp c' = transp c"
    using w s in_ok_next len fragment_id_reads(1) [of c] l16
    by (auto simp: first_fragment_def stop_result settled_def idle_def Let_def split: if_splits)
  show "\<not> go \<Longrightarrow> \<not> reading c'"
    using w s fragment_id_reads(1) [of c] l16
    by (auto simp: first_fragment_def stop_result settled_def Let_def split: if_splits)
qed

text \<open>A further fragment, once its table entry and the room for it are known.\<close>

definition after_fragment :: "(buffer \<Rightarrow> bool) \<Rightarrow> bool \<Rightarrow> ulong \<Rightarrow> buffer \<Rightarrow> conn \<Rightarrow> bool \<times> conn" where
  "after_fragment up brk reqid b c =
     (let c = c\<lparr>total_fragsize := total_fragsize c + (buf_length (inbuf c) - 16),
        inbuf := buf_reset MINSIZE ((inbuf c)\<lparr>rptr := 16\<rparr>), inlen := 12\<rparr> in
      if and (inflags c) GIOP_FRAGMENT_BIT \<noteq> 0 then (True, c\<lparr>fragments := map_put reqid b (fragments c)\<rparr>)
      else (up b \<and> \<not> brk, handed up b (c\<lparr>fragments := map_erase reqid (map_put reqid b (fragments c))\<rparr>)))"

lemma next_fragment_eq:
  assumes s: "settled c" and len: "16 \<le> length (octets (inbuf c))"
    and f: "map_find (id_of (d_mach_bo (inctx c)) (octets (inbuf c))) (fragments c) = Some fb"
    and p: "put (drop 16 (octets (inbuf c))) (buf_length (inbuf c) - 16) fb = Some b"
    and t: "total_fragsize c + (buf_length (inbuf c) - 16) \<noteq> 0"
  shows "next_fragment up brk c =
     Some (after_fragment up brk (id_of (d_mach_bo (inctx c)) (octets (inbuf c))) b c)"
proof -
  note i = fragment_id_reads [of c]
  have io: "in_ok (inbuf c)" "headerlen (gcodec c) = 12" "inbufs c = None" using s by (simp_all add: settled_def)
  have l: "\<not> buf_length (inbuf c) < 16" using len io(1) by (simp add: word_less_nat_alt in_ok_length)
  have bl: "buf_length ((inbuf c)\<lparr>rptr := 16\<rparr>) = buf_length (inbuf c) - 16"
    using io(1) by (simp add: buf_length_def in_ok_def)
  have bd: "buf_data ((inbuf c)\<lparr>rptr := 16\<rparr>) = Some (drop 16 (octets (inbuf c)))"
    using buf_data_octets [OF i(2)] i(3) io(1) len by simp
  have r0: "buf_length (buf_reset MINSIZE ((inbuf c)\<lparr>rptr := 16\<rparr>)) = 0"
    using in_ok_reset [of "(inbuf c)\<lparr>rptr := 16\<rparr>"] i(2) io(1) len in_ok_length_word by simp
  show ?thesis
  proof (cases "and (inflags c) GIOP_FRAGMENT_BIT \<noteq> 0")
    case True
    then show ?thesis
      using i(1) [OF io(1) len] l f p bl bd io(2)
      by (simp add: next_fragment_def after_fragment_def Let_def)
  next
    case False
    have t': "0 < total_fragsize c + (buf_length (inbuf c) - 16)" using t word_neq_0_conv by blast
    show ?thesis
      using i(1) [OF io(1) len] l f p bl bd io(2,3) False r0 t'
      by (simp add: next_fragment_def after_fragment_def Let_def input_ready_eq handed_def close_connection_def)
  qed
qed

lemma next_fragment_keeps:
  assumes s: "settled c" and w: "next_fragment up False c = Some (go, c')"
  shows "go \<Longrightarrow> idle c' \<and> transp c' = transp c" and "\<not> go \<Longrightarrow> \<not> reading c'"
proof -
  have io: "in_ok (inbuf c)" using s by (simp add: settled_def)
  have goal: "(go \<longrightarrow> idle c' \<and> transp c' = transp c) \<and> (\<not> go \<longrightarrow> \<not> reading c')"
  proof (cases "buf_length (inbuf c) < 16")
    case True
    then have "next_fragment up False c = stop c" by (simp add: next_fragment_def)
    with w show ?thesis by (simp add: stop_result)
  next
    case False
    then have len: "16 \<le> length (octets (inbuf c))" using io by (simp add: word_less_nat_alt in_ok_length)
    note i = fragment_id_reads [OF io len]
    define h where "h = id_of (d_mach_bo (inctx c)) (octets (inbuf c))"
    define b16 where "b16 = (inbuf c)\<lparr>rptr := 16\<rparr>"
    have ri: "in_ok (buf_reset MINSIZE b16)" "octets (buf_reset MINSIZE b16) = []"
      using in_ok_reset [of b16] i(2) by (simp_all add: b16_def)
    show ?thesis
    proof (cases "map_find h (fragments c)")
      case None
      then have "next_fragment up False c = stop (c\<lparr>inbuf := b16\<rparr>)"
        using False i(1) by (simp add: next_fragment_def h_def b16_def)
      with w show ?thesis by (simp add: stop_result)
    next
      case (Some fb)
      then obtain xs nb where nb: "buf_data b16 = Some xs" "put xs (buf_length b16) fb = Some nb"
        using w False i(1) by (auto simp: next_fragment_def h_def b16_def elim!: bind_cases)
      define d where "d = c\<lparr>fragments := map_put h nb (fragments c),
        total_fragsize := total_fragsize c + buf_length b16, inbuf := buf_reset MINSIZE b16, inlen := 12\<rparr>"
      have d: "idle d" "transp d = transp c" using s ri by (auto simp: d_def idle_def settled_def)
      have eq: "next_fragment up False c = (if and (inflags c) GIOP_FRAGMENT_BIT \<noteq> 0 then Some (True, d)
         else do { require (buf_length (inbuf d) < total_fragsize d);
           Some (up nb, handed up nb (d\<lparr>fragments := map_erase h (fragments d),
             total_fragsize := total_fragsize d - buf_length (inbuf d)\<rparr>)) })"
        using False i(1) Some nb s
        by (simp add: next_fragment_def h_def b16_def d_def settled_def input_ready_eq handed_def close_connection_def)
      show ?thesis
      proof (cases "and (inflags c) GIOP_FRAGMENT_BIT \<noteq> 0")
        case True
        then show ?thesis using w eq d by simp
      next
        case False
        then have "go = up nb" "c' = handed up nb (d\<lparr>fragments := map_erase h (fragments d),
             total_fragsize := total_fragsize d - buf_length (inbuf d)\<rparr>)"
          using w eq by (simp_all split: if_splits)
        then show ?thesis using d by (auto simp: handed_def idle_def settled_def Let_def)
      qed
    qed
  qed
  then show "go \<Longrightarrow> idle c' \<and> transp c' = transp c" and "\<not> go \<Longrightarrow> \<not> reading c'" by blast+
qed

lemma message_step_keeps:
  assumes s: "settled c" and len: "12 \<le> length (octets (inbuf c))"
    and w: "message_step up False c = Some (go, c')"
  shows "go \<Longrightarrow> idle c' \<and> transp c' = transp c" and "\<not> go \<Longrightarrow> \<not> reading c'"
proof -
  from w consider "next_fragment up False c = Some (go, c')" | "first_fragment c = Some (go, c')"
    | "whole_message up False c = Some (go, c')"
    unfolding message_step_eq [OF s len] by (metis (full_types))
  then have "(go \<longrightarrow> idle c' \<and> transp c' = transp c) \<and> (\<not> go \<longrightarrow> \<not> reading c')"
  proof cases
    case 1
    from next_fragment_keeps [OF s this] show ?thesis by blast
  next
    case 2
    from first_fragment_keeps [OF s len this] show ?thesis by blast
  next
    case 3
    from whole_message_keeps [OF s this] show ?thesis by blast
  qed
  then show "go \<Longrightarrow> idle c' \<and> transp c' = transp c" and "\<not> go \<Longrightarrow> \<not> reading c'" by blast+
qed

text \<open>After octets have arrived: a header or a message may be complete.\<close>

definition filled :: "conn \<Rightarrow> bool" where
  "filled c \<longleftrightarrow> settled c \<and> (length (octets (inbuf c)) + unat (inlen c) = 12 \<or> 12 < length (octets (inbuf c)))"

lemma is_header: "settled c \<Longrightarrow> buf_length (inbuf c) = headerlen (gcodec c) \<longleftrightarrow> length (octets (inbuf c)) = 12"
  by (auto simp: settled_def word_unat_eq_iff in_ok_length)

lemma received_keeps:
  assumes f: "filled c" and r: "received up False c = Some (go, c')"
  shows "go \<Longrightarrow> awaiting c' \<and> transp c' = transp c" and "\<not> go \<Longrightarrow> \<not> reading c'"
proof -
  have s: "settled c" using f by (simp add: filled_def)
  have tail: "(go \<longrightarrow> awaiting c' \<and> transp c' = transp c) \<and> (\<not> go \<longrightarrow> \<not> reading c')"
    if d: "settled d" "inlen d = 0 \<longrightarrow> 12 \<le> length (octets (inbuf d))"
      "inlen d \<noteq> 0 \<longrightarrow> awaiting d" "transp d = transp c"
      and e: "(if True \<and> inlen d = 0 then message_step up False d else Some (True, d)) = Some (go, c')" for d
  proof (cases "inlen d = 0")
    case True
    then show ?thesis
      using e d message_step_keeps [OF d(1), of up go c'] idle_awaiting by auto
  next
    case False
    then show ?thesis using e d by auto
  qed
  have goal: "(go \<longrightarrow> awaiting c' \<and> transp c' = transp c) \<and> (\<not> go \<longrightarrow> \<not> reading c')"
  proof (cases "length (octets (inbuf c)) = 12")
    case False
    then have "received up False c = (if True \<and> inlen c = 0 then message_step up False c else Some (True, c))"
      using is_header [OF s] by (simp add: received_def)
    then have e: "(if True \<and> inlen c = 0 then message_step up False c else Some (True, c)) = Some (go, c')"
      using r by simp
    have "inlen c = 0 \<longrightarrow> 12 \<le> length (octets (inbuf c))" "inlen c \<noteq> 0 \<longrightarrow> awaiting c"
      using f by (auto simp: filled_def awaiting_def)
    from tail [OF s this refl e] show ?thesis .
  next
    case True
    then have n: "inlen c = 0" using f by (simp add: filled_def unat_eq_0)
    obtain d where d: "ctx_ok d" "header_step up c = Some (after_header up d c)"
      using header_step_eq [OF s n True] by blast
    obtain g a where a: "after_header up d c = (g, a)" by (cases "after_header up d c")
    note k = after_header_keeps [OF s True d(1) a]
    have e: "received up False c = (if g \<and> inlen a = 0 then message_step up False a else Some (g, a))"
      using is_header [OF s] True d(2) a by (simp add: received_def)
    show ?thesis
    proof (cases g)
      case False
      then show ?thesis using e r k(2) by simp
    next
      case g: True
      have e': "(if True \<and> inlen a = 0 then message_step up False a else Some (True, a)) = Some (go, c')"
        using e r g by simp
      have "settled a" "inlen a = 0 \<longrightarrow> 12 \<le> length (octets (inbuf a))" "inlen a \<noteq> 0 \<longrightarrow> awaiting a"
        "transp a = transp c"
        using k(1) [OF g] by (auto simp: awaiting_def)
      from tail [OF this e'] show ?thesis .
    qed
  qed
  then show "go \<Longrightarrow> awaiting c' \<and> transp c' = transp c" and "\<not> go \<Longrightarrow> \<not> reading c'" by blast+
qed

section \<open>The transport does not matter to what is made of the octets\<close>

definition on_transp :: "transport \<Rightarrow> (bool \<times> conn) option \<Rightarrow> (bool \<times> conn) option" where
  "on_transp t r = map_option (\<lambda>(go, c). (go, c\<lparr>transp := t\<rparr>)) r"

lemma on_transp_simps:
  "on_transp t None = None" "on_transp t (Some (go, c)) = Some (go, c\<lparr>transp := t\<rparr>)"
  by (simp_all add: on_transp_def)

lemma input_ready_swap: "input_ready up (c\<lparr>transp := t\<rparr>) = on_transp t (input_ready up c)"
  by (cases "inbufs c") (simp_all add: input_ready_def input_def on_transp_simps close_connection_def Let_def)

lemma stop_swap: "stop (c\<lparr>transp := t\<rparr>) = on_transp t (stop c)"
  by (simp add: stop_def close_connection_def on_transp_simps)

lemma fragment_id_swap:
  "fragment_id (c\<lparr>transp := t\<rparr>) = map_option (\<lambda>(i, c). (i, c\<lparr>transp := t\<rparr>)) (fragment_id c)"
  by (cases "get4 (snd (rseek_beg 12 (inbuf c)))") (auto simp: fragment_id_def split: Option.bind_splits)

lemma header_step_swap: "header_step up (c\<lparr>transp := t\<rparr>) = on_transp t (header_step up c)"
proof (cases "inlen c = 0")
  case False
  then show ?thesis by (simp add: header_step_def on_transp_simps)
next
  case n: True
  show ?thesis
  proof (cases "check_header (gcodec c) ((inctx c)\<lparr>dbuf := inbuf c\<rparr>)")
    case None
    then show ?thesis by (simp add: header_step_def on_transp_simps)
  next
    case (Some q)
    obtain r d where q: "q = (r, d)" by (cases q)
    show ?thesis
    proof (cases r)
      case None
      then show ?thesis using Some q by (simp add: header_step_def on_transp_simps)
    next
      case (Some p)
      obtain h cd where p: "p = (h, cd)" by (cases p)
      show ?thesis
      proof (cases h)
        case None
        then show ?thesis
          using \<open>check_header _ _ = _\<close> q Some p n
          by (simp add: header_step_def on_transp_simps input_ready_def input_def close_connection_def next_buffer_def Let_def)
      next
        case (Some u)
        then show ?thesis
          using \<open>check_header _ _ = _\<close> q \<open>r = _\<close> p n
          by (cases u; cases "infrag c")
            (simp_all add: header_step_def on_transp_simps stop_def close_connection_def over_limit_def Let_def)
      qed
    qed
  qed
qed

lemma whole_message_swap: "whole_message up brk (c\<lparr>transp := t\<rparr>) = on_transp t (whole_message up brk c)"
  by (simp add: whole_message_def input_ready_def input_def on_transp_simps close_connection_def next_buffer_def Let_def)

lemma first_fragment_swap: "first_fragment (c\<lparr>transp := t\<rparr>) = on_transp t (first_fragment c)"
  by (cases "fragment_id c")
    (auto simp: first_fragment_def on_transp_simps stop_def close_connection_def over_limit_def Let_def
      fragment_id_swap next_buffer_def)

lemma next_fragment_swap: "next_fragment up brk (c\<lparr>transp := t\<rparr>) = on_transp t (next_fragment up brk c)"
proof (cases "buf_length (inbuf c) < 16")
  case True
  then show ?thesis by (simp add: next_fragment_def stop_swap)
next
  case False
  show ?thesis
  proof (cases "fragment_id c")
    case None
    then show ?thesis using False by (simp add: next_fragment_def fragment_id_swap on_transp_simps)
  next
    case (Some q)
    obtain i d where q: "q = (i, d)" by (cases q)
    show ?thesis
    proof (cases "map_find i (fragments d)")
      case None
      then show ?thesis using False Some q by (simp add: next_fragment_def fragment_id_swap stop_swap)
    next
      case f: (Some fb)
      show ?thesis
      proof (cases "Option.bind (buf_data (inbuf d)) (\<lambda>xs. put xs (buf_length (inbuf d)) fb)")
        case None
        then show ?thesis using False Some q f
          by (cases "buf_data (inbuf d)") (simp_all add: next_fragment_def fragment_id_swap on_transp_simps)
      next
        case b: (Some nb)
        then obtain xs where "buf_data (inbuf d) = Some xs" "put xs (buf_length (inbuf d)) fb = Some nb"
          by (cases "buf_data (inbuf d)") auto
        then show ?thesis using False Some q f
          by (simp add: next_fragment_def fragment_id_swap on_transp_simps input_ready_def input_def
              close_connection_def Let_def)
      qed
    qed
  qed
qed

lemma received_swap: "received up brk (c\<lparr>transp := t\<rparr>) = on_transp t (received up brk c)"
proof -
  have m: "message_step up brk (d\<lparr>transp := t\<rparr>) = on_transp t (message_step up brk d)" for d
  proof (cases "get1 (snd (rseek_beg 7 (inbuf d)))")
    case None
    then show ?thesis by (simp add: message_step_def on_transp_simps)
  next
    case (Some q)
    obtain r b where q: "q = (r, b)" by (cases q)
    let ?d = "d\<lparr>inbuf := snd (rseek_beg 0 b)\<rparr>"
    let ?e = "d\<lparr>transp := t, inbuf := snd (rseek_beg 0 b)\<rparr>"
    have e: "?e = ?d\<lparr>transp := t\<rparr>" by simp
    have sw: "next_fragment up brk ?e = on_transp t (next_fragment up brk ?d)"
      "first_fragment ?e = on_transp t (first_fragment ?d)"
      "whole_message up brk ?e = on_transp t (whole_message up brk ?d)"
      unfolding e by (rule next_fragment_swap first_fragment_swap whole_message_swap)+
    show ?thesis using Some q sw by (cases r) (simp_all add: message_step_def on_transp_simps Let_def)
  qed
  show ?thesis
  proof (cases "buf_length (inbuf c) = headerlen (gcodec c)")
    case False
    then show ?thesis by (simp add: received_def m on_transp_simps)
  next
    case True
    then show ?thesis
      by (cases "header_step up c") (auto simp: received_def header_step_swap m on_transp_simps)
  qed
qed

section \<open>One piece of the stream\<close>

text \<open>The piece \<open>xs\<close> arrives and the dispatcher reports it; the transport is then as before.\<close>

definition offer :: "(buffer \<Rightarrow> bool) \<Rightarrow> octet list \<Rightarrow> conn \<Rightarrow> conn option" where
  "offer up xs c =
     map_option (\<lambda>d. d\<lparr>transp := transp c\<rparr>)
       (do_read up False (c\<lparr>transp := (transp c)\<lparr>arriving := [Arrived xs]\<rparr>\<rparr>))"

text \<open>How many octets one read may take: the signed view of what is missing.\<close>

abbreviation want :: "conn \<Rightarrow> nat" where
  "want c \<equiv> nat (sint (inlen c))"

definition absorb :: "octet list \<Rightarrow> conn \<Rightarrow> conn option" where
  "absorb xs c = do {
     b \<leftarrow> resize (inlen c) (inbuf c);
     b \<leftarrow> store_octets xs b;
     Some (c\<lparr>inbuf := b, inlen := inlen c - word_of_nat (length xs)\<rparr>)
   }"

lemma tcp_read_arrived:
  assumes "sopen t" and "arriving t = [Arrived xs]"
  shows "\<exists>es. tcp_read len t = (True, take (nat (sint len)) xs, t\<lparr>arriving := es\<rparr>) \<and>
     (0 < nat (sint len) \<and> xs \<noteq> [] \<longrightarrow> es = (if length xs \<le> nat (sint len) then [] else [Arrived (drop (nat (sint len)) xs)]))"
proof -
  define n where "n = nat (sint len)"
  have empty: "read_loop n m got u = (True, got, u\<lparr>arriving := []\<rparr>)" if "sopen u" "arriving u = []" for m got u
    using that by (subst read_loop.simps) (auto simp: Let_def)
  have "\<exists>es. read_loop n n [] t = (True, take n xs, t\<lparr>arriving := es\<rparr>) \<and>
     (0 < n \<and> xs \<noteq> [] \<longrightarrow> es = (if length xs \<le> n then [] else [Arrived (drop n xs)]))"
  proof (cases "n = 0")
    case True
    then show ?thesis using assms by (intro exI [of _ "[Arrived xs]"]) (simp add: read_loop.simps)
  next
    case n: False
    show ?thesis
    proof (cases "xs = []")
      case True
      then show ?thesis using assms n by (subst read_loop.simps) auto
    next
      case False
      then show ?thesis
        using assms n empty [of "t\<lparr>arriving := []\<rparr>"]
        by (subst read_loop.simps) (auto simp: read_loop.simps [of _ 0] Let_def)
    qed
  qed
  then show ?thesis unfolding tcp_read_def n_def .
qed

lemma store_then_seek:
  assumes "buf_wf b" and m: "mem_write (mem b) (unat (wptr b)) xs = Some m" and "xs \<noteq> []"
  shows "wseek_rel (word_of_int (int (length xs))) (b\<lparr>mem := m\<rparr>) = store_octets xs b"
proof -
  note w = buf_wfD [OF assms(1)]
  have le: "unat (wptr b) + length xs \<le> unat (blen b)" using mem_write_SomeD [OF m] w(4) by simp
  then have lt: "unat (wptr b) + length xs < 4294967296" using unat_ulong_lt [of "blen b"] by linarith
  have "unat (word_of_nat (length xs) :: ulong) = length xs" using lt by (simp add: nowrap)
  then have u: "unat (wptr b + word_of_nat (length xs)) = unat (wptr b) + length xs" using lt by (simp add: nowrap)
  have "wptr b + word_of_nat (length xs) \<ge> rptr b \<and> wptr b + word_of_nat (length xs) \<le> blen b"
    unfolding word_le_nat_alt u using le w(2) by simp
  then show ?thesis using w(1) m by (simp add: wseek_rel_def store_octets_def)
qed

lemma transport_read_arrived:
  assumes wf: "buf_wf b" and t: "tcp_read len t = (True, xs, u)"
  shows "transport_read len b t =
     Option.bind (resize len b) (\<lambda>b. Option.bind (store_octets xs b) (\<lambda>b. Some (int (length xs), b, u)))"
proof -
  obtain c where c: "resize len b = Some c" "buf_wf c" using resize_grows [OF wf, of len] by auto
  show ?thesis
  proof (cases "mem_write (mem c) (unat (wptr c)) xs")
    case None
    then show ?thesis using c t by (simp add: transport_read_def store_octets_def)
  next
    case (Some m)
    show ?thesis
    proof (cases "xs = []")
      case True
      then have "m = mem c" using Some by (simp add: mem_write_def split: if_splits)
      then show ?thesis using c t True Some by (simp add: transport_read_def store_octets_def)
    next
      case False
      then show ?thesis using c t Some store_then_seek [OF c(2) Some False]
        by (simp add: transport_read_def Let_def)
    qed
  qed
qed

lemma read_step_arrived:
  assumes wf: "buf_wf (inbuf c)" and n: "inlen c \<noteq> 0" and t: "sopen (transp c)" "\<not> ateof (transp c)"
    and xs: "arriving (transp c) = [Arrived xs]"
  shows "\<exists>u. sopen u \<and> \<not> ateof u \<and> (\<forall>es. u\<lparr>arriving := es\<rparr> = (transp c)\<lparr>arriving := es\<rparr>) \<and>
     (0 < want c \<and> want c < length xs \<longrightarrow> arriving u = [Arrived (drop (want c) xs)]) \<and>
     (0 < want c \<and> xs \<noteq> [] \<and> length xs \<le> want c \<longrightarrow> arriving u = []) \<and>
     read_step up brk c = Option.bind (absorb (take (want c) xs) c) (\<lambda>d.
       if take (want c) xs = [] then Some (False, d\<lparr>transp := u\<rparr>) else on_transp u (received up brk d))"
proof -
  obtain es where es: "tcp_read (inlen c) (transp c) = (True, take (want c) xs, (transp c)\<lparr>arriving := es\<rparr>)"
    "0 < want c \<and> xs \<noteq> [] \<longrightarrow> es = (if length xs \<le> want c then [] else [Arrived (drop (want c) xs)])"
    using tcp_read_arrived [OF t(1) xs, of "inlen c"] by blast
  define k where "k = take (want c) xs"
  let ?u = "(transp c)\<lparr>arriving := es\<rparr>" and ?k = k
  have cr: "conn_read c = Option.bind (resize (inlen c) (inbuf c)) (\<lambda>b. Option.bind (store_octets ?k b)
      (\<lambda>b. Some (int (length ?k), c\<lparr>inbuf := b, transp := ?u\<rparr>)))"
    using transport_read_arrived [OF wf es(1)]
    by (simp add: conn_read_def k_def del: length_take split: Option.bind_splits)
  have p: "inlen c > 0" using n word_neq_0_conv by blast
  have eq: "read_step up brk c = Option.bind (absorb ?k c) (\<lambda>d.
       if ?k = [] then Some (False, d\<lparr>transp := ?u\<rparr>) else on_transp ?u (received up brk d))"
  proof (cases "Option.bind (resize (inlen c) (inbuf c)) (store_octets ?k)")
    case None
    then show ?thesis using cr p
      by (cases "resize (inlen c) (inbuf c)") (simp_all add: read_step_def conn_read_again_def absorb_def)
  next
    case (Some b)
    then have a: "absorb ?k c = Some (c\<lparr>inbuf := b, inlen := inlen c - word_of_nat (length ?k)\<rparr>)"
      by (cases "resize (inlen c) (inbuf c)") (simp_all add: absorb_def)
    from Some cr have r: "conn_read_again c = Some (int (length ?k), c\<lparr>inbuf := b, transp := ?u\<rparr>)"
      by (cases "resize (inlen c) (inbuf c)") (simp_all add: conn_read_again_def)
    note e = read_step_eq [OF p r, of up brk]
    show ?thesis
    proof (cases "?k = []")
      case True
      moreover have "c\<lparr>inbuf := b, inlen := inlen c\<rparr> = c\<lparr>inbuf := b\<rparr>" by simp
      ultimately show ?thesis using e(3) a t(2) by simp
    next
      case False
      have sw: "c\<lparr>inbuf := b, transp := ?u, inlen := inlen c - word_of_nat (length ?k)\<rparr> =
          (c\<lparr>inbuf := b, inlen := inlen c - word_of_nat (length ?k)\<rparr>)\<lparr>transp := ?u\<rparr>" by simp
      have "0 < int (length ?k)" using False by simp
      then have "read_step up brk c = received up brk
          ((c\<lparr>inbuf := b, transp := ?u\<rparr>)\<lparr>inlen := inlen c - word_of_nat (length ?k)\<rparr>)"
        using e(2) by simp
      then show ?thesis using a False received_swap [of up brk ?u] by (simp only: sw Option.bind.bind_lunit if_False)
    qed
  qed
  have "want c < length xs \<Longrightarrow> xs \<noteq> []" by auto
  then show ?thesis using es(2) eq t unfolding k_def by (intro exI [of _ ?u]) auto
qed

lemma read_step_nothing:
  assumes wf: "buf_wf (inbuf c)" and n: "inlen c \<noteq> 0" and t: "sopen (transp c)" "\<not> ateof (transp c)"
    and none: "arriving (transp c) = []"
  shows "read_step up brk c =
     map_option (\<lambda>d. (False, d\<lparr>transp := (transp c)\<lparr>arriving := []\<rparr>\<rparr>)) (absorb [] c)"
proof -
  let ?u = "(transp c)\<lparr>arriving := []\<rparr>"
  have "tcp_read (inlen c) (transp c) = (True, [], ?u)"
    using t none by (cases "nat (sint (inlen c)) = 0") (simp_all add: tcp_read_def read_loop.simps Let_def)
  from transport_read_arrived [OF wf this]
  have cr: "conn_read c = Option.bind (resize (inlen c) (inbuf c)) (\<lambda>b. Option.bind (store_octets [] b)
      (\<lambda>b. Some (0, c\<lparr>inbuf := b, transp := ?u\<rparr>)))"
    by (simp add: conn_read_def split: Option.bind_splits)
  have p: "inlen c > 0" using n word_neq_0_conv by blast
  show ?thesis
  proof (cases "Option.bind (resize (inlen c) (inbuf c)) (store_octets [])")
    case None
    then show ?thesis using cr p
      by (cases "resize (inlen c) (inbuf c)") (simp_all add: read_step_def conn_read_again_def absorb_def)
  next
    case (Some b)
    then have "conn_read_again c = Some (0, c\<lparr>inbuf := b, transp := ?u\<rparr>)" "absorb [] c = Some (c\<lparr>inbuf := b, inlen := inlen c\<rparr>)"
      using cr by (cases "resize (inlen c) (inbuf c)"; simp add: conn_read_again_def absorb_def)+
    moreover have "c\<lparr>inbuf := b, inlen := inlen c\<rparr> = c\<lparr>inbuf := b\<rparr>" by simp
    ultimately show ?thesis using read_step_eq(3) [OF p, of 0 "c\<lparr>inbuf := b, transp := ?u\<rparr>" up brk] t(2) by simp
  qed
qed

lemma mem_write_append:
  "mem_write m i (xs @ ys) = Option.bind (mem_write m i xs) (\<lambda>m. mem_write m (i + length xs) ys)"
proof (cases "i + length xs \<le> length m")
  case False
  then show ?thesis by (simp add: mem_write_def)
next
  case True
  let ?m = "take i m @ xs @ drop (i + length xs) m"
  have t: "take (i + length xs) ?m = take i m @ xs" using True by simp
  have d: "drop (i + length xs + length ys) ?m = drop (i + length (xs @ ys)) m"
    using True by (simp add: add.assoc) (simp add: add.commute add.left_commute)
  have "length ?m = length m" using True by simp
  then have "mem_write ?m (i + length xs) ys = mem_write m i (xs @ ys)"
    unfolding mem_write_def t d by (simp add: add.assoc)
  then show ?thesis using True by (simp add: mem_write_def [of m i xs])
qed

lemma store_octets_split:
  assumes "buf_wf b"
  shows "store_octets (xs @ ys) b = Option.bind (store_octets xs b) (store_octets ys)"
proof (cases "unat (wptr b) + length xs \<le> length (mem b)")
  case False
  then show ?thesis by (simp add: store_octets_def mem_write_def)
next
  case True
  note w = buf_wfD [OF assms]
  have "unat (wptr b) + length xs < 4294967296" using True w(4) unat_ulong_lt [of "blen b"] by linarith
  then have u: "unat (wptr b + word_of_nat (length xs)) = unat (wptr b) + length xs" by (simp add: nowrap)
  show ?thesis
    by (cases "mem_write (mem b) (unat (wptr b)) xs")
      (auto simp: store_octets_def mem_write_append u add.assoc split: Option.bind_splits)
qed

lemma absorb_resize:
  assumes wf: "buf_wf (inbuf c)"
  shows "\<exists>b. resize (inlen c) (inbuf c) = Some b \<and> buf_wf b \<and>
     absorb xs c = map_option (\<lambda>b. c\<lparr>inbuf := b, inlen := inlen c - word_of_nat (length xs)\<rparr>) (store_octets xs b) \<and>
     writes (inbuf c) [] b \<and> wptr b + inlen c \<le> blen b"
proof -
  obtain b where b: "resize (inlen c) (inbuf c) = Some b" "writes (inbuf c) [] b" "wptr (inbuf c) + inlen c \<le> blen b"
    using resize_grows [OF wf, of "inlen c"] by blast
  have "wptr b = wptr (inbuf c)" using b(2) by (simp add: writes_def word_unat_eq_iff)
  then show ?thesis using b by (cases "store_octets xs b") (auto simp: absorb_def)
qed

lemma absorb_some:
  assumes wf: "buf_wf (inbuf c)" and a: "absorb xs c = Some d"
  shows "d = c\<lparr>inbuf := inbuf d, inlen := inlen c - word_of_nat (length xs)\<rparr>" "writes (inbuf c) xs (inbuf d)"
proof -
  obtain b where b: "buf_wf b" "writes (inbuf c) [] b"
    "absorb xs c = map_option (\<lambda>b. c\<lparr>inbuf := b, inlen := inlen c - word_of_nat (length xs)\<rparr>) (store_octets xs b)"
    using absorb_resize [OF wf, of xs] by blast
  then obtain b' where b': "store_octets xs b = Some b'" "d = c\<lparr>inbuf := b', inlen := inlen c - word_of_nat (length xs)\<rparr>"
    using a by (cases "store_octets xs b") auto
  show "d = c\<lparr>inbuf := inbuf d, inlen := inlen c - word_of_nat (length xs)\<rparr>" using b'(2) by simp
  show "writes (inbuf c) xs (inbuf d)"
    using writes_trans [OF b(2) store_octets_bound [OF b(1) b'(1)]] b'(2) by simp
qed

lemma absorb_append:
  assumes wf: "buf_wf (inbuf c)"
  shows "absorb (xs @ ys) c = Option.bind (absorb xs c) (absorb ys)"
proof -
  obtain b where b: "buf_wf b" "wptr b + inlen c \<le> blen b" "resize (inlen c) (inbuf c) = Some b"
    "absorb xs c = map_option (\<lambda>b. c\<lparr>inbuf := b, inlen := inlen c - word_of_nat (length xs)\<rparr>) (store_octets xs b)"
    using absorb_resize [OF wf, of xs] by blast
  show ?thesis
  proof (cases "store_octets xs b")
    case None
    then show ?thesis using b store_octets_split [OF b(1), of xs ys] by (simp add: absorb_def)
  next
    case (Some b')
    have w: "wptr b' = wptr b + word_of_nat (length xs)" "blen b' = blen b"
      using Some by (auto simp: store_octets_def elim!: bind_cases)
    have sum: "wptr b' + (inlen c - word_of_nat (length xs)) = wptr b + inlen c" by (simp add: w(1))
    have "\<not> wptr b' + (inlen c - word_of_nat (length xs)) > blen b'"
      unfolding sum w(2) using b(2) by (simp only: not_less)
    then have "resize (inlen c - word_of_nat (length xs)) b' = Some b'"
      by (simp only: resize_def if_False)
    then show ?thesis using b store_octets_split [OF b(1), of xs ys] Some
      by (cases "store_octets ys b'") (simp_all add: absorb_def algebra_simps)
  qed
qed

lemma want_le: "want c \<le> unat (inlen c)"
  using sint_ulong_small [of "inlen c"] sint_ulong_neg_iff [of "inlen c"] by (cases "unat (inlen c) < 2147483648") auto

lemma want_less:
  assumes "0 < k" and "k < want c" and "inlen d = inlen c - word_of_nat k"
  shows "unat (inlen d) = unat (inlen c) - k" "want d = want c - k"
proof -
  have small: "unat (inlen c) < 2147483648"
    using assms(1,2) sint_ulong_neg_iff [of "inlen c"] by (cases "unat (inlen c) < 2147483648") auto
  then have w: "want c = unat (inlen c)" using sint_ulong_small by simp
  then have k: "k < unat (inlen c)" using assms(2) by simp
  have kw: "unat (word_of_nat k :: ulong) = k" using k small by (simp add: nowrap)
  have "word_of_nat k \<le> inlen c" using k kw by (simp add: word_le_nat_alt)
  then show u: "unat (inlen d) = unat (inlen c) - k" using assms(3) kw by (simp add: nowrap)
  have "unat (inlen d) < 2147483648" using u small by simp
  then have "want d = unat (inlen d)" using sint_ulong_small by simp
  then show "want d = want c - k" using u w by simp
qed

lemma absorb_filled:
  assumes a: "awaiting c" and k: "absorb xs c = Some d" and n: "xs \<noteq> []" "length xs \<le> want c"
  shows "filled d" "transp d = transp c" "inlen d = inlen c - word_of_nat (length xs)"
    "octets (inbuf d) = octets (inbuf c) @ xs" "unat (inlen d) = unat (inlen c) - length xs"
proof -
  have s: "settled c" using a by (simp add: awaiting_def)
  then have wf: "buf_wf (inbuf c)" by (simp add: settled_def in_ok_def)
  note e = absorb_some [OF wf k]
  show "transp d = transp c" by (subst e(1)) simp
  show l: "inlen d = inlen c - word_of_nat (length xs)" by (subst e(1)) simp
  show o: "octets (inbuf d) = octets (inbuf c) @ xs" using e(2) by (simp add: writes_def)
  have "in_ok (inbuf d)" using e(2) s by (auto simp: writes_def in_ok_def settled_def)
  moreover have "settled (c\<lparr>inbuf := b, inlen := i\<rparr>)" if "in_ok b" for b i using that s by (simp add: settled_def)
  ultimately have sd: "settled d" by (subst e(1)) simp
  have le: "length xs \<le> unat (inlen c)" using n(2) want_le [of c] by linarith
  then have kw: "unat (word_of_nat (length xs) :: ulong) = length xs"
    using unat_ulong_lt [of "inlen c"] by (intro unat_ulong_of_nat) linarith
  show u: "unat (inlen d) = unat (inlen c) - length xs" using l le kw by (simp add: nowrap word_le_nat_alt)
  have "0 < length xs" using n(1) by simp
  then have "length (octets (inbuf d)) + unat (inlen d) = 12 \<or> 12 < length (octets (inbuf d))"
    unfolding o u length_append using a le unfolding awaiting_def by linarith
  then show "filled d" using sd by (simp add: filled_def)
qed

lemma absorb_swap: "absorb xs (c\<lparr>transp := t\<rparr>) = map_option (\<lambda>d. d\<lparr>transp := t\<rparr>) (absorb xs c)"
  by (cases "Option.bind (resize (inlen c) (inbuf c)) (store_octets xs)")
    (cases "resize (inlen c) (inbuf c)"; simp add: absorb_def)+

lemma absorb_transp: "absorb xs c = Some d \<Longrightarrow> transp d = transp c"
  by (auto simp: absorb_def elim!: bind_cases)

definition online :: "conn \<Rightarrow> bool" where
  "online c \<longleftrightarrow> awaiting c \<and> sopen (transp c) \<and> \<not> ateof (transp c)"

lemma online_facts:
  assumes "online c"
  shows "buf_wf (inbuf c)" "inlen c \<noteq> 0" "awaiting c" "settled c" "reading c" "sopen (transp c)" "\<not> ateof (transp c)"
proof -
  show a: "awaiting c" and "sopen (transp c)" "\<not> ateof (transp c)" using assms by (simp_all add: online_def)
  then show s: "settled c" and "inlen c \<noteq> 0" by (simp_all add: awaiting_def)
  show "reading c" using s by (simp add: settled_def)
  have "in_ok (inbuf c)" using s by (simp add: settled_def)
  then show "buf_wf (inbuf c)" by (simp add: in_ok_def)
qed

lemma do_read_steps:
  "read_step up brk c = None \<Longrightarrow> do_read up brk c = None"
  "read_step up brk c = Some (False, d) \<Longrightarrow> do_read up brk c = Some d"
  "read_step up brk c = Some (True, d) \<Longrightarrow> do_read up brk c = do_read up brk d"
  by (simp_all add: do_read.simps [of up brk c])

lemma conn_transp_same: "transp d = t \<Longrightarrow> d\<lparr>transp := t\<rparr> = d"
  by (cases d) simp

lemma do_read_nothing:
  assumes "online c" and "sopen t" and "\<not> ateof t" and "arriving t = []"
  shows "map_option (\<lambda>d. d\<lparr>transp := transp c\<rparr>) (do_read up False (c\<lparr>transp := t\<rparr>)) = absorb [] c"
proof -
  note f = online_facts [OF assms(1)]
  have "read_step up False (c\<lparr>transp := t\<rparr>) =
      map_option (\<lambda>d. (False, d\<lparr>transp := t\<lparr>arriving := []\<rparr>\<rparr>)) (absorb [] c)"
    using read_step_nothing [of "c\<lparr>transp := t\<rparr>" up False] f(1,2) assms(2-4)
    by (cases "absorb [] c") (simp_all add: absorb_swap)
  then show ?thesis using conn_transp_same absorb_transp [of "[]" c]
    by (cases "absorb [] c") (simp_all add: do_read_steps(1,2))
qed

lemma read_step_offer:
  assumes o: "online c" and k: "k = take (want c) xs"
  shows "\<exists>u. sopen u \<and> \<not> ateof u \<and> (\<forall>es. u\<lparr>arriving := es\<rparr> = (transp c)\<lparr>arriving := es\<rparr>) \<and>
     (0 < want c \<and> want c < length xs \<longrightarrow> arriving u = [Arrived (drop (want c) xs)]) \<and>
     (0 < want c \<and> xs \<noteq> [] \<and> length xs \<le> want c \<longrightarrow> arriving u = []) \<and>
     read_step up False (c\<lparr>transp := (transp c)\<lparr>arriving := [Arrived xs]\<rparr>\<rparr>) = Option.bind (absorb k c) (\<lambda>d.
       if k = [] then Some (False, d\<lparr>transp := u\<rparr>) else on_transp u (received up False d))"
proof -
  note f = online_facts [OF o]
  let ?t = "(transp c)\<lparr>arriving := [Arrived xs]\<rparr>"
  let ?c = "c\<lparr>transp := ?t\<rparr>"
  have p: "buf_wf (inbuf ?c)" "inlen ?c \<noteq> 0" "sopen (transp ?c)" "\<not> ateof (transp ?c)"
    "arriving (transp ?c) = [Arrived xs]" using f by simp_all
  have w: "want ?c = want c" by simp
  from read_step_arrived [OF p, of up False, unfolded w, folded k] obtain u where u: "sopen u" "\<not> ateof u"
    "\<forall>es. u\<lparr>arriving := es\<rparr> = (transp ?c)\<lparr>arriving := es\<rparr>"
    "0 < want c \<and> want c < length xs \<longrightarrow> arriving u = [Arrived (drop (want c) xs)]"
    "0 < want c \<and> xs \<noteq> [] \<and> length xs \<le> want c \<longrightarrow> arriving u = []"
    "read_step up False ?c = Option.bind (absorb k ?c) (\<lambda>d.
       if k = [] then Some (False, d\<lparr>transp := u\<rparr>) else on_transp u (received up False d))" by blast
  have "Option.bind (absorb k ?c) (\<lambda>d. if k = [] then Some (False, d\<lparr>transp := u\<rparr>) else on_transp u (received up False d)) =
      Option.bind (absorb k c) (\<lambda>d. if k = [] then Some (False, d\<lparr>transp := u\<rparr>) else on_transp u (received up False d))"
  proof (cases "absorb k c")
    case (Some d)
    have "on_transp u (received up False (d\<lparr>transp := ?t\<rparr>)) = on_transp u (received up False d)"
      unfolding received_swap by (cases "received up False d") (auto simp: on_transp_simps)
    then show ?thesis using Some by (simp add: absorb_swap)
  qed (simp add: absorb_swap)
  then show ?thesis using u by (intro exI [of _ u]) simp
qed

lemma transport_same: "arriving u = es \<Longrightarrow> u\<lparr>arriving := es\<rparr> = u"
  by (cases u) simp

lemma offer_reads:
  "do_read up False (c\<lparr>transp := (transp c)\<lparr>arriving := [Arrived xs]\<rparr>\<rparr>) = r \<Longrightarrow>
   offer up xs c = map_option (\<lambda>d. d\<lparr>transp := transp c\<rparr>) r"
  by (simp add: offer_def)

lemma offer_nil:
  assumes o: "online c"
  shows "offer up [] c = absorb [] c"
proof -
  obtain u where "read_step up False (c\<lparr>transp := (transp c)\<lparr>arriving := [Arrived []]\<rparr>\<rparr>) =
      Option.bind (absorb [] c) (\<lambda>d. Some (False, d\<lparr>transp := u\<rparr>))"
    using read_step_offer [OF o, of "[]" "[]" up] by auto
  note st = this
  show ?thesis
  proof (cases "absorb [] c")
    case None
    then have "do_read up False (c\<lparr>transp := (transp c)\<lparr>arriving := [Arrived []]\<rparr>\<rparr>) = None"
      using st by (intro do_read_steps(1)) simp
    from offer_reads [OF this] None show ?thesis by simp
  next
    case (Some d)
    then have "do_read up False (c\<lparr>transp := (transp c)\<lparr>arriving := [Arrived []]\<rparr>\<rparr>) = Some (d\<lparr>transp := u\<rparr>)"
      using st by (intro do_read_steps(2)) simp
    from offer_reads [OF this] Some show ?thesis
      using conn_transp_same [OF absorb_transp [OF Some]] by simp
  qed
qed

lemma offer_eq:
  assumes o: "online c" and k: "k = take (want c) xs"
  shows "offer up xs c = Option.bind (absorb k c) (\<lambda>d. if k = [] then Some d
     else Option.bind (received up False d) (\<lambda>(go, e). if go then offer up (drop (want c) xs) e else Some e))"
proof -
  note f = online_facts [OF o]
  let ?c = "c\<lparr>transp := (transp c)\<lparr>arriving := [Arrived xs]\<rparr>\<rparr>"
  obtain u where u: "sopen u" "\<not> ateof u" "\<forall>es. u\<lparr>arriving := es\<rparr> = (transp c)\<lparr>arriving := es\<rparr>"
    "0 < want c \<and> want c < length xs \<longrightarrow> arriving u = [Arrived (drop (want c) xs)]"
    "0 < want c \<and> xs \<noteq> [] \<and> length xs \<le> want c \<longrightarrow> arriving u = []"
    and st: "read_step up False ?c = Option.bind (absorb k c) (\<lambda>d.
       if k = [] then Some (False, d\<lparr>transp := u\<rparr>) else on_transp u (received up False d))"
    using read_step_offer [OF o k, of up] by blast
  show ?thesis
  proof (cases "absorb k c")
    case None
    then have "do_read up False ?c = None" using st by (intro do_read_steps(1)) simp
    from offer_reads [OF this] None show ?thesis by simp
  next
    case a: (Some d)
    have td: "transp d = transp c" using absorb_transp [OF a] .
    show ?thesis
    proof (cases "k = []")
      case True
      then have "do_read up False ?c = Some (d\<lparr>transp := u\<rparr>)" using st a by (intro do_read_steps(2)) simp
      from offer_reads [OF this] show ?thesis using a True conn_transp_same [OF td] by simp
    next
      case nk: False
      have fd: "filled d" using absorb_filled(1) [OF f(3) a nk] k by simp
      have st': "read_step up False ?c = on_transp u (received up False d)" using st a nk by simp
      show ?thesis
      proof (cases "received up False d")
        case None
        then have "do_read up False ?c = None" using st' by (intro do_read_steps(1)) (simp add: on_transp_simps)
        from offer_reads [OF this] show ?thesis using a nk None by simp
      next
        case r: (Some p)
        obtain go e where p: "p = (go, e)" by (cases p)
        note re = r [unfolded p]
        have te: "transp e = transp c" using received_transp [OF re] td by simp
        show ?thesis
        proof (cases go)
          case False
          then have "do_read up False ?c = Some (e\<lparr>transp := u\<rparr>)"
            using st' re by (intro do_read_steps(2)) (simp add: on_transp_simps)
          from offer_reads [OF this] show ?thesis using a nk re False conn_transp_same [OF te] by simp
        next
          case go: True
          have "awaiting e" using received_keeps(1) [OF fd re go] by simp
          then have oe: "online e" using te f(6,7) by (simp add: online_def)
          have dr: "do_read up False ?c = do_read up False (e\<lparr>transp := u\<rparr>)"
            using st' re go by (intro do_read_steps(3)) (simp add: on_transp_simps)
          have "offer up xs c = offer up (drop (want c) xs) e"
          proof (cases "want c < length xs")
            case True
            then have "arriving u = [Arrived (drop (want c) xs)]" using u(4) nk k by auto
            from transport_same [OF this] have "u = (transp e)\<lparr>arriving := [Arrived (drop (want c) xs)]\<rparr>"
              using u(3) te by metis
            then show ?thesis using offer_reads [OF dr] te unfolding offer_def by simp
          next
            case False
            then have "arriving u = []" using u(5) nk k by auto
            from do_read_nothing [OF oe u(1,2) this, of up] have "offer up xs c = absorb [] e"
              using offer_reads [OF dr] te by simp
            then show ?thesis using offer_nil [OF oe] False by simp
          qed
          then show ?thesis using a nk re go by simp
        qed
      qed
    qed
  qed
qed

lemma absorb_online:
  assumes o: "online c" and a: "absorb xs c = Some d" and s: "length xs < want c \<or> xs = []"
  shows "online d" "want d = want c - length xs"
proof -
  note f = online_facts [OF o]
  have t: "transp d = transp c" using absorb_transp [OF a] .
  have "awaiting d \<and> want d = want c - length xs"
  proof (cases "xs = []")
    case True
    note e = absorb_some [OF f(1) a]
    have i: "inlen d = inlen c" by (subst e(1)) (simp add: True)
    have o: "octets (inbuf d) = octets (inbuf c)" using e(2) True by (simp add: writes_def)
    have "in_ok (inbuf d)" using e(2) f(4) by (auto simp: writes_def in_ok_def settled_def)
    moreover have "settled (c\<lparr>inbuf := b, inlen := n\<rparr>)" if "in_ok b" for b n using that f(4) by (simp add: settled_def)
    ultimately have "settled d" by (subst e(1)) simp
    then show ?thesis using i o True f(3) by (simp add: awaiting_def)
  next
    case False
    then have l: "length xs < want c" using s by simp
    note fd = absorb_filled [OF f(3) a False less_imp_le [OF l]]
    note w = want_less [OF _ l fd(3)]
    have "0 < length xs" using False by simp
    then have "unat (inlen d) \<noteq> 0" using w(1) l want_le [of c] by linarith
    then have "inlen d \<noteq> 0" by auto
    then show ?thesis using fd(1) w(2) \<open>0 < length xs\<close> by (auto simp: filled_def awaiting_def)
  qed
  then show "online d" "want d = want c - length xs" using t f(6,7) by (simp_all add: online_def)
qed

text \<open>Nothing is complete while octets are missing.\<close>

lemma received_nothing:
  assumes o: "online c" and a: "absorb xs c = Some d" and l: "xs \<noteq> []" "length xs < want c"
  shows "received up False d = Some (True, d)"
proof -
  note f = online_facts [OF o]
  note fd = absorb_filled [OF f(3) a l(1) less_imp_le [OF l(2)]]
  have n: "unat (inlen d) \<noteq> 0" using fd(5) l(2) want_le [of c] by linarith
  then have "inlen d \<noteq> 0" by auto
  moreover have "length (octets (inbuf d)) \<noteq> 12" using fd(1) n by (auto simp: filled_def)
  ultimately show ?thesis using is_header [of d] fd(1) by (simp add: received_def filled_def)
qed

lemma absorb_settles:
  assumes "online c" and "absorb xs c = Some d" and "length xs < want c \<or> xs = []"
  shows "absorb [] d = Some d"
proof -
  note f = online_facts [OF assms(1)]
  have "absorb (xs @ []) c = Option.bind (absorb xs c) (absorb [])" by (rule absorb_append [OF f(1)])
  then show ?thesis using assms(2) by simp
qed

lemma offer_short:
  assumes o: "online c" and l: "length xs < want c \<or> want c = 0"
  shows "offer up xs c = absorb (take (want c) xs) c"
proof -
  have e: "offer up xs c = Option.bind (absorb (take (want c) xs) c) (\<lambda>d. if take (want c) xs = [] then Some d
     else Option.bind (received up False d) (\<lambda>(go, e). if go then offer up (drop (want c) xs) e else Some e))"
    by (rule offer_eq [OF o refl])
  show ?thesis
  proof (cases "take (want c) xs = []")
    case True
    then show ?thesis unfolding e by (cases "absorb [] c") simp_all
  next
    case False
    then have l: "length xs < want c" "xs \<noteq> []" "take (want c) xs = xs" "drop (want c) xs = []" using l by auto
    show ?thesis
    proof (cases "absorb xs c")
      case (Some d)
      note od = absorb_online(1) [OF o Some] and st = absorb_settles [OF o Some]
      have "offer up [] d = Some d" using offer_nil [OF od] st l by simp
      then show ?thesis unfolding e using Some l received_nothing [OF o Some l(2,1)] by simp
    qed (simp add: e l)
  qed
qed

lemma offer_append:
  "online c \<Longrightarrow> offer up (xs @ ys) c =
     Option.bind (offer up xs c) (\<lambda>d. if reading d then offer up ys d else Some d)"
proof (induction "length xs" arbitrary: xs c rule: less_induct)
  case less
  note o = less.prems
  note f = online_facts [OF o]
  show ?case
  proof (cases "length xs < want c \<or> want c = 0")
    case True
    define k where "k = take (want c) xs"
    have k: "k = xs \<or> want c = 0 \<and> k = []" using True by (auto simp: k_def)
    have kl: "length k < want c \<or> k = []" using True by (auto simp: k_def)
    have ox: "offer up xs c = absorb k c" using offer_short [OF o True] by (simp add: k_def)
    show ?thesis
    proof (cases "absorb k c")
      case None
      have tk: "take (want c) (xs @ ys) = k @ take (want c - length k) ys" using k by (auto simp: k_def)
      have "absorb (take (want c) (xs @ ys)) c = None"
        unfolding tk absorb_append [OF f(1)] using None by simp
      then show ?thesis using offer_eq [OF o refl, of up "xs @ ys"] ox None by simp
    next
      case (Some d)
      note od = absorb_online [OF o Some kl]
      have rd: "reading d" using online_facts(5) [OF od(1)] .
      have tk: "take (want c) (xs @ ys) = k @ take (want d) ys" "drop (want c) (xs @ ys) = drop (want d) ys \<or> want c = 0"
        using k od(2) True by (auto simp: k_def)
      have ab: "absorb (take (want c) (xs @ ys)) c = absorb (take (want d) ys) d"
        unfolding tk(1) absorb_append [OF f(1)] using Some by simp
      note e1 = offer_eq [OF o refl, of up "xs @ ys"] and e2 = offer_eq [OF od(1) refl, of up ys]
      have "offer up (xs @ ys) c = offer up ys d"
      proof (cases "take (want d) ys = []")
        case nil: True
        show ?thesis
        proof (cases "k = []")
          case True
          then have z: "take (want c) (xs @ ys) = []" using tk(1) nil by simp
          show ?thesis using e1 [unfolded z] e2 [unfolded nil] ab [unfolded z nil] by simp
        next
          case False
          then have l: "length k < want c" "xs = k" "want c \<noteq> 0" using kl k by auto
          then have "ys = []" using nil od(2) by auto
          moreover have "offer up [] d = absorb [] d" by (rule offer_nil [OF od(1)])
          ultimately show ?thesis using ox Some absorb_settles [OF o Some kl] l by simp
        qed
      next
        case False
        then have "want c \<noteq> 0" using od(2) by auto
        then have dr: "drop (want c) (xs @ ys) = drop (want d) ys" using tk(2) by simp
        show ?thesis unfolding e1 e2 ab dr using False tk(1) by simp
      qed
      then show ?thesis using ox Some rd by simp
    qed
  next
    case False
    then have l: "want c \<le> length xs" "0 < want c" by simp_all
    let ?k = "take (want c) xs"
    have k: "take (want c) (xs @ ys) = ?k" "drop (want c) (xs @ ys) = drop (want c) xs @ ys" "?k \<noteq> []" using l by auto
    note e1 = offer_eq [OF o refl, of up "xs @ ys", unfolded k] and e2 = offer_eq [OF o refl, of up xs]
    show ?thesis
    proof (cases "absorb ?k c")
      case None
      then show ?thesis by (simp add: e1 e2)
    next
      case a: (Some d)
      have fd: "filled d" "transp d = transp c" using absorb_filled(1,2) [OF f(3) a k(3)] by simp_all
      show ?thesis
      proof (cases "received up False d")
        case None
        then show ?thesis using k(3) by (simp add: e1 e2 a)
      next
        case r: (Some p)
        obtain go e where p: "p = (go, e)" by (cases p)
        note re = r [unfolded p] and keeps = received_keeps [OF fd(1) r [unfolded p]]
        show ?thesis
        proof (cases go)
          case False
          then show ?thesis using keeps(2) k(3) re by (simp add: e1 e2 a)
        next
          case True
          then have oe: "online e" using keeps(1) fd(2) f(6,7) by (simp add: online_def)
          have "length (drop (want c) xs) < length xs" using l by simp
          from less.hyps [OF this oe] show ?thesis using True k(3) re by (simp add: e1 e2 a)
        qed
      qed
    qed
  qed
qed

lemma offer_online:
  "online c \<Longrightarrow> offer up xs c = Some d \<Longrightarrow> reading d \<Longrightarrow> online d"
proof (induction "length xs" arbitrary: xs c rule: less_induct)
  case less
  note o = less.prems(1)
  note f = online_facts [OF o]
  show ?case
  proof (cases "length xs < want c \<or> want c = 0")
    case True
    then have "absorb (take (want c) xs) c = Some d" using offer_short [OF o True, of up] less.prems(2) by simp
    then show ?thesis by (rule absorb_online(1) [OF o]) (use True in auto)
  next
    case False
    then have l: "want c \<le> length xs" "0 < want c" by simp_all
    let ?k = "take (want c) xs"
    have k: "?k \<noteq> []" using l by auto
    from less.prems(2) obtain a where a: "absorb ?k c = Some a"
      "Option.bind (received up False a) (\<lambda>(go, e). if go then offer up (drop (want c) xs) e else Some e) = Some d"
      unfolding offer_eq [OF o refl] using k by (cases "absorb ?k c") auto
    have fd: "filled a" "transp a = transp c" using absorb_filled(1,2) [OF f(3) a(1) k] by simp_all
    obtain go e where re: "received up False a = Some (go, e)" using a(2) by (cases "received up False a") auto
    note keeps = received_keeps [OF fd(1) re]
    show ?thesis
    proof (cases go)
      case False
      then show ?thesis using keeps(2) re a(2) less.prems(3) by simp
    next
      case True
      then have oe: "online e" using keeps(1) fd(2) f(6,7) by (simp add: online_def)
      have "length (drop (want c) xs) < length xs" using l by simp
      from less.hyps [OF this oe] show ?thesis using a(2) re True less.prems(3) by simp
    qed
  qed
qed

section \<open>The pieces do not matter\<close>

text \<open>Piece by piece, as long as the connection is registered for reading.\<close>

fun pump :: "(buffer \<Rightarrow> bool) \<Rightarrow> octet list list \<Rightarrow> conn \<Rightarrow> conn option" where
  "pump up [] c = Some c"
| "pump up (xs # xss) c = (if reading c then Option.bind (offer up xs c) (pump up xss) else Some c)"

lemma pump_offline: "\<not> reading c \<Longrightarrow> pump up xss c = Some c"
  by (cases xss) simp_all

lemma pump_offer: "online c \<Longrightarrow> pump up (xs # xss) c = offer up (concat (xs # xss)) c"
proof (induction xss arbitrary: xs c)
  case Nil
  then show ?case using online_facts(5) by (cases "offer up xs c") simp_all
next
  case (Cons ys xss)
  have "pump up (xs # ys # xss) c = Option.bind (offer up xs c) (\<lambda>d. if reading d then offer up (concat (ys # xss)) d else Some d)"
  proof (cases "offer up xs c")
    case None
    then show ?thesis using online_facts(5) [OF Cons.prems] by simp
  next
    case (Some d)
    show ?thesis
    proof (cases "reading d")
      case True
      from Cons.IH [OF offer_online [OF Cons.prems Some True], of ys] show ?thesis
        using Some True online_facts(5) [OF Cons.prems] by simp
    next
      case False
      then show ?thesis using Some online_facts(5) [OF Cons.prems] by simp
    qed
  qed
  also have "\<dots> = offer up (xs @ concat (ys # xss)) c" by (rule offer_append [OF Cons.prems, symmetric])
  finally show ?case by simp
qed

text \<open>A connection starts online.\<close>

lemma new_conn_fields:
  "transp (new_conn m f t cd tm mx) = t" "inbuf (new_conn m f t cd tm mx) = buffer_new f 0"
  "inlen (new_conn m f t cd tm mx) = headerlen cd" "infrag (new_conn m f t cd tm mx) = None"
  "inbufs (new_conn m f t cd tm mx) = None" "gcodec (new_conn m f t cd tm mx) = cd"
  "inctx (new_conn m f t cd tm mx) = new_decoder m (buffer_new f 0) DefaultEndian None"
  "reading (new_conn m f t cd tm mx)" "max_message_size (new_conn m f t cd tm mx) = mx"
  "total_fragsize (new_conn m f t cd tm mx) = 0" "fragments (new_conn m f t cd tm mx) = []"
  "delivered (new_conn m f t cd tm mx) = []" "outbufs (new_conn m f t cd tm mx) = []"
  "inflags (new_conn m f t cd tm mx) = 0"
  by (simp_all add: new_conn_def check_idle_def Let_def)

lemma new_conn_idle:
  assumes "real_bo m" and "headerlen cd = 12"
  shows "idle (new_conn m f t cd tm mx)"
proof -
  have "in_ok (buffer_new f 0)" "octets (buffer_new f 0) = []"
    using buffer_new_wf [of f 0] by (simp_all add: in_ok_def buffer_new_def Let_def)
  then show ?thesis using assms
    by (simp add: idle_def settled_def new_conn_fields ctx_ok_def new_decoder_def quiet_def dec_cur_def)
qed

lemma new_conn_online:
  "real_bo m \<Longrightarrow> headerlen cd = 12 \<Longrightarrow> sopen t \<Longrightarrow> \<not> ateof t \<Longrightarrow> online (new_conn m f t cd tm mx)"
  using idle_awaiting [OF new_conn_idle] by (simp add: online_def new_conn_fields)

text \<open>C8: It does not matter how the network cuts the stream: a connection that is offered the
  octets in any pieces, one callback for each, is afterwards in the state it would be in had they
  arrived in one piece; all buffers, tables and delivered messages included.\<close>

theorem pieces_do_not_matter:
  assumes "online c" and "xss \<noteq> []"
  shows "pump up xss c = offer up (concat xss) c"
  using assms pump_offer by (cases xss) simp_all

definition sample_conn :: "ulong \<Rightarrow> conn" where
  "sample_conn mx = new_conn LittleEndian 0
     \<lparr>sopen = True, ateof = False, bad = False, arriving = [], accepting = [], sent = []\<rparr>
     (sample_codec None) 0 mx"

lemma sample_conn_online: "online (sample_conn mx)" "idle (sample_conn mx)"
  unfolding sample_conn_def
  by (rule new_conn_online new_conn_idle; simp add: sample_codec_def real_bo_def)+

theorem pieces_do_not_matter_witness:
  "pump (\<lambda>_. True) [[71, 73], [], [79, 80, 1]] (sample_conn 0) = offer (\<lambda>_. True) [71, 73, 79, 80, 1] (sample_conn 0)"
  using pieces_do_not_matter [OF sample_conn_online(1), of "[[71, 73], [], [79, 80, 1]]" "\<lambda>_. True" 0] by simp

end
