(* ===== verification/GIOP_Frames.thy ===== *)
theory GIOP_Frames
  imports GIOP_Stream
begin

text \<open>
  The messages of a stream. A frame is a header and the octets it announces; \<open>frame_step\<close> says, on
  lists of octets, what a frame does to a reader: deliver it, keep it as a first fragment, append it
  to the fragments of its request, or shut the connection down. The connection of \<open>GIOP_Conn\<close>
  implements it. From the specification follow what fragmentation promises, and what it does not.
\<close>

section \<open>The reader\<close>

record reader =
  r_ver :: ushort
  r_frag :: "octet list option"
  r_table :: "(ulong, octet list) std_map"
  r_total :: ulong
  r_out :: "octet list list"
  r_open :: bool

definition over :: "ulong \<Rightarrow> ulong \<Rightarrow> bool" where
  "over mx n \<longleftrightarrow> mx > 0 \<and> n > mx"

definition shut :: "reader \<Rightarrow> reader" where
  "shut r = r\<lparr>r_open := False\<rparr>"

definition deliver :: "(octet list \<Rightarrow> bool) \<Rightarrow> octet list \<Rightarrow> reader \<Rightarrow> reader" where
  "deliver ans m r = (let r = r\<lparr>r_out := r_out r @ [m]\<rparr> in if ans m then r else shut r)"

text \<open>A complete frame, by kind: \<open>mt\<close> is the type at octet 7, \<open>cont\<close> the fragment flag.\<close>

definition continue_fragments :: "(octet list \<Rightarrow> bool) \<Rightarrow> byteorder \<Rightarrow> bool \<Rightarrow> octet list \<Rightarrow> reader \<Rightarrow> reader" where
  "continue_fragments ans mach cont m r =
     (if length m < 16 then shut r
      else case map_find (id_of mach m) (r_table r) of
        None \<Rightarrow> shut r
      | Some f \<Rightarrow>
          (let r = r\<lparr>r_total := r_total r + word_of_nat (length m - 16)\<rparr>; m' = f @ drop 16 m in
           if cont then r\<lparr>r_table := map_put (id_of mach m) m' (r_table r)\<rparr>
           else deliver ans m' (r\<lparr>r_table := map_erase (id_of mach m) (r_table r)\<rparr>)))"

definition begin_fragments :: "byteorder \<Rightarrow> ulong \<Rightarrow> octet list \<Rightarrow> reader \<Rightarrow> reader" where
  "begin_fragments mach mx m r =
     (if r_ver r \<ge> 0x0102 then
        if length m < 16 \<or> over mx (word_of_nat (length m) + r_total r) \<or>
          map_find (id_of mach m) (r_table r) \<noteq> None
        then shut r
        else r\<lparr>r_table := map_put (id_of mach m) m (r_table r), r_total := r_total r + word_of_nat (length m)\<rparr>
      else if r_frag r \<noteq> None then shut r else r\<lparr>r_frag := Some m\<rparr>)"

definition complete_step ::
    "(octet list \<Rightarrow> bool) \<Rightarrow> byteorder \<Rightarrow> ulong \<Rightarrow> bool \<Rightarrow> octet list \<Rightarrow> reader \<Rightarrow> reader" where
  "complete_step ans mach mx cont m r =
     (if m ! 7 = Fragment \<and> r_ver r = 0x0102 then continue_fragments ans mach cont m r
      else if cont then begin_fragments mach mx m r
      else deliver ans m r)"

definition frame_step ::
    "(octet list \<Rightarrow> bool) \<Rightarrow> byteorder \<Rightarrow> ulong \<Rightarrow> octet list \<times> octet list \<Rightarrow> reader \<Rightarrow> reader" where
  "frame_step ans mach mx hb r =
     (case hb of (h, b) \<Rightarrow>
       (case parse_header (r_ver r) h of
         None \<Rightarrow> shut (r\<lparr>r_out := r_out r @ [h]\<rparr>)
       | Some (mt, sz, fl, w) \<Rightarrow>
           (let r = r\<lparr>r_ver := w\<rparr>; cont = (and fl GIOP_FRAGMENT_BIT \<noteq> 0) in
            if over mx sz \<or> (mt = Fragment \<or> cont) \<and> over mx (sz + r_total r) then shut r
            else if mt = Fragment \<and> w = 0x0101 then
              (case r_frag r of
                None \<Rightarrow> shut r
              | Some f \<Rightarrow> complete_step ans mach mx cont (f @ b) (r\<lparr>r_frag := None\<rparr>))
            else complete_step ans mach mx cont (h @ b) r)))"

section \<open>What of a connection the reader shows\<close>

definition view :: "conn \<Rightarrow> reader" where
  "view c = \<lparr>r_ver = giop_ver (gcodec c), r_frag = map_option octets (infrag c),
     r_table = map (\<lambda>(k, b). (k, octets b)) (fragments c), r_total = total_fragsize c,
     r_out = map octets (delivered c), r_open = reading c\<rparr>"

definition table_ok :: "conn \<Rightarrow> bool" where
  "table_ok c \<longleftrightarrow> map_ok (fragments c) \<and>
     (\<forall>(k, b) \<in> set (fragments c). in_ok b \<and> 0 < length (octets b) \<and> length (octets b) \<le> unat (total_fragsize c))"

text \<open>Room for \<open>n\<close> more octets in every buffer, below the 32-bit positions.\<close>

definition space :: "nat \<Rightarrow> conn \<Rightarrow> bool" where
  "space n c \<longleftrightarrow> unat (total_fragsize c) +
     (case infrag c of None \<Rightarrow> 0 | Some b \<Rightarrow> length (octets b)) + n < 4294967296"

lemma map_find_view: "map_find k (map (\<lambda>(k, b). (k, octets b)) m) = map_option octets (map_find k m)"
  by (induction m) (auto simp: map_find_def)

lemma map_put_view: "map (\<lambda>(k, b). (k, octets b)) (map_put k b m) = map_put k (octets b) (map (\<lambda>(k, b). (k, octets b)) m)"
  by (induction k b m rule: map_put.induct) auto

lemma map_erase_view: "map (\<lambda>(k, b). (k, octets b)) (map_erase k m) = map_erase k (map (\<lambda>(k, b). (k, octets b)) m)"
  by (induction m) (auto simp: map_erase_def)

lemmas view_map = map_find_view map_put_view map_erase_view

lemma view_fields:
  "r_ver (view c) = giop_ver (gcodec c)" "r_frag (view c) = map_option octets (infrag c)"
  "r_table (view c) = map (\<lambda>(k, b). (k, octets b)) (fragments c)" "r_total (view c) = total_fragsize c"
  "r_out (view c) = map octets (delivered c)" "r_open (view c) = reading c"
  by (simp_all add: view_def)

lemma map_erase_put: "map_erase k (map_put k v m) = map_erase k m"
  by (induction k v m rule: map_put.induct) (auto simp: map_erase_def)

lemma view_close: "view (close_connection c) = shut (view c)"
  by (simp add: view_def close_connection_def shut_def)

lemma view_handed:
  assumes "up = ans \<circ> octets"
  shows "view (handed up b c) = deliver ans (octets b) (view c)"
  using assms by (simp add: handed_def deliver_def Let_def view_def close_connection_def shut_def)

lemma set_map_put: "set (map_put k v m) \<subseteq> insert (k, v) (set m)"
  by (induction k v m rule: map_put.induct) auto

section \<open>A complete frame\<close>

text \<open>What every step keeps besides the view.\<close>

definition steady :: "conn \<Rightarrow> conn \<Rightarrow> bool" where
  "steady c c' \<longleftrightarrow> table_ok c' \<and> max_message_size c' = max_message_size c \<and>
     d_mach_bo (inctx c') = d_mach_bo (inctx c)"

lemma handed_fields:
  "fragments (handed up b c) = fragments c" "total_fragsize (handed up b c) = total_fragsize c"
  "max_message_size (handed up b c) = max_message_size c" "inctx (handed up b c) = inctx c"
  "reading (handed up b c) \<longleftrightarrow> up b \<and> reading c"
  by (simp_all add: handed_def close_connection_def Let_def)

lemma close_fields:
  "fragments (close_connection c) = fragments c" "total_fragsize (close_connection c) = total_fragsize c"
  "max_message_size (close_connection c) = max_message_size c" "inctx (close_connection c) = inctx c"
  by (simp_all add: close_connection_def)

lemmas same_table = steady_def table_ok_def handed_fields close_fields

lemma whole_message_frame:
  assumes s: "settled c" and t: "table_ok c" and up: "up = ans \<circ> octets"
  shows "\<exists>go c'. whole_message up False c = Some (go, c') \<and> (go \<longleftrightarrow> reading c') \<and> steady c c' \<and>
     view c' = deliver ans (octets (inbuf c)) (view c)"
proof -
  let ?d = "c\<lparr>inbuf := next_buffer c, inlen := 12\<rparr>"
  have "view (handed up (inbuf c) ?d) = deliver ans (octets (inbuf c)) (view ?d)" by (rule view_handed [OF up])
  moreover have "view ?d = view c" by (simp add: view_def)
  moreover have "reading c" using s by (simp add: settled_def)
  ultimately show ?thesis using t
    by (simp add: whole_message_eq [OF s] same_table)
qed

lemma in_ok_short: "in_ok b \<Longrightarrow> buf_length b < 16 \<longleftrightarrow> length (octets b) < 16"
  by (simp add: word_less_nat_alt in_ok_length)

lemma over_limit_view: "over_limit c n = over (max_message_size c) n"
  by (simp add: over_limit_def over_def)

lemma unat_total:
  assumes "unat t + n < 4294967296"
  shows "unat (t + word_of_nat n :: ulong) = unat t + n"
proof -
  have "unat (word_of_nat n :: ulong) = n" using assms by (simp add: nowrap)
  then show ?thesis using assms by (simp add: nowrap)
qed

lemma first_fragment_frame:
  assumes s: "settled c" and t: "table_ok c" and len: "12 \<le> length (octets (inbuf c))"
    and sp: "unat (total_fragsize c) + length (octets (inbuf c)) < 4294967296"
  shows "\<exists>go c'. first_fragment c = Some (go, c') \<and> (go \<longleftrightarrow> reading c') \<and> steady c c' \<and>
     view c' = begin_fragments (d_mach_bo (inctx c)) (max_message_size c) (octets (inbuf c)) (view c)"
proof -
  let ?m = "octets (inbuf c)" and ?M = "d_mach_bo (inctx c)"
  have io: "in_ok (inbuf c)" "reading c" "headerlen (gcodec c) = 12" using s by (simp_all add: settled_def)
  have lt: "(word_of_nat (length ?m) :: ulong) < 16 \<longleftrightarrow> length ?m < 16"
    using in_ok_short [OF io(1)] by (simp add: in_ok_length_word [OF io(1)])
  show ?thesis
  proof (cases "giop_ver (gcodec c) \<ge> 0x0102")
    case False
    note old = this
    show ?thesis
    proof (cases "infrag c")
      case None
      let ?d = "c\<lparr>infrag := Some (inbuf c), inbuf := next_buffer c, inlen := 12\<rparr>"
      have "first_fragment c = Some (True, ?d)" using old None io(3) by (simp add: first_fragment_def)
      moreover have "view ?d = begin_fragments ?M (max_message_size c) ?m (view c)"
        using old None by (simp add: begin_fragments_def view_def)
      ultimately show ?thesis using t io(2) by (auto simp: same_table)
    next
      case (Some b)
      have "first_fragment c = Some (False, close_connection c)" using old Some by (simp add: first_fragment_def stop_def)
      moreover have "view (close_connection c) = begin_fragments ?M (max_message_size c) ?m (view c)"
        using old Some by (simp add: begin_fragments_def view_close view_fields)
      ultimately show ?thesis using t by (auto simp: same_table)
    qed
  next
    case v: True
    show ?thesis
    proof (cases "length ?m < 16 \<or> over (max_message_size c) (word_of_nat (length ?m) + total_fragsize c)")
      case True
      then have "first_fragment c = Some (False, close_connection c)"
        using v by (auto simp: first_fragment_def stop_def lt over_limit_view in_ok_length_word [OF io(1)])
      moreover have "begin_fragments ?M (max_message_size c) ?m (view c) = shut (view c)"
        using True v by (auto simp: begin_fragments_def view_fields)
      ultimately show ?thesis using t by (auto simp: view_close same_table)
    next
      case ok: False
      then have l16: "16 \<le> length ?m" by simp
      note i = fragment_id_reads(1) [OF io(1) l16]
      have b0: "snd (rseek_beg 0 ((inbuf c)\<lparr>rptr := 16\<rparr>)) = inbuf c"
        using io(1) by (simp add: rseek_beg_def in_ok_def)
      show ?thesis
      proof (cases "map_find (id_of ?M ?m) (fragments c)")
        case (Some b)
        let ?d = "c\<lparr>inbuf := (inbuf c)\<lparr>rptr := 16\<rparr>\<rparr>"
        have "first_fragment c = Some (False, close_connection ?d)"
          using v ok i Some by (simp add: first_fragment_def stop_def lt over_limit_view in_ok_length_word [OF io(1)])
        moreover have "begin_fragments ?M (max_message_size c) ?m (view c) = shut (view c)"
          using v Some by (simp add: begin_fragments_def view_fields view_map)
        moreover have "view (close_connection ?d) = shut (view c)"
          unfolding view_close by (simp add: view_def)
        ultimately show ?thesis using t by (auto simp: same_table)
      next
        case None
        let ?d = "c\<lparr>fragments := map_put (id_of ?M ?m) (inbuf c) (fragments c),
          total_fragsize := total_fragsize c + buf_length (inbuf c), inbuf := next_buffer c, inlen := 12\<rparr>"
        have f: "first_fragment c = Some (True, ?d)"
          using v ok i None b0 io(3)
          by (simp add: first_fragment_def lt over_limit_view in_ok_length_word [OF io(1)]
              next_buffer_def)
        have u: "unat (total_fragsize ?d) = unat (total_fragsize c) + length ?m"
          using unat_total [OF sp] by (simp add: in_ok_length_word [OF io(1)])
        have "table_ok ?d"
        proof -
          have "in_ok b \<and> 0 < length (octets b) \<and> length (octets b) \<le> unat (total_fragsize ?d)"
            if "(k, b) \<in> set (fragments ?d)" for k b
          proof -
            from that have "(k, b) = (id_of ?M ?m, inbuf c) \<or> (k, b) \<in> set (fragments c)"
              using set_map_put by fastforce
            then show ?thesis
            proof
              assume "(k, b) = (id_of ?M ?m, inbuf c)"
              then have b: "b = inbuf c" by simp
              show ?thesis unfolding u b using io(1) l16 by linarith
            next
              assume "(k, b) \<in> set (fragments c)"
              then have "in_ok b" "0 < length (octets b)" "length (octets b) \<le> unat (total_fragsize c)"
                using t by (auto simp: table_ok_def)
              then show ?thesis unfolding u by linarith
            qed
          qed
          moreover have "map_ok (fragments ?d)" using t by (simp add: table_ok_def map_ok_put)
          ultimately show ?thesis unfolding table_ok_def by blast
        qed
        moreover have "view ?d = begin_fragments ?M (max_message_size c) ?m (view c)"
          using v ok None by (simp add: begin_fragments_def view_fields view_map in_ok_length_word [OF io(1)])
        ultimately show ?thesis using f io(2) by (auto simp: steady_def)
      qed
    qed
  qed
qed


lemma next_fragment_frame:
  assumes s: "settled c" and t: "table_ok c" and len: "12 \<le> length (octets (inbuf c))" and up: "up = ans \<circ> octets"
    and sp: "unat (total_fragsize c) + length (octets (inbuf c)) < 4294967296"
  shows "\<exists>go c'. next_fragment up False c = Some (go, c') \<and> (go \<longleftrightarrow> reading c') \<and> steady c c' \<and>
     view c' = continue_fragments ans (d_mach_bo (inctx c)) (and (inflags c) GIOP_FRAGMENT_BIT \<noteq> 0)
       (octets (inbuf c)) (view c)"
proof -
  let ?m = "octets (inbuf c)" and ?M = "d_mach_bo (inctx c)" and ?F = "and (inflags c) GIOP_FRAGMENT_BIT \<noteq> 0"
  have io: "in_ok (inbuf c)" "reading c" using s by (simp_all add: settled_def)
  show ?thesis
  proof (cases "length ?m < 16")
    case True
    then have "next_fragment up False c = Some (False, close_connection c)"
      by (simp add: next_fragment_def in_ok_short [OF io(1)] stop_def)
    moreover have "view (close_connection c) = continue_fragments ans ?M ?F ?m (view c)"
      using True by (simp add: continue_fragments_def view_close)
    ultimately show ?thesis using t by (auto simp: same_table)
  next
    case False
    then have l16: "16 \<le> length ?m" by simp
    note i = fragment_id_reads(1) [OF io(1) l16]
    show ?thesis
    proof (cases "map_find (id_of ?M ?m) (fragments c)")
      case None
      let ?d = "c\<lparr>inbuf := (inbuf c)\<lparr>rptr := 16\<rparr>\<rparr>"
      have "next_fragment up False c = Some (False, close_connection ?d)"
        using False None i by (simp add: next_fragment_def in_ok_short [OF io(1)] stop_def)
      moreover have "view (close_connection ?d) = continue_fragments ans ?M ?F ?m (view c)"
      proof -
        have "view ?d = view c" by (simp add: view_def)
        note vd = this
        show ?thesis unfolding view_close vd using l16 None by (simp add: continue_fragments_def view_fields view_map)
      qed
      ultimately show ?thesis using t by (auto simp: same_table)
    next
      case (Some fb)
      have fb: "in_ok fb" "0 < length (octets fb)" "length (octets fb) \<le> unat (total_fragsize c)"
      proof -
        have "(id_of ?M ?m, fb) \<in> set (fragments c)"
          using Some t map_find_entries [of "fragments c"] by (simp add: table_ok_def)
        then show "in_ok fb" "0 < length (octets fb)" "length (octets fb) \<le> unat (total_fragsize c)"
          using t unfolding table_ok_def by blast+
      qed
      let ?x = "drop 16 ?m"
      have bl: "buf_length (inbuf c) - 16 = word_of_nat (length ?m - 16)"
        using l16 by (simp add: in_ok_length_word [OF io(1)] of_nat_diff)
      have bu: "unat (word_of_nat (length ?m - 16) :: ulong) = length ?m - 16" using sp by (simp add: nowrap)
      have u: "unat (total_fragsize c + word_of_nat (length ?m - 16)) = unat (total_fragsize c) + (length ?m - 16)"
        using sp by (intro unat_total) linarith
      have "unat (wptr fb) = length (octets fb)" using in_ok_octets(2) [OF fb(1)] by simp
      then have "unat (wptr fb) + unat (word_of_nat (length ?m - 16) :: ulong) < 4294967296" using fb(3) sp bu by linarith
      then obtain b where b: "put ?x (word_of_nat (length ?m - 16)) fb = Some b" "writes fb ?x b"
        using put_writes [of fb "word_of_nat (length ?m - 16)" ?x] fb(1) bu by (auto simp: in_ok_def)
      have bo: "in_ok b" "octets b = octets fb @ ?x" using b(2) fb(1) by (auto simp: writes_def in_ok_def)
      have "unat (total_fragsize c + word_of_nat (length ?m - 16)) \<noteq> 0" unfolding u using fb(2,3) by linarith
      then have nz: "total_fragsize c + (buf_length (inbuf c) - 16) \<noteq> 0" unfolding bl by auto
      let ?id = "id_of ?M ?m"
      have eq: "next_fragment up False c = Some (after_fragment up False ?id b c)"
        using next_fragment_eq [OF s l16 Some _ nz, of b up False] b(1) bl by simp
      let ?d = "c\<lparr>total_fragsize := total_fragsize c + word_of_nat (length ?m - 16),
         inbuf := buf_reset MINSIZE ((inbuf c)\<lparr>rptr := 16\<rparr>), inlen := 12\<rparr>"
      let ?more = "?d\<lparr>fragments := map_put ?id b (fragments c)\<rparr>"
        and ?last = "?d\<lparr>fragments := map_erase ?id (map_put ?id b (fragments c))\<rparr>"
      have after: "after_fragment up False ?id b c = (if ?F then (True, ?more) else (up b, handed up b ?last))"
        unfolding after_fragment_def bl by (simp add: Let_def)
      have entries: "in_ok a \<and> 0 < length (octets a) \<and> length (octets a) \<le> unat (total_fragsize ?d)"
        if "(k, a) \<in> set (map_put ?id b (fragments c))" for k a
      proof -
        from that have "(k, a) = (?id, b) \<or> (k, a) \<in> set (fragments c)" using set_map_put by fastforce
        then show ?thesis
        proof
          assume "(k, a) = (?id, b)"
          then have a: "a = b" by simp
          have "length (octets a) = length (octets fb) + (length ?m - 16)" unfolding a bo(2) by simp
          moreover have "unat (total_fragsize ?d) = unat (total_fragsize c) + (length ?m - 16)" using u by simp
          ultimately show ?thesis using fb(2,3) bo(1) a by simp
        next
          assume "(k, a) \<in> set (fragments c)"
          then have "in_ok a" "0 < length (octets a)" "length (octets a) \<le> unat (total_fragsize c)"
            using t by (auto simp: table_ok_def)
          moreover have "unat (total_fragsize ?d) = unat (total_fragsize c) + (length ?m - 16)" using u by simp
          ultimately show ?thesis by simp
        qed
      qed
      have mo: "map_ok (map_put ?id b (fragments c))" using t by (simp add: table_ok_def map_ok_put)
      have tm: "table_ok ?more" unfolding table_ok_def using entries mo by auto
      have tl: "table_ok ?last" unfolding table_ok_def using entries mo by (auto simp: map_ok_erase) (auto simp: map_erase_def)
      let ?r = "(view c)\<lparr>r_total := r_total (view c) + word_of_nat (length ?m - 16)\<rparr>"
      have cf: "continue_fragments ans ?M ?F ?m (view c) =
         (if ?F then ?r\<lparr>r_table := map_put ?id (octets b) (r_table (view c))\<rparr>
          else deliver ans (octets b) (?r\<lparr>r_table := map_erase ?id (r_table (view c))\<rparr>))"
        using l16 Some bo(2) by (simp add: continue_fragments_def view_fields view_map Let_def)
      have vm: "view ?more = ?r\<lparr>r_table := map_put ?id (octets b) (r_table (view c))\<rparr>"
        by (simp add: view_def view_map)
      have vl: "view ?last = ?r\<lparr>r_table := map_erase ?id (r_table (view c))\<rparr>"
        by (simp add: view_def view_map map_erase_put)
      show ?thesis
      proof (cases ?F)
        case True
        then show ?thesis using eq after tm cf vm io(2) by (auto simp: steady_def)
      next
        case False
        have "view (handed up b ?last) = deliver ans (octets b) (view ?last)" by (rule view_handed [OF up])
        then show ?thesis using False eq after tl cf vl io(2) by (auto simp: same_table)
      qed
    qed
  qed
qed

lemma message_step_frame:
  assumes s: "settled c" and t: "table_ok c" and len: "12 \<le> length (octets (inbuf c))" and up: "up = ans \<circ> octets"
    and sp: "unat (total_fragsize c) + length (octets (inbuf c)) < 4294967296"
  shows "\<exists>go c'. message_step up False c = Some (go, c') \<and> (go \<longleftrightarrow> reading c') \<and> steady c c' \<and>
     view c' = complete_step ans (d_mach_bo (inctx c)) (max_message_size c)
       (and (inflags c) GIOP_FRAGMENT_BIT \<noteq> 0) (octets (inbuf c)) (view c)"
  unfolding message_step_eq [OF s len] complete_step_def
  using next_fragment_frame [OF s t len up sp] first_fragment_frame [OF s t len sp] whole_message_frame [OF s t up]
  by (simp add: view_fields)

section \<open>A frame through the connection\<close>

definition framed :: "ushort \<Rightarrow> octet list \<times> octet list \<Rightarrow> bool" where
  "framed ver hb \<longleftrightarrow> (case hb of (h, b) \<Rightarrow> length h = 12 \<and> length b < 2147483648 \<and>
     (case parse_header ver h of None \<Rightarrow> True | Some (mt, sz, fl, w) \<Rightarrow> unat sz = length b))"

definition between :: "conn \<Rightarrow> bool" where
  "between c \<longleftrightarrow> online c \<and> idle c \<and> table_ok c"

lemma absorb_room:
  assumes wf: "buf_wf (inbuf c)" and l: "length xs \<le> unat (inlen c)"
    and room: "unat (wptr (inbuf c)) + unat (inlen c) < 4294967296"
  shows "\<exists>d. absorb xs c = Some d"
proof -
  obtain b where b: "resize (inlen c) (inbuf c) = Some b" "writes (inbuf c) [] b"
    "unat (wptr (inbuf c)) + unat (inlen c) \<le> unat (blen b)"
    using resize_writes [OF wf room] by auto
  have wfb: "buf_wf b" and "unat (wptr b) = unat (wptr (inbuf c))" using b(2) by (auto simp: writes_def)
  then have "unat (wptr b) + length xs \<le> unat (blen b)" using b(3) l by linarith
  then obtain b' where "store_octets xs b = Some b'" using store_octets_writes [OF wfb] by blast
  then show ?thesis using b(1) by (simp add: absorb_def)
qed

lemma absorb_view:
  assumes "buf_wf (inbuf c)" and "absorb xs c = Some d"
  shows "view d = view c" "table_ok d = table_ok c" "max_message_size d = max_message_size c"
    "inctx d = inctx c" "gcodec d = gcodec c" "infrag d = infrag c" "total_fragsize d = total_fragsize c"
    "inflags d = inflags c" "delivered d = delivered c" "reading d = reading c" "fragments d = fragments c"
  by (subst absorb_some(1) [OF assms]; simp add: view_def table_ok_def)+

text \<open>A connection that has its message and goes on is back between two messages.\<close>

lemma settle_down:
  assumes i: "idle e" and o: "sopen (transp e)" "\<not> ateof (transp e)" and t: "table_ok e"
  shows "\<exists>c'. offer up [] e = Some c' \<and> view c' = view e \<and> steady e c' \<and> between c'"
proof -
  have oe: "online e" using idle_awaiting [OF i] o by (simp add: online_def)
  note f = online_facts [OF oe]
  have "unat (wptr (inbuf e)) = 0" using i in_ok_octets(2) [of "inbuf e"] by (simp add: idle_def settled_def)
  moreover have "inlen e = 12" using i by (simp add: idle_def)
  ultimately obtain c' where c': "absorb [] e = Some c'" using absorb_room [OF f(1), of "[]"] by auto
  note v = absorb_view [OF f(1) c'] and w = absorb_some [OF f(1) c']
  have oc: "online c'" using absorb_online(1) [OF oe c'] by simp
  have "octets (inbuf c') = []" "inlen c' = 12"
    using w(2) i by (simp add: writes_def idle_def, subst w(1), simp add: \<open>inlen e = 12\<close>)
  then have "between c'" using oc online_facts(4) [OF oc] v(2) t by (simp add: between_def idle_def)
  then show ?thesis using offer_nil [OF oe, of up] c' v t by (simp add: steady_def)
qed

text \<open>From the header on: the octets of the body arrive and the message is complete.\<close>

lemma body_arrives:
  assumes s: "settled a" and t: "sopen (transp a)" "\<not> ateof (transp a)" "table_ok a"
    and len: "12 \<le> length (octets (inbuf a))" and n: "unat (inlen a) = length b" "length b < 2147483648"
    and room: "length (octets (inbuf a)) + unat (total_fragsize a) + length b < 4294967296" and up: "up = ans \<circ> octets"
  shows "\<exists>c'. Option.bind (if inlen a = 0 then message_step up False a else Some (True, a))
       (\<lambda>(go, e). if go then offer up b e else Some e) = Some c' \<and>
     view c' = complete_step ans (d_mach_bo (inctx a)) (max_message_size a)
       (and (inflags a) GIOP_FRAGMENT_BIT \<noteq> 0) (octets (inbuf a) @ b) (view a) \<and>
     steady a c' \<and> (reading c' \<longrightarrow> between c')"
proof -
  have wf: "buf_wf (inbuf a)" using s by (simp add: settled_def in_ok_def)
  have fin: "\<exists>c'. Option.bind (message_step up False e) (\<lambda>(go, e). if go then offer up [] e else Some e) = Some c' \<and>
     view c' = complete_step ans (d_mach_bo (inctx e)) (max_message_size e)
       (and (inflags e) GIOP_FRAGMENT_BIT \<noteq> 0) (octets (inbuf e)) (view e) \<and> steady e c' \<and> (reading c' \<longrightarrow> between c')"
    if e: "settled e" "table_ok e" "12 \<le> length (octets (inbuf e))" "transp e = transp a"
      "unat (total_fragsize e) + length (octets (inbuf e)) < 4294967296" for e
  proof -
    obtain go c2 where m: "message_step up False e = Some (go, c2)" "go \<longleftrightarrow> reading c2" "steady e c2"
      "view c2 = complete_step ans (d_mach_bo (inctx e)) (max_message_size e)
         (and (inflags e) GIOP_FRAGMENT_BIT \<noteq> 0) (octets (inbuf e)) (view e)"
      using message_step_frame [OF e(1-3) up e(5)] by blast
    show ?thesis
    proof (cases go)
      case False
      then show ?thesis using m by simp
    next
      case True
      have "idle c2" "transp c2 = transp a" using message_step_keeps(1) [OF e(1,3) m(1) True] e(4) by simp_all
      then obtain c' where "offer up [] c2 = Some c'" "view c' = view c2" "steady c2 c'" "between c'"
        using settle_down [of c2 up] t m(3) by (auto simp: steady_def)
      then show ?thesis using m True by (auto simp: steady_def)
    qed
  qed
  show ?thesis
  proof (cases "b = []")
    case True
    then have "inlen a = 0" using n(1) by (simp add: unat_eq_0)
    then show ?thesis unfolding True using fin [of a] s t(3) len room by (simp add: add.commute True)
  next
    case False
    then have nz: "inlen a \<noteq> 0" using n(1) by auto
    have aw: "awaiting a" using s nz len by (simp add: awaiting_def)
    then have oa: "online a" using t by (simp add: online_def)
    have w: "want a = length b" using sint_ulong_small [of "inlen a"] n by simp
    have "unat (wptr (inbuf a)) = length (octets (inbuf a))" using s in_ok_octets(2) by (simp add: settled_def)
    then have rm: "unat (wptr (inbuf a)) + unat (inlen a) < 4294967296" using room n(1) by linarith
    obtain e where e: "absorb b a = Some e" using absorb_room [OF wf _ rm, of b] n(1) by auto
    note fe = absorb_filled [OF aw e False] and ve = absorb_view [OF wf e]
    have "0 < length b" using False by simp
    moreover have "length (octets (inbuf e)) = length (octets (inbuf a)) + length b" using fe(4) w by simp
    ultimately have "12 < length (octets (inbuf e))" using len by linarith
    then have le: "settled e" "12 < length (octets (inbuf e))" "inlen e = 0" "octets (inbuf e) = octets (inbuf a) @ b"
      "transp e = transp a"
      using fe w n(1) by (simp_all add: filled_def unat_eq_0)
    have "received up False e = message_step up False e"
      using is_header [OF le(1)] le(2,3) by (cases "message_step up False e") (auto simp: received_def)
    moreover have td: "take (want a) b = b" "drop (want a) b = []" using w by simp_all
    ultimately have "offer up b a = Option.bind (message_step up False e) (\<lambda>(go, e). if go then offer up [] e else Some e)"
      using offer_eq [OF oa refl, of up b, unfolded td] e False by simp
    moreover have "unat (total_fragsize e) + length (octets (inbuf e)) < 4294967296"
      using ve(7) le(4) room by simp
    ultimately show ?thesis
      using fin [of e] le ve t(3) nz by (simp add: steady_def)
  qed
qed


text \<open>Each frame, header and announced body, does to the connection what \<open>frame_step\<close> says it does:
  deliver, store, append or shut down. The connection neither aborts nor loses octets, keeps its other
  messages, and if it is still open it is again between two messages.\<close>

lemma frame_refines:
  assumes c: "between c" and f: "framed (r_ver (view c)) (h, b)" and sp: "space (12 + length b) c"
    and up: "up = ans \<circ> octets"
  shows "\<exists>c'. offer up (h @ b) c = Some c' \<and>
     view c' = frame_step ans (d_mach_bo (inctx c)) (max_message_size c) (h, b) (view c) \<and>
     steady c c' \<and> (reading c' \<longrightarrow> between c')"
proof -
  have on: "online c" and id: "idle c" and tk: "table_ok c" using c by (simp_all add: between_def)
  note o = online_facts [OF on]
  have len: "length h = 12" "length b < 2147483648" using f by (simp_all add: framed_def)
  have i12: "inlen c = 12" "octets (inbuf c) = []" using id by (simp_all add: idle_def)
  then have w: "want c = 12" by simp
  have "unat (wptr (inbuf c)) = 0" using i12(2) o(4) in_ok_octets(2) [of "inbuf c"] by (simp add: settled_def)
  then obtain d where d: "absorb h c = Some d" using absorb_room [OF o(1), of h] i12(1) len(1) by auto
  have hn: "h \<noteq> []" using len(1) by auto
  note fd = absorb_filled [OF o(3) d hn] and vd = absorb_view [OF o(1) d]
  have dd: "settled d" "inlen d = 0" "octets (inbuf d) = h" "transp d = transp c"
    using fd w len(1) i12 by (auto simp: filled_def unat_eq_0)
  have l12: "length (octets (inbuf d)) = 12" using dd(3) len(1) by simp
  obtain x where x: "ctx_ok x" "d_mach_bo x = d_mach_bo (inctx c)" "header_step up d = Some (after_header up x d)"
    using header_step_eq [OF dd(1,2) l12, of up] vd(4) by auto
  obtain g a where a: "after_header up x d = (g, a)" by (cases "after_header up x d")
  note keeps = after_header_keeps [OF dd(1) l12 x(1) a]
  have off: "offer up (h @ b) c = Option.bind (if g \<and> inlen a = 0 then message_step up False a else Some (g, a))
      (\<lambda>(go, e). if go then offer up b e else Some e)"
  proof -
    have td: "take (want c) (h @ b) = h" "drop (want c) (h @ b) = b" using w len(1) by simp_all
    show ?thesis
      using offer_eq [OF on refl, of up "h @ b", unfolded td] d hn is_header [OF dd(1)] l12 x(3) a
      by (simp add: received_def)
  qed
  let ?mach = "d_mach_bo (inctx c)" and ?mx = "max_message_size c"
  have ver: "giop_ver (gcodec d) = r_ver (view c)" using vd(5) by (simp add: view_fields)
  have shutdown: ?thesis
    if "\<not> g" "view a = frame_step ans ?mach ?mx (h, b) (view c)" "steady c a"
    using that off keeps(2) by simp
  have goes: ?thesis
    if ga: "g" "unat (inlen a) = length b" "inctx a = x" "max_message_size a = ?mx" "total_fragsize a = total_fragsize c" "table_ok a"
      and oa: "length (octets (inbuf a)) \<le> (case infrag c of None \<Rightarrow> 0 | Some f \<Rightarrow> length (octets f)) + 12"
      and va: "complete_step ans ?mach ?mx (and (inflags a) GIOP_FRAGMENT_BIT \<noteq> 0) (octets (inbuf a) @ b) (view a) =
        frame_step ans ?mach ?mx (h, b) (view c)"
  proof -
    note k = keeps(1) [OF ga(1)]
    have "length (octets (inbuf a)) + unat (total_fragsize a) + length b < 4294967296"
      unfolding ga(5) using sp oa unfolding space_def by linarith
    from body_arrives [of a b up ans, OF _ _ _ ga(6) _ ga(2) len(2) this up] show ?thesis
      using k o(6,7) dd(4) off ga va x(2) by (auto simp: steady_def)
  qed
  note ah = a [unfolded after_header_def dd(3) ver, symmetric]
  show ?thesis
  proof (cases "parse_header (r_ver (view c)) h")
    case None
    let ?e = "d\<lparr>inctx := x, inbuf := next_buffer d, inlen := headerlen (gcodec d), reading := False\<rparr>"
    have ga: "\<not> g" "a = handed up (inbuf d) ?e" using ah None by simp_all
    have "view a = deliver ans h (view ?e)" unfolding ga(2) dd(3) [symmetric] by (rule view_handed [OF up])
    also have "view ?e = shut (view d)" by (simp add: view_def shut_def)
    finally have "view a = frame_step ans ?mach ?mx (h, b) (view c)"
      using None vd(1) by (simp add: frame_step_def deliver_def shut_def Let_def)
    moreover have "steady c a" using ga(2) vd(2,3) tk x(2) by (simp add: same_table)
    ultimately show ?thesis using shutdown ga(1) by blast
  next
    case (Some p)
    obtain mt sz fl wv where p: "p = (mt, sz, fl, wv)" by (cases p)
    let ?e = "d\<lparr>inctx := x, gcodec := (gcodec d)\<lparr>giop_ver := wv\<rparr>, inlen := sz, inflags := fl\<rparr>"
    let ?r = "(view c)\<lparr>r_ver := wv\<rparr>"
    let ?bad = "over ?mx sz \<or> (mt = Fragment \<or> and fl GIOP_FRAGMENT_BIT \<noteq> 0) \<and> over ?mx (sz + total_fragsize c)"
    have szb: "unat sz = length b" using f Some p by (simp add: framed_def)
    have ve: "view ?e = ?r" using vd by (simp add: view_def)
    have te: "table_ok ?e" using vd(2) tk by (simp add: table_ok_def)
    have ah2: "(g, a) = (if ?bad \<or> mt = Fragment \<and> wv = 0x0101 \<and> infrag c = None then (False, close_connection ?e)
       else if mt = Fragment \<and> wv = 0x0101 then (True, ?e\<lparr>inbuf := the (infrag c), infrag := None\<rparr>) else (True, ?e))"
      using ah Some p vd(3,6,7) by (simp add: Let_def over_limit_view cong: if_cong)
    have fs: "frame_step ans ?mach ?mx (h, b) (view c) = (if ?bad then shut ?r
       else if mt = Fragment \<and> wv = 0x0101 then (case map_option octets (infrag c) of None \<Rightarrow> shut ?r
         | Some f \<Rightarrow> complete_step ans ?mach ?mx (and fl GIOP_FRAGMENT_BIT \<noteq> 0) (f @ b) (?r\<lparr>r_frag := None\<rparr>))
       else complete_step ans ?mach ?mx (and fl GIOP_FRAGMENT_BIT \<noteq> 0) (h @ b) ?r)"
      using Some p by (simp add: frame_step_def Let_def view_fields split del: if_split cong: if_cong)
    show ?thesis
    proof (cases "?bad \<or> mt = Fragment \<and> wv = 0x0101 \<and> infrag c = None")
      case True
      have "(g, a) = (False, close_connection ?e)" using ah2 unfolding if_P [OF True] .
      then have ga: "\<not> g" "a = close_connection ?e" by simp_all
      have "view a = shut ?r" unfolding ga(2) view_close ve ..
      also have "\<dots> = frame_step ans ?mach ?mx (h, b) (view c)" using fs True by auto
      finally show ?thesis using shutdown ga te vd(3) x(2) by (simp add: same_table)
    next
      case no: False
      then have nb: "\<not> ?bad" by blast
      show ?thesis
      proof (cases "mt = Fragment \<and> wv = 0x0101")
        case True
        then obtain fb where fb: "infrag c = Some fb" using no by auto
        let ?a = "?e\<lparr>inbuf := fb, infrag := None\<rparr>"
        have "(g, a) = (True, ?a)" using ah2 unfolding if_not_P [OF no] if_P [OF True] by (simp add: fb)
        then have ga: "g" "a = ?a" by simp_all
        have va: "view ?a = ?r\<lparr>r_frag := None\<rparr>" using ve by (simp add: view_def)
        have "complete_step ans ?mach ?mx (and (inflags ?a) GIOP_FRAGMENT_BIT \<noteq> 0) (octets (inbuf ?a) @ b) (view ?a) =
            frame_step ans ?mach ?mx (h, b) (view c)"
          unfolding va fs if_not_P [OF nb] if_P [OF True] by (simp add: fb)
        then show ?thesis using goes ga szb vd(3,7) te fb by (simp add: table_ok_def)
      next
        case False
        have "(g, a) = (True, ?e)" using ah2 unfolding if_not_P [OF no] if_not_P [OF False] .
        then have ga: "g" "a = ?e" by simp_all
        have "complete_step ans ?mach ?mx (and (inflags ?e) GIOP_FRAGMENT_BIT \<noteq> 0) (octets (inbuf ?e) @ b) (view ?e) =
            frame_step ans ?mach ?mx (h, b) (view c)"
          unfolding ve fs if_not_P [OF nb] if_not_P [OF False] by (simp add: dd(3))
        then show ?thesis using goes ga szb vd(3,7) te dd(3) len(1) by simp
      qed
    qed
  qed
qed

section \<open>A stream of frames\<close>

abbreviation frame_octets :: "octet list \<times> octet list \<Rightarrow> octet list" where
  "frame_octets f \<equiv> fst f @ snd f"

fun run_frames ::
    "(octet list \<Rightarrow> bool) \<Rightarrow> byteorder \<Rightarrow> ulong \<Rightarrow> (octet list \<times> octet list) list \<Rightarrow> reader \<Rightarrow> reader" where
  "run_frames ans mach mx [] r = r"
| "run_frames ans mach mx (f # fs) r =
     (if r_open r then run_frames ans mach mx fs (frame_step ans mach mx f r) else r)"

text \<open>Each frame is one for the version the reader has reached, as long as it is open.\<close>

fun frames_ok ::
    "(octet list \<Rightarrow> bool) \<Rightarrow> byteorder \<Rightarrow> ulong \<Rightarrow> (octet list \<times> octet list) list \<Rightarrow> reader \<Rightarrow> bool" where
  "frames_ok ans mach mx [] r = True"
| "frames_ok ans mach mx (f # fs) r =
     (r_open r \<longrightarrow> framed (r_ver r) f \<and> frames_ok ans mach mx fs (frame_step ans mach mx f r))"

definition r_size :: "reader \<Rightarrow> nat" where
  "r_size r = unat (r_total r) + (case r_frag r of None \<Rightarrow> 0 | Some f \<Rightarrow> length f)"

lemma space_view: "space n c \<longleftrightarrow> r_size (view c) + n < 4294967296"
  by (simp add: space_def r_size_def view_fields split: option.split)

lemma total_grows: "unat (t + word_of_nat n :: ulong) \<le> unat t + n"
proof (cases "unat t + n < 4294967296")
  case True
  then show ?thesis using unat_total by simp
next
  case False
  then show ?thesis using unat_ulong_lt [of "t + word_of_nat n"] by linarith
qed

lemma size_simps [simp]:
  "r_size (shut r) = r_size r" "r_size (deliver ans m r) = r_size r" "r_size (r\<lparr>r_ver := w\<rparr>) = r_size r"
  "r_size (r\<lparr>r_table := t\<rparr>) = r_size r" "r_size (r\<lparr>r_out := xs\<rparr>) = r_size r"
  by (simp_all add: r_size_def shut_def deliver_def Let_def)

lemma size_total: "r_size (r\<lparr>r_total := r_total r + word_of_nat n\<rparr>) \<le> r_size r + n"
  using total_grows [of "r_total r" n] by (simp add: r_size_def)

lemma complete_step_size: "r_size (complete_step ans mach mx cont m r) \<le> r_size r + length m"
proof -
  have "r_size (continue_fragments ans mach cont m r) \<le> r_size r + length m"
    using size_total [of r "length m - 16"]
    by (auto simp: continue_fragments_def Let_def split: option.split)
  moreover have "r_size (begin_fragments mach mx m r) \<le> r_size r + length m"
    using total_grows [of "r_total r" "length m"]
    by (auto simp: begin_fragments_def r_size_def shut_def)
  ultimately show ?thesis by (simp add: complete_step_def)
qed

lemma frame_step_size:
  assumes "length h = 12"
  shows "r_size (frame_step ans mach mx (h, b) r) \<le> r_size r + (12 + length b)"
proof -
  have plain: "r_size (complete_step ans mach mx cont (h @ b) (r\<lparr>r_ver := w\<rparr>)) \<le> r_size r + (12 + length b)" for cont w
    using complete_step_size [of ans mach mx cont "h @ b" "r\<lparr>r_ver := w\<rparr>"] assms by simp
  have merged: "r_size (complete_step ans mach mx cont (f @ b) (r\<lparr>r_ver := w, r_frag := None\<rparr>)) \<le> r_size r + (12 + length b)"
    if "r_frag r = Some f" for cont f w
    using complete_step_size [of ans mach mx cont "f @ b" "r\<lparr>r_ver := w, r_frag := None\<rparr>"] that by (simp add: r_size_def)
  show ?thesis
    using plain merged by (auto simp: frame_step_def Let_def split: option.split)
qed

lemma run_offline: "\<not> r_open r \<Longrightarrow> run_frames ans mach mx fs r = r"
  by (cases fs) simp_all

lemma frames_refine:
  "between c \<Longrightarrow> frames_ok ans (d_mach_bo (inctx c)) (max_message_size c) fs (view c) \<Longrightarrow>
   space (sum_list (map (\<lambda>f. length (frame_octets f)) fs)) c \<Longrightarrow> up = ans \<circ> octets \<Longrightarrow> fs \<noteq> [] \<Longrightarrow>
   \<exists>c'. offer up (concat (map frame_octets fs)) c = Some c' \<and>
     view c' = run_frames ans (d_mach_bo (inctx c)) (max_message_size c) fs (view c) \<and>
     steady c c' \<and> (reading c' \<longrightarrow> between c')"
proof (induction fs arbitrary: c)
  case (Cons f fs)
  obtain h b where f: "f = (h, b)" by (cases f)
  have op: "r_open (view c)" using Cons.prems(1) online_facts(5) by (simp add: view_fields between_def)
  have fr: "framed (r_ver (view c)) (h, b)" using Cons.prems(2) op f by simp
  then have len: "length h = 12" by (simp add: framed_def)
  have sp: "space (12 + length b) c" using Cons.prems(3) len unfolding space_view f by simp
  from frame_refines [OF Cons.prems(1) fr sp Cons.prems(4)] obtain d where d: "offer up (h @ b) c = Some d"
    "view d = frame_step ans (d_mach_bo (inctx c)) (max_message_size c) (h, b) (view c)"
    "steady c d" "reading d \<longrightarrow> between d" by blast
  have on: "online c" using Cons.prems(1) by (simp add: between_def)
  have rd: "r_open (frame_step ans (d_mach_bo (inctx c)) (max_message_size c) (h, b) (view c)) \<longleftrightarrow> reading d"
    unfolding d(2) [symmetric] by (simp add: view_fields)
  have off: "offer up (concat (map frame_octets (f # fs))) c =
      (if reading d then offer up (concat (map frame_octets fs)) d else Some d)"
    using offer_append [OF on, of up "h @ b" "concat (map frame_octets fs)"] d(1) f by simp
  show ?case
  proof (cases "reading d")
    case False
    then have "run_frames ans (d_mach_bo (inctx c)) (max_message_size c) (f # fs) (view c) = view d"
      using op rd run_offline unfolding d(2) f by simp
    note run = this
    show ?thesis
    proof (intro exI conjI)
      show "offer up (concat (map frame_octets (f # fs))) c = Some d" using off False by simp
      show "view d = run_frames ans (d_mach_bo (inctx c)) (max_message_size c) (f # fs) (view c)" by (rule run [symmetric])
      show "steady c d" by (rule d(3))
      show "reading d \<longrightarrow> between d" by (rule d(4))
    qed
  next
    case True
    have run: "run_frames ans (d_mach_bo (inctx c)) (max_message_size c) (f # fs) (view c) =
        run_frames ans (d_mach_bo (inctx c)) (max_message_size c) fs (view d)"
      using op unfolding d(2) f by simp
    show ?thesis
    proof (cases "fs = []")
      case fs: True
      have bd: "between d" using d(4) True by simp
      obtain d' where d': "offer up [] d = Some d'" "view d' = view d" "steady d d'" "between d'"
        using settle_down [of d up] bd online_facts(6,7) [of d] by (auto simp: between_def)
      show ?thesis
      proof (intro exI conjI)
        show "offer up (concat (map frame_octets (f # fs))) c = Some d'" using off True fs d'(1) by simp
        show "view d' = run_frames ans (d_mach_bo (inctx c)) (max_message_size c) (f # fs) (view c)"
          unfolding run d'(2) by (simp add: fs)
        show "steady c d'" using d(3) d'(3) by (simp add: steady_def)
        show "reading d' \<longrightarrow> between d'" using d'(4) by simp
      qed
    next
      case False
      have "frames_ok ans (d_mach_bo (inctx d)) (max_message_size d) fs (view d)"
      proof -
        have "frames_ok ans (d_mach_bo (inctx c)) (max_message_size c) fs (view d)"
          using Cons.prems(2) op unfolding f d(2) by simp
        then show ?thesis using d(3) by (simp add: steady_def)
      qed
      moreover have "space (sum_list (map (\<lambda>f. length (frame_octets f)) fs)) d"
        using Cons.prems(3) frame_step_size [OF len, of ans "d_mach_bo (inctx c)" "max_message_size c" b "view c"]
          d(2) len f unfolding space_view by simp
      ultimately obtain c' where c': "offer up (concat (map frame_octets fs)) d = Some c'"
        "view c' = run_frames ans (d_mach_bo (inctx d)) (max_message_size d) fs (view d)"
        "steady d c'" "reading c' \<longrightarrow> between c'"
        using Cons.IH [of d] True d(4) Cons.prems(4) False by blast
      have same: "d_mach_bo (inctx d) = d_mach_bo (inctx c)" "max_message_size d = max_message_size c"
        using d(3) by (simp_all add: steady_def)
      show ?thesis
      proof (intro exI conjI)
        show "offer up (concat (map frame_octets (f # fs))) c = Some c'" using off True c'(1) by simp
        show "view c' = run_frames ans (d_mach_bo (inctx c)) (max_message_size c) (f # fs) (view c)"
          unfolding run c'(2) same ..
        show "steady c c'" using c'(3) same by (simp add: steady_def)
        show "reading c' \<longrightarrow> between c'" by (rule c'(4))
      qed
    qed
  qed
qed simp

lemma pump_refines:
  assumes "between c" and "frames_ok ans (d_mach_bo (inctx c)) (max_message_size c) fs (view c)"
    and "space (sum_list (map (\<lambda>f. length (frame_octets f)) fs)) c"
    and "fs \<noteq> []" and "xss \<noteq> []" and "concat xss = concat (map frame_octets fs)"
  shows "\<exists>c'. pump (ans \<circ> octets) xss c = Some c' \<and>
     view c' = run_frames ans (d_mach_bo (inctx c)) (max_message_size c) fs (view c) \<and>
     steady c c' \<and> (reading c' \<longrightarrow> between c')"
proof -
  have "online c" using assms(1) by (simp add: between_def)
  then have "pump (ans \<circ> octets) xss c = offer (ans \<circ> octets) (concat (map frame_octets fs)) c"
    using pump_offer assms(5,6) by (cases xss) simp_all
  then show ?thesis using frames_refine [OF assms(1-3) refl assms(4)] by simp
qed

text \<open>C3: A stream of frames, cut by the network into any pieces, is read as \<open>run_frames\<close> says on
  lists of octets: the delivered messages, the stored fragments and the end of the connection are
  those of the specification, for every handler, size limit and version, and nothing aborts.\<close>

theorem stream_refines:
  assumes "between c" and "frames_ok ans (d_mach_bo (inctx c)) (max_message_size c) fs (view c)"
    and "space (sum_list (map (\<lambda>f. length (frame_octets f)) fs)) c"
    and "fs \<noteq> []" and "xss \<noteq> []" and "concat xss = concat (map frame_octets fs)"
  shows "\<exists>c'. pump (ans \<circ> octets) xss c = Some c' \<and>
     view c' = run_frames ans (d_mach_bo (inctx c)) (max_message_size c) fs (view c)"
  using pump_refines [OF assms] by blast

section \<open>Fragments of version 1.2\<close>

definition v12 :: "octet list \<times> octet list \<Rightarrow> bool" where
  "v12 f \<longleftrightarrow> framed 0x0102 f \<and> take 4 (fst f) = giop_magic \<and> fst f ! 4 = 1 \<and> fst f ! 5 = 2"

definition goes_on :: "octet list \<times> octet list \<Rightarrow> bool" where
  "goes_on f \<longleftrightarrow> and (fst f ! 6) GIOP_FRAGMENT_BIT \<noteq> 0"

definition continues :: "octet list \<times> octet list \<Rightarrow> bool" where
  "continues f \<longleftrightarrow> fst f ! 7 = Fragment"

text \<open>The fragments of the request \<open>i\<close>, and what a further fragment adds.\<close>

definition part_of :: "byteorder \<Rightarrow> ulong \<Rightarrow> octet list \<times> octet list \<Rightarrow> bool" where
  "part_of mach i f \<longleftrightarrow> (goes_on f \<or> continues f) \<and> id_of mach (frame_octets f) = i"

definition contents_of :: "octet list \<times> octet list \<Rightarrow> octet list" where
  "contents_of f = drop 16 (frame_octets f)"

definition frame_size :: "octet list \<times> octet list \<Rightarrow> ulong" where
  "frame_size f = word_of_nat (length (snd f))"

lemma join_12: "join_version 1 2 = 0x0102"
  by (simp add: join_version_def)

lemma v12_parse:
  assumes "v12 f"
  shows "parse_header 0x0102 (fst f) = Some (fst f ! 7, frame_size f, fst f ! 6, 0x0102)"
    "length (fst f) = 12" "length (snd f) < 2147483648"
proof -
  obtain h b where f: "f = (h, b)" by (cases f)
  let ?sz = "image_word (header_order 0x0102 h) (drop 8 h) :: ulong"
  have p: "parse_header 0x0102 h = Some (h ! 7, ?sz, h ! 6, 0x0102)"
    using assms by (simp add: v12_def f parse_header_def header_version_def join_12 header_flags_def)
  have "unat ?sz = length b" using assms p by (simp add: v12_def framed_def f)
  then have "?sz = word_of_nat (length b)" by (metis of_nat_unat ucast_id)
  with p show "parse_header 0x0102 (fst f) = Some (fst f ! 7, frame_size f, fst f ! 6, 0x0102)"
    by (simp add: frame_size_def f)
  show "length (fst f) = 12" "length (snd f) < 2147483648" using assms by (simp_all add: v12_def framed_def f)
qed

definition too_big :: "ulong \<Rightarrow> reader \<Rightarrow> octet list \<times> octet list \<Rightarrow> bool" where
  "too_big mx r f \<longleftrightarrow> over mx (frame_size f) \<or> (continues f \<or> goes_on f) \<and> over mx (frame_size f + r_total r)"

lemma v12_step:
  assumes f: "v12 f" and r: "r_ver r = 0x0102"
  shows "frame_step ans mach mx f r = (if too_big mx r f then shut r
     else if continues f then continue_fragments ans mach (goes_on f) (frame_octets f) r
     else if goes_on f then begin_fragments mach mx (frame_octets f) r
     else deliver ans (frame_octets f) r)"
proof -
  have same: "r\<lparr>r_ver := 0x0102\<rparr> = r" using r by (cases r) simp
  obtain h b where hb: "f = (h, b)" by (cases f)
  have m7: "(h @ b) ! 7 = h ! 7" using v12_parse(2) [OF f] hb by (simp add: nth_append)
  show ?thesis
    using v12_parse(1) [OF f] r unfolding hb
    by (simp add: frame_step_def same Let_def too_big_def continues_def goes_on_def complete_step_def m7)
qed

lemma step_ver:
  assumes "v12 f" and "r_ver r = 0x0102"
  shows "r_ver (frame_step ans mach mx f r) = 0x0102"
  unfolding v12_step [OF assms] using assms(2)
  by (auto simp: shut_def continue_fragments_def begin_fragments_def deliver_def Let_def split: option.split)

lemma step_map_ok:
  assumes "v12 f" and "r_ver r = 0x0102" and "map_ok (r_table r)"
  shows "map_ok (r_table (frame_step ans mach mx f r))"
  unfolding v12_step [OF assms(1,2)] using assms(3)
  by (auto simp: shut_def continue_fragments_def begin_fragments_def deliver_def Let_def map_ok_put map_ok_erase
      split: option.split)

text \<open>A frame that is no part of the request leaves its entry alone.\<close>

lemma step_other:
  assumes "v12 f" and "r_ver r = 0x0102" and "map_ok (r_table r)" and "\<not> part_of mach i f"
  shows "map_find i (r_table (frame_step ans mach mx f r)) = map_find i (r_table r)"
  unfolding v12_step [OF assms(1,2)] using assms(3,4)
  by (auto simp: shut_def continue_fragments_def begin_fragments_def deliver_def Let_def map_find_put map_find_erase
      part_of_def split: option.split)

text \<open>The first fragment makes the entry, a further one extends it, the last one delivers it.\<close>

lemma step_first:
  assumes "v12 f" and "r_ver r = 0x0102" and "map_ok (r_table r)" and "part_of mach i f" and "\<not> continues f"
    and "r_open (frame_step ans mach mx f r)" and "r_open r"
  shows "map_find i (r_table (frame_step ans mach mx f r)) = Some (frame_octets f)"
  using assms(3-7) unfolding v12_step [OF assms(1,2)]
  by (auto simp: shut_def begin_fragments_def map_find_put part_of_def assms(2) split: if_splits)

lemma step_further:
  assumes "v12 f" and "r_ver r = 0x0102" and "map_ok (r_table r)" and "part_of mach i f" and "continues f"
    and "r_open (frame_step ans mach mx f r)" and "r_open r" and "map_find i (r_table r) = Some x"
  shows "goes_on f \<Longrightarrow> map_find i (r_table (frame_step ans mach mx f r)) = Some (x @ contents_of f)"
    and "\<not> goes_on f \<Longrightarrow> map_find i (r_table (frame_step ans mach mx f r)) = None \<and>
      r_out (frame_step ans mach mx f r) = r_out r @ [x @ contents_of f]"
  using assms(3-8) unfolding v12_step [OF assms(1,2)]
  by (auto simp: shut_def continue_fragments_def deliver_def Let_def map_find_put map_find_erase part_of_def contents_of_def
      split: if_splits)

lemma run_ver:
  "\<forall>f \<in> set fs. v12 f \<Longrightarrow> r_ver r = 0x0102 \<Longrightarrow> map_ok (r_table r) \<Longrightarrow>
   r_ver (run_frames ans mach mx fs r) = 0x0102 \<and> map_ok (r_table (run_frames ans mach mx fs r))"
  by (induction fs arbitrary: r) (simp_all add: step_ver step_map_ok)

lemma run_append:
  "run_frames ans mach mx (fs @ gs) r = run_frames ans mach mx gs (run_frames ans mach mx fs r)"
  by (induction fs arbitrary: r) (auto simp: run_offline)

lemma run_open: "r_open (run_frames ans mach mx (f # fs) r) \<Longrightarrow>
   r_open r \<and> r_open (frame_step ans mach mx f r)"
  using run_offline [of "frame_step ans mach mx f r" ans mach mx fs]
  by (cases "r_open (frame_step ans mach mx f r)") (auto split: if_splits)

lemma run_further:
  "\<forall>f \<in> set fs. v12 f \<Longrightarrow> r_ver r = 0x0102 \<Longrightarrow> map_ok (r_table r) \<Longrightarrow>
   r_open (run_frames ans mach mx fs r) \<Longrightarrow> map_find i (r_table r) = Some x \<Longrightarrow>
   \<forall>f \<in> set (filter (part_of mach i) fs). continues f \<and> goes_on f \<Longrightarrow>
   map_find i (r_table (run_frames ans mach mx fs r)) = Some (x @ concat (map contents_of (filter (part_of mach i) fs)))"
proof (induction fs arbitrary: r x)
  case (Cons f fs)
  have v: "v12 f" "\<forall>f \<in> set fs. v12 f" using Cons.prems(1) by simp_all
  have o: "r_open r" "r_open (frame_step ans mach mx f r)" using run_open [OF Cons.prems(4)] by simp_all
  let ?r = "frame_step ans mach mx f r"
  have r': "r_ver ?r = 0x0102" "map_ok (r_table ?r)" "r_open (run_frames ans mach mx fs ?r)"
    using step_ver [OF v(1)] step_map_ok [OF v(1)] Cons.prems(2-4) o by simp_all
  show ?case
  proof (cases "part_of mach i f")
    case False
    then have "map_find i (r_table ?r) = Some x" using step_other [OF v(1) Cons.prems(2,3)] Cons.prems(5) by simp
    from Cons.IH [OF v(2) r' this] Cons.prems(6) False o show ?thesis by simp
  next
    case True
    then have "continues f" "goes_on f" using Cons.prems(6) by simp_all
    with step_further(1) [OF v(1) Cons.prems(2,3) True _ o(2,1) Cons.prems(5)]
    have "map_find i (r_table ?r) = Some (x @ contents_of f)" by simp
    from Cons.IH [OF v(2) r' this] Cons.prems(6) True o show ?thesis by simp
  qed
qed simp

lemma run_fragments:
  "\<forall>f \<in> set fs. v12 f \<Longrightarrow> r_ver r = 0x0102 \<Longrightarrow> map_ok (r_table r) \<Longrightarrow>
   r_open (run_frames ans mach mx fs r) \<Longrightarrow> filter (part_of mach i) fs = f0 # cs \<Longrightarrow>
   \<not> continues f0 \<Longrightarrow> \<forall>f \<in> set cs. continues f \<and> goes_on f \<Longrightarrow>
   map_find i (r_table (run_frames ans mach mx fs r)) = Some (frame_octets f0 @ concat (map contents_of cs))"
proof (induction fs arbitrary: r)
  case (Cons f fs)
  have v: "v12 f" "\<forall>f \<in> set fs. v12 f" using Cons.prems(1) by simp_all
  have o: "r_open r" "r_open (frame_step ans mach mx f r)" using run_open [OF Cons.prems(4)] by simp_all
  let ?r = "frame_step ans mach mx f r"
  have r': "r_ver ?r = 0x0102" "map_ok (r_table ?r)" "r_open (run_frames ans mach mx fs ?r)"
    using step_ver [OF v(1)] step_map_ok [OF v(1)] Cons.prems(2-4) o by simp_all
  show ?case
  proof (cases "part_of mach i f")
    case False
    from Cons.IH [OF v(2) r'] Cons.prems(5-7) False o show ?thesis by simp
  next
    case True
    then have f: "f0 = f" "cs = filter (part_of mach i) fs" using Cons.prems(5) by simp_all
    have "map_find i (r_table ?r) = Some (frame_octets f)"
      using step_first [OF v(1) Cons.prems(2,3) True _ o(2,1)] Cons.prems(6) f by simp
    from run_further [OF v(2) r' this] Cons.prems(7) f o show ?thesis by simp
  qed
qed simp

lemma v12_frames_ok:
  "\<forall>f \<in> set fs. v12 f \<Longrightarrow> r_ver r = 0x0102 \<Longrightarrow> frames_ok ans mach mx fs r"
  by (induction fs arbitrary: r) (simp_all add: step_ver v12_def)

text \<open>C7: A message of version 1.2 that arrives in fragments, between the messages and fragments of other
  requests and cut by the network in any way, is delivered whole, unless the connection was shut down:
  the first fragment followed by the contents of the others, in their order.\<close>

theorem fragments_reassembled:
  assumes c: "between c" "giop_ver (gcodec c) = 0x0102" and v: "\<forall>f \<in> set (fs @ [l]). v12 f"
    and parts: "filter (part_of (d_mach_bo (inctx c)) i) fs = f0 # cs" "\<not> continues f0"
      "\<forall>f \<in> set cs. continues f \<and> goes_on f"
    and l: "part_of (d_mach_bo (inctx c)) i l" "continues l" "\<not> goes_on l"
    and sp: "space (sum_list (map (\<lambda>f. length (frame_octets f)) (fs @ [l]))) c"
    and xss: "xss \<noteq> []" "concat xss = concat (map frame_octets (fs @ [l]))"
  shows "\<exists>c'. pump (ans \<circ> octets) xss c = Some c' \<and>
     (reading c' \<longrightarrow> octets (last (delivered c')) = frame_octets f0 @ concat (map contents_of (cs @ [l])))"
proof -
  let ?mach = "d_mach_bo (inctx c)" and ?mx = "max_message_size c" and ?r = "view c"
  have rv: "r_ver ?r = 0x0102" using c(2) by (simp add: view_fields)
  have ok: "frames_ok ans ?mach ?mx (fs @ [l]) ?r" by (rule v12_frames_ok [OF v rv])
  obtain c' where c': "pump (ans \<circ> octets) xss c = Some c'" "view c' = run_frames ans ?mach ?mx (fs @ [l]) ?r"
    using pump_refines [OF c(1) ok sp _ xss] by blast
  let ?s = "run_frames ans ?mach ?mx fs ?r"
  have tbl: "map_ok (r_table ?r)"
    using c(1) by (simp add: between_def table_ok_def view_fields map_ok_def comp_def case_prod_unfold)
  have vf: "\<forall>f \<in> set fs. v12 f" "v12 l" using v by simp_all
  have "octets (last (delivered c')) = frame_octets f0 @ concat (map contents_of (cs @ [l]))" if op: "reading c'"
  proof -
    have "r_open (view c')" using op by (simp add: view_fields)
    then have "r_open (run_frames ans ?mach ?mx [l] ?s)" unfolding c'(2) run_append .
    from run_open [OF this] have o: "r_open ?s" "r_open (frame_step ans ?mach ?mx l ?s)" by simp_all
    have e: "map_find i (r_table ?s) = Some (frame_octets f0 @ concat (map contents_of cs))"
      by (rule run_fragments [OF vf(1) rv tbl o(1) parts])
    note s = run_ver [OF vf(1) rv tbl, of ans ?mach ?mx]
    from step_further(2) [OF vf(2) _ _ l(1,2) o(2,1) e l(3)] s
    have "r_out (frame_step ans ?mach ?mx l ?s) = r_out ?s @ [(frame_octets f0 @ concat (map contents_of cs)) @ contents_of l]"
      by simp
    moreover have "view c' = frame_step ans ?mach ?mx l ?s" using o(1) unfolding c'(2) run_append by simp
    ultimately have "map octets (delivered c') = r_out ?s @ [(frame_octets f0 @ concat (map contents_of cs)) @ contents_of l]"
      by (metis view_fields(5))
    then show ?thesis by (cases "delivered c'" rule: rev_cases) simp_all
  qed
  then show ?thesis using c'(1) by blast
qed

lemma sample_conn_fields:
  "between (sample_conn mx)" "giop_ver (gcodec (sample_conn mx)) = 0x0102" "max_message_size (sample_conn mx) = mx"
  "d_mach_bo (inctx (sample_conn mx)) = LittleEndian" "infrag (sample_conn mx) = None"
  "view (sample_conn mx) = \<lparr>r_ver = 0x0102, r_frag = None, r_table = [], r_total = 0, r_out = [], r_open = True\<rparr>"
  "space n (sample_conn mx) \<longleftrightarrow> n < 4294967296" "delivered (sample_conn mx) = []" "total_fragsize (sample_conn mx) = 0"
  using sample_conn_online [of mx]
  by (simp_all add: between_def table_ok_def space_def view_def, simp_all add: sample_conn_def new_conn_fields
      sample_codec_def new_decoder_def)

text \<open>A request in two fragments with a message between them.\<close>

definition sample_first :: "octet list \<times> octet list" where
  "sample_first = (giop_magic @ [1, 2, 3, 0, 4, 0, 0, 0], [9, 0, 0, 0])"

definition sample_between :: "octet list \<times> octet list" where
  "sample_between = (giop_magic @ [1, 2, 1, 5, 0, 0, 0, 0], [])"

definition sample_last :: "octet list \<times> octet list" where
  "sample_last = (giop_magic @ [1, 2, 1, 7, 6, 0, 0, 0], [9, 0, 0, 0, 170, 187])"

lemma sample_frame_ok:
  assumes "length xs = 4" and "unat (image_word LittleEndian xs :: ulong) = length b" and "length b < 2147483648"
    and "and fl GIOP_BYTEORDER_BIT \<noteq> 0"
  shows "v12 (giop_magic @ [1, 2, fl, mt] @ xs, b)"
  using assms
  by (simp add: v12_def framed_def parse_header_def header_version_def header_order_def join_12 giop_magic_def)

lemma sample_frames:
  "v12 sample_first" "v12 sample_between" "v12 sample_last"
  using sample_frame_ok [of "[4, 0, 0, 0]" "[9, 0, 0, 0]" 3 0] sample_frame_ok [of "[0, 0, 0, 0]" "[]" 1 5]
    sample_frame_ok [of "[6, 0, 0, 0]" "[9, 0, 0, 0, 170, 187]" 1 7]
  by (simp_all add: sample_first_def sample_between_def sample_last_def image_word_def image_nat_def GIOP_BYTEORDER_BIT_def)

lemma sample_kinds:
  "goes_on sample_first" "\<not> continues sample_first" "\<not> goes_on sample_between" "\<not> continues sample_between"
  "\<not> goes_on sample_last" "continues sample_last"
  by (simp_all add: goes_on_def continues_def sample_first_def sample_between_def sample_last_def GIOP_FRAGMENT_BIT_def
      Fragment_def giop_magic_def)

lemma sample_ids:
  "id_of LittleEndian (frame_octets sample_first) = 9" "id_of LittleEndian (frame_octets sample_last) = 9"
  by (simp_all add: id_of_def sample_first_def sample_last_def image_word_def image_nat_def giop_magic_def)

lemma sample_sizes:
  "length (frame_octets sample_first) = 16" "length (frame_octets sample_between) = 12"
  "length (frame_octets sample_last) = 18" "contents_of sample_last = [170, 187]"
  by (simp_all add: sample_first_def sample_between_def sample_last_def contents_of_def giop_magic_def)

theorem fragments_reassembled_witness:
  "\<exists>c'. pump ((\<lambda>_. True) \<circ> octets)
     [frame_octets sample_first @ [71], tl (frame_octets sample_between) @ frame_octets sample_last] (sample_conn 0) = Some c' \<and>
   reading c' \<and> octets (last (delivered c')) = frame_octets sample_first @ [170, 187]"
proof -
  let ?fs = "[sample_first, sample_between]" and ?l = sample_last and ?c = "sample_conn 0" and ?ans = "\<lambda>_. True"
  let ?xss = "[frame_octets sample_first @ [71], tl (frame_octets sample_between) @ frame_octets sample_last]"
  have v: "\<forall>f \<in> set (?fs @ [?l]). v12 f" using sample_frames by simp
  have m: "frame_octets sample_between = 71 # tl (frame_octets sample_between)"
    by (simp add: sample_between_def giop_magic_def)
  have p: "filter (part_of (d_mach_bo (inctx ?c)) 9) ?fs = sample_first # []"
    using sample_kinds sample_ids by (simp add: part_of_def sample_conn_fields)
  have l: "part_of (d_mach_bo (inctx ?c)) 9 ?l" using sample_kinds sample_ids by (simp add: part_of_def sample_conn_fields)
  have sp: "space (sum_list (map (\<lambda>f. length (frame_octets f)) (?fs @ [?l]))) ?c"
    unfolding sample_conn_fields by (simp add: sample_sizes del: length_append)
  have x: "?xss \<noteq> []" "concat ?xss = concat (map frame_octets (?fs @ [?l]))" using m by simp_all
  obtain c' where c': "pump (?ans \<circ> octets) ?xss ?c = Some c'"
    "reading c' \<longrightarrow> octets (last (delivered c')) = frame_octets sample_first @ concat (map contents_of ([] @ [?l]))"
    using fragments_reassembled [OF sample_conn_fields(1,2) v p sample_kinds(2) _ l sample_kinds(6,5) sp x] by auto
  have "r_ver (view ?c) = 0x0102" by (simp add: sample_conn_fields)
  note ok = v12_frames_ok [OF v this]
  obtain c2 where c2: "pump (?ans \<circ> octets) ?xss ?c = Some c2"
    "view c2 = run_frames ?ans (d_mach_bo (inctx ?c)) (max_message_size ?c) (?fs @ [?l]) (view ?c)"
    using pump_refines [OF sample_conn_fields(1) ok sp _ x] by blast
  have "c2 = c'" using c2(1) c'(1) by (simp only: option.inject)
  then have "view c' = run_frames ?ans LittleEndian 0 (?fs @ [?l]) (view ?c)"
    using c2(2) unfolding sample_conn_fields(3,4) by blast
  moreover have "r_open (run_frames ?ans LittleEndian 0 (?fs @ [?l]) (view ?c))"
    using sample_frames sample_kinds sample_ids sample_sizes
    by (simp add: sample_conn_fields v12_step too_big_def over_def begin_fragments_def continue_fragments_def deliver_def
        map_find_def Let_def del: length_append)
  ultimately have "reading c'" by (metis view_fields(6))
  then show ?thesis using c' by (intro exI [of _ c'] conjI) (simp_all add: sample_sizes)
qed

theorem stream_refines_witness:
  "\<exists>c'. pump ((\<lambda>_. True) \<circ> octets) [[71], [], tl (frame_octets sample_between)] (sample_conn 0) = Some c' \<and>
     r_out (view c') = [frame_octets sample_between] \<and> r_open (view c')"
proof -
  let ?c = "sample_conn 0" and ?ans = "\<lambda>_. True"
  have m: "frame_octets sample_between = 71 # tl (frame_octets sample_between)"
    by (simp add: sample_between_def giop_magic_def)
  have rv: "r_ver (view ?c) = 0x0102" by (simp add: sample_conn_fields)
  have ok: "frames_ok ?ans (d_mach_bo (inctx ?c)) (max_message_size ?c) [sample_between] (view ?c)"
    by (rule v12_frames_ok [OF _ rv]) (simp add: sample_frames)
  have sp: "space (sum_list (map (\<lambda>f. length (frame_octets f)) [sample_between])) ?c"
    unfolding sample_conn_fields by (simp add: sample_sizes del: length_append)
  have x: "concat [[71], [], tl (frame_octets sample_between)] = concat (map frame_octets [sample_between])"
    using m by simp
  obtain c' where c': "pump (?ans \<circ> octets) [[71], [], tl (frame_octets sample_between)] ?c = Some c'"
    "view c' = run_frames ?ans (d_mach_bo (inctx ?c)) (max_message_size ?c) [sample_between] (view ?c)"
    using stream_refines [OF sample_conn_fields(1) ok sp _ _ x] by blast
  have "run_frames ?ans (d_mach_bo (inctx ?c)) (max_message_size ?c) [sample_between] (view ?c) =
      (view ?c)\<lparr>r_out := [frame_octets sample_between]\<rparr>"
    using sample_frames(2) sample_kinds(3,4)
    by (simp add: sample_conn_fields v12_step too_big_def over_def deliver_def)
  then show ?thesis using c' by (intro exI [of _ c'] conjI) (simp_all add: sample_conn_fields)
qed

end
