(* ===== verification/GIOP_Limits.thy ===== *)
theory GIOP_Limits
  imports GIOP_Frames
begin

text \<open>
  What the size limit of a connection means. It does bound the fragments of version 1.2 that are
  stored, but the count behind it only ever rises: it limits all the fragments of a connection together
  and not those of one message. It does not bound fragmented messages of version 1.1 at all; and without
  a limit a message of 2 GB or more is never read.
\<close>

section \<open>The stored fragments\<close>

definition r_stored :: "reader \<Rightarrow> nat" where
  "r_stored r = sum_list (map (\<lambda>(k, m). length m) (r_table r))"

definition within :: "ulong \<Rightarrow> reader \<Rightarrow> bool" where
  "within mx r \<longleftrightarrow> r_stored r \<le> unat (r_total r) \<and> unat (r_total r) \<le> unat mx"

lemma stored_put:
  "sum_list (map (\<lambda>(k, m). length m) (map_put k x t)) + length (case map_find k t of None \<Rightarrow> [] | Some y \<Rightarrow> y) =
   sum_list (map (\<lambda>(k, m). length m) t) + length x"
  if "map_ok t" for t :: "(ulong, octet list) std_map"
  using that
proof (induction k x t rule: map_put.induct)
  case (2 k v a b m)
  have "map_of m k = None" if "k < a"
  proof (cases "map_of m k")
    case (Some y)
    then have "a < k" using 2(2) map_of_SomeD [OF Some] by force
    then show ?thesis using that by simp
  qed
  then show ?case using 2 by (auto simp: map_find_def split: option.split)
qed (simp add: map_find_def)

lemma stored_erase: "sum_list (map (\<lambda>(k, m). length m) (map_erase k t)) \<le> sum_list (map (\<lambda>(k, m). length m) t)"
  by (induction t) (auto simp: map_erase_def)

lemma over_small:
  assumes "over mx (a + b) = False" and "mx > 0" and "unat a + unat b < 4294967296"
  shows "unat a + unat b \<le> unat mx"
  using assms by (simp add: over_def word_less_nat_alt unat_ulong_add)

lemma within_simps [simp]:
  "within mx (shut r) = within mx r" "within mx (deliver ans m r) = within mx r" "within mx (r\<lparr>r_ver := w\<rparr>) = within mx r"
  "within mx (r\<lparr>r_frag := x\<rparr>) = within mx r" "within mx (r\<lparr>r_out := xs\<rparr>) = within mx r"
  by (simp_all add: within_def r_stored_def shut_def deliver_def Let_def)

lemma table_simps [simp]:
  "r_table (shut r) = r_table r" "r_table (deliver ans m r) = r_table r"
  by (simp_all add: shut_def deliver_def Let_def)

lemma total_simps [simp]:
  "r_total (shut r) = r_total r" "r_total (deliver ans m r) = r_total r"
  by (simp_all add: shut_def deliver_def Let_def)

lemma continue_within:
  assumes w: "within mx r" "map_ok (r_table r)" and n: "unat (r_total r) + (length m - 16) \<le> unat mx"
  shows "within mx (continue_fragments ans mach cont m r) \<and> map_ok (r_table (continue_fragments ans mach cont m r))"
proof -
  have t: "unat (r_total r + word_of_nat (length m - 16)) = unat (r_total r) + (length m - 16)"
    using n unat_ulong_lt [of mx] by (intro unat_total) linarith
  show ?thesis
  proof (cases "length m < 16 \<or> map_find (id_of mach m) (r_table r) = None")
    case True
    then show ?thesis using w by (auto simp: continue_fragments_def split: option.split)
  next
    case False
    then obtain f where f: "map_find (id_of mach m) (r_table r) = Some f" by auto
    have p: "sum_list (map (\<lambda>(k, m). length m) (map_put (id_of mach m) (f @ drop 16 m) (r_table r))) =
        r_stored r + (length m - 16)"
      using stored_put [OF w(2), of "id_of mach m" "f @ drop 16 m"] f by (simp add: r_stored_def)
    have e: "sum_list (map (\<lambda>(k, m). length m) (map_erase (id_of mach m) (r_table r))) \<le> r_stored r"
      using stored_erase by (simp add: r_stored_def)
    let ?r = "r\<lparr>r_total := r_total r + word_of_nat (length m - 16)\<rparr>"
    have st: "r_stored r \<le> unat (r_total r)" using w(1) by (simp add: within_def)
    have "r_stored (r\<lparr>r_table := map_put (id_of mach m) (f @ drop 16 m) (r_table r)\<rparr>) \<le> unat (r_total ?r)"
      using p st t unfolding r_stored_def by simp
    moreover have "r_stored (r\<lparr>r_table := map_erase (id_of mach m) (r_table r)\<rparr>) \<le> unat (r_total ?r)"
    proof -
      have "r_stored (r\<lparr>r_table := map_erase (id_of mach m) (r_table r)\<rparr>) \<le> r_stored r" using e by (simp add: r_stored_def)
      also note st
      also have "unat (r_total r) \<le> unat (r_total ?r)" unfolding reader.select_convs reader.update_convs using t by simp
      finally show ?thesis .
    qed
    moreover have "unat (r_total ?r) \<le> unat mx" using n t by simp
    ultimately have "within mx (?r\<lparr>r_table := map_put (id_of mach m) (f @ drop 16 m) (r_table r)\<rparr>)"
      "within mx (?r\<lparr>r_table := map_erase (id_of mach m) (r_table r)\<rparr>)"
      by (simp_all add: within_def r_stored_def)
    then show ?thesis
      using False f w(2) by (simp add: continue_fragments_def Let_def map_ok_put map_ok_erase)
  qed
qed

lemma begin_within:
  assumes w: "within mx r" "map_ok (r_table r)" and mx: "mx > 0" "unat (r_total r) + length m < 4294967296"
  shows "within mx (begin_fragments mach mx m r) \<and> map_ok (r_table (begin_fragments mach mx m r))"
proof (cases "r_ver r \<ge> 0x0102 \<and> \<not> (length m < 16 \<or> over mx (word_of_nat (length m) + r_total r) \<or>
    map_find (id_of mach m) (r_table r) \<noteq> None)")
  case False
  then show ?thesis using w by (auto simp: begin_fragments_def)
next
  case True
  have lm: "unat (word_of_nat (length m) :: ulong) = length m" using mx(2) by (simp add: nowrap)
  have le: "length m + unat (r_total r) \<le> unat mx"
    using over_small [of mx "word_of_nat (length m)" "r_total r"] True mx lm by simp
  have t: "unat (r_total r + word_of_nat (length m)) = unat (r_total r) + length m"
    using mx(2) by (rule unat_total)
  have p: "sum_list (map (\<lambda>(k, m). length m) (map_put (id_of mach m) m (r_table r))) = r_stored r + length m"
    using stored_put [OF w(2), of "id_of mach m" m] True by (simp add: r_stored_def)
  show ?thesis using True w le t p by (simp add: begin_fragments_def map_ok_put within_def r_stored_def)
qed

lemma frame_step_within:
  assumes mx: "mx > 0" "unat mx < 2147483648" and f: "framed (r_ver r) f" and w: "within mx r" "map_ok (r_table r)"
    and size: "r_size r + length (frame_octets f) < 4294967296"
  shows "within mx (frame_step ans mach mx f r) \<and> map_ok (r_table (frame_step ans mach mx f r))"
proof -
  obtain h b where hb: "f = (h, b)" by (cases f)
  have len: "length h = 12" using f by (simp add: framed_def hb)
  have plain: "within mx (complete_step ans mach mx cont (h @ b) r') \<and> map_ok (r_table (complete_step ans mach mx cont (h @ b) r'))"
    if r': "within mx r'" "map_ok (r_table r')" "r_total r' = r_total r"
      and fr: "(h ! 7 = Fragment \<or> cont) \<longrightarrow> unat (r_total r) + length b \<le> unat mx" for cont r'
  proof -
    have m7: "(h @ b) ! 7 = h ! 7" using len by (simp add: nth_append)
    have "unat (r_total r') + length (h @ b) < 4294967296" using size r'(3) hb by (simp add: r_size_def split: option.splits)
    note bw = begin_within [OF r'(1,2) mx(1) this, of mach]
    have "h ! 7 = Fragment \<Longrightarrow> unat (r_total r') + (length (h @ b) - 16) \<le> unat mx" using fr r'(3) len by simp
    note cw = continue_within [OF r'(1,2) this, of ans mach cont]
    show ?thesis using bw cw r' by (simp add: complete_step_def m7)
  qed
  have merged: "within mx (complete_step ans mach mx cont m r') \<and> map_ok (r_table (complete_step ans mach mx cont m r'))"
    if "within mx r'" "map_ok (r_table r')" "r_ver r' = 0x0101" for cont m r'
    using that by (simp add: complete_step_def begin_fragments_def)
  show ?thesis
  proof (cases "parse_header (r_ver r) h")
    case None
    then show ?thesis using w by (simp add: hb frame_step_def)
  next
    case (Some p)
    obtain mt sz fl v where p: "p = (mt, sz, fl, v)" by (cases p)
    have sz: "unat sz = length b" and mt: "mt = h ! 7" and lb: "length b < 2147483648"
      using f Some p by (auto simp: framed_def hb parse_header_def split: if_splits)
    let ?bad = "over mx sz \<or> (mt = Fragment \<or> and fl GIOP_FRAGMENT_BIT \<noteq> 0) \<and> over mx (sz + r_total r)"
    have fs: "frame_step ans mach mx f r = (if ?bad then shut (r\<lparr>r_ver := v\<rparr>)
       else if mt = Fragment \<and> v = 0x0101 then (case r_frag r of None \<Rightarrow> shut (r\<lparr>r_ver := v\<rparr>)
         | Some x \<Rightarrow> complete_step ans mach mx (and fl GIOP_FRAGMENT_BIT \<noteq> 0) (x @ b) (r\<lparr>r_ver := v, r_frag := None\<rparr>))
       else complete_step ans mach mx (and fl GIOP_FRAGMENT_BIT \<noteq> 0) (h @ b) (r\<lparr>r_ver := v\<rparr>))"
      using Some p by (simp add: hb frame_step_def Let_def split del: if_split cong: if_cong)
    show ?thesis
    proof (cases ?bad)
      case True
      then show ?thesis unfolding fs if_P [OF True] using w by simp
    next
      case nb: False
      show ?thesis
      proof (cases "mt = Fragment \<and> v = 0x0101")
        case True
        then show ?thesis unfolding fs if_not_P [OF nb] if_P [OF True]
          using w merged [of "r\<lparr>r_ver := v, r_frag := None\<rparr>"] by (cases "r_frag r") simp_all
      next
        case False
        have "(h ! 7 = Fragment \<or> and fl GIOP_FRAGMENT_BIT \<noteq> 0) \<longrightarrow> unat (r_total r) + length b \<le> unat mx"
        proof
          assume "h ! 7 = Fragment \<or> and fl GIOP_FRAGMENT_BIT \<noteq> 0"
          then have "over mx (sz + r_total r) = False" using nb mt by blast
          moreover have "unat sz + unat (r_total r) < 4294967296" using sz lb w(1) mx(2) unfolding within_def by linarith
          ultimately show "unat (r_total r) + length b \<le> unat mx" using over_small mx(1) sz by fastforce
        qed
        then show ?thesis unfolding fs if_not_P [OF nb] if_not_P [OF False] using plain w by simp
      qed
    qed
  qed
qed

lemma run_within:
  "mx > 0 \<Longrightarrow> unat mx < 2147483648 \<Longrightarrow> frames_ok ans mach mx fs r \<Longrightarrow> within mx r \<Longrightarrow> map_ok (r_table r) \<Longrightarrow>
   r_size r + sum_list (map (\<lambda>f. length (frame_octets f)) fs) < 4294967296 \<Longrightarrow>
   within mx (run_frames ans mach mx fs r)"
proof (induction fs arbitrary: r)
  case (Cons f fs)
  show ?case
  proof (cases "r_open r")
    case True
    then have f: "framed (r_ver r) f" "frames_ok ans mach mx fs (frame_step ans mach mx f r)" using Cons.prems(3) by simp_all
    obtain h b where hb: "f = (h, b)" by (cases f)
    have len: "length h = 12" using f(1) by (simp add: framed_def hb)
    have sz: "r_size r + length (frame_octets f) < 4294967296" using Cons.prems(6) by simp
    have k: "within mx (frame_step ans mach mx f r)" "map_ok (r_table (frame_step ans mach mx f r))"
      using frame_step_within [OF Cons.prems(1,2) f(1) Cons.prems(4,5) sz] by blast+
    have "r_size (frame_step ans mach mx f r) \<le> r_size r + (12 + length b)"
      unfolding hb by (rule frame_step_size [OF len])
    then have "r_size (frame_step ans mach mx f r) + sum_list (map (\<lambda>f. length (frame_octets f)) fs) < 4294967296"
      using Cons.prems(6) len hb by simp
    from Cons.IH [OF Cons.prems(1,2) f(2) k this] True show ?thesis by simp
  next
    case False
    then show ?thesis using Cons.prems(4) by simp
  qed
qed simp

text \<open>C31: With a size limit (below 2 GB) the fragments of version 1.2 that a connection stores, of all
  requests together, never exceed the limit, whatever frames arrive.\<close>

theorem fragments_within_limit:
  assumes c: "between c" and mx: "0 < max_message_size c" "unat (max_message_size c) < 2147483648"
    and fresh: "fragments c = []" "total_fragsize c \<le> max_message_size c"
    and fs: "frames_ok ans (d_mach_bo (inctx c)) (max_message_size c) fs (view c)"
    and sp: "space (sum_list (map (\<lambda>f. length (frame_octets f)) fs)) c"
    and xss: "fs \<noteq> []" "xss \<noteq> []" "concat xss = concat (map frame_octets fs)"
  shows "\<exists>c'. pump (ans \<circ> octets) xss c = Some c' \<and>
     sum_list (map (\<lambda>(k, b). length (octets b)) (fragments c')) \<le> unat (max_message_size c)"
proof -
  obtain c' where c': "pump (ans \<circ> octets) xss c = Some c'"
    "view c' = run_frames ans (d_mach_bo (inctx c)) (max_message_size c) fs (view c)"
    using pump_refines [OF c fs sp xss] by blast
  have "within (max_message_size c) (view c)" "map_ok (r_table (view c))"
    using fresh by (simp_all add: within_def r_stored_def view_fields word_le_nat_alt)
  then have "within (max_message_size c) (view c')"
    using run_within [OF mx fs] sp unfolding c'(2) space_view by simp
  then have "r_stored (view c') \<le> unat (max_message_size c)" by (simp add: within_def)
  moreover have "r_stored (view c') = sum_list (map (\<lambda>(k, b). length (octets b)) (fragments c'))"
    by (simp add: r_stored_def view_fields comp_def case_prod_unfold)
  ultimately show ?thesis using c'(1) by auto
qed

theorem fragments_within_limit_witness:
  "\<exists>c'. pump ((\<lambda>_. True) \<circ> octets) [frame_octets sample_first] (sample_conn 20) = Some c' \<and>
     sum_list (map (\<lambda>(k, b). length (octets b)) (fragments c')) \<le> 20"
proof -
  let ?c = "sample_conn 20"
  have mx: "0 < max_message_size ?c" "unat (max_message_size ?c) < 2147483648" "total_fragsize ?c \<le> max_message_size ?c"
    by (simp_all add: sample_conn_fields)
  have rv: "r_ver (view ?c) = 0x0102" by (simp add: sample_conn_fields)
  have ok: "frames_ok (\<lambda>_. True) (d_mach_bo (inctx ?c)) (max_message_size ?c) [sample_first] (view ?c)"
    by (rule v12_frames_ok [OF _ rv]) (simp add: sample_frames)
  have sp: "space (sum_list (map (\<lambda>f. length (frame_octets f)) [sample_first])) ?c"
    unfolding sample_conn_fields by (simp add: sample_sizes del: length_append)
  have fr: "fragments ?c = []" by (simp add: sample_conn_def new_conn_fields)
  show ?thesis
    using fragments_within_limit [OF sample_conn_fields(1) mx(1,2) fr mx(3) ok sp, of "[frame_octets sample_first]"]
    by (simp add: sample_conn_fields(3))
qed

section \<open>The count never falls\<close>

text \<open>A message of two fragments, of request \<open>i\<close>.\<close>

definition two_parts :: "byteorder \<Rightarrow> ulong \<Rightarrow> octet list \<times> octet list \<Rightarrow> octet list \<times> octet list \<Rightarrow> bool" where
  "two_parts mach i f l \<longleftrightarrow> v12 f \<and> v12 l \<and> \<not> continues f \<and> goes_on f \<and> continues l \<and> \<not> goes_on l \<and>
     id_of mach (frame_octets f) = i \<and> id_of mach (frame_octets l) = i \<and> 4 \<le> length (snd f) \<and> 4 \<le> length (snd l)"

text \<open>The octets of the message put together, which are those counted.\<close>

definition joined :: "octet list \<times> octet list \<Rightarrow> octet list \<times> octet list \<Rightarrow> octet list" where
  "joined f l = frame_octets f @ contents_of l"

lemma joined_length:
  assumes "two_parts mach i f l"
  shows "length (joined f l) = length (frame_octets f) + (length (snd l) - 4)" "16 \<le> length (frame_octets f)"
    "length (fst f) = 12" "length (fst l) = 12"
proof -
  have l: "length (fst f) = 12" "length (fst l) = 12" using assms v12_parse(2) by (auto simp: two_parts_def)
  then show "length (fst f) = 12" "length (fst l) = 12" by simp_all
  show "16 \<le> length (frame_octets f)" using l assms by (simp add: two_parts_def)
  show "length (joined f l) = length (frame_octets f) + (length (snd l) - 4)" using l by (simp add: joined_def contents_of_def)
qed

lemma not_over:
  assumes "unat a \<le> unat mx"
  shows "\<not> over mx a"
  using assms by (simp add: over_def word_less_nat_alt)

lemma is_over:
  assumes "mx > 0" and "unat mx < unat a"
  shows "over mx a"
  using assms by (simp add: over_def word_less_nat_alt)

lemma sum_total:
  assumes "n + unat t < 4294967296"
  shows "unat (word_of_nat n + t :: ulong) = n + unat t"
  using unat_total [of t n] assms by (simp add: add.commute)

lemma first_part:
  assumes p: "two_parts mach i f l" and r: "r_ver r = 0x0102" "map_find i (r_table r) = None"
    and fits: "unat (r_total r) + length (frame_octets f) \<le> unat mx"
  shows "frame_step ans mach mx f r = r\<lparr>r_table := map_put i (frame_octets f) (r_table r),
    r_total := r_total r + word_of_nat (length (frame_octets f))\<rparr>"
proof -
  note l = joined_length [OF p]
  have mx: "unat mx < 4294967296" by (rule unat_ulong_lt)
  have fl: "length (frame_octets f) = 12 + length (snd f)" using l(3) by simp
  have "unat (frame_size f + r_total r) = length (snd f) + unat (r_total r)"
    unfolding frame_size_def using fits fl mx by (intro sum_total) linarith
  then have a: "\<not> over mx (frame_size f + r_total r)" using fits l by (intro not_over) simp
  have "unat (frame_size f) = length (snd f)" unfolding frame_size_def using fits fl mx by (intro nowrap) linarith
  then have b: "\<not> over mx (frame_size f)" using fits l by (intro not_over) simp
  have "unat (word_of_nat (length (frame_octets f)) + r_total r) = length (frame_octets f) + unat (r_total r)"
    using fits mx by (intro sum_total) linarith
  then have c: "\<not> over mx (word_of_nat (length (frame_octets f)) + r_total r)" using fits by (intro not_over) linarith
  have v: "v12 f" and k: "\<not> continues f" "goes_on f" "id_of mach (frame_octets f) = i"
    using p by (simp_all add: two_parts_def)
  have "\<not> length (frame_octets f) < 16" using l(2) by linarith
  with a b c k r show ?thesis
    unfolding v12_step [OF v r(1)] by (simp add: too_big_def begin_fragments_def del: length_append of_nat_add)
qed

lemma last_part:
  assumes p: "two_parts mach i f l" and r: "r_ver r = 0x0102" "map_find i (r_table r) = Some (frame_octets f)"
    and fits: "unat (r_total r) + length (snd l) \<le> unat mx" and ans: "ans (joined f l)"
  shows "frame_step ans mach mx l r = r\<lparr>r_table := map_erase i (r_table r),
    r_total := r_total r + word_of_nat (length (snd l) - 4), r_out := r_out r @ [joined f l]\<rparr>"
proof -
  note l = joined_length [OF p]
  have mx: "unat mx < 4294967296" by (rule unat_ulong_lt)
  have "unat (frame_size l + r_total r) = length (snd l) + unat (r_total r)"
    unfolding frame_size_def using fits mx by (intro sum_total) linarith
  then have a: "\<not> over mx (frame_size l + r_total r)" using fits by (intro not_over) simp
  have "unat (frame_size l) = length (snd l)" unfolding frame_size_def using fits mx by (intro nowrap) linarith
  then have b: "\<not> over mx (frame_size l)" using fits by (intro not_over) simp
  have v: "v12 l" and k: "continues l" "\<not> goes_on l" "id_of mach (frame_octets l) = i" "4 \<le> length (snd l)"
    using p by (simp_all add: two_parts_def)
  have n: "\<not> length (frame_octets l) < 16" "length (frame_octets l) - 16 = length (snd l) - 4" using l(4) k(4) by simp_all
  show ?thesis
    unfolding v12_step [OF v r(1)] using a b k r(2) n ans
    by (simp add: too_big_def continue_fragments_def deliver_def Let_def joined_def contents_of_def del: length_append)
qed

lemma last_part_refused:
  assumes p: "two_parts mach i f l" and r: "r_ver r = 0x0102"
    and mx: "mx > 0" and big: "unat mx < unat (r_total r) + length (snd l)"
      "unat (r_total r) + length (snd l) < 4294967296"
  shows "frame_step ans mach mx l r = shut r"
proof -
  have "unat (frame_size l + r_total r) = length (snd l) + unat (r_total r)"
    unfolding frame_size_def using big(2) by (intro sum_total) simp
  then have "over mx (frame_size l + r_total r)" using big(1) mx by (intro is_over) simp_all
  moreover have "v12 l" "continues l" using p by (simp_all add: two_parts_def)
  ultimately show ?thesis by (simp add: v12_step [OF _ r] too_big_def)
qed

lemma first_part_refused:
  assumes p: "two_parts mach i f l" and r: "r_ver r = 0x0102"
    and mx: "mx > 0" and big: "unat mx < unat (r_total r) + length (frame_octets f)"
      "unat (r_total r) + length (frame_octets f) < 4294967296"
  shows "frame_step ans mach mx f r = shut r"
proof -
  have "unat (word_of_nat (length (frame_octets f)) + r_total r) = length (frame_octets f) + unat (r_total r)"
    using big(2) by (intro sum_total) linarith
  note u = this
  have "unat mx < unat (word_of_nat (length (frame_octets f)) + r_total r)" unfolding u using big(1) by linarith
  then have "over mx (word_of_nat (length (frame_octets f)) + r_total r)" by (rule is_over [OF mx])
  moreover have "v12 f" "\<not> continues f" "goes_on f" using p by (simp_all add: two_parts_def)
  ultimately show ?thesis
    by (simp add: v12_step [OF _ r] begin_fragments_def r del: length_append of_nat_add)
qed


lemma map_erase_absent: "map_find k m = None \<Longrightarrow> map_erase k m = m"
  by (induction m) (auto simp: map_find_def map_erase_def split: if_splits)

text \<open>A message of two parts leaves the table as it was, and the count higher.\<close>

lemma message_taken:
  assumes p: "two_parts mach i f l" and r: "r_ver r = 0x0102" "map_ok (r_table r)" "map_find i (r_table r) = None" "r_open r"
    and fits: "unat (r_total r) + length (joined f l) + 4 \<le> unat mx" and ans: "ans (joined f l)"
  shows "run_frames ans mach mx [f, l] r =
    r\<lparr>r_total := r_total r + word_of_nat (length (joined f l)), r_out := r_out r @ [joined f l]\<rparr>"
proof -
  note len = joined_length [OF p]
  have l4: "4 \<le> length (snd l)" using p by (simp add: two_parts_def)
  let ?r = "r\<lparr>r_table := map_put i (frame_octets f) (r_table r), r_total := r_total r + word_of_nat (length (frame_octets f))\<rparr>"
  have f1: "unat (r_total r) + length (frame_octets f) \<le> unat mx" using fits len(1) by linarith
  have mx: "unat mx < 4294967296" by (rule unat_ulong_lt)
  have t: "unat (r_total ?r) = unat (r_total r) + length (frame_octets f)"
    using unat_total [of "r_total r" "length (frame_octets f)"] f1 mx by (simp del: length_append of_nat_add)
  have f2: "unat (r_total ?r) + length (snd l) \<le> unat mx" unfolding t using fits len(1) l4 by linarith
  have e: "map_erase i (map_put i (frame_octets f) (r_table r)) = r_table r"
    unfolding map_erase_put using r(3) by (simp add: map_erase_absent)
  have "frame_step ans mach mx l ?r = r\<lparr>r_total := r_total r + word_of_nat (length (joined f l)), r_out := r_out r @ [joined f l]\<rparr>"
    using last_part [where r = ?r and ans = ans, OF p _ _ f2 ans] r e len(1) by (simp add: map_find_put add.assoc)
  then show ?thesis using first_part [OF p r(1,3) f1] r(4) by simp
qed

lemma message_refused:
  assumes p: "two_parts mach i f l" and r: "r_ver r = 0x0102" "map_ok (r_table r)" "map_find i (r_table r) = None" "r_open r"
    and mx: "mx > 0" and big: "unat mx < unat (r_total r) + length (joined f l) + 4"
      "unat (r_total r) + length (joined f l) + 4 < 4294967296"
  shows "r_out (run_frames ans mach mx [f, l] r) = r_out r \<and> \<not> r_open (run_frames ans mach mx [f, l] r)"
proof (cases "unat (r_total r) + length (frame_octets f) \<le> unat mx")
  case True
  note len = joined_length [OF p]
  have l4: "4 \<le> length (snd l)" using p by (simp add: two_parts_def)
  let ?r = "r\<lparr>r_table := map_put i (frame_octets f) (r_table r), r_total := r_total r + word_of_nat (length (frame_octets f))\<rparr>"
  have t: "unat (r_total ?r) = unat (r_total r) + length (frame_octets f)"
    using unat_total [of "r_total r" "length (frame_octets f)"] True unat_ulong_lt [of mx] by (simp del: length_append of_nat_add)
  have "unat mx < unat (r_total ?r) + length (snd l)" "unat (r_total ?r) + length (snd l) < 4294967296"
    unfolding t using big len(1) l4 by linarith+
  then have "frame_step ans mach mx l ?r = shut ?r" using last_part_refused [OF p _ mx, of ?r] r(1) by simp
  then show ?thesis using first_part [OF p r(1,3) True] r(4) by (simp add: shut_def)
next
  case False
  have "unat (r_total r) + length (frame_octets f) < 4294967296" using big(2) joined_length(1) [OF p] by linarith
  then have "frame_step ans mach mx f r = shut r" using first_part_refused [OF p r(1) mx] False by simp
  then show ?thesis using r(4) by (simp add: shut_def)
qed

lemma messages_until_limit:
  assumes p: "two_parts mach i f l" and ans: "ans (joined f l)"
  shows "r_ver r = 0x0102 \<Longrightarrow> map_ok (r_table r) \<Longrightarrow> map_find i (r_table r) = None \<Longrightarrow> r_open r \<Longrightarrow>
    unat (r_total r) + n * length (joined f l) + 4 \<le> unat mx \<Longrightarrow>
    unat mx < unat (r_total r) + Suc n * length (joined f l) + 4 \<Longrightarrow>
    unat (r_total r) + Suc n * length (joined f l) + 4 < 4294967296 \<Longrightarrow>
    r_out (run_frames ans mach mx (concat (replicate (Suc n) [f, l])) r) = r_out r @ replicate n (joined f l) \<and>
    \<not> r_open (run_frames ans mach mx (concat (replicate (Suc n) [f, l])) r)"
proof (induction n arbitrary: r)
  case 0
  have "mx > 0" using 0(5) by (simp add: word_gt_0 unat_gt_0, auto)
  then show ?case using message_refused [OF p 0(1-4)] 0(6,7) by simp
next
  case (Suc n)
  have fits: "unat (r_total r) + length (joined f l) + 4 \<le> unat mx" using Suc.prems(5) by simp
  let ?r = "r\<lparr>r_total := r_total r + word_of_nat (length (joined f l)), r_out := r_out r @ [joined f l]\<rparr>"
  have t: "unat (r_total ?r) = unat (r_total r) + length (joined f l)"
    using unat_total [of "r_total r" "length (joined f l)"] fits unat_ulong_lt [of mx] by simp
  have "run_frames ans mach mx (concat (replicate (Suc (Suc n)) [f, l])) r =
      run_frames ans mach mx (concat (replicate (Suc n) [f, l])) (run_frames ans mach mx [f, l] r)"
    unfolding run_append [symmetric] by simp
  also note message_taken [where ans = ans, OF p Suc.prems(1-4) fits ans]
  finally have run: "run_frames ans mach mx (concat (replicate (Suc (Suc n)) [f, l])) r =
      run_frames ans mach mx (concat (replicate (Suc n) [f, l])) ?r" .
  have "unat (r_total ?r) + n * length (joined f l) + 4 \<le> unat mx"
    "unat mx < unat (r_total ?r) + Suc n * length (joined f l) + 4"
    "unat (r_total ?r) + Suc n * length (joined f l) + 4 < 4294967296"
    unfolding t using Suc.prems(5-7) by simp_all
  from Suc.IH [of ?r, OF _ _ _ _ this] Suc.prems(1-4) show ?case unfolding run by simp
qed



section \<open>Fragments of version 1.1\<close>

definition v11 :: "octet list \<times> octet list \<Rightarrow> bool" where
  "v11 f \<longleftrightarrow> framed 0x0101 f \<and> take 4 (fst f) = giop_magic \<and> fst f ! 4 = 1 \<and> fst f ! 5 = 1"

lemma join_11: "join_version 1 1 = 0x0101"
  by (simp add: join_version_def)

lemma v11_parse:
  assumes "v11 f"
  shows "parse_header 0x0101 (fst f) = Some (fst f ! 7, frame_size f, fst f ! 6, 0x0101)"
    "length (fst f) = 12" "length (snd f) < 2147483648"
proof -
  obtain h b where f: "f = (h, b)" by (cases f)
  let ?sz = "image_word (header_order 0x0101 h) (drop 8 h) :: ulong"
  have p: "parse_header 0x0101 h = Some (h ! 7, ?sz, h ! 6, 0x0101)"
    using assms by (simp add: v11_def f parse_header_def header_version_def join_11 header_flags_def)
  have "unat ?sz = length b" using assms p by (simp add: v11_def framed_def f)
  then have "?sz = word_of_nat (length b)" by (metis of_nat_unat ucast_id)
  with p show "parse_header 0x0101 (fst f) = Some (fst f ! 7, frame_size f, fst f ! 6, 0x0101)"
    by (simp add: frame_size_def f)
  show "length (fst f) = 12" "length (snd f) < 2147483648" using assms by (simp_all add: v11_def framed_def f)
qed

definition small :: "ulong \<Rightarrow> octet list \<times> octet list \<Rightarrow> bool" where
  "small mx f \<longleftrightarrow> mx = 0 \<or> length (snd f) \<le> unat mx"

text \<open>What a frame of version 1.1 does: a fragment is appended to the message kept, and the count stays.\<close>

lemma v11_step:
  assumes f: "v11 f" "small mx f" and r: "r_ver r = 0x0101" "r_total r = 0"
  shows "frame_step ans mach mx f r = (if continues f then (case r_frag r of
       None \<Rightarrow> shut r
     | Some x \<Rightarrow> (if goes_on f then r\<lparr>r_frag := Some (x @ snd f)\<rparr> else deliver ans (x @ snd f) (r\<lparr>r_frag := None\<rparr>)))
     else if goes_on f then (if r_frag r \<noteq> None then shut r else r\<lparr>r_frag := Some (frame_octets f)\<rparr>)
     else deliver ans (frame_octets f) r)"
proof -
  have same: "r\<lparr>r_ver := 0x0101\<rparr> = r" "\<And>x y. r\<lparr>r_ver := 0x0101, r_frag := x, r_frag := y\<rparr> = r\<lparr>r_frag := y\<rparr>"
    "\<And>x. r\<lparr>r_ver := 0x0101, r_frag := x\<rparr> = r\<lparr>r_frag := x\<rparr>"
    using r by (cases r; simp)+
  obtain h b where hb: "f = (h, b)" by (cases f)
  have "unat (frame_size f) = length (snd f)" unfolding frame_size_def using v11_parse(3) [OF f(1)] by (intro nowrap) linarith
  then have no: "\<not> over mx (frame_size f)" using f(2) by (auto simp: small_def over_def word_less_nat_alt)
  show ?thesis
    using v11_parse(1) [OF f(1)] r no unfolding hb
    by (simp add: frame_step_def same Let_def continues_def goes_on_def complete_step_def begin_fragments_def
        split: option.split)
qed

lemma run_fragments_11:
  "\<forall>f \<in> set gs. v11 f \<and> small mx f \<and> continues f \<and> goes_on f \<Longrightarrow> r_ver r = 0x0101 \<Longrightarrow> r_total r = 0 \<Longrightarrow> r_open r \<Longrightarrow>
   r_frag r = Some x \<Longrightarrow>
   run_frames ans mach mx gs r = r\<lparr>r_frag := Some (x @ concat (map snd gs))\<rparr>"
proof (induction gs arbitrary: r x)
  case Nil
  then show ?case by (cases r) simp
next
  case (Cons g gs)
  have g: "v11 g" "small mx g" "continues g" "goes_on g" using Cons.prems(1) by simp_all
  have "frame_step ans mach mx g r = r\<lparr>r_frag := Some (x @ snd g)\<rparr>"
    using v11_step [OF g(1,2) Cons.prems(2,3)] g Cons.prems(5) by simp
  then show ?case using Cons.IH [of "r\<lparr>r_frag := Some (x @ snd g)\<rparr>" "x @ snd g"] Cons.prems by simp
qed

lemma message_11:
  assumes f: "v11 f" "small mx f" "\<not> continues f" "goes_on f"
    and gs: "\<forall>g \<in> set gs. v11 g \<and> small mx g \<and> continues g \<and> goes_on g"
    and l: "v11 l" "small mx l" "continues l" "\<not> goes_on l"
    and r: "r_ver r = 0x0101" "r_total r = 0" "r_open r" "r_frag r = None"
  shows "run_frames ans mach mx (f # gs @ [l]) r = deliver ans (frame_octets f @ concat (map snd (gs @ [l]))) r"
proof -
  let ?r = "r\<lparr>r_frag := Some (frame_octets f)\<rparr>"
  have a: "frame_step ans mach mx f r = ?r" using v11_step [OF f(1,2) r(1,2)] f r(4) by simp
  have b: "run_frames ans mach mx gs ?r = r\<lparr>r_frag := Some (frame_octets f @ concat (map snd gs))\<rparr>"
    using run_fragments_11 [OF gs, of ?r] r by simp
  have same: "r\<lparr>r_frag := None\<rparr> = r" using r(4) by (cases r) simp
  have "frame_step ans mach mx l (r\<lparr>r_frag := Some x\<rparr>) = deliver ans (x @ snd l) r" for x
    using v11_step [OF l(1,2), of "r\<lparr>r_frag := Some x\<rparr>"] l r(1,2) same by simp
  then show ?thesis using r(3) by (simp add: a run_append b)
qed

lemma v11_frames_ok:
  "\<forall>f \<in> set fs. v11 f \<Longrightarrow> r_ver r = 0x0101 \<Longrightarrow> frames_ok ans mach mx fs r"
proof (induction fs arbitrary: r)
  case (Cons f fs)
  obtain h b where hb: "f = (h, b)" by (cases f)
  have f: "v11 f" using Cons.prems(1) by simp
  have ver: "r_ver (shut r) = r_ver r" "r_ver (deliver ans m r) = r_ver r" for m r
    by (simp_all add: shut_def deliver_def Let_def)
  have "r_ver (frame_step ans mach mx f r) = 0x0101"
    using v11_parse(1) [OF f] Cons.prems(2) unfolding hb
    by (simp add: frame_step_def Let_def ver complete_step_def begin_fragments_def continue_fragments_def split: option.split)
  then show ?case using Cons f by (simp add: v11_def)
qed simp

text \<open>A message of version 1.1 in fragments is delivered whole, the first frame followed by the bodies
  of the others, whatever its size: the limit on the size of a message is only compared with each
  frame.\<close>

theorem fragments_11_unlimited:
  assumes c: "between c" "giop_ver (gcodec c) = 0x0101" and fresh: "infrag c = None" "total_fragsize c = 0"
    and f: "v11 f" "\<not> continues f" "goes_on f" and gs: "\<forall>g \<in> set gs. v11 g \<and> continues g \<and> goes_on g"
    and l: "v11 l" "continues l" "\<not> goes_on l"
    and limit: "\<forall>g \<in> set (f # gs @ [l]). max_message_size c = 0 \<or> length (snd g) \<le> unat (max_message_size c)"
    and sp: "sum_list (map (\<lambda>f. length (frame_octets f)) (f # gs @ [l])) < 4294967296"
    and ans: "ans (frame_octets f @ concat (map snd (gs @ [l])))"
    and xss: "xss \<noteq> []" "concat xss = concat (map frame_octets (f # gs @ [l]))"
  shows "\<exists>c'. pump (ans \<circ> octets) xss c = Some c' \<and> reading c' \<and> total_fragsize c' = 0 \<and>
     map octets (delivered c') = map octets (delivered c) @ [frame_octets f @ concat (map snd (gs @ [l]))]"
proof -
  let ?fs = "f # gs @ [l]" and ?mach = "d_mach_bo (inctx c)" and ?mx = "max_message_size c"
  have rv: "r_ver (view c) = 0x0101" using c(2) by (simp add: view_fields)
  have v: "\<forall>f \<in> set ?fs. v11 f" using f gs l by simp
  have "space (sum_list (map (\<lambda>f. length (frame_octets f)) ?fs)) c"
    using sp fresh by (simp add: space_def)
  then obtain c' where c': "pump (ans \<circ> octets) xss c = Some c'" "view c' = run_frames ans ?mach ?mx ?fs (view c)"
    using pump_refines [OF c(1) v11_frames_ok [OF v rv] _ _ xss] by auto
  have op: "r_open (view c)" using online_facts(5) [of c] c(1) by (simp add: view_fields between_def)
  have "small ?mx f" "\<forall>g \<in> set gs. v11 g \<and> small ?mx g \<and> continues g \<and> goes_on g" "small ?mx l"
    using limit gs by (auto simp: small_def)
  then have "view c' = deliver ans (frame_octets f @ concat (map snd (gs @ [l]))) (view c)"
    unfolding c'(2) using message_11 [OF f(1) _ f(2,3) _ l(1) _ l(2,3) rv _ op] fresh by (simp add: view_fields)
  then have "view c' = (view c)\<lparr>r_out := r_out (view c) @ [frame_octets f @ concat (map snd (gs @ [l]))]\<rparr>"
    using ans by (simp add: deliver_def)
  then have "r_open (view c')" "r_total (view c') = 0"
    "r_out (view c') = map octets (delivered c) @ [frame_octets f @ concat (map snd (gs @ [l]))]"
    using op fresh by (simp_all add: view_fields)
  then show ?thesis using c'(1) by (simp add: view_fields)
qed

definition sample_conn_11 :: "ulong \<Rightarrow> conn" where
  "sample_conn_11 mx = (sample_conn mx)\<lparr>gcodec := (gcodec (sample_conn mx))\<lparr>giop_ver := 0x0101\<rparr>\<rparr>"

lemma sample_conn_11_fields:
  "between (sample_conn_11 mx)" "giop_ver (gcodec (sample_conn_11 mx)) = 0x0101" "max_message_size (sample_conn_11 mx) = mx"
  "infrag (sample_conn_11 mx) = None" "total_fragsize (sample_conn_11 mx) = 0" "delivered (sample_conn_11 mx) = []"
proof -
  have same: "online (c\<lparr>gcodec := (gcodec c)\<lparr>giop_ver := v\<rparr>\<rparr>) = online c" "idle (c\<lparr>gcodec := (gcodec c)\<lparr>giop_ver := v\<rparr>\<rparr>) = idle c"
    "table_ok (c\<lparr>gcodec := (gcodec c)\<lparr>giop_ver := v\<rparr>\<rparr>) = table_ok c" for c v
    by (simp_all add: online_def idle_def awaiting_def settled_def table_ok_def)
  show "between (sample_conn_11 mx)"
    using sample_conn_fields(1) [of mx] by (simp add: sample_conn_11_def between_def same)
qed (simp_all add: sample_conn_11_def sample_conn_fields)

definition sample_11 :: "octet \<Rightarrow> octet \<Rightarrow> octet list \<times> octet list" where
  "sample_11 fl mt = (giop_magic @ [1, 1, fl, mt, 4, 0, 0, 0], [1, 2, 3, 4])"

lemma sample_11_ok:
  assumes "and fl GIOP_BYTEORDER_BIT \<noteq> 0"
  shows "v11 (sample_11 fl mt)"
  using assms
  by (simp add: sample_11_def v11_def framed_def parse_header_def header_version_def header_order_def join_11
      giop_magic_def image_word_def image_nat_def)

theorem fragments_11_unlimited_witness:
  "\<exists>c'. pump ((\<lambda>_. True) \<circ> octets)
     [frame_octets (sample_11 3 0), frame_octets (sample_11 3 7), frame_octets (sample_11 1 7)] (sample_conn_11 4) = Some c' \<and>
   reading c' \<and> total_fragsize c' = 0 \<and>
   map octets (delivered c') = [frame_octets (sample_11 3 0) @ [1, 2, 3, 4, 1, 2, 3, 4]]"
proof -
  let ?f = "sample_11 3 0" and ?g = "sample_11 3 7" and ?l = "sample_11 1 7"
  have v: "v11 ?f" "v11 ?g" "v11 ?l" by (rule sample_11_ok; simp add: GIOP_BYTEORDER_BIT_def)+
  have k: "\<not> continues ?f" "goes_on ?f" "continues ?g" "goes_on ?g" "continues ?l" "\<not> goes_on ?l"
    by (simp_all add: continues_def goes_on_def sample_11_def giop_magic_def Fragment_def GIOP_FRAGMENT_BIT_def)
  have gs: "\<forall>g \<in> set [?g]. v11 g \<and> continues g \<and> goes_on g" using v k by simp
  have s: "snd (sample_11 a b) = [1, 2, 3, 4]" "length (fst (sample_11 a b)) = 12" for a b
    by (simp_all add: sample_11_def giop_magic_def)
  show ?thesis
    using fragments_11_unlimited [OF sample_conn_11_fields(1,2,4,5) v(1) k(1,2) gs v(3) k(5,6), of 4 "\<lambda>_. True"
        "[frame_octets ?f, frame_octets ?g, frame_octets ?l]"]
    by (simp add: sample_conn_11_fields s)
qed

section \<open>A message of 2 GB\<close>

text \<open>A connection that wants more octets than a \<open>Long\<close> holds reads nothing, whatever there is.\<close>

lemma stalled_read:
  assumes wf: "buf_wf (inbuf d)" and room: "wptr (inbuf d) + inlen d \<le> blen (inbuf d)"
    and n: "2147483648 \<le> unat (inlen d)" and e: "\<not> ateof (transp d)"
  shows "do_read up brk d = Some d"
proof -
  have neg: "nat (sint (inlen d)) = 0" using sint_ulong_neg_iff [of "inlen d"] n by auto
  have z: "inlen d > 0" using n by (simp add: word_less_nat_alt)
  have "mem_write (mem (inbuf d)) (unat (wptr (inbuf d))) [] = Some (mem (inbuf d))"
    using buf_wfD [OF wf] by (simp add: mem_write_def word_le_nat_alt)
  moreover have "resize (inlen d) (inbuf d) = Some (inbuf d)" unfolding resize_def using room by (auto dest: leD)
  moreover have "tcp_read (inlen d) (transp d) = (True, [], transp d)" by (simp add: tcp_read_def neg read_loop.simps)
  ultimately have "transport_read (inlen d) (inbuf d) (transp d) = Some (0, inbuf d, transp d)"
    by (simp add: transport_read_def)
  then have "conn_read_again d = Some (0, d)" by (simp add: conn_read_again_def conn_read_def)
  then have "read_step up brk d = Some (False, d)" using read_step_eq(3) [OF z] e by blast
  then show ?thesis by (rule do_read_steps(2))
qed

text \<open>Without a size limit, a header that announces 2 GB or more (the size is an unsigned long, the
  transport counts in signed ones) stalls its connection: it stays registered for reading, but from
  then on every callback returns without having taken an octet, noticed an error or the end of the
  stream, whatever the socket has to report; so the dispatcher will call it again at once, for ever.\<close>

theorem huge_message_stalls:
  assumes c: "between c" and mx: "max_message_size c = 0" and len: "length h = 12"
    and h: "parse_header (giop_ver (gcodec c)) h = Some (mt, sz, fl, w)" and k: "mt \<noteq> Fragment \<or> w \<noteq> 0x0101"
    and sz: "2147483648 \<le> unat sz" "12 + unat sz < 4294967296"
  shows "\<exists>d. offer up h c = Some d \<and> reading d \<and> delivered d = delivered c \<and> inlen d = sz \<and>
     (\<forall>es brk. do_read up brk (d\<lparr>transp := (transp d)\<lparr>arriving := es\<rparr>\<rparr>) = Some (d\<lparr>transp := (transp d)\<lparr>arriving := es\<rparr>\<rparr>))"
proof -
  have on: "online c" and id: "idle c" using c by (simp_all add: between_def)
  note o = online_facts [OF on]
  have i12: "inlen c = 12" "octets (inbuf c) = []" using id by (simp_all add: idle_def)
  then have w: "want c = 12" by simp
  have "unat (wptr (inbuf c)) = 0" using i12(2) o(4) in_ok_octets(2) [of "inbuf c"] by (simp add: settled_def)
  then obtain d where d: "absorb h c = Some d" using absorb_room [OF o(1), of h] i12(1) len by auto
  have hn: "h \<noteq> []" using len by auto
  note fd = absorb_filled [OF o(3) d hn] and vd = absorb_view [OF o(1) d]
  have dd: "settled d" "inlen d = 0" "octets (inbuf d) = h" "transp d = transp c"
    using fd w len i12 by (auto simp: filled_def unat_eq_0)
  have l12: "length (octets (inbuf d)) = 12" using dd(3) len by simp
  obtain x where x: "ctx_ok x" "header_step up d = Some (after_header up x d)"
    using header_step_eq [OF dd(1,2) l12, of up] by auto
  let ?a = "d\<lparr>inctx := x, gcodec := (gcodec d)\<lparr>giop_ver := w\<rparr>, inlen := sz, inflags := fl\<rparr>"
  have a: "after_header up x d = (True, ?a)"
    using h k mx vd(3,5) dd(3) by (auto simp: after_header_def Let_def over_limit_def)
  have nz: "inlen ?a \<noteq> 0" using sz(1) by auto
  have "settled ?a" using after_header_keeps(1) [OF dd(1) l12 x(1) a] by blast
  then have "awaiting ?a" using nz l12 by (simp add: awaiting_def)
  then have oa: "online ?a" using dd(4) o(6,7) by (simp add: online_def)
  note fa = online_facts [OF oa]
  have "in_ok (inbuf d)" using dd(1) by (simp add: settled_def)
  then have wd: "unat (wptr (inbuf d)) = 12" using in_ok_octets(2) l12 by metis
  have "unat (wptr (inbuf ?a)) + unat (inlen ?a) < 4294967296" using wd sz(2) by simp
  then obtain e where e: "absorb [] ?a = Some e" using absorb_room [OF fa(1), of "[]"] by auto
  obtain b where b: "buf_wf b" "wptr b + sz \<le> blen b"
    "absorb [] ?a = map_option (\<lambda>b. ?a\<lparr>inbuf := b, inlen := sz - word_of_nat (length ([] :: octet list))\<rparr>) (store_octets [] b)"
    using absorb_resize [OF fa(1), of "[]"] by auto
  have "store_octets [] b = Some b" using buf_wfD [OF b(1)]
    by (simp add: store_octets_def mem_write_def word_le_nat_alt)
  then have ee: "inbuf e = b" "inlen e = sz" "transp e = transp c" "reading e" "delivered e = delivered c"
    using e b(3) dd(4) vd(9,10) o(5) by auto
  have td: "take (want c) h = h" "drop (want c) h = []" using w len by simp_all
  have "received up False d = Some (True, ?a)"
    using is_header [OF dd(1)] l12 x(2) a nz by (simp add: received_def)
  then have "offer up h c = offer up [] ?a"
    using offer_eq [OF on refl, of up h, unfolded td] d hn by simp
  then have "offer up h c = Some e" using offer_nil [OF oa] e by simp
  moreover have "do_read up brk (e\<lparr>transp := (transp e)\<lparr>arriving := es\<rparr>\<rparr>) = Some (e\<lparr>transp := (transp e)\<lparr>arriving := es\<rparr>\<rparr>)" for es brk
    by (rule stalled_read) (use ee b sz(1) o(7) in simp_all)
  ultimately show ?thesis using ee by blast
qed

theorem huge_message_stalls_witness:
  "\<exists>d. offer (\<lambda>_. True) (giop_magic @ [1, 2, 0, 0, 0x80, 0, 0, 0]) (sample_conn 0) = Some d \<and> reading d \<and>
     (\<forall>es brk. do_read (\<lambda>_. True) brk (d\<lparr>transp := (transp d)\<lparr>arriving := es\<rparr>\<rparr>) = Some (d\<lparr>transp := (transp d)\<lparr>arriving := es\<rparr>\<rparr>))"
proof -
  let ?h = "giop_magic @ [1, 2, 0, 0, 0x80, 0, 0, 0]" and ?c = "sample_conn 0"
  have p: "parse_header (giop_ver (gcodec ?c)) ?h = Some (0, 0x80000000, 0, 0x0102)"
    by (simp add: sample_conn_fields parse_header_def header_version_def header_order_def header_flags_def join_12
        giop_magic_def image_word_def image_nat_def GIOP_BYTEORDER_BIT_def)
  have l: "length ?h = 12" by (simp add: giop_magic_def)
  have k: "(0 :: octet) \<noteq> Fragment \<or> (0x0102 :: ushort) \<noteq> 0x0101" by simp
  have s: "2147483648 \<le> unat (0x80000000 :: ulong)" "12 + unat (0x80000000 :: ulong) < 4294967296" by simp_all
  show ?thesis
    using huge_message_stalls [OF sample_conn_fields(1,3) l p k s] by blast
qed

end
