(* ===== verification/GIOP_Out.thy ===== *)
theory GIOP_Out
  imports GIOP_Stream
begin

text \<open>
  What a connection sends. Its output is a queue of octets: those the socket has taken followed by
  those that wait, and every operation of the connection either leaves it alone or appends a message.
  A connection with waiting output is registered for writing and never for the idle timer.
\<close>

section \<open>The queue of octets\<close>

definition waiting :: "conn \<Rightarrow> octet list" where
  "waiting c = concat (map octets (outbufs c))"

definition outgoing_octets :: "conn \<Rightarrow> octet list" where
  "outgoing_octets c = sent (transp c) @ waiting c"

text \<open>A message that can be written: not empty, and no longer than a \<open>Long\<close> counts.\<close>

definition sendable :: "buffer \<Rightarrow> bool" where
  "sendable b \<longleftrightarrow> buf_wf b \<and> octets b \<noteq> [] \<and> length (octets b) < 2147483648"

definition out_ok :: "conn \<Rightarrow> bool" where
  "out_ok c \<longleftrightarrow> sopen (transp c) \<and> (\<forall>b \<in> set (outbufs c). sendable b)"

definition loop_sent :: "nat \<Rightarrow> octet list \<Rightarrow> transport \<Rightarrow> bool \<Rightarrow> octet list \<Rightarrow> transport \<Rightarrow> bool" where
  "loop_sent len xs t ok ys t' \<longleftrightarrow> sent t' @ ys = sent t @ xs \<and> length ys \<le> length xs \<and>
     (\<not> ok \<longrightarrow> ys = xs \<and> length xs = len) \<and> sopen t' \<and> ateof t' = ateof t \<and> arriving t' = arriving t"

lemma loop_sent_stay:
  "sopen t \<Longrightarrow> (\<not> ok \<longrightarrow> length xs = len) \<Longrightarrow> loop_sent len xs t ok xs (t\<lparr>accepting := es\<rparr>)"
  "sopen t \<Longrightarrow> (\<not> ok \<longrightarrow> length xs = len) \<Longrightarrow> loop_sent len xs t ok xs (t\<lparr>accepting := es, bad := True\<rparr>)"
  by (simp_all add: loop_sent_def)

lemma write_loop_steps:
  assumes "xs \<noteq> []" and "sopen t" and "sock_write (length xs) (accepting t) = (r, es)"
  shows "r = Inl EINTR \<Longrightarrow> write_loop len xs t = write_loop len xs (t\<lparr>accepting := es\<rparr>)"
    and "r = Inl k \<Longrightarrow> k \<noteq> EINTR \<Longrightarrow> write_loop len xs t =
      (if k = EWOULDBLOCK \<or> length xs \<noteq> len then (True, xs, t\<lparr>accepting := es\<rparr>)
       else (False, xs, t\<lparr>accepting := es, bad := True\<rparr>))"
    and "r = Inr 0 \<Longrightarrow> write_loop len xs t = (True, xs, t\<lparr>accepting := es\<rparr>)"
    and "r = Inr n \<Longrightarrow> n \<noteq> 0 \<Longrightarrow> write_loop len xs t =
      write_loop len (drop n xs) (t\<lparr>accepting := es, sent := sent t @ take n xs\<rparr>)"
  using assms by (simp_all add: write_loop.simps [of len xs t] Let_def)

lemma write_loop_sent:
  "write_loop len xs t = (ok, ys, t') \<Longrightarrow> sopen t \<Longrightarrow> length xs \<le> len \<Longrightarrow> loop_sent len xs t ok ys t'"
proof (induction len xs t arbitrary: ok ys t' rule: write_loop.induct)
  case (1 len xs t)
  show ?case
  proof (cases "xs = []")
    case True
    then have "ok" "ys = []" "t' = t" using 1(3) by (simp_all add: write_loop.simps)
    then show ?thesis using True 1(4) by (simp add: loop_sent_def)
  next
    case False
    obtain r es where s: "sock_write (length xs) (accepting t) = (r, es)"
      by (cases "sock_write (length xs) (accepting t)")
    note st = write_loop_steps [where len = len, OF False 1(4) s]
    show ?thesis
    proof (cases r)
      case (Inl k)
      show ?thesis
      proof (cases "k = EINTR")
        case True
        let ?t = "t\<lparr>accepting := es\<rparr>"
        have e: "write_loop len xs ?t = (ok, ys, t')" using 1(3) st(1) Inl True by simp
        have o: "sopen ?t" "\<not> \<not> sopen ?t" using 1(4) by simp_all
        from 1(1) [OF False s [symmetric] Inl refl o(2) True e o(1) 1(5)] show ?thesis by (simp add: loop_sent_def)
      next
        case k: False
        show ?thesis
        proof (cases "k = EWOULDBLOCK \<or> length xs \<noteq> len")
          case True
          then have "(True, xs, t\<lparr>accepting := es\<rparr>) = (ok, ys, t')" using 1(3) st(2) [OF Inl k] by simp
          then show ?thesis using loop_sent_stay(1) [OF 1(4)] by auto
        next
          case False
          then have "(False, xs, t\<lparr>accepting := es, bad := True\<rparr>) = (ok, ys, t')" using 1(3) st(2) [OF Inl k] by simp
          then show ?thesis using loop_sent_stay(2) [OF 1(4)] False by auto
        qed
      qed
    next
      case (Inr n)
      show ?thesis
      proof (cases "n = 0")
        case True
        then have "(True, xs, t\<lparr>accepting := es\<rparr>) = (ok, ys, t')" using 1(3) st(3) Inr by simp
        then show ?thesis using loop_sent_stay(1) [OF 1(4)] by auto
      next
        case n: False
        let ?t = "t\<lparr>accepting := es, sent := sent t @ take n xs\<rparr>"
        have e: "write_loop len (drop n xs) ?t = (ok, ys, t')" using 1(3) st(4) [OF Inr n] by simp
        have l: "length (drop n xs) \<le> len" "length (drop n xs) < len"
        proof -
          have "0 < length xs" using False by simp
          then show "length (drop n xs) < len" using 1(5) n unfolding length_drop by linarith
          then show "length (drop n xs) \<le> len" by simp
        qed
        have o: "sopen ?t" using 1(4) by simp
        have "write_loop len (drop n xs) ((t\<lparr>accepting := es\<rparr>)\<lparr>sent := sent (t\<lparr>accepting := es\<rparr>) @ take n xs\<rparr>) = (ok, ys, t')"
          using e by simp
        from 1(2) [OF False s [symmetric] Inr refl n this _ l(1)] o
        have "loop_sent len (drop n xs) ?t ok ys t'" by simp
        then show ?thesis using l(2) by (auto simp: loop_sent_def)
      qed
    qed
  qed
qed

lemma transport_write_eq:
  assumes b: "buf_wf b" "length (octets b) < 2147483648" and w: "tcp_write (octets b) t = (ok, ys, u)"
    and r: "r = (if ok then int (length (octets b) - length ys) else - 1)"
  shows "transport_write (buf_length b) True b t = Some (r, if r > 0 then snd (rseek_rel (word_of_int r) b) else b, u)"
proof -
  have n: "unat (buf_length b) = length (octets b)"
    using buf_wfD [OF b(1)] b(1) by (simp add: buf_length_def nowrap word_le_nat_alt)
  then have s: "0 \<le> sint (buf_length b)" using sint_ulong_small [of "buf_length b"] b(2) by simp
  have m: "mem_read (mem b) (unat (rptr b)) (unat (buf_length b)) = Some (octets b)"
    unfolding n using mem_read_octets [OF b(1), of "octets b" "[]"] by simp
  show ?thesis using s m w by (simp add: transport_write_def r)
qed

text \<open>A write takes octets from the front of the buffer and nothing else; only when it took none at all
  does it fail.\<close>

lemma transport_write_sent:
  assumes b: "buf_wf b" "length (octets b) < 2147483648" and t: "sopen t"
  shows "\<exists>r b' t'. transport_write (buf_length b) True b t = Some (r, b', t') \<and>
    sent t' @ octets b' = sent t @ octets b \<and> buf_wf b' \<and> length (octets b') \<le> length (octets b) \<and>
    (r > 0 \<longleftrightarrow> octets b' \<noteq> octets b) \<and> (r < 0 \<longrightarrow> b' = b) \<and> sopen t' \<and> ateof t' = ateof t \<and> arriving t' = arriving t"
proof -
  obtain ok ys u where w: "tcp_write (octets b) t = (ok, ys, u)" by (cases "tcp_write (octets b) t") auto
  note l = write_loop_sent [OF w [unfolded tcp_write_def] t order_refl, unfolded loop_sent_def]
  define r where "r = (if ok then int (length (octets b) - length ys) else - 1)"
  note eq = transport_write_eq [OF b w r_def]
  show ?thesis
  proof (cases "r > 0")
    case False
    then have "octets b = ys" "sent u = sent t"
    proof -
      show y: "octets b = ys"
      proof (cases ok)
        case True
        then have "length ys = length (octets b)" using False l by (simp add: r_def)
        then show ?thesis using l by (metis append_eq_append_conv)
      next
        case False
        then show ?thesis using l by simp
      qed
      then show "sent u = sent t" using l by simp
    qed
    then show ?thesis using False eq b l by simp
  next
    case True
    then have ok: ok and r: "r = int (length (octets b) - length ys)" by (simp_all add: r_def split: if_splits)
    let ?k = "length (octets b) - length ys"
    have k: "octets b = take ?k (octets b) @ ys" "sent u = sent t @ take ?k (octets b)"
    proof -
      have c: "sent u @ ys = sent t @ octets b" "length ys \<le> length (octets b)" using l by blast+
      have "length (sent u) + length ys = length (sent t) + length (octets b)"
        using arg_cong [OF c(1), of length] unfolding length_append .
      then have "length (sent u) = length (sent t) + ?k" using c(2) by linarith
      then have le: "length (sent t) \<le> length (sent u)" by simp
      let ?zs = "drop (length (sent t)) (sent u)"
      have "take (length (sent t)) (sent u) = sent t" using arg_cong [OF c(1), of "take (length (sent t))"] le by simp
      then have z: "sent u = sent t @ ?zs" by (metis append_take_drop_id)
      have "length ?zs = ?k" using \<open>length (sent u) = length (sent t) + ?k\<close> by simp
      moreover have "octets b = ?zs @ ys" using c(1) z by (metis append_assoc same_append_eq)
      ultimately obtain zs where "sent u = sent t @ zs" "length zs = ?k" "octets b = zs @ ys" using z by blast
      then show "octets b = take ?k (octets b) @ ys" "sent u = sent t @ take ?k (octets b)" by simp_all
    qed
    have "unat (word_of_int r :: ulong) = ?k" using r b(2) by (simp add: nowrap)
    then obtain b' where b': "rseek_rel (word_of_int r) b = (True, b')" "reads b (take ?k (octets b)) b'"
      using rseek_rel_reads [OF b(1) k(1), of "word_of_int r"] by auto
    have "octets b' = ys" using b'(2) k(1) by (metis reads_def same_append_eq)
    moreover have "ys \<noteq> octets b" using True r by auto
    ultimately show ?thesis using True eq b' l by (simp add: reads_def)
  qed
qed

section \<open>Writing\<close>

lemma waiting_simps [simp]:
  "waiting (c\<lparr>transp := t\<rparr>) = waiting c" "waiting (check_idle c) = waiting c" "waiting (check_busy c) = waiting c"
  "waiting (close_connection c) = waiting c" "waiting (c\<lparr>outbufs := bs\<rparr>) = concat (map octets bs)"
  by (simp_all add: waiting_def check_idle_def check_busy_def close_connection_def Let_def)

lemma check_fields [simp]:
  "transp (check_busy c) = transp c" "transp (close_connection c) = transp c"
  "outbufs (check_idle c) = outbufs c" "outbufs (check_busy c) = outbufs c" "outbufs (close_connection c) = outbufs c"
  "closed (check_idle c) = closed c" "closed (check_busy c) = closed c" "closed (close_connection c)"
  by (simp_all add: check_idle_def check_busy_def close_connection_def Let_def)

lemma length_zero:
  assumes "buf_wf d"
  shows "buf_length d = 0 \<longleftrightarrow> octets d = []"
proof -
  have "buf_length d = 0 \<longleftrightarrow> rptr d = wptr d" by (auto simp: buf_length_def)
  also have "\<dots> \<longleftrightarrow> unat (rptr d) = unat (wptr d)" by (simp add: word_unat_eq_iff)
  also have "\<dots> \<longleftrightarrow> length (octets d) = 0" using assms buf_wfD(2) [OF assms] by auto
  finally show ?thesis by simp
qed

lemma sendableD:
  assumes "sendable b"
  shows "buf_wf b" "octets b \<noteq> []" "length (octets b) < 2147483648"
  using assms unfolding sendable_def by blast+

text \<open>What every step of the writing side keeps.\<close>

definition same_output :: "conn \<Rightarrow> conn \<Rightarrow> bool" where
  "same_output c c' \<longleftrightarrow> outgoing_octets c' = outgoing_octets c \<and> out_ok c'"

lemma write_step_same:
  assumes "out_ok c" and "outbufs c \<noteq> []"
  shows "\<exists>go c'. write_step c = Some (go, c') \<and> same_output c c' \<and> (go \<longrightarrow> outbufs c' \<noteq> [])"
proof -
  obtain b bs where o: "outbufs c = b # bs" using assms(2) by (cases "outbufs c") auto
  have sb: "sendable b" "sopen (transp c)" "\<forall>b \<in> set bs. sendable b" using assms(1) o by (simp_all add: out_ok_def)
  note b = sendableD [OF sb(1)] sb(2,3)
  obtain r d t where w: "transport_write (buf_length b) True b (transp c) = Some (r, d, t)"
    and s: "sent t @ octets d = sent (transp c) @ octets b" "buf_wf d" "length (octets d) \<le> length (octets b)"
      "r > 0 \<longleftrightarrow> octets d \<noteq> octets b" "r < 0 \<longrightarrow> d = b" "sopen t"
    using transport_write_sent [OF b(1,3,4)] by blast
  note e = write_step_eq [OF o w]
  note z = length_zero [OF s(2)]
  have keep: "same_output c (f (c\<lparr>transp := t, outbufs := ds\<rparr>))"
    if "concat (map octets ds) = octets d @ concat (map octets bs)" "\<forall>b \<in> set ds. sendable b"
      "\<And>c. waiting (f c) = waiting c" "\<And>c. transp (f c) = transp c" "\<And>c. outbufs (f c) = outbufs c" for ds f
    using that s(1,6) o by (simp add: same_output_def outgoing_octets_def out_ok_def waiting_def)
  have ds: "octets d \<noteq> [] \<Longrightarrow> sendable d" unfolding sendable_def using s(2,3) b(3) by linarith
  have fin: ?thesis if "write_step c = Some (g, c')" "same_output c c'" "g \<longrightarrow> outbufs c' \<noteq> []" for g c'
    using that by blast
  consider "r > 0" "octets d \<noteq> []" | "r > 0" "octets d = []" "bs \<noteq> []" | "r > 0" "octets d = []" "bs = []"
    | "r = 0" | "r < 0" by linarith
  then show ?thesis
  proof cases
    case 1
    then have w: "write_step c = Some (True, c\<lparr>transp := t, outbufs := d # bs\<rparr>)" using e(1) z 1 by simp
    show ?thesis by (rule fin [OF w]) (use 1 ds b(5) keep [of "d # bs" "\<lambda>c. c"] in simp_all)
  next
    case 2
    then have w: "write_step c = Some (True, c\<lparr>transp := t, outbufs := bs\<rparr>)" using e(2) z 2 by simp
    show ?thesis by (rule fin [OF w]) (use 2 2 b(5) keep [of bs "\<lambda>c. c"] in simp_all)
  next
    case 3
    then have w: "write_step c = Some (False, check_idle (c\<lparr>transp := t, outbufs := []\<rparr>))" using e(3) z 3 by simp
    show ?thesis by (rule fin [OF w]) (use 3 3 keep [of "[]" check_idle] in simp_all)
  next
    case 4
    then have dn: "octets d \<noteq> []" using s(4) b(2) by auto
    from 4 have w: "write_step c = Some (False, c\<lparr>transp := t, outbufs := d # bs\<rparr>)" using e(4) 4 by simp
    show ?thesis by (rule fin [OF w]) (use dn ds b(5) keep [of "d # bs" "\<lambda>c. c"] in simp_all)
  next
    case 5
    then have dn: "octets d \<noteq> []" using s(5) b(2) by auto
    from 5 have w: "write_step c = Some (False, close_connection (c\<lparr>transp := t, outbufs := d # bs\<rparr>))" using e(5) 5 by simp
    show ?thesis by (rule fin [OF w]) (use dn ds b(5) keep [of "d # bs" close_connection] in simp_all)
  qed
qed

lemma do_write_steps:
  "write_step c = Some (False, d) \<Longrightarrow> do_write c = Some d"
  "write_step c = Some (True, d) \<Longrightarrow> do_write c = do_write d"
  by (simp_all add: do_write.simps [of c])

lemma same_output_trans: "same_output c d \<Longrightarrow> same_output d e \<Longrightarrow> same_output c e"
  by (simp add: same_output_def)

lemma do_write_same:
  "out_ok c \<Longrightarrow> outbufs c \<noteq> [] \<Longrightarrow> \<exists>c'. do_write c = Some c' \<and> same_output c c'"
proof (induction c rule: do_write.induct)
  case (1 c)
  obtain go d where w: "write_step c = Some (go, d)" "same_output c d" "go \<longrightarrow> outbufs d \<noteq> []"
    using write_step_same [OF 1(2,3)] by blast
  show ?case
  proof (cases go)
    case False
    then have "do_write c = Some d" using w(1) do_write_steps(1) by simp
    then show ?thesis using w(2) by blast
  next
    case True
    have "out_ok d" using w(2) by (simp add: same_output_def)
    from 1(1) [OF w(1) refl True this] w(3) True obtain c' where "do_write d = Some c'" "same_output d c'" by blast
    moreover have "do_write c = do_write d" using w(1) True by (intro do_write_steps(2)) simp
    moreover have "same_output c c'" using same_output_trans [OF w(2)] calculation(2) .
    ultimately show ?thesis by (intro exI [of _ c']) simp
  qed
qed

lemma output_handler_appends:
  assumes c: "out_ok c" and b: "sendable b"
  shows "\<exists>c'. output_handler b c = Some c' \<and> outgoing_octets c' = outgoing_octets c @ octets b \<and> out_ok c'"
proof (cases "outbufs c = []")
  case True
  have so: "sopen (transp c)" using c by (simp add: out_ok_def)
  note bb = sendableD [OF b] so
  obtain r d t where w: "transport_write (buf_length b) True b (transp c) = Some (r, d, t)"
    and s: "sent t @ octets d = sent (transp c) @ octets b" "buf_wf d" "length (octets d) \<le> length (octets b)" "sopen t"
    using transport_write_sent [OF bb(1,3,4)] by blast
  have wc: "waiting c = []" using True by (simp add: waiting_def)
  note z = length_zero [OF s(2)]
  show ?thesis
  proof (cases "octets d = []")
    case True
    then show ?thesis using \<open>outbufs c = []\<close> w z s wc
      by (simp add: output_handler_def outgoing_octets_def out_ok_def)
  next
    case False
    then have "sendable d" unfolding sendable_def using s(2,3) bb(3) by linarith
    then show ?thesis using False \<open>outbufs c = []\<close> w z s wc
      by (simp add: output_handler_def outgoing_octets_def out_ok_def)
  qed
next
  case False
  let ?c = "c\<lparr>outbufs := outbufs c @ [b]\<rparr>"
  have ok: "out_ok ?c" using c b by (simp add: out_ok_def)
  have "outgoing_octets ?c = outgoing_octets c @ octets b" by (simp add: outgoing_octets_def waiting_def)
  moreover obtain c' where "do_write ?c = Some c'" "same_output ?c c'" using do_write_same [OF ok] by auto
  moreover have "outgoing_octets (check_busy d) = outgoing_octets d" "out_ok (check_busy d) = out_ok d" for d
    by (simp_all add: outgoing_octets_def out_ok_def)
  ultimately show ?thesis using False by (simp add: output_handler_def same_output_def)
qed

section \<open>Reading leaves the output alone\<close>

definition out_view :: "conn \<Rightarrow> octet list \<times> bool \<times> buffer list \<times> bool \<times> bool \<times> int \<times> int" where
  "out_view c = (sent (transp c), sopen (transp c), outbufs c, have_wselect c, have_tmout c, refcnt c, idle_tmout c)"

lemma input_ready_out: "input_ready up c = Some (m, c') \<Longrightarrow> out_view c' = out_view c"
  by (auto simp: input_ready_def input_def close_connection_def Let_def out_view_def elim!: bind_cases)

lemma stop_out: "stop c = Some (m, c') \<Longrightarrow> out_view c' = out_view c"
  by (auto simp: stop_def close_connection_def out_view_def)

lemma fragment_id_out: "fragment_id c = Some (i, c') \<Longrightarrow> out_view c' = out_view c"
  by (auto simp: fragment_id_def out_view_def elim!: bind_cases)

lemma out_view_reading [simp]:
  "out_view (c\<lparr>inbuf := b\<rparr>) = out_view c" "out_view (c\<lparr>inlen := n\<rparr>) = out_view c"
  "out_view (c\<lparr>inflags := fl\<rparr>) = out_view c" "out_view (c\<lparr>infrag := f\<rparr>) = out_view c"
  "out_view (c\<lparr>inbufs := i\<rparr>) = out_view c" "out_view (c\<lparr>inctx := d\<rparr>) = out_view c"
  "out_view (c\<lparr>gcodec := cd\<rparr>) = out_view c" "out_view (c\<lparr>total_fragsize := n\<rparr>) = out_view c"
  "out_view (c\<lparr>fragments := m\<rparr>) = out_view c" "out_view (c\<lparr>reading := r\<rparr>) = out_view c"
  by (simp_all add: out_view_def)

lemma header_step_out: "header_step up c = Some (m, c') \<Longrightarrow> out_view c' = out_view c"
  by (auto simp: header_step_def Let_def split: option.splits if_splits elim!: bind_cases
      dest!: input_ready_out stop_out)

lemma message_step_out: "message_step up brk c = Some (m, c') \<Longrightarrow> out_view c' = out_view c"
  by (auto simp: message_step_def next_fragment_def first_fragment_def whole_message_def Let_def
      split: option.splits if_splits elim!: bind_cases
      dest!: input_ready_out stop_out fragment_id_out)

lemma received_out: "received up brk c = Some (m, c') \<Longrightarrow> out_view c' = out_view c"
  by (auto simp: received_def split: if_splits elim!: bind_cases
      dest!: header_step_out message_step_out)

lemma read_loop_steps:
  assumes "todo \<noteq> 0" and "sock_read todo (arriving t) = (r, es)"
  shows "r = Inl k \<Longrightarrow> read_loop len todo got t =
      (if \<not> sopen t then (False, got, t\<lparr>arriving := es\<rparr>)
       else if k = EINTR then read_loop len todo got (t\<lparr>arriving := es\<rparr>)
       else if k = EWOULDBLOCK \<or> todo \<noteq> len then (True, got, t\<lparr>arriving := es\<rparr>)
       else (False, got, t\<lparr>arriving := es, bad := True\<rparr>))"
    and "r = Inr [] \<Longrightarrow> read_loop len todo got t = (True, got, t\<lparr>arriving := es, ateof := True\<rparr>)"
    and "r = Inr ys \<Longrightarrow> ys \<noteq> [] \<Longrightarrow> read_loop len todo got t =
      read_loop len (todo - length ys) (got @ ys) (t\<lparr>arriving := es\<rparr>)"
  using assms by (simp_all add: read_loop.simps [of len todo got t] Let_def)

lemma read_loop_out:
  "read_loop len todo got t = (ok, xs, t') \<Longrightarrow> sent t' = sent t \<and> sopen t' = sopen t"
proof (induction len todo got t arbitrary: ok xs t' rule: read_loop.induct)
  case (1 len todo got t)
  show ?case
  proof (cases "todo = 0")
    case True
    then show ?thesis using 1(3) by (simp add: read_loop.simps)
  next
    case False
    obtain r es where s: "sock_read todo (arriving t) = (r, es)" by (cases "sock_read todo (arriving t)")
    note st = read_loop_steps [where len = len and got = got, OF False s]
    let ?t = "t\<lparr>arriving := es\<rparr>"
    show ?thesis
    proof (cases r)
      case (Inl k)
      show ?thesis
      proof (cases "sopen t \<and> k = EINTR")
        case True
        then have "read_loop len todo got ?t = (ok, xs, t')" using 1(3) unfolding st(1) [OF Inl] by simp
        from 1(1) [OF False s [symmetric] Inl refl _ _ this] True show ?thesis by simp
      next
        case no: False
        then show ?thesis using 1(3) unfolding st(1) [OF Inl] by (auto split: if_splits)
      qed
    next
      case (Inr ys)
      show ?thesis
      proof (cases "ys = []")
        case True
        then show ?thesis using 1(3) st(2) Inr by auto
      next
        case ys: False
        then have "read_loop len (todo - length ys) (got @ ys) ?t = (ok, xs, t')" using 1(3) st(3) [OF Inr ys] by simp
        from 1(2) [OF False s [symmetric] Inr refl ys this] show ?thesis by simp
      qed
    qed
  qed
qed

lemma conn_read_out:
  assumes "conn_read c = Some (r, c')"
  shows "out_view c' = out_view c"
proof -
  obtain b t where t: "transport_read (inlen c) (inbuf c) (transp c) = Some (r, b, t)" "c' = c\<lparr>inbuf := b, transp := t\<rparr>"
    using assms by (auto simp: conn_read_def elim!: bind_cases)
  obtain ok xs u where u: "tcp_read (inlen c) (transp c) = (ok, xs, u)" by (cases "tcp_read (inlen c) (transp c)") auto
  with t(1) have "t = u" by (auto simp: transport_read_def Let_def split: if_splits elim!: bind_cases)
  with read_loop_out [OF u [unfolded tcp_read_def]] t(2) show ?thesis by (simp add: out_view_def)
qed

lemma conn_read_again_out: "conn_read_again c = Some (r, c') \<Longrightarrow> out_view c' = out_view c"
  by (auto simp: conn_read_again_def split: if_splits elim!: bind_cases dest!: conn_read_out)

lemma read_step_out: "read_step up brk c = Some (go, c') \<Longrightarrow> out_view c' = out_view c"
  by (auto simp: read_step_def split: if_splits elim!: bind_cases dest!: conn_read_again_out stop_out received_out)

lemma do_read_out: "do_read up brk c = Some c' \<Longrightarrow> out_view c' = out_view c"
proof (induction up brk c rule: do_read.induct)
  case (1 up brk c)
  obtain go d where s: "read_step up brk c = Some (go, d)" using 1(2) by (cases "read_step up brk c") (auto simp: do_read.simps [of up brk c])
  note o = read_step_out [OF s]
  show ?case
  proof (cases go)
    case True
    then have "do_read up brk d = Some c'" using 1(2) s by (simp add: do_read.simps [of up brk c])
    with 1(1) [OF s refl True] o show ?thesis by simp
  next
    case False
    then have "c' = d" using 1(2) s by (simp add: do_read.simps [of up brk c])
    then show ?thesis using o by simp
  qed
qed

text \<open>A connection that has been shut down is not put back.\<close>

lemma do_read_view:
  assumes "do_read up brk c = Some c'"
  shows "sent (transp c') = sent (transp c)" "sopen (transp c') = sopen (transp c)" "outbufs c' = outbufs c"
    "have_wselect c' = have_wselect c" "have_tmout c' = have_tmout c" "refcnt c' = refcnt c" "idle_tmout c' = idle_tmout c"
  using do_read_out [OF assms] by (simp_all add: out_view_def)

section \<open>The life of a connection\<close>

text \<open>What its owner, the dispatcher and the network do with a connection. The list is what it is
  given to send.\<close>

inductive conn_step :: "(buffer \<Rightarrow> bool) \<Rightarrow> conn \<Rightarrow> octet list \<Rightarrow> conn \<Rightarrow> bool" for up :: "buffer \<Rightarrow> bool" where
  take_ref: "conn_step up c [] (ref c)"
| drop_ref: "deref everything c = Some (last_one, c') \<Longrightarrow> conn_step up c [] c'"
| give_output: "sendable b \<Longrightarrow> output_handler b c = Some c' \<Longrightarrow> conn_step up c (octets b) c'"
| read_event: "reading c \<Longrightarrow> conn_callback up blocking ReadEvent c = Some c' \<Longrightarrow> conn_step up c [] c'"
| write_event: "have_wselect c \<Longrightarrow> conn_callback up blocking WriteEvent c = Some c' \<Longrightarrow> conn_step up c [] c'"
| timer_event: "have_tmout c \<Longrightarrow> conn_callback up blocking TimerEvent c = Some c' \<Longrightarrow> conn_step up c [] c'"
| socket_event: "conn_step up c [] (c\<lparr>transp := (transp c)\<lparr>arriving := es, accepting := os\<rparr>\<rparr>)"

inductive conn_run :: "(buffer \<Rightarrow> bool) \<Rightarrow> conn \<Rightarrow> octet list \<Rightarrow> conn \<Rightarrow> bool" for up :: "buffer \<Rightarrow> bool" where
  run_nil: "conn_run up c [] c"
| run_step: "conn_run up c xs d \<Longrightarrow> \<not> closed d \<Longrightarrow> conn_step up d ys e \<Longrightarrow> conn_run up c (xs @ ys) e"

text \<open>When it is registered for writing, and when its idle timer runs.\<close>

definition registered :: "conn \<Rightarrow> bool" where
  "registered c \<longleftrightarrow> (have_wselect c \<longleftrightarrow> outbufs c \<noteq> []) \<and>
     (have_tmout c \<longleftrightarrow> idle_tmout c > 0 \<and> refcnt c = 0 \<and> outbufs c = []) \<and> refcnt c \<ge> 0"

definition life_ok :: "conn \<Rightarrow> bool" where
  "life_ok c \<longleftrightarrow> out_ok c \<and> (closed c \<or> registered c)"

lemma ref_registered: "registered c \<Longrightarrow> registered (ref c)"
  by (auto simp: registered_def ref_def check_busy_def Let_def)

lemma deref_result:
  assumes "deref everything c = Some (l, c')"
  shows "c' = check_idle (c\<lparr>refcnt := if everything then 0 else refcnt c - 1\<rparr>)"
    and "everything \<or> refcnt c \<ge> 1"
  using assms by (simp_all add: deref_def Let_def del: not_le split: if_splits)

lemma check_idle_registered:
  assumes "registered c" and "0 \<le> n" and "n = refcnt c \<or> n < refcnt c"
  shows "registered (check_idle (c\<lparr>refcnt := n\<rparr>))"
proof (cases "n = refcnt c")
  case True
  then show ?thesis using assms(1) by (simp add: registered_def check_idle_def)
next
  case False
  then have "\<not> have_tmout c" using assms by (simp add: registered_def)
  then show ?thesis using assms(1,2) by (simp add: registered_def check_idle_def)
qed

lemma deref_registered:
  assumes "registered c" and "deref everything c = Some (l, c')"
  shows "registered c'"
proof -
  have "0 \<le> refcnt c" using assms(1) by (simp add: registered_def)
  then show ?thesis
    unfolding deref_result(1) [OF assms(2)] using deref_result(2) [OF assms(2)]
    by (intro check_idle_registered [OF assms(1)]) auto
qed

text \<open>Between the arrival of a message to write and the end of the write.\<close>

definition busy :: "conn \<Rightarrow> bool" where
  "busy c \<longleftrightarrow> have_wselect c \<and> \<not> have_tmout c \<and> refcnt c \<ge> 0"

lemma write_step_busy:
  assumes w: "write_step c = Some (go, c')" and b: "busy c"
  shows "go \<Longrightarrow> busy c'" and "\<not> go \<Longrightarrow> closed c' \<or> registered c'"
proof -
  from write_step_cases [OF w] obtain b bs r d t where o: "outbufs c = b # bs"
    and t: "transport_write (buf_length b) True b (transp c) = Some (r, d, t)" .
  note e = write_step_eq [OF o t]
  consider "r > 0" "buf_length d \<noteq> 0" | "r > 0" "buf_length d = 0" "bs \<noteq> []"
    | "r > 0" "buf_length d = 0" "bs = []" | "r = 0" | "r < 0" by linarith
  then have "(go \<longrightarrow> busy c') \<and> (\<not> go \<longrightarrow> closed c' \<or> registered c')"
  proof cases
    case 1
    then have "go \<and> c' = c\<lparr>transp := t, outbufs := d # bs\<rparr>" using w e(1) by simp
    then show ?thesis using b by (simp add: busy_def)
  next
    case 2
    then have "go \<and> c' = c\<lparr>transp := t, outbufs := bs\<rparr>" using w e(2) by simp
    then show ?thesis using b by (simp add: busy_def)
  next
    case 3
    then have "\<not> go \<and> c' = check_idle (c\<lparr>transp := t, outbufs := []\<rparr>)" using w e(3) by simp
    then show ?thesis using b by (auto simp: busy_def registered_def check_idle_def Let_def)
  next
    case 4
    then have "\<not> go \<and> c' = c\<lparr>transp := t, outbufs := d # bs\<rparr>" using w e(4) by simp
    then show ?thesis using b by (simp add: busy_def registered_def)
  next
    case 5
    then have "\<not> go \<and> c' = close_connection (c\<lparr>transp := t, outbufs := d # bs\<rparr>)" using w e(5) by simp
    then show ?thesis by simp
  qed
  then show "go \<Longrightarrow> busy c'" and "\<not> go \<Longrightarrow> closed c' \<or> registered c'" by blast+
qed

lemma do_write_busy: "do_write c = Some c' \<Longrightarrow> busy c \<Longrightarrow> closed c' \<or> registered c'"
proof (induction c rule: do_write.induct)
  case (1 c)
  obtain go d where s: "write_step c = Some (go, d)" using 1(2) by (cases "write_step c") (auto simp: do_write.simps [of c])
  note k = write_step_busy [OF s 1(3)]
  show ?case
  proof (cases go)
    case True
    have "do_write c = do_write d" by (rule do_write_steps(2)) (use s True in simp)
    then show ?thesis using 1(1) [OF s refl True] 1(2) k(1) [OF True] by simp
  next
    case False
    have "do_write c = Some d" by (rule do_write_steps(1)) (use s False in simp)
    then show ?thesis using 1(2) k(2) [OF False] by simp
  qed
qed

lemma check_busy_closed: "closed c \<or> registered c \<Longrightarrow> closed (check_busy c) \<or> registered (check_busy c)"
  by (auto simp: registered_def check_busy_def Let_def)

lemma output_handler_registered:
  assumes o: "output_handler b c = Some c'" and r: "registered c"
  shows "closed c' \<or> registered c'"
proof (cases "outbufs c = []")
  case True
  then obtain n d t where t: "transport_write (buf_length b) True b (transp c) = Some (n, d, t)"
    using o by (cases "transport_write (buf_length b) True b (transp c)") (auto simp: output_handler_def)
  have "c' = (if buf_length d = 0 then c\<lparr>transp := t\<rparr> else check_busy (c\<lparr>transp := t, outbufs := [d]\<rparr>))"
    using o True t by (simp add: output_handler_def Let_def split: if_splits)
  moreover have "registered (c\<lparr>transp := t\<rparr>)" using r by (simp add: registered_def)
  moreover have "registered (check_busy (c\<lparr>transp := t, outbufs := [d]\<rparr>))"
    using r True by (auto simp: registered_def check_busy_def Let_def)
  ultimately show ?thesis by simp
next
  case False
  then obtain d where d: "do_write (c\<lparr>outbufs := outbufs c @ [b]\<rparr>) = Some d" "c' = check_busy d"
    using o by (cases "do_write (c\<lparr>outbufs := outbufs c @ [b]\<rparr>)") (auto simp: output_handler_def)
  have "busy (c\<lparr>outbufs := outbufs c @ [b]\<rparr>)" using r False by (simp add: registered_def busy_def)
  from check_busy_closed [OF do_write_busy [OF d(1) this]] show ?thesis using d(2) by simp
qed

text \<open>Every step keeps the registration right and the output a queue.\<close>

lemma conn_step_keeps:
  assumes "conn_step up c ys c'" and "out_ok c" and "registered c"
  shows "out_ok c' \<and> (closed c' \<or> registered c') \<and> outgoing_octets c' = outgoing_octets c @ ys"
  using assms
proof cases
  case take_ref
  have "outgoing_octets (ref c) = outgoing_octets c" "out_ok (ref c) = out_ok c"
    by (simp_all add: ref_def outgoing_octets_def waiting_def out_ok_def)
  then show ?thesis using take_ref assms(2,3) ref_registered by simp
next
  case (drop_ref everything l)
  have "outgoing_octets c' = outgoing_octets c" "out_ok c' = out_ok c"
    unfolding deref_result(1) [OF drop_ref(2)] by (simp_all add: outgoing_octets_def waiting_def out_ok_def)
  then show ?thesis using drop_ref assms(2,3) deref_registered by simp
next
  case (give_output b)
  obtain d where "output_handler b c = Some d" "outgoing_octets d = outgoing_octets c @ octets b" "out_ok d"
    using output_handler_appends [OF assms(2) give_output(2)] by blast
  then show ?thesis using give_output output_handler_registered assms(3) by simp
next
  case (read_event blocking)
  then have "do_read up blocking c = Some c'" by (simp add: conn_callback_def)
  note v = do_read_view [OF this]
  show ?thesis using v assms(2,3) read_event(1)
    by (simp add: outgoing_octets_def waiting_def out_ok_def registered_def)
next
  case (write_event blocking)
  have w: "do_write c = Some c'" using write_event(3) by (simp add: conn_callback_def)
  have "outbufs c \<noteq> []" using assms(3) write_event(2) by (simp add: registered_def)
  then obtain d where "do_write c = Some d" "same_output c d" using do_write_same [OF assms(2)] by blast
  moreover have "busy c" using assms(3) write_event(2) by (simp add: registered_def busy_def)
  ultimately show ?thesis using do_write_busy [OF w] w write_event(1) by (simp add: same_output_def)
next
  case (timer_event blocking)
  then have "c' = close_connection c" by (simp add: conn_callback_def)
  then show ?thesis using timer_event(1) assms(2) by (simp add: outgoing_octets_def out_ok_def)
next
  case (socket_event es os)
  then show ?thesis using assms(2,3) by (simp add: outgoing_octets_def waiting_def out_ok_def registered_def)
qed

lemma conn_run_keeps:
  "conn_run up c xs c' \<Longrightarrow> out_ok c \<Longrightarrow> registered c \<Longrightarrow>
   out_ok c' \<and> (closed c' \<or> registered c') \<and> outgoing_octets c' = outgoing_octets c @ xs"
proof (induction rule: conn_run.induct)
  case (run_step c xs d ys e)
  then show ?case using conn_step_keeps [OF run_step(3)] by simp
qed simp

lemma new_conn_life:
  assumes "sopen t"
  shows "out_ok (new_conn m f t cd tm mx)" "registered (new_conn m f t cd tm mx)"
    "outgoing_octets (new_conn m f t cd tm mx) = sent t"
  using assms
  by (auto simp: new_conn_def out_ok_def registered_def outgoing_octets_def waiting_def check_idle_def Let_def)

section \<open>What a connection promises of its output\<close>


lemma waiting_empty: "out_ok c \<Longrightarrow> waiting c = [] \<longleftrightarrow> outbufs c = []"
  by (cases "outbufs c") (auto simp: waiting_def out_ok_def sendable_def)


text \<open>A socket that takes everything.\<close>

lemma write_all:
  assumes b: "sendable b" and t: "sopen t" "accepting t = [Accepts n]" and n: "length (octets b) \<le> n"
  shows "\<exists>r b' t'. transport_write (buf_length b) True b t = Some (r, b', t') \<and> r > 0 \<and> octets b' = [] \<and> buf_wf b' \<and>
    sent t' = sent t @ octets b \<and> sopen t' \<and>
    accepting t' = (if n = length (octets b) then [] else [Accepts (n - length (octets b))])"
proof -
  note bb = sendableD [OF b]
  let ?es = "if n = length (octets b) then [] else [Accepts (n - length (octets b))]"
  let ?u = "t\<lparr>accepting := ?es, sent := sent t @ octets b\<rparr>"
  have "sock_write (length (octets b)) (accepting t) = (Inr (length (octets b)), ?es)"
    using n t(2) by simp
  from write_loop_steps(4) [OF bb(2) t(1) this refl, of "length (octets b)"] bb(2)
  have w: "tcp_write (octets b) t = (True, [], ?u)" by (simp add: tcp_write_def write_loop.simps)
  obtain r d u where x: "transport_write (buf_length b) True b t = Some (r, d, u)"
    "sent u @ octets d = sent t @ octets b" "buf_wf d" "r > 0 \<longleftrightarrow> octets d \<noteq> octets b"
    using transport_write_sent [OF bb(1,3) t(1)] by blast
  have "u = ?u" using x(1) transport_write_eq [OF bb(1,3) w refl] by simp
  then have "octets d = []" "sent u = sent t @ octets b" "sopen u" "accepting u = ?es" using x(2) t(1) by simp_all
  then show ?thesis using x bb(2) by (intro exI [of _ r] exI [of _ d] exI [of _ u]) simp
qed

lemma do_write_drains:
  "out_ok c \<Longrightarrow> outbufs c = b # bs \<Longrightarrow> accepting (transp c) = [Accepts n] \<Longrightarrow> length (waiting c) \<le> n \<Longrightarrow>
   \<exists>c'. do_write c = Some c' \<and> outbufs c' = [] \<and> sent (transp c') = outgoing_octets c \<and> closed c' = closed c"
proof (induction bs arbitrary: b c n)
  case Nil
  have b: "sendable b" "sopen (transp c)" using Nil(1,2) by (simp_all add: out_ok_def)
  have "length (octets b) \<le> n" using Nil(2,4) by (simp add: waiting_def)
  from write_all [OF b Nil(3) this] obtain r d t where
    w: "transport_write (buf_length b) True b (transp c) = Some (r, d, t)" "r > 0" "octets d = []" "buf_wf d"
      "sent t = sent (transp c) @ octets b" by blast
  have "write_step c = Some (False, check_idle (c\<lparr>transp := t, outbufs := []\<rparr>))"
    using write_step_eq(3) [OF Nil(2) w(1,2)] w(3) length_zero [OF w(4)] by simp
  from do_write_steps(1) [OF this] show ?case
    using w(5) Nil(2) by (simp add: outgoing_octets_def waiting_def)
next
  case (Cons b2 bs)
  have b: "sendable b" "sopen (transp c)" "sendable b2" using Cons.prems(1,2) by (simp_all add: out_ok_def)
  note b2 = sendableD(2) [OF b(3)]
  have n: "length (octets b) + (length (octets b2) + length (concat (map octets bs))) \<le> n"
    using Cons.prems(2,4) by (simp add: waiting_def)
  then have "length (octets b) \<le> n" by linarith
  from write_all [OF b(1,2) Cons.prems(3) this] obtain r d t where
    w: "transport_write (buf_length b) True b (transp c) = Some (r, d, t)" "r > 0" "octets d = []" "buf_wf d"
      "sent t = sent (transp c) @ octets b" "sopen t"
      "accepting t = (if n = length (octets b) then [] else [Accepts (n - length (octets b))])" by blast
  let ?c = "c\<lparr>transp := t, outbufs := b2 # bs\<rparr>"
  have s: "write_step c = Some (True, ?c)"
    using write_step_eq(2) [OF Cons.prems(2) w(1,2)] w(3) length_zero [OF w(4)] by simp
  have "0 < length (octets b2)" using b2 by blast
  then have "n \<noteq> length (octets b)" using n by linarith
  then have acc: "accepting (transp ?c) = [Accepts (n - length (octets b))]" using w(7) by simp
  have ok: "out_ok ?c" using Cons.prems(1,2) w(6) by (simp add: out_ok_def)
  have "length (waiting ?c) \<le> n - length (octets b)" using n by (simp add: waiting_def)
  from Cons.IH [OF ok _ acc this] obtain c' where "do_write ?c = Some c'" "outbufs c' = []"
    "sent (transp c') = outgoing_octets ?c" "closed c' = closed c" by auto
  moreover have "outgoing_octets ?c = outgoing_octets c"
    using Cons.prems(2) w(5) by (simp add: outgoing_octets_def waiting_def)
  ultimately show ?case using do_write_steps(2) [OF s] by simp
qed

text \<open>Once the socket takes everything, one callback sends all that waits: the messages are then with
  the peer, whole and in order, and the connection leaves the dispatcher's set of writers.\<close>

theorem waiting_output_is_sent:
  assumes r: "conn_run up (new_conn m f t cd tm mx) xs c" and t: "sopen t" "sent t = []" and o: "\<not> closed c"
    and w: "waiting c \<noteq> []" and n: "length (waiting c) \<le> n"
  shows "\<exists>c'. conn_callback up blocking WriteEvent (c\<lparr>transp := (transp c)\<lparr>accepting := [Accepts n]\<rparr>\<rparr>) = Some c' \<and>
     sent (transp c') = xs \<and> waiting c' = [] \<and> \<not> have_wselect c' \<and> \<not> closed c'"
proof -
  have k: "out_ok c" "registered c" "outgoing_octets c = xs"
    using conn_run_keeps [OF r new_conn_life(1,2) [OF t(1)]] o new_conn_life(3) [OF t(1)] t(2) by simp_all
  let ?c = "c\<lparr>transp := (transp c)\<lparr>accepting := [Accepts n]\<rparr>\<rparr>"
  obtain b bs where b: "outbufs ?c = b # bs" using w waiting_empty [OF k(1)] by (cases "outbufs c") auto
  have c: "out_ok ?c" "waiting ?c = waiting c" "outgoing_octets ?c = outgoing_octets c"
    using k(1) by (simp_all add: out_ok_def outgoing_octets_def waiting_def)
  obtain c' where c': "do_write ?c = Some c'" "outbufs c' = []" "sent (transp c') = outgoing_octets ?c" "closed c' = closed ?c"
    using do_write_drains [OF c(1) b, of n] n c(2) by auto
  have "busy ?c" using k(2) w waiting_empty [OF k(1)] by (simp add: busy_def registered_def)
  from do_write_busy [OF c'(1) this] have "registered c'" using c'(4) o by simp
  then show ?thesis using c' c(3) k(3) o by (simp add: conn_callback_def registered_def waiting_def)
qed

section \<open>Witnesses\<close>

definition sample_sock :: transport where
  "sample_sock = \<lparr>sopen = True, ateof = False, bad = False, arriving = [], accepting = [], sent = []\<rparr>"

definition sample_out :: "octet list \<Rightarrow> buffer" where
  "sample_out xs = \<lparr>readonly = False, rptr = 0, wptr = word_of_nat (length xs), ralignbase = 0, walignbase = 0,
     blen = word_of_nat (length xs), mem = xs, fresh = 0\<rparr>"

abbreviation sample_start :: conn where
  "sample_start \<equiv> new_conn LittleEndian 0 sample_sock (sample_codec None) 300 0"

text \<open>A message is given to a connection whose socket takes nothing yet.\<close>

lemma sample_output:
  assumes "length xs < 2147483648" and "xs \<noteq> []"
  shows "sendable (sample_out xs)" "octets (sample_out xs) = xs"
proof -
  have l: "unat (word_of_nat (length xs) :: ulong) = length xs" using assms(1) by (simp add: nowrap)
  show o: "octets (sample_out xs) = xs" by (simp add: octets_def sample_out_def l)
  show "sendable (sample_out xs)" unfolding sendable_def o using assms by (simp add: buf_wf_def sample_out_def l)
qed

lemma sample_run:
  "\<exists>c. conn_run (\<lambda>_. True) sample_start [1, 2, 3] c \<and> \<not> closed c \<and> waiting c = [1, 2, 3]"
proof -
  let ?b = "sample_out [1, 2, 3]"
  have b: "sendable ?b" "octets ?b = [1, 2, 3]" by (rule sample_output; simp)+
  have w: "transport_write (buf_length ?b) True ?b sample_sock = Some (0, ?b, sample_sock)"
  proof -
    have "tcp_write (octets ?b) sample_sock = (True, octets ?b, sample_sock)"
      by (simp add: tcp_write_def b(2) write_loop.simps sample_sock_def)
    from transport_write_eq [OF sendableD(1,3) [OF b(1)] this refl] show ?thesis by simp
  qed
  have s: "outbufs sample_start = []" "transp sample_start = sample_sock" "\<not> closed sample_start"
    by (simp_all add: new_conn_fields) (simp add: new_conn_def)
  have l: "buf_length ?b \<noteq> 0" using length_zero [OF sendableD(1) [OF b(1)]] b(2) by simp
  let ?c = "check_busy (sample_start\<lparr>transp := sample_sock, outbufs := [?b]\<rparr>)"
  have "output_handler ?b sample_start = Some ?c" using s w l by (simp add: output_handler_def)
  from run_step [OF run_nil s(3) give_output [OF b(1) this]]
  have "conn_run (\<lambda>_. True) sample_start [1, 2, 3] ?c" unfolding b(2) by simp
  then show ?thesis using s(3) b(2) by (intro exI [of _ ?c]) simp
qed



theorem waiting_output_is_sent_witness:
  "\<exists>c c'. conn_run (\<lambda>_. True) sample_start [1, 2, 3] c \<and>
     conn_callback (\<lambda>_. True) False WriteEvent (c\<lparr>transp := (transp c)\<lparr>accepting := [Accepts 5]\<rparr>\<rparr>) = Some c' \<and>
     sent (transp c') = [1, 2, 3] \<and> waiting c' = []"
proof -
  obtain c where c: "conn_run (\<lambda>_. True) sample_start [1, 2, 3] c" "\<not> closed c" "waiting c = [1, 2, 3]"
    using sample_run by blast
  have s: "sopen sample_sock" "sent sample_sock = []" by (simp_all add: sample_sock_def)
  have "waiting c \<noteq> []" "length (waiting c) \<le> 5" using c(3) by simp_all
  from waiting_output_is_sent [OF c(1) s c(2) this, of False] c(1) show ?thesis by blast
qed

section \<open>The loops end\<close>

text \<open>The loops with a bound on the number of passes; \<open>None\<close> when it does not do.\<close>

fun read_passes :: "nat \<Rightarrow> (buffer \<Rightarrow> bool) \<Rightarrow> bool \<Rightarrow> conn \<Rightarrow> conn option option" where
  "read_passes 0 up brk c = None"
| "read_passes (Suc n) up brk c =
     (case read_step up brk c of
       None \<Rightarrow> Some None
     | Some (go, d) \<Rightarrow> if go then read_passes n up brk d else Some (Some d))"

fun write_passes :: "nat \<Rightarrow> conn \<Rightarrow> conn option option" where
  "write_passes 0 c = None"
| "write_passes (Suc n) c =
     (case write_step c of
       None \<Rightarrow> Some None
     | Some (go, d) \<Rightarrow> if go then write_passes n d else Some (Some d))"

lemma read_passes_enough:
  "in_weight (arriving (transp c)) < n \<Longrightarrow> read_passes n up brk c = Some (do_read up brk c)"
proof (induction n arbitrary: c)
  case (Suc n)
  show ?case
  proof (cases "read_step up brk c")
    case None
    then show ?thesis by (simp add: do_read.simps [of up brk c])
  next
    case (Some p)
    obtain go d where p: "p = (go, d)" by (cases p)
    show ?thesis
    proof (cases go)
      case True
      have "in_weight (arriving (transp d)) < in_weight (arriving (transp c))"
        by (rule read_step_weight) (use Some p True in simp)
      then show ?thesis using Suc Some p True by (simp add: do_read.simps [of up brk c])
    next
      case False
      then show ?thesis using Some p by (simp add: do_read.simps [of up brk c])
    qed
  qed
qed simp

lemma write_passes_enough:
  "out_weight (accepting (transp c)) < n \<Longrightarrow> write_passes n c = Some (do_write c)"
proof (induction n arbitrary: c)
  case (Suc n)
  show ?case
  proof (cases "write_step c")
    case None
    then show ?thesis by (simp add: do_write.simps [of c])
  next
    case (Some p)
    obtain go d where p: "p = (go, d)" by (cases p)
    show ?thesis
    proof (cases go)
      case True
      have "out_weight (accepting (transp d)) < out_weight (accepting (transp c))"
        by (rule write_step_weight) (use Some p True in simp)
      then show ?thesis using Suc Some p True by (simp add: do_write.simps [of c])
    next
      case False
      then show ?thesis using Some p by (simp add: do_write.simps [of c])
    qed
  qed
qed simp

text \<open>C33: The loops of \<open>do_read\<close> and \<open>do_write\<close> always end, whatever the peer sends: after at most one pass
  more than the socket has octets and events to report, they have returned their result.\<close>

theorem loops_end:
  "read_passes (Suc (in_weight (arriving (transp c)))) up brk c = Some (do_read up brk c) \<and>
   write_passes (Suc (out_weight (accepting (transp c)))) c = Some (do_write c)"
  by (intro conjI read_passes_enough write_passes_enough lessI)

end
