(* ===== verification/Dispatcher.thy ===== *)
theory Dispatcher
  imports Prelude
begin

text \<open>
  The dispatcher (orb/dispatch.cc, \<open>MICO::SelectDispatcher\<close>): the callbacks that wait for a descriptor
  to become readable or writable, and those that wait for a time. Timers are kept as a list of
  differences, file events as a list whose entries are only marked while it is being walked. What a
  callback does is its owner's business: it is any function of a world of its own that answers with the
  operations it calls on the dispatcher. The operating system is the clock and the sets of ready
  descriptors.

  Callbacks are named by a number, their address. A callback that runs the dispatcher again is left out.
\<close>

section \<open>State\<close>

text \<open>A \<open>Long\<close>: arithmetic is that of 32 bits.\<close>

definition wrap_long :: "int \<Rightarrow> int" where
  "wrap_long x = (x + 2147483648) mod 4294967296 - 2147483648"

type_synonym callback = nat

datatype dispatch_event = Timer | Read | Write | Except | All_events | Removed | Moved

record file_event =
  fe_event :: dispatch_event
  fe_fd :: int
  fe_cb :: callback
  fe_deleted :: bool

record timer_event =
  te_delta :: int
  te_cb :: callback

text \<open>\<open>time\<close> is the time of the system in milliseconds, which nobody but the system changes.\<close>

record dispatcher =
  fevents :: "file_event list"
  tevents :: "timer_event list"
  last_update :: int
  init :: bool
  locked :: nat
  modified :: bool
  curr_rset :: "int set"
  curr_wset :: "int set"
  curr_xset :: "int set"
  fd_max :: int
  time :: int

definition new_dispatcher :: "int \<Rightarrow> dispatcher" where
  "new_dispatcher t = \<lparr>fevents = [], tevents = [], last_update = 0, init = True, locked = 0, modified = False,
     curr_rset = {}, curr_wset = {}, curr_xset = {}, fd_max = 0, time = t\<rparr>"

definition gettime :: "dispatcher \<Rightarrow> int" where
  "gettime d = wrap_long (time d)"

section \<open>Timers\<close>

definition update_tevents :: "dispatcher \<Rightarrow> dispatcher" where
  "update_tevents d =
     (let curr = gettime d in
      case tevents d of
        [] \<Rightarrow> d\<lparr>last_update := curr, init := False\<rparr>
      | t # ts \<Rightarrow>
          if init d \<or> wrap_long (curr - last_update d) < 0 then d\<lparr>last_update := curr, init := False\<rparr>
          else d\<lparr>tevents := t\<lparr>te_delta := wrap_long (te_delta t - wrap_long (curr - last_update d))\<rparr> # ts,
            last_update := curr\<rparr>)"

text \<open>The loop of \<open>tm_event\<close>.\<close>

fun tm_insert :: "timer_event \<Rightarrow> timer_event list \<Rightarrow> timer_event list" where
  "tm_insert t [] = [t]"
| "tm_insert t (e # es) =
     (if te_delta e \<le> te_delta t then e # tm_insert (t\<lparr>te_delta := wrap_long (te_delta t - te_delta e)\<rparr>) es
      else t # e\<lparr>te_delta := wrap_long (te_delta e - te_delta t)\<rparr> # es)"

definition tm_event :: "callback \<Rightarrow> ulong \<Rightarrow> dispatcher \<Rightarrow> dispatcher option" where
  "tm_event cb tmout d = do {
     require (sint tmout \<ge> 0);
     let d = update_tevents d;
     Some (d\<lparr>tevents := tm_insert \<lparr>te_delta = sint tmout, te_cb = cb\<rparr> (tevents d)\<rparr>)
   }"

text \<open>The loops of \<open>remove\<close>: one timer at a time, from the beginning again.\<close>

fun tm_erase :: "callback \<Rightarrow> timer_event list \<Rightarrow> timer_event list option" where
  "tm_erase cb [] = None"
| "tm_erase cb (t # ts) =
     (if te_cb t = cb then
        Some (case ts of [] \<Rightarrow> [] | n # ns \<Rightarrow> n\<lparr>te_delta := wrap_long (te_delta n + te_delta t)\<rparr> # ns)
      else map_option ((#) t) (tm_erase cb ts))"

lemma tm_erase_shrinks: "tm_erase cb ts = Some ts' \<Longrightarrow> length ts = Suc (length ts')"
proof (induction ts arbitrary: ts')
  case (Cons t ts)
  show ?case
  proof (cases "te_cb t = cb")
    case True
    then show ?thesis using Cons.prems by (cases ts) auto
  next
    case False
    then show ?thesis using Cons by (cases "tm_erase cb ts") auto
  qed
qed simp

function tm_remove :: "callback \<Rightarrow> timer_event list \<Rightarrow> timer_event list" where
  "tm_remove cb ts = (case tm_erase cb ts of None \<Rightarrow> ts | Some ts' \<Rightarrow> tm_remove cb ts')"
  by pat_completeness auto

termination
  by (relation "measure (\<lambda>(cb, ts). length ts)") (auto dest: tm_erase_shrinks)

declare tm_remove.simps [simp del]

section \<open>File events\<close>

definition update_fevents :: "dispatcher \<Rightarrow> dispatcher" where
  "update_fevents d =
     (let es = filter (\<lambda>e. \<not> fe_deleted e) (fevents d);
          fds = (\<lambda>ev. set (map fe_fd (filter (\<lambda>e. fe_event e = ev) es))) in
      d\<lparr>modified := True, curr_rset := fds Read, curr_wset := fds Write, curr_xset := fds Except,
        fd_max := fold max (map fe_fd es) 0\<rparr>)"

definition add_fevent :: "dispatch_event \<Rightarrow> callback \<Rightarrow> int \<Rightarrow> dispatcher \<Rightarrow> dispatcher" where
  "add_fevent ev cb fd d =
     update_fevents (d\<lparr>fevents := fevents d @ [\<lparr>fe_event = ev, fe_fd = fd, fe_cb = cb, fe_deleted = False\<rparr>]\<rparr>)"

definition rd_event :: "callback \<Rightarrow> int \<Rightarrow> dispatcher \<Rightarrow> dispatcher" where
  "rd_event = add_fevent Read"

definition wr_event :: "callback \<Rightarrow> int \<Rightarrow> dispatcher \<Rightarrow> dispatcher" where
  "wr_event = add_fevent Write"

definition ex_event :: "callback \<Rightarrow> int \<Rightarrow> dispatcher \<Rightarrow> dispatcher" where
  "ex_event = add_fevent Except"

definition islocked :: "dispatcher \<Rightarrow> bool" where
  "islocked d \<longleftrightarrow> locked d > 0"

text \<open>Entries are erased, or marked while the list is being walked.\<close>

definition remove_fevents :: "callback \<Rightarrow> dispatch_event \<Rightarrow> dispatcher \<Rightarrow> dispatcher" where
  "remove_fevents cb ev d =
     (let hit = (\<lambda>e. fe_cb e = cb \<and> (ev = All_events \<or> fe_event e = ev)) in
      d\<lparr>fevents := (if islocked d then map (\<lambda>e. if hit e then e\<lparr>fe_deleted := True\<rparr> else e) (fevents d)
        else filter (\<lambda>e. \<not> hit e) (fevents d))\<rparr>)"

definition remove :: "callback \<Rightarrow> dispatch_event \<Rightarrow> dispatcher \<Rightarrow> dispatcher" where
  "remove cb ev d =
     (let d = (if ev = All_events \<or> ev = Timer then d\<lparr>tevents := tm_remove cb (tevents d)\<rparr> else d) in
      if ev = All_events \<or> ev = Read \<or> ev = Write \<or> ev = Except then update_fevents (remove_fevents cb ev d)
      else d)"

definition lock :: "dispatcher \<Rightarrow> dispatcher" where
  "lock d = (let d = (if locked d = 0 then d\<lparr>modified := False\<rparr> else d) in d\<lparr>locked := locked d + 1\<rparr>)"

definition unlock :: "dispatcher \<Rightarrow> dispatcher option" where
  "unlock d = do {
     require (locked d > 0);
     let d = d\<lparr>locked := locked d - 1\<rparr>;
     if locked d > 0 then Some d
     else if modified d then Some (d\<lparr>fevents := filter (\<lambda>e. \<not> fe_deleted e) (fevents d)\<rparr>)
     else Some d
   }"

section \<open>Callbacks\<close>

text \<open>What a callback may do: operations on the dispatcher, and taking time.\<close>

datatype disp_op = Rd_event callback int | Wr_event callback int | Ex_event callback int
  | Tm_event callback ulong | Remove_event callback dispatch_event | Spend nat

fun do_op :: "disp_op \<Rightarrow> dispatcher \<Rightarrow> dispatcher option" where
  "do_op (Rd_event cb fd) d = Some (rd_event cb fd d)"
| "do_op (Wr_event cb fd) d = Some (wr_event cb fd d)"
| "do_op (Ex_event cb fd) d = Some (ex_event cb fd d)"
| "do_op (Tm_event cb tm) d = tm_event cb tm d"
| "do_op (Remove_event cb ev) d = Some (remove cb ev d)"
| "do_op (Spend n) d = Some (d\<lparr>time := time d + int n\<rparr>)"

fun do_ops :: "disp_op list \<Rightarrow> dispatcher \<Rightarrow> dispatcher option" where
  "do_ops [] d = Some d"
| "do_ops (p # ps) d = Option.bind (do_op p d) (do_ops ps)"

text \<open>The history: the callbacks that were called, at what time, and what they did.\<close>

datatype disp_action = Called callback dispatch_event int | Did disp_op

type_synonym 'w owner = "callback \<Rightarrow> dispatch_event \<Rightarrow> 'w \<Rightarrow> disp_op list \<times> 'w"

record 'w running =
  disp :: dispatcher
  world :: 'w
  history :: "disp_action list"

definition call_back :: "'w owner \<Rightarrow> callback \<Rightarrow> dispatch_event \<Rightarrow> 'w running \<Rightarrow> 'w running option" where
  "call_back act cb ev s =
     (case act cb ev (world s) of (ps, w) \<Rightarrow> do {
        d \<leftarrow> do_ops ps (disp s);
        Some (s\<lparr>disp := d, world := w, history := history s @ Called cb ev (time (disp s)) # map Did ps\<rparr>)
      })"

section \<open>The dispatcher at work\<close>

text \<open>The loop of \<open>handle_tevents\<close>, which callbacks can keep going for ever.\<close>

partial_function (option) tev_loop :: "'w owner \<Rightarrow> 'w running \<Rightarrow> 'w running option" where
  "tev_loop act s =
     (case tevents (disp s) of
       [] \<Rightarrow> Some s
     | t # ts \<Rightarrow>
         if te_delta t \<le> 0 then do {
           let ts = (case ts of [] \<Rightarrow> [] | n # ns \<Rightarrow> n\<lparr>te_delta := wrap_long (te_delta n + te_delta t)\<rparr> # ns);
           s \<leftarrow> call_back act (te_cb t) Timer (s\<lparr>disp := (disp s)\<lparr>tevents := ts\<rparr>\<rparr>);
           tev_loop act (s\<lparr>disp := update_tevents (disp s)\<rparr>)
         }
         else Some s)"

definition handle_tevents :: "'w owner \<Rightarrow> 'w running \<Rightarrow> 'w running option" where
  "handle_tevents act s =
     (if tevents (disp s) = [] then Some s else tev_loop act (s\<lparr>disp := update_tevents (disp s)\<rparr>))"

text \<open>\<open>handle_fevents\<close> walks a list that may grow meanwhile; \<open>ready\<close> are the descriptors \<open>select\<close> reported.\<close>

partial_function (option) fev_loop ::
    "'w owner \<Rightarrow> (dispatch_event \<Rightarrow> int set) \<Rightarrow> nat \<Rightarrow> 'w running \<Rightarrow> 'w running option" where
  "fev_loop act ready i s =
     (if i < length (fevents (disp s)) then
        (let e = fevents (disp s) ! i in
         if \<not> fe_deleted e \<and> fe_fd e \<in> ready (fe_event e) then do {
           s \<leftarrow> call_back act (fe_cb e) (fe_event e) s;
           fev_loop act ready (Suc i) s
         }
         else fev_loop act ready (Suc i) s)
      else Some s)"

definition handle_fevents ::
    "'w owner \<Rightarrow> (dispatch_event \<Rightarrow> int set) \<Rightarrow> 'w running \<Rightarrow> 'w running option" where
  "handle_fevents act ready s = do {
     s \<leftarrow> fev_loop act ready 0 (s\<lparr>disp := lock (disp s)\<rparr>);
     d \<leftarrow> unlock (disp s);
     Some (s\<lparr>disp := d\<rparr>)
   }"

text \<open>One pass of \<open>run\<close>, in which \<open>select\<close> sleeps for \<open>slept\<close> milliseconds and reports \<open>ready\<close>.\<close>

definition sleeptime :: "dispatcher \<Rightarrow> int \<times> dispatcher" where
  "sleeptime d =
     (if tevents d = [] then (1000, d)
      else let d = update_tevents d in (max 0 (te_delta (hd (tevents d))), d))"

definition run_once ::
    "'w owner \<Rightarrow> nat \<Rightarrow> (dispatch_event \<Rightarrow> int set) \<Rightarrow> 'w running \<Rightarrow> 'w running option" where
  "run_once act slept ready s = do {
     let d = snd (sleeptime (disp s));
     let s = s\<lparr>disp := d\<lparr>time := time d + int slept\<rparr>\<rparr>;
     s \<leftarrow> (if \<exists>ev. ready ev \<noteq> {} then handle_fevents act ready s else Some s);
     handle_tevents act s
   }"

end
