(* ===== verification/Dispatch_Timers.thy ===== *)
theory Dispatch_Timers
  imports Dispatcher
begin

text \<open>
  The timers of the dispatcher. Its list of differences is a queue of deadlines, earliest first and
  first come first served among equals, whatever the callbacks do and though the clock is a 32-bit
  count of milliseconds that wraps.
\<close>

section \<open>The specification: a queue of deadlines\<close>

type_synonym deadline_queue = "(int \<times> callback) list"

definition add_deadline :: "int \<Rightarrow> callback \<Rightarrow> deadline_queue \<Rightarrow> deadline_queue" where
  "add_deadline D cb q = takeWhile (\<lambda>e. fst e \<le> D) q @ (D, cb) # dropWhile (\<lambda>e. fst e \<le> D) q"

fun queue_op :: "disp_op \<Rightarrow> deadline_queue \<times> int \<Rightarrow> deadline_queue \<times> int" where
  "queue_op (Tm_event cb tm) (q, now) = (add_deadline (now + sint tm) cb q, now)"
| "queue_op (Remove_event cb ev) (q, now) =
     (if ev = All_events \<or> ev = Timer then filter (\<lambda>e. snd e \<noteq> cb) q else q, now)"
| "queue_op (Spend n) (q, now) = (q, now + int n)"
| "queue_op _ (q, now) = (q, now)"

record 'w alarm_clock =
  queue :: deadline_queue
  now :: int
  a_world :: 'w
  a_history :: "disp_action list"

definition ring :: "'w owner \<Rightarrow> callback \<Rightarrow> 'w alarm_clock \<Rightarrow> 'w alarm_clock" where
  "ring act cb a =
     (case act cb Timer (a_world a) of (ps, w) \<Rightarrow>
        case fold queue_op ps (queue a, now a) of (q, t) \<Rightarrow>
          \<lparr>queue = q, now = t, a_world = w, a_history = a_history a @ Called cb Timer (now a) # map Did ps\<rparr>)"

text \<open>What is due is called, the earliest first, until nothing is due.\<close>

partial_function (option) alarms :: "'w owner \<Rightarrow> 'w alarm_clock \<Rightarrow> 'w alarm_clock option" where
  "alarms act a =
     (case queue a of
       [] \<Rightarrow> Some a
     | (D, cb) # q \<Rightarrow> if D \<le> now a then alarms act (ring act cb (a\<lparr>queue := q\<rparr>)) else Some a)"

section \<open>Long arithmetic\<close>

lemma wrap_long_small: "- 2147483648 \<le> x \<Longrightarrow> x < 2147483648 \<Longrightarrow> wrap_long x = x"
  by (simp add: wrap_long_def)

lemma wrap_long_cong: "x mod 4294967296 = y mod 4294967296 \<Longrightarrow> wrap_long x = wrap_long y"
  by (simp add: wrap_long_def mod_add_cong)

lemma wrap_long_diff:
  assumes "\<bar>a - b\<bar> < 2147483648"
  shows "wrap_long (wrap_long a - wrap_long b) = a - b"
proof -
  have m: "(wrap_long x) mod 4294967296 = x mod 4294967296" for x
    unfolding wrap_long_def mod_diff_left_eq by simp
  have "(wrap_long a - wrap_long b) mod 4294967296 = (a - b) mod 4294967296"
    using m by (metis mod_diff_cong)
  then have "wrap_long (wrap_long a - wrap_long b) = wrap_long (a - b)" by (rule wrap_long_cong)
  then show ?thesis using assms wrap_long_small by simp
qed

section \<open>Differences and deadlines\<close>

text \<open>The deadlines a list of differences stands for, when it was brought up to date at \<open>b\<close>.\<close>

fun deadlines :: "int \<Rightarrow> timer_event list \<Rightarrow> deadline_queue" where
  "deadlines b [] = []"
| "deadlines b (t # ts) = (b + te_delta t, te_cb t) # deadlines (b + te_delta t) ts"

definition all_in :: "int \<Rightarrow> int \<Rightarrow> deadline_queue \<Rightarrow> bool" where
  "all_in lo hi q \<longleftrightarrow> (\<forall>e \<in> set q. lo \<le> fst e \<and> fst e \<le> hi)"

lemma all_in_simps [simp]:
  "all_in lo hi []" "all_in lo hi (e # q) \<longleftrightarrow> lo \<le> fst e \<and> fst e \<le> hi \<and> all_in lo hi q"
  by (auto simp: all_in_def)

lemma wrap_in:
  "x = a - b \<Longrightarrow> lo \<le> a \<Longrightarrow> a \<le> hi \<Longrightarrow> lo \<le> b \<Longrightarrow> b \<le> hi \<Longrightarrow> hi - lo < 2147483648 \<Longrightarrow> wrap_long x = a - b"
  by (simp add: wrap_long_small)

lemma deadlines_insert:
  "all_in lo hi (deadlines b ts) \<Longrightarrow> lo \<le> b \<Longrightarrow> b \<le> hi \<Longrightarrow> lo \<le> D \<Longrightarrow> D \<le> hi \<Longrightarrow> hi - lo < 2147483648 \<Longrightarrow>
   deadlines b (tm_insert \<lparr>te_delta = D - b, te_cb = cb\<rparr> ts) = add_deadline D cb (deadlines b ts)"
proof (induction ts arbitrary: b)
  case Nil
  then show ?case by (simp add: add_deadline_def)
next
  case (Cons t ts)
  let ?e = "b + te_delta t"
  have e: "lo \<le> ?e" "?e \<le> hi" "all_in lo hi (deadlines ?e ts)" using Cons.prems(1) by simp_all
  have w: "wrap_long (D - b - te_delta t) = D - ?e" "wrap_long (te_delta t - (D - b)) = ?e - D"
    by (rule wrap_in [where lo = lo and hi = hi]; use e Cons.prems in simp)+
  show ?case
  proof (cases "te_delta t \<le> D - b")
    case True
    then show ?thesis using Cons.IH [OF e(3,1,2)] Cons.prems w by (simp add: add_deadline_def)
  next
    case False
    then show ?thesis using w by (simp add: add_deadline_def)
  qed
qed

definition skip_first :: "timer_event \<Rightarrow> timer_event list \<Rightarrow> timer_event list" where
  "skip_first t ts = (case ts of [] \<Rightarrow> [] | n # ns \<Rightarrow> n\<lparr>te_delta := wrap_long (te_delta n + te_delta t)\<rparr> # ns)"

lemma deadlines_skip:
  assumes "all_in lo hi (deadlines (b + te_delta t) ts)" and "lo \<le> b" "b \<le> hi" "hi - lo < 2147483648"
  shows "deadlines b (skip_first t ts) = deadlines (b + te_delta t) ts"
proof (cases ts)
  case (Cons n ns)
  let ?e = "b + te_delta t + te_delta n"
  have "lo \<le> ?e" "?e \<le> hi" using assms(1) Cons by simp_all
  then have "wrap_long (te_delta n + te_delta t) = ?e - b"
    by (intro wrap_in [where lo = lo and hi = hi]) (use assms(2-4) in simp_all)
  then show ?thesis using Cons by (simp add: skip_first_def add.assoc)
qed (simp add: skip_first_def)

lemma erase_skip: "tm_erase cb (t # ts) = (if te_cb t = cb then Some (skip_first t ts) else map_option ((#) t) (tm_erase cb ts))"
  by (simp add: skip_first_def)

lemma deadlines_erase:
  "tm_erase cb ts = r \<Longrightarrow> all_in lo hi (deadlines b ts) \<Longrightarrow> lo \<le> b \<Longrightarrow> b \<le> hi \<Longrightarrow> hi - lo < 2147483648 \<Longrightarrow>
   (case r of None \<Rightarrow> \<forall>e \<in> set (deadlines b ts). snd e \<noteq> cb
    | Some ts' \<Rightarrow> filter (\<lambda>e. snd e \<noteq> cb) (deadlines b ts') = filter (\<lambda>e. snd e \<noteq> cb) (deadlines b ts) \<and>
        all_in lo hi (deadlines b ts'))"
proof (induction ts arbitrary: b r)
  case (Cons t ts)
  let ?b = "b + te_delta t"
  have p: "lo \<le> ?b" "?b \<le> hi" "all_in lo hi (deadlines ?b ts)" using Cons.prems(2) by simp_all
  show ?case
  proof (cases "te_cb t = cb")
    case True
    then have "r = Some (skip_first t ts)" using Cons.prems(1) unfolding erase_skip by simp
    then show ?thesis using True deadlines_skip [OF p(3) Cons.prems(3-5)] p(3) by simp
  next
    case False
    show ?thesis
    proof (cases "tm_erase cb ts")
      case None
      then show ?thesis using Cons.IH [OF None p(3,1,2) Cons.prems(5)] False Cons.prems(1) by (simp add: erase_skip)
    next
      case (Some ts')
      then have "r = Some (t # ts')" using False Cons.prems(1) unfolding erase_skip by simp
      then show ?thesis using Cons.IH [OF Some p(3,1,2) Cons.prems(5)] False p by simp
    qed
  qed
qed auto

lemma deadlines_remove:
  "all_in lo hi (deadlines b ts) \<Longrightarrow> lo \<le> b \<Longrightarrow> b \<le> hi \<Longrightarrow> hi - lo < 2147483648 \<Longrightarrow>
   deadlines b (tm_remove cb ts) = filter (\<lambda>e. snd e \<noteq> cb) (deadlines b ts)"
proof (induction cb ts rule: tm_remove.induct)
  case (1 cb ts)
  show ?case
  proof (cases "tm_erase cb ts")
    case None
    then have "tm_remove cb ts = ts" by (simp add: tm_remove.simps)
    moreover have "\<forall>e \<in> set (deadlines b ts). snd e \<noteq> cb" using deadlines_erase [OF None 1(2-5)] by simp
    ultimately show ?thesis by (simp add: filter_id_conv)
  next
    case (Some ts')
    have "tm_remove cb ts = tm_remove cb ts'" by (subst tm_remove.simps) (simp add: Some)
    then show ?thesis using deadlines_erase [OF Some 1(2-5)] 1(1) [OF Some _ 1(3-5)] by simp
  qed
qed

section \<open>The dispatcher implements the queue\<close>

text \<open>All times lie between \<open>lo\<close> and \<open>hi\<close>, which are less than a \<open>Long\<close> apart; \<open>sy\<close> is when the list was
  brought up to date.\<close>

definition shows_at :: "int \<Rightarrow> int \<Rightarrow> int \<Rightarrow> dispatcher \<Rightarrow> deadline_queue \<Rightarrow> bool" where
  "shows_at lo hi sy d q \<longleftrightarrow> lo \<le> sy \<and> sy \<le> time d \<and> time d \<le> hi \<and> hi - lo < 2147483648 \<and> all_in lo hi q \<and>
     (tevents d \<noteq> [] \<longrightarrow> last_update d = wrap_long sy \<and> \<not> init d) \<and> q = deadlines sy (tevents d)"

lemma shows_nil: "shows_at lo hi sy d q \<Longrightarrow> tevents d = [] \<longleftrightarrow> q = []"
  by (cases "tevents d") (auto simp: shows_at_def)

lemma shows_atD:
  assumes "shows_at lo hi sy d q"
  shows "lo \<le> sy" "sy \<le> time d" "time d \<le> hi" "hi - lo < 2147483648" "all_in lo hi q"
    "tevents d \<noteq> [] \<longrightarrow> last_update d = wrap_long sy \<and> \<not> init d" "q = deadlines sy (tevents d)"
  using assms unfolding shows_at_def by blast+

lemma update_tevents_shows:
  assumes s: "shows_at lo hi sy d q"
  shows "shows_at lo hi (time d) (update_tevents d) q" "time (update_tevents d) = time d"
    "last_update (update_tevents d) = wrap_long (time d)" "\<not> init (update_tevents d)"
proof -
  have "shows_at lo hi (time d) (update_tevents d) q \<and> time (update_tevents d) = time d \<and>
    last_update (update_tevents d) = wrap_long (time d) \<and> \<not> init (update_tevents d)"
  proof (cases "tevents d")
    case Nil
    then show ?thesis using s by (simp add: shows_at_def update_tevents_def Let_def gettime_def)
  next
    case (Cons t ts)
    note b = shows_atD [OF s]
    have sy: "lo \<le> sy" "sy \<le> time d" "time d \<le> hi" "hi - lo < 2147483648" "last_update d = wrap_long sy" "\<not> init d"
      "all_in lo hi (deadlines sy (tevents d))" "q = deadlines sy (tevents d)"
      using b Cons by simp_all
    have w: "wrap_long (gettime d - last_update d) = time d - sy"
      unfolding gettime_def sy(5) by (rule wrap_long_diff) (use sy in simp)
    have "wrap_long (te_delta t - (time d - sy)) = (sy + te_delta t) - time d"
      by (rule wrap_in [where lo = lo and hi = hi]) (use sy Cons in simp_all)
    then show ?thesis using sy Cons w
      by (simp add: update_tevents_def Let_def shows_at_def) (simp add: gettime_def)
  qed
  then show "shows_at lo hi (time d) (update_tevents d) q" "time (update_tevents d) = time d"
    "last_update (update_tevents d) = wrap_long (time d)" "\<not> init (update_tevents d)" by blast+
qed

lemma fevents_only [simp]:
  "tevents (update_fevents d) = tevents d" "time (update_fevents d) = time d"
  "last_update (update_fevents d) = last_update d" "init (update_fevents d) = init d"
  "tevents (remove_fevents cb ev d) = tevents d" "time (remove_fevents cb ev d) = time d"
  "last_update (remove_fevents cb ev d) = last_update d" "init (remove_fevents cb ev d) = init d"
  "tevents (add_fevent e cb fd d) = tevents d" "time (add_fevent e cb fd d) = time d"
  "last_update (add_fevent e cb fd d) = last_update d" "init (add_fevent e cb fd d) = init d"
  by (simp_all add: update_fevents_def remove_fevents_def add_fevent_def Let_def)

lemma do_op_time: "do_op p d = Some d' \<Longrightarrow> time d \<le> time d'"
proof (cases p)
  case (Tm_event cb tm)
  assume "do_op p d = Some d'"
  then have "d' = (update_tevents d)\<lparr>tevents := tm_insert \<lparr>te_delta = sint tm, te_cb = cb\<rparr> (tevents (update_tevents d))\<rparr>"
    using Tm_event by (simp add: tm_event_def Let_def split: if_splits)
  then show ?thesis by (simp add: update_tevents_def Let_def split: list.split)
qed (auto simp: rd_event_def wr_event_def ex_event_def remove_def Let_def)

lemma do_ops_time: "do_ops ps d = Some d' \<Longrightarrow> time d \<le> time d'"
proof (induction ps arbitrary: d)
  case (Cons p ps)
  then obtain e where e: "do_op p d = Some e" "do_ops ps e = Some d'" by (cases "do_op p d") auto
  then show ?case using do_op_time [OF e(1)] Cons.IH [OF e(2)] by simp
qed simp

text \<open>No callback asks for a timeout above \<open>M\<close>.\<close>

fun timeout_within :: "int \<Rightarrow> disp_op \<Rightarrow> bool" where
  "timeout_within M (Tm_event cb tm) \<longleftrightarrow> sint tm \<le> M"
| "timeout_within M _ \<longleftrightarrow> True"

lemma do_op_shows:
  assumes s: "shows_at lo hi sy d q" and p: "do_op p d = Some d'" and m: "timeout_within M p"
    and t: "time d' \<le> T" "T \<le> hi" "T + M \<le> hi"
  shows "\<exists>sy'. shows_at lo hi sy' d' (fst (queue_op p (q, time d)))" "time d' = snd (queue_op p (q, time d))"
proof -
  have b: "lo \<le> sy" "sy \<le> time d" "time d \<le> hi" "hi - lo < 2147483648" "all_in lo hi q" "q = deadlines sy (tevents d)"
    by (fact shows_atD [OF s])+
  have same: "shows_at lo hi sy e q" if "tevents e = tevents d" "time e = time d" "last_update e = last_update d" "init e = init d" for e
    using s unfolding shows_at_def that .
  have "(\<exists>sy'. shows_at lo hi sy' d' (fst (queue_op p (q, time d)))) \<and> time d' = snd (queue_op p (q, time d))"
  proof (cases p)
    case (Rd_event cb fd)
    then show ?thesis using p same [of d'] by (auto simp: rd_event_def intro!: exI [of _ sy])
  next
    case (Wr_event cb fd)
    then show ?thesis using p same [of d'] by (auto simp: wr_event_def intro!: exI [of _ sy])
  next
    case (Ex_event cb fd)
    then show ?thesis using p same [of d'] by (auto simp: ex_event_def intro!: exI [of _ sy])
  next
    case (Spend n)
    then show ?thesis using p s t by (auto simp: shows_at_def)
  next
    case (Remove_event cb ev)
    show ?thesis
    proof (cases "ev = All_events \<or> ev = Timer")
      case False
      then show ?thesis using p Remove_event same [of d'] by (auto simp: remove_def Let_def intro!: exI [of _ sy])
    next
      case True
      have q: "deadlines sy (tm_remove cb (tevents d)) = filter (\<lambda>e. snd e \<noteq> cb) q"
        using deadlines_remove [of lo hi sy "tevents d" cb] b by simp
      have d': "tevents d' = tm_remove cb (tevents d)" "time d' = time d" "last_update d' = last_update d" "init d' = init d"
        using p Remove_event True by (auto simp: remove_def Let_def)
      have "tm_remove cb (tevents d) \<noteq> [] \<Longrightarrow> tevents d \<noteq> []" by (auto simp: tm_remove.simps)
      then have "shows_at lo hi sy d' (filter (\<lambda>e. snd e \<noteq> cb) q)"
        using s d' q by (auto simp: shows_at_def all_in_def)
      then show ?thesis using True Remove_event d'(2) by auto
    qed
  next
    case (Tm_event cb tm)
    let ?u = "update_tevents d"
    note u = update_tevents_shows [OF s]
    have tm: "sint tm \<ge> 0" and d': "d' = ?u\<lparr>tevents := tm_insert \<lparr>te_delta = sint tm, te_cb = cb\<rparr> (tevents ?u)\<rparr>"
      using p Tm_event by (simp_all add: tm_event_def Let_def split: if_splits)
    have td: "time d' = time d" using d' u(2) by simp
    then have D: "lo \<le> time d + sint tm" "time d + sint tm \<le> hi" using tm m Tm_event t b(1,2) by simp_all
    have q: "q = deadlines (time d) (tevents ?u)" using u(1) by (simp add: shows_at_def)
    have "deadlines (time d) (tm_insert \<lparr>te_delta = time d + sint tm - time d, te_cb = cb\<rparr> (tevents ?u)) =
        add_deadline (time d + sint tm) cb q"
      unfolding q by (rule deadlines_insert [where lo = lo and hi = hi]) (use b D q in simp_all)
    then have "deadlines (time d) (tevents d') = add_deadline (time d + sint tm) cb q" by (simp add: d')
    moreover have "all_in lo hi (add_deadline (time d + sint tm) cb q)"
      using b(5) D by (auto simp: all_in_def add_deadline_def dest: set_takeWhileD set_dropWhileD)
    ultimately have "shows_at lo hi (time d) d' (add_deadline (time d + sint tm) cb q)"
      using u b td d' by (simp add: shows_at_def)
    then show ?thesis using Tm_event td by auto
  qed
  then show "\<exists>sy'. shows_at lo hi sy' d' (fst (queue_op p (q, time d)))" "time d' = snd (queue_op p (q, time d))" by blast+
qed

lemma do_ops_shows:
  "shows_at lo hi sy d q \<Longrightarrow> do_ops ps d = Some d' \<Longrightarrow> \<forall>p \<in> set ps. timeout_within M p \<Longrightarrow> time d' \<le> T \<Longrightarrow> T \<le> hi \<Longrightarrow> T + M \<le> hi \<Longrightarrow>
   (\<exists>sy'. shows_at lo hi sy' d' (fst (fold queue_op ps (q, time d)))) \<and> time d' = snd (fold queue_op ps (q, time d))"
proof (induction ps arbitrary: d q sy)
  case (Cons p ps)
  then obtain e where e: "do_op p d = Some e" "do_ops ps e = Some d'" by (cases "do_op p d") auto
  have t: "time e \<le> T" using do_ops_time [OF e(2)] Cons.prems(4) by simp
  have m: "timeout_within M p" "\<forall>p \<in> set ps. timeout_within M p" using Cons.prems(3) by simp_all
  obtain sy' where sy': "shows_at lo hi sy' e (fst (queue_op p (q, time d)))" "time e = snd (queue_op p (q, time d))"
    using do_op_shows [OF Cons.prems(1) e(1) m(1) t Cons.prems(5,6)] by blast
  have "queue_op p (q, time d) = (fst (queue_op p (q, time d)), time e)" using sy'(2) by simp
  then show ?case using Cons.IH [OF sy'(1) e(2) m(2) Cons.prems(4-6)] by simp
qed auto

section \<open>Calling what is due\<close>

definition follows :: "int \<Rightarrow> int \<Rightarrow> int \<Rightarrow> 'w running \<Rightarrow> 'w alarm_clock \<Rightarrow> bool" where
  "follows lo hi sy s a \<longleftrightarrow> shows_at lo hi sy (disp s) (queue a) \<and> now a = time (disp s) \<and>
     a_world a = world s \<and> a_history a = history s"

definition quick :: "int \<Rightarrow> 'w owner \<Rightarrow> bool" where
  "quick M act \<longleftrightarrow> (\<forall>cb ev w. \<forall>p \<in> set (fst (act cb ev w)). timeout_within M p)"

lemma call_back_result:
  assumes "call_back act cb ev s = Some s'"
  shows "do_ops (fst (act cb ev (world s))) (disp s) = Some (disp s')" "world s' = snd (act cb ev (world s))"
    "history s' = history s @ Called cb ev (time (disp s)) # map Did (fst (act cb ev (world s)))"
  using assms by (auto simp: call_back_def split: prod.splits elim!: bind_cases)

lemma call_back_follows:
  assumes f: "follows lo hi sy s a" and c: "call_back act cb Timer s = Some s'" and m: "quick M act"
    and t: "time (disp s') \<le> T" "T \<le> hi" "T + M \<le> hi"
  shows "\<exists>sy'. follows lo hi sy' s' (ring act cb a)"
proof -
  note r = call_back_result [OF c]
  have s: "shows_at lo hi sy (disp s) (queue a)" and eq: "now a = time (disp s)" "a_world a = world s" "a_history a = history s"
    using f by (simp_all add: follows_def)
  have "\<forall>p \<in> set (fst (act cb Timer (world s))). timeout_within M p" using m by (simp add: quick_def)
  from do_ops_shows [OF s r(1) this t] obtain sy' where
    "shows_at lo hi sy' (disp s') (fst (fold queue_op (fst (act cb Timer (world s))) (queue a, now a)))"
    "time (disp s') = snd (fold queue_op (fst (act cb Timer (world s))) (queue a, now a))"
    unfolding eq(1) by blast
  then have "follows lo hi sy' s' (ring act cb a)"
    using r(2,3) eq by (simp add: follows_def ring_def case_prod_unfold)
  then show ?thesis by blast
qed

lemma call_back_time: "call_back act cb ev s = Some s' \<Longrightarrow> time (disp s) \<le> time (disp s')"
  using call_back_result(1) do_ops_time by blast

lemma update_tevents_time [simp]: "time (update_tevents d) = time d"
  by (simp add: update_tevents_def Let_def split: list.split)

lemma tev_loop_step:
  "tevents (disp s) = [] \<Longrightarrow> tev_loop act s = Some s"
  "tevents (disp s) = t # ts \<Longrightarrow> te_delta t > 0 \<Longrightarrow> tev_loop act s = Some s"
  "tevents (disp s) = t # ts \<Longrightarrow> te_delta t \<le> 0 \<Longrightarrow> tev_loop act s =
     Option.bind (call_back act (te_cb t) Timer (s\<lparr>disp := (disp s)\<lparr>tevents := skip_first t ts\<rparr>\<rparr>))
       (\<lambda>s. tev_loop act (s\<lparr>disp := update_tevents (disp s)\<rparr>))"
  by (simp_all add: tev_loop.simps [of act s] skip_first_def Let_def)

text \<open>One pass of the loop, with any continuation.\<close>

definition tev_body :: "'w owner \<Rightarrow> ('w running \<Rightarrow> 'w running option) \<Rightarrow> 'w running \<Rightarrow> 'w running option" where
  "tev_body act loop s =
     (case tevents (disp s) of
       [] \<Rightarrow> Some s
     | t # ts \<Rightarrow>
         if te_delta t \<le> 0 then
           Option.bind (call_back act (te_cb t) Timer (s\<lparr>disp := (disp s)\<lparr>tevents := skip_first t ts\<rparr>\<rparr>))
             (\<lambda>s. loop (s\<lparr>disp := update_tevents (disp s)\<rparr>))
         else Some s)"

lemma tev_loop_induct:
  assumes r: "tev_loop act s = Some s'"
    and step: "\<And>loop s s'. (\<And>s s'. loop s = Some s' \<Longrightarrow> P s s') \<Longrightarrow> tev_body act loop s = Some s' \<Longrightarrow> P s s'"
  shows "P s s'"
proof -
  have "act = act \<longrightarrow> P s s'"
  proof (rule tev_loop.raw_induct [where P = "\<lambda>f s s'. f = act \<longrightarrow> P s s'", OF _ r], rule impI)
    fix loop :: "'a owner \<Rightarrow> 'a running \<Rightarrow> 'a running option" and f s s'
    assume ih: "\<And>f s s'. loop f s = Some s' \<Longrightarrow> f = act \<longrightarrow> P s s'" and f: "f = act"
      and b: "(case tevents (disp s) of
       [] \<Rightarrow> Some s
     | t # ts \<Rightarrow>
         if te_delta t \<le> 0 then do {
           let ts = (case ts of [] \<Rightarrow> [] | n # ns \<Rightarrow> n\<lparr>te_delta := wrap_long (te_delta n + te_delta t)\<rparr> # ns);
           s \<leftarrow> call_back f (te_cb t) Timer (s\<lparr>disp := (disp s)\<lparr>tevents := ts\<rparr>\<rparr>);
           loop f (s\<lparr>disp := update_tevents (disp s)\<rparr>)
         }
         else Some s) = Some s'"
    have "tev_body act (loop act) s = Some s'"
      unfolding tev_body_def skip_first_def using b [unfolded Let_def f] by simp
    then show "P s s'" using step [of "loop act"] ih by blast
  qed
  then show ?thesis by simp
qed

lemma tev_body_cases:
  assumes "tev_body act loop s = Some s'"
  obtains "tevents (disp s) = []" "s' = s"
    | t ts where "tevents (disp s) = t # ts" "te_delta t > 0" "s' = s"
    | t ts u where "tevents (disp s) = t # ts" "te_delta t \<le> 0"
      "call_back act (te_cb t) Timer (s\<lparr>disp := (disp s)\<lparr>tevents := skip_first t ts\<rparr>\<rparr>) = Some u"
      "loop (u\<lparr>disp := update_tevents (disp u)\<rparr>) = Some s'"
proof (cases "tevents (disp s)")
  case Nil
  have "s' = s" using assms Nil by (simp add: tev_body_def)
  with that(1) Nil show ?thesis by blast
next
  case (Cons t ts)
  show ?thesis
  proof (cases "te_delta t \<le> 0")
    case True
    then have "Option.bind (call_back act (te_cb t) Timer (s\<lparr>disp := (disp s)\<lparr>tevents := skip_first t ts\<rparr>\<rparr>))
        (\<lambda>s. loop (s\<lparr>disp := update_tevents (disp s)\<rparr>)) = Some s'"
      using assms Cons by (simp add: tev_body_def)
    then show ?thesis using that(3) [OF Cons True] by (rule bind_cases)
  next
    case False
    then have "te_delta t > 0" "s' = s" using assms Cons by (simp_all add: tev_body_def)
    with that(2) Cons show ?thesis by blast
  qed
qed

lemma tev_loop_time:
  assumes "tev_loop act s = Some s'"
  shows "time (disp s) \<le> time (disp s')"
  using assms
proof (rule tev_loop_induct)
  fix loop :: "'a running \<Rightarrow> 'a running option" and s s'
  assume ih: "\<And>s s'. loop s = Some s' \<Longrightarrow> time (disp s) \<le> time (disp s')" and b: "tev_body act loop s = Some s'"
  from b show "time (disp s) \<le> time (disp s')"
  proof (cases rule: tev_body_cases)
    case (3 t ts u)
    show ?thesis using call_back_time [OF 3(3)] ih [OF 3(4)] by simp
  qed simp_all
qed

lemma alarms_step:
  "queue a = [] \<Longrightarrow> alarms act a = Some a"
  "queue a = (D, cb) # q \<Longrightarrow> now a < D \<Longrightarrow> alarms act a = Some a"
  "queue a = (D, cb) # q \<Longrightarrow> D \<le> now a \<Longrightarrow> alarms act a = alarms act (ring act cb (a\<lparr>queue := q\<rparr>))"
  by (simp_all add: alarms.simps [of act a])

lemma follows_update:
  assumes "follows lo hi sy s a"
  shows "follows lo hi (time (disp s)) (s\<lparr>disp := update_tevents (disp s)\<rparr>) a"
proof -
  have "shows_at lo hi sy (disp s) (queue a)" using assms by (simp add: follows_def)
  from update_tevents_shows(1) [OF this] assms show ?thesis by (simp add: follows_def)
qed

definition sounds :: "int \<Rightarrow> int \<Rightarrow> int \<Rightarrow> 'w owner \<Rightarrow> 'w running \<Rightarrow> 'w running \<Rightarrow> bool" where
  "sounds lo hi M act s s' \<longleftrightarrow> time (disp s) \<le> time (disp s') \<and>
     (\<forall>a. follows lo hi (time (disp s)) s a \<longrightarrow> time (disp s') + M \<le> hi \<longrightarrow>
        (\<exists>a' sy'. alarms act a = Some a' \<and> follows lo hi sy' s' a'))"

lemma soundsD:
  assumes "sounds lo hi M act s s'"
  shows "time (disp s) \<le> time (disp s')"
    and "follows lo hi (time (disp s)) s a \<Longrightarrow> time (disp s') + M \<le> hi \<Longrightarrow>
      \<exists>a' sy'. alarms act a = Some a' \<and> follows lo hi sy' s' a'"
  using assms unfolding sounds_def by blast+

lemma tev_loop_alarms:
  assumes "tev_loop act s = Some s'" and m: "quick M act" "0 \<le> M"
  shows "sounds lo hi M act s s'"
  using assms(1)
proof (rule tev_loop_induct)
  fix loop :: "'a running \<Rightarrow> 'a running option" and s s'
  assume ih: "\<And>s s'. loop s = Some s' \<Longrightarrow> sounds lo hi M act s s'" and body: "tev_body act loop s = Some s'"
  have stay: "sounds lo hi M act s s" if "\<And>a. follows lo hi (time (disp s)) s a \<Longrightarrow> alarms act a = Some a"
    using that unfolding sounds_def by blast
  have q: "queue a = deadlines (time (disp s)) (tevents (disp s))" "now a = time (disp s)"
    if "follows lo hi (time (disp s)) s a" for a
    using that by (simp_all add: follows_def shows_at_def)
  from body show "sounds lo hi M act s s'"
  proof (cases rule: tev_body_cases)
    case 1
    have "alarms act a = Some a" if "follows lo hi (time (disp s)) s a" for a
      by (rule alarms_step(1)) (use q [OF that] 1 in simp)
    then show ?thesis using stay 1 by simp
  next
    case (2 t ts)
    have "alarms act a = Some a" if "follows lo hi (time (disp s)) s a" for a
    proof -
      have "queue a = (time (disp s) + te_delta t, te_cb t) # deadlines (time (disp s) + te_delta t) ts"
        using q(1) [OF that] 2(1) by simp
      moreover have "now a < time (disp s) + te_delta t" using q(2) [OF that] 2(2) by linarith
      ultimately show ?thesis by (rule alarms_step(2))
    qed
    then show ?thesis using stay 2 by simp
  next
    case (3 t ts u)
    note so = ih [OF 3(4)]
    have tu: "time (disp u) \<le> time (disp s')" using soundsD(1) [OF so] by simp
    have ts: "time (disp s) \<le> time (disp u)" using call_back_time [OF 3(3)] by simp
    let ?q = "deadlines (time (disp s) + te_delta t) ts" and ?s = "s\<lparr>disp := (disp s)\<lparr>tevents := skip_first t ts\<rparr>\<rparr>"
    have "\<exists>a' sy'. alarms act a = Some a' \<and> follows lo hi sy' s' a'"
      if f: "follows lo hi (time (disp s)) s a" and t: "time (disp s') + M \<le> hi" for a
    proof -
      have s: "shows_at lo hi (time (disp s)) (disp s) (queue a)" using f by (simp add: follows_def)
      note b = shows_atD [OF s]
      have qa: "queue a = (time (disp s) + te_delta t, te_cb t) # ?q" using q(1) [OF f] 3(1) by simp
      have aq: "all_in lo hi ?q" using b(5) qa by simp
      have dq: "deadlines (time (disp s)) (skip_first t ts) = ?q"
        by (rule deadlines_skip [OF aq]) (use b in simp_all)
      have "follows lo hi (time (disp s)) ?s (a\<lparr>queue := ?q\<rparr>)"
        using f aq dq b 3(1) by (simp add: follows_def shows_at_def)
      from call_back_follows [OF this 3(3) m(1) tu _ t] obtain sy' where
        "follows lo hi sy' u (ring act (te_cb t) (a\<lparr>queue := ?q\<rparr>))" using t m(2) by auto
      from follows_update [OF this] have "follows lo hi (time (disp u)) (u\<lparr>disp := update_tevents (disp u)\<rparr>)
          (ring act (te_cb t) (a\<lparr>queue := ?q\<rparr>))" .
      moreover have "alarms act a = alarms act (ring act (te_cb t) (a\<lparr>queue := ?q\<rparr>))"
        by (rule alarms_step(3) [OF qa]) (use q(2) [OF f] 3(2) in simp)
      ultimately show ?thesis using soundsD(2) [OF so _ t] by simp
    qed
    then show ?thesis using ts tu unfolding sounds_def by simp
  qed
qed

section \<open>The queue stays in order\<close>

lemma sorted_add_deadline:
  "sorted (map fst q) \<Longrightarrow> sorted (map fst (add_deadline D cb q))"
proof (induction q)
  case (Cons e q)
  show ?case
  proof (cases "fst e \<le> D")
    case True
    have "set (map fst (add_deadline D cb q)) \<subseteq> insert D (set (map fst q))"
      by (auto simp: add_deadline_def dest: set_takeWhileD set_dropWhileD)
    then have "x = D \<or> x \<in> set (map fst q)" if "x \<in> set (map fst (add_deadline D cb q))" for x using that by blast
    then have "\<forall>x \<in> set (map fst (add_deadline D cb q)). fst e \<le> x" using Cons.prems True by fastforce
    moreover have "add_deadline D cb (e # q) = e # add_deadline D cb q" using True by (simp add: add_deadline_def)
    ultimately show ?thesis using Cons by simp
  next
    case False
    then have "add_deadline D cb (e # q) = (D, cb) # e # q" by (simp add: add_deadline_def)
    then show ?thesis using Cons.prems False by auto
  qed
qed (simp add: add_deadline_def)

lemma sorted_map_filter: "sorted (map f xs) \<Longrightarrow> sorted (map f (filter P xs))"
  by (induction xs) auto

lemma queue_op_sorted: "sorted (map fst q) \<Longrightarrow> sorted (map fst (fst (queue_op p (q, t))))"
  by (cases p) (simp_all add: sorted_add_deadline sorted_map_filter)

lemma fold_queue_op_sorted: "sorted (map fst q) \<Longrightarrow> sorted (map fst (fst (fold queue_op ps (q, t))))"
proof (induction ps arbitrary: q t)
  case (Cons p ps)
  obtain q' t' where p: "queue_op p (q, t) = (q', t')" by (cases "queue_op p (q, t)")
  then show ?case using Cons queue_op_sorted [OF Cons.prems, of p t] by simp
qed simp

lemma alarms_done:
  assumes "alarms act a = Some a'"
  shows "sorted (map fst (queue a)) \<longrightarrow> (\<forall>e \<in> set (queue a'). now a' < fst e)"
proof (rule alarms.raw_induct [where P = "\<lambda>f a a'. sorted (map fst (queue a)) \<longrightarrow> (\<forall>e \<in> set (queue a'). now a' < fst e)", OF _ assms],
    rule impI)
  fix loop :: "'a owner \<Rightarrow> 'a alarm_clock \<Rightarrow> 'a alarm_clock option" and act a a'
  assume ih: "\<And>act a a'. loop act a = Some a' \<Longrightarrow> sorted (map fst (queue a)) \<longrightarrow> (\<forall>e \<in> set (queue a'). now a' < fst e)"
    and b: "(case queue a of [] \<Rightarrow> Some a
      | (D, cb) # q \<Rightarrow> if D \<le> now a then loop act (ring act cb (a\<lparr>queue := q\<rparr>)) else Some a) = Some a'"
    and s: "sorted (map fst (queue a))"
  show "\<forall>e \<in> set (queue a'). now a' < fst e"
  proof (cases "queue a")
    case Nil
    then show ?thesis using b by simp
  next
    case (Cons e q)
    obtain D cb where e: "e = (D, cb)" by (cases e)
    show ?thesis
    proof (cases "D \<le> now a")
      case True
      have "sorted (map fst (queue (ring act cb (a\<lparr>queue := q\<rparr>))))"
        using fold_queue_op_sorted [of q "fst (act cb Timer (a_world a))" "now a"] s Cons
        by (simp add: ring_def case_prod_unfold)
      then show ?thesis using ih b Cons e True by auto
    next
      case False
      then have "a' = a" using b Cons e by simp
      then show ?thesis using s Cons e False by auto
    qed
  qed
qed

lemma handle_tevents_time: "handle_tevents act s = Some s' \<Longrightarrow> time (disp s) \<le> time (disp s')"
  using tev_loop_time [of act "s\<lparr>disp := update_tevents (disp s)\<rparr>" s'] by (auto simp: handle_tevents_def split: if_splits)

lemma new_dispatcher_shows: "shows_at t (t + 2147483647) t (new_dispatcher t) []"
  by (simp add: shows_at_def new_dispatcher_def)

lemma handle_tevents_alarms:
  assumes h: "handle_tevents act s = Some s'" and f: "follows lo hi sy s a" and m: "quick M act" "0 \<le> M"
    and t: "time (disp s') + M \<le> hi"
  shows "\<exists>a' sy'. alarms act a = Some a' \<and> follows lo hi sy' s' a'"
proof (cases "tevents (disp s) = []")
  case True
  then have "queue a = []" "s' = s" using f h shows_nil by (auto simp: follows_def handle_tevents_def)
  then show ?thesis using alarms_step(1) f by blast
next
  case False
  let ?s = "s\<lparr>disp := update_tevents (disp s)\<rparr>"
  have "tev_loop act ?s = Some s'" using h False by (simp add: handle_tevents_def)
  from tev_loop_alarms [OF this m] have so: "sounds lo hi M act ?s s'" .
  have "follows lo hi (time (disp ?s)) ?s a" using follows_update [OF f] by simp
  from soundsD(2) [OF so this t] show ?thesis .
qed


text \<open>Three timers, two for the same moment, and a clock that wraps meanwhile.\<close>

definition sample_timers :: "disp_op list" where
  "sample_timers = [Tm_event 1 50, Tm_event 2 20, Tm_event 3 50, Tm_event 4 90, Remove_event 4 Timer, Tm_event 5 70, Spend 60]"

definition sample_dispatcher :: dispatcher where
  "sample_dispatcher = the (do_ops sample_timers (new_dispatcher 2147483600))"

lemma sample_registered:
  "do_ops sample_timers (new_dispatcher 2147483600) = Some sample_dispatcher"
  "tevents sample_dispatcher = [\<lparr>te_delta = 20, te_cb = 2\<rparr>, \<lparr>te_delta = 30, te_cb = 1\<rparr>, \<lparr>te_delta = 0, te_cb = 3\<rparr>, \<lparr>te_delta = 20, te_cb = 5\<rparr>]"
  "time sample_dispatcher = 2147483660" "last_update sample_dispatcher = 2147483600" "\<not> init sample_dispatcher"
proof -
  have "do_ops sample_timers (new_dispatcher 2147483600) = Some ((new_dispatcher 2147483600)\<lparr>time := 2147483660,
      last_update := 2147483600, init := False, tevents := [\<lparr>te_delta = 20, te_cb = 2\<rparr>, \<lparr>te_delta = 30, te_cb = 1\<rparr>,
        \<lparr>te_delta = 0, te_cb = 3\<rparr>, \<lparr>te_delta = 20, te_cb = 5\<rparr>]\<rparr>)"
    by (simp add: sample_timers_def new_dispatcher_def tm_event_def update_tevents_def gettime_def wrap_long_def remove_def
        tm_remove.simps Let_def)
  note r = this
  have s: "sample_dispatcher = (new_dispatcher 2147483600)\<lparr>time := 2147483660,
      last_update := 2147483600, init := False, tevents := [\<lparr>te_delta = 20, te_cb = 2\<rparr>, \<lparr>te_delta = 30, te_cb = 1\<rparr>,
        \<lparr>te_delta = 0, te_cb = 3\<rparr>, \<lparr>te_delta = 20, te_cb = 5\<rparr>]\<rparr>"
    unfolding sample_dispatcher_def r by simp
  show "do_ops sample_timers (new_dispatcher 2147483600) = Some sample_dispatcher" unfolding s by (rule r)
  show "tevents sample_dispatcher = [\<lparr>te_delta = 20, te_cb = 2\<rparr>, \<lparr>te_delta = 30, te_cb = 1\<rparr>, \<lparr>te_delta = 0, te_cb = 3\<rparr>, \<lparr>te_delta = 20, te_cb = 5\<rparr>]"
    "time sample_dispatcher = 2147483660" "last_update sample_dispatcher = 2147483600" "\<not> init sample_dispatcher"
    by (simp_all add: s new_dispatcher_def)
qed


end
