(* ===== verification/Dispatch_Files.thy ===== *)
theory Dispatch_Files
  imports Dispatcher
begin

text \<open>
  The file events of the dispatcher. While it calls the callbacks of the ready descriptors the
  callbacks register and remove others, themselves included. A callback that has been removed is never
  called, and one that is ready and stays registered is.
\<close>

section \<open>What is registered\<close>

type_synonym registration = "dispatch_event \<times> int \<times> callback"

definition registration_of :: "file_event \<Rightarrow> registration" where
  "registration_of e = (fe_event e, fe_fd e, fe_cb e)"

definition registrations :: "dispatcher \<Rightarrow> registration list" where
  "registrations d = map registration_of (filter (\<lambda>e. \<not> fe_deleted e) (fevents d))"

definition hits :: "callback \<Rightarrow> dispatch_event \<Rightarrow> registration \<Rightarrow> bool" where
  "hits cb ev r \<longleftrightarrow> (case r of (e, fd, c) \<Rightarrow> c = cb \<and> (ev = All_events \<or> e = ev))"

definition file_kind :: "dispatch_event \<Rightarrow> bool" where
  "file_kind ev \<longleftrightarrow> ev = All_events \<or> ev = Read \<or> ev = Write \<or> ev = Except"

fun registry_op :: "disp_op \<Rightarrow> registration list \<Rightarrow> registration list" where
  "registry_op (Rd_event cb fd) rs = rs @ [(Read, fd, cb)]"
| "registry_op (Wr_event cb fd) rs = rs @ [(Write, fd, cb)]"
| "registry_op (Ex_event cb fd) rs = rs @ [(Except, fd, cb)]"
| "registry_op (Remove_event cb ev) rs = (if file_kind ev then filter (\<lambda>r. \<not> hits cb ev r) rs else rs)"
| "registry_op _ rs = rs"

text \<open>A history is allowed when every callback that was called was registered at that moment, for a
  descriptor that was ready; the result is what is registered afterwards.\<close>

fun replay :: "(dispatch_event \<Rightarrow> int set) \<Rightarrow> registration list \<Rightarrow> disp_action list \<Rightarrow> registration list option" where
  "replay ready rs [] = Some rs"
| "replay ready rs (Called cb ev t # h) =
     (if list_ex (\<lambda>(e, fd, c). e = ev \<and> c = cb \<and> fd \<in> ready ev) rs then replay ready rs h else None)"
| "replay ready rs (Did p # h) = replay ready (registry_op p rs) h"

lemma replay_append:
  "replay ready rs (h @ h') = Option.bind (replay ready rs h) (\<lambda>rs. replay ready rs h')"
  by (induction ready rs h rule: replay.induct) auto

lemma replay_did: "replay ready rs (map Did ps) = Some (fold registry_op ps rs)"
  by (induction ps arbitrary: rs) simp_all

section \<open>Operations\<close>

lemma registrations_update [simp]:
  "registrations (update_fevents d) = registrations d" "fevents (update_fevents d) = fevents d"
  "locked (update_fevents d) = locked d" "modified (update_fevents d)"
  by (simp_all add: registrations_def update_fevents_def Let_def)

lemma registrations_timers [simp]:
  "registrations (update_tevents d) = registrations d" "locked (update_tevents d) = locked d"
  "fevents (update_tevents d) = fevents d"
  by (simp_all add: registrations_def update_tevents_def Let_def split: list.split)

lemma registrations_add: "registrations (add_fevent ev cb fd d) = registrations d @ [(ev, fd, cb)]"
  "locked (add_fevent ev cb fd d) = locked d"
  "fevents (add_fevent ev cb fd d) = fevents d @ [\<lparr>fe_event = ev, fe_fd = fd, fe_cb = cb, fe_deleted = False\<rparr>]"
  by (simp_all add: add_fevent_def) (simp add: registrations_def registration_of_def)

lemma registrations_remove: "registrations (remove_fevents cb ev d) = filter (\<lambda>r. \<not> hits cb ev r) (registrations d)"
proof -
  let ?hit = "\<lambda>e. fe_cb e = cb \<and> (ev = All_events \<or> fe_event e = ev)"
  have h: "hits cb ev (registration_of e) = ?hit e" for e by (simp add: hits_def registration_of_def)
  have m: "map registration_of (filter (\<lambda>e. \<not> fe_deleted e) (map (\<lambda>e. if ?hit e then e\<lparr>fe_deleted := True\<rparr> else e) es)) =
      filter (\<lambda>r. \<not> hits cb ev r) (map registration_of (filter (\<lambda>e. \<not> fe_deleted e) es))" for es
    by (induction es) (simp_all add: h)
  have f: "map registration_of (filter (\<lambda>e. \<not> fe_deleted e) (filter (\<lambda>e. \<not> ?hit e) es)) =
      filter (\<lambda>r. \<not> hits cb ev r) (map registration_of (filter (\<lambda>e. \<not> fe_deleted e) es))" for es
    by (induction es) (simp_all add: h)
  show ?thesis
  proof (cases "islocked d")
    case True
    then show ?thesis using m [of "fevents d"] by (simp add: registrations_def remove_fevents_def Let_def)
  next
    case False
    then show ?thesis using f [of "fevents d"] by (simp add: registrations_def remove_fevents_def Let_def)
  qed
qed

lemma tm_event_result:
  "tm_event cb tm d = Some d' \<Longrightarrow> registrations d' = registrations d \<and> locked d' = locked d \<and> fevents d' = fevents d"
proof -
  assume "tm_event cb tm d = Some d'"
  then have "d' = (update_tevents d)\<lparr>tevents := tm_insert \<lparr>te_delta = sint tm, te_cb = cb\<rparr> (tevents (update_tevents d))\<rparr>"
    by (simp add: tm_event_def Let_def split: if_splits)
  moreover have "registrations (e\<lparr>tevents := x\<rparr>) = registrations e" for e x by (simp add: registrations_def)
  ultimately show ?thesis by simp
qed

lemma do_op_registry:
  assumes "do_op p d = Some d'"
  shows "registrations d' = registry_op p (registrations d) \<and> locked d' = locked d"
proof -
  have t: "registrations (e\<lparr>tevents := x\<rparr>) = registrations e" "registrations (e\<lparr>time := n\<rparr>) = registrations e" for e x n
    by (simp_all add: registrations_def)
  have r: "locked (remove_fevents cb ev e) = locked e" for cb ev e
    by (simp add: remove_fevents_def Let_def)
  show ?thesis
    using assms tm_event_result
    by (cases p) (auto simp: rd_event_def wr_event_def ex_event_def registrations_add remove_def Let_def r registrations_remove t file_kind_def)
qed

lemma do_ops_registry:
  "do_ops ps d = Some d' \<Longrightarrow> registrations d' = fold registry_op ps (registrations d) \<and> locked d' = locked d"
proof (induction ps arbitrary: d)
  case (Cons p ps)
  then obtain e where e: "do_op p d = Some e" "do_ops ps e = Some d'" by (cases "do_op p d") auto
  then show ?case using do_op_registry [OF e(1)] Cons.IH [OF e(2)] by simp
qed simp

text \<open>While the list is locked an entry keeps its place, and is only marked by an operation that removes it.\<close>

definition keeps_entry :: "disp_op list \<Rightarrow> file_event \<Rightarrow> file_event \<Rightarrow> bool" where
  "keeps_entry ps e e' \<longleftrightarrow> registration_of e' = registration_of e \<and>
     (fe_deleted e' = fe_deleted e \<or> (\<exists>ev. Remove_event (fe_cb e) ev \<in> set ps \<and> hits (fe_cb e) ev (registration_of e)))"

lemma keeps_same: "keeps_entry ps e e"
  by (simp add: keeps_entry_def)

lemma keeps_trans: "keeps_entry [p] e f \<Longrightarrow> keeps_entry ps f g \<Longrightarrow> keeps_entry (p # ps) e g"
  by (auto simp: keeps_entry_def registration_of_def)

lemma do_op_entry:
  assumes p: "do_op p d = Some d'" and l: "locked d > 0" and j: "j < length (fevents d)"
  shows "j < length (fevents d') \<and> keeps_entry [p] (fevents d ! j) (fevents d' ! j)"
proof -
  have add: ?thesis if "fevents d' = fevents d @ [x]" for x
    using that j by (simp add: nth_append keeps_same)
  have same: ?thesis if "fevents d' = fevents d"
    using that j by (simp add: keeps_same)
  show ?thesis
  proof (cases p)
    case (Rd_event cb fd)
    then show ?thesis using p add by (auto simp: rd_event_def registrations_add)
  next
    case (Wr_event cb fd)
    then show ?thesis using p add by (auto simp: wr_event_def registrations_add)
  next
    case (Ex_event cb fd)
    then show ?thesis using p add by (auto simp: ex_event_def registrations_add)
  next
    case (Tm_event cb tm)
    then show ?thesis using p same tm_event_result by simp
  next
    case (Spend n)
    then show ?thesis using p same by auto
  next
    case (Remove_event cb ev)
    show ?thesis
    proof (cases "file_kind ev")
      case False
      then show ?thesis using p same Remove_event by (auto simp: remove_def file_kind_def Let_def)
    next
      case True
      let ?hit = "\<lambda>e. fe_cb e = cb \<and> (ev = All_events \<or> fe_event e = ev)"
      have "fevents d' = map (\<lambda>e. if ?hit e then e\<lparr>fe_deleted := True\<rparr> else e) (fevents d)"
        using p True Remove_event l by (auto simp: remove_def file_kind_def Let_def remove_fevents_def islocked_def)
      then show ?thesis using j Remove_event
        by (auto simp: keeps_entry_def registration_of_def hits_def)
    qed
  qed
qed

lemma do_ops_entry:
  "do_ops ps d = Some d' \<Longrightarrow> locked d > 0 \<Longrightarrow> j < length (fevents d) \<Longrightarrow>
   j < length (fevents d') \<and> keeps_entry ps (fevents d ! j) (fevents d' ! j)"
proof (induction ps arbitrary: d)
  case (Cons p ps)
  then obtain e where e: "do_op p d = Some e" "do_ops ps e = Some d'" by (cases "do_op p d") auto
  have l: "locked e > 0" using do_op_registry [OF e(1)] Cons.prems(2) by simp
  note k = do_op_entry [OF e(1) Cons.prems(2,3)]
  then show ?case using Cons.IH [OF e(2) l] keeps_trans by blast
qed (simp add: keeps_same)


section \<open>The walk\<close>

definition fev_body ::
    "'w owner \<Rightarrow> (dispatch_event \<Rightarrow> int set) \<Rightarrow> (nat \<Rightarrow> 'w running \<Rightarrow> 'w running option) \<Rightarrow> nat \<Rightarrow> 'w running \<Rightarrow> 'w running option" where
  "fev_body act ready loop i s =
     (if i < length (fevents (disp s)) then
        if \<not> fe_deleted (fevents (disp s) ! i) \<and> fe_fd (fevents (disp s) ! i) \<in> ready (fe_event (fevents (disp s) ! i)) then
          Option.bind (call_back act (fe_cb (fevents (disp s) ! i)) (fe_event (fevents (disp s) ! i)) s) (loop (Suc i))
        else loop (Suc i) s
      else Some s)"

lemma fev_loop_induct:
  assumes r: "fev_loop act ready i s = Some s'"
    and step: "\<And>loop i s s'. (\<And>i s s'. loop i s = Some s' \<Longrightarrow> P i s s') \<Longrightarrow> fev_body act ready loop i s = Some s' \<Longrightarrow> P i s s'"
  shows "P i s s'"
proof -
  have "act = act \<longrightarrow> ready = ready \<longrightarrow> P i s s'"
  proof (rule fev_loop.raw_induct [where P = "\<lambda>f g i s s'. f = act \<longrightarrow> g = ready \<longrightarrow> P i s s'", OF _ r], intro impI)
    fix loop :: "'a owner \<Rightarrow> (dispatch_event \<Rightarrow> int set) \<Rightarrow> nat \<Rightarrow> 'a running \<Rightarrow> 'a running option" and f g i s s'
    assume ih: "\<And>f g i s s'. loop f g i s = Some s' \<Longrightarrow> f = act \<longrightarrow> g = ready \<longrightarrow> P i s s'" and f: "f = act" "g = ready"
      and b: "(if i < length (fevents (disp s)) then
        (let e = fevents (disp s) ! i in
         if \<not> fe_deleted e \<and> fe_fd e \<in> g (fe_event e) then do {
           s \<leftarrow> call_back f (fe_cb e) (fe_event e) s;
           loop f g (Suc i) s
         }
         else loop f g (Suc i) s)
      else Some s) = Some s'"
    have "fev_body act ready (loop act ready) i s = Some s'"
      unfolding fev_body_def using b [unfolded Let_def f] by simp
    then show "P i s s'" using step [of "loop act ready"] ih by blast
  qed
  then show ?thesis by simp
qed

lemma fev_body_cases:
  assumes "fev_body act ready loop i s = Some s'"
  obtains "length (fevents (disp s)) \<le> i" "s' = s"
    | "i < length (fevents (disp s))" "loop (Suc i) s = Some s'"
        "fe_deleted (fevents (disp s) ! i) \<or> fe_fd (fevents (disp s) ! i) \<notin> ready (fe_event (fevents (disp s) ! i))"
    | u where "i < length (fevents (disp s))" "loop (Suc i) u = Some s'" "\<not> fe_deleted (fevents (disp s) ! i)"
        "fe_fd (fevents (disp s) ! i) \<in> ready (fe_event (fevents (disp s) ! i))"
        "call_back act (fe_cb (fevents (disp s) ! i)) (fe_event (fevents (disp s) ! i)) s = Some u"
proof (cases "i < length (fevents (disp s))")
  case False
  then have "length (fevents (disp s)) \<le> i" "s' = s" using assms by (simp_all add: fev_body_def)
  then show ?thesis by (rule that(1))
next
  case i: True
  let ?e = "fevents (disp s) ! i"
  show ?thesis
  proof (cases "\<not> fe_deleted ?e \<and> fe_fd ?e \<in> ready (fe_event ?e)")
    case True
    have "Option.bind (call_back act (fe_cb ?e) (fe_event ?e) s) (loop (Suc i)) = Some s'"
      using assms unfolding fev_body_def if_P [OF i] if_P [OF True] .
    then obtain u where "call_back act (fe_cb ?e) (fe_event ?e) s = Some u" "loop (Suc i) u = Some s'" by (rule bind_cases)
    then show ?thesis using that(3) [OF i] True by blast
  next
    case False
    have "loop (Suc i) s = Some s'" using assms unfolding fev_body_def if_P [OF i] if_not_P [OF False] .
    then show ?thesis using that(2) [OF i] False by blast
  qed
qed

lemma call_result:
  assumes "call_back act cb ev s = Some s'"
  shows "do_ops (fst (act cb ev (world s))) (disp s) = Some (disp s')"
    "history s' = history s @ Called cb ev (time (disp s)) # map Did (fst (act cb ev (world s)))"
  using assms by (auto simp: call_back_def split: prod.splits elim!: bind_cases)

lemma entry_registered:
  "i < length (fevents d) \<Longrightarrow> \<not> fe_deleted (fevents d ! i) \<Longrightarrow> registration_of (fevents d ! i) \<in> set (registrations d)"
  by (force simp: registrations_def)

definition allowed :: "(dispatch_event \<Rightarrow> int set) \<Rightarrow> 'w running \<Rightarrow> 'w running \<Rightarrow> bool" where
  "allowed ready s s' \<longleftrightarrow> locked (disp s') = locked (disp s) \<and>
     (\<exists>h. history s' = history s @ h \<and> replay ready (registrations (disp s)) h = Some (registrations (disp s')))"

lemma fev_loop_allowed:
  assumes "fev_loop act ready i s = Some s'"
  shows "allowed ready s s'"
  using assms
proof (rule fev_loop_induct)
  fix loop :: "nat \<Rightarrow> 'a running \<Rightarrow> 'a running option" and i s s'
  assume ih: "\<And>i s s'. loop i s = Some s' \<Longrightarrow> allowed ready s s'" and b: "fev_body act ready loop i s = Some s'"
  from b show "allowed ready s s'"
  proof (cases rule: fev_body_cases)
    case 1
    then show ?thesis by (simp add: allowed_def)
  next
    case 2
    then show ?thesis using ih by blast
  next
    case (3 u)
    let ?e = "fevents (disp s) ! i" and ?ps = "fst (act (fe_cb (fevents (disp s) ! i)) (fe_event (fevents (disp s) ! i)) (world s))"
    note c = call_result [OF 3(5)]
    note r = do_ops_registry [OF c(1)]
    have "list_ex (\<lambda>(e, fd, c). e = fe_event ?e \<and> c = fe_cb ?e \<and> fd \<in> ready (fe_event ?e)) (registrations (disp s))"
      using entry_registered [OF 3(1,3)] 3(4) by (force simp: list_ex_iff registration_of_def)
    then have "replay ready (registrations (disp s)) (Called (fe_cb ?e) (fe_event ?e) (time (disp s)) # map Did ?ps) =
        Some (registrations (disp u))"
      using r by (simp add: replay_did)
    moreover obtain h where "history s' = history u @ h" "replay ready (registrations (disp u)) h = Some (registrations (disp s'))"
      "locked (disp s') = locked (disp u)"
      using ih [OF 3(2)] by (auto simp: allowed_def)
    ultimately have "replay ready (registrations (disp s))
        ((Called (fe_cb ?e) (fe_event ?e) (time (disp s)) # map Did ?ps) @ h) = Some (registrations (disp s'))"
      "history s' = history s @ ((Called (fe_cb ?e) (fe_event ?e) (time (disp s)) # map Did ?ps) @ h)"
      "locked (disp s') = locked (disp s)"
      unfolding replay_append using c(2) r by simp_all
    then show ?thesis unfolding allowed_def by blast
  qed
qed

text \<open>A ready entry is called, or one of the callbacks called before removed it.\<close>

definition served :: "(dispatch_event \<Rightarrow> int set) \<Rightarrow> nat \<Rightarrow> 'w running \<Rightarrow> 'w running \<Rightarrow> bool" where
  "served ready i s s' \<longleftrightarrow> (\<exists>h. history s' = history s @ h \<and>
     (\<forall>j. i \<le> j \<longrightarrow> j < length (fevents (disp s)) \<longrightarrow>
       (let e = fevents (disp s) ! j in \<not> fe_deleted e \<longrightarrow> fe_fd e \<in> ready (fe_event e) \<longrightarrow>
         (\<exists>t. Called (fe_cb e) (fe_event e) t \<in> set h) \<or>
         (\<exists>ev. Did (Remove_event (fe_cb e) ev) \<in> set h \<and> hits (fe_cb e) ev (registration_of e)))))"

lemma fev_loop_served:
  assumes "fev_loop act ready i s = Some s'"
  shows "locked (disp s) > 0 \<longrightarrow> served ready i s s'"
  using assms
proof (rule fev_loop_induct, intro impI)
  fix loop :: "nat \<Rightarrow> 'a running \<Rightarrow> 'a running option" and i s s'
  assume ih: "\<And>i s s'. loop i s = Some s' \<Longrightarrow> locked (disp s) > 0 \<longrightarrow> served ready i s s'"
    and b: "fev_body act ready loop i s = Some s'" and l: "locked (disp s) > 0"
  from b show "served ready i s s'"
  proof (cases rule: fev_body_cases)
    case 1
    then show ?thesis by (simp add: served_def)
  next
    case 2
    then obtain h where h: "history s' = history s @ h"
      "\<forall>j. Suc i \<le> j \<longrightarrow> j < length (fevents (disp s)) \<longrightarrow>
       (let e = fevents (disp s) ! j in \<not> fe_deleted e \<longrightarrow> fe_fd e \<in> ready (fe_event e) \<longrightarrow>
         (\<exists>t. Called (fe_cb e) (fe_event e) t \<in> set h) \<or>
         (\<exists>ev. Did (Remove_event (fe_cb e) ev) \<in> set h \<and> hits (fe_cb e) ev (registration_of e)))"
      using ih l unfolding served_def by blast
    have "i \<le> j \<Longrightarrow> i = j \<or> Suc i \<le> j" for j by linarith
    then show ?thesis unfolding served_def using h 2(3) by (intro exI [of _ h]) (auto simp: Let_def)
  next
    case (3 u)
    let ?e = "fevents (disp s) ! i" and ?ps = "fst (act (fe_cb (fevents (disp s) ! i)) (fe_event (fevents (disp s) ! i)) (world s))"
    note c = call_result [OF 3(5)]
    have lu: "locked (disp u) > 0" using do_ops_registry [OF c(1)] l by simp
    obtain h where h: "history s' = history u @ h"
      "\<And>j. Suc i \<le> j \<Longrightarrow> j < length (fevents (disp u)) \<Longrightarrow> \<not> fe_deleted (fevents (disp u) ! j) \<Longrightarrow>
         fe_fd (fevents (disp u) ! j) \<in> ready (fe_event (fevents (disp u) ! j)) \<Longrightarrow>
         (\<exists>t. Called (fe_cb (fevents (disp u) ! j)) (fe_event (fevents (disp u) ! j)) t \<in> set h) \<or>
         (\<exists>ev. Did (Remove_event (fe_cb (fevents (disp u) ! j)) ev) \<in> set h \<and>
           hits (fe_cb (fevents (disp u) ! j)) ev (registration_of (fevents (disp u) ! j)))"
      using ih [OF 3(2)] lu unfolding served_def Let_def by blast
    let ?h = "(Called (fe_cb ?e) (fe_event ?e) (time (disp s)) # map Did ?ps) @ h"
    have "history s' = history s @ ?h" using c(2) h(1) by simp
    moreover have "(\<exists>t. Called (fe_cb e) (fe_event e) t \<in> set ?h) \<or>
        (\<exists>ev. Did (Remove_event (fe_cb e) ev) \<in> set ?h \<and> hits (fe_cb e) ev (registration_of e))"
      if j: "i \<le> j" "j < length (fevents (disp s))" and e: "e = fevents (disp s) ! j" "\<not> fe_deleted e" "fe_fd e \<in> ready (fe_event e)" for j e
    proof (cases "j = i")
      case True
      then have "Called (fe_cb e) (fe_event e) (time (disp s)) \<in> set ?h" using e(1) by simp
      then show ?thesis by blast
    next
      case False
      let ?f = "fevents (disp u) ! j"
      have k: "j < length (fevents (disp u))" "keeps_entry ?ps e ?f" using do_ops_entry [OF c(1) l j(2)] e(1) by simp_all
      then have f: "fe_cb ?f = fe_cb e" "fe_event ?f = fe_event e" "fe_fd ?f = fe_fd e" "registration_of ?f = registration_of e"
        by (simp_all add: keeps_entry_def registration_of_def)
      show ?thesis
      proof (cases "fe_deleted ?f")
        case True
        then obtain ev where "Remove_event (fe_cb e) ev \<in> set ?ps" "hits (fe_cb e) ev (registration_of e)"
          using k(2) e(2) by (auto simp: keeps_entry_def)
        then show ?thesis by auto
      next
        case nd: False
        have "Suc i \<le> j" using False j(1) by linarith
        from h(2) [OF this k(1) nd] show ?thesis unfolding f using e(3) by auto
      qed
    qed
    ultimately show ?thesis unfolding served_def Let_def by blast
  qed
qed

section \<open>What the walk promises\<close>

definition unmarked :: "dispatcher \<Rightarrow> bool" where
  "unmarked d \<longleftrightarrow> locked d = 0 \<and> (\<forall>e \<in> set (fevents d). \<not> fe_deleted e)"

lemma registrations_unmarked: "unmarked d \<Longrightarrow> registrations d = map registration_of (fevents d)"
  by (simp add: unmarked_def registrations_def)

text \<open>A list that was marked was also modified, so it is cleaned when it is unlocked.\<close>

definition tidy :: "dispatcher \<Rightarrow> bool" where
  "tidy d \<longleftrightarrow> modified d \<or> (\<forall>e \<in> set (fevents d). \<not> fe_deleted e)"

lemma do_op_tidy: "do_op p d = Some d' \<Longrightarrow> tidy d \<Longrightarrow> tidy d'"
proof (cases p)
  case (Tm_event cb tm)
  assume d: "do_op p d = Some d'" "tidy d"
  then have "d' = (update_tevents d)\<lparr>tevents := tm_insert \<lparr>te_delta = sint tm, te_cb = cb\<rparr> (tevents (update_tevents d))\<rparr>"
    using Tm_event by (simp add: tm_event_def Let_def split: if_splits)
  then show ?thesis using d(2) by (simp add: tidy_def) (simp add: update_tevents_def Let_def split: list.splits)
next
  case (Remove_event cb ev)
  assume d: "do_op p d = Some d'" "tidy d"
  have "tidy (e\<lparr>tevents := x\<rparr>) = tidy e" "tidy (update_fevents e)" for e x by (simp_all add: tidy_def)
  then show ?thesis using d Remove_event by (auto simp: remove_def Let_def split: if_splits)
qed (auto simp: tidy_def rd_event_def wr_event_def ex_event_def add_fevent_def)

lemma do_ops_tidy: "do_ops ps d = Some d' \<Longrightarrow> tidy d \<Longrightarrow> tidy d'"
proof (induction ps arbitrary: d)
  case (Cons p ps)
  then obtain e where e: "do_op p d = Some e" "do_ops ps e = Some d'" by (cases "do_op p d") auto
  show ?case by (rule Cons.IH [OF e(2) do_op_tidy [OF e(1) Cons.prems(2)]])
qed simp

lemma fev_loop_tidy:
  assumes "fev_loop act ready i s = Some s'"
  shows "tidy (disp s) \<longrightarrow> tidy (disp s')"
  using assms
proof (rule fev_loop_induct, intro impI)
  fix loop :: "nat \<Rightarrow> 'a running \<Rightarrow> 'a running option" and i s s'
  assume ih: "\<And>i s s'. loop i s = Some s' \<Longrightarrow> tidy (disp s) \<longrightarrow> tidy (disp s')"
    and b: "fev_body act ready loop i s = Some s'" and t: "tidy (disp s)"
  from b show "tidy (disp s')"
  proof (cases rule: fev_body_cases)
    case 2
    then show ?thesis using ih t by blast
  next
    case (3 u)
    show ?thesis using ih [OF 3(2)] do_ops_tidy [OF call_result(1) [OF 3(5)] t] by blast
  qed (use t in simp)
qed

lemma handle_fevents_runs:
  assumes h: "handle_fevents act ready s = Some s'" and u: "unmarked (disp s)"
  shows "\<exists>t. fev_loop act ready 0 (s\<lparr>disp := lock (disp s)\<rparr>) = Some t \<and> history s' = history t \<and>
    registrations (disp s') = registrations (disp t) \<and> unmarked (disp s')"
proof -
  obtain t d where t: "fev_loop act ready 0 (s\<lparr>disp := lock (disp s)\<rparr>) = Some t" "unlock (disp t) = Some d" "s' = t\<lparr>disp := d\<rparr>"
    using h by (auto simp: handle_fevents_def elim!: bind_cases)
  have l: "locked (lock (disp s)) = 1" "tidy (lock (disp s))"
    using u by (simp_all add: lock_def unmarked_def tidy_def Let_def)
  have "locked (disp t) = 1" using fev_loop_allowed [OF t(1)] l(1) by (simp add: allowed_def)
  moreover have "tidy (disp t)" using fev_loop_tidy [OF t(1)] l(2) by simp
  ultimately have "registrations d = registrations (disp t) \<and> unmarked d"
    using t(2) by (auto simp: unlock_def Let_def registrations_def unmarked_def tidy_def split: if_splits)
  then show ?thesis using t by simp
qed

lemma registrations_lock [simp]: "registrations (lock d) = registrations d" "fevents (lock d) = fevents d" "locked (lock d) = locked d + 1"
  by (simp_all add: registrations_def lock_def Let_def)

text \<open>C17: Whatever the callbacks of the ready descriptors register and remove while they are called, of
  themselves or of others: every callback that is called is registered at that moment, for a descriptor
  that was reported ready, so none is called once it has been removed; and afterwards the list holds
  exactly what is registered.\<close>

theorem removed_is_not_called:
  assumes "handle_fevents act ready s = Some s'" and "unmarked (disp s)"
  shows "\<exists>h. history s' = history s @ h \<and>
     replay ready (map registration_of (fevents (disp s))) h = Some (map registration_of (fevents (disp s'))) \<and> unmarked (disp s')"
proof -
  obtain t where t: "fev_loop act ready 0 (s\<lparr>disp := lock (disp s)\<rparr>) = Some t" "history s' = history t"
    "registrations (disp s') = registrations (disp t)" "unmarked (disp s')"
    using handle_fevents_runs [OF assms] by blast
  show ?thesis using fev_loop_allowed [OF t(1)] t(2-4) registrations_unmarked assms(2)
    by (auto simp: allowed_def)
qed

text \<open>C34: Every callback that is registered for a ready descriptor is called in that pass, unless one that
  was called removed it.\<close>

theorem ready_is_called:
  assumes "handle_fevents act ready s = Some s'" and "unmarked (disp s)"
    and e: "e \<in> set (fevents (disp s))" "fe_fd e \<in> ready (fe_event e)"
  shows "\<exists>h. history s' = history s @ h \<and> ((\<exists>t. Called (fe_cb e) (fe_event e) t \<in> set h) \<or>
     (\<exists>ev. Did (Remove_event (fe_cb e) ev) \<in> set h \<and> (ev = All_events \<or> ev = fe_event e)))"
proof -
  obtain t where t: "fev_loop act ready 0 (s\<lparr>disp := lock (disp s)\<rparr>) = Some t" "history s' = history t"
    using handle_fevents_runs [OF assms(1,2)] by blast
  have "served ready 0 (s\<lparr>disp := lock (disp s)\<rparr>) t" using fev_loop_served [OF t(1)] by simp
  moreover obtain j where "j < length (fevents (disp s))" "e = fevents (disp s) ! j" using e(1) by (auto simp: in_set_conv_nth)
  moreover have "\<not> fe_deleted e" using assms(2) e(1) by (simp add: unmarked_def)
  ultimately obtain h where "history t = history s @ h" "(\<exists>t. Called (fe_cb e) (fe_event e) t \<in> set h) \<or>
      (\<exists>ev. Did (Remove_event (fe_cb e) ev) \<in> set h \<and> hits (fe_cb e) ev (registration_of e))"
    using e(2) by (auto simp: served_def Let_def)
  then show ?thesis using t(2) by (auto simp: hits_def registration_of_def)
qed

section \<open>Witnesses\<close>

text \<open>The first of two callbacks whose descriptors are ready removes the other.\<close>

definition sample_owner :: "unit owner" where
  "sample_owner cb ev w = (if cb = 1 then [Remove_event 2 All_events, Rd_event 3 7] else [], w)"

definition sample_ready :: "dispatch_event \<Rightarrow> int set" where
  "sample_ready ev = (if ev = Read then {5, 6} else {})"

definition sample_waiting :: dispatcher where
  "sample_waiting = (new_dispatcher 0)\<lparr>fevents := [\<lparr>fe_event = Read, fe_fd = 5, fe_cb = 1, fe_deleted = False\<rparr>,
     \<lparr>fe_event = Read, fe_fd = 6, fe_cb = 2, fe_deleted = False\<rparr>]\<rparr>"

lemma fev_loop_steps:
  "length (fevents (disp s)) \<le> i \<Longrightarrow> fev_loop act ready i s = Some s"
  "i < length (fevents (disp s)) \<Longrightarrow> fe_deleted (fevents (disp s) ! i) \<or> fe_fd (fevents (disp s) ! i) \<notin> ready (fe_event (fevents (disp s) ! i)) \<Longrightarrow>
     fev_loop act ready i s = fev_loop act ready (Suc i) s"
  "i < length (fevents (disp s)) \<Longrightarrow> \<not> fe_deleted (fevents (disp s) ! i) \<Longrightarrow>
     fe_fd (fevents (disp s) ! i) \<in> ready (fe_event (fevents (disp s) ! i)) \<Longrightarrow>
     fev_loop act ready i s = Option.bind (call_back act (fe_cb (fevents (disp s) ! i)) (fe_event (fevents (disp s) ! i)) s)
       (fev_loop act ready (Suc i))"
  by (auto simp: fev_loop.simps [of act ready i s] Let_def)

lemma sample_pass:
  "\<exists>s'. handle_fevents sample_owner sample_ready \<lparr>disp = sample_waiting, world = (), history = []\<rparr> = Some s' \<and>
     history s' = [Called 1 Read 0, Did (Remove_event 2 All_events), Did (Rd_event 3 7)] \<and>
     fevents (disp s') = [\<lparr>fe_event = Read, fe_fd = 5, fe_cb = 1, fe_deleted = False\<rparr>,
       \<lparr>fe_event = Read, fe_fd = 7, fe_cb = 3, fe_deleted = False\<rparr>]"
  by (simp add: handle_fevents_def lock_def sample_waiting_def new_dispatcher_def fev_loop_steps call_back_def sample_owner_def
      sample_ready_def remove_def tm_remove.simps remove_fevents_def islocked_def rd_event_def add_fevent_def update_fevents_def
      Let_def unlock_def)

lemma sample_unmarked: "unmarked sample_waiting"
  by (simp add: unmarked_def sample_waiting_def new_dispatcher_def)

theorem removed_is_not_called_witness:
  "\<exists>s' h. handle_fevents sample_owner sample_ready \<lparr>disp = sample_waiting, world = (), history = []\<rparr> = Some s' \<and>
     history s' = h \<and> replay sample_ready [(Read, 5, 1), (Read, 6, 2)] h = Some [(Read, 5, 1), (Read, 7, 3)] \<and>
     h = [Called 1 Read 0, Did (Remove_event 2 All_events), Did (Rd_event 3 7)]"
proof -
  obtain s' where s': "handle_fevents sample_owner sample_ready \<lparr>disp = sample_waiting, world = (), history = []\<rparr> = Some s'"
    "history s' = [Called 1 Read 0, Did (Remove_event 2 All_events), Did (Rd_event 3 7)]"
    "fevents (disp s') = [\<lparr>fe_event = Read, fe_fd = 5, fe_cb = 1, fe_deleted = False\<rparr>,
       \<lparr>fe_event = Read, fe_fd = 7, fe_cb = 3, fe_deleted = False\<rparr>]" using sample_pass by blast
  have u: "unmarked (disp \<lparr>disp = sample_waiting, world = (), history = []\<rparr>)" using sample_unmarked by simp
  from removed_is_not_called [OF s'(1) u] s' show ?thesis
    by (simp add: sample_waiting_def registration_of_def)
qed

theorem ready_is_called_witness:
  "\<exists>s' t. handle_fevents sample_owner sample_ready \<lparr>disp = sample_waiting, world = (), history = []\<rparr> = Some s' \<and>
     Called 1 Read t \<in> set (history s')"
proof -
  obtain s' where s': "handle_fevents sample_owner sample_ready \<lparr>disp = sample_waiting, world = (), history = []\<rparr> = Some s'"
    "history s' = [Called 1 Read 0, Did (Remove_event 2 All_events), Did (Rd_event 3 7)]" using sample_pass by blast
  let ?e = "\<lparr>fe_event = Read, fe_fd = 5, fe_cb = 1, fe_deleted = False\<rparr>"
  have "unmarked (disp \<lparr>disp = sample_waiting, world = (), history = []\<rparr>)" "?e \<in> set (fevents (disp \<lparr>disp = sample_waiting, world = (), history = []\<rparr>))"
    "fe_fd ?e \<in> sample_ready (fe_event ?e)"
    using sample_unmarked by (simp_all add: sample_waiting_def sample_ready_def)
  from ready_is_called [OF s'(1) this] s' show ?thesis by auto
qed

end
