(* ===== verification/Base64.thy ===== *)
theory Base64
  imports Prelude
begin

unbundle bit_operations_syntax

text \<open>
  Base64 (orb/uni_base64.cc), which UTF-7 is made of. The encoder writes into a block, the decoder reads
  up to a zero octet and hands back the bits that do not make an octet yet. The function that the encoder
  can be given for the end of a line is a null pointer, as in every call of it.
\<close>

section \<open>The alphabet\<close>

definition base64_digit :: "octet \<Rightarrow> octet" where
  "base64_digit character =
     (if character < 26 then character + 65
      else if character < 52 then character + 71
      else if character < 62 then character - 4
      else if character = 62 then 43
      else 47)"

definition uni_isbase64char :: "octet \<Rightarrow> bool \<Rightarrow> bool" where
  "uni_isbase64char c padding \<longleftrightarrow> 65 \<le> c \<and> c \<le> 90 \<or> 97 \<le> c \<and> c \<le> 122 \<or> 48 \<le> c \<and> c \<le> 57 \<or> c = 43 \<or> c = 47 \<or>
     c = 61 \<and> padding"

definition uni_base64sixted :: "octet \<Rightarrow> bool \<Rightarrow> octet" where
  "uni_base64sixted c padding =
     (if 64 < c \<and> c < 91 then c - 65
      else if 96 < c \<and> c < 123 then c - 71
      else if 47 < c \<and> c < 58 then c + 4
      else if c = 43 then 62
      else if c = 47 then 63
      else if c = 61 \<and> padding then 0x40
      else 0x80)"

text \<open>\<open>bits8\<close> is a signed type: the octets from 128 on are below 26.\<close>

definition uni_base64code :: "octet \<Rightarrow> octet" where
  "uni_base64code sixted =
     (if sint sixted < 26 then sixted + 65
      else if sint sixted < 52 then sixted + 71
      else if sint sixted < 62 then sixted - 4
      else if sixted = 62 then 43
      else if sixted = 63 then 47
      else 0)"

definition uni_base64enlen :: "ulong \<Rightarrow> ulong" where
  "uni_base64enlen datasize =
     (let datasize = (if datasize mod 3 \<noteq> 0 then (if (datasize + 1) mod 3 \<noteq> 0 then datasize + 2 else datasize + 1) else datasize);
          RC = datasize * 8 div 6;
          newlines = (RC - 1) div 76 in
      RC + (newlines * 2 + 1))"

definition uni_base64delen :: "ulong \<Rightarrow> ulong" where
  "uni_base64delen stringsize = stringsize * 6 div 8"

section \<open>Encoding\<close>

text \<open>A character goes to the end of the line, or after the line break that is due.\<close>

definition encode_put :: "octet \<Rightarrow> nat \<Rightarrow> octet list \<Rightarrow> (nat \<times> octet list) option" where
  "encode_put x writeCount dest = do {
     (writeCount, dest) \<leftarrow> (if writeCount = 76 then do {
         dest \<leftarrow> mem_write dest writeCount [13];
         dest \<leftarrow> mem_write dest (writeCount + 1) [10];
         Some (0, dest)
       }
       else Some (writeCount, dest));
     dest \<leftarrow> mem_write dest writeCount [x];
     Some (writeCount + 1, dest)
   }"

function encode_loop :: "octet list \<Rightarrow> octet \<Rightarrow> nat \<Rightarrow> nat \<Rightarrow> octet list \<Rightarrow> (octet \<times> nat \<times> nat \<times> octet list) option" where
  "encode_loop [] carry carrybits writeCount dest = Some (carry, carrybits, writeCount, dest)"
| "encode_loop (x # xs) carry carrybits writeCount dest =
     (if carrybits \<noteq> 6 then
        (let (character, carry, carrybits) =
           (if carrybits = 0 then (drop_bit 2 x, x AND 0x03, 2)
            else if carrybits = 2 then (drop_bit 4 x OR push_bit 4 carry, x AND 0x0F, 4)
            else (drop_bit 6 x OR push_bit 2 carry, x AND 0x3F, 6)) in
         do {
           (writeCount, dest) \<leftarrow> encode_put (base64_digit character) writeCount dest;
           encode_loop xs carry carrybits writeCount dest
         })
      else do {
        (writeCount, dest) \<leftarrow> encode_put (base64_digit carry) writeCount dest;
        encode_loop (x # xs) carry 0 writeCount dest
      })"
  by pat_completeness auto

termination
  by (relation "measure (\<lambda>(xs, carry, carrybits, writeCount, dest). 2 * length xs + (if carrybits = 6 then 1 else 0))")
    (auto split: if_splits)

partial_function (option) encode_tail ::
    "bool \<Rightarrow> bool \<Rightarrow> octet \<Rightarrow> nat \<Rightarrow> nat \<Rightarrow> octet list \<Rightarrow> (nat \<times> octet list) option" where
  "encode_tail first padding carry carrybits writeCount dest =
     (if carrybits = 0 then Some (writeCount, dest)
      else if \<not> first \<and> \<not> padding then Some (writeCount, dest)
      else do {
        (writeCount, dest) \<leftarrow>
          encode_put (if first then base64_digit (push_bit (6 - carrybits) carry) else 61) writeCount dest;
        encode_tail False padding carry ((carrybits + 2) mod 8) writeCount dest
      })"

definition uni_base64encode :: "octet list \<Rightarrow> octet list \<Rightarrow> bool \<Rightarrow> octet list option" where
  "uni_base64encode dest data padding = do {
     (carry, carrybits, writeCount, dest) \<leftarrow> encode_loop data 0 0 0 dest;
     (writeCount, dest) \<leftarrow> encode_tail True padding carry carrybits writeCount dest;
     mem_write dest writeCount [0]
   }"

section \<open>Decoding\<close>

record decoding =
  dec_carry :: octet
  dec_bits :: nat
  dec_written :: nat
  dec_equal :: bool
  dec_data :: "octet list"

definition decode_emit :: "octet \<Rightarrow> decoding \<Rightarrow> decoding option" where
  "decode_emit x d = do {
     dest \<leftarrow> mem_write (dec_data d) (dec_written d) [x];
     Some (d\<lparr>dec_data := dest, dec_written := dec_written d + 1\<rparr>)
   }"

definition base64_value :: "octet \<Rightarrow> octet option" where
  "base64_value character =
     (if 64 < character \<and> character < 91 then Some (character - 65)
      else if 96 < character \<and> character < 123 then Some (character - 71)
      else if 47 < character \<and> character < 58 then Some (character + 4)
      else if character = 43 then Some 62
      else if character = 47 then Some 63
      else None)"

definition decode_char :: "octet \<Rightarrow> decoding \<Rightarrow> decoding option" where
  "decode_char character d =
     (case base64_value character of
        None \<Rightarrow> Some (if character = 61 then d\<lparr>dec_equal := True\<rparr> else d)
      | Some v \<Rightarrow>
          (let d = d\<lparr>dec_equal := False\<rparr> in
           if dec_bits d = 0 then Some (d\<lparr>dec_carry := push_bit 2 v, dec_bits := 6\<rparr>)
           else if dec_bits d = 2 then do {
             d \<leftarrow> decode_emit (v OR dec_carry d) d;
             Some (d\<lparr>dec_bits := 0\<rparr>)
           }
           else if dec_bits d = 4 then do {
             d \<leftarrow> decode_emit (dec_carry d OR drop_bit 2 v) d;
             Some (d\<lparr>dec_carry := push_bit 6 v, dec_bits := 2\<rparr>)
           }
           else do {
             d \<leftarrow> decode_emit (dec_carry d OR drop_bit 4 v) d;
             Some (d\<lparr>dec_carry := push_bit 4 v, dec_bits := 4\<rparr>)
           }))"

fun decode_chars :: "octet list \<Rightarrow> decoding \<Rightarrow> decoding option" where
  "decode_chars [] d = None"
| "decode_chars (character # src) d =
     (if character = 0 then Some d
      else do {
        d \<leftarrow> decode_char character d;
        decode_chars src d
      })"

definition uni_base64decode :: "octet list \<Rightarrow> ushort \<Rightarrow> octet list \<Rightarrow> (octet list \<times> nat \<times> ushort) option" where
  "uni_base64decode data carry src = do {
     d \<leftarrow> decode_chars src \<lparr>dec_carry = ucast carry, dec_bits = unat (drop_bit 8 carry AND 0x0F), dec_written = 0,
       dec_equal = False, dec_data = data\<rparr>;
     Some (dec_data d, dec_written d,
       if dec_equal d then 0 else push_bit 8 (word_of_nat (dec_bits d)) OR ucast (dec_carry d))
   }"

section \<open>What the text is\<close>

fun sixtets :: "octet list \<Rightarrow> octet list" where
  "sixtets [] = []"
| "sixtets [a] = [drop_bit 2 a, push_bit 4 (a AND 0x03)]"
| "sixtets [a, b] = [drop_bit 2 a, drop_bit 4 b OR push_bit 4 (a AND 0x03), push_bit 2 (b AND 0x0F)]"
| "sixtets (a # b # c # xs) =
     drop_bit 2 a # (drop_bit 4 b OR push_bit 4 (a AND 0x03)) # (drop_bit 6 c OR push_bit 2 (b AND 0x0F)) # (c AND 0x3F) #
     sixtets xs"

definition base64_text :: "bool \<Rightarrow> octet list \<Rightarrow> octet list" where
  "base64_text padding data = map base64_digit (sixtets data) @ (if padding then replicate ((3 - length data mod 3) mod 3) 61 else [])"

fun puts :: "octet list \<Rightarrow> nat \<Rightarrow> octet list \<Rightarrow> (nat \<times> octet list) option" where
  "puts [] writeCount dest = Some (writeCount, dest)"
| "puts (x # xs) writeCount dest = Option.bind (encode_put x writeCount dest) (\<lambda>(writeCount, dest). puts xs writeCount dest)"

lemma base64_text_step: "base64_text padding (a # b # c # xs) =
    base64_digit (drop_bit 2 a) # base64_digit (drop_bit 4 b OR push_bit 4 (a AND 0x03)) #
    base64_digit (drop_bit 6 c OR push_bit 2 (b AND 0x0F)) # base64_digit (c AND 0x3F) # base64_text padding xs"
proof -
  have "(3 - length (a # b # c # xs) mod 3) mod 3 = (3 - length xs mod 3) mod 3" by (simp add: mod_Suc)
  then show ?thesis by (simp only: base64_text_def sixtets.simps list.map append_Cons)
qed

lemma encode_tail_0: "encode_tail first padding carry 0 writeCount dest = Some (writeCount, dest)"
  by (simp add: encode_tail.simps)

lemma encode_tail_unpadded: "encode_tail False False carry bits writeCount dest = Some (writeCount, dest)"
  by (simp add: encode_tail.simps)

lemma encode_tail_6: "encode_tail False True carry 6 writeCount dest = puts [61] writeCount dest"
  by (subst encode_tail.simps) (simp add: encode_tail_0 case_prod_unfold)

lemma encode_tail_4: "encode_tail False True carry 4 writeCount dest = puts [61, 61] writeCount dest"
  by (subst encode_tail.simps) (simp add: encode_tail_6 case_prod_unfold)

lemma replicate_2: "replicate 2 x = [x, x]"
  by (simp add: numeral_2_eq_2)

lemma encode_tail_first:
  "carrybits = 2 \<or> carrybits = 4 \<or> carrybits = 6 \<Longrightarrow> encode_tail True padding carry carrybits writeCount dest =
     puts (base64_digit (push_bit (6 - carrybits) carry) # (if padding then replicate (3 - carrybits div 2) 61 else [])) writeCount dest"
  by (elim disjE; cases padding; subst encode_tail.simps)
    (simp_all add: encode_tail_0 encode_tail_6 encode_tail_4 encode_tail_unpadded replicate_2 case_prod_unfold)

lemmas encode_tail_steps = encode_tail_0 encode_tail_first

lemma encode_loop_step:
  "encode_loop (a # b # c # xs) carry 0 writeCount dest =
    Option.bind (puts [base64_digit (drop_bit 2 a), base64_digit (drop_bit 4 b OR push_bit 4 (a AND 0x03)),
      base64_digit (drop_bit 6 c OR push_bit 2 (b AND 0x0F))] writeCount dest)
      (\<lambda>(writeCount, dest). encode_loop xs (c AND 0x3F) 6 writeCount dest)"
  by (simp add: Let_def case_prod_unfold Option.bind_assoc)

lemma encode_is_puts:
  "Option.bind (encode_loop data carry 0 writeCount dest) (\<lambda>(carry, carrybits, writeCount, dest).
     encode_tail True padding carry carrybits writeCount dest) = puts (base64_text padding data) writeCount dest"
proof (induction data arbitrary: carry writeCount dest rule: sixtets.induct)
  case (1)
  show ?case by (simp add: encode_tail_steps base64_text_def)
next
  case (2 a)
  show ?case by (simp add: encode_tail_steps replicate_2 base64_text_def Let_def case_prod_unfold Option.bind_assoc)
next
  case (3 a b)
  show ?case by (simp add: encode_tail_steps replicate_2 base64_text_def Let_def case_prod_unfold Option.bind_assoc)
next
  case (4 a b c xs)
  have *: "Option.bind (encode_loop xs (c AND 0x3F) 6 w d) (\<lambda>(carry, carrybits, writeCount, dest).
      encode_tail True padding carry carrybits writeCount dest) = puts (base64_digit (c AND 0x3F) # base64_text padding xs) w d" for w d
  proof (cases xs)
    case Nil
    then show ?thesis by (simp add: encode_tail_steps base64_text_def)
  next
    case (Cons x ys)
    then have "encode_loop xs (c AND 0x3F) 6 w d =
        Option.bind (encode_put (base64_digit (c AND 0x3F)) w d) (\<lambda>(w, d). encode_loop xs (c AND 0x3F) 0 w d)"
      by (simp add: case_prod_unfold)
    then show ?thesis using 4 by (simp add: case_prod_unfold Option.bind_assoc)
  qed
  show ?case unfolding encode_loop_step base64_text_step
    using * by (simp add: case_prod_unfold Option.bind_assoc del: encode_loop.simps)
qed

section \<open>Reading it back\<close>

lemma octet_eqI:
  fixes x y :: octet
  assumes "bit x 0 = bit y 0" "bit x 1 = bit y 1" "bit x 2 = bit y 2" "bit x 3 = bit y 3"
    "bit x 4 = bit y 4" "bit x 5 = bit y 5" "bit x 6 = bit y 6" "bit x 7 = bit y 7"
  shows "x = y"
proof (rule bit_word_eqI)
  fix n assume "n < LENGTH(8)"
  then have "n \<in> {0, 1, 2, 3, 4, 5, 6, 7}" by auto
  then show "bit x n = bit y n" using assms by auto
qed

lemma sixtet_bits:
  fixes a b c :: octet
  shows "push_bit 2 (drop_bit 2 a) OR drop_bit 4 (drop_bit 4 b OR push_bit 4 (a AND 0x03)) = a"
    and "push_bit 4 (drop_bit 4 b OR push_bit 4 (a AND 0x03)) OR drop_bit 2 (drop_bit 6 c OR push_bit 2 (b AND 0x0F)) = b"
    and "(c AND 0x3F) OR push_bit 6 (drop_bit 6 c OR push_bit 2 (b AND 0x0F)) = c"
    and "push_bit 2 (drop_bit 2 a) OR drop_bit 4 (push_bit 4 (a AND 0x03)) = a"
    and "push_bit 4 (drop_bit 4 b OR push_bit 4 (a AND 0x03)) OR drop_bit 2 (push_bit 2 (b AND 0x0F)) = b"
  by (rule octet_eqI; simp add: bit_simps)+

lemma sixtet_less:
  fixes v :: octet
  assumes "\<not> bit v 6" "\<not> bit v 7"
  shows "v < 64"
proof -
  have "v = take_bit 6 v" using assms by (intro octet_eqI) (simp_all add: bit_simps)
  then have "unat v = take_bit 6 (unat v)" by (metis unsigned_take_bit_eq)
  also have "\<dots> < 64" by (simp add: take_bit_eq_mod)
  finally show ?thesis by (simp add: word_less_nat_alt)
qed

lemma octet_high_bits: "8 \<le> n \<Longrightarrow> \<not> bit (a :: octet) n"
  using bit_imp_le_length [of a n] by auto

lemma sixtets_bits: "v \<in> set (sixtets xs) \<Longrightarrow> \<not> bit v 6 \<and> \<not> bit v 7"
  by (induction xs rule: sixtets.induct) (auto simp: bit_simps octet_high_bits)

lemma sixtets_small: "v \<in> set (sixtets xs) \<Longrightarrow> v < 64"
  using sixtets_bits sixtet_less by blast

text \<open>What the decoder does with a digit, without its block.\<close>

definition absorb :: "octet \<Rightarrow> nat \<times> octet \<times> octet list \<Rightarrow> nat \<times> octet \<times> octet list" where
  "absorb v s =
     (case s of (bits, c, out) \<Rightarrow>
        if bits = 0 then (6, push_bit 2 v, out)
        else if bits = 2 then (0, c, out @ [v OR c])
        else if bits = 4 then (2, push_bit 6 v, out @ [c OR drop_bit 2 v])
        else (4, push_bit 4 v, out @ [c OR drop_bit 4 v]))"

lemma absorb_cases [simp]:
  "absorb v (0, c, out) = (6, push_bit 2 v, out)"
  "absorb v (2, c, out) = (0, c, out @ [v OR c])"
  "absorb v (4, c, out) = (2, push_bit 6 v, out @ [c OR drop_bit 2 v])"
  "absorb v (6, c, out) = (4, push_bit 4 v, out @ [c OR drop_bit 4 v])"
  by (simp_all add: absorb_def)

lemma absorb_sixtets: "\<exists>b c'. fold absorb (sixtets data) (0, k, out) = (b, c', out @ data)"
proof (induction data arbitrary: k out rule: sixtets.induct)
  case (4 a b c xs)
  have "fold absorb (sixtets (a # b # c # xs)) (0, d, out) =
      fold absorb (sixtets xs) (0, push_bit 6 (drop_bit 6 c OR push_bit 2 (b AND 0x0F)), out @ [a, b, c])" for d
    unfolding sixtets.simps fold_Cons o_apply absorb_cases sixtet_bits append.assoc append_Cons append_Nil ..
  moreover have "out @ a # b # c # xs = (out @ [a, b, c]) @ xs" by simp
  ultimately show ?case using 4 by presburger
next
  case (2 a)
  show ?case unfolding sixtets.simps fold_Cons o_apply absorb_cases sixtet_bits by simp
next
  case (3 a b)
  show ?case unfolding sixtets.simps fold_Cons o_apply absorb_cases sixtet_bits by simp
qed simp

lemma sixtet_all:
  assumes "list_all (\<lambda>n. P (word_of_nat n)) [0..<64]" and "v < (64 :: octet)"
  shows "P v"
proof -
  have "unat v \<in> set [0..<64]" using assms(2) by (simp add: word_less_nat_alt)
  then have "P (word_of_nat (unat v))" using assms(1) by (simp only: list_all_iff)
  then show ?thesis by simp
qed

lemma base64_value_digit: "v < 64 \<Longrightarrow> base64_value (base64_digit v) = Some v"
  by (rule sixtet_all [where P = "\<lambda>v. base64_value (base64_digit v) = Some v"]) (code_simp, simp)

lemma base64_digit_char: "v < 64 \<Longrightarrow> base64_digit v \<noteq> 0 \<and> base64_digit v \<noteq> 61 \<and> uni_isbase64char (base64_digit v) padding"
proof -
  assume "v < 64"
  then have "base64_digit v \<noteq> 0 \<and> base64_digit v \<noteq> 61 \<and> uni_isbase64char (base64_digit v) False"
    by (intro sixtet_all [where P = "\<lambda>v. base64_digit v \<noteq> 0 \<and> base64_digit v \<noteq> 61 \<and> uni_isbase64char (base64_digit v) False"])
      (code_simp, simp)
  then show ?thesis by (auto simp: uni_isbase64char_def)
qed

definition view :: "decoding \<Rightarrow> nat \<times> octet \<times> octet list" where
  "view d = (dec_bits d, dec_carry d, take (dec_written d) (dec_data d))"

lemma decode_emit_ok:
  "dec_written d < length (dec_data d) \<Longrightarrow> \<exists>m. decode_emit x d = Some (d\<lparr>dec_data := m, dec_written := dec_written d + 1\<rparr>) \<and>
     length m = length (dec_data d) \<and> take (dec_written d + 1) m = take (dec_written d) (dec_data d) @ [x]"
  by (intro exI [of _ "take (dec_written d) (dec_data d) @ [x] @ drop (Suc (dec_written d)) (dec_data d)"])
    (simp add: decode_emit_def mem_write_ok)

lemma decode_char_digit:
  assumes "v < 64" "dec_written d < length (dec_data d)"
  shows "\<exists>d'. decode_char (base64_digit v) d = Some d' \<and> view d' = absorb v (view d) \<and> \<not> dec_equal d' \<and>
     length (dec_data d') = length (dec_data d) \<and> dec_written d' \<le> Suc (dec_written d)"
proof -
  obtain m where m: "\<And>x. decode_emit x (d\<lparr>dec_equal := False\<rparr>) = Some (d\<lparr>dec_equal := False, dec_data := m x, dec_written := dec_written d + 1\<rparr>)"
    "\<And>x. length (m x) = length (dec_data d)" "\<And>x. take (dec_written d + 1) (m x) = take (dec_written d) (dec_data d) @ [x]"
    using decode_emit_ok [of "d\<lparr>dec_equal := False\<rparr>"] assms(2) by simp metis
  show ?thesis
    by (auto simp: decode_char_def base64_value_digit assms(1) Let_def m view_def absorb_def simp del: One_nat_def)
qed

lemma decode_digits:
  "\<forall>v \<in> set vs. v < 64 \<Longrightarrow> dec_written d + length vs \<le> length (dec_data d) \<Longrightarrow>
   \<exists>d'. decode_chars (map base64_digit vs @ r) d = decode_chars r d' \<and> view d' = fold absorb vs (view d) \<and>
     (dec_equal d' \<longrightarrow> vs = [] \<and> dec_equal d) \<and> length (dec_data d') = length (dec_data d) \<and>
     dec_written d' \<le> dec_written d + length vs"
proof (induction vs arbitrary: d)
  case (Cons v vs)
  obtain d1 where d1: "decode_char (base64_digit v) d = Some d1" "view d1 = absorb v (view d)" "\<not> dec_equal d1"
    "length (dec_data d1) = length (dec_data d)" "dec_written d1 \<le> Suc (dec_written d)"
    using decode_char_digit [of v d] Cons.prems by auto
  obtain d2 where "decode_chars (map base64_digit vs @ r) d1 = decode_chars r d2" "view d2 = fold absorb vs (view d1)" "\<not> dec_equal d2"
    "length (dec_data d2) = length (dec_data d1)" "dec_written d2 \<le> dec_written d1 + length vs"
    using Cons.IH [of d1] Cons.prems d1 by auto
  then show ?case using d1 Cons.prems base64_digit_char [of v] by (intro exI [of _ d2]) auto
qed auto

lemma decode_pads:
  "decode_chars (replicate k 61 @ r) d = decode_chars r (if k = 0 then d else d\<lparr>dec_equal := True\<rparr>)"
  by (induction k arbitrary: d) (auto simp: decode_char_def base64_value_def)

definition pack_carry :: "nat \<Rightarrow> octet \<Rightarrow> ushort" where
  "pack_carry bits c = push_bit 8 (word_of_nat bits) OR ucast c"

lemma pack_carry:
  assumes "bits \<in> {0, 2, 4, 6}"
  shows "ucast (pack_carry bits c) = c" "unat (drop_bit 8 (pack_carry bits c) AND 0x0F) = bits"
proof -
  show "ucast (pack_carry bits c) = c"
    by (rule bit_word_eqI) (simp add: pack_carry_def bit_simps)
  have m: "(0x0F :: ushort) = mask 4" by (simp add: mask_eq_exp_minus_1)
  have "drop_bit 8 (pack_carry bits c) AND 0x0F = (word_of_nat bits AND 0x0F :: ushort)"
    unfolding m by (rule bit_word_eqI) (auto simp: pack_carry_def bit_simps octet_high_bits)
  also have "\<dots> = word_of_nat bits" using assms by auto
  finally show "unat (drop_bit 8 (pack_carry bits c) AND 0x0F) = bits" using assms by auto
qed

lemma absorb_bits: "fst s \<in> {0, 2, 4, 6} \<Longrightarrow> fst (fold absorb vs s) \<in> {0, 2, 4, 6}"
  by (induction vs arbitrary: s) (auto simp: absorb_def split: prod.splits)

lemma absorb_out_step: "absorb v (b, c, out @ out') = (case absorb v (b, c, out') of (b', c', out') \<Rightarrow> (b', c', out @ out'))"
  by (simp add: absorb_def)

lemma absorb_out: "fold absorb vs (b, c, out) = (case fold absorb vs (b, c, []) of (b', c', out') \<Rightarrow> (b', c', out @ out'))"
  by (induction vs rule: rev_induct) (simp_all add: absorb_out_step split: prod.splits)

text \<open>A text in pieces, each decoded with the carry of the one before it.\<close>

fun decode_pieces :: "ushort \<Rightarrow> octet list list \<Rightarrow> octet list option" where
  "decode_pieces carry [] = Some []"
| "decode_pieces carry (p # ps) = do {
     (data, n, carry) \<leftarrow> uni_base64decode (replicate (length p) 0) carry (p @ [0]);
     out \<leftarrow> decode_pieces carry ps;
     Some (take n data @ out)
   }"

lemma decode_piece:
  assumes "\<forall>v \<in> set vs. v < 64" "b \<in> {0, 2, 4, 6}" "fold absorb vs (b, c, []) = (b', c', out)" "length vs \<le> length data"
  shows "\<exists>data'. uni_base64decode data (pack_carry b c) (map base64_digit vs @ replicate k 61 @ [0]) =
     Some (data', length out, if k = 0 then pack_carry b' c' else 0) \<and> take (length out) data' = out \<and> length data' = length data"
proof -
  let ?d = "\<lparr>dec_carry = c, dec_bits = b, dec_written = 0, dec_equal = False, dec_data = data\<rparr>"
  have v: "view ?d = (b, c, [])" by (simp add: view_def)
  obtain d where d: "decode_chars (map base64_digit vs @ replicate k 61 @ [0]) ?d = decode_chars (replicate k 61 @ [0]) d"
    "view d = (b', c', out)" "\<not> dec_equal d" "length (dec_data d) = length data" "dec_written d \<le> length vs"
    using decode_digits [OF assms(1), of ?d "replicate k 61 @ [0]"] assms(3,4) unfolding v by auto
  then have "dec_written d = length out" using assms(4) by (auto simp: view_def)
  then show ?thesis using d
    by (auto simp: uni_base64decode_def pack_carry [OF assms(2)] decode_pads view_def) (simp add: pack_carry_def)
qed

lemma decode_pieces_text:
  "concat ps = map base64_digit vs @ replicate k 61 \<Longrightarrow> \<forall>v \<in> set vs. v < 64 \<Longrightarrow> b \<in> {0, 2, 4, 6} \<Longrightarrow>
   decode_pieces (pack_carry b c) ps = Some (snd (snd (fold absorb vs (b, c, []))))"
proof (induction ps arbitrary: vs k b c)
  case Nil
  then show ?case by simp
next
  case (Cons p ps)
  have "p @ concat ps = map base64_digit vs @ replicate k 61" using Cons.prems by simp
  then consider (digits) us where "map base64_digit vs = p @ us" "concat ps = us @ replicate k 61"
    | (pads) us where "p = map base64_digit vs @ us" "replicate k 61 = us @ concat ps"
    by (metis append_eq_append_conv2 [of p "concat ps" "map base64_digit vs" "replicate k 61"])
  then show ?case
  proof cases
    case digits
    then obtain v1 v2 where vs: "vs = v1 @ v2" "p = map base64_digit v1" "us = map base64_digit v2"
      by (auto simp: map_eq_append_conv)
    obtain b1 c1 o1 where f: "fold absorb v1 (b, c, []) = (b1, c1, o1)" by (cases "fold absorb v1 (b, c, [])")
    obtain data where d: "uni_base64decode (replicate (length v1) 0) (pack_carry b c) (p @ [0]) = Some (data, length o1, pack_carry b1 c1)"
      "take (length o1) data = o1"
      using decode_piece [OF _ Cons.prems(3) f, of "replicate (length v1) 0" 0] Cons.prems(2) vs by auto
    have b1: "b1 \<in> {0, 2, 4, 6}" using absorb_bits [of "(b, c, [])" v1] Cons.prems(3) f by simp
    have "decode_pieces (pack_carry b1 c1) ps = Some (snd (snd (fold absorb v2 (b1, c1, []))))"
      using Cons.IH [of v2 k b1 c1] digits vs Cons.prems(2) b1 by auto
    then show ?thesis using d vs f absorb_out [of v2 b1 c1 o1] by (auto split: prod.splits)
  next
    case pads
    then obtain j i where ji: "us = replicate j 61" "concat ps = replicate i 61"
      by (metis append_eq_conv_conj drop_replicate take_replicate)
    obtain b1 c1 o1 where f: "fold absorb vs (b, c, []) = (b1, c1, o1)" by (cases "fold absorb vs (b, c, [])")
    obtain data where d: "uni_base64decode (replicate (length vs + j) 0) (pack_carry b c) (p @ [0]) =
        Some (data, length o1, if j = 0 then pack_carry b1 c1 else 0)" "take (length o1) data = o1"
      using decode_piece [OF Cons.prems(2,3) f, of "replicate (length vs + j) 0" j] pads(1) ji by auto
    have b1: "b1 \<in> {0, 2, 4, 6}" using absorb_bits [of "(b, c, [])" vs] Cons.prems(3) f by simp
    have z: "pack_carry 0 0 = 0" by (simp add: pack_carry_def)
    have "decode_pieces (if j = 0 then pack_carry b1 c1 else 0) ps = Some []"
      using Cons.IH [of "[]" i b1 c1] Cons.IH [of "[]" i 0 0] ji(2) b1 by (simp add: z)
    then show ?thesis using d pads(1) ji(1) f by (cases "j = 0") simp_all
  qed
qed

lemma puts_short:
  "writeCount + length xs \<le> 76 \<Longrightarrow> writeCount + length xs \<le> length dest \<Longrightarrow>
   puts xs writeCount dest = Some (writeCount + length xs, take writeCount dest @ xs @ drop (writeCount + length xs) dest)"
proof (induction xs arbitrary: writeCount dest)
  case (Cons x xs)
  have "encode_put x writeCount dest = Some (writeCount + 1, take writeCount dest @ [x] @ drop (Suc writeCount) dest)"
    using Cons.prems by (simp add: encode_put_def mem_write_ok)
  moreover have "puts xs (Suc writeCount) (take writeCount dest @ [x] @ drop (Suc writeCount) dest) =
      Some (Suc writeCount + length xs, take (Suc writeCount) (take writeCount dest @ [x] @ drop (Suc writeCount) dest) @ xs @
        drop (Suc writeCount + length xs) (take writeCount dest @ [x] @ drop (Suc writeCount) dest))"
    using Cons.prems by (intro Cons.IH) auto
  ultimately show ?case using Cons.prems by (simp add: min_def add.commute)
qed simp

lemma puts_append: "puts (xs @ ys) writeCount dest = Option.bind (puts xs writeCount dest) (\<lambda>(writeCount, dest). puts ys writeCount dest)"
  by (induction xs arbitrary: writeCount dest) (simp_all add: Option.bind_assoc case_prod_unfold)

lemma puts_break:
  assumes "78 \<le> length dest" "ys \<noteq> []"
  shows "\<exists>m. length m = length dest \<and> puts ys 76 dest = puts ys 0 m"
  using assms by (cases ys) (auto simp: encode_put_def mem_write_ok case_prod_unfold
      intro!: exI [of _ "take 76 dest @ [13, 10] @ drop 78 dest"])

lemma puts_lines:
  "length xs = 76 * k \<Longrightarrow> k > 0 \<Longrightarrow> 78 \<le> length dest \<Longrightarrow> \<exists>m. length m = length dest \<and> puts xs 0 dest = Some (76, m)"
proof (induction k arbitrary: xs dest)
  case (Suc k)
  let ?l = "take 76 xs" and ?r = "drop 76 xs"
  have l: "puts ?l 0 dest = Some (76, ?l @ drop 76 dest)" using puts_short [of 0 ?l dest] Suc.prems by (simp add: min_def)
  show ?case
  proof (cases "k = 0")
    case True
    then show ?thesis using l Suc.prems by simp
  next
    case False
    have d: "78 \<le> length (?l @ drop 76 dest)" "length (?l @ drop 76 dest) = length dest" using Suc.prems by auto
    have "?r \<noteq> []" using Suc.prems False by auto
    from puts_break [OF d(1) this] obtain m where m: "length m = length dest" "puts ?r 76 (?l @ drop 76 dest) = puts ?r 0 m"
      using d(2) by auto
    obtain m' where "length m' = length dest" "puts ?r 0 m = Some (76, m')"
      using Suc.IH [of ?r m] Suc.prems False m(1) by auto
    moreover have "puts xs 0 dest = puts ?r 76 (?l @ drop 76 dest)"
      using puts_append [of ?l ?r 0 dest] l by simp
    ultimately show ?thesis using m by auto
  qed
qed simp

section \<open>The theorems\<close>

lemma encode_text:
  "uni_base64encode dest data padding =
     Option.bind (puts (base64_text padding data) 0 dest) (\<lambda>(writeCount, dest). mem_write dest writeCount [0])"
  unfolding encode_is_puts [symmetric, where data = data and carry = 0 and writeCount = 0 and dest = dest and padding = padding]
  by (simp add: uni_base64encode_def Option.bind_assoc case_prod_unfold)

lemma length_sixtets: "length (sixtets xs) = (4 * length xs + 2) div 3"
  by (induction xs rule: sixtets.induct) auto

lemma length_base64_text: "length (base64_text padding xs) \<le> 4 * ((length xs + 2) div 3)"
proof -
  obtain q r where "length xs = 3 * q + r" "r < 3" by (metis div_mod_decomp mod_less_divisor mult.commute zero_less_numeral)
  then consider "length xs = 3 * q" | "length xs = 3 * q + 1" | "length xs = 3 * q + 2" by linarith
  then show ?thesis
  proof cases
    case 3
    then have "length xs mod 3 = 2" "(4 * length xs + 2) div 3 = 4 * q + 3" "(length xs + 2) div 3 = q + 1" by presburger+
    then show ?thesis by (simp add: base64_text_def length_sixtets)
  qed (simp_all add: base64_text_def length_sixtets)
qed

lemma enlen_enough:
  assumes "0 < n" "n \<le> 57"
  shows "unat (uni_base64enlen (word_of_nat n)) = 4 * ((n + 2) div 3) + 1"
proof -
  have "list_all (\<lambda>n. unat (uni_base64enlen (word_of_nat n)) = 4 * ((n + 2) div 3) + 1) [1..<58]" by code_simp
  moreover have "n \<in> set [1..<58]" using assms by simp
  ultimately show ?thesis by (simp only: list_all_iff)
qed

lemma base64_text_char: "x \<in> set (base64_text padding data) \<Longrightarrow> x \<noteq> 0"
  using sixtets_small base64_digit_char by (auto simp: base64_text_def)

lemma base64_text_pieces:
  assumes "concat ps = base64_text padding data"
  shows "decode_pieces 0 ps = Some data"
proof -
  have "decode_pieces (pack_carry 0 0) ps = Some (snd (snd (fold absorb (sixtets data) (0, 0, []))))"
    using assms by (intro decode_pieces_text [where k = "if padding then (3 - length data mod 3) mod 3 else 0"])
      (auto simp: base64_text_def sixtets_small)
  then show ?thesis using absorb_sixtets [of data 0 "[]"] by (auto simp: pack_carry_def)
qed

text \<open>C39: Up to a line of 57 octets the encoder writes, within the length \<open>uni_base64enlen\<close> computes, a
  text from which the decoder gives back the octets, with or without padding, and into however many pieces
  the text is cut when each is decoded with the carry of the one before.\<close>

theorem base64_roundtrip:
  assumes "0 < length data" "length data \<le> 57" "unat (uni_base64enlen (word_of_nat (length data))) \<le> length dest"
  shows "\<exists>dest' text. uni_base64encode dest data padding = Some dest' \<and> take (length text + 1) dest' = text @ [0] \<and>
     0 \<notin> set text \<and> drop (length text + 1) dest' = drop (length text + 1) dest \<and>
     (\<forall>ps. concat ps = text \<longrightarrow> decode_pieces 0 ps = Some data)"
proof -
  let ?t = "base64_text padding data"
  have "4 * ((length data + 2) div 3) \<le> 76" using assms(2) by simp
  then have t: "length ?t \<le> 76" "length ?t < length dest"
    using length_base64_text [of padding data] enlen_enough [OF assms(1,2)] assms(3) by simp_all
  then have "uni_base64encode dest data padding = Some (?t @ 0 # drop (Suc (length ?t)) dest)"
    using puts_short [of 0 ?t dest] by (simp add: encode_text mem_write_ok)
  then show ?thesis using base64_text_char base64_text_pieces
    by (intro exI [of _ "?t @ 0 # drop (Suc (length ?t)) dest"] exI [of _ ?t]) auto
qed

theorem base64_roundtrip_witness:
  "\<exists>dest'. uni_base64encode (replicate 9 7) [0x14, 0xFB, 0x9C, 0x03] True = Some dest' \<and>
     (\<exists>text. take (length text + 1) dest' = text @ [0] \<and> (\<forall>ps. concat ps = text \<longrightarrow> decode_pieces 0 ps = Some [0x14, 0xFB, 0x9C, 0x03]))"
proof -
  have "unat (uni_base64enlen (word_of_nat (length [0x14, 0xFB, 0x9C, 0x03 :: octet]))) \<le> length (replicate 9 (7 :: octet))"
    by (simp add: uni_base64enlen_def)
  from base64_roundtrip [OF _ _ this, where padding = True] show ?thesis by (auto simp del: decode_pieces.simps)
qed

text \<open>A longer text overwrites itself: the count of the line starts again at 0, but the block it counts
  in does not move, so what the caller finds is the encoding of the octets of the last line alone.\<close>

theorem base64_long_overwrites:
  assumes "length data1 = 57 * k" "0 < k" "0 < length data2" "length data2 \<le> 57" "78 \<le> length dest"
  shows "\<exists>dest'. uni_base64encode dest (data1 @ data2) padding = Some dest' \<and>
     (let text = base64_text padding data2 in take (length text + 1) dest' = text @ [0])"
proof -
  let ?t1 = "base64_text padding data1" and ?t2 = "base64_text padding data2"
  have s: "sixtets (xs @ ys) = sixtets xs @ sixtets ys" if "length xs mod 3 = 0" for xs ys
    using that by (induction xs rule: sixtets.induct) (auto simp: mod_Suc split: if_splits)
  have "length data1 = 3 * (19 * k)" using assms(1) by simp
  then have d: "length data1 mod 3 = 0" by (metis mod_mult_self1_is_0)
  have "(length data1 + length data2) mod 3 = length data2 mod 3" using mod_add_left_eq [of "length data1" 3 "length data2"] d by simp
  then have t: "base64_text padding (data1 @ data2) = ?t1 @ ?t2" using d by (simp add: base64_text_def s)
  have "length ?t1 = 76 * k" using d assms(1) by (simp add: base64_text_def length_sixtets)
  then obtain m where m: "length m = length dest" "puts ?t1 0 dest = Some (76, m)"
    using puts_lines [of ?t1 k dest] assms by blast
  have "4 * ((length data2 + 2) div 3) \<le> 76" using assms(4) by simp
  then have l: "length ?t2 \<le> 76" using length_base64_text [of padding data2] by linarith
  have "length (sixtets data2) \<noteq> 0" using assms(3) by (simp add: length_sixtets div_eq_0_iff)
  then have "?t2 \<noteq> []" by (auto simp: base64_text_def)
  then obtain m' where m': "length m' = length m" "puts ?t2 76 m = puts ?t2 0 m'" using puts_break [of m ?t2] m assms(5) by auto
  have "puts ?t2 0 m' = Some (length ?t2, ?t2 @ drop (length ?t2) m')" using puts_short [of 0 ?t2 m'] m m' l assms(5) by simp
  then have "uni_base64encode dest (data1 @ data2) padding = Some (?t2 @ 0 # drop (Suc (length ?t2)) m')"
    using m m' l assms(5) by (simp add: encode_text t puts_append mem_write_ok)
  then show ?thesis by (simp add: Let_def)
qed

theorem base64_long_overwrites_witness:
  "\<exists>dest'. uni_base64encode (replicate 90 0) (replicate 57 1 @ [0, 0, 0]) False = Some dest' \<and> take 5 dest' = [65, 65, 65, 65, 0]"
proof -
  have t: "base64_text False [0, 0, 0] = [65, 65, 65, 65]" by (simp add: base64_text_def base64_digit_def)
  show ?thesis using base64_long_overwrites [of "replicate 57 1" 1 "[0, 0, 0]" "replicate 90 0" False] by (simp add: t eval_nat_numeral(2,3) del: replicate.simps)
qed

end
