(* ===== verification/Unicode.thy ===== *)
theory Unicode
  imports Base64
begin

unbundle bit_operations_syntax

text \<open>
  The encodings of Unicode (orb/uni_unicode.cc): one character of UTF-8, UTF-16 or UTF-7 at a time to or
  from its number, and arrays of numbers to UTF-7. A text is a block and a position in it; a function that
  writes leaves a zero behind what it wrote. \<open>le\<close> says that the machine is little-endian. A \<open>char\<close> is signed.
\<close>

section \<open>Results and blocks\<close>

datatype uni_result = C_OK | C_ERROR | C_NOT_VALID | C_INVALID_FORMAT | C_UNKNOWN_FORMAT

definition mem_at :: "'a list \<Rightarrow> nat \<Rightarrow> 'a option" where
  "mem_at m i = (if i < length m then Some (m ! i) else None)"

text \<open>A function of a block, on the part of a block that begins at \<open>i\<close>.\<close>

definition mem_part :: "nat \<Rightarrow> ('a list \<Rightarrow> 'a list option) \<Rightarrow> 'a list \<Rightarrow> 'a list option" where
  "mem_part i f m = do { require (i \<le> length m); p \<leftarrow> f (drop i m); Some (take i m @ p) }"

fun strlen_at :: "octet list \<Rightarrow> nat option" where
  "strlen_at [] = None"
| "strlen_at (x # xs) = (if x = 0 then Some 0 else map_option Suc (strlen_at xs))"

definition C_SWAP16 :: "ushort \<Rightarrow> ushort" where
  "C_SWAP16 x = push_bit 8 (x AND 0x00FF) OR drop_bit 8 (x AND 0xFF00)"

text \<open>A \<open>ushort\<close> in memory.\<close>

definition load16 :: "bool \<Rightarrow> octet \<Rightarrow> octet \<Rightarrow> ushort" where
  "load16 le a b = (if le then ucast a OR push_bit 8 (ucast b) else push_bit 8 (ucast a) OR ucast b)"

definition store16 :: "bool \<Rightarrow> ushort \<Rightarrow> octet list" where
  "store16 le x = (if le then [ucast x, ucast (drop_bit 8 x)] else [ucast (drop_bit 8 x), ucast x])"

section \<open>UTF-8\<close>

definition utf8_octets :: "ulong \<Rightarrow> octet list option" where
  "utf8_octets ucs4 =
     (if ucs4 < 0x00000080 then Some [ucast ucs4]
      else if ucs4 < 0x00000800 then Some [ucast (0xC0 + drop_bit 6 ucs4), ucast (0x80 + (ucs4 AND 0x3F))]
      else if ucs4 < 0x00010000 then
        Some [ucast (0xE0 + drop_bit 12 ucs4), ucast (0x80 + (drop_bit 6 ucs4 AND 0x3F)), ucast (0x80 + (ucs4 AND 0x3F))]
      else if ucs4 < 0x00200000 then
        Some [ucast (0xF0 + drop_bit 18 ucs4), ucast (0x80 + (drop_bit 12 ucs4 AND 0x3F)),
          ucast (0x80 + (drop_bit 6 ucs4 AND 0x3F)), ucast (0x80 + (ucs4 AND 0x3F))]
      else if ucs4 < 0x04000000 then
        Some [ucast (0xF8 + drop_bit 24 ucs4), ucast (0x80 + (drop_bit 18 ucs4 AND 0x3F)),
          ucast (0x80 + (drop_bit 12 ucs4 AND 0x3F)), ucast (0x80 + (drop_bit 6 ucs4 AND 0x3F)),
          ucast (0x80 + (ucs4 AND 0x3F))]
      else if ucs4 < 0x80000000 then
        Some [ucast (0xFC + drop_bit 30 ucs4), ucast (0x80 + (drop_bit 24 ucs4 AND 0x3F)),
          ucast (0x80 + (drop_bit 18 ucs4 AND 0x3F)), ucast (0x80 + (drop_bit 12 ucs4 AND 0x3F)),
          ucast (0x80 + (drop_bit 6 ucs4 AND 0x3F)), ucast (0x80 + (ucs4 AND 0x3F))]
      else None)"

definition uni_ucs4toutf8 :: "octet list \<Rightarrow> nat \<Rightarrow> ulong \<Rightarrow> (uni_result \<times> octet list) option" where
  "uni_ucs4toutf8 utf8 di ucs4 =
     (case utf8_octets ucs4 of
        Some xs \<Rightarrow> do { utf8 \<leftarrow> mem_write utf8 di (xs @ [0]); Some (C_OK, utf8) }
      | None \<Rightarrow> Some (C_ERROR, utf8))"

definition uni_utf8bytes :: "octet \<Rightarrow> octet" where
  "uni_utf8bytes first =
     (if first < 0x80 then 1
      else if first < 0xC0 then 0
      else if first < 0xE0 then 2
      else if first < 0xF0 then 3
      else if first < 0xF8 then 4
      else if first < 0xFC then 5
      else if first < 0xFE then 6
      else 0)"

definition following :: "octet \<Rightarrow> bool" where
  "following x \<longleftrightarrow> x AND 0xC0 = 0x80"

text \<open>The bits of an octet behind its marker, shifted into place.\<close>

definition bits_of :: "octet \<Rightarrow> ulong \<Rightarrow> nat \<Rightarrow> ulong" where
  "bits_of x marker n = push_bit n (ucast x - marker)"

text \<open>The character and the number of octets read, or an error.\<close>

definition uni_utf8toucs4 :: "octet list \<Rightarrow> nat \<Rightarrow> (ulong \<times> nat) option option" where
  "uni_utf8toucs4 m i = do {
     u0 \<leftarrow> mem_at m i;
     if u0 = 0 \<or> following u0 then Some None
     else if u0 < 0xC0 then Some (Some (ucast u0, 1))
     else do {
     u1 \<leftarrow> mem_at m (i + 1);
     if \<not> following u1 then Some None
     else if u0 < 0xE0 then Some (Some (bits_of u0 0xC0 6 + bits_of u1 0x80 0, 2))
     else do {
     u2 \<leftarrow> mem_at m (i + 2);
     if \<not> following u2 then Some None
     else if u0 < 0xF0 then Some (Some (bits_of u0 0xE0 12 + bits_of u1 0x80 6 + bits_of u2 0x80 0, 3))
     else do {
     u3 \<leftarrow> mem_at m (i + 3);
     if \<not> following u3 then Some None
     else if u0 < 0xF8 then
       Some (Some (bits_of u0 0xF0 18 + bits_of u1 0x80 12 + bits_of u2 0x80 6 + bits_of u3 0x80 0, 4))
     else do {
     u4 \<leftarrow> mem_at m (i + 4);
     if \<not> following u4 then Some None
     else if u0 < 0xFC then
       Some (Some (bits_of u0 0xF8 24 + bits_of u1 0x80 18 + bits_of u2 0x80 12 + bits_of u3 0x80 6 + bits_of u4 0x80 0, 4))
     else do {
     u5 \<leftarrow> mem_at m (i + 5);
     if \<not> following u5 then Some None
     else if u0 < 0xFE then
       Some (Some (bits_of u0 0xFC 30 + bits_of u1 0x80 24 + bits_of u2 0x80 18 + bits_of u3 0x80 12 + bits_of u4 0x80 6 +
         bits_of u5 0x80 0, 5))
     else Some None
     }}}}}}"

section \<open>UTF-16\<close>

definition uni_ucs4toutf16 :: "ushort list \<Rightarrow> nat \<Rightarrow> ulong \<Rightarrow> (uni_result \<times> ushort list) option" where
  "uni_ucs4toutf16 utf16 di ucs4 =
     (if ucs4 \<le> 0x0000FFFD then do { utf16 \<leftarrow> mem_write utf16 di [ucast ucs4, 0]; Some (C_OK, utf16) }
      else if 0x00010000 \<le> ucs4 \<and> ucs4 \<le> 0x0010FFFF then do {
        utf16 \<leftarrow> mem_write utf16 di [ucast (drop_bit 10 (ucs4 - 0x00010000) + 0xD800),
          ucast (((ucs4 - 0x00010000) AND 0x3FF) + 0xDC00), 0];
        Some (C_OK, utf16)
      }
      else Some (C_ERROR, utf16))"

definition uni_utf16toucs4 :: "ushort list \<Rightarrow> nat \<Rightarrow> (ulong \<times> nat) option option" where
  "uni_utf16toucs4 m i = do {
     u0 \<leftarrow> mem_at m i;
     if u0 < 0xD800 then Some (Some (ucast u0, 1))
     else if u0 < 0xDC00 then do {
       u1 \<leftarrow> mem_at m (i + 1);
       if 0xDC00 \<le> u1 \<and> u1 < 0xE000
       then Some (Some (push_bit 10 (ucast u0 - 0xD800) + (ucast u1 - 0xDC00) + 0x00010000, 2))
       else Some None
     }
     else if u0 < 0xFFFE then Some (Some (ucast u0, 1))
     else Some None
   }"

text \<open>On an error the number of units read is not written (\<open>None\<close>).\<close>

definition uni_utf16toutf8 :: "octet list \<Rightarrow> nat \<Rightarrow> ushort list \<Rightarrow> nat \<Rightarrow> (uni_result \<times> octet list \<times> nat option) option" where
  "uni_utf16toutf8 utf8 di utf16 si = do {
     r \<leftarrow> uni_utf16toucs4 utf16 si;
     case r of
       Some (character, shorts_read) \<Rightarrow> do {
         (RC, utf8) \<leftarrow> uni_ucs4toutf8 utf8 di character;
         Some (RC, utf8, Some shorts_read)
       }
     | None \<Rightarrow> Some (C_ERROR, utf8, None)
   }"

definition uni_utf8toutf16 :: "ushort list \<Rightarrow> nat \<Rightarrow> octet list \<Rightarrow> nat \<Rightarrow> (uni_result \<times> ushort list \<times> nat option) option" where
  "uni_utf8toutf16 utf16 di utf8 si = do {
     r \<leftarrow> uni_utf8toucs4 utf8 si;
     case r of
       Some (character, bytes_read) \<Rightarrow> do {
         (RC, utf16) \<leftarrow> uni_ucs4toutf16 utf16 di character;
         Some (RC, utf16, Some bytes_read)
       }
     | None \<Rightarrow> Some (C_ERROR, utf16, None)
   }"

section \<open>UTF-7\<close>

text \<open>The loop of \<open>uni_utf7toucs4\<close>, which decodes octet by octet until there are two.\<close>

function utf7_loop :: "octet list \<Rightarrow> nat \<Rightarrow> nat \<Rightarrow> octet list \<Rightarrow> ushort \<Rightarrow> (nat \<times> nat \<times> octet list \<times> ushort) option" where
  "utf7_loop utf7 i got dest carry2 =
     (if got < 2 then do {
        c \<leftarrow> mem_at utf7 i;
        if uni_isbase64char c False then do {
          (part, written, carry2) \<leftarrow> uni_base64decode (drop got dest) carry2 [c, 0];
          utf7_loop utf7 (i + 1) (got + written) (take got dest @ part) carry2
        }
        else Some (i, got, dest, carry2)
      }
      else Some (i, got, dest, carry2))"
  by pat_completeness auto

termination
  by (relation "measure (\<lambda>(utf7, i, got, dest, carry2). length utf7 - i)") (auto simp: mem_at_def split: if_splits)

declare utf7_loop.simps [simp del]

text \<open>The character, the number of octets read and the carry.\<close>

definition uni_utf7toucs4 :: "bool \<Rightarrow> octet list \<Rightarrow> nat \<Rightarrow> ushort \<Rightarrow> (ulong \<times> nat \<times> ushort) option" where
  "uni_utf7toucs4 le utf7 si carry = do {
     c0 \<leftarrow> mem_at utf7 si;
     let (i, carry2) =
       (if carry AND 0x8000 \<noteq> 0 \<and> carry AND 0x003F = 0 \<and> c0 = 0x2D then (1, 0) else (0, carry));
     c \<leftarrow> mem_at utf7 (si + i);
     if carry2 = 0 \<and> c \<noteq> 0x2B then Some (scast c, i + 1, 0)
     else do {
       next \<leftarrow> (if carry2 = 0 then mem_at utf7 (si + i + 1) else Some 0);
       if carry2 = 0 \<and> next = 0x2D then Some (0x2B, i + 2, 0)
       else do {
         let i = (if carry2 = 0 then i + 1 else i);
         (i, got, dest, carry2) \<leftarrow> utf7_loop utf7 (si + i) 0 [0, 0] carry2;
         if got = 2
         then Some (ucast (let ucs2 = load16 le (dest ! 0) (dest ! 1) in if le then C_SWAP16 ucs2 else ucs2), i - si, carry2 OR 0x8000)
         else do { c \<leftarrow> mem_at utf7 i; Some (scast c, i + 1 - si, 0) }
       }
     }
   }"

definition uni_utf7toutf8 :: "bool \<Rightarrow> octet list \<Rightarrow> nat \<Rightarrow> octet list \<Rightarrow> nat \<Rightarrow> ushort \<Rightarrow> (uni_result \<times> octet list \<times> nat \<times> ushort) option" where
  "uni_utf7toutf8 le utf8 di utf7 si carry = do {
     (character, bytes_read, carry) \<leftarrow> uni_utf7toucs4 le utf7 si carry;
     (RC, utf8) \<leftarrow> uni_ucs4toutf8 utf8 di character;
     Some (RC, utf8, bytes_read, carry)
   }"

definition uni_ucs4toutf7 :: "bool \<Rightarrow> octet list \<Rightarrow> ulong \<Rightarrow> (uni_result \<times> octet list) option" where
  "uni_ucs4toutf7 le utf7 ucs4 =
     (if ucs4 < 128 \<and> ucs4 \<noteq> 0x2B then do { utf7 \<leftarrow> mem_write utf7 0 [ucast ucs4, 0]; Some (C_OK, utf7) }
      else if ucs4 = 0x2B then do { utf7 \<leftarrow> mem_write utf7 0 [0x2B, 0x2D, 0]; Some (C_OK, utf7) }
      else if ucs4 \<le> 0xFFFF then do {
        let ucs2 = (let u = ucast ucs4 in if le then C_SWAP16 u else u);
        utf7 \<leftarrow> mem_write utf7 0 [0x2B];
        utf7 \<leftarrow> mem_part 1 (\<lambda>dest. uni_base64encode dest (store16 le ucs2) False) utf7;
        RC \<leftarrow> strlen_at utf7;
        utf7 \<leftarrow> mem_write utf7 RC [0x2D, 0];
        Some (C_OK, utf7)
      }
      else Some (C_ERROR, utf7))"

definition uni_utf8toutf7 :: "bool \<Rightarrow> octet list \<Rightarrow> octet list \<Rightarrow> (uni_result \<times> octet list \<times> nat option) option" where
  "uni_utf8toutf7 le utf7 utf8 = do {
     r \<leftarrow> uni_utf8toucs4 utf8 0;
     case r of
       Some (character, bytes_read) \<Rightarrow> do {
         (RC, utf7) \<leftarrow> uni_ucs4toutf7 le utf7 character;
         Some (RC, utf7, Some bytes_read)
       }
     | None \<Rightarrow> Some (C_ERROR, utf7, None)
   }"

section \<open>Arrays\<close>

text \<open>The counters are \<open>unsigned char\<close>s; those of the arrays of numbers stay below 58.\<close>

definition C_BASE64_DATA :: nat where "C_BASE64_DATA = 57"

text \<open>A run of characters for one stretch of Base64: up to two characters of ASCII in a row.\<close>

function utf7_run :: "bool \<Rightarrow> ulong list \<Rightarrow> nat \<Rightarrow> nat \<Rightarrow> nat \<Rightarrow> ushort list \<Rightarrow> (nat \<times> nat \<times> ushort list) option" where
  "utf7_run le ucs4 len i read buffer =
     (if read < len then do {
        c \<leftarrow> mem_at ucs4 read;
        buffer \<leftarrow> mem_write buffer i [ucast c];
        let (i, read) = (i + 1, read + 1);
        if read < len then do {
          c \<leftarrow> mem_at ucs4 read;
          if c < 128 then
            (if read + 1 < len then do {
               d \<leftarrow> mem_at ucs4 (read + 1);
               if d < 128 then Some (i, read, buffer)
               else do {
                 buffer \<leftarrow> mem_write buffer i [let u = ucast c in if le then C_SWAP16 u else u];
                 utf7_run le ucs4 len (i + 1) (read + 1) buffer
               }
             }
             else Some (i, read, buffer))
          else utf7_run le ucs4 len i read buffer
        }
        else Some (i, read, buffer)
      }
      else None)"
  by pat_completeness auto

termination
  by (relation "measure (\<lambda>(le, ucs4, len, i, read, buffer). len - read)") auto

declare utf7_run.simps [simp del]

lemma utf7_run_reads: "utf7_run le ucs4 len i read buffer = Some (i', read', buffer') \<Longrightarrow> read < read'"
proof (induction le ucs4 len i read buffer rule: utf7_run.induct)
  case (1 le ucs4 len i read buffer)
  from 1(3) show ?case using 1(1,2)
    by (subst (asm) utf7_run.simps) (fastforce elim!: bind_cases simp: Let_def split: if_splits)
qed

function array_loop :: "bool \<Rightarrow> octet list \<Rightarrow> ulong list \<Rightarrow> nat \<Rightarrow> nat \<Rightarrow> nat \<Rightarrow> (uni_result \<times> octet list) option" where
  "array_loop le utf7 ucs4 len read wr =
     (if read < len then do {
        c \<leftarrow> mem_at ucs4 read;
        if c < 128 \<and> c \<noteq> 0x2B then do {
          utf7 \<leftarrow> mem_write utf7 wr [ucast c];
          array_loop le utf7 ucs4 len (read + 1) ((wr + 1) mod 256)
        }
        else if c = 0x2B then do {
          utf7 \<leftarrow> mem_write utf7 wr [0x2B];
          utf7 \<leftarrow> mem_write utf7 ((wr + 1) mod 256) [0x2D];
          array_loop le utf7 ucs4 len (read + 1) ((wr + 2) mod 256)
        }
        else if c \<le> 0xFFFF then
          (case utf7_run le ucs4 len 0 read (replicate C_BASE64_DATA 0) of
             None \<Rightarrow> None
           | Some (i, read', buffer) \<Rightarrow> do {
               utf7 \<leftarrow> mem_write utf7 wr [0x2B];
               let wr = (wr + 1) mod 256;
               utf7 \<leftarrow> mem_part wr (\<lambda>dest. uni_base64encode dest (concat (map (store16 le) (take i buffer))) False) utf7;
               n \<leftarrow> strlen_at (drop wr utf7);
               require (n < 255);
               let wr = (wr + n) mod 256;
               utf7 \<leftarrow> mem_write utf7 wr [0x2D];
               array_loop le utf7 ucs4 len read' ((wr + 1) mod 256)
             })
        else Some (C_ERROR, utf7)
      }
      else do { utf7 \<leftarrow> mem_write utf7 wr [0]; Some (C_OK, utf7) })"
  by pat_completeness auto

termination
  by (relation "measure (\<lambda>(le, utf7, ucs4, len, read, wr). len - read)") (auto dest: utf7_run_reads)

declare array_loop.simps [simp del]

definition uni_ucs4arraytoutf7 :: "bool \<Rightarrow> octet list \<Rightarrow> ulong list \<Rightarrow> nat \<Rightarrow> (uni_result \<times> octet list) option" where
  "uni_ucs4arraytoutf7 le utf7 ucs4 len =
     (if len > C_BASE64_DATA then Some (C_NOT_VALID, utf7) else array_loop le utf7 ucs4 len 0 0)"

function collect_utf8 :: "octet list \<Rightarrow> nat \<Rightarrow> nat \<Rightarrow> ulong list \<Rightarrow> (uni_result \<times> ulong list) option" where
  "collect_utf8 utf8 len i buffer =
     (if i < len then do {
        u \<leftarrow> mem_at utf8 i;
        if u < 128 then
          (if length buffer + 1 \<ge> C_BASE64_DATA then Some (C_NOT_VALID, buffer)
           else collect_utf8 utf8 len ((i + 1) mod 256) (buffer @ [ucast u]))
        else
          (case uni_utf8toucs4 utf8 i of
             None \<Rightarrow> None
           | Some None \<Rightarrow> Some (C_ERROR, buffer)
           | Some (Some (c, n)) \<Rightarrow>
               if length buffer + 1 \<ge> C_BASE64_DATA then Some (C_NOT_VALID, buffer)
               else collect_utf8 utf8 len ((i + n) mod 256) (buffer @ [c]))
      }
      else Some (C_OK, buffer))"
  by pat_completeness auto

termination
  by (relation "measure (\<lambda>(utf8, len, i, buffer). C_BASE64_DATA - length buffer)") auto

declare collect_utf8.simps [simp del]

definition uni_utf8arraytoutf7 :: "bool \<Rightarrow> octet list \<Rightarrow> octet list \<Rightarrow> nat \<Rightarrow> (uni_result \<times> octet list) option" where
  "uni_utf8arraytoutf7 le utf7 utf8 len = do {
     (RC, buffer) \<leftarrow> collect_utf8 utf8 len 0 [];
     if RC \<noteq> C_OK then Some (RC, utf7) else uni_ucs4arraytoutf7 le utf7 buffer (length buffer)
   }"

end
