(* ===== verification/Unicode_Text.thy ===== *)
theory Unicode_Text
  imports Unicode
begin

unbundle bit_operations_syntax

text \<open>
  What the encodings of Unicode promise: which numbers UTF-8 and UTF-16 give back, what the decoder of
  UTF-8 does with octets that no encoder wrote, and UTF-7 one character at a time.
\<close>

section \<open>Words and numbers\<close>

lemma drop_bit_number:
  assumes "n < 4294967296"
  shows "drop_bit k (word_of_nat n :: ulong) = word_of_nat (n div 2 ^ k)"
proof -
  have "unat (drop_bit k (word_of_nat n :: ulong)) = drop_bit k n" using assms by (simp only: unat_drop_bit_eq nowrap)
  then have "unat (drop_bit k (word_of_nat n :: ulong)) = n div 2 ^ k" by (simp only: drop_bit_eq_div)
  then have "word_of_nat (unat (drop_bit k (word_of_nat n :: ulong))) = (word_of_nat (n div 2 ^ k) :: ulong)" by (simp only:)
  then show ?thesis by (simp only: of_nat_unat ucast_id)
qed

lemma low_bits_number: "(word_of_nat n :: ulong) AND 0x3F = word_of_nat (n mod 64)"
proof -
  have "(word_of_nat n :: ulong) AND mask 6 = take_bit 6 (word_of_nat n)" by (simp add: take_bit_eq_mask)
  also have "\<dots> = word_of_nat (take_bit 6 n)" by (simp add: take_bit_of_nat)
  finally show ?thesis by (simp add: mask_eq_exp_minus_1 take_bit_eq_mod)
qed

lemma octet_of_number: "ucast (word_of_nat n :: ulong) = (word_of_nat n :: octet)"
  by (simp add: unsigned_of_nat unsigned_ucast_eq word_unat_eq_iff unat_of_nat take_bit_eq_mod mod_mod_cancel)

lemma number_of_octet: "n < 256 \<Longrightarrow> ucast (word_of_nat n :: octet) = (word_of_nat n :: ulong)"
  by (simp add: unsigned_of_nat take_bit_nat_eq_self)

lemma top_bits:
  assumes "(n :: nat) < 256"
  shows "odd (n div 2 ^ 7) \<and> even (n div 2 ^ 6) \<longleftrightarrow> 0x80 \<le> n \<and> n < 0xC0"
proof -
  consider "n < 64" | "64 \<le> n" "n < 128" | "128 \<le> n" "n < 192" | "192 \<le> n" by linarith
  then show ?thesis
  proof cases
    case 1
    then have "n div 2 ^ 7 = 0" "n div 2 ^ 6 = 0" by simp_all
    then show ?thesis using 1 by simp
  next
    case 2
    then have "n div 2 ^ 7 = 0" "n div 2 ^ 6 = 1" by (auto intro: div_nat_eqI)
    then show ?thesis using 2 by simp
  next
    case 3
    then have "n div 2 ^ 7 = 1" "n div 2 ^ 6 = 2" by (auto intro: div_nat_eqI)
    then show ?thesis using 3 by simp
  next
    case 4
    then have "n div 2 ^ 7 = 1" "n div 2 ^ 6 = 3" using assms by (auto intro: div_nat_eqI)
    then show ?thesis using 4 by simp
  qed
qed

lemma following_iff: "following x \<longleftrightarrow> 0x80 \<le> unat x \<and> unat x < 0xC0"
proof -
  have u: "bit (unat x) k = bit x k" for k by (simp add: bit_unsigned_iff)
  have "following x \<longleftrightarrow> bit x 7 \<and> \<not> bit x 6"
  proof
    assume "following x"
    then have "bit (x AND 0xC0) 7 = bit (0x80 :: octet) 7" "bit (x AND 0xC0) 6 = bit (0x80 :: octet) 6" by (simp_all add: following_def)
    then show "bit x 7 \<and> \<not> bit x 6" by (simp add: bit_simps)
  next
    assume "bit x 7 \<and> \<not> bit x 6"
    then show "following x" unfolding following_def by (intro octet_eqI) (simp_all add: bit_simps)
  qed
  also have "\<dots> \<longleftrightarrow> odd (unat x div 2 ^ 7) \<and> even (unat x div 2 ^ 6)"
    unfolding u [symmetric] unfolding bit_iff_odd by blast
  finally show ?thesis using top_bits [OF unat_octet_lt, of x] by blast
qed

lemma bits_of_number: "numeral w \<le> n \<Longrightarrow> n < 256 \<Longrightarrow> bits_of (word_of_nat n) (numeral w) k = word_of_nat ((n - numeral w) * 2 ^ k)"
  by (simp add: bits_of_def number_of_octet push_bit_eq_mult of_nat_diff)

section \<open>UTF-8\<close>

text \<open>The octets of a number, as numbers.\<close>

definition utf8_numbers :: "nat \<Rightarrow> nat list" where
  "utf8_numbers n =
     (if n < 0x80 then [n]
      else if n < 0x800 then [0xC0 + n div 2 ^ 6, 0x80 + n mod 64]
      else if n < 0x10000 then [0xE0 + n div 2 ^ 12, 0x80 + n div 2 ^ 6 mod 64, 0x80 + n mod 64]
      else if n < 0x200000 then [0xF0 + n div 2 ^ 18, 0x80 + n div 2 ^ 12 mod 64, 0x80 + n div 2 ^ 6 mod 64, 0x80 + n mod 64]
      else if n < 0x4000000 then [0xF8 + n div 2 ^ 24, 0x80 + n div 2 ^ 18 mod 64, 0x80 + n div 2 ^ 12 mod 64,
        0x80 + n div 2 ^ 6 mod 64, 0x80 + n mod 64]
      else [0xFC + n div 2 ^ 30, 0x80 + n div 2 ^ 24 mod 64, 0x80 + n div 2 ^ 18 mod 64, 0x80 + n div 2 ^ 12 mod 64,
        0x80 + n div 2 ^ 6 mod 64, 0x80 + n mod 64])"

lemma ulong_less_number: "n < 4294967296 \<Longrightarrow> (word_of_nat n :: ulong) < numeral k \<longleftrightarrow> n < unat (numeral k :: ulong)"
  by (simp add: word_less_nat_alt nowrap)

lemma octet_part: "ucast (numeral k + word_of_nat n :: ulong) = (word_of_nat (numeral k + n) :: octet)"
  using octet_of_number [of "numeral k + n"] by simp

lemma utf8_octets_number:
  assumes n: "n < 4294967296"
  shows "utf8_octets (word_of_nat n) = (if n < 0x80000000 then Some (map word_of_nat (utf8_numbers n)) else None)"
  unfolding utf8_octets_def drop_bit_number [OF n] low_bits_number octet_part octet_of_number ulong_less_number [OF n] utf8_numbers_def
  by simp

text \<open>What is in a block at a position.\<close>

definition holds :: "'a list \<Rightarrow> nat \<Rightarrow> 'a list \<Rightarrow> bool" where
  "holds m i xs \<longleftrightarrow> take (length xs) (drop i m) = xs"

lemma holds_at:
  assumes "holds m i xs" "k < length xs"
  shows "mem_at m (i + k) = Some (xs ! k)"
proof -
  have "length (take (length xs) (drop i m)) = length xs" using assms(1) by (simp add: holds_def)
  then have "i + k < length m" using assms(2) by simp
  moreover have "xs ! k = take (length xs) (drop i m) ! k" using assms(1) by (simp add: holds_def)
  ultimately show ?thesis using assms(2) by (simp add: mem_at_def)
qed

lemma holds_Cons [simp]: "holds m i (x # xs) \<longleftrightarrow> mem_at m i = Some x \<and> holds m (Suc i) xs"
proof (cases "i < length m")
  case True
  then have "drop i m = m ! i # drop (Suc i) m" by (simp add: Cons_nth_drop_Suc)
  then show ?thesis using True by (auto simp: holds_def mem_at_def)
qed (simp add: holds_def mem_at_def)

lemma holds_Nil [simp]: "holds m i []"
  by (simp add: holds_def)

lemma octet_number_less: "v < 256 \<Longrightarrow> (word_of_nat v :: octet) < numeral k \<longleftrightarrow> v < unat (numeral k :: octet)"
  by (simp add: word_less_nat_alt)

lemma following_number: "v < 256 \<Longrightarrow> following (word_of_nat v) \<longleftrightarrow> 0x80 \<le> v \<and> v < 0xC0"
  by (simp add: following_iff)

lemma octet_number_0: "v < 256 \<Longrightarrow> (word_of_nat v :: octet) = 0 \<longleftrightarrow> v = 0"
  by (simp add: word_unat_eq_iff)

lemmas octet_numbers = octet_number_less following_number octet_number_0 bits_of_number

lemma utf8_read_1: "holds m i [word_of_nat a] \<Longrightarrow> 0 < a \<Longrightarrow> a < 0x80 \<Longrightarrow> uni_utf8toucs4 m i = Some (Some (word_of_nat a, 1))"
  by (simp add: uni_utf8toucs4_def octet_numbers number_of_octet)

lemma later_positions: "i + 3 = Suc (Suc (Suc i))" "i + 4 = Suc (Suc (Suc (Suc i)))" "i + 5 = Suc (Suc (Suc (Suc (Suc i))))"
  by simp_all

lemma utf8_read_2:
  "holds m i (map word_of_nat [0xC0 + a, 0x80 + b]) \<Longrightarrow> a < 32 \<Longrightarrow> b < 64 \<Longrightarrow>
   uni_utf8toucs4 m i = Some (Some (word_of_nat (a * 2 ^ 6 + b), 2))"
  by (simp add: uni_utf8toucs4_def octet_numbers later_positions del: of_nat_add of_nat_mult) (simp only: of_nat_add)

lemma utf8_read_3:
  "holds m i (map word_of_nat [0xE0 + a, 0x80 + b, 0x80 + c]) \<Longrightarrow> a < 16 \<Longrightarrow> b < 64 \<Longrightarrow> c < 64 \<Longrightarrow>
   uni_utf8toucs4 m i = Some (Some (word_of_nat (a * 2 ^ 12 + b * 2 ^ 6 + c), 3))"
  by (simp add: uni_utf8toucs4_def octet_numbers later_positions del: of_nat_add of_nat_mult) (simp only: of_nat_add)

lemma utf8_read_4:
  "holds m i (map word_of_nat [0xF0 + a, 0x80 + b, 0x80 + c, 0x80 + d]) \<Longrightarrow> a < 8 \<Longrightarrow> b < 64 \<Longrightarrow> c < 64 \<Longrightarrow> d < 64 \<Longrightarrow>
   uni_utf8toucs4 m i = Some (Some (word_of_nat (a * 2 ^ 18 + b * 2 ^ 12 + c * 2 ^ 6 + d), 4))"
  by (simp add: uni_utf8toucs4_def octet_numbers later_positions del: of_nat_add of_nat_mult) (simp only: of_nat_add)

lemma utf8_read_5:
  "holds m i (map word_of_nat [0xF8 + a, 0x80 + b, 0x80 + c, 0x80 + d, 0x80 + e]) \<Longrightarrow> a < 4 \<Longrightarrow> b < 64 \<Longrightarrow> c < 64 \<Longrightarrow> d < 64 \<Longrightarrow> e < 64 \<Longrightarrow>
   uni_utf8toucs4 m i = Some (Some (word_of_nat (a * 2 ^ 24 + b * 2 ^ 18 + c * 2 ^ 12 + d * 2 ^ 6 + e), 4))"
  by (simp add: uni_utf8toucs4_def octet_numbers later_positions del: of_nat_add of_nat_mult) (simp only: of_nat_add)

lemma utf8_read_6:
  "holds m i (map word_of_nat [0xFC + a, 0x80 + b, 0x80 + c, 0x80 + d, 0x80 + e, 0x80 + f]) \<Longrightarrow> a < 2 \<Longrightarrow> b < 64 \<Longrightarrow> c < 64 \<Longrightarrow> d < 64 \<Longrightarrow> e < 64 \<Longrightarrow> f < 64 \<Longrightarrow>
   uni_utf8toucs4 m i = Some (Some (word_of_nat (a * 2 ^ 30 + b * 2 ^ 24 + c * 2 ^ 18 + d * 2 ^ 12 + e * 2 ^ 6 + f), 5))"
  by (simp add: uni_utf8toucs4_def octet_numbers later_positions del: of_nat_add of_nat_mult) (simp only: of_nat_add)

lemma digits_64:
  fixes n :: nat
  shows "n div 2 ^ 6 * 2 ^ 6 + n mod 64 = n"
    and "n div 2 ^ 12 * 2 ^ 12 + n div 2 ^ 6 mod 64 * 2 ^ 6 + n mod 64 = n"
    and "n div 2 ^ 18 * 2 ^ 18 + n div 2 ^ 12 mod 64 * 2 ^ 12 + n div 2 ^ 6 mod 64 * 2 ^ 6 + n mod 64 = n"
    and "n div 2 ^ 24 * 2 ^ 24 + n div 2 ^ 18 mod 64 * 2 ^ 18 + n div 2 ^ 12 mod 64 * 2 ^ 12 + n div 2 ^ 6 mod 64 * 2 ^ 6 + n mod 64 = n"
    and "n div 2 ^ 30 * 2 ^ 30 + n div 2 ^ 24 mod 64 * 2 ^ 24 + n div 2 ^ 18 mod 64 * 2 ^ 18 + n div 2 ^ 12 mod 64 * 2 ^ 12 +
      n div 2 ^ 6 mod 64 * 2 ^ 6 + n mod 64 = n"
proof -
  have s: "q div 64 * (64 * w) + q mod 64 * w = q * w" for q w :: nat
    by (metis add_mult_distrib div_mult_mod_eq mult.assoc)
  have d: "n div 2 ^ (j + 6) = n div 2 ^ j div 64" for j by (simp add: power_add div_mult2_eq)
  show 1: "n div 2 ^ 6 * 2 ^ 6 + n mod 64 = n" by simp
  show 2: "n div 2 ^ 12 * 2 ^ 12 + n div 2 ^ 6 mod 64 * 2 ^ 6 + n mod 64 = n"
    using d [of 6] s [of "n div 2 ^ 6" "2 ^ 6"] 1 by simp
  show 3: "n div 2 ^ 18 * 2 ^ 18 + n div 2 ^ 12 mod 64 * 2 ^ 12 + n div 2 ^ 6 mod 64 * 2 ^ 6 + n mod 64 = n"
    using d [of 12] s [of "n div 2 ^ 12" "2 ^ 12"] 2 by simp
  show 4: "n div 2 ^ 24 * 2 ^ 24 + n div 2 ^ 18 mod 64 * 2 ^ 18 + n div 2 ^ 12 mod 64 * 2 ^ 12 + n div 2 ^ 6 mod 64 * 2 ^ 6 + n mod 64 = n"
    using d [of 18] s [of "n div 2 ^ 18" "2 ^ 18"] 3 by simp
  show "n div 2 ^ 30 * 2 ^ 30 + n div 2 ^ 24 mod 64 * 2 ^ 24 + n div 2 ^ 18 mod 64 * 2 ^ 18 + n div 2 ^ 12 mod 64 * 2 ^ 12 +
      n div 2 ^ 6 mod 64 * 2 ^ 6 + n mod 64 = n"
    using d [of 24] s [of "n div 2 ^ 24" "2 ^ 24"] 4 by simp
qed

lemma utf8_numbers_read:
  assumes n: "0 < n" "n < 0x80000000" and h: "holds m i (map word_of_nat (utf8_numbers n))"
  shows "uni_utf8toucs4 m i = Some (Some (word_of_nat n,
     if n < 0x200000 then length (utf8_numbers n) else length (utf8_numbers n) - 1))"
proof -
  have s: "k mod 64 < 64" for k :: nat by simp
  have q: "n div 2 ^ k < b" if "n < b * 2 ^ k" for k b using that by (simp only: div_less_iff_less_mult zero_less_power zero_less_numeral)
  consider "n < 0x80" | "0x80 \<le> n" "n < 0x800" | "0x800 \<le> n" "n < 0x10000" | "0x10000 \<le> n" "n < 0x200000"
    | "0x200000 \<le> n" "n < 0x4000000" | "0x4000000 \<le> n" by linarith
  then show ?thesis
  proof cases
    case 1
    then show ?thesis using h n by (simp add: utf8_numbers_def utf8_read_1)
  next
    case 2
    have e: "utf8_numbers n = [0xC0 + n div 2 ^ 6, 0x80 + n mod 64]"
      unfolding utf8_numbers_def using 2 by (simp only: if_not_P not_less if_True if_False)
    have "n div 2 ^ 6 < 32" using 2 n by (intro q) simp
    from utf8_read_2 [OF h [unfolded e] this s] show ?thesis using 2 by (simp only: e digits_64) simp
  next
    case 3
    have e: "utf8_numbers n = [0xE0 + n div 2 ^ 12, 0x80 + n div 2 ^ 6 mod 64, 0x80 + n mod 64]"
      unfolding utf8_numbers_def using 3 by (simp only: if_not_P not_less if_True if_False)
    have "n div 2 ^ 12 < 16" using 3 n by (intro q) simp
    from utf8_read_3 [OF h [unfolded e] this s s] show ?thesis using 3 by (simp only: e digits_64) simp
  next
    case 4
    have e: "utf8_numbers n = [0xF0 + n div 2 ^ 18, 0x80 + n div 2 ^ 12 mod 64, 0x80 + n div 2 ^ 6 mod 64, 0x80 + n mod 64]"
      unfolding utf8_numbers_def using 4 by (simp only: if_not_P not_less if_True if_False)
    have "n div 2 ^ 18 < 8" using 4 n by (intro q) simp
    from utf8_read_4 [OF h [unfolded e] this s s s] show ?thesis using 4 by (simp only: e digits_64) simp
  next
    case 5
    have e: "utf8_numbers n = [0xF8 + n div 2 ^ 24, 0x80 + n div 2 ^ 18 mod 64, 0x80 + n div 2 ^ 12 mod 64, 0x80 + n div 2 ^ 6 mod 64, 0x80 + n mod 64]"
      unfolding utf8_numbers_def using 5 by (simp only: if_not_P not_less if_True if_False)
    have "n div 2 ^ 24 < 4" using 5 n by (intro q) simp
    from utf8_read_5 [OF h [unfolded e] this s s s s] show ?thesis using 5 by (simp only: e digits_64) simp
  next
    case 6
    have e: "utf8_numbers n = [0xFC + n div 2 ^ 30, 0x80 + n div 2 ^ 24 mod 64, 0x80 + n div 2 ^ 18 mod 64, 0x80 + n div 2 ^ 12 mod 64, 0x80 + n div 2 ^ 6 mod 64, 0x80 + n mod 64]"
      unfolding utf8_numbers_def using 6 by (simp only: if_not_P not_less if_True if_False)
    have "n div 2 ^ 30 < 2" using 6 n by (intro q) simp
    from utf8_read_6 [OF h [unfolded e] this s s s s s] show ?thesis using 6 by (simp only: e digits_64) simp
  qed
qed

lemma utf8_numbers_range:
  assumes n: "0 < n" "n < 0x80000000" and v: "v \<in> set (utf8_numbers n)"
  shows "0 < v \<and> v < 256"
proof -
  have s: "k mod 64 < 64" for k :: nat by simp
  have q: "n div 2 ^ k < b" if "n < b * 2 ^ k" for k b using that by (simp only: div_less_iff_less_mult zero_less_power zero_less_numeral)
  have "n div 2 ^ 6 < 32" if "n < 0x800" using that by (intro q) simp
  moreover have "n div 2 ^ 12 < 16" if "n < 0x10000" using that by (intro q) simp
  moreover have "n div 2 ^ 18 < 8" if "n < 0x200000" using that by (intro q) simp
  moreover have "n div 2 ^ 24 < 4" if "n < 0x4000000" using that by (intro q) simp
  moreover have "n div 2 ^ 30 < 2" using n by (intro q) simp
  moreover have "k mod 64 < 64" for k :: nat by simp
  ultimately show ?thesis using v n unfolding utf8_numbers_def by (auto split: if_splits simp del: power_numeral)
qed

lemma strlen_at_append: "0 \<notin> set xs \<Longrightarrow> strlen_at (xs @ 0 # r) = Some (length xs)"
  by (induction xs) auto

lemma holds_write: "mem_write m i (xs @ ys) = Some m' \<Longrightarrow> holds m' i xs"
  by (auto simp: mem_write_def holds_def min_def split: if_splits)

text \<open>What \<open>uni_ucs4toutf8\<close> leaves in the block.\<close>

lemma ucs4toutf8_writes:
  assumes "uni_ucs4toutf8 m di c = Some (C_OK, m')" "0 < c"
  shows "\<exists>n. c = word_of_nat n \<and> 0 < n \<and> n < 0x80000000 \<and> holds m' di (map word_of_nat (utf8_numbers n)) \<and>
     strlen_at (drop di m') = Some (length (utf8_numbers n)) \<and> take di m' = take di m \<and> length m' = length m"
proof -
  let ?n = "unat c"
  have c: "c = word_of_nat ?n" "?n < 4294967296" "0 < ?n" using assms(2) by (simp_all add: word_less_nat_alt)
  obtain xs where xs: "utf8_octets c = Some xs" "mem_write m di (xs @ [0]) = Some m'"
    using assms(1) by (auto simp: uni_ucs4toutf8_def elim!: bind_cases split: option.splits)
  have x: "?n < 0x80000000" "xs = map word_of_nat (utf8_numbers ?n)"
    using utf8_octets_number [OF c(2)] xs(1) c(1) by (simp_all split: if_splits)
  have "0 \<notin> set xs" using utf8_numbers_range [OF c(3) x(1)] by (fastforce simp: x(2) octet_number_0)
  moreover have "drop di m' = xs @ 0 # drop (di + Suc (length xs)) m" "take di m' = take di m" "length m' = length m"
    using xs(2) by (auto simp: mem_write_def min_def split: if_splits)
  ultimately show ?thesis using c x holds_write [OF xs(2)] strlen_at_append by (intro exI [of _ ?n]) (simp add: x(2))
qed

text \<open>C37: A character below hexadecimal 200000 is read back by \<open>uni_utf8toucs4\<close> from the octets \<open>uni_ucs4toutf8\<close>
  wrote: the octets read are all that were written, their number is what \<open>uni_utf8bytes\<close> says of the first, and
  nothing before them has changed.\<close>

theorem utf8_roundtrip:
  assumes "uni_ucs4toutf8 m di c = Some (C_OK, m')" "0 < c" "c < 0x200000"
  shows "\<exists>k. strlen_at (drop di m') = Some k \<and> uni_utf8toucs4 m' di = Some (Some (c, k)) \<and>
     map_option (unat \<circ> uni_utf8bytes) (mem_at m' di) = Some k \<and> take di m' = take di m"
proof -
  obtain n where n: "c = word_of_nat n" "0 < n" "n < 0x80000000" "holds m' di (map word_of_nat (utf8_numbers n))"
    "strlen_at (drop di m') = Some (length (utf8_numbers n))" "take di m' = take di m"
    using ucs4toutf8_writes [OF assms(1,2)] by blast
  have l: "n < 0x200000" using assms(3) n(1,3) by (simp add: word_less_nat_alt nowrap)
  have q: "n div 2 ^ k < b" if "n < b * 2 ^ k" for k b using that by (simp only: div_less_iff_less_mult zero_less_power zero_less_numeral)
  have "n div 2 ^ 6 < 32" if "n < 0x800" using that by (intro q) simp
  moreover have "n div 2 ^ 12 < 16" if "n < 0x10000" using that by (intro q) simp
  moreover have "n div 2 ^ 18 < 8" using l by (intro q) simp
  moreover obtain v vs where v: "utf8_numbers n = v # vs" by (cases "utf8_numbers n") (auto simp: utf8_numbers_def split: if_splits)
  moreover have "v < 256" using utf8_numbers_range [OF n(2,3), of v] v by simp
  ultimately have "unat (uni_utf8bytes (word_of_nat v)) = length (utf8_numbers n)"
    using l n(2) unfolding utf8_numbers_def uni_utf8bytes_def by (auto simp: octet_number_less simp del: power_numeral split: if_splits)
  moreover have "mem_at m' di = Some (word_of_nat v)" using n(4) v by simp
  ultimately show ?thesis using utf8_numbers_read [OF n(2-4)] l n by simp
qed

theorem utf8_roundtrip_witness:
  "uni_ucs4toutf8 (replicate 6 0xFF) 1 0x20AC = Some (C_OK, [0xFF, 0xE2, 0x82, 0xAC, 0, 0xFF]) \<and>
   uni_utf8toucs4 [0xFF, 0xE2, 0x82, 0xAC, 0, 0xFF] 1 = Some (Some (0x20AC, 3))"
proof -
  have w: "uni_ucs4toutf8 (replicate 6 0xFF) 1 0x20AC = Some (C_OK, [0xFF, 0xE2, 0x82, 0xAC, 0, 0xFF])" by code_simp
  have "strlen_at (drop 1 [0xFF, 0xE2, 0x82, 0xAC, 0, 0xFF]) = Some 3" by code_simp
  with utf8_roundtrip [OF w] w show ?thesis by simp
qed

text \<open>From hexadecimal 200000 on the character is read back too, but the number of octets is one less than
  were written: a caller that goes on from there finds itself in the middle of the character.\<close>

theorem utf8_long_forms:
  assumes "uni_ucs4toutf8 m di c = Some (C_OK, m')" "0x200000 \<le> c"
  shows "\<exists>k. strlen_at (drop di m') = Some (k + 1) \<and> uni_utf8toucs4 m' di = Some (Some (c, k)) \<and>
     uni_utf8toucs4 m' (di + k) = Some None"
proof -
  have "0 < c" using assms(2) by (simp add: word_less_nat_alt word_le_nat_alt)
  then obtain n where n: "c = word_of_nat n" "0 < n" "n < 0x80000000" "holds m' di (map word_of_nat (utf8_numbers n))"
    "strlen_at (drop di m') = Some (length (utf8_numbers n))"
    using ucs4toutf8_writes [OF assms(1)] by blast
  have l: "0x200000 \<le> n" using assms(2) n(1,3) by (simp add: word_le_nat_alt nowrap)
  let ?k = "length (utf8_numbers n) - 1"
  have last: "utf8_numbers n ! ?k = 0x80 + n mod 64" "0 < length (utf8_numbers n)" using l by (simp_all add: utf8_numbers_def)
  then have "mem_at m' (di + ?k) = Some (word_of_nat (0x80 + n mod 64))" using holds_at [OF n(4), of ?k] by simp
  moreover have "following (word_of_nat (0x80 + n mod 64))" using following_number [of "0x80 + n mod 64"] by simp
  ultimately have "uni_utf8toucs4 m' (di + ?k) = Some None" by (simp add: uni_utf8toucs4_def)
  moreover obtain k where k: "length (utf8_numbers n) = Suc k" using last(2) by (cases "length (utf8_numbers n)") simp
  ultimately show ?thesis using utf8_numbers_read [OF n(2-4)] l n(1,5) by (intro exI [of _ k]) simp
qed

theorem utf8_long_forms_witness:
  "uni_utf8toucs4 [0xF8, 0x88, 0x80, 0x80, 0x80, 0] 0 = Some (Some (0x200000, 4))"
proof -
  have w: "uni_ucs4toutf8 (replicate 6 0) 0 0x200000 = Some (C_OK, [0xF8, 0x88, 0x80, 0x80, 0x80, 0])" by code_simp
  have "strlen_at (drop 0 [0xF8, 0x88, 0x80, 0x80, 0x80, 0]) = Some 5" by code_simp
  with utf8_long_forms [OF w] show ?thesis by simp
qed

text \<open>C38: On any text that ends in a zero octet \<open>uni_utf8toucs4\<close> reads nothing behind that octet: it returns an
  error, or a character and a positive number of octets that all lie before the end of the text.\<close>

theorem utf8_decoder_safe:
  assumes "i \<le> z" "z < length m" "m ! z = 0"
  shows "\<exists>r. uni_utf8toucs4 m i = Some r \<and> (\<forall>c n. r = Some (c, n) \<longrightarrow> 0 < n \<and> i + n \<le> z)"
proof -
  have f0: "\<not> following 0" by (simp add: following_def)
  have at: "mem_at m j = Some (m ! j)" if "j \<le> z" for j using that assms(2) by (simp add: mem_at_def)
  have step: "following (m ! j) \<Longrightarrow> j \<le> z \<Longrightarrow> Suc j \<le> z" for j using assms(3) f0 by (cases "j = z") auto
  have first: "m ! i \<noteq> 0 \<Longrightarrow> Suc i \<le> z" using assms(1,3) by (cases "i = z") auto
  note s = step [of "i + 1"] step [of "i + 2"] step [of "i + 3"] step [of "i + 4"] step [of "i + 5"]
  show ?thesis
    using first s unfolding uni_utf8toucs4_def at [OF assms(1)]
    by (cases "m ! i = 0 \<or> following (m ! i)"; cases "m ! i < 0xC0"; cases "following (m ! (i + 1))"; cases "following (m ! (i + 2))";
        cases "following (m ! (i + 3))"; cases "following (m ! (i + 4))"; cases "following (m ! (i + 5))")
      (auto simp: at)
qed

theorem utf8_decoder_safe_witness:
  "uni_utf8toucs4 [0xE2, 0x82, 0, 7] 0 = Some None \<and> (\<exists>r. uni_utf8toucs4 [0xE2, 0x82, 0, 7] 0 = Some r)"
  using utf8_decoder_safe [of 0 2 "[0xE2, 0x82, 0, 7]"] by (auto simp: uni_utf8toucs4_def mem_at_def following_def)

section \<open>UTF-16\<close>

lemma ushort_of_number: "ucast (word_of_nat n :: ulong) = (word_of_nat n :: ushort)"
  by (simp add: word_unat_eq_iff unsigned_ucast_eq unat_of_nat take_bit_eq_mod mod_mod_cancel)

lemma number_of_ushort: "n < 65536 \<Longrightarrow> ucast (word_of_nat n :: ushort) = (word_of_nat n :: ulong)"
  by (simp add: unsigned_of_nat take_bit_nat_eq_self)

lemma ushort_number_le: "v < 65536 \<Longrightarrow> numeral k \<le> (word_of_nat v :: ushort) \<longleftrightarrow> unat (numeral k :: ushort) \<le> v"
  by (simp add: word_le_nat_alt nowrap)

lemma ushort_number_less: "v < 65536 \<Longrightarrow> (word_of_nat v :: ushort) < numeral k \<longleftrightarrow> v < unat (numeral k :: ushort)"
  by (simp add: word_less_nat_alt nowrap)

lemmas ushort_numbers = ushort_number_le ushort_number_less number_of_ushort

lemma utf16_read_1: "holds m i [word_of_nat a] \<Longrightarrow> a < 0xD800 \<or> 0xDC00 \<le> a \<and> a < 0xFFFE \<Longrightarrow> uni_utf16toucs4 m i = Some (Some (word_of_nat a, 1))"
  by (auto simp: uni_utf16toucs4_def ushort_numbers)

lemma utf16_read_2:
  "holds m i (map word_of_nat [0xD800 + a, 0xDC00 + b]) \<Longrightarrow> a < 1024 \<Longrightarrow> b < 1024 \<Longrightarrow>
   uni_utf16toucs4 m i = Some (Some (word_of_nat (a * 1024 + b + 0x10000), 2))"
  by (simp add: uni_utf16toucs4_def ushort_numbers push_bit_eq_mult del: of_nat_add) (simp add: of_nat_add)

text \<open>What \<open>uni_ucs4toutf16\<close> writes is read back, in one or in two units; the exceptions are the numbers
  of the first units of pairs, which are written without complaint and not read.\<close>

theorem utf16_roundtrip:
  assumes "uni_ucs4toutf16 m di c = Some (C_OK, m')"
  shows "uni_utf16toucs4 m' di = Some (if 0xD800 \<le> c \<and> c < 0xDC00 then None else Some (c, if c < 0x10000 then 1 else 2))"
proof -
  obtain n where c: "c = word_of_nat n" "n < 4294967296" "unat c = n" using that [of "unat c"] by simp
  have ord: "c < numeral k \<longleftrightarrow> n < unat (numeral k :: ulong)" "numeral k \<le> c \<longleftrightarrow> unat (numeral k :: ulong) \<le> n"
    "c \<le> numeral k \<longleftrightarrow> n \<le> unat (numeral k :: ulong)" for k
    by (simp_all add: word_less_nat_alt word_le_nat_alt c(3))
  have uc: "ucast c = (word_of_nat n :: ushort)" unfolding c(1) by (rule ushort_of_number)
  show ?thesis
  proof (cases "n \<le> 0xFFFD")
    case True
    then have w: "mem_write m di ([word_of_nat n] @ [0]) = Some m'"
      using assms uc by (auto simp: uni_ucs4toutf16_def ord elim!: bind_cases)
    have h: "holds m' di [word_of_nat n]" "mem_at m' (di + 1) = Some 0"
      using holds_write [OF w] holds_write [of m di "[word_of_nat n, 0]" "[]" m'] w by simp_all
    show ?thesis
    proof (cases "0xD800 \<le> n \<and> n < 0xDC00")
      case True
      then show ?thesis using h by (simp add: uni_utf16toucs4_def ushort_numbers ord)
    next
      case False
      then show ?thesis using utf16_read_1 [OF h(1)] True unfolding c(1) [symmetric] by (auto simp: ord)
    qed
  next
    case False
    then have n: "0x10000 \<le> n" "n \<le> 0x10FFFF" using assms by (auto simp: uni_ucs4toutf16_def ord split: if_splits)
    let ?u = "n - 0x10000"
    have u: "c - 0x10000 = word_of_nat ?u" using n c(1) by (simp add: of_nat_diff)
    have u2: "?u < 4294967296" "?u < 1024 * 1024" using n by linarith+
    have "(word_of_nat ?u :: ulong) AND mask 10 = word_of_nat (take_bit 10 ?u)" by (simp add: take_bit_of_nat flip: take_bit_eq_mask)
    then have a: "(word_of_nat ?u :: ulong) AND 0x3FF = word_of_nat (?u mod 1024)" by (simp add: mask_eq_exp_minus_1 take_bit_eq_mod)
    have e: "ucast (drop_bit 10 (c - 0x10000) + 0xD800) = (word_of_nat (0xD800 + ?u div 1024) :: ushort)"
      "ucast (((c - 0x10000) AND 0x3FF) + 0xDC00) = (word_of_nat (0xDC00 + ?u mod 1024) :: ushort)"
      unfolding u a drop_bit_number [OF u2(1)] using ushort_of_number [of "0xD800 + ?u div 1024"] ushort_of_number [of "0xDC00 + ?u mod 1024"]
      by (simp_all add: add.commute)
    have w: "mem_write m di (map word_of_nat [0xD800 + ?u div 1024, 0xDC00 + ?u mod 1024] @ [0]) = Some m'"
      using assms False n unfolding uni_ucs4toutf16_def e by (auto simp: ord elim!: bind_cases simp del: of_nat_add)
    have "?u div 1024 < 1024" "?u mod 1024 < 1024" using u2(2) by (simp_all add: div_less_iff_less_mult)
    from utf16_read_2 [OF holds_write [OF w] this] have "uni_utf16toucs4 m' di = Some (Some (word_of_nat (?u + 0x10000), 2))"
      by (simp only: div_mult_mod_eq)
    moreover have "?u + 0x10000 = n" using n(1) by simp
    ultimately show ?thesis using n(1) c(1) [symmetric] by (simp add: ord)
  qed
qed

theorem utf16_roundtrip_witness: "uni_utf16toucs4 [0xD801, 0xDC37, 0] 0 = Some (Some (0x10437, 2))"
proof -
  have w: "uni_ucs4toutf16 (replicate 3 0) 0 0x10437 = Some (C_OK, [0xD801, 0xDC37, 0])" by code_simp
  from utf16_roundtrip [OF w] show ?thesis by simp
qed

end
