(* ===== verification/UTF7_Text.thy ===== *)
theory UTF7_Text
  imports Unicode_Text
begin

unbundle bit_operations_syntax

text \<open>
  UTF-7: one character at a time comes back; an array of characters does not on a little-endian machine.
\<close>

section \<open>One character\<close>

lemma mask_numbers: "(0x00FF :: ushort) = mask 8" "(0xFF00 :: ushort) = push_bit 8 (mask 8)" "(0x0F :: octet) = mask 4"
  by (simp_all add: mask_eq_exp_minus_1 push_bit_eq_mult)

lemma store_big: "store16 le (if le then C_SWAP16 u else u) = [ucast (drop_bit 8 u), ucast u]"
proof -
  have "ucast (C_SWAP16 u) = (ucast (drop_bit 8 u) :: octet)" "ucast (drop_bit 8 (C_SWAP16 u)) = (ucast u :: octet)"
    unfolding C_SWAP16_def mask_numbers by (rule bit_word_eqI; auto simp: bit_simps)+
  then show ?thesis by (simp add: store16_def)
qed

lemma load_big: "(let ucs2 = load16 le (ucast (drop_bit 8 u)) (ucast u) in if le then C_SWAP16 ucs2 else ucs2) = (u :: ushort)"
  unfolding C_SWAP16_def mask_numbers load16_def Let_def
  by (rule bit_word_eqI) (auto simp: bit_simps dest: bit_imp_le_length)

lemma utf7_loop_step:
  assumes "mem_at m i = Some (base64_digit v)" "v < 64" "b \<in> {0, 2, 4, 6}" "absorb v (b, c, []) = (b', c', out)"
    and "got < 2" "length dest = 2"
  shows "\<exists>dest'. utf7_loop m i got dest (pack_carry b c) = utf7_loop m (Suc i) (got + length out) dest' (pack_carry b' c') \<and>
     length dest' = 2 \<and> take (got + length out) dest' = take got dest @ out"
proof -
  have "length [v] \<le> length (drop got dest)" using assms(5,6) by simp
  from decode_piece [OF _ assms(3) _ this, where b' = b' and c' = c' and out = out and k = 0 and c = c] assms(2,4) obtain part where
    p: "uni_base64decode (drop got dest) (pack_carry b c) [base64_digit v, 0] = Some (part, length out, pack_carry b' c')"
      "take (length out) part = out" "length part = length (drop got dest)"
    by auto
  have "utf7_loop m i got dest (pack_carry b c) = utf7_loop m (Suc i) (got + length out) (take got dest @ part) (pack_carry b' c')"
    by (subst utf7_loop.simps) (simp add: assms(1,5) p(1) base64_digit_char [OF assms(2)])
  moreover have "length (take got dest @ part) = 2" "take (got + length out) (take got dest @ part) = take got dest @ out"
    using p(2,3) assms(5,6) by (simp_all add: min_def)
  ultimately show ?thesis by blast
qed

lemma utf7_loop_done: "2 \<le> got \<Longrightarrow> utf7_loop m i got dest carry = Some (i, got, dest, carry)"
  by (subst utf7_loop.simps) simp

text \<open>Two octets in Base64 are three characters.\<close>

lemma utf7_loop_three:
  assumes m: "mem_at m i = Some (base64_digit v1)" "mem_at m (Suc i) = Some (base64_digit v2)" "mem_at m (Suc (Suc i)) = Some (base64_digit v3)"
    and v: "v1 < 64" "v2 < 64" "v3 < 64"
    and a: "push_bit 2 v1 OR drop_bit 4 v2 = a" and b: "push_bit 4 v2 OR drop_bit 2 v3 = b" and l: "push_bit 6 v3 = 0"
  shows "utf7_loop m i 0 [0, 0] 0 = Some (i + 3, 2, [a, b], pack_carry 2 0)"
proof -
  have z: "pack_carry 0 0 = 0" by (simp add: pack_carry_def)
  obtain d1 where d1: "utf7_loop m i 0 [0, 0] (pack_carry 0 0) = utf7_loop m (Suc i) 0 d1 (pack_carry 6 (push_bit 2 v1))" "length d1 = 2"
    using utf7_loop_step [OF m(1) v(1) _ absorb_cases(1) [of v1 0 "[]"], where got = 0 and dest = "[0, 0]"] by auto
  have A: "absorb v2 (6, push_bit 2 v1, []) = (4, push_bit 4 v2, [a])" by (simp add: a)
  obtain d2 where d2: "utf7_loop m (Suc i) 0 d1 (pack_carry 6 (push_bit 2 v1)) = utf7_loop m (Suc (Suc i)) 1 d2 (pack_carry 4 (push_bit 4 v2))"
    "length d2 = 2" "take 1 d2 = [a]"
    using utf7_loop_step [OF m(2) v(2) _ A, where got = 0 and dest = d1] d1(2) by auto
  have B: "absorb v3 (4, push_bit 4 v2, []) = (2, 0, [b])" by (simp add: b l)
  obtain d3 where d3: "utf7_loop m (Suc (Suc i)) 1 d2 (pack_carry 4 (push_bit 4 v2)) = utf7_loop m (Suc (Suc (Suc i))) (1 + length [b]) d3 (pack_carry 2 0)"
    "length d3 = 2" "take (1 + length [b]) d3 = [a, b]"
    using utf7_loop_step [OF m(3) v(3) _ B, where got = 1 and dest = d2] d2(2,3) by auto
  have "d3 = [a, b]" using d3(2,3) by simp
  moreover have "utf7_loop m (Suc (Suc (Suc i))) (1 + length [b]) [a, b] (pack_carry 2 0) =
      Some (Suc (Suc (Suc i)), 1 + length [b], [a, b], pack_carry 2 0)"
    by (rule utf7_loop_done) simp
  ultimately have "utf7_loop m i 0 [0, 0] 0 = Some (Suc (Suc (Suc i)), 1 + length [b], [a, b], pack_carry 2 0)"
    using d1 d2 d3 by (simp only: z)
  then show ?thesis by (simp add: numeral_3_eq_3 numeral_2_eq_2)
qed

lemma utf7_loop_pair:
  assumes "holds m i (base64_text False [a, b])"
  shows "utf7_loop m i 0 [0, 0] 0 = Some (i + 3, 2, [a, b], pack_carry 2 0)"
proof (rule utf7_loop_three)
  show "mem_at m i = Some (base64_digit (drop_bit 2 a))" "mem_at m (Suc i) = Some (base64_digit (drop_bit 4 b OR push_bit 4 (a AND 0x03)))"
    "mem_at m (Suc (Suc i)) = Some (base64_digit (push_bit 2 (b AND 0x0F)))"
    using assms by (simp_all add: base64_text_def)
  show "drop_bit 2 a < 64" "drop_bit 4 b OR push_bit 4 (a AND 0x03) < 64" "push_bit 2 (b AND 0x0F) < 64"
    using sixtets_small [of _ "[a, b]"] by simp_all
  show "push_bit 2 (drop_bit 2 a) OR drop_bit 4 (drop_bit 4 b OR push_bit 4 (a AND 0x03)) = a" by (rule sixtet_bits)
  show "push_bit 4 (drop_bit 4 b OR push_bit 4 (a AND 0x03)) OR drop_bit 2 (push_bit 2 (b AND 0x0F)) = b" by (rule sixtet_bits)
  show "push_bit 6 (push_bit 2 (b AND 0x0F)) = 0" unfolding mask_numbers by (rule bit_word_eqI) (auto simp: bit_simps)
qed



lemma scast_octet:
  assumes "unat (x :: octet) < 128"
  shows "scast x = (ucast x :: ulong)"
proof -
  have "int (unat x) < int 128" using assms by (simp only: of_nat_less_iff)
  then have "signed_take_bit 7 (uint x) = uint x" by (intro signed_take_bit_int_eq_self) (simp_all add: order_trans [of _ 0])
  then have "sint x = uint x" by (simp add: sint_uint)
  then have "word_of_int (sint x) = (word_of_int (uint x) :: ulong)" by simp
  then show ?thesis by simp
qed

lemma char_positive: "c < 128 \<Longrightarrow> scast (ucast (c :: ulong) :: octet) = c"
proof -
  assume "c < 128"
  then obtain n where n: "c = word_of_nat n" "n < 128" using that [of "unat c"] by (simp add: word_less_nat_alt)
  then have "unat (word_of_nat n :: octet) < 128" by simp
  from scast_octet [OF this] show ?thesis using n octet_of_number [of n] number_of_octet [of n] by simp
qed

lemma base64_text_pair: "length (base64_text False [a, b]) = 3"
  by (simp add: base64_text_def)

lemma base64_no_minus:
  assumes "x \<in> set (base64_text False data)"
  shows "x \<noteq> 0x2D"
proof -
  obtain v where "v \<in> set (sixtets data)" "x = base64_digit v" using assms by (auto simp: base64_text_def)
  then have "uni_isbase64char x False" using sixtets_small base64_digit_char by blast
  then show ?thesis by (auto simp: uni_isbase64char_def)
qed

lemma ucs4toutf7_pair:
  assumes "128 \<le> c" "c \<le> 0xFFFF" "6 \<le> length m"
  shows "\<exists>m'. uni_ucs4toutf7 le m c = Some (C_OK, m') \<and>
     m' = [0x2B] @ base64_text False [ucast (drop_bit 8 (ucast c :: ushort)), ucast (ucast c :: ushort)] @ [0x2D, 0] @ drop 6 m"
proof -
  let ?a = "ucast (drop_bit 8 (ucast c :: ushort)) :: octet" and ?b = "ucast (ucast c :: ushort) :: octet"
  let ?t = "base64_text False [?a, ?b]"
  have l: "length ?t = 3" by (rule base64_text_pair)
  have n: "\<not> c < 128" "c \<noteq> 0x2B" using assms(1) by auto
  have "uni_base64encode (drop 1 m) [?a, ?b] False = Some (?t @ 0 # drop 5 m)"
    using puts_short [of 0 ?t "drop 1 m"] assms(3) l by (simp add: encode_text mem_write_ok)
  moreover have "mem_write m 0 [0x2B] = Some (0x2B # drop 1 m)" using assms(3) by (simp add: mem_write_ok)
  moreover have "0 \<notin> set (0x2B # ?t)" using base64_text_char [of 0 False "[?a, ?b]"] by auto
  then have "strlen_at (0x2B # ?t @ 0 # drop 5 m) = Some 4" using strlen_at_append [of "0x2B # ?t" "drop 5 m"] l by simp
  moreover have "mem_write (0x2B # ?t @ 0 # drop 5 m) 4 [0x2D, 0] = Some (0x2B # ?t @ [0x2D, 0] @ drop 6 m)"
    using assms(3) l by (simp add: mem_write_ok)
  ultimately show ?thesis using assms(2) n store_big [of le "ucast c"] by (simp add: uni_ucs4toutf7_def Let_def mem_part_def if_distrib [of "store16 le"])
qed

text \<open>What is read of one character in Base64.\<close>

lemma utf7_pair_read:
  assumes M: "M = [0x2B] @ base64_text False [ucast (drop_bit 8 (u :: ushort)), ucast u] @ [0x2D, 0] @ r"
  shows "uni_utf7toucs4 le M 0 0 = Some (ucast u, 4, 0x8200) \<and> uni_utf7toucs4 le M 4 0x8200 = Some (0, 2, 0) \<and> strlen_at M = Some 5"
proof -
  obtain a b :: octet where u: "a = ucast (drop_bit 8 u)" "b = ucast u" by blast
  note M = M [folded u]
  obtain x y z where t: "base64_text False [a, b] = [x, y, z]"
    using base64_text_pair [of a b] by (auto simp: length_Suc_conv eval_nat_numeral)
  then have tx: "x \<noteq> 0x2D" using base64_no_minus [of x "[a, b]"] by simp
  have "holds M 1 (base64_text False [a, b])" by (simp add: holds_def M)
  from utf7_loop_pair [OF this] have loop: "utf7_loop M (Suc 0) 0 [0, 0] 0 = Some (4, 2, [a, b], 0x0200)" by (simp add: pack_carry_def)
  have at: "mem_at M 0 = Some 0x2B" "mem_at M (Suc 0) = Some x" "mem_at M 4 = Some 0x2D" "mem_at M 5 = Some 0"
    by (simp_all add: M t mem_at_def)
  have ld: "(if le then C_SWAP16 (load16 le a b) else load16 le a b) = u" using load_big [of le u] unfolding Let_def u .
  have "uni_utf7toucs4 le M 0 0 = Some (ucast u, 4, 0x8200)"
    using tx ld by (cases le) (simp_all add: uni_utf7toucs4_def Let_def at loop)
  moreover have "uni_utf7toucs4 le M 4 0x8200 = Some (0, 2, 0)"
    by (simp add: uni_utf7toucs4_def at)
  moreover have "strlen_at M = Some 5"
  proof -
    have "0 \<notin> set (0x2B # base64_text False [a, b] @ [0x2D])" using base64_text_char [of 0 False "[a, b]"] by auto
    from strlen_at_append [OF this, of r] show ?thesis by (simp add: t M)
  qed
  ultimately show ?thesis by blast
qed

lemma ushort_of_char: "c \<le> 0xFFFF \<Longrightarrow> ucast (ucast (c :: ulong) :: ushort) = c"
proof -
  assume "c \<le> 0xFFFF"
  then obtain n where "c = word_of_nat n" "n < 65536" using that [of "unat c"] by (simp add: word_le_nat_alt)
  then show ?thesis using ushort_of_number [of n] number_of_ushort [of n] by simp
qed

text \<open>A character up to hexadecimal FFFF that \<open>uni_ucs4toutf7\<close> writes, into the six octets the header allows
  for it, is read back from there on a machine of either byte order: at once when it stands for itself, else
  with a carry with which the next call finds the end of the Base64 and of the text.\<close>

theorem utf7_char_roundtrip:
  assumes "0 < c" "c \<le> 0xFFFF" "6 \<le> length m"
  shows "\<exists>m' k carry. uni_ucs4toutf7 le m c = Some (C_OK, m') \<and> uni_utf7toucs4 le' m' 0 0 = Some (c, k, carry) \<and>
     (if carry = 0 then strlen_at m' = Some k
      else strlen_at m' = Some (k + 1) \<and> uni_utf7toucs4 le' m' k carry = Some (0, 2, 0))"
proof -
  consider "c < 128" "c \<noteq> 0x2B" | "c = 0x2B" | "128 \<le> c" using not_less by blast
  then show ?thesis
  proof cases
    case 1
    then have "uni_ucs4toutf7 le m c = Some (C_OK, [ucast c, 0] @ drop 2 m)" using assms(3) by (simp add: uni_ucs4toutf7_def mem_write_ok numeral_2_eq_2)
    moreover have "(ucast c :: octet) \<noteq> 0x2B" "(ucast c :: octet) \<noteq> 0" using char_positive [OF 1(1)] 1(2) assms(1) by auto
    ultimately show ?thesis using char_positive [OF 1(1)]
      by (intro exI [of _ "[ucast c, 0] @ drop 2 m"] exI [of _ 1] exI [of _ 0]) (simp add: uni_utf7toucs4_def mem_at_def)
  next
    case 2
    then have "uni_ucs4toutf7 le m c = Some (C_OK, [0x2B, 0x2D, 0] @ drop 3 m)" using assms(3) by (simp add: uni_ucs4toutf7_def mem_write_ok numeral_3_eq_3)
    then show ?thesis using 2 by (intro exI [of _ "[0x2B, 0x2D, 0] @ drop 3 m"] exI [of _ 2] exI [of _ 0])
      (simp add: uni_utf7toucs4_def mem_at_def)
  next
    case 3
    from ucs4toutf7_pair [OF 3 assms(2,3)] obtain M where
      w: "uni_ucs4toutf7 le m c = Some (C_OK, M)"
        "M = [0x2B] @ base64_text False [ucast (drop_bit 8 (ucast c :: ushort)), ucast (ucast c :: ushort)] @ [0x2D, 0] @ drop 6 m"
      by blast
    then show ?thesis using utf7_pair_read [OF w(2), where le = le'] ushort_of_char [OF assms(2)]
      by (intro exI [of _ M] exI [of _ 4] exI [of _ "0x8200"]) simp
  qed
qed

theorem utf7_char_roundtrip_witness:
  "\<exists>m' k carry. uni_ucs4toutf7 True (replicate 6 0xFF) 0xE4 = Some (C_OK, m') \<and> uni_utf7toucs4 False m' 0 0 = Some (0xE4, k, carry)"
  using utf7_char_roundtrip [where c = "0xE4" and m = "replicate 6 0xFF" and le = True and le' = False] by auto

section \<open>Arrays\<close>

lemma utf7_run_one: "utf7_run le [c] (Suc 0) 0 0 (replicate 57 0) = Some (1, 1, ucast c # replicate 56 0)"
  by (subst utf7_run.simps) (simp add: mem_at_def mem_write_ok Let_def)

text \<open>The array function does not swap the first character of a stretch: on a little-endian machine what
  it writes for a character beyond ASCII is read as the character with its two octets exchanged.\<close>

theorem utf7_array_swapped:
  assumes "128 \<le> c" "c \<le> 0xFFFF" "6 \<le> length m"
  shows "\<exists>m'. uni_ucs4arraytoutf7 le m [c] 1 = Some (C_OK, m') \<and>
     uni_utf7toucs4 le' m' 0 0 = Some (if le then ucast (C_SWAP16 (ucast c)) else c, 4, 0x8200)"
proof -
  obtain w where w: "w = (if le then C_SWAP16 (ucast c) else ucast c)" by blast
  obtain p where t: "p = base64_text False [ucast (drop_bit 8 w), ucast w]" by blast
  have n: "\<not> c < 128" "c \<noteq> 0x2B" using assms(1) by auto
  have l: "length p = 3" unfolding t by (rule base64_text_pair)
  have "C_SWAP16 (C_SWAP16 u) = u" for u unfolding C_SWAP16_def mask_numbers by (rule bit_word_eqI) (auto simp: bit_simps dest: bit_imp_le_length)
  then have s: "store16 le (ucast c) = [ucast (drop_bit 8 w), ucast w]" using store_big [of le w] w by (cases le) simp_all
  have e: "uni_base64encode (drop 1 m) (store16 le (ucast c)) False = Some (p @ 0 # drop 5 m)"
    using puts_short [of 0 p "drop 1 m"] assms(3) l by (simp add: encode_text mem_write_ok s flip: t)
  have f: "mem_write m 0 [0x2B] = Some (0x2B # drop 1 m)" using assms(3) by (simp add: mem_write_ok)
  have "0 \<notin> set p" using base64_text_char [of 0 False] t by blast
  then have g: "strlen_at (p @ 0 # drop 5 m) = Some 3" using strlen_at_append [of p "drop 5 m"] l by simp
  have h: "mem_write (0x2B # p @ 0 # drop 5 m) 4 [0x2D] = Some (0x2B # p @ 0x2D # drop 5 m)"
    "mem_write (0x2B # p @ 0x2D # drop 5 m) 5 [0] = Some (0x2B # p @ [0x2D, 0] @ drop 6 m)"
    using assms(3) l by (simp_all add: mem_write_ok)
  have fin: "array_loop le (0x2B # p @ 0x2D # drop 5 m) [c] (Suc 0) (Suc 0) 5 = Some (C_OK, 0x2B # p @ [0x2D, 0] @ drop 6 m)"
    by (subst array_loop.simps) (simp add: h)
  have "uni_ucs4arraytoutf7 le m [c] 1 = Some (C_OK, 0x2B # p @ [0x2D, 0] @ drop 6 m)"
    unfolding uni_ucs4arraytoutf7_def
    by (subst array_loop.simps)
      (use n assms(2) e g h(1) in \<open>simp add: mem_at_def utf7_run_one f mem_part_def C_BASE64_DATA_def fin\<close>)
  then show ?thesis using utf7_pair_read [of "0x2B # p @ [0x2D, 0] @ drop 6 m" w "drop 6 m" le'] ushort_of_char [OF assms(2)]
    by (cases le) (simp_all add: w t)
qed

theorem utf7_array_swapped_witness:
  "\<exists>m'. uni_ucs4arraytoutf7 True (replicate 6 0) [0xE4] 1 = Some (C_OK, m') \<and> uni_utf7toucs4 True m' 0 0 = Some (0xE400, 4, 0x8200)"
proof -
  have "ucast (C_SWAP16 (ucast (0xE4 :: ulong))) = (0xE400 :: ulong)" by code_simp
  then show ?thesis using utf7_array_swapped [of "0xE4" "replicate 6 0" True True] by simp
qed

end
