(* ===== verification/Code_Pages.thy ===== *)
theory Code_Pages
  imports Unicode
begin

unbundle bit_operations_syntax

text \<open>
  The tables of the eight-bit code sets (orb/uni_touni.cc, orb/uni_fromuni.cc) and what the two conversions
  do with one character of a code set that has tables: up to three arrays lead to Unicode; back, arrays for
  stretches of Unicode, lists of exceptions searched by bisection, and the tables of the other direction as
  a check.
\<close>

section \<open>The arrays\<close>

definition ebc2uniArray :: "ushort list" where
  "ebc2uniArray =
    [0x00, 0x00, 0x00, 0x00, 0x00, 0x00, 0x00, 0x00, 0x00, 0x00, 0x00, 0x00,
     0x00, 0x00, 0x00, 0x00, 0x00, 0x00, 0x00, 0x00, 0x00, 0x00, 0x00, 0x00,
     0x00, 0x00, 0x00, 0x00, 0x00, 0x00, 0x00, 0x00, 0x20, 0x00, 0x00, 0x00,
     0x00, 0x00, 0x00, 0x00, 0x00, 0x00, 0xA2, 0x2E, 0x3C, 0x28, 0x2B, 0x7C,
     0x26, 0x00, 0x00, 0x00, 0x00, 0x00, 0x00, 0x00, 0x00, 0x00, 0x21, 0x24,
     0x2A, 0x29, 0x3B, 0xAC, 0x2D, 0x2F, 0x00, 0x00, 0x00, 0x00, 0x00, 0x00,
     0x00, 0x00, 0x7C, 0x2C, 0x25, 0x5F, 0x3E, 0x3F, 0x00, 0x00, 0x00, 0x00,
     0x00, 0x00, 0x00, 0x00, 0x00, 0x00, 0x3A, 0x23, 0x40, 0x27, 0x3D, 0x22,
     0x00, 0x61, 0x62, 0x63, 0x64, 0x65, 0x66, 0x67, 0x68, 0x69, 0x00, 0x7B,
     0x00, 0x00, 0x00, 0x00, 0x00, 0x6A, 0x6B, 0x6C, 0x6D, 0x6E, 0x6F, 0x70,
     0x71, 0x72, 0x00, 0x7D, 0x00, 0x00, 0x00, 0x00, 0x00, 0xDF, 0x73, 0x74,
     0x75, 0x76, 0x77, 0x78, 0x79, 0x7A, 0x00, 0x00, 0x00, 0x00, 0x00, 0x00,
     0x00, 0x00, 0x00, 0x00, 0x00, 0x00, 0x00, 0x00, 0x00, 0x00, 0x00, 0x00,
     0x00, 0x00, 0x00, 0x00, 0x7B, 0x41, 0x42, 0x43, 0x44, 0x45, 0x46, 0x47,
     0x48, 0x49, 0x00, 0x00, 0x00, 0x00, 0x00, 0x00, 0x7D, 0x4A, 0x4B, 0x4C,
     0x4D, 0x4E, 0x4F, 0x50, 0x51, 0x52, 0x00, 0x00, 0x00, 0x00, 0x00, 0x00,
     0x00, 0xDF, 0x53, 0x54, 0x55, 0x56, 0x57, 0x58, 0x59, 0x5A, 0x00, 0x00,
     0x00, 0x00, 0x00, 0x00, 0x30, 0x31, 0x32, 0x33, 0x34, 0x35, 0x36, 0x37,
     0x38, 0x39, 0x30, 0x7C, 0x00, 0x00, 0x00, 0x00]"

definition iso22uniArray :: "ushort list" where
  "iso22uniArray =
    [0xA0, 0x104, 0x2D8, 0x141, 0xA4, 0x13D, 0x15A, 0xA7, 0xA8, 0x160, 0x15E, 0x164,
     0x179, 0xAD, 0x17D, 0x17B, 0xB0, 0x105, 0x2DB, 0x142, 0xB4, 0x13E, 0x15B, 0x2C7,
     0xB8, 0x161, 0x15F, 0x165, 0x17A, 0x2DD, 0x17E, 0x176, 0x154, 0xC1, 0xC2, 0x102,
     0xC4, 0x139, 0x106, 0xC7, 0x10C, 0xC9, 0x118, 0xCB, 0x11A, 0xCD, 0xCE, 0x10E,
     0x110, 0x143, 0x147, 0xD3, 0xD4, 0x150, 0xD6, 0xD7, 0x154, 0x16E, 0xDA, 0x170,
     0xDC, 0xDD, 0x162, 0xDF, 0x155, 0xE1, 0xE2, 0x103, 0xE4, 0x13A, 0x107, 0xE7,
     0x10D, 0xE9, 0x119, 0xEB, 0x11B, 0xED, 0xEE, 0x10F, 0x111, 0x144, 0x148, 0xF3,
     0xF4, 0x151, 0xF6, 0xF7, 0x159, 0x16F, 0xFA, 0x171, 0xFC, 0xFD, 0x163, 0x2D9]"

definition iso32uniArray :: "ushort list" where
  "iso32uniArray =
    [0xA0, 0x126, 0x2D8, 0xA3, 0xA4, 0x00, 0x124, 0xA7, 0xA8, 0x130, 0x15E, 0x11E,
     0x134, 0xAD, 0x00, 0x17B, 0xB0, 0x127, 0xB2, 0xB3, 0xB4, 0xB5, 0x125, 0xB7,
     0xB8, 0x131, 0x15F, 0x11F, 0x135, 0xBD, 0x00, 0x17C, 0xC0, 0xC1, 0xC2, 0x00,
     0xC4, 0x10A, 0x108, 0xC7, 0xC8, 0xC9, 0xCA, 0xCB, 0xCC, 0xCD, 0xCE, 0xCF,
     0x00, 0xD1, 0xD2, 0xD3, 0xD4, 0x120, 0xD6, 0xD7, 0x11C, 0xD9, 0xDA, 0xDB,
     0xDC, 0x16C, 0x15C, 0xDF, 0xE0, 0xE1, 0xE2, 0x00, 0xE4, 0x10B, 0x109, 0xE7,
     0xE8, 0xE9, 0xEA, 0xEB, 0xEC, 0xED, 0xEE, 0xEF, 0x00, 0xF1, 0xF2, 0xF3,
     0xF4, 0x121, 0xF6, 0xF7, 0x11D, 0xF9, 0xFA, 0xFB, 0xFC, 0x16D, 0x15D, 0x2D9]"

definition iso42uniArray :: "ushort list" where
  "iso42uniArray =
    [0xA0, 0x104, 0x138, 0x156, 0xA4, 0x128, 0x13B, 0xA7, 0xA8, 0x160, 0x112, 0x122,
     0x166, 0xAD, 0x17D, 0x2C9, 0xB0, 0x105, 0x2DB, 0x157, 0xB4, 0x129, 0x13C, 0x2C7,
     0xB8, 0x161, 0x113, 0x123, 0x167, 0x14A, 0x17E, 0x14B, 0x100, 0xC1, 0xC2, 0xC3,
     0xC4, 0xC5, 0xC6, 0x12E, 0x10C, 0xC9, 0x118, 0xCB, 0x116, 0xCD, 0xCE, 0x12A,
     0x110, 0x145, 0x14C, 0x136, 0xD4, 0xD5, 0xD6, 0xD7, 0xD8, 0x172, 0xDA, 0xDB,
     0xDC, 0x168, 0x16A, 0xDF, 0x101, 0xE1, 0xE2, 0xE3, 0xE4, 0xE5, 0xE6, 0x12F,
     0x10D, 0xE9, 0x119, 0xEB, 0x117, 0xED, 0xEE, 0x12B, 0x111, 0x146, 0x14D, 0x137,
     0xF4, 0xF5, 0xF6, 0xF7, 0xF8, 0x173, 0xFA, 0xFB, 0xFC, 0x169, 0x16B, 0x2D9]"

definition koi2uniArray :: "ushort list" where
  "koi2uniArray =
    [0x2500, 0x2502, 0x250C, 0x2510, 0x2514, 0x2518, 0x251C, 0x2524, 0x252C, 0x2534, 0x253C, 0x2580,
     0x2584, 0x2588, 0x258C, 0x2590, 0x2591, 0x2592, 0x2593, 0x2320, 0x220E, 0x2219, 0x221A, 0x2248,
     0x2264, 0x2265, 0xA0, 0x2321, 0xB0, 0xB2, 0xB7, 0xF7, 0x2550, 0x2551, 0x2552, 0x451,
     0x2553, 0x2554, 0x2555, 0x2556, 0x2557, 0x2558, 0x2559, 0x255A, 0x255B, 0x255C, 0x255D, 0x255E,
     0x255F, 0x2560, 0x2561, 0x401, 0x2562, 0x2563, 0x2564, 0x2565, 0x2565, 0x2567, 0x2568, 0x2569,
     0x256A, 0x256B, 0x256C, 0xA9, 0x44E, 0x430, 0x431, 0x446, 0x434, 0x435, 0x444, 0x433,
     0x445, 0x438, 0x439, 0x43A, 0x43B, 0x43C, 0x43D, 0x43E, 0x43F, 0x44F, 0x440, 0x441,
     0x442, 0x443, 0x436, 0x432, 0x44C, 0x44B, 0x437, 0x448, 0x44D, 0x449, 0x447, 0x44A,
     0x42E, 0x410, 0x411, 0x426, 0x414, 0x415, 0x424, 0x413, 0x425, 0x418, 0x419, 0x41A,
     0x41B, 0x41C, 0x41D, 0x41E, 0x41F, 0x42F, 0x420, 0x421, 0x422, 0x423, 0x416, 0x412,
     0x42C, 0x42B, 0x417, 0x428, 0x42D, 0x429, 0x427, 0x42A]"

definition iso72uniArray :: "ushort list" where
  "iso72uniArray =
    [0xA0, 0x2BD, 0x2BC, 0xA3, 0x00, 0x00, 0xA6, 0xA7, 0xA8, 0xA9, 0x00, 0xAB,
     0xAC, 0xAD, 0x00, 0xAF, 0xB0, 0xB1, 0xB2, 0xB3, 0xB4, 0x385, 0x386, 0xB7,
     0x388, 0x389, 0x38A, 0xBB, 0x38C, 0xBD, 0x38E, 0x38F]"

definition iso102uniArray :: "ushort list" where
  "iso102uniArray =
    [0xA0, 0x104, 0x112, 0x122, 0x12A, 0x128, 0x136, 0xA7, 0x138, 0x110, 0x160, 0x166,
     0x17D, 0x335, 0x16A, 0x14A, 0xB0, 0x105, 0x113, 0x123, 0x12B, 0x129, 0x137, 0xB7,
     0x13C, 0x111, 0x161, 0x167, 0x17E, 0x336, 0x16B, 0x14B, 0x100, 0xC1, 0xC2, 0xC3,
     0xC4, 0xC5, 0xC6, 0x12E, 0x10C, 0xC9, 0x118, 0xCB, 0x116, 0xCD, 0xCE, 0xCF,
     0xD0, 0x145, 0x14C, 0xD3, 0xD4, 0xD5, 0xD6, 0x168, 0xD8, 0x172, 0xDA, 0xDB,
     0xDC, 0xDD, 0xDE, 0xDF, 0x101, 0xE1, 0xE2, 0xE3, 0xE4, 0xE5, 0xE6, 0x12F,
     0x10D, 0xE9, 0x119, 0xEB, 0x117, 0xED, 0xEE, 0xEF, 0xF0, 0x146, 0x14D, 0xF3,
     0xF4, 0xF5, 0xF6, 0x169, 0xF8, 0x173, 0xFA, 0xFB, 0xFC, 0xFD, 0xFE, 0x138]"

definition win2uniArray :: "ushort list" where
  "win2uniArray =
    [0x00, 0x00, 0x201A, 0x192, 0x201E, 0x2026, 0x2020, 0x2021, 0x2C6, 0x2031, 0x160, 0x2039,
     0x152, 0x00, 0x00, 0x00, 0x00, 0x2018, 0x2019, 0x201C, 0x201D, 0x200E, 0x2013, 0x2014,
     0x2DC, 0x2122, 0x161, 0x20A0, 0x153, 0x00, 0x00, 0x118]"

definition ibm2uniArray :: "ushort list" where
  "ibm2uniArray =
    [0xFF, 0x263A, 0x263B, 0x2665, 0x2666, 0x2663, 0x2660, 0x07, 0x08, 0x09, 0x0A, 0x0B,
     0x0C, 0x0D, 0x0E, 0x0F, 0x25B6, 0x25C0, 0x2195, 0x203C, 0xB6, 0xA7, 0x2583, 0x21A8,
     0x2191, 0x2193, 0x2192, 0x2190, 0x2319, 0x2194, 0x25B2, 0x25BC]"

definition ibm4372uniArray :: "ushort list" where
  "ibm4372uniArray =
    [0xC7, 0xFC, 0xE9, 0xE2, 0xE4, 0xE0, 0xE5, 0xE7, 0xEA, 0xEB, 0xE8, 0xEF,
     0xEE, 0xEC, 0xC4, 0xC5, 0xC9, 0xE6, 0xC6, 0xF4, 0xF6, 0xF2, 0xFB, 0xF9,
     0xFF, 0xD6, 0xDC, 0xA2, 0xA3, 0xA5, 0x00, 0x192, 0xE1, 0xED, 0xF3, 0xFA,
     0xF1, 0xD1, 0xAA, 0xBA, 0xBF, 0x2310, 0xAC, 0xBD, 0xBC, 0xA1, 0xAB, 0xBB,
     0x2591, 0x2592, 0x2593, 0x2502, 0x2524, 0x2561, 0x2562, 0x2556, 0x2555, 0x2563, 0x2551, 0x2557,
     0x255D, 0x255C, 0x255B, 0x2510, 0x2514, 0x2534, 0x252C, 0x251C, 0x2520, 0x253C, 0x255E, 0x255F,
     0x255A, 0x2554, 0x2569, 0x2566, 0x2560, 0x2550, 0x256C, 0x2567, 0x2568, 0x2561, 0x2565, 0x2559,
     0x2558, 0x2552, 0x2553, 0x256B, 0x256A, 0x2518, 0x250C, 0x2588, 0x2584, 0x258C, 0x2590, 0x2580,
     0x3B1, 0xDF, 0x393, 0x3A0, 0x3A3, 0x3C3, 0xB5, 0x3D2, 0x3A6, 0x398, 0x3A9, 0x3B4,
     0x221E, 0x2205, 0x2208, 0x2229, 0x2261, 0xB1, 0x2265, 0x2264, 0x2320, 0x2321, 0xF7, 0x2248,
     0xB0, 0xB7, 0x2219, 0x221A, 0x3B7, 0xB2, 0x220E, 0xA0]"

definition ibm8502uniArray :: "ushort list" where
  "ibm8502uniArray =
    [0xC7, 0xFC, 0xE9, 0xE2, 0xE4, 0xE0, 0xE5, 0xE7, 0xEA, 0xEB, 0xE8, 0xEF,
     0xEE, 0xEC, 0xC4, 0xC5, 0xC9, 0xE6, 0xC6, 0xF4, 0xF6, 0xF2, 0xFB, 0xF9,
     0xFF, 0xD6, 0xDC, 0xF8, 0xA3, 0xD8, 0xD7, 0x192, 0xE1, 0xED, 0xF3, 0xFA,
     0xF1, 0xD1, 0xAA, 0xBA, 0xBF, 0xAE, 0xAC, 0xBD, 0xBC, 0xA1, 0xAB, 0xBB,
     0x2591, 0x2592, 0x2593, 0x2502, 0x2524, 0xC1, 0xC2, 0xC0, 0xA9, 0x2563, 0x2551, 0x2557,
     0x255D, 0xA2, 0xA5, 0x2510, 0x2514, 0x2534, 0x252C, 0x251C, 0x2520, 0x253C, 0xE3, 0xC3,
     0x255A, 0x2554, 0x2569, 0x2566, 0x2560, 0x2550, 0x256C, 0xA4, 0xF0, 0xD0, 0xCA, 0xCB,
     0xC8, 0xB9, 0xCD, 0xCE, 0xCF, 0x2518, 0x250C, 0x2588, 0x2584, 0xA6, 0xCC, 0x2580,
     0xD3, 0xDF, 0xD4, 0xD2, 0xF5, 0xD5, 0xB5, 0xF4, 0xDE, 0xDA, 0x155, 0x170,
     0xFD, 0xDD, 0x163, 0xB4, 0xAD, 0x2DD, 0x2DB, 0x2C7, 0x2D8, 0xA7, 0xF7, 0xD8,
     0xB0, 0xA8, 0x2219, 0x171, 0x158, 0x159, 0x220E, 0xA0]"

definition ibm8522uniArray :: "ushort list" where
  "ibm8522uniArray =
    [0xC7, 0xFC, 0xE9, 0xE2, 0xE4, 0x16F, 0x107, 0xE7, 0x142, 0xEB, 0x150, 0x151,
     0xEE, 0x179, 0xC4, 0x106, 0xC9, 0x139, 0x13A, 0xF4, 0xF6, 0x13D, 0x13E, 0x15A,
     0x15B, 0xD6, 0xDC, 0x164, 0x165, 0x141, 0xD7, 0x10D, 0xE1, 0xED, 0xF3, 0xFA,
     0x104, 0x105, 0x17D, 0x17E, 0x118, 0x119, 0xA0, 0x17A, 0x10C, 0x15F, 0xAB, 0xBB,
     0x2591, 0x2592, 0x2593, 0x2502, 0x2524, 0xC1, 0xC2, 0x11A, 0x15E, 0x2563, 0x2551, 0x2557,
     0x255D, 0x17B, 0x17C, 0x2510, 0x2514, 0x2534, 0x252C, 0x251C, 0x2520, 0x253C, 0x102, 0x103,
     0x255A, 0x2554, 0x2569, 0x2566, 0x2560, 0x2550, 0x256C, 0xA4, 0x111, 0x110, 0x10E, 0xCB,
     0x10F, 0x147, 0xCD, 0xCE, 0x11B, 0x2518, 0x250C, 0x2588, 0x2584, 0x162, 0x16E, 0x2580,
     0xD3, 0xDF, 0xD4, 0x143, 0x144, 0x148, 0x160, 0x161, 0x154, 0xDA, 0x155, 0x170,
     0xFD, 0xDD, 0x163, 0xB4, 0xAD, 0x2DD, 0x2DB, 0x2C7, 0x2D8, 0xA7, 0xF7, 0xD8,
     0xB0, 0xA8, 0x2219, 0x171, 0x158, 0x159, 0x220E, 0xA0]"

definition ibm8602uniArray :: "ushort list" where
  "ibm8602uniArray =
    [0xC7, 0xFC, 0xE9, 0xE2, 0xE3, 0xE0, 0xC1, 0xE7, 0xEA, 0xCA, 0xE8, 0xCD,
     0xD4, 0xEC, 0xC3, 0xC2, 0xC9, 0xC0, 0xC8, 0xF4, 0xF5, 0xF2, 0xDA, 0xF9,
     0xCC, 0xD5, 0xDC, 0xA2, 0xA3, 0xD9, 0x00, 0xD3, 0xE1, 0xED, 0xF3, 0xFA,
     0xF1, 0xD1, 0xAA, 0xBA, 0xBF, 0xD2, 0xAC, 0xBD, 0xBC, 0xA1, 0xAB, 0xBB]"

definition ibm8632uniArray :: "ushort list" where
  "ibm8632uniArray =
    [0xC7, 0xFC, 0xE9, 0xE2, 0xC2, 0xE0, 0xB6, 0xE7, 0xEA, 0xEB, 0xE8, 0xEF,
     0xEE, 0x3D, 0xC0, 0xA7, 0xC9, 0xC8, 0xCA, 0xF4, 0xCB, 0xCF, 0xFB, 0xFA,
     0xA4, 0xD4, 0xDC, 0xA2, 0xA3, 0xD9, 0xDB, 0x00, 0xA6, 0xB4, 0xF3, 0xFA,
     0xA8, 0xB8, 0xB3, 0xAF, 0xCE, 0x2310, 0xAC, 0xBD, 0xBC, 0xBE, 0xAB, 0xBB]"

definition ibm8652uniArray :: "ushort list" where
  "ibm8652uniArray =
    [0xFA, 0xFF, 0xD6, 0xDC, 0xF8, 0xA3, 0xD8, 0x00, 0x192, 0xE1, 0xED, 0xF3,
     0xFA, 0xF1, 0xD1, 0xAA, 0xBA, 0xBF, 0x2310, 0xAC, 0xBD, 0xBC, 0xA1, 0xAB,
     0xA4]"

definition ibm8662uniArray :: "ushort list" where
  "ibm8662uniArray =
    [0x410, 0x411, 0x412, 0x413, 0x414, 0x415, 0x416, 0x417, 0x418, 0x419, 0x41A, 0x41B,
     0x41C, 0x41D, 0x41E, 0x41F, 0x420, 0x421, 0x422, 0x423, 0x424, 0x425, 0x426, 0x427,
     0x428, 0x429, 0x42A, 0x42B, 0x42C, 0x42D, 0x42E, 0x42F, 0x430, 0x431, 0x432, 0x433,
     0x434, 0x435, 0x436, 0x437, 0x438, 0x439, 0x43A, 0x43B, 0x43C, 0x43D, 0x43E, 0x43F,
     0x2591, 0x2592, 0x2593, 0x2502, 0x2524, 0x2561, 0x2562, 0x2556, 0x2555, 0x2563, 0x2551, 0x2557,
     0x255D, 0x255C, 0x255B, 0x2510, 0x2514, 0x2534, 0x252C, 0x251C, 0x2500, 0x253C, 0x255E, 0x255F,
     0x255A, 0x2554, 0x2569, 0x2566, 0x2560, 0x2550, 0x256C, 0x2567, 0x2568, 0x2564, 0x2565, 0x2559,
     0x2558, 0x2552, 0x2553, 0x256B, 0x256A, 0x2518, 0x250C, 0x2588, 0x2584, 0x258C, 0x2590, 0x2580,
     0x440, 0x441, 0x442, 0x443, 0x444, 0x445, 0x446, 0x447, 0x448, 0x449, 0x44A, 0x44B,
     0x44C, 0x44D, 0x44E, 0x44F, 0x401, 0x451, 0x404, 0x454, 0x407, 0x457, 0x40E, 0x45E,
     0xB0, 0x2219, 0xB7, 0x221A, 0x2116, 0xA4, 0x25A0, 0xA0]"

definition macarr2uniArray :: "ushort list" where
  "macarr2uniArray =
    [0x2190, 0x2192, 0x2191, 0x2193]"

definition mac2uniArray :: "ushort list" where
  "mac2uniArray =
    [0xC4, 0xC5, 0xC7, 0xC9, 0xD1, 0xD6, 0xDC, 0xE1, 0xE0, 0xE2, 0xE4, 0xE3,
     0xE5, 0xE7, 0xE9, 0xE8, 0xEA, 0xEB, 0xED, 0xEC, 0xEE, 0xEF, 0xF1, 0xF3,
     0xF2, 0xF4, 0xF6, 0xF5, 0xFA, 0xF9, 0xFB, 0xFC, 0x2020, 0xB0, 0xA2, 0xA3,
     0xA7, 0x220E, 0xB6, 0xDF, 0xAE, 0xA9, 0x2122, 0xB4, 0xA8, 0x2260, 0xC6, 0xD8,
     0x221E, 0xB1, 0x2264, 0x2265, 0xA5, 0xB5, 0x2202, 0x2211, 0x220F, 0x3C0, 0x222B, 0xAA,
     0xBA, 0x3A9, 0xE6, 0xF8, 0xBF, 0xA1, 0xAC, 0x221A, 0x192, 0x2248, 0x2206, 0xAB,
     0xBB, 0x2026, 0xA0, 0xC0, 0xC3, 0xD5, 0x152, 0x153, 0x2013, 0x2014, 0x201C, 0x201D,
     0x2018, 0x2019, 0xF7, 0x2205, 0xFF, 0x178, 0x2215, 0xA4, 0x2039, 0x20A0, 0xFB01, 0xFB02,
     0x2021, 0xB7, 0x201A, 0x201E, 0x2031, 0xC2, 0xCA, 0xC1, 0xCB, 0xC8, 0xCD, 0xCE,
     0xCF, 0xCC, 0xD3, 0xD4, 0x00, 0xD2, 0xDA, 0xDB, 0xD9, 0xB9, 0x2C6, 0x2DC,
     0x2C9, 0x2C7, 0x2D9, 0x2DA, 0x2DB, 0x2DC, 0x2CE, 0x2D8]"

definition uni2ebcArray :: "octet list" where
  "uni2ebcArray =
    [0x40, 0x5A, 0x7E, 0x7B, 0x5B, 0x6C, 0x50, 0x7D, 0x4D, 0x5D, 0x5C, 0x4E,
     0x6B, 0x6D, 0x4B, 0x61, 0xF0, 0xF1, 0xF2, 0xF3, 0xF4, 0xF5, 0xF6, 0xF7,
     0xF8, 0xF9, 0x7A, 0x5E, 0x4C, 0x7E, 0x6E, 0x6F, 0x7C, 0xC1, 0xC2, 0xC3,
     0xC4, 0xC5, 0xC6, 0xC7, 0xC8, 0xC9, 0xD1, 0xD2, 0xD3, 0xD4, 0xD5, 0xD6,
     0xD7, 0xD8, 0xD9, 0xE2, 0xE3, 0xE4, 0xE5, 0xE6, 0xE7, 0xE8, 0xE9, 0x00,
     0x00, 0x00, 0x00, 0x6D, 0x00, 0x81, 0x82, 0x83, 0x84, 0x85, 0x86, 0x87,
     0x88, 0x89, 0x91, 0x92, 0x93, 0x94, 0x95, 0x96, 0x97, 0x98, 0x99, 0xA2,
     0xA3, 0xA4, 0xA5, 0xA6, 0xA7, 0xA8, 0xA9, 0x8B, 0x6A, 0x9B, 0x00, 0x00]"

definition uni2macArray :: "octet list" where
  "uni2macArray =
    [0xCA, 0xC1, 0xA2, 0xA3, 0xDB, 0xB4, 0x00, 0xA4, 0xAC, 0xA9, 0xAB, 0xC7,
     0xC2, 0xD0, 0xA8, 0x00, 0xA1, 0xB1, 0x00, 0x00, 0xAB, 0xB5, 0xA6, 0xE1,
     0x00, 0xF5, 0xAC, 0xC8, 0x00, 0x00, 0x00, 0xC0, 0xCB, 0xE7, 0xE5, 0xCC,
     0x80, 0x81, 0xA6, 0x82, 0xE9, 0x83, 0xE6, 0xE8, 0xCD, 0xCA, 0xCB, 0xCC,
     0x00, 0x84, 0xF1, 0xCE, 0xCF, 0xCD, 0x85, 0x00, 0xAF, 0xF5, 0xF3, 0xF4,
     0x86, 0x00, 0x00, 0xA7, 0x88, 0x87, 0x89, 0x8B, 0x8A, 0x8C, 0xBE, 0x8D,
     0x8F, 0x8E, 0x90, 0x91, 0x93, 0x92, 0x94, 0x95, 0x00, 0x96, 0x98, 0x97,
     0x99, 0x9B, 0x9A, 0xD6, 0xBF, 0x9D, 0x9C, 0x9E, 0x9F, 0x00, 0x00, 0xD8]"

definition exc2macArray :: "(ushort \<times> octet) list" where
  "exc2macArray =
    [(0x0152, 0xCE), (0x0153, 0xCF), (0x0178, 0xD9), (0x0192, 0xC4), (0x02C6, 0xF6), (0x02C7, 0xF9),
     (0x02C9, 0xF8), (0x02CE, 0xFE), (0x02D8, 0xFF), (0x02D9, 0xFA), (0x02DA, 0xFB), (0x02DB, 0xFC),
     (0x02DC, 0xF7), (0x03A9, 0xBD), (0x03C0, 0xB9), (0x2013, 0xD0), (0x2014, 0xD1), (0x2018, 0xD4),
     (0x2019, 0xD5), (0x201A, 0xE2), (0x201C, 0xD2), (0x201D, 0xD3), (0x201E, 0xE3), (0x2020, 0xA0),
     (0x2021, 0xE0), (0x2026, 0xC9), (0x2031, 0xE4), (0x2039, 0xDC), (0x20A0, 0xDD), (0x2122, 0xAA),
     (0x2190, 0x1C), (0x2191, 0x1E), (0x2192, 0x1D), (0x2193, 0x1F), (0x2202, 0xB6), (0x2205, 0xD7),
     (0x2206, 0xC6), (0x220E, 0xA5), (0x220F, 0xB8), (0x2211, 0xB7), (0x2215, 0xDA), (0x221A, 0xC3),
     (0x221E, 0xB0), (0x222B, 0xBA), (0x2248, 0xC5), (0x2260, 0xAD), (0x2264, 0xB2), (0x2265, 0xB3),
     (0xFB01, 0xDE), (0xFB02, 0xDF)]"

definition uni2koiArray1 :: "octet list" where
  "uni2koiArray1 =
    [0xE1, 0xE2, 0xF7, 0xE7, 0xE4, 0xE5, 0xF6, 0xFA, 0xE9, 0xEA, 0xEB, 0xEC,
     0xED, 0xEE, 0xEF, 0xF0, 0xF2, 0xF3, 0xF4, 0xF5, 0xE6, 0xE8, 0xE3, 0xFE,
     0xFB, 0xFD, 0xFF, 0xF9, 0xF8, 0xFC, 0xE0, 0xF1, 0xC1, 0xC2, 0xD7, 0xC7,
     0xC4, 0xC5, 0xD6, 0xDA, 0xC9, 0xCA, 0xCB, 0xCC, 0xCD, 0xCE, 0xCF, 0xD0,
     0xD2, 0xD3, 0xD4, 0xD5, 0xC6, 0xC8, 0xC3, 0xDE, 0xDB, 0xDD, 0xDF, 0xD9,
     0xD8, 0xDC, 0xC0, 0xD1]"

definition uni2koiArray2 :: "octet list" where
  "uni2koiArray2 =
    [0xA0, 0xA1, 0xA2, 0xA4, 0xA5, 0xA6, 0xA7, 0xA8, 0xA9, 0xAA, 0xAB, 0xAC,
     0xAD, 0xAE, 0xAF, 0xB0, 0xB1, 0xB2, 0xB4, 0xB5, 0xB6, 0xB7, 0xB8, 0xB9,
     0xBA, 0xBB, 0xBC, 0xBD, 0xBE]"

definition exc2koiArray :: "(ushort \<times> octet) list" where
  "exc2koiArray =
    [(0x00A0, 0x9A), (0x00A9, 0xBF), (0x00B0, 0x9C), (0x00B2, 0x9D), (0x00B7, 0x9E), (0x00F7, 0x9F),
     (0x0401, 0xB3), (0x0451, 0xA3), (0x220E, 0x94), (0x2219, 0x95), (0x221A, 0x96), (0x2248, 0x97),
     (0x2264, 0x98), (0x2265, 0x99), (0x2320, 0x93), (0x2321, 0x9B), (0x2500, 0x80), (0x2502, 0x81),
     (0x250C, 0x82), (0x2510, 0x83), (0x2514, 0x84), (0x2518, 0x85), (0x251C, 0x86), (0x2524, 0x87),
     (0x252C, 0x88), (0x2534, 0x89), (0x253C, 0x8A), (0x2580, 0x8B), (0x2584, 0x8C), (0x2588, 0x8D),
     (0x258C, 0x8E), (0x2590, 0x8F), (0x2591, 0x90), (0x2592, 0x91), (0x2593, 0x92)]"

definition uni2ibm866Array1 :: "octet list" where
  "uni2ibm866Array1 =
    [0x80, 0x81, 0x82, 0x83, 0x84, 0x85, 0x86, 0x87, 0x88, 0x89, 0x8A, 0x8B,
     0x8C, 0x8D, 0x8E, 0x8F, 0x90, 0x91, 0x92, 0x93, 0x94, 0x95, 0x96, 0x97,
     0x98, 0x99, 0x9A, 0x9B, 0x9C, 0x9D, 0x9E, 0x9F, 0xA0, 0xA1, 0xA2, 0xA3,
     0xA4, 0xA5, 0xA6, 0xA7, 0xA8, 0xA9, 0xAA, 0xAB, 0xAC, 0xAD, 0xAE, 0xAF,
     0xE0, 0xE1, 0xE2, 0xE3, 0xE4, 0xE5, 0xE6, 0xE7, 0xE8, 0xE9, 0xEA, 0xEB,
     0xEC, 0xED, 0xEE, 0xEF]"

definition uni2ibm866Array2 :: "octet list" where
  "uni2ibm866Array2 =
    [0xCD, 0xBA, 0xD5, 0xD6, 0xC9, 0xB8, 0xB7, 0xBB, 0xD4, 0xD3, 0xC8, 0xBE,
     0xBD, 0xBC, 0xC6, 0xC7, 0xCC, 0xB5, 0xB6, 0xB9, 0xD1, 0xD2, 0xCB, 0xCF,
     0xD0, 0xCA, 0xD8, 0xD7, 0xCE]"

definition exc2ibm866Array :: "(ushort \<times> octet) list" where
  "exc2ibm866Array =
    [(0x00A0, 0xFF), (0x00A4, 0xFD), (0x00B0, 0xF8), (0x00B7, 0xFA), (0x0401, 0xF0), (0x0404, 0xF2),
     (0x0407, 0xF4), (0x040E, 0xF6), (0x0451, 0xF1), (0x0454, 0xF3), (0x0457, 0xF5), (0x045E, 0xF7),
     (0x2116, 0xFC), (0x2219, 0xF9), (0x221A, 0xFB), (0x2500, 0xC4), (0x2502, 0xB3), (0x250C, 0xDA),
     (0x2510, 0xBF), (0x2514, 0xC0), (0x2518, 0xD9), (0x251C, 0xC3), (0x2524, 0xB4), (0x252C, 0xC2),
     (0x2534, 0xC1), (0x253C, 0xC5), (0x2580, 0xDF), (0x2584, 0xDC), (0x2588, 0xDB), (0x258C, 0xDD),
     (0x2590, 0xDE), (0x2591, 0xB0), (0x2592, 0xB1), (0x2593, 0xB2), (0x25A0, 0xFE)]"

definition uni2isoArray :: "octet list" where
  "uni2isoArray =
    [0xC0, 0xE0, 0xC3, 0xE3, 0xA1, 0xB1, 0xC6, 0xE6, 0xC6, 0xE6, 0xC5, 0xE5,
     0xC8, 0xE8, 0xCF, 0xEF, 0xD0, 0xF0, 0xAA, 0xBA, 0x00, 0x00, 0xCC, 0xEC,
     0xCA, 0xEA, 0xCC, 0xEC, 0xD8, 0xF8, 0xAB, 0xBB, 0xD5, 0xF5, 0xAB, 0xBB,
     0xA6, 0xB6, 0xA1, 0xB1, 0xA5, 0xB5, 0xCF, 0xEF, 0x00, 0x00, 0xC7, 0xE7,
     0xA9, 0xB9, 0x00, 0x00, 0xAC, 0xBC, 0xD3, 0xF3, 0xA2, 0xC5, 0xE5, 0xA6,
     0xB6, 0xA5, 0xB5, 0x00, 0x00, 0xA3, 0xB3, 0xD1, 0xF1, 0xD1, 0xF1, 0xD2,
     0xF2, 0x00, 0xBD, 0xBF, 0xD2, 0xF2, 0x00, 0x00, 0xD5, 0xF5, 0x00, 0x00,
     0xC0, 0xE0, 0xA3, 0xB3, 0xD8, 0xF8, 0xA6, 0xB6, 0xDE, 0xFE, 0xAA, 0xBA,
     0xA9, 0xB9, 0xDE, 0xFE, 0xAB, 0xBB, 0xFC, 0xAD, 0xDD, 0xFD, 0xDE, 0xFE,
     0xDD, 0xFD, 0xD9, 0xF9, 0xDB, 0xFB, 0xD9, 0xF9, 0x00, 0x00, 0x00, 0x00,
     0x00, 0xAC, 0xBC, 0xAF, 0xBF, 0xAE, 0xBE, 0x00]"

definition exc2iso2Array :: "(ushort \<times> octet) list" where
  "exc2iso2Array =
    [(0x02C7, 0xB7), (0x02D8, 0xA2), (0x02D9, 0xFF), (0x02DB, 0xB2), (0x02DD, 0xBD)]"

definition exc2iso3Array :: "(ushort \<times> octet) list" where
  "exc2iso3Array =
    [(0x02D8, 0xA2), (0x02D9, 0xFF)]"

definition exc2iso4Array :: "(ushort \<times> octet) list" where
  "exc2iso4Array =
    [(0x02C7, 0xB7), (0x02C9, 0xAF), (0x02D9, 0xFF), (0x02DB, 0xB2)]"

definition exc2iso7Array :: "(ushort \<times> octet) list" where
  "exc2iso7Array =
    [(0x02BC, 0xA2), (0x02BD, 0xA1), (0x0385, 0xB5), (0x0386, 0xB6), (0x0388, 0xB8), (0x0389, 0xB9),
     (0x038A, 0xBA), (0x038C, 0xBC), (0x038E, 0xBE), (0x038F, 0xBF)]"

definition exc2iso8Array :: "(ushort \<times> octet) list" where
  "exc2iso8Array =
    [(0x00D7, 0xAA), (0x00E7, 0xBA), (0x0333, 0xDF)]"

definition exc2iso9Array :: "(ushort \<times> octet) list" where
  "exc2iso9Array =
    [(0x011E, 0xD0), (0x011F, 0xF0), (0x0130, 0xDD), (0x0131, 0xFD), (0x015E, 0xDE), (0x015F, 0xFE)]"

definition exc2iso10Array :: "(ushort \<times> octet) list" where
  "exc2iso10Array =
    [(0x0110, 0xA9), (0x0111, 0xB9), (0x0112, 0xA2), (0x0113, 0xB2), (0x0122, 0xA3), (0x0123, 0xB3),
     (0x012A, 0xA4), (0x012B, 0xB4), (0x0130, 0xBD), (0x0136, 0xA6), (0x0137, 0xB6), (0x0138, 0xFF),
     (0x013B, 0xA8), (0x013C, 0xA8), (0x014A, 0xAF), (0x015E, 0xBE), (0x0160, 0xAA), (0x0161, 0xBA),
     (0x0166, 0xAB), (0x0167, 0xBB), (0x0168, 0xD7), (0x0169, 0xF7), (0x016A, 0xAE), (0x016B, 0xBE),
     (0x017D, 0xAC), (0x017E, 0xBC), (0x0335, 0xAD), (0x0336, 0xBD)]"

definition uni2ibmArray1 :: "octet list" where
  "uni2ibmArray1 =
    [0xFF, 0xAD, 0x9B, 0x9C, 0xCF, 0x9D, 0xDD, 0x15, 0xF9, 0xB7, 0xA6, 0xAE,
     0xAA, 0xF0, 0xA9, 0xEE, 0xF8, 0xF1, 0xFD, 0xFC, 0xEF, 0xE6, 0x14, 0xF9,
     0xF7, 0xD5, 0xA7, 0xAF, 0xAC, 0xAB, 0xF3, 0xA8, 0xB7, 0xB5, 0xB6, 0xC7,
     0x8E, 0x8F, 0x92, 0x80, 0xD4, 0x90, 0xD2, 0xD3, 0xDE, 0xD6, 0xD7, 0xD8,
     0xD1, 0xA5, 0xE3, 0xE0, 0xE2, 0xE5, 0x99, 0x8E, 0x9D, 0xEB, 0xE9, 0xEA,
     0x9A, 0xED, 0xE8, 0xE1, 0x85, 0xA0, 0x83, 0xC6, 0x84, 0x86, 0x91, 0x87,
     0x8A, 0x82, 0x88, 0x89, 0x8D, 0xA1, 0x8C, 0x8B, 0xD0, 0xA4, 0x95, 0xA2,
     0x93, 0xE4, 0x94, 0xF6, 0x9B, 0x97, 0xA3, 0x96, 0x81, 0xEC, 0xE7, 0x98,
     0x00, 0x00, 0xC6, 0xC7, 0xA4, 0xA5, 0x8F, 0x86, 0x00, 0x00, 0x00, 0x00,
     0xAC, 0x9F, 0xD2, 0xD4, 0xD1, 0xD0, 0x00, 0x00, 0x00, 0x00, 0x00, 0x00,
     0xA8, 0xA9, 0xB7, 0xD8, 0x00, 0x00, 0x00, 0x00, 0x00, 0x00, 0x00, 0x00,
     0x00, 0x00, 0x00, 0x00, 0x00, 0x00, 0x00, 0x00, 0x00, 0x00, 0x00, 0x00,
     0x00, 0x00, 0x00, 0x00, 0x00, 0x00, 0x00, 0x00, 0x00, 0x91, 0x92, 0x00,
     0x00, 0x95, 0x96, 0x00, 0x00, 0x9D, 0x88, 0xE5, 0xE4, 0x00, 0x00, 0xD5,
     0xE5, 0x00, 0x00, 0x00, 0x00, 0x00, 0x00, 0x00, 0x8A, 0x8B, 0x00, 0x00,
     0xE8, 0xEA, 0x00, 0x00, 0xFC, 0xFD, 0x97, 0x98, 0x00, 0x00, 0xB8, 0xAD,
     0xE6, 0xE7, 0xDD, 0xEE, 0x9B, 0x9C, 0x00, 0x00, 0x00, 0x00, 0x00, 0x00,
     0x00, 0x00, 0xDE, 0x85, 0xEB, 0xFB, 0x00, 0x00, 0x00, 0x00, 0x00, 0x00,
     0x00, 0x8D, 0xAB, 0xBD, 0xBE, 0xA6, 0xA7, 0x00]"

definition uni2ibmArray2 :: "octet list" where
  "uni2ibmArray2 =
    [0xCD, 0xBA, 0xD5, 0xD6, 0xC9, 0xB8, 0xB7, 0xBB, 0xD4, 0xD3, 0xC8, 0xBE,
     0xBD, 0xBC, 0xC6, 0xC7, 0xCC, 0xB5, 0xB6, 0xB9, 0xD1, 0xD2, 0xCB, 0xCF,
     0xD0, 0xCA, 0xD8, 0xD7, 0xCE]"

definition exc2ibm437Array :: "(ushort \<times> octet) list" where
  "exc2ibm437Array =
    [(0x0192, 0x9F), (0x0393, 0xE2), (0x0398, 0xE9), (0x03A0, 0xE3), (0x03A3, 0xE4), (0x03A6, 0xE8),
     (0x03A9, 0xEA), (0x03B1, 0xE0), (0x03B4, 0xEB), (0x03B7, 0xFC), (0x03C3, 0xE5), (0x03D2, 0xE7),
     (0x20C3, 0x13), (0x2191, 0x18), (0x2192, 0x1A), (0x2193, 0x19), (0x2194, 0x1D), (0x2195, 0x12),
     (0x21A8, 0x17), (0x2205, 0xED), (0x2208, 0xEE), (0x220E, 0xFE), (0x2219, 0xFA), (0x221A, 0xFB),
     (0x221E, 0xEC), (0x2229, 0xEF), (0x2248, 0xF7), (0x2261, 0xF0), (0x2264, 0xF3), (0x2265, 0xF2),
     (0x2310, 0xA9), (0x2319, 0x1C), (0x2320, 0xF4), (0x2321, 0xF5), (0x2500, 0xC4), (0x2502, 0xB3),
     (0x250C, 0xDA), (0x2510, 0xBF), (0x2514, 0xC0), (0x2518, 0xD9), (0x251C, 0xC3), (0x2524, 0xB4),
     (0x252C, 0xC2), (0x2534, 0xC1), (0x253C, 0xC5), (0x2580, 0xDF), (0x2584, 0xDC), (0x2588, 0xDB),
     (0x258C, 0xDD), (0x2590, 0xDE), (0x2591, 0xB0), (0x2592, 0xB1), (0x2593, 0xB2), (0x25B2, 0x1E),
     (0x25B6, 0x10), (0x25BC, 0x1F), (0x25C0, 0x11), (0x263A, 0x01), (0x263B, 0x02), (0x2660, 0x06),
     (0x2663, 0x05), (0x2665, 0x03), (0x2666, 0x04)]"

definition exc2ibm850Array :: "(ushort \<times> octet) list" where
  "exc2ibm850Array =
    [(0x0192, 0x9F), (0x20C3, 0x13), (0x2191, 0x18), (0x2192, 0x1A), (0x2193, 0x19), (0x2194, 0x1D),
     (0x2195, 0x12), (0x21A8, 0x17), (0x220E, 0xFE), (0x2219, 0xFA), (0x2319, 0x1C), (0x2500, 0xC4),
     (0x2502, 0xB3), (0x250C, 0xDA), (0x2510, 0xBF), (0x2514, 0xC0), (0x2518, 0xD9), (0x251C, 0xC3),
     (0x252C, 0xC2), (0x2534, 0xC1), (0x253C, 0xC5), (0x2580, 0xDF), (0x2584, 0xDC), (0x2588, 0xDB),
     (0x2591, 0xB0), (0x2592, 0xB1), (0x2593, 0xB2), (0x25B2, 0x1E), (0x25B6, 0x10), (0x25BC, 0x1F),
     (0x25C0, 0x11), (0x263A, 0x01), (0x263B, 0x02), (0x2660, 0x06), (0x2663, 0x05), (0x2665, 0x03),
     (0x2666, 0x04)]"

definition exc2ibm852Array :: "(ushort \<times> octet) list" where
  "exc2ibm852Array =
    [(0x02C7, 0xF3), (0x02D8, 0xF4), (0x02DB, 0xF2), (0x02DD, 0xF1), (0x20C3, 0x13), (0x2191, 0x18),
     (0x2192, 0x1A), (0x2193, 0x19), (0x2194, 0x1D), (0x2195, 0x12), (0x21A8, 0x17), (0x220E, 0xFE),
     (0x2219, 0xFA), (0x2319, 0x1C), (0x2500, 0xC4), (0x2502, 0xB3), (0x250C, 0xDA), (0x2510, 0xBF),
     (0x2514, 0xC0), (0x2518, 0xD9), (0x251C, 0xC3), (0x252C, 0xC2), (0x2534, 0xC1), (0x253C, 0xC5),
     (0x2580, 0xDF), (0x2584, 0xDC), (0x2588, 0xDB), (0x2591, 0xB0), (0x2592, 0xB1), (0x2593, 0xB2),
     (0x25B2, 0x1E), (0x25B6, 0x10), (0x25BC, 0x1F), (0x25C0, 0x11), (0x263A, 0x01), (0x263B, 0x02),
     (0x2660, 0x06), (0x2663, 0x05), (0x2665, 0x03), (0x2666, 0x04)]"

definition exc2ibm860Array :: "(ushort \<times> octet) list" where
  "exc2ibm860Array =
    [(0x00C0, 0x91), (0x00C1, 0x86), (0x00C2, 0x8F), (0x00C3, 0x8E), (0x00C8, 0x92), (0x00C9, 0x86),
     (0x00CA, 0x89), (0x00CC, 0x98), (0x00CD, 0x8B), (0x00D2, 0xA9), (0x00D3, 0x9F), (0x00D4, 0x8C),
     (0x00D5, 0x99), (0x00D9, 0x9D), (0x00DA, 0x96), (0x00E3, 0x84), (0x00F5, 0x94)]"

definition exc2ibm863Array :: "(ushort \<times> octet) list" where
  "exc2ibm863Array =
    [(0x00A4, 0x98), (0x00A6, 0xA0), (0x00A8, 0xA4), (0x00AF, 0xA7), (0x00B3, 0xA6), (0x00B4, 0xA1),
     (0x00B8, 0xA5), (0x00BE, 0xAD), (0x00C0, 0x8E), (0x00C2, 0x84), (0x00C8, 0x91), (0x00CA, 0x92),
     (0x00CB, 0x94), (0x00CE, 0xA8), (0x00CF, 0x95), (0x00D4, 0x99), (0x00D9, 0x9D), (0x00DB, 0x9E),
     (0x00FA, 0x97)]"

definition exc2ibm865Array :: "(ushort \<times> octet) list" where
  "exc2ibm865Array =
    [(0x00A4, 0xAF), (0x00FA, 0x97)]"

definition exc2winArray :: "(ushort \<times> octet) list" where
  "exc2winArray =
    [(0x0118, 0x9F), (0x0152, 0x8C), (0x0153, 0x9C), (0x0160, 0x8A), (0x0161, 0x9A), (0x0192, 0x83),
     (0x02C6, 0x88), (0x02DC, 0x98), (0x2013, 0x96), (0x2014, 0x97), (0x2018, 0x91), (0x2019, 0x92),
     (0x201A, 0x82), (0x201C, 0x93), (0x201D, 0x94), (0x201E, 0x84), (0x2020, 0x86), (0x2021, 0x87),
     (0x2026, 0x85), (0x2031, 0x89), (0x2039, 0x8B), (0x20A0, 0x9B), (0x2122, 0x99), (0x220F, 0x95)]"

section \<open>Tables\<close>

record ctounitable =
  tu_array :: "ushort list"
  tu_offset :: nat
  tu_size :: nat

record cfromunitable =
  fu_array :: "octet list"
  fu_offset :: nat
  fu_size :: nat
  fu_transMask :: ulong

record cexcepttable =
  ex_array :: "(ushort \<times> octet) list"
  ex_size :: nat

definition uni_ebc2uniTable :: ctounitable where
  "uni_ebc2uniTable = \<lparr>tu_array = ebc2uniArray, tu_offset = 0x20, tu_size = length ebc2uniArray\<rparr>"

definition uni_iso22uniTable :: ctounitable where
  "uni_iso22uniTable = \<lparr>tu_array = iso22uniArray, tu_offset = 0xA0, tu_size = length iso22uniArray\<rparr>"

definition uni_iso32uniTable :: ctounitable where
  "uni_iso32uniTable = \<lparr>tu_array = iso32uniArray, tu_offset = 0xA0, tu_size = length iso32uniArray\<rparr>"

definition uni_iso42uniTable :: ctounitable where
  "uni_iso42uniTable = \<lparr>tu_array = iso42uniArray, tu_offset = 0xA0, tu_size = length iso42uniArray\<rparr>"

definition uni_koi2uniTable :: ctounitable where
  "uni_koi2uniTable = \<lparr>tu_array = koi2uniArray, tu_offset = 0x80, tu_size = length koi2uniArray\<rparr>"

definition uni_iso72uniTable :: ctounitable where
  "uni_iso72uniTable = \<lparr>tu_array = iso72uniArray, tu_offset = 0xA0, tu_size = length iso72uniArray\<rparr>"

definition uni_iso102uniTable :: ctounitable where
  "uni_iso102uniTable = \<lparr>tu_array = iso102uniArray, tu_offset = 0xA0, tu_size = length iso102uniArray\<rparr>"

definition uni_win2uniTable :: ctounitable where
  "uni_win2uniTable = \<lparr>tu_array = win2uniArray, tu_offset = 0x80, tu_size = length win2uniArray\<rparr>"

definition uni_ibm2uniTable :: ctounitable where
  "uni_ibm2uniTable = \<lparr>tu_array = ibm2uniArray, tu_offset = 0x00, tu_size = length ibm2uniArray\<rparr>"

definition uni_ibm4372uniTable :: ctounitable where
  "uni_ibm4372uniTable = \<lparr>tu_array = ibm4372uniArray, tu_offset = 0x80, tu_size = length ibm4372uniArray\<rparr>"

definition uni_ibm8502uniTable :: ctounitable where
  "uni_ibm8502uniTable = \<lparr>tu_array = ibm8502uniArray, tu_offset = 0x80, tu_size = length ibm8502uniArray\<rparr>"

definition uni_ibm8522uniTable :: ctounitable where
  "uni_ibm8522uniTable = \<lparr>tu_array = ibm8522uniArray, tu_offset = 0x80, tu_size = length ibm8522uniArray\<rparr>"

definition uni_ibm8602uniTable :: ctounitable where
  "uni_ibm8602uniTable = \<lparr>tu_array = ibm8602uniArray, tu_offset = 0x80, tu_size = length ibm8602uniArray\<rparr>"

definition uni_ibm8632uniTable :: ctounitable where
  "uni_ibm8632uniTable = \<lparr>tu_array = ibm8632uniArray, tu_offset = 0x80, tu_size = length ibm8632uniArray\<rparr>"

definition uni_ibm8652uniTable :: ctounitable where
  "uni_ibm8652uniTable = \<lparr>tu_array = ibm8652uniArray, tu_offset = 0x97, tu_size = length ibm8652uniArray\<rparr>"

definition uni_ibm8662uniTable :: ctounitable where
  "uni_ibm8662uniTable = \<lparr>tu_array = ibm8662uniArray, tu_offset = 0x80, tu_size = length ibm8662uniArray\<rparr>"

definition uni_mac2uniTable :: ctounitable where
  "uni_mac2uniTable = \<lparr>tu_array = mac2uniArray, tu_offset = 0x80, tu_size = length mac2uniArray\<rparr>"

definition uni_macarr2uniTable :: ctounitable where
  "uni_macarr2uniTable = \<lparr>tu_array = macarr2uniArray, tu_offset = 0x1C, tu_size = length macarr2uniArray\<rparr>"

definition uni2ebcTable :: cfromunitable where
  "uni2ebcTable = \<lparr>fu_array = uni2ebcArray, fu_offset = 0x0020, fu_size = length uni2ebcArray, fu_transMask = 0x00000000\<rparr>"

definition uni2macTable :: cfromunitable where
  "uni2macTable = \<lparr>fu_array = uni2macArray, fu_offset = 0x00A0, fu_size = length uni2macArray, fu_transMask = 0xF0000000\<rparr>"

definition uni2koiTable1 :: cfromunitable where
  "uni2koiTable1 = \<lparr>fu_array = uni2koiArray1, fu_offset = 0x0410, fu_size = length uni2koiArray1, fu_transMask = 0x00000000\<rparr>"

definition uni2koiTable2 :: cfromunitable where
  "uni2koiTable2 = \<lparr>fu_array = uni2koiArray2, fu_offset = 0x2550, fu_size = length uni2koiArray2, fu_transMask = 0x00000000\<rparr>"

definition uni2ibm866Table1 :: cfromunitable where
  "uni2ibm866Table1 = \<lparr>fu_array = uni2ibm866Array1, fu_offset = 0x0410, fu_size = length uni2ibm866Array1, fu_transMask = 0x00000000\<rparr>"

definition uni2ibm866Table2 :: cfromunitable where
  "uni2ibm866Table2 = \<lparr>fu_array = uni2ibm866Array2, fu_offset = 0x2550, fu_size = length uni2ibm866Array2, fu_transMask = 0x00000000\<rparr>"

definition uni2isoTable :: cfromunitable where
  "uni2isoTable = \<lparr>fu_array = uni2isoArray, fu_offset = 0x0100, fu_size = length uni2isoArray, fu_transMask = 0x00000000\<rparr>"

definition uni2ibmTable1 :: cfromunitable where
  "uni2ibmTable1 = \<lparr>fu_array = uni2ibmArray1, fu_offset = 0x00A0, fu_size = length uni2ibmArray1, fu_transMask = 0xF7FF007E\<rparr>"

definition uni2ibmTable2 :: cfromunitable where
  "uni2ibmTable2 = \<lparr>fu_array = uni2ibmArray2, fu_offset = 0x2550, fu_size = length uni2ibmArray2, fu_transMask = 0xF7FF007E\<rparr>"

definition exc2macTable :: cexcepttable where
  "exc2macTable = \<lparr>ex_array = exc2macArray, ex_size = 50\<rparr>"

definition exc2koiTable :: cexcepttable where
  "exc2koiTable = \<lparr>ex_array = exc2koiArray, ex_size = 35\<rparr>"

definition exc2ibm866Table :: cexcepttable where
  "exc2ibm866Table = \<lparr>ex_array = exc2ibm866Array, ex_size = 35\<rparr>"

definition exc2iso2Table :: cexcepttable where
  "exc2iso2Table = \<lparr>ex_array = exc2iso2Array, ex_size = 5\<rparr>"

definition exc2iso3Table :: cexcepttable where
  "exc2iso3Table = \<lparr>ex_array = exc2iso3Array, ex_size = 3\<rparr>"

definition exc2iso4Table :: cexcepttable where
  "exc2iso4Table = \<lparr>ex_array = exc2iso4Array, ex_size = 4\<rparr>"

definition exc2iso7Table :: cexcepttable where
  "exc2iso7Table = \<lparr>ex_array = exc2iso7Array, ex_size = 10\<rparr>"

definition exc2iso8Table :: cexcepttable where
  "exc2iso8Table = \<lparr>ex_array = exc2iso8Array, ex_size = 3\<rparr>"

definition exc2iso9Table :: cexcepttable where
  "exc2iso9Table = \<lparr>ex_array = exc2iso9Array, ex_size = 6\<rparr>"

definition exc2iso10Table :: cexcepttable where
  "exc2iso10Table = \<lparr>ex_array = exc2iso10Array, ex_size = 28\<rparr>"

definition exc2ibm437Table :: cexcepttable where
  "exc2ibm437Table = \<lparr>ex_array = exc2ibm437Array, ex_size = 63\<rparr>"

definition exc2ibm850Table :: cexcepttable where
  "exc2ibm850Table = \<lparr>ex_array = exc2ibm850Array, ex_size = 37\<rparr>"

definition exc2ibm852Table :: cexcepttable where
  "exc2ibm852Table = \<lparr>ex_array = exc2ibm852Array, ex_size = 37\<rparr>"

definition exc2ibm860Table1 :: cexcepttable where
  "exc2ibm860Table1 = \<lparr>ex_array = drop 1 exc2ibm437Array, ex_size = 62\<rparr>"

definition exc2ibm860Table2 :: cexcepttable where
  "exc2ibm860Table2 = \<lparr>ex_array = exc2ibm860Array, ex_size = 17\<rparr>"

definition exc2ibm863Table1 :: cexcepttable where
  "exc2ibm863Table1 = \<lparr>ex_array = drop 1 exc2ibm437Array, ex_size = 62\<rparr>"

definition exc2ibm863Table2 :: cexcepttable where
  "exc2ibm863Table2 = \<lparr>ex_array = exc2ibm863Array, ex_size = 19\<rparr>"

definition exc2ibm865Table1 :: cexcepttable where
  "exc2ibm865Table1 = \<lparr>ex_array = drop 1 exc2ibm437Array, ex_size = 62\<rparr>"

definition exc2ibm865Table2 :: cexcepttable where
  "exc2ibm865Table2 = \<lparr>ex_array = exc2ibm865Array, ex_size = 2\<rparr>"

definition exc2winTable :: cexcepttable where
  "exc2winTable = \<lparr>ex_array = exc2winArray, ex_size = 24\<rparr>"

section \<open>Code sets\<close>

text \<open>The numbers of the code set registry (orb/uni_strtypes.h).\<close>

definition C_ASCII7 :: ulong where "C_ASCII7 = 0xffff0001"
definition C_EBCDIC :: ulong where "C_EBCDIC = 0xffff0002"
definition C_HTML3 :: ulong where "C_HTML3 = 0xffff0003"
definition C_MACINTOSH :: ulong where "C_MACINTOSH = 0xffff0004"
definition C_WIN31_LATIN1 :: ulong where "C_WIN31_LATIN1 = 0xffff0005"
definition C_KOI8_R :: ulong where "C_KOI8_R = 0xffff0006"
definition C_UTF7 :: ulong where "C_UTF7 = 0xffff0007"
definition C_ISO8859_1 :: ulong where "C_ISO8859_1 = 0x00010001"
definition C_ISO8859_2 :: ulong where "C_ISO8859_2 = 0x00010002"
definition C_ISO8859_3 :: ulong where "C_ISO8859_3 = 0x00010003"
definition C_ISO8859_4 :: ulong where "C_ISO8859_4 = 0x00010004"
definition C_ISO8859_5 :: ulong where "C_ISO8859_5 = 0x00010005"
definition C_ISO8859_6 :: ulong where "C_ISO8859_6 = 0x00010006"
definition C_ISO8859_7 :: ulong where "C_ISO8859_7 = 0x00010007"
definition C_ISO8859_8 :: ulong where "C_ISO8859_8 = 0x00010008"
definition C_ISO8859_9 :: ulong where "C_ISO8859_9 = 0x00010009"
definition C_ISO8859_10 :: ulong where "C_ISO8859_10 = 0x0001000a"
definition C_ISO646 :: ulong where "C_ISO646 = 0x00010020"
definition C_UCS2 :: ulong where "C_UCS2 = 0x00010100"
definition C_UCS4 :: ulong where "C_UCS4 = 0x00010106"
definition C_UTF16 :: ulong where "C_UTF16 = 0x00010109"
definition C_UTF8 :: ulong where "C_UTF8 = 0x05010001"
definition C_IBM_437 :: ulong where "C_IBM_437 = 0x100201b5"
definition C_IBM_850 :: ulong where "C_IBM_850 = 0x10020352"
definition C_IBM_852 :: ulong where "C_IBM_852 = 0x10020354"
definition C_IBM_860 :: ulong where "C_IBM_860 = 0x1002011a"
definition C_IBM_863 :: ulong where "C_IBM_863 = 0x1002035f"
definition C_IBM_865 :: ulong where "C_IBM_865 = 0x10020115"
definition C_IBM_866 :: ulong where "C_IBM_866 = 0x10020362"

definition C_UTF8_UNKNOWN :: ulong where "C_UTF8_UNKNOWN = 0x2588"

section \<open>To Unicode\<close>

type_synonym to_tables = "ctounitable \<times> ctounitable option \<times> ctounitable option"

definition to_tables :: "ulong \<Rightarrow> to_tables option" where
  "to_tables string_type =
     (if string_type = C_EBCDIC then Some (uni_ebc2uniTable, None, None)
      else if string_type = C_MACINTOSH then Some (uni_mac2uniTable, Some uni_macarr2uniTable, None)
      else if string_type = C_KOI8_R then Some (uni_koi2uniTable, None, None)
      else if string_type = C_ISO8859_2 then Some (uni_iso22uniTable, None, None)
      else if string_type = C_ISO8859_3 then Some (uni_iso32uniTable, None, None)
      else if string_type = C_ISO8859_4 then Some (uni_iso42uniTable, None, None)
      else if string_type = C_ISO8859_7 then Some (uni_iso72uniTable, None, None)
      else if string_type = C_ISO8859_10 then Some (uni_iso102uniTable, None, None)
      else if string_type = C_IBM_437 then Some (uni_ibm4372uniTable, Some uni_ibm2uniTable, None)
      else if string_type = C_IBM_850 then Some (uni_ibm8502uniTable, Some uni_ibm2uniTable, None)
      else if string_type = C_IBM_852 then Some (uni_ibm8522uniTable, Some uni_ibm2uniTable, None)
      else if string_type = C_IBM_860 then Some (uni_ibm8602uniTable, Some uni_ibm4372uniTable, Some uni_ibm2uniTable)
      else if string_type = C_IBM_863 then Some (uni_ibm8632uniTable, Some uni_ibm4372uniTable, Some uni_ibm2uniTable)
      else if string_type = C_IBM_865 then Some (uni_ibm8652uniTable, Some uni_ibm4372uniTable, Some uni_ibm2uniTable)
      else if string_type = C_IBM_866 then Some (uni_ibm8662uniTable, Some uni_ibm4372uniTable, Some uni_ibm2uniTable)
      else None)"

definition in_to_table :: "nat \<Rightarrow> ctounitable \<Rightarrow> bool" where
  "in_to_table x t \<longleftrightarrow> tu_offset t \<le> x \<and> x < tu_offset t + tu_size t"

definition to_entry :: "nat \<Rightarrow> ctounitable \<Rightarrow> ulong option" where
  "to_entry x t = map_option ucast (mem_at (tu_array t) (x - tu_offset t))"

text \<open>The character of an octet.\<close>

definition table_character :: "to_tables \<Rightarrow> octet \<Rightarrow> ulong option" where
  "table_character ts s =
     (case ts of (table1, table2, table3) \<Rightarrow> do {
        let x = unat s;
        c \<leftarrow> (if in_to_table x table1 then to_entry x table1
             else case table2 of
                 None \<Rightarrow> Some (ucast s)
               | Some t2 \<Rightarrow>
                   if in_to_table x t2 then to_entry x t2
                   else case table3 of
                       None \<Rightarrow> Some (ucast s)
                     | Some t3 \<Rightarrow> if in_to_table x t3 then to_entry x t3 else Some (ucast s));
        Some (if c = 0 \<and> s \<noteq> 0 then C_UTF8_UNKNOWN else c)
      })"

section \<open>From Unicode\<close>

text \<open>The bisection of \<open>FindException\<close>; its bounds are small numbers.\<close>

function find_loop :: "(ushort \<times> octet) list \<Rightarrow> nat \<Rightarrow> nat \<Rightarrow> ushort \<Rightarrow> octet option" where
  "find_loop arr lo hi unicode =
     (if lo + 1 < hi then do {
        let mid = (lo + hi) div 2;
        (u, code) \<leftarrow> mem_at arr mid;
        if unicode < u then find_loop arr lo mid unicode
        else if unicode > u then find_loop arr mid hi unicode
        else Some code
      }
      else Some 0)"
  by pat_completeness auto

termination
  by (relation "measure (\<lambda>(arr, lo, hi, unicode). hi - lo)") auto

declare find_loop.simps [simp del]

definition FindException :: "(ushort \<times> octet) list \<Rightarrow> nat \<Rightarrow> ushort \<Rightarrow> octet option" where
  "FindException arr arrlen unicode = do {
     (first, code) \<leftarrow> mem_at arr 0;
     if unicode < first then Some 0
     else if unicode = first then Some code
     else do {
       (last, code) \<leftarrow> mem_at arr (arrlen - 1);
       if unicode > last then Some 0
       else if unicode = last then Some code
       else find_loop arr 0 (arrlen - 1) unicode
     }
   }"

text \<open>The pointer to the table may be null.\<close>

definition exception_octet :: "cexcepttable option \<Rightarrow> ushort \<Rightarrow> octet option" where
  "exception_octet table unicode = do { t \<leftarrow> table; FindException (ex_array t) (ex_size t) unicode }"

record table_choice =
  ft_table1 :: cfromunitable
  ft_table2 :: "cfromunitable option"
  ft_unknown :: octet
  ft_except :: "cexcepttable option"
  ft_ibmexcept :: "cexcepttable option"
  ft_check :: "ctounitable option"
  ft_ibmcheck :: "ctounitable option"

text \<open>A pointer that is null is \<open>None\<close>; \<open>except\<close> is used without a test.\<close>

definition from_iso :: "octet \<Rightarrow> cexcepttable \<Rightarrow> ctounitable \<Rightarrow> table_choice" where
  "from_iso u e c = \<lparr>ft_table1 = uni2isoTable, ft_table2 = None, ft_unknown = u, ft_except = Some e, ft_ibmexcept = None,
     ft_check = Some c, ft_ibmcheck = None\<rparr>"

definition from_ibm :: "cexcepttable \<Rightarrow> cexcepttable option \<Rightarrow> ctounitable \<Rightarrow> ctounitable option \<Rightarrow> table_choice" where
  "from_ibm e ie c ic = \<lparr>ft_table1 = uni2ibmTable1, ft_table2 = Some uni2ibmTable2, ft_unknown = 0xDB, ft_except = Some e,
     ft_ibmexcept = ie, ft_check = Some c, ft_ibmcheck = ic\<rparr>"

definition from_tables :: "ulong \<Rightarrow> table_choice option" where
  "from_tables string_type =
     (if string_type = C_EBCDIC then
        Some \<lparr>ft_table1 = uni2ebcTable, ft_table2 = None, ft_unknown = 0x6F, ft_except = None, ft_ibmexcept = None,
          ft_check = None, ft_ibmcheck = None\<rparr>
      else if string_type = C_MACINTOSH then
        Some \<lparr>ft_table1 = uni2macTable, ft_table2 = None, ft_unknown = 0xC0, ft_except = Some exc2macTable, ft_ibmexcept = None,
          ft_check = None, ft_ibmcheck = None\<rparr>
      else if string_type = C_KOI8_R then
        Some \<lparr>ft_table1 = uni2koiTable1, ft_table2 = Some uni2koiTable2, ft_unknown = 0x94, ft_except = Some exc2koiTable,
          ft_ibmexcept = None, ft_check = None, ft_ibmcheck = None\<rparr>
      else if string_type = C_ISO8859_2 then Some (from_iso 0xFF exc2iso2Table uni_iso22uniTable)
      else if string_type = C_ISO8859_3 then Some (from_iso 0xFF exc2iso3Table uni_iso32uniTable)
      else if string_type = C_ISO8859_4 then Some (from_iso 0xFF exc2iso4Table uni_iso42uniTable)
      else if string_type = C_ISO8859_10 then Some (from_iso 0xAD exc2iso10Table uni_iso102uniTable)
      else if string_type = C_IBM_437 then Some (from_ibm exc2ibm437Table None uni_ibm4372uniTable None)
      else if string_type = C_IBM_850 then Some (from_ibm exc2ibm850Table None uni_ibm8502uniTable None)
      else if string_type = C_IBM_852 then Some (from_ibm exc2ibm852Table None uni_ibm8522uniTable None)
      else if string_type = C_IBM_860 then
        Some (from_ibm exc2ibm860Table1 (Some exc2ibm860Table2) uni_ibm8602uniTable (Some uni_ibm4372uniTable))
      else if string_type = C_IBM_863 then
        Some (from_ibm exc2ibm863Table1 (Some exc2ibm863Table2) uni_ibm8632uniTable (Some uni_ibm4372uniTable))
      else if string_type = C_IBM_865 then
        Some (from_ibm exc2ibm865Table1 (Some exc2ibm865Table2) uni_ibm8652uniTable (Some uni_ibm4372uniTable))
      else if string_type = C_IBM_866 then
        Some \<lparr>ft_table1 = uni2ibm866Table1, ft_table2 = Some uni2ibm866Table2, ft_unknown = 0xDB, ft_except = Some exc2ibm866Table,
          ft_ibmexcept = None, ft_check = None, ft_ibmcheck = None\<rparr>
      else None)"

definition in_from_table :: "ulong \<Rightarrow> cfromunitable \<Rightarrow> bool" where
  "in_from_table character t \<longleftrightarrow> fu_offset t \<le> unat character \<and> sint character < int (fu_offset t + fu_size t)"

definition from_entry :: "ulong \<Rightarrow> cfromunitable \<Rightarrow> octet option" where
  "from_entry character t = mem_at (fu_array t) (unat character - fu_offset t)"

text \<open>Each stage gives an octet and says whether to go on (\<open>trans\<close>). A first octet from the check itself.\<close>

definition check_direct :: "table_choice \<Rightarrow> ulong \<Rightarrow> bool option" where
  "check_direct ft character =
     (case ft_check ft of
        None \<Rightarrow> Some False
      | Some c \<Rightarrow>
          if character \<le> 0xFF \<and> in_to_table (unat character) c then do {
            u \<leftarrow> to_entry (unat character) c;
            Some (u = character)
          }
          else Some False)"

text \<open>The octet \<open>d\<close> of a table, checked against the tables of the other direction.\<close>

definition checked :: "ctounitable option \<Rightarrow> ctounitable option \<Rightarrow> ulong \<Rightarrow> octet \<Rightarrow> (bool \<times> octet) option" where
  "checked check ibmcheck character d =
     (case check of
        None \<Rightarrow> Some (False, d)
      | Some c \<Rightarrow>
          if in_to_table (unat d) c then do {
            u \<leftarrow> to_entry (unat d) c;
            Some (if u = character then (False, d) else (True, 0))
          }
          else case ibmcheck of
              None \<Rightarrow> Some (False, d)
            | Some i \<Rightarrow>
                if in_to_table (unat d) i then do {
                  u \<leftarrow> to_entry (unat d) i;
                  Some (if u = character then (False, d) else (True, 0))
                }
                else Some (False, d))"

text \<open>The octet of a character that is to be translated.\<close>

definition table_octet :: "table_choice \<Rightarrow> ulong \<Rightarrow> octet option" where
  "table_octet ft character = do {
     direct \<leftarrow> check_direct ft character;
     let (trans, d) = (if direct then (False, ucast character) else (True, 0));
     (trans, d) \<leftarrow> (if trans \<and> in_from_table character (ft_table1 ft) then do {
         x \<leftarrow> from_entry character (ft_table1 ft);
         checked (ft_check ft) (ft_ibmcheck ft) character x
       }
       else Some (trans, d));
     (trans, d) \<leftarrow> (case ft_table2 ft of
         None \<Rightarrow> Some (trans, d)
       | Some t2 \<Rightarrow>
           if trans \<and> in_from_table character t2 then do {
             x \<leftarrow> from_entry character t2;
             checked (ft_check ft) None character x
           }
           else Some (trans, d));
     d \<leftarrow> (if trans then do {
         d \<leftarrow> exception_octet (ft_except ft) (ucast character);
         if ft_ibmexcept ft \<noteq> None \<and> d = 0 \<and> character \<le> 0xFF then exception_octet (ft_ibmexcept ft) (ucast character) else Some d
       }
       else Some d);
     Some (if d = 0 then ft_unknown ft else d)
   }"

end
