(* ===== verification/To_UTF8.thy ===== *)
theory To_UTF8
  imports Code_Pages
begin

unbundle bit_operations_syntax

text \<open>
  Conversion to UTF-8 (orb/uni_touni.cc, \<open>uni_toUTF8\<close>): one branch for each kind of code set. The source is
  a block of octets, also where the code reads shorts or longs from it; \<open>si\<close> and \<open>di\<close> are the positions in
  the source and the destination. A body returns how many more elements of the source than one it consumed.
  HTML is in its own theory.
\<close>

section \<open>Reading the source\<close>

fun shorts_of :: "bool \<Rightarrow> octet list \<Rightarrow> ushort list" where
  "shorts_of le (a # b # m) = load16 le a b # shorts_of le m"
| "shorts_of le m = []"

definition short_at :: "bool \<Rightarrow> octet list \<Rightarrow> nat \<Rightarrow> ushort option" where
  "short_at le m i = mem_at (shorts_of le m) i"

text \<open>A \<open>ulong\<close> in memory.\<close>

definition load32 :: "bool \<Rightarrow> octet \<Rightarrow> octet \<Rightarrow> octet \<Rightarrow> octet \<Rightarrow> ulong" where
  "load32 le a b c d =
     (if le then ucast a OR push_bit 8 (ucast b) OR push_bit 16 (ucast c) OR push_bit 24 (ucast d)
      else push_bit 24 (ucast a) OR push_bit 16 (ucast b) OR push_bit 8 (ucast c) OR ucast d)"

definition store32 :: "bool \<Rightarrow> ulong \<Rightarrow> octet list" where
  "store32 le x =
     (let xs = [ucast x, ucast (drop_bit 8 x), ucast (drop_bit 16 x), ucast (drop_bit 24 x)] in if le then xs else rev xs)"

fun longs_of :: "bool \<Rightarrow> octet list \<Rightarrow> ulong list" where
  "longs_of le (a # b # c # d # m) = load32 le a b c d # longs_of le m"
| "longs_of le m = []"

definition long_at :: "bool \<Rightarrow> octet list \<Rightarrow> nat \<Rightarrow> ulong option" where
  "long_at le m i = mem_at (longs_of le m) i"

datatype var_type = BYTE_LENGTH | SHORT_LENGTH | LONG_LENGTH

definition var_at :: "bool \<Rightarrow> var_type \<Rightarrow> octet list \<Rightarrow> nat \<Rightarrow> ulong option" where
  "var_at le vt m i =
     (case vt of
        BYTE_LENGTH \<Rightarrow> map_option scast (mem_at m i)
      | SHORT_LENGTH \<Rightarrow> map_option ucast (short_at le m i)
      | LONG_LENGTH \<Rightarrow> long_at le m i)"

section \<open>Ends of lines\<close>

datatype line_type = C_LINE_CRLF | C_LINE_LF | C_LINE_CR

text \<open>A return before the length is set: the code and the destination as it is then.\<close>

type_synonym early = "uni_result \<times> octet list"

type_synonym body = "nat \<Rightarrow> nat \<Rightarrow> octet list \<Rightarrow> (early + nat \<times> nat \<times> octet list) option"

text \<open>\<open>toCRLF\<close> leaves the position on the last character it wrote.\<close>

definition toCRLF :: "bool \<Rightarrow> octet list \<Rightarrow> nat \<Rightarrow> line_type \<Rightarrow> var_type \<Rightarrow> nat \<Rightarrow> nat \<Rightarrow> octet list \<Rightarrow> (nat \<times> nat \<times> octet list) option" where
  "toCRLF le src chars line_type vt si di utf8 = do {
     c0 \<leftarrow> var_at le vt src si;
     c1 \<leftarrow> (if si + 1 < chars then var_at le vt src (si + 1) else Some 0);
     if c0 = 0x0D then do {
       utf8 \<leftarrow> mem_write utf8 di [0x0D];
       if line_type = C_LINE_CR then do {
         utf8 \<leftarrow> mem_write utf8 (di + 1) [0x0A];
         Some (0, di + 1, utf8)
       }
       else if line_type = C_LINE_LF \<and> c1 = 0x1A then do {
         utf8 \<leftarrow> mem_write utf8 (di + 1) [0x0A];
         Some (1, di + 1, utf8)
       }
       else Some (0, di, utf8)
     }
     else if c0 = 0x0A then
       (if line_type = C_LINE_LF then do {
          utf8 \<leftarrow> mem_write utf8 di [0x0D];
          utf8 \<leftarrow> mem_write utf8 (di + 1) [0x0A];
          Some (if c1 = 0x1D then 1 else 0, di + 1, utf8)
        }
        else do { utf8 \<leftarrow> mem_write utf8 di [0x0A]; Some (0, di, utf8) })
     else do {
       x \<leftarrow> mem_at src si;
       utf8 \<leftarrow> mem_write utf8 di [x];
       Some (0, di, utf8)
     }
   }"

text \<open>An octet of ASCII, and a character by its number.\<close>

definition put_plain :: "octet list \<Rightarrow> nat \<Rightarrow> line_type \<Rightarrow> nat \<Rightarrow> nat \<Rightarrow> octet list \<Rightarrow> (nat \<times> nat \<times> octet list) option" where
  "put_plain src chars line_type si di utf8 = do {
     x \<leftarrow> mem_at src si;
     if x \<noteq> 0x0A \<and> x \<noteq> 0x0D then do { utf8 \<leftarrow> mem_write utf8 di [x]; Some (0, di, utf8) }
     else toCRLF False src chars line_type BYTE_LENGTH si di utf8
   }"

definition put_ucs4 :: "ulong \<Rightarrow> nat \<Rightarrow> octet list \<Rightarrow> (early + nat \<times> nat \<times> octet list) option" where
  "put_ucs4 c di utf8 = do {
     (RC, utf8) \<leftarrow> uni_ucs4toutf8 utf8 di c;
     if RC \<noteq> C_OK then Some (Inl (RC, utf8))
     else do { n \<leftarrow> strlen_at (drop di utf8); Some (Inr (0, di + n, utf8)) }
   }"

definition put_octet_at :: "octet \<Rightarrow> nat \<Rightarrow> octet list \<Rightarrow> (early + nat \<times> nat \<times> octet list) option" where
  "put_octet_at x di utf8 = do { utf8 \<leftarrow> mem_write utf8 di [x]; Some (Inr (0, di + 1, utf8)) }"

text \<open>Whether the position goes on afterwards is up to the branch.\<close>

definition go_on :: "(nat \<times> nat \<times> octet list) option \<Rightarrow> (early + nat \<times> nat \<times> octet list) option" where
  "go_on r = map_option (\<lambda>(k, di, utf8). Inr (k, di + 1, utf8)) r"

definition stay :: "(nat \<times> nat \<times> octet list) option \<Rightarrow> (early + nat \<times> nat \<times> octet list) option" where
  "stay r = map_option Inr r"

section \<open>The loops\<close>

text \<open>\<open>for (si = di = 0; si < chars; si++)\<close>, and what stands behind every such loop.\<close>

function src_loop :: "body \<Rightarrow> nat \<Rightarrow> nat \<Rightarrow> nat \<Rightarrow> octet list \<Rightarrow> (early + nat \<times> octet list) option" where
  "src_loop body chars si di utf8 =
     (if si < chars then
        (case body si di utf8 of
           None \<Rightarrow> None
         | Some (Inl e) \<Rightarrow> Some (Inl e)
         | Some (Inr (k, di, utf8)) \<Rightarrow> src_loop body chars (si + Suc k) di utf8)
      else Some (Inr (di, utf8)))"
  by pat_completeness auto

termination
  by (relation "measure (\<lambda>(body, chars, si, di, utf8). chars - si)") auto

declare src_loop.simps [simp del]

definition terminated :: "(early + nat \<times> octet list) option \<Rightarrow> (early + nat \<times> octet list) option" where
  "terminated r = do {
     r \<leftarrow> r;
     case r of
       Inl e \<Rightarrow> Some (Inl e)
     | Inr (di, utf8) \<Rightarrow> do { utf8 \<leftarrow> mem_write utf8 di [0]; Some (Inr (di + 1, utf8)) }
   }"

definition convert_by :: "body \<Rightarrow> nat \<Rightarrow> octet list \<Rightarrow> (early + nat \<times> octet list) option" where
  "convert_by body chars utf8 = terminated (src_loop body chars 0 0 utf8)"

section \<open>The branches\<close>

definition utf8_body :: "octet list \<Rightarrow> nat \<Rightarrow> line_type \<Rightarrow> body" where
  "utf8_body src chars line_type si di utf8 = go_on (put_plain src chars line_type si di utf8)"

definition latin1_body :: "octet list \<Rightarrow> nat \<Rightarrow> line_type \<Rightarrow> body" where
  "latin1_body src chars line_type si di utf8 = do {
     x \<leftarrow> mem_at src si;
     if x AND 0x80 = 0 then go_on (put_plain src chars line_type si di utf8)
     else put_ucs4 (ucast x) di utf8
   }"

definition ascii_body :: "octet list \<Rightarrow> nat \<Rightarrow> line_type \<Rightarrow> body" where
  "ascii_body src chars line_type si di utf8 = do {
     x \<leftarrow> mem_at src si;
     if x AND 0x80 = 0 then go_on (put_plain src chars line_type si di utf8)
     else put_octet_at (ucast C_UTF8_UNKNOWN) di utf8
   }"

definition ucs4_body :: "bool \<Rightarrow> octet list \<Rightarrow> nat \<Rightarrow> line_type \<Rightarrow> body" where
  "ucs4_body le src chars line_type si di utf8 = do {
     c \<leftarrow> long_at le src si;
     if c AND 0x80 = 0 then
       (if c \<noteq> 0x0A \<and> c \<noteq> 0x0D then put_octet_at (ucast c) di utf8
        else go_on (toCRLF le src chars line_type LONG_LENGTH si di utf8))
     else put_ucs4 c di utf8
   }"

definition iso5_body :: "octet list \<Rightarrow> nat \<Rightarrow> line_type \<Rightarrow> body" where
  "iso5_body src chars line_type si di utf8 = do {
     x \<leftarrow> mem_at src si;
     if x AND 0x80 = 0 then go_on (put_plain src chars line_type si di utf8)
     else if x = 0xAD then put_octet_at 0xAD di utf8
     else if x = 0xFE then put_octet_at 0xA7 di utf8
     else put_ucs4 (0x0400 + ucast x - 0xA0) di utf8
   }"

definition iso6_body :: "octet list \<Rightarrow> nat \<Rightarrow> line_type \<Rightarrow> body" where
  "iso6_body src chars line_type si di utf8 = do {
     x \<leftarrow> mem_at src si;
     if x AND 0x80 = 0 then go_on (put_plain src chars line_type si di utf8)
     else if x = 0xA4 then put_octet_at 0xA4 di utf8
     else if x = 0xAD then put_octet_at 0xAD di utf8
     else put_ucs4 (0x0600 + ucast x - 0xA0) di utf8
   }"

text \<open>In these two branches the position only moves for a character that is translated.\<close>

definition put_translated :: "ulong \<Rightarrow> nat \<Rightarrow> octet list \<Rightarrow> (early + nat \<times> nat \<times> octet list) option" where
  "put_translated c di utf8 = (if c < 0x80 then put_octet_at (ucast c) di utf8 else put_ucs4 c di utf8)"

definition iso8_body :: "octet list \<Rightarrow> nat \<Rightarrow> line_type \<Rightarrow> body" where
  "iso8_body src chars line_type si di utf8 = do {
     x \<leftarrow> mem_at src si;
     if x AND 0x80 = 0 then stay (put_plain src chars line_type si di utf8)
     else if x < 0xC0 then
       (if x = 0xA1 then put_translated C_UTF8_UNKNOWN di utf8
        else if x = 0xAA then put_translated 0xD7 di utf8
        else if x = 0xBA then put_translated 0xE7 di utf8
        else if x = 0xBF then put_translated C_UTF8_UNKNOWN di utf8
        else do { utf8 \<leftarrow> mem_write utf8 di [x]; Some (Inr (0, di, utf8)) })
     else if x < 0xE0 then put_translated (if x = 0xDF then 0x0333 else C_UTF8_UNKNOWN) di utf8
     else put_translated (0x0500 + ucast x - 0xA0) di utf8
   }"

definition iso9_body :: "octet list \<Rightarrow> nat \<Rightarrow> line_type \<Rightarrow> body" where
  "iso9_body src chars line_type si di utf8 = do {
     x \<leftarrow> mem_at src si;
     if x AND 0x80 = 0 then stay (put_plain src chars line_type si di utf8)
     else if x = 0xD0 then put_translated 0x011E di utf8
     else if x = 0xDD then put_translated 0x0130 di utf8
     else if x = 0xDE then put_translated 0x015E di utf8
     else if x = 0xF0 then put_translated 0x011F di utf8
     else if x = 0xFD then put_translated 0x0131 di utf8
     else if x = 0xFE then put_translated 0x015F di utf8
     else do { utf8 \<leftarrow> mem_write utf8 di [x]; Some (Inr (0, di, utf8)) }
   }"

definition win_body :: "octet list \<Rightarrow> nat \<Rightarrow> line_type \<Rightarrow> body" where
  "win_body src chars line_type si di utf8 = do {
     x \<leftarrow> mem_at src si;
     if x AND 0x80 = 0 then go_on (put_plain src chars line_type si di utf8)
     else do {
       c \<leftarrow> (if x < 0xA0 then do {
           c \<leftarrow> to_entry (unat x) uni_win2uniTable;
           Some (if c = 0 then ucast x else c)
         }
         else Some (ucast x));
       put_ucs4 c di utf8
     }
   }"

text \<open>The code sets with tables; after the end of a line the position does not move.\<close>

definition table_body :: "to_tables \<Rightarrow> octet list \<Rightarrow> nat \<Rightarrow> line_type \<Rightarrow> body" where
  "table_body ts src chars line_type si di utf8 = do {
     x \<leftarrow> mem_at src si;
     c \<leftarrow> table_character ts x;
     if c < 0x80 then
       (if x \<noteq> 0x0A \<and> x \<noteq> 0x0D then put_octet_at (ucast c) di utf8
        else stay (toCRLF False src chars line_type BYTE_LENGTH si di utf8))
     else put_ucs4 c di utf8
   }"

section \<open>The branches that read several elements at a time\<close>

definition utf8_text :: "octet list \<Rightarrow> nat \<Rightarrow> line_type \<Rightarrow> octet list \<Rightarrow> (early + nat \<times> octet list) option" where
  "utf8_text src chars line_type utf8 =
     (if line_type = C_LINE_CRLF then do {
        xs \<leftarrow> mem_read src 0 chars;
        utf8 \<leftarrow> mem_write utf8 0 xs;
        terminated (Some (Inr (chars, utf8)))
      }
      else convert_by (utf8_body src chars line_type) chars utf8)"

text \<open>UTF-7: \<open>inside\<close> stands for the inner loop, which reads Base64 as long as there is a carry. The code does
not set the carry before the first one.\<close>

partial_function (option) utf7_text ::
    "bool \<Rightarrow> octet list \<Rightarrow> nat \<Rightarrow> line_type \<Rightarrow> bool \<Rightarrow> ushort \<Rightarrow> nat \<Rightarrow> nat \<Rightarrow> octet list \<Rightarrow>
     (early + nat \<times> octet list) option" where
  "utf7_text le src chars line_type inside carry si di utf8 =
     (if inside then do {
        (RC, utf8, read, carry) \<leftarrow> uni_utf7toutf8 le utf8 di src si carry;
        if si + read > chars then terminated (Some (Inr (di, utf8)))
        else if RC \<noteq> C_OK then Some (Inl (RC, utf8))
        else do {
          n \<leftarrow> strlen_at (drop di utf8);
          utf7_text le src chars line_type (carry \<noteq> 0) carry (si + read) (di + n) utf8
        }
      }
      else if si < chars then do {
        x \<leftarrow> mem_at src si;
        if x AND 0x80 \<noteq> 0 then Some (Inl (C_INVALID_FORMAT, utf8))
        else if x = 0x2B then utf7_text le src chars line_type True carry si di utf8
        else do {
          (k, di, utf8) \<leftarrow> put_plain src chars line_type si di utf8;
          utf7_text le src chars line_type False carry (si + k + 1) (di + 1) utf8
        }
      }
      else terminated (Some (Inr (di, utf8))))"

text \<open>UTF-16: on an error \<open>read\<close> is what the character before it left there, or what the variable held at the
start.\<close>

partial_function (option) utf16_text ::
    "bool \<Rightarrow> octet list \<Rightarrow> nat \<Rightarrow> line_type \<Rightarrow> nat \<Rightarrow> nat \<Rightarrow> nat \<Rightarrow> octet list \<Rightarrow> (early + nat \<times> octet list) option" where
  "utf16_text le src chars line_type read si di utf8 =
     (if si < chars then do {
        u \<leftarrow> short_at le src si;
        if u < 0x80 then do {
          (k, di, utf8) \<leftarrow> (if u \<noteq> 0x1D \<and> u \<noteq> 0x1A then do { utf8 \<leftarrow> mem_write utf8 di [ucast u]; Some (0, di, utf8) }
            else toCRLF le src chars line_type SHORT_LENGTH si di utf8);
          utf16_text le src chars line_type read (si + k + 1) (di + 1) utf8
        }
        else do {
          (RC, utf8, shorts) \<leftarrow> uni_utf16toutf8 utf8 di (shorts_of le src) si;
          let read = (case shorts of Some n \<Rightarrow> n | None \<Rightarrow> read);
          if si + read > chars then terminated (Some (Inr (di, utf8)))
          else if RC \<noteq> C_OK then Some (Inl (RC, utf8))
          else do {
            n \<leftarrow> strlen_at (drop di utf8);
            utf16_text le src chars line_type read (si + read) (di + n) utf8
          }
        }
      }
      else terminated (Some (Inr (di, utf8))))"

end
