(* ===== verification/From_UTF8.thy ===== *)
theory From_UTF8
  imports To_UTF8
begin

unbundle bit_operations_syntax

text \<open>
  Conversion from UTF-8 (orb/uni_fromuni.cc, \<open>uni_fromUTF8\<close>). A loop ends with what the code hands
  back: the number of characters, of octets read and of elements written, and the destination, a block of
  octets also where the code writes shorts or longs into it.
\<close>

record converted =
  cv_chars :: nat
  cv_read :: nat
  cv_written :: nat
  cv_dest :: "octet list"

type_synonym conversion = "(uni_result + converted) option"

definition converted_to :: "nat \<Rightarrow> nat \<Rightarrow> nat \<Rightarrow> octet list \<Rightarrow> conversion" where
  "converted_to chars utf_read written dest =
     Some (Inr \<lparr>cv_chars = chars, cv_read = utf_read, cv_written = written, cv_dest = dest\<rparr>)"

text \<open>The end of a text of octets.\<close>

definition finish_octets :: "nat \<Rightarrow> nat \<Rightarrow> nat \<Rightarrow> octet list \<Rightarrow> conversion" where
  "finish_octets chars utf_read di dest = do {
     dest \<leftarrow> mem_write dest di [0];
     converted_to chars utf_read (di + 1) dest
   }"

section \<open>Ends of lines\<close>

text \<open>The character, and how many more octets than one it stands for.\<close>

definition fromCRLF :: "octet list \<Rightarrow> nat \<Rightarrow> nat \<Rightarrow> line_type \<Rightarrow> (ulong \<times> nat) option" where
  "fromCRLF utf8 si chars line_type = do {
     x \<leftarrow> mem_at utf8 si;
     if x = 0x0D \<or> x = 0x0A then
       (if si + 1 < chars then do {
          y \<leftarrow> mem_at utf8 (si + 1);
          Some (if y = (if x = 0x0D then 0x0A else 0x0D) \<and> line_type = C_LINE_LF then (0x0A, 1)
            else if y = (if x = 0x0D then 0x0A else 0x0D) \<and> line_type = C_LINE_CR then (0x0D, 1)
            else (ucast x, 0))
        }
        else Some (ucast x, 0))
     else Some (scast x, 0)
   }"

section \<open>UTF-8 and ASCII\<close>

text \<open>Octets that do not begin a character are counted.\<close>

partial_function (option) plain_loop ::
    "bool \<Rightarrow> octet list \<Rightarrow> nat \<Rightarrow> line_type \<Rightarrow> nat \<Rightarrow> nat \<Rightarrow> nat \<Rightarrow> octet list \<Rightarrow> conversion" where
  "plain_loop ascii utf8 chars line_type ci si di dest =
     (if ci < chars then do {
        x \<leftarrow> mem_at utf8 si;
        if x = 0 then finish_octets ci (si + 1) di dest
        else if x = 0x0D \<or> x = 0x0A then do {
          (c, k) \<leftarrow> fromCRLF utf8 si chars line_type;
          dest \<leftarrow> mem_write dest di [ucast c];
          plain_loop ascii utf8 chars line_type ci (si + k + 1) (di + 1) dest
        }
        else do {
          dest \<leftarrow> mem_write dest di [x];
          let ci = (if x AND 0x80 = 0 \<or> x AND 0xC0 = 0x80 then ci + 1 else ci);
          (di, dest) \<leftarrow> (if ascii \<and> x AND 0x80 \<noteq> 0 then
              (if x AND 0x40 \<noteq> 0 then Some (di, dest)
               else do { dest \<leftarrow> mem_write dest di [0x3F]; Some (di + 1, dest) })
            else Some (di + 1, dest));
          plain_loop ascii utf8 chars line_type ci (si + 1) di dest
        }
      }
      else finish_octets chars si di dest)"

section \<open>UTF-7\<close>

text \<open>\<open>buffer\<close> is the array \<open>utf7array\<close> up to \<open>di\<close>; the text so far ends with a zero. A character of ASCII does
not move the position (neither does the end of a line, but for the octets \<open>fromCRLF\<close> skips).\<close>

definition utf7_flush :: "bool \<Rightarrow> ulong list \<Rightarrow> octet list \<Rightarrow> (uni_result \<times> octet list) option" where
  "utf7_flush le buffer dest = do {
     n \<leftarrow> strlen_at dest;
     (RC, part) \<leftarrow> uni_ucs4arraytoutf7 le (drop n dest) buffer (length buffer);
     Some (RC, take n dest @ part)
   }"

definition utf7_finish :: "nat \<Rightarrow> nat \<Rightarrow> octet list \<Rightarrow> conversion" where
  "utf7_finish chars utf_read dest = do { n \<leftarrow> strlen_at dest; converted_to chars utf_read (n + 1) dest }"

function to_utf7_loop ::
    "bool \<Rightarrow> octet list \<Rightarrow> nat \<Rightarrow> line_type \<Rightarrow> nat \<Rightarrow> nat \<Rightarrow> ulong list \<Rightarrow> octet list \<Rightarrow> conversion" where
  "to_utf7_loop le utf8 chars line_type ci si buffer dest =
     (if ci < chars then do {
        x \<leftarrow> mem_at utf8 si;
        if x = 0 then
          (if buffer \<noteq> [] then do {
             (RC, dest) \<leftarrow> utf7_flush le buffer dest;
             if RC \<noteq> C_OK then Some (Inl RC) else utf7_finish ci (si + 1) dest
           }
           else utf7_finish ci (si + 1) dest)
        else if x = 0x0D \<or> x = 0x0A then do {
          require (length buffer \<le> C_BASE64_DATA);
          (c, k) \<leftarrow> fromCRLF utf8 si chars line_type;
          to_utf7_loop le utf8 chars line_type (ci + 1) (si + k) (buffer @ [c]) dest
        }
        else do {
          require (length buffer \<le> C_BASE64_DATA);
          r \<leftarrow> (if x AND 0x80 = 0 then Some (Some (scast x, 0)) else uni_utf8toucs4 utf8 si);
          case r of
            None \<Rightarrow> Some (Inl C_ERROR)
          | Some (c, pos) \<Rightarrow>
              if length buffer + 1 = C_BASE64_DATA then do {
                (RC, dest) \<leftarrow> utf7_flush le (buffer @ [c]) dest;
                if RC \<noteq> C_OK then Some (Inl RC)
                else to_utf7_loop le utf8 chars line_type (ci + 1) (si + pos) [] dest
              }
              else to_utf7_loop le utf8 chars line_type (ci + 1) (si + pos) (buffer @ [c]) dest
        }
      }
      else utf7_finish chars si dest)"
  by pat_completeness auto

termination
  by (relation "measure (\<lambda>(le, utf8, chars, line_type, ci, si, buffer, dest). chars - ci)") auto

declare to_utf7_loop.simps [simp del]

definition to_utf7_text :: "bool \<Rightarrow> octet list \<Rightarrow> nat \<Rightarrow> line_type \<Rightarrow> octet list \<Rightarrow> conversion" where
  "to_utf7_text le utf8 chars line_type dest = do {
     dest \<leftarrow> mem_write dest 0 [0];
     to_utf7_loop le utf8 chars line_type 0 0 [] dest
   }"

section \<open>UTF-16\<close>

text \<open>The destination is a block of shorts. What stands behind the label \<open>END_UTF16\<close> (and \<open>END_UCS4\<close>).\<close>

definition end_units :: "nat \<Rightarrow> nat \<Rightarrow> nat \<Rightarrow> 'w::len word list \<Rightarrow> (uni_result + nat \<times> nat \<times> nat \<times> 'w word list) option" where
  "end_units chars utf_read di u =
     (if di > 0 then do {
        x \<leftarrow> mem_at u (di - 1);
        if x \<noteq> 0 then do { u \<leftarrow> mem_write u di [0]; Some (Inr (chars, utf_read, di + 1, u)) }
        else Some (Inr (chars, utf_read, di, u))
      }
      else do { u \<leftarrow> mem_write u 0 [0]; Some (Inr (chars, utf_read, 0, u)) })"

partial_function (option) to_utf16_loop ::
    "octet list \<Rightarrow> nat \<Rightarrow> line_type \<Rightarrow> nat \<Rightarrow> nat \<Rightarrow> nat \<Rightarrow> ushort list \<Rightarrow> (uni_result + nat \<times> nat \<times> nat \<times> ushort list) option" where
  "to_utf16_loop utf8 chars line_type ci si di u =
     (if si < chars then do {
        x \<leftarrow> mem_at utf8 si;
        if x = 0 then end_units ci (si + 1) di u
        else if x < 0x80 then do {
          (c, k) \<leftarrow> (if x = 0x0D \<or> x = 0x0A then fromCRLF utf8 si chars line_type else Some (scast x, 0));
          u \<leftarrow> mem_write u di [ucast c];
          to_utf16_loop utf8 chars line_type (ci + 1) (si + k + 1) (di + 1) u
        }
        else do {
          (RC, u, bytes) \<leftarrow> uni_utf8toutf16 u di utf8 si;
          if RC \<noteq> C_OK then Some (Inl RC)
          else do {
            pos \<leftarrow> bytes;
            y \<leftarrow> mem_at u (di + 1);
            to_utf16_loop utf8 chars line_type (ci + 1) (si + pos) (if y \<noteq> 0 then di + 2 else di + 1) u
          }
        }
      }
      else end_units chars si di u)"

definition to_utf16_text :: "bool \<Rightarrow> octet list \<Rightarrow> nat \<Rightarrow> line_type \<Rightarrow> octet list \<Rightarrow> conversion" where
  "to_utf16_text le utf8 chars line_type dest = do {
     r \<leftarrow> to_utf16_loop utf8 chars line_type 0 0 0 (shorts_of le dest);
     case r of
       Inl RC \<Rightarrow> Some (Inl RC)
     | Inr (chars, utf_read, written, u) \<Rightarrow>
         converted_to chars utf_read written (concat (map (store16 le) u) @ drop (2 * length u) dest)
   }"

section \<open>UCS-4\<close>

text \<open>A character that is not ASCII is read from the beginning of the text and written to the beginning of the
destination.\<close>

partial_function (option) to_ucs4_loop ::
    "octet list \<Rightarrow> nat \<Rightarrow> line_type \<Rightarrow> nat \<Rightarrow> nat \<Rightarrow> ulong list \<Rightarrow> (uni_result + nat \<times> nat \<times> nat \<times> ulong list) option" where
  "to_ucs4_loop utf8 chars line_type si di u =
     (if si < chars then do {
        x \<leftarrow> mem_at utf8 si;
        if x = 0 then end_units di (si + 1) di u
        else if x < 0x80 then do {
          (c, k) \<leftarrow> (if x = 0x0D \<or> x = 0x0A then fromCRLF utf8 si chars line_type else Some (scast x, 0));
          u \<leftarrow> mem_write u di [c];
          to_ucs4_loop utf8 chars line_type (si + k + 1) (di + 1) u
        }
        else do {
          r \<leftarrow> uni_utf8toucs4 utf8 0;
          case r of
            None \<Rightarrow> Some (Inl C_ERROR)
          | Some (c, pos) \<Rightarrow> do {
              u \<leftarrow> mem_write u 0 [c];
              to_ucs4_loop utf8 chars line_type (si + pos) (di + 1) u
            }
        }
      }
      else end_units chars si di u)"

definition to_ucs4_text :: "bool \<Rightarrow> octet list \<Rightarrow> nat \<Rightarrow> line_type \<Rightarrow> octet list \<Rightarrow> conversion" where
  "to_ucs4_text le utf8 chars line_type dest = do {
     r \<leftarrow> to_ucs4_loop utf8 chars line_type 0 0 (longs_of le dest);
     case r of
       Inl RC \<Rightarrow> Some (Inl RC)
     | Inr (chars, utf_read, written, u) \<Rightarrow>
         converted_to chars utf_read written (concat (map (store32 le) u) @ drop (4 * length u) dest)
   }"

section \<open>Code sets of octets\<close>

text \<open>The octet of a character above ASCII. In the code no case of the switches of ISO 8859-5 and -6 ends with a
break, so the last one decides.\<close>

definition latin1_octet :: "ulong \<Rightarrow> octet" where
  "latin1_octet character = (if character \<le> 0xFF then ucast character else 0xBF)"

definition iso5_octet :: "ulong \<Rightarrow> octet" where
  "iso5_octet character =
     (if 0x0400 \<le> character \<and> character \<le> 0x045F then
        (if character \<noteq> 0x040D \<and> character \<noteq> 0x045E then ucast (character - 0x0400 + 0xA0) else 0xAD)
      else 0xAD)"

definition iso6_octet :: "ulong \<Rightarrow> octet" where
  "iso6_octet character =
     (if 0x0600 \<le> character \<and> character \<le> 0x065F then
        (if character \<noteq> 0x0604 \<and> character \<noteq> 0x060D then ucast (character - 0x0600 + 0xA0) else 0xAD)
      else 0xAD)"

definition or_unknown :: "octet \<Rightarrow> octet option \<Rightarrow> octet option" where
  "or_unknown unknown r = map_option (\<lambda>d. if d = 0 then unknown else d) r"

definition iso7Mask :: ulong where "iso7Mask = 0x289FBBC9"
definition iso8Mask :: ulong where "iso8Mask = 0x7BFFFBFD"

definition iso7_octet :: "ulong \<Rightarrow> octet option" where
  "iso7_octet character =
     (if 0x0390 \<le> character \<and> character \<le> 0x03CF then Some (ucast (character - 0x0390 + 0xC0))
      else if 0x00A0 \<le> character \<and> character \<le> 0x00BF then
        Some (if bit iso7Mask (unat (character - 0x00A0)) then ucast character else 0xAD)
      else or_unknown 0xAD (exception_octet (Some exc2iso7Table) (ucast character)))"

definition iso8_octet :: "ulong \<Rightarrow> octet option" where
  "iso8_octet character =
     (if 0x05D0 \<le> character \<and> character \<le> 0x05EF then Some (ucast (character - 0x05D0 + 0xE0))
      else if 0x00A0 \<le> character \<and> character \<le> 0x00BF then
        Some (if bit iso8Mask (unat (character - 0x00A0)) then ucast character else 0xAD)
      else or_unknown 0xAD (exception_octet (Some exc2iso8Table) (ucast character)))"

definition iso9_octet :: "ulong \<Rightarrow> octet option" where
  "iso9_octet character =
     (if character \<le> 0xFF then
        Some (if character \<in> {0xD0, 0xF0, 0xDD, 0xFD, 0xDE, 0xFE} then 0xAD else ucast character)
      else or_unknown 0xAD (exception_octet (Some exc2iso9Table) (ucast character)))"

definition win_octet :: "ulong \<Rightarrow> octet option" where
  "win_octet character =
     (if character \<le> 0x81 then Some (ucast character)
      else if character \<le> 0x9F \<and> (0x8D \<le> character \<and> character \<le> 0x90 \<or> character = 0x9D \<or> character = 0x9E)
        then Some 0xBF
      else if 0x9F < character \<and> character \<le> 0xFF then Some (ucast character)
      else or_unknown 0xBF (exception_octet (Some exc2winTable) (ucast character)))"

text \<open>Both loops over octets: \<open>plain\<close> is given the octet of ASCII and the character \<open>fromCRLF\<close> makes of it,
\<open>high\<close> a character above ASCII.\<close>

partial_function (option) octets_loop ::
    "(octet \<Rightarrow> ulong \<Rightarrow> octet option) \<Rightarrow> (ulong \<Rightarrow> octet option) \<Rightarrow> octet list \<Rightarrow> nat \<Rightarrow> line_type \<Rightarrow>
     nat \<Rightarrow> nat \<Rightarrow> nat \<Rightarrow> octet list \<Rightarrow> conversion" where
  "octets_loop plain high utf8 chars line_type ci si di dest =
     (if si < chars then do {
        x \<leftarrow> mem_at utf8 si;
        if x AND 0x80 = 0 then
          (if x = 0 then finish_octets ci (si + 1) di dest
           else do {
             (c, k) \<leftarrow> (if x = 0x0D \<or> x = 0x0A then fromCRLF utf8 si chars line_type else Some (scast x, 0));
             y \<leftarrow> plain x c;
             dest \<leftarrow> mem_write dest di [y];
             octets_loop plain high utf8 chars line_type (ci + 1) (si + k + 1) (di + 1) dest
           })
        else do {
          r \<leftarrow> uni_utf8toucs4 utf8 si;
          case r of
            None \<Rightarrow> Some (Inl C_ERROR)
          | Some (character, pos) \<Rightarrow> do {
              y \<leftarrow> high character;
              dest \<leftarrow> mem_write dest di [y];
              octets_loop plain high utf8 chars line_type (ci + 1) (si + pos) (di + 1) dest
            }
        }
      }
      else finish_octets chars si di dest)"

definition iso_octet :: "ulong \<Rightarrow> ulong \<Rightarrow> octet option" where
  "iso_octet string_type character =
     (if string_type = C_ISO8859_1 then Some (latin1_octet character)
      else if string_type = C_ISO8859_5 then Some (iso5_octet character)
      else if string_type = C_ISO8859_6 then Some (iso6_octet character)
      else if string_type = C_ISO8859_7 then iso7_octet character
      else if string_type = C_ISO8859_8 then iso8_octet character
      else if string_type = C_ISO8859_9 then iso9_octet character
      else win_octet character)"

definition iso_text :: "ulong \<Rightarrow> octet list \<Rightarrow> nat \<Rightarrow> line_type \<Rightarrow> octet list \<Rightarrow> conversion" where
  "iso_text string_type utf8 chars line_type dest =
     octets_loop (\<lambda>x c. Some (ucast c)) (iso_octet string_type) utf8 chars line_type 0 0 0 dest"

text \<open>The code sets with tables; below 32 a mask says which characters are translated.\<close>

definition table_plain :: "table_choice \<Rightarrow> octet \<Rightarrow> ulong \<Rightarrow> octet option" where
  "table_plain ft x c =
     (if x < 32 \<and> bit (fu_transMask (ft_table1 ft)) (unat x) then table_octet ft c else Some (ucast c))"

definition table_text :: "table_choice \<Rightarrow> octet list \<Rightarrow> nat \<Rightarrow> line_type \<Rightarrow> octet list \<Rightarrow> conversion" where
  "table_text ft utf8 chars line_type dest = octets_loop (table_plain ft) (table_octet ft) utf8 chars line_type 0 0 0 dest"

end
