(* ===== verification/Html_Text.thy ===== *)
theory Html_Text
  imports From_UTF8
begin

unbundle bit_operations_syntax

text \<open>
  HTML (\<open>C_HTML3\<close> in orb/uni_touni.cc and orb/uni_fromuni.cc): named and numbered characters, commands in
  angle brackets that are passed on, and the escape sequences that stand for them in UTF-8.
\<close>

section \<open>Names of characters\<close>

text \<open>Four characters of a name in a number; a \<open>char\<close> is signed.\<close>

definition MBC :: "octet \<Rightarrow> octet \<Rightarrow> octet \<Rightarrow> octet \<Rightarrow> ulong" where
  "MBC a b c d = push_bit 24 (scast a) OR push_bit 16 (scast b) OR push_bit 8 (scast c) OR scast d"

fun mbc :: "octet list \<Rightarrow> ulong" where
  "mbc [a, b, c, d] = MBC a b c d"
| "mbc xs = 0"

definition octets :: "string \<Rightarrow> octet list" where
  "octets s = map of_char s"

record cconv =
  upper :: ulong
  lower :: ulong
  unicode :: ushort

definition cc :: "string \<Rightarrow> string \<Rightarrow> ushort \<Rightarrow> cconv" where
  "cc a b u = \<lparr>upper = mbc (octets a), lower = mbc (octets b), unicode = u\<rparr>"

definition uni_html2uniArray :: "cconv list" where
  "uni_html2uniArray = [
     cc ''AEli'' ''g   '' 0xC6, cc ''Aacu'' ''te  '' 0xC1, cc ''Acir'' ''c   '' 0xC2,
     cc ''Agra'' ''ve  '' 0xC0, cc ''Arin'' ''g   '' 0xC5, cc ''Atil'' ''de  '' 0xC3,
     cc ''Auml'' ''    '' 0xC4, cc ''Cced'' ''il  '' 0xC7, cc ''ETH '' ''    '' 0xD0,
     cc ''Eacu'' ''te  '' 0xC9, cc ''Ecir'' ''c   '' 0xCA, cc ''Egra'' ''ve  '' 0xC8,
     cc ''Euml'' ''    '' 0xCB, cc ''Iacu'' ''te  '' 0xCD, cc ''Icir'' ''c   '' 0xCE,
     cc ''Igra'' ''ve  '' 0xCC, cc ''Iuml'' ''    '' 0xCF, cc ''Ntil'' ''de  '' 0xD1,
     cc ''Oacu'' ''te  '' 0xD3, cc ''Ocir'' ''c   '' 0xD4, cc ''Ogra'' ''ve  '' 0xD2,
     cc ''Osla'' ''sh  '' 0xD8, cc ''Otil'' ''de  '' 0xD5, cc ''Ouml'' ''    '' 0xD6,
     cc ''Uacu'' ''te  '' 0xDA, cc ''Ucir'' ''c   '' 0xDB, cc ''Ugra'' ''ve  '' 0xD9,
     cc ''Uuml'' ''    '' 0xDC, cc ''THOR'' ''N   '' 0xDE, cc ''Yacu'' ''te  '' 0xDD,
     cc ''aacu'' ''te  '' 0xE1, cc ''acir'' ''c   '' 0xE2, cc ''acut'' ''e   '' 0xB4,
     cc ''aeli'' ''g   '' 0xE6, cc ''agra'' ''ve  '' 0xE0, cc ''amp '' ''    '' 0x26,
     cc ''arin'' ''g   '' 0xE5, cc ''atil'' ''de  '' 0xE3, cc ''auml'' ''    '' 0xE4,
     cc ''brvb'' ''ar  '' 0xA6, cc ''cced'' ''il  '' 0xE7, cc ''cedi'' ''l   '' 0xB8,
     cc ''cent'' ''    '' 0xA2, cc ''copy'' ''    '' 0xA9, cc ''curr'' ''ency'' 0xA4,
     cc ''deg '' ''    '' 0xB0, cc ''divi'' ''de  '' 0xF7, cc ''eacu'' ''te  '' 0xE9,
     cc ''ecir'' ''c   '' 0xEA, cc ''egra'' ''ve  '' 0xE8, cc ''eth '' ''    '' 0xF0,
     cc ''euml'' ''    '' 0xEB, cc ''frac'' ''12  '' 0xBD, cc ''frac'' ''14  '' 0xBC,
     cc ''frac'' ''34  '' 0xBE, cc ''gt  '' ''    '' 0x3E, cc ''iacu'' ''te  '' 0xED,
     cc ''icir'' ''c   '' 0xEE, cc ''iexc'' ''l   '' 0xA1, cc ''igra'' ''ve  '' 0xEC,
     cc ''ique'' ''st  '' 0xBF, cc ''iuml'' ''    '' 0xEF, cc ''laqu'' ''o   '' 0xAB,
     cc ''lt  '' ''    '' 0x3C, cc ''macr'' ''    '' 0xAF, cc ''mdas'' ''h   '' 0x2014,
     cc ''micr'' ''o   '' 0xB5, cc ''midd'' ''ot  '' 0xB7, cc ''nbsp'' ''    '' 0xA0,
     cc ''ndas'' ''h   '' 0x2013, cc ''not '' ''    '' 0xAC, cc ''ntil'' ''de  '' 0xF1,
     cc ''oacu'' ''te  '' 0xF3, cc ''ocir'' ''c   '' 0xF4, cc ''ogra'' ''ve  '' 0xF2,
     cc ''ordf'' ''    '' 0xAA, cc ''ordm'' ''    '' 0xAB, cc ''osla'' ''sh  '' 0xF8,
     cc ''otil'' ''de  '' 0xF5, cc ''ouml'' ''    '' 0xF6, cc ''para'' ''    '' 0xB6,
     cc ''plus'' ''mn  '' 0xB1, cc ''poun'' ''d   '' 0xA3, cc ''quot'' ''    '' 0x22,
     cc ''raqu'' ''o   '' 0xBB, cc ''reg '' ''    '' 0xAE, cc ''sect'' ''    '' 0xA7,
     cc ''shy '' ''    '' 0xAD, cc ''sup1'' ''    '' 0xB9, cc ''sup2'' ''    '' 0xB2,
     cc ''sup3'' ''    '' 0xB3, cc ''szli'' ''g   '' 0xDF, cc ''thor'' ''n   '' 0xFE,
     cc ''time'' ''s   '' 0xD7, cc ''trad'' ''e   '' 0x2122, cc ''uacu'' ''te  '' 0xDA,
     cc ''ucir'' ''c   '' 0xDB, cc ''ugra'' ''ve  '' 0xD9, cc ''uml '' ''    '' 0xA8,
     cc ''uuml'' ''    '' 0xFC, cc ''yacu'' ''te  '' 0xFD, cc ''yen '' ''    '' 0xA5, cc ''yuml'' ''    '' 0xFF]"

definition html2uniSize :: nat where "html2uniSize = 103"

definition uni2htmlArray :: "nat list" where
  "uni2htmlArray = [
     69, 59, 43, 83, 45, 102, 40, 87, 99, 44, 76, 63, 71, 88, 86, 65,
     46, 82, 90, 91, 33, 67, 81, 68, 42, 89, 77, 85, 54, 53, 55, 61,
     4, 2, 3, 6, 7, 5, 1, 8, 12, 10, 11, 13, 16, 14, 15, 17,
     9, 18, 21, 19, 20, 23, 24, 94, 22, 27, 25, 26, 28, 30, 29, 92,
     35, 31, 32, 38, 39, 37, 34, 41, 50, 48, 49, 52, 60, 57, 58, 62,
     51, 72, 75, 73, 74, 79, 80, 47, 78, 98, 96, 97, 100, 101, 93, 103]"

section \<open>Reading a name\<close>

definition isdigit :: "octet \<Rightarrow> bool" where
  "isdigit x \<longleftrightarrow> 48 \<le> x \<and> x \<le> 57"

text \<open>\<open>p\<close> is where \<open>ScanHTML\<close> begins to read, \<open>l\<close> the number of octets from there on. Leading zeros are left
out; nine digits fit into a \<open>ulong\<close>.\<close>

function number_loop :: "octet list \<Rightarrow> nat \<Rightarrow> nat \<Rightarrow> nat \<Rightarrow> octet list \<Rightarrow> (nat \<times> octet list) option" where
  "number_loop src p l i digits =
     (if i < l \<and> length digits < 9 then do {
        x \<leftarrow> mem_at src (p + i);
        if isdigit x then number_loop src p l (i + 1) (if x \<noteq> 48 \<or> digits \<noteq> [] then digits @ [x] else digits)
        else Some (i, digits)
      }
      else Some (i, digits))"
  by pat_completeness auto

termination
  by (relation "measure (\<lambda>(src, p, l, i, digits). l - i)") auto

declare number_loop.simps [simp del]

definition decimal_value :: "octet list \<Rightarrow> ulong" where
  "decimal_value digits = foldl (\<lambda>n x. n * 10 + (ucast x - 48)) 0 digits"

text \<open>The octets of a name, with blanks behind them.\<close>

function name_loop :: "octet list \<Rightarrow> nat \<Rightarrow> nat \<Rightarrow> nat \<Rightarrow> octet list \<Rightarrow> (nat \<times> octet list) option" where
  "name_loop src p l i buffer =
     (if i < 9 then do {
        x \<leftarrow> mem_at src (p + i);
        if x \<noteq> 0x3B \<and> i < l then name_loop src p l (i + 1) (buffer[i := x]) else Some (i, buffer)
      }
      else Some (i, buffer))"
  by pat_completeness auto

termination
  by (relation "measure (\<lambda>(src, p, l, i, buffer). 9 - i)") auto

declare name_loop.simps [simp del]

text \<open>The bisection; the names of fractions have the same first half.\<close>

function html_loop :: "nat \<Rightarrow> nat \<Rightarrow> ulong \<Rightarrow> ulong \<Rightarrow> ulong option" where
  "html_loop lo hi u v =
     (if hi - lo > 1 then do {
        let mid = (lo + hi) div 2;
        e \<leftarrow> mem_at uni_html2uniArray mid;
        if u < upper e then html_loop lo mid u v
        else if u > upper e then html_loop mid hi u v
        else if u \<noteq> mbc (octets ''frac'') then Some (if v = lower e then ucast (unicode e) else 0)
        else if v = mbc (octets ''12  '') then Some 0xBD
        else if v = mbc (octets ''14  '') then Some 0xBC
        else if v = mbc (octets ''34  '') then Some 0xBE
        else Some 0
      }
      else Some 0)"
  by pat_completeness auto

termination
  by (relation "measure (\<lambda>(lo, hi, u, v). hi - lo)") auto

declare html_loop.simps [simp del]

definition html_character :: "ulong \<Rightarrow> ulong \<Rightarrow> ulong option" where
  "html_character u v = do {
     first \<leftarrow> mem_at uni_html2uniArray 0;
     last \<leftarrow> mem_at uni_html2uniArray (html2uniSize - 1);
     if u < upper first then Some 0
     else if u = upper first then Some (if v = lower first then ucast (unicode first) else 0)
     else if u > upper last then Some 0
     else if u = upper last then Some (if v = lower last then ucast (unicode last) else 0)
     else html_loop 0 (html2uniSize - 1) u v
   }"

text \<open>The character and the length that is handed back: it stays what it was when no character is found.\<close>

definition ScanHTML :: "octet list \<Rightarrow> nat \<Rightarrow> nat \<Rightarrow> (ulong \<times> nat) option" where
  "ScanHTML src p len = do {
     x \<leftarrow> mem_at src p;
     if x = 0x23 then do {
       (i, digits) \<leftarrow> number_loop src p len 1 [];
       if digits = [] \<or> i \<ge> len then Some (0, len)
       else do {
         y \<leftarrow> mem_at src (p + i);
         Some (if y \<noteq> 0x3B then (0, len) else (decimal_value digits, i + 1))
       }
     }
     else do {
       (i, buffer) \<leftarrow> name_loop src p len 0 (replicate 8 0x20 @ [0, 0]);
       l \<leftarrow> (if i < len then
           (if i < 9 then Some (Some (i + 1))
            else do { y \<leftarrow> mem_at src (p + 9); Some (if y = 0x3B then Some 9 else None) })
         else do { y \<leftarrow> mem_at src (p + len); Some (if y = 0x3B then Some len else None) });
       case l of
         None \<Rightarrow> Some (0, len)
       | Some l \<Rightarrow> do {
           c \<leftarrow> html_character (mbc (take 4 buffer)) (mbc (take 4 (drop 4 buffer)));
           Some (if c = 0 then (0, len) else (c, l))
         }
     }
   }"

section \<open>To UTF-8\<close>

definition toupper :: "octet \<Rightarrow> octet" where
  "toupper x = (if 97 \<le> x \<and> x \<le> 122 then x - 32 else x)"

text \<open>Looking for \<open><U>c</U>\<close>, with blanks anywhere: the position behind it, how much of it was found, and
the character.\<close>

function underline_loop :: "octet list \<Rightarrow> nat \<Rightarrow> nat \<Rightarrow> nat \<Rightarrow> octet \<Rightarrow> (nat \<times> nat \<times> octet) option" where
  "underline_loop src chars i read c =
     (if i < chars \<and> read < 7 then do {
        x \<leftarrow> mem_at src i;
        let y = toupper x;
        let ahead = underline_loop src chars (i + 1);
        let no = Some (chars + 1, read, c);
        if y = 0x20 then ahead read c
        else if y = 0x55 then (if read = 0 \<or> read = 5 then ahead (read + 1) c else no)
        else if y = 0x3E then (if read = 1 \<or> read = 6 then ahead (read + 1) c else no)
        else if y = 0x3C then (if read = 3 then ahead (read + 1) c else no)
        else if y = 0x2F then (if read = 4 then ahead (read + 1) c else no)
        else if read = 2 then ahead (read + 1) x
        else no
      }
      else Some (i, read, c))"
  by pat_completeness auto

termination
  by (relation "measure (\<lambda>(src, chars, i, read, c). chars - i)") auto

declare underline_loop.simps [simp del]

text \<open>A lone \<open>&\<close> at the end ends the conversion before the text is closed and the length is set (\<open>Inl\<close>).\<close>

definition html_named :: "octet list \<Rightarrow> nat \<Rightarrow> nat \<Rightarrow> nat \<Rightarrow> octet list \<Rightarrow> (early + nat \<times> nat \<times> octet list) option" where
  "html_named src chars si di utf8 =
     (if chars - 1 = si then do { (RC, utf8) \<leftarrow> uni_ucs4toutf8 utf8 di C_UTF8_UNKNOWN; Some (Inl (RC, utf8)) }
      else do {
        (c, i) \<leftarrow> ScanHTML src (si + 1) (chars - si - 1);
        if c \<noteq> 0 then do {
          (RC, utf8) \<leftarrow> uni_ucs4toutf8 utf8 di c;
          if RC \<noteq> C_OK then Some (Inl (RC, utf8))
          else do { n \<leftarrow> strlen_at (drop di utf8); Some (Inr (si + (i + 1), di + n, utf8)) }
        }
        else Some (Inr (si + (i + 1), di, utf8))
      })"

definition html_step :: "octet list \<Rightarrow> nat \<Rightarrow> line_type \<Rightarrow> bool \<Rightarrow> bool \<Rightarrow> nat \<Rightarrow> nat \<Rightarrow> octet list \<Rightarrow>
    (early + bool \<times> bool \<times> nat \<times> nat \<times> octet list) option" where
  "html_step src chars line_type isquot iscommand si di utf8 = do {
     x \<leftarrow> mem_at src si;
     if x = 0x26 \<and> \<not> iscommand then do {
       r \<leftarrow> html_named src chars si di utf8;
       case r of
         Inl e \<Rightarrow> Some (Inl e)
       | Inr (si, di, utf8) \<Rightarrow> Some (Inr (isquot, iscommand, si, di, utf8))
     }
     else if x = 0x3C \<and> \<not> isquot \<and> \<not> iscommand then do {
       (i, read, c) \<leftarrow> underline_loop src chars (si + 1) 0 0;
       if read = 7 then do {
         utf8 \<leftarrow> mem_write utf8 di [0x1B, 0x5F, c];
         Some (Inr (isquot, iscommand, i, di + 3, utf8))
       }
       else do {
         utf8 \<leftarrow> mem_write utf8 di [0x1B, 0x3C];
         Some (Inr (isquot, True, si + 1, di + 2, utf8))
       }
     }
     else if x = 0x26 \<or> x = 0x3C then do {
       utf8 \<leftarrow> mem_write utf8 di [x];
       Some (Inr (isquot, iscommand, si + 1, di + 1, utf8))
     }
     else if x = 0x3E then do {
       utf8 \<leftarrow> mem_write utf8 di [x];
       Some (Inr (isquot, isquot \<and> iscommand, si + 1, di + 1, utf8))
     }
     else if x = 0x22 then do {
       utf8 \<leftarrow> mem_write utf8 di [x];
       Some (Inr (if iscommand then \<not> isquot else isquot, iscommand, si + 1, di + 1, utf8))
     }
     else do {
       (k, di, utf8) \<leftarrow> put_plain src chars line_type si di utf8;
       Some (Inr (isquot, iscommand, si + k + 1, di + 1, utf8))
     }
   }"

partial_function (option) html_text ::
    "octet list \<Rightarrow> nat \<Rightarrow> line_type \<Rightarrow> bool \<Rightarrow> bool \<Rightarrow> nat \<Rightarrow> nat \<Rightarrow> octet list \<Rightarrow> (early + nat \<times> octet list) option" where
  "html_text src chars line_type isquot iscommand si di utf8 =
     (if si < chars then do {
        r \<leftarrow> html_step src chars line_type isquot iscommand si di utf8;
        case r of
          Inl e \<Rightarrow> Some (Inl e)
        | Inr (isquot, iscommand, si, di, utf8) \<Rightarrow> html_text src chars line_type isquot iscommand si di utf8
      }
      else terminated (Some (Inr (di, utf8))))"

section \<open>From UTF-8\<close>

definition put_string :: "octet list \<Rightarrow> nat \<Rightarrow> octet list \<Rightarrow> (nat \<times> octet list) option" where
  "put_string dest di s = do { dest \<leftarrow> mem_write dest di (s @ [0]); Some (di + length s, dest) }"

text \<open>The name of an entry, up to the first blank.\<close>

definition octets_of :: "ulong \<Rightarrow> octet list" where
  "octets_of x = [ucast (drop_bit 24 x), ucast (drop_bit 16 x), ucast (drop_bit 8 x), ucast x]"

definition entry_name :: "cconv \<Rightarrow> octet list" where
  "entry_name e = takeWhile (\<lambda>x. x \<noteq> 0x20) (octets_of (upper e) @ octets_of (lower e))"

fun decimal :: "nat \<Rightarrow> octet list" where
  "decimal n = (if n < 10 then [word_of_nat (48 + n)] else decimal (n div 10) @ [word_of_nat (48 + n mod 10)])"

declare decimal.simps [simp del]

definition html_put :: "ulong \<Rightarrow> nat \<Rightarrow> octet list \<Rightarrow> (nat \<times> octet list) option" where
  "html_put character di dest =
     (if character = 0x2122 then put_string dest di (octets ''&trade;'')
      else if character = 0x2013 then put_string dest di (octets ''&ndash;'')
      else if character = 0x2014 then put_string dest di (octets ''&mdash;'')
      else if 0xA0 \<le> character \<and> unat character < 0xA0 + length uni2htmlArray then do {
        pos \<leftarrow> mem_at uni2htmlArray (unat character - 0xA0);
        require (pos > 0);
        e \<leftarrow> mem_at uni_html2uniArray (pos - 1);
        let name = 0x26 # entry_name e @ [0x3B];
        dest \<leftarrow> mem_write dest di name;
        Some (di + length name, dest)
      }
      else put_string dest di (octets ''&#'' @ decimal (unat character) @ [0x3B]))"

record html_state =
  hs_command :: bool
  hs_quot :: bool
  hs_underline :: bool

text \<open>An octet of ASCII: how many more octets than one are read.\<close>

definition html_plain :: "octet list \<Rightarrow> nat \<Rightarrow> line_type \<Rightarrow> nat \<Rightarrow> octet \<Rightarrow> html_state \<Rightarrow> nat \<Rightarrow> octet list \<Rightarrow>
    (html_state \<times> nat \<times> nat \<times> octet list) option" where
  "html_plain utf8 chars line_type si x h di dest =
     (let put = (\<lambda>h s. do { (di, dest) \<leftarrow> s; Some (h, 0, di, dest) });
          plain = (\<lambda>y. do { dest \<leftarrow> mem_write dest di [y]; Some (di + 1, dest) }) in
      if x = 0x0A \<or> x = 0x0D then do {
        (c, k) \<leftarrow> fromCRLF utf8 si chars line_type;
        dest \<leftarrow> mem_write dest di [ucast c];
        Some (h, k, di + 1, dest)
      }
      else if x = 0x22 then
        (if hs_command h then put (h\<lparr>hs_quot := \<not> hs_quot h\<rparr>) (plain x)
         else put h (put_string dest di (octets ''&quot;'')))
      else if x = 0x26 then (if hs_command h then put h (plain x) else put h (put_string dest di (octets ''&amp;'')))
      else if x = 0x3C then (if hs_command h then put h (plain x) else put h (put_string dest di (octets ''&lt;'')))
      else if x = 0x3E then
        (if hs_command h then put (h\<lparr>hs_command := hs_quot h\<rparr>) (plain x)
         else put h (put_string dest di (octets ''&gt;'')))
      else if x = 0x1B then
        (if hs_command h then put h (plain x)
         else do {
           y \<leftarrow> mem_at utf8 (si + 1);
           if y = 0x3C then
             (if y = 0x5F then do {
                z \<leftarrow> mem_at utf8 (si + 2);
                if z \<noteq> 0x1B then do {
                  (di, dest) \<leftarrow> put_string dest di (octets ''<U>'');
                  Some (h\<lparr>hs_command := True, hs_underline := True\<rparr>, 1, di, dest)
                }
                else Some (h\<lparr>hs_command := True\<rparr>, 0, di, dest)
              }
              else Some (h\<lparr>hs_command := True\<rparr>, 0, di, dest))
           else Some (h, 0, di, dest)
         })
      else put h (plain x))"

partial_function (option) to_html_loop ::
    "octet list \<Rightarrow> nat \<Rightarrow> line_type \<Rightarrow> html_state \<Rightarrow> nat \<Rightarrow> nat \<Rightarrow> nat \<Rightarrow> octet list \<Rightarrow> conversion" where
  "to_html_loop utf8 chars line_type h ci si di dest =
     (if si < chars then do {
        x \<leftarrow> mem_at utf8 si;
        if x = 0 then finish_octets ci (si + 1) di dest
        else do {
          r \<leftarrow> (if x AND 0x80 = 0 then map_option (\<lambda>(h, k, di, dest). Some (h, si + k + 1, di, dest))
                (html_plain utf8 chars line_type si x h di dest)
              else if hs_command h then do { dest \<leftarrow> mem_write dest di [x]; Some (Some (h, si + 1, di + 1, dest)) }
              else do {
                r \<leftarrow> uni_utf8toucs4 utf8 si;
                case r of
                  None \<Rightarrow> Some None
                | Some (character, pos) \<Rightarrow> do { (di, dest) \<leftarrow> html_put character di dest; Some (Some (h, si + pos, di, dest)) }
              });
          case r of
            None \<Rightarrow> Some (Inl C_ERROR)
          | Some (h, si, di, dest) \<Rightarrow>
              if hs_underline h then do {
                y \<leftarrow> mem_at utf8 (si - 1);
                if y \<noteq> 0x5F then do {
                  (di, dest) \<leftarrow> put_string dest di (octets ''</U>'');
                  to_html_loop utf8 chars line_type (h\<lparr>hs_underline := False\<rparr>) (ci + 1) si di dest
                }
                else to_html_loop utf8 chars line_type h (ci + 1) si di dest
              }
              else to_html_loop utf8 chars line_type h (ci + 1) si di dest
        }
      }
      else finish_octets chars si di dest)"

definition to_html_text :: "octet list \<Rightarrow> nat \<Rightarrow> line_type \<Rightarrow> octet list \<Rightarrow> conversion" where
  "to_html_text utf8 chars line_type dest =
     to_html_loop utf8 chars line_type \<lparr>hs_command = False, hs_quot = False, hs_underline = False\<rparr> 0 0 0 dest"

end
