(* ===== verification/Conversion.thy ===== *)
theory Conversion
  imports Html_Text
begin

unbundle bit_operations_syntax

text \<open>
  \<open>uni_toUTF8\<close> and \<open>uni_fromUTF8\<close> as a whole, and the conversion of a text from one code set to another by
  way of UTF-8 (\<open>UniCodesetConv::convert\<close>, orb/codeset.cc). \<open>junk\<close> is what the variables \<open>read\<close> and \<open>carry\<close>
  of \<open>uni_toUTF8\<close> happen to hold before it sets them.
\<close>

definition to_UTF8_body :: "bool \<Rightarrow> octet list \<Rightarrow> nat \<Rightarrow> ulong \<Rightarrow> line_type \<Rightarrow> body option" where
  "to_UTF8_body le src chars string_type line_type =
     (if string_type = C_ISO8859_1 then Some (latin1_body src chars line_type)
      else if string_type = C_ASCII7 \<or> string_type = C_ISO646 then Some (ascii_body src chars line_type)
      else if string_type = C_UCS4 then Some (ucs4_body le src chars line_type)
      else if string_type = C_ISO8859_5 then Some (iso5_body src chars line_type)
      else if string_type = C_ISO8859_6 then Some (iso6_body src chars line_type)
      else if string_type = C_ISO8859_8 then Some (iso8_body src chars line_type)
      else if string_type = C_ISO8859_9 then Some (iso9_body src chars line_type)
      else if string_type = C_WIN31_LATIN1 then Some (win_body src chars line_type)
      else map_option (\<lambda>ts. table_body ts src chars line_type) (to_tables string_type))"

definition uni_toUTF8 :: "bool \<Rightarrow> nat \<times> ushort \<Rightarrow> octet list \<Rightarrow> octet list \<Rightarrow> nat \<Rightarrow> ulong \<Rightarrow> line_type \<Rightarrow>
    (early + nat \<times> octet list) option" where
  "uni_toUTF8 le junk utf8 src chars string_type line_type =
     (if string_type = C_UTF8 then utf8_text src chars line_type utf8
      else if string_type = C_UTF7 then utf7_text le src chars line_type False (snd junk) 0 0 utf8
      else if string_type = C_UTF16 \<or> string_type = C_UCS2 then utf16_text le src chars line_type (fst junk) 0 0 utf8
      else if string_type = C_HTML3 then html_text src chars line_type False False 0 0 utf8
      else case to_UTF8_body le src chars string_type line_type of
          None \<Rightarrow> Some (Inl (C_UNKNOWN_FORMAT, utf8))
        | Some body \<Rightarrow> convert_by body chars utf8)"

definition uni_fromUTF8 :: "bool \<Rightarrow> octet list \<Rightarrow> octet list \<Rightarrow> nat \<Rightarrow> ulong \<Rightarrow> line_type \<Rightarrow> conversion" where
  "uni_fromUTF8 le dest utf8 chars string_type line_type =
     (if string_type = C_UTF8 \<or> string_type = C_ASCII7 \<or> string_type = C_ISO646
      then plain_loop (string_type \<noteq> C_UTF8) utf8 chars line_type 0 0 0 dest
      else if string_type = C_UTF7 then to_utf7_text le utf8 chars line_type dest
      else if string_type = C_UTF16 \<or> string_type = C_UCS2 then to_utf16_text le utf8 chars line_type dest
      else if string_type = C_UCS4 then to_ucs4_text le utf8 chars line_type dest
      else if string_type = C_HTML3 then to_html_text utf8 chars line_type dest
      else if string_type \<in> {C_ISO8859_1, C_ISO8859_5, C_ISO8859_6, C_ISO8859_7, C_ISO8859_8, C_ISO8859_9, C_WIN31_LATIN1}
      then iso_text string_type utf8 chars line_type dest
      else case from_tables string_type of
          None \<Rightarrow> Some (Inl C_UNKNOWN_FORMAT)
        | Some ft \<Rightarrow> table_text ft utf8 chars line_type dest)"

section \<open>UniCodesetConv\<close>

definition supported_csid :: "ulong \<Rightarrow> bool" where
  "supported_csid csid \<longleftrightarrow> csid \<in>
     {C_ISO8859_1, C_ISO8859_2, C_ISO8859_3, C_ISO8859_4, C_ISO8859_5, C_ISO8859_6, C_ISO8859_7, C_ISO8859_8, C_ISO8859_9,
      C_ISO8859_10, C_ISO646, C_UCS2, C_IBM_437, C_IBM_850, C_IBM_852, C_IBM_860, C_IBM_863, C_IBM_865, C_IBM_866, C_UCS4,
      C_UTF16, C_UTF8, C_WIN31_LATIN1, C_ASCII7, C_EBCDIC, C_MACINTOSH, C_KOI8_R, C_UTF7, C_HTML3}"

definition can_convert :: "ulong \<Rightarrow> ulong \<Rightarrow> bool" where
  "can_convert from to \<longleftrightarrow> from = to \<or> supported_csid from \<and> supported_csid to"

text \<open>The number of elements written and the destination, or \<open>None\<close> for \<open>-1\<close>. \<open>tmp\<close> is the array for the text in
UTF-8, with whatever is in it.\<close>

definition convert :: "bool \<Rightarrow> nat \<times> ushort \<Rightarrow> octet list \<Rightarrow> ulong \<Rightarrow> ulong \<Rightarrow> octet list \<Rightarrow> nat \<Rightarrow> octet list \<Rightarrow>
    (nat \<times> octet list) option option" where
  "convert le junk tmp from to f len t =
     (if from = C_UTF8 then do {
        r \<leftarrow> uni_fromUTF8 le t f len to C_LINE_LF;
        Some (case r of Inl RC \<Rightarrow> None | Inr cv \<Rightarrow> Some (cv_written cv, cv_dest cv))
      }
      else if to = C_UTF8 then do {
        r \<leftarrow> uni_toUTF8 le junk t f len from C_LINE_LF;
        Some (case r of
            Inl (RC, t) \<Rightarrow> if RC \<noteq> C_OK then None else Some (0, t)
          | Inr (written, t) \<Rightarrow> Some (written, t))
      }
      else do {
        require (length tmp = len * 6 + 1);
        r \<leftarrow> uni_toUTF8 le junk tmp f len from C_LINE_LF;
        case r of
          Inl (RC, tmp) \<Rightarrow> do { require (RC \<noteq> C_OK); Some None }
        | Inr (chars, tmp) \<Rightarrow> do {
            r \<leftarrow> uni_fromUTF8 le t tmp chars to C_LINE_LF;
            Some (case r of Inl RC \<Rightarrow> None | Inr cv \<Rightarrow> Some (cv_written cv, cv_dest cv))
          }
      })"

end
