(* ===== verification/Text_Exchange.thy ===== *)
theory Text_Exchange
  imports Unicode_Text Conversion
begin

unbundle bit_operations_syntax

text \<open>
  What becomes of whole texts. The conversion to UTF-8 appends what its branch makes of each element
  (\<open>emits\<close>); the conversion from UTF-8 reads units, each an octet of ASCII, the end of a line or the octets
  of a character (\<open>unit_read\<close>). A code set whose octets come back one by one lets whole texts come back.
\<close>

section \<open>Appending to a block\<close>

definition wrote :: "'a list \<Rightarrow> 'a list \<Rightarrow> bool" where
  "wrote m out \<longleftrightarrow> take (length out) m = out"

lemma wrote_Nil [simp]: "wrote m []"
  by (simp add: wrote_def)

lemma wrote_length: "wrote m out \<Longrightarrow> length out \<le> length m"
  unfolding wrote_def by (metis length_take min.cobounded1)

lemma wrote_more:
  assumes "wrote m out" "length out + length xs \<le> length m"
  shows "\<exists>m'. mem_write m (length out) xs = Some m' \<and> wrote m' (out @ xs) \<and> length m' = length m"
  using assms by (simp add: mem_write_def wrote_def)

lemma wrote_prefix: "wrote m (out @ xs) \<Longrightarrow> wrote m out"
  unfolding wrote_def by (metis append_eq_conv_conj length_append take_add take_take min.absorb1 le_add1)

lemma wrote_holds: "wrote m (out @ xs) \<Longrightarrow> holds m (length out) xs"
  by (simp add: wrote_def holds_def take_drop add.commute)

definition utf8_of :: "nat \<Rightarrow> octet list" where
  "utf8_of n = map word_of_nat (utf8_numbers n)"

lemma put_ucs4_wrote:
  assumes w: "wrote m out" and n: "0 < n" "n < 0x80000000" and l: "length out + length (utf8_of n) < length m"
  shows "\<exists>m'. put_ucs4 (word_of_nat n) (length out) m = Some (Inr (0, length out + length (utf8_of n), m')) \<and>
     wrote m' (out @ utf8_of n) \<and> length m' = length m"
proof -
  have c: "utf8_octets (word_of_nat n) = Some (utf8_of n)" using utf8_octets_number [of n] n by (simp add: utf8_of_def)
  obtain m' where m': "mem_write m (length out) (utf8_of n @ [0]) = Some m'" "wrote m' (out @ utf8_of n @ [0])" "length m' = length m"
    using wrote_more [OF w, of "utf8_of n @ [0]"] l by auto
  then have t: "uni_ucs4toutf8 m (length out) (word_of_nat n) = Some (C_OK, m')" by (simp add: uni_ucs4toutf8_def c)
  have "(0 :: ulong) < word_of_nat n" using n by (simp add: word_less_nat_alt nowrap)
  then obtain k where k: "(word_of_nat n :: ulong) = word_of_nat k" "k < 0x80000000"
      "strlen_at (drop (length out) m') = Some (length (utf8_numbers k))"
    using ucs4toutf8_writes [OF t] by blast
  have "k = unat (word_of_nat k :: ulong)" using k(2) by (simp add: nowrap)
  also have "\<dots> = n" using n by (simp add: k(1) [symmetric] nowrap)
  finally have s: "strlen_at (drop (length out) m') = Some (length (utf8_of n))" using k(3) by (simp add: utf8_of_def)
  have "wrote m' (out @ utf8_of n)" using m'(2) wrote_prefix [of m' "out @ utf8_of n" "[0]"] by simp
  with t s m'(3) show ?thesis by (simp add: put_ucs4_def)
qed

section \<open>To UTF-8\<close>

text \<open>A branch appends \<open>f si\<close> for the element at \<open>si\<close>.\<close>

definition emits :: "body \<Rightarrow> nat \<Rightarrow> (nat \<Rightarrow> octet list) \<Rightarrow> bool" where
  "emits body chars f \<longleftrightarrow> (\<forall>si m out. si < chars \<longrightarrow> wrote m out \<longrightarrow> length out + length (f si) < length m \<longrightarrow>
     (\<exists>m'. body si (length out) m = Some (Inr (0, length out + length (f si), m')) \<and> wrote m' (out @ f si) \<and> length m' = length m))"

lemma src_loop_emits:
  assumes e: "emits body chars f"
  shows "si \<le> chars \<Longrightarrow> wrote m out \<Longrightarrow> length out + length (concat (map f [si..<chars])) < length m \<Longrightarrow>
     \<exists>m'. src_loop body chars si (length out) m = Some (Inr (length out + length (concat (map f [si..<chars])), m')) \<and>
       wrote m' (out @ concat (map f [si..<chars])) \<and> length m' = length m"
proof (induction "chars - si" arbitrary: si m out)
  case 0
  then show ?case by (simp add: src_loop.simps)
next
  case (Suc k)
  have si: "si < chars" and u: "[si..<chars] = si # [Suc si..<chars]" using Suc(2) by (simp_all add: upt_conv_Cons)
  obtain m1 where m1: "body si (length out) m = Some (Inr (0, length out + length (f si), m1))" "wrote m1 (out @ f si)" "length m1 = length m"
    using e si Suc(4,5) unfolding emits_def u by fastforce
  have "\<exists>m'. src_loop body chars (Suc si) (length (out @ f si)) m1 =
       Some (Inr (length (out @ f si) + length (concat (map f [Suc si..<chars])), m')) \<and>
     wrote m' ((out @ f si) @ concat (map f [Suc si..<chars])) \<and> length m' = length m1"
    using Suc(2,5) si m1(2,3) unfolding u by (intro Suc(1)) simp_all
  then show ?case using si m1(1,3) by (subst src_loop.simps) (simp add: u add.assoc)
qed

theorem convert_by_emits:
  assumes "emits body chars f" "length (concat (map f [0..<chars])) < length m"
  shows "\<exists>m'. convert_by body chars m = Some (Inr (length (concat (map f [0..<chars])) + 1, m')) \<and>
     wrote m' (concat (map f [0..<chars]) @ [0]) \<and> length m' = length m"
proof -
  let ?t = "concat (map f [0..<chars])"
  obtain m1 where m1: "src_loop body chars 0 0 m = Some (Inr (length ?t, m1))" "wrote m1 ?t" "length m1 = length m"
    using src_loop_emits [OF assms(1), of 0 m "[]"] assms(2) by auto
  obtain m2 where "mem_write m1 (length ?t) [0] = Some m2" "wrote m2 (?t @ [0])" "length m2 = length m1"
    using wrote_more [OF m1(2), of "[0]"] m1(3) assms(2) by auto
  with m1 show ?thesis by (simp add: convert_by_def terminated_def)
qed

section \<open>From UTF-8\<close>

lemma ascii_iff: "(x :: octet) AND 0x80 = 0 \<longleftrightarrow> x < 0x80"
proof -
  have "x AND 0x80 = 0 \<longleftrightarrow> \<not> bit x 7"
  proof
    assume "x AND 0x80 = 0"
    then have "bit (x AND 0x80) 7 = bit (0 :: octet) 7" by simp
    then show "\<not> bit x 7" by (simp add: bit_simps)
  next
    assume n: "\<not> bit x 7"
    have b: "bit (0x80 :: octet) k \<Longrightarrow> k = 7" for k using bit_push_bit_iff [of 7 "1 :: octet" k] by (simp add: bit_1_iff)
    show "x AND 0x80 = 0" using n b by (intro bit_word_eqI) (auto simp: bit_and_iff)
  qed
  also have "\<dots> \<longleftrightarrow> \<not> bit (unat x) 7" by (simp add: bit_unsigned_iff)
  also have "\<dots> \<longleftrightarrow> even (unat x div 2 ^ 7)" by (simp only: bit_iff_odd not_not)
  also have "\<dots> \<longleftrightarrow> unat x < 0x80"
  proof -
    have "unat x div 128 < 2" using unat_octet_lt [of x] by (simp add: div_less_iff_less_mult)
    then have "unat x div 128 = 0 \<or> unat x div 128 = 1" by linarith
    then show ?thesis by (auto simp: div_eq_0_iff)
  qed
  finally show ?thesis by (simp add: word_less_nat_alt)
qed

inductive unit_read :: "(octet \<Rightarrow> ulong \<Rightarrow> octet option) \<Rightarrow> (ulong \<Rightarrow> octet option) \<Rightarrow> octet list \<Rightarrow> octet \<Rightarrow> bool"
  for plain high where
  newline: "plain 0x0D 0x0A = Some y \<Longrightarrow> unit_read plain high [0x0D, 0x0A] y"
| return: "plain 0x0D 0x0D = Some y \<Longrightarrow> unit_read plain high [0x0D] y"
| ascii: "0 < a \<Longrightarrow> a < 0x80 \<Longrightarrow> a \<noteq> 0x0D \<Longrightarrow> a \<noteq> 0x0A \<Longrightarrow> plain a (scast a) = Some y \<Longrightarrow> unit_read plain high [a] y"
| character: "0x80 \<le> n \<Longrightarrow> n < 0x200000 \<Longrightarrow> high (word_of_nat n) = Some y \<Longrightarrow> unit_read plain high (utf8_of n) y"

lemma utf8_of_first:
  assumes "0x80 \<le> n" "n < 0x200000"
  shows "\<exists>x xs. utf8_of n = x # xs \<and> 0x80 \<le> x"
proof -
  have q: "n div 2 ^ k < b" if "n < b * 2 ^ k" for k b using that by (simp only: div_less_iff_less_mult zero_less_power zero_less_numeral)
  have "n div 2 ^ 6 < 32" if "n < 0x800" using that by (intro q) simp
  moreover have "n div 2 ^ 12 < 16" if "n < 0x10000" using that by (intro q) simp
  moreover have "n div 2 ^ 18 < 8" using assms by (intro q) simp
  moreover have "(0x80 :: octet) \<le> word_of_nat v" if "0x80 \<le> v" "v < 256" for v using that by (simp add: word_le_nat_alt)
  ultimately show ?thesis using assms unfolding utf8_of_def utf8_numbers_def by (auto simp del: of_nat_add)
qed

lemma unit_first: "unit_read plain high u y \<Longrightarrow> \<exists>x xs. u = x # xs \<and> x \<noteq> 0x0A \<and> x \<noteq> 0"
proof (induction rule: unit_read.induct)
  case (character n y)
  with utf8_of_first [of n] show ?case by fastforce
qed auto

lemma next_no_newline:
  assumes "list_all2 (unit_read plain high) us ys" "holds m i (concat us @ [0])"
  shows "\<exists>x. mem_at m i = Some x \<and> x \<noteq> 0x0A"
proof (cases us)
  case (Cons u us')
  then obtain y where "unit_read plain high u y" using assms(1) by (auto simp: list_all2_Cons1)
  from unit_first [OF this] assms(2) show ?thesis by (auto simp: Cons)
qed (use assms in auto)

lemma holds_append: "holds m i (xs @ ys) \<longleftrightarrow> holds m i xs \<and> holds m (i + length xs) ys"
  by (induction xs arbitrary: i) auto

lemma unit_character:
  assumes n: "0x80 \<le> n" "n < 0x200000" and h: "holds m si (utf8_of n)"
  shows "\<exists>x. mem_at m si = Some x \<and> x AND 0x80 \<noteq> 0" "uni_utf8toucs4 m si = Some (Some (word_of_nat n, length (utf8_of n)))"
proof -
  show "\<exists>x. mem_at m si = Some x \<and> x AND 0x80 \<noteq> 0" using utf8_of_first [OF n] h by (auto simp: ascii_iff)
  have "length (utf8_of n) = length (utf8_numbers n)" by (simp add: utf8_of_def)
  then show "uni_utf8toucs4 m si = Some (Some (word_of_nat n, length (utf8_of n)))"
    using utf8_numbers_read [of n m si] n h by (simp add: utf8_of_def)
qed

lemma octets_step:
  assumes u: "unit_read plain high u y" and h: "holds m si (u @ [z])" and z: "z \<noteq> 0x0A"
    and c: "si + length u \<le> chars" and w: "wrote dest out" "length out < length dest"
  shows "\<exists>d. octets_loop plain high m chars C_LINE_LF ci si (length out) dest =
      octets_loop plain high m chars C_LINE_LF (ci + 1) (si + length u) (length out + 1) d \<and> wrote d (out @ [y]) \<and> length d = length dest"
proof -
  obtain d where d: "mem_write dest (length out) [y] = Some d" "wrote d (out @ [y])" "length d = length dest"
    using wrote_more [OF w(1), of "[y]"] w(2) by auto
  have s: "scast (0x0D :: octet) = (0x0D :: ulong)" "scast (0x0A :: octet) = (0x0A :: ulong)" by simp_all
  from u show ?thesis
  proof cases
    case newline
    then show ?thesis using h c d by (intro exI [of _ d]) (subst octets_loop.simps, simp add: ascii_iff fromCRLF_def)
  next
    case return
    then show ?thesis using h c d z by (intro exI [of _ d]) (subst octets_loop.simps, simp add: ascii_iff fromCRLF_def)
  next
    case (ascii a)
    then have "a \<noteq> 0" by simp
    with ascii show ?thesis using h c d by (intro exI [of _ d]) (subst octets_loop.simps, simp add: ascii_iff)
  next
    case (character n)
    have hn: "holds m si (utf8_of n)" using h by (simp add: holds_append character(1))
    obtain x where x: "mem_at m si = Some x" "x AND 0x80 \<noteq> 0" using unit_character(1) [OF character(2,3) hn] by blast
    have r: "uni_utf8toucs4 m si = Some (Some (word_of_nat n, length u))"
      using unit_character(2) [OF character(2,3) hn] by (simp add: character(1))
    have "length u \<noteq> 0" using utf8_of_first [OF character(2,3)] by (auto simp: character(1))
    then have "si < chars" using c by linarith
    then show ?thesis using d by (intro exI [of _ d]) (subst octets_loop.simps, simp add: x r character(4))
  qed
qed

text \<open>The text may end with its zero or with the number of octets.\<close>

definition read_as :: "octet list \<Rightarrow> octet list \<Rightarrow> octet list \<Rightarrow> conversion \<Rightarrow> bool" where
  "read_as out ys dest r \<longleftrightarrow> (\<exists>chars utf_read d. r = Some (Inr \<lparr>cv_chars = chars, cv_read = utf_read, cv_written = length out + length ys + 1, cv_dest = d\<rparr>) \<and>
     wrote d (out @ ys @ [0]) \<and> length d = length dest)"

lemma finish_octets_read:
  assumes "wrote dest out" "length out < length dest"
  shows "read_as out [] dest (finish_octets chars utf_read (length out) dest)"
proof -
  obtain d where "mem_write dest (length out) [0] = Some d" "wrote d (out @ [0])" "length d = length dest"
    using wrote_more [OF assms(1), of "[0]"] assms(2) by auto
  then show ?thesis by (simp add: finish_octets_def converted_to_def read_as_def)
qed

lemma octets_loop_reads:
  "list_all2 (unit_read plain high) us ys \<Longrightarrow> holds m si (concat us @ [0]) \<Longrightarrow> si + length (concat us) \<le> chars \<Longrightarrow>
   wrote dest out \<Longrightarrow> length out + length ys < length dest \<Longrightarrow>
   read_as out ys dest (octets_loop plain high m chars C_LINE_LF ci si (length out) dest)"
proof (induction us ys arbitrary: si ci dest out rule: list_all2_induct)
  case Nil
  then show ?case using finish_octets_read [of dest out] by (subst octets_loop.simps) simp
next
  case (Cons u us y ys)
  have h: "holds m si u" "holds m (si + length u) (concat us @ [0])" using Cons(4) by (simp_all add: holds_append add.assoc)
  obtain z where z: "mem_at m (si + length u) = Some z" "z \<noteq> 0x0A" using next_no_newline [OF Cons(2) h(2)] by blast
  have hz: "holds m si (u @ [z])" using h(1) z(1) by (simp add: holds_append)
  have "si + length u \<le> chars" "length out < length dest" using Cons(5,7) by simp_all
  from octets_step [OF Cons(1) hz z(2) this(1) Cons(6) this(2), of ci] obtain d1 where
    d1: "octets_loop plain high m chars C_LINE_LF ci si (length out) dest =
      octets_loop plain high m chars C_LINE_LF (ci + 1) (si + length u) (length out + 1) d1" "wrote d1 (out @ [y])" "length d1 = length dest"
    by blast
  have "read_as (out @ [y]) ys d1 (octets_loop plain high m chars C_LINE_LF (ci + 1) (si + length u) (length (out @ [y])) d1)"
    by (rule Cons(3)) (use Cons(5,7) h(2) d1(2,3) in simp_all)
  then show ?case using d1(1,3) by (simp add: read_as_def add.assoc)
qed

section \<open>The branches\<close>

text \<open>The branches swallow a character 0x1D behind a newline and 0x1A behind a carriage return.\<close>

definition whole :: "octet list \<Rightarrow> bool" where
  "whole src \<longleftrightarrow> (\<forall>i. Suc i < length src \<longrightarrow>
     \<not> (src ! i = 0x0A \<and> src ! Suc i = 0x1D) \<and> \<not> (src ! i = 0x0D \<and> src ! Suc i = 0x1A))"

lemma ucast_scast [simp]: "ucast (scast (y :: octet) :: ulong) = y"
  by transfer (simp add: take_bit_signed_take_bit)

lemma scast_inj [simp]: "(scast (x :: octet) :: ulong) = scast (y :: octet) \<longleftrightarrow> x = y"
  by (metis ucast_scast)

lemma scast_ends:
  "scast (y :: octet) = (0x0D :: ulong) \<longleftrightarrow> y = 0x0D" "scast (y :: octet) = (0x0A :: ulong) \<longleftrightarrow> y = 0x0A"
  "scast (y :: octet) = (0x1D :: ulong) \<longleftrightarrow> y = 0x1D" "scast (y :: octet) = (0x1A :: ulong) \<longleftrightarrow> y = 0x1A"
  using scast_inj [of y "0x0D"] scast_inj [of y "0x0A"] scast_inj [of y "0x1D"] scast_inj [of y "0x1A"] by simp_all

text \<open>What \<open>put_plain\<close> and \<open>toCRLF\<close> append.\<close>

definition plain_utf8 :: "octet \<Rightarrow> octet list" where
  "plain_utf8 x = (if x = 0x0A then [0x0D, 0x0A] else [x])"

lemma mem_write_nth: "i < length m \<Longrightarrow> mem_write m i [x] = Some (m[i := x])"
  by (simp add: mem_write_def upd_conv_take_nth_drop)

lemma wrote_update: "wrote m out \<Longrightarrow> length out < length m \<Longrightarrow> wrote (m[length out := x]) (out @ [x])"
  by (simp add: wrote_def take_Suc_conv_app_nth)

lemma toCRLF_ends:
  assumes w: "whole src" "si < length src" and l: "length out + 1 < length m"
  shows "src ! si = 0x0A \<Longrightarrow> toCRLF le src (length src) C_LINE_LF BYTE_LENGTH si (length out) m =
      Some (0, length out + 1, m[length out := 0x0D, length out + 1 := 0x0A])"
    and "src ! si = 0x0D \<Longrightarrow> toCRLF le src (length src) C_LINE_LF BYTE_LENGTH si (length out) m = Some (0, length out, m[length out := 0x0D])"
  using assms unfolding toCRLF_def
  by (auto simp: var_at_def mem_at_def whole_def scast_ends mem_write_nth)

lemma put_plain_wrote:
  assumes w: "whole src" "si < length src" and o: "wrote m out" "length out + length (plain_utf8 (src ! si)) < length m"
  shows "\<exists>m'. go_on (put_plain src (length src) C_LINE_LF si (length out) m) =
      Some (Inr (0, length out + length (plain_utf8 (src ! si)), m')) \<and> wrote m' (out @ plain_utf8 (src ! si)) \<and> length m' = length m"
proof -
  have l: "length out < length m" using o(2) by simp
  have x: "mem_at src si = Some (src ! si)" using w(2) by (simp add: mem_at_def)
  consider "src ! si = 0x0A" | "src ! si = 0x0D" | "src ! si \<noteq> 0x0A" "src ! si \<noteq> 0x0D" by blast
  then show ?thesis
  proof cases
    case 1
    then have l2: "length out + 1 < length m" using o(2) by (simp add: plain_utf8_def)
    from wrote_update [OF wrote_update [OF o(1) l, of "0x0D"], of "0x0A"] l2
    show ?thesis using toCRLF_ends(1) [OF w l2 1] 1 x by (simp add: put_plain_def go_on_def plain_utf8_def)
  next
    case 2
    have "toCRLF False src (length src) C_LINE_LF BYTE_LENGTH si (length out) m = Some (0, length out, m[length out := 0x0D])"
      using 2 w l by (auto simp: toCRLF_def var_at_def mem_at_def whole_def scast_ends mem_write_nth)
    then show ?thesis using wrote_update [OF o(1) l] 2 x by (simp add: put_plain_def go_on_def plain_utf8_def)
  next
    case 3
    then show ?thesis using wrote_update [OF o(1) l] x l by (simp add: put_plain_def go_on_def plain_utf8_def mem_write_nth)
  qed
qed

definition latin1_utf8 :: "octet \<Rightarrow> octet list" where
  "latin1_utf8 x = (if x < 0x80 then plain_utf8 x else utf8_of (unat x))"

lemma latin1_emits: "whole src \<Longrightarrow> emits (latin1_body src (length src) C_LINE_LF) (length src) (\<lambda>i. latin1_utf8 (src ! i))"
  unfolding emits_def
proof (intro allI impI)
  fix si and m out :: "octet list"
  assume w: "whole src" and si: "si < length src" and o: "wrote m out" "length out + length (latin1_utf8 (src ! si)) < length m"
  have x: "mem_at src si = Some (src ! si)" using si by (simp add: mem_at_def)
  show "\<exists>m'. latin1_body src (length src) C_LINE_LF si (length out) m = Some (Inr (0, length out + length (latin1_utf8 (src ! si)), m')) \<and>
      wrote m' (out @ latin1_utf8 (src ! si)) \<and> length m' = length m"
  proof (cases "src ! si < 0x80")
    case True
    then show ?thesis using put_plain_wrote [OF w si o(1)] o(2) by (simp add: latin1_body_def x ascii_iff latin1_utf8_def)
  next
    case False
    then have n: "0 < unat (src ! si)" by (simp add: word_less_nat_alt)
    have n2: "unat (src ! si) < 0x80000000" using unat_octet_lt [of "src ! si"] by linarith
    from put_ucs4_wrote [OF o(1) n n2] o(2) False show ?thesis by (simp add: latin1_body_def x ascii_iff latin1_utf8_def)
  qed
qed

text \<open>The code sets with tables: a newline becomes a carriage return, and a carriage return disappears.\<close>

definition table_utf8 :: "to_tables \<Rightarrow> octet \<Rightarrow> octet list" where
  "table_utf8 ts x =
     (case table_character ts x of
        None \<Rightarrow> []
      | Some c \<Rightarrow> if c < 0x80 then (if x = 0x0A then [0x0D] else if x = 0x0D then [] else [ucast c]) else utf8_of (unat c))"

lemma unat_ushort_lt [simp]: "unat (z :: ushort) < 65536"
  using unsigned_less [of z] by simp

lemma unat_octet_lt_65536 [simp]: "unat (x :: octet) < 65536"
  using unat_octet_lt [of x] by linarith

lemma unat_wider [simp]: "unat (ucast (x :: octet) :: ulong) = unat x" "unat (ucast (z :: ushort) :: ulong) = unat z"
proof -
  have "unat x < 4294967296" "unat z < 4294967296" using unat_octet_lt [of x] unat_ushort_lt [of z] by linarith+
  then show "unat (ucast x :: ulong) = unat x" "unat (ucast z :: ulong) = unat z" by (simp_all add: unsigned_ucast_eq take_bit_nat_eq_self)
qed

lemma to_entry_less: "to_entry x t = Some c \<Longrightarrow> c < 0x10000"
  by (auto simp: to_entry_def word_less_nat_alt)

lemma table_character_less: "table_character ts x = Some c \<Longrightarrow> c < 0x10000"
  by (auto simp: table_character_def C_UTF8_UNKNOWN_def word_less_nat_alt Let_def
      dest!: to_entry_less elim!: bind_cases split: prod.splits if_splits option.splits)

lemma table_character_nonzero: "table_character ts x = Some c \<Longrightarrow> x \<noteq> 0 \<Longrightarrow> c \<noteq> 0"
  by (auto simp: table_character_def C_UTF8_UNKNOWN_def Let_def elim!: bind_cases split: prod.splits if_splits)

lemma table_emits:
  assumes w: "whole src" "0 \<notin> set src" and t: "\<And>x. x \<in> set src \<Longrightarrow> table_character ts x \<noteq> None"
  shows "emits (table_body ts src (length src) C_LINE_LF) (length src) (\<lambda>i. table_utf8 ts (src ! i))"
  unfolding emits_def
proof (intro allI impI)
  fix si and m out :: "octet list"
  assume si: "si < length src" and o: "wrote m out" "length out + length (table_utf8 ts (src ! si)) < length m"
  have l: "length out < length m" using o(2) by simp
  have x: "mem_at src si = Some (src ! si)" "src ! si \<noteq> 0" using si w(2) by (auto simp: mem_at_def) (metis nth_mem)
  obtain c where c: "table_character ts (src ! si) = Some c" using t si by (meson nth_mem option.exhaust)
  show "\<exists>m'. table_body ts src (length src) C_LINE_LF si (length out) m = Some (Inr (0, length out + length (table_utf8 ts (src ! si)), m')) \<and>
      wrote m' (out @ table_utf8 ts (src ! si)) \<and> length m' = length m"
  proof (cases "c < 0x80")
    case True
    consider "src ! si = 0x0A" | "src ! si = 0x0D" | "src ! si \<noteq> 0x0A" "src ! si \<noteq> 0x0D" by blast
    then show ?thesis
    proof cases
      case 1
      then have l2: "length out + 1 < length m" using o(2) c True by (simp add: table_utf8_def)
      have "wrote (m[length out := 0x0D, length out + 1 := 0x0A]) (out @ [0x0D])"
        using wrote_prefix [of _ "out @ [0x0D]" "[0x0A]"] wrote_update [OF wrote_update [OF o(1) l, of "0x0D"], of "0x0A"] l2 by simp
      then show ?thesis using toCRLF_ends(1) [OF w(1) si l2 1] 1 x c True by (simp add: table_body_def stay_def table_utf8_def)
    next
      case 2
      have "toCRLF False src (length src) C_LINE_LF BYTE_LENGTH si (length out) m = Some (0, length out, m[length out := 0x0D])"
        using 2 w(1) si l by (auto simp: toCRLF_def var_at_def mem_at_def whole_def scast_ends mem_write_nth)
      moreover have "wrote (m[length out := 0x0D]) out" using wrote_prefix wrote_update [OF o(1) l] by blast
      ultimately show ?thesis using 2 x c True by (simp add: table_body_def stay_def table_utf8_def)
    next
      case 3
      then show ?thesis using wrote_update [OF o(1) l] x c True l by (simp add: table_body_def put_octet_at_def table_utf8_def mem_write_nth)
    qed
  next
    case False
    have n: "0 < unat c" using False by (simp add: word_less_nat_alt)
    have n2: "unat c < 0x80000000" using table_character_less [OF c] by (simp add: word_less_nat_alt)
    from put_ucs4_wrote [OF o(1) n n2] o(2) False show ?thesis by (simp add: table_body_def x c table_utf8_def)
  qed
qed

section \<open>Code sets whose octets come back\<close>

text \<open>A code set of octets: the branch to UTF-8, the two parts of the loop from UTF-8, the octets of UTF-8
for an octet, and what comes back of it.\<close>

locale octet_code_set =
  fixes body :: "octet list \<Rightarrow> nat \<Rightarrow> body"
    and plain :: "octet \<Rightarrow> ulong \<Rightarrow> octet option"
    and high :: "ulong \<Rightarrow> octet option"
    and enc :: "octet \<Rightarrow> octet list"
    and again :: "octet \<Rightarrow> octet list"
  assumes emitted: "whole src \<Longrightarrow> 0 \<notin> set src \<Longrightarrow> emits (body src (length src)) (length src) (\<lambda>i. enc (src ! i))"
    and units: "x \<noteq> 0 \<Longrightarrow> enc x = [] \<and> again x = [] \<or> (\<exists>y. again x = [y] \<and> unit_read plain high (enc x) y)"
begin

lemma units_of:
  assumes "0 \<notin> set src"
  shows "list_all2 (unit_read plain high) (filter (\<lambda>u. u \<noteq> []) (map enc src)) (concat (map again src))"
  using assms
proof (induction src)
  case (Cons x src)
  then have x: "x \<noteq> 0" by simp
  show ?case
  proof (cases "enc x = []")
    case True
    have "\<not> unit_read plain high [] y" for y using unit_first by force
    then have "again x = []" using units [OF x] True by auto
    then show ?thesis using Cons True by simp
  next
    case False
    then obtain y where "again x = [y]" "unit_read plain high (enc x) y" using units [OF x] by blast
    then show ?thesis using Cons False by simp
  qed
qed simp

lemma concat_units: "concat (filter (\<lambda>u. u \<noteq> []) us) = concat us"
  by (induction us) auto

lemma to_utf8:
  assumes "whole src" "0 \<notin> set src" "length (concat (map enc src)) < length m"
  shows "\<exists>m'. convert_by (body src (length src)) (length src) m = Some (Inr (length (concat (map enc src)) + 1, m')) \<and>
     wrote m' (concat (map enc src) @ [0]) \<and> length m' = length m"
proof -
  have "map (\<lambda>i. enc (src ! i)) [0..<length src] = map enc src" by (rule nth_equalityI) simp_all
  then show ?thesis using convert_by_emits [OF emitted [OF assms(1,2)], of m] assms(3) by simp
qed

lemma from_utf8:
  assumes "0 \<notin> set src" "wrote m (concat (map enc src) @ [0])" "length (concat (map enc src)) \<le> chars"
    and "length (concat (map again src)) < length dest"
  shows "read_as [] (concat (map again src)) dest (octets_loop plain high m chars C_LINE_LF 0 0 0 dest)"
  using octets_loop_reads [OF units_of [OF assms(1)], of m 0 chars dest "[]" 0] assms(2-4) wrote_holds [of m "[]"]
  by (simp add: concat_units)

lemma there_and_back:
  assumes "whole src" "0 \<notin> set src" "length (concat (map enc src)) < length m" "length (concat (map again src)) < length dest"
  shows "\<exists>n m'. convert_by (body src (length src)) (length src) m = Some (Inr (n, m')) \<and> n = length (concat (map enc src)) + 1 \<and>
     read_as [] (concat (map again src)) dest (octets_loop plain high m' (n - 1) C_LINE_LF 0 0 0 dest)"
  using to_utf8 [OF assms(1-3)] from_utf8 [OF assms(2)] assms(4) by fastforce

end

lemma ucast_back [simp]: "ucast (ucast (x :: octet) :: ulong) = x"
  by transfer simp

lemma utf8_unit:
  assumes "0x80 \<le> (c :: ulong)" "c < 0x10000" "high c = Some y"
  shows "unit_read plain high (utf8_of (unat c)) y"
  using assms by (intro unit_read.character) (simp_all add: word_le_nat_alt word_less_nat_alt)

lemma plain_unit:
  assumes "x \<noteq> 0" "x < 0x80" "plain x (scast x) = Some x" "plain 0x0D 0x0A = Some 0x0A"
  shows "unit_read plain high (plain_utf8 x) x"
proof -
  have "0 < x" using assms(1) by (simp add: word_neq_0_conv)
  moreover have "unit_read plain high [0x0D, 0x0A] 0x0A" using assms(4) by (rule unit_read.newline)
  moreover have "unit_read plain high [0x0D] 0x0D" if "x = 0x0D" using assms(3) that by (intro unit_read.return) simp
  ultimately show ?thesis using assms(2,3) by (auto simp: plain_utf8_def intro: unit_read.ascii)
qed

interpretation latin1: octet_code_set "\<lambda>src chars. latin1_body src chars C_LINE_LF" "\<lambda>x c. Some (ucast c)" "iso_octet C_ISO8859_1"
  latin1_utf8 "\<lambda>x. [x]"
proof unfold_locales
  fix x :: octet
  assume x: "x \<noteq> 0"
  have "unit_read (\<lambda>x c. Some (ucast c)) (iso_octet C_ISO8859_1) (latin1_utf8 x) x"
  proof (cases "x < 0x80")
    case True
    then show ?thesis using x plain_unit [of x "\<lambda>x c. Some (ucast c)"] by (simp add: latin1_utf8_def)
  next
    case False
    then have "(0x80 :: ulong) \<le> ucast x" "(ucast x :: ulong) < 0x10000" by (simp_all add: word_le_nat_alt word_less_nat_alt)
    moreover have "unat x \<le> 255" using unat_octet_lt [of x] by linarith
    then have "iso_octet C_ISO8859_1 (ucast x) = Some x" by (simp add: iso_octet_def latin1_octet_def word_le_nat_alt)
    ultimately show ?thesis using False utf8_unit [of "ucast x"] by (simp add: latin1_utf8_def)
  qed
  then show "latin1_utf8 x = [] \<and> [x] = [] \<or> (\<exists>y. [x] = [y] \<and> unit_read (\<lambda>x c. Some (ucast c)) (iso_octet C_ISO8859_1) (latin1_utf8 x) y)" by simp
qed (simp add: latin1_emits)

end
