(* ===== verification/Koi8_Text.thy ===== *)
theory Koi8_Text
  imports Text_Exchange
begin

unbundle bit_operations_syntax

text \<open>
  KOI8-R, as an example of the code sets with tables: which octets come back, and what becomes of whole texts.
\<close>

section \<open>Evaluating the tables\<close>

lemma mem_at_eval: "mem_at (x # xs) 0 = Some x" "mem_at (x # xs) (Suc n) = mem_at xs n"
    "mem_at (x # xs) (numeral k) = mem_at xs (pred_numeral k)"
  by (simp_all add: mem_at_def numeral_eq_Suc)

lemma mem_at_cong: "i = j \<Longrightarrow> mem_at m i = mem_at m j" by simp
lemma FindException_cong: "c = d \<Longrightarrow> FindException a n c = FindException a n d" by simp
lemma find_loop_cong: "i = j \<Longrightarrow> k = l \<Longrightarrow> find_loop a i k c = find_loop a j l c" by simp

lemmas koi_arrays =
  arg_cong [where f = "\<lambda>a. mem_at a i" for i, OF koi2uniArray_def]
  arg_cong [where f = "\<lambda>a. mem_at a i" for i, OF uni2koiArray1_def]
  arg_cong [where f = "\<lambda>a. mem_at a i" for i, OF uni2koiArray2_def]
  arg_cong [where f = "\<lambda>a. mem_at a i" for i, OF exc2koiArray_def]

lemma koi_lengths: "length koi2uniArray = 128" "length uni2koiArray1 = 64" "length uni2koiArray2 = 29"
  by (simp_all add: koi2uniArray_def uni2koiArray1_def uni2koiArray2_def)

definition koi8_to :: to_tables where "koi8_to = (uni_koi2uniTable, None, None)"

definition koi8_from :: table_choice where
  "koi8_from = \<lparr>ft_table1 = uni2koiTable1, ft_table2 = Some uni2koiTable2, ft_unknown = 0x94, ft_except = Some exc2koiTable,
     ft_ibmexcept = None, ft_check = None, ft_ibmcheck = None\<rparr>"

lemma koi8_tables: "to_tables C_KOI8_R = Some koi8_to" "from_tables C_KOI8_R = Some koi8_from"
  by (simp_all add: to_tables_def from_tables_def koi8_to_def koi8_from_def C_KOI8_R_def C_EBCDIC_def C_MACINTOSH_def)

lemmas koi_eval = koi8_to_def koi8_from_def uni_koi2uniTable_def uni2koiTable1_def uni2koiTable2_def exc2koiTable_def
  koi_arrays koi_lengths mem_at_eval

lemma koi_to_eval:
  "in_to_table x uni_koi2uniTable \<longleftrightarrow> 0x80 \<le> x \<and> x < 256"
  "to_entry x uni_koi2uniTable = map_option ucast (mem_at koi2uniArray (x - 0x80))"
  by (simp_all add: in_to_table_def to_entry_def uni_koi2uniTable_def koi_lengths)

lemma koi_from_eval:
  "in_from_table c uni2koiTable1 \<longleftrightarrow> 0x410 \<le> unat c \<and> sint c < 0x450"
  "in_from_table c uni2koiTable2 \<longleftrightarrow> 0x2550 \<le> unat c \<and> sint c < 0x256D"
  "from_entry c uni2koiTable1 = mem_at uni2koiArray1 (unat c - 0x410)"
  "from_entry c uni2koiTable2 = mem_at uni2koiArray2 (unat c - 0x2550)"
  "exception_octet (Some exc2koiTable) u = FindException exc2koiArray 35 u"
  by (simp_all add: in_from_table_def from_entry_def exception_octet_def uni2koiTable1_def uni2koiTable2_def exc2koiTable_def koi_lengths)

lemma koi8_octet_eval:
  "table_octet koi8_from c =
     map_option (\<lambda>d. if d = 0 then 0x94 else d)
       (if 0x410 \<le> unat c \<and> sint c < 0x450 then mem_at uni2koiArray1 (unat c - 0x410)
        else if 0x2550 \<le> unat c \<and> sint c < 0x256D then mem_at uni2koiArray2 (unat c - 0x2550)
        else FindException exc2koiArray 35 (ucast c))"
  unfolding table_octet_def check_direct_def checked_def koi8_from_def
  by (simp add: koi_from_eval Let_def map_conv_bind_option comp_def cong del: if_weak_cong)

text \<open>One evaluation of the tables: what comes of an octet above ASCII, and what comes back.\<close>

definition koi8_octet :: "ushort \<Rightarrow> octet option" where
  "koi8_octet u = map_option (\<lambda>d. if d = 0 then 0x94 else d)
       (if 0x410 \<le> u \<and> u < 0x450 then mem_at uni2koiArray1 (unat u - 0x410)
        else if 0x2550 \<le> u \<and> u < 0x256D then mem_at uni2koiArray2 (unat u - 0x2550)
        else FindException exc2koiArray 35 u)"

lemma koi8_octet: "table_octet koi8_from (ucast u) = koi8_octet u"
proof -
  have "unat (ucast u :: ulong) < 2147483648" using unat_ushort_lt [of u] unfolding unat_wider by linarith
  then have "sint (ucast u :: ulong) = int (unat u)" using sint_ulong_small [of "ucast u"] by (simp only: unat_wider)
  then have "sint (ucast u :: ulong) < 1104 \<longleftrightarrow> unat u < 1104" "sint (ucast u :: ulong) < 9581 \<longleftrightarrow> unat u < 9581" by linarith+
  moreover have "ucast (ucast u :: ulong) = u" by transfer simp
  ultimately show ?thesis by (simp add: koi8_octet_eval koi8_octet_def word_le_nat_alt word_less_nat_alt)
qed

lemma koi8_character:
  assumes "mem_at koi2uniArray (unat x - 0x80) = Some u" "u \<noteq> 0" "0x80 \<le> unat x"
  shows "table_character koi8_to x = Some (ucast u)"
  using assms unat_octet_lt [of x] by (simp add: table_character_def koi8_to_def koi_to_eval word_unat_eq_iff del: unat_octet_lt)

definition koi8_comes_back :: "nat \<Rightarrow> bool" where
  "koi8_comes_back n \<longleftrightarrow> (case mem_at koi2uniArray n of
      None \<Rightarrow> False
    | Some u \<Rightarrow> 0x80 \<le> u \<and> koi8_octet u = Some (if n = 0x38 then 0xB7 else 0x80 + word_of_nat n))"

lemma koi8_evaluated: "list_all koi8_comes_back [0..<0x80]"
  by (simp add: koi8_comes_back_def koi8_octet_def upt_rec koi_arrays mem_at_eval FindException_def find_loop.simps cong: mem_at_cong FindException_cong find_loop_cong)

section \<open>Texts of KOI8-R\<close>

definition koi8_again :: "octet \<Rightarrow> octet list" where
  "koi8_again x = (if x = 0x0A then [0x0D] else if x = 0x0D then [] else if x = 0xB8 then [0xB7] else [x])"

lemma koi8_high:
  assumes "0x80 \<le> unat x"
  shows "\<exists>u :: ushort. table_character koi8_to x = Some (ucast u) \<and> 0x80 \<le> u \<and> table_octet koi8_from (ucast u) = Some (if x = 0xB8 then 0xB7 else x)"
proof -
  let ?n = "unat x - 0x80"
  have "?n = 0x38 \<longleftrightarrow> unat x = 0xB8" using assms by auto
  then have n: "?n < 0x80" "?n = 0x38 \<longleftrightarrow> x = 0xB8" "0x80 + word_of_nat ?n = x"
    using assms unat_octet_lt [of x] by (simp_all add: word_unat_eq_iff unat_of_nat del: unat_octet_lt)
  then have "koi8_comes_back ?n" using koi8_evaluated by (simp add: list_all_iff)
  then obtain u where u: "mem_at koi2uniArray ?n = Some u" "0x80 \<le> u" "koi8_octet u = Some (if x = 0xB8 then 0xB7 else x)"
    using n by (auto simp: koi8_comes_back_def split: option.splits)
  then have "u \<noteq> 0" by auto
  with u show ?thesis using koi8_character [OF u(1) _ assms] koi8_octet [of u] by auto
qed

lemma koi8_low: "unat x < 0x80 \<Longrightarrow> table_character koi8_to x = Some (ucast x)"
  by (simp add: table_character_def koi8_to_def koi_to_eval)
    (metis ucast_back unsigned_0)

lemma koi8_plain: "table_plain koi8_from x c = Some (ucast c)"
  by (simp add: table_plain_def koi8_from_def uni2koiTable1_def)

interpretation koi8: octet_code_set "\<lambda>src chars. table_body koi8_to src chars C_LINE_LF" "table_plain koi8_from" "table_octet koi8_from"
  "table_utf8 koi8_to" koi8_again
proof unfold_locales
  fix src
  assume "whole src" "0 \<notin> set src"
  moreover have "table_character koi8_to x \<noteq> None" for x
    using koi8_high [of x] koi8_low [of x] by (cases "unat x < 0x80") auto
  ultimately show "emits (table_body koi8_to src (length src) C_LINE_LF) (length src) (\<lambda>i. table_utf8 koi8_to (src ! i))"
    by (intro table_emits) auto
next
  fix x :: octet
  assume x: "x \<noteq> 0"
  show "table_utf8 koi8_to x = [] \<and> koi8_again x = [] \<or>
    (\<exists>y. koi8_again x = [y] \<and> unit_read (table_plain koi8_from) (table_octet koi8_from) (table_utf8 koi8_to x) y)"
  proof (cases "unat x < 0x80")
    case True
    have "unit_read (table_plain koi8_from) (table_octet koi8_from) [0x0D] 0x0D"
      by (intro unit_read.return) (simp add: koi8_plain)
    moreover have "0 < x" using x by (simp add: word_neq_0_conv)
    ultimately show ?thesis using True koi8_low [OF True]
      by (auto simp: koi8_again_def table_utf8_def word_less_nat_alt koi8_plain intro!: unit_read.ascii)
  next
    case False
    then obtain u :: ushort where u: "table_character koi8_to x = Some (ucast u)" "0x80 \<le> u"
        "table_octet koi8_from (ucast u) = Some (if x = 0xB8 then 0xB7 else x)"
      using koi8_high [of x] by auto
    have c: "(0x80 :: ulong) \<le> ucast u" "(ucast u :: ulong) < 0x10000" using u(2) by (simp_all add: word_le_nat_alt word_less_nat_alt)
    have "x \<noteq> 0x0A" "x \<noteq> 0x0D" using False by auto
    then show ?thesis using u(1,2) c utf8_unit [where high = "table_octet koi8_from" and plain = "table_plain koi8_from", OF c u(3)]
      by (auto simp: table_utf8_def koi8_again_def word_le_nat_alt word_less_nat_alt)
  qed
qed

end
