(* ===== verification/Text_Properties.thy ===== *)
theory Text_Properties
  imports Koi8_Text
begin

unbundle bit_operations_syntax

text \<open>
  What the conversion between code sets (\<open>UniCodesetConv::convert\<close>) keeps of a text and what it loses.
\<close>

section \<open>One stage of a conversion\<close>

lemmas code_set_numbers =
  C_ASCII7_def C_EBCDIC_def C_HTML3_def C_MACINTOSH_def C_WIN31_LATIN1_def C_KOI8_R_def C_UTF7_def C_ISO8859_1_def C_ISO8859_2_def
  C_ISO8859_3_def C_ISO8859_4_def C_ISO8859_5_def C_ISO8859_6_def C_ISO8859_7_def C_ISO8859_8_def C_ISO8859_9_def C_ISO8859_10_def
  C_ISO646_def C_UCS2_def C_UCS4_def C_UTF16_def C_UTF8_def C_IBM_437_def C_IBM_850_def C_IBM_852_def C_IBM_860_def C_IBM_863_def
  C_IBM_865_def C_IBM_866_def

lemma convert_to_utf8:
  assumes "from \<notin> {C_UTF8, C_UTF7, C_UTF16, C_UCS2, C_HTML3}" "to_UTF8_body le f len from C_LINE_LF = Some body"
    and "convert_by body len t = Some (Inr r)"
  shows "convert le junk tmp from C_UTF8 f len t = Some (Some r)"
  using assms by (cases r) (simp add: convert_def uni_toUTF8_def)

lemma convert_from_utf8:
  assumes "read_as [] ys dest (uni_fromUTF8 le dest f len to C_LINE_LF)"
  shows "\<exists>t. convert le junk tmp C_UTF8 to f len dest = Some (Some (length ys + 1, t)) \<and> wrote t (ys @ [0])"
  using assms by (auto simp: read_as_def convert_def)

lemma small_numbers: "(3 :: nat) = Suc (Suc (Suc 0))" "(4 :: nat) = Suc (Suc (Suc (Suc 0)))"
  by simp_all

lemma short_characters: "n < 0x10000 \<Longrightarrow> length (utf8_of n) \<le> 3" "n < 0x800 \<Longrightarrow> length (utf8_of n) \<le> 2"
  by (auto simp: utf8_of_def utf8_numbers_def)

lemma length_concat_le: "(\<And>x. x \<in> set xs \<Longrightarrow> length (f x) \<le> k) \<Longrightarrow> length (concat (map f xs)) \<le> k * length xs"
  by (induction xs) (auto simp: add_mono)

lemma latin1_length: "length (concat (map latin1_utf8 f)) \<le> 2 * length f"
proof (rule length_concat_le)
  fix x :: octet
  have "unat x < 0x800" using unat_octet_lt [of x] by linarith
  then show "length (latin1_utf8 x) \<le> 2" by (simp add: latin1_utf8_def plain_utf8_def short_characters)
qed

lemma table_length: "length (concat (map (table_utf8 ts) f)) \<le> 3 * length f"
proof (rule length_concat_le)
  fix x
  show "length (table_utf8 ts x) \<le> 3"
    by (auto simp: table_utf8_def word_less_nat_alt short_characters dest!: table_character_less split: option.splits)
qed

section \<open>ISO 8859-1\<close>

text \<open>C14: A text of ISO 8859-1 that is converted to UTF-8 and back is what it was, ends of lines included,
  though a newline is two octets in between. (Not the texts in which 0x1D follows a newline or 0x1A a
  carriage return: these two are taken for the other half of the end of a line, and swallowed.)\<close>

theorem latin1_over_utf8:
  assumes "whole f" "0 \<notin> set f" "2 * length f < length t" "length f < length t'"
  shows "\<exists>n u v. convert le junk tmp C_ISO8859_1 C_UTF8 f (length f) t = Some (Some (n, u)) \<and>
     convert le junk' tmp' C_UTF8 C_ISO8859_1 u (n - 1) t' = Some (Some (length f + 1, v)) \<and> take (length f + 1) v = f @ [0]"
proof -
  obtain n u where c: "convert_by (latin1_body f (length f) C_LINE_LF) (length f) t = Some (Inr (n, u))"
      "read_as [] f t' (octets_loop (\<lambda>x c. Some (ucast c)) (iso_octet C_ISO8859_1) u (n - 1) C_LINE_LF 0 0 0 t')"
    using latin1.there_and_back [OF assms(1,2), of t t'] latin1_length [of f] assms(3,4) by auto
  have "convert le junk tmp C_ISO8859_1 C_UTF8 f (length f) t = Some (Some (n, u))"
    by (rule convert_to_utf8 [OF _ _ c(1)]) (simp_all add: code_set_numbers to_UTF8_body_def)
  moreover have "uni_fromUTF8 le t' u (n - 1) C_ISO8859_1 C_LINE_LF =
      octets_loop (\<lambda>x c. Some (ucast c)) (iso_octet C_ISO8859_1) u (n - 1) C_LINE_LF 0 0 0 t'"
    by (simp add: uni_fromUTF8_def iso_text_def code_set_numbers)
  ultimately show ?thesis using convert_from_utf8 [of f t' le u "n - 1" C_ISO8859_1 junk' tmp'] c(2) by (auto simp: wrote_def)
qed

theorem latin1_over_utf8_witness:
  "\<exists>n u v. convert True (0, 0) [] C_ISO8859_1 C_UTF8 [0x41, 0x0A, 0xE9] 3 (replicate 8 7) = Some (Some (n, u)) \<and>
     convert True (0, 0) [] C_UTF8 C_ISO8859_1 u (n - 1) (replicate 4 7) = Some (Some (4, v)) \<and> take 4 v = [0x41, 0x0A, 0xE9, 0]"
proof -
  have w: "whole [0x41, 0x0A, 0xE9]" by (simp add: whole_def less_Suc_eq)
  from latin1_over_utf8 [OF w, of "replicate 8 7" "replicate 4 7" True "(0, 0)" "[]" "(0, 0)" "[]"] show ?thesis unfolding small_numbers by simp
qed

section \<open>KOI8-R\<close>



section \<open>Printable characters of ASCII\<close>

definition printable :: "octet \<Rightarrow> bool" where
  "printable x \<longleftrightarrow> 0x20 \<le> x \<and> x < 0x7F"

lemma printable_octet: "printable x \<Longrightarrow> x < 0x80 \<and> x \<noteq> 0x0A \<and> x \<noteq> 0x0D \<and> x \<noteq> 0 \<and> 0 < x \<and> \<not> x < 0x20"
  by (auto simp: printable_def word_le_nat_alt word_less_nat_alt)

text \<open>The tables begin above ASCII or end before its printable part.\<close>

definition beside :: "ctounitable \<Rightarrow> bool" where
  "beside t \<longleftrightarrow> 0x80 \<le> tu_offset t \<or> tu_offset t + tu_size t \<le> 0x20"

lemma beside_printable: "beside t \<Longrightarrow> printable x \<Longrightarrow> \<not> in_to_table (unat x) t"
  by (auto simp: beside_def printable_def in_to_table_def word_le_nat_alt word_less_nat_alt)

lemma tables_beside:
  "beside uni_koi2uniTable" "beside uni_iso22uniTable" "beside uni_iso32uniTable" "beside uni_iso42uniTable"
  "beside uni_iso72uniTable" "beside uni_iso102uniTable" "beside uni_ibm2uniTable" "beside uni_ibm4372uniTable"
  "beside uni_ibm8502uniTable" "beside uni_ibm8522uniTable" "beside uni_ibm8602uniTable" "beside uni_ibm8632uniTable"
  "beside uni_ibm8652uniTable" "beside uni_ibm8662uniTable" "beside uni_mac2uniTable" "beside uni_macarr2uniTable"
  by (simp_all add: beside_def uni_koi2uniTable_def uni_iso22uniTable_def uni_iso32uniTable_def uni_iso42uniTable_def
      uni_iso72uniTable_def uni_iso102uniTable_def uni_ibm2uniTable_def uni_ibm4372uniTable_def uni_ibm8502uniTable_def
      uni_ibm8522uniTable_def uni_ibm8602uniTable_def uni_ibm8632uniTable_def uni_ibm8652uniTable_def uni_ibm8662uniTable_def
      uni_mac2uniTable_def uni_macarr2uniTable_def ibm2uniArray_def macarr2uniArray_def)

lemma printable_character:
  assumes "to_tables string_type = Some ts" "string_type \<noteq> C_EBCDIC" "printable x"
  shows "table_character ts x = Some (ucast x)"
proof -
  have "(ucast x :: ulong) \<noteq> 0" using printable_octet [OF assms(3)] by (simp add: word_unat_eq_iff)
  then show ?thesis using assms(1,2) tables_beside [THEN beside_printable, OF assms(3)]
    by (auto simp: to_tables_def table_character_def split: if_splits)
qed

text \<open>The code sets in question.\<close>

definition octet_sets :: "ulong set" where
  "octet_sets = {C_ASCII7, C_ISO646, C_ISO8859_1, C_ISO8859_2, C_ISO8859_3, C_ISO8859_4, C_ISO8859_5, C_ISO8859_6, C_ISO8859_7,
     C_ISO8859_10, C_WIN31_LATIN1, C_MACINTOSH, C_KOI8_R, C_IBM_437, C_IBM_850, C_IBM_852, C_IBM_860, C_IBM_863, C_IBM_865, C_IBM_866}"

lemma octet_sets_other:
  "s \<in> octet_sets \<union> {C_ISO8859_8, C_ISO8859_9} \<Longrightarrow> s \<notin> {C_UTF8, C_UTF7, C_UTF16, C_UCS2, C_UCS4, C_HTML3}"
  unfolding octet_sets_def code_set_numbers by auto

lemma put_plain_printable:
  assumes "mem_at src si = Some x" "printable x" "wrote m out" "length out < length m"
  shows "go_on (put_plain src chars line_type si (length out) m) = Some (Inr (0, length out + 1, m[length out := x]))"
  using assms printable_octet [OF assms(2)] by (simp add: put_plain_def go_on_def mem_write_nth)

lemma octet_sets_body:
  assumes "string_type \<in> octet_sets"
  shows "\<exists>body. to_UTF8_body le src chars string_type line_type = Some body \<and>
    (\<forall>si m x out. mem_at src si = Some x \<and> printable x \<and> wrote m out \<and> length out < length m \<longrightarrow>
       body si (length out) m = Some (Inr (0, length out + 1, m[length out := x])))"
proof (cases "to_tables string_type")
  case (Some ts)
  have "string_type \<noteq> C_EBCDIC" using assms by (auto simp: octet_sets_def code_set_numbers)
  then have "table_body ts src chars line_type si (length out) m = Some (Inr (0, length out + 1, m[length out := x]))"
    if "mem_at src si = Some x" "printable x" "length out < length m" for si m x and out :: "octet list"
    using printable_character [OF Some _ that(2)] that printable_octet [OF that(2)]
    by (simp add: table_body_def put_octet_at_def mem_write_nth word_less_nat_alt)
  moreover have "to_UTF8_body le src chars string_type line_type = Some (table_body ts src chars line_type)"
    using Some by (auto simp: to_UTF8_body_def to_tables_def code_set_numbers split: if_splits)
  ultimately show ?thesis by blast
next
  case None
  then have "string_type \<in> {C_ASCII7, C_ISO646, C_ISO8859_1, C_ISO8859_5, C_ISO8859_6, C_WIN31_LATIN1}"
    using assms by (auto simp: octet_sets_def to_tables_def split: if_splits)
  then show ?thesis
    by (auto simp: to_UTF8_body_def code_set_numbers ascii_body_def latin1_body_def iso5_body_def iso6_body_def win_body_def
        put_plain_printable printable_octet ascii_iff)
qed

lemma printable_emits:
  assumes "string_type \<in> octet_sets" "\<forall>x \<in> set f. printable x"
  shows "\<exists>body. to_UTF8_body le f (length f) string_type line_type = Some body \<and> emits body (length f) (\<lambda>i. [f ! i])"
proof -
  obtain body where body: "to_UTF8_body le f (length f) string_type line_type = Some body"
    "\<And>si m x out. mem_at f si = Some x \<Longrightarrow> printable x \<Longrightarrow> wrote m out \<Longrightarrow> length out < length m \<Longrightarrow>
       body si (length out) m = Some (Inr (0, length out + 1, m[length out := x]))"
    using octet_sets_body [OF assms(1), of le f "length f" line_type] by blast
  have "emits body (length f) (\<lambda>i. [f ! i])"
    unfolding emits_def
  proof (intro allI impI)
    fix si and m out :: "octet list"
    assume "si < length f" "wrote m out" "length out + length [f ! si] < length m"
    then show "\<exists>m'. body si (length out) m = Some (Inr (0, length out + length [f ! si], m')) \<and> wrote m' (out @ [f ! si]) \<and>
        length m' = length m"
      using body(2) [of si "f ! si" m out] assms(2) wrote_update [of m out "f ! si"] by (simp add: mem_at_def)
  qed
  with body(1) show ?thesis by blast
qed

lemma plain_loop_printable:
  "\<forall>x \<in> set xs. printable x \<Longrightarrow> holds m si (xs @ [0]) \<Longrightarrow> si + length xs \<le> chars \<Longrightarrow> wrote dest out \<Longrightarrow>
   length out + length xs < length dest \<Longrightarrow> read_as out xs dest (plain_loop ascii m chars C_LINE_LF si si (length out) dest)"
proof (induction xs arbitrary: si dest out)
  case Nil
  then show ?case using finish_octets_read [of dest out] by (subst plain_loop.simps) simp
next
  case (Cons x xs)
  have x: "x < 0x80" "x \<noteq> 0x0A" "x \<noteq> 0x0D" "x \<noteq> 0" using printable_octet [of x] Cons(2) by auto
  have l: "length out < length dest" using Cons(6) by simp
  have "read_as (out @ [x]) xs (dest[length out := x]) (plain_loop ascii m chars C_LINE_LF (Suc si) (Suc si) (length (out @ [x])) (dest[length out := x]))"
    by (rule Cons(1)) (use Cons wrote_update [OF Cons(5) l] in simp_all)
  then show ?case using Cons(3,4) l x by (subst plain_loop.simps) (simp add: read_as_def mem_write_nth ascii_iff)
qed

lemma printable_units:
  assumes "\<And>x. printable x \<Longrightarrow> plain x (scast x) = Some x" "\<forall>x \<in> set xs. printable x"
  shows "list_all2 (unit_read plain high) (map (\<lambda>x. [x]) xs) xs"
  using assms by (induction xs) (auto intro!: unit_read.ascii dest: printable_octet)

lemma printable_back:
  assumes "string_type \<in> octet_sets \<union> {C_ISO8859_8, C_ISO8859_9}" "\<forall>x \<in> set xs. printable x"
    and h: "holds m 0 (xs @ [0])" "length xs \<le> chars" "length xs < length dest"
  shows "read_as [] xs dest (uni_fromUTF8 le dest m chars string_type C_LINE_LF)"
proof -
  have loop: "read_as [] xs dest (octets_loop plain high m chars C_LINE_LF 0 0 0 dest)"
    if "\<And>x. printable x \<Longrightarrow> plain x (scast x) = Some x" for plain high
    using octets_loop_reads [OF printable_units [where plain = plain, OF that assms(2)], where si = 0 and out = "[]"] h
    by (simp add: concat_map_singleton)
  have "table_plain ft x (scast x) = Some x" if "printable x" for ft x
    using printable_octet [OF that] by (simp add: table_plain_def)
  then have table: "read_as [] xs dest (table_text ft m chars C_LINE_LF dest)" for ft
    unfolding table_text_def by (intro loop)
  have iso: "read_as [] xs dest (iso_text s m chars C_LINE_LF dest)" for s
    unfolding iso_text_def by (intro loop) simp
  have plain: "read_as [] xs dest (plain_loop ascii m chars C_LINE_LF 0 0 0 dest)" for ascii
    using plain_loop_printable [OF assms(2), of m 0 chars dest "[]"] h by simp
  let ?ascii = "{C_ASCII7, C_ISO646}"
  let ?iso = "{C_ISO8859_1, C_ISO8859_5, C_ISO8859_6, C_ISO8859_7, C_ISO8859_8, C_ISO8859_9, C_WIN31_LATIN1}"
  let ?tables = "{C_ISO8859_2, C_ISO8859_3, C_ISO8859_4, C_ISO8859_10, C_MACINTOSH, C_KOI8_R, C_IBM_437, C_IBM_850, C_IBM_852,
    C_IBM_860, C_IBM_863, C_IBM_865, C_IBM_866}"
  note other = octet_sets_other [OF assms(1)]
  consider "string_type \<in> ?ascii" | "string_type \<notin> ?ascii" "string_type \<in> ?iso" | "string_type \<notin> ?ascii \<union> ?iso" "string_type \<in> ?tables"
    using assms(1) unfolding octet_sets_def by blast
  then show ?thesis
  proof cases
    case 3
    then have "from_tables string_type \<noteq> None" by (auto simp: from_tables_def)
    then show ?thesis using 3 other plain table by (auto simp: uni_fromUTF8_def)
  qed (use other plain iso in \<open>auto simp: uni_fromUTF8_def\<close>)
qed

text \<open>C15: The printable characters of ASCII survive a conversion between any two of twenty-two code sets of
  octets (ISO 8859, ASCII, Windows Latin 1, Macintosh, KOI8-R and the IBM code pages; ISO 8859-8 and 8859-9 only
  as the target): the text arrives unchanged and closed with a zero.\<close>

theorem printable_everywhere:
  assumes "from \<in> octet_sets" "to \<in> octet_sets \<union> {C_ISO8859_8, C_ISO8859_9}" "\<forall>x \<in> set f. printable x"
    and "length tmp = length f * 6 + 1" "length f < length t"
  shows "\<exists>u. convert le junk tmp from to f (length f) t = Some (Some (length f + 1, u)) \<and> take (length f + 1) u = f @ [0]"
proof -
  obtain body where body: "to_UTF8_body le f (length f) from C_LINE_LF = Some body" "emits body (length f) (\<lambda>i. [f ! i])"
    using printable_emits [OF assms(1,3)] by blast
  have "concat (map (\<lambda>i. [f ! i]) [0..<length f]) = f" by (simp add: concat_map_singleton map_nth)
  then obtain m where m: "convert_by body (length f) tmp = Some (Inr (length f + 1, m))" "wrote m (f @ [0])"
    using convert_by_emits [OF body(2), of tmp] assms(4) by auto
  have "read_as [] f t (uni_fromUTF8 le t m (length f + 1) to C_LINE_LF)"
    by (rule printable_back [OF assms(2,3)]) (use wrote_holds [of m "[]"] m(2) assms(5) in simp_all)
  moreover have other: "from \<notin> {C_UTF8, C_UTF7, C_UTF16, C_UCS2, C_UCS4, C_HTML3}" "to \<noteq> C_UTF8"
    using octet_sets_other [of "from"] octet_sets_other [OF assms(2)] assms(1) by simp_all
  moreover have "uni_toUTF8 le junk tmp f (length f) from C_LINE_LF = Some (Inr (length f + 1, m))"
    using body(1) m(1) other(1) by (simp add: uni_toUTF8_def)
  ultimately show ?thesis using assms(4) by (auto simp: convert_def read_as_def wrote_def)
qed

theorem printable_everywhere_witness:
  "\<exists>u. convert True (0, 0) (replicate 13 7) C_KOI8_R C_IBM_850 [0x41, 0x7E] 2 (replicate 3 7) = Some (Some (3, u)) \<and>
     take 3 u = [0x41, 0x7E, 0]"
proof -
  have "C_KOI8_R \<in> octet_sets" "C_IBM_850 \<in> octet_sets \<union> {C_ISO8859_8, C_ISO8859_9}" by (simp_all add: octet_sets_def)
  from printable_everywhere [OF this, of "[0x41, 0x7E]" "replicate 13 7" "replicate 3 7" True "(0, 0)"]
  show ?thesis unfolding numeral_2_eq_2 numeral_3_eq_3 by (simp add: printable_def)
qed

section \<open>Texts that are lost\<close>

text \<open>A branch that never moves its position.\<close>

lemma convert_by_stuck:
  assumes b: "\<And>si m. si < chars \<Longrightarrow> m \<noteq> [] \<Longrightarrow> \<exists>m'. body si 0 m = Some (Inr (0, 0, m')) \<and> m' \<noteq> []" and m: "m \<noteq> []"
  shows "\<exists>m'. convert_by body chars m = Some (Inr (1, m')) \<and> mem_at m' 0 = Some 0"
proof -
  have "si \<le> chars \<Longrightarrow> m \<noteq> [] \<Longrightarrow> \<exists>m'. src_loop body chars si 0 m = Some (Inr (0, m')) \<and> m' \<noteq> []" for si m
  proof (induction "chars - si" arbitrary: si m)
    case 0
    then show ?case by (simp add: src_loop.simps)
  next
    case (Suc k)
    then have si: "si < chars" "k = chars - Suc si" by simp_all
    obtain m' where m': "body si 0 m = Some (Inr (0, 0, m'))" "m' \<noteq> []" using b [OF si(1) Suc(4)] by blast
    then have "\<exists>m''. src_loop body chars (Suc si) 0 m' = Some (Inr (0, m'')) \<and> m'' \<noteq> []"
      using Suc(1) [OF si(2)] si(1) by simp
    then show ?case using si(1) m' by (subst src_loop.simps) simp
  qed
  then obtain m' where "src_loop body chars 0 0 m = Some (Inr (0, m'))" "m' \<noteq> []" using m by blast
  then show ?thesis by (simp add: convert_by_def terminated_def mem_write_nth mem_at_def)
qed

text \<open>A text of ASCII in ISO 8859-8 or ISO 8859-9 is converted to an empty text: for these two code sets the
  position in the destination only moves for characters that are translated, so that every character is written
  over the one before it and the closing zero over the last.\<close>

theorem turkish_text_lost:
  assumes "from \<in> {C_ISO8859_8, C_ISO8859_9}" "\<forall>x \<in> set f. x < 0x80 \<and> x \<noteq> 0x0A \<and> x \<noteq> 0x0D" "t \<noteq> []"
  shows "\<exists>u. convert le junk tmp from C_UTF8 f (length f) t = Some (Some (1, u)) \<and> mem_at u 0 = Some 0"
proof -
  have plain: "stay (put_plain f (length f) C_LINE_LF si 0 m) = Some (Inr (0, 0, m[0 := f ! si]))" if "si < length f" "m \<noteq> []" for si m
    using assms(2) that by (simp add: stay_def put_plain_def mem_at_def mem_write_nth)
  obtain body where body: "to_UTF8_body le f (length f) from C_LINE_LF = Some body"
      "\<And>si m. si < length f \<Longrightarrow> m \<noteq> [] \<Longrightarrow> body si 0 m = Some (Inr (0, 0, m[0 := f ! si]))"
  proof (cases "from = C_ISO8859_8")
    case True
    have "iso8_body f (length f) C_LINE_LF si 0 m = Some (Inr (0, 0, m[0 := f ! si]))" if "si < length f" "m \<noteq> []" for si m
      using plain [OF that] assms(2) that by (simp add: iso8_body_def mem_at_def ascii_iff)
    moreover have "to_UTF8_body le f (length f) from C_LINE_LF = Some (iso8_body f (length f) C_LINE_LF)"
      by (simp add: True to_UTF8_body_def code_set_numbers)
    ultimately show ?thesis using that by blast
  next
    case False
    have "iso9_body f (length f) C_LINE_LF si 0 m = Some (Inr (0, 0, m[0 := f ! si]))" if "si < length f" "m \<noteq> []" for si m
      using plain [OF that] assms(2) that by (simp add: iso9_body_def mem_at_def ascii_iff)
    moreover have "to_UTF8_body le f (length f) from C_LINE_LF = Some (iso9_body f (length f) C_LINE_LF)"
      using False assms(1) by (simp add: to_UTF8_body_def code_set_numbers)
    ultimately show ?thesis using that by blast
  qed
  have "from \<notin> {C_UTF8, C_UTF7, C_UTF16, C_UCS2, C_HTML3}" using assms(1) by (auto simp: code_set_numbers)
  moreover obtain u where "convert_by body (length f) t = Some (Inr (1, u))" "mem_at u 0 = Some 0"
    using convert_by_stuck [of "length f" body t] body(2) assms(3) by auto
  ultimately show ?thesis using convert_to_utf8 [OF _ body(1)] by blast
qed

theorem turkish_text_lost_witness:
  "\<exists>u. convert True (0, 0) [] C_ISO8859_9 C_UTF8 [0x41, 0x42] 2 (replicate 4 7) = Some (Some (1, u)) \<and> mem_at u 0 = Some 0"
proof -
  from turkish_text_lost [of C_ISO8859_9 "[0x41, 0x42]" "replicate 4 7" True "(0, 0)" "[]"]
  show ?thesis unfolding numeral_2_eq_2 by simp
qed

text \<open>C36: A text of up to 56 octets that begins with a character of ASCII is converted from UTF-8 to an empty text
  of UTF-7: the position in the source does not move behind a character of ASCII, so that the first character is
  collected over and over, and what is collected is only written at the end of the source or at the 57th one.\<close>

theorem utf7_text_lost:
  assumes "0 < x" "x < 0x80" "x \<noteq> 0x0A" "x \<noteq> 0x0D" "length f < 56" "t \<noteq> []"
  shows "\<exists>u. convert le junk tmp C_UTF8 C_UTF7 (x # f) (length (x # f)) t = Some (Some (1, u)) \<and> mem_at u 0 = Some 0"
proof -
  let ?c = "scast x :: ulong" and ?n = "length (x # f)"
  have x: "mem_at (x # f) 0 = Some x" "x AND 0x80 = 0" "x \<noteq> 0" using assms(1,2) by (auto simp: mem_at_def ascii_iff)
  have loop: "ci \<le> ?n \<Longrightarrow> to_utf7_loop le (x # f) ?n C_LINE_LF ci 0 (replicate ci ?c) dest = utf7_finish ?n 0 dest" for ci dest
  proof (induction "?n - ci" arbitrary: ci)
    case 0
    then show ?case by (subst to_utf7_loop.simps) simp
  next
    case (Suc k)
    then have "ci < ?n" "ci + 1 \<noteq> C_BASE64_DATA" "ci \<le> C_BASE64_DATA" using assms(5) by (simp_all add: C_BASE64_DATA_def)
    moreover have "replicate ci ?c @ [?c] = replicate (Suc ci) ?c" by (simp add: replicate_append_same)
    moreover have "to_utf7_loop le (x # f) ?n C_LINE_LF (Suc ci) 0 (replicate (Suc ci) ?c) dest = utf7_finish ?n 0 dest"
      by (rule Suc(1)) (use Suc(2) in simp_all)
    ultimately show ?case using x assms(3,4) by (subst to_utf7_loop.simps) (simp del: replicate_Suc)
  qed
  have s: "strlen_at (t[0 := 0]) = Some 0" using assms(6) by (cases t) simp_all
  have "mem_write t 0 [0] = Some (t[0 := 0])" using assms(6) by (simp add: mem_write_nth)
  then have "uni_fromUTF8 le t (x # f) ?n C_UTF7 C_LINE_LF = converted_to ?n 0 1 (t[0 := 0])"
    using loop [of 0] s by (simp add: uni_fromUTF8_def to_utf7_text_def utf7_finish_def code_set_numbers del: list.size)
  then show ?thesis using assms(6) by (simp add: convert_def converted_to_def mem_at_def)
qed

theorem utf7_text_lost_witness:
  "\<exists>u. convert True (0, 0) [] C_UTF8 C_UTF7 [0x48, 0x69] 2 (replicate 4 7) = Some (Some (1, u)) \<and> mem_at u 0 = Some 0"
proof -
  from utf7_text_lost [of "0x48" "[0x69]" "replicate 4 7" True "(0, 0)" "[]"]
  show ?thesis unfolding numeral_2_eq_2 by simp
qed

end
